(* ===== verification/Mpp_Prelude.thy ===== *)
theory Mpp_Prelude
  imports Main "HOL-Library.Word"
begin

text \<open>
  Shared vocabulary of the development: the machine integer types of \<open>rk_type.h\<close>, the return
  codes of \<open>mpp_err.h\<close>, the outcome type of operations that may leave the defined behaviour of C,
  MSB-first bit lists of machine words, and the list lemmas the components share.

  Conventions. An unsigned C integer is a word of its width. A signed C integer is an \<open>int\<close>;
  signed overflow is undefined in C, so the models describe the executions without it, except where
  accepted settings cause one, which is the fault \<open>Int_Overflow\<close>, and the places where a signed value is narrowed (bit fields, casts) are written out. \<open>mpp_assert\<close> only
  logs unless the global \<open>mpp_debug\<close> has the \<open>MPP_ABORT\<close> bit, which is clear by default, so it has
  no effect in the models; \<open>slot_assert\<close> always aborts and is a \<open>fault\<close>.
\<close>

unbundle bit_operations_syntax

section \<open>Machine integers and return codes\<close>

type_synonym u8 = "8 word"
type_synonym u16 = "16 word"
type_synonym u32 = "32 word"
type_synonym u64 = "64 word"

datatype mpp_ret =
    MPP_SUCCESS | MPP_NOK | MPP_ERR_UNKNOW | MPP_ERR_NULL_PTR | MPP_ERR_MALLOC
  | MPP_ERR_OPEN_FILE | MPP_ERR_VALUE | MPP_ERR_READ_BIT | MPP_ERR_TIMEOUT | MPP_ERR_PERM
  | MPP_ERR_LIST_STREAM | MPP_ERR_INIT | MPP_ERR_VPU_CODEC_INIT | MPP_ERR_STREAM | MPP_ERR_FATAL_THREAD
  | MPP_ERR_NOMEM | MPP_ERR_PROTOL | MPP_FAIL_SPLIT_FRAME | MPP_ERR_VPUHW | MPP_EOS_STREAM_REACHED
  | MPP_ERR_BUFFER_FULL | MPP_ERR_DISPLAY_FULL

abbreviation MPP_OK :: mpp_ret where
  "MPP_OK \<equiv> MPP_SUCCESS"

text \<open>
  A \<open>fault\<close> is a point after which the C program has no defined continuation: an access outside an
  array, a division by zero, a dereferenced null pointer, a call of \<open>abort\<close>, the release of a
  mutex that is not held, a shift by a distance outside the width of the operand, or an access to an
  object that has been released. \<open>Out_Of_Fuel\<close> marks a recursion of a model that used up its bound.
\<close>

datatype fault =
    Out_Of_Bounds | Null_Deref | Div_By_Zero | Aborted | Bad_Unlock | Bad_Shift | Int_Overflow | Freed_Access | Out_Of_Fuel

type_synonym 'a run = "fault + 'a"

fun run_bind :: "'a run \<Rightarrow> ('a \<Rightarrow> 'b run) \<Rightarrow> 'b run" where
  "run_bind (Inl f) k = Inl f"
| "run_bind (Inr x) k = k x"

definition MPP_ALIGN :: "u32 \<Rightarrow> u32 \<Rightarrow> u32" where
  "MPP_ALIGN x a = (x + a - 1) AND NOT (a - 1)"

definition array_get :: "'a list \<Rightarrow> int \<Rightarrow> 'a run" where
  "array_get xs i = (if 0 \<le> i \<and> i < int (length xs) then Inr (xs ! nat i) else Inl Out_Of_Bounds)"

definition array_set :: "'a list \<Rightarrow> int \<Rightarrow> 'a \<Rightarrow> 'a list run" where
  "array_set xs i v = (if 0 \<le> i \<and> i < int (length xs) then Inr (xs[nat i := v]) else Inl Out_Of_Bounds)"

text \<open>C division truncates towards zero.\<close>

definition cdiv :: "int \<Rightarrow> int \<Rightarrow> int" where
  "cdiv a b = sgn a * sgn b * (\<bar>a\<bar> div \<bar>b\<bar>)"

definition cmod :: "int \<Rightarrow> int \<Rightarrow> int" where
  "cmod a b = a - cdiv a b * b"

section \<open>MSB-first bit lists\<close>

definition to_bits :: "nat \<Rightarrow> 'a::len word \<Rightarrow> bool list" where
  "to_bits n w = map (\<lambda>i. bit w (n - 1 - i)) [0..<n]"

definition of_bits :: "bool list \<Rightarrow> 'a::len word" where
  "of_bits bs = horner_sum of_bool 2 (rev bs)"

definition byte_bits :: "u8 list \<Rightarrow> bool list" where
  "byte_bits bs = concat (map (to_bits 8) bs)"

named_theorems bit_list_simps \<open>bit lists of words\<close>
named_theorems ctx_simps \<open>effect of the operations on the context records\<close>

lemma run_bind_Inr_iff: "run_bind m k = Inr y \<longleftrightarrow> (\<exists>x. m = Inr x \<and> k x = Inr y)"
  by (cases m) auto

lemma run_bind_Inl_iff: "run_bind m k = Inl f \<longleftrightarrow> m = Inl f \<or> (\<exists>x. m = Inr x \<and> k x = Inl f)"
  by (cases m) auto

lemma run_bind_assoc: "run_bind (run_bind m k) h = run_bind m (\<lambda>x. run_bind (k x) h)"
  by (cases m) auto

lemma array_get_in [simp]:
  "0 \<le> i \<Longrightarrow> i < int (length xs) \<Longrightarrow> array_get xs i = Inr (xs ! nat i)"
  by (simp add: array_get_def)

lemma array_set_in [simp]:
  "0 \<le> i \<Longrightarrow> i < int (length xs) \<Longrightarrow> array_set xs i v = Inr (xs[nat i := v])"
  by (simp add: array_set_def)

lemma array_get_Inr:
  "array_get xs i = Inr v \<longleftrightarrow> 0 \<le> i \<and> i < int (length xs) \<and> v = xs ! nat i"
  by (auto simp: array_get_def)

lemma array_set_Inr:
  "array_set xs i v = Inr ys \<longleftrightarrow> 0 \<le> i \<and> i < int (length xs) \<and> ys = xs[nat i := v]"
  by (auto simp: array_set_def)

subsection \<open>Conversion between words and bit lists\<close>

lemma length_to_bits [simp, bit_list_simps]: "length (to_bits n w) = n"
  by (simp add: to_bits_def)

lemma nth_to_bits [simp]: "i < n \<Longrightarrow> to_bits n w ! i = bit w (n - 1 - i)"
  by (simp add: to_bits_def)

lemma to_bits_0 [simp]: "to_bits 0 w = []"
  by (simp add: to_bits_def)

lemma bit_of_bits:
  "bit (of_bits bs :: 'a::len word) i \<longleftrightarrow>
     i < LENGTH('a) \<and> i < length bs \<and> bs ! (length bs - 1 - i)"
  by (auto simp: of_bits_def bit_horner_sum_bit_word_iff rev_nth)

lemma of_bits_Nil [simp]: "of_bits [] = 0"
  by (simp add: of_bits_def)

lemma to_bits_of_bits:
  "length bs \<le> LENGTH('a) \<Longrightarrow> to_bits (length bs) (of_bits bs :: 'a::len word) = bs"
  by (rule nth_equalityI) (auto simp: bit_of_bits)

lemma of_bits_to_bits:
  "of_bits (to_bits n (w :: 'a::len word)) = take_bit n w"
  by (rule bit_word_eqI) (auto simp: bit_of_bits bit_take_bit_iff)

lemma bit_of_bits_to_bits:
  "bit (of_bits (to_bits n (w :: 'b::len word)) :: 'a::len word) i \<longleftrightarrow> i < LENGTH('a) \<and> i < n \<and> bit w i"
  by (auto simp: bit_of_bits)

lemma to_bits_append:
  "to_bits (m + n) w = to_bits m (drop_bit n w) @ to_bits n w"
proof (rule nth_equalityI)
  fix i assume "i < length (to_bits (m + n) w)"
  then show "to_bits (m + n) w ! i = (to_bits m (drop_bit n w) @ to_bits n w) ! i"
    by (auto simp: nth_append bit_drop_bit_eq intro!: arg_cong [where f = "bit w"])
qed simp

lemma to_bits_zero: "to_bits n (0 :: 'a::len word) = replicate n False"
  by (rule nth_equalityI) auto

lemma take_to_bits:
  "k \<le> n \<Longrightarrow> take k (to_bits n w) = to_bits k (drop_bit (n - k) w)"
  using to_bits_append [of k "n - k" w] by simp

lemma drop_to_bits:
  "k \<le> n \<Longrightarrow> drop k (to_bits n w) = to_bits (n - k) w"
  using to_bits_append [of k "n - k" w] by simp

lemma of_bits_append:
  "of_bits (xs @ ys) = (push_bit (length ys) (of_bits xs) OR of_bits ys :: 'a::len word)"
proof (rule bit_word_eqI)
  fix i assume "i < LENGTH('a)"
  then show "bit (of_bits (xs @ ys) :: 'a word) i
      = bit (push_bit (length ys) (of_bits xs) OR of_bits ys :: 'a word) i"
    by (auto simp: bit_of_bits bit_or_iff bit_push_bit_iff nth_append not_less)
qed

lemma unat_of_bits_less:
  "length bs < LENGTH('a) \<Longrightarrow> unat (of_bits bs :: 'a::len word) < 2 ^ length bs"
proof -
  assume len: "length bs < LENGTH('a)"
  have "take_bit (length bs) (of_bits bs :: 'a word) = of_bits bs"
    by (rule bit_word_eqI) (auto simp: bit_take_bit_iff bit_of_bits)
  then have "unat (of_bits bs :: 'a word) = take_bit (length bs) (unat (of_bits bs :: 'a word))"
    by (metis unsigned_take_bit_eq)
  then show ?thesis
    by (metis take_bit_nat_less_exp)
qed

lemma take_bit_8 [simp]: "take_bit 8 (b :: u8) = b"
  using take_bit_length_eq [of b] by simp

lemma byte_bits_Nil [simp]: "byte_bits [] = []"
  by (simp add: byte_bits_def)

lemma byte_bits_Cons [simp]: "byte_bits (b # bs) = to_bits 8 b @ byte_bits bs"
  by (simp add: byte_bits_def)

lemma byte_bits_append [simp]: "byte_bits (xs @ ys) = byte_bits xs @ byte_bits ys"
  by (simp add: byte_bits_def)

lemma length_byte_bits [simp]: "length (byte_bits bs) = 8 * length bs"
  by (induction bs) auto

lemma uint_less_pow: "unat (w :: 'a::len word) < 2 ^ m \<Longrightarrow> uint w < 2 ^ m"
proof -
  assume "unat w < 2 ^ m"
  then have "int (unat w) < int (2 ^ m)"
    by (simp only: of_nat_less_iff)
  then show ?thesis by simp
qed

lemma sint_small: "unat (w :: u32) < 2 ^ 31 \<Longrightarrow> sint w = uint w"
proof -
  assume "unat w < 2 ^ 31"
  then have "uint w < 2 ^ 31"
    by (rule uint_less_pow)
  then show ?thesis
    by (simp add: sint_uint signed_take_bit_int_eq_self uint_ge_0 order_trans [OF _ uint_ge_0])
qed

lemma sint_of_nat_small: "k < 2 ^ 31 \<Longrightarrow> sint (of_nat k :: u32) = int k"
  using sint_small [of "of_nat k"] by (simp add: unsigned_of_nat take_bit_nat_eq_self)

subsection \<open>Alignment\<close>

lemma align_eq:
  assumes "k < 32" and "unat x + 2 ^ k \<le> 2 ^ 32"
  shows "unat (MPP_ALIGN x (2 ^ k)) = (unat x + 2 ^ k - 1) div 2 ^ k * 2 ^ k"
proof -
  let ?y = "x + mask k"
  have m: "unat (mask k :: u32) = 2 ^ k - 1"
  proof -
    have "(2::nat) ^ k < 2 ^ 32"
      using assms(1) by (rule power_strict_increasing) simp
    moreover have "mask k = (of_nat (2 ^ k - 1) :: u32)"
      by (simp add: mask_eq_exp_minus_1 of_nat_diff)
    ultimately show ?thesis
      by (simp only: unsigned_of_nat) (simp add: take_bit_nat_eq_self)
  qed
  then have y: "unat ?y = unat x + 2 ^ k - 1"
    using assms by (subst unat_add_lem [THEN iffD1]) auto
  have "MPP_ALIGN x (2 ^ k) = ?y AND NOT (mask k)"
    by (simp add: MPP_ALIGN_def mask_eq_exp_minus_1 algebra_simps)
  also have "\<dots> = push_bit k (drop_bit k ?y)"
    by (rule bit_word_eqI) (auto simp: bit_and_iff bit_not_iff bit_mask_iff bit_push_bit_iff bit_drop_bit_eq)
  finally have "unat (MPP_ALIGN x (2 ^ k)) = take_bit LENGTH(32) (push_bit k (drop_bit k (unat ?y)))"
    by (simp only: unsigned_push_bit_eq unat_drop_bit_eq)
  then have "unat (MPP_ALIGN x (2 ^ k)) = take_bit 32 (unat ?y div 2 ^ k * 2 ^ k)"
    by (simp add: push_bit_eq_mult [of k "unat ?y div 2 ^ k"] drop_bit_eq_div [of k "unat ?y"])
  moreover have "unat ?y div 2 ^ k * 2 ^ k < 2 ^ 32"
    by (rule le_less_trans [OF div_times_less_eq_dividend]) (use unsigned_less [of ?y] in simp)
  ultimately show ?thesis
    by (simp add: take_bit_nat_eq_self y)
qed

lemma align_bounds:
  assumes "k < 32" and "unat x + 2 ^ k \<le> 2 ^ 32"
  shows "unat x \<le> unat (MPP_ALIGN x (2 ^ k))" and "unat (MPP_ALIGN x (2 ^ k)) < unat x + 2 ^ k"
    and "2 ^ k dvd unat (MPP_ALIGN x (2 ^ k))"
proof -
  let ?n = "unat x + 2 ^ k - 1"
  have "?n div 2 ^ k * 2 ^ k + ?n mod 2 ^ k = ?n" "?n mod 2 ^ k < 2 ^ k"
    by (rule div_mult_mod_eq, simp)
  then show "unat x \<le> unat (MPP_ALIGN x (2 ^ k))" "unat (MPP_ALIGN x (2 ^ k)) < unat x + 2 ^ k"
    unfolding align_eq [OF assms] by linarith+
  show "2 ^ k dvd unat (MPP_ALIGN x (2 ^ k))"
    unfolding align_eq [OF assms] by simp
qed

lemma unat_or_bounds:
  fixes a b :: u32
  shows "unat a \<le> unat (a OR b)" and "unat (a OR b) \<le> unat a + unat b"
proof -
  have o: "uint (a OR b) = uint a OR uint b"
    by (rule unsigned_or_eq)
  have "uint a \<le> uint (a OR b)"
    unfolding o by (rule or_greater_eq) simp
  then show "unat a \<le> unat (a OR b)"
    by (simp add: word_le_def [symmetric] word_le_nat_alt)
  have "0 \<le> uint a AND uint b"
    by simp
  then have "uint (a OR b) \<le> uint a + uint b"
    unfolding o using plus_and_or [of "uint a" "uint b"] by linarith
  then have "int (unat (a OR b)) \<le> int (unat a + unat b)"
    by simp
  then show "unat (a OR b) \<le> unat a + unat b"
    by (simp only: of_nat_le_iff)
qed

end
