(* ===== verification/Mpp_Bitread.thy ===== *)
theory Mpp_Bitread
  imports Mpp_Prelude
begin

text \<open>
  The bit reader of \<open>mpp/base/mpp_bitread.c\<close>: the context \<open>BitReadCtx_t\<close>, the four byte loaders
  selected by \<open>PseudoCodeType\<close>, and the read, show, skip, Exp-Golomb and RBSP operations.

  The pointer \<open>data_\<close> is an offset into \<open>br_mem\<close>, the memory the stream pointer refers to; reading
  at an offset outside it is the fault \<open>Out_Of_Bounds\<close>. The field \<open>update_curbyte\<close> of the C context
  is always the loader that belongs to \<open>prevention_type\<close>, so the model dispatches on that field.
  Output parameters are results; where C leaves one unwritten on an error path, the model returns
  the value the caller passed in. \<open>RK_S64\<close> values are kept as 64-bit words.
\<close>

section \<open>State\<close>

datatype PseudoCodeType =
    PSEUDO_CODE_NONE | PSEUDO_CODE_H264_H265 | PSEUDO_CODE_H264_H265_SEI | PSEUDO_CODE_AVS2
  | PSEUDO_CODE_BUTT

record BitReadCtx =
  br_mem :: "u8 list"
  br_data :: nat
  bytes_left :: u32
  curr_byte :: u64
  num_remaining_bits :: int
  prev_two_bytes :: u64
  emulation_prevention_bytes :: u64
  used_bits :: int
  br_buf :: nat
  br_buf_len :: int
  br_ret :: mpp_ret
  prevention_type :: PseudoCodeType

section \<open>Byte loaders\<close>

definition load_byte :: "BitReadCtx \<Rightarrow> u8 \<Rightarrow> BitReadCtx" where
  "load_byte c b = c\<lparr>curr_byte := ucast b AND 0xff,
                     br_data := br_data c + 1,
                     bytes_left := bytes_left c - 1,
                     num_remaining_bits := 8,
                     prev_two_bytes := push_bit 8 (prev_two_bytes c) OR (ucast b AND 0xff)\<rparr>"

definition update_curbyte_default :: "BitReadCtx \<Rightarrow> (mpp_ret \<times> BitReadCtx) run" where
  "update_curbyte_default c =
     (if bytes_left c < 1 then Inr (MPP_ERR_READ_BIT, c)
      else run_bind (array_get (br_mem c) (int (br_data c))) (\<lambda>b. Inr (MPP_OK, load_byte c b)))"

definition update_curbyte_h264 :: "BitReadCtx \<Rightarrow> (mpp_ret \<times> BitReadCtx) run" where
  "update_curbyte_h264 c =
     (if bytes_left c < 1 then Inr (MPP_ERR_READ_BIT, c)
      else run_bind (array_get (br_mem c) (int (br_data c))) (\<lambda>x.
        if x = 0x03 \<and> prev_two_bytes c AND 0xffff = 0 then
          (let c1 = c\<lparr>br_data := br_data c + 1,
                      bytes_left := bytes_left c - 1,
                      emulation_prevention_bytes := emulation_prevention_bytes c + 1,
                      used_bits := used_bits c + 8,
                      prev_two_bytes := 0xffff\<rparr>
           in if bytes_left c1 < 1 then Inr (MPP_ERR_READ_BIT, c1)
              else run_bind (array_get (br_mem c1) (int (br_data c1)))
                     (\<lambda>b. Inr (MPP_OK, load_byte c1 b)))
        else Inr (MPP_OK, load_byte c x)))"

definition update_curbyte_h2645_sei :: "BitReadCtx \<Rightarrow> (mpp_ret \<times> BitReadCtx) run" where
  "update_curbyte_h2645_sei c =
     (if bytes_left c < 1 then Inr (MPP_ERR_READ_BIT, c)
      else run_bind (array_get (br_mem c) (int (br_data c))) (\<lambda>x.
        if x = 0x03 \<and> prev_two_bytes c AND 0xffff = 0 then
          (let c1 = c\<lparr>br_data := br_data c + 1, prev_two_bytes := 0xffff\<rparr>
           in run_bind (array_get (br_mem c1) (int (br_data c1)))
                (\<lambda>b. Inr (MPP_OK, load_byte c1 b)))
        else Inr (MPP_OK, load_byte c x)))"

definition update_curbyte_avs2 :: "BitReadCtx \<Rightarrow> (mpp_ret \<times> BitReadCtx) run" where
  "update_curbyte_avs2 c =
     (if bytes_left c < 1 then Inr (MPP_ERR_READ_BIT, c)
      else run_bind (array_get (br_mem c) (int (br_data c))) (\<lambda>x.
        let c1 = (if x = 0x02 \<and> prev_two_bytes c AND 0xffff = 0
                  then c\<lparr>curr_byte := 0, num_remaining_bits := 6, br_data := br_data c + 1\<rparr>
                  else c\<lparr>curr_byte := ucast x AND 0xff, num_remaining_bits := 8,
                         br_data := br_data c + 1\<rparr>)
        in Inr (MPP_OK, c1\<lparr>prev_two_bytes := push_bit 8 (prev_two_bytes c1) OR curr_byte c1,
                           bytes_left := bytes_left c1 - 1\<rparr>)))"

definition update_curbyte :: "BitReadCtx \<Rightarrow> (mpp_ret \<times> BitReadCtx) run" where
  "update_curbyte c = (case prevention_type c of
       PSEUDO_CODE_H264_H265 \<Rightarrow> update_curbyte_h264 c
     | PSEUDO_CODE_H264_H265_SEI \<Rightarrow> update_curbyte_h2645_sei c
     | PSEUDO_CODE_AVS2 \<Rightarrow> update_curbyte_avs2 c
     | _ \<Rightarrow> update_curbyte_default c)"

lemmas update_curbyte_defs =
  update_curbyte_def update_curbyte_default_def update_curbyte_h264_def
  update_curbyte_h2645_sei_def update_curbyte_avs2_def

lemma bytes_left_load_byte [ctx_simps, simp]: "bytes_left (load_byte c b) = bytes_left c - 1"
  by (simp add: load_byte_def)

lemma unat_pred_less: "\<not> (x :: u32) < 1 \<Longrightarrow> unat (x - 1) < unat x"
  by unat_arith

lemma update_curbyte_less:
  assumes "update_curbyte c = Inr (MPP_OK, c')"
  shows "unat (bytes_left c') < unat (bytes_left c)"
proof -
  have two: "unat (x - 1 - 1) < unat x" if "\<not> x < 1" "\<not> x - 1 < 1" for x :: u32
    using unat_pred_less [OF that(1)] unat_pred_less [OF that(2)] by simp
  show ?thesis
    using assms unat_pred_less two
    by (auto simp: update_curbyte_defs Let_def run_bind_Inr_iff
        split: PseudoCodeType.splits if_splits)
qed

section \<open>Reading and skipping bits\<close>

function read_bits_loop :: "BitReadCtx \<Rightarrow> int \<Rightarrow> u32 \<Rightarrow> (mpp_ret \<times> u32 \<times> int \<times> BitReadCtx) run" where
  "read_bits_loop c bits_left out =
     (if num_remaining_bits c < bits_left then
        (let out' = out OR ucast (push_bit (nat (bits_left - num_remaining_bits c)) (curr_byte c));
             bits_left' = bits_left - num_remaining_bits c
         in case update_curbyte c of
              Inl f \<Rightarrow> Inl f
            | Inr (ret, c') \<Rightarrow>
                if ret \<noteq> MPP_OK then Inr (MPP_ERR_READ_BIT, out', bits_left', c')
                else read_bits_loop c' bits_left' out')
      else Inr (MPP_OK, out, bits_left, c))"
  by pat_completeness auto
termination
  by (relation "measure (\<lambda>(c, bits_left, out). unat (bytes_left c))")
    (auto dest: update_curbyte_less)

declare read_bits_loop.simps [simp del]

definition mpp_read_bits :: "BitReadCtx \<Rightarrow> int \<Rightarrow> (mpp_ret \<times> u32 \<times> BitReadCtx) run" where
  "mpp_read_bits c num_bits =
     (if num_bits > 31 then Inr (MPP_ERR_READ_BIT, 0, c)
      else run_bind (read_bits_loop c num_bits 0) (\<lambda>(ret, out, bits_left, c1).
        if ret \<noteq> MPP_OK then Inr (ret, out, c1)
        else
          (let out1 = out OR ucast (signed_drop_bit (nat (num_remaining_bits c1 - bits_left)) (curr_byte c1));
               out2 = out1 AND (push_bit (nat num_bits) 1 - 1)
           in Inr (MPP_OK, out2,
                   c1\<lparr>num_remaining_bits := num_remaining_bits c1 - bits_left,
                      used_bits := used_bits c1 + num_bits\<rparr>))))"

definition mpp_read_longbits :: "BitReadCtx \<Rightarrow> int \<Rightarrow> u32 \<Rightarrow> (mpp_ret \<times> u32 \<times> BitReadCtx) run" where
  "mpp_read_longbits c num_bits out0 =
     (if num_bits < 32 then mpp_read_bits c num_bits
      else run_bind (mpp_read_bits c 16) (\<lambda>(ret, val, c1).
        if ret \<noteq> MPP_OK then Inr (MPP_ERR_READ_BIT, out0, c1)
        else run_bind (mpp_read_bits c1 (num_bits - 16)) (\<lambda>(ret1, val1, c2).
          if ret1 \<noteq> MPP_OK then Inr (MPP_ERR_READ_BIT, out0, c2)
          else Inr (MPP_OK, push_bit 16 val OR val1, c2))))"

function skip_bits_loop :: "BitReadCtx \<Rightarrow> int \<Rightarrow> (mpp_ret \<times> int \<times> BitReadCtx) run" where
  "skip_bits_loop c bits_left =
     (if num_remaining_bits c < bits_left then
        (let bits_left' = bits_left - num_remaining_bits c
         in case update_curbyte c of
              Inl f \<Rightarrow> Inl f
            | Inr (ret, c') \<Rightarrow>
                if ret \<noteq> MPP_OK then Inr (MPP_ERR_READ_BIT, bits_left', c')
                else skip_bits_loop c' bits_left')
      else Inr (MPP_OK, bits_left, c))"
  by pat_completeness auto
termination
  by (relation "measure (\<lambda>(c, bits_left). unat (bytes_left c))")
    (auto dest: update_curbyte_less)

declare skip_bits_loop.simps [simp del]

definition mpp_skip_bits :: "BitReadCtx \<Rightarrow> int \<Rightarrow> (mpp_ret \<times> BitReadCtx) run" where
  "mpp_skip_bits c num_bits =
     run_bind (skip_bits_loop c num_bits) (\<lambda>(ret, bits_left, c1).
       if ret \<noteq> MPP_OK then Inr (ret, c1)
       else Inr (MPP_OK, c1\<lparr>num_remaining_bits := num_remaining_bits c1 - bits_left,
                            used_bits := used_bits c1 + num_bits\<rparr>))"

definition mpp_skip_longbits :: "BitReadCtx \<Rightarrow> int \<Rightarrow> (mpp_ret \<times> BitReadCtx) run" where
  "mpp_skip_longbits c num_bits =
     (if num_bits < 32 then mpp_skip_bits c num_bits
      else run_bind (mpp_skip_bits c 16) (\<lambda>(ret, c1).
        if ret \<noteq> MPP_OK then Inr (MPP_ERR_READ_BIT, c1)
        else run_bind (mpp_skip_bits c1 (num_bits - 16)) (\<lambda>(ret1, c2).
          if ret1 \<noteq> MPP_OK then Inr (MPP_ERR_READ_BIT, c2) else Inr (MPP_OK, c2))))"

text \<open>The show operations run on a copy of the context, so they return no context.\<close>

definition mpp_show_bits :: "BitReadCtx \<Rightarrow> int \<Rightarrow> u32 \<Rightarrow> (mpp_ret \<times> u32) run" where
  "mpp_show_bits c num_bits out0 =
     run_bind (if num_bits < 32 then mpp_read_bits c num_bits else mpp_read_longbits c num_bits out0)
       (\<lambda>(ret, out, tmp_ctx). Inr (ret, out))"

definition mpp_show_longbits :: "BitReadCtx \<Rightarrow> int \<Rightarrow> u32 \<Rightarrow> (mpp_ret \<times> u32) run" where
  "mpp_show_longbits c num_bits out0 =
     run_bind (mpp_read_longbits c num_bits out0) (\<lambda>(ret, out, tmp_ctx). Inr (ret, out))"

lemma read_bits_loop_progress:
  "read_bits_loop c bl out = Inr (MPP_OK, out', bl', c') \<Longrightarrow>
     c' = c \<and> bl' = bl \<or> unat (bytes_left c') < unat (bytes_left c)"
proof (induction c bl out rule: read_bits_loop.induct)
  case (1 c bl out)
  show ?case
  proof (cases "num_remaining_bits c < bl")
    case True
    with "1.prems" obtain c1 where upd: "update_curbyte c = Inr (MPP_OK, c1)"
      and rec: "read_bits_loop c1 (bl - num_remaining_bits c)
        (out OR ucast (push_bit (nat (bl - num_remaining_bits c)) (curr_byte c))) = Inr (MPP_OK, out', bl', c')"
      by (auto simp: read_bits_loop.simps [of c bl out] Let_def split: sum.splits if_splits)
    from update_curbyte_less [OF upd] "1.IH" [OF True refl refl upd refl _ rec] show ?thesis
      by auto
  next
    case False
    with "1.prems" show ?thesis
      by (auto simp: read_bits_loop.simps [of c bl out])
  qed
qed

lemma mpp_read_bit_progress:
  assumes "mpp_read_bits c 1 = Inr (MPP_OK, b, c')"
  shows "unat (bytes_left c') < unat (bytes_left c)
       \<or> bytes_left c' = bytes_left c \<and> nat (num_remaining_bits c') < nat (num_remaining_bits c)"
proof -
  from assms obtain out bl c1 where
    loop: "read_bits_loop c 1 0 = Inr (MPP_OK, out, bl, c1)"
    and c': "c' = c1\<lparr>num_remaining_bits := num_remaining_bits c1 - bl, used_bits := used_bits c1 + 1\<rparr>"
    by (auto simp: mpp_read_bits_def run_bind_Inr_iff split: if_splits)
  show ?thesis
  proof (cases "num_remaining_bits c < 1")
    case True
    have "unat (bytes_left c1) < unat (bytes_left c) \<or> c1 = c \<and> bl = 1"
      using read_bits_loop_progress [OF loop] by auto
    moreover have "\<not> (c1 = c \<and> bl = 1)"
    proof
      assume "c1 = c \<and> bl = 1"
      with loop True obtain c2 where "update_curbyte c = Inr (MPP_OK, c2)"
        and "read_bits_loop c2 (1 - num_remaining_bits c)
          (0 OR ucast (push_bit (nat (1 - num_remaining_bits c)) (curr_byte c))) = Inr (MPP_OK, out, 1, c)"
        by (auto simp: read_bits_loop.simps [of c 1 0] Let_def split: sum.splits if_splits)
      from update_curbyte_less [OF this(1)] read_bits_loop_progress [OF this(2)] show False
        by auto
    qed
    ultimately show ?thesis using c' by simp
  next
    case False
    with loop have "c1 = c \<and> bl = 1"
      by (simp add: read_bits_loop.simps [of c 1 0])
    with c' False show ?thesis by simp
  qed
qed

section \<open>Exp-Golomb codes\<close>

function ue_prefix_loop :: "BitReadCtx \<Rightarrow> int \<Rightarrow> (mpp_ret \<times> int \<times> BitReadCtx) run" where
  "ue_prefix_loop c num_bits =
     (case mpp_read_bits c 1 of
        Inl f \<Rightarrow> Inl f
      | Inr (ret, b, c') \<Rightarrow>
          if ret \<noteq> MPP_OK then Inr (MPP_ERR_READ_BIT, num_bits, c')
          else if b = 0 then ue_prefix_loop c' (num_bits + 1)
          else Inr (MPP_OK, num_bits + 1, c'))"
  by pat_completeness auto
termination
  by (relation "measures [\<lambda>(c, n). unat (bytes_left c), \<lambda>(c, n). nat (num_remaining_bits c)]")
    (use mpp_read_bit_progress in fastforce)+

declare ue_prefix_loop.simps [simp del]

definition mpp_read_ue :: "BitReadCtx \<Rightarrow> u32 \<Rightarrow> (mpp_ret \<times> u32 \<times> BitReadCtx) run" where
  "mpp_read_ue c val0 =
     run_bind (ue_prefix_loop c (-1)) (\<lambda>(ret, num_bits, c1).
       if ret \<noteq> MPP_OK then Inr (MPP_ERR_READ_BIT, val0, c1)
       else if num_bits > 31 then Inr (MPP_ERR_READ_BIT, val0, c1)
       else (let val = push_bit (nat num_bits) 1 - 1
             in if num_bits > 0 then
                  run_bind (mpp_read_bits c1 num_bits) (\<lambda>(ret1, rest, c2).
                    if ret1 \<noteq> MPP_OK then Inr (MPP_ERR_READ_BIT, val, c2)
                    else Inr (MPP_OK, val + rest, c2))
                else Inr (MPP_OK, val, c1)))"

definition mpp_read_se :: "BitReadCtx \<Rightarrow> int \<Rightarrow> (mpp_ret \<times> int \<times> BitReadCtx) run" where
  "mpp_read_se c val0 =
     run_bind (mpp_read_ue c 0) (\<lambda>(ret, ue, c1).
       if ret \<noteq> MPP_OK then Inr (MPP_ERR_READ_BIT, val0, c1)
       else if ue mod 2 = 0 then Inr (MPP_OK, - sint (drop_bit 1 ue), c1)
       else Inr (MPP_OK, sint (drop_bit 1 ue + 1), c1))"

section \<open>Remaining operations\<close>

function trim_zero_tail :: "BitReadCtx \<Rightarrow> BitReadCtx run" where
  "trim_zero_tail c =
     (if bytes_left c \<noteq> 0 then
        run_bind (array_get (br_mem c) (int (br_data c + unat (bytes_left c - 1)))) (\<lambda>b.
          if b = 0 then trim_zero_tail (c\<lparr>bytes_left := bytes_left c - 1\<rparr>) else Inr c)
      else Inr c)"
  by pat_completeness auto
termination
  by (relation "measure (\<lambda>c. unat (bytes_left c))") (auto simp: unat_arith_simps)

declare trim_zero_tail.simps [simp del]

definition mpp_has_more_rbsp_data :: "BitReadCtx \<Rightarrow> (u32 \<times> BitReadCtx) run" where
  "mpp_has_more_rbsp_data c =
     run_bind (trim_zero_tail c) (\<lambda>c1.
       run_bind (if num_remaining_bits c1 = 0 then update_curbyte c1 else Inr (MPP_OK, c1)) (\<lambda>(ret, c2).
         if ret \<noteq> MPP_OK then Inr (0, c2)
         else if bytes_left c2 \<noteq> 0 then Inr (1, c2)
         else if num_remaining_bits c2 \<noteq> 0 then
           Inr (of_bool (curr_byte c2 AND (push_bit (nat (num_remaining_bits c2 - 1)) 1 - 1) \<noteq> 0), c2)
         else Inr (0, c2)))"

definition mpp_set_bitread_pseudo_code_type :: "BitReadCtx \<Rightarrow> PseudoCodeType \<Rightarrow> BitReadCtx" where
  "mpp_set_bitread_pseudo_code_type c t = c\<lparr>prevention_type := t\<rparr>"

definition mpp_set_bitread_ctx :: "u8 list \<Rightarrow> int \<Rightarrow> BitReadCtx" where
  "mpp_set_bitread_ctx mem sz =
     mpp_set_bitread_pseudo_code_type
       \<lparr>br_mem = mem, br_data = 0, bytes_left = word_of_int sz, curr_byte = 0,
        num_remaining_bits = 0, prev_two_bytes = 0xffff, emulation_prevention_bytes = 0,
        used_bits = 0, br_buf = 0, br_buf_len = sz, br_ret = MPP_OK,
        prevention_type = PSEUDO_CODE_NONE\<rparr>
       PSEUDO_CODE_NONE"

definition mpp_align_get_bits :: "BitReadCtx \<Rightarrow> (nat \<times> BitReadCtx) run" where
  "mpp_align_get_bits c =
     (if num_remaining_bits c \<noteq> 0
      then run_bind (mpp_skip_bits c (num_remaining_bits c)) (\<lambda>(ret, c1). Inr (br_data c1, c1))
      else Inr (br_data c, c))"

definition mpp_get_bits_left :: "BitReadCtx \<Rightarrow> int" where
  "mpp_get_bits_left c = sint (bytes_left c * 8 + word_of_int (num_remaining_bits c))"

definition mpp_get_bits_count :: "BitReadCtx \<Rightarrow> int" where
  "mpp_get_bits_count c = used_bits c"

definition mpp_read_signbits :: "BitReadCtx \<Rightarrow> int \<Rightarrow> int \<Rightarrow> (mpp_ret \<times> int \<times> BitReadCtx) run" where
  "mpp_read_signbits c num_bits out0 =
     run_bind (mpp_read_bits c num_bits) (\<lambda>(ret, out, c1).
       run_bind (mpp_read_bits c1 1) (\<lambda>(ret1, sign, c2).
         if ret = MPP_OK \<and> ret1 = MPP_OK
         then Inr (MPP_OK, if sign \<noteq> 0 then - sint out else sint out, c2)
         else Inr (MPP_ERR_READ_BIT, out0, c2)))"

section \<open>Specification: the stream as a list of bits\<close>

definition cur_bits :: "BitReadCtx \<Rightarrow> bool list" where
  "cur_bits c = to_bits (nat (num_remaining_bits c)) (curr_byte c)"

definition cur_wf :: "BitReadCtx \<Rightarrow> bool" where
  "cur_wf c \<longleftrightarrow> 0 \<le> num_remaining_bits c \<and> num_remaining_bits c \<le> 8 \<and> curr_byte c < 256"

text \<open>The bits of the current byte that were read already are zero.\<close>

definition cur_clean :: "BitReadCtx \<Rightarrow> bool" where
  "cur_clean c \<longleftrightarrow> take_bit (nat (num_remaining_bits c)) (curr_byte c) = curr_byte c"

definition rest_bytes :: "BitReadCtx \<Rightarrow> u8 list" where
  "rest_bytes c = take (unat (bytes_left c)) (drop (br_data c) (br_mem c))"

definition mem_wf :: "BitReadCtx \<Rightarrow> bool" where
  "mem_wf c \<longleftrightarrow> br_data c + unat (bytes_left c) \<le> length (br_mem c)"

text \<open>
  What the H.264/H.265 loader delivers: \<open>a\<close> and \<open>b\<close> are the last two bytes it saw. A byte 3 after two
  zero bytes is dropped, and the byte after it is taken as it is.
\<close>

fun unescape :: "u8 \<Rightarrow> u8 \<Rightarrow> u8 list \<Rightarrow> u8 list" where
  "unescape a b [] = []"
| "unescape a b [x] = (if x = 3 \<and> a = 0 \<and> b = 0 then [] else [x])"
| "unescape a b (x # y # ys) =
     (if x = 3 \<and> a = 0 \<and> b = 0 then y # unescape 0xff y ys else x # unescape b x (y # ys))"

text \<open>What the AVS2 loader delivers: after two zero bytes, a byte 2 stands for six zero bits.\<close>

fun avs2_payload :: "u8 \<Rightarrow> u8 \<Rightarrow> u8 list \<Rightarrow> bool list" where
  "avs2_payload a b [] = []"
| "avs2_payload a b (x # xs) =
     (if x = 2 \<and> a = 0 \<and> b = 0 then replicate 6 False @ avs2_payload b 0 xs
      else to_bits 8 x @ avs2_payload b x xs)"

definition prev_hi :: "BitReadCtx \<Rightarrow> u8" where
  "prev_hi c = ucast (drop_bit 8 (prev_two_bytes c))"

definition prev_lo :: "BitReadCtx \<Rightarrow> u8" where
  "prev_lo c = ucast (prev_two_bytes c)"

definition default_feed :: "BitReadCtx \<Rightarrow> bool list" where
  "default_feed c = byte_bits (rest_bytes c)"

definition h264_feed :: "BitReadCtx \<Rightarrow> bool list" where
  "h264_feed c = byte_bits (unescape (prev_hi c) (prev_lo c) (rest_bytes c))"

definition avs2_feed :: "BitReadCtx \<Rightarrow> bool list" where
  "avs2_feed c = avs2_payload (prev_hi c) (prev_lo c) (rest_bytes c)"

lemma rest_bytes_Nil_iff:
  assumes "mem_wf c"
  shows "rest_bytes c = [] \<longleftrightarrow> bytes_left c < 1"
proof -
  have "bytes_left c < 1 \<longleftrightarrow> unat (bytes_left c) = 0"
    by (simp add: unat_eq_0 word_less_1)
  with assms show ?thesis
    by (auto simp: rest_bytes_def mem_wf_def)
qed

lemma rest_bytes_step:
  assumes "mem_wf c" and "\<not> bytes_left c < 1"
  shows "array_get (br_mem c) (int (br_data c)) = Inr (hd (rest_bytes c))"
    and "rest_bytes c = hd (rest_bytes c) # tl (rest_bytes c)"
    and "\<And>d. br_mem d = br_mem c \<Longrightarrow> br_data d = br_data c + 1 \<Longrightarrow> bytes_left d = bytes_left c - 1
          \<Longrightarrow> mem_wf d \<and> rest_bytes d = tl (rest_bytes c)"
proof -
  from assms(2) have pos: "0 < unat (bytes_left c)" and dec: "unat (bytes_left c - 1) = unat (bytes_left c) - 1"
    by unat_arith+
  with assms(1) have lt: "br_data c < length (br_mem c)"
    by (simp add: mem_wf_def)
  have split: "rest_bytes c = br_mem c ! br_data c # take (unat (bytes_left c) - 1) (drop (br_data c + 1) (br_mem c))"
    using pos lt by (cases "unat (bytes_left c)") (auto simp: rest_bytes_def Cons_nth_drop_Suc [symmetric])
  from split lt show "array_get (br_mem c) (int (br_data c)) = Inr (hd (rest_bytes c))"
    by simp
  from split show "rest_bytes c = hd (rest_bytes c) # tl (rest_bytes c)"
    by simp
  show "mem_wf d \<and> rest_bytes d = tl (rest_bytes c)"
    if "br_mem d = br_mem c" "br_data d = br_data c + 1" "bytes_left d = bytes_left c - 1" for d
    using that split pos dec assms(1) by (simp add: rest_bytes_def mem_wf_def)
qed

lemma prev_two_zero_iff: "prev_two_bytes c AND 0xffff = 0 \<longleftrightarrow> prev_hi c = 0 \<and> prev_lo c = 0"
proof -
  have m: "(0xffff :: u64) = mask 16"
    by (simp add: mask_eq_exp_minus_1)
  have "prev_two_bytes c AND 0xffff = 0 \<longleftrightarrow> (\<forall>n<16. \<not> bit (prev_two_bytes c) n)"
    unfolding m by (auto simp: bit_eq_iff bit_take_bit_iff simp flip: take_bit_eq_mask)
  also have "\<dots> \<longleftrightarrow> (\<forall>n<8. \<not> bit (prev_two_bytes c) (8 + n)) \<and> (\<forall>n<8. \<not> bit (prev_two_bytes c) n)"
    (is "?L = (?A \<and> ?B)")
  proof
    assume "?A \<and> ?B"
    show ?L
    proof (intro allI impI)
      fix n :: nat assume "n < 16"
      with \<open>?A \<and> ?B\<close> show "\<not> bit (prev_two_bytes c) n"
        by (cases "n < 8") (use \<open>?A \<and> ?B\<close> [THEN conjunct1, rule_format, of "n - 8"] in auto)
    qed
  qed auto
  also have "\<dots> \<longleftrightarrow> prev_hi c = 0 \<and> prev_lo c = 0"
    by (auto simp: prev_hi_def prev_lo_def bit_eq_iff bit_ucast_iff bit_drop_bit_eq)
  finally show ?thesis .
qed

lemma ucast_byte_and_ff: "ucast (b :: u8) AND 0xff = (ucast b :: u64)"
proof -
  have m: "(0xff :: u64) = mask 8"
    by (simp add: mask_eq_exp_minus_1)
  show ?thesis
    unfolding m by (rule bit_word_eqI) (auto simp: bit_and_iff bit_mask_iff bit_ucast_iff dest: bit_imp_le_length)
qed

lemma prev_shift:
  "(ucast (drop_bit 8 (push_bit 8 p OR ucast (b :: u8))) :: u8) = ucast (p :: u64)"
  "(ucast (push_bit 8 p OR ucast (b :: u8)) :: u8) = b"
proof -
  have out: "\<not> bit b (8 + n)" for n
    by (auto dest: bit_imp_le_length)
  show "(ucast (drop_bit 8 (push_bit 8 p OR ucast b)) :: u8) = ucast p"
    by (rule bit_word_eqI) (simp add: bit_ucast_iff bit_drop_bit_eq bit_or_iff bit_push_bit_iff out)
  show "(ucast (push_bit 8 p OR ucast b) :: u8) = b"
    by (rule bit_word_eqI) (simp add: bit_ucast_iff bit_or_iff bit_push_bit_iff)
qed

lemma to_bits_ucast_byte: "to_bits 8 (ucast (b :: u8) :: u64) = to_bits 8 b"
  by (rule nth_equalityI) (auto simp: bit_ucast_iff)


section \<open>The contract of a byte loader, and the reader on top of it\<close>

text \<open>
  A loader with pseudo code type \<open>ptype\<close> delivers the bit list \<open>feed c\<close>: as long as it is not empty, a
  call succeeds and moves a non-empty prefix of it into the current byte; when it is empty, the call
  reports \<open>MPP_ERR_READ_BIT\<close>. Every reading operation is proved once against this contract.
\<close>

locale byte_feed =
  fixes ptype :: PseudoCodeType
    and feed :: "BitReadCtx \<Rightarrow> bool list"
    and fwf :: "BitReadCtx \<Rightarrow> bool"
  assumes feed_some: "fwf c \<Longrightarrow> prevention_type c = ptype \<Longrightarrow> feed c \<noteq> [] \<Longrightarrow>
      \<exists>c'. update_curbyte c = Inr (MPP_OK, c') \<and> fwf c' \<and> prevention_type c' = ptype \<and>
           cur_wf c' \<and> cur_clean c' \<and> num_remaining_bits c' > 0 \<and> feed c = cur_bits c' @ feed c'"
    and feed_none: "fwf c \<Longrightarrow> prevention_type c = ptype \<Longrightarrow> feed c = [] \<Longrightarrow>
      \<exists>c'. update_curbyte c = Inr (MPP_ERR_READ_BIT, c')"
    and feed_frame: "feed (c\<lparr>num_remaining_bits := n, used_bits := u\<rparr>) = feed c"
    and fwf_frame: "fwf (c\<lparr>num_remaining_bits := n, used_bits := u\<rparr>) = fwf c"
begin

definition stream :: "BitReadCtx \<Rightarrow> bool list" where
  "stream c = cur_bits c @ feed c"

definition ready :: "BitReadCtx \<Rightarrow> bool" where
  "ready c \<longleftrightarrow> fwf c \<and> prevention_type c = ptype \<and> cur_wf c"

lemma length_cur_bits: "length (cur_bits c) = nat (num_remaining_bits c)"
  by (simp add: cur_bits_def)

lemma take_bits_shifted:
  assumes "cur_wf c" and "num_remaining_bits c < bl" and "nat bl \<le> m" and "m \<le> 32"
    and "nat bl = m \<or> cur_clean c"
  shows "take_bit m (ucast (push_bit (nat (bl - num_remaining_bits c)) (curr_byte c)) :: u32)
       = push_bit (nat (bl - num_remaining_bits c)) (of_bits (cur_bits c))"
proof (rule bit_word_eqI)
  let ?r = "nat (num_remaining_bits c)" and ?k = "nat (bl - num_remaining_bits c)"
  from assms(1) have r: "0 \<le> num_remaining_bits c"
    by (simp add: cur_wf_def)
  have k: "nat bl = ?k + ?r"
    using assms(2) r by simp
  have clean: "bit (curr_byte c) j \<Longrightarrow> j < ?r" if "cur_clean c" for j
    using that by (metis bit_take_bit_iff cur_clean_def)
  fix i assume i: "i < LENGTH(32)"
  have "i < m \<and> ?k \<le> i \<and> bit (curr_byte c) (i - ?k) \<longleftrightarrow> ?k \<le> i \<and> i - ?k < ?r \<and> bit (curr_byte c) (i - ?k)"
    using assms(3,5) k clean [of "i - ?k"] by linarith
  then show "bit (take_bit m (ucast (push_bit ?k (curr_byte c)) :: u32)) i
      = bit (push_bit ?k (of_bits (cur_bits c)) :: u32) i"
    using i by (simp add: bit_take_bit_iff bit_ucast_iff bit_push_bit_iff bit_of_bits_to_bits cur_bits_def) linarith
qed

lemma take_bits_final:
  assumes "cur_wf c" and "0 \<le> bl" and "bl \<le> num_remaining_bits c" and "nat bl \<le> m"
    and "nat bl = m \<or> cur_clean c"
  shows "take_bit m (ucast (signed_drop_bit (nat (num_remaining_bits c - bl)) (curr_byte c)) :: u32)
       = of_bits (take (nat bl) (cur_bits c))"
proof (rule bit_word_eqI)
  let ?r = "nat (num_remaining_bits c)" and ?k = "nat (num_remaining_bits c - bl)"
  have k: "?r = ?k + nat bl" and le: "?r \<le> 8"
    using assms(1,2,3) by (auto simp: cur_wf_def)
  have clean: "bit (curr_byte c) j \<Longrightarrow> j < ?r" if "cur_clean c" for j
    using that by (metis bit_take_bit_iff cur_clean_def)
  fix i assume i: "i < LENGTH(32)"
  have tk: "take (nat bl) (cur_bits c) = to_bits (nat bl) (drop_bit ?k (curr_byte c))"
    using k by (simp add: cur_bits_def take_to_bits)
  have "i < m \<and> bit (curr_byte c) (?k + i) \<longleftrightarrow> i < nat bl \<and> bit (curr_byte c) (?k + i)"
    using assms(4,5) k clean [of "?k + i"] by linarith
  moreover have "bit (signed_drop_bit ?k (curr_byte c)) i = bit (curr_byte c) (?k + i)"
  proof -
    have "\<not> LENGTH(64) - ?k \<le> i"
      using i k le by simp
    then show ?thesis by (simp add: bit_signed_drop_bit_iff)
  qed
  ultimately show "bit (take_bit m (ucast (signed_drop_bit ?k (curr_byte c)) :: u32)) i
      = bit (of_bits (take (nat bl) (cur_bits c)) :: u32) i"
    using i unfolding tk
    by (simp add: bit_take_bit_iff bit_ucast_iff bit_of_bits_to_bits bit_drop_bit_eq)
qed

lemma feed_step:
  assumes "ready c" and "feed c \<noteq> []"
  obtains c' where "update_curbyte c = Inr (MPP_OK, c')" and "ready c'" and "cur_clean c'"
    and "num_remaining_bits c' > 0" and "feed c = stream c'"
  using assms feed_some [of c] by (auto simp: ready_def stream_def)

lemma read_loop_ok:
  assumes "ready c" and "0 \<le> bl" and "nat bl \<le> m" and "m \<le> 32"
    and "nat bl = m \<or> cur_clean c" and "nat bl \<le> length (stream c)"
  shows "\<exists>c' bl' out' used. read_bits_loop c bl out = Inr (MPP_OK, out', bl', c') \<and> ready c' \<and>
      0 \<le> bl' \<and> bl' \<le> num_remaining_bits c' \<and> stream c = used @ stream c' \<and>
      nat bl = length used + nat bl' \<and> (nat bl' = m \<or> cur_clean c') \<and>
      take_bit m out' = take_bit m out OR push_bit (nat bl') (of_bits used)"
  using assms
proof (induction c bl out rule: read_bits_loop.induct)
  case (1 c bl out)
  note m = \<open>m \<le> 32\<close>
  from "1.prems"(1) have wf: "cur_wf c" and r0: "0 \<le> num_remaining_bits c"
    by (simp_all add: ready_def cur_wf_def)
  show ?case
  proof (cases "num_remaining_bits c < bl")
    case True
    let ?bl1 = "bl - num_remaining_bits c"
    let ?out1 = "out OR ucast (push_bit (nat ?bl1) (curr_byte c))"
    from "1.prems"(6) True r0 have "feed c \<noteq> []"
      by (auto simp: stream_def length_cur_bits)
    with "1.prems"(1) obtain c1 where upd: "update_curbyte c = Inr (MPP_OK, c1)"
      and c1: "ready c1" "cur_clean c1" and fs: "feed c = stream c1"
      by (rule feed_step)
    have st: "stream c = cur_bits c @ stream c1"
      by (simp add: stream_def [of c] fs)
    have unf: "read_bits_loop c bl out = read_bits_loop c1 ?bl1 ?out1"
      using True upd by (simp add: read_bits_loop.simps [of c bl out] Let_def)
    have len: "nat ?bl1 \<le> length (stream c1)"
      using "1.prems"(6) True r0 by (simp add: st length_cur_bits nat_diff_distrib)
    obtain c' bl' out' used where
      res: "read_bits_loop c1 ?bl1 ?out1 = Inr (MPP_OK, out', bl', c')" "ready c'"
        "0 \<le> bl'" "bl' \<le> num_remaining_bits c'" "nat bl' = m \<or> cur_clean c'"
      and us: "stream c1 = used @ stream c'" "nat ?bl1 = length used + nat bl'"
      and val: "take_bit m out' = take_bit m ?out1 OR push_bit (nat bl') (of_bits used)"
      using "1.IH" [OF True refl refl upd refl _ c1(1) _ _ m] True r0 "1.prems"(3) c1(2) len
      by fastforce
    have "take_bit m ?out1 = take_bit m out OR push_bit (nat ?bl1) (of_bits (cur_bits c))"
      using take_bits_shifted [OF wf True "1.prems"(3) m "1.prems"(5)] by simp
    then have "take_bit m out' = take_bit m out OR push_bit (nat bl') (of_bits (cur_bits c @ used))"
      by (simp add: val us(2) of_bits_append push_bit_or push_bit_push_bit or.assoc add.commute)
    moreover have "nat bl = length (cur_bits c @ used) + nat bl'"
      using us(2) True r0 by (simp add: length_cur_bits nat_diff_distrib)
    ultimately show ?thesis
      using res st us(1) unfolding unf by (metis append.assoc)
  next
    case False
    with "1.prems" have "read_bits_loop c bl out = Inr (MPP_OK, out, bl, c)"
      by (simp add: read_bits_loop.simps [of c bl out])
    with False "1.prems" show ?thesis
      by (intro exI [of _ c] exI [of _ bl] exI [of _ out] exI [of _ "[]"]) simp
  qed
qed

lemma read_loop_err:
  assumes "ready c" and "0 \<le> bl" and "length (stream c) < nat bl"
  shows "\<exists>out' bl' c'. read_bits_loop c bl out = Inr (MPP_ERR_READ_BIT, out', bl', c')"
  using assms
proof (induction c bl out rule: read_bits_loop.induct)
  case (1 c bl out)
  let ?bl1 = "bl - num_remaining_bits c"
  let ?out1 = "out OR ucast (push_bit (nat ?bl1) (curr_byte c))"
  from "1.prems" have lt: "num_remaining_bits c < bl" and r0: "0 \<le> num_remaining_bits c"
    by (auto simp: stream_def length_cur_bits ready_def cur_wf_def)
  show ?case
  proof (cases "feed c = []")
    case True
    with "1.prems"(1) obtain c1 where "update_curbyte c = Inr (MPP_ERR_READ_BIT, c1)"
      using feed_none by (auto simp: ready_def)
    with lt show ?thesis by (simp add: read_bits_loop.simps [of c bl out] Let_def)
  next
    case False
    with "1.prems"(1) obtain c1 where upd: "update_curbyte c = Inr (MPP_OK, c1)"
      and c1: "ready c1" and fs: "feed c = stream c1"
      by (rule feed_step)
    have unf: "read_bits_loop c bl out = read_bits_loop c1 ?bl1 ?out1"
      using lt upd by (simp add: read_bits_loop.simps [of c bl out] Let_def)
    have "length (stream c1) < nat ?bl1"
      using "1.prems"(3) lt r0 by (simp add: stream_def [of c] fs length_cur_bits nat_diff_distrib)
    then show ?thesis
      using "1.IH" [OF lt refl refl upd refl _ c1] lt unfolding unf by simp
  qed
qed

lemma stream_advance:
  assumes "ready c" and "0 \<le> bl" and "bl \<le> num_remaining_bits c"
  shows "ready (c\<lparr>num_remaining_bits := num_remaining_bits c - bl, used_bits := u\<rparr>)"
    and "stream (c\<lparr>num_remaining_bits := num_remaining_bits c - bl, used_bits := u\<rparr>) = drop (nat bl) (stream c)"
    and "stream c = take (nat bl) (cur_bits c) @ drop (nat bl) (stream c)"
proof -
  have "drop (nat bl) (cur_bits c) = to_bits (nat (num_remaining_bits c - bl)) (curr_byte c)"
    using assms(2,3) by (simp add: cur_bits_def drop_to_bits nat_diff_distrib)
  then show "stream (c\<lparr>num_remaining_bits := num_remaining_bits c - bl, used_bits := u\<rparr>) = drop (nat bl) (stream c)"
    using assms(2,3) by (simp add: stream_def feed_frame length_cur_bits)
      (simp add: cur_bits_def)
  show "stream c = take (nat bl) (cur_bits c) @ drop (nat bl) (stream c)"
    using assms(2,3) by (simp add: stream_def length_cur_bits)
  show "ready (c\<lparr>num_remaining_bits := num_remaining_bits c - bl, used_bits := u\<rparr>)"
    using assms by (simp add: ready_def fwf_frame cur_wf_def)
qed

lemma read_bits_ok:
  assumes "ready c" and "0 \<le> n" and "n \<le> 31" and "nat n \<le> length (stream c)"
  shows "\<exists>c'. mpp_read_bits c n = Inr (MPP_OK, of_bits (take (nat n) (stream c)), c') \<and>
           ready c' \<and> stream c' = drop (nat n) (stream c)"
proof -
  have n32: "nat n \<le> 32"
    using assms(3) by linarith
  obtain c1 bl out used where
    loop: "read_bits_loop c n 0 = Inr (MPP_OK, out, bl, c1)" and c1: "ready c1"
    and bl: "0 \<le> bl" "bl \<le> num_remaining_bits c1"
    and us: "stream c = used @ stream c1" "nat n = length used + nat bl"
    and cl: "nat bl = nat n \<or> cur_clean c1"
    and val: "take_bit (nat n) out = take_bit (nat n) 0 OR push_bit (nat bl) (of_bits used)"
    using read_loop_ok [OF assms(1,2) order_refl n32 disjI1 [OF refl] assms(4), of 0] by blast
  let ?c' = "c1\<lparr>num_remaining_bits := num_remaining_bits c1 - bl, used_bits := used_bits c1 + n\<rparr>"
  let ?last = "ucast (signed_drop_bit (nat (num_remaining_bits c1 - bl)) (curr_byte c1)) :: u32"
  have mask: "x AND (2 ^ nat n - 1) = take_bit (nat n) x" for x :: u32
    by (simp add: take_bit_eq_mask mask_eq_exp_minus_1)
  have last: "take_bit (nat n) ?last = of_bits (take (nat bl) (cur_bits c1))"
    using take_bits_final [OF _ bl, of "nat n"] c1 us(2) cl by (auto simp: ready_def)
  have lenb: "length (take (nat bl) (cur_bits c1)) = nat bl"
    using bl by (simp add: length_cur_bits)
  have tk: "take (nat n) (stream c) = used @ take (nat bl) (cur_bits c1)"
    using us(2) stream_advance(3) [OF c1 bl] lenb
    by (metis add.commute append.assoc append_eq_conv_conj length_append us(1))
  have "mpp_read_bits c n = Inr (MPP_OK, take_bit (nat n) (out OR ?last), ?c')"
    using assms(3) loop by (simp add: mpp_read_bits_def mask)
  also have "take_bit (nat n) (out OR ?last) = of_bits (take (nat n) (stream c))"
    using lenb by (simp add: val last tk of_bits_append)
  finally have "mpp_read_bits c n = Inr (MPP_OK, of_bits (take (nat n) (stream c)), ?c')" .
  moreover have "drop (nat n) (stream c) = drop (nat bl) (stream c1)"
    using us by (simp add: add.commute)
  ultimately show ?thesis
    using stream_advance(1,2) [OF c1 bl] by auto
qed

lemma read_bits_err:
  assumes "ready c" and "length (stream c) < nat n"
  shows "\<exists>out c'. mpp_read_bits c n = Inr (MPP_ERR_READ_BIT, out, c')"
proof (cases "n > 31")
  case False
  obtain out' bl' c' where "read_bits_loop c n 0 = Inr (MPP_ERR_READ_BIT, out', bl', c')"
    using read_loop_err [of c n 0] assms by force
  with False show ?thesis by (simp add: mpp_read_bits_def)
qed (simp add: mpp_read_bits_def)

lemma read_longbits_32_ok:
  assumes "ready c" and "32 \<le> length (stream c)"
  shows "\<exists>c'. mpp_read_longbits c 32 out0 = Inr (MPP_OK, of_bits (take 32 (stream c)), c') \<and>
           ready c' \<and> stream c' = drop 32 (stream c)"
proof -
  obtain c1 where r1: "mpp_read_bits c 16 = Inr (MPP_OK, of_bits (take 16 (stream c)), c1)"
    and c1: "ready c1" "stream c1 = drop 16 (stream c)"
    using read_bits_ok [of c 16] assms by auto
  have "16 \<le> length (stream c1)"
    using assms(2) c1(2) by simp
  then obtain c2 where r2: "mpp_read_bits c1 16 = Inr (MPP_OK, of_bits (take 16 (stream c1)), c2)"
    and c2: "ready c2" "stream c2 = drop 16 (stream c1)"
    using read_bits_ok [of c1 16] c1(1) by auto
  have "take 32 (stream c) = take 16 (stream c) @ take 16 (drop 16 (stream c))"
    using take_add [of 16 16 "stream c"] by simp
  moreover have "length (take 16 (drop 16 (stream c))) = 16"
    using assms(2) by simp
  ultimately have "of_bits (take 32 (stream c))
      = (push_bit 16 (of_bits (take 16 (stream c))) OR of_bits (take 16 (stream c1)) :: u32)"
    unfolding c1(2) by (metis of_bits_append)
  with r1 r2 c1 c2 show ?thesis
    by (simp add: mpp_read_longbits_def)
qed

lemma read_bit_ok:
  assumes "ready c" and "stream c = b # rest"
  shows "\<exists>c'. mpp_read_bits c 1 = Inr (MPP_OK, of_bool b, c') \<and> ready c' \<and> stream c' = rest"
  using read_bits_ok [of c 1] assms by (simp add: of_bits_def)

lemma ue_prefix_ok:
  assumes "ready c" and "stream c = replicate k False @ True # rest"
  shows "\<exists>c'. ue_prefix_loop c n = Inr (MPP_OK, n + 1 + int k, c') \<and> ready c' \<and> stream c' = rest"
  using assms
proof (induction k arbitrary: c n)
  case 0
  then obtain c1 where "mpp_read_bits c 1 = Inr (MPP_OK, 1, c1)" "ready c1" "stream c1 = rest"
    using read_bit_ok [of c True rest] by auto
  then show ?case by (simp add: ue_prefix_loop.simps [of c n])
next
  case (Suc k)
  then obtain c1 where c1: "mpp_read_bits c 1 = Inr (MPP_OK, 0, c1)" "ready c1"
    "stream c1 = replicate k False @ True # rest"
    using read_bit_ok [of c False "replicate k False @ True # rest"] by auto
  from Suc.IH [OF c1(2,3), of "n + 1"] c1(1) show ?case
    by (simp add: ue_prefix_loop.simps [of c n] algebra_simps)
qed

lemma ue_prefix_err:
  assumes "ready c" and "stream c = replicate k False"
  shows "\<exists>n' c'. ue_prefix_loop c n = Inr (MPP_ERR_READ_BIT, n', c')"
  using assms
proof (induction k arbitrary: c n)
  case 0
  then obtain out c1 where "mpp_read_bits c 1 = Inr (MPP_ERR_READ_BIT, out, c1)"
    using read_bits_err [of c 1] by auto
  then show ?case by (simp add: ue_prefix_loop.simps [of c n])
next
  case (Suc k)
  then obtain c1 where c1: "mpp_read_bits c 1 = Inr (MPP_OK, 0, c1)" "ready c1" "stream c1 = replicate k False"
    using read_bit_ok [of c False "replicate k False"] by auto
  from Suc.IH [OF c1(2,3), of "n + 1"] c1(1) show ?case
    by (simp add: ue_prefix_loop.simps [of c n])
qed

lemma read_ue_ok:
  assumes "ready c" and "stream c = replicate k False @ True # rest" and "k \<le> 31" and "k \<le> length rest"
  shows "\<exists>c'. mpp_read_ue c val0 = Inr (MPP_OK, 2 ^ k - 1 + of_bits (take k rest), c') \<and>
           ready c' \<and> stream c' = drop k rest"
proof -
  obtain c1 where pre: "ue_prefix_loop c (-1) = Inr (MPP_OK, int k, c1)" and c1: "ready c1" "stream c1 = rest"
    using ue_prefix_ok [OF assms(1,2), of "-1"] by auto
  show ?thesis
  proof (cases "k = 0")
    case True
    with pre c1 show ?thesis by (simp add: mpp_read_ue_def)
  next
    case False
    obtain c2 where "mpp_read_bits c1 (int k) = Inr (MPP_OK, of_bits (take k rest), c2)"
      and "ready c2" "stream c2 = drop k rest"
      using read_bits_ok [of c1 "int k"] assms(3,4) c1 by auto
    with pre False assms(3) show ?thesis by (simp add: mpp_read_ue_def Let_def)
  qed
qed

lemma read_ue_err:
  assumes "ready c" and "stream c = replicate k False
      \<or> stream c = replicate k False @ True # rest \<and> (31 < k \<or> length rest < k)"
  shows "\<exists>val c'. mpp_read_ue c val0 = Inr (MPP_ERR_READ_BIT, val, c')"
proof (cases "stream c = replicate k False")
  case True
  from ue_prefix_err [OF assms(1) this, of "-1"] show ?thesis
    by (auto simp: mpp_read_ue_def)
next
  case False
  with assms(2) have st: "stream c = replicate k False @ True # rest" and bad: "31 < k \<or> length rest < k"
    by auto
  obtain c1 where pre: "ue_prefix_loop c (-1) = Inr (MPP_OK, int k, c1)" and c1: "ready c1" "stream c1 = rest"
    using ue_prefix_ok [OF assms(1) st, of "-1"] by auto
  show ?thesis
  proof (cases "31 < k")
    case True
    with pre show ?thesis by (simp add: mpp_read_ue_def)
  next
    case small: False
    with bad c1 obtain out c2 where "mpp_read_bits c1 (int k) = Inr (MPP_ERR_READ_BIT, out, c2)"
      using read_bits_err [of c1 "int k"] by auto
    with pre small bad show ?thesis by (auto simp: mpp_read_ue_def Let_def)
  qed
qed

end

subsection \<open>The loaders meet the contract\<close>

lemma cur_load_byte:
  "cur_bits (load_byte c b) = to_bits 8 b" "cur_wf (load_byte c b)" "cur_clean (load_byte c b)"
  "num_remaining_bits (load_byte c b) = 8" "prevention_type (load_byte c b) = prevention_type c"
  "prev_hi (load_byte c b) = prev_lo c" "prev_lo (load_byte c b) = b"
proof -
  have "take_bit 8 (ucast b :: u64) = ucast b"
    by (rule bit_word_eqI) (auto simp: bit_take_bit_iff bit_ucast_iff dest: bit_imp_le_length)
  then show "cur_clean (load_byte c b)"
    by (simp add: cur_clean_def load_byte_def ucast_byte_and_ff)
  have "unat b < 2 ^ LENGTH(8)"
    by (rule unsigned_less)
  then have "unat (ucast b :: u64) < 256"
    by (simp add: unsigned_ucast_eq take_bit_nat_eq_self)
  then show "cur_wf (load_byte c b)"
    by (simp add: cur_wf_def load_byte_def ucast_byte_and_ff word_less_nat_alt)
  show "prev_hi (load_byte c b) = prev_lo c"
    using prev_shift(1) [of "prev_two_bytes c" b]
    by (simp add: load_byte_def prev_hi_def prev_lo_def ucast_byte_and_ff)
qed (simp_all add: load_byte_def cur_bits_def ucast_byte_and_ff to_bits_ucast_byte
      prev_hi_def prev_lo_def prev_shift)

lemma load_byte_step:
  assumes "mem_wf c" and "\<not> bytes_left c < 1"
  shows "mem_wf (load_byte c b) \<and> rest_bytes (load_byte c b) = tl (rest_bytes c)"
  using rest_bytes_step(3) [OF assms, of "load_byte c b"] by (simp add: load_byte_def)

interpretation plain_feed: byte_feed PSEUDO_CODE_NONE default_feed mem_wf
proof
  fix c assume c: "mem_wf c" "prevention_type c = PSEUDO_CODE_NONE"
  show "\<exists>c'. update_curbyte c = Inr (MPP_OK, c') \<and> mem_wf c' \<and> prevention_type c' = PSEUDO_CODE_NONE \<and>
           cur_wf c' \<and> cur_clean c' \<and> num_remaining_bits c' > 0 \<and> default_feed c = cur_bits c' @ default_feed c'"
    if "default_feed c \<noteq> []"
  proof -
    from that have "rest_bytes c \<noteq> []"
      by (auto simp: default_feed_def)
    with c(1) have ne: "\<not> bytes_left c < 1"
      by (simp only: rest_bytes_Nil_iff not_False_eq_True)
    have "update_curbyte c = Inr (MPP_OK, load_byte c (hd (rest_bytes c)))"
      using c ne rest_bytes_step(1) [OF c(1) ne] by (simp add: update_curbyte_defs)
    moreover have "default_feed c = cur_bits (load_byte c (hd (rest_bytes c)))
        @ default_feed (load_byte c (hd (rest_bytes c)))"
      using load_byte_step [OF c(1) ne] rest_bytes_step(2) [OF c(1) ne]
      by (simp add: default_feed_def cur_load_byte) (metis byte_bits_Cons)
    ultimately show ?thesis
      using load_byte_step [OF c(1) ne] c(2) by (auto simp: cur_load_byte)
  qed
  show "\<exists>c'. update_curbyte c = Inr (MPP_ERR_READ_BIT, c')" if "default_feed c = []"
  proof -
    have "rest_bytes c = []"
      using that by (cases "rest_bytes c") (auto simp: default_feed_def to_bits_def)
    with c show ?thesis
      using rest_bytes_Nil_iff by (auto simp: update_curbyte_defs)
  qed
qed (simp_all add: default_feed_def rest_bytes_def mem_wf_def)


lemma unescape_step:
  "unescape a b (x # xs) =
     (if x = 3 \<and> a = 0 \<and> b = 0 then (case xs of [] \<Rightarrow> [] | y # ys \<Rightarrow> y # unescape 0xff y ys)
      else x # unescape b x xs)"
  by (cases xs) auto

interpretation nal_feed: byte_feed PSEUDO_CODE_H264_H265 h264_feed mem_wf
proof
  fix c assume c: "mem_wf c" "prevention_type c = PSEUDO_CODE_H264_H265"
  let ?c1 = "c\<lparr>br_data := br_data c + 1, bytes_left := bytes_left c - 1,
      emulation_prevention_bytes := emulation_prevention_bytes c + 1,
      used_bits := used_bits c + 8, prev_two_bytes := 0xffff\<rparr>"
  have hi1: "prev_hi ?c1 = 0xff" "prev_lo ?c1 = 0xff"
    by (simp_all add: prev_hi_def prev_lo_def)
  show "\<exists>c'. update_curbyte c = Inr (MPP_OK, c') \<and> mem_wf c' \<and> prevention_type c' = PSEUDO_CODE_H264_H265 \<and>
           cur_wf c' \<and> cur_clean c' \<and> num_remaining_bits c' > 0 \<and> h264_feed c = cur_bits c' @ h264_feed c'"
    if ne: "h264_feed c \<noteq> []"
  proof -
    from ne have "rest_bytes c \<noteq> []"
      by (auto simp: h264_feed_def)
    with c(1) have bl: "\<not> bytes_left c < 1"
      by (simp only: rest_bytes_Nil_iff not_False_eq_True)
    obtain x xs where rb: "rest_bytes c = x # xs"
      using rest_bytes_step(2) [OF c(1) bl] by metis
    have get: "array_get (br_mem c) (int (br_data c)) = Inr x"
      using rest_bytes_step(1) [OF c(1) bl] rb by simp
    have c1: "mem_wf ?c1" "rest_bytes ?c1 = xs"
      using rest_bytes_step(3) [OF c(1) bl, of ?c1] rb by simp_all
    show ?thesis
    proof (cases "x = 3 \<and> prev_hi c = 0 \<and> prev_lo c = 0")
      case True
      with ne rb obtain y ys where xs: "xs = y # ys"
        by (cases xs) (auto simp: h264_feed_def unescape_step)
      with c1 have bl1: "\<not> bytes_left ?c1 < 1"
        using rest_bytes_Nil_iff [OF c1(1)] by simp
      have get1: "array_get (br_mem ?c1) (int (br_data ?c1)) = Inr y"
        using rest_bytes_step(1) [OF c1(1) bl1] c1(2) xs by simp
      have "update_curbyte c = Inr (MPP_OK, load_byte ?c1 y)"
        using True c bl bl1 get get1 prev_two_zero_iff [of c] by (simp add: update_curbyte_defs)
      moreover have "h264_feed c = cur_bits (load_byte ?c1 y) @ h264_feed (load_byte ?c1 y)"
        using True load_byte_step [OF c1(1) bl1, of y] c1(2) xs hi1 rb
        by (simp add: h264_feed_def cur_load_byte unescape_step)
      ultimately show ?thesis
        using load_byte_step [OF c1(1) bl1, of y] c(2) by (auto simp: cur_load_byte)
    next
      case False
      have "update_curbyte c = Inr (MPP_OK, load_byte c x)"
        using False c bl get prev_two_zero_iff [of c] by (auto simp: update_curbyte_defs)
      moreover have "h264_feed c = cur_bits (load_byte c x) @ h264_feed (load_byte c x)"
        using False load_byte_step [OF c(1) bl, of x] rb
        by (auto simp: h264_feed_def cur_load_byte unescape_step)
      ultimately show ?thesis
        using load_byte_step [OF c(1) bl, of x] c(2) by (auto simp: cur_load_byte)
    qed
  qed
  show "\<exists>c'. update_curbyte c = Inr (MPP_ERR_READ_BIT, c')" if "h264_feed c = []"
  proof (cases "rest_bytes c")
    case Nil
    then show ?thesis
      using c rest_bytes_Nil_iff [OF c(1)] by (auto simp: update_curbyte_defs)
  next
    case (Cons x xs)
    then have bl: "\<not> bytes_left c < 1"
      using rest_bytes_Nil_iff [OF c(1)] by simp
    have esc: "x = 3" "prev_hi c = 0" "prev_lo c = 0" "xs = []"
      using that Cons by (auto simp: h264_feed_def unescape_step to_bits_def split: if_splits list.splits)
    have get: "array_get (br_mem c) (int (br_data c)) = Inr x"
      using rest_bytes_step(1) [OF c(1) bl] Cons by simp
    have "bytes_left ?c1 < 1"
      using rest_bytes_step(3) [OF c(1) bl, of ?c1] Cons esc(4) rest_bytes_Nil_iff [of ?c1] by simp
    with esc get bl c show ?thesis
      using prev_two_zero_iff [of c] by (simp add: update_curbyte_defs)
  qed
qed (simp_all add: h264_feed_def rest_bytes_def mem_wf_def prev_hi_def prev_lo_def)


lemma update_avs2_step:
  assumes c: "mem_wf c" "prevention_type c = PSEUDO_CODE_AVS2" and rb: "rest_bytes c = x # xs"
  shows "\<exists>c'. update_curbyte c = Inr (MPP_OK, c') \<and> mem_wf c' \<and> prevention_type c' = PSEUDO_CODE_AVS2 \<and>
           cur_wf c' \<and> cur_clean c' \<and> num_remaining_bits c' > 0 \<and> avs2_feed c = cur_bits c' @ avs2_feed c'"
proof -
  from rb have bl: "\<not> bytes_left c < 1"
    using rest_bytes_Nil_iff [OF c(1)] by simp
  have get: "array_get (br_mem c) (int (br_data c)) = Inr x"
    using rest_bytes_step(1) [OF c(1) bl] rb by simp
  show ?thesis
  proof (cases "x = 2 \<and> prev_hi c = 0 \<and> prev_lo c = 0")
    case True
    let ?c1 = "c\<lparr>curr_byte := 0, num_remaining_bits := 6, br_data := br_data c + 1,
        prev_two_bytes := push_bit 8 (prev_two_bytes c), bytes_left := bytes_left c - 1\<rparr>"
    have p: "prev_hi ?c1 = prev_lo c" "prev_lo ?c1 = 0"
      using prev_shift [of "prev_two_bytes c" 0] by (simp_all add: prev_hi_def prev_lo_def)
    have "update_curbyte c = Inr (MPP_OK, ?c1)"
      using True c bl get prev_two_zero_iff [of c] by (simp add: update_curbyte_defs)
    moreover have "mem_wf ?c1" "rest_bytes ?c1 = xs"
      using rest_bytes_step(3) [OF c(1) bl, of ?c1] rb by simp_all
    moreover have "cur_bits ?c1 = replicate 6 False"
      by (simp add: cur_bits_def to_bits_zero)
    ultimately show ?thesis
      using True c(2) rb p by (simp add: avs2_feed_def cur_wf_def cur_clean_def)
  next
    case False
    have "update_curbyte c = Inr (MPP_OK, load_byte c x)"
      using False c bl get prev_two_zero_iff [of c]
      by (auto simp: update_curbyte_defs load_byte_def)
    moreover have "avs2_feed c = cur_bits (load_byte c x) @ avs2_feed (load_byte c x)"
      using False load_byte_step [OF c(1) bl, of x] rb by (auto simp: avs2_feed_def cur_load_byte)
    ultimately show ?thesis
      using load_byte_step [OF c(1) bl, of x] c(2) by (auto simp: cur_load_byte)
  qed
qed

interpretation avs2: byte_feed PSEUDO_CODE_AVS2 avs2_feed mem_wf
proof
  fix c assume c: "mem_wf c" "prevention_type c = PSEUDO_CODE_AVS2"
  show "\<exists>c'. update_curbyte c = Inr (MPP_OK, c') \<and> mem_wf c' \<and> prevention_type c' = PSEUDO_CODE_AVS2 \<and>
           cur_wf c' \<and> cur_clean c' \<and> num_remaining_bits c' > 0 \<and> avs2_feed c = cur_bits c' @ avs2_feed c'"
    if "avs2_feed c \<noteq> []"
    using that update_avs2_step [OF c] by (cases "rest_bytes c") (simp_all add: avs2_feed_def)
  show "\<exists>c'. update_curbyte c = Inr (MPP_ERR_READ_BIT, c')" if "avs2_feed c = []"
  proof -
    have "rest_bytes c = []"
      using that by (cases "rest_bytes c") (auto simp: avs2_feed_def to_bits_def split: if_splits)
    with c show ?thesis
      using rest_bytes_Nil_iff [OF c(1)] by (auto simp: update_curbyte_defs)
  qed
qed (simp_all add: avs2_feed_def rest_bytes_def mem_wf_def prev_hi_def prev_lo_def)

subsection \<open>Skipping and showing are reading\<close>

lemma skip_bits_loop_eq:
  "skip_bits_loop c bl = run_bind (read_bits_loop c bl out) (\<lambda>(ret, out', rest). Inr (ret, rest))"
proof (induction c bl out rule: read_bits_loop.induct)
  case (1 c bl out)
  then show ?case
    by (subst read_bits_loop.simps, subst skip_bits_loop.simps) (auto simp: Let_def split: sum.splits)
qed

section \<open>Properties\<close>

text \<open>
  C6: on an H.264/H.265 stream \<open>mpp_read_bits\<close> returns the next \<open>n\<close> bits of the unescaped
  payload, most significant bit first, and leaves exactly the remaining bits to be read; when fewer
  than \<open>n\<close> bits remain it reports \<open>MPP_ERR_READ_BIT\<close>. It never reads outside the buffer.
\<close>

theorem mpp_read_bits_h264_correct:
  assumes "mem_wf c" and "cur_wf c" and "prevention_type c = PSEUDO_CODE_H264_H265"
    and "0 \<le> n" and "n \<le> 31"
  shows "if nat n \<le> length (cur_bits c @ h264_feed c)
     then \<exists>c'. mpp_read_bits c n = Inr (MPP_OK, of_bits (take (nat n) (cur_bits c @ h264_feed c)), c')
       \<and> mem_wf c' \<and> cur_wf c' \<and> cur_bits c' @ h264_feed c' = drop (nat n) (cur_bits c @ h264_feed c)
     else \<exists>out c'. mpp_read_bits c n = Inr (MPP_ERR_READ_BIT, out, c')"
  using nal_feed.read_bits_ok [of c n] nal_feed.read_bits_err [of c n] assms
  by (auto simp: nal_feed.ready_def nal_feed.stream_def)

theorem mpp_read_bits_h264_correct_witness:
  "let c = mpp_set_bitread_pseudo_code_type (mpp_set_bitread_ctx [0x12, 0, 0, 3, 1] 5) PSEUDO_CODE_H264_H265
   in \<exists>c'. mpp_read_bits c 28 = Inr (MPP_OK, 0x1200000, c')"
proof -
  let ?c = "mpp_set_bitread_pseudo_code_type (mpp_set_bitread_ctx [0x12, 0, 0, 3, 1] 5) PSEUDO_CODE_H264_H265"
  have f: "cur_bits ?c @ h264_feed ?c = byte_bits [0x12, 0, 0, 1]"
    by (simp add: mpp_set_bitread_pseudo_code_type_def mpp_set_bitread_ctx_def cur_bits_def h264_feed_def
        rest_bytes_def prev_hi_def prev_lo_def)
  have v: "(of_bits (take 28 (byte_bits [0x12, 0, 0, 1])) :: u32) = 0x1200000"
    by (simp add: of_bits_def to_bits_def upt_conv_Cons)
  have wf: "mem_wf ?c" "cur_wf ?c" "prevention_type ?c = PSEUDO_CODE_H264_H265"
    by (simp_all add: mpp_set_bitread_pseudo_code_type_def mpp_set_bitread_ctx_def mem_wf_def cur_wf_def)
  have "nat 28 \<le> length (cur_bits ?c @ h264_feed ?c)"
    unfolding f by simp
  with mpp_read_bits_h264_correct [OF wf, of 28]
  have "\<exists>c'. mpp_read_bits ?c 28 = Inr (MPP_OK, of_bits (take (nat 28) (cur_bits ?c @ h264_feed ?c)), c')"
    by auto
  then show ?thesis
    unfolding f Let_def by (simp only: nat_numeral v)
qed


text \<open>
  C32: on an AVS2 stream the byte 2 after two zero bytes stands for six zero bits, and
  \<open>mpp_read_bits\<close> returns the bits of that payload or reports their lack.
\<close>

theorem mpp_read_bits_avs2_correct:
  assumes "mem_wf c" and "cur_wf c" and "prevention_type c = PSEUDO_CODE_AVS2"
    and "0 \<le> n" and "n \<le> 31"
  shows "if nat n \<le> length (cur_bits c @ avs2_feed c)
     then \<exists>c'. mpp_read_bits c n = Inr (MPP_OK, of_bits (take (nat n) (cur_bits c @ avs2_feed c)), c')
       \<and> mem_wf c' \<and> cur_wf c' \<and> cur_bits c' @ avs2_feed c' = drop (nat n) (cur_bits c @ avs2_feed c)
     else \<exists>out c'. mpp_read_bits c n = Inr (MPP_ERR_READ_BIT, out, c')"
  using avs2.read_bits_ok [of c n] avs2.read_bits_err [of c n] assms
  by (auto simp: avs2.ready_def avs2.stream_def)

theorem mpp_read_bits_avs2_correct_witness:
  "let c = mpp_set_bitread_pseudo_code_type (mpp_set_bitread_ctx [0, 0, 2, 0xff] 4) PSEUDO_CODE_AVS2
   in \<exists>c'. mpp_read_bits c 26 = Inr (MPP_OK, 0xf, c')"
proof -
  let ?c = "mpp_set_bitread_pseudo_code_type (mpp_set_bitread_ctx [0, 0, 2, 0xff] 4) PSEUDO_CODE_AVS2"
  let ?s = "to_bits 8 (0 :: u8) @ to_bits 8 (0 :: u8) @ replicate 6 False @ to_bits 8 (0xff :: u8)"
  have f: "cur_bits ?c @ avs2_feed ?c = ?s"
    by (simp add: mpp_set_bitread_pseudo_code_type_def mpp_set_bitread_ctx_def cur_bits_def avs2_feed_def
        rest_bytes_def prev_hi_def prev_lo_def)
  have v: "(of_bits (take 26 ?s) :: u32) = 0xf"
    by code_simp
  have wf: "mem_wf ?c" "cur_wf ?c" "prevention_type ?c = PSEUDO_CODE_AVS2"
    by (simp_all add: mpp_set_bitread_pseudo_code_type_def mpp_set_bitread_ctx_def mem_wf_def cur_wf_def)
  have "nat 26 \<le> length (cur_bits ?c @ avs2_feed ?c)"
    unfolding f by simp
  with mpp_read_bits_avs2_correct [OF wf, of 26]
  have "\<exists>c'. mpp_read_bits ?c 26 = Inr (MPP_OK, of_bits (take (nat 26) (cur_bits ?c @ avs2_feed ?c)), c')"
    by auto
  then show ?thesis
    unfolding f Let_def by (simp only: nat_numeral v)
qed

text \<open>
  C31: \<open>mpp_read_ue\<close> decodes the Exp-Golomb code at the head of the stream: \<open>k\<close> zero bits, a one
  and \<open>k\<close> further bits. It reports an error exactly when the prefix does not end, is longer
  than 31 bits, or the suffix is cut off.
\<close>

theorem mpp_read_ue_h264_decodes:
  assumes "mem_wf c" and "cur_wf c" and "prevention_type c = PSEUDO_CODE_H264_H265"
    and "s = cur_bits c @ h264_feed c" and "k = length (takeWhile Not s)"
  shows "if k < length s \<and> k \<le> 31 \<and> 2 * k + 1 \<le> length s
     then \<exists>c'. mpp_read_ue c v = Inr (MPP_OK, 2 ^ k - 1 + of_bits (take k (drop (k + 1) s)), c')
       \<and> cur_bits c' @ h264_feed c' = drop (2 * k + 1) s
     else \<exists>out c'. mpp_read_ue c v = Inr (MPP_ERR_READ_BIT, out, c')"
proof -
  have r: "nal_feed.ready c" "nal_feed.stream c = s"
    using assms by (simp_all add: nal_feed.ready_def nal_feed.stream_def)
  have z: "takeWhile Not s = replicate k False"
    unfolding assms(5) by (rule replicate_eqI) (auto dest: set_takeWhileD)
  show ?thesis
  proof (cases "k < length s")
    case True
    then have "s ! k"
      using nth_length_takeWhile [of Not s] assms(5) by simp
    moreover have "take k s = replicate k False"
      using z takeWhile_eq_take [of Not s] by (simp only: assms(5))
    ultimately obtain rest where rest: "s = replicate k False @ True # rest"
      using id_take_nth_drop [OF True] by (metis (full_types))
    from r rest have st: "nal_feed.stream c = replicate k False @ True # rest"
      by simp
    from rest have l: "length s = k + 1 + length rest" and d: "drop (k + 1) s = rest" "drop (2 * k + 1) s = drop k rest"
      by (simp_all add: mult_2)
    show ?thesis
      using nal_feed.read_ue_ok [OF r(1) st, of v] nal_feed.read_ue_err [OF r(1) disjI2, of k rest v] st
      by (auto simp: l d [simplified] nal_feed.stream_def)
  next
    case False
    then have "s = replicate k False"
      using z takeWhile_eq_take [of Not s] assms(5) by (metis not_less take_all)
    then show ?thesis
      using False nal_feed.read_ue_err [of c k "[]" v] r by auto
  qed
qed

theorem mpp_read_ue_h264_decodes_witness:
  "let c = mpp_set_bitread_pseudo_code_type (mpp_set_bitread_ctx [0x28] 1) PSEUDO_CODE_H264_H265
   in \<exists>c'. mpp_read_ue c 0 = Inr (MPP_OK, 4, c')"
proof -
  let ?c = "mpp_set_bitread_pseudo_code_type (mpp_set_bitread_ctx [0x28] 1) PSEUDO_CODE_H264_H265"
  have f: "cur_bits ?c @ h264_feed ?c = [False, False, True, False, True, False, False, False]"
    by (simp add: mpp_set_bitread_pseudo_code_type_def mpp_set_bitread_ctx_def cur_bits_def h264_feed_def
        rest_bytes_def prev_hi_def prev_lo_def to_bits_def upt_conv_Cons)
  have wf: "mem_wf ?c" "cur_wf ?c" "prevention_type ?c = PSEUDO_CODE_H264_H265"
    by (simp_all add: mpp_set_bitread_pseudo_code_type_def mpp_set_bitread_ctx_def mem_wf_def cur_wf_def)
  show ?thesis
    using mpp_read_ue_h264_decodes [OF wf f [symmetric] refl, of 0] by (auto simp: of_bits_def)
qed

text \<open>
  Skipping at most 31 bits has the result code and the effect of reading them, on every
  stream type and on every branch, faults included.
\<close>

theorem mpp_skip_bits_is_read:
  assumes "n \<le> 31"
  shows "mpp_skip_bits c n = run_bind (mpp_read_bits c n) (\<lambda>(ret, out, c'). Inr (ret, c'))"
  using assms skip_bits_loop_eq [of c n 0]
  by (cases "read_bits_loop c n 0") (auto simp: mpp_skip_bits_def mpp_read_bits_def)

theorem mpp_skip_bits_is_read_witness:
  "mpp_skip_bits (mpp_set_bitread_ctx [0xab, 0xcd] 2) 12 =
     run_bind (mpp_read_bits (mpp_set_bitread_ctx [0xab, 0xcd] 2) 12) (\<lambda>(ret, out, c'). Inr (ret, c'))"
  using mpp_skip_bits_is_read [of 12] by simp

text \<open>
  The SEI loader drops an emulation prevention byte without counting it in \<open>bytes_left\<close>,
  so when that byte is the last one of the buffer it loads the byte after the end; the H.264/H.265
  loader reports the end of the stream in the same state.
\<close>

theorem sei_loader_overrun:
  assumes "prev_two_bytes c AND 0xffff = 0" and "bytes_left c = 1"
    and "br_data c + 1 = length (br_mem c)" and "br_mem c ! br_data c = 3"
  shows "update_curbyte_h2645_sei c = Inl Out_Of_Bounds \<and>
         (\<exists>c'. update_curbyte_h264 c = Inr (MPP_ERR_READ_BIT, c'))"
proof -
  have "array_get (br_mem c) (int (br_data c)) = Inr 3"
    using assms(3,4) by simp
  moreover have "array_get (br_mem c) (int (br_data c + 1)) = Inl Out_Of_Bounds"
    using assms(3) by (simp add: array_get_def)
  ultimately show ?thesis
    using assms(1,2) by (simp add: update_curbyte_h2645_sei_def update_curbyte_h264_def)
qed

theorem sei_loader_overrun_witness:
  "run_bind (mpp_read_bits (mpp_set_bitread_pseudo_code_type (mpp_set_bitread_ctx [0, 0, 3] 3) PSEUDO_CODE_H264_H265_SEI) 16)
     (\<lambda>(ret, out, c). update_curbyte_h2645_sei c) = Inl Out_Of_Bounds"
proof -
  let ?c = "\<lparr>br_mem = [0, 0, 3], br_data = 2, bytes_left = 1, curr_byte = 0, num_remaining_bits = 0,
      prev_two_bytes = 0xffff0000, emulation_prevention_bytes = 0, used_bits = 16, br_buf = 0, br_buf_len = 3,
      br_ret = MPP_OK, prevention_type = PSEUDO_CODE_H264_H265_SEI\<rparr>"
  have "mpp_read_bits (mpp_set_bitread_pseudo_code_type (mpp_set_bitread_ctx [0, 0, 3] 3) PSEUDO_CODE_H264_H265_SEI) 16
      = Inr (MPP_OK, 0, ?c)"
    by code_simp
  then show ?thesis
    using sei_loader_overrun [of ?c] by simp
qed

end
