(* ===== verification/Mpp_Bitwrite.thy ===== *)
theory Mpp_Bitwrite
  imports Mpp_Prelude
begin

text \<open>
  The bit writer of \<open>mpp/base/mpp_bitwrite.c\<close>, which produces H.264/H.265 headers with emulation
  prevention, and the 64-bit packer of \<open>mpp/base/mpp_bitput.c\<close>, which fills hardware tables.

  \<open>wr_mem\<close> is the memory at \<open>buffer\<close> and \<open>wr_stream\<close> the offset of the pointer \<open>stream\<close> in it. A store
  outside \<open>wr_mem\<close> is the fault \<open>Out_Of_Bounds\<close>. The assertions on \<open>val\<close> and \<open>len\<close> only log.
\<close>

section \<open>State\<close>

record MppWriteCtx =
  wr_mem :: "u8 list"
  wr_stream :: nat
  wr_size :: u32
  byte_cnt :: u32
  byte_buffer :: u32
  buffered_bits :: u32
  zero_bytes :: u32
  wr_overflow :: int
  emul_cnt :: u32

section \<open>Operations\<close>

definition mpp_writer_status :: "MppWriteCtx \<Rightarrow> mpp_ret \<times> MppWriteCtx" where
  "mpp_writer_status c =
     (if byte_cnt c > wr_size c then (MPP_NOK, c\<lparr>wr_overflow := 1\<rparr>) else (MPP_OK, c))"

definition mpp_writer_reset :: "MppWriteCtx \<Rightarrow> mpp_ret \<times> MppWriteCtx" where
  "mpp_writer_reset c =
     (MPP_OK, c\<lparr>wr_stream := 0, byte_cnt := 0, byte_buffer := 0, buffered_bits := 0,
                zero_bytes := 0, wr_overflow := 0, emul_cnt := 0\<rparr>)"

definition mpp_writer_init :: "u8 list \<Rightarrow> int \<Rightarrow> mpp_ret \<times> MppWriteCtx" where
  "mpp_writer_init mem sz =
     mpp_writer_status
       \<lparr>wr_mem = mem, wr_stream = 0, wr_size = word_of_int sz, byte_cnt = 0, byte_buffer = 0,
        buffered_bits = 0, zero_bytes = 0, wr_overflow = 0, emul_cnt = 0\<rparr>"

definition store_byte :: "MppWriteCtx \<Rightarrow> nat \<Rightarrow> u8 \<Rightarrow> MppWriteCtx run" where
  "store_byte c off b =
     run_bind (array_set (wr_mem c) (int off) b) (\<lambda>mem. Inr (c\<lparr>wr_mem := mem\<rparr>))"

text \<open>
  The raw loop keeps \<open>stream\<close> and \<open>byte_buffer\<close> in local variables and writes them back after the
  loop, which has no early exit; the model keeps them in the context.
\<close>

function put_raw_loop :: "MppWriteCtx \<Rightarrow> int \<Rightarrow> MppWriteCtx run" where
  "put_raw_loop c bits =
     (if bits > 7 then
        run_bind (store_byte c (wr_stream c) (ucast (drop_bit 24 (byte_buffer c)))) (\<lambda>c1.
          put_raw_loop (c1\<lparr>byte_buffer := push_bit 8 (byte_buffer c1),
                           wr_stream := wr_stream c1 + 1,
                           byte_cnt := byte_cnt c1 + 1\<rparr>) (bits - 8))
      else Inr (c\<lparr>buffered_bits := ucast (word_of_int bits :: u8)\<rparr>))"
  by pat_completeness auto
termination
  by (relation "measure (\<lambda>(c, bits). nat bits)") auto

declare put_raw_loop.simps [simp del]

definition mpp_writer_put_raw_bits :: "MppWriteCtx \<Rightarrow> int \<Rightarrow> int \<Rightarrow> MppWriteCtx run" where
  "mpp_writer_put_raw_bits c val len =
     (let (ret, c1) = mpp_writer_status c in
      if ret \<noteq> MPP_OK then Inr c1
      else
        (let bits = len + uint (buffered_bits c1)
         in put_raw_loop
              (c1\<lparr>byte_buffer := byte_buffer c1 OR push_bit (nat (32 - bits)) (word_of_int val)\<rparr>) bits))"

definition mpp_writer_flush :: "MppWriteCtx \<Rightarrow> MppWriteCtx run" where
  "mpp_writer_flush c =
     (let (ret, c1) = mpp_writer_status c in
      if ret \<noteq> MPP_OK then Inr c1
      else if buffered_bits c1 \<noteq> 0
           then store_byte c1 (wr_stream c1) (ucast (drop_bit 24 (byte_buffer c1)))
           else Inr c1)"

text \<open>
  One iteration of the escaping loop: the byte is stored, and when two zero bytes precede a byte
  below 4 the place is overwritten with the emulation prevention byte and the byte goes next to it.
\<close>

definition put_escaped_byte :: "MppWriteCtx \<Rightarrow> u8 \<Rightarrow> MppWriteCtx run" where
  "put_escaped_byte c b =
     run_bind (store_byte c (wr_stream c) b) (\<lambda>c1.
       run_bind
         (if zero_bytes c = 2 \<and> b < 4 then
            run_bind (store_byte c1 (wr_stream c) 3) (\<lambda>c2.
              run_bind (store_byte c2 (wr_stream c + 1) b) (\<lambda>c3.
                Inr (c3\<lparr>emul_cnt := emul_cnt c3 + 1\<rparr>, wr_stream c + 1, byte_cnt c + 2, 0)))
          else Inr (c1, wr_stream c, byte_cnt c + 1, zero_bytes c))
         (\<lambda>(c4, stream, byteCnt, zeroBytes).
           Inr (c4\<lparr>zero_bytes := (if b = 0 then zeroBytes + 1 else 0),
                   byte_cnt := byteCnt,
                   wr_stream := stream + 1\<rparr>)))"

function put_bits_loop :: "MppWriteCtx \<Rightarrow> u32 \<Rightarrow> int \<Rightarrow> MppWriteCtx run" where
  "put_bits_loop c buf bits =
     (if bits > 7 then
        (let (ret, c1) = mpp_writer_status c in
         if ret \<noteq> MPP_OK then Inr c1
         else run_bind (put_escaped_byte c1 (ucast (drop_bit 24 buf))) (\<lambda>c2.
                put_bits_loop c2 (push_bit 8 buf) (bits - 8)))
      else Inr (c\<lparr>buffered_bits := ucast (word_of_int bits :: u8), byte_buffer := buf\<rparr>))"
  by pat_completeness auto
termination
  by (relation "measure (\<lambda>(c, buf, bits). nat bits)") auto

declare put_bits_loop.simps [simp del]

definition mpp_writer_put_bits :: "MppWriteCtx \<Rightarrow> int \<Rightarrow> int \<Rightarrow> MppWriteCtx run" where
  "mpp_writer_put_bits c val len =
     (let bits = len + uint (buffered_bits c)
      in put_bits_loop c (byte_buffer c OR push_bit (nat (32 - bits)) (word_of_int val)) bits)"

definition mpp_writer_align_zero :: "MppWriteCtx \<Rightarrow> MppWriteCtx run" where
  "mpp_writer_align_zero c =
     (if buffered_bits c \<noteq> 0 then mpp_writer_put_raw_bits c 0 (sint (8 - buffered_bits c)) else Inr c)"

definition mpp_writer_align_one :: "MppWriteCtx \<Rightarrow> MppWriteCtx run" where
  "mpp_writer_align_one c =
     (if buffered_bits c \<noteq> 0
      then (let len = sint (8 - buffered_bits c)
            in mpp_writer_put_raw_bits c (push_bit (nat len) 1 - 1) len)
      else Inr c)"

definition mpp_writer_trailing :: "MppWriteCtx \<Rightarrow> MppWriteCtx run" where
  "mpp_writer_trailing c =
     run_bind (mpp_writer_put_bits c 1 1) (\<lambda>c1.
       if buffered_bits c1 \<noteq> 0 then mpp_writer_put_bits c1 0 (sint (8 - buffered_bits c1)) else Inr c1)"

text \<open>
  \<open>while (val >> ++num_bits);\<close> for a value below \<open>2 ^ 31\<close>; for larger values the C shift count
  reaches 32, which is undefined, and the model takes the shifted value to be 0.
\<close>

function shift_len_loop :: "u32 \<Rightarrow> nat \<Rightarrow> nat" where
  "shift_len_loop val n = (if drop_bit (n + 1) val \<noteq> 0 then shift_len_loop val (n + 1) else n + 1)"
  by pat_completeness auto
termination
proof (relation "measure (\<lambda>(val, n). 32 - n)", goal_cases)
  case (2 val n)
  have "drop_bit (n + 1) val = 0" if "32 \<le> n + 1"
    by (rule bit_word_eqI) (use that in \<open>auto simp: bit_drop_bit_eq dest: bit_imp_le_length\<close>)
  with 2 have "n + 1 < 32"
    by (meson not_less)
  then show ?case by simp
qed simp

declare shift_len_loop.simps [simp del]

definition mpp_writer_put_ue :: "MppWriteCtx \<Rightarrow> u32 \<Rightarrow> MppWriteCtx run" where
  "mpp_writer_put_ue c val0 =
     (let val = val0 + 1; num_bits = shift_len_loop val 0 in
      if num_bits > 12 then
        (let tmp = num_bits - 1 in
         run_bind (if tmp > 24 then mpp_writer_put_bits c 0 24 else Inr c) (\<lambda>c1.
           let tmp = (if tmp > 24 then tmp - 24 else tmp) in
           run_bind (mpp_writer_put_bits c1 0 (int tmp)) (\<lambda>c2.
             if num_bits > 24 then
               (let num_bits' = num_bits - 24; val' = drop_bit num_bits' val in
                run_bind (mpp_writer_put_bits c2 (sint val') 24) (\<lambda>c3.
                  mpp_writer_put_bits c3 (sint val') (int num_bits')))
             else mpp_writer_put_bits c2 (sint val) (int num_bits))))
      else mpp_writer_put_bits c (sint val) (2 * int num_bits - 1))"

definition mpp_writer_put_se :: "MppWriteCtx \<Rightarrow> int \<Rightarrow> MppWriteCtx run" where
  "mpp_writer_put_se c val =
     mpp_writer_put_ue c (if val > 0 then word_of_int (2 * val - 1) else word_of_int (- 2 * val))"

definition mpp_writer_bytes :: "MppWriteCtx \<Rightarrow> int" where
  "mpp_writer_bytes c = sint (byte_cnt c + of_bool (buffered_bits c > 0))"

definition mpp_writer_bits :: "MppWriteCtx \<Rightarrow> int" where
  "mpp_writer_bits c = sint (byte_cnt c * 8 + buffered_bits c)"

text \<open>The value that is measured is positive on both branches, so a natural number.\<close>

function golomb_len_loop :: "nat \<Rightarrow> nat \<Rightarrow> nat" where
  "golomb_len_loop val tmp =
     (if drop_bit (tmp + 1) val \<noteq> 0 then golomb_len_loop val (tmp + 1) else tmp + 1)"
  by pat_completeness auto
termination
proof (relation "measure (\<lambda>(val, tmp). val - tmp)", goal_cases)
  case (2 val tmp)
  have "val < 2 ^ val"
    by (rule less_exp)
  moreover from 2 have "2 ^ (tmp + 1) \<le> val"
    by (simp add: drop_bit_eq_div div_eq_0_iff not_less)
  ultimately have "(2::nat) ^ (tmp + 1) < 2 ^ val"
    by (rule le_less_trans [rotated])
  then have "tmp + 1 < val"
    by (rule power_less_imp_less_exp [rotated]) simp
  then show ?case by simp
qed simp

declare golomb_len_loop.simps [simp del]

definition mpp_exp_golomb_signed :: "int \<Rightarrow> int" where
  "mpp_exp_golomb_signed val =
     (let v = (if val > 0 then 2 * val else - 2 * val + 1)
      in int (golomb_len_loop (nat v) 0) * 2 - 1)"

section \<open>Bit packing into 64-bit words\<close>

record BitputCtx =
  bp_pbuf :: "u64 list"
  bp_index :: u32
  bp_bitpos :: u8
  bp_bvalue :: u64
  bp_size :: u32
  bp_buflen :: u32

definition mpp_set_bitput_ctx :: "u64 list \<Rightarrow> u32 \<Rightarrow> BitputCtx" where
  "mpp_set_bitput_ctx pbuf len =
     \<lparr>bp_pbuf = pbuf, bp_index = 0, bp_bitpos = 0, bp_bvalue = 0, bp_size = len, bp_buflen = len\<rparr>"

definition bp_store :: "BitputCtx \<Rightarrow> BitputCtx run" where
  "bp_store bp =
     run_bind (array_set (bp_pbuf bp) (uint (bp_index bp)) (bp_bvalue bp))
       (\<lambda>pbuf. Inr (bp\<lparr>bp_pbuf := pbuf\<rparr>))"

text \<open>
  \<open>hbits\<close> is \<open>64 - lbits\<close> for the lengths the callers use, 1 to 64. A shift by 64 is undefined in C: it
  happens when a field of 64 bits starts at a word boundary.
\<close>

definition mpp_put_bits :: "BitputCtx \<Rightarrow> u64 \<Rightarrow> int \<Rightarrow> BitputCtx run" where
  "mpp_put_bits bp invalue0 lbits =
     (if lbits = 0 then Inr bp
      else if bp_index bp \<ge> bp_buflen bp then Inr bp
      else
        (let hbits = unat (word_of_int (64 - lbits) :: u8);
             invalue = drop_bit hbits (push_bit hbits invalue0);
             pos = unat (bp_bitpos bp);
             bp1 = bp\<lparr>bp_bvalue := bp_bvalue bp OR push_bit pos invalue\<rparr>
         in if hbits \<ge> 64 \<or> pos \<ge> 64 then Inl Bad_Shift
            else run_bind
              (if int pos + lbits \<ge> 64 then
                 run_bind (bp_store bp1) (\<lambda>bp2.
                   if pos = 0 then Inl Bad_Shift
                   else Inr (bp2\<lparr>bp_bvalue := drop_bit (64 - pos) invalue, bp_index := bp_index bp2 + 1\<rparr>))
               else Inr bp1)
              (\<lambda>bp3.
                if bp_index bp3 \<ge> bp_buflen bp3 then Inr bp3
                else run_bind (bp_store bp3) (\<lambda>bp4.
                       Inr (bp4\<lparr>bp_bitpos := ucast ((ucast (bp_bitpos bp4) + word_of_int lbits :: u32) AND 63)\<rparr>)))))"

function put_align_loop :: "BitputCtx \<Rightarrow> u32 \<Rightarrow> int \<Rightarrow> BitputCtx run" where
  "put_align_loop bp len flag =
     (if len > 0 then
        (let n = (if len \<ge> 8 then 8 else len);
             fill = (if flag = 0 then 0 else drop_bit (64 - unat n) (push_bit (64 - unat n) (- 1)))
         in run_bind (mpp_put_bits bp fill (uint n)) (\<lambda>bp1. put_align_loop bp1 (len - n) flag))
      else Inr bp)"
  by pat_completeness auto
termination
  by (relation "measure (\<lambda>(bp, len, flag). unat len)") (auto simp: unat_arith_simps split: if_splits)

declare put_align_loop.simps [simp del]

definition mpp_put_align :: "BitputCtx \<Rightarrow> int \<Rightarrow> int \<Rightarrow> BitputCtx run" where
  "mpp_put_align bp align_bits flag =
     (if align_bits = 0 then Inl Div_By_Zero
      else
        (let al = word_of_int align_bits :: u32;
             word_offset = (if align_bits \<ge> 64
               then push_bit 6 (bp_index bp AND (drop_bit 6 (al AND 0xfe0) - 1)) else 0);
             len = (al - (word_offset + ucast (bp_bitpos bp) mod al)) mod al
         in put_align_loop bp len flag))"

section \<open>Specification: the output as a list of bits\<close>

text \<open>
  \<open>bit_bytes\<close> groups a bit list into its complete bytes and \<open>bit_tail\<close> is what remains. \<open>escape z\<close>
  inserts the emulation prevention bytes, where \<open>z\<close> counts the zero bytes just before; \<open>zero_run z\<close>
  is that count after the list.
\<close>

function bit_bytes :: "bool list \<Rightarrow> u8 list" where
  "bit_bytes bs = (if length bs < 8 then [] else of_bits (take 8 bs) # bit_bytes (drop 8 bs))"
  by pat_completeness auto
termination
  by (relation "measure length") auto

declare bit_bytes.simps [simp del]

definition bit_tail :: "bool list \<Rightarrow> bool list" where
  "bit_tail bs = drop (8 * (length bs div 8)) bs"

fun escape :: "nat \<Rightarrow> u8 list \<Rightarrow> u8 list" where
  "escape z [] = []"
| "escape z (x # xs) =
     (if z = 2 \<and> x < 4 then 3 # x # escape (if x = 0 then 1 else 0) xs
      else x # escape (if x = 0 then z + 1 else 0) xs)"

fun zero_run :: "nat \<Rightarrow> u8 list \<Rightarrow> nat" where
  "zero_run z [] = z"
| "zero_run z (x # xs) =
     zero_run (if x = 0 then (if z = 2 then 1 else z + 1) else 0) xs"

text \<open>
  Behind the raw bytes \<open>p\<close> the context has stored the payload bytes \<open>B\<close>; it has written the bits \<open>bs\<close>
  behind \<open>p\<close>. A unit starts with a start code written raw; the plain case is the one of no raw bytes.
\<close>

definition wr_out_at :: "u8 list \<Rightarrow> MppWriteCtx \<Rightarrow> u8 list \<Rightarrow> bool" where
  "wr_out_at p c B \<longleftrightarrow>
     wr_stream c = length p + length (escape 0 B) \<and>
     take (wr_stream c) (wr_mem c) = p @ escape 0 B \<and>
     unat (byte_cnt c) = wr_stream c \<and>
     wr_stream c \<le> unat (wr_size c) \<and> unat (wr_size c) \<le> length (wr_mem c) \<and>
     zero_bytes c = of_nat (zero_run 0 B)"

definition wr_rep_at :: "u8 list \<Rightarrow> MppWriteCtx \<Rightarrow> bool list \<Rightarrow> bool" where
  "wr_rep_at p c bs \<longleftrightarrow>
     wr_out_at p c (bit_bytes bs) \<and>
     buffered_bits c = of_nat (length (bit_tail bs)) \<and>
     byte_buffer c = push_bit (32 - length (bit_tail bs)) (of_bits (bit_tail bs))"

definition wr_fits_at :: "u8 list \<Rightarrow> MppWriteCtx \<Rightarrow> bool list \<Rightarrow> bool" where
  "wr_fits_at p c bs \<longleftrightarrow> length p + length (escape 0 (bit_bytes bs)) \<le> unat (wr_size c)"

abbreviation wr_out :: "MppWriteCtx \<Rightarrow> u8 list \<Rightarrow> bool" where "wr_out \<equiv> wr_out_at []"
abbreviation wr_rep :: "MppWriteCtx \<Rightarrow> bool list \<Rightarrow> bool" where "wr_rep \<equiv> wr_rep_at []"
abbreviation wr_fits :: "MppWriteCtx \<Rightarrow> bool list \<Rightarrow> bool" where "wr_fits \<equiv> wr_fits_at []"

lemmas wr_out_def = wr_out_at_def [of "[]", simplified]
lemmas wr_rep_def = wr_rep_at_def [of "[]"]
lemmas wr_fits_def = wr_fits_at_def [of "[]", simplified]

lemma bit_bytes_short [simp]: "length bs < 8 \<Longrightarrow> bit_bytes bs = []"
  by (simp add: bit_bytes.simps)

lemma bit_bytes_step: "length xs = 8 \<Longrightarrow> bit_bytes (xs @ ys) = of_bits xs # bit_bytes ys"
  by (subst bit_bytes.simps) simp

lemma bit_bytes_byte_bits: "bit_bytes (byte_bits B @ ys) = B @ bit_bytes ys"
  by (induction B) (simp_all add: bit_bytes_step of_bits_to_bits take_bit_8)

lemma byte_bits_bit_bytes: "byte_bits (bit_bytes bs) @ bit_tail bs = bs"
proof (induction bs rule: bit_bytes.induct)
  case (1 bs)
  show ?case
  proof (cases "length bs < 8")
    case True
    then show ?thesis by (simp add: bit_tail_def)
  next
    case False
    have "to_bits 8 (of_bits (take 8 bs) :: u8) = take 8 bs"
      using to_bits_of_bits [of "take 8 bs", where 'a = 8] False by simp
    moreover have "bit_tail bs = bit_tail (drop 8 bs)"
      using False by (simp add: bit_tail_def add.commute le_div_geq)
    ultimately show ?thesis
      using 1 False by (subst bit_bytes.simps) simp
  qed
qed

lemma length_bit_tail: "length (bit_tail bs) < 8"
  by (simp add: bit_tail_def minus_mult_div_eq_mod)

lemma length_bit_tail_mod: "length (bit_tail bs) = length bs mod 8"
  by (simp add: bit_tail_def minus_mult_div_eq_mod)

lemma bit_tail_byte_bits: "bit_tail (byte_bits B @ ys) = bit_tail ys"
  by (simp add: bit_tail_def)

lemma bit_split: "\<exists>B t. bs = byte_bits B @ t \<and> length t < 8 \<and> bit_bytes bs = B \<and> bit_tail bs = t"
  using byte_bits_bit_bytes [of bs] length_bit_tail [of bs] by metis

lemma bit_tail_short [simp]: "length bs < 8 \<Longrightarrow> bit_tail bs = bs"
  by (simp add: bit_tail_def)

lemma bit_tail_step: "length xs = 8 \<Longrightarrow> bit_tail (xs @ ys) = bit_tail ys"
  by (simp add: bit_tail_def le_div_geq)

lemma bit_bytes_append: "bit_bytes (bs @ cs) = bit_bytes bs @ bit_bytes (bit_tail bs @ cs)"
  by (metis bit_bytes_byte_bits append.assoc byte_bits_bit_bytes)

lemma bit_tail_append: "bit_tail (bs @ cs) = bit_tail (bit_tail bs @ cs)"
  by (metis bit_tail_byte_bits append.assoc byte_bits_bit_bytes)

lemma zero_run_le: "z \<le> 2 \<Longrightarrow> zero_run z xs \<le> 2"
  by (induction z xs rule: zero_run.induct) auto

lemma zero_run_append: "zero_run z (xs @ ys) = zero_run (zero_run z xs) ys"
  by (induction z xs rule: zero_run.induct) auto

lemma escape_append: "z \<le> 2 \<Longrightarrow> escape z (xs @ ys) = escape z xs @ escape (zero_run z xs) ys"
  by (induction z xs rule: escape.induct) auto

subsection \<open>One byte, and the loop over the buffered bits\<close>

lemma unat_of_nat_2_iff: "z \<le> 2 \<Longrightarrow> (of_nat z :: u32) = 2 \<longleftrightarrow> z = 2"
  by (auto simp: word_of_nat_eq_iff take_bit_nat_eq_self numeral_2_eq_2 le_Suc_eq)

lemma escape_snoc:
  "escape 0 (B @ [b]) =
     escape 0 B @ (if zero_run 0 B = 2 \<and> b < 4 then [3, b] else [b])"
  by (simp add: escape_append)

lemma unat_add_small: "unat (w :: u32) + unat k \<le> unat (s :: u32) \<Longrightarrow> unat (w + k) = unat w + unat k"
  by (rule unat_add_lem [THEN iffD1]) (rule le_less_trans [OF _ unsigned_less])

lemma take_update_one: "n < length xs \<Longrightarrow> take (Suc n) (xs[n := x]) = take n xs @ [x]"
  by (simp add: take_Suc_conv_app_nth)

lemma take_update_two:
  "Suc n < length xs \<Longrightarrow> take (Suc (Suc n)) (xs[n := x, Suc n := y]) = take n xs @ [x, y]"
  by (simp add: take_Suc_conv_app_nth)

lemma store_byte_in [simp]:
  "off < length (wr_mem c) \<Longrightarrow> store_byte c off b = Inr (c\<lparr>wr_mem := (wr_mem c)[off := b]\<rparr>)"
  by (simp add: store_byte_def)

lemma put_escaped_byte_ok:
  assumes out: "wr_out_at p c B" and room: "length p + length (escape 0 (B @ [b])) \<le> unat (wr_size c)"
  shows "\<exists>c'. put_escaped_byte c b = Inr c' \<and> wr_out_at p c' (B @ [b]) \<and> wr_size c' = wr_size c"
proof -
  have z: "zero_run 0 B \<le> 2"
    by (rule zero_run_le) simp
  have mem: "unat (wr_size c) \<le> length (wr_mem c)" and bc: "unat (byte_cnt c) = wr_stream c"
    and len: "length p + length (escape 0 B) = wr_stream c"
    and pre: "take (wr_stream c) (wr_mem c) = p @ escape 0 B"
    and zb: "zero_bytes c = of_nat (zero_run 0 B)"
    using out by (auto simp: wr_out_at_def)
  show ?thesis
  proof (cases "zero_run 0 B = 2 \<and> b < 4")
    case True
    have lt: "Suc (wr_stream c) < length (wr_mem c)"
      using room mem True len by (simp add: escape_snoc)
    have "unat (byte_cnt c + 2) = Suc (Suc (wr_stream c))"
      using unat_add_small [of "byte_cnt c" 2 "wr_size c"] room True len bc by (simp add: escape_snoc)
    then show ?thesis
      using True lt pre room len mem zb take_update_two [OF lt, of 3 b]
      by (simp add: put_escaped_byte_def wr_out_at_def escape_snoc zero_run_append)
  next
    case False
    have lt: "wr_stream c < length (wr_mem c)"
      using room mem False len by (auto simp: escape_snoc split: if_splits)
    have "unat (byte_cnt c + 1) = Suc (wr_stream c)"
      using unat_add_small [of "byte_cnt c" 1 "wr_size c"] room False len bc
      by (auto simp: escape_snoc split: if_splits)
    moreover have "\<not> (zero_bytes c = 2 \<and> b < 4)"
      using False zb unat_of_nat_2_iff [OF z] by simp
    moreover have "b = 0 \<Longrightarrow> zero_run 0 B \<noteq> 2"
      using False by auto
    moreover have "escape 0 (B @ [b]) = escape 0 B @ [b]"
      using False by (simp only: escape_snoc if_False)
    ultimately show ?thesis
      using lt pre room len mem zb take_update_one [OF lt, of b]
      by (auto simp: put_escaped_byte_def wr_out_at_def zero_run_append)
  qed
qed

lemma buffer_top_byte:
  fixes xs ys :: "bool list"
  assumes "length xs = 8" and "length (xs @ ys) \<le> 32"
  shows "ucast (drop_bit 24 (push_bit (32 - length (xs @ ys)) (of_bits (xs @ ys)) :: u32)) = (of_bits xs :: u8)"
    and "push_bit 8 (push_bit (32 - length (xs @ ys)) (of_bits (xs @ ys))) =
         (push_bit (32 - length ys) (of_bits ys) :: u32)"
proof -
  show "ucast (drop_bit 24 (push_bit (32 - length (xs @ ys)) (of_bits (xs @ ys)) :: u32)) = (of_bits xs :: u8)"
    by (rule bit_word_eqI)
      (use assms in \<open>auto simp: bit_ucast_iff bit_drop_bit_eq bit_push_bit_iff bit_of_bits nth_append\<close>)
  show "push_bit 8 (push_bit (32 - length (xs @ ys)) (of_bits (xs @ ys))) =
        (push_bit (32 - length ys) (of_bits ys) :: u32)"
    by (rule bit_word_eqI)
      (use assms in \<open>auto simp: bit_push_bit_iff bit_of_bits nth_append\<close>)
qed

lemma narrow_bits: "n < 8 \<Longrightarrow> (ucast (word_of_int (int n) :: u8) :: u32) = of_nat n"
  by (rule word_unat_eq_iff [THEN iffD2])
    (simp add: unsigned_ucast_eq take_bit_nat_eq_self unsigned_of_nat)

lemma put_bits_loop_ok:
  assumes "wr_out_at p c B" and "length bs \<le> 32" and "length p + length (escape 0 (B @ bit_bytes bs)) \<le> unat (wr_size c)"
  shows "\<exists>c'. put_bits_loop c (push_bit (32 - length bs) (of_bits bs)) (int (length bs)) = Inr c' \<and>
           wr_out_at p c' (B @ bit_bytes bs) \<and> wr_size c' = wr_size c \<and>
           buffered_bits c' = of_nat (length (bit_tail bs)) \<and>
           byte_buffer c' = push_bit (32 - length (bit_tail bs)) (of_bits (bit_tail bs))"
  using assms
proof (induction bs arbitrary: c B rule: bit_bytes.induct)
  case (1 bs)
  show ?case
  proof (cases "length bs < 8")
    case True
    note narrow_bits [OF True]
    moreover have "put_bits_loop c buf (int (length bs)) =
        Inr (c\<lparr>buffered_bits := ucast (word_of_int (int (length bs)) :: u8), byte_buffer := buf\<rparr>)" for buf
      using True by (simp add: put_bits_loop.simps)
    ultimately show ?thesis
      using True "1.prems"(1) by (auto simp: wr_out_at_def)
  next
    case False
    define xs ys where "xs = take 8 bs" and "ys = drop 8 bs"
    have bs: "bs = xs @ ys" and xs: "length xs = 8"
      using False by (simp_all add: xs_def ys_def)
    have bytes: "bit_bytes bs = of_bits xs # bit_bytes ys" and tail: "bit_tail bs = bit_tail ys"
      unfolding bs using xs by (simp_all add: bit_bytes_step bit_tail_step)
    have room: "length p + length (escape 0 (B @ [of_bits xs])) \<le> unat (wr_size c)"
      using "1.prems"(3) bytes escape_append [of 0 "B @ [of_bits xs]" "bit_bytes ys"] by simp
    obtain c1 where c1: "put_escaped_byte c (of_bits xs) = Inr c1" "wr_out_at p c1 (B @ [of_bits xs])"
      "wr_size c1 = wr_size c"
      using put_escaped_byte_ok [OF "1.prems"(1) room] by auto
    have IH: "\<exists>c'. put_bits_loop c1 (push_bit (32 - length ys) (of_bits ys)) (int (length ys)) = Inr c' \<and>
           wr_out_at p c' (B @ bit_bytes bs) \<and> wr_size c' = wr_size c \<and>
           buffered_bits c' = of_nat (length (bit_tail bs)) \<and>
           byte_buffer c' = push_bit (32 - length (bit_tail bs)) (of_bits (bit_tail bs))"
      using "1.IH" [OF False, of c1 "B @ [of_bits xs]"] c1(2,3) "1.prems"(2,3) bytes tail
      by (simp add: ys_def)
    have "mpp_writer_status c = (MPP_OK, c)"
      using "1.prems"(1) by (simp add: mpp_writer_status_def wr_out_at_def word_less_nat_alt)
    moreover have "int (length bs) > 7" and "int (length bs) - 8 = int (length ys)"
      using bs xs by simp_all
    ultimately show ?thesis
      using IH c1(1) buffer_top_byte [OF xs, of ys] "1.prems"(2) bs
      by (simp add: put_bits_loop.simps [of c])
  qed
qed

subsection \<open>Appending a field\<close>

text \<open>
  The contract of an operation that appends a field of at most 24 bits to the bits written so far.
  The clients are the functions that compose fields: zero runs, Exp-Golomb codes and headers.
\<close>

locale bit_sink =
  fixes put :: "'c \<Rightarrow> int \<Rightarrow> int \<Rightarrow> 'c run"
    and rep :: "'c \<Rightarrow> bool list \<Rightarrow> bool"
    and fits :: "'c \<Rightarrow> bool list \<Rightarrow> bool"
  assumes put_ok: "rep c bs \<Longrightarrow> n \<le> 24 \<Longrightarrow> 0 \<le> v \<Longrightarrow> v < 2 ^ n \<Longrightarrow>
      fits c (bs @ to_bits n (word_of_int v :: u32)) \<Longrightarrow>
      \<exists>c'. put c v (int n) = Inr c' \<and> rep c' (bs @ to_bits n (word_of_int v :: u32)) \<and> fits c' = fits c"
    and fits_prefix: "fits c (bs @ cs) \<Longrightarrow> fits c bs"
begin

lemma put_zeros:
  assumes "rep c bs" and "n \<le> 24" and "fits c (bs @ replicate n False)"
  shows "\<exists>c'. put c 0 (int n) = Inr c' \<and> rep c' (bs @ replicate n False) \<and> fits c' = fits c"
  using put_ok [of c bs n 0] assms by (simp add: to_bits_zero)

lemma put_two:
  assumes "rep c bs" and "n \<le> 24" and "m \<le> 24" and "0 \<le> v" and "v < 2 ^ m"
    and "fits c (bs @ replicate n False @ to_bits m (word_of_int v :: u32))"
  shows "\<exists>c1 c2. put c 0 (int n) = Inr c1 \<and> put c1 v (int m) = Inr c2 \<and>
           rep c2 (bs @ replicate n False @ to_bits m (word_of_int v :: u32)) \<and> fits c2 = fits c"
proof -
  have "fits c (bs @ replicate n False)"
    using fits_prefix [of c "bs @ replicate n False"] assms(6) by simp
  then obtain c1 where c1: "put c 0 (int n) = Inr c1" "rep c1 (bs @ replicate n False)" "fits c1 = fits c"
    using put_zeros assms(1,2) by blast
  show ?thesis
    using put_ok [OF c1(2) assms(3-5)] c1 assms(6) by auto
qed

end

fun put_fields :: "('c \<Rightarrow> int \<Rightarrow> int \<Rightarrow> 'c run) \<Rightarrow> 'c \<Rightarrow> (nat \<times> nat) list \<Rightarrow> 'c run" where
  "put_fields put c [] = Inr c"
| "put_fields put c ((n, v) # fs) = run_bind (put c (int v) (int n)) (\<lambda>c1. put_fields put c1 fs)"

definition field_bits :: "(nat \<times> nat) list \<Rightarrow> bool list" where
  "field_bits fs = concat (map (\<lambda>(n, v). to_bits n (of_nat v :: u32)) fs)"

definition fields_ok :: "(nat \<times> nat) list \<Rightarrow> bool" where
  "fields_ok fs \<longleftrightarrow> list_all (\<lambda>(n, v). n \<le> 24 \<and> v < 2 ^ n) fs"

context bit_sink
begin

lemma put_fields_ok:
  assumes "rep c bs" and "fields_ok fs" and "fits c (bs @ field_bits fs)"
  shows "\<exists>c'. put_fields put c fs = Inr c' \<and> rep c' (bs @ field_bits fs) \<and> fits c' = fits c"
  using assms
proof (induction fs arbitrary: c bs)
  case Nil
  then show ?case by (simp add: field_bits_def)
next
  case (Cons f fs)
  obtain n v where f: "f = (n, v)" by (cases f)
  let ?b = "to_bits n (of_nat v :: u32)"
  have bits: "field_bits (f # fs) = ?b @ field_bits fs"
    by (simp add: field_bits_def f)
  have ok: "n \<le> 24" "int v < 2 ^ n" "fields_ok fs"
    using Cons.prems(2) by (simp_all add: fields_ok_def f)
  have "fits c (bs @ ?b)"
    using fits_prefix [of c "bs @ ?b"] Cons.prems(3) bits by simp
  then obtain c1 where c1: "put c (int v) (int n) = Inr c1" "rep c1 (bs @ ?b)" "fits c1 = fits c"
    using put_ok [OF Cons.prems(1) ok(1) _ ok(2)] by auto
  show ?case
    using Cons.IH [OF c1(2) ok(3)] c1 Cons.prems(3) by (simp add: f bits [unfolded f])
qed

end

lemma merge_field:
  assumes n: "n \<le> 24" and v: "0 \<le> v" "v < 2 ^ n" and t: "length t < 8"
  shows "push_bit (32 - length t) (of_bits t) OR push_bit (32 - (n + length t)) (word_of_int v) =
         (push_bit (32 - length (t @ to_bits n (word_of_int v :: u32)))
            (of_bits (t @ to_bits n (word_of_int v :: u32))) :: u32)"
proof -
  have "take_bit n (word_of_int v :: u32) = word_of_int v"
    using v n by (simp add: of_int_take_bit [symmetric] take_bit_int_eq_self)
  then have "of_bits (t @ to_bits n (word_of_int v :: u32)) = (push_bit n (of_bits t) OR word_of_int v :: u32)"
    by (simp add: of_bits_append of_bits_to_bits)
  moreover have "32 - length t = 32 - (n + length t) + n"
    using n t by simp
  ultimately show ?thesis
    by (simp add: push_bit_or push_bit_push_bit add.commute)
qed

interpretation nal_sink: bit_sink mpp_writer_put_bits "wr_rep_at p" "wr_fits_at p" for p
proof
  fix c bs cs
  show "wr_fits_at p c (bs @ cs) \<Longrightarrow> wr_fits_at p c bs"
    by (simp add: wr_fits_at_def bit_bytes_append [of bs cs] escape_append)
next
  fix c bs n and v :: int
  let ?f = "to_bits n (word_of_int v :: u32)"
  assume rep: "wr_rep_at p c bs" and n: "n \<le> 24" and v: "0 \<le> v" "v < 2 ^ n" and fits: "wr_fits_at p c (bs @ ?f)"
  have t: "length (bit_tail bs) < 8" by (rule length_bit_tail)
  have "uint (buffered_bits c) = int (length (bit_tail bs))"
    using rep t by (simp add: wr_rep_at_def unsigned_of_nat take_bit_nat_eq_self)
  then have "mpp_writer_put_bits c v (int n) =
      put_bits_loop c (push_bit (32 - length (bit_tail bs @ ?f)) (of_bits (bit_tail bs @ ?f)))
        (int (length (bit_tail bs @ ?f)))"
    using rep merge_field [OF n v t] n t
    by (simp add: mpp_writer_put_bits_def wr_rep_at_def nat_diff_distrib' nat_add_distrib add.commute)
  moreover have "length (bit_tail bs @ ?f) \<le> 32"
    using t n by simp
  moreover have "length p + length (escape 0 (bit_bytes bs @ bit_bytes (bit_tail bs @ ?f))) \<le> unat (wr_size c)"
    using fits by (simp add: wr_fits_at_def bit_bytes_append [of bs ?f])
  ultimately show "\<exists>c'. mpp_writer_put_bits c v (int n) = Inr c' \<and> wr_rep_at p c' (bs @ ?f) \<and> wr_fits_at p c' = wr_fits_at p c"
    using put_bits_loop_ok [of p c "bit_bytes bs" "bit_tail bs @ ?f"] rep
    by (auto simp: wr_rep_at_def wr_fits_at_def fun_eq_iff bit_bytes_append [of bs ?f] bit_tail_append [of bs ?f])
qed

subsection \<open>The raw writer\<close>

text \<open>\<open>mpp_writer_put_raw_bits\<close> meets the same contract, without emulation prevention.\<close>

definition raw_out :: "MppWriteCtx \<Rightarrow> u8 list \<Rightarrow> bool" where
  "raw_out c B \<longleftrightarrow>
     wr_stream c = length B \<and> take (length B) (wr_mem c) = B \<and> unat (byte_cnt c) = length B \<and>
     length B \<le> unat (wr_size c) \<and> unat (wr_size c) \<le> length (wr_mem c)"

definition raw_rep :: "MppWriteCtx \<Rightarrow> bool list \<Rightarrow> bool" where
  "raw_rep c bs \<longleftrightarrow>
     raw_out c (bit_bytes bs) \<and>
     buffered_bits c = of_nat (length (bit_tail bs)) \<and>
     byte_buffer c = push_bit (32 - length (bit_tail bs)) (of_bits (bit_tail bs))"

definition raw_fits :: "MppWriteCtx \<Rightarrow> bool list \<Rightarrow> bool" where
  "raw_fits c bs \<longleftrightarrow> length (bit_bytes bs) \<le> unat (wr_size c)"

lemma put_raw_loop_ok:
  assumes "raw_out c B" and "length bs \<le> 32" and "length (B @ bit_bytes bs) \<le> unat (wr_size c)"
    and "byte_buffer c = push_bit (32 - length bs) (of_bits bs)"
  shows "\<exists>c'. put_raw_loop c (int (length bs)) = Inr c' \<and>
           raw_out c' (B @ bit_bytes bs) \<and> wr_size c' = wr_size c \<and>
           buffered_bits c' = of_nat (length (bit_tail bs)) \<and>
           byte_buffer c' = push_bit (32 - length (bit_tail bs)) (of_bits (bit_tail bs))"
  using assms
proof (induction bs arbitrary: c B rule: bit_bytes.induct)
  case (1 bs)
  show ?case
  proof (cases "length bs < 8")
    case True
    then have "put_raw_loop c (int (length bs)) = Inr (c\<lparr>buffered_bits := of_nat (length bs)\<rparr>)"
      using narrow_bits [OF True] by (simp add: put_raw_loop.simps)
    with True "1.prems" show ?thesis by (simp add: raw_out_def)
  next
    case False
    define xs ys where "xs = take 8 bs" and "ys = drop 8 bs"
    have bs: "bs = xs @ ys" and xs: "length xs = 8"
      using False by (simp_all add: xs_def ys_def)
    have bytes: "bit_bytes bs = of_bits xs # bit_bytes ys" and tail: "bit_tail bs = bit_tail ys"
      unfolding bs using xs by (simp_all add: bit_bytes_step bit_tail_step)
    let ?c1 = "c\<lparr>wr_mem := (wr_mem c)[length B := of_bits xs],
        byte_buffer := push_bit (32 - length ys) (of_bits ys),
        wr_stream := length B + 1, byte_cnt := byte_cnt c + 1\<rparr>"
    have lt: "length B < length (wr_mem c)" and room: "length B + 1 \<le> unat (wr_size c)"
      using "1.prems"(1,3) by (auto simp: raw_out_def bytes)
    then have "unat (byte_cnt c + 1) = length B + 1"
      using unat_add_small [of "byte_cnt c" 1 "wr_size c"] "1.prems"(1) by (simp add: raw_out_def)
    then have out1: "raw_out ?c1 (B @ [of_bits xs])"
      using "1.prems"(1) room take_update_one [OF lt, of "of_bits xs"] by (simp add: raw_out_def)
    have step: "put_raw_loop c (int (length bs)) = put_raw_loop ?c1 (int (length ys))"
      using "1.prems"(1,2,4) lt bs xs buffer_top_byte [OF xs, of ys]
      by (simp add: put_raw_loop.simps [of c] raw_out_def)
    show ?thesis
      unfolding step
      using "1.IH" [OF False, of ?c1 "B @ [of_bits xs]"] out1 "1.prems"(2,3) bytes tail
      by (simp add: ys_def)
  qed
qed

interpretation raw_sink: bit_sink mpp_writer_put_raw_bits raw_rep raw_fits
proof
  fix c bs cs
  show "raw_fits c (bs @ cs) \<Longrightarrow> raw_fits c bs"
    by (simp add: raw_fits_def bit_bytes_append [of bs cs])
next
  fix c bs n and v :: int
  let ?f = "to_bits n (word_of_int v :: u32)"
  let ?buf = "push_bit (32 - length (bit_tail bs @ ?f)) (of_bits (bit_tail bs @ ?f)) :: u32"
  assume rep: "raw_rep c bs" and n: "n \<le> 24" and v: "0 \<le> v" "v < 2 ^ n" and fits: "raw_fits c (bs @ ?f)"
  have t: "length (bit_tail bs) < 8" by (rule length_bit_tail)
  have buf: "uint (buffered_bits c) = int (length (bit_tail bs))"
    using rep t by (simp add: raw_rep_def unsigned_of_nat take_bit_nat_eq_self)
  have ub: "unat (of_nat (length (bit_tail bs)) :: u32) = length (bit_tail bs)"
    using t by (simp add: unsigned_of_nat take_bit_nat_eq_self)
  have "mpp_writer_status c = (MPP_OK, c)"
    using rep by (simp add: mpp_writer_status_def raw_rep_def raw_out_def word_less_nat_alt)
  with buf ub have "mpp_writer_put_raw_bits c v (int n) =
      put_raw_loop (c\<lparr>byte_buffer := ?buf\<rparr>) (int (length (bit_tail bs @ ?f)))"
    using rep merge_field [OF n v t] n t
    by (simp add: mpp_writer_put_raw_bits_def raw_rep_def nat_diff_distrib' nat_add_distrib add.commute)
  moreover have "length (bit_tail bs @ ?f) \<le> 32"
    using t n by simp
  moreover have "length (bit_bytes bs @ bit_bytes (bit_tail bs @ ?f)) \<le> unat (wr_size c)"
    using fits by (simp add: raw_fits_def bit_bytes_append [of bs ?f])
  ultimately show "\<exists>c'. mpp_writer_put_raw_bits c v (int n) = Inr c' \<and> raw_rep c' (bs @ ?f) \<and> raw_fits c' = raw_fits c"
    using put_raw_loop_ok [of "c\<lparr>byte_buffer := ?buf\<rparr>" "bit_bytes bs" "bit_tail bs @ ?f"] rep
    by (auto simp: raw_rep_def raw_out_def raw_fits_def fun_eq_iff
        bit_bytes_append [of bs ?f] bit_tail_append [of bs ?f])
qed

subsection \<open>Exp-Golomb codes\<close>

fun ilog2 :: "nat \<Rightarrow> nat" where
  "ilog2 n = (if n < 2 then 0 else Suc (ilog2 (n div 2)))"

declare ilog2.simps [simp del]

definition ue_code :: "nat \<Rightarrow> bool list" where
  "ue_code v = replicate (ilog2 (v + 1)) False @ to_bits (ilog2 (v + 1) + 1) (of_nat (v + 1) :: u32)"

definition se_index :: "int \<Rightarrow> nat" where
  "se_index v = nat (if v > 0 then 2 * v - 1 else - 2 * v)"

lemma ilog2_bounds: "0 < n \<Longrightarrow> 2 ^ ilog2 n \<le> n \<and> n < 2 ^ (ilog2 n + 1)"
proof (induction n rule: ilog2.induct)
  case (1 n)
  then show ?case
    by (cases "n < 2") (auto simp: ilog2.simps [of n])
qed

lemma ilog2_unique: "2 ^ k \<le> n \<Longrightarrow> n < 2 ^ (k + 1) \<Longrightarrow> ilog2 n = k"
proof -
  assume k: "2 ^ k \<le> n" "n < 2 ^ (k + 1)"
  then have "0 < n"
    using less_le_trans [of 0 "2 ^ k" n] by simp
  from ilog2_bounds [OF this] k have lt: "2 ^ ilog2 n < (2::nat) ^ (k + 1)" "2 ^ k < (2::nat) ^ (ilog2 n + 1)"
    by (meson le_less_trans)+
  have "ilog2 n < k + 1"
    by (rule power_less_imp_less_exp [OF _ lt(1)]) simp
  moreover have "k < ilog2 n + 1"
    by (rule power_less_imp_less_exp [OF _ lt(2)]) simp
  ultimately show ?thesis by simp
qed

lemma drop_bit_eq_0_iff: "drop_bit n (w :: u32) = 0 \<longleftrightarrow> unat w < 2 ^ n"
proof -
  have "drop_bit n w = 0 \<longleftrightarrow> unat (drop_bit n w) = 0"
    by (simp only: unat_eq_0)
  also have "\<dots> \<longleftrightarrow> unat w div 2 ^ n = 0"
    by (simp add: unat_drop_bit_eq drop_bit_eq_div [of n "unat w"])
  finally show ?thesis
    by (simp add: div_eq_0_iff)
qed

lemma shift_len_loop_ilog2:
  assumes "0 < unat val" and "n \<le> ilog2 (unat val)"
  shows "shift_len_loop val n = ilog2 (unat val) + 1"
  using assms
proof (induction val n rule: shift_len_loop.induct)
  case (1 val n)
  note b = ilog2_bounds [OF "1.prems"(1)]
  show ?case
  proof (cases "unat val < 2 ^ (n + 1)")
    case True
    then have "ilog2 (unat val) < n + 1"
      using b by (meson le_less_trans nat_power_less_imp_less zero_less_numeral)
    with "1.prems"(2) True show ?thesis
      by (simp add: shift_len_loop.simps [of val n] drop_bit_eq_0_iff)
  next
    case False
    then have "n \<noteq> ilog2 (unat val)"
      using b by auto
    with False "1.IH" "1.prems" show ?thesis
      by (simp add: shift_len_loop.simps [of val n] drop_bit_eq_0_iff)
  qed
qed

lemma to_bits_zero_extend:
  "unat (w :: u32) < 2 ^ n \<Longrightarrow> to_bits (m + n) w = replicate m False @ to_bits n w"
  using drop_bit_eq_0_iff [of n w] by (simp add: to_bits_append to_bits_zero)

context bit_sink
begin

text \<open>A zero run and a code word of at most 24 bits, as one field or as two.\<close>

lemma put_code_one:
  assumes "rep c bs" and "2 * k + 1 \<le> 24" and "unat (w :: u32) < 2 ^ (k + 1)"
    and "fits c (bs @ replicate k False @ to_bits (k + 1) w)"
  shows "\<exists>c'. put c (uint w) (2 * int (k + 1) - 1) = Inr c' \<and>
           rep c' (bs @ replicate k False @ to_bits (k + 1) w) \<and> fits c' = fits c"
proof -
  have "to_bits (k + (k + 1)) w = replicate k False @ to_bits (k + 1) w"
    by (rule to_bits_zero_extend [OF assms(3)])
  moreover have "uint w < 2 ^ (k + (k + 1))"
    by (rule uint_less_pow, rule less_le_trans [OF assms(3)]) simp
  ultimately show ?thesis
    using put_ok [of c bs "k + (k + 1)" "uint w"] assms(1,2,4) by (simp add: algebra_simps)
qed

lemma put_code_two:
  assumes "rep c bs" and "k \<le> 23" and "unat (w :: u32) < 2 ^ (k + 1)"
    and "fits c (bs @ replicate k False @ to_bits (k + 1) w)"
  shows "\<exists>c1 c2. put c 0 (int k) = Inr c1 \<and> put c1 (uint w) (int (k + 1)) = Inr c2 \<and>
           rep c2 (bs @ replicate k False @ to_bits (k + 1) w) \<and> fits c2 = fits c"
proof -
  have "uint w < 2 ^ (k + 1)"
    by (rule uint_less_pow [OF assms(3)])
  then show ?thesis
    using put_two [of c bs k "k + 1" "uint w"] assms by simp
qed

end

lemma of_nat_small_neq_0: "0 < k \<Longrightarrow> k < 2 ^ 24 \<Longrightarrow> (of_nat k :: u32) \<noteq> 0"
  by (auto simp: word_of_nat_eq_0_iff dest: nat_dvd_not_less)

lemma ilog2_less:
  assumes "0 < n" and "n < 2 ^ m"
  shows "ilog2 n < m"
proof -
  have "(2::nat) ^ ilog2 n < 2 ^ m"
    using ilog2_bounds [OF assms(1)] assms(2) by (meson le_less_trans)
  then show ?thesis
    by (rule power_less_imp_less_exp [rotated]) simp
qed

lemma mpp_writer_put_ue_at:
  assumes rep: "wr_rep_at p c bs" and v: "v + 1 < 2 ^ 24" and fits: "wr_fits_at p c (bs @ ue_code v)"
  shows "\<exists>c'. mpp_writer_put_ue c (of_nat v) = Inr c' \<and> wr_rep_at p c' (bs @ ue_code v) \<and> wr_fits_at p c' = wr_fits_at p c"
proof -
  define w :: u32 where "w = of_nat v + 1"
  define k where "k = ilog2 (v + 1)"
  have uw: "unat w = v + 1"
  proof -
    have "unat (of_nat (v + 1) :: u32) = v + 1"
      using v by (simp add: unsigned_of_nat take_bit_nat_eq_self del: of_nat_Suc of_nat_add)
    then show ?thesis by (simp add: w_def add.commute)
  qed
  have lt: "unat w < 2 ^ (k + 1)"
    using ilog2_bounds [of "v + 1"] by (simp add: uw k_def)
  have k23: "k \<le> 23"
    using ilog2_less [of "v + 1" 24] v by (simp add: k_def)
  have num: "shift_len_loop w 0 = k + 1"
    using shift_len_loop_ilog2 [of w 0] by (simp add: uw k_def)
  have si: "sint w = uint w"
    using sint_small v by (simp add: uw)
  have code: "ue_code v = replicate k False @ to_bits (k + 1) w"
    by (simp add: ue_code_def k_def w_def add.commute)
  show ?thesis
  proof (cases "k + 1 > 12")
    case True
    then show ?thesis
      using nal_sink.put_code_two [OF rep k23 lt] fits k23 num si
      by (auto simp: mpp_writer_put_ue_def code Let_def w_def [symmetric])
  next
    case False
    then show ?thesis
      using nal_sink.put_code_one [OF rep _ lt] fits num si
      by (auto simp: mpp_writer_put_ue_def code Let_def w_def [symmetric])
  qed
qed

lemma mpp_writer_put_se_at:
  assumes "wr_rep_at p c bs" and "\<bar>v\<bar> < 2 ^ 23 - 1" and "wr_fits_at p c (bs @ ue_code (se_index v))"
  shows "\<exists>c'. mpp_writer_put_se c v = Inr c' \<and> wr_rep_at p c' (bs @ ue_code (se_index v)) \<and> wr_fits_at p c' = wr_fits_at p c"
proof -
  have "se_index v + 1 < 2 ^ 24"
    using assms(2) by (auto simp: se_index_def)
  moreover have "mpp_writer_put_se c v = mpp_writer_put_ue c (of_nat (se_index v))"
    by (simp add: mpp_writer_put_se_def se_index_def)
  ultimately show ?thesis
    using mpp_writer_put_ue_at assms by simp
qed

lemmas mpp_writer_put_ue_ok = mpp_writer_put_ue_at [of "[]"]
lemmas mpp_writer_put_se_ok = mpp_writer_put_se_at [of "[]"]

subsection \<open>The packer appends least significant bits first\<close>

definition lsb_bits :: "nat \<Rightarrow> u64 \<Rightarrow> bool list" where
  "lsb_bits n w = map (bit w) [0..<n]"

text \<open>
  The packer has written the bits \<open>bs\<close>: complete words lie in \<open>pbuf\<close>, and the word in progress is
  \<open>bvalue\<close>, which is also stored already.
\<close>

definition bp_rep :: "BitputCtx \<Rightarrow> bool list \<Rightarrow> bool" where
  "bp_rep bp bs \<longleftrightarrow>
     unat (bp_bitpos bp) < 64 \<and> unat (bp_index bp) < unat (bp_buflen bp) \<and>
     unat (bp_buflen bp) \<le> length (bp_pbuf bp) \<and>
     take_bit (unat (bp_bitpos bp)) (bp_bvalue bp) = bp_bvalue bp \<and>
     bs = concat (map (lsb_bits 64) (take (unat (bp_index bp)) (bp_pbuf bp))) @
          lsb_bits (unat (bp_bitpos bp)) (bp_bvalue bp) \<and>
     (bs \<noteq> [] \<longrightarrow> bp_pbuf bp ! unat (bp_index bp) = bp_bvalue bp)"

lemma length_lsb_bits [simp]: "length (lsb_bits n w) = n"
  by (simp add: lsb_bits_def)

lemma length_words: "length (concat (map (lsb_bits 64) ws)) = 64 * length ws"
  by (induction ws) auto

lemma lsb_bits_merge:
  assumes "take_bit p b = b" and "p \<le> m" and "m \<le> p + n" and "m \<le> 64"
  shows "lsb_bits m (b OR push_bit p (take_bit n v)) = lsb_bits p b @ take (m - p) (lsb_bits n v)"
proof (rule nth_equalityI)
  fix i assume i: "i < length (lsb_bits m (b OR push_bit p (take_bit n v)))"
  have "\<not> bit b i" if "p \<le> i"
    using assms(1) that by (metis bit_take_bit_iff not_less)
  with i assms(2-4) show "lsb_bits m (b OR push_bit p (take_bit n v)) ! i = (lsb_bits p b @ take (m - p) (lsb_bits n v)) ! i"
    by (auto simp: lsb_bits_def nth_append bit_or_iff bit_push_bit_iff bit_take_bit_iff)
qed (use assms(2,3) in simp)

lemma lsb_bits_high:
  "k \<le> n \<Longrightarrow> lsb_bits (n - k) (drop_bit k (take_bit n v)) = drop k (lsb_bits n v)"
  by (rule nth_equalityI) (auto simp: lsb_bits_def bit_drop_bit_eq bit_take_bit_iff)

lemma shift_mask: "n \<le> 64 \<Longrightarrow> drop_bit (64 - n) (push_bit (64 - n) v) = (take_bit n v :: u64)"
  by (rule bit_word_eqI) (auto simp: bit_drop_bit_eq bit_push_bit_iff bit_take_bit_iff)

lemma bitpos_step:
  assumes "unat (p :: u8) < 64" and "0 < n" and "n \<le> 64"
  shows "unat (ucast ((ucast p + word_of_int (int n) :: u32) AND 63) :: u8) = (unat p + n) mod 64"
proof -
  have "unat (ucast p + word_of_int (int n) :: u32) = unat p + n"
    using assms by (subst unat_add_lem [THEN iffD1]) (auto simp: unsigned_ucast_eq unsigned_of_nat take_bit_nat_eq_self)
  moreover have "x AND 63 = take_bit 6 x" for x :: u32
    by (simp add: take_bit_eq_mask mask_eq_exp_minus_1)
  ultimately show ?thesis
    by (simp add: unsigned_ucast_eq unat_mod_distrib take_bit_eq_mod order_less_trans [of _ 64])
qed

lemma bp_store_in [simp]:
  "unat (bp_index bp) < length (bp_pbuf bp) \<Longrightarrow>
     bp_store bp = Inr (bp\<lparr>bp_pbuf := (bp_pbuf bp)[unat (bp_index bp) := bp_bvalue bp]\<rparr>)"
proof -
  assume lt: "unat (bp_index bp) < length (bp_pbuf bp)"
  then have "int (unat (bp_index bp)) < int (length (bp_pbuf bp))"
    by (simp only: of_nat_less_iff)
  then show ?thesis
    by (simp add: bp_store_def)
qed

lemma mpp_put_bits_eq:
  assumes "0 < n" and "n \<le> 64" and "\<not> bp_index bp \<ge> bp_buflen bp" and "unat (bp_bitpos bp) < 64"
  shows "mpp_put_bits bp v (int n) =
    run_bind
      (if 64 \<le> unat (bp_bitpos bp) + n then
         run_bind (bp_store (bp\<lparr>bp_bvalue := bp_bvalue bp OR push_bit (unat (bp_bitpos bp)) (take_bit n v)\<rparr>)) (\<lambda>bp2.
           if unat (bp_bitpos bp) = 0 then Inl Bad_Shift
           else Inr (bp2\<lparr>bp_bvalue := drop_bit (64 - unat (bp_bitpos bp)) (take_bit n v), bp_index := bp_index bp2 + 1\<rparr>))
       else Inr (bp\<lparr>bp_bvalue := bp_bvalue bp OR push_bit (unat (bp_bitpos bp)) (take_bit n v)\<rparr>))
      (\<lambda>bp3. if bp_index bp3 \<ge> bp_buflen bp3 then Inr bp3
        else run_bind (bp_store bp3) (\<lambda>bp4.
          Inr (bp4\<lparr>bp_bitpos := ucast ((ucast (bp_bitpos bp4) + word_of_int (int n) :: u32) AND 63)\<rparr>)))"
proof -
  have hb: "unat (word_of_int (64 - int n) :: u8) = 64 - n"
  proof -
    have "64 - int n = int (64 - n)" and small: "64 - n < 2 ^ 8"
      using assms(1,2) by simp_all
    then have "(word_of_int (64 - int n) :: u8) = of_nat (64 - n)"
      by (simp only: of_int_of_nat_eq)
    with small show ?thesis
      by (simp only: unsigned_of_nat) (simp add: take_bit_nat_eq_self)
  qed
  have c: "(int n = 0) = False" "(int (unat (bp_bitpos bp)) + int n \<ge> 64) = (64 \<le> unat (bp_bitpos bp) + n)"
    "(64 - n \<ge> 64 \<or> unat (bp_bitpos bp) \<ge> 64) = False"
    using assms(1,4) by (simp, linarith, simp)
  show ?thesis
    unfolding mpp_put_bits_def Let_def hb shift_mask [OF assms(2)] c
    using assms(3) by (simp only: if_False)
qed

lemma mpp_put_bits_ok:
  assumes rep: "bp_rep bp bs" and n: "0 < n" "n \<le> 64" and off: "n = 64 \<longrightarrow> length bs mod 64 \<noteq> 0"
    and room: "length bs + n < 64 * unat (bp_buflen bp)"
  shows "\<exists>bp'. mpp_put_bits bp v (int n) = Inr bp' \<and> bp_rep bp' (bs @ lsb_bits n v) \<and> bp_buflen bp' = bp_buflen bp"
proof -
  define p where "p = unat (bp_bitpos bp)"
  define i where "i = unat (bp_index bp)"
  let ?in = "take_bit n v"
  let ?b1 = "bp_bvalue bp OR push_bit p ?in"
  have p: "p < 64" and i: "i < unat (bp_buflen bp)" and buf: "unat (bp_buflen bp) \<le> length (bp_pbuf bp)"
    and cl: "take_bit p (bp_bvalue bp) = bp_bvalue bp"
    and bs: "bs = concat (map (lsb_bits 64) (take i (bp_pbuf bp))) @ lsb_bits p (bp_bvalue bp)"
    using rep by (simp_all add: bp_rep_def p_def i_def)
  have len: "length bs = 64 * i + p"
    using i buf by (simp add: bs length_words)
  have pos: "unat (ucast ((ucast (bp_bitpos bp) + word_of_int (int n) :: u32) AND 63) :: u8) = (p + n) mod 64"
    using bitpos_step [of "bp_bitpos bp" n] p n by (simp add: p_def)
  have idx: "\<not> bp_index bp \<ge> bp_buflen bp"
    using i by (simp add: i_def not_le word_less_nat_alt)
  show ?thesis
  proof (cases "64 \<le> p + n")
    case True
    let ?bv = "drop_bit (64 - p) ?in"
    have i1: "unat (bp_index bp + 1) = i + 1" and le: "i + 1 < unat (bp_buflen bp)"
    proof -
      show le: "i + 1 < unat (bp_buflen bp)"
        using room len True by linarith
      then show "unat (bp_index bp + 1) = i + 1"
        using unat_add_small [of "bp_index bp" 1 "bp_buflen bp"] by (simp add: i_def)
    qed
    have idx1: "\<not> bp_index bp + 1 \<ge> bp_buflen bp"
      using i1 le by (simp add: not_le word_less_nat_alt)
    have mod: "(p + n) mod 64 = n - (64 - p)" "n - (64 - p) < 64"
      using True p n by (simp_all add: le_mod_geq)
    have full: "lsb_bits 64 ?b1 = lsb_bits p (bp_bvalue bp) @ take (64 - p) (lsb_bits n v)"
      using lsb_bits_merge [OF cl, of 64 n v] p True by simp
    have p0: "p \<noteq> 0"
      using off len True n(2) by auto
    have "take_bit (n - (64 - p)) ?bv = ?bv"
      by (rule bit_word_eqI) (auto simp: bit_take_bit_iff bit_drop_bit_eq)
    with full i1 le buf mod pos idx idx1 n p0 True lsb_bits_high [of "64 - p" n v] show ?thesis
      by (simp add: mpp_put_bits_eq p bp_rep_def bs
          p_def [symmetric] i_def [symmetric] take_Suc_conv_app_nth)
  next
    case False
    have "take_bit (p + n) ?b1 = ?b1"
      by (rule bit_word_eqI)
        (use cl in \<open>auto simp: bit_take_bit_iff bit_or_iff bit_push_bit_iff; metis bit_take_bit_iff trans_less_add1\<close>)
    moreover have "lsb_bits (p + n) ?b1 = lsb_bits p (bp_bvalue bp) @ lsb_bits n v"
      using lsb_bits_merge [OF cl, of "p + n" n v] False by simp
    ultimately show ?thesis
      using i buf pos idx n False
      by (simp add: mpp_put_bits_eq p bp_rep_def bs
          p_def [symmetric] i_def [symmetric])
  qed
qed

fun bitput_fields :: "BitputCtx \<Rightarrow> (nat \<times> u64) list \<Rightarrow> BitputCtx run" where
  "bitput_fields bp [] = Inr bp"
| "bitput_fields bp ((n, v) # fs) = run_bind (mpp_put_bits bp v (int n)) (\<lambda>bp1. bitput_fields bp1 fs)"

definition lsb_fields :: "(nat \<times> u64) list \<Rightarrow> bool list" where
  "lsb_fields fs = concat (map (\<lambda>(n, v). lsb_bits n v) fs)"

text \<open>Fields of 1 to 64 bits from bit \<open>pos\<close> on, none of which fills a word.\<close>

fun fields_fit :: "nat \<Rightarrow> (nat \<times> u64) list \<Rightarrow> bool" where
  "fields_fit pos [] \<longleftrightarrow> True"
| "fields_fit pos ((n, v) # fs) \<longleftrightarrow> (n = 64 \<longrightarrow> pos mod 64 \<noteq> 0) \<and> fields_fit (pos + n) fs"

lemma put_full_word:
  assumes rep: "bp_rep bp bs" and pos: "length bs mod 64 = 0" and room: "length bs < 64 * unat (bp_buflen bp)"
  shows "mpp_put_bits bp v 64 = Inl Bad_Shift"
proof -
  let ?p = "unat (bp_bitpos bp)" and ?i = "unat (bp_index bp)"
  have p: "?p < 64" and i: "?i < unat (bp_buflen bp)" "unat (bp_buflen bp) \<le> length (bp_pbuf bp)"
    and bs: "length bs = 64 * ?i + ?p"
    using rep by (auto simp: bp_rep_def length_words)
  have "?p = 0"
    using pos p bs by simp
  moreover have "\<not> bp_index bp \<ge> bp_buflen bp"
    using i by (simp add: word_less_nat_alt not_le)
  ultimately show ?thesis
    using mpp_put_bits_eq [of 64 bp v] i by simp
qed

lemma bitput_fields_ok:
  assumes "bp_rep bp bs" and "list_all (\<lambda>(n, v). 0 < n \<and> n \<le> 64) fs"
    and "length bs + length (lsb_fields fs) < 64 * unat (bp_buflen bp)"
  shows "if fields_fit (length bs) fs then \<exists>bp'. bitput_fields bp fs = Inr bp' \<and> bp_rep bp' (bs @ lsb_fields fs)
    else bitput_fields bp fs = Inl Bad_Shift"
  using assms
proof (induction fs arbitrary: bp bs)
  case Nil
  then show ?case by (simp add: lsb_fields_def)
next
  case (Cons f fs)
  obtain n v where f: "f = (n, v)" by (cases f)
  have bits: "lsb_fields (f # fs) = lsb_bits n v @ lsb_fields fs"
    by (simp add: lsb_fields_def f)
  show ?case
  proof (cases "n = 64 \<longrightarrow> length bs mod 64 \<noteq> 0")
    case True
    obtain bp1 where "mpp_put_bits bp v (int n) = Inr bp1" "bp_rep bp1 (bs @ lsb_bits n v)"
      "bp_buflen bp1 = bp_buflen bp"
      using mpp_put_bits_ok [OF Cons.prems(1) _ _ True, of v] Cons.prems(2,3) by (auto simp: f bits [unfolded f])
    with Cons.IH [of bp1 "bs @ lsb_bits n v"] Cons.prems(2,3) True show ?thesis
      by (simp add: f bits [unfolded f] split: if_splits)
  next
    case False
    then have "mpp_put_bits bp v (int n) = Inl Bad_Shift"
      using put_full_word [OF Cons.prems(1), of v] Cons.prems(3) by simp
    with False show ?thesis by (simp add: f)
  qed
qed

lemma bp_rep_memory:
  assumes "bp_rep bp bs"
  shows "take (length bs) (concat (map (lsb_bits 64) (bp_pbuf bp))) = bs"
proof -
  define p i where "p = unat (bp_bitpos bp)" and "i = unat (bp_index bp)"
  have p: "p < 64" and i: "i < length (bp_pbuf bp)"
    and bs: "bs = concat (map (lsb_bits 64) (take i (bp_pbuf bp))) @ lsb_bits p (bp_bvalue bp)"
    and cur: "bs \<noteq> [] \<longrightarrow> bp_pbuf bp ! i = bp_bvalue bp"
    using assms by (auto simp: bp_rep_def p_def i_def)
  have mem: "concat (map (lsb_bits 64) (bp_pbuf bp)) =
      concat (map (lsb_bits 64) (take i (bp_pbuf bp))) @ lsb_bits 64 (bp_pbuf bp ! i) @
      concat (map (lsb_bits 64) (drop (Suc i) (bp_pbuf bp)))"
    by (subst id_take_nth_drop [OF i]) simp
  have "take p (lsb_bits 64 w) = lsb_bits p w" for w
    using p by (simp add: lsb_bits_def take_map)
  moreover have "length bs = 64 * i + p"
    using i by (simp add: bs length_words)
  ultimately show ?thesis
    using i p cur by (cases "bs = []") (auto simp: mem length_words bs)
qed

section \<open>Properties\<close>

text \<open>
  C33: fields of 1 to 64 bits packed with \<open>mpp_put_bits\<close> into a fresh table of \<open>len\<close> 64-bit words that has
  room for more bits than they have: when no field of 64 bits starts at a word boundary, they lie in
  memory as the concatenation of the fields, least significant bit first; otherwise the packing comes to an
  undefined shift.
\<close>

theorem bitput_packs_fields:
  assumes "0 < unat len" and "unat len \<le> length pbuf"
    and "list_all (\<lambda>(n, v). 0 < n \<and> n \<le> 64) fs" and "length (lsb_fields fs) < 64 * unat len"
  shows "if fields_fit 0 fs
     then \<exists>bp. bitput_fields (mpp_set_bitput_ctx pbuf len) fs = Inr bp \<and>
       take (length (lsb_fields fs)) (concat (map (lsb_bits 64) (bp_pbuf bp))) = lsb_fields fs
     else bitput_fields (mpp_set_bitput_ctx pbuf len) fs = Inl Bad_Shift"
proof -
  have "bp_rep (mpp_set_bitput_ctx pbuf len) []"
    using assms(1,2) by (simp add: bp_rep_def mpp_set_bitput_ctx_def lsb_bits_def)
  from bitput_fields_ok [OF this assms(3)] assms(4) bp_rep_memory show ?thesis
    by (fastforce simp: mpp_set_bitput_ctx_def split: if_splits)
qed

theorem bitput_packs_fields_witness:
  "(\<exists>bp. bitput_fields (mpp_set_bitput_ctx [0, 0] 2) [(4, 5), (62, 1), (7, 127)] = Inr bp \<and>
     take 73 (concat (map (lsb_bits 64) (bp_pbuf bp))) = lsb_fields [(4, 5), (62, 1), (7, 127)]) \<and>
   bitput_fields (mpp_set_bitput_ctx [0, 0] 2) [(64, 5)] = Inl Bad_Shift"
  using bitput_packs_fields [of 2 "[0, 0]" "[(4, 5), (62, 1), (7, 127)]"] bitput_packs_fields [of 2 "[0, 0]" "[(64, 5)]"]
  by (simp add: lsb_fields_def)

end
