(* ===== verification/Mpp_Bitstream.thy ===== *)
theory Mpp_Bitstream
  imports Mpp_Bitread Mpp_Bitwrite
begin

text \<open>
  The bit writer and the bit reader together: a header is a sequence of syntax elements, fixed
  length codes \<open>u(n)\<close> and Exp-Golomb codes \<open>ue(v)\<close> and \<open>se(v)\<close>. What the encoder side writes with
  \<open>mpp_writer_*\<close> the decoder side reads back with \<open>mpp_read_*\<close>, and the bytes in between contain no
  start code.
\<close>

section \<open>Headers as sequences of syntax elements\<close>

datatype descriptor = Fixed nat | Ue | Se

type_synonym element = "descriptor \<times> int"

fun put_element :: "MppWriteCtx \<Rightarrow> element \<Rightarrow> MppWriteCtx run" where
  "put_element c (Fixed n, v) = mpp_writer_put_bits c v (int n)"
| "put_element c (Ue, v) = mpp_writer_put_ue c (word_of_int v)"
| "put_element c (Se, v) = mpp_writer_put_se c v"

fun put_elements :: "MppWriteCtx \<Rightarrow> element list \<Rightarrow> MppWriteCtx run" where
  "put_elements c [] = Inr c"
| "put_elements c (e # es) = run_bind (put_element c e) (\<lambda>c1. put_elements c1 es)"

fun get_element :: "BitReadCtx \<Rightarrow> descriptor \<Rightarrow> (mpp_ret \<times> int \<times> BitReadCtx) run" where
  "get_element c (Fixed n) = run_bind (mpp_read_bits c (int n)) (\<lambda>(ret, v, c1). Inr (ret, uint v, c1))"
| "get_element c Ue = run_bind (mpp_read_ue c 0) (\<lambda>(ret, v, c1). Inr (ret, uint v, c1))"
| "get_element c Se = mpp_read_se c 0"

fun get_elements :: "BitReadCtx \<Rightarrow> descriptor list \<Rightarrow> (mpp_ret \<times> int list \<times> BitReadCtx) run" where
  "get_elements c [] = Inr (MPP_OK, [], c)"
| "get_elements c (s # ss) =
     run_bind (get_element c s) (\<lambda>(ret, v, c1).
       if ret \<noteq> MPP_OK then Inr (ret, [], c1)
       else run_bind (get_elements c1 ss) (\<lambda>(ret1, vs, c2). Inr (ret1, v # vs, c2)))"

fun element_ok :: "element \<Rightarrow> bool" where
  "element_ok (Fixed n, v) \<longleftrightarrow> n \<le> 24 \<and> 0 \<le> v \<and> v < 2 ^ n"
| "element_ok (Ue, v) \<longleftrightarrow> 0 \<le> v \<and> v < 2 ^ 24 - 1"
| "element_ok (Se, v) \<longleftrightarrow> \<bar>v\<bar> < 2 ^ 23 - 1"

fun element_bits :: "element \<Rightarrow> bool list" where
  "element_bits (Fixed n, v) = to_bits n (word_of_int v :: u32)"
| "element_bits (Ue, v) = ue_code (nat v)"
| "element_bits (Se, v) = ue_code (se_index v)"

definition header_bits :: "element list \<Rightarrow> bool list" where
  "header_bits es = concat (map element_bits es)"

text \<open>The stop bit and the alignment zeros that \<open>mpp_writer_trailing\<close> adds.\<close>

definition rbsp_trailing :: "bool list \<Rightarrow> bool list" where
  "rbsp_trailing bs = True # replicate (7 - length bs mod 8) False"

section \<open>Writing\<close>

lemma put_element_ok:
  assumes "wr_rep_at p c bs" and "element_ok e" and "wr_fits_at p c (bs @ element_bits e)"
  shows "\<exists>c'. put_element c e = Inr c' \<and> wr_rep_at p c' (bs @ element_bits e) \<and> wr_fits_at p c' = wr_fits_at p c"
proof (cases e rule: element_ok.cases)
  case (1 n v)
  with assms show ?thesis using nal_sink.put_ok [of p c bs n v] by simp
next
  case (2 v)
  have w: "(word_of_int v :: u32) = of_nat (nat v)" and lt: "nat v + 1 < 2 ^ 24"
    using 2 assms(2) by (simp, simp, linarith)
  have "\<exists>c'. mpp_writer_put_ue c (word_of_int v) = Inr c' \<and> wr_rep_at p c' (bs @ ue_code (nat v)) \<and> wr_fits_at p c' = wr_fits_at p c"
    unfolding w by (rule mpp_writer_put_ue_at [OF assms(1) lt]) (use assms(3) 2 in simp)
  with 2 show ?thesis by simp
next
  case (3 v)
  with assms show ?thesis using mpp_writer_put_se_at [of p c bs v] by simp
qed

lemma put_elements_ok:
  assumes "wr_rep_at p c bs" and "list_all element_ok es" and "wr_fits_at p c (bs @ header_bits es)"
  shows "\<exists>c'. put_elements c es = Inr c' \<and> wr_rep_at p c' (bs @ header_bits es) \<and> wr_fits_at p c' = wr_fits_at p c"
  using assms
proof (induction es arbitrary: c bs)
  case Nil
  then show ?case by (simp add: header_bits_def)
next
  case (Cons e es)
  have bits: "header_bits (e # es) = element_bits e @ header_bits es"
    by (simp add: header_bits_def)
  have "wr_fits_at p c (bs @ element_bits e)"
    using nal_sink.fits_prefix [of p c "bs @ element_bits e"] Cons.prems(3) by (simp add: bits)
  then obtain c1 where "put_element c e = Inr c1" "wr_rep_at p c1 (bs @ element_bits e)" "wr_fits_at p c1 = wr_fits_at p c"
    using put_element_ok [OF Cons.prems(1), of e] Cons.prems(2) by auto
  with Cons.IH [of c1 "bs @ element_bits e"] Cons.prems show ?case
    by (simp add: bits)
qed

lemma mpp_writer_trailing_ok:
  assumes "wr_rep_at p c bs" and "wr_fits_at p c (bs @ rbsp_trailing bs)"
  shows "\<exists>c'. mpp_writer_trailing c = Inr c' \<and> wr_rep_at p c' (bs @ rbsp_trailing bs)"
proof -
  let ?k = "7 - length bs mod 8"
  have one: "to_bits 1 (1 :: u32) = [True]"
    by (simp add: to_bits_def)
  have fits1: "wr_fits_at p c (bs @ [True])"
    using nal_sink.fits_prefix [of p c "bs @ [True]"] assms(2) by (simp add: rbsp_trailing_def)
  then obtain c1 where c1: "mpp_writer_put_bits c 1 1 = Inr c1" "wr_rep_at p c1 (bs @ [True])" "wr_fits_at p c1 = wr_fits_at p c"
    using nal_sink.put_ok [OF assms(1), of 1 1] one by auto
  have bits: "buffered_bits c1 = of_nat ((length bs + 1) mod 8)"
    using c1(2) by (simp add: wr_rep_at_def length_bit_tail_mod)
  show ?thesis
  proof (cases "length bs mod 8 = 7")
    case True
    then have "(length bs + 1) mod 8 = 0"
      by (simp add: mod_Suc)
    with bits True c1 show ?thesis
      by (simp add: mpp_writer_trailing_def rbsp_trailing_def)
  next
    case False
    then have m: "(length bs + 1) mod 8 = length bs mod 8 + 1" and k: "?k < 8" "length bs mod 8 + 1 + ?k = 8"
      by (simp_all add: mod_Suc)
    have "8 - buffered_bits c1 = of_nat ?k"
      unfolding bits m using arg_cong [OF k(2), of "of_nat :: nat \<Rightarrow> u32"]
      by (simp add: algebra_simps)
    then have s: "sint (8 - buffered_bits c1) = int ?k"
      using k(1) by (simp only:) (rule sint_of_nat_small, simp)
    have "buffered_bits c1 \<noteq> 0"
      unfolding bits m by (rule of_nat_small_neq_0) (simp, simp add: order_less_trans [of _ 8])
    moreover have "?k \<le> 24"
      by simp
    ultimately show ?thesis
      using s c1 nal_sink.put_zeros [OF c1(2), of ?k] assms(2) by (auto simp: mpp_writer_trailing_def rbsp_trailing_def)
  qed
qed

section \<open>The bytes in between\<close>

text \<open>\<open>escape_ctx z a b\<close>: after the bytes \<open>a\<close> and \<open>b\<close> the writer has counted \<open>z\<close> zero bytes.\<close>

definition escape_ctx :: "nat \<Rightarrow> u8 \<Rightarrow> u8 \<Rightarrow> bool" where
  "escape_ctx z a b \<longleftrightarrow> z = 2 \<and> a = 0 \<and> b = 0 \<or> z = 1 \<and> a \<noteq> 0 \<and> b = 0 \<or> z = 0 \<and> b \<noteq> 0"

lemma escape_ctx_next:
  "escape_ctx z a b \<Longrightarrow> \<not> (z = 2 \<and> x < 4) \<Longrightarrow> escape_ctx (if x = 0 then z + 1 else 0) b x"
  "a \<noteq> 0 \<Longrightarrow> escape_ctx (if x = 0 then 1 else 0) a x"
  by (auto simp: escape_ctx_def)

lemma unescape_escape: "escape_ctx z a b \<Longrightarrow> unescape a b (escape z P) = P"
proof (induction z P arbitrary: a b rule: escape.induct)
  case (2 z x xs)
  show ?case
  proof (cases "z = 2 \<and> x < 4")
    case True
    with 2 escape_ctx_next(2) [where a = "0xff" and x = x] show ?thesis
      by (auto simp: escape_ctx_def [of 2] unescape_step)
  next
    case False
    moreover from False "2.prems" have "\<not> (x = 3 \<and> a = 0 \<and> b = 0)"
      by (auto simp: escape_ctx_def)
    ultimately show ?thesis
      using 2 escape_ctx_next(1) [OF "2.prems" False] by (auto simp: unescape_step)
  qed
qed simp

text \<open>No three bytes \<open>00 00 0x\<close> with \<open>x\<close> below 3, so neither a start code nor its forbidden kin.\<close>

fun emulation_free :: "u8 list \<Rightarrow> bool" where
  "emulation_free (a # b # c # xs) \<longleftrightarrow> \<not> (a = 0 \<and> b = 0 \<and> c < 3) \<and> emulation_free (b # c # xs)"
| "emulation_free _ \<longleftrightarrow> True"

lemma emulation_free_escape: "escape_ctx z a b \<Longrightarrow> emulation_free (a # b # escape z P)"
proof (induction z P arbitrary: a b rule: escape.induct)
  case (2 z x xs)
  show ?case
  proof (cases "z = 2 \<and> x < 4")
    case True
    with "2.IH"(1) [OF True escape_ctx_next(2), of 3] "2.prems" show ?thesis
      by simp
  next
    case False
    moreover have "\<not> (a = 0 \<and> b = 0 \<and> x < 3)"
      using False "2.prems" order_less_trans [of x 3 4] by (auto simp: escape_ctx_def)
    ultimately show ?thesis
      using "2.IH"(2) [OF False escape_ctx_next(1) [OF "2.prems" False]] by auto
  qed
qed simp

lemma emulation_free_tl: "emulation_free (a # xs) \<Longrightarrow> emulation_free xs"
  by (cases "(a, xs)" rule: prod.exhaust) (cases xs rule: emulation_free.cases; simp)

lemma length_escape: "z \<le> 2 \<Longrightarrow> 2 * length (escape z P) \<le> 3 * length P + z"
  by (induction z P rule: escape.induct) auto

section \<open>Reading\<close>

lemma to_bits_ue:
  assumes "2 ^ k \<le> n" and "n < 2 ^ (k + 1)" and "k \<le> 30"
  shows "to_bits (k + 1) (of_nat n :: u32) = True # to_bits k (of_nat n :: u32)"
proof -
  have "n < 2 ^ 31"
    using assms(2,3) less_le_trans [of n "2 ^ (k + 1)" "2 ^ 31"] power_increasing [of "k + 1" 31 "2::nat"] by simp
  then have un: "unat (of_nat n :: u32) = n"
    by (simp add: unsigned_of_nat take_bit_nat_eq_self)
  have "drop_bit k n = 1"
    using assms(1,2) by (simp add: drop_bit_eq_div div_nat_eqI)
  then have "bit n k"
    by (simp add: bit_iff_odd_drop_bit)
  then have "bit (of_nat n :: u32) k"
    using assms(3) by (simp add: bit_of_nat_iff)
  then have "to_bits 1 (drop_bit k (of_nat n :: u32)) = [True]"
    by (simp add: to_bits_def bit_drop_bit_eq)
  then show ?thesis
    using to_bits_append [of 1 k "of_nat n :: u32"] by (simp add: add.commute)
qed

lemma ue_value:
  assumes "2 ^ k \<le> n" and "n < 2 ^ (k + 1)" and "k \<le> 30"
  shows "2 ^ k - 1 + of_bits (to_bits k (of_nat n :: u32)) = (of_nat (n - 1) :: u32)"
proof -
  have "take_bit k n = n - 2 ^ k"
    using assms(1,2) by (simp add: take_bit_eq_mod le_mod_geq)
  then have "take_bit k (of_nat n :: u32) = of_nat (n - 2 ^ k)"
    by (metis of_nat_take_bit)
  then have "take_bit k (of_nat n :: u32) = of_nat n - 2 ^ k"
    using assms(1) by (simp add: of_nat_diff)
  moreover have "1 \<le> n"
    using assms(1) order_trans [of 1 "2 ^ k" n] by simp
  ultimately show ?thesis
    by (simp add: of_bits_to_bits of_nat_diff)
qed

lemma of_nat_half:
  assumes "n < 2 ^ 31"
  shows "(of_nat n :: u32) mod 2 = of_nat (n mod 2)" and "drop_bit 1 (of_nat n :: u32) = of_nat (n div 2)"
proof -
  show "(of_nat n :: u32) mod 2 = of_nat (n mod 2)"
    by (rule word_unat_eq_iff [THEN iffD2])
      (use assms in \<open>simp add: unat_mod_distrib unsigned_of_nat take_bit_nat_eq_self\<close>)
  show "drop_bit 1 (of_nat n :: u32) = of_nat (n div 2)"
    by (rule word_unat_eq_iff [THEN iffD2])
      (use assms in \<open>simp add: unat_drop_bit_eq drop_bit_eq_div [of _ n] unsigned_of_nat take_bit_nat_eq_self\<close>)
qed

context byte_feed
begin

lemma read_ue_code:
  assumes "ready c" and "stream c = ue_code v @ rest" and "v < 2 ^ 30"
  shows "\<exists>c'. mpp_read_ue c val0 = Inr (MPP_OK, of_nat v, c') \<and> ready c' \<and> stream c' = rest"
proof -
  define k where "k = ilog2 (v + 1)"
  have b: "2 ^ k \<le> v + 1" "v + 1 < 2 ^ (k + 1)"
    using ilog2_bounds [of "v + 1"] by (simp_all add: k_def)
  have k: "k \<le> 30"
    using ilog2_less [of "v + 1" 31] assms(3) by (simp add: k_def)
  let ?t = "to_bits k (of_nat (v + 1) :: u32)"
  have st: "stream c = replicate k False @ True # (?t @ rest)"
    using assms(2) to_bits_ue [OF b k] by (simp add: ue_code_def k_def)
  show ?thesis
    using read_ue_ok [OF assms(1) st, of val0] ue_value [OF b k] k by simp
qed

lemma read_se_code:
  assumes "ready c" and "stream c = ue_code (se_index v) @ rest" and "\<bar>v\<bar> < 2 ^ 28"
  shows "\<exists>c'. mpp_read_se c val0 = Inr (MPP_OK, v, c') \<and> ready c' \<and> stream c' = rest"
proof -
  define n where "n = se_index v"
  have n: "n < 2 ^ 30" "n < 2 ^ 31"
    using assms(3) by (auto simp: n_def se_index_def)
  obtain c' where c': "mpp_read_ue c 0 = Inr (MPP_OK, of_nat n, c')" "ready c'" "stream c' = rest"
    using read_ue_code [OF assms(1,2)] n(1) by (auto simp: n_def)
  show ?thesis
  proof (cases "v > 0")
    case True
    then have "n = 2 * nat (v - 1) + 1"
      by (simp add: n_def se_index_def)
    then have "n mod 2 = 1" "int (n div 2) + 1 = v"
      using True by simp_all
    then show ?thesis
      using c' of_nat_half [OF n(2)] sint_of_nat_small [of "n div 2 + 1"] n
      by (simp add: mpp_read_se_def add.commute)
  next
    case False
    then have "n = 2 * nat (- v)"
      by (simp add: n_def se_index_def)
    then have "n mod 2 = 0" "- int (n div 2) = v"
      using False by simp_all
    then show ?thesis
      using c' of_nat_half [OF n(2)] sint_of_nat_small [of "n div 2"] n
      by (simp add: mpp_read_se_def)
  qed
qed

lemma get_element_ok:
  assumes "ready c" and "element_ok e" and "stream c = element_bits e @ rest"
  shows "\<exists>c'. get_element c (fst e) = Inr (MPP_OK, snd e, c') \<and> ready c' \<and> stream c' = rest"
proof (cases e rule: element_ok.cases)
  case (1 n v)
  have v: "take_bit n v = v" and n: "n \<le> 24"
    using 1 assms(2) by (simp_all add: take_bit_int_eq_self)
  have "uint (of_bits (to_bits n (word_of_int v :: u32)) :: u32) = v"
    using v n by (simp add: of_bits_to_bits unsigned_take_bit_eq uint_word_of_int_eq take_bit_take_bit)
  with read_bits_ok [of c "int n"] 1 assms n show ?thesis by auto
next
  case (2 v)
  then have v: "nat v < 2 ^ 30" "0 \<le> v"
    using assms(2) by (simp_all, linarith)
  with 2 read_ue_code [OF assms(1), of "nat v" rest 0] assms(3) obtain c' where
    "mpp_read_ue c 0 = Inr (MPP_OK, of_nat (nat v), c')" "ready c'" "stream c' = rest"
    by auto
  moreover have "uint (of_nat (nat v) :: u32) = v"
    using v by (simp add: uint_word_of_int_eq take_bit_int_eq_self)
  ultimately show ?thesis using 2 by simp
next
  case (3 v)
  with read_se_code [OF assms(1), of v rest] assms show ?thesis by auto
qed

lemma get_elements_ok:
  assumes "ready c" and "list_all element_ok es" and "stream c = header_bits es @ rest"
  shows "\<exists>c'. get_elements c (map fst es) = Inr (MPP_OK, map snd es, c') \<and> ready c' \<and> stream c' = rest"
  using assms
proof (induction es arbitrary: c)
  case Nil
  then show ?case by (simp add: header_bits_def)
next
  case (Cons e es)
  have st: "stream c = element_bits e @ header_bits es @ rest"
    using Cons.prems(3) by (simp add: header_bits_def)
  then obtain c1 where "get_element c (fst e) = Inr (MPP_OK, snd e, c1)" "ready c1"
    "stream c1 = header_bits es @ rest"
    using get_element_ok [OF Cons.prems(1) _ st] Cons.prems(2) by auto
  with Cons.IH [of c1] Cons.prems(2) show ?case by auto
qed

end

section \<open>The round trip\<close>

definition h264_reader :: "u8 list \<Rightarrow> int \<Rightarrow> BitReadCtx" where
  "h264_reader mem len = mpp_set_bitread_pseudo_code_type (mpp_set_bitread_ctx mem len) PSEUDO_CODE_H264_H265"

definition write_header :: "u8 list \<Rightarrow> int \<Rightarrow> element list \<Rightarrow> MppWriteCtx run" where
  "write_header mem len es =
     run_bind (put_elements (snd (mpp_writer_init mem len)) es) mpp_writer_trailing"

lemma wr_rep_init:
  assumes "0 \<le> len" and "len < 2 ^ 31" and "nat len \<le> length mem"
  shows "wr_rep (snd (mpp_writer_init mem len)) []" and "wr_size (snd (mpp_writer_init mem len)) = word_of_int len"
proof -
  have "unat (word_of_int len :: u32) = nat len"
    using assms by (simp add: unat_eq_nat_uint uint_word_of_int_eq take_bit_int_eq_self)
  then show "wr_rep (snd (mpp_writer_init mem len)) []"
    using assms(3) by (simp add: mpp_writer_init_def mpp_writer_status_def wr_rep_def wr_out_def)
  show "wr_size (snd (mpp_writer_init mem len)) = word_of_int len"
    by (simp add: mpp_writer_init_def mpp_writer_status_def)
qed

lemma length_with_trailing: "length (bs @ rbsp_trailing bs) = 8 * ((length bs + 8) div 8)"
proof -
  have "length bs = 8 * (length bs div 8) + length bs mod 8" "length bs mod 8 < 8"
    by simp_all
  moreover have "(length bs + 8) div 8 = length bs div 8 + 1"
    by (rule div_add_self2) simp
  ultimately show ?thesis
    unfolding rbsp_trailing_def length_append list.size(4) length_replicate by linarith
qed

lemma length_bit_bytes: "length (bit_bytes bs) = length bs div 8"
  by (induction bs rule: bit_bytes.induct) (subst bit_bytes.simps, simp add: le_div_geq)

text \<open>A buffer of three halves of the payload always has room for the emulation prevention bytes.\<close>

lemma fits_of_length:
  assumes "0 \<le> len" and "len < 2 ^ 31" and "3 * (length bs div 8) \<le> 2 * nat len"
    and "wr_size c = word_of_int len"
  shows "wr_fits c bs"
proof -
  have "unat (word_of_int len :: u32) = nat len"
    using assms by (simp add: unat_eq_nat_uint uint_word_of_int_eq take_bit_int_eq_self)
  moreover have "2 * length (escape 0 (bit_bytes bs)) \<le> 3 * (length bs div 8)"
    using length_escape [of 0 "bit_bytes bs"] by (simp add: length_bit_bytes)
  ultimately show ?thesis
    using assms(3,4) by (simp add: wr_fits_def)
qed

lemma write_header_ok:
  assumes len: "0 \<le> len" "len < 2 ^ 31" "nat len \<le> length mem"
    and es: "list_all element_ok es"
    and room: "3 * ((length (header_bits es) + 8) div 8) \<le> 2 * nat len"
  shows "\<exists>c. write_header mem len es = Inr c \<and> wr_rep c (header_bits es @ rbsp_trailing (header_bits es))"
proof -
  let ?c = "snd (mpp_writer_init mem len)" and ?h = "header_bits es"
  have "length (?h @ rbsp_trailing ?h) div 8 = (length ?h + 8) div 8"
    unfolding length_with_trailing by simp
  then have fits: "wr_fits ?c ((?h @ rbsp_trailing ?h))"
    using fits_of_length [OF len(1,2), of "?h @ rbsp_trailing ?h" ?c] room wr_rep_init(2) [OF len] by simp
  then obtain c1 where "put_elements ?c es = Inr c1" "wr_rep c1 ?h" "wr_fits c1 = wr_fits ?c"
    using put_elements_ok [OF wr_rep_init(1) [OF len] es] nal_sink.fits_prefix by auto
  with fits mpp_writer_trailing_ok [of "[]" c1 ?h] show ?thesis
    by (auto simp: write_header_def)
qed

lemma escape_header_length:
  "2 * length (escape 0 (bit_bytes (header_bits es @ rbsp_trailing (header_bits es))))
     \<le> 3 * ((length (header_bits es) + 8) div 8)"
  using length_escape [of 0 "bit_bytes (header_bits es @ rbsp_trailing (header_bits es))"]
  unfolding length_bit_bytes length_with_trailing by simp

lemma stream_of_written:
  assumes "wr_rep c bs" and "8 dvd length bs" and "length (escape 0 (bit_bytes bs)) < 2 ^ 31"
  shows "nal_feed.ready (h264_reader (wr_mem c) (mpp_writer_bytes c))"
    and "nal_feed.stream (h264_reader (wr_mem c) (mpp_writer_bytes c)) = bs"
proof -
  let ?r = "h264_reader (wr_mem c) (mpp_writer_bytes c)"
  have tail: "bit_tail bs = []"
    using assms(2) by (simp add: bit_tail_def)
  have st: "wr_stream c = unat (byte_cnt c)" "wr_stream c \<le> unat (wr_size c)" "unat (wr_size c) \<le> length (wr_mem c)"
    and mem: "take (unat (byte_cnt c)) (wr_mem c) = escape 0 (bit_bytes bs)" and "buffered_bits c = 0"
    using assms(1) tail by (auto simp: wr_rep_def wr_out_def)
  moreover have "unat (byte_cnt c) < 2 ^ 31"
    using assms(1,3) by (simp add: wr_rep_def wr_out_def)
  ultimately have b: "mpp_writer_bytes c = int (unat (byte_cnt c))"
    using sint_small [of "byte_cnt c"] by (simp add: mpp_writer_bytes_def)
  have r: "br_data ?r = 0" "bytes_left ?r = byte_cnt c" "br_mem ?r = wr_mem c" "num_remaining_bits ?r = 0"
    "curr_byte ?r = 0" "prev_two_bytes ?r = 0xffff" "prevention_type ?r = PSEUDO_CODE_H264_H265"
    by (simp_all add: b h264_reader_def mpp_set_bitread_pseudo_code_type_def mpp_set_bitread_ctx_def)
  show "nal_feed.ready ?r"
    using st by (simp add: nal_feed.ready_def r mem_wf_def cur_wf_def)
  have p: "prev_hi ?r = 0xff" "prev_lo ?r = 0xff"
    by (simp_all add: prev_hi_def prev_lo_def r)
  have "unescape 0xff 0xff (escape 0 (bit_bytes bs)) = bit_bytes bs"
    by (rule unescape_escape) (simp add: escape_ctx_def)
  then have "h264_feed ?r = byte_bits (bit_bytes bs)"
    by (simp add: h264_feed_def rest_bytes_def r mem p)
  then show "nal_feed.stream ?r = bs"
    using byte_bits_bit_bytes [of bs] tail by (simp add: nal_feed.stream_def cur_bits_def r)
qed

section \<open>Properties\<close>

text \<open>
  C1: for every header, that is every sequence of fixed length fields of at most 24 bits,
  unsigned Exp-Golomb values below \<open>2 ^ 24 - 1\<close> and signed ones below \<open>2 ^ 23 - 1\<close> in absolute value,
  a writer whose buffer has three halves of the payload writes it without a fault, and the
  reader of the same memory returns every value.
\<close>

theorem header_roundtrip:
  assumes "0 \<le> len" and "len < 2 ^ 31" and "nat len \<le> length mem"
    and "list_all element_ok es"
    and "3 * ((length (header_bits es) + 8) div 8) \<le> 2 * nat len"
  shows "\<exists>w. write_header mem len es = Inr w \<and>
     (\<exists>r. get_elements (h264_reader (wr_mem w) (mpp_writer_bytes w)) (map fst es) = Inr (MPP_OK, map snd es, r))"
proof -
  let ?bs = "header_bits es @ rbsp_trailing (header_bits es)"
  obtain w where w: "write_header mem len es = Inr w" "wr_rep w ?bs"
    using write_header_ok [OF assms] by auto
  have "8 dvd length ?bs"
    unfolding length_with_trailing by simp
  moreover have "length (escape 0 (bit_bytes ?bs)) < 2 ^ 31"
  proof -
    have "nat len < 2 ^ 31"
      using assms(2) by (simp add: nat_less_iff)
    then show ?thesis
      using escape_header_length [of es] assms(5) by linarith
  qed
  ultimately have "nal_feed.ready (h264_reader (wr_mem w) (mpp_writer_bytes w))"
    "nal_feed.stream (h264_reader (wr_mem w) (mpp_writer_bytes w)) = ?bs"
    using stream_of_written [OF w(2)] by auto
  with nal_feed.get_elements_ok [OF _ assms(4)] w(1)
  show ?thesis by fastforce
qed

theorem header_roundtrip_witness:
  "\<exists>w. write_header (replicate 16 0) 16 [(Fixed 8, 103), (Fixed 24, 0), (Ue, 5), (Se, - 3)] = Inr w \<and>
     (\<exists>r. get_elements (h264_reader (wr_mem w) (mpp_writer_bytes w)) [Fixed 8, Fixed 24, Ue, Se] =
        Inr (MPP_OK, [103, 0, 5, - 3], r))"
proof -
  let ?es = "[(Fixed 8, 103), (Fixed 24, 0), (Ue, 5), (Se, - 3)] :: element list"
  have "length (header_bits ?es) = 42"
    by (simp add: header_bits_def ue_code_def ilog2.simps se_index_def)
  then show ?thesis
    using header_roundtrip [of 16 "replicate 16 0" ?es] by simp
qed

text \<open>
  C13: the bytes written for a header contain no sequence \<open>00 00 00\<close>, \<open>00 00 01\<close> or \<open>00 00 02\<close>,
  whatever the values are, so no start code can appear inside a unit.
\<close>

theorem header_emulation_free:
  assumes "0 \<le> len" and "len < 2 ^ 31" and "nat len \<le> length mem"
    and "list_all element_ok es"
    and "3 * ((length (header_bits es) + 8) div 8) \<le> 2 * nat len"
  shows "\<exists>w. write_header mem len es = Inr w \<and> emulation_free (take (unat (byte_cnt w)) (wr_mem w))"
proof -
  obtain w where w: "write_header mem len es = Inr w"
    and rep: "wr_rep w (header_bits es @ rbsp_trailing (header_bits es))"
    using write_header_ok [OF assms] by auto
  have "emulation_free (0xff # 0xff # escape 0 P)" for P
    by (rule emulation_free_escape) (simp add: escape_ctx_def)
  then have "emulation_free (escape 0 P)" for P
    by (blast dest: emulation_free_tl)
  with rep have "emulation_free (take (unat (byte_cnt w)) (wr_mem w))"
    by (auto simp: wr_rep_def wr_out_def)
  with w show ?thesis by auto
qed

theorem header_emulation_free_witness:
  "\<exists>w. write_header (replicate 8 0) 8 [(Fixed 24, 0), (Fixed 8, 0)] = Inr w
     \<and> emulation_free (take (unat (byte_cnt w)) (wr_mem w))"
  using header_emulation_free [of 8 "replicate 8 0" "[(Fixed 24, 0), (Fixed 8, 0)]"]
  by (simp add: header_bits_def)

text \<open>
  for values of 25 bits and more \<open>mpp_writer_put_ue\<close> shifts the value before it
  emits the low bits, so different values produce the same code: \<open>2 ^ 24\<close> and \<open>2 ^ 24 - 1\<close> leave
  every context in the same state. The bound of the round trip cannot be raised.
\<close>

theorem put_ue_collision:
  "mpp_writer_put_ue c 0x1000000 = mpp_writer_put_ue c 0xffffff"
proof -
  have "shift_len_loop 0x1000001 0 = 25" "shift_len_loop 0x1000000 0 = 25"
    by (simp_all add: shift_len_loop_ilog2 ilog2_unique [of 24])
  then show ?thesis
    by (simp add: mpp_writer_put_ue_def)
qed

text \<open>
  C38: \<open>mpp_writer_status\<close> lets a full buffer pass, so the next byte is stored one past the end
  of a buffer of exactly \<open>size\<close> bytes.
\<close>

theorem put_bits_overrun:
  assumes "wr_rep c bs" and "8 dvd length bs" and "wr_stream c = length (wr_mem c)"
  shows "mpp_writer_put_bits c v 8 = Inl Out_Of_Bounds"
proof -
  have "bit_tail bs = []"
    using assms(2) by (simp add: bit_tail_def)
  with assms show ?thesis
    by (simp add: mpp_writer_put_bits_def put_bits_loop.simps mpp_writer_status_def wr_rep_def wr_out_def
        put_escaped_byte_def store_byte_def array_set_def word_less_nat_alt)
qed

theorem put_bits_overrun_witness:
  "run_bind (mpp_writer_put_bits (snd (mpp_writer_init [0] 1)) 255 8) (\<lambda>c. mpp_writer_put_bits c 255 8)
     = Inl Out_Of_Bounds"
proof -
  let ?c = "\<lparr>wr_mem = [255], wr_stream = 1, wr_size = 1, byte_cnt = 1, byte_buffer = 0, buffered_bits = 0,
      zero_bytes = 0, wr_overflow = 0, emul_cnt = 0\<rparr>"
  have "mpp_writer_put_bits (snd (mpp_writer_init [0] 1)) 255 8 = Inr ?c"
    by code_simp
  moreover have "wr_rep ?c (to_bits 8 (255 :: u8))"
    using bit_bytes_byte_bits [of "[255]" "[]"] bit_tail_byte_bits [of "[255]" "[]"]
    by (simp add: wr_rep_def wr_out_def)
  ultimately show ?thesis
    using put_bits_overrun [of ?c "to_bits 8 (255 :: u8)" 255] by simp
qed

text \<open>
  \<open>mpp_exp_golomb_signed\<close> is the number of bits of the code that \<open>mpp_writer_put_se\<close> writes.
\<close>

theorem mpp_exp_golomb_signed_length:
  "mpp_exp_golomb_signed v = int (length (ue_code (se_index v)))"
proof -
  have loop: "golomb_len_loop n k = ilog2 n + 1" if "0 < n" "k \<le> ilog2 n" for n k
    using that
  proof (induction n k rule: golomb_len_loop.induct)
    case (1 n k)
    note b = ilog2_bounds [OF "1.prems"(1)]
    show ?case
    proof (cases "n < 2 ^ (k + 1)")
      case True
      with ilog2_less [OF "1.prems"(1) True] "1.prems"(2) show ?thesis
        by (simp add: golomb_len_loop.simps [of n k] drop_bit_eq_div)
    next
      case False
      then have "k \<noteq> ilog2 n" using b by auto
      with False "1.IH" "1.prems" show ?thesis
        by (simp add: golomb_len_loop.simps [of n k] drop_bit_eq_div div_eq_0_iff)
    qed
  qed
  have "nat (if v > 0 then 2 * v else - 2 * v + 1) = se_index v + 1"
    by (auto simp: se_index_def Suc_nat_eq_nat_zadd1)
  with loop [of "se_index v + 1" 0] show ?thesis
    by (simp add: mpp_exp_golomb_signed_def ue_code_def Let_def)
qed

end
