(* ===== verification/Mpp_Buffer.thy ===== *)
theory Mpp_Buffer
  imports Mpp_Prelude
begin

text \<open>
  Buffers and buffer groups: \<open>mpp/base/mpp_buffer_impl.c\<close>, \<open>mpp/base/inc/mpp_buffer_impl.h\<close> and the user
  interface \<open>mpp/base/mpp_buffer.c\<close>.

  Buffers and groups are objects of a memory pool, at addresses that are natural numbers; \<open>None\<close> is an
  address that is not in use, and an access to it is the fault \<open>Freed_Access\<close>. A new object gets a new
  address. The two status lists of a group and the lists of the service are lists of addresses
  (\<open>Mpp_List\<close> shows that the linked lists implement them); as in C, \<open>list_del_init\<close> takes a buffer out
  of whatever list it is in. The calls to an allocator, to a device and to the callback of a group are
  events. The locks are recursive and every operation is sequential, so they are left out, as is the
  operation history, which is off unless a debug flag is set.
\<close>

section \<open>Constants\<close>

abbreviation (input) MPP_BUFFER_INTERNAL :: u32 where "MPP_BUFFER_INTERNAL \<equiv> 0"
abbreviation (input) MPP_BUFFER_EXTERNAL :: u32 where "MPP_BUFFER_EXTERNAL \<equiv> 1"
abbreviation (input) MPP_BUFFER_MODE_BUTT :: u32 where "MPP_BUFFER_MODE_BUTT \<equiv> 2"

abbreviation (input) MPP_BUFFER_TYPE_NORMAL :: u32 where "MPP_BUFFER_TYPE_NORMAL \<equiv> 0"
abbreviation (input) MPP_BUFFER_TYPE_ION :: u32 where "MPP_BUFFER_TYPE_ION \<equiv> 1"
abbreviation (input) MPP_BUFFER_TYPE_BUTT :: u32 where "MPP_BUFFER_TYPE_BUTT \<equiv> 5"
abbreviation (input) MPP_BUFFER_TYPE_MASK :: u32 where "MPP_BUFFER_TYPE_MASK \<equiv> 0xFFFF"
abbreviation (input) MPP_BUFFER_FLAGS_CONTIG :: u32 where "MPP_BUFFER_FLAGS_CONTIG \<equiv> 0x10000"
abbreviation (input) MPP_BUFFER_FLAGS_CACHABLE :: u32 where "MPP_BUFFER_FLAGS_CACHABLE \<equiv> 0x20000"
abbreviation (input) MPP_BUFFER_FLAGS_DMA32 :: u32 where "MPP_BUFFER_FLAGS_DMA32 \<equiv> 0x200000"

abbreviation (input) MPP_ALLOC_FLAG_DMA32 :: u32 where "MPP_ALLOC_FLAG_DMA32 \<equiv> 1"
abbreviation (input) MPP_ALLOC_FLAG_CACHABLE :: u32 where "MPP_ALLOC_FLAG_CACHABLE \<equiv> 2"
abbreviation (input) MPP_ALLOC_FLAG_CMA :: u32 where "MPP_ALLOC_FLAG_CMA \<equiv> 4"
abbreviation (input) MPP_ALLOC_FLAG_TYPE_NB :: u32 where "MPP_ALLOC_FLAG_TYPE_NB \<equiv> 8"

abbreviation (input) BUFFER_GROUP_SIZE_DEFAULT :: u64 where "BUFFER_GROUP_SIZE_DEFAULT \<equiv> 80 * 1024 * 1024"
abbreviation (input) MPP_BUF_DBG_CLR_ON_EXIT :: u32 where "MPP_BUF_DBG_CLR_ON_EXIT \<equiv> 0x10"
abbreviation (input) SZ_4M :: u64 where "SZ_4M \<equiv> 4 * 1024 * 1024"

datatype MppBufSrvStatus = MPP_BUF_SRV_UNINITED | MPP_BUF_SRV_NORMAL | MPP_BUF_SRV_FINALIZED

section \<open>Data\<close>

record MppBufferInfo =
  bi_type :: u32
  bi_size :: u64
  bi_ptr :: "nat option"
  bi_hnd :: "nat option"
  bi_fd :: int
  bi_index :: int

record MppDevBufMapNode =
  mn_dev :: nat
  mn_iova :: u32
  mn_fd :: int

record MppBufferImpl =
  bf_allocator :: nat
  bf_group_id :: u32
  bf_buffer_id :: int
  bf_mode :: u32
  bf_type :: u32
  bf_info :: MppBufferInfo
  bf_offset :: u64
  bf_uncached :: bool
  bf_discard :: bool
  bf_used :: bool
  bf_ref_count :: int
  bf_maps :: "MppDevBufMapNode list"

record MppBufferGroupImpl =
  gp_allocator :: nat
  gp_flags :: u32
  gp_group_id :: u32
  gp_mode :: u32
  gp_type :: u32
  gp_clear_on_exit :: bool
  gp_is_misc :: bool
  gp_is_orphan :: bool
  gp_is_finalizing :: bool
  gp_limit_size :: u64
  gp_limit_count :: int
  gp_limit :: u64
  gp_usage :: u64
  gp_buffer_id :: int
  gp_buffer_count :: int
  gp_callback :: "nat option"
  gp_list_used :: "nat list"
  gp_list_unused :: "nat list"
  gp_count_used :: int
  gp_count_unused :: int

text \<open>\<open>sv_misc\<close> and \<open>sv_allocator\<close> are the arrays \<open>misc\<close> and \<open>allocator\<close>, as functions of their indices.\<close>

record MppBufferService =
  sv_group_id :: u32
  sv_group_count :: u32
  sv_finalizing :: bool
  sv_total_size :: u32
  sv_total_max :: u32
  sv_misc :: "u32 \<Rightarrow> u32 \<Rightarrow> u32 \<Rightarrow> u32"
  sv_misc_count :: u32
  sv_allocator :: "u32 \<Rightarrow> u32 \<Rightarrow> nat option"
  sv_allocator_api :: "u32 \<Rightarrow> bool"
  sv_list_group :: "nat list"
  sv_hash_group :: "nat list"
  sv_list_orphan :: "nat list"

datatype buf_event =
    Ev_Free nat MppBufferInfo
  | Ev_Release nat MppBufferInfo
  | Ev_Detach nat MppDevBufMapNode
  | Ev_Callback nat nat

record buf_state =
  bs_bufs :: "nat \<Rightarrow> MppBufferImpl option"
  bs_groups :: "nat \<Rightarrow> MppBufferGroupImpl option"
  bs_next :: nat
  bs_srv :: "MppBufferService option"
  bs_status :: MppBufSrvStatus
  bs_overflowed :: bool
  bs_events :: "buf_event list"

text \<open>
  What the code is given: the memory pool (whether the object with a given number can be allocated),
  the allocators, the devices, and the debug flags of the environment. The functions of an allocator
  return \<open>None\<close> when they fail.
\<close>

record buf_env =
  ev_pool_get :: "nat \<Rightarrow> bool"
  ev_allocator_get :: "u32 \<Rightarrow> u32 \<Rightarrow> nat option"
  ev_allocator_flags :: "nat \<Rightarrow> u32"
  ev_alloc :: "nat \<Rightarrow> MppBufferInfo \<Rightarrow> MppBufferInfo option"
  ev_import :: "nat \<Rightarrow> MppBufferInfo \<Rightarrow> MppBufferInfo option"
  ev_mmap :: "nat \<Rightarrow> MppBufferInfo \<Rightarrow> mpp_ret \<times> MppBufferInfo"
  ev_attach_fd :: "nat \<Rightarrow> int \<Rightarrow> u32 option"
  ev_detach_fd :: "nat \<Rightarrow> MppDevBufMapNode \<Rightarrow> mpp_ret"
  ev_debug :: u32

definition buf_state_0 :: buf_state where
  "buf_state_0 = \<lparr>bs_bufs = (\<lambda>_. None), bs_groups = (\<lambda>_. None), bs_next = 0, bs_srv = None,
     bs_status = MPP_BUF_SRV_UNINITED, bs_overflowed = False, bs_events = []\<rparr>"

text \<open>Access to the objects.\<close>

definition get_buf :: "buf_state \<Rightarrow> nat \<Rightarrow> MppBufferImpl run" where
  "get_buf s b = (case bs_bufs s b of None \<Rightarrow> Inl Freed_Access | Some x \<Rightarrow> Inr x)"

definition get_grp :: "buf_state \<Rightarrow> nat \<Rightarrow> MppBufferGroupImpl run" where
  "get_grp s g = (case bs_groups s g of None \<Rightarrow> Inl Freed_Access | Some x \<Rightarrow> Inr x)"

definition set_buf :: "nat \<Rightarrow> MppBufferImpl \<Rightarrow> buf_state \<Rightarrow> buf_state" where
  "set_buf b x s = s\<lparr>bs_bufs := (bs_bufs s)(b \<mapsto> x)\<rparr>"

definition set_grp :: "nat \<Rightarrow> MppBufferGroupImpl \<Rightarrow> buf_state \<Rightarrow> buf_state" where
  "set_grp g x s = s\<lparr>bs_groups := (bs_groups s)(g \<mapsto> x)\<rparr>"

definition upd_srv :: "(MppBufferService \<Rightarrow> MppBufferService) \<Rightarrow> buf_state \<Rightarrow> buf_state" where
  "upd_srv f s = s\<lparr>bs_srv := map_option f (bs_srv s)\<rparr>"

definition add_event :: "buf_event \<Rightarrow> buf_state \<Rightarrow> buf_state" where
  "add_event e s = s\<lparr>bs_events := bs_events s @ [e]\<rparr>"

definition del_status :: "nat \<Rightarrow> MppBufferGroupImpl \<Rightarrow> MppBufferGroupImpl" where
  "del_status b p = p\<lparr>gp_list_used := remove1 b (gp_list_used p), gp_list_unused := remove1 b (gp_list_unused p)\<rparr>"

text \<open>\<open>list_del_init(&buffer->list_status)\<close>\<close>

definition list_del_status :: "nat \<Rightarrow> buf_state \<Rightarrow> buf_state" where
  "list_del_status b s = s\<lparr>bs_groups := (\<lambda>g. map_option (del_status b) (bs_groups s g))\<rparr>"

section \<open>The service\<close>

definition service_0 :: MppBufferService where
  "service_0 = \<lparr>sv_group_id = 1, sv_group_count = 0, sv_finalizing = False, sv_total_size = 0, sv_total_max = 0,
     sv_misc = (\<lambda>_ _ _. 0), sv_misc_count = 0, sv_allocator = (\<lambda>_ _. None), sv_allocator_api = (\<lambda>_. False),
     sv_list_group = [], sv_hash_group = [], sv_list_orphan = []\<rparr>"

definition mpp_buffer_service_init :: "buf_state \<Rightarrow> buf_state" where
  "mpp_buffer_service_init s =
     (if bs_srv s \<noteq> None then s else s\<lparr>bs_srv := Some service_0, bs_status := MPP_BUF_SRV_NORMAL\<rparr>)"

text \<open>The result tells whether the pointer to the service is not null.\<close>

definition get_srv_buffer :: "buf_state \<Rightarrow> bool \<times> buf_state" where
  "get_srv_buffer s =
     (if bs_srv s \<noteq> None then (True, s)
      else case bs_status s of
        MPP_BUF_SRV_UNINITED \<Rightarrow> (True, mpp_buffer_service_init s)
      | _ \<Rightarrow> (False, s))"

definition get_group_by_id :: "buf_state \<Rightarrow> u32 \<Rightarrow> nat option" where
  "get_group_by_id s gid =
     (case bs_srv s of
        None \<Rightarrow> None
      | Some srv \<Rightarrow> find (\<lambda>g. case bs_groups s g of None \<Rightarrow> False | Some p \<Rightarrow> gp_group_id p = gid) (sv_hash_group srv))"

definition search_group :: "bool \<Rightarrow> buf_state \<Rightarrow> u32 \<Rightarrow> nat option" where
  "search_group srv s gid = (if srv then get_group_by_id s gid else None)"

section \<open>Releasing buffers and groups\<close>

definition clear_buffer_info :: "MppBufferInfo \<Rightarrow> MppBufferInfo" where
  "clear_buffer_info info = info\<lparr>bi_fd := - 1, bi_ptr := None, bi_hnd := None, bi_size := 0, bi_index := - 1,
     bi_type := MPP_BUFFER_TYPE_BUTT\<rparr>"

text \<open>The reuse branch: the buffer goes to the end of the unused list.\<close>

definition put_reuse :: "nat \<Rightarrow> nat \<Rightarrow> buf_state \<Rightarrow> buf_state run" where
  "put_reuse g b s =
     run_bind (get_buf s b) (\<lambda>buf.
     run_bind (get_grp s g) (\<lambda>p.
       let s = (if bf_used buf then
                  set_grp g (p\<lparr>gp_count_used := gp_count_used p - 1, gp_list_unused := gp_list_unused p @ [b],
                               gp_count_unused := gp_count_unused p + 1\<rparr>) s
                else s)
       in Inr (set_buf b (buf\<lparr>bf_used := False\<rparr>) s)))"

text \<open>The accounting of a buffer that is destroyed; the flag tells whether its group goes with it.\<close>

definition put_account :: "nat \<Rightarrow> nat \<Rightarrow> buf_state \<Rightarrow> (bool \<times> buf_state) run" where
  "put_account g b s =
     run_bind (get_buf s b) (\<lambda>buf.
     run_bind (get_grp s g) (\<lambda>p.
       let size = (ucast (bi_size (bf_info buf)) :: u32);
           p = (if bf_used buf then p\<lparr>gp_count_used := gp_count_used p - 1\<rparr>
                else p\<lparr>gp_count_unused := gp_count_unused p - 1\<rparr>);
           p = p\<lparr>gp_usage := gp_usage p - ucast size\<rparr>;
           p = p\<lparr>gp_buffer_count := gp_buffer_count p - 1\<rparr>;
           s = set_grp g p s;
           s = (if gp_mode p = MPP_BUFFER_INTERNAL then upd_srv (\<lambda>v. v\<lparr>sv_total_size := sv_total_size v - size\<rparr>) s
                else s)
       in Inr (gp_is_orphan p \<and> gp_usage p = 0 \<and> \<not> gp_is_finalizing p, s)))"

text \<open>The end of the buffer: its maps are detached, its memory goes back to the allocator, its object
  to the pool. \<open>info\<close> and \<open>maps\<close> are the copies made before.\<close>

definition put_release :: "nat \<Rightarrow> MppBufferInfo \<Rightarrow> MppDevBufMapNode list \<Rightarrow> buf_state \<Rightarrow> buf_state run" where
  "put_release b info maps s =
     run_bind (get_buf s b) (\<lambda>buf.
       let s = fold (\<lambda>pos. add_event (Ev_Detach (mn_dev pos) pos)) maps s;
           s = add_event (if bf_mode buf = MPP_BUFFER_INTERNAL then Ev_Free (bf_allocator buf) info
                          else Ev_Release (bf_allocator buf) info) s
       in Inr (s\<lparr>bs_bufs := (bs_bufs s)(b := None)\<rparr>))"

text \<open>
  \<open>put_group\<close> is the call of \<open>service_put_group\<close>. A null service is dereferenced in the condition
  \<open>!srv && !srv->finalizing\<close>.
\<close>

definition service_put_buffer ::
    "(nat \<Rightarrow> buf_state \<Rightarrow> buf_state run) \<Rightarrow> bool \<Rightarrow> nat \<Rightarrow> nat \<Rightarrow> bool \<Rightarrow> buf_state \<Rightarrow> buf_state run" where
  "service_put_buffer put_group srv g b reuse s =
     run_bind (get_buf s b) (\<lambda>_.
       if \<not> srv then Inl Null_Deref
       else
         let s = list_del_status b s
         in if reuse then put_reuse g b s
         else
           run_bind (get_buf s b) (\<lambda>buf.
           let maps = map (\<lambda>pos. pos\<lparr>mn_iova := - 1\<rparr>) (bf_maps buf);
               info = bf_info buf;
               s = set_buf b (buf\<lparr>bf_maps := []\<rparr>) s
           in
           run_bind (put_account g b s) (\<lambda>(destroy, s).
           run_bind (if destroy then put_group g s else Inr s) (\<lambda>s.
           run_bind (get_buf s b) (\<lambda>buf.
             put_release b info maps (set_buf b (buf\<lparr>bf_info := clear_buffer_info (bf_info buf)\<rparr>) s))))))"

definition type_to_flag :: "u32 \<Rightarrow> u32" where
  "type_to_flag type =
     (let flag = 0;
          flag = (if type AND MPP_BUFFER_FLAGS_DMA32 \<noteq> 0 then flag + MPP_ALLOC_FLAG_DMA32 else flag);
          flag = (if type AND MPP_BUFFER_FLAGS_CACHABLE \<noteq> 0 then flag + MPP_ALLOC_FLAG_CACHABLE else flag)
      in if type AND MPP_BUFFER_FLAGS_CONTIG \<noteq> 0 then flag + MPP_ALLOC_FLAG_CMA else flag)"

definition destroy_group :: "nat \<Rightarrow> buf_state \<Rightarrow> buf_state run" where
  "destroy_group g s =
     run_bind (get_grp s g) (\<lambda>p.
       let s = upd_srv (\<lambda>v. v\<lparr>sv_list_group := remove1 g (sv_list_group v), sv_list_orphan := remove1 g (sv_list_orphan v)\<rparr>) s;
           s = upd_srv (\<lambda>v. v\<lparr>sv_hash_group := remove1 g (sv_hash_group v)\<rparr>) s;
           flag = type_to_flag (gp_type p);
           s = upd_srv (\<lambda>v. v\<lparr>sv_group_count := sv_group_count v - 1\<rparr>) s;
           s = upd_srv (\<lambda>v.
             if gp_group_id p = sv_misc v (gp_mode p) (gp_type p) flag then
               v\<lparr>sv_misc := (sv_misc v)(gp_mode p := ((sv_misc v) (gp_mode p))(gp_type p :=
                   ((sv_misc v) (gp_mode p) (gp_type p))(flag := 0))),
                 sv_misc_count := sv_misc_count v - 1\<rparr>
             else v) s
       in Inr (s\<lparr>bs_groups := (bs_groups s)(g := None)\<rparr>))"

text \<open>The loops over a status list, on its entries at the start.\<close>

fun put_all :: "(nat \<Rightarrow> buf_state \<Rightarrow> buf_state run) \<Rightarrow> bool \<Rightarrow> nat \<Rightarrow> nat list \<Rightarrow> buf_state \<Rightarrow> buf_state run" where
  "put_all put_group srv g [] s = Inr s"
| "put_all put_group srv g (pos # n) s =
     run_bind (service_put_buffer put_group srv g pos False s) (put_all put_group srv g n)"

fun clear_all :: "(nat \<Rightarrow> buf_state \<Rightarrow> buf_state run) \<Rightarrow> bool \<Rightarrow> nat \<Rightarrow> nat list \<Rightarrow> buf_state \<Rightarrow> buf_state run" where
  "clear_all put_group srv g [] s = Inr s"
| "clear_all put_group srv g (pos # n) s =
     run_bind (get_buf s pos) (\<lambda>buf.
     run_bind (service_put_buffer put_group srv g pos False
                 (set_buf pos (buf\<lparr>bf_ref_count := 0, bf_discard := True\<rparr>) s))
       (clear_all put_group srv g n))"

definition make_orphan :: "nat \<Rightarrow> buf_state \<Rightarrow> buf_state run" where
  "make_orphan g s =
     run_bind (get_grp s g) (\<lambda>p.
       let s = upd_srv (\<lambda>v. v\<lparr>sv_list_group := remove1 g (sv_list_group v), sv_list_orphan := remove1 g (sv_list_orphan v)\<rparr>) s;
           s = upd_srv (\<lambda>v. v\<lparr>sv_list_orphan := sv_list_orphan v @ [g]\<rparr>) s
       in Inr (set_grp g (p\<lparr>gp_is_orphan := True\<rparr>) s))"

text \<open>The first argument bounds the depth of the mutual recursion.\<close>

fun service_put_group :: "nat \<Rightarrow> bool \<Rightarrow> nat \<Rightarrow> buf_state \<Rightarrow> buf_state run" where
  "service_put_group 0 srv g s = Inl Out_Of_Fuel"
| "service_put_group (Suc depth) srv g s =
     (if \<not> srv then Inr s
      else
        run_bind (get_grp s g) (\<lambda>p.
        run_bind (put_all (service_put_group depth srv) srv g (gp_list_unused p) s) (\<lambda>s.
        run_bind (get_grp s g) (\<lambda>p.
          if gp_list_used p = [] then destroy_group g s
          else if gp_clear_on_exit p then
            run_bind (clear_all (service_put_group depth srv) srv g (gp_list_used p) s) (destroy_group g)
          else make_orphan g s))))"

text \<open>A call takes at least one more buffer out of the lists than the call around it.\<close>

definition call_put_group :: "buf_state \<Rightarrow> bool \<Rightarrow> nat \<Rightarrow> buf_state \<Rightarrow> buf_state run" where
  "call_put_group s0 = service_put_group (Suc (bs_next s0))"

section \<open>Buffers\<close>

definition move_to_used :: "nat \<Rightarrow> nat \<Rightarrow> buf_state \<Rightarrow> buf_state run" where
  "move_to_used g b s =
     (let s = list_del_status b s in
      run_bind (get_grp s g) (\<lambda>p.
        Inr (set_grp g (p\<lparr>gp_list_used := gp_list_used p @ [b], gp_count_used := gp_count_used p + 1,
                          gp_count_unused := gp_count_unused p - 1\<rparr>) s)))"

definition inc_buffer_ref :: "nat \<Rightarrow> buf_state \<Rightarrow> (mpp_ret \<times> buf_state) run" where
  "inc_buffer_ref b s =
     run_bind (get_buf s b) (\<lambda>buf.
       let s = set_buf b (buf\<lparr>bf_ref_count := bf_ref_count buf + 1\<rparr>) s
       in if bf_used buf then Inr (MPP_OK, s)
          else
            let (srv, s) = get_srv_buffer s;
                group = search_group srv s (bf_group_id buf);
                s = set_buf b (buf\<lparr>bf_ref_count := bf_ref_count buf + 1, bf_used := True\<rparr>) s
            in case group of
                 None \<Rightarrow> Inr (MPP_NOK, s)
               | Some g \<Rightarrow> run_bind (move_to_used g b s) (\<lambda>s. Inr (MPP_OK, s)))"

text \<open>\<open>want\<close> tells whether the argument \<open>buffer\<close> is not null; then it receives the buffer that was made.\<close>

definition create_buffer ::
    "nat \<Rightarrow> MppBufferGroupImpl \<Rightarrow> MppBufferInfo \<Rightarrow> bool \<Rightarrow> buf_state \<Rightarrow> buf_state" where
  "create_buffer g p info want s =
     (let b = bs_next s;
          buf = \<lparr>bf_allocator = gp_allocator p, bf_group_id = gp_group_id p, bf_buffer_id = gp_buffer_id p,
                 bf_mode = gp_mode p, bf_type = gp_type p, bf_info = info, bf_offset = 0,
                 bf_uncached = (gp_flags p AND MPP_ALLOC_FLAG_CACHABLE = 0), bf_discard = False,
                 bf_used = want, bf_ref_count = (if want then 1 else 0), bf_maps = []\<rparr>;
          p = p\<lparr>gp_buffer_id := gp_buffer_id p + 1\<rparr>;
          p = (if want then p\<lparr>gp_list_used := gp_list_used p @ [b], gp_count_used := gp_count_used p + 1\<rparr>
               else p\<lparr>gp_list_unused := gp_list_unused p @ [b], gp_count_unused := gp_count_unused p + 1\<rparr>);
          p = p\<lparr>gp_usage := gp_usage p + bi_size info, gp_buffer_count := gp_buffer_count p + 1\<rparr>
      in (set_grp g p (set_buf b buf s))\<lparr>bs_next := b + 1\<rparr>)"

definition account_total :: "MppBufferGroupImpl \<Rightarrow> MppBufferInfo \<Rightarrow> buf_state \<Rightarrow> buf_state" where
  "account_total p info s =
     (if gp_mode p = MPP_BUFFER_INTERNAL then
        let (srv, s) = get_srv_buffer s
        in if srv then
             upd_srv (\<lambda>v. let total = sv_total_size v + ucast (bi_size info)
                          in v\<lparr>sv_total_size := total, sv_total_max := max total (sv_total_max v)\<rparr>) s
           else s
      else s)"

definition group_callback :: "nat \<Rightarrow> buf_state \<Rightarrow> buf_state run" where
  "group_callback g s =
     run_bind (get_grp s g) (\<lambda>p.
       Inr (case gp_callback p of None \<Rightarrow> s | Some callback \<Rightarrow> add_event (Ev_Callback callback g) s))"

definition mpp_buffer_create ::
    "buf_env \<Rightarrow> nat option \<Rightarrow> MppBufferInfo \<Rightarrow> bool \<Rightarrow> buf_state \<Rightarrow> (mpp_ret \<times> nat option \<times> buf_state) run" where
  "mpp_buffer_create env grp info want s =
     (case grp of
        None \<Rightarrow> Inr (MPP_NOK, None, s)
      | Some g \<Rightarrow>
          run_bind (get_grp s g) (\<lambda>p.
            if gp_limit_count p \<noteq> 0 \<and> gp_buffer_count p \<ge> gp_limit_count p then Inr (MPP_NOK, None, s)
            else if gp_limit_size p \<noteq> 0 \<and> bi_size info > gp_limit_size p then Inr (MPP_NOK, None, s)
            else if \<not> ev_pool_get env (bs_next s) then Inr (MPP_ERR_MALLOC, None, s)
            else
              case (if gp_mode p = MPP_BUFFER_INTERNAL then ev_alloc env else ev_import env) (gp_allocator p) info of
                None \<Rightarrow> Inr (MPP_ERR_MALLOC, None, s)
              | Some info \<Rightarrow>
                  run_bind (group_callback g (account_total p info (create_buffer g p info want s))) (\<lambda>s1.
                    Inr (MPP_OK, if want then Some (bs_next s) else None, s1))))"

definition mpp_buffer_mmap :: "buf_env \<Rightarrow> nat \<Rightarrow> buf_state \<Rightarrow> (mpp_ret \<times> buf_state) run" where
  "mpp_buffer_mmap env b s =
     run_bind (get_buf s b) (\<lambda>buf.
       let (ret, info) = ev_mmap env (bf_allocator buf) (bf_info buf)
       in Inr (ret, set_buf b (buf\<lparr>bf_info := info\<rparr>) s))"

definition mpp_buffer_ref_inc :: "nat \<Rightarrow> buf_state \<Rightarrow> (mpp_ret \<times> buf_state) run" where
  "mpp_buffer_ref_inc = inc_buffer_ref"

definition mpp_buffer_ref_dec :: "nat \<Rightarrow> buf_state \<Rightarrow> (mpp_ret \<times> buf_state) run" where
  "mpp_buffer_ref_dec b s =
     run_bind (get_buf s b) (\<lambda>buf.
       if bf_ref_count buf \<le> 0 then Inr (MPP_NOK, s)
       else
         let s = set_buf b (buf\<lparr>bf_ref_count := bf_ref_count buf - 1\<rparr>) s
         in if bf_ref_count buf - 1 \<noteq> 0 then Inr (MPP_OK, s)
         else
           let (srv, s) = get_srv_buffer s
           in case search_group srv s (bf_group_id buf) of
                None \<Rightarrow> Inr (MPP_OK, s)
              | Some g \<Rightarrow>
                  run_bind (get_grp s g) (\<lambda>p.
                  run_bind (service_put_buffer (call_put_group s srv) srv g b (\<not> gp_is_misc p \<and> \<not> bf_discard buf) s) (\<lambda>s.
                  run_bind (group_callback g s) (\<lambda>s. Inr (MPP_OK, s)))))"

definition mpp_buffer_discard :: "nat \<Rightarrow> buf_state \<Rightarrow> (mpp_ret \<times> buf_state) run" where
  "mpp_buffer_discard b s =
     (let (srv, s) = get_srv_buffer s in
      if \<not> srv then Inr (MPP_OK, s)
      else
        run_bind (get_buf s b) (\<lambda>buf.
          case search_group srv s (bf_group_id buf) of
            None \<Rightarrow> Inr (MPP_OK, s)
          | Some _ \<Rightarrow> Inr (MPP_OK, set_buf b (buf\<lparr>bf_discard := True\<rparr>) s)))"

text \<open>The walk over the unused list: the first buffer that is large enough is taken; smaller ones of an
  internal group are destroyed.\<close>

fun get_unused_walk ::
    "(nat \<Rightarrow> buf_state \<Rightarrow> buf_state run) \<Rightarrow> bool \<Rightarrow> nat \<Rightarrow> u32 \<Rightarrow> u64 \<Rightarrow> nat list \<Rightarrow> buf_state \<Rightarrow>
     (nat option \<times> buf_state) run" where
  "get_unused_walk put_group srv g mode sz [] s = Inr (None, s)"
| "get_unused_walk put_group srv g mode sz (pos # n) s =
     run_bind (get_buf s pos) (\<lambda>buf.
       if bi_size (bf_info buf) \<ge> sz then
         run_bind (move_to_used g pos (set_buf pos (buf\<lparr>bf_ref_count := bf_ref_count buf + 1, bf_used := True\<rparr>) s))
           (\<lambda>s. Inr (Some pos, s))
       else if mode = MPP_BUFFER_INTERNAL then
         run_bind (service_put_buffer put_group srv g pos False s) (get_unused_walk put_group srv g mode sz n)
       else get_unused_walk put_group srv g mode sz n s)"

definition mpp_buffer_get_unused :: "nat \<Rightarrow> u64 \<Rightarrow> buf_state \<Rightarrow> (nat option \<times> buf_state) run" where
  "mpp_buffer_get_unused g sz s =
     run_bind (get_grp s g) (\<lambda>p.
       let (srv, s) = get_srv_buffer s
       in get_unused_walk (call_put_group s srv) srv g (gp_mode p) sz (gp_list_unused p) s)"

definition mpp_buffer_to_addr :: "nat option \<Rightarrow> u64 \<Rightarrow> buf_state \<Rightarrow> u32 run" where
  "mpp_buffer_to_addr buffer offset s =
     (case buffer of
        None \<Rightarrow> Inr 0
      | Some b \<Rightarrow>
          run_bind (get_buf s b) (\<lambda>impl.
            if bi_fd (bf_info impl) \<ge> 2 ^ 10 then Inr 0
            else if bf_offset impl + offset \<ge> SZ_4M then Inr 0
            else Inr (ucast (word_of_int (bi_fd (bf_info impl)) + push_bit 10 (bf_offset impl + offset)))))"

subsection \<open>Device maps\<close>

definition mpp_buffer_attach_dev_lock ::
    "buf_env \<Rightarrow> nat \<Rightarrow> nat \<Rightarrow> buf_state \<Rightarrow> (MppDevBufMapNode option \<times> buf_state) run" where
  "mpp_buffer_attach_dev_lock env b dev s =
     run_bind (get_buf s b) (\<lambda>impl.
       case find (\<lambda>pos. mn_dev pos = dev) (bf_maps impl) of
         Some node \<Rightarrow> Inr (Some node, s)
       | None \<Rightarrow>
           (if \<not> ev_pool_get env (bs_next s) then Inr (None, s)
            else case ev_attach_fd env dev (bi_fd (bf_info impl)) of
              None \<Rightarrow> Inr (None, s)
            | Some iova \<Rightarrow>
                let node = \<lparr>mn_dev = dev, mn_iova = iova, mn_fd = bi_fd (bf_info impl)\<rparr>
                in Inr (Some node, set_buf b (impl\<lparr>bf_maps := bf_maps impl @ [node]\<rparr>) s)))"

definition mpp_buffer_attach_dev_f :: "buf_env \<Rightarrow> nat \<Rightarrow> nat \<Rightarrow> buf_state \<Rightarrow> (mpp_ret \<times> buf_state) run" where
  "mpp_buffer_attach_dev_f env b dev s =
     run_bind (mpp_buffer_attach_dev_lock env b dev s) (\<lambda>(node, s).
       Inr (if node \<noteq> None then MPP_OK else MPP_NOK, s))"

definition mpp_buffer_detach_dev_f :: "buf_env \<Rightarrow> nat \<Rightarrow> nat \<Rightarrow> buf_state \<Rightarrow> (mpp_ret \<times> buf_state) run" where
  "mpp_buffer_detach_dev_f env b dev s =
     run_bind (get_buf s b) (\<lambda>impl.
       case find (\<lambda>pos. mn_dev pos = dev) (bf_maps impl) of
         None \<Rightarrow> Inr (MPP_OK, s)
       | Some pos \<Rightarrow> Inr (ev_detach_fd env dev pos, add_event (Ev_Detach dev pos)
                           (set_buf b (impl\<lparr>bf_maps := remove1 pos (bf_maps impl)\<rparr>) s)))"

definition mpp_buffer_get_iova_f :: "buf_env \<Rightarrow> nat \<Rightarrow> nat \<Rightarrow> buf_state \<Rightarrow> (u32 \<times> buf_state) run" where
  "mpp_buffer_get_iova_f env b dev s =
     run_bind (mpp_buffer_attach_dev_lock env b dev s) (\<lambda>(node, s).
       Inr (case node of None \<Rightarrow> - 1 | Some n \<Rightarrow> mn_iova n, s))"

section \<open>Groups\<close>

text \<open>The search for a free identifier after an overflow; one step more than there are groups is enough.\<close>

fun free_group_id :: "nat \<Rightarrow> buf_state \<Rightarrow> u32 \<Rightarrow> u32" where
  "free_group_id 0 s gid = gid"
| "free_group_id (Suc n) s gid = (if get_group_by_id s gid \<noteq> None then free_group_id n s (gid + 1) else gid)"

definition service_get_group_id :: "buf_state \<Rightarrow> u32 \<times> buf_state" where
  "service_get_group_id s =
     (case bs_srv s of
        None \<Rightarrow> (0, s)
      | Some srv \<Rightarrow>
          (let (gid, s) =
             (if \<not> bs_overflowed s \<and> sv_group_id srv \<noteq> 0 then
                (sv_group_id srv, upd_srv (\<lambda>v. v\<lparr>sv_group_id := sv_group_id v + 1\<rparr>) s)
              else
                let first = (if bs_overflowed s then sv_group_id srv else 1);
                    gid = free_group_id (Suc (length (sv_hash_group srv))) s first
                in (gid, upd_srv (\<lambda>v. v\<lparr>sv_group_id := gid + 1\<rparr>) (s\<lparr>bs_overflowed := True\<rparr>)))
           in (gid, upd_srv (\<lambda>v. v\<lparr>sv_group_count := sv_group_count v + 1\<rparr>) s)))"

definition new_group :: "buf_env \<Rightarrow> nat \<Rightarrow> u32 \<Rightarrow> u32 \<Rightarrow> u32 \<Rightarrow> bool \<Rightarrow> MppBufferGroupImpl" where
  "new_group env allocator gid mode type is_misc =
     \<lparr>gp_allocator = allocator, gp_flags = ev_allocator_flags env allocator, gp_group_id = gid, gp_mode = mode,
      gp_type = type, gp_clear_on_exit = (ev_debug env AND MPP_BUF_DBG_CLR_ON_EXIT \<noteq> 0), gp_is_misc = is_misc,
      gp_is_orphan = False, gp_is_finalizing = False, gp_limit_size = 0, gp_limit_count = 0,
      gp_limit = BUFFER_GROUP_SIZE_DEFAULT, gp_usage = 0, gp_buffer_id = 0, gp_buffer_count = 0,
      gp_callback = None, gp_list_used = [], gp_list_unused = [], gp_count_used = 0, gp_count_unused = 0\<rparr>"

text \<open>The allocator of a type and flags is made when it is first needed.\<close>

definition preset_allocator :: "buf_env \<Rightarrow> u32 \<Rightarrow> u32 \<Rightarrow> u32 \<Rightarrow> MppBufferService \<Rightarrow> MppBufferService" where
  "preset_allocator env type buffer_type flag v =
     (if sv_allocator v buffer_type flag = None then
        let allocator = ev_allocator_get env type flag
        in v\<lparr>sv_allocator := (sv_allocator v)(buffer_type := (sv_allocator v buffer_type)(flag := allocator)),
             sv_allocator_api := (sv_allocator_api v)(buffer_type := allocator \<noteq> None)\<rparr>
      else v)"

definition service_get_group ::
    "buf_env \<Rightarrow> u32 \<Rightarrow> u32 \<Rightarrow> bool \<Rightarrow> buf_state \<Rightarrow> nat option \<times> buf_state" where
  "service_get_group env mode type is_misc s =
     (let buffer_type = type AND MPP_BUFFER_TYPE_MASK;
          (_, s) = get_srv_buffer s
      in if mode \<ge> MPP_BUFFER_MODE_BUTT \<or> buffer_type \<ge> MPP_BUFFER_TYPE_BUTT then (None, s)
      else case bs_srv s of
        None \<Rightarrow> (None, s)
      | Some _ \<Rightarrow>
          if \<not> ev_pool_get env (bs_next s) then (None, s)
          else
            let flag = type_to_flag type;
                s = upd_srv (preset_allocator env type buffer_type flag) s;
                v = the (bs_srv s)
            in case sv_allocator v buffer_type flag of
                 None \<Rightarrow> (None, s)
               | Some allocator \<Rightarrow>
                   if \<not> sv_allocator_api v buffer_type then (None, s)
                   else
                     let (gid, s) = service_get_group_id s;
                         g = bs_next s;
                         s = set_grp g (new_group env allocator gid mode buffer_type is_misc) s\<lparr>bs_next := g + 1\<rparr>;
                         s = upd_srv (\<lambda>v. v\<lparr>sv_list_group := sv_list_group v @ [g],
                                            sv_hash_group := g # sv_hash_group v\<rparr>) s;
                         s = (if is_misc then
                                upd_srv (\<lambda>v. v\<lparr>sv_misc := (sv_misc v)(mode := (sv_misc v mode)(buffer_type :=
                                                  (sv_misc v mode buffer_type)(flag := gid))),
                                               sv_misc_count := sv_misc_count v + 1\<rparr>) s
                              else s)
                     in (Some g, s))"

definition mpp_buffer_group_init :: "buf_env \<Rightarrow> u32 \<Rightarrow> u32 \<Rightarrow> buf_state \<Rightarrow> mpp_ret \<times> nat option \<times> buf_state" where
  "mpp_buffer_group_init env mode type s =
     (let (g, s) = service_get_group env mode type False s
      in (if g \<noteq> None then MPP_OK else MPP_NOK, g, s))"

definition mpp_buffer_group_deinit :: "nat option \<Rightarrow> buf_state \<Rightarrow> (mpp_ret \<times> buf_state) run" where
  "mpp_buffer_group_deinit p s =
     (case p of
        None \<Rightarrow> Inr (MPP_ERR_NULL_PTR, s)
      | Some g \<Rightarrow>
          (let (srv, s) = get_srv_buffer s
           in run_bind (call_put_group s srv g s) (\<lambda>s. Inr (MPP_OK, s))))"

definition discard_all :: "nat list \<Rightarrow> buf_state \<Rightarrow> buf_state" where
  "discard_all bs s = s\<lparr>bs_bufs := (\<lambda>b. if b \<in> set bs then map_option (\<lambda>buf. buf\<lparr>bf_discard := True\<rparr>) (bs_bufs s b)
                                          else bs_bufs s b)\<rparr>"

definition mpp_buffer_group_reset :: "nat option \<Rightarrow> buf_state \<Rightarrow> (mpp_ret \<times> buf_state) run" where
  "mpp_buffer_group_reset p s =
     (case p of
        None \<Rightarrow> Inr (MPP_ERR_NULL_PTR, s)
      | Some g \<Rightarrow>
          run_bind (get_grp s g) (\<lambda>p.
            let s = discard_all (gp_list_used p) s
            in if gp_list_unused p \<noteq> [] then
                 let (srv, s) = get_srv_buffer s
                 in run_bind (put_all (call_put_group s srv) srv g (gp_list_unused p) s) (\<lambda>s. Inr (MPP_OK, s))
               else Inr (MPP_OK, s)))"

definition mpp_buffer_group_set_callback ::
    "nat option \<Rightarrow> nat option \<Rightarrow> buf_state \<Rightarrow> (mpp_ret \<times> buf_state) run" where
  "mpp_buffer_group_set_callback p callback s =
     (case p of
        None \<Rightarrow> Inr (MPP_OK, s)
      | Some g \<Rightarrow> run_bind (get_grp s g) (\<lambda>p. Inr (MPP_OK, set_grp g (p\<lparr>gp_callback := callback\<rparr>) s)))"

definition mpp_buffer_total_now :: "buf_state \<Rightarrow> u32 \<times> buf_state" where
  "mpp_buffer_total_now s =
     (let (srv, s) = get_srv_buffer s in (case bs_srv s of None \<Rightarrow> 0 | Some v \<Rightarrow> sv_total_size v, s))"

definition mpp_buffer_total_max :: "buf_state \<Rightarrow> u32 \<times> buf_state" where
  "mpp_buffer_total_max s =
     (let (srv, s) = get_srv_buffer s in (case bs_srv s of None \<Rightarrow> 0 | Some v \<Rightarrow> sv_total_max v, s))"

subsection \<open>Miscellaneous groups and the end of the service\<close>

definition service_get_misc :: "MppBufferService \<Rightarrow> u32 \<Rightarrow> u32 \<Rightarrow> u32 run" where
  "service_get_misc v mode type =
     (let flag = type_to_flag type;
          type = type AND MPP_BUFFER_TYPE_MASK
      in if type = MPP_BUFFER_TYPE_NORMAL then Inr 0
      else if mode \<ge> MPP_BUFFER_MODE_BUTT \<or> type \<ge> MPP_BUFFER_TYPE_BUTT \<or> flag \<ge> MPP_ALLOC_FLAG_TYPE_NB
        then Inl Out_Of_Bounds
      else Inr (sv_misc v mode type flag))"

definition mpp_buffer_get_misc_group ::
    "buf_env \<Rightarrow> u32 \<Rightarrow> u32 \<Rightarrow> buf_state \<Rightarrow> (nat option \<times> buf_state) run" where
  "mpp_buffer_get_misc_group env mode type s =
     (let (_, s) = get_srv_buffer s
      in if type AND MPP_BUFFER_TYPE_MASK = MPP_BUFFER_TYPE_NORMAL then Inr (None, s)
      else case bs_srv s of
        None \<Rightarrow> Inl Null_Deref
      | Some v \<Rightarrow>
          run_bind (service_get_misc v mode type) (\<lambda>gid.
            Inr (if gid = 0 then service_get_group env mode type True s else (get_group_by_id s gid, s))))"

definition misc_keys :: "(u32 \<times> u32 \<times> u32) list" where
  "misc_keys = List.product [0, 1] (List.product [0, 1, 2, 3, 4] [0, 1, 2, 3, 4, 5, 6, 7])"

fun put_misc :: "(u32 \<times> u32 \<times> u32) list \<Rightarrow> buf_state \<Rightarrow> buf_state run" where
  "put_misc [] s = Inr s"
| "put_misc ((i, j, k) # keys) s =
     (let gid = (case bs_srv s of None \<Rightarrow> 0 | Some v \<Rightarrow> sv_misc v i j k)
      in if gid = 0 then put_misc keys s
      else case get_group_by_id s gid of
        None \<Rightarrow> Inl Null_Deref
      | Some g \<Rightarrow>
          run_bind (call_put_group s True g s) (\<lambda>s.
            put_misc keys (upd_srv (\<lambda>v. v\<lparr>sv_misc := (sv_misc v)(i := (sv_misc v i)(j := (sv_misc v i j)(k := 0)))\<rparr>) s)))"

fun put_groups :: "nat list \<Rightarrow> buf_state \<Rightarrow> buf_state run" where
  "put_groups [] s = Inr s"
| "put_groups (pos # n) s = run_bind (call_put_group s True pos s) (put_groups n)"

fun put_orphans :: "nat list \<Rightarrow> buf_state \<Rightarrow> buf_state run" where
  "put_orphans [] s = Inr s"
| "put_orphans (pos # n) s =
     run_bind (get_grp s pos) (\<lambda>p.
     run_bind (call_put_group s True pos (set_grp pos (p\<lparr>gp_clear_on_exit := True, gp_is_finalizing := True\<rparr>) s))
       (put_orphans n))"

definition mpp_buffer_service_deinit :: "buf_state \<Rightarrow> buf_state run" where
  "mpp_buffer_service_deinit s =
     (case bs_srv s of
        None \<Rightarrow> Inr s
      | Some srv \<Rightarrow>
          (let s = upd_srv (\<lambda>v. v\<lparr>sv_finalizing := True\<rparr>) s in
           run_bind (if sv_misc_count srv \<noteq> 0 then put_misc misc_keys s else Inr s) (\<lambda>s.
           run_bind (put_groups (case bs_srv s of None \<Rightarrow> [] | Some v \<Rightarrow> sv_list_group v) s) (\<lambda>s.
           run_bind (put_orphans (case bs_srv s of None \<Rightarrow> [] | Some v \<Rightarrow> sv_list_orphan v) s) (\<lambda>s.
             Inr (s\<lparr>bs_srv := None, bs_status := MPP_BUF_SRV_FINALIZED\<rparr>))))))"

section \<open>The user interface\<close>

text \<open>A buffer or group argument is a pointer that may be null.\<close>

definition mpp_buffer_import_with_tag ::
    "buf_env \<Rightarrow> nat option \<Rightarrow> MppBufferInfo option \<Rightarrow> bool \<Rightarrow> buf_state \<Rightarrow> (mpp_ret \<times> nat option \<times> buf_state) run" where
  "mpp_buffer_import_with_tag env grp info want s =
     (case info of
        None \<Rightarrow> Inr (MPP_ERR_NULL_PTR, None, s)
      | Some info \<Rightarrow>
          (case grp of
             Some g \<Rightarrow>
               run_bind (get_grp s g) (\<lambda>p.
                 if gp_type p AND MPP_BUFFER_TYPE_MASK \<noteq> bi_type info
                    \<or> gp_type p AND MPP_BUFFER_TYPE_MASK \<ge> MPP_BUFFER_TYPE_BUTT
                    \<or> gp_mode p \<noteq> MPP_BUFFER_EXTERNAL
                 then Inr (MPP_ERR_UNKNOW, None, s)
                 else mpp_buffer_create env (Some g) info want s)
           | None \<Rightarrow>
               run_bind (mpp_buffer_get_misc_group env MPP_BUFFER_EXTERNAL (bi_type info) s) (\<lambda>(p, s).
                 mpp_buffer_create env p info want s)))"

definition mpp_buffer_get_with_tag ::
    "buf_env \<Rightarrow> nat option \<Rightarrow> bool \<Rightarrow> u64 \<Rightarrow> buf_state \<Rightarrow> (mpp_ret \<times> nat option \<times> buf_state) run" where
  "mpp_buffer_get_with_tag env grp buffer sz s =
     (if \<not> buffer \<or> sz = 0 then Inr (MPP_ERR_UNKNOW, None, s)
      else
        run_bind (if grp = None then mpp_buffer_get_misc_group env MPP_BUFFER_INTERNAL MPP_BUFFER_TYPE_ION s
                  else Inr (grp, s)) (\<lambda>(p, s).
        case p of
          None \<Rightarrow> Inl Null_Deref
        | Some g \<Rightarrow>
            run_bind (mpp_buffer_get_unused g sz s) (\<lambda>(buf, s).
            run_bind (get_grp s g) (\<lambda>p.
              run_bind (if buf = None \<and> gp_mode p = MPP_BUFFER_INTERNAL then
                          run_bind (mpp_buffer_create env (Some g)
                            \<lparr>bi_type = gp_type p, bi_size = sz, bi_ptr = None, bi_hnd = None, bi_fd = - 1, bi_index = - 1\<rparr>
                            True s) (\<lambda>(_, buf, s). Inr (buf, s))
                        else Inr (buf, s)) (\<lambda>(buf, s).
              Inr (if buf \<noteq> None then MPP_OK else MPP_NOK, buf, s))))))"

definition mpp_buffer_put_with_caller :: "nat option \<Rightarrow> buf_state \<Rightarrow> (mpp_ret \<times> buf_state) run" where
  "mpp_buffer_put_with_caller buffer s =
     (case buffer of None \<Rightarrow> Inr (MPP_ERR_UNKNOW, s) | Some b \<Rightarrow> mpp_buffer_ref_dec b s)"

definition mpp_buffer_inc_ref_with_caller :: "nat option \<Rightarrow> buf_state \<Rightarrow> (mpp_ret \<times> buf_state) run" where
  "mpp_buffer_inc_ref_with_caller buffer s =
     (case buffer of None \<Rightarrow> Inr (MPP_ERR_UNKNOW, s) | Some b \<Rightarrow> mpp_buffer_ref_inc b s)"

definition mpp_buffer_discard_with_caller :: "nat option \<Rightarrow> buf_state \<Rightarrow> (mpp_ret \<times> buf_state) run" where
  "mpp_buffer_discard_with_caller buffer s =
     (case buffer of None \<Rightarrow> Inr (MPP_ERR_UNKNOW, s) | Some b \<Rightarrow> mpp_buffer_discard b s)"

text \<open>The buffer is mapped when it has no address yet.\<close>

definition ensure_mapped :: "buf_env \<Rightarrow> nat \<Rightarrow> buf_state \<Rightarrow> (MppBufferImpl \<times> buf_state) run" where
  "ensure_mapped env b s =
     run_bind (get_buf s b) (\<lambda>p.
     run_bind (if bi_ptr (bf_info p) = None then
                 run_bind (mpp_buffer_mmap env b s) (\<lambda>(_, s). Inr s)
               else Inr s) (\<lambda>s.
     run_bind (get_buf s b) (\<lambda>p. Inr (p, s))))"

text \<open>The contents of a mapped buffer are its \<open>size\<close> bytes; what the copies transfer is left out.\<close>

definition copy_range :: "MppBufferImpl \<Rightarrow> u64 \<Rightarrow> u64 \<Rightarrow> mpp_ret run" where
  "copy_range p offset sz =
     (if bi_ptr (bf_info p) = None then Inr MPP_OK
      else if unat offset + unat sz \<le> unat (bi_size (bf_info p)) then Inr MPP_OK
      else Inl Out_Of_Bounds)"

definition mpp_buffer_read_with_caller ::
    "buf_env \<Rightarrow> nat option \<Rightarrow> u64 \<Rightarrow> bool \<Rightarrow> u64 \<Rightarrow> buf_state \<Rightarrow> (mpp_ret \<times> buf_state) run" where
  "mpp_buffer_read_with_caller env buffer offset data sz s =
     (case buffer of
        None \<Rightarrow> Inr (MPP_ERR_UNKNOW, s)
      | Some b \<Rightarrow>
          if \<not> data then Inr (MPP_ERR_UNKNOW, s)
          else if sz = 0 then Inr (MPP_OK, s)
          else run_bind (ensure_mapped env b s) (\<lambda>(p, s).
               run_bind (copy_range p offset sz) (\<lambda>ret. Inr (ret, s))))"

definition mpp_buffer_write_with_caller ::
    "buf_env \<Rightarrow> nat option \<Rightarrow> u64 \<Rightarrow> bool \<Rightarrow> u64 \<Rightarrow> buf_state \<Rightarrow> (mpp_ret \<times> buf_state) run" where
  "mpp_buffer_write_with_caller env buffer offset data sz s =
     (case buffer of
        None \<Rightarrow> Inr (MPP_ERR_UNKNOW, s)
      | Some b \<Rightarrow>
          if \<not> data then Inr (MPP_ERR_UNKNOW, s)
          else if sz = 0 then Inr (MPP_OK, s)
          else
            run_bind (get_buf s b) (\<lambda>p.
              if offset + sz > bi_size (bf_info p) then Inr (MPP_ERR_VALUE, s)
              else run_bind (ensure_mapped env b s) (\<lambda>(p, s).
                   run_bind (copy_range p offset sz) (\<lambda>ret. Inr (ret, s)))))"

definition mpp_buffer_get_ptr_with_caller ::
    "buf_env \<Rightarrow> nat option \<Rightarrow> buf_state \<Rightarrow> (nat option \<times> buf_state) run" where
  "mpp_buffer_get_ptr_with_caller env buffer s =
     (case buffer of
        None \<Rightarrow> Inr (None, s)
      | Some b \<Rightarrow> run_bind (ensure_mapped env b s) (\<lambda>(p, s). Inr (bi_ptr (bf_info p), s)))"

definition mpp_buffer_info_get_with_caller ::
    "buf_env \<Rightarrow> nat option \<Rightarrow> buf_state \<Rightarrow> (mpp_ret \<times> MppBufferInfo option \<times> buf_state) run" where
  "mpp_buffer_info_get_with_caller env buffer s =
     (case buffer of
        None \<Rightarrow> Inr (MPP_ERR_UNKNOW, None, s)
      | Some b \<Rightarrow> run_bind (ensure_mapped env b s) (\<lambda>(p, s). Inr (MPP_OK, Some (bf_info p), s)))"

definition mpp_buffer_get_fd_with_caller :: "nat option \<Rightarrow> buf_state \<Rightarrow> int run" where
  "mpp_buffer_get_fd_with_caller buffer s =
     (case buffer of None \<Rightarrow> Inr (- 1) | Some b \<Rightarrow> run_bind (get_buf s b) (\<lambda>p. Inr (bi_fd (bf_info p))))"

definition mpp_buffer_get_size_with_caller :: "nat option \<Rightarrow> buf_state \<Rightarrow> u64 run" where
  "mpp_buffer_get_size_with_caller buffer s =
     (case buffer of None \<Rightarrow> Inr 0 | Some b \<Rightarrow> run_bind (get_buf s b) (\<lambda>p. Inr (bi_size (bf_info p))))"

definition mpp_buffer_get_index_with_caller :: "nat option \<Rightarrow> buf_state \<Rightarrow> int run" where
  "mpp_buffer_get_index_with_caller buffer s =
     (case buffer of None \<Rightarrow> Inr (- 1) | Some b \<Rightarrow> run_bind (get_buf s b) (\<lambda>p. Inr (bi_index (bf_info p))))"

definition mpp_buffer_set_index_with_caller :: "nat option \<Rightarrow> int \<Rightarrow> buf_state \<Rightarrow> (mpp_ret \<times> buf_state) run" where
  "mpp_buffer_set_index_with_caller buffer index s =
     (case buffer of
        None \<Rightarrow> Inr (MPP_ERR_UNKNOW, s)
      | Some b \<Rightarrow> run_bind (get_buf s b) (\<lambda>p.
          Inr (MPP_OK, set_buf b (p\<lparr>bf_info := (bf_info p)\<lparr>bi_index := index\<rparr>\<rparr>) s)))"

definition mpp_buffer_get_offset_with_caller :: "nat option \<Rightarrow> buf_state \<Rightarrow> u64 run" where
  "mpp_buffer_get_offset_with_caller buffer s =
     (case buffer of None \<Rightarrow> Inr (- 1) | Some b \<Rightarrow> run_bind (get_buf s b) (\<lambda>p. Inr (bf_offset p)))"

definition mpp_buffer_set_offset_with_caller :: "nat option \<Rightarrow> u64 \<Rightarrow> buf_state \<Rightarrow> (mpp_ret \<times> buf_state) run" where
  "mpp_buffer_set_offset_with_caller buffer offset s =
     (case buffer of
        None \<Rightarrow> Inr (MPP_ERR_UNKNOW, s)
      | Some b \<Rightarrow> run_bind (get_buf s b) (\<lambda>p. Inr (MPP_OK, set_buf b (p\<lparr>bf_offset := offset\<rparr>) s)))"

text \<open>The first result tells whether the buffer needs a synchronisation; the second is \<open>ret\<close> after the call.\<close>

definition check_buf_need_sync :: "nat option \<Rightarrow> mpp_ret \<Rightarrow> buf_state \<Rightarrow> (mpp_ret \<times> mpp_ret) run" where
  "check_buf_need_sync buffer ret s =
     (case buffer of
        None \<Rightarrow> Inr (MPP_NOK, ret)
      | Some b \<Rightarrow>
          run_bind (get_buf s b) (\<lambda>impl.
            if bi_fd (bf_info impl) \<le> 0 then Inr (MPP_NOK, ret)
            else if bf_uncached impl then Inr (MPP_NOK, MPP_OK)
            else Inr (MPP_OK, ret)))"

definition mpp_buffer_group_get ::
    "buf_env \<Rightarrow> bool \<Rightarrow> u32 \<Rightarrow> u32 \<Rightarrow> buf_state \<Rightarrow> mpp_ret \<times> nat option \<times> buf_state" where
  "mpp_buffer_group_get env grp type mode s =
     (if \<not> grp \<or> mode \<ge> MPP_BUFFER_MODE_BUTT \<or> type AND MPP_BUFFER_TYPE_MASK \<ge> MPP_BUFFER_TYPE_BUTT
      then (MPP_ERR_UNKNOW, None, s)
      else mpp_buffer_group_init env mode type s)"

definition mpp_buffer_group_put :: "nat option \<Rightarrow> buf_state \<Rightarrow> (mpp_ret \<times> buf_state) run" where
  "mpp_buffer_group_put grp s =
     (case grp of None \<Rightarrow> Inr (MPP_NOK, s) | Some _ \<Rightarrow> mpp_buffer_group_deinit grp s)"

definition mpp_buffer_group_clear :: "nat option \<Rightarrow> buf_state \<Rightarrow> (mpp_ret \<times> buf_state) run" where
  "mpp_buffer_group_clear grp s =
     (case grp of None \<Rightarrow> Inr (MPP_NOK, s) | Some _ \<Rightarrow> mpp_buffer_group_reset grp s)"

text \<open>The result for a null pointer is \<open>MPP_NOK\<close>, which is -1.\<close>

definition mpp_buffer_group_unused :: "nat option \<Rightarrow> buf_state \<Rightarrow> int run" where
  "mpp_buffer_group_unused grp s =
     (case grp of
        None \<Rightarrow> Inr (- 1)
      | Some g \<Rightarrow>
          run_bind (get_grp s g) (\<lambda>p.
            Inr (if gp_mode p = MPP_BUFFER_INTERNAL then
                   (if gp_limit_count p \<noteq> 0 then gp_limit_count p - gp_count_used p else 3)
                 else gp_count_unused p)))"

definition mpp_buffer_group_usage :: "nat option \<Rightarrow> buf_state \<Rightarrow> u64 run" where
  "mpp_buffer_group_usage grp s =
     (case grp of None \<Rightarrow> Inr 2 | Some g \<Rightarrow> run_bind (get_grp s g) (\<lambda>p. Inr (gp_usage p)))"

definition mpp_buffer_group_mode :: "nat option \<Rightarrow> buf_state \<Rightarrow> u32 run" where
  "mpp_buffer_group_mode grp s =
     (case grp of None \<Rightarrow> Inr MPP_BUFFER_MODE_BUTT | Some g \<Rightarrow> run_bind (get_grp s g) (\<lambda>p. Inr (gp_mode p)))"

definition mpp_buffer_group_type :: "nat option \<Rightarrow> buf_state \<Rightarrow> u32 run" where
  "mpp_buffer_group_type grp s =
     (case grp of None \<Rightarrow> Inr MPP_BUFFER_TYPE_BUTT | Some g \<Rightarrow> run_bind (get_grp s g) (\<lambda>p. Inr (gp_type p)))"

definition mpp_buffer_group_limit_config ::
    "nat option \<Rightarrow> u64 \<Rightarrow> int \<Rightarrow> buf_state \<Rightarrow> (mpp_ret \<times> buf_state) run" where
  "mpp_buffer_group_limit_config grp sz count s =
     (case grp of
        None \<Rightarrow> Inr (MPP_NOK, s)
      | Some g \<Rightarrow> run_bind (get_grp s g) (\<lambda>p.
          Inr (MPP_OK, set_grp g (p\<lparr>gp_limit_size := sz, gp_limit_count := count\<rparr>) s)))"

end
