(* ===== verification/Mpp_Buffer_Inv.thy ===== *)
theory Mpp_Buffer_Inv
  imports Mpp_Buffer "HOL-Library.Multiset"
begin

text \<open>
  The invariant of the buffer groups of \<open>Mpp_Buffer\<close> and that the operations keep it: every buffer is in
  exactly one status list of the group it belongs to, the buffers of the used list are the referenced
  ones, and the counters and the usage of a group are those of its lists.
\<close>

section \<open>The invariant\<close>

definition members :: "MppBufferGroupImpl \<Rightarrow> nat list" where
  "members p = gp_list_used p @ gp_list_unused p"

definition buf_size :: "(nat \<Rightarrow> MppBufferImpl option) \<Rightarrow> nat \<Rightarrow> nat" where
  "buf_size bufs b = (case bufs b of None \<Rightarrow> 0 | Some x \<Rightarrow> unat (bi_size (bf_info x)))"

text \<open>A buffer of a group, with a reference or without.\<close>

definition held_in :: "MppBufferGroupImpl \<Rightarrow> MppBufferImpl \<Rightarrow> bool" where
  "held_in p x \<longleftrightarrow> bf_group_id x = gp_group_id p \<and> bf_mode x = gp_mode p \<and> bf_used x \<and> 0 < bf_ref_count x"

definition idle_in :: "MppBufferGroupImpl \<Rightarrow> MppBufferImpl \<Rightarrow> bool" where
  "idle_in p x \<longleftrightarrow> bf_group_id x = gp_group_id p \<and> bf_mode x = gp_mode p \<and> \<not> bf_used x \<and> bf_ref_count x = 0"

definition size_ok :: "u64 \<Rightarrow> bool" where
  "size_ok sz \<longleftrightarrow> 0 < unat sz \<and> unat sz < 2 ^ 32"

definition grp_ok :: "(nat \<Rightarrow> MppBufferImpl option) \<Rightarrow> MppBufferGroupImpl \<Rightarrow> bool" where
  "grp_ok bufs p \<longleftrightarrow>
     distinct (members p) \<and>
     (\<forall>b\<in>set (gp_list_used p). \<exists>x. bufs b = Some x \<and> held_in p x) \<and>
     (\<forall>b\<in>set (gp_list_unused p). \<exists>x. bufs b = Some x \<and> idle_in p x) \<and>
     (\<forall>b\<in>set (members p). \<forall>x. bufs b = Some x \<longrightarrow> size_ok (bi_size (bf_info x))) \<and>
     gp_count_used p = int (length (gp_list_used p)) \<and>
     gp_count_unused p = int (length (gp_list_unused p)) \<and>
     gp_buffer_count p = int (length (members p)) \<and> gp_buffer_count p < 2 ^ 31 \<and>
     unat (gp_usage p) = (\<Sum>b\<leftarrow>members p. buf_size bufs b) \<and>
     \<not> gp_clear_on_exit p \<and> \<not> gp_is_finalizing p"

definition srv_ok :: "buf_state \<Rightarrow> MppBufferService \<Rightarrow> bool" where
  "srv_ok s v \<longleftrightarrow>
     \<not> sv_finalizing v \<and>
     distinct (sv_hash_group v) \<and> set (sv_hash_group v) = dom (bs_groups s) \<and>
     (\<forall>g p g' p'. bs_groups s g = Some p \<longrightarrow> bs_groups s g' = Some p' \<longrightarrow>
        gp_group_id p = gp_group_id p' \<longrightarrow> g = g') \<and>
     (\<not> bs_overflowed s \<longrightarrow> sv_group_id v \<noteq> 0 \<longrightarrow>
        (\<forall>g p. bs_groups s g = Some p \<longrightarrow> gp_group_id p < sv_group_id v))"

definition buf_ok :: "buf_state \<Rightarrow> bool" where
  "buf_ok s \<longleftrightarrow>
     (\<exists>v. bs_srv s = Some v \<and> srv_ok s v) \<and>
     (\<forall>g p. bs_groups s g = Some p \<longrightarrow> grp_ok (bs_bufs s) p) \<and>
     (\<forall>b x. bs_bufs s b = Some x \<longrightarrow> (\<exists>g p. bs_groups s g = Some p \<and> b \<in> set (members p))) \<and>
     (\<forall>b x. bs_bufs s b = Some x \<longrightarrow> b < bs_next s) \<and> (\<forall>g p. bs_groups s g = Some p \<longrightarrow> g < bs_next s)"

lemma buf_okD:
  assumes "buf_ok s"
  shows "\<exists>v. bs_srv s = Some v \<and> srv_ok s v"
    and "bs_groups s g = Some p \<Longrightarrow> grp_ok (bs_bufs s) p"
    and "bs_bufs s b = Some x \<Longrightarrow> \<exists>g p. bs_groups s g = Some p \<and> b \<in> set (members p)"
    and "bs_bufs s b = Some x \<Longrightarrow> b < bs_next s" and "bs_groups s g = Some p \<Longrightarrow> g < bs_next s"
  using assms unfolding buf_ok_def by blast+

lemma grp_okD:
  assumes "grp_ok bufs p"
  shows "distinct (members p)"
    and "b \<in> set (gp_list_used p) \<Longrightarrow> \<exists>x. bufs b = Some x \<and> held_in p x"
    and "b \<in> set (gp_list_unused p) \<Longrightarrow> \<exists>x. bufs b = Some x \<and> idle_in p x"
    and "b \<in> set (members p) \<Longrightarrow> bufs b = Some x \<Longrightarrow> size_ok (bi_size (bf_info x))"
    and "gp_count_used p = int (length (gp_list_used p))"
    and "gp_count_unused p = int (length (gp_list_unused p))"
    and "gp_buffer_count p = int (length (members p))" and "gp_buffer_count p < 2 ^ 31"
    and "unat (gp_usage p) = (\<Sum>b\<leftarrow>members p. buf_size bufs b)"
    and "\<not> gp_clear_on_exit p" and "\<not> gp_is_finalizing p"
  using assms unfolding grp_ok_def by blast+

lemma member_live:
  assumes "grp_ok bufs p" and "b \<in> set (members p)"
  obtains x where "bufs b = Some x" "bf_group_id x = gp_group_id p" "size_ok (bi_size (bf_info x))" "bf_mode x = gp_mode p"
proof -
  have "\<exists>x. bufs b = Some x \<and> (held_in p x \<or> idle_in p x)"
    using assms(2) grp_okD(2,3) [OF assms(1), of b] by (auto simp: members_def)
  then show ?thesis
    using that grp_okD(4) [OF assms] by (auto simp: held_in_def idle_in_def)
qed

lemma srv_okD:
  assumes "srv_ok s v"
  shows "\<not> sv_finalizing v" and "distinct (sv_hash_group v)" and "set (sv_hash_group v) = dom (bs_groups s)"
    and "bs_groups s g = Some p \<Longrightarrow> bs_groups s g' = Some p' \<Longrightarrow> gp_group_id p = gp_group_id p' \<Longrightarrow> g = g'"
    and "\<not> bs_overflowed s \<Longrightarrow> sv_group_id v \<noteq> 0 \<Longrightarrow> bs_groups s g = Some p \<Longrightarrow> gp_group_id p < sv_group_id v"
  using assms unfolding srv_ok_def by blast+

lemma same_id: "buf_ok s \<Longrightarrow> bs_groups s g = Some p \<Longrightarrow> bs_groups s g' = Some p' \<Longrightarrow>
    gp_group_id p = gp_group_id p' \<Longrightarrow> g = g'"
  using buf_okD(1) srv_okD(4) by blast

text \<open>The group of a buffer is unique, and the service finds it.\<close>

lemma owner_unique:
  assumes ok: "buf_ok s" and g: "bs_groups s g = Some p" "b \<in> set (members p)"
    and g': "bs_groups s g' = Some p'" "b \<in> set (members p')"
  shows "g' = g"
proof -
  obtain x where x: "bs_bufs s b = Some x" "bf_group_id x = gp_group_id p"
    by (rule member_live [OF buf_okD(2) [OF ok g(1)] g(2)])
  obtain x' where x': "bs_bufs s b = Some x'" "bf_group_id x' = gp_group_id p'"
    by (rule member_live [OF buf_okD(2) [OF ok g'(1)] g'(2)])
  have "x' = x"
    using x(1) x'(1) by simp
  then have "gp_group_id p' = gp_group_id p"
    using x(2) x'(2) by simp
  then show ?thesis
    by (rule same_id [OF ok g'(1) g(1)])
qed

lemma find_unique:
  assumes "x \<in> set xs" and "P x" and "\<And>y. y \<in> set xs \<Longrightarrow> P y \<Longrightarrow> y = x"
  shows "find P xs = Some x"
proof -
  have "find P xs \<noteq> None"
    using assms(1,2) by (auto simp: find_None_iff)
  then obtain y where y: "find P xs = Some y"
    by blast
  then have "P y" and "y \<in> set xs"
    by (auto simp: find_Some_iff)
  then show ?thesis
    using assms(3) y by simp
qed

lemma group_found:
  assumes ok: "buf_ok s" and g: "bs_groups s g = Some p"
  shows "get_group_by_id s (gp_group_id p) = Some g"
proof -
  obtain v where v: "bs_srv s = Some v" "srv_ok s v"
    using buf_okD(1) [OF ok] by blast
  have "find (\<lambda>g. case bs_groups s g of None \<Rightarrow> False | Some q \<Rightarrow> gp_group_id q = gp_group_id p) (sv_hash_group v) = Some g"
  proof (rule find_unique)
    show "g \<in> set (sv_hash_group v)"
      using v(2) g by (auto simp: srv_ok_def)
    show "h = g" if "case bs_groups s h of None \<Rightarrow> False | Some q \<Rightarrow> gp_group_id q = gp_group_id p" for h
      using that srv_okD(4) [OF v(2) _ g, of h] by (auto split: option.splits)
  qed (simp add: g)
  then show ?thesis
    by (simp add: get_group_by_id_def v(1))
qed

text \<open>The usage of a group tells whether it has buffers.\<close>

lemma sum_list_bound:
  fixes f :: "'a \<Rightarrow> nat"
  assumes "\<And>x. x \<in> set xs \<Longrightarrow> f x < k"
  shows "(\<Sum>x\<leftarrow>xs. f x) \<le> length xs * k"
  using assms
proof (induction xs)
  case (Cons x xs)
  have "f x < k" and "(\<Sum>y\<leftarrow>xs. f y) \<le> length xs * k"
    using Cons by simp_all
  then show ?case by simp
qed simp

lemma member_size:
  assumes "grp_ok bufs p" and "b \<in> set (members p)"
  shows "0 < buf_size bufs b \<and> buf_size bufs b < 2 ^ 32"
proof -
  obtain x where "bufs b = Some x" "size_ok (bi_size (bf_info x))"
    by (rule member_live [OF assms])
  then show ?thesis
    by (simp add: buf_size_def size_ok_def)
qed

lemma usage_bound:
  assumes "grp_ok bufs p"
  shows "(\<Sum>b\<leftarrow>members p. buf_size bufs b) < 2 ^ 63"
proof -
  have "buf_size bufs b < 2 ^ 32" if "b \<in> set (members p)" for b
    using member_size [OF assms that] by simp
  then have "(\<Sum>b\<leftarrow>members p. buf_size bufs b) \<le> length (members p) * 2 ^ 32"
    by (rule sum_list_bound)
  moreover have "length (members p) < 2 ^ 31"
    using grp_okD(7,8) [OF assms] by simp
  ultimately show ?thesis by simp
qed

lemma usage_zero_iff: "grp_ok bufs p \<Longrightarrow> gp_usage p = 0 \<longleftrightarrow> members p = []"
proof -
  assume ok: "grp_ok bufs p"
  have "0 < buf_size bufs b" if "b \<in> set (members p)" for b
    using member_size [OF ok that] by simp
  then have "0 < (\<Sum>b\<leftarrow>members p. buf_size bufs b)" if "members p \<noteq> []"
    using that by (cases "members p") simp_all
  then have "(\<Sum>b\<leftarrow>members p. buf_size bufs b) = 0 \<longleftrightarrow> members p = []"
    by (metis less_irrefl list.simps(8) sum_list.Nil)
  then show ?thesis
    using grp_okD(9) [OF ok] by (metis unat_eq_zero)
qed

section \<open>Changing one group\<close>

lemma grp_ok_cong:
  assumes "\<And>b. b \<in> set (members p) \<Longrightarrow> bufs' b = bufs b"
  shows "grp_ok bufs' p = grp_ok bufs p"
proof -
  have u: "\<And>b. b \<in> set (gp_list_used p) \<Longrightarrow> bufs' b = bufs b" and w: "\<And>b. b \<in> set (gp_list_unused p) \<Longrightarrow> bufs' b = bufs b"
    using assms by (simp_all add: members_def)
  have "map (buf_size bufs') (members p) = map (buf_size bufs) (members p)"
    by (rule map_cong) (simp_all add: assms buf_size_def)
  then have "(\<Sum>b\<leftarrow>members p. buf_size bufs' b) = (\<Sum>b\<leftarrow>members p. buf_size bufs b)"
    by (rule arg_cong)
  then show ?thesis
    unfolding grp_ok_def by (simp only: u w assms cong: ball_cong)
qed

lemma buf_ok_upd:
  assumes ok: "buf_ok s" and g: "bs_groups s g = Some p" and v: "bs_srv s = Some v"
    and s': "bs_groups s' = (bs_groups s)(g \<mapsto> p')" "bs_srv s' = Some v'" "bs_next s \<le> bs_next s'"
      "bs_overflowed s' = bs_overflowed s"
    and v': "sv_finalizing v' = sv_finalizing v" "sv_hash_group v' = sv_hash_group v" "sv_group_id v' = sv_group_id v"
    and gid: "gp_group_id p' = gp_group_id p"
    and outside: "\<And>b. b \<notin> set (members p) \<Longrightarrow> b \<notin> set (members p') \<Longrightarrow> bs_bufs s' b = bs_bufs s b"
    and new: "\<And>b. b \<in> set (members p') \<Longrightarrow> b \<notin> set (members p) \<Longrightarrow> bs_bufs s b = None \<and> b < bs_next s'"
    and gone: "\<And>b x. b \<in> set (members p) \<Longrightarrow> bs_bufs s' b = Some x \<Longrightarrow> b \<in> set (members p')"
    and grp: "grp_ok (bs_bufs s') p'"
  shows "buf_ok s'"
proof -
  have other: "grp_ok (bs_bufs s') q" if h: "h \<noteq> g" "bs_groups s h = Some q" for h q
  proof -
    have "bs_bufs s' b = bs_bufs s b" if b: "b \<in> set (members q)" for b
    proof (rule outside)
      show "b \<notin> set (members p)"
        using owner_unique [OF ok g _ h(2) b] h(1) by blast
      show "b \<notin> set (members p')"
      proof
        assume "b \<in> set (members p')"
        then have "bs_bufs s b = None"
          using new \<open>b \<notin> set (members p)\<close> by blast
        moreover obtain x where "bs_bufs s b = Some x"
          by (rule member_live [OF buf_okD(2) [OF ok h(2)] b])
        ultimately show False by simp
      qed
    qed
    then show ?thesis
      using grp_ok_cong [of q "bs_bufs s'" "bs_bufs s"] buf_okD(2) [OF ok h(2)] by blast
  qed
  have owned: "\<exists>h q. bs_groups s' h = Some q \<and> b \<in> set (members q)" and below: "b < bs_next s'"
    if b: "bs_bufs s' b = Some x" for b x
  proof -
    show "\<exists>h q. bs_groups s' h = Some q \<and> b \<in> set (members q)"
    proof (cases "b \<in> set (members p')")
      case False
      then have np: "b \<notin> set (members p)"
        using gone b by blast
      then have "bs_bufs s b = Some x"
        using outside False b by metis
      then obtain h q where hq: "bs_groups s h = Some q" "b \<in> set (members q)"
        using buf_okD(3) [OF ok] by blast
      then have "h \<noteq> g"
        using np g by auto
      then show ?thesis
        using hq s'(1) by auto
    qed (auto simp: s'(1))
    show "b < bs_next s'"
    proof (cases "b \<in> set (members p)")
      case True
      then obtain y where "bs_bufs s b = Some y"
        by (rule member_live [OF buf_okD(2) [OF ok g]])
      then show ?thesis
        using buf_okD(4) [OF ok] s'(3) by (meson less_le_trans)
    next
      case False
      then show ?thesis
        using new outside b buf_okD(4) [OF ok] s'(3) by (cases "b \<in> set (members p')") (metis less_le_trans)+
    qed
  qed
  obtain v0 where sv: "srv_ok s v"
    using buf_okD(1) [OF ok] v by auto
  have gs: "\<exists>q'. bs_groups s h = Some q' \<and> gp_group_id q' = gp_group_id q" if "bs_groups s' h = Some q" for h q
    using that g gid s'(1) by (cases "h = g") auto
  have "srv_ok s' v'"
    unfolding srv_ok_def
  proof (intro conjI allI impI)
    show "\<not> sv_finalizing v'" "distinct (sv_hash_group v')"
      using srv_okD(1,2) [OF sv] v' by simp_all
    show "set (sv_hash_group v') = dom (bs_groups s')"
      using srv_okD(3) [OF sv] v' s'(1) g by auto
    show "h = h'" if "bs_groups s' h = Some q" "bs_groups s' h' = Some q'" "gp_group_id q = gp_group_id q'" for h q h' q'
      using gs [OF that(1)] gs [OF that(2)] that(3) srv_okD(4) [OF sv] by metis
    show "gp_group_id q < sv_group_id v'"
      if "\<not> bs_overflowed s'" "sv_group_id v' \<noteq> 0" "bs_groups s' h = Some q" for h q
      using gs [OF that(3)] that(1,2) srv_okD(5) [OF sv] s'(4) v'(3) by metis
  qed
  moreover have "grp_ok (bs_bufs s') q" if "bs_groups s' h = Some q" for h q
    using that grp other s'(1) by (cases "h = g") auto
  moreover have "h < bs_next s'" if "bs_groups s' h = Some q" for h q
    using gs [OF that] buf_okD(5) [OF ok] s'(3) by (meson less_le_trans)
  ultimately show ?thesis
    using s'(2) owned below unfolding buf_ok_def by blast
qed

section \<open>What releasing a buffer does\<close>

definition alone_in :: "buf_state \<Rightarrow> nat \<Rightarrow> nat \<Rightarrow> bool" where
  "alone_in s g b \<longleftrightarrow> (\<forall>h q. bs_groups s h = Some q \<longrightarrow> h \<noteq> g \<longrightarrow> b \<notin> set (members q))"

lemma alone_inI: "buf_ok s \<Longrightarrow> bs_groups s g = Some p \<Longrightarrow> b \<in> set (members p) \<Longrightarrow> alone_in s g b"
  unfolding alone_in_def using owner_unique by blast

lemma list_del_status_eq:
  assumes "bs_groups s g = Some p" and "alone_in s g b"
  shows "list_del_status b s = set_grp g (del_status b p) s"
proof -
  have "map_option (del_status b) (bs_groups s h) = ((bs_groups s)(g \<mapsto> del_status b p)) h" for h
  proof (cases "h = g")
    case False
    then have "b \<notin> set (members q)" if "bs_groups s h = Some q" for q
      using assms(2) that by (simp add: alone_in_def)
    then show ?thesis
      using False by (cases "bs_groups s h") (simp_all add: del_status_def members_def remove1_idem)
  qed (simp add: assms(1))
  then show ?thesis
    by (simp add: list_del_status_def set_grp_def fun_eq_iff)
qed

definition recycle :: "nat \<Rightarrow> MppBufferGroupImpl \<Rightarrow> MppBufferGroupImpl" where
  "recycle b p = p\<lparr>gp_list_used := remove1 b (gp_list_used p), gp_count_used := gp_count_used p - 1,
     gp_list_unused := remove1 b (gp_list_unused p) @ [b], gp_count_unused := gp_count_unused p + 1\<rparr>"

lemma put_reuse_eq:
  assumes "bs_bufs s b = Some x" and "bf_used x" and "bs_groups s g = Some p" and "alone_in s g b"
  shows "service_put_buffer F True g b True s = Inr (s\<lparr>bs_groups := (bs_groups s)(g \<mapsto> recycle b p),
    bs_bufs := (bs_bufs s)(b \<mapsto> x\<lparr>bf_used := False\<rparr>)\<rparr>)"
  using assms by (simp add: service_put_buffer_def list_del_status_eq put_reuse_def get_buf_def get_grp_def
      set_buf_def set_grp_def del_status_def recycle_def Let_def)

definition drop_buf :: "nat \<Rightarrow> MppBufferImpl \<Rightarrow> MppBufferGroupImpl \<Rightarrow> MppBufferGroupImpl" where
  "drop_buf b x p = p\<lparr>gp_list_used := remove1 b (gp_list_used p), gp_list_unused := remove1 b (gp_list_unused p),
     gp_count_used := (if bf_used x then gp_count_used p - 1 else gp_count_used p),
     gp_count_unused := (if bf_used x then gp_count_unused p else gp_count_unused p - 1),
     gp_usage := gp_usage p - ucast (ucast (bi_size (bf_info x)) :: u32), gp_buffer_count := gp_buffer_count p - 1\<rparr>"

definition drop_total :: "MppBufferImpl \<Rightarrow> MppBufferGroupImpl \<Rightarrow> MppBufferService \<Rightarrow> MppBufferService" where
  "drop_total x p v = (if gp_mode p = MPP_BUFFER_INTERNAL
     then v\<lparr>sv_total_size := sv_total_size v - ucast (bi_size (bf_info x))\<rparr> else v)"

definition end_events :: "MppBufferImpl \<Rightarrow> buf_event list" where
  "end_events x = map (\<lambda>pos. Ev_Detach (mn_dev pos) (pos\<lparr>mn_iova := - 1\<rparr>)) (bf_maps x) @
     [if bf_mode x = MPP_BUFFER_INTERNAL then Ev_Free (bf_allocator x) (bf_info x)
      else Ev_Release (bf_allocator x) (bf_info x)]"

lemma fold_add_event: "fold (\<lambda>pos. add_event (f pos)) ps s = s\<lparr>bs_events := bs_events s @ map f ps\<rparr>"
  by (induction ps arbitrary: s) (simp_all add: add_event_def)

lemma put_account_eq:
  assumes "bs_bufs s b = Some x" and "bs_groups s g = Some p" and "bs_srv s = Some v"
  shows "put_account g b (s\<lparr>bs_groups := (bs_groups s)(g \<mapsto> del_status b p), bs_bufs := (bs_bufs s)(b \<mapsto> x\<lparr>bf_maps := []\<rparr>)\<rparr>) =
    Inr (gp_is_orphan p \<and> gp_usage (drop_buf b x p) = 0 \<and> \<not> gp_is_finalizing p,
      s\<lparr>bs_groups := (bs_groups s)(g \<mapsto> drop_buf b x p), bs_bufs := (bs_bufs s)(b \<mapsto> x\<lparr>bf_maps := []\<rparr>),
        bs_srv := Some (drop_total x p v)\<rparr>)"
  using assms by (simp add: put_account_def get_buf_def get_grp_def set_grp_def upd_srv_def drop_buf_def drop_total_def
      del_status_def Let_def)

lemma put_destroy_eq:
  assumes "bs_bufs s b = Some x" and "bs_groups s g = Some p" and "bs_srv s = Some v" and "alone_in s g b"
    and "\<not> (gp_is_orphan p \<and> gp_usage (drop_buf b x p) = 0 \<and> \<not> gp_is_finalizing p)"
  shows "service_put_buffer F True g b False s = Inr (s\<lparr>bs_groups := (bs_groups s)(g \<mapsto> drop_buf b x p),
    bs_bufs := (bs_bufs s)(b := None), bs_srv := Some (drop_total x p v), bs_events := bs_events s @ end_events x\<rparr>)"
proof -
  have a: "set_buf b (x\<lparr>bf_maps := []\<rparr>) (set_grp g (del_status b p) s) =
      s\<lparr>bs_groups := (bs_groups s)(g \<mapsto> del_status b p), bs_bufs := (bs_bufs s)(b \<mapsto> x\<lparr>bf_maps := []\<rparr>)\<rparr>"
    by (simp add: set_buf_def set_grp_def)
  have b: "bs_bufs (set_grp g (del_status b p) s) b = Some x"
    using assms(1) by (simp add: set_grp_def)
  have ev: "fold (\<lambda>pos. add_event (Ev_Detach (mn_dev pos) pos)) ps t = t\<lparr>bs_events := bs_events t @ map (\<lambda>pos. Ev_Detach (mn_dev pos) pos) ps\<rparr>" for ps t
    by (rule fold_add_event)
  show ?thesis
    using assms(1) b
    by (simp add: assms(5) service_put_buffer_def list_del_status_eq [OF assms(2,4)] get_buf_def Let_def a put_account_eq [OF assms(1-3)])
      (simp add: put_release_def get_buf_def set_buf_def ev add_event_def end_events_def comp_def)
qed

section \<open>The group after a change\<close>

lemma ucast_size: "size_ok sz \<Longrightarrow> ucast (ucast sz :: u32) = sz"
  by (rule word_unat_eq_iff [THEN iffD2]) (simp add: size_ok_def unsigned_ucast_eq unsigned_take_bit_eq take_bit_nat_eq_self)

lemma int_length_remove1: "b \<in> set xs \<Longrightarrow> int (length (remove1 b xs)) = int (length xs) - 1"
  by (induction xs) auto

lemma used_list_iff:
  assumes "grp_ok bufs p" and "b \<in> set (members p)" and "bufs b = Some x"
  shows "b \<in> set (gp_list_used p) \<longleftrightarrow> bf_used x" and "b \<in> set (gp_list_unused p) \<longleftrightarrow> \<not> bf_used x"
  using grp_okD(2,3) [OF assms(1), of b] assms(2,3) by (auto simp: members_def held_in_def idle_in_def)

lemma members_drop:
  assumes "grp_ok bufs p"
  shows "members (drop_buf b x p) = remove1 b (members p)"
proof -
  have "set (gp_list_used p) \<inter> set (gp_list_unused p) = {}"
    using grp_okD(1) [OF assms] by (simp add: members_def)
  then show ?thesis
    by (cases "b \<in> set (gp_list_used p)") (auto simp: members_def drop_buf_def remove1_append intro!: remove1_idem)
qed

lemma drop_grp_ok:
  assumes ok: "grp_ok bufs p" and b: "b \<in> set (members p)" "bufs b = Some y"
    and x: "bf_used x = bf_used y" "bi_size (bf_info x) = bi_size (bf_info y)"
    and rest: "\<And>c. c \<noteq> b \<Longrightarrow> bufs' c = bufs c"
  shows "grp_ok bufs' (drop_buf b x p)"
proof -
  have d: "distinct (members p)"
    by (rule grp_okD(1) [OF ok])
  have sz: "size_ok (bi_size (bf_info y))"
    by (rule grp_okD(4) [OF ok b])
  have m: "members (drop_buf b x p) = remove1 b (members p)"
    by (rule members_drop [OF ok])
  have sum: "(\<Sum>c\<leftarrow>members p. buf_size bufs c) = unat (bi_size (bf_info y)) + (\<Sum>c\<leftarrow>remove1 b (members p). buf_size bufs c)"
    using sum_list_map_remove1 [OF b(1), of "buf_size bufs"] by (simp add: buf_size_def [of _ b] b(2))
  have "bi_size (bf_info y) \<le> gp_usage p"
    using sum grp_okD(9) [OF ok] by (simp add: word_le_nat_alt)
  then have "unat (gp_usage p - bi_size (bf_info y)) = unat (gp_usage p) - unat (bi_size (bf_info y))"
    by (rule unat_sub)
  then have usage: "unat (gp_usage (drop_buf b x p)) = (\<Sum>c\<leftarrow>remove1 b (members p). buf_size bufs c)"
    using sum grp_okD(9) [OF ok] by (simp add: drop_buf_def x ucast_size [OF sz])
  have "(\<Sum>c\<leftarrow>remove1 b (members p). buf_size bufs' c) = (\<Sum>c\<leftarrow>remove1 b (members p). buf_size bufs c)"
    by (intro arg_cong [where f = sum_list] map_cong) (use d rest in \<open>auto simp: buf_size_def set_remove1_eq\<close>)
  then have usage': "unat (gp_usage (drop_buf b x p)) = (\<Sum>c\<leftarrow>members (drop_buf b x p). buf_size bufs' c)"
    by (simp add: usage m)
  have lists: "gp_list_used (drop_buf b x p) = remove1 b (gp_list_used p)" "gp_list_unused (drop_buf b x p) = remove1 b (gp_list_unused p)"
    by (simp_all add: drop_buf_def)
  have du: "distinct (gp_list_used p)" "distinct (gp_list_unused p)"
    using d by (simp_all add: members_def)
  note u = used_list_iff [OF ok b]
  have counts: "gp_count_used (drop_buf b x p) = int (length (gp_list_used (drop_buf b x p)))"
    "gp_count_unused (drop_buf b x p) = int (length (gp_list_unused (drop_buf b x p)))"
    using u grp_okD(5,6) [OF ok] x(1) by (auto simp: drop_buf_def int_length_remove1 remove1_idem)
  have h: "\<exists>z. bufs' c = Some z \<and> held_in (drop_buf b x p) z" if "c \<in> set (gp_list_used (drop_buf b x p))" for c
    using that du lists grp_okD(2) [OF ok, of c] rest [of c] by (auto simp: held_in_def drop_buf_def)
  have i: "\<exists>z. bufs' c = Some z \<and> idle_in (drop_buf b x p) z" if "c \<in> set (gp_list_unused (drop_buf b x p))" for c
    using that du lists grp_okD(3) [OF ok, of c] rest [of c] by (auto simp: idle_in_def drop_buf_def)
  have s: "size_ok (bi_size (bf_info z))" if "c \<in> set (members (drop_buf b x p))" "bufs' c = Some z" for c z
    using that m d grp_okD(4) [OF ok, of c z] rest [of c] by auto
  have bc: "gp_buffer_count (drop_buf b x p) = int (length (members (drop_buf b x p)))"
    "gp_buffer_count (drop_buf b x p) < 2 ^ 31"
    unfolding m using int_length_remove1 [OF b(1)] grp_okD(7,8) [OF ok] by (simp_all add: drop_buf_def)
  have f: "\<not> gp_clear_on_exit (drop_buf b x p)" "\<not> gp_is_finalizing (drop_buf b x p)"
    using grp_okD(10,11) [OF ok] by (simp_all add: drop_buf_def)
  have "distinct (members (drop_buf b x p))"
    using d m by simp
  then show ?thesis
    unfolding grp_ok_def using usage' counts h i s bc f by blast
qed

text \<open>A buffer moves between the two lists of its group: \<open>recycle\<close> and \<open>take_buf\<close>.\<close>

definition take_buf :: "nat \<Rightarrow> MppBufferGroupImpl \<Rightarrow> MppBufferGroupImpl" where
  "take_buf b p = p\<lparr>gp_list_used := remove1 b (gp_list_used p) @ [b], gp_list_unused := remove1 b (gp_list_unused p),
     gp_count_used := gp_count_used p + 1, gp_count_unused := gp_count_unused p - 1\<rparr>"

lemma moved_grp_ok:
  assumes ok: "grp_ok bufs p" and b: "b \<in> set (members p)" "bufs b = Some y" "bufs' b = Some x"
    and x: "bi_size (bf_info x) = bi_size (bf_info y)" "bf_group_id x = bf_group_id y" "bf_mode x = bf_mode y"
    and rest: "\<And>c. c \<noteq> b \<Longrightarrow> bufs' c = bufs c"
    and q: "mset (members q) = mset (members p)"
      "set (gp_list_used q) - {b} \<subseteq> set (gp_list_used p)" "set (gp_list_unused q) - {b} \<subseteq> set (gp_list_unused p)"
      "b \<in> set (gp_list_used q) \<Longrightarrow> bf_used x \<and> 0 < bf_ref_count x"
      "b \<in> set (gp_list_unused q) \<Longrightarrow> \<not> bf_used x \<and> bf_ref_count x = 0"
      "gp_count_used q = int (length (gp_list_used q))" "gp_count_unused q = int (length (gp_list_unused q))"
      "gp_buffer_count q = gp_buffer_count p" "gp_usage q = gp_usage p" "gp_group_id q = gp_group_id p" "gp_mode q = gp_mode p"
      "gp_clear_on_exit q = gp_clear_on_exit p" "gp_is_finalizing q = gp_is_finalizing p"
  shows "grp_ok bufs' q"
proof -
  have m: "set (members q) = set (members p)" "length (members q) = length (members p)" "distinct (members q)"
    using mset_eq_setD [OF q(1)] mset_eq_length [OF q(1)] mset_eq_imp_distinct_iff [OF q(1)] grp_okD(1) [OF ok] by auto
  have idb: "bf_group_id y = gp_group_id p \<and> bf_mode y = gp_mode p"
    using member_live [OF ok b(1)] b(2) by (metis option.inject)
  have f: "buf_size bufs' c = buf_size bufs c" for c
    using rest [of c] b(2,3) x(1) by (cases "c = b") (simp_all add: buf_size_def)
  have "mset (map (buf_size bufs) (members q)) = mset (map (buf_size bufs) (members p))"
    using q(1) by simp
  then have "(\<Sum>c\<leftarrow>members q. buf_size bufs c) = (\<Sum>c\<leftarrow>members p. buf_size bufs c)"
    by (metis sum_mset_sum_list)
  then have usage: "unat (gp_usage q) = (\<Sum>c\<leftarrow>members q. buf_size bufs' c)"
    using grp_okD(9) [OF ok] q(9) by (simp add: f)
  have h: "\<exists>z. bufs' c = Some z \<and> held_in q z" if c: "c \<in> set (gp_list_used q)" for c
  proof (cases "c = b")
    case True
    then show ?thesis using q(4) c b(3) idb x q(10,11) by (simp add: held_in_def)
  next
    case False
    then have "c \<in> set (gp_list_used p)"
      using q(2) c by blast
    then show ?thesis using grp_okD(2) [OF ok] rest [OF False] q(10,11) by (fastforce simp: held_in_def)
  qed
  have i: "\<exists>z. bufs' c = Some z \<and> idle_in q z" if c: "c \<in> set (gp_list_unused q)" for c
  proof (cases "c = b")
    case True
    then show ?thesis using q(5) c b(3) idb x q(10,11) by (simp add: idle_in_def)
  next
    case False
    then have "c \<in> set (gp_list_unused p)"
      using q(3) c by blast
    then show ?thesis using grp_okD(3) [OF ok] rest [OF False] q(10,11) by (fastforce simp: idle_in_def)
  qed
  have s: "size_ok (bi_size (bf_info z))" if "c \<in> set (members q)" "bufs' c = Some z" for c z
    using that m(1) grp_okD(4) [OF ok, of c] rest [of c] b(2,3) x(1) by (cases "c = b") auto
  have bc: "gp_buffer_count q = int (length (members q))" "gp_buffer_count q < 2 ^ 31"
    using grp_okD(7,8) [OF ok] q(8) m(2) by simp_all
  have fl: "\<not> gp_clear_on_exit q" "\<not> gp_is_finalizing q"
    using grp_okD(10,11) [OF ok] q(12,13) by simp_all
  show ?thesis
    unfolding grp_ok_def using usage h i s bc fl m(3) q(6,7) by blast
qed

lemma recycle_grp_ok:
  assumes ok: "grp_ok bufs p" and b: "b \<in> set (gp_list_used p)" "bufs b = Some y"
    and x: "bf_info x = bf_info y" "bf_group_id x = bf_group_id y" "bf_mode x = bf_mode y" "\<not> bf_used x" "bf_ref_count x = 0"
  shows "grp_ok (bufs(b \<mapsto> x)) (recycle b p)"
proof -
  have out: "b \<notin> set (gp_list_unused p)" and d: "distinct (gp_list_used p)"
    using grp_okD(1) [OF ok] b(1) by (auto simp: members_def)
  show ?thesis
    by (rule moved_grp_ok [OF ok _ b(2) _ _ x(2,3)])
      (use b d out x grp_okD(5,6) [OF ok] in \<open>auto simp: members_def recycle_def int_length_remove1 remove1_idem
        dest: notin_set_remove1\<close>)
qed

lemma take_grp_ok:
  assumes ok: "grp_ok bufs p" and b: "b \<in> set (gp_list_unused p)" "bufs b = Some y"
    and x: "bf_info x = bf_info y" "bf_group_id x = bf_group_id y" "bf_mode x = bf_mode y" "bf_used x" "0 < bf_ref_count x"
  shows "grp_ok (bufs(b \<mapsto> x)) (take_buf b p)"
proof -
  have out: "b \<notin> set (gp_list_used p)" and d: "distinct (gp_list_unused p)"
    using grp_okD(1) [OF ok] b(1) by (auto simp: members_def)
  show ?thesis
    by (rule moved_grp_ok [OF ok _ b(2) _ _ x(2,3)])
      (use b d out x grp_okD(5,6) [OF ok] in \<open>auto simp: members_def take_buf_def int_length_remove1 remove1_idem
        dest: notin_set_remove1\<close>)
qed

definition add_buf :: "nat \<Rightarrow> MppBufferInfo \<Rightarrow> bool \<Rightarrow> MppBufferGroupImpl \<Rightarrow> MppBufferGroupImpl" where
  "add_buf b info want p = p\<lparr>gp_usage := gp_usage p + bi_size info, gp_buffer_id := gp_buffer_id p + 1,
     gp_buffer_count := gp_buffer_count p + 1,
     gp_list_used := (if want then gp_list_used p @ [b] else gp_list_used p),
     gp_list_unused := (if want then gp_list_unused p else gp_list_unused p @ [b]),
     gp_count_used := (if want then gp_count_used p + 1 else gp_count_used p),
     gp_count_unused := (if want then gp_count_unused p else gp_count_unused p + 1)\<rparr>"

definition new_buf :: "MppBufferGroupImpl \<Rightarrow> MppBufferInfo \<Rightarrow> bool \<Rightarrow> MppBufferImpl" where
  "new_buf p info want = \<lparr>bf_allocator = gp_allocator p, bf_group_id = gp_group_id p, bf_buffer_id = gp_buffer_id p,
     bf_mode = gp_mode p, bf_type = gp_type p, bf_info = info, bf_offset = 0,
     bf_uncached = (gp_flags p AND MPP_ALLOC_FLAG_CACHABLE = 0), bf_discard = False,
     bf_used = want, bf_ref_count = (if want then 1 else 0), bf_maps = []\<rparr>"

lemma create_buffer_eq:
  "create_buffer g p info want s = s\<lparr>bs_bufs := (bs_bufs s)(bs_next s \<mapsto> new_buf p info want),
     bs_groups := (bs_groups s)(g \<mapsto> add_buf (bs_next s) info want p), bs_next := bs_next s + 1\<rparr>"
  by (cases p; cases want) (simp_all add: create_buffer_def set_grp_def set_buf_def new_buf_def add_buf_def Let_def)

lemma add_grp_ok:
  assumes ok: "grp_ok bufs p" and b: "bufs b = None" and sz: "size_ok (bi_size info)" and n: "gp_buffer_count p < 2 ^ 31 - 1"
  shows "grp_ok (bufs(b \<mapsto> new_buf p info want)) (add_buf b info want p)"
proof -
  let ?bufs = "bufs(b \<mapsto> new_buf p info want)" and ?p = "add_buf b info want p"
  have out: "b \<notin> set (members p)"
    using member_live [OF ok] b by (metis option.simps(3))
  have m: "mset (members ?p) = add_mset b (mset (members p))"
    by (simp add: members_def add_buf_def)
  then have set: "set (members ?p) = insert b (set (members p))" and dist: "distinct (members ?p)"
    and len: "length (members ?p) = Suc (length (members p))"
    using out grp_okD(1) [OF ok] by (auto simp: members_def add_buf_def)
  have old: "map (buf_size ?bufs) (members p) = map (buf_size bufs) (members p)"
    using out by (auto simp: buf_size_def)
  have "mset (map (buf_size ?bufs) (members ?p)) = add_mset (unat (bi_size info)) (mset (map (buf_size ?bufs) (members p)))"
    using m by (simp add: buf_size_def [of _ b] new_buf_def)
  then have sum: "(\<Sum>c\<leftarrow>members ?p. buf_size ?bufs c) = unat (bi_size info) + (\<Sum>c\<leftarrow>members p. buf_size bufs c)"
    unfolding old by (metis sum_mset.add_mset sum_mset_sum_list)
  have "unat (gp_usage p) + unat (bi_size info) < 2 ^ LENGTH(64)"
    using usage_bound [OF ok] grp_okD(9) [OF ok] sz by (simp add: size_ok_def)
  then have usage: "unat (gp_usage ?p) = (\<Sum>c\<leftarrow>members ?p. buf_size ?bufs c)"
    unfolding sum using grp_okD(9) [OF ok] by (simp add: add_buf_def unat_add_lem [THEN iffD1])
  have old_u: "\<exists>z. ?bufs c = Some z \<and> held_in ?p z" if "c \<in> set (gp_list_used p)" for c
    using grp_okD(2) [OF ok that] that out by (auto simp: members_def held_in_def add_buf_def)
  have old_i: "\<exists>z. ?bufs c = Some z \<and> idle_in ?p z" if "c \<in> set (gp_list_unused p)" for c
    using grp_okD(3) [OF ok that] that out by (auto simp: members_def idle_in_def add_buf_def)
  have h: "\<exists>z. ?bufs c = Some z \<and> held_in ?p z" if "c \<in> set (gp_list_used ?p)" for c
    using that old_u [of c] by (cases "c = b") (auto simp: add_buf_def new_buf_def held_in_def split: if_splits)
  have i: "\<exists>z. ?bufs c = Some z \<and> idle_in ?p z" if "c \<in> set (gp_list_unused ?p)" for c
    using that old_i [of c] by (cases "c = b") (auto simp: add_buf_def new_buf_def idle_in_def split: if_splits)
  have s: "size_ok (bi_size (bf_info z))" if "c \<in> set (members ?p)" "?bufs c = Some z" for c z
    using that grp_okD(4) [OF ok, of c] sz by (cases "c = b") (auto simp: set new_buf_def)
  have c: "gp_count_used ?p = int (length (gp_list_used ?p))" "gp_count_unused ?p = int (length (gp_list_unused ?p))"
    "gp_buffer_count ?p = int (length (members ?p))" "gp_buffer_count ?p < 2 ^ 31"
    "\<not> gp_clear_on_exit ?p" "\<not> gp_is_finalizing ?p"
    using grp_okD(5-8,10,11) [OF ok] n len by (simp_all add: add_buf_def)
  show ?thesis
    unfolding grp_ok_def using usage h i s c dist by blast
qed

end
