(* ===== verification/Mpp_Buffer_Ops.thy ===== *)
theory Mpp_Buffer_Ops
  imports Mpp_Buffer_Inv
begin

text \<open>
  The operations of \<open>Mpp_Buffer\<close> on consistent states: each one succeeds, keeps the invariant of
  \<open>Mpp_Buffer_Inv\<close> and has the stated effect, with the one exception of the last discarded buffer of an
  orphan group.
\<close>

section \<open>Changing or releasing one buffer\<close>

lemma srv_obtain:
  assumes "buf_ok s"
  obtains v where "bs_srv s = Some v" and "srv_ok s v"
  using buf_okD(1) [OF assms] by blast

lemma get_srv_ok: "buf_ok s \<Longrightarrow> get_srv_buffer s = (True, s)"
  by (rule srv_obtain) (auto simp: get_srv_buffer_def)

lemma search_ok: "buf_ok s \<Longrightarrow> bs_groups s g = Some p \<Longrightarrow> search_group True s (gp_group_id p) = Some g"
  by (simp add: search_group_def group_found)

lemma buf_owner:
  assumes "buf_ok s" and "bs_bufs s b = Some x"
  obtains g p where "bs_groups s g = Some p" and "b \<in> set (members p)" and "bf_group_id x = gp_group_id p"
    and "bf_mode x = gp_mode p"
proof -
  obtain g p where g: "bs_groups s g = Some p" "b \<in> set (members p)"
    using buf_okD(3) [OF assms] by blast
  show ?thesis
    by (rule member_live [OF buf_okD(2) [OF assms(1) g(1)] g(2)]) (use that g assms(2) in auto)
qed

text \<open>The buffer keeps its place; its references stay positive or zero.\<close>

lemma set_buf_ok:
  assumes ok: "buf_ok s" and b: "bs_bufs s b = Some y"
    and x: "bi_size (bf_info x) = bi_size (bf_info y)" "bf_group_id x = bf_group_id y" "bf_mode x = bf_mode y"
      "bf_used x = bf_used y" "if bf_used y then 0 < bf_ref_count x else bf_ref_count x = 0"
  shows "buf_ok (set_buf b x s)"
proof -
  obtain g p where g: "bs_groups s g = Some p" "b \<in> set (members p)"
    using buf_okD(3) [OF ok b] by blast
  obtain v where v: "bs_srv s = Some v"
    by (rule srv_obtain [OF ok])
  note gok = buf_okD(2) [OF ok g(1)]
  have u: "b \<in> set (gp_list_used p) \<longleftrightarrow> bf_used y" "b \<in> set (gp_list_unused p) \<longleftrightarrow> \<not> bf_used y"
    using used_list_iff [OF gok g(2) b] by simp_all
  have grp: "grp_ok ((bs_bufs s)(b \<mapsto> x)) p"
    by (rule moved_grp_ok [OF gok g(2) b _ x(1-3)]) (use u x(4,5) grp_okD(5,6) [OF gok] in auto)
  show ?thesis
    by (rule buf_ok_upd [OF ok g(1) v, of _ p v]) (use g(2) grp in \<open>auto simp: set_buf_def g(1) v fun_upd_idem\<close>)
qed

definition dropped :: "nat \<Rightarrow> MppBufferGroupImpl \<Rightarrow> MppBufferService \<Rightarrow> nat \<Rightarrow> MppBufferImpl \<Rightarrow> buf_state \<Rightarrow> buf_state" where
  "dropped g p v b x s = s\<lparr>bs_groups := (bs_groups s)(g \<mapsto> drop_buf b x p), bs_bufs := (bs_bufs s)(b := None),
     bs_srv := Some (drop_total x p v), bs_events := bs_events s @ end_events x\<rparr>"

lemma drop_total_sel [simp]:
  "sv_finalizing (drop_total x p v) = sv_finalizing v" "sv_hash_group (drop_total x p v) = sv_hash_group v"
  "sv_group_id (drop_total x p v) = sv_group_id v"
  by (simp_all add: drop_total_def)

lemma drop_buf_sel [simp]:
  "gp_group_id (drop_buf b x p) = gp_group_id p" "gp_mode (drop_buf b x p) = gp_mode p"
  "gp_is_orphan (drop_buf b x p) = gp_is_orphan p" "gp_is_misc (drop_buf b x p) = gp_is_misc p"
  "gp_callback (drop_buf b x p) = gp_callback p" "gp_type (drop_buf b x p) = gp_type p"
  "gp_limit_count (drop_buf b x p) = gp_limit_count p" "gp_limit_size (drop_buf b x p) = gp_limit_size p"
  "gp_list_used (drop_buf b x p) = remove1 b (gp_list_used p)"
  "gp_list_unused (drop_buf b x p) = remove1 b (gp_list_unused p)"
  "gp_buffer_count (drop_buf b x p) = gp_buffer_count p - 1" "gp_is_finalizing (drop_buf b x p) = gp_is_finalizing p"
  "gp_allocator (drop_buf b x p) = gp_allocator p" "gp_clear_on_exit (drop_buf b x p) = gp_clear_on_exit p"
  by (simp_all add: drop_buf_def)

lemma dropped_ok:
  assumes ok: "buf_ok s" and g: "bs_groups s g = Some p" "b \<in> set (members p)" and b: "bs_bufs s b = Some y"
    and v: "bs_srv s = Some v" and x: "bf_used x = bf_used y" "bi_size (bf_info x) = bi_size (bf_info y)"
  shows "buf_ok (dropped g p v b x s)"
proof -
  note gok = buf_okD(2) [OF ok g(1)]
  have m: "set (members (drop_buf b x p)) = set (members p) - {b}"
    using members_drop [OF gok] grp_okD(1) [OF gok] by simp
  show ?thesis
  proof (rule buf_ok_upd [OF ok g(1) v, of _ "drop_buf b x p" "drop_total x p v"])
    show "grp_ok (bs_bufs (dropped g p v b x s)) (drop_buf b x p)"
      by (rule drop_grp_ok [OF gok g(2) b x]) (simp add: dropped_def)
    show "bs_bufs (dropped g p v b x s) c = bs_bufs s c" if "c \<notin> set (members p)" for c
      using that g(2) by (auto simp: dropped_def)
    show "c \<in> set (members (drop_buf b x p))"
      if "c \<in> set (members p)" "bs_bufs (dropped g p v b x s) c = Some z" for c z
      using that m by (auto simp: dropped_def split: if_splits)
    show "bs_bufs s c = None \<and> c < bs_next (dropped g p v b x s)"
      if "c \<in> set (members (drop_buf b x p))" "c \<notin> set (members p)" for c
      using that m by blast
  qed (simp_all add: dropped_def)
qed

lemma release_eq:
  assumes ok: "buf_ok s" and g: "bs_groups s g = Some p" "b \<in> set (members p)" and v: "bs_srv s = Some v"
    and nd: "\<not> (gp_is_orphan p \<and> gp_usage (drop_buf b x p) = 0)"
  shows "service_put_buffer F True g b False (set_buf b x s) = Inr (dropped g p v b x s)"
proof -
  have a: "alone_in (set_buf b x s) g b"
    using alone_inI [OF ok g] by (simp add: alone_in_def set_buf_def)
  have "\<not> (gp_is_orphan p \<and> gp_usage (drop_buf b x p) = 0 \<and> \<not> gp_is_finalizing p)"
    using nd by blast
  from put_destroy_eq [OF _ _ _ a this, where v = v and F = F] show ?thesis
    using g v by (simp add: set_buf_def dropped_def)
qed

lemma usage_drop_zero:
  assumes "grp_ok bufs p" and "b \<in> set (members p)" and "bufs b = Some y"
    and "bf_used x = bf_used y" "bi_size (bf_info x) = bi_size (bf_info y)"
  shows "gp_usage (drop_buf b x p) = 0 \<longleftrightarrow> members p = [b]"
proof -
  have "grp_ok (bufs(b := None)) (drop_buf b x p)"
    by (rule drop_grp_ok [OF assms]) simp
  then have "gp_usage (drop_buf b x p) = 0 \<longleftrightarrow> remove1 b (members p) = []"
    using usage_zero_iff members_drop [OF assms(1)] by metis
  also have "\<dots> \<longleftrightarrow> members p = [b]"
    using assms(2) by (cases "members p") auto
  finally show ?thesis .
qed

section \<open>Releasing the unused buffers\<close>

text \<open>The fields that say what a group is, and its used buffers.\<close>

definition same_group :: "MppBufferGroupImpl \<Rightarrow> MppBufferGroupImpl \<Rightarrow> bool" where
  "same_group p q \<longleftrightarrow> gp_group_id q = gp_group_id p \<and> gp_mode q = gp_mode p \<and> gp_type q = gp_type p \<and>
     gp_is_misc q = gp_is_misc p \<and> gp_is_orphan q = gp_is_orphan p \<and> gp_callback q = gp_callback p \<and>
     gp_limit_count q = gp_limit_count p \<and> gp_limit_size q = gp_limit_size p \<and> gp_allocator q = gp_allocator p \<and>
     gp_buffer_count q \<le> gp_buffer_count p \<and> gp_list_used q = gp_list_used p"

lemma same_group_refl [simp]: "same_group p p"
  by (simp add: same_group_def)

lemma same_group_trans: "same_group p q \<Longrightarrow> same_group q r \<Longrightarrow> same_group p r"
  by (simp add: same_group_def)

text \<open>\<open>released s s' g p' bs\<close>: the unused buffers \<open>bs\<close> of \<open>g\<close> went back to the allocator, each one once.\<close>

definition released :: "buf_state \<Rightarrow> buf_state \<Rightarrow> nat \<Rightarrow> MppBufferGroupImpl \<Rightarrow> nat list \<Rightarrow> bool" where
  "released s s' g p' bs \<longleftrightarrow> bs_groups s' = (bs_groups s)(g \<mapsto> p') \<and>
     bs_bufs s' = (\<lambda>b. if b \<in> set bs then None else bs_bufs s b) \<and>
     bs_events s' = bs_events s @ concat (map (\<lambda>b. end_events (the (bs_bufs s b))) bs) \<and>
     bs_next s' = bs_next s \<and> bs_overflowed s' = bs_overflowed s \<and> bs_status s' = bs_status s"

lemma released_Nil: "bs_groups s g = Some p \<Longrightarrow> released s s g p []"
  by (simp add: released_def fun_upd_idem)

lemma released_Cons:
  assumes "released (dropped g p v b x s) s' g p' bs" and "bs_bufs s b = Some x" and "b \<notin> set bs"
  shows "released s s' g p' (b # bs)"
proof -
  have "concat (map (\<lambda>c. end_events (the ((if c = b then None else bs_bufs s c)))) bs) =
      concat (map (\<lambda>c. end_events (the (bs_bufs s c))) bs)"
    using assms(3) by (intro arg_cong [where f = concat] map_cong) auto
  then show ?thesis
    using assms by (auto simp: released_def dropped_def fun_eq_iff fun_upd_def)
qed

lemma unused_step:
  assumes ok: "buf_ok s" and g: "bs_groups s g = Some p" "gp_list_unused p = b # bs" "\<not> gp_is_orphan p"
  obtains x v where "bs_bufs s b = Some x" "bs_srv s = Some v" "size_ok (bi_size (bf_info x))"
    and "service_put_buffer F True g b False s = Inr (dropped g p v b x s)" "buf_ok (dropped g p v b x s)"
    and "bs_groups (dropped g p v b x s) g = Some (drop_buf b x p)"
    and "gp_list_unused (drop_buf b x p) = bs" "\<not> gp_is_orphan (drop_buf b x p)" "same_group p (drop_buf b x p)" "b \<notin> set bs"
proof -
  note gok = buf_okD(2) [OF ok g(1)]
  have b: "b \<in> set (members p)"
    by (simp add: members_def g(2))
  obtain x where x: "bs_bufs s b = Some x" "size_ok (bi_size (bf_info x))"
    by (rule member_live [OF gok b])
  obtain v where v: "bs_srv s = Some v"
    by (rule srv_obtain [OF ok])
  have "b \<notin> set (gp_list_used p)" "b \<notin> set bs"
    using grp_okD(1) [OF gok] by (auto simp: members_def g(2))
  moreover have "service_put_buffer F True g b False s = Inr (dropped g p v b x s)"
    using release_eq [OF ok g(1) b v, of x F] g(3) x(1) by (simp add: set_buf_def fun_upd_idem)
  moreover have "buf_ok (dropped g p v b x s)"
    by (rule dropped_ok [OF ok g(1) b x(1) v]) simp_all
  ultimately show ?thesis
    using that [OF x(1) v x(2)] g(2,3) by (simp add: dropped_def same_group_def remove1_idem)
qed

lemma put_all_ok:
  assumes "buf_ok s" and "bs_groups s g = Some p" and "gp_list_unused p = bs" and "\<not> gp_is_orphan p"
  shows "\<exists>s' p'. put_all F True g bs s = Inr s' \<and> buf_ok s' \<and> released s s' g p' bs \<and> same_group p p' \<and>
    gp_list_unused p' = []"
  using assms
proof (induction bs arbitrary: s p)
  case Nil
  then show ?case
    using released_Nil by force
next
  case (Cons b bs)
  obtain x v where x: "bs_bufs s b = Some x" and put: "service_put_buffer F True g b False s = Inr (dropped g p v b x s)"
    and ok: "buf_ok (dropped g p v b x s)" and g: "bs_groups (dropped g p v b x s) g = Some (drop_buf b x p)"
    and p: "gp_list_unused (drop_buf b x p) = bs" "\<not> gp_is_orphan (drop_buf b x p)" "same_group p (drop_buf b x p)" "b \<notin> set bs"
    by (rule unused_step [OF Cons.prems])
  obtain s' p' where s': "put_all F True g bs (dropped g p v b x s) = Inr s'" "buf_ok s'"
    "released (dropped g p v b x s) s' g p' bs" "same_group (drop_buf b x p) p'" "gp_list_unused p' = []"
    using Cons.IH [OF ok g p(1,2)] by blast
  have "released s s' g p' (b # bs)"
    by (rule released_Cons [OF s'(3) x p(4)])
  then show ?case
    using put s' same_group_trans [OF p(3)] by auto
qed

text \<open>Taking a buffer that is large enough.\<close>

definition taken :: "nat \<Rightarrow> MppBufferGroupImpl \<Rightarrow> nat \<Rightarrow> MppBufferImpl \<Rightarrow> buf_state \<Rightarrow> buf_state" where
  "taken g p b x s = s\<lparr>bs_bufs := (bs_bufs s)(b \<mapsto> x\<lparr>bf_ref_count := bf_ref_count x + 1, bf_used := True\<rparr>),
     bs_groups := (bs_groups s)(g \<mapsto> take_buf b p)\<rparr>"

lemma taken_eq:
  assumes ok: "buf_ok s" and g: "bs_groups s g = Some p" "b \<in> set (gp_list_unused p)" and b: "bs_bufs s b = Some x"
  shows "move_to_used g b (set_buf b (x\<lparr>bf_ref_count := bf_ref_count x + 1, bf_used := True\<rparr>) s) = Inr (taken g p b x s)"
proof -
  have "alone_in (set_buf b y s) g b" for y
    using alone_inI [OF ok g(1), of b] g(2) by (simp add: alone_in_def set_buf_def members_def)
  then show ?thesis
    using g(1) by (cases p) (simp add: move_to_used_def list_del_status_eq [of _ g p] set_buf_def set_grp_def get_grp_def
        del_status_def taken_def take_buf_def)
qed

lemma taken_ok:
  assumes ok: "buf_ok s" and g: "bs_groups s g = Some p" "b \<in> set (gp_list_unused p)" and b: "bs_bufs s b = Some x"
  shows "buf_ok (taken g p b x s)"
proof -
  note gok = buf_okD(2) [OF ok g(1)]
  obtain v where v: "bs_srv s = Some v"
    by (rule srv_obtain [OF ok])
  have "bf_ref_count x = 0"
    using grp_okD(3) [OF gok g(2)] b by (auto simp: idle_in_def)
  then have "grp_ok (bs_bufs (taken g p b x s)) (take_buf b p)"
    unfolding taken_def by (simp, intro take_grp_ok [OF gok g(2) b]) auto
  moreover have "set (members (take_buf b p)) = set (members p)"
    using g(2) grp_okD(1) [OF gok] by (auto simp: members_def take_buf_def)
  ultimately show ?thesis
    by (intro buf_ok_upd [OF ok g(1) v, of _ "take_buf b p" v]) (use g in \<open>auto simp: taken_def v take_buf_def members_def\<close>)
qed

definition too_small :: "buf_state \<Rightarrow> u64 \<Rightarrow> nat \<Rightarrow> bool" where
  "too_small s sz b \<longleftrightarrow> (case bs_bufs s b of None \<Rightarrow> False | Some x \<Rightarrow> bi_size (bf_info x) < sz)"

lemma walk_external:
  assumes ok: "buf_ok s" and g: "bs_groups s g = Some p" and bs: "set bs \<subseteq> set (gp_list_unused p)" and mode: "mode \<noteq> MPP_BUFFER_INTERNAL"
  shows "get_unused_walk F srv g mode sz bs s =
    (case dropWhile (too_small s sz) bs of [] \<Rightarrow> Inr (None, s) | b # _ \<Rightarrow> Inr (Some b, taken g p b (the (bs_bufs s b)) s))"
  using bs
proof (induction bs)
  case (Cons b bs)
  then obtain x where x: "bs_bufs s b = Some x"
    using grp_okD(3) [OF buf_okD(2) [OF ok g], of b] by auto
  show ?case
  proof (cases "too_small s sz b")
    case True
    then have "\<not> sz \<le> bi_size (bf_info x)"
      using x by (simp add: too_small_def not_le)
    then show ?thesis
      using Cons True x mode by (simp add: get_buf_def)
  next
    case False
    then have "sz \<le> bi_size (bf_info x)"
      using x by (simp add: too_small_def not_less)
    then show ?thesis
      using Cons.prems False x taken_eq [OF ok g _ x] by (simp add: get_buf_def)
  qed
qed simp

lemma case_hd_cong:
  "(\<And>c cs. d = c # cs \<Longrightarrow> f c = f' c) \<Longrightarrow>
   (case d of [] \<Rightarrow> a | c # _ \<Rightarrow> h c (f c)) = (case d of [] \<Rightarrow> a | c # _ \<Rightarrow> h c (f' c))"
  by (cases d) simp_all

lemma walk_internal:
  assumes "buf_ok s" and "bs_groups s g = Some p" and "gp_list_unused p = bs" and "\<not> gp_is_orphan p"
    and m: "mode = MPP_BUFFER_INTERNAL"
  shows "\<exists>s1 p1. released s s1 g p1 (takeWhile (too_small s sz) bs) \<and> buf_ok s1 \<and> same_group p p1 \<and>
    gp_list_unused p1 = dropWhile (too_small s sz) bs \<and>
    get_unused_walk F True g mode sz bs s =
      (case dropWhile (too_small s sz) bs of [] \<Rightarrow> Inr (None, s1)
       | b # _ \<Rightarrow> Inr (Some b, taken g p1 b (the (bs_bufs s b)) s1))"
  using assms(1-4)
proof (induction bs arbitrary: s p)
  case Nil
  then show ?case
    using released_Nil by force
next
  case (Cons b bs)
  obtain x v where x: "bs_bufs s b = Some x" and put: "service_put_buffer F True g b False s = Inr (dropped g p v b x s)"
    and ok: "buf_ok (dropped g p v b x s)" and g: "bs_groups (dropped g p v b x s) g = Some (drop_buf b x p)"
    and p: "gp_list_unused (drop_buf b x p) = bs" "\<not> gp_is_orphan (drop_buf b x p)" "same_group p (drop_buf b x p)" "b \<notin> set bs"
    by (rule unused_step [OF Cons.prems])
  show ?case
  proof (cases "too_small s sz b")
    case False
    have b: "b \<in> set (gp_list_unused p)"
      by (simp add: Cons.prems(3))
    have "get_unused_walk F True g mode sz (b # bs) s = Inr (Some b, taken g p b x s)"
      using False x taken_eq [OF Cons.prems(1,2) b x] by (simp add: too_small_def get_buf_def not_less)
    moreover have "released s s g p []"
      by (rule released_Nil [OF Cons.prems(2)])
    ultimately show ?thesis
      using False x Cons.prems(1,3) by (intro exI [of _ s] exI [of _ p]) simp
  next
    case True
    let ?s = "dropped g p v b x s"
    have t: "too_small ?s sz c = too_small s sz c" if "c \<in> set bs" for c
      using that p(4) by (auto simp: too_small_def dropped_def)
    have tw: "takeWhile (too_small ?s sz) bs = takeWhile (too_small s sz) bs"
      "dropWhile (too_small ?s sz) bs = dropWhile (too_small s sz) bs"
      using t by (simp_all cong: takeWhile_cong dropWhile_cong)
    obtain s1 p1 where s1: "released ?s s1 g p1 (takeWhile (too_small s sz) bs)" "buf_ok s1" "same_group (drop_buf b x p) p1"
      "gp_list_unused p1 = dropWhile (too_small s sz) bs" "get_unused_walk F True g mode sz bs ?s =
      (case dropWhile (too_small s sz) bs of [] \<Rightarrow> Inr (None, s1) | c # _ \<Rightarrow> Inr (Some c, taken g p1 c (the (bs_bufs ?s c)) s1))"
      using Cons.IH [OF ok g p(1,2)] unfolding tw by blast
    have rel: "released s s1 g p1 (b # takeWhile (too_small s sz) bs)"
      by (rule released_Cons [OF s1(1) x]) (use p(4) set_takeWhileD in fastforce)
    have the_eq: "the (bs_bufs ?s c) = the (bs_bufs s c)" if "dropWhile (too_small s sz) bs = c # cs" for c cs
    proof -
      have "c \<in> set bs"
        using that by (metis list.set_intros(1) set_dropWhileD)
      then show ?thesis using p(4) by (auto simp: dropped_def)
    qed
    have "\<not> sz \<le> bi_size (bf_info x)"
      using True x by (simp add: too_small_def not_le)
    then have "get_unused_walk F True g mode sz (b # bs) s = get_unused_walk F True g mode sz bs ?s"
      using x put m by (simp add: get_buf_def)
    then have w: "get_unused_walk F True g mode sz (b # bs) s = (case dropWhile (too_small s sz) bs of [] \<Rightarrow> Inr (None, s1)
        | c # _ \<Rightarrow> Inr (Some c, taken g p1 c (the (bs_bufs s c)) s1))"
      unfolding s1(5)
      using case_hd_cong [where h = "\<lambda>c y. Inr (Some c, taken g p1 c y s1)" and f = "\<lambda>c. the (bs_bufs ?s c)"
          and f' = "\<lambda>c. the (bs_bufs s c)", OF the_eq] by (rule trans)
    have tw': "takeWhile (too_small s sz) (b # bs) = b # takeWhile (too_small s sz) bs"
      "dropWhile (too_small s sz) (b # bs) = dropWhile (too_small s sz) bs"
      using True by simp_all
    show ?thesis
      unfolding tw' w using rel s1(2,4) same_group_trans [OF p(3) s1(3)] by blast
  qed
qed

section \<open>Groups\<close>

lemma srv_change_ok:
  assumes ok: "buf_ok s" and v: "bs_srv s = Some v" and s': "bs_srv s' = Some v'" "bs_groups s' = bs_groups s"
    "bs_bufs s' = bs_bufs s" "bs_next s' = bs_next s" "bs_overflowed s' = bs_overflowed s"
    and v': "sv_finalizing v' = sv_finalizing v" "sv_hash_group v' = sv_hash_group v" "sv_group_id v' = sv_group_id v"
  shows "buf_ok s'"
  using ok v s' v' unfolding buf_ok_def srv_ok_def by auto

text \<open>The fields of a group that the invariant does not mention.\<close>

lemma group_fields_ok:
  assumes ok: "buf_ok s" and g: "bs_groups s g = Some p" and q: "gp_group_id q = gp_group_id p" "gp_mode q = gp_mode p"
    "members q = members p" "gp_list_used q = gp_list_used p" "gp_list_unused q = gp_list_unused p"
    "gp_count_used q = gp_count_used p" "gp_count_unused q = gp_count_unused p" "gp_buffer_count q = gp_buffer_count p"
    "gp_usage q = gp_usage p" "gp_clear_on_exit q = gp_clear_on_exit p" "gp_is_finalizing q = gp_is_finalizing p"
  shows "buf_ok (set_grp g q s)"
proof -
  obtain v where v: "bs_srv s = Some v"
    by (rule srv_obtain [OF ok])
  have gok: "grp_ok (bs_bufs s) q"
    using buf_okD(2) [OF ok g] q unfolding grp_ok_def by (simp add: held_in_def idle_in_def)
  show ?thesis
    by (rule buf_ok_upd [OF ok g v, of _ q v]) (use gok q g in \<open>auto simp: set_grp_def v\<close>)
qed

lemma make_orphan_ok:
  assumes ok: "buf_ok s" and g: "bs_groups s g = Some p"
  shows "\<exists>s'. make_orphan g s = Inr s' \<and> buf_ok s' \<and> bs_groups s' = (bs_groups s)(g \<mapsto> p\<lparr>gp_is_orphan := True\<rparr>) \<and>
    bs_bufs s' = bs_bufs s \<and> bs_next s' = bs_next s \<and> bs_events s' = bs_events s"
proof -
  obtain v where v: "bs_srv s = Some v"
    by (rule srv_obtain [OF ok])
  let ?t = "upd_srv (\<lambda>v. v\<lparr>sv_list_orphan := sv_list_orphan v @ [g]\<rparr>) (upd_srv (\<lambda>v. v\<lparr>sv_list_group := remove1 g (sv_list_group v),
    sv_list_orphan := remove1 g (sv_list_orphan v)\<rparr>) s)"
  have t: "buf_ok ?t"
    by (rule srv_change_ok [OF ok v, where v' = "v\<lparr>sv_list_group := remove1 g (sv_list_group v),
        sv_list_orphan := remove1 g (sv_list_orphan v) @ [g]\<rparr>"]) (simp_all add: upd_srv_def v)
  have "buf_ok (set_grp g (p\<lparr>gp_is_orphan := True\<rparr>) ?t)"
    by (rule group_fields_ok [OF t, of g p]) (simp_all add: upd_srv_def g members_def)
  then show ?thesis
    by (simp add: make_orphan_def get_grp_def g) (simp add: upd_srv_def set_grp_def)
qed

lemma destroy_group_ok:
  assumes ok: "buf_ok s" and g: "bs_groups s g = Some p" and e: "members p = []"
  shows "\<exists>s'. destroy_group g s = Inr s' \<and> buf_ok s' \<and> bs_groups s' = (bs_groups s)(g := None) \<and>
    bs_bufs s' = bs_bufs s \<and> bs_next s' = bs_next s \<and> bs_events s' = bs_events s"
proof -
  obtain v where v: "bs_srv s = Some v" and sv: "srv_ok s v"
    by (rule srv_obtain [OF ok])
  obtain v' where d: "destroy_group g s = Inr (s\<lparr>bs_srv := Some v', bs_groups := (bs_groups s)(g := None)\<rparr>)"
    and v': "sv_finalizing v' = sv_finalizing v" "sv_hash_group v' = remove1 g (sv_hash_group v)" "sv_group_id v' = sv_group_id v"
    by (simp add: destroy_group_def get_grp_def g upd_srv_def v Let_def)
  let ?s = "s\<lparr>bs_srv := Some v', bs_groups := (bs_groups s)(g := None)\<rparr>"
  have "srv_ok ?s v'"
    using sv srv_okD(2,3) [OF sv] unfolding srv_ok_def v' by auto
  moreover have "\<exists>h q. bs_groups ?s h = Some q \<and> b \<in> set (members q)" if "bs_bufs s b = Some x" for b x
  proof -
    obtain h q where h: "bs_groups s h = Some q" "b \<in> set (members q)"
      using buf_okD(3) [OF ok \<open>bs_bufs s b = Some x\<close>] by blast
    then have "h \<noteq> g"
      using e g by auto
    then show ?thesis
      using h by auto
  qed
  ultimately have "buf_ok ?s"
    using ok unfolding buf_ok_def by auto
  then show ?thesis
    using d by simp
qed

text \<open>Returning a group: its unused buffers are released; then it goes, or waits for the others.\<close>

lemma put_group_ok:
  assumes ok: "buf_ok s" and g: "bs_groups s g = Some p" and no: "\<not> gp_is_orphan p"
  shows "\<exists>s1 p1 s'. service_put_group (Suc n) True g s = Inr s' \<and> buf_ok s' \<and> released s s1 g p1 (gp_list_unused p) \<and>
    same_group p p1 \<and> gp_list_unused p1 = [] \<and> bs_bufs s' = bs_bufs s1 \<and> bs_next s' = bs_next s \<and> bs_events s' = bs_events s1 \<and>
    bs_groups s' = (bs_groups s)(g := if gp_list_used p = [] then None else Some (p1\<lparr>gp_is_orphan := True\<rparr>))"
proof -
  obtain s1 p1 where s1: "put_all (service_put_group n True) True g (gp_list_unused p) s = Inr s1" "buf_ok s1"
    "released s s1 g p1 (gp_list_unused p)" "same_group p p1" "gp_list_unused p1 = []"
    using put_all_ok [OF ok g refl no] by blast
  have g1: "bs_groups s1 = (bs_groups s)(g \<mapsto> p1)"
    using s1(3) by (simp add: released_def)
  then have g1': "bs_groups s1 g = Some p1"
    by simp
  have next1: "bs_next s1 = bs_next s"
    using s1(3) by (simp add: released_def)
  have used: "gp_list_used p1 = gp_list_used p"
    using s1(4) by (simp add: same_group_def)
  have nc: "\<not> gp_clear_on_exit p1"
    by (rule grp_okD(10) [OF buf_okD(2) [OF s1(2) g1']])
  have start: "service_put_group (Suc n) True g s = (if gp_list_used p = [] then destroy_group g s1 else make_orphan g s1)"
    using s1(1) g g1' used nc by (simp add: get_grp_def)
  show ?thesis
  proof (cases "gp_list_used p = []")
    case True
    then have "members p1 = []"
      using used s1(5) by (simp add: members_def)
    from destroy_group_ok [OF s1(2) g1' this] obtain s' where "destroy_group g s1 = Inr s'" "buf_ok s'"
      "bs_groups s' = (bs_groups s)(g := None)" "bs_bufs s' = bs_bufs s1" "bs_next s' = bs_next s1" "bs_events s' = bs_events s1"
      by (auto simp: g1)
    then show ?thesis
      using start True s1(3-5) next1
      by (intro exI [of _ s1] exI [of _ p1] exI [of _ s'] conjI) (simp_all del: service_put_group.simps)
  next
    case False
    from make_orphan_ok [OF s1(2) g1'] obtain s' where "make_orphan g s1 = Inr s'" "buf_ok s'"
      "bs_groups s' = (bs_groups s)(g \<mapsto> p1\<lparr>gp_is_orphan := True\<rparr>)" "bs_bufs s' = bs_bufs s1" "bs_next s' = bs_next s1"
      "bs_events s' = bs_events s1"
      by (auto simp: g1)
    then show ?thesis
      using start False s1(3-5) next1
      by (intro exI [of _ s1] exI [of _ p1] exI [of _ s'] conjI) (simp_all del: service_put_group.simps)
  qed
qed

section \<open>References\<close>

definition stays :: "MppBufferGroupImpl \<Rightarrow> MppBufferImpl \<Rightarrow> bool" where
  "stays p x \<longleftrightarrow> \<not> gp_is_misc p \<and> \<not> bf_discard x"

text \<open>The buffer after a reference was given back.\<close>

definition after_put :: "MppBufferGroupImpl \<Rightarrow> MppBufferImpl \<Rightarrow> MppBufferImpl option" where
  "after_put p x = (if bf_ref_count x > 1 then Some (x\<lparr>bf_ref_count := bf_ref_count x - 1\<rparr>)
     else if stays p x then Some (x\<lparr>bf_ref_count := 0, bf_used := False\<rparr>) else None)"

lemma held_buffer:
  assumes ok: "buf_ok s" and b: "bs_bufs s b = Some x" and r: "0 < bf_ref_count x"
  obtains g p where "bs_groups s g = Some p" "b \<in> set (gp_list_used p)" "bf_used x" "bf_group_id x = gp_group_id p"
    "bf_mode x = gp_mode p"
proof -
  obtain g p where g: "bs_groups s g = Some p" "b \<in> set (members p)" "bf_group_id x = gp_group_id p" "bf_mode x = gp_mode p"
    by (rule buf_owner [OF ok b])
  have "b \<notin> set (gp_list_unused p)"
    using grp_okD(3) [OF buf_okD(2) [OF ok g(1)], of b] b r by (auto simp: idle_in_def)
  then have u: "b \<in> set (gp_list_used p)"
    using g(2) by (simp add: members_def)
  then have "bf_used x"
    using used_list_iff(1) [OF buf_okD(2) [OF ok g(1)] g(2) b] by simp
  then show ?thesis
    using that g u by blast
qed

lemma group_callback_ok:
  assumes "buf_ok s" and "bs_groups s g = Some p"
  shows "\<exists>s'. group_callback g s = Inr s' \<and> buf_ok s' \<and> bs_groups s' = bs_groups s \<and> bs_bufs s' = bs_bufs s \<and>
    bs_next s' = bs_next s \<and> bs_srv s' = bs_srv s"
proof -
  have "buf_ok (add_event e s)" for e
    using assms(1) unfolding buf_ok_def srv_ok_def add_event_def by simp
  then show ?thesis
    using assms by (cases "gp_callback p") (simp_all add: group_callback_def get_grp_def add_event_def)
qed

lemma recycled_ok:
  assumes ok: "buf_ok s" and g: "bs_groups s g = Some p" "b \<in> set (gp_list_used p)" and b: "bs_bufs s b = Some y"
  shows "buf_ok (s\<lparr>bs_groups := (bs_groups s)(g \<mapsto> recycle b p),
    bs_bufs := (bs_bufs s)(b \<mapsto> y\<lparr>bf_ref_count := 0, bf_used := False\<rparr>)\<rparr>)"
proof -
  note gok = buf_okD(2) [OF ok g(1)]
  obtain v where v: "bs_srv s = Some v"
    by (rule srv_obtain [OF ok])
  have grp: "grp_ok ((bs_bufs s)(b \<mapsto> y\<lparr>bf_ref_count := 0, bf_used := False\<rparr>)) (recycle b p)"
    by (rule recycle_grp_ok [OF gok g(2) b]) simp_all
  have "set (members (recycle b p)) = set (members p)"
    using g(2) grp_okD(1) [OF gok] by (auto simp: members_def recycle_def)
  then show ?thesis
    by (intro buf_ok_upd [OF ok g(1) v, of _ "recycle b p" v])
      (use grp g in \<open>auto simp: v recycle_def members_def\<close>)
qed

lemma get_group_by_id_cong:
  "bs_srv s' = bs_srv s \<Longrightarrow> bs_groups s' = bs_groups s \<Longrightarrow> get_group_by_id s' i = get_group_by_id s i"
  by (simp add: get_group_by_id_def cong: option.case_cong)

lemma ref_dec_last:
  assumes ok: "buf_ok s" and b: "bs_bufs s b = Some x" "bf_ref_count x = 1" and g: "bs_groups s g = Some p" "b \<in> set (members p)"
  shows "mpp_buffer_ref_dec b s =
    run_bind (service_put_buffer (call_put_group (set_buf b (x\<lparr>bf_ref_count := 0\<rparr>) s) True) True g b (stays p x)
                (set_buf b (x\<lparr>bf_ref_count := 0\<rparr>) s))
      (\<lambda>s. run_bind (group_callback g s) (\<lambda>s. Inr (MPP_OK, s)))"
proof -
  let ?s = "set_buf b (x\<lparr>bf_ref_count := 0\<rparr>) s"
  obtain v where v: "bs_srv s = Some v"
    by (rule srv_obtain [OF ok])
  obtain z where "bs_bufs s b = Some z" "bf_group_id z = gp_group_id p"
    by (rule member_live [OF buf_okD(2) [OF ok g(1)] g(2)])
  then have "bf_group_id x = gp_group_id p"
    using b(1) by simp
  moreover have "search_group True ?s (gp_group_id p) = Some g"
    using search_ok [OF ok g(1)] get_group_by_id_cong [of ?s s] by (simp add: search_group_def set_buf_def)
  moreover have "get_srv_buffer ?s = (True, ?s)"
    using v by (simp add: get_srv_buffer_def set_buf_def)
  moreover have "bs_groups ?s g = Some p"
    using g(1) by (simp add: set_buf_def)
  ultimately show ?thesis
    using b by (simp add: mpp_buffer_ref_dec_def get_buf_def get_grp_def stays_def)
qed

lemma ref_dec_ok:
  assumes ok: "buf_ok s" and b: "bs_bufs s b = Some x" "0 < bf_ref_count x"
    and g: "bs_groups s g = Some p" "b \<in> set (members p)"
    and nl: "\<not> (gp_is_orphan p \<and> members p = [b] \<and> after_put p x = None)"
  shows "\<exists>s'. mpp_buffer_ref_dec b s = Inr (MPP_OK, s') \<and> buf_ok s' \<and> bs_bufs s' = (bs_bufs s)(b := after_put p x) \<and>
    dom (bs_groups s') = dom (bs_groups s) \<and> (\<forall>h. h \<noteq> g \<longrightarrow> bs_groups s' h = bs_groups s h) \<and>
    (\<exists>p'. bs_groups s' g = Some p' \<and> gp_is_orphan p' = gp_is_orphan p \<and> gp_group_id p' = gp_group_id p \<and>
      (if 1 < bf_ref_count x then p' = p else gp_list_used p' = remove1 b (gp_list_used p) \<and>
        gp_list_unused p' = (if stays p x then gp_list_unused p @ [b] else gp_list_unused p)))"
proof (cases "bf_ref_count x = 1")
  case False
  let ?x = "x\<lparr>bf_ref_count := bf_ref_count x - 1\<rparr>"
  have "bf_used x"
    using held_buffer [OF ok b] by blast
  then have "buf_ok (set_buf b ?x s)"
    by (intro set_buf_ok [OF ok b(1)]) (use b(2) False in auto)
  then show ?thesis
    using b False g(1) by (simp add: mpp_buffer_ref_dec_def get_buf_def after_put_def) (simp add: set_buf_def)
next
  case True
  let ?x = "x\<lparr>bf_ref_count := 0\<rparr>"
  let ?s = "set_buf b ?x s"
  obtain h q where "bs_groups s h = Some q" "b \<in> set (gp_list_used q)" and used: "bf_used x"
    by (rule held_buffer [OF ok b])
  then have u: "b \<in> set (gp_list_used p)"
    using owner_unique [OF ok g, of h q] g by (auto simp: members_def)
  obtain v where v: "bs_srv s = Some v"
    by (rule srv_obtain [OF ok])
  have gs: "bs_groups ?s g = Some p"
    using g(1) by (simp add: set_buf_def)
  have nu: "remove1 b (gp_list_unused p) = gp_list_unused p"
    using u grp_okD(1) [OF buf_okD(2) [OF ok g(1)]] by (auto simp: members_def intro: remove1_idem)
  note main = ref_dec_last [OF ok b(1) True g]
  obtain t q where put: "service_put_buffer (call_put_group ?s True) True g b (stays p x) ?s = Inr t" and t: "buf_ok t"
    "bs_groups t = (bs_groups s)(g \<mapsto> q)" "bs_bufs t = (bs_bufs s)(b := after_put p x)"
    "gp_is_orphan q = gp_is_orphan p" "gp_group_id q = gp_group_id p" "gp_list_used q = remove1 b (gp_list_used p)"
    "gp_list_unused q = (if stays p x then gp_list_unused p @ [b] else gp_list_unused p)"
  proof (cases "stays p x")
    case st: True
    have a: "alone_in ?s g b"
      using alone_inI [OF ok g] by (simp add: alone_in_def set_buf_def)
    have "service_put_buffer (call_put_group ?s True) True g b True ?s = Inr (s\<lparr>bs_groups := (bs_groups s)(g \<mapsto> recycle b p),
        bs_bufs := (bs_bufs s)(b \<mapsto> x\<lparr>bf_ref_count := 0, bf_used := False\<rparr>)\<rparr>)"
      using put_reuse_eq [OF _ _ gs a, of ?x] used by (simp add: set_buf_def)
    then show ?thesis
      using that [OF _ recycled_ok [OF ok g(1) u b(1)]] st True nu by (simp add: after_put_def recycle_def)
  next
    case ns: False
    then have none: "after_put p x = None"
      using True by (simp add: after_put_def)
    have "gp_usage (drop_buf b ?x p) = 0 \<longleftrightarrow> members p = [b]"
      by (rule usage_drop_zero [OF buf_okD(2) [OF ok g(1)] g(2) b(1)]) simp_all
    then have nd: "\<not> (gp_is_orphan p \<and> gp_usage (drop_buf b ?x p) = 0)"
      using nl none by blast
    have "buf_ok (dropped g p v b ?x s)"
      by (rule dropped_ok [OF ok g b(1) v]) simp_all
    then show ?thesis
      using that [OF _ \<open>buf_ok (dropped g p v b ?x s)\<close>] release_eq [OF ok g v nd] ns none nu by (simp add: dropped_def)
  qed
  obtain s' where "group_callback g t = Inr s'" "buf_ok s'" "bs_groups s' = bs_groups t" "bs_bufs s' = bs_bufs t"
    using group_callback_ok [OF t(1), of g q] t(2) by auto
  then show ?thesis
    using main put t(2-7) g(1) True by auto
qed

text \<open>The last buffer of an orphan group, if it does not stay: its group is released first and then used.\<close>

lemma ref_dec_orphan_faults:
  assumes ok: "buf_ok s" and b: "bs_bufs s b = Some x" and g: "bs_groups s g = Some p" "b \<in> set (members p)"
    and last: "gp_is_orphan p" "members p = [b]" "bf_ref_count x = 1" "\<not> stays p x"
  shows "mpp_buffer_ref_dec b s = Inl Freed_Access"
proof -
  let ?x = "x\<lparr>bf_ref_count := 0\<rparr>"
  let ?s = "set_buf b ?x s"
  note gok = buf_okD(2) [OF ok g(1)]
  obtain v where v: "bs_srv s = Some v"
    by (rule srv_obtain [OF ok])
  have gs: "bs_groups ?s g = Some p" and bs: "bs_bufs ?s b = Some ?x" and vs: "bs_srv ?s = Some v"
    using g(1) v by (simp_all add: set_buf_def)
  have a: "alone_in ?s g b"
    using alone_inI [OF ok g] by (simp add: alone_in_def set_buf_def)
  have main: "mpp_buffer_ref_dec b s = run_bind (service_put_buffer (call_put_group ?s True) True g b False ?s)
      (\<lambda>s. run_bind (group_callback g s) (\<lambda>s. Inr (MPP_OK, s)))"
    using ref_dec_last [OF ok b last(3) g] last(4) by simp
  have zero: "gp_usage (drop_buf b ?x p) = 0"
    using usage_drop_zero [OF gok g(2) b, of ?x] last(2) by simp
  let ?t = "?s\<lparr>bs_groups := (bs_groups ?s)(g \<mapsto> drop_buf b ?x p), bs_bufs := (bs_bufs ?s)(b \<mapsto> ?x\<lparr>bf_maps := []\<rparr>),
    bs_srv := Some (drop_total ?x p v)\<rparr>"
  have acc: "put_account g b (set_buf b (?x\<lparr>bf_maps := []\<rparr>) (set_grp g (del_status b p) ?s)) = Inr (True, ?t)"
    using put_account_eq [OF bs gs vs] last(1) zero grp_okD(11) [OF gok] by (simp add: set_buf_def set_grp_def)
  have empty: "gp_list_unused (drop_buf b ?x p) = []" "gp_list_used (drop_buf b ?x p) = []"
    using last(2) by (auto simp: members_def append_eq_Cons_conv)
  have tg: "bs_groups ?t g = Some (drop_buf b ?x p)" and tb: "bs_bufs ?t b = Some (?x\<lparr>bf_maps := []\<rparr>)"
    by simp_all
  obtain t' where d: "destroy_group g ?t = Inr t'" and t': "bs_groups t' g = None" "bs_bufs t' = bs_bufs ?t"
    using tg by (simp add: destroy_group_def get_grp_def upd_srv_def Let_def)
  have "call_put_group ?s True g ?t = Inr t'"
    unfolding call_put_group_def using d tg empty by (simp add: get_grp_def)
  moreover have "bs_bufs (set_grp g (del_status b p) ?s) b = Some ?x"
    by (simp add: set_buf_def set_grp_def)
  moreover have "\<exists>t2. put_release b i ms (set_buf b y t') = Inr t2 \<and> bs_groups t2 g = None" for i ms y
    using t'(1) by (simp add: put_release_def get_buf_def set_buf_def fold_add_event add_event_def)
  ultimately obtain t2 where "service_put_buffer (call_put_group ?s True) True g b False ?s = Inr t2" "bs_groups t2 g = None"
    using acc bs t'(2) tb by (fastforce simp: service_put_buffer_def list_del_status_eq [OF gs a] get_buf_def Let_def)
  then show ?thesis
    by (simp add: main group_callback_def get_grp_def)
qed

lemma ref_inc_ok:
  assumes ok: "buf_ok s" and b: "bs_bufs s b = Some x" "0 < bf_ref_count x"
  shows "mpp_buffer_ref_inc b s = Inr (MPP_OK, set_buf b (x\<lparr>bf_ref_count := bf_ref_count x + 1\<rparr>) s)"
    and "buf_ok (set_buf b (x\<lparr>bf_ref_count := bf_ref_count x + 1\<rparr>) s)"
proof -
  have u: "bf_used x"
    using held_buffer [OF ok b] by blast
  then show "mpp_buffer_ref_inc b s = Inr (MPP_OK, set_buf b (x\<lparr>bf_ref_count := bf_ref_count x + 1\<rparr>) s)"
    using b by (simp add: mpp_buffer_ref_inc_def inc_buffer_ref_def get_buf_def Let_def)
  show "buf_ok (set_buf b (x\<lparr>bf_ref_count := bf_ref_count x + 1\<rparr>) s)"
    by (rule set_buf_ok [OF ok b(1)]) (use u b in auto)
qed

lemma discard_ok:
  assumes ok: "buf_ok s" and b: "bs_bufs s b = Some x"
  shows "mpp_buffer_discard b s = Inr (MPP_OK, set_buf b (x\<lparr>bf_discard := True\<rparr>) s)"
    and "buf_ok (set_buf b (x\<lparr>bf_discard := True\<rparr>) s)"
proof -
  obtain g p where g: "bs_groups s g = Some p" "b \<in> set (members p)" "bf_group_id x = gp_group_id p"
    by (rule buf_owner [OF ok b])
  then show "mpp_buffer_discard b s = Inr (MPP_OK, set_buf b (x\<lparr>bf_discard := True\<rparr>) s)"
    using search_ok [OF ok g(1)] by (simp add: mpp_buffer_discard_def get_srv_ok [OF ok] get_buf_def b)
  have "if bf_used x then 0 < bf_ref_count x else bf_ref_count x = 0"
    using grp_okD(2,3) [OF buf_okD(2) [OF ok g(1)], of b] g(2) b by (auto simp: members_def held_in_def idle_in_def)
  then show "buf_ok (set_buf b (x\<lparr>bf_discard := True\<rparr>) s)"
    by (intro set_buf_ok [OF ok b]) simp_all
qed

section \<open>Making buffers\<close>

text \<open>What is relied on of the environment: allocators keep the size, and the debug flag that releases
  the buffers of a returned group is off.\<close>

definition env_ok :: "buf_env \<Rightarrow> bool" where
  "env_ok env \<longleftrightarrow> (\<forall>a i j. ev_alloc env a i = Some j \<longrightarrow> bi_size j = bi_size i) \<and>
     (\<forall>a i j. ev_import env a i = Some j \<longrightarrow> bi_size j = bi_size i) \<and>
     (\<forall>a i. bi_size (snd (ev_mmap env a i)) = bi_size i) \<and> ev_debug env AND MPP_BUF_DBG_CLR_ON_EXIT = 0"

lemma add_buf_sel [simp]:
  "gp_group_id (add_buf b info want p) = gp_group_id p" "gp_callback (add_buf b info want p) = gp_callback p"
  "gp_is_orphan (add_buf b info want p) = gp_is_orphan p" "gp_is_misc (add_buf b info want p) = gp_is_misc p"
  "gp_mode (add_buf b info want p) = gp_mode p"
  by (simp_all add: add_buf_def)

lemma created_ok:
  assumes ok: "buf_ok s" and g: "bs_groups s g = Some p" and sz: "size_ok (bi_size info)" and n: "gp_buffer_count p < 2 ^ 31 - 1"
  shows "buf_ok (create_buffer g p info want s)"
proof -
  obtain v where v: "bs_srv s = Some v"
    by (rule srv_obtain [OF ok])
  have fresh: "bs_bufs s (bs_next s) = None"
    using buf_okD(4) [OF ok, of "bs_next s"] by (cases "bs_bufs s (bs_next s)") auto
  have grp: "grp_ok ((bs_bufs s)(bs_next s \<mapsto> new_buf p info want)) (add_buf (bs_next s) info want p)"
    by (rule add_grp_ok [OF buf_okD(2) [OF ok g] fresh sz n])
  have m: "set (members (add_buf (bs_next s) info want p)) = insert (bs_next s) (set (members p))"
    by (auto simp: members_def add_buf_def)
  show ?thesis
    unfolding create_buffer_eq
    by (rule buf_ok_upd [OF ok g v, of _ "add_buf (bs_next s) info want p" v])
      (use grp m fresh in \<open>auto simp: v\<close>)
qed

lemma account_total_ok:
  assumes ok: "buf_ok s"
  shows "buf_ok (account_total p info s)" and "bs_groups (account_total p info s) = bs_groups s"
    and "bs_bufs (account_total p info s) = bs_bufs s" and "bs_next (account_total p info s) = bs_next s"
proof -
  obtain v where v: "bs_srv s = Some v"
    by (rule srv_obtain [OF ok])
  let ?v = "\<lambda>v. let total = sv_total_size v + ucast (bi_size info)
    in v\<lparr>sv_total_size := total, sv_total_max := max total (sv_total_max v)\<rparr>"
  have eq: "account_total p info s = (if gp_mode p = MPP_BUFFER_INTERNAL then upd_srv ?v s else s)"
    by (simp add: account_total_def get_srv_ok [OF ok])
  have "buf_ok (upd_srv ?v s)"
    by (rule srv_change_ok [OF ok v, where v' = "?v v"]) (simp_all add: upd_srv_def v Let_def)
  then show "buf_ok (account_total p info s)" "bs_groups (account_total p info s) = bs_groups s"
    "bs_bufs (account_total p info s) = bs_bufs s" "bs_next (account_total p info s) = bs_next s"
    using ok by (simp_all add: eq) (simp_all add: upd_srv_def)
qed

text \<open>The limits of the group, the pool and the allocator decide whether a buffer is made.\<close>

definition create_succeeds :: "buf_env \<Rightarrow> nat \<Rightarrow> MppBufferGroupImpl \<Rightarrow> MppBufferInfo \<Rightarrow> MppBufferInfo option" where
  "create_succeeds env n p info =
     (if gp_limit_count p \<noteq> 0 \<and> gp_buffer_count p \<ge> gp_limit_count p
        \<or> gp_limit_size p \<noteq> 0 \<and> bi_size info > gp_limit_size p \<or> \<not> ev_pool_get env n then None
      else (if gp_mode p = MPP_BUFFER_INTERNAL then ev_alloc env else ev_import env) (gp_allocator p) info)"

lemma create_ok:
  assumes env: "env_ok env" and ok: "buf_ok s" and g: "bs_groups s g = Some p" and sz: "size_ok (bi_size info)"
    and n: "gp_buffer_count p < 2 ^ 31 - 1"
  shows "\<exists>ret s'. mpp_buffer_create env (Some g) info want s =
      Inr (ret, if want \<and> ret = MPP_OK then Some (bs_next s) else None, s') \<and> buf_ok s' \<and>
    (case create_succeeds env (bs_next s) p info of
       None \<Rightarrow> ret \<noteq> MPP_OK \<and> s' = s
     | Some i \<Rightarrow> ret = MPP_OK \<and> bi_size i = bi_size info \<and> bs_bufs s' = (bs_bufs s)(bs_next s \<mapsto> new_buf p i want) \<and>
         bs_groups s' = (bs_groups s)(g \<mapsto> add_buf (bs_next s) i want p) \<and> bs_next s' = bs_next s + 1)"
proof (cases "create_succeeds env (bs_next s) p info")
  case None
  then show ?thesis
    using g ok by (auto simp: mpp_buffer_create_def get_grp_def create_succeeds_def split: if_splits)
next
  case (Some i)
  have isz: "bi_size i = bi_size info"
    using Some env by (auto simp: create_succeeds_def env_ok_def split: if_splits)
  let ?t = "account_total p i (create_buffer g p i want s)"
  have c: "buf_ok (create_buffer g p i want s)"
    by (rule created_ok [OF ok g _ n]) (simp add: isz sz)
  have t: "buf_ok ?t" "bs_groups ?t = (bs_groups s)(g \<mapsto> add_buf (bs_next s) i want p)"
    "bs_bufs ?t = (bs_bufs s)(bs_next s \<mapsto> new_buf p i want)" "bs_next ?t = bs_next s + 1"
    using account_total_ok [OF c] by (simp_all add: create_buffer_eq)
  then have "bs_groups ?t g = Some (add_buf (bs_next s) i want p)"
    by simp
  from group_callback_ok [OF t(1) this] obtain s' where s': "group_callback g ?t = Inr s'" "buf_ok s'"
    "bs_groups s' = bs_groups ?t" "bs_bufs s' = bs_bufs ?t" "bs_next s' = bs_next ?t"
    by auto
  have "mpp_buffer_create env (Some g) info want s = Inr (MPP_OK, if want then Some (bs_next s) else None, s')"
    using Some g s'(1) by (auto simp: mpp_buffer_create_def get_grp_def create_succeeds_def split: if_splits)
  then show ?thesis
    using s' t(2-4) Some isz by auto
qed

text \<open>Requesting a buffer: it was held by nobody, it is large enough, it has one reference, and the buffers
  in use are left alone.\<close>

definition fresh_buffer :: "buf_state \<Rightarrow> buf_state \<Rightarrow> u64 \<Rightarrow> nat \<Rightarrow> bool" where
  "fresh_buffer s s' sz b \<longleftrightarrow> (\<forall>x. bs_bufs s b = Some x \<longrightarrow> bf_ref_count x = 0) \<and>
     (\<exists>y. bs_bufs s' b = Some y \<and> bf_ref_count y = 1 \<and> sz \<le> bi_size (bf_info y))"

definition held_kept :: "buf_state \<Rightarrow> buf_state \<Rightarrow> bool" where
  "held_kept s s' \<longleftrightarrow> (\<forall>c x. bs_bufs s c = Some x \<longrightarrow> 0 < bf_ref_count x \<longrightarrow> bs_bufs s' c = Some x)"

lemma held_keptI:
  "(\<And>c x. bs_bufs s c = Some x \<Longrightarrow> 0 < bf_ref_count x \<Longrightarrow> bs_bufs s' c = Some x) \<Longrightarrow> held_kept s s'"
  by (simp add: held_kept_def)

lemma taken_fresh:
  assumes ok: "buf_ok s" and g: "bs_groups s g = Some p" "b \<in> set (gp_list_unused p)" and big: "\<not> too_small s sz b"
  shows "fresh_buffer s (taken g p b (the (bs_bufs s b)) s) sz b" and "held_kept s (taken g p b (the (bs_bufs s b)) s)"
    and "bs_bufs s b = Some x \<Longrightarrow> bf_ref_count x = 0"
proof -
  obtain x where x: "bs_bufs s b = Some x" "bf_ref_count x = 0"
    using grp_okD(3) [OF buf_okD(2) [OF ok g(1)] g(2)] by (auto simp: idle_in_def)
  then show "fresh_buffer s (taken g p b (the (bs_bufs s b)) s) sz b" "held_kept s (taken g p b (the (bs_bufs s b)) s)"
    using big by (auto simp: fresh_buffer_def taken_def too_small_def held_kept_def)
  show "bf_ref_count x = 0" if "bs_bufs s b = Some x" for x
    using that x by simp
qed

text \<open>What a call on one group leaves alone.\<close>

definition only_group :: "nat \<Rightarrow> MppBufferGroupImpl \<Rightarrow> buf_state \<Rightarrow> buf_state \<Rightarrow> bool" where
  "only_group g p s s' \<longleftrightarrow> (\<forall>h. h \<noteq> g \<longrightarrow> bs_groups s' h = bs_groups s h) \<and>
     (\<forall>c. c \<notin> set (members p) \<longrightarrow> c < bs_next s \<longrightarrow> bs_bufs s' c = bs_bufs s c) \<and> bs_next s \<le> bs_next s'"

lemma only_group_refl [simp]: "only_group g p s s"
  by (simp add: only_group_def)

lemma only_group_trans:
  "only_group g p s s1 \<Longrightarrow> only_group g p1 s1 s2 \<Longrightarrow> set (members p1) \<subseteq> set (members p) \<Longrightarrow> only_group g p s s2"
  unfolding only_group_def by (metis (no_types, lifting) less_le_trans order_trans subsetD)

lemma released_only: "released s s' g p' bs \<Longrightarrow> set bs \<subseteq> set (members p) \<Longrightarrow> only_group g p s s'"
  by (auto simp: released_def only_group_def)

lemma taken_only: "b \<in> set (members p) \<Longrightarrow> only_group g p s (taken g p b x s)"
  by (auto simp: taken_def only_group_def)

lemma buf_get_unused_ok:
  assumes ok: "buf_ok s" and g: "bs_groups s g = Some p" and no: "\<not> gp_is_orphan p"
  shows "\<exists>r s'. mpp_buffer_get_unused g sz s = Inr (r, s') \<and> buf_ok s' \<and> held_kept s s' \<and> only_group g p s s' \<and>
    (case r of
       None \<Rightarrow> (\<forall>b\<in>set (gp_list_unused p). too_small s sz b) \<and>
         (\<exists>p'. bs_groups s' g = Some p' \<and> same_group p p' \<and> set (members p') \<subseteq> set (members p)) \<and>
         (\<forall>c. bs_bufs s c = None \<longrightarrow> bs_bufs s' c = None) \<and> bs_next s' = bs_next s
     | Some b \<Rightarrow> b \<in> set (gp_list_unused p) \<and> fresh_buffer s s' sz b \<and> (\<exists>p'. bs_groups s' g = Some p'))"
proof -
  let ?bs = "gp_list_unused p" and ?F = "call_put_group s True"
  let ?d = "dropWhile (too_small s sz) ?bs"
  have start: "mpp_buffer_get_unused g sz s = get_unused_walk ?F True g (gp_mode p) sz ?bs s"
    using g by (simp add: mpp_buffer_get_unused_def get_grp_def get_srv_ok [OF ok])
  have small: "\<forall>b\<in>set ?bs. too_small s sz b" if "?d = []"
    using that by simp
  have hd: "b \<in> set ?bs \<and> \<not> too_small s sz b" if "?d = b # cs" for b cs
    using that by (metis dropWhile_eq_Cons_conv in_set_conv_decomp)
  show ?thesis
  proof (cases "gp_mode p = MPP_BUFFER_INTERNAL")
    case False
    have w: "get_unused_walk ?F True g (gp_mode p) sz ?bs s =
        (case ?d of [] \<Rightarrow> Inr (None, s) | b # _ \<Rightarrow> Inr (Some b, taken g p b (the (bs_bufs s b)) s))"
      by (rule walk_external [OF ok g subset_refl False])
    show ?thesis
    proof (cases ?d)
      case Nil
      then show ?thesis
        unfolding start w Nil using ok small [OF Nil] g by (simp add: held_kept_def)
    next
      case (Cons b cs)
      note b = hd [OF Cons]
      obtain x where x: "bs_bufs s b = Some x"
        using grp_okD(3) [OF buf_okD(2) [OF ok g], of b] b by auto
      show ?thesis
        unfolding start w Cons using taken_ok [OF ok g _ x] taken_fresh(1,2) [OF ok g, of b sz] b x
        taken_only [of b p g s x] by (simp add: members_def) (simp add: taken_def)
    qed
  next
    case True
    obtain s1 p1 where s1: "released s s1 g p1 (takeWhile (too_small s sz) ?bs)" "buf_ok s1" "same_group p p1"
      "gp_list_unused p1 = ?d" "get_unused_walk ?F True g (gp_mode p) sz ?bs s =
      (case ?d of [] \<Rightarrow> Inr (None, s1) | b # _ \<Rightarrow> Inr (Some b, taken g p1 b (the (bs_bufs s b)) s1))"
      using walk_internal [OF ok g refl no True] by blast
    have bufs1: "bs_bufs s1 c = (if c \<in> set (takeWhile (too_small s sz) ?bs) then None else bs_bufs s c)" for c
      using s1(1) by (simp add: released_def)
    have next1: "bs_next s1 = bs_next s" and g1: "bs_groups s1 g = Some p1"
      using s1(1) by (simp_all add: released_def)
    have "set (takeWhile (too_small s sz) ?bs) \<subseteq> set (members p)"
      using set_takeWhileD by (fastforce simp: members_def)
    then have only1: "only_group g p s s1"
      by (rule released_only [OF s1(1)])
    have sub1: "set (members p1) \<subseteq> set (members p)"
      using s1(3,4) set_dropWhileD by (fastforce simp: members_def same_group_def)
    have kept1: "held_kept s s1"
    proof (rule held_keptI)
      fix c x assume c: "bs_bufs s c = Some x" "0 < bf_ref_count x"
      have "c \<notin> set ?bs"
        using grp_okD(3) [OF buf_okD(2) [OF ok g], of c] c by (auto simp: idle_in_def)
      then show "bs_bufs s1 c = Some x"
        using c(1) bufs1 by (auto dest: set_takeWhileD)
    qed
    show ?thesis
    proof (cases ?d)
      case Nil
      then show ?thesis
        unfolding start s1(5) Nil using s1(2,3) small [OF Nil] kept1 g1 next1 only1 sub1 by (auto simp: bufs1)
    next
      case (Cons b cs)
      note b = hd [OF Cons]
      have nb: "b \<notin> set (takeWhile (too_small s sz) ?bs)"
        using b set_takeWhileD by fastforce
      then have same: "bs_bufs s1 b = bs_bufs s b"
        by (simp add: bufs1)
      have u1: "b \<in> set (gp_list_unused p1)"
        using s1(4) Cons by simp
      obtain x where x: "bs_bufs s1 b = Some x"
        using grp_okD(3) [OF buf_okD(2) [OF s1(2) g1] u1] by auto
      have big: "\<not> too_small s1 sz b"
        using b same by (simp add: too_small_def)
      have "held_kept s (taken g p1 b (the (bs_bufs s1 b)) s1)"
        using kept1 taken_fresh(2) [OF s1(2) g1 u1 big] by (simp add: held_kept_def)
      moreover have "fresh_buffer s (taken g p1 b (the (bs_bufs s1 b)) s1) sz b"
        using taken_fresh(1) [OF s1(2) g1 u1 big] same by (simp add: fresh_buffer_def)
      ultimately show ?thesis
        unfolding start s1(5) Cons using taken_ok [OF s1(2) g1 u1 x] b x same
          only_group_trans [OF only1 taken_only sub1, of b x] u1 by (simp add: members_def) (simp add: taken_def)
    qed
  qed
qed

end
