(* ===== verification/Mpp_Buffer_Run.thy ===== *)
theory Mpp_Buffer_Run
  imports Mpp_Buffer_Ops
begin

text \<open>
  Buffer groups at run time: the calls of a user who keeps the rules of the interface, the invariant of
  every state they reach, what a request and the return of a group deliver, and two defects of groups
  that are returned while their buffers are still in use.
\<close>

section \<open>Requests\<close>

lemma get_with_tag_ok:
  assumes env: "env_ok env" and ok: "buf_ok s" and g: "bs_groups s g = Some p" and no: "\<not> gp_is_orphan p"
    and sz: "size_ok sz" and n: "gp_buffer_count p < 2 ^ 31 - 1"
  shows "\<exists>r s'. mpp_buffer_get_with_tag env (Some g) True sz s = Inr (if r = None then MPP_NOK else MPP_OK, r, s') \<and>
    buf_ok s' \<and> held_kept s s' \<and> only_group g p s s' \<and>
    (case r of
       None \<Rightarrow> (\<forall>b\<in>set (gp_list_unused p). too_small s sz b)
     | Some b \<Rightarrow> fresh_buffer s s' sz b)"
proof -
  have nz: "sz \<noteq> 0"
    using sz by (auto simp: size_ok_def)
  obtain r s1 where s1: "mpp_buffer_get_unused g sz s = Inr (r, s1)" "buf_ok s1" "held_kept s s1"
    "case r of None \<Rightarrow> (\<forall>b\<in>set (gp_list_unused p). too_small s sz b) \<and>
         (\<exists>p'. bs_groups s1 g = Some p' \<and> same_group p p' \<and> set (members p') \<subseteq> set (members p)) \<and>
         (\<forall>c. bs_bufs s c = None \<longrightarrow> bs_bufs s1 c = None) \<and> bs_next s1 = bs_next s
     | Some b \<Rightarrow> b \<in> set (gp_list_unused p) \<and> fresh_buffer s s1 sz b \<and> (\<exists>p'. bs_groups s1 g = Some p')"
    "only_group g p s s1"
    using buf_get_unused_ok [OF ok g no] by blast
  show ?thesis
  proof (cases r)
    case (Some b)
    then have fr: "fresh_buffer s s1 sz b" and "\<exists>q. bs_groups s1 g = Some q"
      using s1(4) by auto
    then show ?thesis
      using nz s1 Some fr by (auto simp: mpp_buffer_get_with_tag_def get_grp_def)
  next
    case None
    then obtain q where q: "bs_groups s1 g = Some q" "same_group p q" "set (members q) \<subseteq> set (members p)"
      using s1(4) by auto
    let ?i = "\<lparr>bi_type = gp_type q, bi_size = sz, bi_ptr = None, bi_hnd = None, bi_fd = - 1, bi_index = - 1\<rparr>"
    show ?thesis
    proof (cases "gp_mode q = MPP_BUFFER_INTERNAL")
      case False
      then show ?thesis
        using nz s1 None q by (auto simp: mpp_buffer_get_with_tag_def get_grp_def)
    next
      case True
      have "gp_buffer_count q < 2 ^ 31 - 1"
        using q(2) n by (simp add: same_group_def)
      from create_ok [OF env s1(2) q(1) _ this, of ?i True] obtain ret s2 where
        c: "mpp_buffer_create env (Some g) ?i True s1 = Inr (ret, if ret = MPP_OK then Some (bs_next s1) else None, s2)"
        "buf_ok s2" "case create_succeeds env (bs_next s1) q ?i of
          None \<Rightarrow> ret \<noteq> MPP_OK \<and> s2 = s1
        | Some i \<Rightarrow> ret = MPP_OK \<and> bi_size i = bi_size ?i \<and> bs_bufs s2 = (bs_bufs s1)(bs_next s1 \<mapsto> new_buf q i True) \<and>
            bs_groups s2 = (bs_groups s1)(g \<mapsto> add_buf (bs_next s1) i True q) \<and> bs_next s2 = bs_next s1 + 1"
        using sz by auto
      have run: "mpp_buffer_get_with_tag env (Some g) True sz s =
          Inr (if ret = MPP_OK then MPP_OK else MPP_NOK, if ret = MPP_OK then Some (bs_next s1) else None, s2)"
        using nz s1(1) None q(1) True c(1) by (simp add: mpp_buffer_get_with_tag_def get_grp_def)
      show ?thesis
      proof (cases "create_succeeds env (bs_next s1) q ?i")
        case no_buf: None
        then show ?thesis
          using run c s1 None by auto
      next
        case (Some i)
        have none: "bs_bufs s (bs_next s1) = None"
          using s1(4) None buf_okD(4) [OF ok, of "bs_next s"] by (cases "bs_bufs s (bs_next s)") auto
        have "fresh_buffer s s2 sz (bs_next s1)"
          using Some c(3) none by (simp add: fresh_buffer_def new_buf_def)
        moreover have "held_kept s s2"
          using s1(3) Some c(3) none by (auto simp: held_kept_def)
        moreover have "only_group g q s1 s2"
          using c(3) Some by (auto simp: only_group_def)
        then have "only_group g p s s2"
          by (rule only_group_trans [OF s1(5) _ q(3)])
        ultimately show ?thesis
          using run c(2) Some c(3) by auto
      qed
    qed
  qed
qed

section \<open>New groups\<close>

text \<open>A group identifier is in use if a group has it. The search after an overflow finds a free one.\<close>

lemma group_id_used:
  assumes ok: "buf_ok s"
  shows "get_group_by_id s i \<noteq> None \<longleftrightarrow> (\<exists>g p. bs_groups s g = Some p \<and> gp_group_id p = i)"
proof
  assume "get_group_by_id s i \<noteq> None"
  then show "\<exists>g p. bs_groups s g = Some p \<and> gp_group_id p = i"
    by (auto simp: get_group_by_id_def find_Some_iff split: option.splits)
next
  assume "\<exists>g p. bs_groups s g = Some p \<and> gp_group_id p = i"
  then show "get_group_by_id s i \<noteq> None"
    using group_found [OF ok] by auto
qed

lemma free_group_id_finds:
  "\<exists>j<k. get_group_by_id s (i + of_nat j) = None \<Longrightarrow> get_group_by_id s (free_group_id k s i) = None"
proof (induction k arbitrary: i)
  case (Suc k)
  then obtain j where j: "j < Suc k" "get_group_by_id s (i + of_nat j) = None"
    by blast
  show ?case
  proof (cases "get_group_by_id s i")
    case (Some h)
    then obtain j' where "j = Suc j'"
      using j by (cases j) auto
    then have "\<exists>j<k. get_group_by_id s (i + 1 + of_nat j) = None"
      using j by (intro exI [of _ j']) (simp add: add.assoc)
    then show ?thesis
      using Suc.IH [of "i + 1"] Some by simp
  qed simp
qed simp

lemma free_group_id_ok:
  assumes ok: "buf_ok s" and v: "bs_srv s = Some v" and n: "length (sv_hash_group v) < 2 ^ 32 - 1"
  shows "get_group_by_id s (free_group_id (Suc (length (sv_hash_group v))) s i) = None"
proof (rule free_group_id_finds, rule ccontr)
  let ?n = "length (sv_hash_group v)" and ?ids = "(\<lambda>g. gp_group_id (the (bs_groups s g))) ` set (sv_hash_group v)"
  assume "\<not> (\<exists>j<Suc ?n. get_group_by_id s (i + of_nat j) = None)"
  then have used: "\<exists>g p. bs_groups s g = Some p \<and> gp_group_id p = i + of_nat j" if "j < Suc ?n" for j
    using that group_id_used [OF ok] by blast
  have dom: "set (sv_hash_group v) = dom (bs_groups s)"
    using srv_obtain [OF ok] v srv_okD(3) by (metis option.inject)
  have "(\<lambda>j. i + of_nat j) ` {..<Suc ?n} \<subseteq> ?ids"
  proof
    fix x assume "x \<in> (\<lambda>j. i + of_nat j) ` {..<Suc ?n}"
    then obtain j where "j < Suc ?n" and xj: "x = i + of_nat j"
      by auto
    then obtain g p where "bs_groups s g = Some p" "gp_group_id p = x"
      using used [of j] by auto
    then show "x \<in> ?ids"
      by (auto simp: dom intro!: image_eqI [of _ _ g])
  qed
  then have "card ((\<lambda>j. i + of_nat j) ` {..<Suc ?n}) \<le> card ?ids"
    by (rule card_mono [rotated]) simp
  also have "\<dots> \<le> card (set (sv_hash_group v))"
    by (rule card_image_le) simp
  also have "\<dots> \<le> ?n"
    by (rule card_length)
  finally have "card ((\<lambda>j. i + of_nat j :: u32) ` {..<Suc ?n}) \<le> ?n" .
  moreover have "inj_on (\<lambda>j. i + of_nat j :: u32) {..<Suc ?n}"
  proof (rule inj_onI)
    fix a b assume ab: "a \<in> {..<Suc ?n}" "b \<in> {..<Suc ?n}" "i + of_nat a = (i + of_nat b :: u32)"
    have "unat (of_nat a :: u32) = a" "unat (of_nat b :: u32) = b"
      using ab(1,2) n by (simp_all add: unsigned_of_nat take_bit_nat_eq_self)
    then show "a = b"
      using ab(3) by (metis add_left_cancel)
  qed
  ultimately show False
    by (simp add: card_image)
qed

text \<open>The identifier of a new group is not in use.\<close>

lemma get_group_id_ok:
  assumes ok: "buf_ok s" and v: "bs_srv s = Some v" and n: "length (sv_hash_group v) < 2 ^ 32 - 1"
  shows "\<exists>i v' o'. service_get_group_id s = (i, s\<lparr>bs_srv := Some v', bs_overflowed := o'\<rparr>) \<and>
    sv_finalizing v' = sv_finalizing v \<and> sv_hash_group v' = sv_hash_group v \<and> sv_list_group v' = sv_list_group v \<and>
    (\<forall>g p. bs_groups s g = Some p \<longrightarrow> gp_group_id p \<noteq> i) \<and>
    (\<not> o' \<longrightarrow> \<not> bs_overflowed s \<and> sv_group_id v \<noteq> 0 \<and> i = sv_group_id v \<and> sv_group_id v' = sv_group_id v + 1)"
proof (cases "\<not> bs_overflowed s \<and> sv_group_id v \<noteq> 0")
  case True
  have "gp_group_id p < sv_group_id v" if "bs_groups s g = Some p" for g p
    using srv_obtain [OF ok] v srv_okD(5) [OF _ _ _ that] True by (metis option.inject)
  then have "\<forall>g p. bs_groups s g = Some p \<longrightarrow> gp_group_id p \<noteq> sv_group_id v"
    by (metis less_irrefl)
  moreover have "service_get_group_id s = (sv_group_id v, s\<lparr>bs_srv := Some (v\<lparr>sv_group_id := sv_group_id v + 1,
      sv_group_count := sv_group_count v + 1\<rparr>), bs_overflowed := False\<rparr>)"
    using True v by (cases s) (simp add: service_get_group_id_def upd_srv_def)
  ultimately show ?thesis
    using True by (intro exI [of _ "sv_group_id v"] exI [of _ False] exI [of _ "v\<lparr>sv_group_id := sv_group_id v + 1,
      sv_group_count := sv_group_count v + 1\<rparr>"]) simp
next
  case False
  let ?first = "if bs_overflowed s then sv_group_id v else 1"
  let ?i = "free_group_id (Suc (length (sv_hash_group v))) s ?first"
  have "get_group_by_id s ?i = None"
    by (rule free_group_id_ok [OF ok v n])
  then have "\<forall>g p. bs_groups s g = Some p \<longrightarrow> gp_group_id p \<noteq> ?i"
    using group_id_used [OF ok, of ?i] by auto
  moreover have "service_get_group_id s = (?i, s\<lparr>bs_srv := Some (v\<lparr>sv_group_id := ?i + 1,
      sv_group_count := sv_group_count v + 1\<rparr>), bs_overflowed := True\<rparr>)"
    using False v by (cases s) (auto simp: service_get_group_id_def upd_srv_def Let_def simp del: free_group_id.simps)
  ultimately show ?thesis
    by (intro exI [of _ ?i] exI [of _ True] exI [of _ "v\<lparr>sv_group_id := ?i + 1,
      sv_group_count := sv_group_count v + 1\<rparr>"]) (simp del: free_group_id.simps)
qed

definition inert_group :: "MppBufferGroupImpl \<Rightarrow> bool" where
  "inert_group p \<longleftrightarrow> members p = [] \<and> gp_count_used p = 0 \<and> gp_count_unused p = 0 \<and> gp_buffer_count p = 0 \<and>
     gp_usage p = 0 \<and> \<not> gp_clear_on_exit p \<and> \<not> gp_is_finalizing p"

lemma new_group_inert: "env_ok env \<Longrightarrow> inert_group (new_group env a i mode type m)"
  by (simp add: inert_group_def new_group_def members_def env_ok_def)

text \<open>The state after a group was entered.\<close>

lemma enter_group_ok:
  assumes ok: "buf_ok s" and v: "bs_srv s = Some v" and q: "inert_group q"
    and i: "\<And>g p. bs_groups s g = Some p \<Longrightarrow> gp_group_id p \<noteq> gp_group_id q"
    and s': "bs_groups s' = (bs_groups s)(bs_next s \<mapsto> q)" "bs_bufs s' = bs_bufs s" "bs_next s' = bs_next s + 1"
      "bs_srv s' = Some v'"
    and v': "sv_finalizing v' = sv_finalizing v" "sv_hash_group v' = bs_next s # sv_hash_group v"
    and o: "\<not> bs_overflowed s' \<Longrightarrow> \<not> bs_overflowed s \<and> sv_group_id v \<noteq> 0 \<and> gp_group_id q = sv_group_id v \<and>
      sv_group_id v' = sv_group_id v + 1"
  shows "buf_ok s'"
proof -
  have sv: "srv_ok s v"
    using srv_obtain [OF ok] v by (metis option.inject)
  have fresh: "bs_groups s (bs_next s) = None"
    using buf_okD(5) [OF ok, of "bs_next s"] by (cases "bs_groups s (bs_next s)") auto
  have q_ok: "grp_ok bufs q" for bufs
    using q by (auto simp: inert_group_def grp_ok_def members_def)
  have "srv_ok s' v'"
    unfolding srv_ok_def
  proof (intro conjI allI impI)
    show "\<not> sv_finalizing v'"
      using srv_okD(1) [OF sv] v' by simp
    show "distinct (sv_hash_group v')" "set (sv_hash_group v') = dom (bs_groups s')"
      using srv_okD(2,3) [OF sv] v' s'(1) fresh by auto
    show "g = g'" if "bs_groups s' g = Some p" "bs_groups s' g' = Some p'" "gp_group_id p = gp_group_id p'" for g p g' p'
      using that i srv_okD(4) [OF sv, of g p g' p'] s'(1) by (auto split: if_splits)
    show "gp_group_id p < sv_group_id v'"
      if "\<not> bs_overflowed s'" "sv_group_id v' \<noteq> 0" "bs_groups s' g = Some p" for g p
    proof -
      have step: "sv_group_id v < sv_group_id v'" "\<not> bs_overflowed s" "sv_group_id v \<noteq> 0" "gp_group_id q = sv_group_id v"
        using o [OF that(1)] that(2) unatSuc [of "sv_group_id v"] by (auto simp: word_less_nat_alt add.commute [of 1])
      then show ?thesis
        using that(3) s'(1) srv_okD(5) [OF sv, of g p] by (auto split: if_splits dest: less_trans)
    qed
  qed
  moreover have "grp_ok (bs_bufs s') p" if "bs_groups s' g = Some p" for g p
    using that s'(1,2) q_ok buf_okD(2) [OF ok, of g p] by (auto split: if_splits)
  moreover have "\<exists>g p. bs_groups s' g = Some p \<and> b \<in> set (members p)" if x: "bs_bufs s' b = Some x" for b x
  proof -
    obtain g p where g: "bs_groups s g = Some p" "b \<in> set (members p)"
      using buf_okD(3) [OF ok, of b x] x s'(2) by auto
    then have "g \<noteq> bs_next s"
      using fresh by auto
    then show ?thesis
      using g s'(1) by auto
  qed
  moreover have "b < bs_next s'" if "bs_bufs s' b = Some x" for b x
    using buf_okD(4) [OF ok, of b x] that s'(2,3) by simp
  moreover have "g < bs_next s'" if "bs_groups s' g = Some p" for g p
    using buf_okD(5) [OF ok, of g p] that s'(1,3) by (auto split: if_splits)
  ultimately show ?thesis
    unfolding buf_ok_def using s'(4) by blast
qed

lemma preset_sel [simp]:
  "sv_finalizing (preset_allocator env t bt fl v) = sv_finalizing v"
  "sv_hash_group (preset_allocator env t bt fl v) = sv_hash_group v"
  "sv_group_id (preset_allocator env t bt fl v) = sv_group_id v"
  by (simp_all add: preset_allocator_def Let_def)

lemma service_get_group_ok:
  assumes env: "env_ok env" and ok: "buf_ok s" and n: "card (dom (bs_groups s)) < 2 ^ 32 - 1"
    and run: "service_get_group env mode type m s = (r, s')"
  shows "buf_ok s' \<and> bs_bufs s' = bs_bufs s \<and> bs_next s \<le> bs_next s' \<and>
    (case r of None \<Rightarrow> bs_groups s' = bs_groups s
     | Some g \<Rightarrow> g = bs_next s \<and> (\<exists>q. bs_groups s' = (bs_groups s)(g \<mapsto> q) \<and> inert_group q \<and> \<not> gp_is_orphan q))"
proof -
  obtain v where v: "bs_srv s = Some v" and sv: "srv_ok s v"
    by (rule srv_obtain [OF ok])
  let ?bt = "type AND MPP_BUFFER_TYPE_MASK" and ?fl = "type_to_flag type"
  let ?s = "upd_srv (preset_allocator env type ?bt ?fl) s" and ?v = "preset_allocator env type ?bt ?fl v"
  have v1: "bs_srv ?s = Some ?v" "bs_groups ?s = bs_groups s" "bs_bufs ?s = bs_bufs s" "bs_next ?s = bs_next s"
      "bs_overflowed ?s = bs_overflowed s"
    by (simp_all add: upd_srv_def v)
  have ok1: "buf_ok ?s"
    by (rule srv_change_ok [OF ok v v1]) simp_all
  have len: "length (sv_hash_group ?v) < 2 ^ 32 - 1"
    using n srv_okD(2,3) [OF sv] by (simp add: distinct_card [symmetric])
  obtain i v2 o2 where gid: "service_get_group_id ?s = (i, ?s\<lparr>bs_srv := Some v2, bs_overflowed := o2\<rparr>)"
    and v2: "sv_finalizing v2 = sv_finalizing ?v" "sv_hash_group v2 = sv_hash_group ?v"
    and free: "\<And>g p. bs_groups s g = Some p \<Longrightarrow> gp_group_id p \<noteq> i"
    and ov: "\<not> o2 \<Longrightarrow> \<not> bs_overflowed s \<and> sv_group_id v \<noteq> 0 \<and> i = sv_group_id v \<and> sv_group_id v2 = sv_group_id v + 1"
    using get_group_id_ok [OF ok1 v1(1) len] v1 by auto
  show ?thesis
  proof (cases "mode \<ge> MPP_BUFFER_MODE_BUTT \<or> ?bt \<ge> MPP_BUFFER_TYPE_BUTT \<or> \<not> ev_pool_get env (bs_next s)")
    case True
    then have "r = None \<and> s' = s"
      using run v by (cases "mode \<ge> MPP_BUFFER_MODE_BUTT \<or> ?bt \<ge> MPP_BUFFER_TYPE_BUTT")
        (simp_all add: service_get_group_def get_srv_ok [OF ok])
    then show ?thesis
      using ok by simp
  next
    case go: False
    show ?thesis
    proof (cases "sv_allocator ?v ?bt ?fl = None \<or> \<not> sv_allocator_api ?v ?bt")
      case True
      then have "r = None \<and> s' = ?s"
        using run v v1 go by (auto simp: service_get_group_def get_srv_ok [OF ok] Let_def split: option.splits)
      then show ?thesis
        using ok1 v1 by simp
    next
      case False
      then obtain a where a: "sv_allocator ?v ?bt ?fl = Some a" "sv_allocator_api ?v ?bt"
        by auto
      let ?q = "new_group env a i mode ?bt m"
      obtain v3 where res: "r = Some (bs_next s)" "bs_groups s' = (bs_groups s)(bs_next s \<mapsto> ?q)" "bs_bufs s' = bs_bufs s"
        "bs_next s' = bs_next s + 1" "bs_srv s' = Some v3" "bs_overflowed s' = o2"
        and v3: "sv_finalizing v3 = sv_finalizing v2" "sv_hash_group v3 = bs_next s # sv_hash_group v2" "sv_group_id v3 = sv_group_id v2"
        using run v v1 go a gid
        by (cases m) (auto simp: service_get_group_def get_srv_ok [OF ok] Let_def set_grp_def upd_srv_def)
      have "buf_ok s'"
      proof (rule enter_group_ok [OF ok v new_group_inert [OF env] _ res(2-5)])
        show "gp_group_id p \<noteq> gp_group_id ?q" if "bs_groups s g = Some p" for g p
          using free [OF that] by (simp add: new_group_def)
        show "\<not> bs_overflowed s \<and> sv_group_id v \<noteq> 0 \<and> gp_group_id ?q = sv_group_id v \<and> sv_group_id v3 = sv_group_id v + 1"
          if "\<not> bs_overflowed s'"
          using ov that res(6) v3(3) by (simp add: new_group_def)
      qed (use v2 v3 in simp_all)
      then show ?thesis
        using res new_group_inert [OF env] by (auto simp: new_group_def)
    qed
  qed
qed

section \<open>Clearing a group\<close>

lemma map_bufs_ok:
  assumes ok: "buf_ok s" and s': "bs_bufs s' = (\<lambda>b. map_option (f b) (bs_bufs s b))" "bs_groups s' = bs_groups s"
    "bs_srv s' = bs_srv s" "bs_next s' = bs_next s" "bs_overflowed s' = bs_overflowed s"
    and f: "\<And>b x. bi_size (bf_info (f b x)) = bi_size (bf_info x)" "\<And>b x. bf_group_id (f b x) = bf_group_id x"
      "\<And>b x. bf_mode (f b x) = bf_mode x" "\<And>b x. bf_used (f b x) = bf_used x" "\<And>b x. bf_ref_count (f b x) = bf_ref_count x"
  shows "buf_ok s'"
proof -
  have size: "buf_size (bs_bufs s') = buf_size (bs_bufs s)"
    by (rule ext) (simp add: buf_size_def s'(1) f split: option.split)
  have grp: "grp_ok (bs_bufs s') p = grp_ok (bs_bufs s) p" for p
  proof -
    have h: "(\<exists>x. bs_bufs s' b = Some x \<and> held_in p x) = (\<exists>x. bs_bufs s b = Some x \<and> held_in p x)"
      "(\<exists>x. bs_bufs s' b = Some x \<and> idle_in p x) = (\<exists>x. bs_bufs s b = Some x \<and> idle_in p x)"
      "(\<forall>x. bs_bufs s' b = Some x \<longrightarrow> size_ok (bi_size (bf_info x))) = (\<forall>x. bs_bufs s b = Some x \<longrightarrow> size_ok (bi_size (bf_info x)))" for b
      by (cases "bs_bufs s b"; simp add: s'(1) held_in_def idle_in_def f)+
    show ?thesis
      unfolding grp_ok_def size h ..
  qed
  show ?thesis
    using ok unfolding buf_ok_def grp srv_ok_def s'(2-5) by (simp add: s'(1))
qed

lemma discard_all_ok:
  assumes "buf_ok s"
  shows "buf_ok (discard_all bs s)"
  by (rule map_bufs_ok [OF assms, where f = "\<lambda>b x. if b \<in> set bs then x\<lparr>bf_discard := True\<rparr> else x"])
    (auto simp: discard_all_def fun_eq_iff option.map_ident)

lemma discard_all_sel:
  "bs_bufs (discard_all bs s) b = (if b \<in> set bs then map_option (\<lambda>x. x\<lparr>bf_discard := True\<rparr>) (bs_bufs s b) else bs_bufs s b)"
  "bs_groups (discard_all bs s) = bs_groups s"
  by (simp_all add: discard_all_def)

lemma group_reset_ok:
  assumes ok: "buf_ok s" and g: "bs_groups s g = Some p" and no: "\<not> gp_is_orphan p"
  shows "\<exists>s' p'. mpp_buffer_group_reset (Some g) s = Inr (MPP_OK, s') \<and> buf_ok s' \<and>
    bs_groups s' = (bs_groups s)(g \<mapsto> p') \<and> same_group p p' \<and> gp_list_unused p' = [] \<and>
    (\<forall>b. bs_bufs s' b = (if b \<in> set (gp_list_unused p) then None
      else if b \<in> set (gp_list_used p) then map_option (\<lambda>x. x\<lparr>bf_discard := True\<rparr>) (bs_bufs s b) else bs_bufs s b))"
proof -
  let ?s = "discard_all (gp_list_used p) s"
  have ok1: "buf_ok ?s"
    by (rule discard_all_ok [OF ok])
  have g1: "bs_groups ?s g = Some p" and gs: "bs_groups ?s = bs_groups s"
    using g by (simp_all add: discard_all_sel)
  show ?thesis
  proof (cases "gp_list_unused p = []")
    case True
    then show ?thesis
      using g ok1 by (intro exI [of _ ?s] exI [of _ p])
        (simp add: mpp_buffer_group_reset_def get_grp_def discard_all_sel fun_upd_idem)
  next
    case False
    obtain s' p' where s': "put_all (call_put_group ?s True) True g (gp_list_unused p) ?s = Inr s'" "buf_ok s'"
      "released ?s s' g p' (gp_list_unused p)" "same_group p p'" "gp_list_unused p' = []"
      using put_all_ok [OF ok1 g1 refl no] by blast
    have "mpp_buffer_group_reset (Some g) s = Inr (MPP_OK, s')"
      using False g s'(1) get_srv_ok [OF ok1] by (simp add: mpp_buffer_group_reset_def get_grp_def)
    then show ?thesis
      using s'(2-5) by (intro exI [of _ s'] exI [of _ p']) (simp add: released_def discard_all_sel)
  qed
qed

section \<open>The calls of a user\<close>

text \<open>
  One call, with the arguments the interface allows: groups that were not returned, buffers with a
  reference, sizes that fit 32 bits and are not zero, and counters below their limits. The last buffer of
  an orphan group that would go with its group is excluded (see \<open>orphan_put_uses_freed_group\<close>).
\<close>

definition live_group :: "buf_state \<Rightarrow> nat \<Rightarrow> bool" where
  "live_group s g \<longleftrightarrow> (\<exists>p. bs_groups s g = Some p \<and> \<not> gp_is_orphan p)"

definition room :: "buf_state \<Rightarrow> nat \<Rightarrow> bool" where
  "room s g \<longleftrightarrow> (\<exists>p. bs_groups s g = Some p \<and> gp_buffer_count p < 2 ^ 31 - 1)"

definition held :: "buf_state \<Rightarrow> nat \<Rightarrow> bool" where
  "held s b \<longleftrightarrow> (\<exists>x. bs_bufs s b = Some x \<and> 0 < bf_ref_count x)"

definition ends_orphan :: "buf_state \<Rightarrow> nat \<Rightarrow> bool" where
  "ends_orphan s b \<longleftrightarrow> (\<exists>g p x. bs_groups s g = Some p \<and> bs_bufs s b = Some x \<and> gp_is_orphan p \<and> members p = [b] \<and>
     after_put p x = None)"

inductive buf_step :: "buf_env \<Rightarrow> buf_state \<Rightarrow> buf_state \<Rightarrow> bool" for env where
  step_group_get: "card (dom (bs_groups s)) < 2 ^ 32 - 1 \<Longrightarrow>
    mpp_buffer_group_get env True type mode s = (ret, g, s') \<Longrightarrow> buf_step env s s'"
| step_group_put: "live_group s g \<Longrightarrow> mpp_buffer_group_put (Some g) s = Inr (ret, s') \<Longrightarrow> buf_step env s s'"
| step_group_clear: "live_group s g \<Longrightarrow> mpp_buffer_group_clear (Some g) s = Inr (ret, s') \<Longrightarrow> buf_step env s s'"
| step_limit: "live_group s g \<Longrightarrow> mpp_buffer_group_limit_config (Some g) sz n s = Inr (ret, s') \<Longrightarrow> buf_step env s s'"
| step_callback: "live_group s g \<Longrightarrow> mpp_buffer_group_set_callback (Some g) f s = Inr (ret, s') \<Longrightarrow> buf_step env s s'"
| step_get: "live_group s g \<Longrightarrow> room s g \<Longrightarrow> size_ok sz \<Longrightarrow>
    mpp_buffer_get_with_tag env (Some g) True sz s = Inr (ret, r, s') \<Longrightarrow> buf_step env s s'"
| step_import: "live_group s g \<Longrightarrow> room s g \<Longrightarrow> size_ok (bi_size info) \<Longrightarrow>
    mpp_buffer_import_with_tag env (Some g) (Some info) want s = Inr (ret, r, s') \<Longrightarrow> buf_step env s s'"
| step_inc_ref: "held s b \<Longrightarrow> mpp_buffer_inc_ref_with_caller (Some b) s = Inr (ret, s') \<Longrightarrow> buf_step env s s'"
| step_put: "held s b \<Longrightarrow> \<not> ends_orphan s b \<Longrightarrow> mpp_buffer_put_with_caller (Some b) s = Inr (ret, s') \<Longrightarrow> buf_step env s s'"
| step_discard: "held s b \<Longrightarrow> mpp_buffer_discard_with_caller (Some b) s = Inr (ret, s') \<Longrightarrow> buf_step env s s'"
| step_get_ptr: "held s b \<Longrightarrow> mpp_buffer_get_ptr_with_caller env (Some b) s = Inr (ptr, s') \<Longrightarrow> buf_step env s s'"
| step_set_index: "held s b \<Longrightarrow> mpp_buffer_set_index_with_caller (Some b) i s = Inr (ret, s') \<Longrightarrow> buf_step env s s'"
| step_set_offset: "held s b \<Longrightarrow> mpp_buffer_set_offset_with_caller (Some b) off s = Inr (ret, s') \<Longrightarrow> buf_step env s s'"
| step_attach: "held s b \<Longrightarrow> mpp_buffer_attach_dev_f env b dev s = Inr (ret, s') \<Longrightarrow> buf_step env s s'"
| step_detach: "held s b \<Longrightarrow> mpp_buffer_detach_dev_f env b dev s = Inr (ret, s') \<Longrightarrow> buf_step env s s'"

inductive buf_reach :: "buf_env \<Rightarrow> buf_state \<Rightarrow> bool" for env where
  reach_start: "buf_reach env (mpp_buffer_service_init buf_state_0)"
| reach_step: "buf_reach env s \<Longrightarrow> buf_step env s s' \<Longrightarrow> buf_reach env s'"

subsection \<open>Every call keeps the invariant\<close>

lemma held_kind:
  assumes "buf_ok s" and "bs_bufs s b = Some x" and "0 < bf_ref_count x"
  shows "if bf_used x then 0 < bf_ref_count x else bf_ref_count x = 0"
  using held_buffer [OF assms] assms(3) by (metis (full_types))

lemma held_change_ok:
  assumes "buf_ok s" and "bs_bufs s b = Some x" and "0 < bf_ref_count x"
    and "bi_size (bf_info y) = bi_size (bf_info x)" "bf_group_id y = bf_group_id x" "bf_mode y = bf_mode x"
      "bf_used y = bf_used x" "bf_ref_count y = bf_ref_count x"
  shows "buf_ok (set_buf b y s)"
  by (rule set_buf_ok [OF assms(1,2,4-7)]) (use held_kind [OF assms(1-3)] assms(8) in simp)

lemma add_event_ok: "buf_ok s \<Longrightarrow> buf_ok (add_event e s)"
  unfolding buf_ok_def srv_ok_def add_event_def by simp

lemma group_get_ok:
  assumes "env_ok env" and "buf_ok s" and "card (dom (bs_groups s)) < 2 ^ 32 - 1"
    and "mpp_buffer_group_get env True type mode s = (ret, g, s')"
  shows "buf_ok s'"
  using assms(2,4) service_get_group_ok [OF assms(1-3), of mode type False]
  by (auto simp: mpp_buffer_group_get_def mpp_buffer_group_init_def split: if_splits prod.splits)

lemma group_put_ok:
  assumes "buf_ok s" and "live_group s g" and "mpp_buffer_group_put (Some g) s = Inr (ret, s')"
  shows "buf_ok s'"
proof -
  obtain p where p: "bs_groups s g = Some p" "\<not> gp_is_orphan p"
    using assms(2) by (auto simp: live_group_def)
  obtain t where "service_put_group (Suc (bs_next s)) True g s = Inr t" "buf_ok t"
    using put_group_ok [OF assms(1) p] by metis
  then show ?thesis
    using assms(3) by (simp add: mpp_buffer_group_put_def mpp_buffer_group_deinit_def get_srv_ok [OF assms(1)]
        call_put_group_def del: service_put_group.simps)
qed

lemma get_ptr_ok:
  assumes env: "env_ok env" and ok: "buf_ok s" and b: "bs_bufs s b = Some x" "0 < bf_ref_count x"
  shows "\<exists>y s'. ensure_mapped env b s = Inr (y, s') \<and> buf_ok s'"
proof (cases "bi_ptr (bf_info x) = None")
  case False
  then obtain a where "bi_ptr (bf_info x) = Some a"
    by auto
  then show ?thesis
    using b ok by (simp add: ensure_mapped_def get_buf_def)
next
  case True
  let ?y = "x\<lparr>bf_info := snd (ev_mmap env (bf_allocator x) (bf_info x))\<rparr>"
  have "buf_ok (set_buf b ?y s)"
    by (rule held_change_ok [OF ok b]) (use env in \<open>simp_all add: env_ok_def\<close>)
  moreover have "ensure_mapped env b s = Inr (?y, set_buf b ?y s)"
    using b True by (simp add: ensure_mapped_def mpp_buffer_mmap_def get_buf_def split: prod.split) (simp add: set_buf_def)
  ultimately show ?thesis
    by blast
qed

lemma import_ok:
  assumes env: "env_ok env" and ok: "buf_ok s" and g: "bs_groups s g = Some p" "gp_buffer_count p < 2 ^ 31 - 1"
    and sz: "size_ok (bi_size info)"
  shows "\<exists>ret r s'. mpp_buffer_import_with_tag env (Some g) (Some info) want s = Inr (ret, r, s') \<and> buf_ok s'"
  using create_ok [OF env ok g(1) sz g(2), of want] ok g(1)
  by (auto simp: mpp_buffer_import_with_tag_def get_grp_def)

lemma attach_ok:
  assumes ok: "buf_ok s" and b: "bs_bufs s b = Some x" "0 < bf_ref_count x"
  shows "\<exists>ret s'. mpp_buffer_attach_dev_f env b dev s = Inr (ret, s') \<and> buf_ok s'"
proof -
  have "buf_ok (set_buf b (x\<lparr>bf_maps := ms\<rparr>) s)" for ms
    by (rule held_change_ok [OF ok b]) simp_all
  then show ?thesis
    using b ok by (auto simp: mpp_buffer_attach_dev_f_def mpp_buffer_attach_dev_lock_def get_buf_def Let_def split: option.split)
qed

lemma detach_ok:
  assumes ok: "buf_ok s" and b: "bs_bufs s b = Some x" "0 < bf_ref_count x"
  shows "\<exists>ret s'. mpp_buffer_detach_dev_f env b dev s = Inr (ret, s') \<and> buf_ok s'"
proof -
  have "buf_ok (set_buf b (x\<lparr>bf_maps := ms\<rparr>) s)" for ms
    by (rule held_change_ok [OF ok b]) simp_all
  then show ?thesis
    using b ok add_event_ok by (auto simp: mpp_buffer_detach_dev_f_def get_buf_def split: option.split)
qed

lemma buf_step_ok:
  assumes "buf_step env s s'" and env: "env_ok env" and ok: "buf_ok s"
  shows "buf_ok s'"
  using assms(1)
proof cases
  case (step_group_get type mode ret g)
  then show ?thesis using group_get_ok [OF env ok] by blast
next
  case (step_group_put g ret)
  then show ?thesis using group_put_ok [OF ok] by blast
next
  case (step_group_clear g ret)
  then obtain p where p: "bs_groups s g = Some p" "\<not> gp_is_orphan p"
    by (auto simp: live_group_def)
  show ?thesis
    using group_reset_ok [OF ok p] step_group_clear(2) by (auto simp: mpp_buffer_group_clear_def)
next
  case (step_limit g sz n ret)
  then obtain p where p: "bs_groups s g = Some p"
    by (auto simp: live_group_def)
  have "buf_ok (set_grp g (p\<lparr>gp_limit_size := sz, gp_limit_count := n\<rparr>) s)"
    by (rule group_fields_ok [OF ok p]) (simp_all add: members_def)
  then show ?thesis
    using step_limit(2) p by (simp add: mpp_buffer_group_limit_config_def get_grp_def)
next
  case (step_callback g f ret)
  then obtain p where p: "bs_groups s g = Some p"
    by (auto simp: live_group_def)
  have "buf_ok (set_grp g (p\<lparr>gp_callback := f\<rparr>) s)"
    by (rule group_fields_ok [OF ok p]) (simp_all add: members_def)
  then show ?thesis
    using step_callback(2) p by (simp add: mpp_buffer_group_set_callback_def get_grp_def)
next
  case (step_get g sz ret r)
  then obtain p where p: "bs_groups s g = Some p" "\<not> gp_is_orphan p" "gp_buffer_count p < 2 ^ 31 - 1"
    by (auto simp: live_group_def room_def)
  show ?thesis
    using get_with_tag_ok [OF env ok p(1,2) step_get(3) p(3)] step_get(4) by auto
next
  case (step_import g info want ret r)
  then obtain p where p: "bs_groups s g = Some p" "gp_buffer_count p < 2 ^ 31 - 1"
    by (auto simp: room_def)
  show ?thesis
    using import_ok [OF env ok p step_import(3), of want] step_import(4) by auto
next
  case (step_inc_ref b ret)
  then obtain x where x: "bs_bufs s b = Some x" "0 < bf_ref_count x"
    by (auto simp: held_def)
  show ?thesis
    using ref_inc_ok [OF ok x] step_inc_ref(2) by (simp add: mpp_buffer_inc_ref_with_caller_def)
next
  case (step_put b ret)
  then obtain x where x: "bs_bufs s b = Some x" "0 < bf_ref_count x"
    by (auto simp: held_def)
  obtain g p where g: "bs_groups s g = Some p" "b \<in> set (members p)"
    by (rule buf_owner [OF ok x(1)])
  have "\<not> (gp_is_orphan p \<and> members p = [b] \<and> after_put p x = None)"
    using step_put(2) x(1) g(1) by (auto simp: ends_orphan_def)
  from ref_dec_ok [OF ok x g this] show ?thesis
    using step_put(3) by (auto simp: mpp_buffer_put_with_caller_def)
next
  case (step_discard b ret)
  then obtain x where x: "bs_bufs s b = Some x"
    by (auto simp: held_def)
  show ?thesis
    using discard_ok [OF ok x] step_discard(2) by (simp add: mpp_buffer_discard_with_caller_def)
next
  case (step_get_ptr b ptr)
  then obtain x where x: "bs_bufs s b = Some x" "0 < bf_ref_count x"
    by (auto simp: held_def)
  show ?thesis
    using get_ptr_ok [OF env ok x] step_get_ptr(2) by (auto simp: mpp_buffer_get_ptr_with_caller_def)
next
  case (step_set_index b i ret)
  then obtain x where x: "bs_bufs s b = Some x" "0 < bf_ref_count x"
    by (auto simp: held_def)
  have "buf_ok (set_buf b (x\<lparr>bf_info := (bf_info x)\<lparr>bi_index := i\<rparr>\<rparr>) s)"
    by (rule held_change_ok [OF ok x]) simp_all
  then show ?thesis
    using step_set_index(2) x by (simp add: mpp_buffer_set_index_with_caller_def get_buf_def)
next
  case (step_set_offset b off ret)
  then obtain x where x: "bs_bufs s b = Some x" "0 < bf_ref_count x"
    by (auto simp: held_def)
  have "buf_ok (set_buf b (x\<lparr>bf_offset := off\<rparr>) s)"
    by (rule held_change_ok [OF ok x]) simp_all
  then show ?thesis
    using step_set_offset(2) x by (simp add: mpp_buffer_set_offset_with_caller_def get_buf_def)
next
  case (step_attach b dev ret)
  then show ?thesis
    using attach_ok [OF ok, of b _ env dev] by (auto simp: held_def)
next
  case (step_detach b dev ret)
  then show ?thesis
    using detach_ok [OF ok, of b _ env dev] by (auto simp: held_def)
qed

lemma buf_start_ok: "buf_ok (mpp_buffer_service_init buf_state_0)"
  by (simp add: mpp_buffer_service_init_def buf_state_0_def buf_ok_def srv_ok_def service_0_def)

lemma buf_reach_ok: "buf_reach env s \<Longrightarrow> env_ok env \<Longrightarrow> buf_ok s"
  by (induction rule: buf_reach.induct) (auto intro: buf_start_ok buf_step_ok)

end
