(* ===== verification/Mpp_Buffer_Props.thy ===== *)
theory Mpp_Buffer_Props
  imports Mpp_Buffer_Run
begin

text \<open>
  The properties of buffers and groups: the invariant of every reachable state, requests, the return of
  buffers and groups, and what goes wrong with a group that is returned before its buffers.
\<close>

section \<open>Orphan groups without used buffers are never touched again\<close>

definition stranded :: "nat \<Rightarrow> MppBufferGroupImpl \<Rightarrow> buf_state \<Rightarrow> bool" where
  "stranded g p s \<longleftrightarrow> bs_groups s g = Some p \<and> gp_is_orphan p \<and> gp_list_used p = []"

definition kept_group :: "nat \<Rightarrow> MppBufferGroupImpl \<Rightarrow> buf_state \<Rightarrow> buf_state \<Rightarrow> bool" where
  "kept_group g p s s' \<longleftrightarrow> bs_groups s' g = Some p \<and> (\<forall>b\<in>set (members p). bs_bufs s' b = bs_bufs s b)"

lemma member_below: "buf_ok s \<Longrightarrow> bs_groups s g = Some p \<Longrightarrow> b \<in> set (members p) \<Longrightarrow> b < bs_next s"
  using member_live [OF buf_okD(2)] buf_okD(4) by metis

lemma stranded_other:
  assumes ok: "buf_ok s" and st: "stranded g p s" and h: "bs_groups s h = Some q" "h \<noteq> g" and o: "only_group h q s s'"
  shows "kept_group g p s s'"
proof -
  have g: "bs_groups s g = Some p"
    using st by (simp add: stranded_def)
  have "b \<notin> set (members q)" if "b \<in> set (members p)" for b
    using owner_unique [OF ok g that h(1)] h(2) by blast
  then show ?thesis
    using o g h(2) member_below [OF ok g] by (auto simp: only_group_def kept_group_def)
qed

lemma stranded_live: "stranded g p s \<Longrightarrow> live_group s h \<Longrightarrow> h \<noteq> g"
  by (auto simp: stranded_def live_group_def)

lemma stranded_not_held:
  assumes "buf_ok s" and "stranded g p s" and "held s c"
  shows "c \<notin> set (members p)"
proof
  assume c: "c \<in> set (members p)"
  have g: "bs_groups s g = Some p" "gp_list_used p = []"
    using assms(2) by (simp_all add: stranded_def)
  then have "c \<in> set (gp_list_unused p)"
    using c by (simp add: members_def)
  then show False
    using grp_okD(3) [OF buf_okD(2) [OF assms(1) g(1)]] assms(3) by (fastforce simp: held_def idle_in_def)
qed

lemma stranded_set_buf:
  "buf_ok s \<Longrightarrow> stranded g p s \<Longrightarrow> held s c \<Longrightarrow> kept_group g p s (set_buf c y s)"
  using stranded_not_held by (fastforce simp: kept_group_def stranded_def set_buf_def)

lemma kept_refl: "stranded g p s \<Longrightarrow> kept_group g p s s"
  by (simp add: kept_group_def stranded_def)

lemma kept_add_event: "kept_group g p s s' \<Longrightarrow> kept_group g p s (add_event e s')"
  by (simp add: kept_group_def add_event_def)

lemma put_group_only:
  assumes ok: "buf_ok s" and g: "bs_groups s g = Some p" "\<not> gp_is_orphan p"
    and run: "service_put_group (Suc n) True g s = Inr s'"
  shows "only_group g p s s'"
proof -
  obtain s1 p1 where s1: "released s s1 g p1 (gp_list_unused p)" "bs_bufs s' = bs_bufs s1" "bs_next s' = bs_next s"
    "bs_groups s' = (bs_groups s)(g := if gp_list_used p = [] then None else Some (p1\<lparr>gp_is_orphan := True\<rparr>))"
    using put_group_ok [OF ok g, of n] run by (auto simp del: service_put_group.simps)
  then show ?thesis
    using released_only [OF s1(1), of p] by (auto simp: only_group_def members_def)
qed

lemma ensure_mapped_result:
  assumes "bs_bufs s b = Some x"
  shows "\<exists>y s'. ensure_mapped env b s = Inr (y, s') \<and> (s' = s \<or> (\<exists>z. s' = set_buf b z s))"
  using assms by (cases "bi_ptr (bf_info x)")
    (auto simp: ensure_mapped_def mpp_buffer_mmap_def get_buf_def set_buf_def split: prod.split)

lemma buf_step_stranded:
  assumes "buf_step env s s'" and env: "env_ok env" and ok: "buf_ok s" and st: "stranded g p s"
  shows "kept_group g p s s'"
proof -
  have set_ok: "kept_group g p s (set_buf c y s)" if "held s c" for c y
    by (rule stranded_set_buf [OF ok st that])
  note refl = kept_refl [OF st]
  show ?thesis
    using assms(1)
  proof cases
    case (step_group_get type mode ret h)
    have "kept_group g p s s'" if run: "service_get_group env mode type False s = (h', s')" for h'
    proof -
      have "g < bs_next s"
        using buf_okD(5) [OF ok] st by (auto simp: stranded_def)
      then show ?thesis
        using service_get_group_ok [OF env ok step_group_get(1) run] st
        by (auto simp: kept_group_def stranded_def split: option.splits)
    qed
    then show ?thesis
      using step_group_get(2) refl
      by (auto simp: mpp_buffer_group_get_def mpp_buffer_group_init_def split: if_splits prod.splits)
  next
    case (step_group_put h ret)
    then obtain q where q: "bs_groups s h = Some q" "\<not> gp_is_orphan q"
      by (auto simp: live_group_def)
    have "service_put_group (Suc (bs_next s)) True h s = Inr s'"
      using step_group_put(2) by (auto simp: mpp_buffer_group_put_def mpp_buffer_group_deinit_def get_srv_ok [OF ok]
          call_put_group_def run_bind_Inr_iff simp del: service_put_group.simps)
    from put_group_only [OF ok q this] show ?thesis
      by (rule stranded_other [OF ok st q(1) stranded_live [OF st step_group_put(1)]])
  next
    case (step_group_clear h ret)
    then obtain q where q: "bs_groups s h = Some q" "\<not> gp_is_orphan q"
      by (auto simp: live_group_def)
    obtain q' where q': "bs_groups s' = (bs_groups s)(h \<mapsto> q')" "\<forall>b. b \<notin> set (members q) \<longrightarrow> bs_bufs s' b = bs_bufs s b"
      using group_reset_ok [OF ok q] step_group_clear(2) by (auto simp: mpp_buffer_group_clear_def members_def)
    have hg: "h \<noteq> g"
      by (rule stranded_live [OF st step_group_clear(1)])
    have "b \<notin> set (members q)" if "b \<in> set (members p)" for b
      using owner_unique [OF ok _ that q(1)] st hg by (auto simp: stranded_def)
    then show ?thesis
      using q' hg st by (auto simp: kept_group_def stranded_def)
  next
    case (step_limit h sz n ret)
    then show ?thesis
      using stranded_live [OF st step_limit(1)] st
      by (auto simp: mpp_buffer_group_limit_config_def get_grp_def set_grp_def kept_group_def stranded_def live_group_def)
  next
    case (step_callback h f ret)
    then show ?thesis
      using stranded_live [OF st step_callback(1)] st
      by (auto simp: mpp_buffer_group_set_callback_def get_grp_def set_grp_def kept_group_def stranded_def live_group_def)
  next
    case (step_get h sz ret r)
    then obtain q where q: "bs_groups s h = Some q" "\<not> gp_is_orphan q" "gp_buffer_count q < 2 ^ 31 - 1"
      by (auto simp: live_group_def room_def)
    have "only_group h q s s'"
      using get_with_tag_ok [OF env ok q(1,2) step_get(3) q(3)] step_get(4) by auto
    then show ?thesis
      by (rule stranded_other [OF ok st q(1) stranded_live [OF st step_get(1)]])
  next
    case (step_import h info want ret r)
    then obtain q where q: "bs_groups s h = Some q" "gp_buffer_count q < 2 ^ 31 - 1"
      by (auto simp: room_def)
    have "s' = s \<or> only_group h q s s'"
      using create_ok [OF env ok q(1) step_import(3) q(2), of want] step_import(4) q(1)
      by (auto simp: mpp_buffer_import_with_tag_def get_grp_def only_group_def split: if_splits option.splits)
    then show ?thesis
      using refl stranded_other [OF ok st q(1) stranded_live [OF st step_import(1)]] by blast
  next
    case (step_inc_ref b ret)
    then show ?thesis
      using ref_inc_ok(1) [OF ok, of b] set_ok [OF step_inc_ref(1)] by (auto simp: mpp_buffer_inc_ref_with_caller_def held_def)
  next
    case (step_put b ret)
    then obtain x where x: "bs_bufs s b = Some x" "0 < bf_ref_count x"
      by (auto simp: held_def)
    obtain h q where h: "bs_groups s h = Some q" "b \<in> set (members q)"
      by (rule buf_owner [OF ok x(1)])
    have bp: "b \<notin> set (members p)"
      by (rule stranded_not_held [OF ok st step_put(1)])
    then have hg: "h \<noteq> g"
      using h st by (auto simp: stranded_def)
    have "\<not> (gp_is_orphan q \<and> members q = [b] \<and> after_put q x = None)"
      using step_put(2) x(1) h(1) by (auto simp: ends_orphan_def)
    from ref_dec_ok [OF ok x h this] have "bs_bufs s' = (bs_bufs s)(b := after_put q x)" "bs_groups s' g = bs_groups s g"
      using step_put(3) hg by (auto simp: mpp_buffer_put_with_caller_def)
    then show ?thesis
      using st bp by (auto simp: kept_group_def stranded_def)
  next
    case (step_discard b ret)
    then show ?thesis
      using discard_ok(1) [OF ok, of b] set_ok [OF step_discard(1)] by (auto simp: mpp_buffer_discard_with_caller_def held_def)
  next
    case (step_get_ptr b ptr)
    then obtain x where x: "bs_bufs s b = Some x"
      by (auto simp: held_def)
    show ?thesis
      using ensure_mapped_result [OF x, of env] step_get_ptr(2) refl set_ok [OF step_get_ptr(1)]
      by (auto simp: mpp_buffer_get_ptr_with_caller_def)
  next
    case (step_set_index b i ret)
    then show ?thesis
      using set_ok [OF step_set_index(1)] by (auto simp: mpp_buffer_set_index_with_caller_def get_buf_def held_def)
  next
    case (step_set_offset b off ret)
    then show ?thesis
      using set_ok [OF step_set_offset(1)] by (auto simp: mpp_buffer_set_offset_with_caller_def get_buf_def held_def)
  next
    case (step_attach b dev ret)
    then show ?thesis
      using set_ok [OF step_attach(1)] refl
      by (auto simp: mpp_buffer_attach_dev_f_def mpp_buffer_attach_dev_lock_def get_buf_def held_def Let_def
          split: option.splits if_splits)
  next
    case (step_detach b dev ret)
    then show ?thesis
      using set_ok [OF step_detach(1)] refl kept_add_event
      by (auto simp: mpp_buffer_detach_dev_f_def get_buf_def held_def split: option.splits)
  qed
qed

lemma stranded_forever:
  assumes "(buf_step env)\<^sup>*\<^sup>* s s'" and env: "env_ok env" and ok: "buf_ok s" and st: "stranded g p s"
  shows "kept_group g p s s'"
proof -
  have "buf_ok s' \<and> kept_group g p s s'"
    using assms(1)
  proof (induction rule: rtranclp_induct)
    case base
    then show ?case using ok kept_refl [OF st] by simp
  next
    case (step t t')
    then have "stranded g p t"
      using st by (auto simp: kept_group_def stranded_def)
    then show ?case
      using step buf_step_ok [OF step(2) env] buf_step_stranded [OF step(2) env] by (auto simp: kept_group_def)
  qed
  then show ?thesis ..
qed

section \<open>A run\<close>

definition demo_env :: buf_env where
  "demo_env = \<lparr>ev_pool_get = (\<lambda>_. True), ev_allocator_get = (\<lambda>_ _. Some 7), ev_allocator_flags = (\<lambda>_. 0),
     ev_alloc = (\<lambda>_ i. Some (i\<lparr>bi_fd := 5\<rparr>)), ev_import = (\<lambda>_ i. Some i), ev_mmap = (\<lambda>_ i. (MPP_OK, i)),
     ev_attach_fd = (\<lambda>_ _. None), ev_detach_fd = (\<lambda>_ _. MPP_OK), ev_debug = 0\<rparr>"

definition demo_start :: buf_state where
  "demo_start = mpp_buffer_service_init buf_state_0"

definition demo_group :: buf_state where
  "demo_group = snd (snd (mpp_buffer_group_get demo_env True MPP_BUFFER_TYPE_ION MPP_BUFFER_INTERNAL demo_start))"

definition demo_info :: MppBufferInfo where
  "demo_info = \<lparr>bi_type = 1, bi_size = 4096, bi_ptr = None, bi_hnd = None, bi_fd = 5, bi_index = - 1\<rparr>"

definition demo_grp :: MppBufferGroupImpl where
  "demo_grp = new_group demo_env 7 1 0 1 False"

definition demo_buf :: MppBufferImpl where
  "demo_buf = new_buf demo_grp demo_info True"

lemma demo_buf_sel [simp]: "bf_ref_count demo_buf = 1" "\<not> bf_discard demo_buf" "bf_used demo_buf"
  by (simp_all add: demo_buf_def new_buf_def)

lemma demo_env_ok: "env_ok demo_env"
  by (simp add: env_ok_def demo_env_def)

lemma demo_group_eq:
  "mpp_buffer_group_get demo_env True MPP_BUFFER_TYPE_ION MPP_BUFFER_INTERNAL demo_start = (MPP_OK, Some 0, demo_group)"
  "bs_groups demo_group = (\<lambda>_. None)(0 \<mapsto> demo_grp)" "bs_bufs demo_group = (\<lambda>_. None)" "bs_next demo_group = 1"
  by (simp_all add: demo_group_def demo_start_def demo_env_def demo_grp_def mpp_buffer_group_get_def mpp_buffer_group_init_def
      service_get_group_def get_srv_buffer_def mpp_buffer_service_init_def buf_state_0_def service_0_def Let_def
      type_to_flag_def upd_srv_def preset_allocator_def service_get_group_id_def set_grp_def word_le_nat_alt)

lemma demo_group_reach: "buf_reach demo_env demo_group"
  by (rule reach_step [OF reach_start step_group_get [OF _ demo_group_eq(1) [unfolded demo_start_def]]])
    (simp add: mpp_buffer_service_init_def buf_state_0_def)

lemma demo_get:
  "\<exists>s. mpp_buffer_get_with_tag demo_env (Some 0) True 4096 demo_group = Inr (MPP_OK, Some 1, s) \<and>
     buf_reach demo_env s \<and> bs_bufs s = (\<lambda>_. None)(1 \<mapsto> demo_buf) \<and> bs_groups s = (\<lambda>_. None)(0 \<mapsto> add_buf 1 demo_info True demo_grp)"
proof -
  note ok = buf_reach_ok [OF demo_group_reach demo_env_ok]
  have g: "bs_groups demo_group 0 = Some demo_grp"
    by (simp add: demo_group_eq)
  have u: "mpp_buffer_get_unused 0 4096 demo_group = Inr (None, demo_group)"
    using g by (simp add: mpp_buffer_get_unused_def get_grp_def get_srv_ok [OF ok] demo_grp_def new_group_def)
  let ?i = "\<lparr>bi_type = gp_type demo_grp, bi_size = 4096, bi_ptr = None, bi_hnd = None, bi_fd = - 1, bi_index = - 1\<rparr>"
  have "create_succeeds demo_env 1 demo_grp ?i = Some demo_info"
    by (simp add: create_succeeds_def demo_grp_def new_group_def demo_env_def demo_info_def)
  moreover have "size_ok (bi_size ?i)" "gp_buffer_count demo_grp < 2 ^ 31 - 1"
    by (simp_all add: size_ok_def demo_grp_def new_group_def)
  ultimately obtain s where s: "mpp_buffer_create demo_env (Some 0) ?i True demo_group = Inr (MPP_OK, Some 1, s)"
    "bs_bufs s = (\<lambda>_. None)(1 \<mapsto> new_buf demo_grp demo_info True)" "bs_groups s = (\<lambda>_. None)(0 \<mapsto> add_buf 1 demo_info True demo_grp)"
    using create_ok [OF demo_env_ok ok g, of ?i True] by (auto simp: demo_group_eq)
  have run: "mpp_buffer_get_with_tag demo_env (Some 0) True 4096 demo_group = Inr (MPP_OK, Some 1, s)"
    using u s(1) g by (simp add: mpp_buffer_get_with_tag_def get_grp_def demo_grp_def new_group_def)
  have "buf_step demo_env demo_group s"
    by (rule step_get [OF _ _ _ run]) (use g in \<open>auto simp: live_group_def room_def size_ok_def demo_grp_def new_group_def\<close>)
  then show ?thesis
    using run s(2,3) reach_step [OF demo_group_reach] by (auto simp: demo_buf_def)
qed

section \<open>Properties\<close>

text \<open>
  C4: In every state a user reaches, the two status lists of a group hold distinct buffers, the used ones
  with a positive and the unused ones with no reference, the counters and the usage are those of the
  lists, the service finds the group by its identifier, and every buffer of the group is in a list.
\<close>

theorem buffer_reach_invariant:
  assumes "env_ok env" and "buf_reach env s" and "bs_groups s g = Some p"
  shows "distinct (gp_list_used p @ gp_list_unused p) \<and>
    (\<forall>b\<in>set (gp_list_used p). \<exists>x. bs_bufs s b = Some x \<and> bf_used x \<and> 0 < bf_ref_count x) \<and>
    (\<forall>b\<in>set (gp_list_unused p). \<exists>x. bs_bufs s b = Some x \<and> \<not> bf_used x \<and> bf_ref_count x = 0) \<and>
    gp_count_used p = int (length (gp_list_used p)) \<and> gp_count_unused p = int (length (gp_list_unused p)) \<and>
    gp_buffer_count p = gp_count_used p + gp_count_unused p \<and>
    unat (gp_usage p) = (\<Sum>b\<leftarrow>gp_list_used p @ gp_list_unused p. buf_size (bs_bufs s) b) \<and>
    get_group_by_id s (gp_group_id p) = Some g \<and>
    (\<forall>b x. bs_bufs s b = Some x \<and> bf_group_id x = gp_group_id p \<longrightarrow> b \<in> set (gp_list_used p) \<union> set (gp_list_unused p))"
proof -
  note ok = buf_reach_ok [OF assms(2,1)]
  note gok = buf_okD(2) [OF ok assms(3)]
  have "b \<in> set (gp_list_used p) \<union> set (gp_list_unused p)" if x: "bs_bufs s b = Some x" "bf_group_id x = gp_group_id p" for b x
  proof -
    obtain h q where h: "bs_groups s h = Some q" "b \<in> set (members q)" "bf_group_id x = gp_group_id q"
      by (rule buf_owner [OF ok x(1)])
    then show ?thesis
      using same_id [OF ok h(1) assms(3)] x(2) assms(3) by (auto simp: members_def)
  qed
  moreover have "\<exists>x. bs_bufs s b = Some x \<and> bf_used x \<and> 0 < bf_ref_count x" if "b \<in> set (gp_list_used p)" for b
    using grp_okD(2) [OF gok that] by (auto simp: held_in_def)
  moreover have "\<exists>x. bs_bufs s b = Some x \<and> \<not> bf_used x \<and> bf_ref_count x = 0" if "b \<in> set (gp_list_unused p)" for b
    using grp_okD(3) [OF gok that] by (auto simp: idle_in_def)
  moreover have "gp_buffer_count p = gp_count_used p + gp_count_unused p"
    using grp_okD(5-7) [OF gok] by (simp add: members_def)
  ultimately show ?thesis
    using grp_okD(1,5,6,9) [OF gok] group_found [OF ok assms(3)] unfolding members_def by blast
qed

theorem buffer_reach_invariant_witness:
  "\<exists>s p. buf_reach demo_env s \<and> bs_groups s 0 = Some p \<and> gp_count_used p = 1 \<and> get_group_by_id s (gp_group_id p) = Some 0"
proof -
  obtain s where "buf_reach demo_env s" "bs_groups s = (\<lambda>_. None)(0 \<mapsto> add_buf 1 demo_info True demo_grp)"
    using demo_get by blast
  then show ?thesis
    using buffer_reach_invariant [OF demo_env_ok, of s 0 "add_buf 1 demo_info True demo_grp"]
    by (auto simp: add_buf_def demo_grp_def new_group_def)
qed

text \<open>
  C15: A request on a group that was not returned either reports that every unused buffer is too small, or
  delivers a buffer nobody held, with one reference and at least the requested size. Buffers in use do not
  change, and the request never fails in any other way.
\<close>

theorem get_gives_fresh_buffer:
  assumes "env_ok env" and "buf_reach env s" and "live_group s g" and "room s g" and "size_ok sz"
  shows "\<exists>r s'. mpp_buffer_get_with_tag env (Some g) True sz s = Inr (if r = None then MPP_NOK else MPP_OK, r, s') \<and>
    buf_reach env s' \<and> held_kept s s' \<and>
    (case r of
       None \<Rightarrow> \<forall>p. bs_groups s g = Some p \<longrightarrow> (\<forall>b\<in>set (gp_list_unused p). too_small s sz b)
     | Some b \<Rightarrow> fresh_buffer s s' sz b)"
proof -
  obtain p where p: "bs_groups s g = Some p" "\<not> gp_is_orphan p" "gp_buffer_count p < 2 ^ 31 - 1"
    using assms(3,4) by (auto simp: live_group_def room_def)
  from get_with_tag_ok [OF assms(1) buf_reach_ok [OF assms(2,1)] p(1,2) assms(5) p(3)] show ?thesis
    using reach_step [OF assms(2) step_get [OF assms(3-5)]] p(1) by (fastforce split: option.splits)
qed

theorem get_gives_fresh_buffer_witness:
  "\<exists>r s'. mpp_buffer_get_with_tag demo_env (Some 0) True 4096 demo_group = Inr (MPP_OK, Some r, s') \<and>
     fresh_buffer demo_group s' 4096 r"
proof -
  have "live_group demo_group 0" "room demo_group 0"
    by (simp_all add: live_group_def room_def demo_group_eq) (simp_all add: demo_grp_def new_group_def)
  then show ?thesis
    using get_gives_fresh_buffer [OF demo_env_ok demo_group_reach, of 0 4096] demo_get
    by (auto simp: size_ok_def)
qed

text \<open>
  C24: Giving a reference back leaves the other references of the buffer; with the last one the buffer goes
  to the unused list of its group, or is released when it was discarded or its group is a miscellaneous
  one. No other buffer changes.
\<close>

theorem put_gives_back:
  assumes "env_ok env" and "buf_reach env s" and "bs_bufs s b = Some x" and "0 < bf_ref_count x" and "\<not> ends_orphan s b"
  shows "\<exists>s' g p. mpp_buffer_put_with_caller (Some b) s = Inr (MPP_OK, s') \<and> buf_reach env s' \<and>
    get_group_by_id s (bf_group_id x) = Some g \<and> bs_groups s g = Some p \<and>
    bs_bufs s' = (bs_bufs s)(b := after_put p x)"
proof -
  note ok = buf_reach_ok [OF assms(2,1)]
  have h: "held s b"
    using assms(3,4) by (auto simp: held_def)
  obtain g p where g: "bs_groups s g = Some p" "b \<in> set (members p)" "bf_group_id x = gp_group_id p"
    by (rule buf_owner [OF ok assms(3)])
  have "\<not> (gp_is_orphan p \<and> members p = [b] \<and> after_put p x = None)"
    using assms(3,5) g(1) by (auto simp: ends_orphan_def)
  then obtain s' where s': "mpp_buffer_put_with_caller (Some b) s = Inr (MPP_OK, s')" "bs_bufs s' = (bs_bufs s)(b := after_put p x)"
    using ref_dec_ok [OF ok assms(3,4) g(1,2)] by (auto simp: mpp_buffer_put_with_caller_def)
  then show ?thesis
    using reach_step [OF assms(2) step_put [OF h assms(5) s'(1)]] group_found [OF ok g(1)] g(1,3) by auto
qed

theorem put_gives_back_witness:
  "\<exists>s s'. bs_bufs s 1 = Some demo_buf \<and> mpp_buffer_put_with_caller (Some 1) s = Inr (MPP_OK, s') \<and>
     bs_bufs s' 1 = Some (demo_buf\<lparr>bf_ref_count := 0, bf_used := False\<rparr>)"
proof -
  obtain s where s: "buf_reach demo_env s" "bs_bufs s = (\<lambda>_. None)(1 \<mapsto> demo_buf)"
    "bs_groups s = (\<lambda>_. None)(0 \<mapsto> add_buf 1 demo_info True demo_grp)"
    using demo_get by blast
  have "\<not> ends_orphan s 1"
    by (simp add: ends_orphan_def s(3)) (simp add: demo_grp_def new_group_def)
  then obtain s' g p where s': "mpp_buffer_put_with_caller (Some 1) s = Inr (MPP_OK, s')" "bs_groups s g = Some p"
    "bs_bufs s' = (bs_bufs s)(1 := after_put p demo_buf)"
    using put_gives_back [OF demo_env_ok s(1), of 1 demo_buf] s(2) by auto
  then have "p = add_buf 1 demo_info True demo_grp"
    by (auto simp: s(3) split: if_splits)
  then have "after_put p demo_buf = Some (demo_buf\<lparr>bf_ref_count := 0, bf_used := False\<rparr>)"
    by (simp add: after_put_def stays_def demo_grp_def new_group_def)
  then show ?thesis
    using s(2) s' by (intro exI [of _ s] exI [of _ s']) simp
qed

text \<open>
  C29: Returning a group gives every unused buffer back to the allocator, each one exactly once and in order,
  and leaves all other buffers. The group itself is gone if no buffer is in use; otherwise it waits as an
  orphan with the used ones.
\<close>

theorem group_put_releases_unused:
  assumes "env_ok env" and "buf_reach env s" and "bs_groups s g = Some p" and "\<not> gp_is_orphan p"
  shows "\<exists>s'. mpp_buffer_group_put (Some g) s = Inr (MPP_OK, s') \<and> buf_reach env s' \<and>
    bs_events s' = bs_events s @ concat (map (\<lambda>b. end_events (the (bs_bufs s b))) (gp_list_unused p)) \<and>
    (\<forall>b. bs_bufs s' b = (if b \<in> set (gp_list_unused p) then None else bs_bufs s b)) \<and>
    (\<forall>h. h \<noteq> g \<longrightarrow> bs_groups s' h = bs_groups s h) \<and>
    (if gp_list_used p = [] then bs_groups s' g = None
     else \<exists>q. bs_groups s' g = Some q \<and> gp_is_orphan q \<and> gp_list_used q = gp_list_used p \<and> gp_list_unused q = [])"
proof -
  note ok = buf_reach_ok [OF assms(2,1)]
  obtain s1 p1 s' where s1: "service_put_group (Suc (bs_next s)) True g s = Inr s'" "released s s1 g p1 (gp_list_unused p)"
    "same_group p p1" "gp_list_unused p1 = []" "bs_bufs s' = bs_bufs s1" "bs_events s' = bs_events s1"
    "bs_groups s' = (bs_groups s)(g := if gp_list_used p = [] then None else Some (p1\<lparr>gp_is_orphan := True\<rparr>))"
    using put_group_ok [OF ok assms(3,4), of "bs_next s"] by (auto simp del: service_put_group.simps)
  have run: "mpp_buffer_group_put (Some g) s = Inr (MPP_OK, s')"
    using s1(1) by (simp add: mpp_buffer_group_put_def mpp_buffer_group_deinit_def get_srv_ok [OF ok]
        call_put_group_def del: service_put_group.simps)
  have "live_group s g"
    using assms(3,4) by (simp add: live_group_def)
  then have "buf_reach env s'"
    using reach_step [OF assms(2) step_group_put [OF _ run]] by blast
  then show ?thesis
    using run s1(2-7) by (auto simp: released_def same_group_def)
qed

theorem group_put_releases_unused_witness:
  "\<exists>s'. mpp_buffer_group_put (Some 0) demo_group = Inr (MPP_OK, s') \<and> bs_groups s' 0 = None"
  using group_put_releases_unused [OF demo_env_ok demo_group_reach, of 0 demo_grp]
  by (auto simp: demo_group_eq) (auto simp: demo_grp_def new_group_def)

text \<open>
  C23: A group that is returned while its last buffer is in use is never released: when the user gives that
  buffer back, it goes to the unused list of the orphan group, and no sequence of calls ever changes the
  group or its buffer again.
\<close>

theorem orphan_put_leaks:
  assumes "env_ok env" and "buf_reach env s" and "bs_groups s g = Some p" and "gp_is_orphan p"
    and "gp_list_used p = [b]" and "bs_bufs s b = Some x" and "bf_ref_count x = 1" and "\<not> bf_discard x" and "\<not> gp_is_misc p"
  shows "\<exists>s'. mpp_buffer_put_with_caller (Some b) s = Inr (MPP_OK, s') \<and>
    (\<forall>s''. (buf_step env)\<^sup>*\<^sup>* s' s'' \<longrightarrow>
      bs_bufs s'' b = Some (x\<lparr>bf_ref_count := 0, bf_used := False\<rparr>) \<and>
      (\<exists>q. bs_groups s'' g = Some q \<and> gp_is_orphan q \<and> b \<in> set (gp_list_unused q)))"
proof -
  note ok = buf_reach_ok [OF assms(2,1)]
  have st: "stays p x"
    using assms(8,9) by (simp add: stays_def)
  have after: "after_put p x = Some (x\<lparr>bf_ref_count := 0, bf_used := False\<rparr>)"
    using st assms(7) by (simp add: after_put_def)
  have b: "b \<in> set (members p)" "0 < bf_ref_count x"
    using assms(5,7) by (simp_all add: members_def)
  obtain s' q where s': "mpp_buffer_ref_dec b s = Inr (MPP_OK, s')" "buf_ok s'" "bs_bufs s' b = after_put p x"
    "bs_groups s' g = Some q" "gp_is_orphan q" "gp_list_used q = []" "b \<in> set (gp_list_unused q)"
    using ref_dec_ok [OF ok assms(6) b(2) assms(3) b(1)] after st assms(4,5,7) by auto
  have "stranded g q s'"
    using s' by (simp add: stranded_def)
  then have kept: "kept_group g q s' s''" if "(buf_step env)\<^sup>*\<^sup>* s' s''" for s''
    using stranded_forever [OF that assms(1) s'(2)] by simp
  have "bs_bufs s'' b = Some (x\<lparr>bf_ref_count := 0, bf_used := False\<rparr>) \<and> bs_groups s'' g = Some q"
    if "(buf_step env)\<^sup>*\<^sup>* s' s''" for s''
    using kept [OF that] s'(3,7) after by (simp add: kept_group_def members_def)
  then show ?thesis
    using s'(1,5,7) by (auto simp: mpp_buffer_put_with_caller_def)
qed

text \<open>The group of the run is returned while its buffer is in use.\<close>

lemma demo_orphan:
  "\<exists>s q. buf_reach demo_env s \<and> bs_bufs s = (\<lambda>_. None)(1 \<mapsto> demo_buf) \<and> bs_groups s 0 = Some q \<and> gp_is_orphan q \<and>
     gp_list_used q = [1] \<and> gp_list_unused q = [] \<and> \<not> gp_is_misc q"
proof -
  obtain s where s: "buf_reach demo_env s" "bs_bufs s = (\<lambda>_. None)(1 \<mapsto> demo_buf)"
    "bs_groups s = (\<lambda>_. None)(0 \<mapsto> add_buf 1 demo_info True demo_grp)"
    using demo_get by blast
  let ?p = "add_buf 1 demo_info True demo_grp"
  have p: "bs_groups s 0 = Some ?p" "\<not> gp_is_orphan ?p" "gp_list_used ?p = [1]" "gp_list_unused ?p = []" "\<not> gp_is_misc ?p"
    using s(3) by (simp_all add: add_buf_def demo_grp_def new_group_def)
  note ok = buf_reach_ok [OF s(1) demo_env_ok]
  obtain s1 p1 t where t: "service_put_group (Suc (bs_next s)) True 0 s = Inr t" "released s s1 0 p1 []"
    "same_group ?p p1" "gp_list_unused p1 = []" "bs_bufs t = bs_bufs s1"
    "bs_groups t = (bs_groups s)(0 := Some (p1\<lparr>gp_is_orphan := True\<rparr>))"
    using put_group_ok [OF ok p(1,2), of "bs_next s"] p(3,4) by (auto simp del: service_put_group.simps)
  have "mpp_buffer_group_put (Some 0) s = Inr (MPP_OK, t)"
    using t(1) by (simp add: mpp_buffer_group_put_def mpp_buffer_group_deinit_def get_srv_ok [OF ok]
        call_put_group_def del: service_put_group.simps)
  moreover have "live_group s 0"
    using p(1,2) by (simp add: live_group_def)
  ultimately have "buf_reach demo_env t"
    using reach_step [OF s(1) step_group_put] by blast
  then show ?thesis
    using t(2-6) s(2) p(3,5)
    by (intro exI [of _ t] exI [of _ "p1\<lparr>gp_is_orphan := True\<rparr>"]) (simp add: released_def same_group_def fun_eq_iff)
qed

theorem orphan_put_leaks_witness:
  "\<exists>s s'. mpp_buffer_put_with_caller (Some 1) s = Inr (MPP_OK, s') \<and> bs_bufs s' 1 \<noteq> None \<and> (\<exists>q. bs_groups s' 0 = Some q \<and> gp_is_orphan q)"
proof -
  obtain s q where s: "buf_reach demo_env s" "bs_bufs s = (\<lambda>_. None)(1 \<mapsto> demo_buf)" "bs_groups s 0 = Some q" "gp_is_orphan q"
    "gp_list_used q = [1]" "\<not> gp_is_misc q"
    using demo_orphan by blast
  then show ?thesis
    using orphan_put_leaks [OF demo_env_ok s(1,3-5), of demo_buf] by fastforce
qed

text \<open>
  C30: When that last buffer was discarded, giving it back releases the group first and then uses it: its
  callback is read and its lock is released although the group has gone back to the pool.
\<close>

theorem orphan_put_uses_freed_group:
  assumes "env_ok env" and "buf_reach env s" and "bs_groups s g = Some p" and "gp_is_orphan p"
    and "gp_list_used p = [b]" and "gp_list_unused p = []" and "bs_bufs s b = Some x" and "bf_ref_count x = 1" and "bf_discard x"
  shows "mpp_buffer_put_with_caller (Some b) s = Inl Freed_Access"
proof -
  have "members p = [b]"
    using assms(5,6) by (simp add: members_def)
  then show ?thesis
    using ref_dec_orphan_faults [OF buf_reach_ok [OF assms(2,1)] assms(7,3)] assms(4,8,9)
    by (simp add: mpp_buffer_put_with_caller_def stays_def)
qed

theorem orphan_put_uses_freed_group_witness:
  "\<exists>s s'. buf_reach demo_env s \<and> mpp_buffer_discard_with_caller (Some 1) s = Inr (MPP_OK, s') \<and>
     mpp_buffer_put_with_caller (Some 1) s' = Inl Freed_Access"
proof -
  obtain s q where s: "buf_reach demo_env s" "bs_bufs s = (\<lambda>_. None)(1 \<mapsto> demo_buf)" "bs_groups s 0 = Some q" "gp_is_orphan q"
    "gp_list_used q = [1]" "gp_list_unused q = []"
    using demo_orphan by blast
  let ?t = "set_buf 1 (demo_buf\<lparr>bf_discard := True\<rparr>) s"
  have d: "mpp_buffer_discard_with_caller (Some 1) s = Inr (MPP_OK, ?t)"
    using discard_ok(1) [OF buf_reach_ok [OF s(1) demo_env_ok], of 1 demo_buf] s(2)
    by (simp add: mpp_buffer_discard_with_caller_def)
  have "held s 1"
    using s(2) by (simp add: held_def)
  then have r: "buf_reach demo_env ?t"
    using reach_step [OF s(1) step_discard [OF _ d]] by blast
  have "mpp_buffer_put_with_caller (Some 1) ?t = Inl Freed_Access"
    by (rule orphan_put_uses_freed_group [OF demo_env_ok r, of 0 q 1 "demo_buf\<lparr>bf_discard := True\<rparr>"])
      (use s(3-6) in \<open>simp_all add: set_buf_def\<close>)
  then show ?thesis
    using s(1) d by blast
qed

end
