(* ===== verification/Mpp_Enc_Ref.thy ===== *)
theory Mpp_Enc_Ref
  imports Mpp_Prelude
begin

text \<open>
  The reference configuration of the encoder: \<open>inc/rk_venc_ref.h\<close>, \<open>mpp/base/inc/mpp_enc_ref.h\<close> and the
  operations of \<open>mpp/base/mpp_enc_ref.c\<close> that build a configuration (its check, which runs the virtual
  picture buffer, is in \<open>Mpp_Enc_Check\<close>). A configuration pointer is an option of the object it points
  to. An enumerator of \<open>MppEncRefMode\<close> is its value, because the code also meets values outside the
  enumeration. A parameter of type \<open>bool\<close> named after an allocation tells whether it succeeds.
\<close>

section \<open>Reference modes\<close>

abbreviation (input) REF_TO_PREV_REF_FRM :: int where "REF_TO_PREV_REF_FRM \<equiv> 0"
abbreviation (input) REF_TO_PREV_ST_REF :: int where "REF_TO_PREV_ST_REF \<equiv> 1"
abbreviation (input) REF_TO_PREV_LT_REF :: int where "REF_TO_PREV_LT_REF \<equiv> 2"
abbreviation (input) REF_TO_PREV_INTRA :: int where "REF_TO_PREV_INTRA \<equiv> 3"
abbreviation (input) REF_TO_TEMPORAL_LAYER :: int where "REF_TO_TEMPORAL_LAYER \<equiv> 4"
abbreviation (input) REF_TO_LT_REF_IDX :: int where "REF_TO_LT_REF_IDX \<equiv> 5"
abbreviation (input) REF_TO_ST_PREV_N_REF :: int where "REF_TO_ST_PREV_N_REF \<equiv> 6"
abbreviation (input) REF_MODE_GLOBAL_BUTT :: int where "REF_MODE_GLOBAL_BUTT \<equiv> 7"
abbreviation (input) REF_MODE_LT :: int where "REF_MODE_LT \<equiv> 0x18"
abbreviation (input) REF_TO_ST_REF_SETUP :: int where "REF_TO_ST_REF_SETUP \<equiv> 0x19"
abbreviation (input) REF_MODE_LT_BUTT :: int where "REF_MODE_LT_BUTT \<equiv> 0x1A"
abbreviation (input) REF_MODE_ST :: int where "REF_MODE_ST \<equiv> 0x1C"
abbreviation (input) REF_TO_LT_REF_SETUP :: int where "REF_TO_LT_REF_SETUP \<equiv> 0x1D"
abbreviation (input) REF_MODE_ST_BUTT :: int where "REF_MODE_ST_BUTT \<equiv> 0x1E"

definition REF_MODE_IS_GLOBAL :: "int \<Rightarrow> bool" where
  "REF_MODE_IS_GLOBAL mode \<longleftrightarrow> mode \<ge> REF_TO_PREV_REF_FRM \<and> mode < REF_MODE_GLOBAL_BUTT"

definition REF_MODE_IS_LT_MODE :: "int \<Rightarrow> bool" where
  "REF_MODE_IS_LT_MODE mode \<longleftrightarrow> mode > REF_MODE_LT \<and> mode < REF_MODE_LT_BUTT"

definition REF_MODE_IS_ST_MODE :: "int \<Rightarrow> bool" where
  "REF_MODE_IS_ST_MODE mode \<longleftrightarrow> mode > REF_MODE_ST \<and> mode < REF_MODE_ST_BUTT"

abbreviation (input) MPP_ENC_MAX_TEMPORAL_LAYER_NUM :: int where "MPP_ENC_MAX_TEMPORAL_LAYER_NUM \<equiv> 4"
abbreviation (input) MPP_ENC_MAX_LT_REF_NUM :: int where "MPP_ENC_MAX_LT_REF_NUM \<equiv> 16"

section \<open>Data\<close>

record MppEncRefLtFrmCfg =
  lc_lt_idx :: int
  lc_temporal_id :: int
  lc_ref_mode :: int
  lc_ref_arg :: int
  lc_lt_gap :: int
  lc_lt_delay :: int

record MppEncRefStFrmCfg =
  sc_is_non_ref :: int
  sc_temporal_id :: int
  sc_ref_mode :: int
  sc_ref_arg :: int
  sc_repeat :: int

record MppEncCpbInfo =
  dpb_size :: int
  max_lt_cnt :: int
  max_st_cnt :: int
  max_lt_idx :: int
  max_st_tid :: int
  lt_gop :: int
  st_gop :: int

record MppEncRefCfgImpl =
  cfg_name :: string
  cfg_ready :: bool
  cfg_keep_cpb :: bool
  max_lt_cfg :: int
  max_st_cfg :: int
  lt_cfg_cnt :: int
  st_cfg_cnt :: int
  max_tlayers :: int
  lt_cfg :: "MppEncRefLtFrmCfg list option"
  st_cfg :: "MppEncRefStFrmCfg list option"
  cpb_info :: MppEncCpbInfo

definition MODULE_TAG :: string where
  "MODULE_TAG = ''mpp_enc_ref''"

text \<open>What \<open>calloc\<close> returns for each structure.\<close>

definition lt_frm_cfg_0 :: MppEncRefLtFrmCfg where
  "lt_frm_cfg_0 = \<lparr>lc_lt_idx = 0, lc_temporal_id = 0, lc_ref_mode = 0, lc_ref_arg = 0, lc_lt_gap = 0,
     lc_lt_delay = 0\<rparr>"

definition st_frm_cfg_0 :: MppEncRefStFrmCfg where
  "st_frm_cfg_0 = \<lparr>sc_is_non_ref = 0, sc_temporal_id = 0, sc_ref_mode = 0, sc_ref_arg = 0, sc_repeat = 0\<rparr>"

definition cpb_info_0 :: MppEncCpbInfo where
  "cpb_info_0 = \<lparr>dpb_size = 0, max_lt_cnt = 0, max_st_cnt = 0, max_lt_idx = 0, max_st_tid = 0, lt_gop = 0,
     st_gop = 0\<rparr>"

definition ref_cfg_0 :: MppEncRefCfgImpl where
  "ref_cfg_0 = \<lparr>cfg_name = MODULE_TAG, cfg_ready = False, cfg_keep_cpb = False, max_lt_cfg = 0,
     max_st_cfg = 0, lt_cfg_cnt = 0, st_cfg_cnt = 0, max_tlayers = 0, lt_cfg = None, st_cfg = None,
     cpb_info = cpb_info_0\<rparr>"

section \<open>Building a configuration\<close>

definition check_is_mpp_enc_ref_cfg :: "MppEncRefCfgImpl option \<Rightarrow> mpp_ret" where
  "check_is_mpp_enc_ref_cfg ref =
     (case ref of None \<Rightarrow> MPP_NOK | Some r \<Rightarrow> if cfg_name r \<noteq> MODULE_TAG then MPP_NOK else MPP_OK)"

text \<open>\<open>ref\<close> tells whether the pointer to the caller's handle is not null.\<close>

definition mpp_enc_ref_cfg_init :: "bool \<Rightarrow> bool \<Rightarrow> mpp_ret \<times> MppEncRefCfgImpl option" where
  "mpp_enc_ref_cfg_init alloc ref =
     (if \<not> ref then (MPP_ERR_NULL_PTR, None)
      else if \<not> alloc then (MPP_ERR_NULL_PTR, None)
      else (MPP_OK, Some ref_cfg_0))"

definition mpp_enc_ref_cfg_deinit :: "bool \<Rightarrow> MppEncRefCfgImpl option \<Rightarrow> mpp_ret \<times> MppEncRefCfgImpl option" where
  "mpp_enc_ref_cfg_deinit ref p =
     (if \<not> ref \<or> check_is_mpp_enc_ref_cfg p \<noteq> MPP_OK then (MPP_ERR_VALUE, p)
      else (MPP_OK, None))"

definition mpp_enc_ref_cfg_reset :: "MppEncRefCfgImpl option \<Rightarrow> mpp_ret \<times> MppEncRefCfgImpl option" where
  "mpp_enc_ref_cfg_reset ref =
     (if check_is_mpp_enc_ref_cfg ref \<noteq> MPP_OK then (MPP_ERR_VALUE, ref)
      else (MPP_OK, Some ref_cfg_0))"

definition calloc_array :: "bool \<Rightarrow> int \<Rightarrow> 'a \<Rightarrow> 'a list option" where
  "calloc_array alloc n z = (if alloc \<and> n \<ge> 0 then Some (replicate (nat n) z) else None)"

definition mpp_enc_ref_cfg_set_cfg_cnt ::
  "bool \<Rightarrow> bool \<Rightarrow> MppEncRefCfgImpl option \<Rightarrow> int \<Rightarrow> int \<Rightarrow> mpp_ret \<times> MppEncRefCfgImpl option" where
  "mpp_enc_ref_cfg_set_cfg_cnt alloc_lt alloc_st ref lt_cnt st_cnt =
     (if check_is_mpp_enc_ref_cfg ref \<noteq> MPP_OK then (MPP_ERR_NULL_PTR, ref)
      else (MPP_OK, map_option (\<lambda>p. p
        \<lparr>max_lt_cfg := lt_cnt, max_st_cfg := st_cnt, lt_cfg_cnt := 0, st_cfg_cnt := 0,
         lt_cfg := (if lt_cnt \<noteq> 0 then calloc_array alloc_lt lt_cnt lt_frm_cfg_0 else None),
         st_cfg := (if st_cnt \<noteq> 0 then calloc_array alloc_st st_cnt st_frm_cfg_0 else None)\<rparr>) ref))"

text \<open>\<open>memcpy(&arr[pos], src, sizeof(*src) * cnt)\<close>.\<close>

definition memcpy_at :: "'a list option \<Rightarrow> int \<Rightarrow> 'a list \<Rightarrow> int \<Rightarrow> 'a list option run" where
  "memcpy_at arr pos src cnt =
     (if cnt = 0 then Inr arr
      else case arr of
        None \<Rightarrow> Inl Null_Deref
      | Some xs \<Rightarrow>
          if 0 \<le> pos \<and> 0 < cnt \<and> pos + cnt \<le> int (length xs) \<and> cnt \<le> int (length src)
          then Inr (Some (take (nat pos) xs @ take (nat cnt) src @ drop (nat (pos + cnt)) xs))
          else Inl Out_Of_Bounds)"

definition mpp_enc_ref_cfg_add_lt_cfg ::
  "MppEncRefCfgImpl option \<Rightarrow> int \<Rightarrow> MppEncRefLtFrmCfg list \<Rightarrow> (mpp_ret \<times> MppEncRefCfgImpl option) run" where
  "mpp_enc_ref_cfg_add_lt_cfg ref cnt frm =
     (case ref of
        None \<Rightarrow> Inr (MPP_ERR_VALUE, None)
      | Some p \<Rightarrow>
          if check_is_mpp_enc_ref_cfg ref \<noteq> MPP_OK then Inr (MPP_ERR_VALUE, Some p)
          else run_bind (memcpy_at (lt_cfg p) (lt_cfg_cnt p) frm cnt) (\<lambda>a.
            Inr (MPP_OK, Some (p\<lparr>lt_cfg_cnt := lt_cfg_cnt p + cnt, lt_cfg := a\<rparr>))))"

definition mpp_enc_ref_cfg_add_st_cfg ::
  "MppEncRefCfgImpl option \<Rightarrow> int \<Rightarrow> MppEncRefStFrmCfg list \<Rightarrow> (mpp_ret \<times> MppEncRefCfgImpl option) run" where
  "mpp_enc_ref_cfg_add_st_cfg ref cnt frm =
     (case ref of
        None \<Rightarrow> Inr (MPP_ERR_VALUE, None)
      | Some p \<Rightarrow>
          if check_is_mpp_enc_ref_cfg ref \<noteq> MPP_OK then Inr (MPP_ERR_VALUE, Some p)
          else run_bind (memcpy_at (st_cfg p) (st_cfg_cnt p) frm cnt) (\<lambda>a.
            Inr (MPP_OK, Some (p\<lparr>st_cfg_cnt := st_cfg_cnt p + cnt, st_cfg := a\<rparr>))))"

definition mpp_enc_ref_cfg_set_keep_cpb ::
  "MppEncRefCfgImpl option \<Rightarrow> int \<Rightarrow> mpp_ret \<times> MppEncRefCfgImpl option" where
  "mpp_enc_ref_cfg_set_keep_cpb ref keep =
     (if check_is_mpp_enc_ref_cfg ref \<noteq> MPP_OK then (MPP_ERR_VALUE, ref)
      else (MPP_OK, map_option (cfg_keep_cpb_update (\<lambda>_. keep \<noteq> 0)) ref))"

definition mpp_enc_ref_cfg_show :: "MppEncRefCfgImpl option \<Rightarrow> mpp_ret" where
  "mpp_enc_ref_cfg_show ref = (if check_is_mpp_enc_ref_cfg ref \<noteq> MPP_OK then MPP_ERR_VALUE else MPP_OK)"

text \<open>
  Step 3 of the copy: a new array of \<open>max\<close> elements filled from the source. The result is the return
  code, the new pointer, or a fault when the source has fewer elements.
\<close>

definition copy_cfg_array :: "bool \<Rightarrow> 'a \<Rightarrow> int \<Rightarrow> 'a list option \<Rightarrow> (mpp_ret \<times> 'a list option) run" where
  "copy_cfg_array alloc z mx src =
     (if mx = 0 then Inr (MPP_OK, src)
      else case calloc_array alloc mx z of
        None \<Rightarrow> Inr (MPP_NOK, None)
      | Some a \<Rightarrow> run_bind (memcpy_at (Some a) 0 (case src of None \<Rightarrow> [] | Some s \<Rightarrow> s) mx) (\<lambda>a. Inr (MPP_OK, a)))"

definition mpp_enc_ref_cfg_copy ::
  "bool \<Rightarrow> bool \<Rightarrow> MppEncRefCfgImpl option \<Rightarrow> MppEncRefCfgImpl option \<Rightarrow> (mpp_ret \<times> MppEncRefCfgImpl option) run" where
  "mpp_enc_ref_cfg_copy alloc_lt alloc_st dst src =
     (case (dst, src) of
        (Some d, Some s) \<Rightarrow>
          if check_is_mpp_enc_ref_cfg dst \<noteq> MPP_OK \<or> check_is_mpp_enc_ref_cfg src \<noteq> MPP_OK
          then Inr (MPP_ERR_VALUE, dst)
          else run_bind (copy_cfg_array alloc_lt lt_frm_cfg_0 (max_lt_cfg s) (lt_cfg s)) (\<lambda>(r1, lt).
            run_bind (copy_cfg_array alloc_st st_frm_cfg_0 (max_st_cfg s) (st_cfg s)) (\<lambda>(r2, st).
              let d = s\<lparr>lt_cfg := lt, st_cfg := st\<rparr>
              in if r1 \<noteq> MPP_OK \<or> r2 \<noteq> MPP_OK then Inr (MPP_NOK, snd (mpp_enc_ref_cfg_reset (Some d)))
                 else Inr (MPP_OK, Some d)))
      | _ \<Rightarrow> Inr (MPP_ERR_VALUE, dst))"

definition mpp_enc_ref_cfg_get_cpb_info :: "MppEncRefCfgImpl option \<Rightarrow> MppEncCpbInfo option" where
  "mpp_enc_ref_cfg_get_cpb_info ref =
     (if check_is_mpp_enc_ref_cfg ref \<noteq> MPP_OK then None else map_option cpb_info ref)"

definition default_st_ref_cfg :: MppEncRefStFrmCfg where
  "default_st_ref_cfg = \<lparr>sc_is_non_ref = 0, sc_temporal_id = 0, sc_ref_mode = REF_TO_PREV_REF_FRM,
     sc_ref_arg = 0, sc_repeat = 0\<rparr>"

definition mpp_enc_ref_default :: MppEncRefCfgImpl where
  "mpp_enc_ref_default = \<lparr>cfg_name = MODULE_TAG, cfg_ready = True, cfg_keep_cpb = False, max_lt_cfg = 0,
     max_st_cfg = 1, lt_cfg_cnt = 0, st_cfg_cnt = 1, max_tlayers = 1, lt_cfg = None,
     st_cfg = Some [default_st_ref_cfg],
     cpb_info = \<lparr>dpb_size = 1, max_lt_cnt = 0, max_st_cnt = 1, max_lt_idx = 0, max_st_tid = 0,
       lt_gop = 0, st_gop = 0\<rparr>\<rparr>"

section \<open>Adding and copying\<close>

text \<open>A configuration that holds exactly the given entries.\<close>

definition cfg_holds :: "MppEncRefLtFrmCfg list \<Rightarrow> MppEncRefStFrmCfg list \<Rightarrow> MppEncRefCfgImpl \<Rightarrow> bool" where
  "cfg_holds lts sts p \<longleftrightarrow> cfg_name p = MODULE_TAG
     \<and> lt_cfg_cnt p = int (length lts) \<and> lt_cfg p = (if lts = [] then None else Some lts)
     \<and> st_cfg_cnt p = int (length sts) \<and> st_cfg p = (if sts = [] then None else Some sts)"

lemma check_is_ok [simp]: "check_is_mpp_enc_ref_cfg (Some p) = MPP_OK \<longleftrightarrow> cfg_name p = MODULE_TAG"
  by (simp add: check_is_mpp_enc_ref_cfg_def)

lemma memcpy_at_fills:
  "length a = length xs \<Longrightarrow> memcpy_at (if xs = [] then None else Some a) 0 xs (int (length xs))
     = Inr (if xs = [] then None else Some xs)"
  by (simp add: memcpy_at_def)

lemma calloc_array_if:
  "(if int n \<noteq> 0 then calloc_array True (int n) z else None) = (if n = 0 then None else Some (replicate n z))"
  by (simp add: calloc_array_def)

text \<open>Announcing the counts and adding the entries builds the configuration.\<close>

definition build_cfg ::
  "MppEncRefLtFrmCfg list \<Rightarrow> MppEncRefStFrmCfg list \<Rightarrow> MppEncRefCfgImpl \<Rightarrow> (mpp_ret \<times> MppEncRefCfgImpl option) run" where
  "build_cfg lts sts p =
     (let (_, p) = mpp_enc_ref_cfg_set_cfg_cnt True True (Some p) (int (length lts)) (int (length sts))
      in run_bind (mpp_enc_ref_cfg_add_lt_cfg p (int (length lts)) lts) (\<lambda>(_, p).
           mpp_enc_ref_cfg_add_st_cfg p (int (length sts)) sts))"

lemma build_cfg_holds:
  assumes "cfg_name p = MODULE_TAG"
  shows "\<exists>q. build_cfg lts sts p = Inr (MPP_OK, Some q) \<and> cfg_holds lts sts q \<and> cfg_ready q = cfg_ready p
    \<and> cfg_keep_cpb q = cfg_keep_cpb p"
  using assms memcpy_at_fills [of "replicate (length lts) lt_frm_cfg_0" lts]
    memcpy_at_fills [of "replicate (length sts) st_frm_cfg_0" sts]
  unfolding build_cfg_def mpp_enc_ref_cfg_set_cfg_cnt_def mpp_enc_ref_cfg_add_lt_cfg_def
    mpp_enc_ref_cfg_add_st_cfg_def calloc_array_if
  by (simp add: cfg_holds_def)

end
