(* ===== verification/Mpp_Enc_Refs.thy ===== *)
theory Mpp_Enc_Refs
  imports Mpp_Enc_Ref
begin

text \<open>
  The virtual coded picture buffer of the encoder, \<open>mpp/base/mpp_enc_refs.c\<close>: which frames are kept as
  references, and which one each new frame refers to. The frame status union of \<open>inc/mpp_rc_defs.h\<close> is a
  record with one field per bit field, at its width; copying \<open>val\<close> copies the record. The C arrays of
  fixed size are lists (their lengths are an invariant of \<open>Mpp_Enc_Refs_Props\<close>). \<open>ref_cfg\<close> is the
  configuration object itself: the encoder owns the object and does not change it while it is in use.
  The dump functions and the debug prints have no effect on the state and are left out.
\<close>

section \<open>Data\<close>

record EncFrmStatus =
  fs_valid :: bool
  fs_non_recn :: bool
  fs_save_pass1 :: bool
  fs_use_pass1 :: bool
  fs_is_intra :: bool
  fs_is_idr :: bool
  fs_is_non_ref :: bool
  fs_is_lt_ref :: bool
  fs_lt_idx :: "4 word"
  fs_temporal_id :: "4 word"
  fs_ref_mode :: "6 word"
  fs_ref_arg :: "8 word"
  fs_ref_dist :: "2 word"
  fs_drop :: bool
  fs_re_dpb_proc :: bool
  fs_reencode :: bool
  fs_super_frame :: bool
  fs_force_pskip :: bool
  fs_force_pskip_is_ref :: bool
  fs_is_i_refresh :: bool
  fs_is_i_recovery :: bool
  fs_reencode_times :: "8 word"
  fs_seq_idx :: "16 word"

definition frm_0 :: EncFrmStatus where
  "frm_0 = \<lparr>fs_valid = False, fs_non_recn = False, fs_save_pass1 = False, fs_use_pass1 = False,
     fs_is_intra = False, fs_is_idr = False, fs_is_non_ref = False, fs_is_lt_ref = False, fs_lt_idx = 0,
     fs_temporal_id = 0, fs_ref_mode = 0, fs_ref_arg = 0, fs_ref_dist = 0, fs_drop = False,
     fs_re_dpb_proc = False, fs_reencode = False, fs_super_frame = False, fs_force_pskip = False,
     fs_force_pskip_is_ref = False, fs_is_i_refresh = False, fs_is_i_recovery = False,
     fs_reencode_times = 0, fs_seq_idx = 0\<rparr>"

record EncCpbStatus =
  es_seq_idx :: int
  es_curr :: EncFrmStatus
  es_refr :: EncFrmStatus
  es_init :: "EncFrmStatus list"
  es_final :: "EncFrmStatus list"

abbreviation (input) MAX_CPB_REFS :: nat where "MAX_CPB_REFS \<equiv> 8"
abbreviation (input) MAX_CPB_ST_FRM :: nat where "MAX_CPB_ST_FRM \<equiv> 16"
abbreviation (input) MAX_CPB_LT_FRM :: nat where "MAX_CPB_LT_FRM \<equiv> 16"
abbreviation (input) MAX_CPB_TID_FRM :: nat where "MAX_CPB_TID_FRM \<equiv> 16"
abbreviation (input) MAX_CPB_LT_IDX :: nat where "MAX_CPB_LT_IDX \<equiv> 16"
abbreviation (input) MAX_CPB_FRM :: nat where "MAX_CPB_FRM \<equiv> 32"

record RefsCnt =
  rc_delay :: int
  rc_delay_cnt :: int
  rc_len :: int
  rc_cnt :: int
  rc_idx :: int
  rc_lt_idx :: int
  rc_tid :: int
  rc_ref_mode :: int
  rc_ref_arg :: int

definition refs_cnt_0 :: RefsCnt where
  "refs_cnt_0 = \<lparr>rc_delay = 0, rc_delay_cnt = 0, rc_len = 0, rc_cnt = 0, rc_idx = 0, rc_lt_idx = 0,
     rc_tid = 0, rc_ref_mode = 0, rc_ref_arg = 0\<rparr>"

record EncVirtualCpb =
  cpb_cpb_info :: MppEncCpbInfo
  cpb_refs :: "EncFrmStatus list"
  mode_refs :: "EncFrmStatus list"
  st_tid_refs :: "EncFrmStatus list"
  lt_idx_refs :: "EncFrmStatus list"
  lt_cnter :: "RefsCnt list"
  cpb_list0 :: "EncFrmStatus list"
  cpb_list1 :: "EncFrmStatus list"
  cpb_st :: "EncFrmStatus list"
  frm_idx :: int
  seq_idx :: int
  seq_cnt :: int
  st_cfg_pos :: int
  st_cfg_repeat_pos :: int

definition virtual_cpb_0 :: EncVirtualCpb where
  "virtual_cpb_0 = \<lparr>cpb_cpb_info = cpb_info_0, cpb_refs = replicate MAX_CPB_FRM frm_0,
     mode_refs = replicate MAX_CPB_FRM frm_0, st_tid_refs = replicate MAX_CPB_TID_FRM frm_0,
     lt_idx_refs = replicate MAX_CPB_LT_IDX frm_0, lt_cnter = replicate MAX_CPB_LT_IDX refs_cnt_0,
     cpb_list0 = replicate 2 frm_0, cpb_list1 = replicate 2 frm_0, cpb_st = replicate 2 frm_0,
     frm_idx = 0, seq_idx = 0, seq_cnt = 0, st_cfg_pos = 0, st_cfg_repeat_pos = 0\<rparr>"

record MppEncRefFrmUsrCfg =
  force_flag :: u32
  force_idr :: int
  force_pskip :: int
  force_nonref :: int
  force_lt_idx :: int
  force_temporal_id :: int
  force_ref_mode :: int
  force_ref_arg :: int

abbreviation (input) ENC_FORCE_IDR :: u32 where "ENC_FORCE_IDR \<equiv> 0x01"
abbreviation (input) ENC_FORCE_LT_REF_IDX :: u32 where "ENC_FORCE_LT_REF_IDX \<equiv> 0x04"
abbreviation (input) ENC_FORCE_TEMPORAL_ID :: u32 where "ENC_FORCE_TEMPORAL_ID \<equiv> 0x08"
abbreviation (input) ENC_FORCE_REF_MODE :: u32 where "ENC_FORCE_REF_MODE \<equiv> 0x10"
abbreviation (input) ENC_FORCE_PSKIP_IS_REF :: u32 where "ENC_FORCE_PSKIP_IS_REF \<equiv> 0x20"
abbreviation (input) ENC_FORCE_PSKIP_NON_REF :: u32 where "ENC_FORCE_PSKIP_NON_REF \<equiv> 0x40"

definition usr_cfg_0 :: MppEncRefFrmUsrCfg where
  "usr_cfg_0 = \<lparr>force_flag = 0, force_idr = 0, force_pskip = 0, force_nonref = 0, force_lt_idx = 0,
     force_temporal_id = 0, force_ref_mode = 0, force_ref_arg = 0\<rparr>"

record MppEncRefsImpl =
  chg_ref_cfg :: bool
  chg_usr_cfg :: bool
  chg_igop :: bool
  refs_cfg :: "MppEncRefCfgImpl option"
  usr_cfg :: MppEncRefFrmUsrCfg
  igop :: int
  force_recon :: bool
  refresh_length :: u32
  hdr_need_update :: bool
  cpb :: EncVirtualCpb
  cpb_stash :: EncVirtualCpb

definition refs_impl_0 :: MppEncRefsImpl where
  "refs_impl_0 = \<lparr>chg_ref_cfg = False, chg_usr_cfg = False, chg_igop = False, refs_cfg = None,
     usr_cfg = usr_cfg_0,
     igop = 0, force_recon = False, refresh_length = 0, hdr_need_update = False, cpb = virtual_cpb_0,
     cpb_stash = virtual_cpb_0\<rparr>"

section \<open>Setup\<close>

definition mpp_enc_refs_init :: "bool \<Rightarrow> bool \<Rightarrow> mpp_ret \<times> MppEncRefsImpl option" where
  "mpp_enc_refs_init alloc refs =
     (if \<not> refs then (MPP_ERR_NULL_PTR, None)
      else if \<not> alloc then (MPP_ERR_NULL_PTR, None)
      else (MPP_OK, Some refs_impl_0))"

definition mpp_enc_refs_deinit :: "bool \<Rightarrow> MppEncRefsImpl option \<Rightarrow> mpp_ret \<times> MppEncRefsImpl option" where
  "mpp_enc_refs_deinit refs p = (if \<not> refs then (MPP_ERR_VALUE, p) else (MPP_OK, None))"

fun setup_lt_cnter :: "nat \<Rightarrow> MppEncRefLtFrmCfg list \<Rightarrow> RefsCnt list \<Rightarrow> RefsCnt list run" where
  "setup_lt_cnter 0 lcs cs = Inr cs"
| "setup_lt_cnter (Suc n) (l # ls) (c # cs) =
     run_bind (setup_lt_cnter n ls cs) (\<lambda>cs.
       Inr (c\<lparr>rc_delay := lc_lt_delay l, rc_delay_cnt := lc_lt_delay l, rc_len := lc_lt_gap l,
              rc_lt_idx := lc_lt_idx l, rc_tid := lc_temporal_id l, rc_ref_mode := lc_ref_mode l,
              rc_ref_arg := lc_ref_arg l\<rparr> # cs))"
| "setup_lt_cnter (Suc n) _ _ = Inl Out_Of_Bounds"

definition mpp_enc_refs_set_cfg ::
  "MppEncRefsImpl option \<Rightarrow> MppEncRefCfgImpl option \<Rightarrow> (mpp_ret \<times> MppEncRefsImpl option) run" where
  "mpp_enc_refs_set_cfg refs ref_cfg =
     (case refs of
        None \<Rightarrow> Inr (MPP_ERR_VALUE, None)
      | Some p \<Rightarrow>
          if ref_cfg \<noteq> None \<and> check_is_mpp_enc_ref_cfg ref_cfg \<noteq> MPP_OK then Inr (MPP_ERR_VALUE, Some p)
          else
            let cfg = (case ref_cfg of None \<Rightarrow> mpp_enc_ref_default | Some c \<Rightarrow> c);
                p = p\<lparr>refs_cfg := Some cfg, chg_ref_cfg := True, hdr_need_update := False\<rparr>;
                p = (if \<not> cfg_keep_cpb cfg then p\<lparr>cpb := virtual_cpb_0, hdr_need_update := True\<rparr> else p);
                lts = (case lt_cfg cfg of None \<Rightarrow> [] | Some l \<Rightarrow> l)
            in run_bind (setup_lt_cnter (nat (lt_cfg_cnt cfg)) lts (lt_cnter (cpb p))) (\<lambda>cs.
              let info = cpb_cpb_info (cpb p);
                  upd = dpb_size info \<noteq> 0 \<and> dpb_size info < dpb_size (cpb_info cfg)
              in Inr (MPP_OK, Some (p
                   \<lparr>hdr_need_update := hdr_need_update p \<or> upd,
                    cpb := (cpb p)\<lparr>cpb_cpb_info := cpb_info cfg, lt_cnter := cs\<rparr>\<rparr>))))"

section \<open>One frame\<close>

definition cleanup_cpb_refs :: "EncVirtualCpb \<Rightarrow> EncVirtualCpb" where
  "cleanup_cpb_refs c = c
     \<lparr>cpb_refs := replicate MAX_CPB_FRM frm_0, mode_refs := replicate MAX_CPB_FRM frm_0,
      st_tid_refs := replicate MAX_CPB_TID_FRM frm_0, lt_idx_refs := replicate MAX_CPB_LT_IDX frm_0,
      lt_cnter := map (\<lambda>x. x\<lparr>rc_delay_cnt := rc_delay x, rc_cnt := 0, rc_idx := 0\<rparr>) (lt_cnter c),
      cpb_list0 := replicate 2 frm_0, cpb_list1 := replicate 2 frm_0, cpb_st := replicate 2 frm_0,
      seq_idx := 0, seq_cnt := seq_cnt c + 1, st_cfg_pos := 0, st_cfg_repeat_pos := 0\<rparr>"

text \<open>The stores into the bit fields narrow the values of the configuration.\<close>

definition set_st_cfg_to_frm :: "int \<Rightarrow> MppEncRefStFrmCfg \<Rightarrow> EncFrmStatus" where
  "set_st_cfg_to_frm seq st = frm_0
     \<lparr>fs_valid := True, fs_is_intra := (seq = 0), fs_is_idr := (seq = 0),
      fs_is_non_ref := odd (sc_is_non_ref st), fs_is_lt_ref := False,
      fs_temporal_id := word_of_int (sc_temporal_id st), fs_ref_mode := word_of_int (sc_ref_mode st),
      fs_ref_arg := word_of_int (sc_ref_arg st), fs_seq_idx := word_of_int seq\<rparr>"

definition set_frm_refresh_flag :: "EncFrmStatus \<Rightarrow> MppEncRefsImpl \<Rightarrow> EncFrmStatus run" where
  "set_frm_refresh_flag frm p =
     (if refresh_length p \<noteq> 0 then
        if igop p = 0 then Inl Div_By_Zero
        else let r = cmod (uint (fs_seq_idx frm)) (igop p)
             in Inr (frm\<lparr>fs_is_i_refresh := (word_of_int r < refresh_length p \<and> seq_cnt (cpb p) > 1),
                         fs_is_i_recovery := (r = 0 \<and> seq_cnt (cpb p) > 1)\<rparr>)
      else Inr (frm\<lparr>fs_is_i_refresh := False\<rparr>))"

definition set_lt_cfg_to_frm :: "EncFrmStatus \<Rightarrow> RefsCnt \<Rightarrow> EncFrmStatus" where
  "set_lt_cfg_to_frm frm lt =
     (let frm = frm\<lparr>fs_is_non_ref := False, fs_is_lt_ref := True, fs_lt_idx := word_of_int (rc_lt_idx lt),
                    fs_temporal_id := word_of_int (rc_tid lt)\<rparr>
      in if rc_ref_mode lt \<noteq> REF_TO_ST_REF_SETUP
         then frm\<lparr>fs_ref_mode := word_of_int (rc_ref_mode lt), fs_ref_arg := word_of_int (rc_ref_arg lt)\<rparr>
         else frm)"

text \<open>The body of the loop over the long-term counters, which the dry run and \<open>get_cpb\<close> share.\<close>

definition lt_cnter_step :: "RefsCnt \<Rightarrow> bool \<Rightarrow> EncFrmStatus \<Rightarrow> RefsCnt \<times> bool \<times> EncFrmStatus" where
  "lt_cnter_step lt set_to_lt frm =
     (if rc_delay_cnt lt \<noteq> 0 then (lt\<lparr>rc_delay_cnt := rc_delay_cnt lt - 1\<rparr>, set_to_lt, frm)
      else
        let hit = (\<not> set_to_lt \<and> rc_cnt lt = 0);
            frm = (if hit then set_lt_cfg_to_frm frm lt else frm);
            set_to_lt = (set_to_lt \<or> hit);
            cnt = rc_cnt lt + 1
        in if cnt \<ge> rc_len lt
           then if rc_len lt \<noteq> 0
                then (lt\<lparr>rc_cnt := 0, rc_idx := rc_idx lt + 1\<rparr>, set_to_lt, frm)
                else (lt\<lparr>rc_cnt := 1, rc_idx := 1\<rparr>, set_to_lt, frm)
           else (lt\<lparr>rc_cnt := cnt\<rparr>, set_to_lt, frm))"

fun lt_cnter_loop :: "nat \<Rightarrow> RefsCnt list \<Rightarrow> bool \<Rightarrow> EncFrmStatus \<Rightarrow> (RefsCnt list \<times> EncFrmStatus) run" where
  "lt_cnter_loop 0 cs s frm = Inr (cs, frm)"
| "lt_cnter_loop (Suc n) [] s frm = Inl Out_Of_Bounds"
| "lt_cnter_loop (Suc n) (c # cs) s frm =
     (case lt_cnter_step c s frm of (c, s, frm) \<Rightarrow>
        run_bind (lt_cnter_loop n cs s frm) (\<lambda>(cs, frm). Inr (c # cs, frm)))"

definition get_ref_from_cpb :: "EncVirtualCpb \<Rightarrow> EncFrmStatus \<Rightarrow> EncFrmStatus option run" where
  "get_ref_from_cpb c frm =
     (let mode = uint (fs_ref_mode frm); arg = sint (fs_ref_arg frm);
          at = (\<lambda>xs i. run_bind (array_get xs i) (\<lambda>r. Inr (Some r)))
      in if fs_is_idr frm then Inr None
         else if mode \<in> {REF_TO_PREV_REF_FRM, REF_TO_PREV_ST_REF, REF_TO_PREV_LT_REF, REF_TO_PREV_INTRA}
         then at (mode_refs c) mode
         else if mode = REF_TO_TEMPORAL_LAYER then at (st_tid_refs c) arg
         else if mode = REF_TO_LT_REF_IDX then at (lt_idx_refs c) arg
         else if mode = REF_TO_ST_PREV_N_REF then at (cpb_refs c) arg
         else Inr None)"

fun find_pos :: "(EncFrmStatus \<Rightarrow> bool) \<Rightarrow> EncFrmStatus list \<Rightarrow> nat option" where
  "find_pos P [] = None"
| "find_pos P (r # rs) = (if P r then Some 0 else map_option Suc (find_pos P rs))"

definition check_ref_cpb_pos :: "EncVirtualCpb \<Rightarrow> EncFrmStatus \<Rightarrow> int" where
  "check_ref_cpb_pos c frm =
     (if \<not> fs_valid frm \<or> fs_is_non_ref frm then - 1
      else if fs_is_lt_ref frm
      then (case find_pos (\<lambda>r. fs_valid r \<and> fs_lt_idx r = fs_lt_idx frm) (drop MAX_CPB_ST_FRM (cpb_refs c)) of
              Some pos \<Rightarrow> int (pos + MAX_CPB_ST_FRM) | None \<Rightarrow> - 1)
      else (case find_pos (\<lambda>r. fs_valid r \<and> fs_seq_idx r = fs_seq_idx frm) (take MAX_CPB_ST_FRM (cpb_refs c)) of
              Some pos \<Rightarrow> int pos | None \<Rightarrow> - 1))"

text \<open>\<open>save_refs ok rs pos n out cnt\<close> copies, of the \<open>n\<close> frames from \<open>pos\<close>, those that satisfy \<open>ok\<close>.\<close>

fun save_refs :: "(EncFrmStatus \<Rightarrow> bool) \<Rightarrow> EncFrmStatus list \<Rightarrow> int \<Rightarrow> nat \<Rightarrow> EncFrmStatus list \<Rightarrow> int \<Rightarrow>
     (EncFrmStatus list \<times> int) run" where
  "save_refs ok rs pos 0 out cnt = Inr (out, cnt)"
| "save_refs ok rs pos (Suc n) out cnt =
     run_bind (array_get rs pos) (\<lambda>ref.
       if \<not> ok ref then save_refs ok rs (pos + 1) n out cnt
       else run_bind (array_set out cnt ref) (\<lambda>out. save_refs ok rs (pos + 1) n out (cnt + 1)))"

definition is_lt_entry :: "EncFrmStatus \<Rightarrow> bool" where
  "is_lt_entry r \<longleftrightarrow> \<not> (\<not> fs_valid r \<or> fs_is_non_ref r \<or> \<not> fs_is_lt_ref r)"

definition is_st_entry :: "EncFrmStatus \<Rightarrow> bool" where
  "is_st_entry r \<longleftrightarrow> \<not> (\<not> fs_valid r \<or> fs_is_non_ref r \<or> fs_is_lt_ref r)"

text \<open>\<open>out\<close> is the array \<open>init\<close> or \<open>final\<close> of the caller's status.\<close>

definition save_cpb_status :: "EncVirtualCpb \<Rightarrow> EncFrmStatus list \<Rightarrow> EncFrmStatus list run" where
  "save_cpb_status c out =
     (let info = cpb_cpb_info c
      in run_bind (save_refs is_lt_entry (cpb_refs c) (int MAX_CPB_ST_FRM) (nat (max_lt_cnt info)) out 0)
           (\<lambda>(out, ref_cnt).
             if ref_cnt < dpb_size info
             then run_bind (save_refs is_st_entry (cpb_refs c) 0
                    (nat (max (max_st_cnt info) (dpb_size info - ref_cnt))) out ref_cnt) (\<lambda>(out, _). Inr out)
             else Inr out))"

text \<open>The loop \<open>for (i = 15; i > 0; i--) cpb_refs[i] = cpb_refs[i - 1]\<close>.\<close>

definition shift_st_refs :: "EncFrmStatus list \<Rightarrow> EncFrmStatus list" where
  "shift_st_refs rs = fold (\<lambda>i rs. rs[i := rs ! (i - 1)]) (rev [1..<MAX_CPB_ST_FRM]) rs"

definition store_ref_to_cpb :: "EncVirtualCpb \<Rightarrow> EncFrmStatus \<Rightarrow> EncVirtualCpb" where
  "store_ref_to_cpb c frm =
     (if fs_is_non_ref frm then c
      else
        let c = (if fs_is_intra frm then c\<lparr>mode_refs := (mode_refs c)[nat REF_TO_PREV_INTRA := frm]\<rparr> else c);
            tid = unat (fs_temporal_id frm)
        in if fs_is_lt_ref frm
           then
             let c = c\<lparr>lt_idx_refs := (lt_idx_refs c)[unat (fs_lt_idx frm) := frm]\<rparr>;
                 c = c\<lparr>st_tid_refs := (st_tid_refs c)[tid := frm]\<rparr>;
                 c = c\<lparr>mode_refs := (mode_refs c)[nat REF_TO_PREV_REF_FRM := frm]\<rparr>;
                 c = c\<lparr>mode_refs := (mode_refs c)[nat REF_TO_PREV_LT_REF := frm]\<rparr>
             in case find_pos (\<lambda>r. \<not> fs_valid r \<or> fs_lt_idx r = fs_lt_idx frm) (drop MAX_CPB_ST_FRM (cpb_refs c)) of
                  Some i \<Rightarrow> c\<lparr>cpb_refs := (cpb_refs c)[i + MAX_CPB_ST_FRM := frm]\<rparr>
                | None \<Rightarrow> c
           else
             let c = c\<lparr>st_tid_refs := (st_tid_refs c)[tid := frm]\<rparr>;
                 c = c\<lparr>mode_refs := (mode_refs c)[nat REF_TO_PREV_REF_FRM := frm]\<rparr>;
                 c = c\<lparr>mode_refs := (mode_refs c)[nat REF_TO_PREV_ST_REF := frm]\<rparr>
             in c\<lparr>cpb_refs := (shift_st_refs (cpb_refs c))[0 := frm]\<rparr>)"

section \<open>The dry run\<close>

text \<open>
  The state is the object, the number of short-term slots used so far and the index of the next frame;
  the object is passed whole because the refresh flags are computed from it.
\<close>

definition dryrun_frame ::
  "int \<Rightarrow> MppEncRefStFrmCfg \<Rightarrow> MppEncRefsImpl \<times> int \<times> int \<Rightarrow> (MppEncRefsImpl \<times> int \<times> int) run" where
  "dryrun_frame lt_cnt st = (\<lambda>(p, used, seq).
     run_bind (set_frm_refresh_flag (set_st_cfg_to_frm seq st) p) (\<lambda>frm.
     run_bind (lt_cnter_loop (nat lt_cnt) (lt_cnter (cpb p)) False frm) (\<lambda>(cs, frm).
       let p = p\<lparr>cpb := (cpb p)\<lparr>lt_cnter := cs\<rparr>\<rparr>
       in run_bind (get_ref_from_cpb (cpb p) frm) (\<lambda>ref.
            let used = (case ref of
                          None \<Rightarrow> used
                        | Some r \<Rightarrow>
                            let pos = check_ref_cpb_pos (cpb p) r
                            in if pos < int MAX_CPB_ST_FRM \<and> used < pos + 1 then pos + 1 else used)
            in Inr (p\<lparr>cpb := store_ref_to_cpb (cpb p) frm\<rparr>, used, seq + 1)))))"

fun dryrun_repeat ::
  "int \<Rightarrow> MppEncRefStFrmCfg \<Rightarrow> nat \<Rightarrow> MppEncRefsImpl \<times> int \<times> int \<Rightarrow> (MppEncRefsImpl \<times> int \<times> int) run" where
  "dryrun_repeat lt_cnt st 0 s = Inr s"
| "dryrun_repeat lt_cnt st (Suc n) s = run_bind (dryrun_frame lt_cnt st s) (dryrun_repeat lt_cnt st n)"

definition st_cfg_at :: "MppEncRefCfgImpl \<Rightarrow> int \<Rightarrow> MppEncRefStFrmCfg run" where
  "st_cfg_at cfg i = (case st_cfg cfg of None \<Rightarrow> Inl Null_Deref | Some a \<Rightarrow> array_get a i)"

fun dryrun_walk ::
  "MppEncRefCfgImpl \<Rightarrow> nat \<Rightarrow> int \<Rightarrow> MppEncRefsImpl \<times> int \<times> int \<Rightarrow> (MppEncRefsImpl \<times> int \<times> int) run" where
  "dryrun_walk cfg 0 st_idx s = Inr s"
| "dryrun_walk cfg (Suc n) st_idx s =
     (if st_cfg_cnt cfg = 0 then Inl Div_By_Zero
      else run_bind (st_cfg_at cfg (cmod st_idx (st_cfg_cnt cfg))) (\<lambda>st.
        let repeat = (if sc_repeat st \<noteq> 0 then sc_repeat st else 1)
        in run_bind (dryrun_repeat (lt_cfg_cnt cfg) st (nat repeat) s) (dryrun_walk cfg n (st_idx + 1))))"

definition update_dpb_size :: "MppEncRefsImpl \<Rightarrow> MppEncRefsImpl" where
  "update_dpb_size p =
     (let c = cpb p; info = cpb_cpb_info c
      in p\<lparr>cpb := c\<lparr>cpb_cpb_info := info\<lparr>dpb_size := max_lt_cnt info + max_st_cnt info\<rparr>\<rparr>\<rparr>)"

definition mpp_enc_refs_dryrun :: "MppEncRefsImpl option \<Rightarrow> (mpp_ret \<times> MppEncRefsImpl option) run" where
  "mpp_enc_refs_dryrun refs =
     (case refs of
        None \<Rightarrow> Inr (MPP_ERR_VALUE, None)
      | Some p \<Rightarrow>
          (case refs_cfg p of
             None \<Rightarrow> Inl Null_Deref
           | Some cfg \<Rightarrow>
               if cfg_ready cfg then Inr (MPP_OK, Some (update_dpb_size p))
               else
                 let p = p\<lparr>cpb := cleanup_cpb_refs (cpb p)\<rparr>;
                     cfg = cfg\<lparr>max_tlayers := max_st_tid (cpb_cpb_info (cpb p)) + 1\<rparr>;
                     p = p\<lparr>refs_cfg := Some cfg\<rparr>
                 in run_bind (dryrun_walk cfg (nat (max (lt_cfg_cnt cfg) (st_cfg_cnt cfg))) 0 (p, 0, 0))
                      (\<lambda>(p, used, _).
                        let c = cleanup_cpb_refs (cpb p);
                            c = c\<lparr>cpb_cpb_info := (cpb_cpb_info c)\<lparr>max_st_cnt := if used \<noteq> 0 then used else 1\<rparr>\<rparr>
                        in Inr (MPP_OK, Some (update_dpb_size (p\<lparr>cpb := c\<rparr>))))))"

section \<open>User and rate control settings\<close>

definition mpp_enc_refs_set_usr_cfg ::
  "MppEncRefsImpl option \<Rightarrow> MppEncRefFrmUsrCfg \<Rightarrow> mpp_ret \<times> MppEncRefsImpl option" where
  "mpp_enc_refs_set_usr_cfg refs cfg =
     (case refs of
        None \<Rightarrow> (MPP_ERR_VALUE, None)
      | Some p \<Rightarrow> (MPP_OK, Some (p\<lparr>chg_usr_cfg := chg_usr_cfg p \<or> force_flag cfg \<noteq> 0, usr_cfg := cfg\<rparr>)))"

definition mpp_enc_refs_set_rc_igop :: "MppEncRefsImpl option \<Rightarrow> int \<Rightarrow> mpp_ret \<times> MppEncRefsImpl option" where
  "mpp_enc_refs_set_rc_igop refs n =
     (case refs of
        None \<Rightarrow> (MPP_ERR_VALUE, None)
      | Some p \<Rightarrow> (MPP_OK, Some (if igop p \<noteq> n then p\<lparr>chg_igop := True, igop := n\<rparr> else p)))"

definition mpp_enc_refs_set_refresh_length ::
  "MppEncRefsImpl option \<Rightarrow> int \<Rightarrow> mpp_ret \<times> MppEncRefsImpl option" where
  "mpp_enc_refs_set_refresh_length refs len =
     (case refs of
        None \<Rightarrow> (MPP_ERR_VALUE, None)
      | Some p \<Rightarrow>
          if len < igop p then (MPP_OK, Some (p\<lparr>refresh_length := word_of_int len\<rparr>))
          else (MPP_ERR_VALUE, Some (p\<lparr>refresh_length := word_of_int (igop p)\<rparr>)))"

definition mpp_enc_refs_update_hdr :: "MppEncRefsImpl option \<Rightarrow> bool" where
  "mpp_enc_refs_update_hdr refs = (case refs of None \<Rightarrow> False | Some p \<Rightarrow> hdr_need_update p)"

definition mpp_enc_refs_get_cpb_info ::
  "MppEncRefsImpl option \<Rightarrow> MppEncCpbInfo option \<Rightarrow> mpp_ret \<times> MppEncCpbInfo option" where
  "mpp_enc_refs_get_cpb_info refs info =
     (case (refs, info) of
        (Some p, Some _) \<Rightarrow> (MPP_OK, Some (cpb_cpb_info (cpb p)))
      | _ \<Rightarrow> (MPP_ERR_VALUE, info))"

section \<open>The next frame\<close>

definition get_cpb_st_cfg_pos :: "EncVirtualCpb \<Rightarrow> MppEncRefCfgImpl \<Rightarrow> int" where
  "get_cpb_st_cfg_pos c cfg =
     (if st_cfg_pos c \<ge> st_cfg_cnt cfg then if st_cfg_cnt cfg > 1 then 1 else 0 else st_cfg_pos c)"

definition force_active :: "u32 \<Rightarrow> MppEncRefsImpl \<Rightarrow> bool" where
  "force_active f p \<longleftrightarrow> force_flag (usr_cfg p) AND f \<noteq> 0"

definition force_clear :: "u32 \<Rightarrow> MppEncRefsImpl \<Rightarrow> MppEncRefsImpl" where
  "force_clear f p = p\<lparr>usr_cfg := (usr_cfg p)\<lparr>force_flag := force_flag (usr_cfg p) AND NOT f\<rparr>\<rparr>"

text \<open>Step 1: the intra period, the intra refresh and a forced IDR frame.\<close>

definition get_cpb_start :: "MppEncRefsImpl \<Rightarrow> MppEncRefsImpl" where
  "get_cpb_start p =
     (let over = (igop p \<noteq> 0 \<and> seq_idx (cpb p) \<ge> igop p);
          cleanup = (chg_igop p \<or> over \<and> refresh_length p = 0);
          p = (if over \<and> refresh_length p \<noteq> 0
               then p\<lparr>cpb := (cpb p)\<lparr>seq_cnt := cdiv (seq_idx (cpb p)) (igop p) + 1\<rparr>\<rparr> else p);
          idr = force_active ENC_FORCE_IDR p;
          p = (if idr then (force_clear ENC_FORCE_IDR p)\<lparr>cpb := (cpb p)\<lparr>seq_cnt := 0\<rparr>\<rparr> else p);
          p = (if cleanup \<or> idr then p\<lparr>cpb := cleanup_cpb_refs (cpb p)\<rparr>
               else if chg_ref_cfg p then p\<lparr>cpb := (cpb p)\<lparr>st_cfg_pos := 0, st_cfg_repeat_pos := 0\<rparr>\<rparr> else p)
      in p\<lparr>chg_ref_cfg := False, chg_usr_cfg := False, chg_igop := False\<rparr>)"

text \<open>Step 4: one function per force flag, each from the object and the frame to both.\<close>

definition force_lt_ref :: "MppEncRefsImpl \<times> EncFrmStatus \<Rightarrow> MppEncRefsImpl \<times> EncFrmStatus" where
  "force_lt_ref = (\<lambda>(p, frm).
     if force_active ENC_FORCE_LT_REF_IDX p
     then let frm = frm\<lparr>fs_is_non_ref := False, fs_is_lt_ref := True,
                        fs_lt_idx := word_of_int (force_lt_idx (usr_cfg p))\<rparr>;
              frm = (if fs_is_idr frm \<and> fs_lt_idx frm \<noteq> 0 then frm\<lparr>fs_lt_idx := 0\<rparr> else frm)
          in (force_clear ENC_FORCE_LT_REF_IDX (p\<lparr>cpb := (cpb p)\<lparr>st_cfg_pos := 0, st_cfg_repeat_pos := 0\<rparr>\<rparr>),
              frm\<lparr>fs_temporal_id := 0\<rparr>)
     else (p, frm))"

definition force_tid :: "MppEncRefCfgImpl \<Rightarrow> MppEncRefsImpl \<times> EncFrmStatus \<Rightarrow> MppEncRefsImpl \<times> EncFrmStatus" where
  "force_tid cfg = (\<lambda>(p, frm).
     if force_active ENC_FORCE_TEMPORAL_ID p
     then (force_clear ENC_FORCE_TEMPORAL_ID p,
           if force_temporal_id (usr_cfg p) \<ge> max_tlayers cfg \<or> fs_is_idr frm \<or> fs_is_lt_ref frm then frm
           else frm\<lparr>fs_temporal_id := word_of_int (force_temporal_id (usr_cfg p))\<rparr>)
     else (p, frm))"

definition force_mode :: "MppEncRefsImpl \<times> EncFrmStatus \<Rightarrow> MppEncRefsImpl \<times> EncFrmStatus" where
  "force_mode = (\<lambda>(p, frm).
     if force_active ENC_FORCE_REF_MODE p
     then (force_clear ENC_FORCE_REF_MODE p,
           frm\<lparr>fs_ref_mode := word_of_int (force_ref_mode (usr_cfg p)),
               fs_ref_arg := word_of_int (force_ref_arg (usr_cfg p))\<rparr>)
     else (p, frm))"

definition force_skip_non_ref :: "MppEncRefsImpl \<times> EncFrmStatus \<Rightarrow> MppEncRefsImpl \<times> EncFrmStatus" where
  "force_skip_non_ref = (\<lambda>(p, frm).
     if force_active ENC_FORCE_PSKIP_NON_REF p
     then (force_clear ENC_FORCE_PSKIP_NON_REF p, frm\<lparr>fs_is_non_ref := True\<rparr>) else (p, frm))"

definition force_skip_is_ref :: "MppEncRefsImpl \<times> EncFrmStatus \<Rightarrow> MppEncRefsImpl \<times> EncFrmStatus" where
  "force_skip_is_ref = (\<lambda>(p, frm).
     if force_active ENC_FORCE_PSKIP_IS_REF p
     then (force_clear ENC_FORCE_PSKIP_IS_REF p, frm\<lparr>fs_force_pskip_is_ref := True\<rparr>) else (p, frm))"

text \<open>The short-term configuration stays for \<open>repeat + 1\<close> frames.\<close>

definition st_cfg_advance :: "MppEncRefStFrmCfg \<Rightarrow> EncVirtualCpb \<Rightarrow> EncVirtualCpb" where
  "st_cfg_advance st c =
     (let c = c\<lparr>st_cfg_repeat_pos := st_cfg_repeat_pos c + 1\<rparr>
      in if st_cfg_repeat_pos c > sc_repeat st
         then c\<lparr>st_cfg_pos := st_cfg_pos c + 1, st_cfg_repeat_pos := 0\<rparr> else c)"

text \<open>Steps 4 to 7: the reference of the frame, and the contents of the buffer before and after it.\<close>

definition refer_and_store ::
  "MppEncRefsImpl \<Rightarrow> EncFrmStatus \<Rightarrow> bool \<Rightarrow> EncCpbStatus \<Rightarrow> (mpp_ret \<times> MppEncRefsImpl option \<times> EncCpbStatus) run" where
  "refer_and_store p frm pass1 status =
     run_bind (get_ref_from_cpb (cpb p) frm) (\<lambda>found.
       let (c, ref) = (case found of
                         None \<Rightarrow> (cpb p, frm_0)
                       | Some r \<Rightarrow> ((cpb p)\<lparr>cpb_list0 := (cpb_list0 (cpb p))[0 := es_refr status]\<rparr>, r));
           frm = (if pass1 then frm\<lparr>fs_use_pass1 := True\<rparr> else frm)
       in run_bind (save_cpb_status c (replicate MAX_CPB_REFS frm_0)) (\<lambda>ini.
          let c' = store_ref_to_cpb c frm
          in run_bind (save_cpb_status c' (replicate MAX_CPB_REFS frm_0)) (\<lambda>fin.
             Inr (MPP_OK, Some (p\<lparr>cpb := c'\<rparr>),
                  status\<lparr>es_curr := frm, es_refr := ref, es_init := ini, es_final := fin\<rparr>))))"

definition get_cpb_frame ::
  "MppEncRefCfgImpl \<Rightarrow> MppEncRefsImpl \<Rightarrow> (MppEncRefsImpl \<times> EncFrmStatus) run" where
  "get_cpb_frame cfg p =
     (let p = get_cpb_start p;
          c = (cpb p)\<lparr>frm_idx := frm_idx (cpb p) + 1\<rparr>;
          c = c\<lparr>st_cfg_pos := get_cpb_st_cfg_pos c cfg\<rparr>
      in run_bind (st_cfg_at cfg (st_cfg_pos c)) (\<lambda>st.
           let frm = set_st_cfg_to_frm (seq_idx c) st;
               p = p\<lparr>cpb := c\<lparr>seq_idx := seq_idx c + 1\<rparr>\<rparr>
           in run_bind (set_frm_refresh_flag frm p) (\<lambda>frm.
              run_bind (lt_cnter_loop (nat (lt_cfg_cnt cfg)) (lt_cnter (cpb p)) False frm) (\<lambda>(cs, frm).
                let (p, frm) = force_skip_is_ref (force_skip_non_ref (force_mode (force_tid cfg
                      (force_lt_ref (p\<lparr>cpb := (cpb p)\<lparr>lt_cnter := cs\<rparr>\<rparr>, frm)))));
                    frm = frm\<lparr>fs_non_recn := (fs_is_non_ref frm \<or> igop p = 1) \<and> \<not> force_recon p\<rparr>
                in Inr (p\<lparr>cpb := st_cfg_advance st (cpb p)\<rparr>, frm)))))"

definition mpp_enc_refs_get_cpb ::
  "MppEncRefsImpl option \<Rightarrow> EncCpbStatus \<Rightarrow> (mpp_ret \<times> MppEncRefsImpl option \<times> EncCpbStatus) run" where
  "mpp_enc_refs_get_cpb refs status =
     (case refs of
        None \<Rightarrow> Inr (MPP_ERR_VALUE, None, status)
      | Some p \<Rightarrow>
          (case refs_cfg p of
             None \<Rightarrow> Inl Null_Deref
           | Some cfg \<Rightarrow>
               run_bind (get_cpb_frame cfg p) (\<lambda>(p, frm).
                 refer_and_store p frm (fs_save_pass1 (es_curr status)) status)))"

text \<open>The result is an \<open>RK_S32\<close>; the error code \<open>MPP_ERR_VALUE\<close> is \<open>-6\<close>.\<close>

definition mpp_enc_refs_next_frm_is_intra :: "MppEncRefsImpl option \<Rightarrow> int" where
  "mpp_enc_refs_next_frm_is_intra refs =
     (case refs of
        None \<Rightarrow> - 6
      | Some p \<Rightarrow>
          of_bool (frm_idx (cpb p) \<noteq> 0
            \<and> (chg_igop p \<or> igop p \<noteq> 0 \<and> seq_idx (cpb p) \<ge> igop p \<or> force_active ENC_FORCE_IDR p)))"

definition mpp_enc_refs_get_cpb_pass1 ::
  "MppEncRefsImpl option \<Rightarrow> EncCpbStatus \<Rightarrow> (mpp_ret \<times> MppEncRefsImpl option \<times> EncCpbStatus) run" where
  "mpp_enc_refs_get_cpb_pass1 refs status =
     (case refs of
        None \<Rightarrow> Inr (MPP_ERR_VALUE, None, status)
      | Some p \<Rightarrow>
          refer_and_store p ((es_curr status)
            \<lparr>fs_valid := True, fs_non_recn := False, fs_save_pass1 := True, fs_is_non_ref := True,
             fs_is_lt_ref := False, fs_temporal_id := 0, fs_ref_mode := word_of_int REF_TO_PREV_REF_FRM,
             fs_ref_arg := 0, fs_seq_idx := word_of_int (seq_idx (cpb p))\<rparr>) False status)"

definition mpp_enc_refs_stash :: "MppEncRefsImpl option \<Rightarrow> mpp_ret \<times> MppEncRefsImpl option" where
  "mpp_enc_refs_stash refs =
     (case refs of None \<Rightarrow> (MPP_ERR_VALUE, None) | Some p \<Rightarrow> (MPP_OK, Some (p\<lparr>cpb_stash := cpb p\<rparr>)))"

definition mpp_enc_refs_rollback :: "MppEncRefsImpl option \<Rightarrow> mpp_ret \<times> MppEncRefsImpl option" where
  "mpp_enc_refs_rollback refs =
     (case refs of None \<Rightarrow> (MPP_ERR_VALUE, None) | Some p \<Rightarrow> (MPP_OK, Some (p\<lparr>cpb := cpb_stash p\<rparr>)))"

definition mpp_enc_refs_force_recon :: "MppEncRefsImpl option \<Rightarrow> int \<Rightarrow> mpp_ret \<times> MppEncRefsImpl option" where
  "mpp_enc_refs_force_recon refs f =
     (case refs of None \<Rightarrow> (MPP_ERR_VALUE, None) | Some p \<Rightarrow> (MPP_OK, Some (p\<lparr>force_recon := (f \<noteq> 0)\<rparr>)))"

end
