(* ===== verification/Mpp_Enc_Refs_Props.thy ===== *)
theory Mpp_Enc_Refs_Props
  imports Mpp_Enc_Refs
begin

text \<open>
  What the virtual buffer of \<open>Mpp_Enc_Refs\<close> promises: its tables are a function of the sequence of
  reference frames stored since the last cleanup.
\<close>

section \<open>The buffer as a function of the stored frames\<close>

text \<open>A history lists the reference frames stored since the last cleanup, the newest first.\<close>

definition newest :: "(EncFrmStatus \<Rightarrow> bool) \<Rightarrow> EncFrmStatus list \<Rightarrow> EncFrmStatus" where
  "newest P h = (case filter P h of [] \<Rightarrow> frm_0 | f # _ \<Rightarrow> f)"

definition pad :: "nat \<Rightarrow> EncFrmStatus list \<Rightarrow> EncFrmStatus list" where
  "pad n xs = take n (xs @ replicate n frm_0)"

text \<open>The frames marked long-term: the latest one of each index, in the order in which the indices
  were first used.\<close>

fun lt_frames :: "EncFrmStatus list \<Rightarrow> EncFrmStatus list" where
  "lt_frames [] = []"
| "lt_frames (f # h) =
     (if \<not> fs_is_lt_ref f then lt_frames h
      else if fs_lt_idx f \<in> fs_lt_idx ` set (lt_frames h)
      then map (\<lambda>g. if fs_lt_idx g = fs_lt_idx f then f else g) (lt_frames h)
      else lt_frames h @ [f])"

definition cpb_matches :: "EncFrmStatus list \<Rightarrow> EncVirtualCpb \<Rightarrow> bool" where
  "cpb_matches h c \<longleftrightarrow>
     cpb_refs c = pad 16 (filter (\<lambda>f. \<not> fs_is_lt_ref f) h) @ pad 16 (lt_frames h)
     \<and> length (mode_refs c) = 32
     \<and> mode_refs c ! 0 = newest (\<lambda>_. True) h
     \<and> mode_refs c ! 1 = newest (\<lambda>f. \<not> fs_is_lt_ref f) h
     \<and> mode_refs c ! 2 = newest fs_is_lt_ref h
     \<and> mode_refs c ! 3 = newest fs_is_intra h
     \<and> st_tid_refs c = map (\<lambda>t. newest (\<lambda>f. fs_temporal_id f = word_of_nat t) h) [0..<16]
     \<and> lt_idx_refs c = map (\<lambda>i. newest (\<lambda>f. fs_is_lt_ref f \<and> fs_lt_idx f = word_of_nat i) h) [0..<16]"

lemma newest_Nil [simp]: "newest P [] = frm_0"
  by (simp add: newest_def)

lemma newest_Cons [simp]: "newest P (f # h) = (if P f then f else newest P h)"
  by (simp add: newest_def)

lemma length_pad [simp]: "length (pad n xs) = n"
  by (simp add: pad_def)

lemma pad_Cons: "pad (Suc n) (f # xs) = f # pad n xs"
  by (cases "n \<le> length xs") (simp_all add: pad_def flip: replicate_Suc)

lemma butlast_pad: "take n (pad (Suc n) xs) = pad n xs"
  by (cases "n \<le> length xs") (simp_all add: pad_def flip: replicate_Suc)

lemma nth_pad: "i < n \<Longrightarrow> pad n xs ! i = (if i < length xs then xs ! i else frm_0)"
  by (simp add: pad_def nth_append)

lemma frm_0_fields [simp]:
  "\<not> fs_valid frm_0" "\<not> fs_is_non_ref frm_0" "\<not> fs_is_lt_ref frm_0" "fs_lt_idx frm_0 = 0" "fs_seq_idx frm_0 = 0"
  by (simp_all add: frm_0_def)

subsection \<open>The sliding window\<close>

lemma length_shift_loop: "length (fold (\<lambda>i rs. rs[i := rs ! (i - 1)]) is rs) = length rs"
  by (induction "is" arbitrary: rs) auto

lemma shift_loop:
  "n < length rs \<Longrightarrow>
     fold (\<lambda>i rs. rs[i := rs ! (i - 1)]) (rev [1..<Suc n]) rs = rs ! 0 # take n rs @ drop (Suc n) rs"
proof (induction n arbitrary: rs)
  case 0
  then show ?case
    by (cases rs) auto
next
  case (Suc n)
  let ?rs = "rs[Suc n := rs ! n]"
  have "fold (\<lambda>i rs. rs[i := rs ! (i - 1)]) (rev [1..<Suc (Suc n)]) rs
      = fold (\<lambda>i rs. rs[i := rs ! (i - 1)]) (rev [1..<Suc n]) ?rs"
    by simp
  also have "\<dots> = ?rs ! 0 # take n ?rs @ drop (Suc n) ?rs"
    using Suc by (intro Suc.IH) simp
  also have "drop (Suc n) ?rs = rs ! n # drop (Suc (Suc n)) rs"
    using Suc.prems by (simp add: Cons_nth_drop_Suc [symmetric])
  also have "?rs ! 0 # take n ?rs @ rs ! n # drop (Suc (Suc n)) rs
      = rs ! 0 # take (Suc n) rs @ drop (Suc (Suc n)) rs"
    using Suc.prems by (simp add: take_Suc_conv_app_nth)
  finally show ?case .
qed

lemma shift_st_refs_eq:
  assumes "16 \<le> length rs"
  shows "(shift_st_refs rs)[0 := f] = f # take 15 rs @ drop 16 rs"
  using shift_loop [of 15 rs] assms by (simp add: shift_st_refs_def del: upt.simps upt_rec_numeral)

subsection \<open>Long-term slots\<close>

lemma find_pos_append:
  "find_pos P (xs @ ys) = (case find_pos P xs of Some i \<Rightarrow> Some i | None \<Rightarrow> map_option ((+) (length xs)) (find_pos P ys))"
  by (induction xs) (cases "find_pos P ys"; auto split: option.splits)+

lemma find_pos_None: "find_pos P xs = None \<longleftrightarrow> (\<forall>x\<in>set xs. \<not> P x)"
  by (induction xs) auto

lemma find_pos_Some: "find_pos P xs = Some i \<Longrightarrow> i < length xs \<and> P (xs ! i) \<and> (\<forall>j<i. \<not> P (xs ! j))"
proof (induction xs arbitrary: i)
  case (Cons x xs)
  then show ?case
    by (auto split: if_splits simp: less_Suc_eq_0_disj)
qed simp

lemma set_lt_frames: "set (lt_frames h) \<subseteq> {f \<in> set h. fs_is_lt_ref f}"
  by (induction h) (auto split: if_splits)

lemma distinct_lt_frames: "distinct (map fs_lt_idx (lt_frames h))"
proof (induction h)
  case (Cons f h)
  have "map fs_lt_idx (map (\<lambda>g. if fs_lt_idx g = fs_lt_idx f then f else g) (lt_frames h)) = map fs_lt_idx (lt_frames h)"
    by simp
  with Cons show ?case
    by (auto simp del: map_map)
qed simp

lemma length_lt_frames: "length (lt_frames h) \<le> 16"
proof -
  have "card (set (map fs_lt_idx (lt_frames h))) \<le> card (UNIV :: 4 word set)"
    by (intro card_mono) auto
  then show ?thesis
    using distinct_card [OF distinct_lt_frames [of h]] by (simp add: card_word)
qed

lemma find_pos_first:
  assumes "P (xs ! k)" "k < length xs" "\<And>j. j < k \<Longrightarrow> \<not> P (xs ! j)"
  shows "find_pos P xs = Some k"
proof -
  obtain i where i: "find_pos P xs = Some i"
    using assms(1,2) find_pos_None [of P xs] by (cases "find_pos P xs") auto
  note found = find_pos_Some [OF i]
  then have "i = k"
    using assms(1,3) by (cases i k rule: linorder_cases) auto
  with i show ?thesis
    by simp
qed

lemma length_lt_frames_less:
  assumes "x \<notin> fs_lt_idx ` set (lt_frames h)"
  shows "length (lt_frames h) < 16"
proof -
  have "distinct (x # map fs_lt_idx (lt_frames h))"
    using assms distinct_lt_frames [of h] by simp
  then have "card (set (x # map fs_lt_idx (lt_frames h))) = length (x # map fs_lt_idx (lt_frames h))"
    by (rule distinct_card)
  moreover have "card (set (x # map fs_lt_idx (lt_frames h))) \<le> card (UNIV :: 4 word set)"
    by (intro card_mono) auto
  ultimately show ?thesis
    by (simp add: card_word del: set_map)
qed

text \<open>The loop that looks for a slot with the same index or a free one always finds one.\<close>

lemma lt_slot:
  assumes lt: "fs_is_lt_ref f" and valid: "\<forall>g\<in>set h. fs_valid g"
  shows "\<exists>i. find_pos (\<lambda>r. \<not> fs_valid r \<or> fs_lt_idx r = fs_lt_idx f) (pad 16 (lt_frames h)) = Some i
    \<and> (pad 16 (lt_frames h))[i := f] = pad 16 (lt_frames (f # h))"
proof -
  let ?L = "lt_frames h" and ?P = "\<lambda>r. \<not> fs_valid r \<or> fs_lt_idx r = fs_lt_idx f"
  have len: "length ?L \<le> 16" and val: "\<forall>g\<in>set ?L. fs_valid g"
    using length_lt_frames set_lt_frames [of h] valid by auto
  show ?thesis
  proof (cases "fs_lt_idx f \<in> fs_lt_idx ` set ?L")
    case True
    then obtain k where k: "k < length ?L" "fs_lt_idx (?L ! k) = fs_lt_idx f"
      by (auto simp: in_set_conv_nth)
    have uniq: "fs_lt_idx (?L ! j) = fs_lt_idx f \<longleftrightarrow> j = k" if "j < length ?L" for j
      using distinct_lt_frames [of h] k that by (fastforce simp: distinct_conv_nth)
    have "find_pos ?P (pad 16 ?L) = Some k"
      using k len val uniq by (intro find_pos_first) (auto simp: nth_pad)
    moreover have "(pad 16 ?L)[k := f] = pad 16 (lt_frames (f # h))"
      using lt True k uniq len
      by (intro nth_equalityI) (auto simp: nth_pad nth_list_update)
    ultimately show ?thesis
      by blast
  next
    case False
    have less: "length ?L < 16"
      using False by (rule length_lt_frames_less)
    have "\<forall>j<length ?L. fs_lt_idx (?L ! j) \<noteq> fs_lt_idx f"
      using False by (metis image_eqI nth_mem)
    then have "find_pos ?P (pad 16 ?L) = Some (length ?L)"
      using less val by (intro find_pos_first) (auto simp: nth_pad)
    moreover have "(pad 16 ?L)[length ?L := f] = pad 16 (lt_frames (f # h))"
      using lt False less by (intro nth_equalityI) (auto simp: nth_pad nth_list_update nth_append)
    ultimately show ?thesis
      by blast
  qed
qed

subsection \<open>Storing a frame\<close>

lemma map_update_key:
  "n < 16 \<Longrightarrow> (map g [0..<16])[n := v] = map (\<lambda>t. if t = n then v else g t) [0..<16]"
  by (intro nth_equalityI) (auto simp: nth_list_update)

lemma unat_4_less [simp]: "unat (w :: 4 word) < 16"
  using unsigned_less [of w] by simp

lemma word_4_eq: "t < 16 \<Longrightarrow> (w :: 4 word) = word_of_nat t \<longleftrightarrow> t = unat w"
  by (auto simp: unat_of_nat take_bit_nat_eq_self)

lemma table_update:
  fixes w :: "EncFrmStatus \<Rightarrow> 4 word"
  assumes "P f"
  shows "(map (\<lambda>t. newest (\<lambda>f. P f \<and> w f = word_of_nat t) h) [0..<16])[unat (w f) := f]
     = map (\<lambda>t. newest (\<lambda>f. P f \<and> w f = word_of_nat t) (f # h)) [0..<16]"
  using assms by (subst map_update_key) (auto simp: word_4_eq)

lemma table_keep:
  fixes w :: "EncFrmStatus \<Rightarrow> 4 word"
  shows "\<not> P f \<Longrightarrow> map (\<lambda>t. newest (\<lambda>f. P f \<and> w f = word_of_nat t) (f # h)) [0..<16]
     = map (\<lambda>t. newest (\<lambda>f. P f \<and> w f = word_of_nat t) h) [0..<16]"
  by simp

lemma store_st:
  assumes c: "cpb_matches h c" and f: "\<not> fs_is_non_ref f" "\<not> fs_is_lt_ref f"
  shows "cpb_matches (f # h) (store_ref_to_cpb c f)"
proof -
  let ?S = "filter (\<lambda>f. \<not> fs_is_lt_ref f) h"
  have refs: "(shift_st_refs (cpb_refs c))[0 := f] = pad 16 (f # ?S) @ pad 16 (lt_frames h)"
    using c butlast_pad [of 15 ?S] pad_Cons [of 15 f ?S]
    by (simp add: cpb_matches_def shift_st_refs_eq)
  have tid: "(st_tid_refs c)[unat (fs_temporal_id f) := f]
      = map (\<lambda>t. newest (\<lambda>f. fs_temporal_id f = word_of_nat t) (f # h)) [0..<16]"
    using c table_update [where P = "\<lambda>_. True" and w = fs_temporal_id and f = f and h = h]
    by (simp add: cpb_matches_def)
  show ?thesis
    using c f refs tid table_keep [where P = fs_is_lt_ref and w = fs_lt_idx and f = f and h = h]
    by (simp add: cpb_matches_def store_ref_to_cpb_def Let_def)
qed

lemma store_lt:
  assumes c: "cpb_matches h c" and f: "\<not> fs_is_non_ref f" "fs_is_lt_ref f" and valid: "\<forall>g\<in>set h. fs_valid g"
  shows "cpb_matches (f # h) (store_ref_to_cpb c f)"
proof -
  obtain i where i: "find_pos (\<lambda>r. \<not> fs_valid r \<or> fs_lt_idx r = fs_lt_idx f) (pad 16 (lt_frames h)) = Some i"
      "(pad 16 (lt_frames h))[i := f] = pad 16 (lt_frames (f # h))"
    using lt_slot [OF f(2) valid] by blast
  let ?S = "filter (\<lambda>f. \<not> fs_is_lt_ref f) h"
  have slots: "drop 16 (cpb_refs c) = pad 16 (lt_frames h)"
    using c by (simp add: cpb_matches_def)
  have refs: "(cpb_refs c)[i + 16 := f] = pad 16 ?S @ pad 16 (lt_frames (f # h))"
    using c i(2) by (simp add: cpb_matches_def list_update_append)
  have tid: "(st_tid_refs c)[unat (fs_temporal_id f) := f]
      = map (\<lambda>t. newest (\<lambda>f. fs_temporal_id f = word_of_nat t) (f # h)) [0..<16]"
    using c table_update [where P = "\<lambda>_. True" and w = fs_temporal_id and f = f and h = h]
    by (simp add: cpb_matches_def)
  have idx: "(lt_idx_refs c)[unat (fs_lt_idx f) := f]
      = map (\<lambda>t. newest (\<lambda>f. fs_is_lt_ref f \<and> fs_lt_idx f = word_of_nat t) (f # h)) [0..<16]"
    using c f table_update [where P = fs_is_lt_ref and w = fs_lt_idx and f = f and h = h]
    by (simp add: cpb_matches_def)
  show ?thesis
    using c f refs tid idx i(1)
    by (simp add: cpb_matches_def store_ref_to_cpb_def Let_def slots del: lt_frames.simps)
qed

text \<open>The buffer after a cleanup and the frames \<open>fs\<close>, in this order.\<close>

definition cpb_after :: "EncFrmStatus list \<Rightarrow> EncVirtualCpb \<Rightarrow> EncVirtualCpb" where
  "cpb_after fs c = fold (\<lambda>f c. store_ref_to_cpb c f) fs (cleanup_cpb_refs c)"

definition ref_history :: "EncFrmStatus list \<Rightarrow> EncFrmStatus list" where
  "ref_history fs = rev (filter (\<lambda>f. \<not> fs_is_non_ref f) fs)"

lemma cleanup_matches: "cpb_matches [] (cleanup_cpb_refs c)"
  by (simp add: cpb_matches_def cleanup_cpb_refs_def pad_def replicate_add [symmetric]
      map_replicate_const)

lemma stores_match:
  assumes "\<forall>f\<in>set fs. fs_valid f"
  shows "cpb_matches (ref_history fs) (cpb_after fs c)"
  unfolding cpb_after_def using assms
proof (induction fs rule: rev_induct)
  case Nil
  then show ?case
    by (simp add: ref_history_def cleanup_matches)
next
  case (snoc f fs)
  have valid: "\<forall>g\<in>set (ref_history fs). fs_valid g"
    using snoc.prems by (auto simp: ref_history_def)
  show ?case
  proof (cases "fs_is_non_ref f")
    case True
    with snoc show ?thesis
      by (simp add: ref_history_def store_ref_to_cpb_def)
  next
    case False
    then have "ref_history (fs @ [f]) = f # ref_history fs"
      by (simp add: ref_history_def)
    with snoc False valid show ?thesis
      by (cases "fs_is_lt_ref f") (simp_all add: store_st store_lt)
  qed
qed

section \<open>Finding references\<close>

text \<open>What the comment of \<open>rk_venc_ref.h\<close> says a frame refers to, in terms of the history.\<close>

definition documented_ref :: "EncFrmStatus list \<Rightarrow> EncFrmStatus \<Rightarrow> EncFrmStatus option run" where
  "documented_ref h frm =
     (let mode = uint (fs_ref_mode frm); arg = sint (fs_ref_arg frm)
      in if fs_is_idr frm then Inr None
         else if mode = REF_TO_PREV_REF_FRM then Inr (Some (newest (\<lambda>_. True) h))
         else if mode = REF_TO_PREV_ST_REF then Inr (Some (newest (\<lambda>f. \<not> fs_is_lt_ref f) h))
         else if mode = REF_TO_PREV_LT_REF then Inr (Some (newest fs_is_lt_ref h))
         else if mode = REF_TO_PREV_INTRA then Inr (Some (newest fs_is_intra h))
         else if mode \<in> {REF_TO_TEMPORAL_LAYER, REF_TO_LT_REF_IDX, REF_TO_ST_PREV_N_REF} \<and> \<not> (0 \<le> arg \<and> arg < 16)
         then Inl Out_Of_Bounds
         else if mode = REF_TO_TEMPORAL_LAYER
         then Inr (Some (newest (\<lambda>f. fs_temporal_id f = word_of_int arg) h))
         else if mode = REF_TO_LT_REF_IDX
         then Inr (Some (newest (\<lambda>f. fs_is_lt_ref f \<and> fs_lt_idx f = word_of_int arg) h))
         else if mode = REF_TO_ST_PREV_N_REF
         then Inr (Some (pad 16 (filter (\<lambda>f. \<not> fs_is_lt_ref f) h) ! nat arg))
         else Inr None)"

lemma word_of_nat_nat: "0 \<le> i \<Longrightarrow> (word_of_nat (nat i) :: 'a::len word) = word_of_int i"
  by (metis nat_0_le of_int_of_nat_eq)

lemma matches_length [simp]:
  "cpb_matches h c \<Longrightarrow> length (mode_refs c) = 32"
  "cpb_matches h c \<Longrightarrow> length (st_tid_refs c) = 16"
  "cpb_matches h c \<Longrightarrow> length (lt_idx_refs c) = 16"
  "cpb_matches h c \<Longrightarrow> length (cpb_refs c) = 32"
  by (auto simp: cpb_matches_def)

lemma get_ref_documented:
  assumes c: "cpb_matches h c"
    and arg: "uint (fs_ref_mode frm) = REF_TO_ST_PREV_N_REF \<Longrightarrow> sint (fs_ref_arg frm) < 16"
  shows "get_ref_from_cpb c frm = documented_ref h frm"
proof -
  have m: "mode_refs c ! 0 = newest (\<lambda>_. True) h" "mode_refs c ! Suc 0 = newest (\<lambda>f. \<not> fs_is_lt_ref f) h"
      "mode_refs c ! 2 = newest fs_is_lt_ref h" "mode_refs c ! 3 = newest fs_is_intra h"
    using c by (auto simp: cpb_matches_def)
  have t: "st_tid_refs c ! nat a = newest (\<lambda>f. fs_temporal_id f = word_of_int a) h"
      "lt_idx_refs c ! nat a = newest (\<lambda>f. fs_is_lt_ref f \<and> fs_lt_idx f = word_of_int a) h"
      "cpb_refs c ! nat a = pad 16 (filter (\<lambda>f. \<not> fs_is_lt_ref f) h) ! nat a" if "0 \<le> a" "a < 16" for a
    using c that by (auto simp: cpb_matches_def nth_append word_of_nat_nat nat_less_iff)
  show ?thesis
    using c arg m t by (auto simp: get_ref_from_cpb_def documented_ref_def array_get_def Let_def)
qed

text \<open>
  C5: after any sequence of frames has been stored in a cleaned buffer, every reference mode finds the
  frame its documentation names: the latest reference frame, the latest short-term, long-term or intra
  one, the latest one of a temporal layer, the latest one with a long-term index, or the n-th latest
  short-term one; the first sixteen slots are the sliding window of the latest short-term frames and the
  other sixteen hold the latest frame of each long-term index.
\<close>

theorem virtual_cpb_refines_history:
  assumes "\<forall>f\<in>set fs. fs_valid f"
    and "uint (fs_ref_mode frm) = REF_TO_ST_PREV_N_REF \<Longrightarrow> sint (fs_ref_arg frm) < 16"
  shows "get_ref_from_cpb (cpb_after fs c) frm
       = documented_ref (ref_history fs) frm
    \<and> cpb_refs (cpb_after fs c)
       = pad 16 (filter (\<lambda>f. \<not> fs_is_lt_ref f) (ref_history fs)) @ pad 16 (lt_frames (ref_history fs))"
  using stores_match [OF assms(1), of c] get_ref_documented assms(2) by (auto simp: cpb_matches_def)

definition demo_frm :: "nat \<Rightarrow> EncFrmStatus" where
  "demo_frm n = frm_0\<lparr>fs_valid := True, fs_is_intra := (n = 0), fs_is_idr := (n = 0), fs_seq_idx := word_of_nat n\<rparr>"

theorem virtual_cpb_refines_history_witness:
  "get_ref_from_cpb (cpb_after [demo_frm 0, demo_frm 1] virtual_cpb_0) (demo_frm 2\<lparr>fs_ref_mode := 3\<rparr>) = Inr (Some (demo_frm 0))"
proof -
  have "\<forall>f\<in>set [demo_frm 0, demo_frm 1]. fs_valid f"
    by (simp add: demo_frm_def)
  from virtual_cpb_refines_history [OF this, of "demo_frm 2\<lparr>fs_ref_mode := 3\<rparr>" virtual_cpb_0] show ?thesis
    by (simp add: documented_ref_def ref_history_def demo_frm_def)
qed

text \<open>
  an intra frame that sixteen short-term reference frames have followed is still what
  \<open>REF_TO_PREV_INTRA\<close> finds, although it has left the buffer: the position check fails, which the
  caller only asserts.
\<close>

theorem prev_intra_leaves_buffer:
  assumes intra: "fs_valid f0" "fs_is_intra f0" "\<not> fs_is_non_ref f0" "\<not> fs_is_lt_ref f0"
    and sts: "\<forall>f\<in>set fs. fs_valid f \<and> \<not> fs_is_intra f \<and> \<not> fs_is_non_ref f \<and> \<not> fs_is_lt_ref f \<and> fs_seq_idx f \<noteq> fs_seq_idx f0"
    and len: "16 \<le> length fs"
    and frm: "\<not> fs_is_idr frm" "uint (fs_ref_mode frm) = REF_TO_PREV_INTRA"
  shows "get_ref_from_cpb (cpb_after (f0 # fs) c) frm = Inr (Some f0)
    \<and> check_ref_cpb_pos (cpb_after (f0 # fs) c) f0 = - 1"
proof -
  let ?c = "cpb_after (f0 # fs) c"
  have "\<forall>f\<in>set (f0 # fs). fs_valid f"
    using intra sts by simp
  from stores_match [OF this, of c] have m: "cpb_matches (ref_history (f0 # fs)) ?c"
    .
  have h: "ref_history (f0 # fs) = rev fs @ [f0]" and st: "filter (\<lambda>f. \<not> fs_is_lt_ref f) (rev fs) = rev fs"
    using intra sts by (simp_all add: ref_history_def)
  have "filter fs_is_intra (rev fs) = []"
    using sts by (simp add: filter_empty_conv)
  then have "newest fs_is_intra (rev fs @ [f0]) = f0"
    using intra by (simp add: newest_def)
  then have "get_ref_from_cpb ?c frm = Inr (Some f0)"
    using get_ref_documented [OF m, of frm] frm h by (simp add: documented_ref_def)
  moreover have "take 16 (cpb_refs ?c) = take 16 (rev fs)"
    using m h st intra(4) len by (simp add: cpb_matches_def pad_def)
  then have "find_pos (\<lambda>r. fs_valid r \<and> fs_seq_idx r = fs_seq_idx f0) (take 16 (cpb_refs ?c)) = None"
    using sts by (auto simp: find_pos_None dest: in_set_takeD)
  then have "check_ref_cpb_pos ?c f0 = - 1"
    using intra by (simp add: check_ref_cpb_pos_def)
  ultimately show ?thesis ..
qed

theorem prev_intra_leaves_buffer_witness:
  "check_ref_cpb_pos (cpb_after (demo_frm 0 # map demo_frm [1..<17]) virtual_cpb_0) (demo_frm 0) = - 1"
proof -
  have "\<forall>f\<in>set (map demo_frm [1..<17]). fs_valid f \<and> \<not> fs_is_intra f \<and> \<not> fs_is_non_ref f \<and> \<not> fs_is_lt_ref f
      \<and> fs_seq_idx f \<noteq> fs_seq_idx (demo_frm 0)"
    by code_simp
  from prev_intra_leaves_buffer [OF _ _ _ _ this, of "demo_frm 5\<lparr>fs_ref_mode := 3\<rparr>" virtual_cpb_0] show ?thesis
    by (simp add: demo_frm_def)
qed

end
