(* ===== verification/Mpp_Enc_Refs_Run.thy ===== *)
theory Mpp_Enc_Refs_Run
  imports Mpp_Enc_Refs_Props
begin

text \<open>
  The encoder's reference management at run time: which states \<open>get_cpb\<close> runs in without a fault, that it
  keeps them, the cadence of the IDR frames, and what the stash and the rollback restore.
\<close>

section \<open>States in which the buffer runs\<close>

definition mode_arg_ok :: "6 word \<Rightarrow> 8 word \<Rightarrow> bool" where
  "mode_arg_ok m a \<longleftrightarrow>
     (uint m \<in> {REF_TO_TEMPORAL_LAYER, REF_TO_LT_REF_IDX} \<longrightarrow> 0 \<le> sint a \<and> sint a < 16)
     \<and> (uint m = REF_TO_ST_PREV_N_REF \<longrightarrow> 0 \<le> sint a \<and> sint a < 32)"

definition int_arg_ok :: "int \<Rightarrow> int \<Rightarrow> bool" where
  "int_arg_ok m a \<longleftrightarrow> mode_arg_ok (word_of_int m) (word_of_int a)"

definition cpb_shape :: "EncVirtualCpb \<Rightarrow> bool" where
  "cpb_shape c \<longleftrightarrow> length (cpb_refs c) = 32 \<and> length (mode_refs c) = 32 \<and> length (st_tid_refs c) = 16
     \<and> length (lt_idx_refs c) = 16 \<and> length (lt_cnter c) = 16 \<and> length (cpb_list0 c) = 2
     \<and> length (cpb_list1 c) = 2 \<and> length (cpb_st c) = 2"

definition cnter_ok :: "RefsCnt list \<Rightarrow> bool" where
  "cnter_ok cs \<longleftrightarrow> (\<forall>x\<in>set cs. int_arg_ok (rc_ref_mode x) (rc_ref_arg x))"

text \<open>The frames the buffer may have to report fit into the arrays of the caller.\<close>

definition info_fits :: "MppEncCpbInfo \<Rightarrow> bool" where
  "info_fits i \<longleftrightarrow> 0 \<le> max_lt_cnt i \<and> 0 \<le> max_st_cnt i \<and> dpb_size i = max_lt_cnt i + max_st_cnt i
     \<and> dpb_size i \<le> int MAX_CPB_REFS"

definition st_cfgs_ok :: "MppEncRefCfgImpl \<Rightarrow> bool" where
  "st_cfgs_ok cfg \<longleftrightarrow> lt_cfg_cnt cfg \<le> 16 \<and> 1 \<le> st_cfg_cnt cfg
     \<and> (case st_cfg cfg of None \<Rightarrow> False
        | Some a \<Rightarrow> st_cfg_cnt cfg \<le> int (length a) \<and> (\<forall>s\<in>set a. int_arg_ok (sc_ref_mode s) (sc_ref_arg s)))"

definition cpb_ok :: "EncVirtualCpb \<Rightarrow> bool" where
  "cpb_ok c \<longleftrightarrow> cpb_shape c \<and> cnter_ok (lt_cnter c) \<and> info_fits (cpb_cpb_info c) \<and> 0 \<le> st_cfg_pos c"

definition refs_ok :: "MppEncRefCfgImpl \<Rightarrow> MppEncRefsImpl \<Rightarrow> bool" where
  "refs_ok cfg p \<longleftrightarrow> refs_cfg p = Some cfg \<and> st_cfgs_ok cfg \<and> cpb_ok (cpb p)
     \<and> (refresh_length p \<noteq> 0 \<longrightarrow> igop p \<noteq> 0)
     \<and> (force_active ENC_FORCE_REF_MODE p \<longrightarrow> int_arg_ok (force_ref_mode (usr_cfg p)) (force_ref_arg (usr_cfg p)))"

definition frm_ok :: "EncFrmStatus \<Rightarrow> bool" where
  "frm_ok f \<longleftrightarrow> mode_arg_ok (fs_ref_mode f) (fs_ref_arg f)"

section \<open>The steps of a frame\<close>

lemma get_ref_total:
  assumes "cpb_shape c" "frm_ok f"
  shows "\<exists>r. get_ref_from_cpb c f = Inr r"
  using assms by (auto simp: get_ref_from_cpb_def frm_ok_def mode_arg_ok_def cpb_shape_def Let_def)

lemma save_refs_total:
  assumes "0 \<le> pos" "pos + int n \<le> int (length rs)" "0 \<le> cnt" "cnt + int n \<le> int (length out)"
  shows "\<exists>out' cnt'. save_refs ok rs pos n out cnt = Inr (out', cnt') \<and> length out' = length out
    \<and> cnt \<le> cnt' \<and> cnt' \<le> cnt + int n"
  using assms
proof (induction n arbitrary: pos out cnt)
  case (Suc n)
  show ?case
  proof (cases "ok (rs ! nat pos)")
    case True
    with Suc.IH [of "pos + 1" "cnt + 1" "out[nat cnt := rs ! nat pos]"] Suc.prems show ?thesis
      by fastforce
  next
    case False
    with Suc.IH [of "pos + 1" cnt out] Suc.prems show ?thesis
      by fastforce
  qed
qed simp

lemma save_cpb_status_total:
  assumes c: "cpb_shape c" "info_fits (cpb_cpb_info c)" and out: "length out = MAX_CPB_REFS"
  shows "\<exists>out'. save_cpb_status c out = Inr out' \<and> length out' = MAX_CPB_REFS"
proof -
  let ?i = "cpb_cpb_info c"
  have fits: "0 \<le> max_lt_cnt ?i" "0 \<le> max_st_cnt ?i" "dpb_size ?i = max_lt_cnt ?i + max_st_cnt ?i" "dpb_size ?i \<le> 8"
    using c(2) by (auto simp: info_fits_def)
  have refs: "length (cpb_refs c) = 32"
    using c(1) by (simp add: cpb_shape_def)
  obtain out1 n1 where lt: "save_refs is_lt_entry (cpb_refs c) 16 (nat (max_lt_cnt ?i)) out 0 = Inr (out1, n1)"
      "length out1 = 8" "0 \<le> n1" "n1 \<le> max_lt_cnt ?i"
    using save_refs_total [of 16 "nat (max_lt_cnt ?i)" "cpb_refs c" 0 out is_lt_entry] refs fits out by auto
  let ?n = "max (max_st_cnt ?i) (dpb_size ?i - n1)"
  obtain out2 n2 where "save_refs is_st_entry (cpb_refs c) 0 (nat ?n) out1 n1 = Inr (out2, n2)" "length out2 = 8"
    using save_refs_total [of 0 "nat ?n" "cpb_refs c" n1 out1 is_st_entry] refs fits lt by auto
  with lt show ?thesis
    by (simp add: save_cpb_status_def Let_def)
qed

lemma length_shift_st_refs [simp]: "length (shift_st_refs rs) = length rs"
  unfolding shift_st_refs_def by (rule length_shift_loop)

lemma store_shape:
  "cpb_shape c \<Longrightarrow> cpb_shape (store_ref_to_cpb c f)"
  by (simp add: store_ref_to_cpb_def cpb_shape_def Let_def split: option.split)

lemma store_keeps [simp]:
  "lt_cnter (store_ref_to_cpb c f) = lt_cnter c" "cpb_cpb_info (store_ref_to_cpb c f) = cpb_cpb_info c"
  "seq_idx (store_ref_to_cpb c f) = seq_idx c" "st_cfg_pos (store_ref_to_cpb c f) = st_cfg_pos c"
  "frm_idx (store_ref_to_cpb c f) = frm_idx c" "seq_cnt (store_ref_to_cpb c f) = seq_cnt c"
  "st_cfg_repeat_pos (store_ref_to_cpb c f) = st_cfg_repeat_pos c"
  by (simp_all add: store_ref_to_cpb_def Let_def split: option.split)

lemma store_ok: "cpb_ok c \<Longrightarrow> cpb_ok (store_ref_to_cpb c f)"
  by (simp add: cpb_ok_def store_shape)

lemma cleanup_ok: "cpb_ok c \<Longrightarrow> cpb_ok (cleanup_cpb_refs c)"
  by (auto simp: cpb_ok_def cleanup_cpb_refs_def cpb_shape_def cnter_ok_def)

lemma cpb_ok_runtime [simp]:
  "cpb_ok (c\<lparr>frm_idx := a\<rparr>) = cpb_ok c" "cpb_ok (c\<lparr>seq_idx := a\<rparr>) = cpb_ok c" "cpb_ok (c\<lparr>seq_cnt := a\<rparr>) = cpb_ok c"
  "cpb_ok (c\<lparr>st_cfg_repeat_pos := a\<rparr>) = cpb_ok c" "length l = 2 \<Longrightarrow> cpb_ok c \<Longrightarrow> cpb_ok (c\<lparr>cpb_list0 := l\<rparr>)"
  "cpb_ok c \<Longrightarrow> 0 \<le> n \<Longrightarrow> cpb_ok (c\<lparr>st_cfg_pos := n\<rparr>)"
  "cpb_ok c \<Longrightarrow> length cs = 16 \<Longrightarrow> cnter_ok cs \<Longrightarrow> cpb_ok (c\<lparr>lt_cnter := cs\<rparr>)"
  by (simp_all add: cpb_ok_def cpb_shape_def)

subsection \<open>The long-term counters\<close>

lemma lt_cnter_step_keeps:
  assumes "lt_cnter_step c s f = (c', s', f')"
  shows "rc_ref_mode c' = rc_ref_mode c" and "rc_ref_arg c' = rc_ref_arg c" and "fs_is_idr f' = fs_is_idr f"
    and "fs_seq_idx f' = fs_seq_idx f" and "fs_valid f' = fs_valid f"
    and "int_arg_ok (rc_ref_mode c) (rc_ref_arg c) \<Longrightarrow> frm_ok f \<Longrightarrow> frm_ok f'"
  using assms
  by (auto simp: lt_cnter_step_def set_lt_cfg_to_frm_def frm_ok_def int_arg_ok_def Let_def split: if_splits)

lemma lt_cnter_loop_total:
  "n \<le> length cs \<Longrightarrow> cnter_ok cs \<Longrightarrow> frm_ok f \<Longrightarrow>
     \<exists>cs' f'. lt_cnter_loop n cs s f = Inr (cs', f') \<and> length cs' = length cs \<and> cnter_ok cs' \<and> frm_ok f'
       \<and> fs_is_idr f' = fs_is_idr f \<and> fs_seq_idx f' = fs_seq_idx f \<and> fs_valid f' = fs_valid f"
proof (induction n cs s f rule: lt_cnter_loop.induct)
  case (3 n c cs s f)
  obtain c' s' f' where step: "lt_cnter_step c s f = (c', s', f')"
    by (cases "lt_cnter_step c s f")
  note keeps = lt_cnter_step_keeps [OF step]
  have c: "int_arg_ok (rc_ref_mode c) (rc_ref_arg c)" and cs: "cnter_ok cs"
    using 3 by (auto simp: cnter_ok_def)
  obtain cs'' f'' where "lt_cnter_loop n cs s' f' = Inr (cs'', f'')" "length cs'' = length cs" "cnter_ok cs''"
      "frm_ok f''" "fs_is_idr f'' = fs_is_idr f'" "fs_seq_idx f'' = fs_seq_idx f'" "fs_valid f'' = fs_valid f'"
    using 3 step cs keeps(6) [OF c] by fastforce
  with step keeps c show ?case
    by (simp add: cnter_ok_def)
qed auto

subsection \<open>Forced properties\<close>

lemma force_clear_sel [simp]:
  "cpb (force_clear g p) = cpb p" "refs_cfg (force_clear g p) = refs_cfg p" "igop (force_clear g p) = igop p"
  "refresh_length (force_clear g p) = refresh_length p" "chg_igop (force_clear g p) = chg_igop p"
  "chg_ref_cfg (force_clear g p) = chg_ref_cfg p" "cpb_stash (force_clear g p) = cpb_stash p"
  "force_ref_mode (usr_cfg (force_clear g p)) = force_ref_mode (usr_cfg p)"
  "force_ref_arg (usr_cfg (force_clear g p)) = force_ref_arg (usr_cfg p)"
  "force_recon (force_clear g p) = force_recon p"
  by (simp_all add: force_clear_def)

lemma force_active_clear: "force_active f (force_clear g p) \<Longrightarrow> force_active f p"
proof -
  have "x AND f = 0 \<Longrightarrow> (x AND NOT g) AND f = 0" for x :: u32
    by (auto simp: bit_eq_iff bit_simps)
  then show "force_active f (force_clear g p) \<Longrightarrow> force_active f p"
    by (auto simp: force_active_def force_clear_def)
qed

lemma force_active_cpb [simp]: "force_active f (p\<lparr>cpb := c\<rparr>) = force_active f p"
  by (simp add: force_active_def)

lemma force_clear_0: "force_flag (usr_cfg p) = 0 \<Longrightarrow> usr_cfg (force_clear g p) = usr_cfg p"
  by (cases "usr_cfg p") (simp add: force_clear_def)

lemma refs_ok_clear: "refs_ok cfg p \<Longrightarrow> refs_ok cfg (force_clear g p)"
  by (auto simp: refs_ok_def dest: force_active_clear)

lemma refs_ok_cpb: "refs_ok cfg p \<Longrightarrow> cpb_ok c \<Longrightarrow> refs_ok cfg (p\<lparr>cpb := c\<rparr>)"
  by (simp add: refs_ok_def)

lemma refs_ok_cpb_ok: "refs_ok cfg p \<Longrightarrow> cpb_ok (cpb p)"
  by (simp add: refs_ok_def)

text \<open>What forcing a property of the frame leaves alone.\<close>

definition same_frame :: "MppEncRefsImpl \<times> EncFrmStatus \<Rightarrow> MppEncRefsImpl \<times> EncFrmStatus \<Rightarrow> bool" where
  "same_frame = (\<lambda>(p, f) (p', f').
     fs_is_idr f' = fs_is_idr f \<and> fs_seq_idx f' = fs_seq_idx f \<and> fs_valid f' = fs_valid f
     \<and> seq_idx (cpb p') = seq_idx (cpb p) \<and> frm_idx (cpb p') = frm_idx (cpb p) \<and> igop p' = igop p
     \<and> refresh_length p' = refresh_length p \<and> chg_igop p' = chg_igop p \<and> cpb_stash p' = cpb_stash p
     \<and> (force_flag (usr_cfg p) = 0 \<longrightarrow> usr_cfg p' = usr_cfg p) \<and> (\<forall>g. force_active g p' \<longrightarrow> force_active g p))"

definition force_ok :: "MppEncRefCfgImpl \<Rightarrow> MppEncRefsImpl \<times> EncFrmStatus \<Rightarrow> MppEncRefsImpl \<times> EncFrmStatus \<Rightarrow> bool" where
  "force_ok cfg x y \<longleftrightarrow> (refs_ok cfg (fst x) \<and> frm_ok (snd x) \<longrightarrow> refs_ok cfg (fst y) \<and> frm_ok (snd y)) \<and> same_frame x y"

lemma force_ok_trans: "force_ok cfg x y \<Longrightarrow> force_ok cfg y z \<Longrightarrow> force_ok cfg x z"
  by (auto simp: force_ok_def same_frame_def split: prod.splits)

lemma force_lt_ref_ok: "force_ok cfg x (force_lt_ref x)"
proof -
  have "refs_ok cfg p \<Longrightarrow> refs_ok cfg (p\<lparr>cpb := (cpb p)\<lparr>st_cfg_pos := 0, st_cfg_repeat_pos := 0\<rparr>\<rparr>)" for p
    by (rule refs_ok_cpb) (simp_all add: refs_ok_cpb_ok)
  then show ?thesis
    by (cases x) (auto simp: force_ok_def force_lt_ref_def same_frame_def frm_ok_def Let_def force_clear_0 refs_ok_clear dest: force_active_clear)
qed

lemma force_tid_ok: "force_ok cfg x (force_tid c x)"
  by (cases x) (auto simp: force_ok_def force_tid_def same_frame_def frm_ok_def force_clear_0 refs_ok_clear dest: force_active_clear)

lemma force_mode_ok: "force_ok cfg x (force_mode x)"
proof -
  have "refs_ok cfg p \<Longrightarrow> force_active ENC_FORCE_REF_MODE p \<Longrightarrow>
      int_arg_ok (force_ref_mode (usr_cfg p)) (force_ref_arg (usr_cfg p))" for p
    by (simp add: refs_ok_def)
  then show ?thesis
    by (cases x) (auto simp: force_ok_def force_mode_def same_frame_def frm_ok_def int_arg_ok_def force_clear_0 refs_ok_clear dest: force_active_clear)
qed

lemma force_skip_ok:
  "force_ok cfg x (force_skip_non_ref x)" "force_ok cfg x (force_skip_is_ref x)"
  by (cases x; auto simp: force_ok_def force_skip_non_ref_def force_skip_is_ref_def same_frame_def frm_ok_def
      force_clear_0 refs_ok_clear dest: force_active_clear)+

definition force_all :: "MppEncRefCfgImpl \<Rightarrow> MppEncRefsImpl \<times> EncFrmStatus \<Rightarrow> MppEncRefsImpl \<times> EncFrmStatus" where
  "force_all cfg x = force_skip_is_ref (force_skip_non_ref (force_mode (force_tid cfg (force_lt_ref x))))"

lemma force_all_ok: "force_ok cfg x (force_all cfg x)"
  unfolding force_all_def
  by (rule force_ok_trans [OF force_ok_trans [OF force_ok_trans [OF force_ok_trans [OF
        force_lt_ref_ok force_tid_ok] force_mode_ok] force_skip_ok(1)] force_skip_ok(2)])

subsection \<open>The whole frame\<close>

lemma start_ok: "refs_ok cfg p \<Longrightarrow> refs_ok cfg (get_cpb_start p)"
proof -
  have chg: "refs_ok cfg (p\<lparr>chg_ref_cfg := a, chg_usr_cfg := b, chg_igop := d\<rparr>) = refs_ok cfg p" for p a b d
    by (simp add: refs_ok_def force_active_def)
  assume "refs_ok cfg p"
  then show ?thesis
    unfolding get_cpb_start_def Let_def chg
    by (auto intro!: refs_ok_clear refs_ok_cpb cleanup_ok dest: refs_ok_cpb_ok)
qed

text \<open>The sequence index that \<open>get_cpb\<close> gives the next frame.\<close>

definition next_seq :: "MppEncRefsImpl \<Rightarrow> int" where
  "next_seq p =
     (if chg_igop p \<or> igop p \<noteq> 0 \<and> seq_idx (cpb p) \<ge> igop p \<and> refresh_length p = 0 \<or> force_active ENC_FORCE_IDR p
      then 0 else seq_idx (cpb p))"

lemma start_fields:
  "seq_idx (cpb (get_cpb_start p)) = next_seq p" "igop (get_cpb_start p) = igop p" "\<not> chg_igop (get_cpb_start p)"
  "refresh_length (get_cpb_start p) = refresh_length p" "cpb_stash (get_cpb_start p) = cpb_stash p"
  "force_flag (usr_cfg p) = 0 \<Longrightarrow> usr_cfg (get_cpb_start p) = usr_cfg p"
  by (auto simp: get_cpb_start_def next_seq_def cleanup_cpb_refs_def Let_def force_active_def)

lemma force_clear_inactive: "\<not> force_active g (force_clear g p)"
proof -
  have "(x AND NOT g) AND g = 0" for x :: u32
    by (auto simp: bit_eq_iff bit_simps)
  then show ?thesis
    by (simp add: force_active_def force_clear_def)
qed

lemma start_clears_idr: "\<not> force_active ENC_FORCE_IDR (get_cpb_start p)"
proof -
  have chg: "force_active g (p\<lparr>chg_ref_cfg := a, chg_usr_cfg := b, chg_igop := d\<rparr>) = force_active g p" for g p a b d
    by (simp add: force_active_def)
  show ?thesis
    unfolding get_cpb_start_def Let_def chg by (simp add: force_clear_inactive)
qed

lemma set_st_ok:
  "int_arg_ok (sc_ref_mode s) (sc_ref_arg s) \<Longrightarrow> frm_ok (set_st_cfg_to_frm n s)"
  by (simp add: frm_ok_def set_st_cfg_to_frm_def int_arg_ok_def)

lemma st_cfg_at_total:
  assumes "st_cfgs_ok cfg" "0 \<le> st_cfg_pos c"
  shows "\<exists>s. st_cfg_at cfg (get_cpb_st_cfg_pos c cfg) = Inr s \<and> int_arg_ok (sc_ref_mode s) (sc_ref_arg s)"
proof -
  obtain a where a: "st_cfg cfg = Some a" "st_cfg_cnt cfg \<le> int (length a)" "1 \<le> st_cfg_cnt cfg"
      "\<forall>s\<in>set a. int_arg_ok (sc_ref_mode s) (sc_ref_arg s)"
    using assms by (auto simp: st_cfgs_ok_def split: option.splits)
  have "0 \<le> get_cpb_st_cfg_pos c cfg" "get_cpb_st_cfg_pos c cfg < int (length a)"
    using a assms(2) by (auto simp: get_cpb_st_cfg_pos_def)
  with a show ?thesis
    by (simp add: st_cfg_at_def)
qed

lemma refresh_flag_total:
  assumes "refresh_length p \<noteq> 0 \<Longrightarrow> igop p \<noteq> 0"
  shows "\<exists>f'. set_frm_refresh_flag f p = Inr f' \<and> frm_ok f' = frm_ok f \<and> fs_is_idr f' = fs_is_idr f
    \<and> fs_seq_idx f' = fs_seq_idx f \<and> fs_valid f' = fs_valid f"
  using assms by (auto simp: set_frm_refresh_flag_def frm_ok_def Let_def)

lemma advance_fields:
  "cpb_ok c \<Longrightarrow> cpb_ok (st_cfg_advance s c)" "seq_idx (st_cfg_advance s c) = seq_idx c"
  by (auto simp: st_cfg_advance_def Let_def cpb_ok_def cpb_shape_def)

lemma frame_total:
  assumes p: "refs_ok cfg p"
  shows "\<exists>p' f. get_cpb_frame cfg p = Inr (p', f) \<and> refs_ok cfg p' \<and> frm_ok f
    \<and> fs_is_idr f = (next_seq p = 0) \<and> fs_seq_idx f = word_of_int (next_seq p) \<and> fs_valid f
    \<and> seq_idx (cpb p') = next_seq p + 1 \<and> \<not> chg_igop p' \<and> igop p' = igop p
    \<and> refresh_length p' = refresh_length p \<and> cpb_stash p' = cpb_stash p
    \<and> (force_flag (usr_cfg p) = 0 \<longrightarrow> usr_cfg p' = usr_cfg p) \<and> \<not> force_active ENC_FORCE_IDR p'"
proof -
  let ?q = "get_cpb_start p"
  let ?c = "(cpb ?q)\<lparr>frm_idx := frm_idx (cpb ?q) + 1, st_cfg_pos := get_cpb_st_cfg_pos (cpb ?q) cfg\<rparr>"
  let ?r = "?q\<lparr>cpb := ?c\<lparr>seq_idx := seq_idx (cpb ?q) + 1\<rparr>\<rparr>"
  have q: "refs_ok cfg ?q"
    using p by (rule start_ok)
  then have cq: "cpb_ok (cpb ?q)" "st_cfgs_ok cfg" "0 \<le> st_cfg_pos (cpb ?q)"
    by (auto simp: refs_ok_def cpb_ok_def)
  have pos: "get_cpb_st_cfg_pos ((cpb ?q)\<lparr>frm_idx := n\<rparr>) cfg = get_cpb_st_cfg_pos (cpb ?q) cfg" for n
    by (simp add: get_cpb_st_cfg_pos_def)
  have "0 \<le> get_cpb_st_cfg_pos (cpb ?q) cfg"
    using cq(3) by (simp add: get_cpb_st_cfg_pos_def)
  then have r: "refs_ok cfg ?r" and rc: "cpb_ok (cpb ?r)"
    using q cq(1) by (auto intro!: refs_ok_cpb)
  obtain st where st: "st_cfg_at cfg (get_cpb_st_cfg_pos (cpb ?q) cfg) = Inr st" "int_arg_ok (sc_ref_mode st) (sc_ref_arg st)"
    using st_cfg_at_total [OF cq(2,3)] by blast
  let ?f0 = "set_st_cfg_to_frm (seq_idx (cpb ?q)) st"
  obtain f1 where f1: "set_frm_refresh_flag ?f0 ?r = Inr f1" "frm_ok f1" "fs_is_idr f1 = fs_is_idr ?f0"
      "fs_seq_idx f1 = fs_seq_idx ?f0" "fs_valid f1 = fs_valid ?f0"
    using refresh_flag_total [of ?r ?f0] set_st_ok [OF st(2)] r by (auto simp: refs_ok_def)
  obtain cs f2 where f2: "lt_cnter_loop (nat (lt_cfg_cnt cfg)) (lt_cnter (cpb ?r)) False f1 = Inr (cs, f2)"
      "length cs = length (lt_cnter (cpb ?r))" "cnter_ok cs" "frm_ok f2" "fs_is_idr f2 = fs_is_idr f1"
      "fs_seq_idx f2 = fs_seq_idx f1" "fs_valid f2 = fs_valid f1"
    using lt_cnter_loop_total [of "nat (lt_cfg_cnt cfg)" "lt_cnter (cpb ?r)" f1 False] rc cq(2) f1(2)
    by (fastforce simp: cpb_ok_def cpb_shape_def st_cfgs_ok_def)
  let ?x = "(?r\<lparr>cpb := (cpb ?r)\<lparr>lt_cnter := cs\<rparr>\<rparr>, f2)"
  obtain p3 f3 where x3: "force_all cfg ?x = (p3, f3)"
    by fastforce
  have "cpb_ok ((cpb ?r)\<lparr>lt_cnter := cs\<rparr>)"
    using rc f2(2,3) by (intro cpb_ok_runtime) (auto simp: cpb_ok_def cpb_shape_def)
  then have "refs_ok cfg (fst ?x)"
    using r by (simp add: refs_ok_def)
  with f2(4) have ok3: "refs_ok cfg p3" "frm_ok f3" "same_frame ?x (p3, f3)"
    using force_all_ok [of cfg ?x] x3 by (auto simp: force_ok_def)
  let ?f4 = "f3\<lparr>fs_non_recn := (fs_is_non_ref f3 \<or> igop p3 = 1) \<and> \<not> force_recon p3\<rparr>"
  have "get_cpb_frame cfg p = Inr (p3\<lparr>cpb := st_cfg_advance st (cpb p3)\<rparr>, ?f4)"
    using st(1) f1(1) f2(1) x3 by (simp add: get_cpb_frame_def Let_def pos force_all_def)
  moreover have "refs_ok cfg (p3\<lparr>cpb := st_cfg_advance st (cpb p3)\<rparr>)"
    using ok3(1) by (auto intro!: refs_ok_cpb advance_fields dest: refs_ok_cpb_ok)
  ultimately show ?thesis
    using ok3(2,3) f1(3-5) f2(5-7) start_fields [of p] start_clears_idr [of p]
    by (auto simp add: same_frame_def frm_ok_def advance_fields set_st_cfg_to_frm_def)
qed

lemma refer_total:
  assumes p: "refs_ok cfg p" and f: "frm_ok f"
  shows "\<exists>c s'. refer_and_store p f b s = Inr (MPP_OK, Some (p\<lparr>cpb := c\<rparr>), s') \<and> cpb_ok c
    \<and> seq_idx c = seq_idx (cpb p) \<and> length (es_init s') = MAX_CPB_REFS \<and> length (es_final s') = MAX_CPB_REFS
    \<and> fs_is_idr (es_curr s') = fs_is_idr f \<and> fs_seq_idx (es_curr s') = fs_seq_idx f"
proof -
  have c: "cpb_ok (cpb p)"
    using p by (rule refs_ok_cpb_ok)
  obtain r where r: "get_ref_from_cpb (cpb p) f = Inr r"
    using get_ref_total [OF _ f] c by (auto simp: cpb_ok_def)
  define c1 where "c1 = (case r of None \<Rightarrow> cpb p | Some _ \<Rightarrow> (cpb p)\<lparr>cpb_list0 := (cpb_list0 (cpb p))[0 := es_refr s]\<rparr>)"
  define f1 where "f1 = (if b then f\<lparr>fs_use_pass1 := True\<rparr> else f)"
  have c1: "cpb_ok c1" "seq_idx c1 = seq_idx (cpb p)"
    using c by (auto simp: c1_def cpb_ok_def cpb_shape_def split: option.splits)
  obtain ini where ini: "save_cpb_status c1 (replicate 8 frm_0) = Inr ini" "length ini = 8"
    using save_cpb_status_total [of c1 "replicate 8 frm_0"] c1 by (auto simp: cpb_ok_def)
  have c2: "cpb_ok (store_ref_to_cpb c1 f1)"
    using c1(1) by (rule store_ok)
  then obtain fin where fin: "save_cpb_status (store_ref_to_cpb c1 f1) (replicate 8 frm_0) = Inr fin" "length fin = 8"
    using save_cpb_status_total [of "store_ref_to_cpb c1 f1" "replicate 8 frm_0"] by (auto simp: cpb_ok_def)
  show ?thesis
    using r ini fin c2 c1(2) unfolding refer_and_store_def
    by (cases r) (auto simp: c1_def f1_def Let_def)
qed

text \<open>One call of \<open>get_cpb\<close>: it does not fail, and the next sequence index follows.\<close>

lemma get_cpb_step:
  assumes p: "refs_ok cfg p"
  shows "\<exists>p' s'. mpp_enc_refs_get_cpb (Some p) s = Inr (MPP_OK, Some p', s') \<and> refs_ok cfg p'
    \<and> length (es_init s') = MAX_CPB_REFS \<and> length (es_final s') = MAX_CPB_REFS
    \<and> fs_is_idr (es_curr s') = (next_seq p = 0) \<and> fs_seq_idx (es_curr s') = word_of_int (next_seq p)
    \<and> seq_idx (cpb p') = next_seq p + 1 \<and> \<not> chg_igop p' \<and> igop p' = igop p
    \<and> refresh_length p' = refresh_length p \<and> cpb_stash p' = cpb_stash p
    \<and> (force_flag (usr_cfg p) = 0 \<longrightarrow> usr_cfg p' = usr_cfg p) \<and> \<not> force_active ENC_FORCE_IDR p'"
proof -
  obtain p1 f where f: "get_cpb_frame cfg p = Inr (p1, f)" "refs_ok cfg p1" "frm_ok f"
      "fs_is_idr f = (next_seq p = 0)" "fs_seq_idx f = word_of_int (next_seq p)"
      "seq_idx (cpb p1) = next_seq p + 1" "\<not> chg_igop p1" "igop p1 = igop p"
      "refresh_length p1 = refresh_length p" "cpb_stash p1 = cpb_stash p"
      "force_flag (usr_cfg p) = 0 \<longrightarrow> usr_cfg p1 = usr_cfg p" "\<not> force_active ENC_FORCE_IDR p1"
    using frame_total [OF p] by blast
  obtain c s' where r: "refer_and_store p1 f (fs_save_pass1 (es_curr s)) s = Inr (MPP_OK, Some (p1\<lparr>cpb := c\<rparr>), s')"
      "cpb_ok c" "seq_idx c = seq_idx (cpb p1)" "length (es_init s') = 8" "length (es_final s') = 8"
      "fs_is_idr (es_curr s') = fs_is_idr f" "fs_seq_idx (es_curr s') = fs_seq_idx f"
    using refer_total [OF f(2,3)] by blast
  have "refs_cfg p = Some cfg"
    using p by (simp add: refs_ok_def)
  then have "mpp_enc_refs_get_cpb (Some p) s = Inr (MPP_OK, Some (p1\<lparr>cpb := c\<rparr>), s')"
    using f(1) r(1) by (simp add: mpp_enc_refs_get_cpb_def)
  moreover have "refs_ok cfg (p1\<lparr>cpb := c\<rparr>)"
    using f(2) r(2) by (rule refs_ok_cpb)
  ultimately show ?thesis
    using f r by simp
qed

section \<open>Reachable states\<close>

text \<open>
  A configuration the encoder can run: the arrays hold the announced entries, the mode arguments are
  indices of the tables they select, and the buffer size is the sum \<open>mpp_enc_refs_dryrun\<close> computes and
  within the eight entries of \<open>EncCpbStatus\<close>.
\<close>

definition cfg_usable :: "MppEncRefCfgImpl \<Rightarrow> bool" where
  "cfg_usable cfg \<longleftrightarrow> cfg_name cfg = MODULE_TAG \<and> st_cfgs_ok cfg \<and> info_fits (cpb_info cfg)
     \<and> lt_cfg_cnt cfg \<le> int (length (case lt_cfg cfg of None \<Rightarrow> [] | Some l \<Rightarrow> l))
     \<and> (\<forall>l\<in>set (case lt_cfg cfg of None \<Rightarrow> [] | Some l \<Rightarrow> l). int_arg_ok (lc_ref_mode l) (lc_ref_arg l))"

definition usr_cfg_ok :: "MppEncRefFrmUsrCfg \<Rightarrow> bool" where
  "usr_cfg_ok u \<longleftrightarrow> (force_flag u AND ENC_FORCE_REF_MODE \<noteq> 0 \<longrightarrow> int_arg_ok (force_ref_mode u) (force_ref_arg u))"

inductive refs_reach :: "MppEncRefsImpl \<Rightarrow> bool" where
  started: "cfg_usable cfg \<Longrightarrow> mpp_enc_refs_set_cfg (Some refs_impl_0) (Some cfg) = Inr (MPP_OK, Some p) \<Longrightarrow> refs_reach p"
| set_cfg: "refs_reach p \<Longrightarrow> cfg_usable cfg \<Longrightarrow> mpp_enc_refs_set_cfg (Some p) (Some cfg) = Inr (MPP_OK, Some p') \<Longrightarrow>
    refs_reach p'"
| usr: "refs_reach p \<Longrightarrow> usr_cfg_ok u \<Longrightarrow> mpp_enc_refs_set_usr_cfg (Some p) u = (MPP_OK, Some p') \<Longrightarrow> refs_reach p'"
| igop: "refs_reach p \<Longrightarrow> n \<noteq> 0 \<or> refresh_length p = 0 \<Longrightarrow> mpp_enc_refs_set_rc_igop (Some p) n = (MPP_OK, Some p') \<Longrightarrow>
    refs_reach p'"
| refresh: "refs_reach p \<Longrightarrow> 0 \<le> n \<Longrightarrow> mpp_enc_refs_set_refresh_length (Some p) n = (r, Some p') \<Longrightarrow> refs_reach p'"
| recon: "refs_reach p \<Longrightarrow> mpp_enc_refs_force_recon (Some p) n = (MPP_OK, Some p') \<Longrightarrow> refs_reach p'"
| stash: "refs_reach p \<Longrightarrow> mpp_enc_refs_stash (Some p) = (MPP_OK, Some p') \<Longrightarrow> refs_reach p'"
| rollback: "refs_reach p \<Longrightarrow> mpp_enc_refs_rollback (Some p) = (MPP_OK, Some p') \<Longrightarrow> refs_reach p'"
| get_cpb: "refs_reach p \<Longrightarrow> mpp_enc_refs_get_cpb (Some p) s = Inr (MPP_OK, Some p', s') \<Longrightarrow> refs_reach p'"
| pass1: "refs_reach p \<Longrightarrow> mpp_enc_refs_get_cpb_pass1 (Some p) s = Inr (MPP_OK, Some p', s') \<Longrightarrow> refs_reach p'"

definition refs_inv :: "MppEncRefsImpl \<Rightarrow> bool" where
  "refs_inv p \<longleftrightarrow> (\<exists>cfg. refs_ok cfg p) \<and> cpb_ok (cpb_stash p)"

lemma setup_lt_cnter_total:
  "n \<le> length ls \<Longrightarrow> n \<le> length cs \<Longrightarrow> \<forall>l\<in>set ls. int_arg_ok (lc_ref_mode l) (lc_ref_arg l) \<Longrightarrow> cnter_ok cs \<Longrightarrow>
     \<exists>cs'. setup_lt_cnter n ls cs = Inr cs' \<and> length cs' = length cs \<and> cnter_ok cs'"
proof (induction n ls cs rule: setup_lt_cnter.induct)
  case (2 n l ls c cs)
  then have "cnter_ok cs"
    by (simp add: cnter_ok_def)
  with 2 obtain cs' where "setup_lt_cnter n ls cs = Inr cs'" "length cs' = length cs" "cnter_ok cs'"
    by auto
  with 2 show ?case
    by (simp add: cnter_ok_def)
qed auto

lemma virtual_cpb_0_ok: "cpb_ok virtual_cpb_0"
proof -
  have "int_arg_ok 0 0"
    by (simp add: int_arg_ok_def mode_arg_ok_def)
  then show ?thesis
    by (simp add: cpb_ok_def cpb_shape_def virtual_cpb_0_def cnter_ok_def refs_cnt_0_def info_fits_def cpb_info_0_def
        in_set_replicate)
qed

lemma set_cfg_ok:
  assumes cfg: "cfg_usable cfg" and c: "cpb_ok (cpb p)"
    and refresh: "refresh_length p \<noteq> 0 \<longrightarrow> igop p \<noteq> 0"
    and force: "force_active ENC_FORCE_REF_MODE p \<longrightarrow> int_arg_ok (force_ref_mode (usr_cfg p)) (force_ref_arg (usr_cfg p))"
  shows "\<exists>p'. mpp_enc_refs_set_cfg (Some p) (Some cfg) = Inr (MPP_OK, Some p') \<and> refs_ok cfg p' \<and> cpb_stash p' = cpb_stash p"
proof -
  define c0 where "c0 = (if cfg_keep_cpb cfg then cpb p else virtual_cpb_0)"
  have c0: "cpb_ok c0"
    using c virtual_cpb_0_ok by (simp add: c0_def)
  let ?lts = "case lt_cfg cfg of None \<Rightarrow> [] | Some l \<Rightarrow> l"
  have "nat (lt_cfg_cnt cfg) \<le> length ?lts" "\<forall>l\<in>set ?lts. int_arg_ok (lc_ref_mode l) (lc_ref_arg l)"
    using cfg unfolding cfg_usable_def by linarith+
  moreover have "nat (lt_cfg_cnt cfg) \<le> length (lt_cnter c0)" "cnter_ok (lt_cnter c0)" "length (lt_cnter c0) = 16"
    using cfg c0 by (auto simp: cfg_usable_def st_cfgs_ok_def cpb_ok_def cpb_shape_def)
  ultimately obtain cs where cs: "setup_lt_cnter (nat (lt_cfg_cnt cfg)) ?lts (lt_cnter c0) = Inr cs" "length cs = 16" "cnter_ok cs"
    using setup_lt_cnter_total by metis
  have new: "cpb_ok (c0\<lparr>cpb_cpb_info := cpb_info cfg, lt_cnter := cs\<rparr>)"
    using c0 cs cfg by (simp add: cpb_ok_def cpb_shape_def cfg_usable_def)
  show ?thesis
    using cs(1) new cfg refresh force
    by (cases "cfg_keep_cpb cfg")
      (auto simp: mpp_enc_refs_set_cfg_def Let_def c0_def refs_ok_def cfg_usable_def force_active_def)
qed

lemma pass1_is_refer: "\<exists>f. frm_ok f \<and> mpp_enc_refs_get_cpb_pass1 (Some p) s = refer_and_store p f False s"
  unfolding mpp_enc_refs_get_cpb_pass1_def option.case
  by (rule exI, rule conjI [rotated], rule refl) (simp add: frm_ok_def mode_arg_ok_def)

lemma refs_reach_inv: "refs_reach p \<Longrightarrow> refs_inv p"
proof (induction rule: refs_reach.induct)
  case (started cfg p)
  have "\<not> force_active ENC_FORCE_REF_MODE refs_impl_0"
    by (simp add: force_active_def refs_impl_0_def usr_cfg_0_def)
  with set_cfg_ok [OF started(1), of refs_impl_0] started(2) virtual_cpb_0_ok show ?case
    by (auto simp: refs_inv_def refs_impl_0_def)
next
  case (set_cfg p cfg p')
  then obtain cfg0 where "refs_ok cfg0 p" "cpb_ok (cpb_stash p)"
    by (auto simp: refs_inv_def)
  with set_cfg_ok [OF set_cfg(2), of p] set_cfg(3) show ?case
    by (auto simp: refs_inv_def refs_ok_def)
next
  case (usr p u p')
  then show ?case
    by (auto simp: refs_inv_def refs_ok_def mpp_enc_refs_set_usr_cfg_def usr_cfg_ok_def force_active_def)
next
  case (igop p n p')
  then show ?case
    by (auto simp: refs_inv_def refs_ok_def mpp_enc_refs_set_rc_igop_def force_active_def split: if_splits)
next
  case (refresh p n r p')
  then show ?case
    by (auto simp: refs_inv_def refs_ok_def mpp_enc_refs_set_refresh_length_def force_active_def split: if_splits)
next
  case (recon p n p')
  then show ?case
    by (auto simp: refs_inv_def refs_ok_def mpp_enc_refs_force_recon_def force_active_def)
next
  case (stash p p')
  then show ?case
    by (auto simp: refs_inv_def refs_ok_def mpp_enc_refs_stash_def force_active_def)
next
  case (rollback p p')
  then show ?case
    by (auto simp: refs_inv_def refs_ok_def mpp_enc_refs_rollback_def)
next
  case (get_cpb p s p' s')
  then obtain cfg where "refs_ok cfg p" "cpb_ok (cpb_stash p)"
    by (auto simp: refs_inv_def)
  with get_cpb_step [of cfg p s] get_cpb(2) show ?case
    by (auto simp: refs_inv_def)
next
  case (pass1 p s p' s')
  then obtain cfg where "refs_ok cfg p" "cpb_ok (cpb_stash p)"
    by (auto simp: refs_inv_def)
  moreover obtain f where "frm_ok f" "mpp_enc_refs_get_cpb_pass1 (Some p) s = refer_and_store p f False s"
    using pass1_is_refer by blast
  ultimately show ?case
    using pass1(2) refer_total [of cfg p f False s] by (auto simp: refs_inv_def intro!: exI [of _ cfg] refs_ok_cpb)
qed

text \<open>
  C11: in every state the encoder reaches with usable configurations, whatever it asks for next, asking
  for the next frame succeeds without a fault, leaves a state of the same kind, and fills at most the
  eight entries of the initial and the final status.
\<close>

theorem get_cpb_never_faults:
  assumes "refs_reach p"
  shows "\<exists>p' s'. mpp_enc_refs_get_cpb (Some p) s = Inr (MPP_OK, Some p', s') \<and> refs_reach p' \<and> cpb_shape (cpb p')
    \<and> length (es_init s') = MAX_CPB_REFS \<and> length (es_final s') = MAX_CPB_REFS"
proof -
  obtain cfg where "refs_ok cfg p"
    using refs_reach_inv [OF assms] by (auto simp: refs_inv_def)
  from get_cpb_step [OF this, of s] obtain p' s' where
    g: "mpp_enc_refs_get_cpb (Some p) s = Inr (MPP_OK, Some p', s')" "refs_ok cfg p'"
      "length (es_init s') = MAX_CPB_REFS" "length (es_final s') = MAX_CPB_REFS"
    by blast
  moreover have "refs_reach p'"
    using assms g(1) by (rule refs_reach.get_cpb)
  ultimately show ?thesis
    by (auto simp: refs_ok_def cpb_ok_def)
qed

definition status_0 :: EncCpbStatus where
  "status_0 = \<lparr>es_seq_idx = 0, es_curr = frm_0, es_refr = frm_0, es_init = replicate 8 frm_0, es_final = replicate 8 frm_0\<rparr>"

definition demo_refs :: MppEncRefsImpl where
  "demo_refs = refs_impl_0\<lparr>refs_cfg := Some mpp_enc_ref_default, chg_ref_cfg := True, hdr_need_update := True,
     cpb := virtual_cpb_0\<lparr>cpb_cpb_info := cpb_info mpp_enc_ref_default\<rparr>\<rparr>"

lemma default_usable: "cfg_usable mpp_enc_ref_default"
  by (simp add: cfg_usable_def st_cfgs_ok_def mpp_enc_ref_default_def default_st_ref_cfg_def info_fits_def
      int_arg_ok_def mode_arg_ok_def)

lemma demo_refs_reach: "refs_reach demo_refs"
proof (rule refs_reach.started [OF default_usable])
  show "mpp_enc_refs_set_cfg (Some refs_impl_0) (Some mpp_enc_ref_default) = Inr (MPP_OK, Some demo_refs)"
    by (simp add: mpp_enc_refs_set_cfg_def demo_refs_def mpp_enc_ref_default_def refs_impl_0_def Let_def
        virtual_cpb_0_def)
qed

theorem get_cpb_never_faults_witness:
  "\<exists>p' s'. mpp_enc_refs_get_cpb (Some demo_refs) status_0 = Inr (MPP_OK, Some p', s')"
  using get_cpb_never_faults [OF demo_refs_reach, of status_0] by blast

section \<open>The cadence of IDR frames\<close>

text \<open>\<open>n\<close> calls of \<open>get_cpb\<close>, with the statuses they report.\<close>

fun get_frames :: "nat \<Rightarrow> MppEncRefsImpl option \<Rightarrow> EncCpbStatus \<Rightarrow> (EncCpbStatus list \<times> MppEncRefsImpl option) run" where
  "get_frames 0 refs s = Inr ([], refs)"
| "get_frames (Suc n) refs s =
     run_bind (mpp_enc_refs_get_cpb refs s) (\<lambda>(_, refs, s).
       run_bind (get_frames n refs s) (\<lambda>(ss, refs). Inr (s # ss, refs)))"

definition gop_ok :: "MppEncRefCfgImpl \<Rightarrow> int \<Rightarrow> int \<Rightarrow> MppEncRefsImpl \<Rightarrow> bool" where
  "gop_ok cfg g k p \<longleftrightarrow> refs_ok cfg p \<and> igop p = g \<and> refresh_length p = 0 \<and> force_flag (usr_cfg p) = 0
     \<and> next_seq p = k mod g"

lemma gop_step:
  assumes p: "gop_ok cfg g k p" and g: "0 < g"
  shows "\<exists>p' s'. mpp_enc_refs_get_cpb (Some p) s = Inr (MPP_OK, Some p', s') \<and> gop_ok cfg g (k + 1) p'
    \<and> fs_is_idr (es_curr s') = (k mod g = 0) \<and> fs_seq_idx (es_curr s') = word_of_int (k mod g)"
proof -
  have "refs_ok cfg p" and idle: "igop p = g" "refresh_length p = 0" "force_flag (usr_cfg p) = 0" "next_seq p = k mod g"
    using p by (auto simp: gop_ok_def)
  from get_cpb_step [OF this(1), of s] idle obtain p' s' where
    q: "mpp_enc_refs_get_cpb (Some p) s = Inr (MPP_OK, Some p', s')" "refs_ok cfg p'"
      "fs_is_idr (es_curr s') = (k mod g = 0)" "fs_seq_idx (es_curr s') = word_of_int (k mod g)"
      "seq_idx (cpb p') = k mod g + 1" "\<not> chg_igop p'" "igop p' = g" "refresh_length p' = 0" "usr_cfg p' = usr_cfg p"
      "\<not> force_active ENC_FORCE_IDR p'"
    by auto
  have b: "0 \<le> k mod g" "k mod g < g"
    using g by simp_all
  moreover have "(k + 1) mod g = (k mod g + 1) mod g"
    by (simp add: mod_add_left_eq)
  ultimately have "(k + 1) mod g = (if k mod g + 1 = g then 0 else k mod g + 1)"
    by (auto intro: mod_pos_pos_trivial)
  then have "next_seq p' = (k + 1) mod g"
    using q(5-8,10) g b by (auto simp: next_seq_def)
  with q idle show ?thesis
    by (auto simp: gop_ok_def)
qed

lemma gop_frames:
  assumes "gop_ok cfg g k p" and "0 < g"
  shows "\<exists>ss p'. get_frames n (Some p) s = Inr (ss, Some p') \<and> length ss = n
    \<and> (\<forall>i<n. fs_is_idr (es_curr (ss ! i)) = ((k + int i) mod g = 0)
           \<and> fs_seq_idx (es_curr (ss ! i)) = word_of_int ((k + int i) mod g))"
  using assms
proof (induction n arbitrary: k p s)
  case (Suc n)
  obtain p' s' where q: "mpp_enc_refs_get_cpb (Some p) s = Inr (MPP_OK, Some p', s')" "gop_ok cfg g (k + 1) p'"
      "fs_is_idr (es_curr s') = (k mod g = 0)" "fs_seq_idx (es_curr s') = word_of_int (k mod g)"
    using gop_step [OF Suc.prems] by blast
  from Suc.IH [OF q(2) Suc.prems(2), of s'] obtain ss p'' where
    ss: "get_frames n (Some p') s' = Inr (ss, Some p'')" "length ss = n"
      "\<forall>i<n. fs_is_idr (es_curr (ss ! i)) = ((k + 1 + int i) mod g = 0)
         \<and> fs_seq_idx (es_curr (ss ! i)) = word_of_int ((k + 1 + int i) mod g)"
    by blast
  with q show ?case
    by (auto simp: less_Suc_eq_0_disj nth_Cons' algebra_simps)
qed simp

lemma reach_gop_ok:
  assumes "refs_reach p" "mpp_enc_refs_set_rc_igop (Some p) g = (MPP_OK, Some p')"
    and "igop p \<noteq> g" "refresh_length p = 0" "force_flag (usr_cfg p) = 0"
  shows "\<exists>cfg. gop_ok cfg g 0 p'"
proof -
  have "refs_reach p'"
    using assms by (blast intro: refs_reach.igop)
  then obtain cfg where "refs_ok cfg p'"
    using refs_reach_inv by (auto simp: refs_inv_def)
  with assms(2-) show ?thesis
    by (auto simp: gop_ok_def mpp_enc_refs_set_rc_igop_def next_seq_def)
qed


lemma demo_refs_idle: "igop demo_refs = 0" "refresh_length demo_refs = 0" "force_flag (usr_cfg demo_refs) = 0"
    "seq_idx (cpb demo_refs) = 0" "chg_igop demo_refs = False"
  by (simp_all add: demo_refs_def refs_impl_0_def usr_cfg_0_def virtual_cpb_0_def)


section \<open>Stash, rollback and intra refresh\<close>

text \<open>
  C35: the rollback restores the buffer but not the pending requests: when a frame taken after a stash
  consumed a forced IDR request and the encoder rolls back, the frame taken again is not an IDR frame.
\<close>

theorem rollback_loses_forced_idr:
  assumes p: "refs_reach p" and idr: "force_active ENC_FORCE_IDR p"
    and mid: "0 < seq_idx (cpb p)" "igop p = 0 \<or> seq_idx (cpb p) < igop p"
  shows "\<exists>p1 s1 p2 s2. mpp_enc_refs_get_cpb (snd (mpp_enc_refs_stash (Some p))) s = Inr (MPP_OK, Some p1, s1)
    \<and> fs_is_idr (es_curr s1)
    \<and> mpp_enc_refs_get_cpb (snd (mpp_enc_refs_rollback (Some p1))) s1 = Inr (MPP_OK, Some p2, s2)
    \<and> \<not> fs_is_idr (es_curr s2)"
proof -
  let ?p0 = "p\<lparr>cpb_stash := cpb p\<rparr>"
  have p0: "refs_reach ?p0"
    using p by (rule refs_reach.stash) (simp add: mpp_enc_refs_stash_def)
  then obtain cfg where "refs_ok cfg ?p0"
    using refs_reach_inv by (auto simp: refs_inv_def)
  moreover have "force_active ENC_FORCE_IDR ?p0"
    using idr by (simp add: force_active_def)
  ultimately obtain p1 s1 where p1: "mpp_enc_refs_get_cpb (Some ?p0) s = Inr (MPP_OK, Some p1, s1)"
      "fs_is_idr (es_curr s1)" "\<not> chg_igop p1" "igop p1 = igop p" "cpb_stash p1 = cpb p"
      "\<not> force_active ENC_FORCE_IDR p1"
    using get_cpb_step [of cfg ?p0 s] by (auto simp: next_seq_def)
  let ?q = "p1\<lparr>cpb := cpb_stash p1\<rparr>"
  have "refs_reach p1"
    using p0 p1(1) by (rule refs_reach.get_cpb)
  then have "refs_reach ?q"
    by (rule refs_reach.rollback) (simp add: mpp_enc_refs_rollback_def)
  then obtain cfg' where "refs_ok cfg' ?q"
    using refs_reach_inv by (auto simp: refs_inv_def)
  moreover have "next_seq ?q = seq_idx (cpb p)"
    using p1 mid by (auto simp: next_seq_def)
  ultimately obtain p2 s2 where "mpp_enc_refs_get_cpb (Some ?q) s1 = Inr (MPP_OK, Some p2, s2)" "\<not> fs_is_idr (es_curr s2)"
    using get_cpb_step [of cfg' ?q s1] mid(1) by auto
  with p1(1,2) show ?thesis
    by (simp add: mpp_enc_refs_stash_def mpp_enc_refs_rollback_def)
qed

lemma demo_refs_next:
  "\<exists>p. refs_reach p \<and> seq_idx (cpb p) = 1 \<and> igop p = 0 \<and> refresh_length p = 0 \<and> usr_cfg p = usr_cfg demo_refs"
proof -
  obtain cfg where "refs_ok cfg demo_refs"
    using refs_reach_inv [OF demo_refs_reach] by (auto simp: refs_inv_def)
  from get_cpb_step [OF this, of status_0] obtain p s where
    "mpp_enc_refs_get_cpb (Some demo_refs) status_0 = Inr (MPP_OK, Some p, s)" "seq_idx (cpb p) = next_seq demo_refs + 1"
      "igop p = igop demo_refs" "refresh_length p = refresh_length demo_refs"
      "force_flag (usr_cfg demo_refs) = 0 \<longrightarrow> usr_cfg p = usr_cfg demo_refs"
    by blast
  with demo_refs_reach show ?thesis
    by (auto simp: demo_refs_idle next_seq_def force_active_def intro!: exI [of _ p] refs_reach.get_cpb [OF demo_refs_reach])
qed

theorem rollback_loses_forced_idr_witness:
  "\<exists>p p1 s1 p2 s2. force_active ENC_FORCE_IDR p
    \<and> mpp_enc_refs_get_cpb (snd (mpp_enc_refs_stash (Some p))) status_0 = Inr (MPP_OK, Some p1, s1)
    \<and> mpp_enc_refs_get_cpb (snd (mpp_enc_refs_rollback (Some p1))) s1 = Inr (MPP_OK, Some p2, s2)
    \<and> \<not> fs_is_idr (es_curr s2)"
proof -
  obtain p where p: "refs_reach p" "seq_idx (cpb p) = 1" "igop p = 0"
    using demo_refs_next by blast
  let ?u = "usr_cfg_0\<lparr>force_flag := ENC_FORCE_IDR\<rparr>"
  let ?p = "p\<lparr>chg_usr_cfg := True, usr_cfg := ?u\<rparr>"
  have "refs_reach ?p"
    by (rule refs_reach.usr [OF p(1), of ?u])
      (simp_all add: usr_cfg_ok_def mpp_enc_refs_set_usr_cfg_def usr_cfg_0_def)
  moreover have "force_active ENC_FORCE_IDR ?p"
    by (simp add: force_active_def usr_cfg_0_def)
  ultimately show ?thesis
    using rollback_loses_forced_idr [of ?p status_0] p(2,3) by fastforce
qed

lemma refresh_divides:
  assumes "refs_cfg p = Some cfg" "st_cfgs_ok cfg" "cpb_ok (cpb p)" "refresh_length p \<noteq> 0" "igop p = 0"
  shows "mpp_enc_refs_get_cpb (Some p) s = Inl Div_By_Zero"
proof -
  let ?q = "get_cpb_start p"
  have "cpb_ok (cpb ?q)"
    using assms(3) by (simp add: get_cpb_start_def Let_def cleanup_ok)
  then have "0 \<le> st_cfg_pos ((cpb ?q)\<lparr>frm_idx := n\<rparr>)" for n
    by (simp add: cpb_ok_def)
  from st_cfg_at_total [OF assms(2) this]
  obtain st where "st_cfg_at cfg (get_cpb_st_cfg_pos ((cpb ?q)\<lparr>frm_idx := frm_idx (cpb ?q) + 1\<rparr>) cfg) = Inr st"
    by blast
  then show ?thesis
    using assms start_fields [of p]
    by (simp add: mpp_enc_refs_get_cpb_def get_cpb_frame_def set_frm_refresh_flag_def Let_def)
qed

text \<open>
  turning the intra period off (zero means one IDR frame only) while an intra refresh length is
  set makes the next frame divide by zero.
\<close>

theorem igop_zero_after_refresh_faults:
  assumes p: "refs_reach p" and len: "0 < len" "len < g" "len < 2 ^ 32"
    and p1: "snd (mpp_enc_refs_set_rc_igop (Some p) g) = Some p1"
    and p2: "snd (mpp_enc_refs_set_refresh_length (Some p1) len) = Some p2"
    and p3: "snd (mpp_enc_refs_set_rc_igop (Some p2) 0) = Some p3"
  shows "mpp_enc_refs_get_cpb (Some p3) s = Inl Div_By_Zero"
proof -
  obtain cfg where ok: "refs_ok cfg p"
    using refs_reach_inv [OF p] by (auto simp: refs_inv_def)
  have "(word_of_int len :: u32) \<noteq> 0"
    using len by (simp add: word_of_int_eq_0_iff zdvd_not_zless)
  moreover have "refs_cfg p3 = Some cfg" "cpb p3 = cpb p" "igop p3 = 0" "refresh_length p3 = word_of_int len"
    using ok p1 p2 p3 len by (auto simp: mpp_enc_refs_set_rc_igop_def mpp_enc_refs_set_refresh_length_def
        refs_ok_def split: if_splits)
  ultimately show ?thesis
    using ok refresh_divides [of p3 cfg s] by (auto simp: refs_ok_def)
qed

theorem igop_zero_after_refresh_faults_witness:
  "\<exists>p1 p2 p3. snd (mpp_enc_refs_set_rc_igop (Some demo_refs) 30) = Some p1
     \<and> snd (mpp_enc_refs_set_refresh_length (Some p1) 10) = Some p2
     \<and> snd (mpp_enc_refs_set_rc_igop (Some p2) 0) = Some p3
     \<and> mpp_enc_refs_get_cpb (Some p3) status_0 = Inl Div_By_Zero"
proof -
  obtain p1 where p1: "snd (mpp_enc_refs_set_rc_igop (Some demo_refs) 30) = Some p1"
    by (simp add: mpp_enc_refs_set_rc_igop_def)
  obtain p2 where p2: "snd (mpp_enc_refs_set_refresh_length (Some p1) 10) = Some p2"
    by (cases "10 < igop p1") (simp_all add: mpp_enc_refs_set_refresh_length_def)
  obtain p3 where p3: "snd (mpp_enc_refs_set_rc_igop (Some p2) 0) = Some p3"
    by (simp add: mpp_enc_refs_set_rc_igop_def)
  show ?thesis
    using igop_zero_after_refresh_faults [OF demo_refs_reach _ _ _ p1 p2 p3, of status_0] p1 p2 p3 by simp
qed

end
