(* ===== verification/Mpp_Enc_Check.thy ===== *)
theory Mpp_Enc_Check
  imports Mpp_Enc_Refs_Run
begin

text \<open>
  The check of a reference configuration in \<open>mpp/base/mpp_enc_ref.c\<close>: the two loops over the long-term
  and the short-term entries, and the dry run that determines the size of the buffer.
\<close>

section \<open>The check\<close>

text \<open>\<open>1 << n\<close>, stored in a 32-bit mask.\<close>

definition shl1 :: "int \<Rightarrow> u32 run" where
  "shl1 n = (if 0 \<le> n \<and> n < 32 then Inr (push_bit (nat n) 1) else Inl Bad_Shift)"

text \<open>
  One iteration of each loop. The state is the mask of the indices seen, their number, the largest one
  and the length of the configuration's period; the flag tells whether the entry is accepted.
\<close>

type_synonym check_state = "u32 \<times> int \<times> int \<times> int"

definition check_lt_step :: "MppEncRefLtFrmCfg \<Rightarrow> check_state \<Rightarrow> (bool \<times> check_state) run" where
  "check_lt_step l = (\<lambda>(used, cnt, idx, len).
     run_bind (shl1 (lc_lt_idx l)) (\<lambda>m.
       let bad_idx = (lc_lt_idx l \<ge> MPP_ENC_MAX_LT_REF_NUM);
           redefined = (used AND m \<noteq> 0);
           cnt = (if used AND m = 0 then cnt + 1 else cnt);
           used = (if used AND m = 0 then used OR m else used);
           idx = (if lc_lt_idx l > idx then lc_lt_idx l else idx);
           bad_tid = (lc_temporal_id l \<noteq> 0);
           bad_mode = (\<not> REF_MODE_IS_GLOBAL (lc_ref_mode l) \<and> \<not> REF_MODE_IS_LT_MODE (lc_ref_mode l))
       in if bad_idx \<or> redefined \<or> bad_tid \<or> bad_mode then Inr (False, (used, cnt, idx, len))
          else Inr (True, (used, cnt, idx,
                 if lc_lt_gap l \<noteq> 0 \<and> lc_lt_gap l + lc_lt_delay l > len then lc_lt_gap l + lc_lt_delay l else len))))"

fun check_lt_loop :: "nat \<Rightarrow> MppEncRefLtFrmCfg list \<Rightarrow> check_state \<Rightarrow> (bool \<times> check_state) run" where
  "check_lt_loop 0 ls s = Inr (True, s)"
| "check_lt_loop (Suc n) [] s = Inl Out_Of_Bounds"
| "check_lt_loop (Suc n) (l # ls) s =
     run_bind (check_lt_step l s) (\<lambda>(ok, s). if ok then check_lt_loop n ls s else Inr (False, s))"

text \<open>The entry is returned because a negative \<open>repeat\<close> is set to zero in place.\<close>

definition check_st_step ::
  "bool \<Rightarrow> MppEncRefStFrmCfg \<Rightarrow> check_state \<Rightarrow> (bool \<times> MppEncRefStFrmCfg \<times> check_state) run" where
  "check_st_step ends st = (\<lambda>(used, cnt, mtid, len).
     run_bind (shl1 (sc_temporal_id st)) (\<lambda>m.
       let bad_tid = (sc_temporal_id st > MPP_ENC_MAX_TEMPORAL_LAYER_NUM - 1);
           bad_mode = (\<not> REF_MODE_IS_GLOBAL (sc_ref_mode st) \<and> \<not> REF_MODE_IS_ST_MODE (sc_ref_mode st));
           st = (if sc_repeat st < 0 then st\<lparr>sc_repeat := 0\<rparr> else st);
           bad_end = (ends \<and> (sc_is_non_ref st \<noteq> 0 \<or> sc_temporal_id st > 0))
       in if bad_tid \<or> bad_mode \<or> bad_end then Inr (False, st, (used, cnt, mtid, len))
          else
            let fresh = (sc_is_non_ref st = 0 \<and> used AND m = 0)
            in Inr (True, st, (if fresh then used OR m else used, if fresh then cnt + 1 else cnt,
                               if sc_temporal_id st > mtid then sc_temporal_id st else mtid,
                               len + 1 + sc_repeat st))))"

fun check_st_loop ::
  "nat \<Rightarrow> bool \<Rightarrow> MppEncRefStFrmCfg list \<Rightarrow> check_state \<Rightarrow> (bool \<times> MppEncRefStFrmCfg list \<times> check_state) run" where
  "check_st_loop 0 front sts s = Inr (True, sts, s)"
| "check_st_loop (Suc n) front [] s = Inl Out_Of_Bounds"
| "check_st_loop (Suc n) front (st # sts) s =
     run_bind (check_st_step (front \<or> n = 0) st s) (\<lambda>(ok, st, s).
       if ok then run_bind (check_st_loop n False sts s) (\<lambda>(ok, sts, s). Inr (ok, st # sts, s))
       else Inr (False, st # sts, s))"

definition set_st_list :: "MppEncRefStFrmCfg list \<Rightarrow> MppEncRefCfgImpl \<Rightarrow> MppEncRefCfgImpl" where
  "set_st_list sts p = p\<lparr>st_cfg := map_option (\<lambda>_. sts) (st_cfg p)\<rparr>"

text \<open>
  The last part: the results of the loops go into \<open>cpb_info\<close>, and a dry run with the configuration
  itself computes the size of the buffer. \<open>alloc\<close> tells whether \<open>mpp_enc_refs_init\<close> can allocate.
\<close>

definition check_dryrun :: "bool \<Rightarrow> MppEncCpbInfo \<Rightarrow> MppEncRefCfgImpl \<Rightarrow> (bool \<times> MppEncRefCfgImpl) run" where
  "check_dryrun alloc info p =
     (let p = p\<lparr>cpb_info := info\<rparr>;
          (r1, refs) = mpp_enc_refs_init alloc True
      in run_bind (mpp_enc_refs_set_cfg refs (Some p)) (\<lambda>(r2, refs).
         run_bind (mpp_enc_refs_dryrun refs) (\<lambda>(r3, refs).
           let p = (case refs of None \<Rightarrow> p | Some q \<Rightarrow> (case refs_cfg q of None \<Rightarrow> p | Some c \<Rightarrow> c));
               (r4, info) = mpp_enc_refs_get_cpb_info refs (Some (cpb_info p));
               p = p\<lparr>cpb_info := (case info of None \<Rightarrow> cpb_info p | Some i \<Rightarrow> i)\<rparr>;
               r5 = fst (mpp_enc_refs_deinit True refs)
           in Inr (r1 = MPP_OK \<and> r2 = MPP_OK \<and> r3 = MPP_OK \<and> r4 = MPP_OK \<and> r5 = MPP_OK, p))))"

definition mpp_enc_ref_cfg_check :: "bool \<Rightarrow> MppEncRefCfgImpl option \<Rightarrow> (mpp_ret \<times> MppEncRefCfgImpl option) run" where
  "mpp_enc_ref_cfg_check alloc ref =
     (case ref of
        None \<Rightarrow> Inr (MPP_ERR_VALUE, None)
      | Some p \<Rightarrow>
          if check_is_mpp_enc_ref_cfg ref \<noteq> MPP_OK then Inr (MPP_ERR_VALUE, Some p)
          else
            let lts = (case lt_cfg p of None \<Rightarrow> [] | Some l \<Rightarrow> l); sts = (case st_cfg p of None \<Rightarrow> [] | Some s \<Rightarrow> s)
            in run_bind (check_lt_loop (nat (lt_cfg_cnt p)) lts (0, 0, 0, 0)) (\<lambda>(ok_lt, (_, lt_cnt, lt_idx, lt_len)).
               run_bind (if ok_lt then check_st_loop (nat (st_cfg_cnt p)) True sts (0, 0, 0, 0)
                         else Inr (True, sts, (0, 0, 0, 0))) (\<lambda>(ok_st, sts, (_, st_cnt, st_tid, st_len)).
                 let p = set_st_list sts p
                 in if ok_lt \<and> ok_st
                    then run_bind (check_dryrun alloc
                           \<lparr>dpb_size = 0, max_lt_cnt = lt_cnt, max_st_cnt = st_cnt, max_lt_idx = lt_idx,
                            max_st_tid = st_tid, lt_gop = lt_len, st_gop = st_len - 1\<rparr> p) (\<lambda>(ready, p).
                           Inr (if ready then MPP_OK else MPP_NOK, Some (p\<lparr>cfg_ready := ready\<rparr>)))
                    else Inr (MPP_NOK, Some (p\<lparr>cfg_ready := False\<rparr>)))))"

section \<open>What the loops accept\<close>

definition lt_entry_ok :: "MppEncRefLtFrmCfg \<Rightarrow> bool" where
  "lt_entry_ok l \<longleftrightarrow> lc_lt_idx l < MPP_ENC_MAX_LT_REF_NUM \<and> lc_temporal_id l = 0
     \<and> (REF_MODE_IS_GLOBAL (lc_ref_mode l) \<or> REF_MODE_IS_LT_MODE (lc_ref_mode l))"

definition lts_valid :: "MppEncRefLtFrmCfg list \<Rightarrow> bool" where
  "lts_valid ls \<longleftrightarrow> (\<forall>l\<in>set ls. lt_entry_ok l) \<and> distinct (map lc_lt_idx ls)"

definition st_entry_ok :: "bool \<Rightarrow> MppEncRefStFrmCfg \<Rightarrow> bool" where
  "st_entry_ok ends s \<longleftrightarrow> sc_temporal_id s < MPP_ENC_MAX_TEMPORAL_LAYER_NUM
     \<and> (REF_MODE_IS_GLOBAL (sc_ref_mode s) \<or> REF_MODE_IS_ST_MODE (sc_ref_mode s))
     \<and> (ends \<longrightarrow> sc_is_non_ref s = 0 \<and> sc_temporal_id s \<le> 0)"

definition sts_valid :: "MppEncRefStFrmCfg list \<Rightarrow> bool" where
  "sts_valid ss \<longleftrightarrow> (\<forall>i<length ss. st_entry_ok (i = 0 \<or> Suc i = length ss) (ss ! i))"

lemma shl1_in: "0 \<le> n \<Longrightarrow> n < 32 \<Longrightarrow> shl1 n = Inr (push_bit (nat n) 1)"
  by (simp add: shl1_def)

lemma mask_bit: "w AND 2 ^ n = 0 \<longleftrightarrow> \<not> bit (w :: u32) n"
  by (simp add: bit_iff_and_push_bit_not_eq_0 push_bit_of_1)

lemma check_lt_step_spec:
  assumes "0 \<le> lc_lt_idx l" "lc_lt_idx l < 32"
  shows "\<exists>idx' len'. check_lt_step l (used, cnt, idx, len) = Inr (lt_entry_ok l \<and> \<not> bit used (nat (lc_lt_idx l)),
      (if bit used (nat (lc_lt_idx l)) then used else used OR push_bit (nat (lc_lt_idx l)) 1,
       if bit used (nat (lc_lt_idx l)) then cnt else cnt + 1, idx', len'))"
proof -
  define m where "m = push_bit (nat (lc_lt_idx l)) (1 :: u32)"
  have m: "used AND m = 0 \<longleftrightarrow> \<not> bit used (nat (lc_lt_idx l))"
    by (simp add: m_def mask_bit)
  show ?thesis
    unfolding m_def [symmetric] using assms
    by (cases "lt_entry_ok l"; cases "bit used (nat (lc_lt_idx l))")
      (auto simp: check_lt_step_def shl1_in m_def [symmetric] m lt_entry_ok_def Let_def simp del: push_bit_of_1)
qed

lemma notin_image: "f x \<notin> f ` A \<longleftrightarrow> (\<forall>y\<in>A. f y \<noteq> f x)"
  by (simp add: image_iff eq_commute)

lemma check_lt_loop_spec:
  assumes "n \<le> length ls" "\<forall>l\<in>set (take n ls). 0 \<le> lc_lt_idx l \<and> lc_lt_idx l < 32"
    and "\<forall>k<32. bit used k \<longleftrightarrow> int k \<in> S"
  shows "\<exists>ok used' cnt' idx' len'. check_lt_loop n ls (used, cnt, idx, len) = Inr (ok, (used', cnt', idx', len'))
    \<and> (ok \<longleftrightarrow> lts_valid (take n ls) \<and> (\<forall>l\<in>set (take n ls). lc_lt_idx l \<notin> S)) \<and> (ok \<longrightarrow> cnt' = cnt + int n)"
  using assms
proof (induction n arbitrary: ls used cnt idx len S)
  case 0
  then show ?case
    by (auto simp: lts_valid_def intro!: exI [of _ True])
next
  case (Suc n)
  then obtain l ls' where ls: "ls = l # ls'"
    by (cases ls) auto
  let ?k = "nat (lc_lt_idx l)"
  have k: "0 \<le> lc_lt_idx l" "lc_lt_idx l < 32" "?k < 32"
    using Suc.prems(2) ls by auto
  have seen: "bit used ?k \<longleftrightarrow> lc_lt_idx l \<in> S"
    using Suc.prems(3) k by auto
  let ?ok = "lt_entry_ok l \<and> lc_lt_idx l \<notin> S"
  obtain idx' len' where step: "check_lt_step l (used, cnt, idx, len) = Inr (?ok,
      (if bit used ?k then used else used OR push_bit ?k 1, if bit used ?k then cnt else cnt + 1, idx', len'))"
    using check_lt_step_spec [OF k(1,2), of used cnt idx len] seen by auto
  show ?case
  proof (cases ?ok)
    case True
    have bits: "\<forall>j<32. bit (used OR push_bit ?k 1) j \<longleftrightarrow> int j \<in> insert (lc_lt_idx l) S"
      using Suc.prems(3) k by (auto simp: bit_simps)
    have "n \<le> length ls'" "\<forall>l\<in>set (take n ls'). 0 \<le> lc_lt_idx l \<and> lc_lt_idx l < 32"
      using Suc.prems(1,2) ls by auto
    from Suc.IH [OF this bits, of "cnt + 1" idx' len'] obtain ok used1 cnt1 idx1 len1 where
      ih: "check_lt_loop n ls' (used OR push_bit ?k 1, cnt + 1, idx', len') = Inr (ok, used1, cnt1, idx1, len1)"
        "ok \<longleftrightarrow> lts_valid (take n ls') \<and> (\<forall>x\<in>set (take n ls'). lc_lt_idx x \<notin> insert (lc_lt_idx l) S)"
        "ok \<longrightarrow> cnt1 = cnt + 1 + int n"
      by blast
    have "check_lt_loop (Suc n) ls (used, cnt, idx, len) = Inr (ok, used1, cnt1, idx1, len1)"
      using step True seen ih(1) ls by (simp del: push_bit_of_1)
    moreover have new: "lc_lt_idx l \<notin> lc_lt_idx ` set (take n ls') \<longleftrightarrow> (\<forall>x\<in>set (take n ls'). lc_lt_idx x \<noteq> lc_lt_idx l)"
      by (rule notin_image)
    have "ok \<longleftrightarrow> lts_valid (take (Suc n) ls) \<and> (\<forall>x\<in>set (take (Suc n) ls). lc_lt_idx x \<notin> S)"
      using ih(2) True ls by (simp add: lts_valid_def new) blast
    ultimately show ?thesis
      using ih(3) by simp
  next
    case False
    with step ls show ?thesis
      by (auto simp: lts_valid_def)
  qed
qed

lemma check_st_step_spec:
  assumes "0 \<le> sc_temporal_id s" "sc_temporal_id s < 32" "0 \<le> cnt"
  shows "\<exists>s' used' cnt' tid' len'. check_st_step ends s (used, cnt, tid, len)
      = Inr (st_entry_ok ends s, s', (used', cnt', tid', len')) \<and> (s' = s \<or> s' = s\<lparr>sc_repeat := 0\<rparr>) \<and> 0 \<le> cnt'"
proof -
  define s1 where "s1 = (if sc_repeat s < 0 then s\<lparr>sc_repeat := 0\<rparr> else s)"
  have s1: "sc_is_non_ref s1 = sc_is_non_ref s" "sc_temporal_id s1 = sc_temporal_id s" "sc_ref_mode s1 = sc_ref_mode s"
      "s1 = s \<or> s1 = s\<lparr>sc_repeat := 0\<rparr>"
    by (simp_all add: s1_def)
  show ?thesis
  proof (cases "st_entry_ok ends s")
    case True
    then show ?thesis
      using s1 assms unfolding check_st_step_def s1_def [symmetric] Let_def
      by (auto simp: shl1_in st_entry_ok_def)
  next
    case False
    then show ?thesis
      using s1 assms unfolding check_st_step_def s1_def [symmetric] Let_def
      by (auto simp: shl1_in st_entry_ok_def not_le not_less)
  qed
qed

lemma check_st_loop_spec:
  assumes "n \<le> length ss" "\<forall>s\<in>set (take n ss). 0 \<le> sc_temporal_id s \<and> sc_temporal_id s < 32"
    and "0 \<le> cnt"
  shows "\<exists>ok ss' used' cnt' tid' len'. check_st_loop n front ss (used, cnt, tid, len) = Inr (ok, ss', (used', cnt', tid', len'))
    \<and> (ok \<longleftrightarrow> (\<forall>i<n. st_entry_ok (front \<and> i = 0 \<or> Suc i = n) (ss ! i))) \<and> 0 \<le> cnt' \<and> length ss' = length ss
    \<and> (\<forall>i<length ss. ss' ! i = ss ! i \<or> ss' ! i = (ss ! i)\<lparr>sc_repeat := 0\<rparr>)"
  using assms
proof (induction n arbitrary: front ss used cnt tid len)
  case (Suc n)
  then obtain s ss' where ss: "ss = s # ss'"
    by (cases ss) auto
  have t: "0 \<le> sc_temporal_id s" "sc_temporal_id s < 32"
    using Suc.prems(2) ss by auto
  let ?ok = "st_entry_ok (front \<or> n = 0) s"
  obtain s1 used1 cnt1 tid1 len1 where step: "check_st_step (front \<or> n = 0) s (used, cnt, tid, len)
        = Inr (?ok, s1, used1, cnt1, tid1, len1)" "s1 = s \<or> s1 = s\<lparr>sc_repeat := 0\<rparr>" "0 \<le> cnt1"
    using check_st_step_spec [OF t Suc.prems(3)] by blast
  show ?case
  proof (cases ?ok)
    case True
    have "n \<le> length ss'" "\<forall>s\<in>set (take n ss'). 0 \<le> sc_temporal_id s \<and> sc_temporal_id s < 32"
      using Suc.prems(1,2) ss by auto
    from Suc.IH [OF this step(3), of False used1 tid1 len1] True step ss show ?thesis
      by (fastforce simp: All_less_Suc2 less_Suc_eq_0_disj nth_Cons')
  next
    case False
    with step ss show ?thesis
      by (auto simp: nth_Cons')
  qed
qed auto

section \<open>The dry run of an accepted configuration\<close>

lemma dryrun_frame_total:
  assumes p: "cpb_shape (cpb p)" "cnter_ok (lt_cnter (cpb p))" "refresh_length p = 0"
    and n: "n \<le> 16" and st: "int_arg_ok (sc_ref_mode st) (sc_ref_arg st)" and used: "0 \<le> used" "used \<le> 16"
  shows "\<exists>p' used' seq'. dryrun_frame n st (p, used, seq) = Inr (p', used', seq') \<and> cpb_shape (cpb p')
    \<and> cnter_ok (lt_cnter (cpb p')) \<and> refresh_length p' = 0 \<and> 0 \<le> used' \<and> used' \<le> 16
    \<and> refs_cfg p' = refs_cfg p \<and> cpb_cpb_info (cpb p') = cpb_cpb_info (cpb p)"
proof -
  let ?f0 = "set_st_cfg_to_frm seq st"
  obtain f1 where f1: "set_frm_refresh_flag ?f0 p = Inr f1" "frm_ok f1"
    using refresh_flag_total [of p ?f0] set_st_ok [OF st] p(3) by auto
  obtain cs f2 where f2: "lt_cnter_loop (nat n) (lt_cnter (cpb p)) False f1 = Inr (cs, f2)"
      "length cs = 16" "cnter_ok cs" "frm_ok f2"
    using lt_cnter_loop_total [of "nat n" "lt_cnter (cpb p)" f1 False] p f1(2) nat_mono [OF n]
    by (auto simp: cpb_shape_def)
  let ?c = "(cpb p)\<lparr>lt_cnter := cs\<rparr>"
  have c: "cpb_shape ?c"
    using p(1) f2(2) by (simp add: cpb_shape_def)
  obtain r where r: "get_ref_from_cpb ?c f2 = Inr r"
    using get_ref_total [OF c f2(4)] by blast
  have pos: "- 1 \<le> check_ref_cpb_pos ?c g" for g
    by (simp add: check_ref_cpb_pos_def split: option.split)
  show ?thesis
    using f1(1) f2(1,3) r p(3) used pos store_shape [OF c]
    by (auto simp: dryrun_frame_def Let_def split: option.split)
qed

lemma dryrun_repeat_total:
  assumes "cpb_shape (cpb p)" "cnter_ok (lt_cnter (cpb p))" "refresh_length p = 0"
    and "n \<le> 16" and "int_arg_ok (sc_ref_mode st) (sc_ref_arg st)" and "0 \<le> used" "used \<le> 16"
  shows "\<exists>p' used' seq'. dryrun_repeat n st k (p, used, seq) = Inr (p', used', seq') \<and> cpb_shape (cpb p')
    \<and> cnter_ok (lt_cnter (cpb p')) \<and> refresh_length p' = 0 \<and> 0 \<le> used' \<and> used' \<le> 16
    \<and> refs_cfg p' = refs_cfg p \<and> cpb_cpb_info (cpb p') = cpb_cpb_info (cpb p)"
  using assms
proof (induction k arbitrary: p used seq)
  case (Suc k)
  obtain p1 used1 seq1 where d: "dryrun_frame n st (p, used, seq) = Inr (p1, used1, seq1)" "cpb_shape (cpb p1)"
      "cnter_ok (lt_cnter (cpb p1))" "refresh_length p1 = 0" "0 \<le> used1" "used1 \<le> 16" "refs_cfg p1 = refs_cfg p"
      "cpb_cpb_info (cpb p1) = cpb_cpb_info (cpb p)"
    using dryrun_frame_total [OF Suc.prems] by blast
  from Suc.IH [OF d(2-4) Suc.prems(4,5) d(5,6), of seq1] d(1,7,8) show ?case
    by auto
qed auto

lemma dryrun_walk_total:
  assumes cfg: "st_cfgs_ok cfg"
    and "cpb_shape (cpb p)" "cnter_ok (lt_cnter (cpb p))" "refresh_length p = 0" "0 \<le> used" "used \<le> 16" "0 \<le> i"
  shows "\<exists>p' used' seq'. dryrun_walk cfg k i (p, used, seq) = Inr (p', used', seq') \<and> cpb_shape (cpb p')
    \<and> cnter_ok (lt_cnter (cpb p')) \<and> refresh_length p' = 0 \<and> 0 \<le> used' \<and> used' \<le> 16
    \<and> refs_cfg p' = refs_cfg p \<and> cpb_cpb_info (cpb p') = cpb_cpb_info (cpb p)"
  using assms(2-)
proof (induction k arbitrary: p used seq i)
  case (Suc k)
  obtain a where a: "st_cfg cfg = Some a" "st_cfg_cnt cfg \<le> int (length a)" "1 \<le> st_cfg_cnt cfg" "lt_cfg_cnt cfg \<le> 16"
      "\<forall>s\<in>set a. int_arg_ok (sc_ref_mode s) (sc_ref_arg s)"
    using cfg by (auto simp: st_cfgs_ok_def split: option.splits)
  let ?j = "cmod i (st_cfg_cnt cfg)"
  have "?j = i mod st_cfg_cnt cfg"
    using a(3) Suc.prems(6) by (simp add: cmod_def cdiv_def sgn_if minus_div_mult_eq_mod)
  moreover have "0 \<le> i mod st_cfg_cnt cfg" "i mod st_cfg_cnt cfg < st_cfg_cnt cfg"
    using a(3) by simp_all
  ultimately have j: "0 \<le> ?j" "?j < int (length a)"
    using a(2) by linarith+
  let ?st = "a ! nat ?j"
  have st: "st_cfg_at cfg ?j = Inr ?st" "int_arg_ok (sc_ref_mode ?st) (sc_ref_arg ?st)"
    using a j by (auto simp: st_cfg_at_def)
  let ?r = "nat (if sc_repeat ?st \<noteq> 0 then sc_repeat ?st else 1)"
  obtain p1 used1 seq1 where d: "dryrun_repeat (lt_cfg_cnt cfg) ?st ?r (p, used, seq) = Inr (p1, used1, seq1)"
      "cpb_shape (cpb p1)" "cnter_ok (lt_cnter (cpb p1))" "refresh_length p1 = 0" "0 \<le> used1" "used1 \<le> 16"
      "refs_cfg p1 = refs_cfg p" "cpb_cpb_info (cpb p1) = cpb_cpb_info (cpb p)"
    using dryrun_repeat_total [OF Suc.prems(1-3) a(4) st(2) Suc.prems(4,5)] by blast
  from Suc.IH [OF d(2-6), of "i + 1" seq1] Suc.prems(6) d(1,7,8) st(1) a(3) show ?case
    by (auto simp: Let_def)
qed auto

lemma dry_set_cfg:
  assumes cfg: "cfg_name cfg = MODULE_TAG" "st_cfgs_ok cfg" "lt_cfg_cnt cfg \<le> int (length lts)"
    and lts: "(case lt_cfg cfg of None \<Rightarrow> [] | Some l \<Rightarrow> l) = lts" "\<forall>l\<in>set lts. int_arg_ok (lc_ref_mode l) (lc_ref_arg l)"
  shows "\<exists>p. mpp_enc_refs_set_cfg (Some refs_impl_0) (Some cfg) = Inr (MPP_OK, Some p) \<and> cpb_shape (cpb p)
    \<and> cnter_ok (lt_cnter (cpb p)) \<and> refresh_length p = 0 \<and> refs_cfg p = Some cfg \<and> cpb_cpb_info (cpb p) = cpb_info cfg"
proof -
  have z: "cpb_shape virtual_cpb_0" "cnter_ok (lt_cnter virtual_cpb_0)"
    using virtual_cpb_0_ok by (auto simp: cpb_ok_def)
  have "nat (lt_cfg_cnt cfg) \<le> length lts" "nat (lt_cfg_cnt cfg) \<le> length (lt_cnter virtual_cpb_0)"
    using cfg z(1) by (auto simp: st_cfgs_ok_def cpb_shape_def)
  from setup_lt_cnter_total [OF this lts(2) z(2)] obtain cs where
    "setup_lt_cnter (nat (lt_cfg_cnt cfg)) lts (lt_cnter virtual_cpb_0) = Inr cs" "cnter_ok cs"
      "length cs = length (lt_cnter virtual_cpb_0)"
    by blast
  then show ?thesis
    using cfg(1) lts(1) z(1) by (auto simp: mpp_enc_refs_set_cfg_def refs_impl_0_def Let_def cpb_shape_def)
qed

lemma st_cfgs_ok_update [simp]:
  "st_cfgs_ok (p\<lparr>cpb_info := i\<rparr>) = st_cfgs_ok p" "st_cfgs_ok (p\<lparr>max_tlayers := n\<rparr>) = st_cfgs_ok p"
  by (simp_all add: st_cfgs_ok_def cong: option.case_cong)

lemma check_dryrun_total:
  assumes cfg: "cfg_name p = MODULE_TAG" "st_cfgs_ok p" "lt_cfg_cnt p \<le> int (length lts)"
    and lts: "(case lt_cfg p of None \<Rightarrow> [] | Some l \<Rightarrow> l) = lts" "\<forall>l\<in>set lts. int_arg_ok (lc_ref_mode l) (lc_ref_arg l)"
    and nready: "\<not> cfg_ready p"
  shows "\<exists>n. 1 \<le> n \<and> n \<le> 16 \<and> check_dryrun True info p = Inr (True, p
    \<lparr>max_tlayers := max_st_tid info + 1,
     cpb_info := info\<lparr>dpb_size := max_lt_cnt info + n, max_st_cnt := n\<rparr>\<rparr>)"
proof -
  let ?p = "p\<lparr>cpb_info := info\<rparr>"
  have p': "cfg_name ?p = MODULE_TAG" "st_cfgs_ok ?p" "lt_cfg_cnt ?p \<le> int (length lts)"
      "(case lt_cfg ?p of None \<Rightarrow> [] | Some l \<Rightarrow> l) = lts"
    using cfg lts by simp_all
  obtain r where r: "mpp_enc_refs_set_cfg (Some refs_impl_0) (Some ?p) = Inr (MPP_OK, Some r)" "cpb_shape (cpb r)"
      "cnter_ok (lt_cnter (cpb r))" "refresh_length r = 0" "refs_cfg r = Some ?p" "cpb_cpb_info (cpb r) = info"
    using dry_set_cfg [OF p' lts(2)] by auto
  let ?cfg = "?p\<lparr>max_tlayers := max_st_tid info + 1\<rparr>"
  let ?r = "r\<lparr>cpb := cleanup_cpb_refs (cpb r), refs_cfg := Some ?cfg\<rparr>"
  have "st_cfgs_ok ?cfg" "cpb_shape (cpb ?r)" "cnter_ok (lt_cnter (cpb ?r))" "refresh_length ?r = 0"
    using cfg(2) r by (auto simp: cpb_shape_def cleanup_cpb_refs_def cnter_ok_def)
  from dryrun_walk_total [OF this, of 0 0 "nat (max (lt_cfg_cnt p) (st_cfg_cnt p))" 0]
  obtain q used seq where q: "dryrun_walk ?cfg (nat (max (lt_cfg_cnt p) (st_cfg_cnt p))) 0 (?r, 0, 0) = Inr (q, used, seq)"
      "0 \<le> used" "used \<le> 16" "refs_cfg q = Some ?cfg" "cpb_cpb_info (cpb q) = info"
    using r(6) by (auto simp: cleanup_cpb_refs_def)
  let ?n = "if used \<noteq> 0 then used else 1"
  have "1 \<le> ?n" "?n \<le> 16"
    using q(2,3) by auto
  moreover have "check_dryrun True info p = Inr (True, p
    \<lparr>max_tlayers := max_st_tid info + 1,
     cpb_info := info\<lparr>dpb_size := max_lt_cnt info + ?n, max_st_cnt := ?n\<rparr>\<rparr>)"
    using r(1,5,6) q(1,4,5) nready
    by (simp add: check_dryrun_def mpp_enc_refs_init_def mpp_enc_refs_dryrun_def mpp_enc_refs_get_cpb_info_def
        mpp_enc_refs_deinit_def update_dpb_size_def cleanup_cpb_refs_def Let_def)
  ultimately show ?thesis
    by blast
qed

lemma lts_valid_length:
  assumes "lts_valid ls" "\<forall>l\<in>set ls. 0 \<le> lc_lt_idx l"
  shows "length ls \<le> 16"
proof -
  have "set (map lc_lt_idx ls) \<subseteq> {0..<16}"
    using assms by (auto simp: lts_valid_def lt_entry_ok_def)
  then have "card (set (map lc_lt_idx ls)) \<le> card {0..<16::int}"
    by (intro card_mono) auto
  then show ?thesis
    using assms(1) distinct_card [of "map lc_lt_idx ls"] by (simp add: lts_valid_def)
qed

text \<open>The entries whose indices are valid shift distances and whose arguments are valid indices.\<close>

definition entries_defined :: "MppEncRefLtFrmCfg list \<Rightarrow> MppEncRefStFrmCfg list \<Rightarrow> bool" where
  "entries_defined lts sts \<longleftrightarrow> sts \<noteq> []
     \<and> (\<forall>l\<in>set lts. 0 \<le> lc_lt_idx l \<and> lc_lt_idx l < 32 \<and> int_arg_ok (lc_ref_mode l) (lc_ref_arg l))
     \<and> (\<forall>s\<in>set sts. 0 \<le> sc_temporal_id s \<and> sc_temporal_id s < 32 \<and> int_arg_ok (sc_ref_mode s) (sc_ref_arg s))"

text \<open>
  For a configuration whose shift distances and mode arguments are in range, the check returns, and it
  accepts exactly the lists that pass \<open>lts_valid\<close> and \<open>sts_valid\<close>: distinct long-term indices below sixteen (the
  constant of the code, where its comment says four) at temporal layer zero, at most four temporal layers,
  modes of the right group, and a reference frame of layer zero first and last. The buffer size it stores is
  the number of long-term entries plus between one and sixteen short-term frames. Negative indices and
  arguments out of range, some of which the code accepts, are outside this statement.
\<close>

theorem cfg_check_accepts:
  assumes holds: "cfg_holds lts sts p" and new: "\<not> cfg_ready p" and defd: "entries_defined lts sts"
  shows "\<exists>q. mpp_enc_ref_cfg_check True (Some p)
        = Inr (if lts_valid lts \<and> sts_valid sts then MPP_OK else MPP_NOK, Some q)
    \<and> (cfg_ready q \<longleftrightarrow> lts_valid lts \<and> sts_valid sts)
    \<and> (cfg_ready q \<longrightarrow> max_lt_cnt (cpb_info q) = int (length lts) \<and> 1 \<le> max_st_cnt (cpb_info q)
         \<and> max_st_cnt (cpb_info q) \<le> 16 \<and> dpb_size (cpb_info q) = max_lt_cnt (cpb_info q) + max_st_cnt (cpb_info q))"
proof -
  have p: "cfg_name p = MODULE_TAG" "lt_cfg_cnt p = int (length lts)" "st_cfg_cnt p = int (length sts)"
      "(case lt_cfg p of None \<Rightarrow> [] | Some l \<Rightarrow> l) = lts" "st_cfg p = Some sts"
    using holds defd by (auto simp: cfg_holds_def entries_defined_def)
  have "\<forall>l\<in>set (take (length lts) lts). 0 \<le> lc_lt_idx l \<and> lc_lt_idx l < 32"
    using defd by (auto simp: entries_defined_def)
  from check_lt_loop_spec [OF order.refl this, of 0 "{}" 0 0 0] obtain ok1 u1 n1 i1 l1 where
    lt: "check_lt_loop (length lts) lts (0, 0, 0, 0) = Inr (ok1, u1, n1, i1, l1)" "ok1 \<longleftrightarrow> lts_valid lts"
      "ok1 \<longrightarrow> n1 = int (length lts)"
    by auto
  have "\<forall>s\<in>set (take (length sts) sts). 0 \<le> sc_temporal_id s \<and> sc_temporal_id s < 32"
    using defd by (auto simp: entries_defined_def)
  from check_st_loop_spec [OF order.refl this order.refl, of True 0 0 0] obtain ok2 sts' u2 n2 i2 l2 where
    st: "check_st_loop (length sts) True sts (0, 0, 0, 0) = Inr (ok2, sts', u2, n2, i2, l2)" "ok2 \<longleftrightarrow> sts_valid sts"
      "length sts' = length sts" "\<forall>i<length sts. sts' ! i = sts ! i \<or> sts' ! i = (sts ! i)\<lparr>sc_repeat := 0\<rparr>"
    by (auto simp: sts_valid_def)
  let ?info = "\<lparr>dpb_size = 0, max_lt_cnt = n1, max_st_cnt = n2, max_lt_idx = i1, max_st_tid = i2, lt_gop = l1, st_gop = l2 - 1\<rparr>"
  show ?thesis
  proof (cases "ok1 \<and> ok2")
    case True
    have "\<forall>s\<in>set sts'. int_arg_ok (sc_ref_mode s) (sc_ref_arg s)"
      using st(3,4) defd by (fastforce simp: in_set_conv_nth entries_defined_def)
    moreover have "length lts \<le> 16"
      using True lt(2) defd by (auto intro!: lts_valid_length simp: entries_defined_def)
    ultimately have ok: "st_cfgs_ok (set_st_list sts' p)"
      using p defd st(3) by (auto simp: st_cfgs_ok_def set_st_list_def entries_defined_def Suc_le_eq)
    have args: "\<forall>l\<in>set lts. int_arg_ok (lc_ref_mode l) (lc_ref_arg l)"
      using defd by (simp add: entries_defined_def)
    have "cfg_name (set_st_list sts' p) = MODULE_TAG" "lt_cfg_cnt (set_st_list sts' p) \<le> int (length lts)"
        "(case lt_cfg (set_st_list sts' p) of None \<Rightarrow> [] | Some l \<Rightarrow> l) = lts" "\<not> cfg_ready (set_st_list sts' p)"
      using p new by (auto simp: set_st_list_def)
    from check_dryrun_total [OF this(1) ok this(2,3) args this(4), of ?info] obtain n where
      "1 \<le> n" "n \<le> 16" "check_dryrun True ?info (set_st_list sts' p) = Inr (True, (set_st_list sts' p)
        \<lparr>max_tlayers := i2 + 1, cpb_info := ?info\<lparr>dpb_size := n1 + n, max_st_cnt := n\<rparr>\<rparr>)"
      by auto
    with True lt st p show ?thesis
      by (simp add: mpp_enc_ref_cfg_check_def Let_def)
  next
    case False
    with lt st p show ?thesis
      by (cases ok1) (simp_all add: mpp_enc_ref_cfg_check_def Let_def)
  qed
qed

theorem cfg_check_accepts_witness:
  "\<exists>p q. build_cfg [] [default_st_ref_cfg] ref_cfg_0 = Inr (MPP_OK, Some p)
     \<and> mpp_enc_ref_cfg_check True (Some p) = Inr (MPP_OK, Some q) \<and> cfg_ready q"
proof -
  have "cfg_name ref_cfg_0 = MODULE_TAG"
    by (simp add: ref_cfg_0_def)
  from build_cfg_holds [OF this, of "[]" "[default_st_ref_cfg]"] obtain p where
    p: "build_cfg [] [default_st_ref_cfg] ref_cfg_0 = Inr (MPP_OK, Some p)" "cfg_holds [] [default_st_ref_cfg] p" "\<not> cfg_ready p"
    by (auto simp: ref_cfg_0_def)
  have "entries_defined [] [default_st_ref_cfg]" "lts_valid []" "sts_valid [default_st_ref_cfg]"
    by (simp_all add: entries_defined_def default_st_ref_cfg_def int_arg_ok_def mode_arg_ok_def lts_valid_def
        sts_valid_def st_entry_ok_def REF_MODE_IS_GLOBAL_def)
  with cfg_check_accepts [OF p(2,3)] p(1) show ?thesis
    by auto
qed

end
