(* ===== verification/Mpp_Enc_Size.thy ===== *)
theory Mpp_Enc_Size
  imports Mpp_Enc_Check
begin

text \<open>
  The buffer the encoder reports: the contents of \<open>init\<close> and \<open>final\<close> as a function of the stored frames,
  and a configuration whose dry run computes too small a buffer.
\<close>

section \<open>The reported buffer\<close>

lemma save_refs_filter:
  assumes "0 \<le> pos" "pos + int n \<le> int (length rs)" "cnt = int (length xs)" "out = xs @ replicate m frm_0"
    and "length (filter ok (take n (drop (nat pos) rs))) \<le> m"
  shows "save_refs ok rs pos n out cnt =
    (let ys = xs @ filter ok (take n (drop (nat pos) rs))
     in Inr (ys @ replicate (length out - length ys) frm_0, int (length ys)))"
  using assms
proof (induction n arbitrary: pos out cnt xs m)
  case (Suc n)
  let ?r = "rs ! nat pos"
  have get: "array_get rs pos = Inr ?r"
    using Suc.prems by simp
  have tl: "take (Suc n) (drop (nat pos) rs) = ?r # take n (drop (nat (pos + 1)) rs)"
    using Suc.prems(1,2) by (simp add: Cons_nth_drop_Suc [symmetric] nat_add_distrib)
  show ?case
  proof (cases "ok ?r")
    case True
    then obtain m' where m': "m = Suc m'"
      using Suc.prems(5) tl by (cases m) auto
    have set: "array_set out cnt ?r = Inr ((xs @ [?r]) @ replicate m' frm_0)"
      using Suc.prems(3,4) m' by simp
    have "save_refs ok rs (pos + 1) n ((xs @ [?r]) @ replicate m' frm_0) (cnt + 1) =
      (let ys = (xs @ [?r]) @ filter ok (take n (drop (nat (pos + 1)) rs))
       in Inr (ys @ replicate (length ((xs @ [?r]) @ replicate m' frm_0) - length ys) frm_0, int (length ys)))"
      by (rule Suc.IH) (use Suc.prems True m' tl in auto)
    then show ?thesis
      using get set True Suc.prems(4) m' tl by (simp add: Let_def)
  next
    case False
    have "save_refs ok rs (pos + 1) n out cnt =
      (let ys = xs @ filter ok (take n (drop (nat (pos + 1)) rs))
       in Inr (ys @ replicate (length out - length ys) frm_0, int (length ys)))"
      by (rule Suc.IH) (use Suc.prems False tl in auto)
    then show ?thesis
      using get False tl by simp
  qed
qed (simp add: Let_def)

lemma save_refs_copy:
  assumes ys: "filter ok (take n (drop (nat pos) rs)) = ys" and "0 \<le> pos" "pos + int n \<le> int (length rs)"
    and len: "length xs + length ys \<le> 8"
  shows "save_refs ok rs pos n (xs @ replicate (8 - length xs) frm_0) (int (length xs))
    = Inr ((xs @ ys) @ replicate (8 - length (xs @ ys)) frm_0, int (length (xs @ ys)))"
proof -
  have "length (filter ok (take n (drop (nat pos) rs))) \<le> 8 - length xs"
    using len unfolding ys by simp
  from save_refs_filter [OF assms(2,3) refl refl this] show ?thesis
    using len unfolding ys Let_def by simp
qed

lemma filter_pad:
  assumes "\<forall>x\<in>set xs. ok x" "\<not> ok frm_0"
  shows "filter ok (take k (pad n xs)) = take (min k n) xs"
proof -
  have "filter ok (take j xs) = take j xs" for j
    using assms(1) by (auto simp: filter_id_conv dest: in_set_takeD)
  moreover have "filter ok (replicate j frm_0) = []" for j
    using assms(2) by (simp add: filter_empty_conv)
  ultimately show ?thesis
    by (simp add: pad_def take_replicate)
qed

text \<open>The frames of a history that the status array lists, for a buffer of the given limits.\<close>

definition reported :: "MppEncCpbInfo \<Rightarrow> EncFrmStatus list \<Rightarrow> EncFrmStatus list" where
  "reported info h =
     (let lt = take (nat (max_lt_cnt info)) (lt_frames h)
      in lt @ (if int (length lt) < dpb_size info
               then take (nat (max (max_st_cnt info) (dpb_size info - int (length lt)))) (filter (\<lambda>f. \<not> fs_is_lt_ref f) h)
               else []))"

lemma save_reported:
  assumes c: "cpb_matches h c" and h: "\<forall>f\<in>set h. fs_valid f \<and> \<not> fs_is_non_ref f"
    and fits: "info_fits (cpb_cpb_info c)"
  shows "save_cpb_status c (replicate MAX_CPB_REFS frm_0) = Inr (pad MAX_CPB_REFS (reported (cpb_cpb_info c) h))"
proof -
  let ?i = "cpb_cpb_info c" and ?S = "filter (\<lambda>f. \<not> fs_is_lt_ref f) h"
  let ?lt = "take (nat (max_lt_cnt ?i)) (lt_frames h)"
  have i: "0 \<le> max_lt_cnt ?i" "max_lt_cnt ?i \<le> 8" "0 \<le> max_st_cnt ?i" "dpb_size ?i = max_lt_cnt ?i + max_st_cnt ?i"
      "dpb_size ?i \<le> 8"
    using fits by (auto simp: info_fits_def)
  have refs: "cpb_refs c = pad 16 ?S @ pad 16 (lt_frames h)" "length (cpb_refs c) = 32"
    using c by (auto simp: cpb_matches_def)
  have ok: "\<forall>x\<in>set (lt_frames h). is_lt_entry x" "\<forall>x\<in>set ?S. is_st_entry x" "\<not> is_lt_entry frm_0" "\<not> is_st_entry frm_0"
    using h set_lt_frames [of h] by (auto simp: is_lt_entry_def is_st_entry_def)
  have lt: "filter is_lt_entry (take (nat (max_lt_cnt ?i)) (drop (nat 16) (cpb_refs c))) = ?lt"
    using filter_pad [OF ok(1,3), of "nat (max_lt_cnt ?i)" 16] refs i(2) by (simp add: min_absorb1)
  have "length ?lt \<le> nat (max_lt_cnt ?i)"
    by simp
  then have len: "length ?lt \<le> 8" "int (length ?lt) \<le> max_lt_cnt ?i"
    using i(1,2) by linarith+
  have s1: "save_refs is_lt_entry (cpb_refs c) (int 16) (nat (max_lt_cnt ?i)) (replicate 8 frm_0) 0
      = Inr (?lt @ replicate (8 - length ?lt) frm_0, int (length ?lt))"
    using save_refs_copy [of is_lt_entry _ 16 "cpb_refs c" ?lt "[]"] lt len(1) refs(2) i(1,2) by simp
  let ?n = "nat (max (max_st_cnt ?i) (dpb_size ?i - int (length ?lt)))"
  have n: "?n \<le> 8" "?n + length ?lt \<le> 8"
    using i len by auto
  have st: "filter is_st_entry (take ?n (drop (nat 0) (cpb_refs c))) = take ?n ?S"
    using filter_pad [OF ok(2,4), of ?n 16] refs n(1) by (simp add: min_absorb1)
  have le: "length (take m zs) \<le> m" for m and zs :: "EncFrmStatus list"
    by simp
  have both: "0 + int ?n \<le> int (length (cpb_refs c))" "length ?lt + length (take ?n ?S) \<le> 8"
    using n refs(2) le [of ?n ?S] by linarith+
  note s2 = save_refs_copy [OF st order.refl both]
  have padded: "length xs \<le> 8 \<Longrightarrow> pad 8 xs = xs @ replicate (8 - length xs) frm_0" for xs
    by (simp add: pad_def)
  define a b where "a = ?lt" and "b = take ?n ?S"
  have rep: "reported ?i h = a @ (if int (length a) < dpb_size ?i then b else [])"
    by (simp only: reported_def Let_def a_def b_def)
  have len': "length a \<le> 8" "length (a @ b) \<le> 8"
    using len(1) both(2) unfolding a_def b_def length_append by blast+
  have run: "save_cpb_status c (replicate 8 frm_0) = Inr ((a @ (if int (length a) < dpb_size ?i then b else []))
      @ replicate (8 - length (a @ (if int (length a) < dpb_size ?i then b else []))) frm_0)"
    unfolding save_cpb_status_def Let_def of_nat_numeral s1 [unfolded of_nat_numeral] run_bind.simps prod.case a_def b_def
    by (cases "int (length ?lt) < dpb_size ?i") (simp_all only: if_True if_False s2 run_bind.simps prod.case append_Nil2)
  show ?thesis
    unfolding run rep using len' by (simp add: padded)
qed

section \<open>Running a configuration of short-term frames\<close>

text \<open>
  The state between two frames when there are no long-term entries, requests, intra period or refresh:
  the history \<open>h\<close> determines the tables.
\<close>

definition plain_state :: "MppEncRefCfgImpl \<Rightarrow> EncFrmStatus list \<Rightarrow> int \<Rightarrow> MppEncRefsImpl \<Rightarrow> bool" where
  "plain_state cfg h n p \<longleftrightarrow> refs_cfg p = Some cfg \<and> lt_cfg_cnt cfg = 0 \<and> force_flag (usr_cfg p) = 0
     \<and> \<not> chg_igop p \<and> igop p = 0 \<and> refresh_length p = 0
     \<and> (chg_ref_cfg p \<longrightarrow> st_cfg_pos (cpb p) = 0 \<and> st_cfg_repeat_pos (cpb p) = 0)
     \<and> cpb_matches h (cpb p) \<and> (\<forall>f\<in>set h. fs_valid f \<and> \<not> fs_is_non_ref f \<and> \<not> fs_is_lt_ref f)
     \<and> max_lt_cnt (cpb_cpb_info (cpb p)) = 0 \<and> max_st_cnt (cpb_cpb_info (cpb p)) = n
     \<and> dpb_size (cpb_cpb_info (cpb p)) = n \<and> 0 \<le> n \<and> n \<le> 8"

lemma set_st_plain [simp]:
  "fs_is_lt_ref (set_st_cfg_to_frm n st) = False" "fs_valid (set_st_cfg_to_frm n st)"
  "fs_is_idr (set_st_cfg_to_frm n st) = (n = 0)" "fs_is_intra (set_st_cfg_to_frm n st) = (n = 0)"
  "fs_is_non_ref (set_st_cfg_to_frm n st) = odd (sc_is_non_ref st)" "fs_save_pass1 (set_st_cfg_to_frm n st) = False"
  "fs_seq_idx (set_st_cfg_to_frm n st) = word_of_int n" "fs_temporal_id (set_st_cfg_to_frm n st) = word_of_int (sc_temporal_id st)"
  "fs_ref_mode (set_st_cfg_to_frm n st) = word_of_int (sc_ref_mode st)"
  "fs_ref_arg (set_st_cfg_to_frm n st) = word_of_int (sc_ref_arg st)"
  by (simp_all add: set_st_cfg_to_frm_def frm_0_def)

lemma set_st_refresh [simp]:
  "(set_st_cfg_to_frm n st)\<lparr>fs_is_i_refresh := False\<rparr> = set_st_cfg_to_frm n st"
  "(set_st_cfg_to_frm n st)\<lparr>fs_non_recn := False\<rparr> = set_st_cfg_to_frm n st"
  by (simp_all add: set_st_cfg_to_frm_def frm_0_def)

lemma force_all_idle: "force_flag (usr_cfg p) = 0 \<Longrightarrow> force_all cfg (p, f) = (p, f)"
  by (simp add: force_all_def force_lt_ref_def force_tid_def force_mode_def force_skip_non_ref_def
      force_skip_is_ref_def force_active_def)

lemma lt_frames_st: "\<forall>f\<in>set h. \<not> fs_is_lt_ref f \<Longrightarrow> lt_frames h = []"
  by (induction h) auto

lemma plain_start:
  assumes "plain_state cfg h n p"
  shows "get_cpb_start p = p\<lparr>chg_ref_cfg := False, chg_usr_cfg := False, chg_igop := False\<rparr>"
proof -
  have "(cpb p)\<lparr>st_cfg_pos := st_cfg_pos (cpb p), st_cfg_repeat_pos := st_cfg_repeat_pos (cpb p)\<rparr> = cpb p"
    by simp
  with assms show ?thesis
    by (auto simp: plain_state_def get_cpb_start_def force_active_def Let_def)
qed

lemma plain_frame:
  assumes p: "plain_state cfg h n p" and st: "st_cfg_at cfg (get_cpb_st_cfg_pos (cpb p) cfg) = Inr st"
    and ref: "\<not> odd (sc_is_non_ref st)"
  shows "get_cpb_frame cfg p = Inr (p
    \<lparr>chg_ref_cfg := False, chg_usr_cfg := False, chg_igop := False,
     cpb := st_cfg_advance st ((cpb p)\<lparr>frm_idx := frm_idx (cpb p) + 1,
       st_cfg_pos := get_cpb_st_cfg_pos (cpb p) cfg, seq_idx := seq_idx (cpb p) + 1\<rparr>)\<rparr>, set_st_cfg_to_frm (seq_idx (cpb p)) st)"
proof -
  have pos: "get_cpb_st_cfg_pos ((cpb p)\<lparr>frm_idx := k\<rparr>) cfg = get_cpb_st_cfg_pos (cpb p) cfg" for k
    by (simp add: get_cpb_st_cfg_pos_def)
  have idle: "force_flag (usr_cfg p) = 0" "igop p = 0" "refresh_length p = 0" "lt_cfg_cnt cfg = 0"
    using p by (auto simp: plain_state_def)
  show ?thesis
    unfolding get_cpb_frame_def plain_start [OF p] force_all_def [symmetric] Let_def
    using st ref idle by (simp add: pos force_all_idle set_frm_refresh_flag_def)
qed

lemma matches_fields:
  assumes "cpb_refs c' = cpb_refs c" "mode_refs c' = mode_refs c" "st_tid_refs c' = st_tid_refs c"
    "lt_idx_refs c' = lt_idx_refs c"
  shows "cpb_matches h c' = cpb_matches h c"
  using assms by (simp add: cpb_matches_def)

lemma advance_keeps [simp]:
  "cpb_refs (st_cfg_advance st c) = cpb_refs c" "mode_refs (st_cfg_advance st c) = mode_refs c"
  "st_tid_refs (st_cfg_advance st c) = st_tid_refs c" "lt_idx_refs (st_cfg_advance st c) = lt_idx_refs c"
  "cpb_cpb_info (st_cfg_advance st c) = cpb_cpb_info c" "seq_idx (st_cfg_advance st c) = seq_idx c"
  "st_cfg_pos (st_cfg_advance st c) = (if st_cfg_repeat_pos c + 1 > sc_repeat st then st_cfg_pos c + 1 else st_cfg_pos c)"
  "st_cfg_repeat_pos (st_cfg_advance st c) = (if st_cfg_repeat_pos c + 1 > sc_repeat st then 0 else st_cfg_repeat_pos c + 1)"
  by (simp_all add: st_cfg_advance_def Let_def)

lemma plain_step:
  assumes p: "plain_state cfg h n p" and st: "st_cfg_at cfg (get_cpb_st_cfg_pos (cpb p) cfg) = Inr st"
    and ref: "\<not> odd (sc_is_non_ref st)" and r: "documented_ref h (set_st_cfg_to_frm (seq_idx (cpb p)) st) = Inr r"
    and arg: "uint (word_of_int (sc_ref_mode st) :: 6 word) \<noteq> REF_TO_ST_PREV_N_REF" and pass1: "\<not> fs_save_pass1 (es_curr s)"
  shows "\<exists>p' s'. mpp_enc_refs_get_cpb (Some p) s = Inr (MPP_OK, Some p', s')
    \<and> plain_state cfg (set_st_cfg_to_frm (seq_idx (cpb p)) st # h) n p' \<and> \<not> fs_save_pass1 (es_curr s')
    \<and> es_refr s' = (case r of None \<Rightarrow> frm_0 | Some g \<Rightarrow> g) \<and> es_init s' = pad 8 (take (nat n) h)
    \<and> seq_idx (cpb p') = seq_idx (cpb p) + 1
    \<and> st_cfg_pos (cpb p') = (if st_cfg_repeat_pos (cpb p) + 1 > sc_repeat st then get_cpb_st_cfg_pos (cpb p) cfg + 1
         else get_cpb_st_cfg_pos (cpb p) cfg)
    \<and> st_cfg_repeat_pos (cpb p') = (if st_cfg_repeat_pos (cpb p) + 1 > sc_repeat st then 0 else st_cfg_repeat_pos (cpb p) + 1)"
proof -
  let ?f = "set_st_cfg_to_frm (seq_idx (cpb p)) st"
  let ?c = "st_cfg_advance st ((cpb p)\<lparr>frm_idx := frm_idx (cpb p) + 1,
       st_cfg_pos := get_cpb_st_cfg_pos (cpb p) cfg, seq_idx := seq_idx (cpb p) + 1\<rparr>)"
  let ?p = "p\<lparr>chg_ref_cfg := False, chg_usr_cfg := False, chg_igop := False, cpb := ?c\<rparr>"
  have m: "cpb_matches h ?c" and h: "\<forall>f\<in>set h. fs_valid f \<and> \<not> fs_is_non_ref f" and lt: "lt_frames h = []"
      and fits: "info_fits (cpb_cpb_info ?c)"
    using p matches_fields [of ?c "cpb p"] by (auto simp: plain_state_def info_fits_def intro: lt_frames_st)
  have found: "get_ref_from_cpb ?c ?f = Inr r"
    using get_ref_documented [OF m, of ?f] r arg by simp
  define c1 where "c1 = (case r of None \<Rightarrow> ?c | Some g \<Rightarrow> ?c\<lparr>cpb_list0 := (cpb_list0 ?c)[0 := es_refr s]\<rparr>)"
  have c1: "cpb_matches h c1" "cpb_cpb_info c1 = cpb_cpb_info ?c" "seq_idx c1 = seq_idx ?c" "st_cfg_pos c1 = st_cfg_pos ?c"
      "st_cfg_repeat_pos c1 = st_cfg_repeat_pos ?c"
    using m matches_fields [of c1 ?c] by (auto simp: c1_def split: option.splits)
  have m2: "cpb_matches (?f # h) (store_ref_to_cpb c1 ?f)"
    using ref by (intro store_st c1(1)) auto
  have fits1: "info_fits (cpb_cpb_info c1)" "info_fits (cpb_cpb_info (store_ref_to_cpb c1 ?f))"
    using fits c1(2) by simp_all
  have ini: "save_cpb_status c1 (replicate 8 frm_0) = Inr (pad 8 (reported (cpb_cpb_info c1) h))"
    using save_reported [OF c1(1) h fits1(1)] .
  have "\<forall>f\<in>set (?f # h). fs_valid f \<and> \<not> fs_is_non_ref f"
    using h ref by simp
  from save_reported [OF m2 this fits1(2)] obtain fin where
    fin: "save_cpb_status (store_ref_to_cpb c1 ?f) (replicate 8 frm_0) = Inr fin"
    by simp
  have st_only: "filter (\<lambda>f. \<not> fs_is_lt_ref f) h = h"
    using p by (simp add: plain_state_def)
  have rep: "reported (cpb_cpb_info c1) h = take (nat n) h"
    using p lt unfolding reported_def st_only c1(2) Let_def by (auto simp: plain_state_def)
  let ?s = "s\<lparr>es_curr := ?f, es_refr := (case r of None \<Rightarrow> frm_0 | Some g \<Rightarrow> g), es_init := pad 8 (take (nat n) h), es_final := fin\<rparr>"
  have "refer_and_store ?p ?f False s = Inr (MPP_OK, Some (?p\<lparr>cpb := store_ref_to_cpb c1 ?f\<rparr>), ?s)"
    using found ini fin rep unfolding refer_and_store_def
    by (cases r) (simp_all add: c1_def Let_def)
  then have "mpp_enc_refs_get_cpb (Some p) s = Inr (MPP_OK, Some (?p\<lparr>cpb := store_ref_to_cpb c1 ?f\<rparr>), ?s)"
    using p plain_frame [OF p st ref] pass1 by (simp add: mpp_enc_refs_get_cpb_def plain_state_def)
  moreover have "plain_state cfg (?f # h) n (?p\<lparr>cpb := store_ref_to_cpb c1 ?f\<rparr>)"
    using p m2 c1(2) ref by (simp add: plain_state_def)
  ultimately show ?thesis
    using c1 by simp
qed

end
