(* ===== verification/Mpp_Enc_Demo.thy ===== *)
theory Mpp_Enc_Demo
  imports Mpp_Enc_Size
begin

text \<open>
  A configuration with two temporal layers and a repeated entry whose dry run computes too small a
  buffer, because it runs \<open>repeat\<close> frames of an entry where the encoder runs \<open>repeat + 1\<close>.
\<close>

lemma dry_step:
  assumes m: "cpb_matches h (cpb p)" and idle: "refresh_length p = 0" and ref: "\<not> odd (sc_is_non_ref st)"
    and r: "documented_ref h (set_st_cfg_to_frm seq st) = Inr r"
    and arg: "uint (word_of_int (sc_ref_mode st) :: 6 word) \<noteq> REF_TO_ST_PREV_N_REF"
  shows "dryrun_frame 0 st (p, used, seq) = Inr (p\<lparr>cpb := store_ref_to_cpb (cpb p) (set_st_cfg_to_frm seq st)\<rparr>,
    (case r of None \<Rightarrow> used
     | Some g \<Rightarrow> if check_ref_cpb_pos (cpb p) g < 16 \<and> used < check_ref_cpb_pos (cpb p) g + 1
                 then check_ref_cpb_pos (cpb p) g + 1 else used), seq + 1)"
    and "cpb_matches (set_st_cfg_to_frm seq st # h) (store_ref_to_cpb (cpb p) (set_st_cfg_to_frm seq st))"
proof -
  have "get_ref_from_cpb (cpb p) (set_st_cfg_to_frm seq st) = Inr r"
    using get_ref_documented [OF m, of "set_st_cfg_to_frm seq st"] r arg by simp
  then show "dryrun_frame 0 st (p, used, seq) = Inr (p\<lparr>cpb := store_ref_to_cpb (cpb p) (set_st_cfg_to_frm seq st)\<rparr>,
    (case r of None \<Rightarrow> used
     | Some g \<Rightarrow> if check_ref_cpb_pos (cpb p) g < 16 \<and> used < check_ref_cpb_pos (cpb p) g + 1
                 then check_ref_cpb_pos (cpb p) g + 1 else used), seq + 1)"
    using idle by (cases r) (simp_all add: dryrun_frame_def set_frm_refresh_flag_def Let_def)
  show "cpb_matches (set_st_cfg_to_frm seq st # h) (store_ref_to_cpb (cpb p) (set_st_cfg_to_frm seq st))"
    using ref by (intro store_st m) auto
qed

lemma window_pos:
  assumes "cpb_matches h c" "\<forall>f\<in>set h. \<not> fs_is_lt_ref f" "fs_valid g" "\<not> fs_is_non_ref g" "\<not> fs_is_lt_ref g"
  shows "check_ref_cpb_pos c g = (case find_pos (\<lambda>r. fs_valid r \<and> fs_seq_idx r = fs_seq_idx g) (pad 16 h) of
           Some pos \<Rightarrow> int pos | None \<Rightarrow> - 1)"
  using assms by (simp add: check_ref_cpb_pos_def cpb_matches_def)

definition layer_st :: "int \<Rightarrow> int \<Rightarrow> int \<Rightarrow> MppEncRefStFrmCfg" where
  "layer_st tid mode rep = \<lparr>sc_is_non_ref = 0, sc_temporal_id = tid, sc_ref_mode = mode, sc_ref_arg = 0, sc_repeat = rep\<rparr>"

text \<open>Two temporal layers: the frames of layer one are repeated, the last frame refers to layer zero.\<close>

definition layer_cfg :: "MppEncRefStFrmCfg list" where
  "layer_cfg = [layer_st 0 REF_TO_PREV_REF_FRM 0, layer_st 1 REF_TO_PREV_REF_FRM 1, layer_st 0 REF_TO_TEMPORAL_LAYER 0]"

lemma layer_st_sel [simp]:
  "sc_is_non_ref (layer_st t m r) = 0" "sc_temporal_id (layer_st t m r) = t" "sc_ref_mode (layer_st t m r) = m"
  "sc_ref_arg (layer_st t m r) = 0" "sc_repeat (layer_st t m r) = r"
  by (simp_all add: layer_st_def)

lemma layer_check:
  "check_st_loop 3 True layer_cfg (0, 0, 0, 0) = Inr (True, layer_cfg, (3, 2, 1, 4))"
proof -
  have three: "(3::nat) = Suc (Suc (Suc 0))"
    by simp
  show ?thesis
    unfolding three by (simp add: layer_cfg_def check_st_step_def shl1_def REF_MODE_IS_GLOBAL_def Let_def)
qed

lemma layer_dryrun:
  assumes p: "cpb_matches [] (cpb p)" "refresh_length p = 0"
    and cfg: "st_cfg cfg = Some layer_cfg" "st_cfg_cnt cfg = 3" "lt_cfg_cnt cfg = 0"
  shows "\<exists>c. dryrun_walk cfg 3 0 (p, 0, 0) = Inr (p\<lparr>cpb := c\<rparr>, 2, 3) \<and> cpb_cpb_info c = cpb_cpb_info (cpb p)"
proof -
  let ?A = "layer_st 0 0 0" and ?B = "layer_st 1 0 1" and ?C = "layer_st 0 4 0"
  let ?f0 = "set_st_cfg_to_frm 0 ?A" and ?f1 = "set_st_cfg_to_frm 1 ?B" and ?f2 = "set_st_cfg_to_frm 2 ?C"
  define p1 where "p1 = p\<lparr>cpb := store_ref_to_cpb (cpb p) ?f0\<rparr>"
  define p2 where "p2 = p1\<lparr>cpb := store_ref_to_cpb (cpb p1) ?f1\<rparr>"
  define p3 where "p3 = p2\<lparr>cpb := store_ref_to_cpb (cpb p2) ?f2\<rparr>"
  have "documented_ref [] ?f0 = Inr None"
    by (simp add: documented_ref_def)
  from dry_step [OF p(1,2) _ this] have d0: "dryrun_frame 0 ?A (p, 0, 0) = Inr (p1, 0, 1)" and m1: "cpb_matches [?f0] (cpb p1)"
    by (simp_all add: p1_def)
  have "documented_ref [?f0] ?f1 = Inr (Some ?f0)"
    by (simp add: documented_ref_def)
  moreover have "check_ref_cpb_pos (cpb p1) ?f0 = 0"
    using window_pos [OF m1, of ?f0] by (simp add: pad_def)
  ultimately have d1: "dryrun_frame 0 ?B (p1, 0, 1) = Inr (p2, 1, 2)" and m2: "cpb_matches [?f1, ?f0] (cpb p2)"
    using dry_step(1) [OF m1, where st = ?B and seq = 1 and r = "Some ?f0" and used = 0]
      dry_step(2) [OF m1, where st = ?B and seq = 1 and r = "Some ?f0"] p(2) by (simp_all add: p2_def p1_def)
  have "documented_ref [?f1, ?f0] ?f2 = Inr (Some ?f0)"
    by (simp add: documented_ref_def)
  moreover have "check_ref_cpb_pos (cpb p2) ?f0 = 1"
    using window_pos [OF m2, of ?f0] by (simp add: pad_def)
  ultimately have d2: "dryrun_frame 0 ?C (p2, 1, 2) = Inr (p3, 2, 3)"
    using dry_step(1) [OF m2, where st = ?C and seq = 2 and r = "Some ?f0" and used = 1] p(2) by (simp add: p3_def p2_def p1_def)
  have at: "st_cfg_at cfg (cmod 0 3) = Inr ?A" "st_cfg_at cfg (cmod 1 3) = Inr ?B" "st_cfg_at cfg (cmod 2 3) = Inr ?C"
    using cfg by (simp_all add: st_cfg_at_def layer_cfg_def cmod_def cdiv_def)
  have three: "(3::nat) = Suc (Suc (Suc 0))"
    by simp
  have "dryrun_walk cfg 3 0 (p, 0, 0) = Inr (p3, 2, 3)"
    unfolding three using cfg at d0 d1 d2 by (simp add: Let_def)
  moreover have "p3 = p\<lparr>cpb := cpb p3\<rparr>" "cpb_cpb_info (cpb p3) = cpb_cpb_info (cpb p)"
    by (simp_all add: p3_def p2_def p1_def)
  ultimately show ?thesis
    by metis
qed

section \<open>The encoder needs more than the dry run found\<close>

lemma layer_accepted:
  assumes holds: "cfg_holds [] layer_cfg p" and new: "\<not> cfg_ready p"
  shows "\<exists>q. mpp_enc_ref_cfg_check True (Some p) = Inr (MPP_OK, Some q) \<and> cfg_holds [] layer_cfg q
    \<and> dpb_size (cpb_info q) = 2 \<and> max_lt_cnt (cpb_info q) = 0 \<and> max_st_cnt (cpb_info q) = 2
    \<and> cfg_keep_cpb q = cfg_keep_cpb p"
proof -
  have p: "cfg_name p = MODULE_TAG" "lt_cfg_cnt p = 0" "lt_cfg p = None" "st_cfg_cnt p = 3" "st_cfg p = Some layer_cfg"
    using holds by (auto simp: cfg_holds_def layer_cfg_def)
  let ?info = "\<lparr>dpb_size = 0, max_lt_cnt = 0, max_st_cnt = 2, max_lt_idx = 0, max_st_tid = 1, lt_gop = 0, st_gop = 3\<rparr>"
  let ?p = "(set_st_list layer_cfg p)\<lparr>cpb_info := ?info\<rparr>"
  let ?r = "refs_impl_0\<lparr>chg_ref_cfg := True, refs_cfg := Some ?p, hdr_need_update := \<not> cfg_keep_cpb p,
    cpb := virtual_cpb_0\<lparr>cpb_cpb_info := ?info\<rparr>\<rparr>"
  have set: "mpp_enc_refs_set_cfg (Some refs_impl_0) (Some ?p) = Inr (MPP_OK, Some ?r)"
    using p by (simp add: mpp_enc_refs_set_cfg_def set_st_list_def refs_impl_0_def virtual_cpb_0_def cpb_info_0_def Let_def)
  let ?cfg = "?p\<lparr>max_tlayers := 2\<rparr>"
  let ?q = "?r\<lparr>cpb := cleanup_cpb_refs (cpb ?r), refs_cfg := Some ?cfg\<rparr>"
  have "cpb_matches [] (cpb ?q)" "refresh_length ?q = 0" "st_cfg ?cfg = Some layer_cfg" "st_cfg_cnt ?cfg = 3" "lt_cfg_cnt ?cfg = 0"
    using p cleanup_matches by (simp_all add: set_st_list_def refs_impl_0_def)
  from layer_dryrun [OF this] obtain c where
    c: "dryrun_walk ?cfg 3 0 (?q, 0, 0) = Inr (?q\<lparr>cpb := c\<rparr>, 2, 3)" "cpb_cpb_info c = ?info"
    by (auto simp: cleanup_cpb_refs_def)
  have "\<not> cfg_ready ?p" "lt_cfg_cnt ?p = 0" "st_cfg_cnt ?p = 3"
    using new p by (simp_all add: set_st_list_def)
  then have dry: "mpp_enc_refs_dryrun (Some ?r) = Inr (MPP_OK, Some (?q\<lparr>cpb :=
      (cleanup_cpb_refs c)\<lparr>cpb_cpb_info := ?info\<lparr>max_st_cnt := 2, dpb_size := 2\<rparr>\<rparr>\<rparr>))"
    using c by (simp add: mpp_enc_refs_dryrun_def update_dpb_size_def cleanup_cpb_refs_def Let_def)
  have "check_dryrun True ?info (set_st_list layer_cfg p)
      = Inr (True, ?cfg\<lparr>cpb_info := ?info\<lparr>max_st_cnt := 2, dpb_size := 2\<rparr>\<rparr>)"
    using set dry unfolding check_dryrun_def Let_def
    by (simp add: mpp_enc_refs_init_def mpp_enc_refs_get_cpb_info_def mpp_enc_refs_deinit_def)
  then show ?thesis
    using p layer_check
    by (simp add: mpp_enc_ref_cfg_check_def cfg_holds_def set_st_list_def layer_cfg_def Let_def)
qed

lemma layer_start:
  assumes q: "cfg_holds [] layer_cfg q" "dpb_size (cpb_info q) = 2" "max_lt_cnt (cpb_info q) = 0" "max_st_cnt (cpb_info q) = 2"
    and fresh: "\<not> cfg_keep_cpb q"
  shows "\<exists>r. mpp_enc_refs_set_cfg (Some refs_impl_0) (Some q) = Inr (MPP_OK, Some r) \<and> plain_state q [] 2 r
    \<and> seq_idx (cpb r) = 0 \<and> st_cfg_pos (cpb r) = 0 \<and> st_cfg_repeat_pos (cpb r) = 0"
proof -
  have m: "cpb_matches [] virtual_cpb_0"
    by (simp add: cpb_matches_def virtual_cpb_0_def pad_def replicate_add [symmetric] map_replicate_const)
  then have "cpb_matches [] (virtual_cpb_0\<lparr>cpb_cpb_info := cpb_info q\<rparr>)"
    by (simp add: cpb_matches_def)
  with q fresh show ?thesis
    by (simp add: mpp_enc_refs_set_cfg_def cfg_holds_def plain_state_def refs_impl_0_def usr_cfg_0_def Let_def)
      (simp add: virtual_cpb_0_def)
qed

text \<open>
  C36: the check accepts the configuration with a buffer of two frames; but the encoder runs the repeated
  entry twice, so its fourth frame refers to a frame that is not among the two it reports as kept.
\<close>

theorem dryrun_buffer_too_small:
  assumes holds: "cfg_holds [] layer_cfg p" and new: "\<not> cfg_ready p" and keep: "\<not> cfg_keep_cpb p"
  shows "\<exists>q r ss r'. mpp_enc_ref_cfg_check True (Some p) = Inr (MPP_OK, Some q) \<and> dpb_size (cpb_info q) = 2
    \<and> mpp_enc_refs_set_cfg (Some refs_impl_0) (Some q) = Inr (MPP_OK, Some r)
    \<and> get_frames 4 (Some r) status_0 = Inr (ss, Some r')
    \<and> fs_valid (es_refr (ss ! 3)) \<and> es_refr (ss ! 3) \<notin> set (es_init (ss ! 3))"
proof -
  obtain q where q: "mpp_enc_ref_cfg_check True (Some p) = Inr (MPP_OK, Some q)" "cfg_holds [] layer_cfg q"
      "dpb_size (cpb_info q) = 2" "max_lt_cnt (cpb_info q) = 0" "max_st_cnt (cpb_info q) = 2"
      "\<not> cfg_keep_cpb q"
    using layer_accepted [OF holds new] keep by blast
  have cfg: "st_cfg q = Some layer_cfg" "st_cfg_cnt q = 3"
    using q(2) by (auto simp: cfg_holds_def layer_cfg_def)
  let ?A = "layer_st 0 0 0" and ?B = "layer_st 1 0 1" and ?C = "layer_st 0 4 0"
  let ?f0 = "set_st_cfg_to_frm 0 ?A" and ?f1 = "set_st_cfg_to_frm 1 ?B" and ?f2 = "set_st_cfg_to_frm 2 ?B"
  have at: "st_cfg_at q 0 = Inr ?A" "st_cfg_at q 1 = Inr ?B" "st_cfg_at q 2 = Inr ?C"
    using cfg by (simp_all add: st_cfg_at_def layer_cfg_def)
  have pos: "get_cpb_st_cfg_pos c q = (if st_cfg_pos c \<ge> 3 then 1 else st_cfg_pos c)" for c
    using cfg(2) by (simp add: get_cpb_st_cfg_pos_def)
  obtain r where r: "mpp_enc_refs_set_cfg (Some refs_impl_0) (Some q) = Inr (MPP_OK, Some r)" "plain_state q [] 2 r"
      "seq_idx (cpb r) = 0" "st_cfg_pos (cpb r) = 0" "st_cfg_repeat_pos (cpb r) = 0"
    using layer_start [OF q(2-6)] by blast
  have "documented_ref [] ?f0 = Inr None" "\<not> fs_save_pass1 (es_curr status_0)"
    by (simp_all add: documented_ref_def status_0_def frm_0_def)
  with plain_step [OF r(2), of ?A None status_0] r(3-5) obtain r1 s1 where
    r1: "mpp_enc_refs_get_cpb (Some r) status_0 = Inr (MPP_OK, Some r1, s1)" "plain_state q [?f0] 2 r1"
      "\<not> fs_save_pass1 (es_curr s1)" "seq_idx (cpb r1) = 1" "st_cfg_pos (cpb r1) = 1" "st_cfg_repeat_pos (cpb r1) = 0"
    by (auto simp: pos at)
  have "documented_ref [?f0] ?f1 = Inr (Some ?f0)"
    by (simp add: documented_ref_def)
  with plain_step [OF r1(2), of ?B "Some ?f0" s1] r1(3-6) obtain r2 s2 where
    r2: "mpp_enc_refs_get_cpb (Some r1) s1 = Inr (MPP_OK, Some r2, s2)" "plain_state q [?f1, ?f0] 2 r2"
      "\<not> fs_save_pass1 (es_curr s2)" "seq_idx (cpb r2) = 2" "st_cfg_pos (cpb r2) = 1" "st_cfg_repeat_pos (cpb r2) = 1"
    by (auto simp: pos at)
  have "documented_ref [?f1, ?f0] ?f2 = Inr (Some ?f1)"
    by (simp add: documented_ref_def)
  with plain_step [OF r2(2), of ?B "Some ?f1" s2] r2(3-6) obtain r3 s3 where
    r3: "mpp_enc_refs_get_cpb (Some r2) s2 = Inr (MPP_OK, Some r3, s3)" "plain_state q [?f2, ?f1, ?f0] 2 r3"
      "\<not> fs_save_pass1 (es_curr s3)" "seq_idx (cpb r3) = 3" "st_cfg_pos (cpb r3) = 2" "st_cfg_repeat_pos (cpb r3) = 0"
    by (auto simp: pos at)
  have "documented_ref [?f2, ?f1, ?f0] (set_st_cfg_to_frm 3 ?C) = Inr (Some ?f0)"
    by (simp add: documented_ref_def)
  moreover have "take (nat 2) [?f2, ?f1, ?f0] = [?f2, ?f1]"
    by (simp add: numeral_2_eq_2)
  ultimately obtain r4 s4 where
    r4: "mpp_enc_refs_get_cpb (Some r3) s3 = Inr (MPP_OK, Some r4, s4)" "es_refr s4 = ?f0"
      "es_init s4 = pad 8 [?f2, ?f1]"
    using plain_step [OF r3(2), of ?C "Some ?f0" s3] r3(3-6) by (auto simp: pos at)
  have "?f0 \<noteq> ?f1" "?f0 \<noteq> ?f2" "?f0 \<noteq> frm_0"
    by (auto dest: arg_cong [where f = fs_is_idr] simp: frm_0_def)
  then have "?f0 \<notin> set (pad 8 [?f2, ?f1])"
    by (simp add: pad_def)
  moreover have four: "(4::nat) = Suc (Suc (Suc (Suc 0)))"
    by simp
  have "get_frames 4 (Some r) status_0 = Inr ([s1, s2, s3, s4], Some r4)"
    unfolding four using r1(1) r2(1) r3(1) r4(1) by simp
  ultimately show ?thesis
    using q(1,3) r(1) r4(2,3)
    by (intro exI [of _ q] exI [of _ r] exI [of _ "[s1, s2, s3, s4]"] exI [of _ r4]) (simp add: numeral_3_eq_3)
qed

theorem dryrun_buffer_too_small_witness:
  "\<exists>p q. build_cfg [] layer_cfg ref_cfg_0 = Inr (MPP_OK, Some p)
     \<and> mpp_enc_ref_cfg_check True (Some p) = Inr (MPP_OK, Some q) \<and> dpb_size (cpb_info q) = 2"
proof -
  have "cfg_name ref_cfg_0 = MODULE_TAG"
    by (simp add: ref_cfg_0_def)
  from build_cfg_holds [OF this, of "[]" layer_cfg] obtain p where
    p: "build_cfg [] layer_cfg ref_cfg_0 = Inr (MPP_OK, Some p)" "cfg_holds [] layer_cfg p" "\<not> cfg_ready p"
      "\<not> cfg_keep_cpb p"
    by (auto simp: ref_cfg_0_def)
  with dryrun_buffer_too_small [OF p(2-4)] show ?thesis
    by blast
qed

end
