(* ===== verification/Mpp_List.thy ===== *)
theory Mpp_List
  imports Mpp_Prelude
begin

text \<open>
  The intrusive doubly linked lists of \<open>osal/inc/mpp_list.h\<close>. A \<open>struct list_head\<close> is a node of type
  \<open>'n\<close> and the two link fields of all nodes are two functions, so the model has the aliasing of
  the code: a list is a ring through its head node.

  \<open>link_sets\<close> is the contract the clients use: a family of disjoint lists, one per head, with
  \<open>list_add_tail\<close> after \<open>list_del_init\<close> as "append" and \<open>list_del_init\<close> as "remove".
\<close>

section \<open>Operations\<close>

record 'n links =
  nxt :: "'n \<Rightarrow> 'n"
  prv :: "'n \<Rightarrow> 'n"

definition INIT_LIST_HEAD :: "'n \<Rightarrow> 'n links \<Rightarrow> 'n links" where
  "INIT_LIST_HEAD p m = m\<lparr>nxt := (nxt m)(p := p), prv := (prv m)(p := p)\<rparr>"

definition list_add_link :: "'n \<Rightarrow> 'n \<Rightarrow> 'n \<Rightarrow> 'n links \<Rightarrow> 'n links" where
  "list_add_link new p n m =
     (let m = m\<lparr>prv := (prv m)(n := new)\<rparr>;
          m = m\<lparr>nxt := (nxt m)(new := n)\<rparr>;
          m = m\<lparr>prv := (prv m)(new := p)\<rparr>
      in m\<lparr>nxt := (nxt m)(p := new)\<rparr>)"

definition list_add :: "'n \<Rightarrow> 'n \<Rightarrow> 'n links \<Rightarrow> 'n links" where
  "list_add new head m = list_add_link new head (nxt m head) m"

definition list_add_tail :: "'n \<Rightarrow> 'n \<Rightarrow> 'n links \<Rightarrow> 'n links" where
  "list_add_tail new head m = list_add_link new (prv m head) head m"

definition list_del_link :: "'n \<Rightarrow> 'n \<Rightarrow> 'n links \<Rightarrow> 'n links" where
  "list_del_link p n m = (let m = m\<lparr>prv := (prv m)(n := p)\<rparr> in m\<lparr>nxt := (nxt m)(p := n)\<rparr>)"

definition list_del_init :: "'n \<Rightarrow> 'n links \<Rightarrow> 'n links" where
  "list_del_init e m = INIT_LIST_HEAD e (list_del_link (prv m e) (nxt m e) m)"

definition list_move :: "'n \<Rightarrow> 'n \<Rightarrow> 'n links \<Rightarrow> 'n links" where
  "list_move e head m = list_add e head (list_del_link (prv m e) (nxt m e) m)"

definition list_move_tail :: "'n \<Rightarrow> 'n \<Rightarrow> 'n links \<Rightarrow> 'n links" where
  "list_move_tail e head m = list_add_tail e head (list_del_link (prv m e) (nxt m e) m)"

definition list_is_last :: "'n \<Rightarrow> 'n \<Rightarrow> 'n links \<Rightarrow> bool" where
  "list_is_last e head m \<longleftrightarrow> nxt m e = head"

definition list_empty :: "'n \<Rightarrow> 'n links \<Rightarrow> bool" where
  "list_empty head m \<longleftrightarrow> nxt m head = head"

section \<open>Representation\<close>

text \<open>\<open>linked m xs\<close>: neighbours in \<open>xs\<close> point to each other; \<open>ring m h xs\<close>: the list at \<open>h\<close> is \<open>xs\<close>.\<close>

fun linked :: "'n links \<Rightarrow> 'n list \<Rightarrow> bool" where
  "linked m (a # b # xs) \<longleftrightarrow> nxt m a = b \<and> prv m b = a \<and> linked m (b # xs)"
| "linked m _ \<longleftrightarrow> True"

definition ring :: "'n links \<Rightarrow> 'n \<Rightarrow> 'n list \<Rightarrow> bool" where
  "ring m h xs \<longleftrightarrow> distinct (h # xs) \<and> linked m (h # xs @ [h])"

lemma linked_append: "linked m (xs @ a # ys) \<longleftrightarrow> linked m (xs @ [a]) \<and> linked m (a # ys)"
proof (induction xs)
  case (Cons x xs)
  then show ?case by (cases xs) auto
qed simp

lemma linked_last: "linked m (a # xs @ [y, z]) \<Longrightarrow> nxt m y = z \<and> prv m z = y"
  using linked_append [of m "a # xs" y "[z]"] by simp

lemma linked_init: "linked m (xs @ [z]) \<Longrightarrow> linked m xs"
  by (induction m xs rule: linked.induct) auto

lemma linked_frame:
  assumes "\<And>x. x \<in> set (butlast xs) \<Longrightarrow> nxt m' x = nxt m x" and "\<And>x. x \<in> set (tl xs) \<Longrightarrow> prv m' x = prv m x"
  shows "linked m' xs = linked m xs"
  using assms
proof (induction m xs rule: linked.induct)
  case (1 m a b xs)
  then show ?case by (cases xs) auto
qed auto

lemma ring_frame:
  assumes "\<And>x. x \<in> set (h # xs) \<Longrightarrow> nxt m' x = nxt m x \<and> prv m' x = prv m x"
  shows "ring m' h xs = ring m h xs"
proof -
  have "linked m' (h # xs @ [h]) = linked m (h # xs @ [h])"
    by (rule linked_frame) (use assms in \<open>auto simp: butlast_append split: if_splits\<close>)
  then show ?thesis by (simp add: ring_def)
qed

lemma ring_empty_iff: "ring m h xs \<Longrightarrow> list_empty h m \<longleftrightarrow> xs = []"
  by (cases xs) (auto simp: ring_def list_empty_def)

lemma ring_first: "ring m h (x # xs) \<Longrightarrow> nxt m h = x"
  by (simp add: ring_def)

lemma ring_last: "ring m h xs \<Longrightarrow> prv m h = last (h # xs)"
  by (cases xs rule: rev_cases) (auto simp: ring_def dest: linked_last)

lemma distinct_last_butlast: "distinct xs \<Longrightarrow> xs \<noteq> [] \<Longrightarrow> last xs \<notin> set (butlast xs)"
  by (metis append_butlast_last_id distinct_append disjoint_iff list.set_intros(1))

lemma p_in_list: "last (h # xs) \<in> set (h # xs)"
  by (rule last_in_set) simp

lemma ring_split:
  "ring m h (xs @ e # ys) \<longleftrightarrow>
     distinct (h # xs @ e # ys) \<and> linked m (h # xs @ [e]) \<and> linked m (e # ys @ [h])"
  using linked_append [of m "h # xs" e "ys @ [h]"] by (auto simp: ring_def)

lemma ring_neighbours:
  assumes "ring m h (xs @ e # ys)"
  shows "prv m e = last (h # xs)" and "nxt m e = hd (ys @ [h])"
proof -
  have l: "linked m (h # xs @ [e])" and r: "linked m (e # ys @ [h])"
    using assms by (simp_all add: ring_split)
  show "nxt m e = hd (ys @ [h])"
    using r by (cases ys) auto
  show "prv m e = last (h # xs)"
    using l by (cases xs rule: rev_cases) (auto dest: linked_last)
qed

section \<open>Effect of the operations on one list\<close>

lemma list_empty_ring [intro]: "ring (INIT_LIST_HEAD h m) h []"
  by (simp add: ring_def INIT_LIST_HEAD_def)

lemma add_tail_ring:
  assumes "ring m h xs" and "e \<notin> set (h # xs)"
  shows "ring (list_add_tail e h m) h (xs @ [e])"
proof -
  let ?m = "list_add_tail e h m"
  define p where "p = prv m h"
  have p: "p = last (h # xs)"
    using ring_last [OF assms(1)] by (simp add: p_def)
  have ep: "e \<noteq> p" and ps: "p \<in> set (h # xs)"
    using assms(2) p last_in_set [of "h # xs"] by auto
  have n: "nxt ?m = (nxt m)(e := h, p := e)" and v: "prv ?m = (prv m)(h := e, e := p)"
    by (simp_all add: list_add_tail_def list_add_link_def Let_def p_def)
  have d: "distinct (h # xs)"
    using assms(1) by (simp add: ring_def)
  have "linked m (h # xs)"
    using assms(1) linked_init [of m "h # xs" h] by (simp add: ring_def)
  moreover have "p \<notin> set (butlast (h # xs))"
    unfolding p using d by (rule distinct_last_butlast) simp
  moreover have "e \<notin> set (butlast (h # xs))"
    using assms(2) by (meson in_set_butlastD)
  ultimately have "linked ?m (h # xs)"
    by (subst linked_frame [where m = m]) (use assms(2) d n v in auto)
  moreover have "linked ?m [p, e, h]"
    using n v ep assms(2) by auto
  moreover have "h # xs = butlast (h # xs) @ [p]"
    unfolding p by (rule append_butlast_last_id [symmetric]) simp
  ultimately have "linked ?m ((h # xs) @ [e, h])"
    using linked_append [of ?m "butlast (h # xs)" p "[e, h]"] by (metis append.assoc append_Cons append_Nil)
  then show ?thesis
    using d assms(2) by (auto simp: ring_def)
qed

lemma del_init_ring:
  assumes "ring m h (xs @ e # ys)"
  shows "ring (list_del_init e m) h (xs @ ys)" and "ring (list_del_init e m) e []"
proof -
  let ?m = "list_del_init e m"
  define p n where "p = prv m e" and "n = nxt m e"
  have p: "p = last (h # xs)" and n: "n = hd (ys @ [h])"
    using ring_neighbours [OF assms] by (simp_all add: p_def n_def)
  have d: "distinct (h # xs @ e # ys)" and l: "linked m (h # xs @ [e])" and r: "linked m (e # ys @ [h])"
    using assms by (simp_all add: ring_split)
  have nx: "nxt ?m = (nxt m)(p := n, e := e)" and pv: "prv ?m = (prv m)(n := p, e := e)"
    by (simp_all add: list_del_init_def list_del_link_def INIT_LIST_HEAD_def Let_def p_def n_def)
  show "ring ?m e []"
    using nx pv by (simp add: ring_def)
  have hx: "h # xs = butlast (h # xs) @ [p]"
    unfolding p by (rule append_butlast_last_id [symmetric]) simp
  have yh: "ys @ [h] = n # tl (ys @ [h])"
    unfolding n by simp
  have p_out: "p \<notin> set ys" "p \<noteq> e" "p \<notin> set (butlast (h # xs))"
    using d p_in_list [of h xs] distinct_last_butlast [of "h # xs"] by (auto simp: p)
  have n_out: "n \<notin> set xs" "n \<noteq> e" "n \<notin> set (tl (ys @ [h]))"
    using d yh by (cases ys; auto simp: n)+
  have "linked m (h # xs)"
    using l linked_append [of m "butlast (h # xs)" p "[e]"] hx by (metis append.assoc append_Cons append_Nil)
  moreover have "e \<notin> set (butlast (h # xs))"
    using d by (simp, meson in_set_butlastD)
  ultimately have "linked ?m (h # xs)"
    by (subst linked_frame [where m = m]) (use p_out n_out d nx pv in auto)
  moreover have "linked m (ys @ [h])" and "e \<notin> set (tl (ys @ [h]))"
    using r d by (cases ys; auto)+
  then have "linked ?m (ys @ [h])"
    by (subst linked_frame [where m = m]) (use p_out n_out d nx pv in \<open>auto simp: butlast_append split: if_splits\<close>)
  then have "linked ?m (p # n # tl (ys @ [h]))"
    using yh nx pv p_out(2) n_out(2) by (metis fun_upd_apply linked.simps(1))
  ultimately have "linked ?m (butlast (h # xs) @ p # n # tl (ys @ [h]))"
    using hx linked_append [of ?m "butlast (h # xs)" p "n # tl (ys @ [h])"] by metis
  then have "linked ?m (h # (xs @ ys) @ [h])"
    using hx yh by (metis append.assoc append_Cons append_Nil)
  then show "ring ?m h (xs @ ys)"
    using d by (auto simp: ring_def)
qed

lemma del_init_frame:
  assumes "ring m h (xs @ e # ys)" and "k \<notin> set (h # xs @ e # ys)"
  shows "nxt (list_del_init e m) k = nxt m k" and "prv (list_del_init e m) k = prv m k"
  using ring_neighbours [OF assms(1)] assms(2) p_in_list [of h xs]
  by (cases ys; auto simp: list_del_init_def list_del_link_def INIT_LIST_HEAD_def Let_def)+

lemma del_init_single: "ring m e [] \<Longrightarrow> list_del_init e m = m"
  by (simp add: ring_def list_del_init_def list_del_link_def INIT_LIST_HEAD_def Let_def fun_upd_idem)

lemma add_tail_frame:
  assumes "ring m h xs" and "k \<notin> set (h # xs)" and "k \<noteq> e"
  shows "nxt (list_add_tail e h m) k = nxt m k" and "prv (list_add_tail e h m) k = prv m k"
  using ring_last [OF assms(1)] assms(2,3) p_in_list [of h xs]
  by (auto simp: list_add_tail_def list_add_link_def Let_def)

section \<open>Families of lists\<close>

text \<open>
  The contract for the clients: \<open>rep s N Q\<close> says that the entries \<open>N\<close> are kept in the disjoint lists
  \<open>Q\<close>. \<open>enq\<close> moves an entry to the end of a list, \<open>del\<close> takes it out of the list it is in.
\<close>

locale link_sets =
  fixes enq :: "'n \<Rightarrow> 'q \<Rightarrow> 's \<Rightarrow> 's"
    and del :: "'n \<Rightarrow> 's \<Rightarrow> 's"
    and is_empty :: "'q \<Rightarrow> 's \<Rightarrow> bool"
    and first :: "'q \<Rightarrow> 's \<Rightarrow> 'n"
    and rep :: "'s \<Rightarrow> 'n set \<Rightarrow> ('q \<Rightarrow> 'n list) \<Rightarrow> bool"
  assumes enq_rep: "rep s N Q \<Longrightarrow> n \<in> N \<Longrightarrow>
      rep (enq n q s) N (\<lambda>p. if p = q then remove1 n (Q p) @ [n] else remove1 n (Q p))"
    and del_rep: "rep s N Q \<Longrightarrow> n \<in> N \<Longrightarrow> rep (del n s) N (\<lambda>p. remove1 n (Q p))"
    and empty_iff: "rep s N Q \<Longrightarrow> is_empty q s \<longleftrightarrow> Q q = []"
    and first_eq: "rep s N Q \<Longrightarrow> Q q = x # xs \<Longrightarrow> first q s = x"
    and rep_distinct: "rep s N Q \<Longrightarrow> distinct (Q q)"
    and rep_subset: "rep s N Q \<Longrightarrow> set (Q q) \<subseteq> N"
    and rep_disjoint: "rep s N Q \<Longrightarrow> p \<noteq> q \<Longrightarrow> set (Q p) \<inter> set (Q q) = {}"
begin

text \<open>An entry that is in no list is appended; the first entry of a list is taken.\<close>

lemma enq_new:
  assumes "rep s N Q" and "n \<in> N" and "\<And>p. n \<notin> set (Q p)"
  shows "rep (enq n q s) N (Q(q := Q q @ [n]))"
proof -
  have "(\<lambda>p. if p = q then remove1 n (Q p) @ [n] else remove1 n (Q p)) = Q(q := Q q @ [n])"
    using assms(3) by (auto simp: remove1_idem)
  then show ?thesis
    using enq_rep [OF assms(1,2), of q] by simp
qed

lemma del_first:
  assumes "rep s N Q" and "Q q = x # xs"
  shows "rep (del x s) N (Q(q := xs))"
proof -
  have "x \<in> N"
    using rep_subset [OF assms(1), of q] assms(2) by auto
  moreover have "x \<notin> set (Q p)" if "p \<noteq> q" for p
    using rep_disjoint [OF assms(1) that] assms(2) by auto
  then have "(\<lambda>p. remove1 x (Q p)) = Q(q := xs)"
    using assms(2) by (auto simp: remove1_idem)
  ultimately show ?thesis
    using del_rep [OF assms(1), of x] by simp
qed

lemma del_absent: "rep s N Q \<Longrightarrow> n \<in> N \<Longrightarrow> (\<And>p. n \<notin> set (Q p)) \<Longrightarrow> rep (del n s) N Q"
  using del_rep [of s N Q n] by (simp add: remove1_idem)

text \<open>First in, first out: entries appended to an empty list come out in their order.\<close>

lemma fifo:
  assumes "rep s N Q" and "distinct ns" and "set ns \<subseteq> N" and "\<And>p. set (Q p) \<inter> set ns = {}"
  shows "rep (fold (\<lambda>n. enq n q) ns s) N (Q(q := Q q @ ns))"
  using assms
proof (induction ns arbitrary: s Q)
  case (Cons n ns)
  have "rep (enq n q s) N (Q(q := Q q @ [n]))"
    using Cons.prems by (intro enq_new) auto
  moreover have "set ((Q(q := Q q @ [n])) p) \<inter> set ns = {}" for p
    using Cons.prems(2,4) by (auto 0 3)
  ultimately have "rep (fold (\<lambda>n. enq n q) ns (enq n q s)) N
      ((Q(q := Q q @ [n]))(q := (Q(q := Q q @ [n])) q @ ns))"
    using Cons.prems(2,3) by (intro Cons.IH) (simp_all del: fun_upd_apply)
  then show ?case
    by (simp only: fun_upd_upd fun_upd_same append.assoc append_Cons append_Nil fold_simps)
qed simp

end

section \<open>The linked lists meet the contract\<close>

definition heads_rep :: "('q \<Rightarrow> 'n) \<Rightarrow> 'n links \<Rightarrow> 'n set \<Rightarrow> ('q \<Rightarrow> 'n list) \<Rightarrow> bool" where
  "heads_rep head m N Q \<longleftrightarrow>
     (\<forall>q. ring m (head q) (Q q)) \<and>
     (\<forall>q. set (Q q) \<subseteq> N \<and> head q \<notin> N) \<and>
     (\<forall>p q. p \<noteq> q \<longrightarrow> set (Q p) \<inter> set (Q q) = {}) \<and>
     (\<forall>n\<in>N. (\<forall>q. n \<notin> set (Q q)) \<longrightarrow> ring m n [])"

lemma heads_repD:
  assumes "heads_rep head m N Q"
  shows "ring m (head q) (Q q)" and "set (Q q) \<subseteq> N" and "head q \<notin> N"
    and "p \<noteq> q \<Longrightarrow> set (Q p) \<inter> set (Q q) = {}"
    and "n \<in> N \<Longrightarrow> (\<And>p. n \<notin> set (Q p)) \<Longrightarrow> ring m n []"
  using assms by (simp_all add: heads_rep_def)

lemma heads_repI:
  assumes "\<And>q. ring m (head q) (Q q)" and "\<And>q. set (Q q) \<subseteq> N" and "\<And>q. head q \<notin> N"
    and "\<And>p q. p \<noteq> q \<Longrightarrow> set (Q p) \<inter> set (Q q) = {}"
    and "\<And>n. n \<in> N \<Longrightarrow> \<forall>p. n \<notin> set (Q p) \<Longrightarrow> ring m n []"
  shows "heads_rep head m N Q"
  using assms by (simp add: heads_rep_def)

locale list_heads =
  fixes head :: "'q \<Rightarrow> 'n"
  assumes inj_head: "inj head"
begin

lemma heads_out:
  assumes rep: "heads_rep head m N Q" and "p \<noteq> q"
  shows "set (head p # Q p) \<inter> set (head q # Q q) = {}"
proof -
  have "set (Q p) \<subseteq> N" "set (Q q) \<subseteq> N" "head p \<notin> N" "head q \<notin> N" "set (Q p) \<inter> set (Q q) = {}"
    using assms by (auto simp: heads_rep_def)
  moreover have "head p \<noteq> head q"
    using assms(2) inj_head by (auto dest: injD)
  ultimately show ?thesis by auto
qed

lemma heads_del:
  assumes rep: "heads_rep head m N Q" and n: "n \<in> N"
  shows "heads_rep head (list_del_init n m) N (\<lambda>p. remove1 n (Q p)) \<and> ring (list_del_init n m) n []"
proof (cases "\<exists>q. n \<in> set (Q q)")
  case False
  then have "ring m n []"
    using rep n by (auto simp: heads_rep_def)
  moreover have "(\<lambda>p. remove1 n (Q p)) = Q"
    using False by (auto simp: remove1_idem)
  ultimately show ?thesis
    using rep by (simp add: del_init_single)
next
  case True
  then obtain q xs ys where Q: "Q q = xs @ n # ys"
    by (meson split_list)
  have R: "ring m (head p) (Q p)" for p
    using rep by (simp add: heads_rep_def)
  have r: "ring m (head q) (xs @ n # ys)"
    using R [of q] Q by simp
  have nxs: "n \<notin> set xs" and nys: "n \<notin> set ys"
    using r by (auto simp: ring_def)
  have out: "set (head p # Q p) \<inter> set (head q # Q q) = {}" if "p \<noteq> q" for p
    using heads_out [OF rep that] .
  have keep: "ring (list_del_init n m) h zs = ring m h zs" if "set (h # zs) \<inter> set (head q # Q q) = {}" for h zs
  proof (rule ring_frame)
    fix x assume "x \<in> set (h # zs)"
    then have "x \<notin> set (head q # xs @ n # ys)"
      using that unfolding Q by blast
    then show "nxt (list_del_init n m) x = nxt m x \<and> prv (list_del_init n m) x = prv m x"
      using del_init_frame [OF r] by blast
  qed
  have rq: "ring (list_del_init n m) (head q) (remove1 n (Q q))" "ring (list_del_init n m) n []"
    using del_init_ring [OF r] nxs Q by (simp_all add: remove1_append)
  have rp: "ring (list_del_init n m) (head p) (remove1 n (Q p))" if "p \<noteq> q" for p
  proof -
    have "n \<notin> set (Q p)"
      using rep that Q unfolding heads_rep_def by fastforce
    then show ?thesis
      using keep [OF out [OF that]] R by (simp add: remove1_idem)
  qed
  have "ring (list_del_init n m) k []" if "k \<in> N" "\<forall>p. k \<notin> set (remove1 n (Q p))" for k
  proof (cases "k = n")
    case False
    then have "\<forall>p. k \<notin> set (Q p)"
      using that(2) by (metis in_set_remove1)
    then show ?thesis
      using keep [of k "[]"] rep that(1) unfolding heads_rep_def by auto
  qed (use rq in simp)
  moreover have "ring (list_del_init n m) (head p) (remove1 n (Q p))" for p
    using rq rp by (cases "p = q") auto
  moreover have "set (remove1 n (Q p)) \<subseteq> N" for p
    by (rule order_trans [OF set_remove1_subset heads_repD(2) [OF rep]])
  moreover have "set (remove1 n (Q p)) \<inter> set (remove1 n (Q p')) = {}" if "p \<noteq> p'" for p p'
    using heads_repD(4) [OF rep that] set_remove1_subset [of n "Q p"] set_remove1_subset [of n "Q p'"] by blast
  ultimately have "heads_rep head (list_del_init n m) N (\<lambda>p. remove1 n (Q p))"
    using heads_repD(3) [OF rep] by (intro heads_repI)
  then show ?thesis using rq(2) by simp
qed

lemma heads_add:
  assumes rep: "heads_rep head m N Q" and n: "n \<in> N" and new: "\<And>p. n \<notin> set (Q p)"
  shows "heads_rep head (list_add_tail n (head q) m) N (Q(q := Q q @ [n]))"
proof -
  have R: "ring m (head p) (Q p)" for p
    using rep by (simp add: heads_rep_def)
  have hn: "head p \<noteq> n" for p
    using rep n unfolding heads_rep_def by auto
  have out: "set (head p # Q p) \<inter> set (head q # Q q) = {}" if "p \<noteq> q" for p
    using heads_out [OF rep that] .
  have keep: "ring (list_add_tail n (head q) m) h zs = ring m h zs"
    if "set (h # zs) \<inter> set (head q # Q q) = {}" "n \<notin> set (h # zs)" for h zs
  proof (rule ring_frame)
    fix x assume "x \<in> set (h # zs)"
    then have "x \<notin> set (head q # Q q)" and "x \<noteq> n"
      using that by blast+
    then show "nxt (list_add_tail n (head q) m) x = nxt m x \<and> prv (list_add_tail n (head q) m) x = prv m x"
      using add_tail_frame [OF R] by blast
  qed
  have "ring (list_add_tail n (head q) m) (head q) (Q q @ [n])"
    by (rule add_tail_ring [OF R]) (use new hn [of q] in auto)
  moreover have "ring (list_add_tail n (head q) m) (head p) (Q p)" if "p \<noteq> q" for p
    using keep [OF out [OF that]] new hn R by auto
  moreover have "ring (list_add_tail n (head q) m) k []" if "k \<in> N" "\<forall>p. k \<notin> set ((Q(q := Q q @ [n])) p)" for k
  proof -
    have kq: "k \<notin> set (Q p)" for p
      using that(2) by (cases "p = q") (auto dest: spec [of _ p])
    moreover have "k \<noteq> n"
      using spec [OF that(2), of q] by simp
    moreover have "k \<noteq> head q"
      using heads_repD(3) [OF rep] that(1) by metis
    ultimately show ?thesis
      using keep [of k "[]"] heads_repD(5) [OF rep that(1)] by simp
  qed
  moreover have "set ((Q(q := Q q @ [n])) p) \<inter> set ((Q(q := Q q @ [n])) p') = {}" if "p \<noteq> p'" for p p'
    using heads_repD(4) [OF rep that] new that by auto
  ultimately show ?thesis
    using heads_repD(2,3) [OF rep] n by (intro heads_repI) auto
qed

end

sublocale list_heads \<subseteq> link_sets "\<lambda>n q m. list_add_tail n (head q) (list_del_init n m)" list_del_init
  "\<lambda>q. list_empty (head q)" "\<lambda>q m. nxt m (head q)" "heads_rep head"
proof
  fix m N Q n q
  assume rep: "heads_rep head m N Q" and n: "n \<in> N"
  show "heads_rep head (list_del_init n m) N (\<lambda>p. remove1 n (Q p))"
    using heads_del [OF rep n] by simp
  have "n \<notin> set (remove1 n (Q p))" for p
    using heads_repD(1) [OF rep, of p] by (auto simp: ring_def)
  then have "heads_rep head (list_add_tail n (head q) (list_del_init n m)) N
      ((\<lambda>p. remove1 n (Q p))(q := remove1 n (Q q) @ [n]))"
    using heads_add [of "list_del_init n m" N "\<lambda>p. remove1 n (Q p)" n q] heads_del [OF rep n] n by simp
  moreover have "(\<lambda>p. remove1 n (Q p))(q := remove1 n (Q q) @ [n]) =
      (\<lambda>p. if p = q then remove1 n (Q p) @ [n] else remove1 n (Q p))"
    by auto
  ultimately show "heads_rep head (list_add_tail n (head q) (list_del_init n m)) N
      (\<lambda>p. if p = q then remove1 n (Q p) @ [n] else remove1 n (Q p))"
    by simp
next
  fix m N Q q
  assume rep: "heads_rep head m N Q"
  show "list_empty (head q) m \<longleftrightarrow> Q q = []"
    by (rule ring_empty_iff [OF heads_repD(1) [OF rep]])
  show "nxt m (head q) = x" if "Q q = x # xs" for x xs
    using heads_repD(1) [OF rep, of q] that by (simp add: ring_first)
  show "distinct (Q q)"
    using heads_repD(1) [OF rep, of q] by (simp add: ring_def)
  show "set (Q q) \<subseteq> N"
    by (rule heads_repD(2) [OF rep])
  show "p \<noteq> q \<Longrightarrow> set (Q p) \<inter> set (Q q) = {}" for p
    by (rule heads_repD(4) [OF rep])
qed

end
