(* ===== verification/Mpp_List_Sort.thy ===== *)
theory Mpp_List_Sort
  imports Mpp_List "HOL-Library.Multiset"
begin

text \<open>
  \<open>list_sort\<close> of \<open>osal/mpp_list.c\<close>, the bottom-up merge sort ported from the kernel. While it runs, the
  nodes are in null-terminated singly linked lists whose \<open>prev\<close> fields are free; these lists are HOL
  lists of nodes, and \<open>pending\<close>, the list of lists chained through \<open>prev\<close>, is a list of them, newest
  first. Following a pointer that is null is the fault \<open>Null_Deref\<close>. \<open>cmp\<close> carries its private argument;
  the calls it gets only to yield the processor are left out. The sort is shown to terminate without a
  fault and to be the stable sort of the library.
\<close>

section \<open>Definitions\<close>

text \<open>\<open>merge\<close> reads the first element of both lists before it looks whether they are empty.\<close>

fun merge :: "('n \<Rightarrow> 'n \<Rightarrow> int) \<Rightarrow> 'n list \<Rightarrow> 'n list \<Rightarrow> 'n list run" where
  "merge cmp (a # as) (b # bs) =
     (if cmp a b \<le> 0
      then (if as = [] then Inr (a # b # bs) else run_bind (merge cmp as (b # bs)) (\<lambda>l. Inr (a # l)))
      else (if bs = [] then Inr (b # a # as) else run_bind (merge cmp (a # as) bs) (\<lambda>l. Inr (b # l))))"
| "merge cmp [] bs = Inl Null_Deref"
| "merge cmp as [] = Inl Null_Deref"

text \<open>
  \<open>merge_final\<close> merges into the circular list at \<open>head\<close>; \<open>tail\<close> is the last node linked so far. The second
  function is its do-while loop over the remainder, with the final links.
\<close>

fun merge_rest :: "'n \<Rightarrow> 'n \<Rightarrow> 'n list \<Rightarrow> 'n links \<Rightarrow> 'n links" where
  "merge_rest head tail [] m = m\<lparr>nxt := (nxt m)(tail := head), prv := (prv m)(head := tail)\<rparr>"
| "merge_rest head tail (b # bs) m =
     merge_rest head b bs (m\<lparr>nxt := (nxt m)(tail := b), prv := (prv m)(b := tail)\<rparr>)"

fun merge_final ::
  "('n \<Rightarrow> 'n \<Rightarrow> int) \<Rightarrow> 'n \<Rightarrow> 'n \<Rightarrow> 'n list \<Rightarrow> 'n list \<Rightarrow> 'n links \<Rightarrow> 'n links run" where
  "merge_final cmp head tail (a # as) (b # bs) m =
     (if cmp a b \<le> 0
      then (let m = m\<lparr>nxt := (nxt m)(tail := a), prv := (prv m)(a := tail)\<rparr>
            in if as = [] then Inr (merge_rest head a (b # bs) m) else merge_final cmp head a as (b # bs) m)
      else (let m = m\<lparr>nxt := (nxt m)(tail := b), prv := (prv m)(b := tail)\<rparr>
            in if bs = [] then Inr (merge_rest head b (a # as) m) else merge_final cmp head b (a # as) bs m))"
| "merge_final cmp head tail [] bs m = Inl Null_Deref"
| "merge_final cmp head tail as [] m = Inl Null_Deref"

text \<open>The position of the lowest clear bit of \<open>cnt\<close>: the loop \<open>for (bits = count; bits & 1; bits >>= 1)\<close>.\<close>

function low_ones :: "nat \<Rightarrow> nat" where
  "low_ones cnt = (if odd cnt then Suc (low_ones (cnt div 2)) else 0)"
  by pat_completeness auto
termination
  by (relation "measure id") (auto elim: oddE)

declare low_ones.simps [simp del]

text \<open>
  One round of the main loop. \<open>tail\<close> points to the pending list number \<open>low_ones cnt\<close>; it is merged with
  the next older one when \<open>bits\<close> is not zero. The element \<open>x\<close> becomes a list of its own.
\<close>

definition sort_round ::
  "('n \<Rightarrow> 'n \<Rightarrow> int) \<Rightarrow> nat \<Rightarrow> 'n list list \<Rightarrow> 'n \<Rightarrow> 'n list list run" where
  "sort_round cmp cnt pending x =
     (let k = low_ones cnt
      in if k > length pending then Inl Null_Deref
         else if cnt div 2 ^ k \<noteq> 0 then
           (if k + 1 \<ge> length pending then Inl Null_Deref
            else run_bind (merge cmp (pending ! (k + 1)) (pending ! k)) (\<lambda>l.
              Inr ([x] # take k pending @ l # drop (k + 2) pending)))
         else Inr ([x] # pending))"

fun sort_rounds :: "('n \<Rightarrow> 'n \<Rightarrow> int) \<Rightarrow> nat \<Rightarrow> 'n list list \<Rightarrow> 'n list \<Rightarrow> 'n list list run" where
  "sort_rounds cmp cnt pending [] = Inr pending"
| "sort_rounds cmp cnt pending (x # xs) =
     run_bind (sort_round cmp cnt pending x) (\<lambda>pending. sort_rounds cmp (cnt + 1) pending xs)"

text \<open>The loop after the end of the input, and the final merge.\<close>

fun sort_pending :: "('n \<Rightarrow> 'n \<Rightarrow> int) \<Rightarrow> 'n \<Rightarrow> 'n list \<Rightarrow> 'n list list \<Rightarrow> 'n links \<Rightarrow> 'n links run" where
  "sort_pending cmp head l [] m = Inl Null_Deref"
| "sort_pending cmp head l [p] m = merge_final cmp head head p l m"
| "sort_pending cmp head l (p # q # ps) m =
     run_bind (merge cmp p l) (\<lambda>l. sort_pending cmp head l (q # ps) m)"

text \<open>The null-terminated list from node \<open>n\<close> to the node \<open>end\<close> whose \<open>next\<close> field is cleared.\<close>

partial_function (option) null_list :: "'n links \<Rightarrow> 'n \<Rightarrow> 'n \<Rightarrow> 'n list option" where
  "null_list m end' n =
     (if n = end' then Some [n]
      else Option.bind (null_list m end' (nxt m n)) (\<lambda>ns. Some (n # ns)))"

text \<open>\<open>None\<close> stands for a run that never returns.\<close>

definition list_sort :: "('n \<Rightarrow> 'n \<Rightarrow> int) \<Rightarrow> 'n \<Rightarrow> 'n links \<Rightarrow> 'n links run option" where
  "list_sort cmp head m =
     (if nxt m head = prv m head then Some (Inr m)
      else Option.bind (null_list m (prv m head) (nxt m head)) (\<lambda>xs.
        Some (run_bind (sort_rounds cmp 0 [] xs) (\<lambda>pending. case pending of
          [] \<Rightarrow> Inl Null_Deref
        | l # ps \<Rightarrow> sort_pending cmp head l ps m))))"

section \<open>The lowest clear bit\<close>

lemma low_ones_form: "\<exists>q. cnt + 1 = q * 2 ^ (low_ones cnt + 1) + 2 ^ low_ones cnt"
proof (induction cnt rule: low_ones.induct)
  case (1 cnt)
  show ?case
  proof (cases "odd cnt")
    case True
    then obtain q where "cnt div 2 + 1 = q * 2 ^ (low_ones (cnt div 2) + 1) + 2 ^ low_ones (cnt div 2)"
      using 1 by blast
    moreover have "cnt + 1 = 2 * (cnt div 2 + 1)"
      using True by (auto elim: oddE)
    ultimately have "cnt + 1 = 2 * (q * 2 ^ (low_ones (cnt div 2) + 1) + 2 ^ low_ones (cnt div 2))"
      by (simp only:)
    moreover have "low_ones cnt = low_ones (cnt div 2) + 1"
      using True by (subst low_ones.simps) simp
    ultimately show ?thesis
      by (intro exI [of _ q]) (simp add: algebra_simps)
  next
    case False
    then have "cnt + 1 = (cnt div 2) * 2 ^ (low_ones cnt + 1) + 2 ^ low_ones cnt"
      by (subst (1 2) low_ones.simps) simp
    then show ?thesis by blast
  qed
qed

lemma low_ones_props:
  shows "cnt div 2 ^ low_ones cnt = 0 \<Longrightarrow> cnt + 1 = 2 ^ low_ones cnt"
    and "cnt div 2 ^ low_ones cnt \<noteq> 0 \<Longrightarrow> 2 ^ (low_ones cnt + 1) \<le> cnt"
    and "cnt div 2 ^ low_ones cnt \<noteq> 0 \<Longrightarrow> cnt < 2 ^ n \<Longrightarrow> cnt + 1 < 2 ^ n"
proof -
  define k where "k = low_ones cnt"
  obtain q where q: "cnt + 1 = q * 2 ^ (k + 1) + 2 ^ k"
    using low_ones_form [of cnt] unfolding k_def by blast
  have pos: "(0::nat) < 2 ^ k" by simp
  then have "cnt = (2 * q) * 2 ^ k + (2 ^ k - 1)"
    using q by (simp add: algebra_simps)
  moreover have "((2 * q) * 2 ^ k + r) div 2 ^ k = 2 * q" if "r < 2 ^ k" for r :: nat
    using that by (subst div_mult_self3) simp_all
  from this [of "2 ^ k - 1"] have "((2 * q) * 2 ^ k + (2 ^ k - 1)) div 2 ^ k = 2 * q"
    using pos by (simp only: diff_less zero_less_one)
  ultimately have d: "cnt div 2 ^ k = 2 * q" by (simp only:)
  show "cnt + 1 = 2 ^ low_ones cnt" if "cnt div 2 ^ low_ones cnt = 0"
    using that d q by (simp add: k_def)
  have ge: "2 ^ (k + 1) \<le> cnt" if "q \<noteq> 0"
  proof -
    have "2 ^ (k + 1) \<le> q * 2 ^ (k + 1)"
      using that by simp
    then show ?thesis using q pos by linarith
  qed
  then show "2 ^ (low_ones cnt + 1) \<le> cnt" if "cnt div 2 ^ low_ones cnt \<noteq> 0"
    using that d unfolding k_def by simp
  show "cnt + 1 < 2 ^ n" if "cnt div 2 ^ low_ones cnt \<noteq> 0" and lt: "cnt < 2 ^ n"
  proof (rule ccontr)
    assume "\<not> cnt + 1 < 2 ^ n"
    then have e: "cnt + 1 = 2 ^ n" using lt by linarith
    have "q \<noteq> 0" using that(1) d by (simp add: k_def)
    then have "(2::nat) ^ (k + 1) < 2 ^ n"
      using ge lt by linarith
    then have "k + 1 < n"
      by (rule power_less_imp_less_exp [rotated]) simp
    then have "k + 1 \<le> n" by simp
    then have "(2::nat) ^ (k + 1) dvd 2 ^ n"
      by (rule le_imp_power_dvd)
    then have "(2::nat) ^ (k + 1) dvd q * 2 ^ (k + 1) + 2 ^ k"
      using q e by simp
    then have "(2::nat) ^ (k + 1) dvd 2 ^ k"
      by (simp only: dvd_add_right_iff [OF dvd_triv_right])
    then have "(2::nat) ^ (k + 1) \<le> 2 ^ k"
      by (rule dvd_imp_le) simp
    then show False by simp
  qed
qed

section \<open>Linking\<close>

text \<open>Appending a node to a linked chain.\<close>

definition link_after :: "'n \<Rightarrow> 'n \<Rightarrow> 'n links \<Rightarrow> 'n links" where
  "link_after tail a m = m\<lparr>nxt := (nxt m)(tail := a), prv := (prv m)(a := tail)\<rparr>"

lemma link_snoc:
  assumes "linked m (xs @ [tail])" and "tail \<notin> set xs" and "a \<notin> set (tl (xs @ [tail]))"
  shows "linked (link_after tail a m) (xs @ [tail, a])"
proof -
  have "linked (link_after tail a m) (xs @ [tail])"
    by (rule linked_frame [THEN iffD2, OF _ _ assms(1)]) (use assms(2,3) in \<open>auto simp: link_after_def\<close>)
  then show ?thesis
    using linked_append [of "link_after tail a m" xs tail "[a]"] by (simp add: link_after_def)
qed

text \<open>\<open>chain m head zs tail\<close>: the nodes \<open>zs\<close> are linked behind \<open>head\<close>, and \<open>tail\<close> is the last one.\<close>

definition chain :: "'n links \<Rightarrow> 'n \<Rightarrow> 'n list \<Rightarrow> 'n \<Rightarrow> bool" where
  "chain m head zs tail \<longleftrightarrow> linked m (head # zs) \<and> distinct (head # zs) \<and> tail = last (head # zs)"

lemma chain_link:
  assumes c: "chain m head zs tail" and "a \<notin> set zs"
  shows "linked (link_after tail a m) (head # zs @ [a])"
proof -
  have s: "head # zs = butlast (head # zs) @ [tail]"
    using c unfolding chain_def by (metis append_butlast_last_id list.distinct(1))
  have "linked (link_after tail a m) (butlast (head # zs) @ [tail, a])"
  proof (rule link_snoc)
    show "linked m (butlast (head # zs) @ [tail])"
      using c unfolding s [symmetric] by (simp add: chain_def)
    show "tail \<notin> set (butlast (head # zs))"
      using c distinct_last_butlast [of "head # zs"] unfolding chain_def by blast
    show "a \<notin> set (tl (butlast (head # zs) @ [tail]))"
      using assms(2) unfolding s [symmetric] by simp
  qed
  moreover have "butlast (head # zs) @ [tail, a] = (head # zs) @ [a]"
    using s by (metis append.assoc append_Cons append_Nil)
  ultimately show ?thesis by (simp only: append_Cons)
qed

lemma chain_snoc:
  assumes c: "chain m head zs tail" and "a \<notin> set (head # zs)"
  shows "chain (link_after tail a m) head (zs @ [a]) a"
  using chain_link [OF c, of a] assms by (auto simp: chain_def)

lemma merge_rest_ring:
  assumes "chain m head zs tail" and "distinct (head # zs @ bs)"
  shows "ring (merge_rest head tail bs m) head (zs @ bs)"
  using assms
proof (induction bs arbitrary: tail zs m)
  case Nil
  then show ?case
    using chain_link [OF Nil.prems(1), of head] by (simp add: ring_def link_after_def)
next
  case (Cons b bs)
  have "chain (link_after tail b m) head (zs @ [b]) b"
    by (rule chain_snoc [OF Cons.prems(1)]) (use Cons.prems(2) in auto)
  from Cons.IH [OF this] Cons.prems(2) show ?case
    by (simp add: link_after_def)
qed

lemma merge_final_ring:
  assumes "merge cmp as bs = Inr l" and "chain m head zs tail" and "distinct (head # zs @ as @ bs)"
  shows "\<exists>m'. merge_final cmp head tail as bs m = Inr m' \<and> ring m' head (zs @ l)"
  using assms
proof (induction cmp as bs arbitrary: l m zs tail rule: merge.induct)
  case (1 cmp a as b bs)
  have ca: "chain (link_after tail a m) head (zs @ [a]) a"
    by (rule chain_snoc [OF "1.prems"(2)]) (use "1.prems"(3) in auto)
  have cb: "chain (link_after tail b m) head (zs @ [b]) b"
    by (rule chain_snoc [OF "1.prems"(2)]) (use "1.prems"(3) in auto)
  have d: "distinct (head # zs @ a # b # as @ bs)"
    using "1.prems"(3) by auto
  show ?case
  proof (cases "cmp a b \<le> 0")
    case True
    show ?thesis
    proof (cases "as = []")
      case [simp]: True
      then show ?thesis
        using \<open>cmp a b \<le> 0\<close> "1.prems"(1) merge_rest_ring [OF ca, of "b # bs"] d by (simp add: link_after_def)
    next
      case False
      then obtain l' where l': "merge cmp as (b # bs) = Inr l'" "l = a # l'"
        using True "1.prems"(1) by (auto simp: run_bind_Inr_iff)
      show ?thesis
        using "1.IH"(1) [OF True False l'(1) ca] d True False l'(2) by (auto simp: link_after_def Let_def)
    qed
  next
    case False
    note gt = False
    show ?thesis
    proof (cases "bs = []")
      case [simp]: True
      then show ?thesis
        using gt "1.prems"(1) merge_rest_ring [OF cb, of "a # as"] d by (auto simp: link_after_def)
    next
      case False
      then obtain l' where l': "merge cmp (a # as) bs = Inr l'" "l = b # l'"
        using gt "1.prems"(1) by (auto simp: run_bind_Inr_iff)
      show ?thesis
        using "1.IH"(2) [OF gt False l'(1) cb] d gt False l'(2) by (auto simp: link_after_def Let_def)
    qed
  qed
qed simp_all

lemma null_list_linked:
  assumes "linked m (n # ns)" and "distinct (n # ns)"
  shows "null_list m (last (n # ns)) n = Some (n # ns)"
  using assms
proof (induction ns arbitrary: n)
  case Nil
  then show ?case by (subst null_list.simps) simp
next
  case (Cons k ns)
  then have "nxt m n = k" and "null_list m (last (k # ns)) k = Some (k # ns)"
    by simp_all
  moreover have "n \<noteq> last (k # ns)"
    using Cons.prems(2) last_in_set [of "k # ns"] by (auto simp del: last.simps)
  ultimately show ?case
    by (subst null_list.simps) simp
qed

section \<open>What merging must give\<close>

text \<open>
  The contract of the merge for the rest of the algorithm: \<open>good xs l\<close> says that \<open>l\<close> is an acceptable
  arrangement of the input segment \<open>xs\<close>.
\<close>

locale merge_sorter =
  fixes cmp :: "'n \<Rightarrow> 'n \<Rightarrow> int" and good :: "'n list \<Rightarrow> 'n list \<Rightarrow> bool"
  assumes good_nil: "good [] []"
    and good_single: "good [x] [x]"
    and good_merge: "good xs as \<Longrightarrow> good ys bs \<Longrightarrow> xs \<noteq> [] \<Longrightarrow> ys \<noteq> [] \<Longrightarrow>
      \<exists>l. merge cmp as bs = Inr l \<and> good (xs @ ys) l"
    and good_mset: "good xs l \<Longrightarrow> mset l = mset xs"
begin

text \<open>
  The pending lists arrange the segments \<open>yss\<close> of the input read so far, the newest first, and their
  number is the number of binary digits of the count.
\<close>

definition pend :: "nat \<Rightarrow> 'n list list \<Rightarrow> 'n list list \<Rightarrow> bool" where
  "pend cnt pending yss \<longleftrightarrow> list_all2 good yss pending \<and> [] \<notin> set yss \<and>
     (if cnt = 0 then pending = [] else pending \<noteq> [] \<and> 2 ^ (length pending - 1) \<le> cnt \<and> cnt < 2 ^ length pending)"

lemma pend_round:
  assumes p: "pend cnt pending yss"
  shows "\<exists>pending' yss'. sort_round cmp cnt pending x = Inr pending' \<and> pend (cnt + 1) pending' yss' \<and>
    concat (rev yss') = concat (rev yss) @ [x]"
proof -
  define k where "k = low_ones cnt"
  have g: "list_all2 good yss pending" and ne: "[] \<notin> set yss"
    using p by (simp_all add: pend_def)
  have up: "cnt < 2 ^ length pending"
    using p by (auto simp: pend_def split: if_splits)
  note lo = low_ones_props [of cnt, folded k_def]
  show ?thesis
  proof (cases "cnt div 2 ^ k = 0")
    case True
    then have c: "cnt + 1 = 2 ^ k"
      using lo by simp
    have "k = length pending"
    proof (rule antisym)
      have "(2::nat) ^ k \<le> 2 ^ length pending"
        using c up by linarith
      then show "k \<le> length pending" by simp
      show "length pending \<le> k"
      proof (cases "cnt = 0")
        case False
        then have "(2::nat) ^ (length pending - 1) \<le> cnt" and "pending \<noteq> []"
          using p by (auto simp: pend_def)
        then have "(2::nat) ^ (length pending - 1) < 2 ^ k"
          using c by linarith
        then have "length pending - 1 < k" by simp
        then show ?thesis by simp
      qed (use p in \<open>simp add: pend_def\<close>)
    qed
    then have "sort_round cmp cnt pending x = Inr ([x] # pending)" and "pend (cnt + 1) ([x] # pending) ([x] # yss)"
      using True c g ne good_single by (simp_all add: sort_round_def k_def [symmetric] Let_def pend_def)
    then show ?thesis by fastforce
  next
    case False
    then have e: "2 ^ (k + 1) \<le> cnt" and np: "cnt + 1 < 2 ^ length pending"
      using lo up by auto
    then have "(2::nat) ^ (k + 1) < 2 ^ length pending"
      using up by linarith
    then have k: "k + 1 < length pending"
      by (rule power_less_imp_less_exp [rotated]) simp
    then have ly: "length yss = length pending" and ky: "k + 1 < length yss"
      using g by (simp_all add: list_all2_lengthD)
    obtain l where l: "merge cmp (pending ! (k + 1)) (pending ! k) = Inr l" "good (yss ! (k + 1) @ yss ! k) l"
    proof -
      have "yss ! (k + 1) \<noteq> []" "yss ! k \<noteq> []"
        using ne ky by (metis nth_mem, metis nth_mem Suc_eq_plus1 Suc_lessD)
      then show ?thesis
        using good_merge [of "yss ! (k + 1)" "pending ! (k + 1)" "yss ! k" "pending ! k"]
          list_all2_nthD [OF g, of "k + 1"] list_all2_nthD [OF g, of k] ky that by auto
    qed
    define P where "P = [x] # take k pending @ l # drop (k + 2) pending"
    define Y where "Y = [x] # take k yss @ (yss ! (k + 1) @ yss ! k) # drop (k + 2) yss"
    have run: "sort_round cmp cnt pending x = Inr P"
      using False k l(1) by (simp add: P_def sort_round_def k_def [symmetric] Let_def)
    have len: "length P = length pending" and nP: "P \<noteq> []"
      using k by (simp_all add: P_def)
    have gP: "list_all2 good Y P" unfolding P_def Y_def
      using g l(2) good_single by (intro list_all2_Cons [THEN iffD2] conjI list_all2_appendI list_all2_takeI list_all2_dropI)
    have neY: "[] \<notin> set Y"
      using ne ky unfolding Y_def by (auto dest: in_set_takeD in_set_dropD simp del: nth_append) (metis nth_mem)
    have "yss = take k yss @ yss ! k # yss ! (k + 1) # drop (k + 2) yss"
      using ky by (metis Cons_nth_drop_Suc Suc_eq_plus1 Suc_lessD add_2_eq_Suc' id_take_nth_drop)
    then have "concat (rev yss) = concat (rev (take k yss @ yss ! k # yss ! (k + 1) # drop (k + 2) yss))"
      by (rule arg_cong)
    then have cY: "concat (rev Y) = concat (rev yss) @ [x]"
      by (simp add: Y_def)
    have "cnt \<noteq> 0"
      using e by (metis not_one_le_zero one_le_numeral one_le_power order_trans)
    then have "2 ^ (length pending - 1) \<le> cnt + 1"
      using p by (simp add: pend_def)
    then have "pend (cnt + 1) P Y"
      using gP neY nP np by (simp add: pend_def len)
    with run cY show ?thesis by blast
  qed
qed

lemma pend_rounds:
  "pend cnt pending yss \<Longrightarrow> \<exists>pending' yss'. sort_rounds cmp cnt pending xs = Inr pending' \<and>
     pend (cnt + length xs) pending' yss' \<and> concat (rev yss') = concat (rev yss) @ xs"
proof (induction xs arbitrary: cnt pending yss)
  case (Cons x xs)
  obtain P Y where P: "sort_round cmp cnt pending x = Inr P" "pend (cnt + 1) P Y"
    "concat (rev Y) = concat (rev yss) @ [x]"
    using pend_round [OF Cons.prems] by blast
  from Cons.IH [OF P(2)] P(1,3) show ?case by auto
qed auto

lemma sort_pending_ok:
  assumes "list_all2 good pss ps" and "ps \<noteq> []" and "[] \<notin> set pss" and "good ls l" and "ls \<noteq> []"
    and "distinct (head # concat (rev pss) @ ls)"
  shows "\<exists>m' r. sort_pending cmp head l ps m = Inr m' \<and> ring m' head r \<and> good (concat (rev pss) @ ls) r"
  using assms
proof (induction ps arbitrary: pss ls l rule: list.induct)
  case (Cons p ps)
  obtain seg segs where pss: "pss = seg # segs" "good seg p" "list_all2 good segs ps"
    using Cons.prems(1) unfolding list_all2_Cons2 by blast
  have ne: "seg \<noteq> []"
    using Cons.prems(3) pss(1) by auto
  obtain r where r: "merge cmp p l = Inr r" "good (seg @ ls) r"
    using good_merge [OF pss(2) Cons.prems(4) ne Cons.prems(5)] by blast
  show ?case
  proof (cases ps)
    case Nil
    have "mset p = mset seg" "mset l = mset ls"
      using good_mset pss(2) Cons.prems(4) by blast+
    then have "distinct (p @ l) = distinct (seg @ ls)" and "set (p @ l) = set (seg @ ls)"
      by (metis mset_append mset_eq_imp_distinct_iff, metis mset_append mset_eq_setD)
    then have "distinct (head # [] @ p @ l)"
      using Cons.prems(6) Nil pss by auto
    then obtain m' where "merge_final cmp head head p l m = Inr m'" "ring m' head r"
      using merge_final_ring [OF r(1), of m head "[]" head] by (auto simp: chain_def)
    then show ?thesis
      using Nil r(2) pss by auto
  next
    case (Cons q qs)
    have "\<exists>m' r'. sort_pending cmp head r ps m = Inr m' \<and> ring m' head r' \<and> good (concat (rev segs) @ seg @ ls) r'"
      by (rule Cons.IH [OF pss(3) _ _ r(2)]) (use Cons Cons.prems pss(1) ne in auto)
    then show ?thesis
      using Cons r(1) pss(1) by auto
  qed
qed simp

lemma list_sort_ok:
  assumes ring: "ring m head xs"
  shows "\<exists>m' r. list_sort cmp head m = Some (Inr m') \<and> ring m' head r \<and> good xs r"
proof (cases "length xs \<le> 1")
  case True
  then have "nxt m head = prv m head" and "good xs xs"
    using ring good_nil good_single by (cases xs; auto simp: ring_def)+
  then show ?thesis
    using ring by (auto simp: list_sort_def)
next
  case False
  then obtain x ys where xs: "xs = x # ys" "ys \<noteq> []"
    by (cases xs) auto
  have d: "distinct (head # xs)" and l: "linked m (head # xs @ [head])"
    using ring by (simp_all add: ring_def)
  have n: "nxt m head = x" and p: "prv m head = last xs"
    using ring_first [of m head x ys] ring_last [OF ring] ring xs by simp_all
  have "linked m (x # ys)"
    using l linked_append [of m "head # butlast xs" "last xs" "[head]"] xs
    by (metis append_Cons append_butlast_last_id linked.simps(1) list.distinct(1) list.exhaust append.assoc append_Nil)
  then have c: "null_list m (last xs) x = Some xs"
    using null_list_linked [of m x ys] d xs(1) by simp
  have "pend 0 [] []"
    by (simp add: pend_def)
  then obtain P Y where P: "sort_rounds cmp 0 [] xs = Inr P" "pend (length xs) P Y" "concat (rev Y) = xs"
    using pend_rounds [of 0 "[]" "[]" xs] by auto
  have g: "list_all2 good Y P" "[] \<notin> set Y" and big: "length xs < 2 ^ length P"
    using P(2) False by (auto simp: pend_def split: if_splits)
  have "length P \<noteq> 0" "length P \<noteq> 1"
    using big False by auto
  then obtain l0 ps where Ps: "P = l0 # ps" "ps \<noteq> []"
    by (cases P) auto
  then obtain ls pss where Y: "Y = ls # pss" "good ls l0" "list_all2 good pss ps"
    using g(1) unfolding Ps(1) list_all2_Cons2 by blast
  have "x \<noteq> last xs"
    using d xs last_in_set [of ys] by auto
  moreover have "\<exists>m' r. sort_pending cmp head l0 ps m = Inr m' \<and> ring m' head r \<and> good (concat (rev pss) @ ls) r"
    by (rule sort_pending_ok [OF Y(3) Ps(2) _ Y(2)]) (use g(2) Y(1) P(3) d in auto)
  ultimately show ?thesis
    using n p c P(1,3) Ps(1) Y(1) by (auto simp: list_sort_def)
qed

end

section \<open>Any comparison\<close>

lemma merge_perm:
  "as \<noteq> [] \<Longrightarrow> bs \<noteq> [] \<Longrightarrow> \<exists>l. merge cmp as bs = Inr l \<and> mset l = mset as + mset bs"
proof (induction cmp as bs rule: merge.induct)
  case (1 cmp a as b bs)
  show ?case
  proof (cases "cmp a b \<le> 0")
    case True
    then show ?thesis
      using "1.IH"(1) [OF True] by (cases "as = []") auto
  next
    case False
    then show ?thesis
      using "1.IH"(2) [OF False] by (cases "bs = []") auto
  qed
qed simp_all

interpretation any_order: merge_sorter cmp "\<lambda>xs l. mset l = mset xs" for cmp :: "'n \<Rightarrow> 'n \<Rightarrow> int"
proof
  fix as bs xs ys :: "'n list"
  assume "mset as = mset xs" "mset bs = mset ys" "xs \<noteq> []" "ys \<noteq> []"
  then show "\<exists>l. merge cmp as bs = Inr l \<and> mset l = mset (xs @ ys)"
    using merge_perm [of as bs cmp] by (metis mset_append mset_zero_iff)
qed simp_all

section \<open>Comparison of keys\<close>

lemma sort_key_front:
  fixes key :: "'n \<Rightarrow> 'k::linorder"
  assumes "\<forall>a\<in>set as. key b < key a" and "\<forall>x\<in>set bs. key b \<le> key x"
  shows "sort_key key (as @ b # bs) = b # sort_key key (as @ bs)"
  using assms(1)
proof (induction as)
  case Nil
  then show ?case
    using assms(2) by (simp add: insort_is_Cons)
qed (simp add: not_le [symmetric])

lemma merge_sort_key:
  fixes key :: "'n \<Rightarrow> 'k::linorder"
  assumes "\<And>a b. cmp a b \<le> 0 \<longleftrightarrow> key a \<le> key b"
    and "as \<noteq> []" and "bs \<noteq> []" and "sorted (map key as)" and "sorted (map key bs)"
  shows "merge cmp as bs = Inr (sort_key key (as @ bs))"
  using assms
proof (induction cmp as bs rule: merge.induct)
  case (1 cmp a as b bs)
  note c = "1.prems"(1) and sa = "1.prems"(4) and sb = "1.prems"(5)
  show ?case
  proof (cases "cmp a b \<le> 0")
    case True
    then have "key a \<le> key b"
      using c by simp
    then have "\<forall>x\<in>set (sort_key key (as @ b # bs)). key a \<le> key x"
      using sa sb by auto
    then have "sort_key key ((a # as) @ b # bs) = a # sort_key key (as @ b # bs)"
      by (simp add: insort_is_Cons)
    moreover have "sort_key key (b # bs) = b # bs"
      by (rule sort_key_id_if_sorted [OF sb])
    ultimately show ?thesis
      using "1.IH"(1) [OF True _ c _ _ _ sb] sa True by (cases "as = []") (simp_all del: sort_key_simps)
  next
    case False
    then have lt: "key b < key a"
      using c by (simp add: not_le)
    then have "sort_key key ((a # as) @ b # bs) = b # sort_key key ((a # as) @ bs)"
      using sa sb by (intro sort_key_front) auto
    moreover have "sort_key key (a # as) = a # as"
      by (rule sort_key_id_if_sorted [OF sa])
    ultimately show ?thesis
      using "1.IH"(2) [OF False _ c _ _ sa] sb False by (cases "bs = []") (simp_all del: sort_key_simps)
  qed
qed simp_all

lemma sort_key_append:
  "sort_key key (sort_key key xs @ sort_key key ys) = sort_key key (xs @ ys)"
proof (rule properties_for_sort_key)
  show "filter (\<lambda>x. key k = key x) (sort_key key (xs @ ys)) =
      filter (\<lambda>x. key k = key x) (sort_key key xs @ sort_key key ys)" for k
    by (simp add: eq_commute [of "key k"] sort_key_stable)
qed simp_all

text \<open>The comparison function orders the nodes by a key.\<close>

locale key_cmp =
  fixes cmp :: "'n \<Rightarrow> 'n \<Rightarrow> int" and key :: "'n \<Rightarrow> 'k::linorder"
  assumes cmp_le: "cmp a b \<le> 0 \<longleftrightarrow> key a \<le> key b"

sublocale key_cmp \<subseteq> merge_sorter cmp "\<lambda>xs l. l = sort_key key xs"
proof
  fix as bs xs ys
  assume "as = sort_key key xs" "bs = sort_key key ys" "xs \<noteq> []" "ys \<noteq> []"
  then show "\<exists>l. merge cmp as bs = Inr l \<and> l = sort_key key (xs @ ys)"
    using merge_sort_key [of cmp key as bs] cmp_le
    by (metis mset_sort mset_zero_iff sort_key_append sorted_sort_key)
qed simp_all

context key_cmp
begin

lemma sort_by_key: "ring m head xs \<Longrightarrow> \<exists>m'. list_sort cmp head m = Some (Inr m') \<and> ring m' head (sort_key key xs)"
  using list_sort_ok [of m head xs] by blast

end

interpretation diff_cmp: key_cmp "\<lambda>a b. key a - key b" key for key :: "'n \<Rightarrow> int"
  by unfold_locales simp

section \<open>What the sort promises\<close>

text \<open>
  C20: \<open>list_sort\<close> always returns, whatever the comparison function answers: no null pointer is
  followed, and the list afterwards is a well-formed circular list of the same nodes.
\<close>
theorem list_sort_terminates:
  assumes "ring m head xs"
  shows "\<exists>m' ys. list_sort cmp head m = Some (Inr m') \<and> ring m' head ys \<and> mset ys = mset xs"
  using any_order.list_sort_ok [OF assms] by blast

theorem list_sort_terminates_witness:
  "\<exists>m' ys. list_sort (\<lambda>a b. 1) (0 :: nat) \<lparr>nxt = (\<lambda>n. (n + 1) mod 4), prv = (\<lambda>n. (n + 3) mod 4)\<rparr> = Some (Inr m') \<and>
    ring m' 0 ys \<and> mset ys = mset [1, 2, 3]"
  by (rule list_sort_terminates) (simp add: ring_def)

text \<open>
  C10: \<open>list_sort\<close> with a comparison function that orders nodes by a key leaves the list sorted by the
  key, nodes with equal keys in their old order: it computes the stable sort \<open>sort_key\<close>.
\<close>
theorem list_sort_stable:
  fixes key :: "'n \<Rightarrow> 'k::linorder"
  assumes "\<And>a b. cmp a b \<le> 0 \<longleftrightarrow> key a \<le> key b" and "ring m head xs"
  shows "\<exists>m'. list_sort cmp head m = Some (Inr m') \<and> ring m' head (sort_key key xs)"
proof -
  have "key_cmp cmp key"
    using assms(1) by (simp add: key_cmp_def)
  from key_cmp.sort_by_key [OF this assms(2)] show ?thesis by blast
qed

theorem list_sort_stable_witness:
  "\<exists>m'. list_sort (\<lambda>a b. int (a mod 2) - int (b mod 2)) (0 :: nat)
      \<lparr>nxt = (\<lambda>n. (n + 1) mod 6), prv = (\<lambda>n. (n + 5) mod 6)\<rparr> = Some (Inr m') \<and> ring m' 0 [2, 4, 1, 3, 5]"
  using list_sort_stable [of "\<lambda>a b. int (a mod 2) - int (b mod 2)" "\<lambda>n. n mod 2"
      "\<lparr>nxt = (\<lambda>n. (n + 1) mod 6), prv = (\<lambda>n. (n + 5) mod 6)\<rparr>" 0 "[1, 2, 3, 4, 5]"]
  by (simp add: ring_def)

end
