(* ===== verification/Mpp_Key_List.thy ===== *)
theory Mpp_Key_List
  imports Mpp_Prelude
begin

text \<open>
  \<open>MppList\<close> of \<open>osal/mpp_list.c\<close>, the list of memory blocks with keys that carries messages between
  threads. The circular list at \<open>head\<close> is the HOL list of its nodes from \<open>head->next\<close> to \<open>head->prev\<close>; the
  inlined link operations are those of \<open>Mpp_List\<close>. A node is its key, its size and the bytes behind its
  header. \<open>alloc\<close> says whether the allocation of the call succeeds. Data is passed as the list of its
  bytes, whose length is the size; the processor is little endian. \<open>EINVAL\<close> is 22, \<open>ENOMEM\<close> is 12.
\<close>

section \<open>Data\<close>

record MppListNode =
  ml_key :: u32
  ml_size :: int
  ml_mem :: "u8 list"

record MppList =
  ml_nodes :: "MppListNode list option"
  ml_count :: int
  ml_keys :: u32
  ml_signals :: nat
  ml_destroyed :: "u8 list list"

text \<open>\<open>ml_nodes\<close> is \<open>None\<close> when \<open>head\<close> is null; \<open>ml_destroyed\<close> are the blocks given to \<open>destroy\<close>.\<close>

definition s32_bytes :: "int \<Rightarrow> u8 list" where
  "s32_bytes n = map (\<lambda>i. ucast (drop_bit (8 * i) (word_of_int n :: u32))) [0..<4]"

definition s32_of_bytes :: "u8 list \<Rightarrow> int" where
  "s32_of_bytes bs = sint (horner_sum (ucast :: u8 \<Rightarrow> u32) 256 bs)"

section \<open>Nodes\<close>

definition create_list :: "u8 list \<Rightarrow> u32 \<Rightarrow> MppListNode" where
  "create_list data key = \<lparr>ml_key = key, ml_size = int (length data), ml_mem = data\<rparr>"

definition create_list_with_size :: "u8 list \<Rightarrow> u32 \<Rightarrow> MppListNode" where
  "create_list_with_size data key =
     \<lparr>ml_key = key, ml_size = int (length data), ml_mem = s32_bytes (int (length data)) @ data\<rparr>"

text \<open>The bytes copied to the caller, whose buffer has \<open>sz\<close> bytes; the smaller size wins.\<close>

definition release_list :: "MppListNode \<Rightarrow> int \<Rightarrow> u8 list run" where
  "release_list node sz =
     (let sz = (if ml_size node = sz then sz else if sz < ml_size node then sz else ml_size node)
      in if 0 \<le> sz \<and> nat sz \<le> length (ml_mem node) then Inr (take (nat sz) (ml_mem node)) else Inl Out_Of_Bounds)"

definition release_list_with_size :: "MppListNode \<Rightarrow> (u8 list \<times> int) run" where
  "release_list_with_size node =
     (if length (ml_mem node) < 4 then Inl Out_Of_Bounds
      else let data_size = s32_of_bytes (take 4 (ml_mem node)); src = drop 4 (ml_mem node)
           in if 0 \<le> data_size \<and> nat data_size \<le> length src
              then Inr (take (nat data_size) src, data_size) else Inl Out_Of_Bounds)"

section \<open>Lists\<close>

definition mpp_list_add_at_head :: "bool \<Rightarrow> MppList \<Rightarrow> u8 list \<Rightarrow> int \<times> MppList" where
  "mpp_list_add_at_head alloc l data =
     (case ml_nodes l of
        None \<Rightarrow> (- 22, l)
      | Some ns \<Rightarrow> if alloc then (0, l\<lparr>ml_nodes := Some (create_list data 0 # ns), ml_count := ml_count l + 1\<rparr>)
                  else (- 12, l))"

definition mpp_list_add_at_tail :: "bool \<Rightarrow> MppList \<Rightarrow> u8 list \<Rightarrow> int \<times> MppList" where
  "mpp_list_add_at_tail alloc l data =
     (case ml_nodes l of
        None \<Rightarrow> (- 22, l)
      | Some ns \<Rightarrow> if alloc then (0, l\<lparr>ml_nodes := Some (ns @ [create_list data 0]), ml_count := ml_count l + 1\<rparr>)
                  else (- 12, l))"

text \<open>The bytes that reach the caller's buffer; taking a node of an empty circle is not defined.\<close>

definition mpp_list_del_at_head :: "MppList \<Rightarrow> int \<Rightarrow> (int \<times> u8 list \<times> MppList) run" where
  "mpp_list_del_at_head l sz =
     (case ml_nodes l of
        None \<Rightarrow> Inr (- 22, [], l)
      | Some ns \<Rightarrow>
          if ml_count l = 0 then Inr (- 22, [], l)
          else case ns of
            [] \<Rightarrow> Inl Out_Of_Bounds
          | n # ns \<Rightarrow> run_bind (release_list n sz) (\<lambda>data.
              Inr (0, data, l\<lparr>ml_nodes := Some ns, ml_count := ml_count l - 1\<rparr>)))"

definition mpp_list_del_at_tail :: "MppList \<Rightarrow> int \<Rightarrow> (int \<times> u8 list \<times> MppList) run" where
  "mpp_list_del_at_tail l sz =
     (case ml_nodes l of
        None \<Rightarrow> Inr (- 22, [], l)
      | Some ns \<Rightarrow>
          if ml_count l = 0 then Inr (- 22, [], l)
          else if ns = [] then Inl Out_Of_Bounds
          else run_bind (release_list (last ns) sz) (\<lambda>data.
            Inr (0, data, l\<lparr>ml_nodes := Some (butlast ns), ml_count := ml_count l - 1\<rparr>)))"

definition mpp_list_fifo_wr :: "bool \<Rightarrow> MppList \<Rightarrow> u8 list \<Rightarrow> int \<times> MppList" where
  "mpp_list_fifo_wr alloc l data =
     (case ml_nodes l of
        None \<Rightarrow> (- 22, l)
      | Some ns \<Rightarrow> if alloc then (0, l\<lparr>ml_nodes := Some (ns @ [create_list_with_size data 0]), ml_count := ml_count l + 1\<rparr>)
                  else (- 12, l))"

text \<open>The third component is \<open>*size\<close>.\<close>

definition mpp_list_fifo_rd :: "MppList \<Rightarrow> (int \<times> u8 list \<times> int option \<times> MppList) run" where
  "mpp_list_fifo_rd l =
     (case ml_nodes l of
        None \<Rightarrow> Inr (- 22, [], None, l)
      | Some ns \<Rightarrow>
          if ml_count l = 0 then Inr (- 22, [], None, l)
          else case ns of
            [] \<Rightarrow> Inl Out_Of_Bounds
          | n # ns \<Rightarrow> run_bind (release_list_with_size n) (\<lambda>(data, sz).
              Inr (0, data, Some sz, l\<lparr>ml_nodes := Some ns, ml_count := ml_count l - 1\<rparr>)))"

definition mpp_list_is_empty :: "MppList \<Rightarrow> bool" where
  "mpp_list_is_empty l \<longleftrightarrow> ml_count l = 0"

definition mpp_list_size :: "MppList \<Rightarrow> int" where
  "mpp_list_size l = ml_count l"

definition mpp_list_get_key :: "MppList \<Rightarrow> u32 \<times> MppList" where
  "mpp_list_get_key l = (ml_keys l, l\<lparr>ml_keys := ml_keys l + 1\<rparr>)"

text \<open>A list without a head gives 0 here, and no key.\<close>

definition mpp_list_add_by_key :: "bool \<Rightarrow> MppList \<Rightarrow> u8 list \<Rightarrow> int \<times> u32 option \<times> MppList" where
  "mpp_list_add_by_key alloc l data =
     (case ml_nodes l of
        None \<Rightarrow> (0, None, l)
      | Some ns \<Rightarrow>
          (let (list_key, l) = mpp_list_get_key l
           in if alloc then (0, Some list_key,
                 l\<lparr>ml_nodes := Some (ns @ [create_list data list_key]), ml_count := ml_count l + 1\<rparr>)
              else (- 12, Some list_key, l)))"

text \<open>
  The loop \<open>while (tmp->next != list->head)\<close> stops before it has looked at the last node; the result is
  the node found, with the nodes around it.
\<close>

fun find_by_key :: "u32 \<Rightarrow> MppListNode list \<Rightarrow> (MppListNode list \<times> MppListNode \<times> MppListNode list) option" where
  "find_by_key key [] = None"
| "find_by_key key [n] = None"
| "find_by_key key (n # k # ns) =
     (if ml_key n = key then Some ([], n, k # ns)
      else map_option (\<lambda>(before, x, after). (n # before, x, after)) (find_by_key key (k # ns)))"

definition mpp_list_del_by_key :: "MppList \<Rightarrow> int \<Rightarrow> u32 \<Rightarrow> (int \<times> u8 list \<times> MppList) run" where
  "mpp_list_del_by_key l sz key =
     (case ml_nodes l of
        None \<Rightarrow> Inr (0, [], l)
      | Some ns \<Rightarrow>
          if ml_count l = 0 then Inr (0, [], l)
          else case find_by_key key ns of
            None \<Rightarrow> Inr (- 22, [], l)
          | Some (before, n, after) \<Rightarrow> run_bind (release_list n sz) (\<lambda>data.
              Inr (- 22, data, l\<lparr>ml_nodes := Some (before @ after), ml_count := ml_count l - 1\<rparr>)))"

definition mpp_list_show_by_key :: "MppList \<Rightarrow> u32 \<Rightarrow> int" where
  "mpp_list_show_by_key l key = - 22"

definition mpp_list_signal :: "MppList \<Rightarrow> MppList" where
  "mpp_list_signal l = l\<lparr>ml_signals := ml_signals l + 1\<rparr>"

text \<open>\<open>while (list->count)\<close>: one node per round, until the count is zero. \<open>dtor\<close>: a destructor is set.\<close>

fun flush_loop :: "bool \<Rightarrow> MppList \<Rightarrow> MppListNode list \<Rightarrow> MppList run" where
  "flush_loop dtor l ns =
     (if ml_count l = 0 then Inr (l\<lparr>ml_nodes := Some ns\<rparr>)
      else case ns of
        [] \<Rightarrow> Inl Out_Of_Bounds
      | n # ns \<Rightarrow> flush_loop dtor
          (l\<lparr>ml_destroyed := (if dtor then ml_destroyed l @ [ml_mem n] else ml_destroyed l), ml_count := ml_count l - 1\<rparr>) ns)"

declare flush_loop.simps [simp del]

definition mpp_list_flush :: "bool \<Rightarrow> MppList \<Rightarrow> MppList run" where
  "mpp_list_flush dtor l =
     (case ml_nodes l of
        None \<Rightarrow> Inr (mpp_list_signal l)
      | Some ns \<Rightarrow> run_bind (flush_loop dtor l ns) (\<lambda>l. Inr (mpp_list_signal l)))"

text \<open>
  Waiting: \<open>wait\<close> is the result of \<open>mpp_mutex_cond_wait\<close> and \<open>timed\<close> that of the timed wait; every error,
  the timeout included, is \<open>MPP_NOK\<close>.
\<close>

definition mpp_list_wait :: "int \<Rightarrow> mpp_ret" where
  "mpp_list_wait ret = (if ret = 0 then MPP_OK else MPP_NOK)"

definition mpp_list_wait_timed :: "(int \<Rightarrow> int) \<Rightarrow> int \<Rightarrow> mpp_ret" where
  "mpp_list_wait_timed timed timeout = (if timed timeout = 0 then MPP_OK else MPP_NOK)"

definition mpp_list_wait_lt :: "MppList \<Rightarrow> int \<Rightarrow> (int \<Rightarrow> int) \<Rightarrow> int \<Rightarrow> int \<Rightarrow> mpp_ret" where
  "mpp_list_wait_lt l wait timed timeout val =
     (if ml_count l < val then MPP_OK
      else if timeout < 0 then mpp_list_wait wait else mpp_list_wait_timed timed timeout)"

definition mpp_list_wait_le :: "MppList \<Rightarrow> int \<Rightarrow> (int \<Rightarrow> int) \<Rightarrow> int \<Rightarrow> int \<Rightarrow> mpp_ret" where
  "mpp_list_wait_le l wait timed timeout val =
     (if ml_count l \<le> val then MPP_OK
      else if timeout < 0 then mpp_list_wait wait else mpp_list_wait_timed timed timeout)"

definition mpp_list_wait_gt :: "MppList \<Rightarrow> int \<Rightarrow> (int \<Rightarrow> int) \<Rightarrow> int \<Rightarrow> int \<Rightarrow> mpp_ret" where
  "mpp_list_wait_gt l wait timed timeout val =
     (if ml_count l > val then MPP_OK
      else if timeout < 0 then mpp_list_wait wait else mpp_list_wait_timed timed timeout)"

definition mpp_list_wait_ge :: "MppList \<Rightarrow> int \<Rightarrow> (int \<Rightarrow> int) \<Rightarrow> int \<Rightarrow> int \<Rightarrow> mpp_ret" where
  "mpp_list_wait_ge l wait timed timeout val =
     (if ml_count l \<ge> val then MPP_OK
      else if timeout < 0 then mpp_list_wait wait else mpp_list_wait_timed timed timeout)"

text \<open>\<open>keys\<close> is what the fresh memory holds: the function does not set it.\<close>

definition mpp_list_create :: "bool \<Rightarrow> bool \<Rightarrow> u32 \<Rightarrow> MppList option" where
  "mpp_list_create alloc_list alloc_head keys =
     (if \<not> alloc_list then None
      else if \<not> alloc_head then None
      else Some \<lparr>ml_nodes = Some [], ml_count = 0, ml_keys = keys, ml_signals = 0, ml_destroyed = []\<rparr>)"

text \<open>What remains of a destroyed list are the blocks given to the destructor.\<close>

definition mpp_list_destroy :: "bool \<Rightarrow> MppList option \<Rightarrow> u8 list list run" where
  "mpp_list_destroy dtor l =
     (case l of
        None \<Rightarrow> Inr []
      | Some l \<Rightarrow> run_bind (mpp_list_flush dtor l) (\<lambda>l.
          if ml_nodes l = None then Inl Null_Deref else Inr (ml_destroyed l)))"

section \<open>Round trip of the length prefix\<close>

lemma s32_bytes_length [simp]: "length (s32_bytes n) = 4"
  by (simp add: s32_bytes_def)

lemma s32_roundtrip:
  assumes "- (2 ^ 31) \<le> n" and "n < 2 ^ 31"
  shows "s32_of_bytes (s32_bytes n) = n"
proof -
  have "horner_sum (ucast :: u8 \<Rightarrow> u32) 256 (map (\<lambda>i. ucast (drop_bit (8 * i) w)) [0..<4]) = w" for w :: u32
  proof -
    let ?d = "\<lambda>i. drop_bit (8 * i) w"
    have byte: "ucast (ucast x :: u8) = take_bit 8 x" for x :: u32
      by (simp add: unsigned_ucast_eq)
    have split: "take_bit 8 (?d i) + 256 * ?d (Suc i) = ?d i" for i
      using bits_ident [of 8 "?d i"] by (simp add: push_bit_eq_mult drop_bit_drop_bit ac_simps)
    have top: "take_bit 8 (?d 3) = ?d 3"
      by (rule bit_word_eqI) (auto simp: bit_simps dest: bit_imp_le_length)
    have "horner_sum (ucast :: u8 \<Rightarrow> u32) 256 (map (\<lambda>i. ucast (?d i)) [0..<4])
        = take_bit 8 (?d 0) + 256 * (take_bit 8 (?d 1) + 256 * (take_bit 8 (?d 2) + 256 * take_bit 8 (?d 3)))"
      by (simp add: upt_rec byte)
    also have "\<dots> = ?d 0"
      unfolding top using split [of 0] split [of 1] split [of 2] by (simp add: numeral_2_eq_2 numeral_3_eq_3)
    finally show ?thesis by simp
  qed
  then show ?thesis
    using assms signed_take_bit_int_eq_self [of 31 n] by (simp add: s32_of_bytes_def s32_bytes_def signed_of_int)
qed

section \<open>Well-formed lists\<close>

definition key_list_ok :: "MppList \<Rightarrow> MppListNode list \<Rightarrow> bool" where
  "key_list_ok l ns \<longleftrightarrow> ml_nodes l = Some ns \<and> ml_count l = int (length ns)"

definition msg_ok :: "u8 list \<Rightarrow> bool" where
  "msg_ok data \<longleftrightarrow> length data < 2 ^ 31"

lemma release_with_size: "msg_ok data \<Longrightarrow>
    release_list_with_size (create_list_with_size data key) = Inr (data, int (length data))"
  by (simp add: release_list_with_size_def create_list_with_size_def s32_roundtrip msg_ok_def Let_def)

text \<open>A sequence of writes (with or without memory for the node) and reads, with everything they return.\<close>

datatype fifo_op = Fifo_Wr bool "u8 list" | Fifo_Rd

fun fifo_run :: "MppList \<Rightarrow> fifo_op list \<Rightarrow> ((int \<times> u8 list \<times> int option) list \<times> MppList) run" where
  "fifo_run l [] = Inr ([], l)"
| "fifo_run l (Fifo_Wr alloc d # ops) =
     (let (ret, l) = mpp_list_fifo_wr alloc l d
      in run_bind (fifo_run l ops) (\<lambda>(rs, l). Inr ((ret, [], None) # rs, l)))"
| "fifo_run l (Fifo_Rd # ops) =
     run_bind (mpp_list_fifo_rd l) (\<lambda>(ret, data, sz, l).
       run_bind (fifo_run l ops) (\<lambda>(rs, l). Inr ((ret, data, sz) # rs, l)))"

text \<open>The same operations on a queue of messages: 22 is \<open>EINVAL\<close>, 12 is \<open>ENOMEM\<close>.\<close>

fun fifo_spec :: "u8 list list \<Rightarrow> fifo_op list \<Rightarrow> (int \<times> u8 list \<times> int option) list \<times> u8 list list" where
  "fifo_spec q [] = ([], q)"
| "fifo_spec q (Fifo_Wr True d # ops) = (let (rs, q') = fifo_spec (q @ [d]) ops in ((0, [], None) # rs, q'))"
| "fifo_spec q (Fifo_Wr False d # ops) = (let (rs, q') = fifo_spec q ops in ((- 12, [], None) # rs, q'))"
| "fifo_spec [] (Fifo_Rd # ops) = (let (rs, q') = fifo_spec [] ops in ((- 22, [], None) # rs, q'))"
| "fifo_spec (m # q) (Fifo_Rd # ops) =
     (let (rs, q') = fifo_spec q ops in ((0, m, Some (int (length m))) # rs, q'))"

definition fifo_nodes :: "u8 list list \<Rightarrow> MppListNode list" where
  "fifo_nodes q = map (\<lambda>d. create_list_with_size d 0) q"

lemma fifo_wr_ok:
  "key_list_ok l (fifo_nodes q) \<Longrightarrow>
     mpp_list_fifo_wr alloc l d = (if alloc then 0 else - 12, snd (mpp_list_fifo_wr alloc l d)) \<and>
     key_list_ok (snd (mpp_list_fifo_wr alloc l d)) (fifo_nodes (if alloc then q @ [d] else q))"
  by (simp add: key_list_ok_def mpp_list_fifo_wr_def fifo_nodes_def)

lemma fifo_rd_empty: "key_list_ok l (fifo_nodes []) \<Longrightarrow> mpp_list_fifo_rd l = Inr (- 22, [], None, l)"
  by (simp add: mpp_list_fifo_rd_def key_list_ok_def fifo_nodes_def)

lemma fifo_rd_ok:
  assumes "key_list_ok l (fifo_nodes (m # q))" and "msg_ok m"
  shows "\<exists>l'. mpp_list_fifo_rd l = Inr (0, m, Some (int (length m)), l') \<and> key_list_ok l' (fifo_nodes q)"
  using assms by (simp add: mpp_list_fifo_rd_def key_list_ok_def release_with_size fifo_nodes_def)

lemma fifo_run_ok:
  assumes "key_list_ok l (fifo_nodes q)" and "list_all msg_ok q"
    and "list_all (\<lambda>p. \<forall>alloc d. p = Fifo_Wr alloc d \<longrightarrow> msg_ok d) ops"
  shows "\<exists>l'. fifo_run l ops = Inr (fst (fifo_spec q ops), l') \<and> key_list_ok l' (fifo_nodes (snd (fifo_spec q ops)))"
  using assms
proof (induction q ops arbitrary: l rule: fifo_spec.induct)
  case (2 q d ops)
  with fifo_wr_ok [OF 2(2), of True d] show ?case
    by (auto simp: Let_def split: prod.splits) fastforce
next
  case (3 q d ops)
  with fifo_wr_ok [OF 3(2), of False d] show ?case
    by (auto simp: Let_def split: prod.splits) fastforce
next
  case (4 ops)
  with fifo_rd_empty [OF 4(2)] show ?case
    by (auto simp: Let_def split: prod.splits) fastforce
next
  case (5 m q ops)
  then obtain l' where "mpp_list_fifo_rd l = Inr (0, m, Some (int (length m)), l')" "key_list_ok l' (fifo_nodes q)"
    using fifo_rd_ok [OF 5(2)] by auto
  with 5 show ?case
    by (auto simp: Let_def split: prod.splits) fastforce
qed simp

definition demo_list :: "MppListNode list \<Rightarrow> MppList" where
  "demo_list ns = \<lparr>ml_nodes = Some ns, ml_count = int (length ns), ml_keys = 0, ml_signals = 0, ml_destroyed = []\<rparr>"

lemma demo_list_ok: "key_list_ok (demo_list ns) ns"
  by (simp add: key_list_ok_def demo_list_def)

section \<open>What the list promises\<close>

text \<open>
  C21: Any interleaving of writes and reads on the message list is a first in, first out queue of
  messages: every call returns the code of the queue (0, \<open>-ENOMEM\<close> for a write whose node is not allocated,
  \<open>-EINVAL\<close> for a read of the empty queue), a successful read delivers the oldest message that is left, with
  exactly its bytes and with its size in \<open>*size\<close>, a failing call changes nothing, and afterwards the list
  holds the messages that are left, in order.
\<close>
theorem message_fifo:
  assumes "key_list_ok l (fifo_nodes q)" and "list_all msg_ok q"
    and "list_all (\<lambda>p. \<forall>alloc d. p = Fifo_Wr alloc d \<longrightarrow> msg_ok d) ops"
  shows "\<exists>l'. fifo_run l ops = Inr (fst (fifo_spec q ops), l') \<and> key_list_ok l' (fifo_nodes (snd (fifo_spec q ops)))"
  by (rule fifo_run_ok [OF assms])

theorem message_fifo_witness:
  "\<exists>l'. fifo_run (demo_list [])
      [Fifo_Rd, Fifo_Wr True [1, 2, 3], Fifo_Wr False [9], Fifo_Wr True [], Fifo_Rd, Fifo_Wr True [4], Fifo_Rd, Fifo_Rd]
    = Inr ([(- 22, [], None), (0, [], None), (- 12, [], None), (0, [], None), (0, [1, 2, 3], Some 3), (0, [], None),
        (0, [], Some 0), (0, [4], Some 1)], l')"
  using message_fifo [of "demo_list []" "[]"
      "[Fifo_Rd, Fifo_Wr True [1, 2, 3], Fifo_Wr False [9], Fifo_Wr True [], Fifo_Rd, Fifo_Wr True [4], Fifo_Rd, Fifo_Rd]"]
    demo_list_ok [of "[]"]
  by (auto simp: fifo_nodes_def msg_ok_def)

lemma find_by_key_last:
  "\<forall>n\<in>set (butlast ns). ml_key n \<noteq> key \<Longrightarrow> find_by_key key ns = None"
  by (induction key ns rule: find_by_key.induct) auto

text \<open>
  \<open>mpp_list_del_by_key\<close> never looks at the last node: when the node with the wanted key is the
  last one, nothing is deleted. It also answers \<open>-EINVAL\<close> in every case, a successful deletion included.
\<close>
theorem del_by_key_misses_last:
  assumes "key_list_ok l ns" and "ns \<noteq> []"
  shows "((\<forall>n\<in>set (butlast ns). ml_key n \<noteq> key) \<longrightarrow> mpp_list_del_by_key l sz key = Inr (- 22, [], l)) \<and>
    (\<forall>ret data l'. mpp_list_del_by_key l sz key = Inr (ret, data, l') \<longrightarrow> ret = - 22)"
  using assms find_by_key_last [of ns key]
  by (auto simp: mpp_list_del_by_key_def key_list_ok_def run_bind_Inr_iff split: option.splits)

theorem del_by_key_misses_last_witness:
  "mpp_list_del_by_key (demo_list [create_list [1] 5, create_list [2] 6]) 1 6
     = Inr (- 22, [], demo_list [create_list [1] 5, create_list [2] 6])"
  by (rule del_by_key_misses_last [OF demo_list_ok, THEN conjunct1, rule_format]) (simp_all add: create_list_def)

end
