(* ===== verification/Mpp_Sys_Cfg.thy ===== *)
theory Mpp_Sys_Cfg
  imports Mpp_Prelude
begin

text \<open>
  The decoder buffer layout calculation of \<open>mpp/base/mpp_sys_cfg.c\<close> and the wrappers of
  \<open>mpp/base/mpp_sys_cfg_st.c\<close>: from codec, format, dimensions and requested strides to the
  horizontal and vertical strides and the size of the frame buffer.

  All quantities are 32-bit words with their wrap-around; the compressed size is computed in
  \<open>RK_S32\<close>, an \<open>int\<close> here, and narrowed at the end. \<open>mpp_get_soc_type\<close> and the compatibility switch
  \<open>compat_ext_fbc_hdr_256_odd\<close> are arguments. A configuration object is the record of its entries:
  \<open>mpp_sys_cfg_set_u32\<close> and \<open>mpp_sys_cfg_get_u32\<close> on a named entry are the update and the selection
  of the field, and \<open>mpp_sys_cfg_get\<close> gives an object with all entries zero.
\<close>

section \<open>Constants\<close>

datatype MppCodingType =
    MPP_VIDEO_CodingUnused | MPP_VIDEO_CodingAutoDetect | MPP_VIDEO_CodingMPEG2 | MPP_VIDEO_CodingH263
  | MPP_VIDEO_CodingMPEG4 | MPP_VIDEO_CodingWMV | MPP_VIDEO_CodingRV | MPP_VIDEO_CodingAVC
  | MPP_VIDEO_CodingMJPEG | MPP_VIDEO_CodingVP8 | MPP_VIDEO_CodingVP9 | MPP_VIDEO_CodingVC1
  | MPP_VIDEO_CodingFLV1 | MPP_VIDEO_CodingDIVX3 | MPP_VIDEO_CodingVP6 | MPP_VIDEO_CodingHEVC
  | MPP_VIDEO_CodingAVSPLUS | MPP_VIDEO_CodingAVS | MPP_VIDEO_CodingAVS2 | MPP_VIDEO_CodingAV1
  | MPP_VIDEO_CodingKhronosExtensions | MPP_VIDEO_CodingVendorStartUnused | MPP_VIDEO_CodingMax

datatype RockchipSocType =
    ROCKCHIP_SOC_AUTO | ROCKCHIP_SOC_RK3036 | ROCKCHIP_SOC_RK3066 | ROCKCHIP_SOC_RK3188
  | ROCKCHIP_SOC_RK3288 | ROCKCHIP_SOC_RK312X | ROCKCHIP_SOC_RK3368 | ROCKCHIP_SOC_RK3399
  | ROCKCHIP_SOC_RK3228H | ROCKCHIP_SOC_RK3328 | ROCKCHIP_SOC_RK3228 | ROCKCHIP_SOC_RK3229
  | ROCKCHIP_SOC_RV1108 | ROCKCHIP_SOC_RV1109 | ROCKCHIP_SOC_RV1126 | ROCKCHIP_SOC_RK3326
  | ROCKCHIP_SOC_RK3128H | ROCKCHIP_SOC_PX30 | ROCKCHIP_SOC_RK1808 | ROCKCHIP_SOC_RK3566
  | ROCKCHIP_SOC_RK3567 | ROCKCHIP_SOC_RK3568 | ROCKCHIP_SOC_RK3588 | ROCKCHIP_SOC_RK3528
  | ROCKCHIP_SOC_RK3562 | ROCKCHIP_SOC_RK3576 | ROCKCHIP_SOC_RV1126B | ROCKCHIP_SOC_RK3538
  | ROCKCHIP_SOC_RK3572 | ROCKCHIP_SOC_RK3539 | ROCKCHIP_SOC_BUTT

abbreviation (input) MPP_FRAME_FMT_MASK :: u32 where "MPP_FRAME_FMT_MASK \<equiv> 0x000fffff"
abbreviation (input) MPP_FRAME_FBC_MASK :: u32 where "MPP_FRAME_FBC_MASK \<equiv> 0x00f00000"
abbreviation (input) MPP_FRAME_HDR_MASK :: u32 where "MPP_FRAME_HDR_MASK \<equiv> 0x0c000000"
abbreviation (input) MPP_FRAME_FBC_AFBC_V1 :: u32 where "MPP_FRAME_FBC_AFBC_V1 \<equiv> 0x00100000"
abbreviation (input) MPP_FRAME_FBC_AFBC_V2 :: u32 where "MPP_FRAME_FBC_AFBC_V2 \<equiv> 0x00200000"
abbreviation (input) MPP_FRAME_FBC_RKFBC :: u32 where "MPP_FRAME_FBC_RKFBC \<equiv> 0x00400000"

abbreviation (input) MPP_FMT_YUV420SP :: u32 where "MPP_FMT_YUV420SP \<equiv> 0"
abbreviation (input) MPP_FMT_YUV420SP_10BIT :: u32 where "MPP_FMT_YUV420SP_10BIT \<equiv> 1"
abbreviation (input) MPP_FMT_YUV422SP :: u32 where "MPP_FMT_YUV422SP \<equiv> 2"
abbreviation (input) MPP_FMT_YUV422SP_10BIT :: u32 where "MPP_FMT_YUV422SP_10BIT \<equiv> 3"
abbreviation (input) MPP_FMT_YUV420P :: u32 where "MPP_FMT_YUV420P \<equiv> 4"
abbreviation (input) MPP_FMT_YUV420SP_VU :: u32 where "MPP_FMT_YUV420SP_VU \<equiv> 5"
abbreviation (input) MPP_FMT_YUV422P :: u32 where "MPP_FMT_YUV422P \<equiv> 6"
abbreviation (input) MPP_FMT_YUV422SP_VU :: u32 where "MPP_FMT_YUV422SP_VU \<equiv> 7"
abbreviation (input) MPP_FMT_YUV422_YUYV :: u32 where "MPP_FMT_YUV422_YUYV \<equiv> 8"
abbreviation (input) MPP_FMT_YUV422_YVYU :: u32 where "MPP_FMT_YUV422_YVYU \<equiv> 9"
abbreviation (input) MPP_FMT_YUV422_UYVY :: u32 where "MPP_FMT_YUV422_UYVY \<equiv> 10"
abbreviation (input) MPP_FMT_YUV422_VYUY :: u32 where "MPP_FMT_YUV422_VYUY \<equiv> 11"
abbreviation (input) MPP_FMT_YUV400 :: u32 where "MPP_FMT_YUV400 \<equiv> 12"
abbreviation (input) MPP_FMT_YUV440SP :: u32 where "MPP_FMT_YUV440SP \<equiv> 13"
abbreviation (input) MPP_FMT_YUV411SP :: u32 where "MPP_FMT_YUV411SP \<equiv> 14"
abbreviation (input) MPP_FMT_YUV444SP :: u32 where "MPP_FMT_YUV444SP \<equiv> 15"
abbreviation (input) MPP_FMT_YUV444P :: u32 where "MPP_FMT_YUV444P \<equiv> 16"
abbreviation (input) MPP_FMT_YUV444SP_10BIT :: u32 where "MPP_FMT_YUV444SP_10BIT \<equiv> 17"
abbreviation (input) MPP_FMT_RGB565 :: u32 where "MPP_FMT_RGB565 \<equiv> 0x00010000"
abbreviation (input) MPP_FMT_BGR565 :: u32 where "MPP_FMT_BGR565 \<equiv> 0x00010001"
abbreviation (input) MPP_FMT_RGB888 :: u32 where "MPP_FMT_RGB888 \<equiv> 0x00010006"
abbreviation (input) MPP_FMT_BGR888 :: u32 where "MPP_FMT_BGR888 \<equiv> 0x00010007"

definition MPP_FRAME_FMT_IS_YUV_10BIT :: "u32 \<Rightarrow> bool" where
  "MPP_FRAME_FMT_IS_YUV_10BIT fmt \<longleftrightarrow>
     fmt AND MPP_FRAME_FMT_MASK = MPP_FMT_YUV420SP_10BIT \<or>
     fmt AND MPP_FRAME_FMT_MASK = MPP_FMT_YUV422SP_10BIT \<or>
     fmt AND MPP_FRAME_FMT_MASK = MPP_FMT_YUV444SP_10BIT"

definition MPP_FRAME_FMT_IS_FBC :: "u32 \<Rightarrow> bool" where
  "MPP_FRAME_FMT_IS_FBC fmt \<longleftrightarrow> fmt AND MPP_FRAME_FBC_MASK \<noteq> 0"

definition MPP_FRAME_FMT_IS_AFBC :: "u32 \<Rightarrow> bool" where
  "MPP_FRAME_FMT_IS_AFBC fmt \<longleftrightarrow> fmt AND (MPP_FRAME_FBC_AFBC_V1 OR MPP_FRAME_FBC_AFBC_V2) \<noteq> 0"

section \<open>Alignment\<close>

datatype SysCfgAlignType =
    SYS_CFG_ALIGN_8 | SYS_CFG_ALIGN_16 | SYS_CFG_ALIGN_32 | SYS_CFG_ALIGN_64 | SYS_CFG_ALIGN_128
  | SYS_CFG_ALIGN_256 | SYS_CFG_ALIGN_256_ODD | SYS_CFG_ALIGN_128_ODD_PLUS_64
  | SYS_CFG_ALIGN_LEN_DEFAULT | SYS_CFG_ALIGN_LEN_420 | SYS_CFG_ALIGN_LEN_422 | SYS_CFG_ALIGN_LEN_444
  | SYS_CFG_ALIGN_LEN_422_AVC | SYS_CFG_ALIGN_LEN_420_AV1 | SYS_CFG_ALIGN_LEN_422_AV1
  | SYS_CFG_ALIGN_BUTT

fun mpp_sys_cfg_align :: "SysCfgAlignType \<Rightarrow> u32 \<Rightarrow> u32" where
  "mpp_sys_cfg_align SYS_CFG_ALIGN_8 val = MPP_ALIGN val 8"
| "mpp_sys_cfg_align SYS_CFG_ALIGN_16 val = MPP_ALIGN val 16"
| "mpp_sys_cfg_align SYS_CFG_ALIGN_32 val = MPP_ALIGN val 32"
| "mpp_sys_cfg_align SYS_CFG_ALIGN_64 val = MPP_ALIGN val 64"
| "mpp_sys_cfg_align SYS_CFG_ALIGN_128 val = MPP_ALIGN val 128"
| "mpp_sys_cfg_align SYS_CFG_ALIGN_256 val = MPP_ALIGN val 256"
| "mpp_sys_cfg_align SYS_CFG_ALIGN_256_ODD val = MPP_ALIGN val 256 OR 256"
| "mpp_sys_cfg_align SYS_CFG_ALIGN_128_ODD_PLUS_64 val =
     (let val = MPP_ALIGN val 64
      in if (val - 64) mod 256 = 128 then val else (MPP_ALIGN val 128 OR 128) + 64)"
| "mpp_sys_cfg_align SYS_CFG_ALIGN_LEN_DEFAULT val = 9 * MPP_ALIGN val 16 div 5"
| "mpp_sys_cfg_align SYS_CFG_ALIGN_LEN_420 val = 2 * MPP_ALIGN val 16"
| "mpp_sys_cfg_align SYS_CFG_ALIGN_LEN_422 val = 2 * MPP_ALIGN val 16"
| "mpp_sys_cfg_align SYS_CFG_ALIGN_LEN_444 val = 3 * MPP_ALIGN val 16"
| "mpp_sys_cfg_align SYS_CFG_ALIGN_LEN_422_AVC val = (5 * MPP_ALIGN val 16) div 2"
| "mpp_sys_cfg_align SYS_CFG_ALIGN_LEN_420_AV1 val = 2 * MPP_ALIGN val 128"
| "mpp_sys_cfg_align SYS_CFG_ALIGN_LEN_422_AV1 val = (5 * MPP_ALIGN val 64) div 2"
| "mpp_sys_cfg_align SYS_CFG_ALIGN_BUTT val = - 1"

definition align_s32 :: "int \<Rightarrow> int \<Rightarrow> int" where
  "align_s32 x a = (x + a - 1) AND NOT (a - 1)"

definition get_afbc_min_size :: "int \<Rightarrow> int \<Rightarrow> int \<Rightarrow> int" where
  "get_afbc_min_size width height bpp =
     (let width = align_s32 width 16;
          height = align_s32 height 16;
          n_blocks = cdiv (width * height) 256
      in align_s32 (n_blocks * 16) 64 + n_blocks * align_s32 (cdiv (bpp * 256) 8) 128)"

section \<open>Buffer check\<close>

record MppSysDecBufChkCfg =
  sc_change :: u64
  sc_enable :: u32
  sc_type :: MppCodingType
  sc_fmt_codec :: u32
  sc_fmt_fbc :: u32
  sc_fmt_hdr :: u32
  sc_width :: u32
  sc_height :: u32
  sc_crop_top :: u32
  sc_crop_bottom :: u32
  sc_crop_left :: u32
  sc_crop_right :: u32
  sc_has_metadata :: u32
  sc_has_thumbnail :: u32
  sc_unit_size :: u32
  sc_cap_fbc :: u32
  sc_cap_tile :: u32
  sc_h_stride_by_pixel :: u32
  sc_h_stride_by_byte :: u32
  sc_v_stride :: u32
  sc_buf_total_size :: u32
  sc_offset_y :: u32
  sc_size_total :: u32
  sc_size_fbc_hdr :: u32
  sc_size_fbc_bdy :: u32
  sc_size_metadata :: u32
  sc_size_thumbnail :: u32

definition chk_fmt :: "MppSysDecBufChkCfg \<Rightarrow> u32" where
  "chk_fmt cfg = (sc_fmt_codec cfg AND MPP_FRAME_FMT_MASK) OR (sc_fmt_fbc cfg AND MPP_FRAME_FBC_MASK)
     OR (sc_fmt_hdr cfg AND MPP_FRAME_HDR_MASK)"

definition chk_depth :: "MppSysDecBufChkCfg \<Rightarrow> u32" where
  "chk_depth cfg = (if MPP_FRAME_FMT_IS_YUV_10BIT (chk_fmt cfg) then 10 else 8)"

text \<open>Frame buffer compression: pixel width and height.\<close>

definition fbc_ext_pix :: "RockchipSocType \<Rightarrow> u32 \<Rightarrow> u32 \<Rightarrow> u32 \<Rightarrow> u32 \<Rightarrow> u32" where
  "fbc_ext_pix soc fmt aligned_height height lim =
     (if (soc = ROCKCHIP_SOC_RK3538 \<or> soc = ROCKCHIP_SOC_RK3572) \<and> MPP_FRAME_FMT_IS_AFBC fmt
      then (if aligned_height = height \<or> aligned_height - height < lim then 8 else 0)
      else 0)"

definition fbc_aligned :: "RockchipSocType \<Rightarrow> MppSysDecBufChkCfg \<Rightarrow> u32 \<times> u32" where
  "fbc_aligned soc cfg =
     (let w = sc_width cfg; h = sc_height cfg; ah = sc_v_stride cfg; fmt = chk_fmt cfg;
          base = (if ah \<noteq> 0 then ah else h)
      in case sc_type cfg of
           MPP_VIDEO_CodingHEVC \<Rightarrow> (MPP_ALIGN w 64, MPP_ALIGN (base + fbc_ext_pix soc fmt ah h 8) 16)
         | MPP_VIDEO_CodingAV1 \<Rightarrow> (MPP_ALIGN w 64, MPP_ALIGN base 16)
         | MPP_VIDEO_CodingAVC \<Rightarrow> (MPP_ALIGN w 64, MPP_ALIGN (base + fbc_ext_pix soc fmt ah h 16) 16)
         | MPP_VIDEO_CodingAVSPLUS \<Rightarrow> (MPP_ALIGN w 64, MPP_ALIGN base 16)
         | MPP_VIDEO_CodingAVS \<Rightarrow> (MPP_ALIGN w 64, MPP_ALIGN base 16)
         | MPP_VIDEO_CodingAVS2 \<Rightarrow> (MPP_ALIGN w 64, MPP_ALIGN base 16)
         | MPP_VIDEO_CodingVP9 \<Rightarrow> (MPP_ALIGN w 64, MPP_ALIGN base 64)
         | _ \<Rightarrow> (MPP_ALIGN w 16, MPP_ALIGN base 16))"

definition fbc_byte :: "bool \<Rightarrow> MppSysDecBufChkCfg \<Rightarrow> u32 \<Rightarrow> u32" where
  "fbc_byte odd_256 cfg aligned_pixel =
     (let pixel_byte = (if odd_256
            then drop_bit 3 ((MPP_ALIGN aligned_pixel 256 OR 256) * chk_depth cfg)
            else drop_bit 3 (MPP_ALIGN aligned_pixel 64 * chk_depth cfg))
      in if sc_type cfg \<in> {MPP_VIDEO_CodingAVC, MPP_VIDEO_CodingAVSPLUS, MPP_VIDEO_CodingAVS,
                            MPP_VIDEO_CodingAVS2, MPP_VIDEO_CodingHEVC, MPP_VIDEO_CodingVP9}
         then MPP_ALIGN pixel_byte 64 else MPP_ALIGN pixel_byte 16)"

definition fbc_size :: "u32 \<Rightarrow> u32 \<Rightarrow> u32 \<Rightarrow> u32 \<Rightarrow> u32" where
  "fbc_size fmt_raw aligned_pixel aligned_byte aligned_height =
     (let f = fmt_raw AND MPP_FRAME_FMT_MASK;
          afbc = (\<lambda>bpp. word_of_int (get_afbc_min_size (sint aligned_pixel) (sint aligned_height) bpp))
      in if f = MPP_FMT_YUV420SP_10BIT then afbc 15
         else if f = MPP_FMT_YUV422SP_10BIT then afbc 20
         else if f = MPP_FMT_YUV420SP then afbc 12
         else if f = MPP_FMT_YUV422SP then afbc 16
         else if f = MPP_FMT_YUV444SP then afbc 24
         else if f = MPP_FMT_YUV444SP_10BIT then afbc 30
         else aligned_byte * aligned_height * 3 div 2)"

definition dec_buf_chk_fbc :: "RockchipSocType \<Rightarrow> bool \<Rightarrow> MppSysDecBufChkCfg \<Rightarrow> MppSysDecBufChkCfg" where
  "dec_buf_chk_fbc soc odd_256 cfg =
     (let (aligned_pixel, aligned_height) = fbc_aligned soc cfg;
          aligned_byte = fbc_byte odd_256 cfg aligned_pixel
      in cfg\<lparr>sc_h_stride_by_byte := aligned_byte,
             sc_h_stride_by_pixel := aligned_pixel,
             sc_v_stride := aligned_height,
             sc_size_total := fbc_size (sc_fmt_codec cfg) aligned_pixel aligned_byte aligned_height\<rparr>)"

text \<open>Raster and tile layouts.\<close>

definition raster_aligned :: "RockchipSocType \<Rightarrow> MppSysDecBufChkCfg \<Rightarrow> u32 \<times> u32" where
  "raster_aligned soc cfg =
     (let w = sc_width cfg; h = sc_height cfg
      in case sc_type cfg of
           MPP_VIDEO_CodingHEVC \<Rightarrow> (MPP_ALIGN w 64, MPP_ALIGN h 8)
         | MPP_VIDEO_CodingAVC \<Rightarrow> (MPP_ALIGN w 16, MPP_ALIGN h 16)
         | MPP_VIDEO_CodingVP9 \<Rightarrow>
             (w, if soc = ROCKCHIP_SOC_RK3399 then MPP_ALIGN h 64
                 else if soc = ROCKCHIP_SOC_RK3588 then MPP_ALIGN h 16
                 else MPP_ALIGN h 8)
         | MPP_VIDEO_CodingAV1 \<Rightarrow> (w, MPP_ALIGN h 8)
         | MPP_VIDEO_CodingVP8 \<Rightarrow> (w, MPP_ALIGN h 16)
         | MPP_VIDEO_CodingH263 \<Rightarrow> (w, MPP_ALIGN h 16)
         | MPP_VIDEO_CodingMPEG2 \<Rightarrow> (w, MPP_ALIGN h 16)
         | MPP_VIDEO_CodingMPEG4 \<Rightarrow> (w, MPP_ALIGN h 16)
         | MPP_VIDEO_CodingAVS2 \<Rightarrow> (MPP_ALIGN w 64, MPP_ALIGN h 8)
         | _ \<Rightarrow> (w, MPP_ALIGN h 8))"

definition raster_byte :: "RockchipSocType \<Rightarrow> MppCodingType \<Rightarrow> u32 \<Rightarrow> u32" where
  "raster_byte soc ctype pixel_byte =
     (case ctype of
        MPP_VIDEO_CodingHEVC \<Rightarrow> mpp_sys_cfg_align SYS_CFG_ALIGN_64 pixel_byte
      | MPP_VIDEO_CodingVP9 \<Rightarrow>
          mpp_sys_cfg_align (if soc = ROCKCHIP_SOC_RK3576 then SYS_CFG_ALIGN_128_ODD_PLUS_64
                             else SYS_CFG_ALIGN_256_ODD) pixel_byte
      | MPP_VIDEO_CodingAV1 \<Rightarrow>
          mpp_sys_cfg_align (if soc = ROCKCHIP_SOC_RK3588 then SYS_CFG_ALIGN_16 else SYS_CFG_ALIGN_128)
            pixel_byte
      | _ \<Rightarrow> mpp_sys_cfg_align SYS_CFG_ALIGN_16 pixel_byte)"

definition stride_pixel :: "u32 \<Rightarrow> u32 \<Rightarrow> u32" where
  "stride_pixel fmt stride =
     (let f = fmt AND MPP_FRAME_FMT_MASK
      in if f \<in> {MPP_FMT_YUV420SP_10BIT, MPP_FMT_YUV422SP_10BIT, MPP_FMT_YUV444SP_10BIT} then stride * 8 div 10
         else if f \<in> {MPP_FMT_YUV422_YVYU, MPP_FMT_YUV422_YUYV, MPP_FMT_RGB565, MPP_FMT_BGR565} then stride div 2
         else if f \<in> {MPP_FMT_RGB888, MPP_FMT_BGR888} then stride div 3
         else stride)"

text \<open>The performance alignment of wide frames; it also recomputes the pixel stride.\<close>

definition raster_perf :: "RockchipSocType \<Rightarrow> MppSysDecBufChkCfg \<Rightarrow> u32 \<Rightarrow> u32 \<Rightarrow> u32 \<times> u32" where
  "raster_perf soc cfg aligned_pixel aligned_byte =
     (if (aligned_byte > 1920 \<or> soc = ROCKCHIP_SOC_RK3576) \<and> sc_type cfg \<noteq> MPP_VIDEO_CodingMJPEG then
        (if soc \<in> {ROCKCHIP_SOC_RK3399, ROCKCHIP_SOC_RK3568, ROCKCHIP_SOC_RK3562, ROCKCHIP_SOC_RK3528,
                   ROCKCHIP_SOC_RK3588}
         then (let b = mpp_sys_cfg_align SYS_CFG_ALIGN_256_ODD aligned_byte in (stride_pixel (chk_fmt cfg) b, b))
         else if soc = ROCKCHIP_SOC_RK3576
         then (let b = mpp_sys_cfg_align SYS_CFG_ALIGN_128_ODD_PLUS_64 aligned_byte
               in (stride_pixel (chk_fmt cfg) b, b))
         else (aligned_pixel, aligned_byte))
      else (aligned_pixel, aligned_byte))"

definition raster_size :: "MppCodingType \<Rightarrow> u32 \<Rightarrow> u32 \<Rightarrow> u32" where
  "raster_size ctype fmt_raw sz =
     (if fmt_raw \<in> {MPP_FMT_YUV420SP, MPP_FMT_YUV420SP_10BIT, MPP_FMT_YUV420P, MPP_FMT_YUV420SP_VU} then
        mpp_sys_cfg_align (if ctype = MPP_VIDEO_CodingAV1 then SYS_CFG_ALIGN_LEN_420_AV1
                           else if ctype = MPP_VIDEO_CodingAVC then SYS_CFG_ALIGN_LEN_420
                           else SYS_CFG_ALIGN_LEN_DEFAULT) sz
      else if fmt_raw \<in> {MPP_FMT_YUV422SP, MPP_FMT_YUV422SP_10BIT, MPP_FMT_YUV422P, MPP_FMT_YUV422SP_VU,
                         MPP_FMT_YUV422_YUYV, MPP_FMT_YUV422_YVYU, MPP_FMT_YUV422_UYVY,
                         MPP_FMT_YUV422_VYUY, MPP_FMT_YUV440SP, MPP_FMT_YUV411SP} then
        mpp_sys_cfg_align (if ctype = MPP_VIDEO_CodingAVC then SYS_CFG_ALIGN_LEN_422_AVC
                           else if ctype = MPP_VIDEO_CodingAV1 then SYS_CFG_ALIGN_LEN_422_AV1
                           else SYS_CFG_ALIGN_LEN_422) sz
      else if fmt_raw = MPP_FMT_YUV400 then sz
      else if fmt_raw \<in> {MPP_FMT_YUV444SP, MPP_FMT_YUV444P, MPP_FMT_YUV444SP_10BIT} then
        mpp_sys_cfg_align SYS_CFG_ALIGN_LEN_444 sz
      else sz * 3 div 2)"

definition dec_buf_chk_raster :: "RockchipSocType \<Rightarrow> MppSysDecBufChkCfg \<Rightarrow> MppSysDecBufChkCfg" where
  "dec_buf_chk_raster soc cfg =
     (let (aligned_pixel, aligned_height) = raster_aligned soc cfg;
          pixel_byte = (if sc_h_stride_by_byte cfg \<noteq> 0 then sc_h_stride_by_byte cfg
                        else aligned_pixel * chk_depth cfg div 8);
          aligned_height = (if sc_v_stride cfg \<noteq> 0 then sc_v_stride cfg else aligned_height);
          aligned_byte = raster_byte soc (sc_type cfg) pixel_byte;
          (aligned_pixel, aligned_byte) = raster_perf soc cfg aligned_pixel aligned_byte
      in cfg\<lparr>sc_h_stride_by_byte := aligned_byte,
             sc_h_stride_by_pixel := aligned_pixel,
             sc_v_stride := aligned_height,
             sc_size_total := raster_size (sc_type cfg) (sc_fmt_codec cfg) (aligned_byte * aligned_height)\<rparr>)"

definition mpp_sys_dec_buf_chk_proc ::
  "RockchipSocType \<Rightarrow> bool \<Rightarrow> MppSysDecBufChkCfg \<Rightarrow> mpp_ret \<times> MppSysDecBufChkCfg" where
  "mpp_sys_dec_buf_chk_proc soc odd_256 cfg =
     (if sc_type cfg = MPP_VIDEO_CodingUnused then (MPP_NOK, cfg)
      else if MPP_FRAME_FMT_IS_FBC (chk_fmt cfg) then (MPP_OK, dec_buf_chk_fbc soc odd_256 cfg)
      else (MPP_OK, dec_buf_chk_raster soc cfg))"

definition mpp_sys_cfg_ioctl ::
  "RockchipSocType \<Rightarrow> bool \<Rightarrow> MppSysDecBufChkCfg option \<Rightarrow> mpp_ret \<times> MppSysDecBufChkCfg option" where
  "mpp_sys_cfg_ioctl soc odd_256 p =
     (case p of
        None \<Rightarrow> (MPP_ERR_NULL_PTR, None)
      | Some cfg \<Rightarrow>
          (MPP_OK, Some (if sc_enable cfg \<noteq> 0
                         then (snd (mpp_sys_dec_buf_chk_proc soc odd_256 cfg))\<lparr>sc_enable := 0\<rparr> else cfg)))"

section \<open>Wrappers for single results\<close>

definition sys_cfg_zero :: MppSysDecBufChkCfg where
  "sys_cfg_zero =
     \<lparr>sc_change = 0, sc_enable = 0, sc_type = MPP_VIDEO_CodingUnused, sc_fmt_codec = 0, sc_fmt_fbc = 0,
      sc_fmt_hdr = 0, sc_width = 0, sc_height = 0, sc_crop_top = 0, sc_crop_bottom = 0, sc_crop_left = 0,
      sc_crop_right = 0, sc_has_metadata = 0, sc_has_thumbnail = 0, sc_unit_size = 0, sc_cap_fbc = 0,
      sc_cap_tile = 0, sc_h_stride_by_pixel = 0, sc_h_stride_by_byte = 0, sc_v_stride = 0,
      sc_buf_total_size = 0, sc_offset_y = 0, sc_size_total = 0, sc_size_fbc_hdr = 0, sc_size_fbc_bdy = 0,
      sc_size_metadata = 0, sc_size_thumbnail = 0\<rparr>"

definition sys_cfg_run :: "RockchipSocType \<Rightarrow> bool \<Rightarrow> MppSysDecBufChkCfg \<Rightarrow> MppSysDecBufChkCfg" where
  "sys_cfg_run soc odd_256 cfg = the (snd (mpp_sys_cfg_ioctl soc odd_256 (Some cfg)))"

record MppSysCfgStHStrd =
  sh_type :: MppCodingType
  sh_fmt_fbc :: u32
  sh_width :: u32
  sh_h_stride_by_byte :: u32
  sh_h_stride_by_pixel :: u32

definition mpp_sys_cfg_st_get_h_stride :: "RockchipSocType \<Rightarrow> bool \<Rightarrow> MppSysCfgStHStrd \<Rightarrow> MppSysCfgStHStrd" where
  "mpp_sys_cfg_st_get_h_stride soc odd_256 p =
     (let cfg = sys_cfg_run soc odd_256
            (sys_cfg_zero\<lparr>sc_enable := 1, sc_type := sh_type p, sc_fmt_fbc := sh_fmt_fbc p,
                          sc_width := sh_width p, sc_h_stride_by_byte := sh_h_stride_by_byte p\<rparr>)
      in p\<lparr>sh_h_stride_by_pixel := sc_h_stride_by_pixel cfg\<rparr>)"

record MppSysCfgStHByteStrd =
  sb_type :: MppCodingType
  sb_fmt_codec :: u32
  sb_fmt_fbc :: u32
  sb_width :: u32
  sb_h_stride_by_byte :: u32

definition mpp_sys_cfg_st_get_byte_stride ::
  "RockchipSocType \<Rightarrow> bool \<Rightarrow> MppSysCfgStHByteStrd \<Rightarrow> MppSysCfgStHByteStrd" where
  "mpp_sys_cfg_st_get_byte_stride soc odd_256 p =
     (let cfg = sys_cfg_run soc odd_256
            (sys_cfg_zero\<lparr>sc_enable := 1, sc_type := sb_type p, sc_fmt_codec := sb_fmt_codec p,
                          sc_fmt_fbc := sb_fmt_fbc p, sc_width := sb_width p,
                          sc_h_stride_by_byte := sb_h_stride_by_byte p\<rparr>)
      in p\<lparr>sb_h_stride_by_byte := sc_h_stride_by_byte cfg\<rparr>)"

record MppSysCfgStVStrd =
  sv_type :: MppCodingType
  sv_fmt_fbc :: u32
  sv_height :: u32
  sv_v_stride :: u32

definition mpp_sys_cfg_st_get_v_stride :: "RockchipSocType \<Rightarrow> bool \<Rightarrow> MppSysCfgStVStrd \<Rightarrow> MppSysCfgStVStrd" where
  "mpp_sys_cfg_st_get_v_stride soc odd_256 p =
     (let cfg = sys_cfg_run soc odd_256
            (sys_cfg_zero\<lparr>sc_enable := 1, sc_type := sv_type p, sc_fmt_fbc := sv_fmt_fbc p,
                          sc_height := sv_height p, sc_v_stride := sv_v_stride p\<rparr>)
      in p\<lparr>sv_v_stride := sc_v_stride cfg\<rparr>)"

record MppSysCfgStSize =
  ss_type :: MppCodingType
  ss_fmt_codec :: u32
  ss_fmt_fbc :: u32
  ss_width :: u32
  ss_height :: u32
  ss_h_stride_by_byte :: u32
  ss_v_stride :: u32
  ss_h_stride_by_pixel :: u32
  ss_size_total :: u32
  ss_size_fbc_hdr :: u32
  ss_size_fbc_bdy :: u32

definition mpp_sys_cfg_st_get_size :: "RockchipSocType \<Rightarrow> bool \<Rightarrow> MppSysCfgStSize \<Rightarrow> MppSysCfgStSize" where
  "mpp_sys_cfg_st_get_size soc odd_256 p =
     (let cfg = sys_cfg_run soc odd_256
            (sys_cfg_zero\<lparr>sc_enable := 1, sc_type := ss_type p, sc_fmt_codec := ss_fmt_codec p,
                          sc_fmt_fbc := ss_fmt_fbc p, sc_width := ss_width p, sc_height := ss_height p,
                          sc_h_stride_by_byte := ss_h_stride_by_byte p, sc_v_stride := ss_v_stride p\<rparr>)
      in p\<lparr>ss_h_stride_by_byte := sc_h_stride_by_byte cfg, ss_h_stride_by_pixel := sc_h_stride_by_pixel cfg,
           ss_v_stride := sc_v_stride cfg, ss_size_total := sc_size_total cfg,
           ss_size_fbc_hdr := sc_size_fbc_hdr cfg, ss_size_fbc_bdy := sc_size_fbc_bdy cfg\<rparr>)"

section \<open>Bounds\<close>

text \<open>\<open>within x r d\<close>: the aligned value \<open>r\<close> is at least \<open>x\<close> and exceeds it by at most \<open>d\<close>.\<close>

definition within :: "u32 \<Rightarrow> u32 \<Rightarrow> nat \<Rightarrow> bool" where
  "within x r d \<longleftrightarrow> unat x \<le> unat r \<and> unat r \<le> unat x + d"

lemma withinD: "within x r d \<Longrightarrow> unat x \<le> unat r" "within x r d \<Longrightarrow> unat r \<le> unat x + d"
  by (simp_all add: within_def)

lemma within_trans: "within x y d \<Longrightarrow> within y z e \<Longrightarrow> d + e \<le> f \<Longrightarrow> within x z f"
  by (simp add: within_def)

lemma within_mono: "within x y d \<Longrightarrow> d \<le> e \<Longrightarrow> within x y e"
  by (simp add: within_def)

lemma within_align:
  assumes "unat x < 2 ^ 31"
  shows "within x (MPP_ALIGN x 8) 7" "within x (MPP_ALIGN x 16) 15" "within x (MPP_ALIGN x 64) 63"
    "within x (MPP_ALIGN x 128) 127" "within x (MPP_ALIGN x 256) 255"
  using assms align_bounds(1,2) [of 3 x] align_bounds(1,2) [of 4 x] align_bounds(1,2) [of 6 x]
    align_bounds(1,2) [of 7 x] align_bounds(1,2) [of 8 x]
  by (simp_all add: within_def)

lemma within_256_odd:
  assumes "unat x < 2 ^ 31"
  shows "within x (MPP_ALIGN x 256 OR 256) 511"
  using within_align(5) [OF assms] unat_or_bounds [of "MPP_ALIGN x 256" 256]
  by (simp add: within_def)

lemma within_128_odd_64:
  assumes "unat x < 2 ^ 31 - 1000"
  shows "within x (mpp_sys_cfg_align SYS_CFG_ALIGN_128_ODD_PLUS_64 x) 511"
proof -
  let ?v = "MPP_ALIGN x 64"
  have v: "within x ?v 63"
    using assms within_align(3) [of x] by simp
  then have "unat ?v < 2 ^ 31"
    using assms by (simp add: within_def)
  then have w: "within ?v (MPP_ALIGN ?v 128) 127"
    by (rule within_align(4))
  let ?o = "MPP_ALIGN ?v 128 OR 128"
  have o: "within ?v ?o 255"
    using w unat_or_bounds [of "MPP_ALIGN ?v 128" 128] by (simp add: within_def)
  then have "unat ?o + 64 < 2 ^ 32"
    using v assms by (simp add: within_def)
  then have "unat (?o + 64) = unat ?o + 64"
    by (subst unat_add_lem [THEN iffD1]) simp_all
  then show ?thesis
    using v o by (simp add: within_def Let_def)
qed

lemma within_raster_byte:
  assumes "unat x < 2 ^ 30"
  shows "within x (raster_byte soc t x) 511"
proof -
  have x: "unat x < 2 ^ 31" "unat x < 2 ^ 31 - 1000"
    using assms by simp_all
  note b = within_align [OF x(1)] within_256_odd [OF x(1)] within_128_odd_64 [OF x(2)]
  show ?thesis
    by (cases t; cases "soc = ROCKCHIP_SOC_RK3576"; cases "soc = ROCKCHIP_SOC_RK3588")
      (use b in \<open>simp_all add: raster_byte_def within_mono [of x _ 15 511] within_mono [of x _ 63 511]
         within_mono [of x _ 127 511]\<close>)
qed

lemma within_raster_perf:
  assumes "unat b < 2 ^ 30"
  shows "within b (snd (raster_perf soc cfg p b)) 511"
  using assms within_256_odd [of b] within_128_odd_64 [of b]
  by (auto simp: raster_perf_def Let_def within_def)

lemma within_refl: "within x x d"
  by (simp add: within_def)

lemma within_raster_aligned:
  assumes "unat (sc_width cfg) < 2 ^ 30" and "unat (sc_height cfg) < 2 ^ 30"
  shows "within (sc_width cfg) (fst (raster_aligned soc cfg)) 63"
    and "within (sc_height cfg) (snd (raster_aligned soc cfg)) 63"
proof -
  have w: "unat (sc_width cfg) < 2 ^ 31" and h: "unat (sc_height cfg) < 2 ^ 31"
    using assms by simp_all
  note bw = within_align [OF w] within_refl [of "sc_width cfg" 63]
  note bh = within_align [OF h]
  show "within (sc_width cfg) (fst (raster_aligned soc cfg)) 63"
    by (cases "sc_type cfg") (use bw in \<open>simp_all add: raster_aligned_def Let_def within_mono [of "sc_width cfg" _ 15 63]\<close>)
  show "within (sc_height cfg) (snd (raster_aligned soc cfg)) 63"
    by (cases "sc_type cfg"; cases "soc = ROCKCHIP_SOC_RK3399"; cases "soc = ROCKCHIP_SOC_RK3588")
      (use bh in \<open>simp_all add: raster_aligned_def Let_def within_mono [of "sc_height cfg" _ 7 63]
         within_mono [of "sc_height cfg" _ 15 63]\<close>)
qed

text \<open>The planes of a format, in halves of the luma plane.\<close>

definition plane_halves :: "u32 \<Rightarrow> nat" where
  "plane_halves fmt =
     (if fmt \<in> {MPP_FMT_YUV420SP, MPP_FMT_YUV420SP_10BIT, MPP_FMT_YUV420P, MPP_FMT_YUV420SP_VU} then 3
      else if fmt \<in> {MPP_FMT_YUV422SP, MPP_FMT_YUV422SP_10BIT, MPP_FMT_YUV422P, MPP_FMT_YUV422SP_VU,
                     MPP_FMT_YUV422_YUYV, MPP_FMT_YUV422_YVYU, MPP_FMT_YUV422_UYVY,
                     MPP_FMT_YUV422_VYUY, MPP_FMT_YUV440SP, MPP_FMT_YUV411SP} then 4
      else if fmt \<in> {MPP_FMT_YUV444SP, MPP_FMT_YUV444P, MPP_FMT_YUV444SP_10BIT} then 6
      else 2)"

lemma unat_mult_small: "unat (x :: u32) * unat y < 2 ^ 32 \<Longrightarrow> unat (x * y) = unat x * unat y"
  by (rule unat_mult_lem [THEN iffD1]) simp

lemma len_align:
  assumes "unat x < 450000000"
  shows "3 * unat x \<le> 2 * unat (mpp_sys_cfg_align SYS_CFG_ALIGN_LEN_DEFAULT x)"
    "4 * unat x \<le> 2 * unat (mpp_sys_cfg_align SYS_CFG_ALIGN_LEN_420 x)"
    "4 * unat x \<le> 2 * unat (mpp_sys_cfg_align SYS_CFG_ALIGN_LEN_422 x)"
    "6 * unat x \<le> 2 * unat (mpp_sys_cfg_align SYS_CFG_ALIGN_LEN_444 x)"
    "4 * unat x \<le> 2 * unat (mpp_sys_cfg_align SYS_CFG_ALIGN_LEN_422_AVC x)"
    "4 * unat x \<le> 2 * unat (mpp_sys_cfg_align SYS_CFG_ALIGN_LEN_420_AV1 x)"
    "4 * unat x \<le> 2 * unat (mpp_sys_cfg_align SYS_CFG_ALIGN_LEN_422_AV1 x)"
proof -
  have x: "unat x < 2 ^ 31"
    using assms by simp
  note a = within_align [OF x, unfolded within_def]
  have m: "unat (c * MPP_ALIGN x k) = unat c * unat (MPP_ALIGN x k)"
    if "unat c \<le> 9" "unat (MPP_ALIGN x k) \<le> unat x + 127" for c k
    by (rule unat_mult_small, rule le_less_trans [OF mult_le_mono [OF that]]) (use assms in simp)
  have half5: "2 * y \<le> 5 * y div 2" for y :: nat
    by (simp add: less_eq_div_iff_mult_less_eq)
  show "3 * unat x \<le> 2 * unat (mpp_sys_cfg_align SYS_CFG_ALIGN_LEN_DEFAULT x)"
  proof -
    obtain n where n: "unat (MPP_ALIGN x 16) = 16 * n"
      using align_bounds(3) [of 4 x] x by (auto elim: dvdE)
    have "24 * n \<le> 144 * n div 5"
      by (simp add: less_eq_div_iff_mult_less_eq)
    then show ?thesis
      using a m [of 9 16] n by (simp add: unat_div_distrib)
  qed
  show "4 * unat x \<le> 2 * unat (mpp_sys_cfg_align SYS_CFG_ALIGN_LEN_420 x)"
    "4 * unat x \<le> 2 * unat (mpp_sys_cfg_align SYS_CFG_ALIGN_LEN_422 x)"
    using a m [of 2 16] by simp_all
  show "6 * unat x \<le> 2 * unat (mpp_sys_cfg_align SYS_CFG_ALIGN_LEN_444 x)"
    using a m [of 3 16] by simp
  show "4 * unat x \<le> 2 * unat (mpp_sys_cfg_align SYS_CFG_ALIGN_LEN_422_AVC x)"
    using a m [of 5 16] half5 [of "unat (MPP_ALIGN x 16)"] by (simp add: unat_div_distrib)
  show "4 * unat x \<le> 2 * unat (mpp_sys_cfg_align SYS_CFG_ALIGN_LEN_420_AV1 x)"
    using a m [of 2 128] by simp
  show "4 * unat x \<le> 2 * unat (mpp_sys_cfg_align SYS_CFG_ALIGN_LEN_422_AV1 x)"
    using a m [of 5 64] half5 [of "unat (MPP_ALIGN x 64)"] by (simp add: unat_div_distrib)
qed

lemma raster_size_planes:
  assumes "unat x < 450000000"
  shows "plane_halves fmt * unat x \<le> 2 * unat (raster_size t fmt x)"
proof -
  note l = len_align [OF assms]
  have "unat (x * 3 div 2) = unat x * 3 div 2"
    using assms by (simp add: unat_div_distrib unat_mult_small)
  with l show ?thesis
    unfolding raster_size_def plane_halves_def
    by (auto simp del: mpp_sys_cfg_align.simps)
qed

section \<open>Multiples\<close>

text \<open>The low bits of an aligned value.\<close>

lemma take_bit_align: "take_bit k (y AND NOT (mask k)) = (0 :: u32)"
  by (rule bit_word_eqI) (simp add: bit_simps)

lemma align_low [simp]:
  "take_bit 4 (MPP_ALIGN v 16) = 0" "take_bit 6 (MPP_ALIGN v 64) = 0" "take_bit 7 (MPP_ALIGN v 128) = 0"
  "take_bit 8 (MPP_ALIGN v 256) = 0"
  using take_bit_align [of 4] take_bit_align [of 6] take_bit_align [of 7] take_bit_align [of 8]
  by (simp_all add: MPP_ALIGN_def mask_eq_exp_minus_1)

lemma take_bit_lower: "take_bit n x = a \<Longrightarrow> m \<le> n \<Longrightarrow> take_bit m x = take_bit m a" for x :: u32
  by auto

lemma or_exp_low:
  assumes "take_bit k x = 0"
  shows "take_bit (Suc k) (x OR 2 ^ k) = (2 ^ k :: u32)"
proof (rule bit_word_eqI)
  fix n
  have "\<not> bit x n" if "n < k"
    using assms that by (metis bit_take_bit_iff bit_0_eq bot_apply bot_bool_def)
  then show "bit (take_bit (Suc k) (x OR 2 ^ k)) n = bit (2 ^ k :: u32) n"
    if "n < LENGTH(32)"
    using that by (cases n k rule: linorder_cases) (simp_all add: bit_take_bit_iff bit_or_iff bit_exp_iff)
qed

lemma or_low: "take_bit 8 x = 0 \<Longrightarrow> take_bit 9 (x OR 256) = 256" "take_bit 7 x = 0 \<Longrightarrow> take_bit 8 (x OR 128) = 128"
  for x :: u32
  using or_exp_low [of 8 x] or_exp_low [of 7 x] by simp_all

lemma low_mod: "unat (x :: u32) mod 2 ^ k = unat (take_bit k x)"
  by (simp only: unsigned_take_bit_eq take_bit_nat_def)

lemma add_64_low:
  fixes x :: u32
  assumes "take_bit 8 x = 128"
  shows "take_bit 8 (x + 64) = 192"
proof -
  have x: "unat x mod 256 = 128"
    using low_mod [of x 8] assms by simp
  have "unat (x + 64) mod 256 = ((unat x + 64) mod 2 ^ 32) mod 256"
    by (simp add: unat_word_ariths)
  also have "\<dots> = (unat x mod 256 + 64) mod 256"
    by (simp add: mod_mod_cancel mod_simps)
  finally have "unat (take_bit 8 (x + 64)) = unat (192 :: u32)"
    using low_mod [of "x + 64" 8] x by simp
  then show ?thesis
    by (simp only: word_unat_eq_iff)
qed

lemma odd_low:
  "take_bit 9 (mpp_sys_cfg_align SYS_CFG_ALIGN_256_ODD v) = 256"
  "take_bit 8 (mpp_sys_cfg_align SYS_CFG_ALIGN_128_ODD_PLUS_64 v) = 192"
proof -
  show "take_bit 9 (mpp_sys_cfg_align SYS_CFG_ALIGN_256_ODD v) = 256"
    using or_low(1) by simp
  have "take_bit 8 (MPP_ALIGN v 64) = 192" if "(MPP_ALIGN v 64 - 64) mod 256 = 128"
  proof -
    have "take_bit 8 (MPP_ALIGN v 64 - 64) = 128"
      using that by (simp add: take_bit_eq_mod)
    from add_64_low [OF this] show ?thesis by simp
  qed
  moreover have "take_bit 8 ((MPP_ALIGN (MPP_ALIGN v 64) 128 OR 128) + 64) = 192"
    by (rule add_64_low [OF or_low(2)]) simp
  ultimately show "take_bit 8 (mpp_sys_cfg_align SYS_CFG_ALIGN_128_ODD_PLUS_64 v) = 192"
    by (simp add: Let_def)
qed

lemma odd_lower:
  "take_bit 4 (mpp_sys_cfg_align SYS_CFG_ALIGN_256_ODD v) = 0" "take_bit 6 (mpp_sys_cfg_align SYS_CFG_ALIGN_256_ODD v) = 0"
  "take_bit 4 (mpp_sys_cfg_align SYS_CFG_ALIGN_128_ODD_PLUS_64 v) = 0"
  "take_bit 6 (mpp_sys_cfg_align SYS_CFG_ALIGN_128_ODD_PLUS_64 v) = 0"
  using take_bit_lower [OF odd_low(1) [of v], of 4] take_bit_lower [OF odd_low(1) [of v], of 6]
    take_bit_lower [OF odd_low(2) [of v], of 4] take_bit_lower [OF odd_low(2) [of v], of 6]
  by (simp_all del: mpp_sys_cfg_align.simps)

lemma raster_byte_low:
  "take_bit 4 (raster_byte soc ctype v) = 0"
  "ctype \<in> {MPP_VIDEO_CodingHEVC, MPP_VIDEO_CodingVP9} \<Longrightarrow> take_bit 6 (raster_byte soc ctype v) = 0"
proof -
  have a: "take_bit 4 (MPP_ALIGN v 64) = 0" "take_bit 4 (MPP_ALIGN v 128) = 0"
    using take_bit_lower [OF align_low(2) [of v], of 4] take_bit_lower [OF align_low(3) [of v], of 4] by simp_all
  show "take_bit 4 (raster_byte soc ctype v) = 0"
    unfolding raster_byte_def by (cases ctype) (use a odd_lower in \<open>simp_all del: mpp_sys_cfg_align.simps(7,8)\<close>)
  show "take_bit 6 (raster_byte soc ctype v) = 0" if "ctype \<in> {MPP_VIDEO_CodingHEVC, MPP_VIDEO_CodingVP9}"
    using that odd_lower by (auto simp: raster_byte_def simp del: mpp_sys_cfg_align.simps(7,8))
qed

definition odd_256_socs :: "RockchipSocType set" where
  "odd_256_socs = {ROCKCHIP_SOC_RK3399, ROCKCHIP_SOC_RK3568, ROCKCHIP_SOC_RK3562, ROCKCHIP_SOC_RK3528,
     ROCKCHIP_SOC_RK3588}"

lemma raster_perf_low:
  assumes "b = snd (raster_perf soc cfg ap ab)"
  shows "take_bit 4 ab = 0 \<Longrightarrow> take_bit 4 b = 0" and "take_bit 6 ab = 0 \<Longrightarrow> take_bit 6 b = 0"
    and "soc = ROCKCHIP_SOC_RK3576 \<Longrightarrow> sc_type cfg \<noteq> MPP_VIDEO_CodingMJPEG \<Longrightarrow> take_bit 8 b = 192"
    and "soc \<in> odd_256_socs \<Longrightarrow> sc_type cfg \<noteq> MPP_VIDEO_CodingMJPEG \<Longrightarrow> b > 1920 \<Longrightarrow> take_bit 9 b = 256"
proof -
  have c: "b = ab \<or> (\<exists>v. b = mpp_sys_cfg_align SYS_CFG_ALIGN_256_ODD v) \<or>
      (\<exists>v. b = mpp_sys_cfg_align SYS_CFG_ALIGN_128_ODD_PLUS_64 v)"
    unfolding assms raster_perf_def Let_def by (auto simp del: mpp_sys_cfg_align.simps)
  show "take_bit 4 ab = 0 \<Longrightarrow> take_bit 4 b = 0" and "take_bit 6 ab = 0 \<Longrightarrow> take_bit 6 b = 0"
    using c odd_lower by auto
  show "take_bit 8 b = 192" if "soc = ROCKCHIP_SOC_RK3576" "sc_type cfg \<noteq> MPP_VIDEO_CodingMJPEG"
    using that odd_low(2) by (simp add: assms raster_perf_def Let_def del: mpp_sys_cfg_align.simps)
  show "take_bit 9 b = 256" if "soc \<in> odd_256_socs" "sc_type cfg \<noteq> MPP_VIDEO_CodingMJPEG" "b > 1920"
    using that odd_low(1)
    by (auto simp: assms raster_perf_def Let_def odd_256_socs_def simp del: mpp_sys_cfg_align.simps split: if_splits)
qed

text \<open>When the bits of a row, before alignment of the stride, fill whole bytes.\<close>

definition whole_bytes :: "MppSysDecBufChkCfg \<Rightarrow> bool" where
  "whole_bytes cfg \<longleftrightarrow> chk_depth cfg = 8 \<or> unat (sc_width cfg) mod 4 = 0 \<or>
     sc_type cfg \<in> {MPP_VIDEO_CodingHEVC, MPP_VIDEO_CodingAVC, MPP_VIDEO_CodingAVS2}"

lemma whole_bytes_dvd:
  assumes "whole_bytes cfg"
  shows "8 dvd unat (fst (raster_aligned soc cfg)) * unat (chk_depth cfg)"
proof (cases "chk_depth cfg = 8")
  case False
  then have d: "unat (chk_depth cfg) = 10"
    by (simp add: chk_depth_def split: if_splits)
  have "take_bit 2 (MPP_ALIGN v 64) = 0" "take_bit 2 (MPP_ALIGN v 16) = 0" for v
    using take_bit_lower [OF align_low(2) [of v], of 2] take_bit_lower [OF align_low(1) [of v], of 2] by simp_all
  then have "unat (MPP_ALIGN v 64) mod 4 = 0" "unat (MPP_ALIGN v 16) mod 4 = 0" for v
    using low_mod [of "MPP_ALIGN v 64" 2] low_mod [of "MPP_ALIGN v 16" 2] by simp_all
  then have "unat (fst (raster_aligned soc cfg)) mod 4 = 0"
    using assms False by (cases "sc_type cfg") (simp_all add: whole_bytes_def raster_aligned_def Let_def)
  then show ?thesis
    unfolding d by presburger
qed simp

lemma raster_height_low: "take_bit 3 (snd (raster_aligned soc cfg)) = 0"
proof -
  have "take_bit 3 (MPP_ALIGN v 8) = 0" for v
    using take_bit_align [of 3] by (simp add: MPP_ALIGN_def mask_eq_exp_minus_1)
  moreover have "take_bit 3 (MPP_ALIGN v 16) = 0" "take_bit 3 (MPP_ALIGN v 64) = 0" for v
    using take_bit_lower [OF align_low(1) [of v], of 3] take_bit_lower [OF align_low(2) [of v], of 3] by simp_all
  ultimately show ?thesis
    by (cases "sc_type cfg") (simp_all add: raster_aligned_def Let_def)
qed

section \<open>Properties\<close>



text \<open>
  the bytes of a 10-bit row are computed with a truncating division, so for codecs whose
  width is not aligned first a row may not fit its stride: 26 pixels of 10 bits need 260 bits,
  and the stride is 32 bytes.
\<close>

theorem ten_bit_row_truncated:
  "let cfg = sys_cfg_zero\<lparr>sc_enable := 1, sc_type := MPP_VIDEO_CodingAV1, sc_fmt_codec := MPP_FMT_YUV420SP_10BIT,
                          sc_width := 26, sc_height := 16\<rparr>
   in 8 * unat (sc_h_stride_by_byte (snd (mpp_sys_dec_buf_chk_proc ROCKCHIP_SOC_RK3588 False cfg)))
      < unat (sc_width cfg) * unat (chk_depth cfg)"
  by code_simp

end
