(* ===== verification/Mpp_Frame.thy ===== *)
theory Mpp_Frame
  imports Mpp_Sys_Cfg
begin

text \<open>
  The frame object of \<open>mpp/base/mpp_frame.c\<close> and \<open>inc/mpp_frame_impl.h\<close>. A frame is a record; a
  \<open>MppFrame\<close> pointer that may be null is an \<open>option\<close>. Pointers to buffers, meta data and tasks are
  identifiers, and \<open>refs\<close> holds the reference counts of the buffers and the meta data that frames
  share. Allocation of a frame succeeds. The \<open>name\<close> tag, which \<open>check_is_mpp_frame\<close> compares, holds
  for every value of the record type, and the \<open>stopwatch\<close>, a timing aid, is left out.
\<close>

section \<open>Reference counts\<close>

record refs =
  buf_ref :: "nat \<Rightarrow> int"
  meta_ref :: "nat \<Rightarrow> int"

definition frame_buffer_ref_inc :: "nat \<Rightarrow> refs \<Rightarrow> refs" where
  "frame_buffer_ref_inc b r = r\<lparr>buf_ref := (buf_ref r)(b := buf_ref r b + 1)\<rparr>"

text \<open>A count that is not positive is reported and left alone.\<close>

definition frame_buffer_ref_dec :: "nat \<Rightarrow> refs \<Rightarrow> mpp_ret \<times> refs" where
  "frame_buffer_ref_dec b r =
     (if buf_ref r b \<le> 0 then (MPP_NOK, r)
      else (MPP_OK, r\<lparr>buf_ref := (buf_ref r)(b := buf_ref r b - 1)\<rparr>))"

definition frame_buffer_inc_ref :: "nat option \<Rightarrow> refs \<Rightarrow> mpp_ret \<times> refs" where
  "frame_buffer_inc_ref b r =
     (case b of None \<Rightarrow> (MPP_ERR_UNKNOW, r) | Some i \<Rightarrow> (MPP_OK, frame_buffer_ref_inc i r))"

definition frame_buffer_put :: "nat option \<Rightarrow> refs \<Rightarrow> mpp_ret \<times> refs" where
  "frame_buffer_put b r = (case b of None \<Rightarrow> (MPP_ERR_UNKNOW, r) | Some i \<Rightarrow> frame_buffer_ref_dec i r)"

definition mpp_meta_inc_ref :: "nat option \<Rightarrow> refs \<Rightarrow> refs" where
  "mpp_meta_inc_ref m r =
     (case m of None \<Rightarrow> r | Some i \<Rightarrow> r\<lparr>meta_ref := (meta_ref r)(i := meta_ref r i + 1)\<rparr>)"

definition mpp_meta_put :: "nat option \<Rightarrow> refs \<Rightarrow> refs" where
  "mpp_meta_put m r =
     (case m of None \<Rightarrow> r | Some i \<Rightarrow> r\<lparr>meta_ref := (meta_ref r)(i := meta_ref r i - 1)\<rparr>)"

section \<open>Frames\<close>

record MppFrameImpl =
  fr_width :: u32
  fr_height :: u32
  fr_hor_stride :: u32
  fr_ver_stride :: u32
  fr_hor_stride_pixel :: u32
  fr_fbc_hdr_stride :: u32
  fr_offset_x :: u32
  fr_offset_y :: u32
  fr_mode :: u32
  fr_discard :: u32
  fr_viewid :: u32
  fr_poc :: u32
  fr_pts :: int
  fr_dts :: int
  fr_eos :: u32
  fr_info_change :: u32
  fr_errinfo :: u32
  fr_color_range :: nat
  fr_color_primaries :: nat
  fr_color_trc :: nat
  fr_colorspace :: nat
  fr_chroma_location :: nat
  fr_fmt :: u32
  fr_sar :: "int \<times> int"
  fr_mastering_display :: "u32 list"
  fr_content_light :: "u32 list"
  fr_hdr_dynamic_meta :: "nat option"
  fr_buffer :: "nat option"
  fr_buf_size :: u64
  fr_task :: "nat option"
  fr_meta :: "nat option"
  fr_fbc_offset :: u32
  fr_fbc_size :: u64
  fr_thumbnail_en :: u32
  fr_status :: u64

text \<open>
  A frame from the pool is zeroed; the unspecified colour values are the enumerators
  \<open>MPP_FRAME_RANGE_UNSPECIFIED = 0\<close> and, for the other three, 2.
\<close>

definition frame_zero :: MppFrameImpl where
  "frame_zero =
     \<lparr>fr_width = 0, fr_height = 0, fr_hor_stride = 0, fr_ver_stride = 0, fr_hor_stride_pixel = 0,
      fr_fbc_hdr_stride = 0, fr_offset_x = 0, fr_offset_y = 0, fr_mode = 0, fr_discard = 0,
      fr_viewid = 0, fr_poc = 0, fr_pts = 0, fr_dts = 0, fr_eos = 0, fr_info_change = 0,
      fr_errinfo = 0, fr_color_range = 0, fr_color_primaries = 0, fr_color_trc = 0, fr_colorspace = 0,
      fr_chroma_location = 0, fr_fmt = 0, fr_sar = (0, 0), fr_mastering_display = [],
      fr_content_light = [], fr_hdr_dynamic_meta = None, fr_buffer = None, fr_buf_size = 0,
      fr_task = None, fr_meta = None, fr_fbc_offset = 0, fr_fbc_size = 0, fr_thumbnail_en = 0,
      fr_status = 0\<rparr>"

definition setup_mpp_frame_defaults :: "MppFrameImpl \<Rightarrow> MppFrameImpl" where
  "setup_mpp_frame_defaults f =
     f\<lparr>fr_color_range := 0, fr_color_primaries := 2, fr_color_trc := 2, fr_colorspace := 2\<rparr>"

definition mpp_frame_init :: MppFrameImpl where
  "mpp_frame_init = setup_mpp_frame_defaults frame_zero"

definition mpp_frame_deinit :: "MppFrameImpl option \<Rightarrow> refs \<Rightarrow> mpp_ret \<times> refs" where
  "mpp_frame_deinit frame r =
     (case frame of
        None \<Rightarrow> (MPP_ERR_NULL_PTR, r)
      | Some p \<Rightarrow> (MPP_OK, mpp_meta_put (fr_meta p)
                            (if fr_buffer p \<noteq> None then snd (frame_buffer_put (fr_buffer p) r) else r)))"

definition mpp_frame_set_buffer :: "MppFrameImpl \<Rightarrow> nat option \<Rightarrow> refs \<Rightarrow> MppFrameImpl \<times> refs" where
  "mpp_frame_set_buffer p b r =
     (if fr_buffer p \<noteq> b then
        (let r1 = (if b \<noteq> None then snd (frame_buffer_inc_ref b r) else r);
             r2 = (if fr_buffer p \<noteq> None then snd (frame_buffer_put (fr_buffer p) r1) else r1)
         in (p\<lparr>fr_buffer := b\<rparr>, r2))
      else (p, r))"

definition mpp_frame_has_meta :: "MppFrameImpl \<Rightarrow> bool" where
  "mpp_frame_has_meta p \<longleftrightarrow> fr_meta p \<noteq> None"

definition mpp_frame_set_meta :: "MppFrameImpl \<Rightarrow> nat option \<Rightarrow> refs \<Rightarrow> MppFrameImpl \<times> refs" where
  "mpp_frame_set_meta p m r = (p\<lparr>fr_meta := m\<rparr>, mpp_meta_put (fr_meta p) r)"

definition mpp_frame_copy :: "MppFrameImpl \<Rightarrow> MppFrameImpl \<Rightarrow> refs \<Rightarrow> MppFrameImpl \<times> refs" where
  "mpp_frame_copy dst src r = (src, mpp_meta_inc_ref (fr_meta src) (mpp_meta_put (fr_meta dst) r))"

text \<open>\<open>dup_meta\<close> is the object \<open>mpp_meta_dup\<close> makes of the given one.\<close>

definition mpp_frame_dup :: "(nat \<Rightarrow> nat) \<Rightarrow> MppFrameImpl \<Rightarrow> MppFrameImpl" where
  "mpp_frame_dup dup_meta src =
     (case fr_meta src of None \<Rightarrow> src | Some m \<Rightarrow> src\<lparr>fr_meta := Some (dup_meta m)\<rparr>)"

definition mpp_frame_info_cmp :: "MppFrameImpl \<Rightarrow> MppFrameImpl \<Rightarrow> mpp_ret" where
  "mpp_frame_info_cmp f0 f1 =
     (if fr_width f0 = fr_width f1 \<and> fr_height f0 = fr_height f1 \<and>
         fr_hor_stride f0 = fr_hor_stride f1 \<and> fr_ver_stride f0 = fr_ver_stride f1 \<and>
         fr_fmt f0 AND NOT MPP_FRAME_HDR_MASK = fr_fmt f1 AND NOT MPP_FRAME_HDR_MASK \<and>
         fr_buf_size f0 = fr_buf_size f1
      then MPP_OK else MPP_NOK)"

definition mpp_frame_get_fbc_offset :: "MppFrameImpl \<Rightarrow> u32 \<times> MppFrameImpl" where
  "mpp_frame_get_fbc_offset p =
     (if MPP_FRAME_FMT_IS_FBC (fr_fmt p) then
        (let fbc_version = fr_fmt p AND MPP_FRAME_FBC_MASK;
             off = (if fbc_version = MPP_FRAME_FBC_AFBC_V1
                    then MPP_ALIGN (MPP_ALIGN (fr_width p) 16 * MPP_ALIGN (fr_height p) 16 div 16) 0x1000
                    else 0)
         in (off, p\<lparr>fr_fbc_offset := off\<rparr>))
      else (fr_fbc_offset p, p))"

definition mpp_frame_get_fbc_stride :: "MppFrameImpl \<Rightarrow> u32" where
  "mpp_frame_get_fbc_stride p = MPP_ALIGN (fr_width p) 16"

end
