(* ===== verification/Mpp_Buf_Slot.thy ===== *)
theory Mpp_Buf_Slot
  imports Mpp_Frame Mpp_List
begin

text \<open>
  The decoded picture buffer slots of \<open>mpp/base/mpp_buf_slot.c\<close>: the status of every slot, the
  queues, the operation log, the layout information and the operations on them.

  \<open>MppBufSlotsImpl\<close> is a record. Its \<open>slots\<close> array is a list, \<open>None\<close> before the first setup; its list
  links are the linked lists of \<open>Mpp_List\<close> with one head node per queue and one node per entry; the
  reference counts of buffers and meta data are carried along. Every operation holds the lock of
  the object from beginning to end, so operations are atomic. A null handle is refused by every
  operation before it does anything; the models take the object itself. \<open>slot_assert\<close> is the fault
  \<open>Aborted\<close>. Memory of \<open>malloc\<close> and \<open>realloc\<close> has arbitrary contents, passed as an argument.
\<close>

section \<open>Data\<close>

datatype SlotUsageType = SLOT_CODEC_READY | SLOT_CODEC_USE | SLOT_HAL_INPUT | SLOT_HAL_OUTPUT | SLOT_QUEUE_USE

datatype SlotQueueType = QUEUE_OUTPUT | QUEUE_DISPLAY | QUEUE_DEINTERLACE | QUEUE_COLOR_CONVERT

datatype MppBufSlotOps =
    SLOT_INIT | SLOT_SET_ON_USE | SLOT_CLR_ON_USE | SLOT_SET_NOT_READY | SLOT_CLR_NOT_READY
  | SLOT_SET_CODEC_READY | SLOT_CLR_CODEC_READY | SLOT_SET_CODEC_USE | SLOT_CLR_CODEC_USE
  | SLOT_SET_HAL_INPUT | SLOT_CLR_HAL_INPUT | SLOT_SET_HAL_OUTPUT | SLOT_CLR_HAL_OUTPUT
  | SLOT_SET_QUEUE_USE | SLOT_CLR_QUEUE_USE
  | SLOT_ENQUEUE_OUTPUT | SLOT_ENQUEUE_DISPLAY | SLOT_ENQUEUE_DEINTER | SLOT_ENQUEUE_CONVERT
  | SLOT_DEQUEUE_OUTPUT | SLOT_DEQUEUE_DISPLAY | SLOT_DEQUEUE_DEINTER | SLOT_DEQUEUE_CONVERT
  | SLOT_SET_EOS | SLOT_CLR_EOS | SLOT_SET_FRAME | SLOT_CLR_FRAME | SLOT_SET_BUFFER | SLOT_CLR_BUFFER

fun set_flag_op :: "SlotUsageType \<Rightarrow> MppBufSlotOps" where
  "set_flag_op SLOT_CODEC_READY = SLOT_SET_CODEC_READY"
| "set_flag_op SLOT_CODEC_USE = SLOT_SET_CODEC_USE"
| "set_flag_op SLOT_HAL_INPUT = SLOT_SET_HAL_INPUT"
| "set_flag_op SLOT_HAL_OUTPUT = SLOT_SET_HAL_OUTPUT"
| "set_flag_op SLOT_QUEUE_USE = SLOT_SET_QUEUE_USE"

fun clr_flag_op :: "SlotUsageType \<Rightarrow> MppBufSlotOps" where
  "clr_flag_op SLOT_CODEC_READY = SLOT_CLR_CODEC_READY"
| "clr_flag_op SLOT_CODEC_USE = SLOT_CLR_CODEC_USE"
| "clr_flag_op SLOT_HAL_INPUT = SLOT_CLR_HAL_INPUT"
| "clr_flag_op SLOT_HAL_OUTPUT = SLOT_CLR_HAL_OUTPUT"
| "clr_flag_op SLOT_QUEUE_USE = SLOT_CLR_QUEUE_USE"

text \<open>\<open>SLOT_ENQUEUE + type\<close> and \<open>SLOT_DEQUEUE + type\<close>.\<close>

fun enqueue_op :: "SlotQueueType \<Rightarrow> MppBufSlotOps" where
  "enqueue_op QUEUE_OUTPUT = SLOT_ENQUEUE_OUTPUT"
| "enqueue_op QUEUE_DISPLAY = SLOT_ENQUEUE_DISPLAY"
| "enqueue_op QUEUE_DEINTERLACE = SLOT_ENQUEUE_DEINTER"
| "enqueue_op QUEUE_COLOR_CONVERT = SLOT_ENQUEUE_CONVERT"

fun dequeue_op :: "SlotQueueType \<Rightarrow> MppBufSlotOps" where
  "dequeue_op QUEUE_OUTPUT = SLOT_DEQUEUE_OUTPUT"
| "dequeue_op QUEUE_DISPLAY = SLOT_DEQUEUE_DISPLAY"
| "dequeue_op QUEUE_DEINTERLACE = SLOT_DEQUEUE_DEINTER"
| "dequeue_op QUEUE_COLOR_CONVERT = SLOT_DEQUEUE_CONVERT"

text \<open>The bit fields of the status word, at their widths.\<close>

record SlotStatus =
  on_used :: bool
  not_ready :: bool
  codec_use :: bool
  hal_output :: "2 word"
  hal_use :: "8 word"
  queue_use :: "5 word"
  st_eos :: bool
  has_buffer :: bool
  has_frame :: bool

definition status_zero :: SlotStatus where
  "status_zero = \<lparr>on_used = False, not_ready = False, codec_use = False, hal_output = 0, hal_use = 0,
     queue_use = 0, st_eos = False, has_buffer = False, has_frame = False\<rparr>"

record MppBufSlotLog =
  log_index :: int
  log_ops :: MppBufSlotOps
  status_in :: SlotStatus
  status_out :: SlotStatus

record MppBufSlotLogs =
  log_max_count :: u16
  log_count :: u16
  log_write :: u16
  log_read :: u16
  log_entries :: "MppBufSlotLog list"

record MppBufSlotEntry =
  se_status :: SlotStatus
  se_index :: int
  se_eos :: u32
  se_frame :: "MppFrameImpl option"
  se_buffer :: "nat option"

datatype slot_node = Queue SlotQueueType | Entry nat

record MppBufSlotsImpl =
  sl_decode_count :: u32
  sl_display_count :: u32
  sl_coding_type :: MppCodingType
  sl_info_changed :: u32
  sl_info_change_slot_idx :: int
  sl_new_count :: int
  sl_eos :: u32
  sl_dec_cfg :: "(u32 \<times> u32 \<times> u32 \<times> u32 \<times> u32) option"
  sl_sys_cfg :: MppSysDecBufChkCfg
  sl_hal_hor_align :: "u32 \<Rightarrow> u32"
  sl_hal_ver_align :: "u32 \<Rightarrow> u32"
  sl_hal_len_align :: "(u32 \<Rightarrow> u32) option"
  sl_hal_width_align :: "(u32 \<Rightarrow> u32) option"
  sl_hal_fbc_adj :: "(MppFrameImpl \<Rightarrow> MppFrameImpl) option"
  sl_buf_size :: u64
  sl_buf_count :: int
  sl_used_count :: int
  sl_align_chk_log_env :: u32
  sl_align_chk_log_en :: u32
  sl_numerator :: u32
  sl_denominator :: u32
  sl_info :: MppFrameImpl
  sl_info_set :: MppFrameImpl
  sl_links :: "slot_node links"
  sl_logs :: "MppBufSlotLogs option"
  sl_slots :: "MppBufSlotEntry list option"
  sl_callback :: "nat option"
  sl_refs :: refs

text \<open>The globals \<open>use_legacy_align\<close> and \<open>*compat_ext_fbc_hdr_256_odd\<close>, and \<open>mpp_get_soc_type ()\<close>.\<close>

record slot_env =
  env_legacy_align :: bool
  env_odd_256 :: bool
  env_soc :: RockchipSocType

section \<open>Operation log\<close>

definition buf_slot_logs_reset :: "MppBufSlotLogs \<Rightarrow> MppBufSlotLogs" where
  "buf_slot_logs_reset l = l\<lparr>log_count := 0, log_write := 0, log_read := 0\<rparr>"

definition buf_slot_logs_init :: "u32 \<Rightarrow> MppBufSlotLog list \<Rightarrow> MppBufSlotLogs option" where
  "buf_slot_logs_init max_count mem =
     (if max_count = 0 then None
      else Some (buf_slot_logs_reset
        \<lparr>log_max_count = ucast max_count, log_count = 0, log_write = 0, log_read = 0,
         log_entries = take (unat max_count) mem\<rparr>))"

definition buf_slot_logs_write ::
  "MppBufSlotLogs \<Rightarrow> int \<Rightarrow> MppBufSlotOps \<Rightarrow> SlotStatus \<Rightarrow> SlotStatus \<Rightarrow> MppBufSlotLogs" where
  "buf_slot_logs_write l index op before after =
     (let l = l\<lparr>log_entries := (log_entries l)[unat (log_write l) :=
                 \<lparr>log_index = index, log_ops = op, status_in = before, status_out = after\<rparr>]\<rparr>;
          l = l\<lparr>log_write := log_write l + 1\<rparr>;
          l = (if log_write l \<ge> log_max_count l then l\<lparr>log_write := 0\<rparr> else l)
      in if log_count l < log_max_count l then l\<lparr>log_count := log_count l + 1\<rparr>
         else (let l = l\<lparr>log_read := log_read l + 1\<rparr>
               in if log_read l \<ge> log_max_count l then l\<lparr>log_read := 0\<rparr> else l))"

text \<open>The entries in the order they are printed, and the log afterwards.\<close>

function buf_slot_logs_dump :: "MppBufSlotLogs \<Rightarrow> MppBufSlotLog list \<times> MppBufSlotLogs" where
  "buf_slot_logs_dump l =
     (if log_count l \<noteq> 0 then
        (let entry = log_entries l ! unat (log_read l);
             l = l\<lparr>log_read := log_read l + 1\<rparr>;
             l = (if log_read l \<ge> log_max_count l then l\<lparr>log_read := 0\<rparr> else l);
             (out, l) = buf_slot_logs_dump (l\<lparr>log_count := log_count l - 1\<rparr>)
         in (entry # out, l))
      else ([], l))"
  by pat_completeness auto
termination
  by (relation "measure (\<lambda>l. unat (log_count l))") (auto simp: unat_arith_simps split: if_splits)

declare buf_slot_logs_dump.simps [simp del]

text \<open>\<open>dump_slots\<close> prints the state and empties the log.\<close>

definition dump_slots :: "MppBufSlotsImpl \<Rightarrow> MppBufSlotsImpl" where
  "dump_slots impl = impl\<lparr>sl_logs := map_option (\<lambda>l. snd (buf_slot_logs_dump l)) (sl_logs impl)\<rparr>"

section \<open>Status operations\<close>

text \<open>The new status and the error flag; \<open>arg\<close> says whether the argument pointer is not null.\<close>

fun slot_status_op :: "MppBufSlotOps \<Rightarrow> bool \<Rightarrow> SlotStatus \<Rightarrow> SlotStatus \<times> bool" where
  "slot_status_op SLOT_INIT arg s = (status_zero, False)"
| "slot_status_op SLOT_SET_ON_USE arg s = (s\<lparr>on_used := True\<rparr>, False)"
| "slot_status_op SLOT_CLR_ON_USE arg s = (s\<lparr>on_used := False\<rparr>, False)"
| "slot_status_op SLOT_SET_NOT_READY arg s = (s\<lparr>not_ready := True\<rparr>, False)"
| "slot_status_op SLOT_CLR_NOT_READY arg s = (s\<lparr>not_ready := False\<rparr>, False)"
| "slot_status_op SLOT_SET_CODEC_READY arg s = (s\<lparr>not_ready := False\<rparr>, False)"
| "slot_status_op SLOT_CLR_CODEC_READY arg s = (s\<lparr>not_ready := True\<rparr>, False)"
| "slot_status_op SLOT_SET_CODEC_USE arg s = (s\<lparr>codec_use := True\<rparr>, False)"
| "slot_status_op SLOT_CLR_CODEC_USE arg s = (s\<lparr>codec_use := False\<rparr>, False)"
| "slot_status_op SLOT_SET_HAL_INPUT arg s = (s\<lparr>hal_use := hal_use s + 1\<rparr>, False)"
| "slot_status_op SLOT_CLR_HAL_INPUT arg s =
     (if hal_use s \<noteq> 0 then (s\<lparr>hal_use := hal_use s - 1\<rparr>, False) else (s, True))"
| "slot_status_op SLOT_SET_HAL_OUTPUT arg s = (s\<lparr>hal_output := hal_output s + 1, not_ready := True\<rparr>, False)"
| "slot_status_op SLOT_CLR_HAL_OUTPUT arg s =
     (let s = (if hal_output s \<noteq> 0 then s\<lparr>hal_output := hal_output s - 1\<rparr> else s)
      in (if hal_output s = 0 then s\<lparr>not_ready := False\<rparr> else s, False))"
| "slot_status_op SLOT_SET_QUEUE_USE arg s = (s\<lparr>queue_use := queue_use s + 1\<rparr>, False)"
| "slot_status_op SLOT_ENQUEUE_OUTPUT arg s = (s\<lparr>queue_use := queue_use s + 1\<rparr>, False)"
| "slot_status_op SLOT_ENQUEUE_DISPLAY arg s = (s\<lparr>queue_use := queue_use s + 1\<rparr>, False)"
| "slot_status_op SLOT_ENQUEUE_DEINTER arg s = (s\<lparr>queue_use := queue_use s + 1\<rparr>, False)"
| "slot_status_op SLOT_ENQUEUE_CONVERT arg s = (s\<lparr>queue_use := queue_use s + 1\<rparr>, False)"
| "slot_status_op SLOT_CLR_QUEUE_USE arg s =
     (if queue_use s \<noteq> 0 then (s\<lparr>queue_use := queue_use s - 1\<rparr>, False) else (s, True))"
| "slot_status_op SLOT_DEQUEUE_OUTPUT arg s =
     (if queue_use s \<noteq> 0 then (s\<lparr>queue_use := queue_use s - 1\<rparr>, False) else (s, True))"
| "slot_status_op SLOT_DEQUEUE_DISPLAY arg s =
     (if queue_use s \<noteq> 0 then (s\<lparr>queue_use := queue_use s - 1\<rparr>, False) else (s, True))"
| "slot_status_op SLOT_DEQUEUE_DEINTER arg s =
     (if queue_use s \<noteq> 0 then (s\<lparr>queue_use := queue_use s - 1\<rparr>, False) else (s, True))"
| "slot_status_op SLOT_DEQUEUE_CONVERT arg s =
     (if queue_use s \<noteq> 0 then (s\<lparr>queue_use := queue_use s - 1\<rparr>, False) else (s, True))"
| "slot_status_op SLOT_SET_EOS arg s = (s\<lparr>st_eos := True\<rparr>, False)"
| "slot_status_op SLOT_CLR_EOS arg s = (s\<lparr>st_eos := False\<rparr>, False)"
| "slot_status_op SLOT_SET_FRAME arg s = (s\<lparr>has_frame := arg\<rparr>, False)"
| "slot_status_op SLOT_CLR_FRAME arg s = (s\<lparr>has_frame := False\<rparr>, False)"
| "slot_status_op SLOT_SET_BUFFER arg s = (s\<lparr>has_buffer := arg\<rparr>, False)"
| "slot_status_op SLOT_CLR_BUFFER arg s = (s\<lparr>has_buffer := False\<rparr>, False)"

definition slot_at :: "MppBufSlotsImpl \<Rightarrow> int \<Rightarrow> MppBufSlotEntry run" where
  "slot_at impl i = (case sl_slots impl of None \<Rightarrow> Inl Null_Deref | Some es \<Rightarrow> array_get es i)"

definition put_slot :: "MppBufSlotsImpl \<Rightarrow> int \<Rightarrow> MppBufSlotEntry \<Rightarrow> MppBufSlotsImpl" where
  "put_slot impl i e = impl\<lparr>sl_slots := map_option (\<lambda>es. es[nat i := e]) (sl_slots impl)\<rparr>"

definition slot_ops_with_log ::
  "MppBufSlotsImpl \<Rightarrow> int \<Rightarrow> MppBufSlotOps \<Rightarrow> bool \<Rightarrow> MppBufSlotsImpl run" where
  "slot_ops_with_log impl i op arg =
     run_bind (slot_at impl i) (\<lambda>slot.
       let before = se_status slot;
           (status, error) = slot_status_op op arg before;
           slot = (if op = SLOT_CLR_EOS then slot\<lparr>se_eos := 0\<rparr> else slot);
           impl = put_slot impl i (slot\<lparr>se_status := status\<rparr>);
           impl = impl\<lparr>sl_logs := map_option
             (\<lambda>l. buf_slot_logs_write l (se_index slot) op before status) (sl_logs impl)\<rparr>
       in Inr (if error then dump_slots impl else impl))"

text \<open>\<open>slots[i]\<close> runs from the first entry of the array whatever \<open>pos\<close> is.\<close>

fun init_slot_entry_loop :: "MppBufSlotsImpl \<Rightarrow> int \<Rightarrow> nat \<Rightarrow> nat \<Rightarrow> MppBufSlotsImpl run" where
  "init_slot_entry_loop impl pos i 0 = Inr impl"
| "init_slot_entry_loop impl pos i (Suc n) =
     run_bind (slot_at impl (int i)) (\<lambda>slot.
       let impl = impl\<lparr>sl_links := INIT_LIST_HEAD (Entry i) (sl_links impl)\<rparr>;
           impl = put_slot impl (int i) (slot\<lparr>se_index := pos + int i, se_frame := None\<rparr>)
       in run_bind (slot_ops_with_log impl (int i) SLOT_INIT False) (\<lambda>impl.
            init_slot_entry_loop impl pos (i + 1) n))"

definition init_slot_entry :: "MppBufSlotsImpl \<Rightarrow> int \<Rightarrow> int \<Rightarrow> MppBufSlotsImpl run" where
  "init_slot_entry impl pos count = init_slot_entry_loop impl pos 0 (nat count)"

definition status_idle :: "SlotStatus \<Rightarrow> bool" where
  "status_idle s \<longleftrightarrow> \<not> not_ready s \<and> \<not> codec_use s \<and> hal_output s = 0 \<and> hal_use s = 0 \<and> queue_use s = 0"

definition check_entry_unused :: "MppBufSlotsImpl \<Rightarrow> int \<Rightarrow> (bool \<times> MppBufSlotsImpl) run" where
  "check_entry_unused impl i =
     run_bind (slot_at impl i) (\<lambda>entry.
       if on_used (se_status entry) \<and> status_idle (se_status entry) then
         run_bind
           (if se_frame entry \<noteq> None then
              run_bind (slot_ops_with_log impl i SLOT_CLR_FRAME True) (\<lambda>impl.
                run_bind (slot_at impl i) (\<lambda>e.
                  Inr ((put_slot impl i (e\<lparr>se_frame := None\<rparr>))
                    \<lparr>sl_refs := snd (mpp_frame_deinit (se_frame e) (sl_refs impl))\<rparr>)))
            else Inr impl) (\<lambda>impl.
         run_bind
           (if se_buffer entry \<noteq> None then
              run_bind (slot_ops_with_log
                  (impl\<lparr>sl_refs := snd (frame_buffer_put (se_buffer entry) (sl_refs impl))\<rparr>)
                  i SLOT_CLR_BUFFER True) (\<lambda>impl.
                run_bind (slot_at impl i) (\<lambda>e. Inr (put_slot impl i (e\<lparr>se_buffer := None\<rparr>))))
            else Inr impl) (\<lambda>impl.
         run_bind (slot_ops_with_log impl i SLOT_CLR_ON_USE False) (\<lambda>impl.
           Inr (True, impl\<lparr>sl_used_count := sl_used_count impl - 1\<rparr>))))
       else Inr (False, impl))"

section \<open>Setup\<close>

definition default_align_16 :: "u32 \<Rightarrow> u32" where
  "default_align_16 val = MPP_ALIGN val 16"

definition entry_zero :: MppBufSlotEntry where
  "entry_zero = \<lparr>se_status = status_zero, se_index = 0, se_eos = 0, se_frame = None, se_buffer = None\<rparr>"

definition realloc_slots :: "MppBufSlotEntry list \<Rightarrow> int \<Rightarrow> (nat \<Rightarrow> MppBufSlotEntry) \<Rightarrow> MppBufSlotEntry list" where
  "realloc_slots es count mem = map (\<lambda>i. if i < length es then es ! i else mem i) [0..<nat count]"

text \<open>
  \<open>history\<close> and \<open>info_dbg\<close> are the two bits of \<open>buf_slot_debug\<close> that have an effect, \<open>log_mem\<close> and
  \<open>m\<close> the contents of fresh memory. All allocations succeed.
\<close>

definition mpp_buf_slot_init ::
  "bool \<Rightarrow> bool \<Rightarrow> MppBufSlotLog list \<Rightarrow> slot_node links \<Rightarrow> refs \<Rightarrow> MppBufSlotsImpl" where
  "mpp_buf_slot_init history info_dbg log_mem m r =
     \<lparr>sl_decode_count = 0, sl_display_count = 0, sl_coding_type = MPP_VIDEO_CodingUnused,
      sl_info_changed = 0, sl_info_change_slot_idx = - 1, sl_new_count = 0, sl_eos = 0,
      sl_dec_cfg = None, sl_sys_cfg = sys_cfg_zero, sl_hal_hor_align = default_align_16,
      sl_hal_ver_align = default_align_16, sl_hal_len_align = None, sl_hal_width_align = None,
      sl_hal_fbc_adj = None, sl_buf_size = 0, sl_buf_count = 0, sl_used_count = 0,
      sl_align_chk_log_env = of_bool info_dbg, sl_align_chk_log_en = of_bool info_dbg,
      sl_numerator = 9, sl_denominator = 5, sl_info = mpp_frame_init, sl_info_set = mpp_frame_init,
      sl_links = fold (\<lambda>q. INIT_LIST_HEAD (Queue q))
        [QUEUE_OUTPUT, QUEUE_DISPLAY, QUEUE_DEINTERLACE, QUEUE_COLOR_CONVERT] m,
      sl_logs = (if history then buf_slot_logs_init 1024 log_mem else None),
      sl_slots = None, sl_callback = None, sl_refs = r\<rparr>"

definition mpp_buf_slot_setup ::
  "MppBufSlotsImpl \<Rightarrow> int \<Rightarrow> (nat \<Rightarrow> MppBufSlotEntry) \<Rightarrow> (mpp_ret \<times> MppBufSlotsImpl) run" where
  "mpp_buf_slot_setup impl count mem =
     (case sl_slots impl of
        None \<Rightarrow>
          run_bind (init_slot_entry
              (impl\<lparr>sl_buf_count := count, sl_new_count := count,
                    sl_slots := Some (replicate (nat count) entry_zero)\<rparr>) 0 count) (\<lambda>impl.
            Inr (MPP_OK, impl\<lparr>sl_used_count := 0\<rparr>))
      | Some es \<Rightarrow>
          run_bind
            (if count > sl_buf_count impl then
               init_slot_entry (impl\<lparr>sl_slots := Some (realloc_slots es count mem)\<rparr>)
                 (sl_buf_count impl) (count - sl_buf_count impl)
             else Inr impl) (\<lambda>impl.
            Inr (MPP_OK, impl\<lparr>sl_new_count := count\<rparr>)))"

definition mpp_buf_slot_is_changed :: "MppBufSlotsImpl \<Rightarrow> u32" where
  "mpp_buf_slot_is_changed impl = sl_info_changed impl"

definition dec_status :: "MppFrameImpl \<Rightarrow> u32 \<times> u32 \<times> u32 \<times> u32 \<times> u32" where
  "dec_status f = (fr_width f, fr_height f, fr_hor_stride f, fr_ver_stride f, ucast (fr_buf_size f))"

definition mpp_buf_slot_ready ::
  "MppBufSlotsImpl \<Rightarrow> (nat \<Rightarrow> MppBufSlotEntry) \<Rightarrow> (mpp_ret \<times> MppBufSlotsImpl) run" where
  "mpp_buf_slot_ready impl mem =
     (case sl_slots impl of
        None \<Rightarrow> Inl Aborted
      | Some es \<Rightarrow>
          run_bind
            (if sl_buf_count impl \<noteq> sl_new_count impl then
               init_slot_entry (impl\<lparr>sl_slots := Some (realloc_slots es (sl_new_count impl) mem)\<rparr>)
                 0 (sl_new_count impl)
             else Inr impl) (\<lambda>impl.
            let impl = impl\<lparr>sl_buf_count := sl_new_count impl\<rparr>;
                (info, r) = mpp_frame_copy (sl_info impl) (sl_info_set impl) (sl_refs impl)
            in Inr (MPP_OK, impl\<lparr>sl_info := info, sl_refs := r,
                                 sl_logs := map_option buf_slot_logs_reset (sl_logs impl),
                                 sl_info_changed := 0, sl_info_change_slot_idx := - 1,
                                 sl_dec_cfg := map_option (\<lambda>c. dec_status info) (sl_dec_cfg impl)\<rparr>)))"

definition mpp_buf_slot_get_size :: "MppBufSlotsImpl \<Rightarrow> u64" where
  "mpp_buf_slot_get_size impl = sl_buf_size impl"

definition mpp_buf_slot_get_count :: "MppBufSlotsImpl \<Rightarrow> int" where
  "mpp_buf_slot_get_count impl = sl_buf_count impl"

definition mpp_buf_slot_set_callback :: "MppBufSlotsImpl \<Rightarrow> nat option \<Rightarrow> mpp_ret \<times> MppBufSlotsImpl" where
  "mpp_buf_slot_set_callback impl cb = (MPP_OK, impl\<lparr>sl_callback := cb\<rparr>)"

definition mpp_buf_slot_set_dec_cfg ::
  "MppBufSlotsImpl \<Rightarrow> (u32 \<times> u32 \<times> u32 \<times> u32 \<times> u32) option \<Rightarrow> mpp_ret \<times> MppBufSlotsImpl" where
  "mpp_buf_slot_set_dec_cfg impl cfg = (MPP_OK, impl\<lparr>sl_dec_cfg := cfg\<rparr>)"

section \<open>Usage of slots\<close>

fun find_unused :: "MppBufSlotsImpl \<Rightarrow> nat \<Rightarrow> nat \<Rightarrow> nat option run" where
  "find_unused impl i 0 = Inr None"
| "find_unused impl i (Suc n) =
     run_bind (slot_at impl (int i)) (\<lambda>slot.
       if \<not> on_used (se_status slot) then Inr (Some i) else find_unused impl (i + 1) n)"

text \<open>When every slot is in use the assertion \<open>slot_assert (impl, 0)\<close> fails.\<close>

definition mpp_buf_slot_get_unused :: "MppBufSlotsImpl \<Rightarrow> (mpp_ret \<times> int \<times> MppBufSlotsImpl) run" where
  "mpp_buf_slot_get_unused impl =
     run_bind (find_unused impl 0 (nat (sl_buf_count impl))) (\<lambda>found. case found of
       None \<Rightarrow> Inl Aborted
     | Some i \<Rightarrow>
         run_bind (slot_ops_with_log impl (int i) SLOT_SET_ON_USE False) (\<lambda>impl.
         run_bind (slot_ops_with_log impl (int i) SLOT_SET_NOT_READY False) (\<lambda>impl.
           Inr (MPP_OK, int i, impl\<lparr>sl_used_count := sl_used_count impl + 1\<rparr>))))"

definition valid_index :: "MppBufSlotsImpl \<Rightarrow> int \<Rightarrow> bool" where
  "valid_index impl index \<longleftrightarrow> 0 \<le> index \<and> index < sl_buf_count impl"

definition mpp_buf_slot_set_flag ::
  "MppBufSlotsImpl \<Rightarrow> int \<Rightarrow> SlotUsageType \<Rightarrow> (mpp_ret \<times> MppBufSlotsImpl) run" where
  "mpp_buf_slot_set_flag impl index type =
     (if \<not> valid_index impl index then Inl Aborted
      else run_bind (slot_ops_with_log impl index (set_flag_op type) False) (\<lambda>impl. Inr (MPP_OK, impl)))"

text \<open>
  The flag in the result says whether the slot was freed; then the registered callback is called, after
  the lock is released.
\<close>

definition mpp_buf_slot_clr_flag ::
  "MppBufSlotsImpl \<Rightarrow> int \<Rightarrow> SlotUsageType \<Rightarrow> (mpp_ret \<times> bool \<times> MppBufSlotsImpl) run" where
  "mpp_buf_slot_clr_flag impl index type =
     (if \<not> valid_index impl index then Inl Aborted
      else run_bind (slot_ops_with_log impl index (clr_flag_op type) False) (\<lambda>impl.
        let impl = (if type = SLOT_HAL_OUTPUT
                    then impl\<lparr>sl_decode_count := sl_decode_count impl + 1\<rparr> else impl)
        in run_bind (check_entry_unused impl index) (\<lambda>(unused, impl). Inr (MPP_OK, unused, impl))))"

definition mpp_buf_slot_enqueue ::
  "MppBufSlotsImpl \<Rightarrow> int \<Rightarrow> SlotQueueType \<Rightarrow> (mpp_ret \<times> MppBufSlotsImpl) run" where
  "mpp_buf_slot_enqueue impl index type =
     (if \<not> valid_index impl index then Inl Aborted
      else run_bind (slot_ops_with_log impl index (enqueue_op type) False) (\<lambda>impl.
        Inr (MPP_OK, impl\<lparr>sl_links := list_add_tail (Entry (nat index)) (Queue type)
                                    (list_del_init (Entry (nat index)) (sl_links impl))\<rparr>)))"

definition entry_of :: "slot_node \<Rightarrow> nat run" where
  "entry_of n = (case n of Entry i \<Rightarrow> Inr i | Queue q \<Rightarrow> Inl Out_Of_Bounds)"

definition mpp_buf_slot_dequeue ::
  "MppBufSlotsImpl \<Rightarrow> int \<Rightarrow> SlotQueueType \<Rightarrow> (mpp_ret \<times> int \<times> MppBufSlotsImpl) run" where
  "mpp_buf_slot_dequeue impl index0 type =
     (if list_empty (Queue type) (sl_links impl) then Inr (MPP_NOK, index0, impl)
      else run_bind (entry_of (nxt (sl_links impl) (Queue type))) (\<lambda>i.
        run_bind (slot_at impl (int i)) (\<lambda>slot.
          if not_ready (se_status slot) then Inr (MPP_NOK, index0, impl)
          else
            (let impl = impl\<lparr>sl_links := list_del_init (Entry i) (sl_links impl)\<rparr>
             in if \<not> se_index slot < sl_buf_count impl then Inl Aborted
                else run_bind (slot_ops_with_log impl (int i) (dequeue_op type) False) (\<lambda>impl.
                  Inr (MPP_OK, se_index slot, impl\<lparr>sl_display_count := sl_display_count impl + 1\<rparr>))))))"

definition mpp_buf_slot_reset :: "MppBufSlotsImpl \<Rightarrow> int \<Rightarrow> (mpp_ret \<times> MppBufSlotsImpl) run" where
  "mpp_buf_slot_reset impl index =
     (if index < 0 then Inr (MPP_ERR_NULL_PTR, impl)
      else if \<not> valid_index impl index then Inl Aborted
      else
        (let impl = impl\<lparr>sl_links := list_del_init (Entry (nat index)) (sl_links impl)\<rparr>
         in run_bind (slot_ops_with_log impl index SLOT_CLR_QUEUE_USE False) (\<lambda>impl.
            run_bind (slot_ops_with_log impl index SLOT_DEQUEUE_OUTPUT False) (\<lambda>impl.
            run_bind (slot_ops_with_log impl index SLOT_CLR_ON_USE False) (\<lambda>impl.
              Inr (MPP_OK, impl))))))"

section \<open>Layout information\<close>

record MppBufSlotInfoSet =
  is_h_stride_by_pixel :: u32
  is_h_stride_by_byte :: u32
  is_v_stride :: u32
  is_size_total :: u32

definition legacy_fbc_size :: "u32 \<Rightarrow> u32 \<Rightarrow> u32 \<Rightarrow> u32 \<Rightarrow> u32" where
  "legacy_fbc_size fmt hor_stride_pixel hal_hor_stride hal_ver_stride =
     (let f = fmt AND MPP_FRAME_FMT_MASK;
          afbc = (\<lambda>bpp. word_of_int (get_afbc_min_size (sint hor_stride_pixel) (sint hal_ver_stride) bpp))
      in if f = MPP_FMT_YUV420SP_10BIT then afbc 15
         else if f = MPP_FMT_YUV422SP_10BIT then afbc 20
         else if f = MPP_FMT_YUV420SP then afbc 12
         else if f = MPP_FMT_YUV422SP then afbc 16
         else if f = MPP_FMT_YUV444SP then afbc 24
         else if f = MPP_FMT_YUV444SP_10BIT then afbc 30
         else hal_hor_stride * hal_ver_stride * 3 div 2)"

text \<open>\<open>size\<close> is kept as the 32-bit pattern of the \<open>RK_S32\<close>; the division by the denominator is unsigned.\<close>

definition prepare_info_set_legacy ::
  "slot_env \<Rightarrow> MppBufSlotsImpl \<Rightarrow> MppFrameImpl \<Rightarrow> bool \<Rightarrow> (MppBufSlotInfoSet \<times> MppFrameImpl) run" where
  "prepare_info_set_legacy env impl frame force_def_align =
     (let width = fr_width frame; height = fr_height frame; fmt = fr_fmt frame;
          depth = (if MPP_FRAME_FMT_IS_YUV_10BIT fmt then 10 else 8);
          codec_hor_stride = fr_hor_stride frame;
          codec_ver_stride = fr_ver_stride frame;
          coded_width = (case sl_hal_width_align impl of Some f \<Rightarrow> f width | None \<Rightarrow> width);
          hal_hor_stride = (if codec_hor_stride \<noteq> 0 then sl_hal_hor_align impl codec_hor_stride
                            else sl_hal_hor_align impl (drop_bit 3 (coded_width * depth)));
          hal_ver_stride = (if codec_ver_stride \<noteq> 0 then sl_hal_ver_align impl codec_ver_stride
                            else sl_hal_ver_align impl height);
          hal_hor_stride = (if force_def_align \<and> codec_hor_stride \<noteq> 0 then codec_hor_stride else hal_hor_stride);
          hal_ver_stride = (if force_def_align \<and> codec_ver_stride \<noteq> 0 then codec_ver_stride else hal_ver_stride);
          hal_hor_stride = (if MPP_FRAME_FMT_IS_FBC fmt
            then (if env_odd_256 env then drop_bit 3 ((MPP_ALIGN width 256 OR 256) * depth)
                  else drop_bit 3 (MPP_ALIGN width 64 * depth))
            else hal_hor_stride);
          hor_stride_pixel = stride_pixel fmt hal_hor_stride;
          sz = hal_hor_stride * hal_ver_stride
      in if MPP_FRAME_FMT_IS_FBC fmt then
           (let hor_stride_pixel = MPP_ALIGN hor_stride_pixel 64;
                sz = legacy_fbc_size fmt hor_stride_pixel hal_hor_stride hal_ver_stride
            in Inr (\<lparr>is_h_stride_by_pixel = hor_stride_pixel, is_h_stride_by_byte = hal_hor_stride,
                     is_v_stride = hal_ver_stride, is_size_total = sz\<rparr>,
                    frame\<lparr>fr_fbc_size := word_of_int (sint sz)\<rparr>))
         else if sl_denominator impl = 0 then Inl Div_By_Zero
         else
           (let sz = sz * sl_numerator impl div sl_denominator impl;
                sz = (case sl_hal_len_align impl of Some f \<Rightarrow> f (hal_hor_stride * hal_ver_stride) | None \<Rightarrow> sz)
            in Inr (\<lparr>is_h_stride_by_pixel = hor_stride_pixel, is_h_stride_by_byte = hal_hor_stride,
                     is_v_stride = hal_ver_stride, is_size_total = sz\<rparr>, frame)))"

definition prepare_info_set_by_sys_cfg ::
  "slot_env \<Rightarrow> MppBufSlotsImpl \<Rightarrow> MppFrameImpl \<Rightarrow> MppBufSlotInfoSet \<times> MppBufSlotsImpl" where
  "prepare_info_set_by_sys_cfg env impl frame =
     (let fmt = fr_fmt frame;
          cfg = (sl_sys_cfg impl)\<lparr>sc_enable := 1, sc_type := sl_coding_type impl,
                  sc_fmt_codec := fmt AND MPP_FRAME_FMT_MASK, sc_fmt_fbc := fmt AND MPP_FRAME_FBC_MASK,
                  sc_fmt_hdr := fmt AND MPP_FRAME_HDR_MASK, sc_width := fr_width frame,
                  sc_height := fr_height frame, sc_h_stride_by_byte := fr_hor_stride frame,
                  sc_v_stride := fr_ver_stride frame\<rparr>;
          cfg = sys_cfg_run (env_soc env) (env_odd_256 env) cfg
      in (\<lparr>is_h_stride_by_pixel = sc_h_stride_by_pixel cfg, is_h_stride_by_byte = sc_h_stride_by_byte cfg,
           is_v_stride = sc_v_stride cfg, is_size_total = sc_size_total cfg\<rparr>,
          impl\<lparr>sl_sys_cfg := cfg\<rparr>))"

text \<open>The extra room for the thumbnail of \<open>MPP_FRAME_THUMBNAIL_MIXED\<close>.\<close>

definition downscale_size :: "MppFrameImpl \<Rightarrow> u32" where
  "downscale_size frame =
     (let ver = MPP_ALIGN (drop_bit 1 (fr_height frame)) 16;
          hor = MPP_ALIGN (drop_bit 1 (fr_width frame)) 16;
          y = ver * hor;
          f = fr_fmt frame AND MPP_FRAME_FMT_MASK;
          sz = (if f = MPP_FMT_YUV400 then y
                else if f = MPP_FMT_YUV420SP_10BIT \<or> f = MPP_FMT_YUV420SP then y * 3 div 2
                else if f = MPP_FMT_YUV422SP_10BIT \<or> f = MPP_FMT_YUV422SP then y * 2
                else if f = MPP_FMT_YUV444SP_10BIT \<or> f = MPP_FMT_YUV444SP then y * 3
                else y * 3 div 2)
      in MPP_ALIGN sz 16)"

definition generate_info_set ::
  "slot_env \<Rightarrow> MppBufSlotsImpl \<Rightarrow> MppFrameImpl \<Rightarrow> bool \<Rightarrow> (MppBufSlotsImpl \<times> MppFrameImpl) run" where
  "generate_info_set env impl frame force_def_align =
     run_bind (prepare_info_set_legacy env impl frame force_def_align) (\<lambda>(legacy, frame).
       let (by_cfg, impl) = prepare_info_set_by_sys_cfg env impl frame;
           p = (if env_legacy_align env then legacy else by_cfg);
           total = (ucast (is_size_total p) :: u64)
             + (if fr_thumbnail_en frame = 1 then ucast (downscale_size frame) else 0);
           info_set = (sl_info_set impl)\<lparr>
             fr_width := fr_width frame, fr_height := fr_height frame, fr_fmt := fr_fmt frame,
             fr_hor_stride := is_h_stride_by_byte p, fr_ver_stride := is_v_stride p,
             fr_hor_stride_pixel := is_h_stride_by_pixel p, fr_buf_size := total,
             fr_color_range := fr_color_range frame, fr_color_primaries := fr_color_primaries frame,
             fr_color_trc := fr_color_trc frame, fr_colorspace := fr_colorspace frame,
             fr_chroma_location := fr_chroma_location frame\<rparr>;
           frame = frame\<lparr>fr_buf_size := total, fr_hor_stride := is_h_stride_by_byte p,
             fr_ver_stride := is_v_stride p, fr_hor_stride_pixel := is_h_stride_by_pixel p\<rparr>
       in Inr (impl\<lparr>sl_info_set := info_set, sl_buf_size := total, sl_align_chk_log_en := 0\<rparr>, frame))"

section \<open>Properties of slots\<close>

text \<open>
  The type of a property and the value the pointer \<open>val\<close> refers to. The table \<open>set_val_op\<close> has no entry
  for \<open>SLOT_FRAME_PTR\<close>, which therefore selects operation 0, \<open>SLOT_INIT\<close>.
\<close>

datatype SlotPropType = SLOT_EOS u32 | SLOT_FRAME MppFrameImpl | SLOT_BUFFER nat | SLOT_FRAME_PTR

fun set_val_op :: "SlotPropType \<Rightarrow> MppBufSlotOps" where
  "set_val_op (SLOT_EOS eos) = SLOT_SET_EOS"
| "set_val_op (SLOT_FRAME frame) = SLOT_SET_FRAME"
| "set_val_op (SLOT_BUFFER buffer) = SLOT_SET_BUFFER"
| "set_val_op SLOT_FRAME_PTR = SLOT_INIT"

definition set_prop_eos :: "MppBufSlotsImpl \<Rightarrow> int \<Rightarrow> u32 \<Rightarrow> MppBufSlotsImpl run" where
  "set_prop_eos impl index eos =
     run_bind (slot_at impl index) (\<lambda>slot.
       Inr (put_slot impl index
         (slot\<lparr>se_eos := eos, se_frame := map_option (\<lambda>f. f\<lparr>fr_eos := eos\<rparr>) (se_frame slot)\<rparr>)))"

definition set_prop_frame ::
  "slot_env \<Rightarrow> MppBufSlotsImpl \<Rightarrow> int \<Rightarrow> MppFrameImpl \<Rightarrow> (MppFrameImpl \<times> MppBufSlotsImpl) run" where
  "set_prop_frame env impl index frame =
     run_bind (slot_at impl index) (\<lambda>slot.
       if \<not> not_ready (se_status slot) then Inl Aborted
       else run_bind (generate_info_set env impl frame False) (\<lambda>(impl, src).
         let (dst, r) = mpp_frame_copy (case se_frame slot of Some f \<Rightarrow> f | None \<Rightarrow> mpp_frame_init) src (sl_refs impl);
             dst = dst\<lparr>fr_hor_stride := fr_hor_stride src, fr_ver_stride := fr_ver_stride src,
                       fr_eos := se_eos slot\<rparr>;
             impl = put_slot (impl\<lparr>sl_refs := r\<rparr>) index (slot\<lparr>se_frame := Some dst\<rparr>)
         in Inr (src,
              if mpp_frame_info_cmp (sl_info impl) (sl_info_set impl) \<noteq> MPP_OK then
                impl\<lparr>sl_info_changed := 1, sl_info_change_slot_idx := index,
                     sl_align_chk_log_en := (if sl_coding_type impl \<noteq> MPP_VIDEO_CodingMJPEG
                       then sl_align_chk_log_env impl else sl_align_chk_log_en impl)\<rparr>
              else impl)))"

definition set_prop_buffer :: "MppBufSlotsImpl \<Rightarrow> int \<Rightarrow> nat \<Rightarrow> MppBufSlotsImpl run" where
  "set_prop_buffer impl index buffer =
     run_bind (slot_at impl index) (\<lambda>slot.
       if se_buffer slot \<noteq> None \<and> se_frame slot \<noteq> None then Inl Aborted
       else
         (let r = (if se_buffer slot \<noteq> None then snd (frame_buffer_put (se_buffer slot) (sl_refs impl))
                   else sl_refs impl);
              r = snd (frame_buffer_inc_ref (Some buffer) r);
              (frame, r) = (case se_frame slot of
                  None \<Rightarrow> (None, r)
                | Some f \<Rightarrow> (let (f, r) = mpp_frame_set_buffer f (Some buffer) r in (Some f, r)))
          in Inr (put_slot (impl\<lparr>sl_refs := r\<rparr>) index (slot\<lparr>se_buffer := Some buffer, se_frame := frame\<rparr>))))"

text \<open>The frame in the result is the caller's frame, which the layout calculation updates.\<close>

definition mpp_buf_slot_set_prop ::
  "slot_env \<Rightarrow> MppBufSlotsImpl \<Rightarrow> int \<Rightarrow> SlotPropType \<Rightarrow> (mpp_ret \<times> MppFrameImpl option \<times> MppBufSlotsImpl) run" where
  "mpp_buf_slot_set_prop env impl index prop =
     (if \<not> valid_index impl index then Inl Aborted
      else run_bind (slot_ops_with_log impl index (set_val_op prop) True) (\<lambda>impl.
        case prop of
          SLOT_EOS eos \<Rightarrow> run_bind (set_prop_eos impl index eos) (\<lambda>impl. Inr (MPP_OK, None, impl))
        | SLOT_FRAME frame \<Rightarrow>
            run_bind (set_prop_frame env impl index frame) (\<lambda>(frame, impl). Inr (MPP_OK, Some frame, impl))
        | SLOT_BUFFER buffer \<Rightarrow> run_bind (set_prop_buffer impl index buffer) (\<lambda>impl. Inr (MPP_OK, None, impl))
        | SLOT_FRAME_PTR \<Rightarrow> Inr (MPP_OK, None, impl)))"

text \<open>For \<open>SLOT_FRAME\<close> the query carries the caller's frame, which is created when it is null.\<close>

datatype SlotPropQuery = GET_EOS | GET_FRAME "MppFrameImpl option" | GET_FRAME_PTR | GET_BUFFER
datatype SlotPropVal = VAL_EOS u32 | VAL_FRAME "MppFrameImpl option" | VAL_BUFFER "nat option"

definition mpp_buf_slot_get_prop ::
  "MppBufSlotsImpl \<Rightarrow> int \<Rightarrow> SlotPropQuery \<Rightarrow> (mpp_ret \<times> SlotPropVal \<times> MppBufSlotsImpl) run" where
  "mpp_buf_slot_get_prop impl index query =
     (if \<not> valid_index impl index then Inl Aborted
      else run_bind (slot_at impl index) (\<lambda>slot. Inr (MPP_OK,
        (case query of
           GET_EOS \<Rightarrow> (VAL_EOS (se_eos slot), impl)
         | GET_FRAME frame \<Rightarrow>
             (if has_frame (se_status slot) then
                (let dst = (case frame of Some f \<Rightarrow> f | None \<Rightarrow> mpp_frame_init)
                 in case se_frame slot of
                      None \<Rightarrow> (VAL_FRAME (Some dst), impl)
                    | Some src \<Rightarrow>
                        (let (dst, r) = mpp_frame_copy dst src (sl_refs impl)
                         in (VAL_FRAME (Some dst), impl\<lparr>sl_refs := r\<rparr>)))
              else (VAL_FRAME None, impl))
         | GET_FRAME_PTR \<Rightarrow> (VAL_FRAME (if has_frame (se_status slot) then se_frame slot else None), impl)
         | GET_BUFFER \<Rightarrow> (VAL_BUFFER (if has_buffer (se_status slot) then se_buffer slot else None), impl)))))"

definition mpp_buf_slot_default_info ::
  "MppBufSlotsImpl \<Rightarrow> int \<Rightarrow> (mpp_ret \<times> MppFrameImpl option \<times> MppBufSlotsImpl) run" where
  "mpp_buf_slot_default_info impl index =
     (if index < 0 then Inr (MPP_ERR_NULL_PTR, None, impl)
      else if \<not> valid_index impl index then Inl Aborted
      else run_bind (slot_at impl index) (\<lambda>slot.
        if \<not> not_ready (se_status slot) \<or> se_frame slot \<noteq> None then Inl Aborted
        else
          (let (frame, r) = mpp_frame_copy mpp_frame_init (sl_info_set impl) (sl_refs impl);
               impl = put_slot (impl\<lparr>sl_refs := r\<rparr>) index (slot\<lparr>se_frame := Some frame\<rparr>)
           in run_bind (slot_ops_with_log impl index SLOT_CLR_NOT_READY False) (\<lambda>impl.
              run_bind (slot_ops_with_log impl index SLOT_SET_FRAME True) (\<lambda>impl.
                Inr (MPP_OK, Some frame, impl))))))"

section \<open>Properties of the slot group\<close>

definition mpp_slots_is_empty :: "MppBufSlotsImpl \<Rightarrow> SlotQueueType \<Rightarrow> u32" where
  "mpp_slots_is_empty impl type = of_bool (list_empty (Queue type) (sl_links impl))"

definition mpp_slots_get_used_count :: "MppBufSlotsImpl \<Rightarrow> int" where
  "mpp_slots_get_used_count impl = sl_used_count impl"

definition mpp_slots_get_unused_count :: "MppBufSlotsImpl \<Rightarrow> int run" where
  "mpp_slots_get_unused_count impl =
     (if 0 \<le> sl_used_count impl \<and> sl_used_count impl \<le> sl_buf_count impl
      then Inr (sl_buf_count impl - sl_used_count impl) else Inl Aborted)"

datatype SlotsPropType =
    SLOTS_EOS u32 | SLOTS_NUMERATOR u32 | SLOTS_DENOMINATOR u32
  | SLOTS_HOR_ALIGN "u32 \<Rightarrow> u32" | SLOTS_VER_ALIGN "u32 \<Rightarrow> u32" | SLOTS_LEN_ALIGN "u32 \<Rightarrow> u32"
  | SLOTS_COUNT u32 | SLOTS_SIZE u32 | SLOTS_FRAME_INFO MppFrameImpl
  | SLOTS_HAL_FBC_ADJ "(MppFrameImpl \<Rightarrow> MppFrameImpl) option" | SLOTS_CODING_TYPE MppCodingType
  | SLOTS_WIDTH_ALIGN "u32 \<Rightarrow> u32"

text \<open>The frame of the slot that reported the change takes the new layout.\<close>

definition adjust_change_slot :: "MppBufSlotsImpl \<Rightarrow> MppFrameImpl \<Rightarrow> MppBufSlotsImpl run" where
  "adjust_change_slot impl src =
     (if sl_info_change_slot_idx impl < 0 then Inr impl
      else run_bind (slot_at impl (sl_info_change_slot_idx impl)) (\<lambda>slot.
        let impl = (case se_frame slot of
              None \<Rightarrow> impl
            | Some dst \<Rightarrow>
                (let dst = dst\<lparr>fr_fmt := fr_fmt src, fr_hor_stride := fr_hor_stride src,
                       fr_hor_stride_pixel := fr_hor_stride_pixel src,
                       fr_ver_stride := fr_ver_stride src, fr_buf_size := fr_buf_size src\<rparr>;
                     dst = (case sl_hal_fbc_adj impl of
                         None \<Rightarrow> dst
                       | Some f \<Rightarrow> if MPP_FRAME_FMT_IS_FBC (fr_fmt dst) then f dst else dst)
                 in put_slot impl (sl_info_change_slot_idx impl) (slot\<lparr>se_frame := Some dst\<rparr>)))
        in Inr (impl\<lparr>sl_info_change_slot_idx := - 1\<rparr>)))"

definition set_frame_info ::
  "slot_env \<Rightarrow> MppBufSlotsImpl \<Rightarrow> MppFrameImpl \<Rightarrow> (MppFrameImpl \<times> MppBufSlotsImpl) run" where
  "set_frame_info env impl frame =
     run_bind (generate_info_set env impl frame True) (\<lambda>(impl, frame).
       let (info, r) = mpp_frame_copy (sl_info impl) (sl_info_set impl) (sl_refs impl);
           (frame, r) = mpp_frame_copy frame (sl_info_set impl) r
       in run_bind (adjust_change_slot (impl\<lparr>sl_info := info, sl_refs := r\<rparr>) frame) (\<lambda>impl.
            Inr (frame, impl\<lparr>sl_dec_cfg := map_option (\<lambda>c. dec_status frame) (sl_dec_cfg impl)\<rparr>)))"

definition mpp_slots_set_prop ::
  "slot_env \<Rightarrow> MppBufSlotsImpl \<Rightarrow> SlotsPropType \<Rightarrow> (mpp_ret \<times> MppFrameImpl option \<times> MppBufSlotsImpl) run" where
  "mpp_slots_set_prop env impl prop =
     (case prop of
        SLOTS_EOS v \<Rightarrow> Inr (MPP_OK, None, impl\<lparr>sl_eos := v\<rparr>)
      | SLOTS_NUMERATOR v \<Rightarrow> Inr (MPP_OK, None, impl\<lparr>sl_numerator := v\<rparr>)
      | SLOTS_DENOMINATOR v \<Rightarrow> Inr (MPP_OK, None, impl\<lparr>sl_denominator := v\<rparr>)
      | SLOTS_HOR_ALIGN f \<Rightarrow> Inr (MPP_OK, None, impl\<lparr>sl_hal_hor_align := f\<rparr>)
      | SLOTS_VER_ALIGN f \<Rightarrow> Inr (MPP_OK, None, impl\<lparr>sl_hal_ver_align := f\<rparr>)
      | SLOTS_LEN_ALIGN f \<Rightarrow> Inr (MPP_OK, None, impl\<lparr>sl_hal_len_align := Some f\<rparr>)
      | SLOTS_COUNT v \<Rightarrow> Inr (MPP_OK, None, impl\<lparr>sl_buf_count := sint v\<rparr>)
      | SLOTS_SIZE v \<Rightarrow> Inr (MPP_OK, None, impl\<lparr>sl_buf_size := ucast v\<rparr>)
      | SLOTS_FRAME_INFO frame \<Rightarrow>
          run_bind (set_frame_info env impl frame) (\<lambda>(frame, impl). Inr (MPP_OK, Some frame, impl))
      | SLOTS_HAL_FBC_ADJ f \<Rightarrow> Inr (MPP_OK, None, impl\<lparr>sl_hal_fbc_adj := f\<rparr>)
      | SLOTS_CODING_TYPE t \<Rightarrow> Inr (MPP_OK, None, impl\<lparr>sl_coding_type := t\<rparr>)
      | SLOTS_WIDTH_ALIGN f \<Rightarrow> Inr (MPP_OK, None, impl\<lparr>sl_hal_width_align := Some f\<rparr>))"

text \<open>
  The readable properties; every other type is refused. Of the argument only the type matters, and for
  \<open>SLOTS_FRAME_INFO\<close> the caller's frame, which takes a copy of the group's layout.
\<close>

datatype SlotsPropVal = SLOTS_U32 u32 | SLOTS_FRAME MppFrameImpl

definition mpp_slots_get_prop ::
  "MppBufSlotsImpl \<Rightarrow> SlotsPropType \<Rightarrow> mpp_ret \<times> SlotsPropVal option \<times> MppBufSlotsImpl" where
  "mpp_slots_get_prop impl prop =
     (case prop of
        SLOTS_EOS v \<Rightarrow> (MPP_OK, Some (SLOTS_U32 (sl_eos impl)), impl)
      | SLOTS_COUNT v \<Rightarrow> (MPP_OK, Some (SLOTS_U32 (word_of_int (sl_buf_count impl))), impl)
      | SLOTS_SIZE v \<Rightarrow> (MPP_OK, Some (SLOTS_U32 (ucast (sl_buf_size impl))), impl)
      | SLOTS_FRAME_INFO frame \<Rightarrow>
          (let (frame, r) = mpp_frame_copy frame (sl_info impl) (sl_refs impl)
           in (MPP_OK, Some (SLOTS_FRAME frame), impl\<lparr>sl_refs := r\<rparr>))
      | _ \<Rightarrow> (MPP_NOK, None, impl))"

section \<open>Teardown\<close>

fun clear_slots_loop :: "MppBufSlotsImpl \<Rightarrow> nat \<Rightarrow> nat \<Rightarrow> MppBufSlotsImpl run" where
  "clear_slots_loop impl i 0 = Inr impl"
| "clear_slots_loop impl i (Suc n) =
     run_bind (slot_at impl (int i)) (\<lambda>slot.
       run_bind
         (if on_used (se_status slot)
          then run_bind (mpp_buf_slot_reset (dump_slots impl) (int i)) (\<lambda>(ret, impl). Inr impl)
          else Inr impl) (\<lambda>impl.
       clear_slots_loop impl (i + 1) n))"

text \<open>What remains of the object after it is freed are the reference counts.\<close>

definition clear_slots_impl :: "MppBufSlotsImpl \<Rightarrow> refs run" where
  "clear_slots_impl impl =
     run_bind (clear_slots_loop impl 0 (nat (sl_buf_count impl))) (\<lambda>impl.
       Inr (snd (mpp_frame_deinit (Some (sl_info_set impl))
                  (snd (mpp_frame_deinit (Some (sl_info impl)) (sl_refs impl))))))"

definition mpp_buf_slot_deinit :: "MppBufSlotsImpl \<Rightarrow> (mpp_ret \<times> refs) run" where
  "mpp_buf_slot_deinit impl = run_bind (clear_slots_impl impl) (\<lambda>r. Inr (MPP_OK, r))"

end
