(* ===== verification/Mpp_Slot_Inv.thy ===== *)
theory Mpp_Slot_Inv
  imports Mpp_Buf_Slot
begin

text \<open>
  What the buffer slots promise: no slot is handed out twice, a slot in a queue or in use is never
  recycled, the counts agree with the slots, the queues are first in first out, and the operation
  log keeps the last operations. The invariant is proved for every sequence of operations in which
  the codec touches only slots it was given and keeps a slot in fewer than 31 queues.
\<close>

section \<open>Invariant\<close>

interpretation slot_lists: list_heads Queue
  by unfold_locales (simp add: inj_def)

definition used_num :: "MppBufSlotEntry list \<Rightarrow> int" where
  "used_num es = int (length (filter (\<lambda>e. on_used (se_status e)) es))"

definition entry_ok :: "MppBufSlotEntry \<Rightarrow> bool" where
  "entry_ok e \<longleftrightarrow> on_used (se_status e) \<or>
     se_frame e = None \<and> se_buffer e = None \<and> \<not> codec_use (se_status e) \<and>
     hal_output (se_status e) = 0 \<and> hal_use (se_status e) = 0 \<and> queue_use (se_status e) = 0"

definition entries :: "nat \<Rightarrow> slot_node set" where
  "entries n = Entry ` {..<n}"

definition slots_ok ::
  "MppBufSlotEntry list \<Rightarrow> int \<Rightarrow> int \<Rightarrow> slot_node links \<Rightarrow> (SlotQueueType \<Rightarrow> slot_node list) \<Rightarrow> bool" where
  "slots_ok es n u m Q \<longleftrightarrow>
     n = int (length es) \<and> u = used_num es \<and>
     (\<forall>i<length es. se_index (es ! i) = int i \<and> entry_ok (es ! i)) \<and>
     heads_rep Queue m (entries (length es)) Q \<and>
     (\<forall>q i. Entry i \<in> set (Q q) \<longrightarrow> on_used (se_status (es ! i)) \<and> queue_use (se_status (es ! i)) \<noteq> 0)"

definition slots_inv :: "MppBufSlotsImpl \<Rightarrow> bool" where
  "slots_inv impl \<longleftrightarrow> (\<exists>es Q. sl_slots impl = Some es \<and>
     slots_ok es (sl_buf_count impl) (sl_used_count impl) (sl_links impl) Q)"

lemma used_num_update:
  assumes "i < length es"
  shows "used_num (es[i := e]) =
    used_num es - of_bool (on_used (se_status (es ! i))) + of_bool (on_used (se_status e))"
  using assms
proof (induction es arbitrary: i)
  case (Cons x es)
  then show ?case by (cases i) (auto simp: used_num_def)
qed simp

lemma used_num_bounds: "0 \<le> used_num es" "used_num es \<le> int (length es)"
  by (simp_all add: used_num_def)

lemma used_num_all: "used_num es < int (length es) \<Longrightarrow> \<exists>i<length es. \<not> on_used (se_status (es ! i))"
proof (rule ccontr)
  assume "used_num es < int (length es)" and "\<not> (\<exists>i<length es. \<not> on_used (se_status (es ! i)))"
  then have "filter (\<lambda>e. on_used (se_status e)) es = es"
    by (simp add: filter_id_conv all_set_conv_all_nth)
  with \<open>used_num es < int (length es)\<close> show False
    by (simp add: used_num_def)
qed

lemma slots_ok_update:
  assumes ok: "slots_ok es n u m Q" and i: "i < length es" and "se_index e = int i" and "entry_ok e"
    and m': "heads_rep Queue m' (entries (length es)) Q'"
    and keep: "\<And>q j. Entry j \<in> set (Q' q) \<Longrightarrow> j \<noteq> i \<Longrightarrow> \<exists>p. Entry j \<in> set (Q p)"
    and queued: "\<And>q. Entry i \<in> set (Q' q) \<Longrightarrow> on_used (se_status e) \<and> queue_use (se_status e) \<noteq> 0"
    and "u' = u - of_bool (on_used (se_status (es ! i))) + of_bool (on_used (se_status e))"
  shows "slots_ok (es[i := e]) n u' m' Q'"
proof -
  have "on_used (se_status (es[i := e] ! j)) \<and> queue_use (se_status (es[i := e] ! j)) \<noteq> 0"
    if "Entry j \<in> set (Q' q)" for q j
    using that keep [OF that] queued i ok by (cases "j = i") (auto simp: slots_ok_def)
  then show ?thesis
    using assms by (auto simp: slots_ok_def used_num_update nth_list_update)
qed

text \<open>The status changes and the queues stay.\<close>

lemma slots_ok_entry:
  assumes ok: "slots_ok es n u m Q" and i: "i < length es" and "se_index e = int i" and "entry_ok e"
    and "on_used (se_status (es ! i)) \<longrightarrow> on_used (se_status e)"
    and "queue_use (se_status (es ! i)) \<noteq> 0 \<longrightarrow> queue_use (se_status e) \<noteq> 0"
    and "u' = u - of_bool (on_used (se_status (es ! i))) + of_bool (on_used (se_status e))"
  shows "slots_ok (es[i := e]) n u' m Q"
proof (rule slots_ok_update [OF ok i assms(3,4)])
  show "heads_rep Queue m (entries (length es)) Q"
    using ok by (simp add: slots_ok_def)
  show "on_used (se_status e) \<and> queue_use (se_status e) \<noteq> 0" if "Entry i \<in> set (Q q)" for q
    using ok that assms(5,6) by (auto simp: slots_ok_def)
qed (use assms(7) in auto)

section \<open>Effect of the logged operation\<close>

definition op_entry :: "MppBufSlotOps \<Rightarrow> bool \<Rightarrow> MppBufSlotEntry \<Rightarrow> MppBufSlotEntry" where
  "op_entry op arg e =
     (let e' = (if op = SLOT_CLR_EOS then e\<lparr>se_eos := 0\<rparr> else e)
      in e'\<lparr>se_status := fst (slot_status_op op arg (se_status e))\<rparr>)"

lemma op_entry_fields [simp]:
  "se_status (op_entry op arg e) = fst (slot_status_op op arg (se_status e))"
  "se_index (op_entry op arg e) = se_index e"
  "se_frame (op_entry op arg e) = se_frame e"
  "se_buffer (op_entry op arg e) = se_buffer e"
  by (simp_all add: op_entry_def Let_def)

lemma slot_at_in [simp]:
  "sl_slots impl = Some es \<Longrightarrow> i < length es \<Longrightarrow> slot_at impl (int i) = Inr (es ! i)"
  by (simp add: slot_at_def)

lemma put_slot_in [simp]:
  "sl_slots impl = Some es \<Longrightarrow> put_slot impl (int i) e = impl\<lparr>sl_slots := Some (es[i := e])\<rparr>"
  by (simp add: put_slot_def)

lemma slot_ops_eq:
  assumes "sl_slots impl = Some es" and "i < length es"
  shows "\<exists>L. slot_ops_with_log impl (int i) op arg =
    Inr (impl\<lparr>sl_slots := Some (es[i := op_entry op arg (es ! i)]), sl_logs := L\<rparr>)"
proof -
  obtain st err where st: "slot_status_op op arg (se_status (es ! i)) = (st, err)"
    by (cases "slot_status_op op arg (se_status (es ! i))")
  define e where "e = op_entry op arg (es ! i)"
  have e: "(if op = SLOT_CLR_EOS then (es ! i)\<lparr>se_eos := 0\<rparr> else es ! i)\<lparr>se_status := st\<rparr> = e"
    by (simp add: e_def op_entry_def st Let_def)
  define ls where "ls = map_option
    (\<lambda>l. buf_slot_logs_write l (se_index (es ! i)) op (se_status (es ! i)) st) (sl_logs impl)"
  have ix: "se_index (if op = SLOT_CLR_EOS then (es ! i)\<lparr>se_eos := 0\<rparr> else es ! i) = se_index (es ! i)"
    by simp
  have "slot_ops_with_log impl (int i) op arg =
      Inr (if err then dump_slots (impl\<lparr>sl_slots := Some (es[i := e]), sl_logs := ls\<rparr>)
           else impl\<lparr>sl_slots := Some (es[i := e]), sl_logs := ls\<rparr>)"
    unfolding slot_ops_with_log_def slot_at_in [OF assms] run_bind.simps Let_def st prod.case e ix
      put_slot_in [OF assms(1)] ls_def by simp
  also have "\<dots> = Inr (impl\<lparr>sl_slots := Some (es[i := e]),
      sl_logs := (if err then map_option (\<lambda>l. snd (buf_slot_logs_dump l)) ls else ls)\<rparr>)"
    by (simp add: dump_slots_def)
  finally show ?thesis
    unfolding e_def by blast
qed

lemma slot_opsE:
  assumes "sl_slots impl = Some es" and "i < length es"
  obtains L where "slot_ops_with_log impl (int i) op arg =
    Inr (impl\<lparr>sl_slots := Some (es[i := op_entry op arg (es ! i)]), sl_logs := L\<rparr>)"
  using slot_ops_eq [OF assms] by blast

lemma valid_indexD:
  assumes "slots_ok es (sl_buf_count impl) u m Q" and "valid_index impl index"
  shows "\<exists>i. index = int i \<and> i < length es"
  using assms by (intro exI [of _ "nat index"]) (auto simp: valid_index_def slots_ok_def nat_less_iff)

lemma slots_okD:
  assumes "slots_ok es n u m Q"
  shows "n = int (length es)" and "u = used_num es" and "heads_rep Queue m (entries (length es)) Q"
    and "i < length es \<Longrightarrow> se_index (es ! i) = int i" and "i < length es \<Longrightarrow> entry_ok (es ! i)"
    and "Entry i \<in> set (Q q) \<Longrightarrow> on_used (se_status (es ! i)) \<and> queue_use (se_status (es ! i)) \<noteq> 0"
  using assms by (simp_all add: slots_ok_def)

section \<open>Getting an unused slot\<close>

lemma find_unused_ok:
  assumes "sl_slots impl = Some es" and "i + n \<le> length es"
  shows "(find_unused impl i n = Inr None \<and> (\<forall>j. i \<le> j \<and> j < i + n \<longrightarrow> on_used (se_status (es ! j)))) \<or>
    (\<exists>j. find_unused impl i n = Inr (Some j) \<and> i \<le> j \<and> j < i + n \<and> \<not> on_used (se_status (es ! j)))"
  using assms(2)
proof (induction n arbitrary: i)
  case (Suc n)
  have at: "slot_at impl (int i) = Inr (es ! i)"
    using Suc.prems by (intro slot_at_in [OF assms(1)]) simp
  show ?case
  proof (cases "on_used (se_status (es ! i))")
    case True
    with Suc.IH [of "i + 1"] Suc.prems at show ?thesis
      by (auto simp: less_Suc_eq_le) (metis Suc_leI le_neq_implies_less)+
  next
    case False
    with at show ?thesis by auto
  qed
qed auto

lemma get_unused_ok:
  assumes sl: "sl_slots impl = Some es"
    and ok: "slots_ok es (sl_buf_count impl) (sl_used_count impl) (sl_links impl) Q"
    and free: "sl_used_count impl < sl_buf_count impl"
  shows "\<exists>i impl'. mpp_buf_slot_get_unused impl = Inr (MPP_OK, int i, impl') \<and> i < length es \<and>
    \<not> on_used (se_status (es ! i)) \<and> slots_inv impl' \<and> sl_used_count impl' = sl_used_count impl + 1 \<and>
    sl_slots impl' = Some (es[i := op_entry SLOT_SET_NOT_READY False (op_entry SLOT_SET_ON_USE False (es ! i))])"
proof -
  have n: "nat (sl_buf_count impl) = length es" and u: "sl_used_count impl = used_num es"
    using ok by (simp_all add: slots_ok_def)
  obtain j where j: "j < length es" "\<not> on_used (se_status (es ! j))"
    using used_num_all [of es] free u ok by (auto simp: slots_ok_def)
  then obtain i where i: "find_unused impl 0 (length es) = Inr (Some i)" "i < length es" "\<not> on_used (se_status (es ! i))"
    using find_unused_ok [OF sl, of 0 "length es"] by auto
  let ?e1 = "op_entry SLOT_SET_ON_USE False (es ! i)"
  let ?e = "op_entry SLOT_SET_NOT_READY False ?e1"
  obtain L1 where L1: "slot_ops_with_log impl (int i) SLOT_SET_ON_USE False =
      Inr (impl\<lparr>sl_slots := Some (es[i := ?e1]), sl_logs := L1\<rparr>)"
    by (rule slot_opsE [OF sl i(2)])
  obtain L2 where L2: "slot_ops_with_log (impl\<lparr>sl_slots := Some (es[i := ?e1]), sl_logs := L1\<rparr>) (int i) SLOT_SET_NOT_READY False =
      Inr (impl\<lparr>sl_slots := Some (es[i := ?e]), sl_logs := L2\<rparr>)"
    using slot_opsE [of "impl\<lparr>sl_slots := Some (es[i := ?e1]), sl_logs := L1\<rparr>" "es[i := ?e1]" i SLOT_SET_NOT_READY False] i(2)
    by auto
  have "slots_ok (es[i := ?e]) (sl_buf_count impl) (sl_used_count impl + 1) (sl_links impl) Q"
    by (rule slots_ok_entry [OF ok i(2)])
      (use i(3) slots_okD(4) [OF ok i(2)] in \<open>simp_all add: entry_ok_def\<close>)
  then show ?thesis
    using i L1 L2 n by (auto simp: mpp_buf_slot_get_unused_def slots_inv_def)
qed

lemma get_unused_full:
  assumes sl: "sl_slots impl = Some es"
    and ok: "slots_ok es (sl_buf_count impl) (sl_used_count impl) (sl_links impl) Q"
    and full: "sl_used_count impl = sl_buf_count impl"
  shows "mpp_buf_slot_get_unused impl = Inl Aborted"
proof -
  have n: "nat (sl_buf_count impl) = length es" and u: "used_num es = int (length es)"
    using ok full by (simp_all add: slots_ok_def)
  have "length (filter (\<lambda>e. on_used (se_status e)) es) = length es"
    using u by (simp add: used_num_def)
  then have "\<forall>j<length es. on_used (se_status (es ! j))"
    by (metis filter_id_conv length_filter_less nth_mem less_irrefl)
  then have "find_unused impl 0 (length es) = Inr None"
    using find_unused_ok [OF sl, of 0 "length es"] by auto
  then show ?thesis
    by (simp add: mpp_buf_slot_get_unused_def n)
qed

section \<open>Flags\<close>

definition slot_used :: "MppBufSlotsImpl \<Rightarrow> int \<Rightarrow> bool" where
  "slot_used impl index \<longleftrightarrow> (case sl_slots impl of
     None \<Rightarrow> False
   | Some es \<Rightarrow> 0 \<le> index \<and> index < int (length es) \<and> on_used (se_status (es ! nat index)))"

definition slot_status :: "MppBufSlotsImpl \<Rightarrow> int \<Rightarrow> SlotStatus" where
  "slot_status impl index = se_status (the (sl_slots impl) ! nat index)"

lemma slot_usedE:
  assumes "slot_used impl index" and "sl_slots impl = Some es"
  obtains i where "index = int i" "i < length es" "on_used (se_status (es ! i))"
proof -
  have "0 \<le> index" "index < int (length es)" "on_used (se_status (es ! nat index))"
    using assms by (simp_all add: slot_used_def)
  then show ?thesis
    by (intro that [of "nat index"]) (simp_all add: nat_less_iff)
qed

text \<open>
  Only the slots, the log and the references may differ; this is what the logged operation and the
  release of a slot leave alone.
\<close>

definition only_slots :: "MppBufSlotsImpl \<Rightarrow> MppBufSlotEntry list \<Rightarrow> MppBufSlotsImpl \<Rightarrow> bool" where
  "only_slots impl es impl' \<longleftrightarrow> sl_slots impl' = Some es \<and> sl_buf_count impl' = sl_buf_count impl \<and>
     sl_used_count impl' = sl_used_count impl \<and> sl_links impl' = sl_links impl"

lemma only_slotsD:
  assumes "only_slots impl es impl'"
  shows "sl_slots impl' = Some es" "sl_buf_count impl' = sl_buf_count impl"
    "sl_used_count impl' = sl_used_count impl" "sl_links impl' = sl_links impl"
  using assms by (simp_all add: only_slots_def)

lemma slot_ops_only:
  assumes "only_slots impl (es[i := e]) impl'" and "i < length es"
  shows "\<exists>impl''. slot_ops_with_log impl' (int i) op arg = Inr impl'' \<and>
    only_slots impl (es[i := op_entry op arg e]) impl''"
proof -
  have sl: "sl_slots impl' = Some (es[i := e])" and i: "i < length (es[i := e])"
    using assms by (simp_all add: only_slots_def)
  show ?thesis
    using slot_ops_eq [OF sl i, of op arg] assms by (auto simp: only_slots_def)
qed

lemma set_flag_inv:
  assumes inv: "slots_inv impl" and used: "slot_used impl index"
    and wrap: "type = SLOT_QUEUE_USE \<Longrightarrow> queue_use (slot_status impl index) \<noteq> - 1"
  shows "\<exists>impl'. mpp_buf_slot_set_flag impl index type = Inr (MPP_OK, impl') \<and> slots_inv impl'"
proof -
  obtain es Q where sl: "sl_slots impl = Some es"
    and ok: "slots_ok es (sl_buf_count impl) (sl_used_count impl) (sl_links impl) Q"
    using inv unfolding slots_inv_def by blast
  obtain i where i: "index = int i" "i < length es" "on_used (se_status (es ! i))"
    by (rule slot_usedE [OF used sl])
  let ?e = "op_entry (set_flag_op type) False (es ! i)"
  obtain impl' where s: "slot_ops_with_log impl (int i) (set_flag_op type) False = Inr impl'"
    and o': "only_slots impl (es[i := ?e]) impl'"
    using slot_ops_only [of impl es i "es ! i" impl] sl i(2) by (auto simp: only_slots_def)
  have st: "slot_status impl index = se_status (es ! i)"
    using sl i(1) by (simp add: slot_status_def)
  have w: "q + 1 \<noteq> 0" if "q \<noteq> - 1" for q :: "5 word"
    using that by (metis add_eq_0_iff2)
  have u: "on_used (se_status ?e)"
    using i(3) by (cases type) simp_all
  have q: "queue_use (se_status ?e) \<noteq> 0" if "queue_use (se_status (es ! i)) \<noteq> 0"
    using that wrap w unfolding st by (cases type) simp_all
  have "slots_ok (es[i := ?e]) (sl_buf_count impl) (sl_used_count impl) (sl_links impl) Q"
    by (rule slots_ok_entry [OF ok i(2)])
      (use u q i(3) slots_okD(4) [OF ok i(2)] in \<open>simp_all add: entry_ok_def\<close>)
  then have "slots_inv impl'"
    using only_slotsD [OF o'] by (auto simp: slots_inv_def)
  moreover have "valid_index impl index"
    using i slots_okD(1) [OF ok] by (simp add: valid_index_def)
  ultimately show ?thesis
    using s i(1) by (simp add: mpp_buf_slot_set_flag_def)
qed

text \<open>Releasing a slot that is in use and idle.\<close>

definition entry_idle :: "MppBufSlotEntry \<Rightarrow> bool" where
  "entry_idle e \<longleftrightarrow> on_used (se_status e) \<and> status_idle (se_status e)"

lemma check_unused_busy:
  assumes "sl_slots impl = Some es" and "i < length es" and "\<not> entry_idle (es ! i)"
  shows "check_entry_unused impl (int i) = Inr (False, impl)"
proof -
  have c: "(on_used (se_status (es ! i)) \<and> status_idle (se_status (es ! i))) = False"
    using assms(3) by (simp add: entry_idle_def)
  show ?thesis
    unfolding check_entry_unused_def slot_at_in [OF assms(1,2)] run_bind.simps c if_False ..
qed

lemma check_unused_idle:
  assumes sl: "sl_slots impl = Some es" and i: "i < length es" and idle: "entry_idle (es ! i)"
  shows "\<exists>e impl'. check_entry_unused impl (int i) =
      Inr (True, impl'\<lparr>sl_used_count := sl_used_count impl - 1\<rparr>) \<and>
    only_slots impl (es[i := e]) impl' \<and>
    se_index e = se_index (es ! i) \<and> se_frame e = None \<and> se_buffer e = None \<and>
    \<not> on_used (se_status e) \<and> status_idle (se_status e)"
proof -
  define good where "good e \<longleftrightarrow> se_index e = se_index (es ! i) \<and> entry_idle e" for e
  have c: "(on_used (se_status (es ! i)) \<and> status_idle (se_status (es ! i))) = True"
    using idle by (simp add: entry_idle_def)
  have o0: "only_slots impl (es[i := es ! i]) impl"
    using sl by (simp add: only_slots_def)
  have at: "slot_at impl' (int i) = Inr e" if "only_slots impl (es[i := e]) impl'" for e impl'
    using slot_at_in [OF only_slotsD(1) [OF that], of i] i by simp
  have put: "only_slots impl (es[i := e']) (put_slot impl' (int i) e')"
    "only_slots impl (es[i := e']) ((put_slot impl' (int i) e')\<lparr>sl_refs := r\<rparr>)"
    if "only_slots impl (es[i := e]) impl'" for e e' impl' r
    using that put_slot_in [OF only_slotsD(1) [OF that], of i e'] by (simp_all add: only_slots_def)
  have refs: "only_slots impl es' (impl'\<lparr>sl_refs := r\<rparr>)" if "only_slots impl es' impl'" for es' impl' r
    using that by (simp add: only_slots_def)
  have g0: "good (es ! i)"
    using idle by (simp add: good_def)
  have gF: "good ((op_entry SLOT_CLR_FRAME a e)\<lparr>se_frame := f\<rparr>)" if "good e" for a e f
    using that by (simp add: good_def entry_idle_def status_idle_def)
  have gB: "good ((op_entry SLOT_CLR_BUFFER a e)\<lparr>se_buffer := b\<rparr>)" if "good e" for a e b
    using that by (simp add: good_def entry_idle_def status_idle_def)
  let ?S1 = "if se_frame (es ! i) \<noteq> None then
      run_bind (slot_ops_with_log impl (int i) SLOT_CLR_FRAME True) (\<lambda>impl.
        run_bind (slot_at impl (int i)) (\<lambda>e.
          Inr ((put_slot impl (int i) (e\<lparr>se_frame := None\<rparr>))
            \<lparr>sl_refs := snd (mpp_frame_deinit (se_frame e) (sl_refs impl))\<rparr>)))
      else Inr impl"
  have "\<exists>e1 impl1. ?S1 = Inr impl1 \<and> only_slots impl (es[i := e1]) impl1 \<and> good e1 \<and>
      se_frame e1 = None \<and> se_buffer e1 = se_buffer (es ! i)"
  proof (cases "se_frame (es ! i) = None")
    case True
    with o0 g0 show ?thesis by (intro exI [of _ "es ! i"] exI [of _ impl]) simp
  next
    case False
    obtain x where x: "slot_ops_with_log impl (int i) SLOT_CLR_FRAME True = Inr x"
      "only_slots impl (es[i := op_entry SLOT_CLR_FRAME True (es ! i)]) x"
      using slot_ops_only [OF o0 i] by blast
    have "?S1 = Inr ((put_slot x (int i) ((op_entry SLOT_CLR_FRAME True (es ! i))\<lparr>se_frame := None\<rparr>))
            \<lparr>sl_refs := snd (mpp_frame_deinit (se_frame (op_entry SLOT_CLR_FRAME True (es ! i))) (sl_refs x))\<rparr>)"
      using False x(1) at [OF x(2)] by simp
    with put(2) [OF x(2)] gF [OF g0] show ?thesis
      by (intro exI [of _ "(op_entry SLOT_CLR_FRAME True (es ! i))\<lparr>se_frame := None\<rparr>"] exI conjI) (assumption | simp)+
  qed
  then obtain e1 impl1 where s1: "?S1 = Inr impl1" "only_slots impl (es[i := e1]) impl1" "good e1"
      "se_frame e1 = None" "se_buffer e1 = se_buffer (es ! i)" by blast
  let ?S2 = "if se_buffer (es ! i) \<noteq> None then
      run_bind (slot_ops_with_log
          (impl1\<lparr>sl_refs := snd (frame_buffer_put (se_buffer (es ! i)) (sl_refs impl1))\<rparr>)
          (int i) SLOT_CLR_BUFFER True) (\<lambda>impl.
        run_bind (slot_at impl (int i)) (\<lambda>e. Inr (put_slot impl (int i) (e\<lparr>se_buffer := None\<rparr>))))
      else Inr impl1"
  have "\<exists>e2 impl2. ?S2 = Inr impl2 \<and> only_slots impl (es[i := e2]) impl2 \<and> good e2 \<and>
      se_frame e2 = None \<and> se_buffer e2 = None"
  proof (cases "se_buffer (es ! i) = None")
    case True
    with s1 show ?thesis by (intro exI [of _ e1] exI [of _ impl1]) simp
  next
    case False
    obtain x where x: "slot_ops_with_log
          (impl1\<lparr>sl_refs := snd (frame_buffer_put (se_buffer (es ! i)) (sl_refs impl1))\<rparr>) (int i) SLOT_CLR_BUFFER True = Inr x"
      "only_slots impl (es[i := op_entry SLOT_CLR_BUFFER True e1]) x"
      using slot_ops_only [OF refs [OF s1(2)] i] by blast
    have "?S2 = Inr (put_slot x (int i) ((op_entry SLOT_CLR_BUFFER True e1)\<lparr>se_buffer := None\<rparr>))"
      using False x(1) at [OF x(2)] by simp
    with put(1) [OF x(2)] gB [OF s1(3)] s1(4) show ?thesis
      by (intro exI [of _ "(op_entry SLOT_CLR_BUFFER True e1)\<lparr>se_buffer := None\<rparr>"] exI conjI) (assumption | simp)+
  qed
  then obtain e2 impl2 where s2: "?S2 = Inr impl2" "only_slots impl (es[i := e2]) impl2" "good e2"
      "se_frame e2 = None" "se_buffer e2 = None" by blast
  obtain impl3 where s3: "slot_ops_with_log impl2 (int i) SLOT_CLR_ON_USE False = Inr impl3"
      "only_slots impl (es[i := op_entry SLOT_CLR_ON_USE False e2]) impl3"
    using slot_ops_only [OF s2(2) i] by blast
  have "check_entry_unused impl (int i) = Inr (True, impl3\<lparr>sl_used_count := sl_used_count impl - 1\<rparr>)"
    unfolding check_entry_unused_def slot_at_in [OF sl i] run_bind.simps c if_True s1(1) s2(1) s3(1)
      only_slotsD(3) [OF s3(2)] ..
  with s3(2) s2(3-5) show ?thesis
    by (intro exI [of _ "op_entry SLOT_CLR_ON_USE False e2"] exI [of _ impl3])
      (simp add: good_def entry_idle_def status_idle_def)
qed

text \<open>A slot is in a queue when its node does not point to itself.\<close>

definition in_queue :: "MppBufSlotsImpl \<Rightarrow> int \<Rightarrow> bool" where
  "in_queue impl index \<longleftrightarrow> \<not> list_empty (Entry (nat index)) (sl_links impl)"

lemma ring_member_next: "ring m h xs \<Longrightarrow> e \<in> set xs \<Longrightarrow> nxt m e \<noteq> e"
proof -
  assume r: "ring m h xs" and "e \<in> set xs"
  then obtain a b where x: "xs = a @ e # b"
    by (meson split_list)
  have "nxt m e = hd (b @ [h])"
    using ring_neighbours [of m h a e b] r x by simp
  moreover have "e \<notin> set (b @ [h])"
    using r x by (auto simp: ring_def)
  ultimately show "nxt m e \<noteq> e"
    by (metis hd_in_set snoc_eq_iff_butlast)
qed

lemma not_in_queueD:
  assumes "\<not> in_queue impl (int i)" and "heads_rep Queue (sl_links impl) N Q"
  shows "Entry i \<notin> set (Q q)"
  using assms ring_member_next [OF heads_repD(1) [OF assms(2)], of "Entry i" q]
  by (auto simp: in_queue_def list_empty_def)

lemma in_queueI:
  assumes "heads_rep Queue (sl_links impl) N Q" and "Entry i \<in> set (Q q)"
  shows "in_queue impl (int i)"
  using not_in_queueD [OF _ assms(1)] assms(2) by blast

lemma check_unused_inv:
  assumes sl: "sl_slots impl = Some es" and i: "i < length es"
    and ok: "slots_ok es (sl_buf_count impl) (sl_used_count impl) (sl_links impl) Q"
    and used: "on_used (se_status (es ! i))"
  shows "\<exists>impl'. check_entry_unused impl (int i) = Inr (entry_idle (es ! i), impl') \<and> slots_inv impl' \<and>
    slot_used impl' (int i) = (\<not> entry_idle (es ! i)) \<and> sl_buf_count impl' = sl_buf_count impl \<and>
    sl_used_count impl' = sl_used_count impl - of_bool (entry_idle (es ! i)) \<and>
    (if entry_idle (es ! i) then status_idle (slot_status impl' (int i))
     else slot_status impl' (int i) = se_status (es ! i))"
proof (cases "entry_idle (es ! i)")
  case False
  then show ?thesis
    using check_unused_busy [OF sl i] ok sl used i by (auto simp: slots_inv_def slot_used_def slot_status_def)
next
  case True
  obtain e impl' where c: "check_entry_unused impl (int i) =
      Inr (True, impl'\<lparr>sl_used_count := sl_used_count impl - 1\<rparr>)"
    and o': "only_slots impl (es[i := e]) impl'" and e: "se_index e = se_index (es ! i)"
    "se_frame e = None" "se_buffer e = None" "\<not> on_used (se_status e)" "status_idle (se_status e)"
    using check_unused_idle [OF sl i True] by blast
  have nq: "Entry i \<notin> set (Q q)" for q
    using slots_okD(6) [OF ok, of i q] True by (auto simp: entry_idle_def status_idle_def)
  have "slots_ok (es[i := e]) (sl_buf_count impl) (sl_used_count impl - 1) (sl_links impl) Q"
  proof (rule slots_ok_update [OF ok i])
    show "entry_ok e"
      using e by (simp add: entry_ok_def status_idle_def)
    show "heads_rep Queue (sl_links impl) (entries (length es)) Q"
      by (rule slots_okD(3) [OF ok])
  qed (use e slots_okD(4) [OF ok i] nq True in \<open>auto simp: entry_idle_def\<close>)
  then show ?thesis
    using c only_slotsD [OF o'] True e(4,5) i by (auto simp: slots_inv_def slot_used_def slot_status_def)
qed

lemma slots_invE:
  assumes "slots_inv impl" and "slot_used impl index"
  obtains es Q i where "sl_slots impl = Some es"
    and "slots_ok es (sl_buf_count impl) (sl_used_count impl) (sl_links impl) Q"
    and "index = int i" "i < length es" "on_used (se_status (es ! i))"
    and "slot_status impl index = se_status (es ! i)" "valid_index impl index"
proof -
  obtain es Q where sl: "sl_slots impl = Some es"
    and ok: "slots_ok es (sl_buf_count impl) (sl_used_count impl) (sl_links impl) Q"
    using assms(1) unfolding slots_inv_def by blast
  obtain i where i: "index = int i" "i < length es" "on_used (se_status (es ! i))"
    by (rule slot_usedE [OF assms(2) sl])
  show ?thesis
    by (rule that [OF sl ok i]) (use sl i slots_okD(1) [OF ok] in \<open>simp_all add: slot_status_def valid_index_def\<close>)
qed

text \<open>
  \<open>SLOT_QUEUE_USE\<close> may be cleared on a slot that is in no queue, or that has another queue use left.
\<close>

lemma clr_flag_inv:
  assumes inv: "slots_inv impl" and used: "slot_used impl index"
    and queued: "type = SLOT_QUEUE_USE \<Longrightarrow> in_queue impl index \<Longrightarrow> queue_use (slot_status impl index) \<noteq> 1"
  shows "\<exists>b impl'. mpp_buf_slot_clr_flag impl index type = Inr (MPP_OK, b, impl') \<and> slots_inv impl' \<and>
    b = status_idle (fst (slot_status_op (clr_flag_op type) False (slot_status impl index))) \<and>
    slot_used impl' index = (\<not> b) \<and> sl_buf_count impl' = sl_buf_count impl \<and>
    sl_used_count impl' = sl_used_count impl - of_bool b \<and>
    (if b then status_idle (slot_status impl' index)
     else slot_status impl' index = fst (slot_status_op (clr_flag_op type) False (slot_status impl index)))"
proof -
  obtain es Q i where sl: "sl_slots impl = Some es"
    and ok: "slots_ok es (sl_buf_count impl) (sl_used_count impl) (sl_links impl) Q"
    and i: "index = int i" "i < length es" "on_used (se_status (es ! i))"
    and st: "slot_status impl index = se_status (es ! i)" and v: "valid_index impl index"
    by (rule slots_invE [OF inv used])
  let ?e = "op_entry (clr_flag_op type) False (es ! i)"
  obtain x where s: "slot_ops_with_log impl (int i) (clr_flag_op type) False = Inr x"
    and o': "only_slots impl (es[i := ?e]) x"
    using slot_ops_only [of impl es i "es ! i" impl] sl i(2) by (auto simp: only_slots_def)
  have u: "on_used (se_status ?e)"
    using i(3) by (cases type) (simp_all add: Let_def)
  have q: "on_used (se_status ?e) \<and> queue_use (se_status ?e) \<noteq> 0" if m: "Entry i \<in> set (Q q)" for q
  proof -
    have "in_queue impl index"
      using in_queueI [OF slots_okD(3) [OF ok] m] i(1) by simp
    then show ?thesis
      using u queued slots_okD(6) [OF ok m] unfolding st by (cases type) (simp_all add: Let_def)
  qed
  have ok': "slots_ok (es[i := ?e]) (sl_buf_count impl) (sl_used_count impl) (sl_links impl) Q"
  proof (rule slots_ok_update [OF ok i(2)])
    show "heads_rep Queue (sl_links impl) (entries (length es)) Q"
      by (rule slots_okD(3) [OF ok])
  qed (use u q i(3) slots_okD(4) [OF ok i(2)] in \<open>auto simp: entry_ok_def\<close>)
  define y where "y = (if type = SLOT_HAL_OUTPUT then x\<lparr>sl_decode_count := sl_decode_count x + 1\<rparr> else x)"
  have y: "sl_slots y = Some (es[i := ?e])" "sl_buf_count y = sl_buf_count impl"
    "sl_used_count y = sl_used_count impl" "sl_links y = sl_links impl"
    using only_slotsD [OF o'] by (simp_all add: y_def)
  obtain z where z: "check_entry_unused y (int i) = Inr (entry_idle ?e, z)" "slots_inv z"
    "slot_used z (int i) = (\<not> entry_idle ?e)" "sl_used_count z = sl_used_count impl - of_bool (entry_idle ?e)"
    "if entry_idle ?e then status_idle (slot_status z (int i)) else slot_status z (int i) = se_status ?e"
    "sl_buf_count z = sl_buf_count impl"
    using check_unused_inv [OF y(1), of i Q] ok' i(2) u unfolding y(2-4) by auto
  have b: "entry_idle ?e = status_idle (fst (slot_status_op (clr_flag_op type) False (slot_status impl index)))"
    using u by (simp add: entry_idle_def st)
  have "mpp_buf_slot_clr_flag impl index type = Inr (MPP_OK, entry_idle ?e, z)"
    using v s z(1) unfolding y_def mpp_buf_slot_clr_flag_def i(1) by simp
  moreover have "if entry_idle ?e then status_idle (slot_status z index)
      else slot_status z index = fst (slot_status_op (clr_flag_op type) False (slot_status impl index))"
    using z(5) by (simp add: i(1) st [unfolded i(1)])
  ultimately show ?thesis
    using z(2-4,6) b i(1) by blast
qed

section \<open>Queues\<close>

lemma word5_succ: "q \<noteq> - 1 \<Longrightarrow> q + 1 \<noteq> 0" for q :: "5 word"
  by (metis add_eq_0_iff2)

lemma enqueue_eq:
  assumes sl: "sl_slots impl = Some es"
    and ok: "slots_ok es (sl_buf_count impl) (sl_used_count impl) (sl_links impl) Q"
    and i: "i < length es" and used: "on_used (se_status (es ! i))"
    and room: "queue_use (se_status (es ! i)) \<noteq> - 1"
    and Q': "Q' = (\<lambda>p. if p = type then remove1 (Entry i) (Q p) @ [Entry i] else remove1 (Entry i) (Q p))"
  shows "\<exists>impl'. mpp_buf_slot_enqueue impl (int i) type = Inr (MPP_OK, impl') \<and>
    sl_slots impl' = Some (es[i := op_entry (enqueue_op type) False (es ! i)]) \<and>
    slots_ok (es[i := op_entry (enqueue_op type) False (es ! i)]) (sl_buf_count impl')
      (sl_used_count impl') (sl_links impl') Q'"
proof -
  let ?e = "op_entry (enqueue_op type) False (es ! i)"
  obtain x where s: "slot_ops_with_log impl (int i) (enqueue_op type) False = Inr x"
    and o': "only_slots impl (es[i := ?e]) x"
    using slot_ops_only [of impl es i "es ! i" impl] sl i by (auto simp: only_slots_def)
  have e: "on_used (se_status ?e)" "queue_use (se_status ?e) \<noteq> 0"
    using used word5_succ [OF room] by (cases type; simp)+
  have "heads_rep Queue (list_add_tail (Entry i) (Queue type) (list_del_init (Entry i) (sl_links impl)))
      (entries (length es)) Q'"
    unfolding Q' using slot_lists.enq_rep [OF slots_okD(3) [OF ok], of "Entry i" type] i
    by (simp add: entries_def)
  then have "slots_ok (es[i := ?e]) (sl_buf_count impl) (sl_used_count impl)
      (list_add_tail (Entry i) (Queue type) (list_del_init (Entry i) (sl_links impl))) Q'"
    by (rule slots_ok_update [OF ok i, rotated 2])
      (use e used slots_okD(4) [OF ok i] in \<open>auto simp: entry_ok_def Q' split: if_splits dest: notin_set_remove1\<close>)
  moreover have "valid_index impl (int i)"
    using i slots_okD(1) [OF ok] by (simp add: valid_index_def)
  ultimately show ?thesis
    using s only_slotsD [OF o'] by (simp add: mpp_buf_slot_enqueue_def)
qed

lemma enqueue_inv:
  assumes "slots_inv impl" and "slot_used impl index" and "queue_use (slot_status impl index) \<noteq> - 1"
  shows "\<exists>impl'. mpp_buf_slot_enqueue impl index type = Inr (MPP_OK, impl') \<and> slots_inv impl'"
proof (rule slots_invE [OF assms(1,2)])
  fix es Q i
  assume a: "sl_slots impl = Some es" "slots_ok es (sl_buf_count impl) (sl_used_count impl) (sl_links impl) Q"
    "i < length es" "on_used (se_status (es ! i))" and b: "slot_status impl index = se_status (es ! i)" "index = int i"
  show ?thesis
    using enqueue_eq [OF a assms(3) [unfolded b(1)] refl, of type] unfolding b(2) slots_inv_def by blast
qed

lemma dequeue_empty:
  assumes "slots_ok es (sl_buf_count impl) u (sl_links impl) Q" and "Q type = []"
  shows "mpp_buf_slot_dequeue impl k type = Inr (MPP_NOK, k, impl)"
  using slot_lists.empty_iff [OF slots_okD(3) [OF assms(1)], of type] assms(2)
  by (simp add: mpp_buf_slot_dequeue_def)

lemma dequeue_eq:
  assumes sl: "sl_slots impl = Some es"
    and ok: "slots_ok es (sl_buf_count impl) (sl_used_count impl) (sl_links impl) Q"
    and Q: "Q type = Entry i # ns"
  shows "i < length es" and "not_ready (se_status (es ! i)) \<Longrightarrow> mpp_buf_slot_dequeue impl k type = Inr (MPP_NOK, k, impl)"
    and "\<not> not_ready (se_status (es ! i)) \<Longrightarrow>
      \<exists>impl'. mpp_buf_slot_dequeue impl k type = Inr (MPP_OK, int i, impl') \<and>
        sl_slots impl' = Some (es[i := op_entry (dequeue_op type) False (es ! i)]) \<and>
        slots_ok (es[i := op_entry (dequeue_op type) False (es ! i)]) (sl_buf_count impl')
          (sl_used_count impl') (sl_links impl') (Q(type := ns))"
proof -
  note rep = slots_okD(3) [OF ok]
  have "Entry i \<in> entries (length es)"
    using slot_lists.rep_subset [OF rep, of type] Q by auto
  then show i: "i < length es"
    by (auto simp: entries_def)
  have ne: "list_empty (Queue type) (sl_links impl) = False" and f: "nxt (sl_links impl) (Queue type) = Entry i"
    using slot_lists.empty_iff [OF rep, of type] slot_lists.first_eq [OF rep Q] Q by simp_all
  note start = mpp_buf_slot_dequeue_def ne f if_False entry_of_def slot_node.case run_bind.simps slot_at_in [OF sl i]
  show "not_ready (se_status (es ! i)) \<Longrightarrow> mpp_buf_slot_dequeue impl k type = Inr (MPP_NOK, k, impl)"
    unfolding start by simp
  assume r: "\<not> not_ready (se_status (es ! i))"
  let ?y = "impl\<lparr>sl_links := list_del_init (Entry i) (sl_links impl)\<rparr>"
  let ?e = "op_entry (dequeue_op type) False (es ! i)"
  obtain x where s: "slot_ops_with_log ?y (int i) (dequeue_op type) False = Inr x"
    and o': "only_slots ?y (es[i := ?e]) x"
    using slot_ops_only [of ?y es i "es ! i" ?y] sl i by (auto simp: only_slots_def)
  have ix: "se_index (es ! i) = int i" "int i < sl_buf_count impl"
    using slots_okD(1) [OF ok] slots_okD(4) [OF ok i] i by simp_all
  have "mpp_buf_slot_dequeue impl k type =
      Inr (MPP_OK, int i, x\<lparr>sl_display_count := sl_display_count x + 1\<rparr>)"
    unfolding start using r ix s by (simp add: Let_def)
  moreover have "on_used (se_status (es ! i))"
    using slots_okD(6) [OF ok, of i type] Q by simp
  then have "on_used (se_status ?e)"
    by (cases type) simp_all
  moreover have out: "Entry i \<notin> set ((Q(type := ns)) q)" for q
    using slot_lists.rep_distinct [OF rep, of type] slot_lists.rep_disjoint [OF rep, of q type] Q by auto
  moreover have keep: "\<exists>p. Entry j \<in> set (Q p)" if "Entry j \<in> set ((Q(type := ns)) q)" for j q
    using that Q by (cases "q = type") (auto intro: exI [of _ type])
  moreover have "heads_rep Queue (list_del_init (Entry i) (sl_links impl)) (entries (length es)) (Q(type := ns))"
    by (rule slot_lists.del_first [OF rep Q])
  then have "slots_ok (es[i := ?e]) (sl_buf_count impl) (sl_used_count impl)
      (list_del_init (Entry i) (sl_links impl)) (Q(type := ns))"
    by (rule slots_ok_update [OF ok i, rotated 2])
      (use out keep ix \<open>on_used (se_status ?e)\<close> \<open>on_used (se_status (es ! i))\<close>
        in \<open>simp_all add: entry_ok_def del: fun_upd_apply\<close>)
  ultimately show "\<exists>impl'. mpp_buf_slot_dequeue impl k type = Inr (MPP_OK, int i, impl') \<and>
      sl_slots impl' = Some (es[i := ?e]) \<and>
      slots_ok (es[i := ?e]) (sl_buf_count impl') (sl_used_count impl') (sl_links impl') (Q(type := ns))"
    using only_slotsD [OF o'] by simp
qed

section \<open>Properties of slots\<close>

text \<open>The invariant looks at the slots, the counts and the links only.\<close>

definition core_of ::
  "MppBufSlotsImpl \<Rightarrow> MppBufSlotEntry list option \<times> int \<times> int \<times> slot_node links" where
  "core_of impl = (sl_slots impl, sl_buf_count impl, sl_used_count impl, sl_links impl)"

lemma core_inv: "core_of impl' = core_of impl \<Longrightarrow> slots_inv impl' = slots_inv impl"
  by (simp add: core_of_def slots_inv_def)

lemma core_used: "core_of impl' = core_of impl \<Longrightarrow> slot_used impl' index = slot_used impl index"
  by (simp add: core_of_def slot_used_def)

lemma core_slot_at: "core_of impl' = core_of impl \<Longrightarrow> slot_at impl' index = slot_at impl index"
  by (simp add: core_of_def slot_at_def)

lemma core_put_slot: "core_of impl' = core_of impl \<Longrightarrow> core_of (put_slot impl' index e) = core_of (put_slot impl index e)"
  by (simp add: core_of_def put_slot_def)

text \<open>An operation that keeps \<open>on_used\<close> and \<open>queue_use\<close>.\<close>

definition benign_op :: "MppBufSlotOps \<Rightarrow> bool" where
  "benign_op op \<longleftrightarrow> op \<in> {SLOT_SET_EOS, SLOT_SET_FRAME, SLOT_SET_BUFFER, SLOT_CLR_NOT_READY}"

lemma benign_inv:
  assumes inv: "slots_inv impl" and used: "slot_used impl index" and op: "benign_op op"
  shows "\<exists>x. slot_ops_with_log impl index op arg = Inr x \<and> slots_inv x \<and> slot_used x index"
proof -
  obtain es Q i where sl: "sl_slots impl = Some es"
    and ok: "slots_ok es (sl_buf_count impl) (sl_used_count impl) (sl_links impl) Q"
    and i: "index = int i" "i < length es" "on_used (se_status (es ! i))"
    by (rule slots_invE [OF inv used])
  let ?e = "op_entry op arg (es ! i)"
  obtain x where s: "slot_ops_with_log impl (int i) op arg = Inr x" and o': "only_slots impl (es[i := ?e]) x"
    using slot_ops_only [of impl es i "es ! i" impl] sl i(2) by (auto simp: only_slots_def)
  have e: "on_used (se_status ?e)" "queue_use (se_status ?e) = queue_use (se_status (es ! i))"
    using op i(3) by (auto simp: benign_op_def)
  have "slots_ok (es[i := ?e]) (sl_buf_count impl) (sl_used_count impl) (sl_links impl) Q"
    by (rule slots_ok_entry [OF ok i(2)])
      (use e i(3) slots_okD(4) [OF ok i(2)] in \<open>simp_all add: entry_ok_def\<close>)
  then show ?thesis
    using s only_slotsD [OF o'] i e by (auto simp: slots_inv_def slot_used_def)
qed

lemma put_slot_inv:
  assumes inv: "slots_inv impl" and used: "slot_used impl index" and at: "slot_at impl index = Inr slot"
    and "se_status e = se_status slot" and "se_index e = se_index slot" and c: "core_of x = core_of impl"
  shows "slots_inv (put_slot x index e)"
proof -
  obtain es Q i where sl: "sl_slots impl = Some es"
    and ok: "slots_ok es (sl_buf_count impl) (sl_used_count impl) (sl_links impl) Q"
    and i: "index = int i" "i < length es" "on_used (se_status (es ! i))"
    by (rule slots_invE [OF inv used])
  have slot: "slot = es ! i"
    using at slot_at_in [OF sl i(2)] i(1) by simp
  have "slots_ok (es[i := e]) (sl_buf_count impl) (sl_used_count impl) (sl_links impl) Q"
    by (rule slots_ok_entry [OF ok i(2)])
      (use assms(4,5) i(3) slots_okD(4) [OF ok i(2)] slot in \<open>simp_all add: entry_ok_def\<close>)
  then have "slots_inv (put_slot impl index e)"
    using put_slot_in [OF sl, of i e] i(1) by (auto simp: slots_inv_def)
  then show ?thesis
    using core_inv [OF core_put_slot [OF c, of index e]] by simp
qed

lemma generate_info_core:
  assumes "generate_info_set env impl frame force = Inr (impl', frame')"
  shows "core_of impl' = core_of impl"
proof -
  obtain legacy f where l: "prepare_info_set_legacy env impl frame force = Inr (legacy, f)"
    using assms by (auto simp: generate_info_set_def run_bind_Inr_iff)
  obtain p i where p: "prepare_info_set_by_sys_cfg env impl f = (p, i)"
    by (cases "prepare_info_set_by_sys_cfg env impl f")
  have "core_of i = core_of impl"
    using p by (auto simp: prepare_info_set_by_sys_cfg_def Let_def core_of_def)
  then show ?thesis
    using assms unfolding generate_info_set_def l run_bind.simps prod.case p Let_def core_of_def by auto
qed

lemma set_prop_eos_inv:
  "slots_inv impl \<Longrightarrow> slot_used impl index \<Longrightarrow> set_prop_eos impl index eos = Inr impl' \<Longrightarrow> slots_inv impl'"
  by (auto simp: set_prop_eos_def run_bind_Inr_iff intro!: put_slot_inv)

lemma set_prop_buffer_inv:
  assumes "slots_inv impl" and "slot_used impl index" and "set_prop_buffer impl index b = Inr impl'"
  shows "slots_inv impl'"
proof -
  obtain slot where at: "slot_at impl index = Inr slot"
    using assms(3) by (auto simp: set_prop_buffer_def run_bind_Inr_iff)
  obtain f r where "impl' = put_slot (impl\<lparr>sl_refs := r\<rparr>) index (slot\<lparr>se_buffer := Some b, se_frame := f\<rparr>)"
    using assms(3) unfolding set_prop_buffer_def at run_bind.simps
    by (auto simp: Let_def split: if_splits option.splits prod.splits)
  then show ?thesis
    using put_slot_inv [OF assms(1,2) at] by (simp add: core_of_def)
qed

lemma set_prop_frame_inv:
  assumes inv: "slots_inv impl" "slot_used impl index" and s: "set_prop_frame env impl index frame = Inr (f, impl')"
  shows "slots_inv impl'"
proof -
  obtain slot where at: "slot_at impl index = Inr slot"
    using s by (auto simp: set_prop_frame_def run_bind_Inr_iff)
  obtain x src where g: "generate_info_set env impl frame False = Inr (x, src)"
    using s unfolding set_prop_frame_def at run_bind.simps by (auto simp: run_bind_Inr_iff split: if_splits)
  obtain dst r where c: "mpp_frame_copy (case se_frame slot of Some f \<Rightarrow> f | None \<Rightarrow> mpp_frame_init) src (sl_refs x) = (dst, r)"
    by (cases "mpp_frame_copy (case se_frame slot of Some f \<Rightarrow> f | None \<Rightarrow> mpp_frame_init) src (sl_refs x)")
  let ?dst = "dst\<lparr>fr_hor_stride := fr_hor_stride src, fr_ver_stride := fr_ver_stride src, fr_eos := se_eos slot\<rparr>"
  let ?y = "put_slot (x\<lparr>sl_refs := r\<rparr>) index (slot\<lparr>se_frame := Some ?dst\<rparr>)"
  have "core_of impl' = core_of ?y"
    using s unfolding set_prop_frame_def at run_bind.simps g prod.case Let_def c
    by (auto simp: core_of_def split: if_splits)
  moreover have "slots_inv ?y"
    by (rule put_slot_inv [OF inv at]) (use generate_info_core [OF g] in \<open>simp_all add: core_of_def\<close>)
  ultimately show ?thesis
    using core_inv by blast
qed

lemma set_prop_inv:
  assumes inv: "slots_inv impl" "slot_used impl index" and ptr: "pr \<noteq> SLOT_FRAME_PTR"
    and s: "mpp_buf_slot_set_prop env impl index pr = Inr (ret, f, impl')"
  shows "slots_inv impl'"
proof -
  have "benign_op (set_val_op pr)"
    using ptr by (cases pr) (simp_all add: benign_op_def)
  then obtain x where x: "slot_ops_with_log impl index (set_val_op pr) True = Inr x" "slots_inv x" "slot_used x index"
    using benign_inv [OF inv] by blast
  have v: "valid_index impl index"
    by (rule slots_invE [OF inv]) simp
  show ?thesis
  proof (cases pr)
    case (SLOT_EOS e)
    then show ?thesis
      using s v x set_prop_eos_inv [OF x(2,3)] by (auto simp: mpp_buf_slot_set_prop_def run_bind_Inr_iff)
  next
    case (SLOT_FRAME fr)
    then show ?thesis
      using s v x set_prop_frame_inv [OF x(2,3)] by (auto simp: mpp_buf_slot_set_prop_def run_bind_Inr_iff)
  next
    case (SLOT_BUFFER b)
    then show ?thesis
      using s v x set_prop_buffer_inv [OF x(2,3)] by (auto simp: mpp_buf_slot_set_prop_def run_bind_Inr_iff)
  next
    case SLOT_FRAME_PTR
    with ptr show ?thesis by simp
  qed
qed

lemma get_prop_core:
  "mpp_buf_slot_get_prop impl index query = Inr (ret, v, impl') \<Longrightarrow> core_of impl' = core_of impl"
  by (auto simp: mpp_buf_slot_get_prop_def run_bind_Inr_iff core_of_def Let_def
      split: if_splits SlotPropQuery.splits option.splits prod.splits)

lemma default_info_inv:
  assumes inv: "slots_inv impl" and used: "slot_used impl index"
    and s: "mpp_buf_slot_default_info impl index = Inr (ret, f, impl')"
  shows "slots_inv impl'"
proof (cases "index < 0")
  case True
  then show ?thesis using s inv by (simp add: mpp_buf_slot_default_info_def)
next
  case False
  obtain slot where at: "slot_at impl index = Inr slot" and n: "se_frame slot = None"
    using s False by (auto simp: mpp_buf_slot_default_info_def run_bind_Inr_iff split: if_splits)
  obtain frame r where c: "mpp_frame_copy mpp_frame_init (sl_info_set impl) (sl_refs impl) = (frame, r)"
    by (cases "mpp_frame_copy mpp_frame_init (sl_info_set impl) (sl_refs impl)")
  let ?y = "put_slot (impl\<lparr>sl_refs := r\<rparr>) index (slot\<lparr>se_frame := Some frame\<rparr>)"
  have y: "slots_inv ?y"
    by (rule put_slot_inv [OF inv used at]) (simp_all add: core_of_def)
  have used_y: "slot_used ?y index"
    using used at by (auto simp: slot_used_def put_slot_def slot_at_def array_get_def nth_list_update split: option.splits if_splits)
  obtain x where x: "slot_ops_with_log ?y index SLOT_CLR_NOT_READY False = Inr x" "slots_inv x" "slot_used x index"
    using benign_inv [OF y used_y, of SLOT_CLR_NOT_READY] by (auto simp: benign_op_def)
  obtain z where z: "slot_ops_with_log x index SLOT_SET_FRAME True = Inr z" "slots_inv z"
    using benign_inv [OF x(2,3), of SLOT_SET_FRAME] by (auto simp: benign_op_def)
  have "impl' = z"
    using s False c x(1) z(1) unfolding mpp_buf_slot_default_info_def at
    by (auto simp: Let_def split: if_splits)
  with z(2) show ?thesis by simp
qed

lemma ready_core:
  "mpp_buf_slot_ready impl mem = Inr (ret, impl') \<Longrightarrow> sl_new_count impl = sl_buf_count impl \<Longrightarrow>
     core_of impl' = core_of impl"
  by (auto simp: mpp_buf_slot_ready_def core_of_def Let_def split: option.splits prod.splits)

lemma adjust_change_inv:
  assumes inv: "slots_inv impl" and s: "adjust_change_slot impl src = Inr impl'"
    and used: "0 \<le> sl_info_change_slot_idx impl \<Longrightarrow> slot_used impl (sl_info_change_slot_idx impl)"
  shows "slots_inv impl'"
proof (cases "sl_info_change_slot_idx impl < 0")
  case True
  then show ?thesis using s inv by (simp add: adjust_change_slot_def)
next
  case False
  let ?i = "sl_info_change_slot_idx impl"
  obtain slot where at: "slot_at impl ?i = Inr slot"
    using s False by (auto simp: adjust_change_slot_def run_bind_Inr_iff)
  obtain f where "impl' = impl\<lparr>sl_info_change_slot_idx := - 1\<rparr> \<or>
      impl' = (put_slot impl ?i (slot\<lparr>se_frame := f\<rparr>))\<lparr>sl_info_change_slot_idx := - 1\<rparr>"
    using s False unfolding adjust_change_slot_def at by (auto simp: Let_def split: option.splits if_splits)
  moreover have "slots_inv (put_slot impl ?i (slot\<lparr>se_frame := f\<rparr>))"
    using False by (intro put_slot_inv [OF inv used at]) simp_all
  then have "slots_inv ((put_slot impl ?i (slot\<lparr>se_frame := f\<rparr>))\<lparr>sl_info_change_slot_idx := - 1\<rparr>)"
    by (rule core_inv [THEN iffD2, rotated]) (simp add: core_of_def)
  moreover have "slots_inv (impl\<lparr>sl_info_change_slot_idx := - 1\<rparr>)"
    by (rule core_inv [THEN iffD2, OF _ inv]) (simp add: core_of_def)
  ultimately show ?thesis by auto
qed

lemma generate_info_change_idx:
  assumes "generate_info_set env impl frame force = Inr (impl', frame')"
  shows "sl_info_change_slot_idx impl' = sl_info_change_slot_idx impl"
proof -
  obtain legacy f where l: "prepare_info_set_legacy env impl frame force = Inr (legacy, f)"
    using assms by (auto simp: generate_info_set_def run_bind_Inr_iff)
  obtain p i where p: "prepare_info_set_by_sys_cfg env impl f = (p, i)"
    by (cases "prepare_info_set_by_sys_cfg env impl f")
  have "sl_info_change_slot_idx i = sl_info_change_slot_idx impl"
    using p by (auto simp: prepare_info_set_by_sys_cfg_def Let_def)
  then show ?thesis
    using assms unfolding generate_info_set_def l run_bind.simps prod.case p Let_def by auto
qed

lemma set_frame_info_inv:
  assumes inv: "slots_inv impl" and s: "set_frame_info env impl frame = Inr (f, impl')"
    and used: "0 \<le> sl_info_change_slot_idx impl \<Longrightarrow> slot_used impl (sl_info_change_slot_idx impl)"
  shows "slots_inv impl'"
proof -
  obtain x fr where g: "generate_info_set env impl frame True = Inr (x, fr)"
    using s by (auto simp: set_frame_info_def run_bind_Inr_iff)
  obtain info r where c1: "mpp_frame_copy (sl_info x) (sl_info_set x) (sl_refs x) = (info, r)"
    by (cases "mpp_frame_copy (sl_info x) (sl_info_set x) (sl_refs x)")
  obtain fr' r' where c2: "mpp_frame_copy fr (sl_info_set x) r = (fr', r')"
    by (cases "mpp_frame_copy fr (sl_info_set x) r")
  let ?y = "x\<lparr>sl_info := info, sl_refs := r'\<rparr>"
  have y: "core_of ?y = core_of impl"
    using generate_info_core [OF g] by (simp add: core_of_def)
  obtain z where z: "adjust_change_slot ?y fr' = Inr z"
    and impl': "impl' = z\<lparr>sl_dec_cfg := map_option (\<lambda>c. dec_status fr') (sl_dec_cfg z)\<rparr>"
    using s unfolding set_frame_info_def g run_bind.simps prod.case c1 c2 Let_def by (auto simp: run_bind_Inr_iff)
  have "slots_inv z"
    by (rule adjust_change_inv [OF _ z])
      (use core_inv [OF y] core_used [OF y] inv used generate_info_change_idx [OF g] in simp_all)
  then show ?thesis
    unfolding impl' by (rule core_inv [THEN iffD2, rotated]) (simp add: core_of_def)
qed

lemma slots_set_prop_inv:
  assumes inv: "slots_inv impl" and s: "mpp_slots_set_prop env impl pr = Inr (ret, f, impl')"
    and "\<And>n. pr \<noteq> SLOTS_COUNT n"
    and used: "0 \<le> sl_info_change_slot_idx impl \<Longrightarrow> slot_used impl (sl_info_change_slot_idx impl)"
  shows "slots_inv impl'"
proof (cases "\<exists>frame. pr = SLOTS_FRAME_INFO frame")
  case True
  then show ?thesis
    using s set_frame_info_inv [OF inv _ used] by (auto simp: mpp_slots_set_prop_def run_bind_Inr_iff)
next
  case False
  then have "core_of impl' = core_of impl"
    using s assms(3) by (cases pr) (auto simp: mpp_slots_set_prop_def core_of_def)
  then show ?thesis
    using inv core_inv by blast
qed

section \<open>Setting the slots up\<close>

lemma ring_init: "ring (INIT_LIST_HEAD n m) n []"
  by (simp add: ring_def INIT_LIST_HEAD_def)

lemma ring_init_other: "n \<noteq> k \<Longrightarrow> ring m k [] \<Longrightarrow> ring (INIT_LIST_HEAD n m) k []"
  by (simp add: ring_def INIT_LIST_HEAD_def)

definition empty_queues :: "slot_node links \<Rightarrow> bool" where
  "empty_queues m \<longleftrightarrow> (\<forall>q. ring m (Queue q) [])"

lemma empty_queues_heads:
  assumes "empty_queues m" and "\<And>i. i < n \<Longrightarrow> ring m (Entry i) []"
  shows "heads_rep Queue m (entries n) (\<lambda>q. [])"
  using assms by (auto simp: heads_rep_def empty_queues_def entries_def)

text \<open>The entries below \<open>i\<close> are initialised, the others untouched.\<close>

lemma init_loop:
  assumes "sl_slots impl = Some es" and "i + n \<le> length es" and "empty_queues (sl_links impl)"
    and "\<And>j. j < i \<Longrightarrow> se_index (es ! j) = pos + int j \<and> se_status (es ! j) = status_zero \<and>
      se_frame (es ! j) = None \<and> ring (sl_links impl) (Entry j) []"
    and "\<And>j. j < length es \<Longrightarrow> se_buffer (es ! j) = None"
  shows "\<exists>es' impl'. init_slot_entry_loop impl pos i n = Inr impl' \<and> sl_slots impl' = Some es' \<and>
    length es' = length es \<and> empty_queues (sl_links impl') \<and> sl_buf_count impl' = sl_buf_count impl \<and>
    (\<forall>j<i + n. se_index (es' ! j) = pos + int j \<and> se_status (es' ! j) = status_zero \<and>
      se_frame (es' ! j) = None \<and> ring (sl_links impl') (Entry j) []) \<and>
    (\<forall>j<length es. se_buffer (es' ! j) = None)"
  using assms
proof (induction n arbitrary: i impl es)
  case (Suc n)
  let ?e = "(es ! i)\<lparr>se_index := pos + int i, se_frame := None\<rparr>"
  let ?x = "impl\<lparr>sl_links := INIT_LIST_HEAD (Entry i) (sl_links impl)\<rparr>"
  let ?y = "put_slot ?x (int i) ?e"
  have i: "i < length es"
    using Suc.prems(2) by simp
  have y: "only_slots ?x (es[i := ?e]) ?y"
    using Suc.prems(1) by (simp add: only_slots_def)
  obtain z where z: "slot_ops_with_log ?y (int i) SLOT_INIT False = Inr z"
    and oz: "only_slots ?x (es[i := op_entry SLOT_INIT False ?e]) z"
    using slot_ops_only [OF y i] by blast
  let ?es = "es[i := op_entry SLOT_INIT False ?e]"
  have step: "init_slot_entry_loop impl pos i (Suc n) = init_slot_entry_loop z pos (i + 1) n"
    using slot_at_in [OF Suc.prems(1) i] z by (simp add: Let_def)
  have "\<exists>es' impl'. init_slot_entry_loop z pos (i + 1) n = Inr impl' \<and> sl_slots impl' = Some es' \<and>
    length es' = length ?es \<and> empty_queues (sl_links impl') \<and> sl_buf_count impl' = sl_buf_count z \<and>
    (\<forall>j<i + 1 + n. se_index (es' ! j) = pos + int j \<and> se_status (es' ! j) = status_zero \<and>
      se_frame (es' ! j) = None \<and> ring (sl_links impl') (Entry j) []) \<and>
    (\<forall>j<length ?es. se_buffer (es' ! j) = None)"
  proof (rule Suc.IH)
    show "sl_slots z = Some ?es" and "i + 1 + n \<le> length ?es"
      using only_slotsD [OF oz] Suc.prems(2) by simp_all
    show "empty_queues (sl_links z)"
      using Suc.prems(3) only_slotsD(4) [OF oz] by (auto simp: empty_queues_def intro: ring_init_other)
    show "se_buffer (?es ! j) = None" if "j < length ?es" for j
      using Suc.prems(5) [of j] that by (cases "j = i") simp_all
    show "se_index (?es ! j) = pos + int j \<and> se_status (?es ! j) = status_zero \<and>
      se_frame (?es ! j) = None \<and> ring (sl_links z) (Entry j) []" if "j < i + 1" for j
    proof (cases "j = i")
      case True
      then show ?thesis
        using i only_slotsD(4) [OF oz] by (simp add: ring_init)
    next
      case False
      then show ?thesis
        using Suc.prems(4) [of j] that only_slotsD(4) [OF oz] by (simp add: ring_init_other)
    qed
  qed
  then show ?case
    unfolding step using only_slotsD(2) [OF oz] by simp
qed (intro exI conjI; assumption | simp)

lemma setup_inv:
  assumes "sl_slots impl = None" and "empty_queues (sl_links impl)" and "0 \<le> count"
  shows "\<exists>impl'. mpp_buf_slot_setup impl count mem = Inr (MPP_OK, impl') \<and> slots_inv impl' \<and>
    sl_buf_count impl' = count \<and> sl_used_count impl' = 0"
proof -
  let ?x = "impl\<lparr>sl_buf_count := count, sl_new_count := count,
    sl_slots := Some (replicate (nat count) entry_zero)\<rparr>"
  have "\<exists>es' impl'. init_slot_entry_loop ?x 0 0 (nat count) = Inr impl' \<and> sl_slots impl' = Some es' \<and>
    length es' = length (replicate (nat count) entry_zero) \<and> empty_queues (sl_links impl') \<and>
    sl_buf_count impl' = sl_buf_count ?x \<and>
    (\<forall>j<0 + nat count. se_index (es' ! j) = 0 + int j \<and> se_status (es' ! j) = status_zero \<and>
      se_frame (es' ! j) = None \<and> ring (sl_links impl') (Entry j) []) \<and>
    (\<forall>j<length (replicate (nat count) entry_zero). se_buffer (es' ! j) = None)"
    by (rule init_loop) (use assms(2) in \<open>simp_all add: entry_zero_def\<close>)
  then obtain es' y where y: "init_slot_entry_loop ?x 0 0 (nat count) = Inr y" "sl_slots y = Some es'"
    "length es' = nat count" "empty_queues (sl_links y)" "sl_buf_count y = count"
    "\<And>j. j < nat count \<Longrightarrow> se_index (es' ! j) = int j \<and> se_status (es' ! j) = status_zero \<and>
      se_frame (es' ! j) = None \<and> ring (sl_links y) (Entry j) []"
    "\<And>j. j < nat count \<Longrightarrow> se_buffer (es' ! j) = None"
    by auto
  have "filter (\<lambda>e. on_used (se_status e)) es' = []"
    using y(3,6) by (auto simp: filter_empty_conv in_set_conv_nth status_zero_def)
  then have u: "used_num es' = 0"
    by (simp add: used_num_def)
  have "slots_ok es' count 0 (sl_links y) (\<lambda>q. [])"
    using y assms(3) u empty_queues_heads [OF y(4), of "length es'"]
    by (simp add: slots_ok_def entry_ok_def status_zero_def)
  then have "slots_inv (y\<lparr>sl_used_count := 0\<rparr>)"
    using y(2,5) by (auto simp: slots_inv_def)
  then show ?thesis
    using y(1,5) assms(1) by (simp add: mpp_buf_slot_setup_def init_slot_entry_def)
qed

lemma init_queues: "sl_slots (mpp_buf_slot_init h d mem m r) = None"
    "empty_queues (sl_links (mpp_buf_slot_init h d mem m r))"
proof -
  show "sl_slots (mpp_buf_slot_init h d mem m r) = None"
    by (simp add: mpp_buf_slot_init_def)
  have "ring (sl_links (mpp_buf_slot_init h d mem m r)) (Queue q) []" for q
    by (cases q) (simp_all add: mpp_buf_slot_init_def ring_init ring_init_other)
  then show "empty_queues (sl_links (mpp_buf_slot_init h d mem m r))"
    by (simp add: empty_queues_def)
qed

lemma init_loop_counts:
  "init_slot_entry_loop impl pos i n = Inr impl' \<Longrightarrow>
     sl_used_count impl' = sl_used_count impl \<and> sl_new_count impl' = sl_new_count impl"
proof (induction n arbitrary: i impl)
  case (Suc n)
  obtain slot where slot: "slot_at impl (int i) = Inr slot"
    using Suc.prems by (cases "slot_at impl (int i)") simp_all
  let ?y = "put_slot (impl\<lparr>sl_links := INIT_LIST_HEAD (Entry i) (sl_links impl)\<rparr>) (int i)
      (slot\<lparr>se_index := pos + int i, se_frame := None\<rparr>)"
  obtain z where z: "slot_ops_with_log ?y (int i) SLOT_INIT False = Inr z"
    using Suc.prems slot by (cases "slot_ops_with_log ?y (int i) SLOT_INIT False") (simp_all add: Let_def)
  have "sl_used_count z = sl_used_count impl \<and> sl_new_count z = sl_new_count impl"
    using z by (auto simp: slot_ops_with_log_def run_bind_Inr_iff Let_def put_slot_def)
  moreover have "init_slot_entry_loop z pos (i + 1) n = Inr impl'"
    using Suc.prems slot z by (simp add: Let_def)
  ultimately show ?case
    using Suc.IH [of z "i + 1"] by simp
qed simp

text \<open>Initialising every slot of a group none of whose slots is in use makes it consistent again.\<close>

lemma reinit_inv:
  assumes "sl_slots impl = Some es" and "length es = nat count" and "0 \<le> count"
    and "empty_queues (sl_links impl)" and "\<forall>j<length es. se_buffer (es ! j) = None" and "sl_used_count impl = 0"
  shows "\<exists>impl'. init_slot_entry impl 0 count = Inr impl' \<and> slots_inv (impl'\<lparr>sl_buf_count := count\<rparr>) \<and>
    sl_new_count impl' = sl_new_count impl"
proof -
  have "\<exists>es' x. init_slot_entry_loop impl 0 0 (nat count) = Inr x \<and> sl_slots x = Some es' \<and>
    length es' = length es \<and> empty_queues (sl_links x) \<and> sl_buf_count x = sl_buf_count impl \<and>
    (\<forall>j<0 + nat count. se_index (es' ! j) = 0 + int j \<and> se_status (es' ! j) = status_zero \<and>
      se_frame (es' ! j) = None \<and> ring (sl_links x) (Entry j) []) \<and>
    (\<forall>j<length es. se_buffer (es' ! j) = None)"
    by (rule init_loop) (use assms in simp_all)
  then obtain es' x where x: "init_slot_entry_loop impl 0 0 (nat count) = Inr x" "sl_slots x = Some es'"
    "length es' = nat count" "empty_queues (sl_links x)"
    "\<And>j. j < nat count \<Longrightarrow> se_index (es' ! j) = int j \<and> se_status (es' ! j) = status_zero \<and>
      se_frame (es' ! j) = None \<and> ring (sl_links x) (Entry j) []"
    "\<And>j. j < nat count \<Longrightarrow> se_buffer (es' ! j) = None"
    using assms(2) by auto
  have "filter (\<lambda>e. on_used (se_status e)) es' = []"
    using x(3,5) by (auto simp: filter_empty_conv in_set_conv_nth status_zero_def)
  then have u: "used_num es' = 0"
    by (simp add: used_num_def)
  have "slots_ok es' count 0 (sl_links x) (\<lambda>q. [])"
    using x assms(3) u empty_queues_heads [OF x(4), of "length es'"]
    by (simp add: slots_ok_def entry_ok_def status_zero_def)
  then show ?thesis
    using x(1,2) init_loop_counts [OF x(1)] assms(6) by (auto simp: slots_inv_def init_slot_entry_def)
qed

lemma slots_inv_unused:
  assumes "slots_inv impl" and "sl_used_count impl = 0" and "sl_slots impl = Some es"
  shows "length es = nat (sl_buf_count impl)" and "0 \<le> sl_buf_count impl" and "empty_queues (sl_links impl)"
    and "\<forall>j<length es. se_buffer (es ! j) = None"
proof -
  obtain Q where ok: "slots_ok es (sl_buf_count impl) (sl_used_count impl) (sl_links impl) Q"
    using assms(1,3) by (auto simp: slots_inv_def)
  show "length es = nat (sl_buf_count impl)" and "0 \<le> sl_buf_count impl"
    using slots_okD(1) [OF ok] by simp_all
  have no: "\<not> on_used (se_status (es ! j))" if "j < length es" for j
    using slots_okD(2) [OF ok] assms(2) that by (auto simp: used_num_def filter_empty_conv)
  then show "\<forall>j<length es. se_buffer (es ! j) = None"
    using slots_okD(5) [OF ok] by (auto simp: entry_ok_def)
  have "Q q = []" for q
  proof (rule ccontr)
    assume "Q q \<noteq> []"
    then obtain n where n: "n \<in> set (Q q)"
      by (cases "Q q") auto
    then obtain j where "n = Entry j" "j < length es"
      using slot_lists.rep_subset [OF slots_okD(3) [OF ok], of q] by (auto simp: entries_def)
    with n slots_okD(6) [OF ok] no show False by blast
  qed
  then show "empty_queues (sl_links impl)"
    using heads_repD(1) [OF slots_okD(3) [OF ok]] by (metis empty_queues_def)
qed

text \<open>The realloc of the code, with new memory in which no slot has a buffer.\<close>

lemma realloc_no_buffer:
  assumes "\<forall>j<length es. se_buffer (es ! j) = None" and "\<And>i. se_buffer (mem i) = None"
  shows "\<forall>j<length (realloc_slots es count mem). se_buffer (realloc_slots es count mem ! j) = None"
  using assms by (simp add: realloc_slots_def)

lemma length_realloc [simp]: "length (realloc_slots es count mem) = nat count"
  by (simp add: realloc_slots_def)

lemma ready_inv:
  assumes r: "mpp_buf_slot_ready impl mem = Inr (ret, impl')"
    and sl: "sl_slots impl = Some es" and es: "empty_queues (sl_links impl)"
    "\<forall>j<length es. se_buffer (es ! j) = None" "sl_used_count impl = 0"
    and ch: "sl_buf_count impl \<noteq> sl_new_count impl" "0 \<le> sl_new_count impl" "\<And>i. se_buffer (mem i) = None"
  shows "slots_inv impl'"
proof -
  let ?x = "impl\<lparr>sl_slots := Some (realloc_slots es (sl_new_count impl) mem)\<rparr>"
  obtain y where y: "init_slot_entry ?x 0 (sl_new_count impl) = Inr y"
    "slots_inv (y\<lparr>sl_buf_count := sl_new_count impl\<rparr>)" "sl_new_count y = sl_new_count impl"
    using reinit_inv [of ?x "realloc_slots es (sl_new_count impl) mem" "sl_new_count impl"]
      es ch(2) realloc_no_buffer [OF es(2) ch(3)] by auto
  have "core_of impl' = core_of (y\<lparr>sl_buf_count := sl_new_count impl\<rparr>)"
    using r sl ch(1) y(1,3) by (auto simp: mpp_buf_slot_ready_def core_of_def Let_def split: prod.splits)
  with y(2) show ?thesis
    using core_inv by blast
qed

text \<open>A new slot count for a group none of whose slots is in use: the second setup and the \<open>ready\<close> call.\<close>

lemma regrow_inv:
  assumes inv: "slots_inv impl" and u: "sl_used_count impl = 0" and c: "sl_buf_count impl < count"
    and mem: "\<And>i. se_buffer (mem i) = None" "\<And>i. se_buffer (mem' i) = None"
    and s: "mpp_buf_slot_setup impl count mem = Inr (ret, x)" and r: "mpp_buf_slot_ready x mem' = Inr (ret', impl')"
  shows "slots_inv impl'"
proof -
  obtain es where sl: "sl_slots impl = Some es"
    using inv by (auto simp: slots_inv_def)
  note es = slots_inv_unused [OF inv u sl]
  let ?n = "nat (count - sl_buf_count impl)"
  let ?es = "realloc_slots es count mem"
  let ?x = "impl\<lparr>sl_slots := Some ?es\<rparr>"
  have "\<exists>es' y. init_slot_entry_loop ?x (sl_buf_count impl) 0 ?n = Inr y \<and> sl_slots y = Some es' \<and>
    length es' = length ?es \<and> empty_queues (sl_links y) \<and> sl_buf_count y = sl_buf_count ?x \<and>
    (\<forall>j<0 + ?n. se_index (es' ! j) = sl_buf_count impl + int j \<and> se_status (es' ! j) = status_zero \<and>
      se_frame (es' ! j) = None \<and> ring (sl_links y) (Entry j) []) \<and>
    (\<forall>j<length ?es. se_buffer (es' ! j) = None)"
    by (rule init_loop) (use es c realloc_no_buffer [OF es(4) mem(1)] in simp_all)
  then obtain es' y where y: "init_slot_entry_loop ?x (sl_buf_count impl) 0 ?n = Inr y" "sl_slots y = Some es'"
    "length es' = nat count" "empty_queues (sl_links y)" "sl_buf_count y = sl_buf_count impl"
    "\<forall>j<length es'. se_buffer (es' ! j) = None"
    by auto
  have "x = y\<lparr>sl_new_count := count\<rparr>"
    using s sl c y(1) by (simp add: mpp_buf_slot_setup_def init_slot_entry_def)
  then show ?thesis
    using ready_inv [OF r, of es'] y init_loop_counts [OF y(1)] u c es(2) mem(2) by simp
qed

lemma setup_again_core:
  assumes "slots_inv impl" and "count \<le> sl_buf_count impl" and "mpp_buf_slot_setup impl count mem = Inr (ret, impl')"
  shows "core_of impl' = core_of impl"
  using assms by (auto simp: slots_inv_def mpp_buf_slot_setup_def core_of_def)

section \<open>Resetting a slot\<close>

text \<open>The three status operations of the reset.\<close>

lemma reset_eq:
  assumes sl: "sl_slots impl = Some es" and i: "i < length es" and v: "valid_index impl (int i)"
  shows "\<exists>e impl'. mpp_buf_slot_reset impl (int i) = Inr (MPP_OK, impl') \<and>
    only_slots (impl\<lparr>sl_links := list_del_init (Entry i) (sl_links impl)\<rparr>) (es[i := e]) impl' \<and>
    \<not> on_used (se_status e) \<and> (\<not> on_used (se_status (es ! i)) \<and> queue_use (se_status (es ! i)) = 0 \<longrightarrow> e = es ! i)"
proof -
  let ?x = "impl\<lparr>sl_links := list_del_init (Entry i) (sl_links impl)\<rparr>"
  let ?e1 = "op_entry SLOT_CLR_QUEUE_USE False (es ! i)"
  let ?e2 = "op_entry SLOT_DEQUEUE_OUTPUT False ?e1"
  let ?e3 = "op_entry SLOT_CLR_ON_USE False ?e2"
  have o0: "only_slots ?x (es[i := es ! i]) ?x"
    using sl by (simp add: only_slots_def)
  obtain x1 where x1: "slot_ops_with_log ?x (int i) SLOT_CLR_QUEUE_USE False = Inr x1" "only_slots ?x (es[i := ?e1]) x1"
    using slot_ops_only [OF o0 i] by blast
  obtain x2 where x2: "slot_ops_with_log x1 (int i) SLOT_DEQUEUE_OUTPUT False = Inr x2" "only_slots ?x (es[i := ?e2]) x2"
    using slot_ops_only [OF x1(2) i] by blast
  obtain x3 where x3: "slot_ops_with_log x2 (int i) SLOT_CLR_ON_USE False = Inr x3" "only_slots ?x (es[i := ?e3]) x3"
    using slot_ops_only [OF x2(2) i] by blast
  have "mpp_buf_slot_reset impl (int i) = Inr (MPP_OK, x3)"
    using v x1(1) x2(1) x3(1) by (simp add: mpp_buf_slot_reset_def Let_def)
  moreover have "?e3 = es ! i" if "\<not> on_used (se_status (es ! i))" "queue_use (se_status (es ! i)) = 0"
    using that by (simp add: op_entry_def)
  ultimately show ?thesis
    using x3(2) by (intro exI [of _ ?e3] exI [of _ x3]) simp
qed

lemma reset_unused_inv:
  assumes inv: "slots_inv impl" and s: "mpp_buf_slot_reset impl index = Inr (ret, impl')" and u: "\<not> slot_used impl index"
  shows "slots_inv impl'"
proof (cases "index < 0")
  case True
  then show ?thesis
    using s inv by (simp add: mpp_buf_slot_reset_def)
next
  case False
  obtain es Q where sl: "sl_slots impl = Some es"
    and ok: "slots_ok es (sl_buf_count impl) (sl_used_count impl) (sl_links impl) Q"
    using inv unfolding slots_inv_def by blast
  have v: "valid_index impl index"
    using s False by (auto simp: mpp_buf_slot_reset_def split: if_splits)
  then obtain i where i: "index = int i" "i < length es"
    using valid_indexD [OF ok] by blast
  have n: "\<not> on_used (se_status (es ! i))"
    using u sl i by (simp add: slot_used_def)
  then have q: "queue_use (se_status (es ! i)) = 0" and nq: "Entry i \<notin> set (Q q)" for q
    using slots_okD(5,6) [OF ok, of i] i(2) by (auto simp: entry_ok_def)
  have "list_del_init (Entry i) (sl_links impl) = sl_links impl"
    using heads_repD(5) [OF slots_okD(3) [OF ok], of "Entry i"] nq i(2)
    by (intro del_init_single) (auto simp: entries_def)
  then have "core_of impl' = core_of impl"
    using reset_eq [OF sl i(2)] v s n q i(1) sl by (auto simp: only_slots_def core_of_def)
  with inv show ?thesis
    using core_inv by blast
qed

text \<open>The reset of a slot in use leaves \<open>used_count\<close> one too high.\<close>

lemma reset_used_miscounts:
  assumes "slots_inv impl" and "slot_used impl index"
  shows "\<exists>impl'. mpp_buf_slot_reset impl index = Inr (MPP_OK, impl') \<and> \<not> slot_used impl' index \<and>
    sl_used_count impl' = sl_used_count impl \<and> \<not> slots_inv impl'"
proof -
  obtain es Q i where sl: "sl_slots impl = Some es"
    and ok: "slots_ok es (sl_buf_count impl) (sl_used_count impl) (sl_links impl) Q"
    and i: "index = int i" "i < length es" "on_used (se_status (es ! i))" and v: "valid_index impl index"
    by (rule slots_invE [OF assms])
  obtain e x where x: "mpp_buf_slot_reset impl (int i) = Inr (MPP_OK, x)" "\<not> on_used (se_status e)"
    "only_slots (impl\<lparr>sl_links := list_del_init (Entry i) (sl_links impl)\<rparr>) (es[i := e]) x"
    using reset_eq [OF sl i(2)] v i(1) by blast
  have "used_num (es[i := e]) = used_num es - 1"
    using used_num_update [OF i(2), of e] i(3) x(2) by simp
  then have "\<not> slots_inv x"
    using only_slotsD [OF x(3)] slots_okD(2) [OF ok] by (auto simp: slots_inv_def slots_ok_def)
  then show ?thesis
    using x only_slotsD [OF x(3)] i by (auto simp: slot_used_def)
qed

end
