(* ===== verification/Mpp_Slot_Props.thy ===== *)
theory Mpp_Slot_Props
  imports Mpp_Slot_Inv
begin

text \<open>
  The buffer slots as a state machine: the operations the codec, the hal and the parser apply to a
  slot group, the invariant of every reachable state, and what single operations promise on it.
\<close>

section \<open>The state machine\<close>

text \<open>
  One call of the interface. The callers keep these rules: they touch only slots that were given to
  them; a slot has fewer than 31 queue uses; \<open>SLOT_FRAME_PTR\<close> and \<open>SLOTS_COUNT\<close> are read, never
  set; the slot count changes (a second setup and the \<open>ready\<close> call after it) only while no slot is in use,
  and the memory \<open>realloc\<close> adds then has no buffer pointer; only a slot that is not in use is reset. The
  parsers of the repository set a group up once, when they are created, and nothing sets \<open>SLOTS_COUNT\<close>,
  so the first rule they could break is the last one: \<open>mpp_dec_reset_no_thread\<close> resets the output slot of
  an information change, which is in use. Such a reset is no step of the machine; \<open>slot_reach_invariant\<close>
  states what it does to a state of the machine. The rules about \<open>SLOT_FRAME_PTR\<close> and a count that grows
  in use are the subject of \<open>set_frame_ptr_wipes_slot\<close> and \<open>setup_grow_resets_old_slots\<close>.
\<close>

inductive slot_step :: "slot_env \<Rightarrow> MppBufSlotsImpl \<Rightarrow> MppBufSlotsImpl \<Rightarrow> bool" for env where
  step_get_unused: "mpp_buf_slot_get_unused impl = Inr (ret, index, impl') \<Longrightarrow> slot_step env impl impl'"
| step_set_flag: "slot_used impl index \<Longrightarrow>
    (type = SLOT_QUEUE_USE \<longrightarrow> queue_use (slot_status impl index) \<noteq> - 1) \<Longrightarrow>
    mpp_buf_slot_set_flag impl index type = Inr (ret, impl') \<Longrightarrow> slot_step env impl impl'"
| step_clr_flag: "slot_used impl index \<Longrightarrow>
    (type = SLOT_QUEUE_USE \<and> in_queue impl index \<longrightarrow> queue_use (slot_status impl index) \<noteq> 1) \<Longrightarrow>
    mpp_buf_slot_clr_flag impl index type = Inr (ret, freed, impl') \<Longrightarrow> slot_step env impl impl'"
| step_enqueue: "slot_used impl index \<Longrightarrow> queue_use (slot_status impl index) \<noteq> - 1 \<Longrightarrow>
    mpp_buf_slot_enqueue impl index queue = Inr (ret, impl') \<Longrightarrow> slot_step env impl impl'"
| step_dequeue: "mpp_buf_slot_dequeue impl index queue = Inr (ret, index', impl') \<Longrightarrow> slot_step env impl impl'"
| step_set_prop: "slot_used impl index \<Longrightarrow> pr \<noteq> SLOT_FRAME_PTR \<Longrightarrow>
    mpp_buf_slot_set_prop env impl index pr = Inr (ret, frame, impl') \<Longrightarrow> slot_step env impl impl'"
| step_get_prop: "mpp_buf_slot_get_prop impl index query = Inr (ret, v, impl') \<Longrightarrow> slot_step env impl impl'"
| step_default_info: "slot_used impl index \<Longrightarrow>
    mpp_buf_slot_default_info impl index = Inr (ret, frame, impl') \<Longrightarrow> slot_step env impl impl'"
| step_slots_prop: "(\<forall>n. spr \<noteq> SLOTS_COUNT n) \<Longrightarrow>
    (0 \<le> sl_info_change_slot_idx impl \<longrightarrow> slot_used impl (sl_info_change_slot_idx impl)) \<Longrightarrow>
    mpp_slots_set_prop env impl spr = Inr (ret, frame, impl') \<Longrightarrow> slot_step env impl impl'"
| step_slots_get: "mpp_slots_get_prop impl spr = (ret, sval, impl') \<Longrightarrow> slot_step env impl impl'"
| step_dec_cfg: "mpp_buf_slot_set_dec_cfg impl cfg = (ret, impl') \<Longrightarrow> slot_step env impl impl'"
| step_callback: "mpp_buf_slot_set_callback impl cb = (ret, impl') \<Longrightarrow> slot_step env impl impl'"
| step_ready: "sl_new_count impl \<noteq> sl_buf_count impl \<longrightarrow>
      sl_used_count impl = 0 \<and> 0 \<le> sl_new_count impl \<and> (\<forall>i. se_buffer (mem i) = None) \<Longrightarrow>
    mpp_buf_slot_ready impl mem = Inr (ret, impl') \<Longrightarrow> slot_step env impl impl'"
| step_setup: "count \<le> sl_buf_count impl \<Longrightarrow>
    mpp_buf_slot_setup impl count mem = Inr (ret, impl') \<Longrightarrow> slot_step env impl impl'"
| step_regrow: "sl_used_count impl = 0 \<Longrightarrow> sl_buf_count impl < count \<Longrightarrow>
    (\<forall>i. se_buffer (mem i) = None \<and> se_buffer (mem' i) = None) \<Longrightarrow>
    mpp_buf_slot_setup impl count mem = Inr (ret, impl1) \<Longrightarrow>
    mpp_buf_slot_ready impl1 mem' = Inr (ret', impl') \<Longrightarrow> slot_step env impl impl'"
| step_reset: "\<not> slot_used impl index \<Longrightarrow>
    mpp_buf_slot_reset impl index = Inr (ret, impl') \<Longrightarrow> slot_step env impl impl'"

inductive slot_reach :: "slot_env \<Rightarrow> MppBufSlotsImpl \<Rightarrow> bool" for env where
  reach_setup: "0 \<le> count \<Longrightarrow>
    mpp_buf_slot_setup (mpp_buf_slot_init history dbg log_mem links refs) count mem = Inr (ret, impl) \<Longrightarrow>
    slot_reach env impl"
| reach_step: "slot_reach env impl \<Longrightarrow> slot_step env impl impl' \<Longrightarrow> slot_reach env impl'"

lemma get_unused_inv:
  assumes inv: "slots_inv impl" and s: "mpp_buf_slot_get_unused impl = Inr (ret, index, impl')"
  shows "slots_inv impl'"
proof -
  obtain es Q where sl: "sl_slots impl = Some es"
    and ok: "slots_ok es (sl_buf_count impl) (sl_used_count impl) (sl_links impl) Q"
    using inv unfolding slots_inv_def by blast
  have "sl_used_count impl \<noteq> sl_buf_count impl"
    using get_unused_full [OF sl ok] s by auto
  then have "sl_used_count impl < sl_buf_count impl"
    using slots_okD(1,2) [OF ok] used_num_bounds(2) [of es] by simp
  then show ?thesis
    using get_unused_ok [OF sl ok] s by auto
qed

lemma dequeue_inv:
  assumes inv: "slots_inv impl" and s: "mpp_buf_slot_dequeue impl index queue = Inr (ret, index', impl')"
  shows "slots_inv impl'"
proof -
  obtain es Q where sl: "sl_slots impl = Some es"
    and ok: "slots_ok es (sl_buf_count impl) (sl_used_count impl) (sl_links impl) Q"
    using inv unfolding slots_inv_def by blast
  show ?thesis
  proof (cases "Q queue")
    case Nil
    then show ?thesis
      using dequeue_empty [OF ok] s inv by simp
  next
    case (Cons n ns)
    have "n \<in> entries (length es)"
      using slot_lists.rep_subset [OF slots_okD(3) [OF ok], of queue] Cons by auto
    then obtain i where "n = Entry i"
      by (auto simp: entries_def)
    note d = dequeue_eq [OF sl ok Cons [unfolded this]]
    show ?thesis
    proof (cases "not_ready (se_status (es ! i))")
      case True
      then show ?thesis using d(2) s inv by simp
    next
      case False
      then show ?thesis using d(3) [of index] s by (auto simp: slots_inv_def)
    qed
  qed
qed

lemma slot_step_inv: "slot_step env impl impl' \<Longrightarrow> slots_inv impl \<Longrightarrow> slots_inv impl'"
proof (induction rule: slot_step.induct)
  case (step_get_unused impl ret index impl')
  then show ?case by (rule get_unused_inv [rotated])
next
  case (step_set_flag impl index type ret impl')
  then show ?case using set_flag_inv [of impl index type] by auto
next
  case (step_clr_flag impl index type ret freed impl')
  then show ?case using clr_flag_inv [of impl index type] by auto
next
  case (step_enqueue impl index queue ret impl')
  then show ?case using enqueue_inv [of impl index queue] by auto
next
  case (step_dequeue impl index queue ret index' impl')
  then show ?case by (rule dequeue_inv [rotated])
next
  case (step_set_prop impl index pr ret frame impl')
  then show ?case using set_prop_inv by blast
next
  case (step_get_prop impl index query ret v impl')
  then show ?case using get_prop_core core_inv by blast
next
  case (step_default_info impl index ret frame impl')
  then show ?case using default_info_inv by blast
next
  case (step_slots_prop spr impl ret frame impl')
  then show ?case using slots_set_prop_inv by blast
next
  case (step_slots_get impl spr ret sval impl')
  then have "core_of impl' = core_of impl"
    by (auto simp: mpp_slots_get_prop_def core_of_def Let_def split: prod.splits SlotsPropType.splits)
  with step_slots_get(2) show ?case using core_inv by blast
next
  case (step_dec_cfg impl cfg ret impl')
  then have "core_of impl' = core_of impl"
    by (auto simp: mpp_buf_slot_set_dec_cfg_def core_of_def)
  with step_dec_cfg(2) show ?case using core_inv by blast
next
  case (step_callback impl cb ret impl')
  then have "core_of impl' = core_of impl"
    by (auto simp: mpp_buf_slot_set_callback_def core_of_def)
  with step_callback(2) show ?case using core_inv by blast
next
  case (step_ready impl mem ret impl')
  show ?case
  proof (cases "sl_new_count impl = sl_buf_count impl")
    case True
    then show ?thesis using step_ready ready_core core_inv by blast
  next
    case False
    obtain es where "sl_slots impl = Some es"
      using step_ready(3) by (auto simp: slots_inv_def)
    with False step_ready slots_inv_unused [OF step_ready(3)] show ?thesis
      by (intro ready_inv [OF step_ready(2)]) auto
  qed
next
  case (step_setup count impl mem ret impl')
  then show ?case using setup_again_core core_inv by blast
next
  case (step_regrow impl count mem mem' ret impl1 ret' impl')
  then show ?case using regrow_inv [of impl count mem mem'] by blast
next
  case (step_reset impl index ret impl')
  then show ?case using reset_unused_inv by blast
qed

lemma slot_reach_slots_inv: "slot_reach env impl \<Longrightarrow> slots_inv impl"
proof (induction rule: slot_reach.induct)
  case (reach_setup count history dbg log_mem links refs mem ret impl)
  then show ?case
    using setup_inv [OF init_queues, of count history dbg log_mem links refs mem] by auto
next
  case (reach_step impl impl')
  then show ?case using slot_step_inv by blast
qed

section \<open>Concrete slot groups for the witnesses\<close>

definition demo_links :: "slot_node links" where
  "demo_links = \<lparr>nxt = (\<lambda>n. n), prv = (\<lambda>n. n)\<rparr>"

definition demo_refs :: refs where
  "demo_refs = \<lparr>buf_ref = (\<lambda>b. 0), meta_ref = (\<lambda>b. 0)\<rparr>"

text \<open>The state after setting up \<open>count\<close> slots.\<close>

definition demo_slots :: "int \<Rightarrow> MppBufSlotsImpl" where
  "demo_slots count = (case mpp_buf_slot_setup (mpp_buf_slot_init False False [] demo_links demo_refs)
       count (\<lambda>i. entry_zero) of Inr (ret, impl) \<Rightarrow> impl | Inl f \<Rightarrow> mpp_buf_slot_init False False [] demo_links demo_refs)"

lemma demo_slots_setup:
  assumes "0 \<le> count"
  shows "mpp_buf_slot_setup (mpp_buf_slot_init False False [] demo_links demo_refs) count (\<lambda>i. entry_zero)
      = Inr (MPP_OK, demo_slots count)"
    and "slots_inv (demo_slots count)" and "sl_buf_count (demo_slots count) = count"
    and "sl_used_count (demo_slots count) = 0"
  using setup_inv [OF init_queues assms, of False False "[]" demo_links demo_refs "\<lambda>i. entry_zero"]
  by (auto simp: demo_slots_def)

text \<open>The state after taking the first slot, and after making it ready.\<close>

definition demo_taken :: MppBufSlotsImpl where
  "demo_taken = (case mpp_buf_slot_get_unused (demo_slots 2) of Inr (ret, i, impl) \<Rightarrow> impl | Inl f \<Rightarrow> demo_slots 2)"

definition demo_ready :: MppBufSlotsImpl where
  "demo_ready = (case mpp_buf_slot_set_flag demo_taken 0 SLOT_CODEC_READY of Inr (ret, impl) \<Rightarrow> impl | Inl f \<Rightarrow> demo_taken)"

lemma demo_taken_run: "\<exists>ret i. mpp_buf_slot_get_unused (demo_slots 2) = Inr (ret, i, demo_taken)"
proof -
  have "\<not> isl (mpp_buf_slot_get_unused (demo_slots 2))"
    by code_simp
  then obtain ret i impl where "mpp_buf_slot_get_unused (demo_slots 2) = Inr (ret, i, impl)"
    by (metis isl_def obj_sumE prod_cases3)
  then show ?thesis
    by (simp add: demo_taken_def)
qed

lemma demo_taken_facts:
  "slots_inv demo_taken" "slot_used demo_taken 0" "slot_status demo_taken 0 = status_zero\<lparr>on_used := True, not_ready := True\<rparr>"
  "sl_used_count demo_taken = 1"
proof -
  show "slots_inv demo_taken"
    using demo_taken_run get_unused_inv [OF demo_slots_setup(2) [of 2]] by auto
  show "slot_used demo_taken 0" by code_simp
  show "slot_status demo_taken 0 = status_zero\<lparr>on_used := True, not_ready := True\<rparr>" by code_simp
  show "sl_used_count demo_taken = 1" by code_simp
qed

lemma demo_taken_count: "sl_buf_count demo_taken = 2"
  by code_simp

lemma get_unused_fresh_inv:
  assumes inv: "slots_inv impl" and free: "sl_used_count impl < sl_buf_count impl"
  shows "slots_inv (snd (snd (projr (mpp_buf_slot_get_unused impl))))"
proof -
  obtain es Q where sl: "sl_slots impl = Some es"
    and ok: "slots_ok es (sl_buf_count impl) (sl_used_count impl) (sl_links impl) Q"
    using inv unfolding slots_inv_def by blast
  show ?thesis
    using get_unused_ok [OF sl ok free] by auto
qed

section \<open>What the operations promise\<close>



text \<open>
  C14: As long as a slot is free, \<open>mpp_buf_slot_get_unused\<close> returns the index of one that is
  neither in use nor in a queue, marks it in use and counts it; with no slot free it aborts. No slot is
  ever handed out twice.
\<close>
theorem get_unused_fresh:
  assumes "slots_inv impl"
  shows "if sl_used_count impl < sl_buf_count impl
    then \<exists>index impl'. mpp_buf_slot_get_unused impl = Inr (MPP_OK, index, impl') \<and> valid_index impl index \<and>
      \<not> slot_used impl index \<and> \<not> in_queue impl index \<and> slot_used impl' index \<and>
      not_ready (slot_status impl' index) \<and> sl_used_count impl' = sl_used_count impl + 1 \<and> slots_inv impl'
    else mpp_buf_slot_get_unused impl = Inl Aborted"
proof -
  obtain es Q where sl: "sl_slots impl = Some es"
    and ok: "slots_ok es (sl_buf_count impl) (sl_used_count impl) (sl_links impl) Q"
    using assms unfolding slots_inv_def by blast
  show ?thesis
  proof (cases "sl_used_count impl < sl_buf_count impl")
    case True
    then obtain i impl' where r: "mpp_buf_slot_get_unused impl = Inr (MPP_OK, int i, impl')" "i < length es"
      "\<not> on_used (se_status (es ! i))" "slots_inv impl'" "sl_used_count impl' = sl_used_count impl + 1"
      "sl_slots impl' = Some (es[i := op_entry SLOT_SET_NOT_READY False (op_entry SLOT_SET_ON_USE False (es ! i))])"
      using get_unused_ok [OF sl ok] by blast
    have "\<not> in_queue impl (int i)"
      using slots_okD(6) [OF ok, of i] r(2,3) heads_repD(5) [OF slots_okD(3) [OF ok], of "Entry i"]
      by (auto simp: in_queue_def list_empty_def entries_def ring_def)
    then show ?thesis
      using True r sl slots_okD(1) [OF ok] by (auto simp: slot_used_def slot_status_def valid_index_def)
  next
    case False
    then have "sl_used_count impl = sl_buf_count impl"
      using slots_okD(1,2) [OF ok] used_num_bounds(2) [of es] by simp
    then show ?thesis
      using get_unused_full [OF sl ok] by simp
  qed
qed

theorem get_unused_fresh_witness:
  "\<exists>index impl'. mpp_buf_slot_get_unused (demo_slots 2) = Inr (MPP_OK, index, impl') \<and>
    \<not> slot_used (demo_slots 2) index \<and> slot_used impl' index \<and> sl_used_count impl' = 1"
  using get_unused_fresh [OF demo_slots_setup(2) [of 2]] demo_slots_setup(3,4) [of 2] by auto

text \<open>What the cleared flag leaves of the status, whether the slot is released or not.\<close>

lemma unat_le_1: "unat w \<le> 1 \<longleftrightarrow> w = 0 \<or> w = 1" for w :: "2 word"
  by (auto simp: le_Suc_eq word_unat_eq_iff)

lemma clr_flag_status:
  assumes "freed = status_idle (fst (slot_status_op (clr_flag_op type) False s))"
    and "if freed then status_idle s' else s' = fst (slot_status_op (clr_flag_op type) False s)"
  shows "codec_use s' = (codec_use s \<and> type \<noteq> SLOT_CODEC_USE) \<and>
    unat (hal_use s') = unat (hal_use s) - of_bool (type = SLOT_HAL_INPUT) \<and>
    unat (hal_output s') = unat (hal_output s) - of_bool (type = SLOT_HAL_OUTPUT) \<and>
    unat (queue_use s') = unat (queue_use s) - of_bool (type = SLOT_QUEUE_USE) \<and>
    not_ready s' = (type = SLOT_CODEC_READY \<or> not_ready s \<and> \<not> (type = SLOT_HAL_OUTPUT \<and> unat (hal_output s) \<le> 1)) \<and>
    freed = (\<not> not_ready s' \<and> \<not> codec_use s' \<and> unat (hal_use s') = 0 \<and> unat (hal_output s') = 0 \<and> unat (queue_use s') = 0)"
proof -
  let ?t = "fst (slot_status_op (clr_flag_op type) False s)"
  have t: "codec_use ?t = (codec_use s \<and> type \<noteq> SLOT_CODEC_USE)"
    "unat (hal_use ?t) = unat (hal_use s) - of_bool (type = SLOT_HAL_INPUT)"
    "unat (hal_output ?t) = unat (hal_output s) - of_bool (type = SLOT_HAL_OUTPUT)"
    "unat (queue_use ?t) = unat (queue_use s) - of_bool (type = SLOT_QUEUE_USE)"
    by (cases type; simp add: Let_def unat_minus_one)+
  have r: "not_ready ?t = (type = SLOT_CODEC_READY \<or>
      not_ready s \<and> \<not> (type = SLOT_HAL_OUTPUT \<and> unat (hal_output s) \<le> 1))"
    unfolding unat_le_1 by (cases type) (auto simp: Let_def)
  have z: "s' = ?t \<or> freed \<and> status_idle s' \<and> status_idle ?t"
    using assms by (simp only: split: if_splits) blast+
  have same: "codec_use s' = codec_use ?t" "hal_use s' = hal_use ?t" "hal_output s' = hal_output ?t"
      "queue_use s' = queue_use ?t" "not_ready s' = not_ready ?t"
    by (rule disjE [OF z]; simp add: status_idle_def)+
  have idle: "freed = (\<not> not_ready ?t \<and> \<not> codec_use ?t \<and> unat (hal_use ?t) = 0 \<and> unat (hal_output ?t) = 0 \<and>
      unat (queue_use ?t) = 0)"
    unfolding assms(1) status_idle_def unat_eq_zero by blast
  show ?thesis
    unfolding same by (intro conjI t r idle)
qed

lemma unused_holds_nothing:
  assumes "slots_inv x" and "valid_index x index" and "\<not> slot_used x index"
  shows "se_frame (the (sl_slots x) ! nat index) = None \<and> se_buffer (the (sl_slots x) ! nat index) = None"
proof -
  obtain es Q where sl: "sl_slots x = Some es"
    and ok: "slots_ok es (sl_buf_count x) (sl_used_count x) (sl_links x) Q"
    using assms(1) unfolding slots_inv_def by blast
  obtain i where "index = int i" "i < length es"
    using valid_indexD [OF ok assms(2)] by blast
  then show ?thesis
    using slots_okD(5) [OF ok, of i] assms(3) sl by (auto simp: slot_used_def entry_ok_def)
qed

text \<open>
  C17: Clearing a flag of a slot in use does to the status what the flag says: the codec's claim is
  dropped, the count of hal readers, hal writers or queues goes down by one and stays at zero, the last hal
  writer makes the slot ready, and taking back the codec's \<open>ready\<close> makes it not ready; no other claim
  changes. The slot is given back exactly when it is then decoded and no codec, hal reader, hal writer or
  queue is left; then it stops being in use and holds neither frame nor buffer, \<open>used_count\<close> drops by
  one and the callback is due. Otherwise it stays in use.
\<close>
theorem clr_flag_releases_idle:
  assumes "slots_inv impl" and "slot_used impl index"
    and "type = SLOT_QUEUE_USE \<Longrightarrow> in_queue impl index \<Longrightarrow> queue_use (slot_status impl index) \<noteq> 1"
  shows "\<exists>freed impl'. mpp_buf_slot_clr_flag impl index type = Inr (MPP_OK, freed, impl') \<and>
    codec_use (slot_status impl' index) = (codec_use (slot_status impl index) \<and> type \<noteq> SLOT_CODEC_USE) \<and>
    unat (hal_use (slot_status impl' index)) =
      unat (hal_use (slot_status impl index)) - of_bool (type = SLOT_HAL_INPUT) \<and>
    unat (hal_output (slot_status impl' index)) =
      unat (hal_output (slot_status impl index)) - of_bool (type = SLOT_HAL_OUTPUT) \<and>
    unat (queue_use (slot_status impl' index)) =
      unat (queue_use (slot_status impl index)) - of_bool (type = SLOT_QUEUE_USE) \<and>
    not_ready (slot_status impl' index) = (type = SLOT_CODEC_READY \<or>
      not_ready (slot_status impl index) \<and>
      \<not> (type = SLOT_HAL_OUTPUT \<and> unat (hal_output (slot_status impl index)) \<le> 1)) \<and>
    freed = (\<not> not_ready (slot_status impl' index) \<and> \<not> codec_use (slot_status impl' index) \<and>
      unat (hal_use (slot_status impl' index)) = 0 \<and> unat (hal_output (slot_status impl' index)) = 0 \<and>
      unat (queue_use (slot_status impl' index)) = 0) \<and>
    slot_used impl' index = (\<not> freed) \<and> sl_used_count impl' = sl_used_count impl - of_bool freed \<and>
    (freed \<longrightarrow> se_frame (the (sl_slots impl') ! nat index) = None \<and> se_buffer (the (sl_slots impl') ! nat index) = None) \<and>
    slots_inv impl'"
proof -
  obtain freed x where x: "mpp_buf_slot_clr_flag impl index type = Inr (MPP_OK, freed, x)" "slots_inv x"
    "freed = status_idle (fst (slot_status_op (clr_flag_op type) False (slot_status impl index)))"
    "slot_used x index = (\<not> freed)" "sl_buf_count x = sl_buf_count impl" "sl_used_count x = sl_used_count impl - of_bool freed"
    "if freed then status_idle (slot_status x index)
     else slot_status x index = fst (slot_status_op (clr_flag_op type) False (slot_status impl index))"
    using clr_flag_inv [OF assms(1,2), of type] assms(3) by blast
  note st = clr_flag_status [OF x(3,7)]
  have valid: "valid_index x index"
    using slots_invE [OF assms(1,2)] x(5) by (metis valid_index_def)
  have "freed \<Longrightarrow> se_frame (the (sl_slots x) ! nat index) = None \<and> se_buffer (the (sl_slots x) ! nat index) = None"
    using unused_holds_nothing [OF x(2) valid] x(4) by blast
  with x(1,2,4,6) st show ?thesis by blast
qed

theorem clr_flag_releases_idle_witness:
  "\<exists>freed impl'. mpp_buf_slot_clr_flag demo_taken 0 SLOT_HAL_OUTPUT = Inr (MPP_OK, freed, impl') \<and>
    freed \<and> \<not> slot_used impl' 0 \<and> sl_used_count impl' = 0"
  using clr_flag_releases_idle [OF demo_taken_facts(1,2), of SLOT_HAL_OUTPUT]
  by (auto simp: demo_taken_facts(3,4) status_zero_def)

section \<open>Queues are first in, first out\<close>

text \<open>Enqueueing a list of slots, and dequeueing a number of times.\<close>

fun enqueue_all :: "MppBufSlotsImpl \<Rightarrow> SlotQueueType \<Rightarrow> nat list \<Rightarrow> MppBufSlotsImpl run" where
  "enqueue_all impl type [] = Inr impl"
| "enqueue_all impl type (i # is) =
     run_bind (mpp_buf_slot_enqueue impl (int i) type) (\<lambda>(ret, impl). enqueue_all impl type is)"

fun dequeue_all :: "MppBufSlotsImpl \<Rightarrow> SlotQueueType \<Rightarrow> nat \<Rightarrow> (int list \<times> MppBufSlotsImpl) run" where
  "dequeue_all impl type 0 = Inr ([], impl)"
| "dequeue_all impl type (Suc n) =
     run_bind (mpp_buf_slot_dequeue impl (- 1) type) (\<lambda>(ret, index, impl).
       run_bind (dequeue_all impl type n) (\<lambda>(is, impl). Inr (index # is, impl)))"

definition may_enqueue :: "SlotStatus \<Rightarrow> bool" where
  "may_enqueue s \<longleftrightarrow> on_used s \<and> \<not> not_ready s \<and> queue_use s \<noteq> - 1"

lemma queue_op_ready [simp]:
  "not_ready (fst (slot_status_op (enqueue_op type) arg s)) = not_ready s"
  "not_ready (fst (slot_status_op (dequeue_op type) arg s)) = not_ready s"
  by (cases type; simp)+

lemma enqueue_all_eq:
  assumes "sl_slots impl = Some es"
    and "slots_ok es (sl_buf_count impl) (sl_used_count impl) (sl_links impl) Q"
    and "distinct is" and "\<forall>i\<in>set is. i < length es \<and> may_enqueue (se_status (es ! i))"
    and "\<forall>i\<in>set is. Entry i \<notin> set (Q type)"
  shows "\<exists>impl' es' Q'. enqueue_all impl type is = Inr impl' \<and> sl_slots impl' = Some es' \<and>
    slots_ok es' (sl_buf_count impl') (sl_used_count impl') (sl_links impl') Q' \<and>
    Q' type = Q type @ map Entry is \<and> length es' = length es \<and>
    (\<forall>i<length es. not_ready (se_status (es' ! i)) = not_ready (se_status (es ! i)))"
  using assms
proof (induction "is" arbitrary: impl es Q)
  case Nil
  then show ?case
    by (intro exI [of _ impl] exI [of _ es] exI [of _ Q]) simp
next
  case (Cons i "is")
  let ?Q = "\<lambda>p. if p = type then remove1 (Entry i) (Q p) @ [Entry i] else remove1 (Entry i) (Q p)"
  let ?es = "es[i := op_entry (enqueue_op type) False (es ! i)]"
  have i: "i < length es" "on_used (se_status (es ! i))" "queue_use (se_status (es ! i)) \<noteq> - 1" "i \<notin> set is"
    using Cons.prems(3,4) by (simp_all add: may_enqueue_def)
  obtain x where x: "mpp_buf_slot_enqueue impl (int i) type = Inr (MPP_OK, x)" "sl_slots x = Some ?es"
    "slots_ok ?es (sl_buf_count x) (sl_used_count x) (sl_links x) ?Q"
    using enqueue_eq [OF Cons.prems(1,2) i(1-3) refl, of type] by blast
  have "\<exists>impl' es' Q'. enqueue_all x type is = Inr impl' \<and> sl_slots impl' = Some es' \<and>
    slots_ok es' (sl_buf_count impl') (sl_used_count impl') (sl_links impl') Q' \<and>
    Q' type = ?Q type @ map Entry is \<and> length es' = length ?es \<and>
    (\<forall>j<length ?es. not_ready (se_status (es' ! j)) = not_ready (se_status (?es ! j)))"
  proof (rule Cons.IH [OF x(2,3)])
    show "\<forall>j\<in>set is. j < length ?es \<and> may_enqueue (se_status (?es ! j))"
      using Cons.prems(4) i(4) by (metis length_list_update list.set_intros(2) nth_list_update_neq)
    show "\<forall>j\<in>set is. Entry j \<notin> set (?Q type)"
      using Cons.prems(5) i(4) by (auto dest: notin_set_remove1)
  qed (use Cons.prems(3) in simp)
  moreover have "?Q type = Q type @ [Entry i]"
    using Cons.prems(5) by (simp add: remove1_idem)
  ultimately obtain impl' es' Q' where y: "enqueue_all x type is = Inr impl'" "sl_slots impl' = Some es'"
    "slots_ok es' (sl_buf_count impl') (sl_used_count impl') (sl_links impl') Q'"
    "Q' type = Q type @ map Entry (i # is)" "length es' = length es"
    "\<forall>j<length es. not_ready (se_status (es' ! j)) = not_ready (se_status (?es ! j))"
    by auto
  have "not_ready (se_status (?es ! j)) = not_ready (se_status (es ! j))" for j
    by (cases "j = i"; cases "i < length es") (simp_all add: list_update_beyond)
  then show ?case
    using x(1) y by auto
qed

lemma dequeue_all_eq:
  assumes "sl_slots impl = Some es"
    and "slots_ok es (sl_buf_count impl) (sl_used_count impl) (sl_links impl) Q"
    and "Q type = map Entry is" and "\<forall>i\<in>set is. \<not> not_ready (se_status (es ! i))"
  shows "\<exists>impl'. dequeue_all impl type (length is) = Inr (map int is, impl')"
  using assms
proof (induction "is" arbitrary: impl es Q)
  case (Cons i "is")
  let ?es = "es[i := op_entry (dequeue_op type) False (es ! i)]"
  obtain x where x: "mpp_buf_slot_dequeue impl (- 1) type = Inr (MPP_OK, int i, x)" "sl_slots x = Some ?es"
    "slots_ok ?es (sl_buf_count x) (sl_used_count x) (sl_links x) (Q(type := map Entry is))"
    using dequeue_eq(3) [OF Cons.prems(1,2), of type i "map Entry is" "- 1"] Cons.prems(3,4) by auto
  have "not_ready (se_status (?es ! j)) = not_ready (se_status (es ! j))" for j
    by (cases "j = i"; cases "i < length es") (simp_all add: list_update_beyond)
  then have "\<exists>impl'. dequeue_all x type (length is) = Inr (map int is, impl')"
    using Cons.IH [OF x(2,3)] Cons.prems(4) by auto
  then show ?case
    using x(1) by auto
qed simp

text \<open>
  C34: Slots that are decoded and in use and are put one after the other into an empty output,
  display, deinterlace or conversion queue come out in the same order, whatever queues they were in
  before: pictures are displayed in the order in which the codec outputs them.
\<close>
theorem slot_queue_fifo:
  assumes "slots_inv impl" and "mpp_slots_is_empty impl type = 1" and "distinct is"
    and "\<And>i. i \<in> set is \<Longrightarrow> slot_used impl (int i) \<and> may_enqueue (slot_status impl (int i))"
  shows "\<exists>impl' impl''. enqueue_all impl type is = Inr impl' \<and>
    dequeue_all impl' type (length is) = Inr (map int is, impl'')"
proof -
  obtain es Q where sl: "sl_slots impl = Some es"
    and ok: "slots_ok es (sl_buf_count impl) (sl_used_count impl) (sl_links impl) Q"
    using assms(1) unfolding slots_inv_def by blast
  have e: "Q type = []"
    using assms(2) slot_lists.empty_iff [OF slots_okD(3) [OF ok], of type]
    by (simp add: mpp_slots_is_empty_def of_bool_def split: if_splits)
  have i: "\<forall>i\<in>set is. i < length es \<and> may_enqueue (se_status (es ! i))"
    using assms(4) sl by (auto simp: slot_used_def slot_status_def)
  obtain impl' es' Q' where x: "enqueue_all impl type is = Inr impl'" "sl_slots impl' = Some es'"
    "slots_ok es' (sl_buf_count impl') (sl_used_count impl') (sl_links impl') Q'"
    "Q' type = map Entry is" "\<forall>i<length es. not_ready (se_status (es' ! i)) = not_ready (se_status (es ! i))"
    using enqueue_all_eq [OF sl ok assms(3) i, of type] e by auto
  have "\<forall>i\<in>set is. \<not> not_ready (se_status (es' ! i))"
    using x(5) i by (auto simp: may_enqueue_def)
  then show ?thesis
    using x(1) dequeue_all_eq [OF x(2-4)] by blast
qed

text \<open>Two slots taken and decoded.\<close>

definition demo_two :: MppBufSlotsImpl where
  "demo_two = snd (snd (projr (mpp_buf_slot_get_unused demo_taken)))"

definition demo_two_ready :: MppBufSlotsImpl where
  "demo_two_ready = snd (projr (mpp_buf_slot_set_flag
     (snd (projr (mpp_buf_slot_set_flag demo_two 0 SLOT_CODEC_READY))) 1 SLOT_CODEC_READY))"

lemma set_flag_projr:
  "slots_inv impl \<Longrightarrow> slot_used impl index \<Longrightarrow>
     slots_inv (snd (projr (mpp_buf_slot_set_flag impl index SLOT_CODEC_READY)))"
  using set_flag_inv [of impl index SLOT_CODEC_READY] by auto

lemma demo_two_ready_inv: "slots_inv demo_two_ready"
proof -
  have "slots_inv demo_two"
    using get_unused_fresh_inv [OF demo_taken_facts(1)] by (simp add: demo_two_def demo_taken_facts(4) demo_taken_count)
  moreover have "slot_used demo_two 0"
    and "slot_used (snd (projr (mpp_buf_slot_set_flag demo_two 0 SLOT_CODEC_READY))) 1"
    by code_simp+
  ultimately show ?thesis
    unfolding demo_two_ready_def by (intro set_flag_projr)
qed

theorem slot_queue_fifo_witness:
  "\<exists>impl' impl''. enqueue_all demo_two_ready QUEUE_DISPLAY [1, 0] = Inr impl' \<and>
    dequeue_all impl' QUEUE_DISPLAY 2 = Inr ([1, 0], impl'')"
proof -
  have "mpp_slots_is_empty demo_two_ready QUEUE_DISPLAY = 1"
    and "slot_used demo_two_ready 0" "slot_used demo_two_ready 1"
    and "may_enqueue (slot_status demo_two_ready 0)" "may_enqueue (slot_status demo_two_ready 1)"
    by code_simp+
  then have "slot_used demo_two_ready (int i) \<and> may_enqueue (slot_status demo_two_ready (int i))"
    if "i \<in> set [1, 0]" for i
    using that by auto
  with \<open>mpp_slots_is_empty demo_two_ready QUEUE_DISPLAY = 1\<close> show ?thesis
    using slot_queue_fifo [OF demo_two_ready_inv, of QUEUE_DISPLAY "[1, 0]"]
    by (simp only: distinct.simps list.set list.map list.size) (simp add: numeral_2_eq_2)
qed

section \<open>Operations that break the rules\<close>

lemma init_loop_status:
  assumes "sl_slots impl = Some es" and "i + n \<le> length es"
    and "\<And>j. j < i \<Longrightarrow> se_index (es ! j) = pos + int j \<and> se_status (es ! j) = status_zero"
  shows "\<exists>es' impl'. init_slot_entry_loop impl pos i n = Inr impl' \<and> sl_slots impl' = Some es' \<and>
    length es' = length es \<and> sl_used_count impl' = sl_used_count impl \<and>
    (\<forall>j<i + n. se_index (es' ! j) = pos + int j \<and> se_status (es' ! j) = status_zero)"
  using assms
proof (induction n arbitrary: i impl es)
  case (Suc n)
  let ?e = "(es ! i)\<lparr>se_index := pos + int i, se_frame := None\<rparr>"
  let ?x = "impl\<lparr>sl_links := INIT_LIST_HEAD (Entry i) (sl_links impl)\<rparr>"
  let ?es = "es[i := op_entry SLOT_INIT False ?e]"
  have i: "i < length es"
    using Suc.prems(2) by simp
  have "only_slots ?x (es[i := ?e]) (put_slot ?x (int i) ?e)"
    using Suc.prems(1) by (simp add: only_slots_def)
  then obtain z where z: "slot_ops_with_log (put_slot ?x (int i) ?e) (int i) SLOT_INIT False = Inr z"
    and oz: "only_slots ?x ?es z"
    using slot_ops_only i by blast
  have "se_index (?es ! j) = pos + int j \<and> se_status (?es ! j) = status_zero" if "j < i + 1" for j
    using Suc.prems(3) [of j] that i by (cases "j = i") simp_all
  then show ?case
    using Suc.IH [of z ?es "i + 1"] Suc.prems(2) only_slotsD [OF oz] slot_at_in [OF Suc.prems(1) i] z
    by (simp add: Let_def)
qed simp

text \<open>
  Setting \<open>SLOT_FRAME_PTR\<close>, a property with no entry in the table \<open>set_val_op\<close>, runs the
  operation \<open>SLOT_INIT\<close>: the slot loses its status, and with it the mark that it is in use, while
  \<open>used_count\<close> still counts it, so the group is no longer consistent.
\<close>
theorem set_frame_ptr_wipes_slot:
  assumes "slots_inv impl" and "slot_used impl index"
  shows "\<exists>impl'. mpp_buf_slot_set_prop env impl index SLOT_FRAME_PTR = Inr (MPP_OK, None, impl') \<and>
    slot_status impl' index = status_zero \<and> sl_used_count impl' = sl_used_count impl \<and> \<not> slots_inv impl'"
proof -
  obtain es Q i where sl: "sl_slots impl = Some es"
    and ok: "slots_ok es (sl_buf_count impl) (sl_used_count impl) (sl_links impl) Q"
    and i: "index = int i" "i < length es" "on_used (se_status (es ! i))" and v: "valid_index impl index"
    by (rule slots_invE [OF assms])
  let ?e = "op_entry SLOT_INIT True (es ! i)"
  obtain x where x: "slot_ops_with_log impl (int i) SLOT_INIT True = Inr x" and o': "only_slots impl (es[i := ?e]) x"
    using slot_ops_only [of impl es i "es ! i" impl] sl i(2) by (auto simp: only_slots_def)
  have "used_num (es[i := ?e]) = used_num es - 1"
    using used_num_update [OF i(2), of ?e] i(3) by (simp add: status_zero_def)
  then have "\<not> slots_inv x"
    using only_slotsD [OF o'] slots_okD(2) [OF ok] by (auto simp: slots_inv_def slots_ok_def)
  then show ?thesis
    using x v only_slotsD [OF o'] i by (simp add: mpp_buf_slot_set_prop_def slot_status_def)
qed

theorem set_frame_ptr_wipes_slot_witness:
  "\<exists>impl'. mpp_buf_slot_set_prop \<lparr>env_legacy_align = False, env_odd_256 = False, env_soc = ROCKCHIP_SOC_RK3588\<rparr>
      demo_taken 0 SLOT_FRAME_PTR = Inr (MPP_OK, None, impl') \<and> \<not> slots_inv impl'"
  using set_frame_ptr_wipes_slot [OF demo_taken_facts(1,2)] by blast

text \<open>
  Growing a slot group that is in use re-initialises its first slots and not the new ones: a
  second setup with more slots clears the status of slot 0 and gives it the index of the first new
  slot, although the slot is in use.
\<close>
theorem setup_grow_resets_old_slots:
  assumes "slots_inv impl" and "slot_used impl 0" and "sl_buf_count impl < count"
  shows "\<exists>impl'. mpp_buf_slot_setup impl count mem = Inr (MPP_OK, impl') \<and>
    \<not> slot_used impl' 0 \<and> se_index (the (sl_slots impl') ! 0) = sl_buf_count impl \<and>
    sl_used_count impl' = sl_used_count impl"
proof -
  obtain es Q where sl: "sl_slots impl = Some es"
    and ok: "slots_ok es (sl_buf_count impl) (sl_used_count impl) (sl_links impl) Q" and e: "0 < length es"
    by (rule slots_invE [OF assms(1,2)]) auto
  define x where "x = impl\<lparr>sl_slots := Some (realloc_slots es count mem)\<rparr>"
  have len: "sl_buf_count impl = int (length es)" and rl: "length (realloc_slots es count mem) = nat count"
    by (simp_all add: slots_okD(1) [OF ok] realloc_slots_def)
  have "\<exists>es' x'. init_slot_entry_loop x (sl_buf_count impl) 0 (nat (count - sl_buf_count impl)) = Inr x' \<and>
    sl_slots x' = Some es' \<and> length es' = nat count \<and> sl_used_count x' = sl_used_count x \<and>
    (\<forall>j<nat (count - sl_buf_count impl). se_index (es' ! j) = sl_buf_count impl + int j \<and> se_status (es' ! j) = status_zero)"
    using init_loop_status [of x "realloc_slots es count mem" 0 "nat (count - sl_buf_count impl)" "sl_buf_count impl"]
      rl assms(3) len by (auto simp: x_def)
  then obtain es' x' where x': "init_slot_entry_loop x (sl_buf_count impl) 0 (nat (count - sl_buf_count impl)) = Inr x'"
    "sl_slots x' = Some es'" "sl_used_count x' = sl_used_count impl"
    "se_index (es' ! 0) = sl_buf_count impl" "se_status (es' ! 0) = status_zero"
    using assms(3) by (auto simp: x_def)
  have "mpp_buf_slot_setup impl count mem = Inr (MPP_OK, x'\<lparr>sl_new_count := count\<rparr>)"
    using sl assms(3) x'(1) by (simp add: mpp_buf_slot_setup_def init_slot_entry_def x_def)
  then show ?thesis
    using x' by (simp add: slot_used_def status_zero_def)
qed

theorem setup_grow_resets_old_slots_witness:
  "\<exists>impl'. mpp_buf_slot_setup demo_taken 3 (\<lambda>i. entry_zero) = Inr (MPP_OK, impl') \<and>
    \<not> slot_used impl' 0 \<and> se_index (the (sl_slots impl') ! 0) = 2 \<and> sl_used_count impl' = 1"
  using setup_grow_resets_old_slots [OF demo_taken_facts(1,2), of 3 "\<lambda>i. entry_zero"]
  by (simp add: demo_taken_count demo_taken_facts(4))

end
