(* ===== verification/Mpp_Slot_Log.thy ===== *)
theory Mpp_Slot_Log
  imports Mpp_Buf_Slot
begin

text \<open>
  The operation log of the buffer slots is a ring of \<open>max_count\<close> entries with 16-bit positions. It is
  shown to refine the list of all operations written since the last reset: a dump prints the last
  \<open>max_count\<close> of them, oldest first, and leaves the log empty.
\<close>

section \<open>Representation\<close>

text \<open>
  \<open>ring_rep es n c r w hist\<close>: the ring \<open>es\<close> of size \<open>n\<close> holds the last \<open>c\<close> entries of \<open>hist\<close> from position \<open>r\<close>
  on, and the next one goes to \<open>w\<close>.
\<close>

definition ring_rep :: "'a list \<Rightarrow> nat \<Rightarrow> nat \<Rightarrow> nat \<Rightarrow> nat \<Rightarrow> 'a list \<Rightarrow> bool" where
  "ring_rep es n c r w hist \<longleftrightarrow>
     n \<noteq> 0 \<and> n \<le> length es \<and> c \<le> n \<and> c \<le> length hist \<and> (c < n \<longrightarrow> c = length hist) \<and>
     r < n \<and> w = (r + c) mod n \<and> (\<forall>k<c. es ! ((r + k) mod n) = hist ! (length hist - c + k))"

definition log_rep :: "MppBufSlotLogs \<Rightarrow> MppBufSlotLog list \<Rightarrow> bool" where
  "log_rep l hist \<longleftrightarrow> ring_rep (log_entries l) (unat (log_max_count l)) (unat (log_count l))
     (unat (log_read l)) (unat (log_write l)) hist"

definition log_entry :: "int \<Rightarrow> MppBufSlotOps \<Rightarrow> SlotStatus \<Rightarrow> SlotStatus \<Rightarrow> MppBufSlotLog" where
  "log_entry index op before after = \<lparr>log_index = index, log_ops = op, status_in = before, status_out = after\<rparr>"

lemma unat_succ_below:
  assumes "unat (p :: u16) < unat (n :: u16)"
  shows "unat (p + 1) = unat p + 1"
proof -
  have "unat n < 2 ^ LENGTH(16)"
    by (rule unsigned_less)
  then show ?thesis
    using assms by (subst unat_add_lem [THEN iffD1]) simp_all
qed

text \<open>The advance of a position, for any 16-bit counter below the size.\<close>

definition advance :: "u16 \<Rightarrow> u16 \<Rightarrow> u16" where
  "advance n p = (if p + 1 \<ge> n then 0 else p + 1)"

lemma advance_mod:
  assumes "unat p < unat n"
  shows "unat (advance n p) = (unat p + 1) mod unat n"
proof -
  have s: "unat (p + 1) = unat p + 1"
    by (rule unat_succ_below [OF assms])
  show ?thesis
    using assms s by (cases "unat p + 1 = unat n") (simp_all add: advance_def word_le_nat_alt)
qed

lemma buf_slot_logs_write_eq:
  "buf_slot_logs_write l index op before after =
     (let l = l\<lparr>log_entries := (log_entries l)[unat (log_write l) := log_entry index op before after],
                log_write := advance (log_max_count l) (log_write l)\<rparr>
      in if log_count l < log_max_count l then l\<lparr>log_count := log_count l + 1\<rparr>
         else l\<lparr>log_read := advance (log_max_count l) (log_read l)\<rparr>)"
  by (simp add: buf_slot_logs_write_def advance_def log_entry_def Let_def)

lemma mod_add_inj:
  assumes "k < n" "j < n" "((r::nat) + k) mod n = (r + j) mod n"
  shows "k = j"
proof -
  have "int (r + k) mod int n = int (r + j) mod int n"
    using assms(3) by (metis of_nat_mod)
  then have "int n dvd int k - int j"
    by (simp add: mod_eq_dvd_iff)
  then have "int k mod int n = int j mod int n"
    by (simp add: mod_eq_dvd_iff)
  then show ?thesis
    using assms(1,2) by simp
qed


lemma log_rep_reset:
  assumes "log_max_count l \<noteq> 0" and "unat (log_max_count l) \<le> length (log_entries l)"
  shows "log_rep (buf_slot_logs_reset l) []"
  using assms by (auto simp: log_rep_def ring_rep_def buf_slot_logs_reset_def unat_eq_0 unat_gt_0)

lemma ring_rep_write:
  assumes "ring_rep es n c r w hist"
  shows "ring_rep (es[w := e]) n (if c < n then c + 1 else c) (if c < n then r else (r + 1) mod n)
    ((w + 1) mod n) (hist @ [e])"
proof -
  have i: "n \<noteq> 0" "n \<le> length es" "c \<le> n" "c \<le> length hist" "c < n \<longrightarrow> c = length hist" "r < n"
    "w = (r + c) mod n" and old: "k < c \<Longrightarrow> es ! ((r + k) mod n) = hist ! (length hist - c + k)" for k
    using assms by (simp_all add: ring_rep_def)
  have w: "w < n"
    using i by simp
  have keep: "es[w := e] ! ((r + k) mod n) = hist ! (length hist - c + k)" if "k < c" "k \<noteq> c mod n" for k
  proof -
    have "(r + k) mod n \<noteq> w"
    proof
      assume "(r + k) mod n = w"
      then have "(r + k) mod n = (r + c mod n) mod n"
        using i(7) by (simp add: mod_add_right_eq)
      then have "k = c mod n"
        by (intro mod_add_inj [of k n "c mod n" r]) (use that i in simp_all)
      with that show False by simp
    qed
    then show ?thesis
      using old [OF that(1)] by simp
  qed
  have new: "es[w := e] ! w = e"
    using w i(2) by simp
  show ?thesis
  proof (cases "c < n")
    case True
    then have cl: "c = length hist"
      using i(5) by simp
    have c: "es[w := e] ! ((r + k) mod n) = (hist @ [e]) ! k" if "k < c + 1" for k
    proof (cases "k = c")
      case True
      then show ?thesis using new i(7) cl by simp
    next
      case False
      then show ?thesis
        using keep [of k] that True cl by (simp add: nth_append)
    qed
    have "(w + 1) mod n = (r + (c + 1)) mod n"
      unfolding i(7) by (simp add: mod_Suc_eq)
    then show ?thesis
      using c i(1,2,6) True cl by (simp add: ring_rep_def)
  next
    case False
    then have cn: "c = n" and wr: "w = r"
      using i(3,6,7) by simp_all
    have c: "es[w := e] ! (((r + 1) mod n + k) mod n) = (hist @ [e]) ! (length hist + 1 - n + k)" if "k < n" for k
    proof (cases "k = n - 1")
      case True
      then have "((r + 1) mod n + k) mod n = (r + 1 + (n - 1)) mod n"
        by (simp only: mod_add_left_eq)
      then have "((r + 1) mod n + k) mod n = r"
        using i(1,6) by simp
      then show ?thesis
        using new wr True i(1,4) cn by (simp add: nth_append)
    next
      case False
      then have "((r + 1) mod n + k) mod n = (r + (k + 1)) mod n"
        by (simp add: mod_add_left_eq)
      moreover have "es[w := e] ! ((r + (k + 1)) mod n) = hist ! (length hist - c + (k + 1))"
        by (rule keep) (use False that cn in simp_all)
      moreover have "Suc (length hist + k - n) < length hist" and "length hist + 1 - n + k = length hist - c + (k + 1)"
        using False that i(4) cn by simp_all
      ultimately show ?thesis
        using cn by (simp only: nth_append) simp
    qed
    show ?thesis
      using c i(1,2,4) cn wr by (simp add: ring_rep_def)
  qed
qed

lemma log_rep_write:
  assumes "log_rep l hist"
  shows "log_rep (buf_slot_logs_write l index op before after) (hist @ [log_entry index op before after])"
proof -
  have lt: "unat (log_write l) < unat (log_max_count l)" "unat (log_read l) < unat (log_max_count l)"
    using assms by (simp_all add: log_rep_def ring_rep_def)
  note adv = lt [THEN advance_mod]
  have cnt: "unat (log_count l + 1) = unat (log_count l) + 1" if "log_count l < log_max_count l"
    using that by (intro unat_succ_below) (simp add: word_less_nat_alt)
  show ?thesis
    using ring_rep_write [OF assms [unfolded log_rep_def], of "log_entry index op before after"]
    by (cases "log_count l < log_max_count l")
      (simp_all add: log_rep_def buf_slot_logs_write_eq Let_def adv cnt word_less_nat_alt)
qed

lemma ring_rep_read:
  assumes "ring_rep es n c r w hist" and "c \<noteq> 0"
  shows "es ! r = hist ! (length hist - c)"
  using assms by (auto simp: ring_rep_def dest: spec [of _ 0])

text \<open>Dumping pops the oldest entry; the position of the next write does not matter to it.\<close>

lemma logs_dump:
  assumes "c = unat (log_count l)" and "unat (log_read l) < unat (log_max_count l)"
    and "\<And>k. k < c \<Longrightarrow> log_entries l ! ((unat (log_read l) + k) mod unat (log_max_count l)) = xs ! k"
    and "length xs = c"
  shows "fst (buf_slot_logs_dump l) = xs \<and> log_count (snd (buf_slot_logs_dump l)) = 0"
  using assms
proof (induction c arbitrary: l xs)
  case 0
  then show ?case
    by (subst (1 2) buf_slot_logs_dump.simps) (simp add: unat_eq_0)
next
  case (Suc c)
  let ?l = "l\<lparr>log_read := advance (log_max_count l) (log_read l), log_count := log_count l - 1\<rparr>"
  obtain x ys where xs: "xs = x # ys" "length ys = c"
    using Suc.prems(4) by (cases xs) auto
  have nz: "log_count l \<noteq> 0"
    using Suc.prems(1) by auto
  have c: "c = unat (log_count l - 1)"
    using Suc.prems(1) by (simp add: unat_minus_one [OF nz])
  have adv: "unat (advance (log_max_count l) (log_read l)) = (unat (log_read l) + 1) mod unat (log_max_count l)"
    by (rule advance_mod [OF Suc.prems(2)])
  have "log_entries l ! ((unat (log_read l) + 1 + k) mod unat (log_max_count l)) = ys ! k" if "k < c" for k
    using Suc.prems(3) [of "Suc k"] that xs(1) by simp
  then have IH: "fst (buf_slot_logs_dump ?l) = ys \<and> log_count (snd (buf_slot_logs_dump ?l)) = 0"
    by (intro Suc.IH) (use c xs(2) adv Suc.prems(2) in \<open>auto simp: mod_add_left_eq\<close>)
  have step: "buf_slot_logs_dump l =
      (log_entries l ! unat (log_read l) # fst (buf_slot_logs_dump ?l), snd (buf_slot_logs_dump ?l))"
    using nz by (subst buf_slot_logs_dump.simps) (simp add: advance_def Let_def case_prod_beta)
  have "log_entries l ! unat (log_read l) = x"
    using Suc.prems(3) [of 0] xs(1) Suc.prems(2) by simp
  with IH xs(1) show ?case
    by (simp add: step)
qed

section \<open>The log keeps the last operations\<close>

definition write_op :: "int \<times> MppBufSlotOps \<times> SlotStatus \<times> SlotStatus \<Rightarrow> MppBufSlotLogs \<Rightarrow> MppBufSlotLogs" where
  "write_op o' l = (case o' of (index, op, before, after) \<Rightarrow> buf_slot_logs_write l index op before after)"

definition op_log :: "int \<times> MppBufSlotOps \<times> SlotStatus \<times> SlotStatus \<Rightarrow> MppBufSlotLog" where
  "op_log o' = (case o' of (index, op, before, after) \<Rightarrow> log_entry index op before after)"

lemma log_rep_fold: "log_rep l hist \<Longrightarrow> log_rep (fold write_op ops l) (hist @ map op_log ops)"
proof (induction ops arbitrary: l hist)
  case (Cons o' ops)
  have "log_rep (write_op o' l) (hist @ [op_log o'])"
    using log_rep_write [OF Cons.prems] by (cases o') (simp add: write_op_def op_log_def)
  from Cons.IH [OF this] show ?case by simp
qed simp

lemma write_max [simp]: "log_max_count (write_op o' l) = log_max_count l"
  by (cases o') (simp add: write_op_def buf_slot_logs_write_def Let_def)

lemma fold_max [simp]: "log_max_count (fold write_op ops l) = log_max_count l"
  by (induction ops arbitrary: l) simp_all

lemma ring_rep_content:
  assumes "ring_rep es n c r w hist"
  shows "\<And>k. k < c \<Longrightarrow> es ! ((r + k) mod n) = drop (length hist - n) hist ! k"
    and "length (drop (length hist - n) hist) = c" and "r < n"
proof -
  have i: "c \<le> n" "c \<le> length hist" "c < n \<longrightarrow> c = length hist"
    using assms by (simp_all add: ring_rep_def)
  then have d: "length hist - n = length hist - c"
    by (cases "c < n") simp_all
  show "es ! ((r + k) mod n) = drop (length hist - n) hist ! k" if "k < c" for k
    using assms that i(2) unfolding d by (simp add: ring_rep_def)
  show "length (drop (length hist - n) hist) = c"
    using i(2) unfolding d by simp
  show "r < n"
    using assms by (simp add: ring_rep_def)
qed

text \<open>
  C18: After a log of \<open>max_count\<close> entries is created and any number of operations is written to it, a
  dump prints exactly the last \<open>max_count\<close> operations in the order they happened, and empties the log.
\<close>
theorem slot_log_keeps_last:
  assumes "buf_slot_logs_init max_count mem = Some l" and "unat max_count < 2 ^ 16"
    and "unat max_count \<le> length mem"
  shows "fst (buf_slot_logs_dump (fold write_op ops l)) = drop (length ops - unat max_count) (map op_log ops) \<and>
    log_count (snd (buf_slot_logs_dump (fold write_op ops l))) = 0"
proof -
  have m: "unat (ucast max_count :: u16) = unat max_count"
    using assms(2) by (simp add: unsigned_ucast_eq take_bit_nat_eq_self_iff)
  have nz: "max_count \<noteq> 0" and l: "l = buf_slot_logs_reset
        \<lparr>log_max_count = ucast max_count, log_count = 0, log_write = 0, log_read = 0,
         log_entries = take (unat max_count) mem\<rparr>"
    using assms(1) by (auto simp: buf_slot_logs_init_def split: if_splits)
  have nz': "(ucast max_count :: u16) \<noteq> 0"
    using nz m by (metis unat_eq_0)
  have "log_rep l []"
    unfolding l by (rule log_rep_reset) (use nz' m assms(3) in simp_all)
  from log_rep_fold [OF this, of ops]
  have rep: "log_rep (fold write_op ops l) (map op_log ops)" by simp
  have n: "unat (log_max_count (fold write_op ops l)) = unat max_count"
    using m by (simp add: l buf_slot_logs_reset_def)
  note c = ring_rep_content [OF rep [unfolded log_rep_def]]
  show ?thesis
    using logs_dump [OF refl c(3) c(1) c(2)] unfolding n by simp
qed

theorem slot_log_keeps_last_witness:
  "map log_index (fst (buf_slot_logs_dump (fold write_op
     [(7, SLOT_SET_ON_USE, status_zero, status_zero), (8, SLOT_SET_EOS, status_zero, status_zero),
      (9, SLOT_CLR_EOS, status_zero, status_zero)]
     (the (buf_slot_logs_init 2 (replicate 2 (log_entry 0 SLOT_INIT status_zero status_zero))))))) = [8, 9]"
  using slot_log_keeps_last [of 2 "replicate 2 (log_entry 0 SLOT_INIT status_zero status_zero)"
      "the (buf_slot_logs_init 2 (replicate 2 (log_entry 0 SLOT_INIT status_zero status_zero)))"
      "[(7, SLOT_SET_ON_USE, status_zero, status_zero), (8, SLOT_SET_EOS, status_zero, status_zero),
      (9, SLOT_CLR_EOS, status_zero, status_zero)]"]
  by (simp add: buf_slot_logs_init_def op_log_def log_entry_def)

end
