(* ===== verification/Mpp_Task_Inv.thy ===== *)
theory Mpp_Task_Inv
  imports Mpp_Task
begin

text \<open>
  The task queue refines one abstract list of tasks per status: no task is ever lost or duplicated, the
  counters are the lengths of the lists, each port is first in first out, and a task goes around the
  cycle input port, input hold, output port, output hold.
\<close>

section \<open>Abstraction\<close>

interpretation task_lists: list_heads Info
  by unfold_locales (simp add: inj_def)

definition task_nodes :: "nat \<Rightarrow> task_node set" where
  "task_nodes n = Task ` {..<n}"

definition task_rep :: "MppTaskQueueImpl \<Rightarrow> (MppTaskStatus \<Rightarrow> nat list) \<Rightarrow> bool" where
  "task_rep q Q \<longleftrightarrow> (\<exists>ts. tq_tasks q = Some ts \<and> tq_task_count q = int (length ts) \<and>
     heads_rep Info (tq_links q) (task_nodes (length ts)) (\<lambda>st. map Task (Q st)) \<and>
     (\<forall>st. tq_count q st = int (length (Q st))) \<and>
     (\<forall>i<length ts. task_index (ts ! i) = int i \<and> i \<in> set (Q (task_status (ts ! i)))))"

definition task_queue_ok :: "MppTaskQueueImpl \<Rightarrow> (MppTaskStatus \<Rightarrow> nat list) \<Rightarrow> bool" where
  "task_queue_ok q Q \<longleftrightarrow> task_rep q Q \<and> tq_ready q \<and> \<not> tq_locked q"

text \<open>Moving a task in the abstract queue.\<close>

definition move_task :: "nat \<Rightarrow> MppTaskStatus \<Rightarrow> (MppTaskStatus \<Rightarrow> nat list) \<Rightarrow> MppTaskStatus \<Rightarrow> nat list" where
  "move_task i dst Q = (\<lambda>st. if st = dst then remove1 i (Q st) @ [i] else remove1 i (Q st))"

lemma map_Task_remove1: "map Task (remove1 i xs) = remove1 (Task i) (map Task xs)"
  by (induction xs) auto

lemma task_repE:
  assumes "task_rep q Q"
  obtains ts where "tq_tasks q = Some ts" "tq_task_count q = int (length ts)"
    "heads_rep Info (tq_links q) (task_nodes (length ts)) (\<lambda>st. map Task (Q st))"
    "\<And>st. tq_count q st = int (length (Q st))"
    "\<And>i. i < length ts \<Longrightarrow> task_index (ts ! i) = int i \<and> i \<in> set (Q (task_status (ts ! i)))"
  using assms unfolding task_rep_def by blast

text \<open>Every task is in the list of its status and in no other.\<close>

lemma task_rep_lists:
  assumes "task_rep q Q"
  shows "distinct (Q st)" and "p \<noteq> st \<Longrightarrow> set (Q p) \<inter> set (Q st) = {}"
    and "i \<in> set (Q st) \<longleftrightarrow> (\<exists>t. task_at q i = Inr t \<and> task_status t = st)"
proof -
  obtain ts where t: "tq_tasks q = Some ts"
    "heads_rep Info (tq_links q) (task_nodes (length ts)) (\<lambda>st. map Task (Q st))"
    "\<And>i. i < length ts \<Longrightarrow> i \<in> set (Q (task_status (ts ! i)))"
    by (rule task_repE [OF assms]) blast
  show "distinct (Q st)"
    using task_lists.rep_distinct [OF t(2), of st] by (simp add: distinct_map)
  show disj: "set (Q p) \<inter> set (Q st) = {}" if "p \<noteq> st" for p st
    using task_lists.rep_disjoint [OF t(2) that] by auto
  have sub: "i < length ts" if "i \<in> set (Q st)" for i st
    using task_lists.rep_subset [OF t(2), of st] that by (auto simp: task_nodes_def)
  have at: "(\<exists>t. task_at q i = Inr t \<and> task_status t = st) \<longleftrightarrow> i < length ts \<and> task_status (ts ! i) = st"
    using t(1) by (auto simp: task_at_def array_get_def split: if_splits)
  show "i \<in> set (Q st) \<longleftrightarrow> (\<exists>t. task_at q i = Inr t \<and> task_status t = st)"
    unfolding at using t(3) [of i] disj [of "task_status (ts ! i)" st] sub [of i st] by blast
qed

lemma relink_rep:
  assumes rep: "task_rep q Q" and i: "i \<in> set (Q cur)"
  shows "task_rep (relink_task i cur dst q) (move_task i dst Q)"
proof -
  obtain ts where t: "tq_tasks q = Some ts" "tq_task_count q = int (length ts)"
    "heads_rep Info (tq_links q) (task_nodes (length ts)) (\<lambda>st. map Task (Q st))"
    "\<And>st. tq_count q st = int (length (Q st))"
    "\<And>i. i < length ts \<Longrightarrow> task_index (ts ! i) = int i \<and> i \<in> set (Q (task_status (ts ! i)))"
    by (rule task_repE [OF rep]) blast
  have n: "Task i \<in> task_nodes (length ts)"
    using task_lists.rep_subset [OF t(3), of cur] i by auto
  then have il: "i < length ts"
    by (auto simp: task_nodes_def)
  have other: "i \<notin> set (Q st)" if "st \<noteq> cur" for st
    using task_rep_lists(2) [OF rep that] i by auto
  let ?ts = "ts[i := (ts ! i)\<lparr>task_status := dst\<rparr>]"
  let ?m = "list_add_tail (Task i) (Info dst) (list_del_init (Task i) (tq_links q))"
  have "(\<lambda>st. map Task (move_task i dst Q st)) =
      (\<lambda>st. if st = dst then remove1 (Task i) (map Task (Q st)) @ [Task i] else remove1 (Task i) (map Task (Q st)))"
    by (auto simp: move_task_def map_Task_remove1)
  then have "heads_rep Info ?m (task_nodes (length ts)) (\<lambda>st. map Task (move_task i dst Q st))"
    using task_lists.enq_rep [OF t(3) n, of dst] by simp
  moreover have cnt: "((tq_count q)(cur := tq_count q cur - 1)) st + of_bool (st = dst) = int (length (move_task i dst Q st))" for st
  proof (cases "st = cur")
    case True
    have "int (length (remove1 i (Q cur))) = int (length (Q cur)) - 1"
      using i by (cases "Q cur") (auto simp: length_remove1 Suc_diff_1 simp del: One_nat_def dest: length_pos_if_in_set)
    with True show ?thesis
      using t(4) by (cases "cur = dst") (simp_all add: move_task_def)
  next
    case False
    then show ?thesis
      using other [OF False] t(4) by (cases "st = dst") (simp_all add: move_task_def remove1_idem)
  qed
  have "((tq_count q)(cur := tq_count q cur - 1, dst := ((tq_count q)(cur := tq_count q cur - 1)) dst + 1)) st
      = int (length (move_task i dst Q st))" for st
    using cnt [of st] by (cases "st = dst") simp_all
  moreover have "task_index (?ts ! j) = int j \<and> j \<in> set (move_task i dst Q (task_status (?ts ! j)))"
    if "j < length ts" for j
    using t(5) [OF that] that by (cases "j = i") (auto simp: move_task_def)
  moreover have "tq_tasks (relink_task i cur dst q) = Some ?ts" "tq_links (relink_task i cur dst q) = ?m"
    "tq_task_count (relink_task i cur dst q) = int (length ?ts)"
    "tq_count (relink_task i cur dst q) =
      (tq_count q)(cur := tq_count q cur - 1, dst := ((tq_count q)(cur := tq_count q cur - 1)) dst + 1)"
    using t(1,2) by (simp_all add: relink_task_def Let_def)
  ultimately show ?thesis
    unfolding task_rep_def by (intro exI [of _ ?ts] conjI) (simp_all only: length_list_update simp_thms HOL.all_simps, blast)
qed

lemma move_task_head: "Q cur = i # is \<Longrightarrow> (\<And>st. st \<noteq> cur \<Longrightarrow> i \<notin> set (Q st)) \<Longrightarrow> cur \<noteq> dst \<Longrightarrow>
    move_task i dst Q = Q(cur := is, dst := Q dst @ [i])"
  by (rule ext) (auto simp: move_task_def remove1_idem)

text \<open>A task held on one side of a port and given back.\<close>

lemma task_queue_lock: "task_queue_ok q Q \<Longrightarrow> task_rep (mutex_lock q) Q \<and> tq_ready (mutex_lock q)"
  by (simp add: task_queue_ok_def mutex_lock_def task_rep_def)

lemma relink_fields [simp]:
  "tq_ready (relink_task i cur dst q) = tq_ready q" "tq_locked (relink_task i cur dst q) = tq_locked q"
  by (simp_all add: relink_task_def Let_def)

lemma task_rep_cond [simp]: "task_rep (cond_signal st q) Q = task_rep q Q"
  by (simp add: task_rep_def cond_signal_def)

lemma unlock_ok:
  assumes "task_rep q Q" and "tq_ready q" and "tq_locked q"
  shows "\<exists>q'. mutex_unlock q = Inr q' \<and> task_queue_ok q' Q"
  using assms by (auto simp: mutex_unlock_def task_queue_ok_def task_rep_def)

lemma mutex_lock_simps [simp]:
  "tq_locked (mutex_lock q)" "tq_ready (mutex_lock q) = tq_ready q" "tq_count (mutex_lock q) = tq_count q"
  "tq_links (mutex_lock q) = tq_links q" "task_at (mutex_lock q) i = task_at q i"
  by (simp_all add: mutex_lock_def task_at_def)

lemma cond_signal_simps [simp]:
  "tq_locked (cond_signal st q) = tq_locked q" "tq_ready (cond_signal st q) = tq_ready q"
  by (simp_all add: cond_signal_def)

lemma dequeue_refines:
  assumes ok: "task_queue_ok q Q"
  shows "case Q (status_curr port) of
      [] \<Rightarrow> \<exists>q'. mpp_port_dequeue q port task0 = Inr (MPP_NOK, None, q') \<and> task_queue_ok q' Q
    | i # is \<Rightarrow> \<exists>q'. mpp_port_dequeue q port task0 = Inr (MPP_OK, Some i, q') \<and>
        task_queue_ok q' (move_task i (next_on_dequeue port) Q)"
proof -
  have r: "task_rep (mutex_lock q) Q" "tq_ready q"
    using task_queue_lock [OF ok] by simp_all
  obtain ts where t: "tq_tasks (mutex_lock q) = Some ts"
    "heads_rep Info (tq_links q) (task_nodes (length ts)) (\<lambda>st. map Task (Q st))"
    "\<And>st. tq_count q st = int (length (Q st))"
    by (rule task_repE [OF r(1)]) auto
  show ?thesis
  proof (cases "Q (status_curr port)")
    case Nil
    then show ?thesis
      using r t(3) unlock_ok [OF r(1)] by (auto simp: mpp_port_dequeue_def Let_def)
  next
    case (Cons i "is")
    have f: "nxt (tq_links q) (Info (status_curr port)) = Task i"
      using task_lists.first_eq [OF t(2), of "status_curr port" "Task i" "map Task is"] Cons by simp
    obtain task where at: "task_at q i = Inr task"
      using task_rep_lists(3) [OF r(1), of i "status_curr port"] Cons by auto
    have "task_rep (relink_task i (status_curr port) (next_on_dequeue port) (mutex_lock q))
        (move_task i (next_on_dequeue port) Q)"
      by (rule relink_rep [OF r(1)]) (simp add: Cons)
    then show ?thesis
      using unlock_ok r(2) f at t(3) Cons by (fastforce simp: mpp_port_dequeue_def list_first_task_def Let_def)
  qed
qed

lemma enqueue_refines:
  assumes ok: "task_queue_ok q Q" and i: "i \<in> set (Q cur)"
  shows "\<exists>q'. mpp_port_enqueue q port i = Inr (MPP_OK, q') \<and> task_queue_ok q' (move_task i (next_on_enqueue port) Q)"
    and "\<exists>q'. mpp_port_move q port i st = Inr (MPP_OK, q') \<and> task_queue_ok q' (move_task i st Q)"
proof -
  have r: "task_rep (mutex_lock q) Q" "tq_ready q"
    using task_queue_lock [OF ok] by simp_all
  obtain task where at: "task_at q i = Inr task" "task_status task = cur"
    using task_rep_lists(3) [OF r(1), of i cur] i by auto
  have m: "task_rep (relink_task i cur dst (mutex_lock q)) (move_task i dst Q)" for dst
    by (rule relink_rep [OF r(1) i])
  have u: "\<exists>q'. mutex_unlock (cond_signal dst (relink_task i cur dst (mutex_lock q))) = Inr q' \<and>
      task_queue_ok q' (move_task i dst Q)" for dst
    by (rule unlock_ok) (use m r(2) in simp_all)
  show "\<exists>q'. mpp_port_enqueue q port i = Inr (MPP_OK, q') \<and> task_queue_ok q' (move_task i (next_on_enqueue port) Q)"
    using u [of "next_on_enqueue port"] r(2) at by (auto simp: mpp_port_enqueue_def Let_def)
  show "\<exists>q'. mpp_port_move q port i st = Inr (MPP_OK, q') \<and> task_queue_ok q' (move_task i st Q)"
    using u [of st] r(2) at by (auto simp: mpp_port_move_def Let_def)
qed

lemma poll_refines:
  assumes ok: "task_queue_ok q Q"
  shows "\<exists>q'. mpp_port_poll wait q port 0 =
    Inr (if Q (status_curr port) = [] then - 1 else int (length (Q (status_curr port))), q') \<and> task_queue_ok q' Q"
proof -
  have r: "task_rep (mutex_lock q) Q" "tq_ready q"
    using task_queue_lock [OF ok] by simp_all
  obtain ts where t: "\<And>st. tq_count q st = int (length (Q st))"
    by (rule task_repE [OF r(1)]) auto
  show ?thesis
    using unlock_ok [OF r(1)] r(2) t by (auto simp: mpp_port_poll_def Let_def)
qed

section \<open>Setting the queue up\<close>

text \<open>All tasks at the input port.\<close>

definition all_input :: "nat \<Rightarrow> MppTaskStatus \<Rightarrow> nat list" where
  "all_input n st = (if st = MPP_INPUT_PORT then [0..<n] else [])"

lemma all_input_map: "(\<lambda>st. map Task (all_input n st)) = (\<lambda>st. if st = MPP_INPUT_PORT then map Task [0..<n] else [])"
  by (auto simp: all_input_def)

lemma INIT_new:
  assumes "heads_rep Info m (task_nodes i) Q"
  shows "heads_rep Info (INIT_LIST_HEAD (Task i) m) (task_nodes (Suc i)) Q"
proof -
  have out: "Task i \<notin> set (Info st # Q st)" for st
    using heads_repD(2) [OF assms, of st] by (auto simp: task_nodes_def)
  have keep: "ring (INIT_LIST_HEAD (Task i) m) h xs = ring m h xs" if "Task i \<notin> set (h # xs)" for h xs
    by (rule ring_frame) (use that in \<open>auto simp: INIT_LIST_HEAD_def\<close>)
  have nodes: "task_nodes (Suc i) = insert (Task i) (task_nodes i)"
    by (auto simp: task_nodes_def)
  have new: "ring (INIT_LIST_HEAD (Task i) m) (Task i) []"
    by (simp add: ring_def INIT_LIST_HEAD_def)
  show ?thesis
  proof (rule heads_repI)
    fix n assume n: "n \<in> task_nodes (Suc i)" "\<forall>p. n \<notin> set (Q p)"
    show "ring (INIT_LIST_HEAD (Task i) m) n []"
      using n new keep [of n "[]"] heads_repD(5) [OF assms, of n] unfolding nodes by (cases "n = Task i") auto
  qed (use keep [OF out] heads_repD(1-4) [OF assms] in \<open>auto simp: nodes\<close>)
qed

lemma setup_loop_rep:
  assumes "tq_tasks q = Some ts" and "i + n = length ts"
    and "heads_rep Info (tq_links q) (task_nodes i) (\<lambda>st. if st = MPP_INPUT_PORT then map Task [0..<i] else [])"
    and "\<And>st. tq_count q st = (if st = MPP_INPUT_PORT then int i else 0)"
    and "\<And>j. j < i \<Longrightarrow> task_index (ts ! j) = int j \<and> task_status (ts ! j) = MPP_INPUT_PORT"
    and "tq_task_count q = int (length ts)" and "tq_locked q"
  shows "task_rep (setup_tasks_loop meta q i n) (all_input (length ts)) \<and>
    tq_locked (setup_tasks_loop meta q i n)"
  using assms
proof (induction n arbitrary: q ts i)
  case 0
  have "i = length ts"
    using 0(2) by simp
  with 0 have "task_rep q (all_input (length ts))"
    unfolding task_rep_def all_input_map by (auto simp: all_input_def)
  with 0 show ?case by simp
next
  case (Suc n)
  let ?t = "\<lparr>task_index = int i, task_status = MPP_INPUT_PORT, task_meta = meta i\<rparr>"
  let ?Q = "\<lambda>i st. if st = MPP_INPUT_PORT then map Task [0..<i] else []"
  let ?q = "q\<lparr>tq_tasks := Some (ts[i := ?t]),
    tq_links := list_add_tail (Task i) (Info MPP_INPUT_PORT) (INIT_LIST_HEAD (Task i) (tq_links q)), tq_count := (tq_count q)(MPP_INPUT_PORT := tq_count q MPP_INPUT_PORT + 1)\<rparr>"
  have step: "setup_tasks_loop meta q i (Suc n) = setup_tasks_loop meta ?q (i + 1) n"
    using Suc.prems(1) by (simp add: Let_def)
  have "heads_rep Info (list_add_tail (Task i) (Info MPP_INPUT_PORT) (INIT_LIST_HEAD (Task i) (tq_links q)))
      (task_nodes (Suc i)) ((?Q i)(MPP_INPUT_PORT := ?Q i MPP_INPUT_PORT @ [Task i]))"
    by (rule task_lists.heads_add [OF INIT_new [OF Suc.prems(3)]]) (auto simp: task_nodes_def)
  moreover have "(?Q i)(MPP_INPUT_PORT := ?Q i MPP_INPUT_PORT @ [Task i]) = ?Q (i + 1)"
    by auto
  ultimately have "heads_rep Info (tq_links ?q) (task_nodes (i + 1)) (?Q (i + 1))"
    by simp
  moreover have "task_index (ts[i := ?t] ! j) = int j \<and> task_status (ts[i := ?t] ! j) = MPP_INPUT_PORT"
    if "j < i + 1" for j
    using Suc.prems(2) Suc.prems(5) [of j] that by (cases "j = i") auto
  ultimately show ?case
    unfolding step using Suc.IH [of ?q "ts[i := ?t]" "i + 1"] Suc.prems(2,4,6,7) by simp
qed

lemma setup_ok:
  assumes ini: "mpp_task_queue_init (True, True, True) mpp name m = Inr (ret0, Some q0)"
    and su: "mpp_task_queue_setup True meta q0 count = Inr (ret, q)" and "0 \<le> count"
  shows "task_queue_ok q (all_input (nat count)) \<and> ret = MPP_OK"
proof -
  let ?q = "(mutex_lock q0)\<lparr>tq_tasks := Some (replicate (nat count) task_zero), tq_task_count := count\<rparr>"
  have q0: "tq_tasks q0 = None" "tq_task_count q0 = 0" "tq_count q0 = (\<lambda>st. 0)"
    "tq_links q0 = fold (\<lambda>st. INIT_LIST_HEAD (Info st)) [MPP_INPUT_PORT, MPP_INPUT_HOLD, MPP_OUTPUT_PORT, MPP_OUTPUT_HOLD] m"
    using ini by (auto simp: mpp_task_queue_init_def)
  have r: "ring (tq_links q0) (Info st) []" for st
    by (cases st) (simp_all add: q0(4) ring_def INIT_LIST_HEAD_def)
  have "heads_rep Info (tq_links ?q) (task_nodes 0) (\<lambda>st. if st = MPP_INPUT_PORT then map Task [0..<0] else [])"
    using r by (simp add: heads_rep_def task_nodes_def)
  then have "task_rep (setup_tasks_loop meta ?q 0 (nat count)) (all_input (nat count))
      \<and> tq_locked (setup_tasks_loop meta ?q 0 (nat count))"
    using setup_loop_rep [of ?q "replicate (nat count) task_zero" 0 "nat count" meta] assms(3) q0(3)
    by (simp add: mutex_lock_def)
  then show ?thesis
    using su q0(1,2) by (auto simp: mpp_task_queue_setup_def Let_def mutex_unlock_def mutex_lock_def
        task_queue_ok_def task_rep_def)
qed

section \<open>Reachable queues\<close>

text \<open>
  A queue after its setup and any sequence of port operations on its own tasks. \<open>port\<close> ranges over the
  two ports of a queue.
\<close>

inductive task_reach :: "MppTaskQueueImpl \<Rightarrow> bool" where
  reach_setup: "mpp_task_queue_init (True, True, True) mpp name m = Inr (ret0, Some q0) \<Longrightarrow>
    mpp_task_queue_setup True meta q0 count = Inr (ret, q) \<Longrightarrow> 0 \<le> count \<Longrightarrow> task_reach q"
| reach_dequeue: "task_reach q \<Longrightarrow> mpp_port_dequeue q (mpp_port_init type) task0 = Inr (ret, task, q') \<Longrightarrow> task_reach q'"
| reach_enqueue: "task_reach q \<Longrightarrow> task_at q i = Inr task \<Longrightarrow>
    mpp_port_enqueue q (mpp_port_init type) i = Inr (ret, q') \<Longrightarrow> task_reach q'"
| reach_move: "task_reach q \<Longrightarrow> task_at q i = Inr task \<Longrightarrow>
    mpp_port_move q (mpp_port_init type) i st = Inr (ret, q') \<Longrightarrow> task_reach q'"
| reach_poll: "task_reach q \<Longrightarrow> mpp_port_poll wait q (mpp_port_init type) 0 = Inr (n, q') \<Longrightarrow> task_reach q'"
| reach_awake: "task_reach q \<Longrightarrow> mpp_port_awake q (Some (mpp_port_init type)) = Inr (ret, q') \<Longrightarrow> task_reach q'"

lemma awake_refines:
  assumes "task_queue_ok q Q"
  shows "\<exists>q'. mpp_port_awake q (Some port) = Inr (MPP_OK, q') \<and> task_queue_ok q' Q"
proof -
  have "\<exists>q'. mutex_unlock (cond_signal (status_curr port) (mutex_lock q)) = Inr q' \<and> task_queue_ok q' Q"
    by (rule unlock_ok) (use task_queue_lock [OF assms] in simp_all)
  then show ?thesis
    by (auto simp: mpp_port_awake_def)
qed

lemma task_reach_ok: "task_reach q \<Longrightarrow> \<exists>Q. task_queue_ok q Q"
proof (induction rule: task_reach.induct)
  case (reach_setup mpp name m ret0 q0 meta count ret q)
  then show ?case using setup_ok by blast
next
  case (reach_dequeue q type task0 ret task q')
  then obtain Q where "task_queue_ok q Q" by blast
  from dequeue_refines [OF this, of "mpp_port_init type" task0] reach_dequeue(2) show ?case
    by (auto split: list.splits)
next
  case (reach_enqueue q i task type ret q')
  then obtain Q where Q: "task_queue_ok q Q" by blast
  then have "i \<in> set (Q (task_status task))"
    using task_rep_lists(3) [of q Q i] reach_enqueue(2) by (auto simp: task_queue_ok_def)
  from enqueue_refines(1) [OF Q this, of "mpp_port_init type"] reach_enqueue(3) show ?case by auto
next
  case (reach_move q i task type st ret q')
  then obtain Q where Q: "task_queue_ok q Q" by blast
  then have "i \<in> set (Q (task_status task))"
    using task_rep_lists(3) [of q Q i] reach_move(2) by (auto simp: task_queue_ok_def)
  from enqueue_refines(2) [OF Q this, of "mpp_port_init type" st] reach_move(3) show ?case by auto
next
  case (reach_poll q wait type n q')
  then obtain Q where "task_queue_ok q Q" by blast
  from poll_refines [OF this, of wait "mpp_port_init type"] reach_poll(2) show ?case by auto
next
  case (reach_awake q type ret q')
  then obtain Q where "task_queue_ok q Q" by blast
  from awake_refines [OF this, of "mpp_port_init type"] reach_awake(2) show ?case by auto
qed

lemma task_rep_total:
  assumes "task_rep q Q"
  shows "tq_count q MPP_INPUT_PORT + tq_count q MPP_INPUT_HOLD + tq_count q MPP_OUTPUT_PORT
    + tq_count q MPP_OUTPUT_HOLD = tq_task_count q"
proof -
  obtain ts where t: "tq_tasks q = Some ts" "tq_task_count q = int (length ts)"
    "heads_rep Info (tq_links q) (task_nodes (length ts)) (\<lambda>st. map Task (Q st))"
    "\<And>st. tq_count q st = int (length (Q st))"
    "\<And>i. i < length ts \<Longrightarrow> i \<in> set (Q (task_status (ts ! i)))"
    by (rule task_repE [OF assms]) blast
  let ?all = "Q MPP_INPUT_PORT @ Q MPP_INPUT_HOLD @ Q MPP_OUTPUT_PORT @ Q MPP_OUTPUT_HOLD"
  have "distinct ?all"
    using task_rep_lists(1,2) [OF assms] by (simp add: Int_Un_distrib)
  moreover have "set ?all = {..<length ts}"
  proof
    have "set (Q st) \<subseteq> {..<length ts}" for st
      using task_lists.rep_subset [OF t(3), of st] by (auto simp: task_nodes_def)
    then show "set ?all \<subseteq> {..<length ts}" by simp
    show "{..<length ts} \<subseteq> set ?all"
    proof
      fix i assume "i \<in> {..<length ts}"
      then have "i \<in> set (Q (task_status (ts ! i)))"
        using t(5) by simp
      then show "i \<in> set ?all"
        by (cases "task_status (ts ! i)") auto
    qed
  qed
  ultimately have "length ?all = length ts"
    by (metis card_lessThan distinct_card)
  then show ?thesis
    using t(2,4) by simp
qed

section \<open>Concrete queues for the witnesses\<close>

definition demo_queue :: "nat \<Rightarrow> MppTaskQueueImpl" where
  "demo_queue n = snd (projr (mpp_task_queue_setup True (\<lambda>i. Some i) (the (snd (projr (mpp_task_queue_init (True, True, True)
     None (Some ''dec'') \<lparr>nxt = (\<lambda>k. k), prv = (\<lambda>k. k)\<rparr>)))) (int n)))"

lemma demo_queue_eq:
  obtains q0 where "mpp_task_queue_init (True, True, True) None (Some ''dec'') \<lparr>nxt = (\<lambda>k. k), prv = (\<lambda>k. k)\<rparr> = Inr (MPP_OK, Some q0)"
    and "mpp_task_queue_setup True (\<lambda>i. Some i) q0 (int n) = Inr (MPP_OK, demo_queue n)"
proof -
  obtain q0 where q0: "mpp_task_queue_init (True, True, True) None (Some ''dec'') \<lparr>nxt = (\<lambda>k. k), prv = (\<lambda>k. k)\<rparr> = Inr (MPP_OK, Some q0)"
    by (simp add: mpp_task_queue_init_def)
  have "tq_tasks q0 = None" "tq_task_count q0 = 0" "\<not> tq_locked q0"
    using q0 by (auto simp: mpp_task_queue_init_def)
  moreover have "tq_locked (setup_tasks_loop meta q i k) = tq_locked q" for meta q i k
    by (induction k arbitrary: q i) (simp_all add: Let_def)
  ultimately have "mpp_task_queue_setup True (\<lambda>i. Some i) q0 (int n) = Inr (MPP_OK, demo_queue n)"
    by (simp add: demo_queue_def q0 mpp_task_queue_setup_def Let_def mutex_lock_def mutex_unlock_def)
  with q0 that show ?thesis by blast
qed

lemma demo_queue_ok: "task_reach (demo_queue n)" "task_queue_ok (demo_queue n) (all_input n)"
proof -
  obtain q0 where q: "mpp_task_queue_init (True, True, True) None (Some ''dec'') \<lparr>nxt = (\<lambda>k. k), prv = (\<lambda>k. k)\<rparr> = Inr (MPP_OK, Some q0)"
    "mpp_task_queue_setup True (\<lambda>i. Some i) q0 (int n) = Inr (MPP_OK, demo_queue n)"
    by (rule demo_queue_eq)
  show "task_reach (demo_queue n)"
    by (rule reach_setup [OF q]) simp
  show "task_queue_ok (demo_queue n) (all_input n)"
    using setup_ok [OF q] by simp
qed

section \<open>What the queue promises\<close>

text \<open>
  C9: No task is lost or duplicated. In every queue that is set up and used through its ports,
  each task is in the list of its status and in no other list, and the four counters, which \<open>poll\<close>
  reports, add up to the number of tasks.
\<close>
theorem task_conservation:
  assumes "task_reach q"
  shows "(\<exists>Q. task_queue_ok q Q) \<and> tq_count q MPP_INPUT_PORT + tq_count q MPP_INPUT_HOLD
    + tq_count q MPP_OUTPUT_PORT + tq_count q MPP_OUTPUT_HOLD = tq_task_count q"
  using task_reach_ok [OF assms] task_rep_total by (auto simp: task_queue_ok_def)

theorem task_conservation_witness:
  "tq_count (demo_queue 3) MPP_INPUT_PORT + tq_count (demo_queue 3) MPP_INPUT_HOLD
    + tq_count (demo_queue 3) MPP_OUTPUT_PORT + tq_count (demo_queue 3) MPP_OUTPUT_HOLD = tq_task_count (demo_queue 3)"
  using task_conservation [OF demo_queue_ok(1) [of 3]] by simp

text \<open>
  C27: A port that reports tasks delivers one. On a consistent queue a non-blocking \<open>poll\<close> returns
  the number of tasks waiting at the port, or \<open>MPP_NOK\<close> when there is none; \<open>dequeue\<close> then returns the
  task that has waited longest and marks it as held, or fails with no task.
\<close>
theorem poll_predicts_dequeue:
  assumes "task_queue_ok q Q"
  shows "\<exists>n q1 q2. mpp_port_poll wait q (mpp_port_init type) 0 = Inr (n, q1) \<and>
    (if 0 < n
     then n = int (length (Q (status_curr (mpp_port_init type)))) \<and>
          mpp_port_dequeue q1 (mpp_port_init type) task0
            = Inr (MPP_OK, Some (hd (Q (status_curr (mpp_port_init type)))), q2) \<and>
          task_queue_ok q2 (Q(status_curr (mpp_port_init type) := tl (Q (status_curr (mpp_port_init type))),
            next_on_dequeue (mpp_port_init type) := Q (next_on_dequeue (mpp_port_init type))
              @ [hd (Q (status_curr (mpp_port_init type)))]))
     else mpp_port_dequeue q1 (mpp_port_init type) task0 = Inr (MPP_NOK, None, q2) \<and> task_queue_ok q2 Q)"
proof -
  let ?p = "mpp_port_init type"
  obtain q1 where q1: "mpp_port_poll wait q ?p 0 =
      Inr (if Q (status_curr ?p) = [] then - 1 else int (length (Q (status_curr ?p))), q1)" "task_queue_ok q1 Q"
    using poll_refines [OF assms, of wait ?p] by blast
  show ?thesis
  proof (cases "Q (status_curr ?p)")
    case Nil
    then show ?thesis
      using q1 dequeue_refines [OF q1(2), of ?p task0] by auto
  next
    case (Cons i "is")
    then obtain q2 where q2: "mpp_port_dequeue q1 ?p task0 = Inr (MPP_OK, Some i, q2)"
      "task_queue_ok q2 (move_task i (next_on_dequeue ?p) Q)"
      using dequeue_refines [OF q1(2), of ?p task0] by auto
    have "i \<notin> set (Q st)" if "st \<noteq> status_curr ?p" for st
      using task_rep_lists(2) [of q Q st "status_curr ?p"] assms that Cons by (auto simp: task_queue_ok_def)
    then have "move_task i (next_on_dequeue ?p) Q = Q(status_curr ?p := is, next_on_dequeue ?p := Q (next_on_dequeue ?p) @ [i])"
      using Cons by (intro move_task_head) (auto simp: mpp_port_init_def)
    then show ?thesis
      using q1 q2 Cons by auto
  qed
qed

theorem poll_predicts_dequeue_witness:
  "\<exists>q1 q2. mpp_port_poll (\<lambda>t q. (0, q)) (demo_queue 2) (mpp_port_init MPP_PORT_INPUT) 0 = Inr (2, q1) \<and>
    mpp_port_dequeue q1 (mpp_port_init MPP_PORT_INPUT) None = Inr (MPP_OK, Some 0, q2)"
  using poll_predicts_dequeue [OF demo_queue_ok(2) [of 2], of "\<lambda>t q. (0, q)" MPP_PORT_INPUT None]
    poll_refines [OF demo_queue_ok(2) [of 2], of "\<lambda>t q. (0, q)" "mpp_port_init MPP_PORT_INPUT"]
  by (auto simp: mpp_port_init_def all_input_def upt_rec)

text \<open>One trip of a task: the user takes it, hands it in, the worker takes it and gives it back.\<close>

definition task_trip ::
  "MppTaskQueueImpl \<Rightarrow> (mpp_ret list \<times> nat option \<times> nat option \<times> MppTaskQueueImpl) run" where
  "task_trip q =
     run_bind (mpp_port_dequeue q (mpp_port_init MPP_PORT_INPUT) None) (\<lambda>(r1, t1, q).
     run_bind (mpp_port_enqueue q (mpp_port_init MPP_PORT_INPUT) (the t1)) (\<lambda>(r2, q).
     run_bind (mpp_port_dequeue q (mpp_port_init MPP_PORT_OUTPUT) None) (\<lambda>(r3, t2, q).
     run_bind (mpp_port_enqueue q (mpp_port_init MPP_PORT_OUTPUT) (the t2)) (\<lambda>(r4, q).
       Inr ([r1, r2, r3, r4], t1, t2, q)))))"

text \<open>
  C28: A task goes round the queue. When a task waits at the input port and the worker has none,
  the four steps dequeue, enqueue on the input port and dequeue, enqueue on the output port all succeed,
  the worker gets the very task the user handed in, and it ends behind the other tasks at the input port.
\<close>
theorem task_trip_returns:
  assumes "task_queue_ok q Q" and "Q MPP_INPUT_PORT = i # is" and "Q MPP_OUTPUT_PORT = []"
  shows "\<exists>q'. task_trip q = Inr ([MPP_OK, MPP_OK, MPP_OK, MPP_OK], Some i, Some i, q') \<and>
    task_queue_ok q' (Q(MPP_INPUT_PORT := is @ [i]))"
proof -
  have rep: "task_rep q Q"
    using assms(1) by (simp add: task_queue_ok_def)
  have out: "i \<notin> set (Q st)" if "st \<noteq> MPP_INPUT_PORT" for st
    using task_rep_lists(2) [OF rep that] assms(2) by auto
  have d: "i \<notin> set is"
    using task_rep_lists(1) [OF rep, of MPP_INPUT_PORT] assms(2) by simp
  let ?Q1 = "move_task i MPP_INPUT_HOLD Q"
  let ?Q2 = "move_task i MPP_OUTPUT_PORT ?Q1"
  let ?Q3 = "move_task i MPP_OUTPUT_HOLD ?Q2"
  obtain q1 where q1: "mpp_port_dequeue q (mpp_port_init MPP_PORT_INPUT) None = Inr (MPP_OK, Some i, q1)" "task_queue_ok q1 ?Q1"
    using dequeue_refines [OF assms(1), of "mpp_port_init MPP_PORT_INPUT" None] assms(2) by (auto simp: mpp_port_init_def)
  have "i \<in> set (?Q1 MPP_INPUT_HOLD)"
    by (simp add: move_task_def)
  then obtain q2 where q2: "mpp_port_enqueue q1 (mpp_port_init MPP_PORT_INPUT) i = Inr (MPP_OK, q2)" "task_queue_ok q2 ?Q2"
    using enqueue_refines(1) [OF q1(2), of i MPP_INPUT_HOLD "mpp_port_init MPP_PORT_INPUT"] by (auto simp: mpp_port_init_def)
  have "?Q2 MPP_OUTPUT_PORT = [i]"
    using assms(3) by (simp add: move_task_def)
  then obtain q3 where q3: "mpp_port_dequeue q2 (mpp_port_init MPP_PORT_OUTPUT) None = Inr (MPP_OK, Some i, q3)" "task_queue_ok q3 ?Q3"
    using dequeue_refines [OF q2(2), of "mpp_port_init MPP_PORT_OUTPUT" None] by (auto simp: mpp_port_init_def)
  have "i \<in> set (?Q3 MPP_OUTPUT_HOLD)"
    by (simp add: move_task_def)
  then obtain q4 where q4: "mpp_port_enqueue q3 (mpp_port_init MPP_PORT_OUTPUT) i = Inr (MPP_OK, q4)"
    "task_queue_ok q4 (move_task i MPP_INPUT_PORT ?Q3)"
    using enqueue_refines(1) [OF q3(2), of i MPP_OUTPUT_HOLD "mpp_port_init MPP_PORT_OUTPUT"] by (auto simp: mpp_port_init_def)
  have "move_task i MPP_INPUT_PORT ?Q3 = Q(MPP_INPUT_PORT := is @ [i])"
    using assms(2,3) d out by (intro ext) (auto simp: move_task_def remove1_idem remove1_append)
  then show ?thesis
    using q1 q2 q3 q4 by (simp add: task_trip_def)
qed

theorem task_trip_returns_witness:
  "\<exists>q'. task_trip (demo_queue 3) = Inr ([MPP_OK, MPP_OK, MPP_OK, MPP_OK], Some 0, Some 0, q') \<and>
    task_queue_ok q' ((all_input 3)(MPP_INPUT_PORT := [1, 2, 0]))"
  using task_trip_returns [OF demo_queue_ok(2) [of 3], of 0 "[1, 2]"]
  by (simp add: all_input_def upt_rec)

text \<open>
  \<open>enqueue\<close> on a queue that is not ready, as during teardown, releases the mutex twice:
  once before it jumps to the common exit and once there, where it is no longer held.
\<close>
theorem enqueue_unlocks_twice:
  "\<not> tq_ready q \<Longrightarrow> mpp_port_enqueue q port i = Inl Bad_Unlock"
  by (simp add: mpp_port_enqueue_def mutex_unlock_def mutex_lock_def Let_def)

theorem enqueue_unlocks_twice_witness:
  "mpp_port_enqueue ((demo_queue 1)\<lparr>tq_ready := False\<rparr>) (mpp_port_init MPP_PORT_INPUT) 0 = Inl Bad_Unlock"
  by (rule enqueue_unlocks_twice) simp

end
