(* ===== verification/Mpp_Rc_Data.thy ===== *)
theory Mpp_Rc_Data
  imports Mpp_Prelude
begin

text \<open>
  The statistics windows of the rate control, \<open>mpp/codec/rc/rc_base.c\<close>: a ring of the last values with
  their running sum. A value is written when it is known (\<open>update\<close>), or first as a prediction (\<open>preset\<close>)
  that a later update replaces. The window is shown to refine the sequence of the values written.

  A data pointer that may be null is an option; \<open>alloc\<close> tells whether the allocation succeeds. Values are
  \<open>RK_S32\<close>, and the sum is \<open>RK_S64\<close>: the product in \<open>mpp_data_reset_v2\<close> and the difference of two values in
  \<open>mpp_data_update_v2\<close> are 32-bit operations whose overflow is a fault, the other operations on the sum
  are 64-bit ones that 2^31 values cannot overflow. The narrowing of the sum is written out.
\<close>

section \<open>The window\<close>

record MppDataV2 =
  data_size :: int
  pos_r :: int
  pos_pw :: int
  pos_w :: int
  pos_ahead :: int
  data_sum :: int
  data_val :: "int list"

definition s32 :: "int \<Rightarrow> int" where
  "s32 x = sint (word_of_int x :: u32)"

definition fits_s32 :: "int \<Rightarrow> bool" where
  "fits_s32 x \<longleftrightarrow> - (2 ^ 31) \<le> x \<and> x < 2 ^ 31"

definition mpp_data_reset_v2 :: "MppDataV2 \<Rightarrow> int \<Rightarrow> MppDataV2 run" where
  "mpp_data_reset_v2 p v =
     (if \<not> fits_s32 (v * data_size p) then Inl Int_Overflow
      else Inr (p\<lparr>pos_pw := 0, pos_w := 0, pos_r := data_size p, data_sum := v * data_size p,
        data_val := replicate (nat (data_size p)) v @ drop (nat (data_size p)) (data_val p)\<rparr>))"

text \<open>\<open>garbage\<close> is the memory of the values when it is allocated; \<open>data\<close> is the address of the result.\<close>

definition mpp_data_init_v2 ::
  "bool \<Rightarrow> bool \<Rightarrow> int list \<Rightarrow> int \<Rightarrow> int \<Rightarrow> (mpp_ret \<times> MppDataV2 option) run" where
  "mpp_data_init_v2 data alloc garbage sz v =
     (if \<not> data \<or> sz \<le> 0 then Inr (MPP_ERR_NULL_PTR, None)
      else if \<not> alloc then Inr (MPP_ERR_MALLOC, None)
      else run_bind (mpp_data_reset_v2
          \<lparr>data_size = sz, pos_r = 0, pos_pw = 0, pos_w = 0, pos_ahead = 0, data_sum = 0, data_val = garbage\<rparr> v)
        (\<lambda>p. Inr (MPP_OK, Some p)))"

definition mpp_data_preset_v2 :: "MppDataV2 \<Rightarrow> int \<Rightarrow> MppDataV2 run" where
  "mpp_data_preset_v2 p v =
     run_bind
       (if pos_r p = data_size p then
          run_bind (array_get (data_val p) (pos_pw p)) (\<lambda>old.
            Inr (p\<lparr>pos_r := pos_r p - 1, data_sum := data_sum p - old\<rparr>))
        else Inr p) (\<lambda>p1.
     run_bind (array_set (data_val p1) (pos_pw p1) v) (\<lambda>vals.
       Inr (p1\<lparr>data_val := vals, data_sum := data_sum p1 + v,
              pos_pw := (if pos_pw p1 + 1 \<ge> data_size p1 then 0 else pos_pw p1 + 1),
              pos_r := pos_r p1 + 1, pos_ahead := pos_ahead p1 + 1\<rparr>)))"

definition mpp_data_update_v2 :: "MppDataV2 \<Rightarrow> int \<Rightarrow> MppDataV2 run" where
  "mpp_data_update_v2 p v =
     (if pos_ahead p \<noteq> 0 then
        run_bind (array_get (data_val p) (pos_w p)) (\<lambda>old.
        run_bind (array_set (data_val p) (pos_w p) v) (\<lambda>vals.
          if \<not> fits_s32 (v - old) then Inl Int_Overflow
          else Inr (p\<lparr>data_sum := data_sum p + (v - old), data_val := vals,
                pos_w := (if pos_w p + 1 \<ge> data_size p then 0 else pos_w p + 1),
                pos_ahead := pos_ahead p - 1\<rparr>)))
      else
        run_bind
          (if pos_r p = data_size p then
             run_bind (array_get (data_val p) (pos_w p)) (\<lambda>old.
               Inr (p\<lparr>pos_r := pos_r p - 1, data_sum := data_sum p - old\<rparr>))
           else Inr p) (\<lambda>p1.
        run_bind (array_set (data_val p1) (pos_w p1) v) (\<lambda>vals.
          Inr (p1\<lparr>data_val := vals, data_sum := data_sum p1 + v,
                 pos_w := (if pos_w p1 + 1 \<ge> data_size p1 then 0 else pos_w p1 + 1),
                 pos_r := pos_r p1 + 1\<rparr>))))"

definition mpp_data_get_pre_val_v2 :: "MppDataV2 \<Rightarrow> int \<Rightarrow> int run" where
  "mpp_data_get_pre_val_v2 p idx0 =
     (let idx = (if idx0 < 0 then data_size p + idx0 else idx0);
          pos = pos_w p - 1
      in array_get (data_val p) (if pos - idx < 0 then data_size p - (idx - pos) else pos - idx))"

definition mpp_data_sum_v2 :: "MppDataV2 \<Rightarrow> int" where
  "mpp_data_sum_v2 p = s32 (data_sum p)"

definition mpp_data_mean_v2 :: "MppDataV2 \<Rightarrow> int run" where
  "mpp_data_mean_v2 p =
     (if data_size p = 0 then Inl Div_By_Zero else Inr (cdiv (s32 (data_sum p)) (data_size p)))"

fun plain_sum_loop :: "int list \<Rightarrow> nat \<Rightarrow> nat \<Rightarrow> int \<Rightarrow> int run" where
  "plain_sum_loop vals i 0 acc = Inr acc"
| "plain_sum_loop vals i (Suc n) acc =
     run_bind (array_get vals (int i)) (\<lambda>v. plain_sum_loop vals (i + 1) n (acc + v))"

fun ratio_sum_loop :: "int list \<Rightarrow> int \<Rightarrow> int \<Rightarrow> nat \<Rightarrow> nat \<Rightarrow> int \<Rightarrow> int \<Rightarrow> int \<Rightarrow> int run" where
  "ratio_sum_loop vals num denom i 0 acc acc_num acc_denom = Inr acc"
| "ratio_sum_loop vals num denom i (Suc n) acc acc_num acc_denom =
     run_bind (array_get vals (int i)) (\<lambda>v.
       if acc_denom = 0 then Inl Div_By_Zero
       else ratio_sum_loop vals num denom (i + 1) n (acc + cdiv (v * acc_num) acc_denom)
              (acc_num * num) (acc_denom * denom))"

text \<open>The macro \<open>DIV\<close> rounds to the nearest value; its result is narrowed on return.\<close>

definition round_div :: "int \<Rightarrow> int \<Rightarrow> int run" where
  "round_div a b =
     (if b = 0 then Inl Div_By_Zero
      else Inr (s32 (cdiv (a + cdiv ((if a < 0 then - 1 else 1) * b) 2) b)))"

definition mpp_data_sum_with_ratio_v2 :: "MppDataV2 \<Rightarrow> int \<Rightarrow> int \<Rightarrow> int \<Rightarrow> int run" where
  "mpp_data_sum_with_ratio_v2 p len num denom =
     run_bind
       (if num = denom then plain_sum_loop (data_val p) 0 (nat len) 0
        else ratio_sum_loop (data_val p) num denom 0 (nat len) 0 1 1)
       (\<lambda>acc. round_div acc len)"

section \<open>The sequence of values behind a window\<close>

text \<open>
  The calls on a window. The specification keeps the list of all values known so far, the predictions
  that are not confirmed yet, and whether predictions have kept pace: an update without a prediction
  moves only one of the two write positions, so no prediction may follow it.
\<close>

datatype data_op = Preset int | Update int

fun data_step :: "MppDataV2 \<Rightarrow> data_op \<Rightarrow> MppDataV2 run" where
  "data_step p (Preset v) = mpp_data_preset_v2 p v"
| "data_step p (Update v) = mpp_data_update_v2 p v"

fun op_value :: "data_op \<Rightarrow> int" where
  "op_value (Preset v) = v"
| "op_value (Update v) = v"

text \<open>Values that are \<open>RK_S32\<close>, and so is the difference of any two of them.\<close>

definition close_values :: "int set \<Rightarrow> bool" where
  "close_values V \<longleftrightarrow> (\<forall>x\<in>V. fits_s32 x) \<and> (\<forall>x\<in>V. \<forall>y\<in>V. fits_s32 (x - y))"

fun data_steps :: "MppDataV2 \<Rightarrow> data_op list \<Rightarrow> MppDataV2 run" where
  "data_steps p [] = Inr p"
| "data_steps p (c # cs) = run_bind (data_step p c) (\<lambda>p1. data_steps p1 cs)"

fun spec_step :: "nat \<Rightarrow> int list \<times> int list \<times> bool \<Rightarrow> data_op \<Rightarrow> (int list \<times> int list \<times> bool) option" where
  "spec_step n (known, preds, paced) (Preset v) =
     (if paced \<and> length preds < n then Some (known, preds @ [v], True) else None)"
| "spec_step n (known, preds, paced) (Update v) = Some (known @ [v], tl preds, paced \<and> preds \<noteq> [])"

fun spec_steps :: "nat \<Rightarrow> int list \<times> int list \<times> bool \<Rightarrow> data_op list \<Rightarrow> (int list \<times> int list \<times> bool) option" where
  "spec_steps n s [] = Some s"
| "spec_steps n s (c # cs) = Option.bind (spec_step n s c) (\<lambda>s1. spec_steps n s1 cs)"

definition last_n :: "nat \<Rightarrow> 'a list \<Rightarrow> 'a list" where
  "last_n n xs = drop (length xs - n) xs"

definition window_rep :: "MppDataV2 \<Rightarrow> int list \<times> int list \<times> bool \<Rightarrow> bool" where
  "window_rep p s \<longleftrightarrow> (case s of (known, preds, paced) \<Rightarrow>
     let n = nat (data_size p); w = nat (pos_w p) in
       0 < data_size p \<and> length (data_val p) = n \<and> 0 \<le> pos_w p \<and> pos_w p < data_size p \<and>
       pos_r p = data_size p \<and> data_sum p = sum_list (data_val p) \<and>
       pos_ahead p = int (length preds) \<and> length preds \<le> n \<and> n \<le> length known \<and>
       drop w (data_val p) @ take w (data_val p) = preds @ last_n (n - length preds) known \<and>
       (paced \<longrightarrow> pos_pw p = (pos_w p + pos_ahead p) mod data_size p))"

lemma last_n_snoc: "0 < n \<Longrightarrow> n \<le> length xs \<Longrightarrow> last_n n (xs @ [v]) = tl (last_n n xs) @ [v]"
  by (simp add: last_n_def tl_drop Suc_diff_le drop_Suc [symmetric])

lemma last_n_snoc_more: "n \<le> length xs \<Longrightarrow> last_n (Suc n) (xs @ [v]) = last_n n xs @ [v]"
  by (simp add: last_n_def)

lemma last_n_tl: "n < length xs \<Longrightarrow> tl (last_n (Suc n) xs) = last_n n xs"
  by (simp add: last_n_def tl_drop Suc_diff_Suc drop_Suc [symmetric])

lemma length_last_n: "n \<le> length xs \<Longrightarrow> length (last_n n xs) = n"
  by (simp add: last_n_def)

lemma sum_list_set: "i < length xs \<Longrightarrow> sum_list (xs[i := v :: int]) = sum_list xs - xs ! i + v"
  by (induction xs arbitrary: i) (auto split: nat.split)

lemma rotate_set:
  assumes "w < length xs"
  shows "drop (if w + 1 \<ge> length xs then 0 else w + 1) (xs[w := v]) @
         take (if w + 1 \<ge> length xs then 0 else w + 1) (xs[w := v])
       = tl (drop w xs @ take w xs) @ [v]"
proof (cases "w + 1 \<ge> length xs")
  case True
  with assms have "w = length xs - 1" "xs \<noteq> []" by auto
  then show ?thesis
    by (cases xs rule: rev_cases) auto
next
  case False
  then have "drop w xs = xs ! w # drop (Suc w) xs"
    using assms by (simp add: Cons_nth_drop_Suc)
  moreover have "take (Suc w) (xs[w := v]) = take w xs @ [v]"
    using assms by (simp add: take_Suc_conv_app_nth)
  ultimately show ?thesis
    using False by simp
qed

lemma rotate_set_at:
  assumes "w < length xs" and "k < length xs"
  shows "drop w (xs[(w + k) mod length xs := v]) @ take w (xs[(w + k) mod length xs := v])
       = (drop w xs @ take w xs)[k := v]"
proof (cases "w + k < length xs")
  case True
  then show ?thesis
    using assms by (simp add: list_update_append drop_update_swap less_diff_conv add.commute)
next
  case False
  then have "(w + k) mod length xs = w + k - length xs"
    using assms by (simp add: mod_if)
  moreover have "\<not> k < length xs - w" "k - (length xs - w) = w + k - length xs"
    using False assms by auto
  ultimately show ?thesis
    using assms by (simp add: list_update_append take_update_swap)
qed

lemma window_rep_init:
  assumes "0 < sz" and "length garbage = nat sz" and "fits_s32 (v * sz)"
  shows "\<exists>p. mpp_data_init_v2 True True garbage sz v = Inr (MPP_OK, Some p) \<and>
           window_rep p (replicate (nat sz) v, [], True) \<and> data_size p = sz \<and> set (data_val p) = {v}"
  using assms
  by (simp add: mpp_data_init_v2_def mpp_data_reset_v2_def window_rep_def last_n_def sum_list_replicate)

lemma next_pos: "0 \<le> w \<Longrightarrow> nat (if n \<le> w + 1 then 0 else w + 1) = (if nat n \<le> nat w + 1 then 0 else nat w + 1)"
  by auto

lemma update_rep:
  assumes rep: "window_rep p (known, preds, paced)" and fits: "\<forall>y\<in>set (data_val p). fits_s32 (v - y)"
  shows "\<exists>p'. mpp_data_update_v2 p v = Inr p' \<and> data_size p' = data_size p \<and>
           set (data_val p') \<subseteq> insert v (set (data_val p)) \<and> window_rep p' (known @ [v], tl preds, paced \<and> preds \<noteq> [])"
proof -
  let ?n = "nat (data_size p)" and ?w = "nat (pos_w p)" and ?w1 = "if pos_w p + 1 \<ge> data_size p then 0 else pos_w p + 1"
  let ?vals = "(data_val p)[?w := v]"
  have n: "0 < data_size p" "length (data_val p) = ?n" "0 \<le> pos_w p" "pos_w p < data_size p"
    and r: "pos_r p = data_size p" "data_sum p = sum_list (data_val p)"
    and k: "pos_ahead p = int (length preds)" "length preds \<le> ?n" "?n \<le> length known"
    and v: "drop ?w (data_val p) @ take ?w (data_val p) = preds @ last_n (?n - length preds) known"
    and pw: "paced \<Longrightarrow> pos_pw p = (pos_w p + pos_ahead p) mod data_size p"
    using rep by (simp_all add: window_rep_def Let_def)
  have wl: "?w < length (data_val p)" "pos_w p < int (length (data_val p))"
    using n by simp_all
  have rot: "drop (nat ?w1) ?vals @ take (nat ?w1) ?vals = tl preds @ last_n (?n - length (tl preds)) (known @ [v])"
  proof -
    have "drop (nat ?w1) ?vals @ take (nat ?w1) ?vals = tl (preds @ last_n (?n - length preds) known) @ [v]"
      using rotate_set [OF wl(1), of v] v n by (simp add: next_pos cong: if_cong)
    also have "\<dots> = tl preds @ last_n (?n - length (tl preds)) (known @ [v])"
    proof (cases preds)
      case Nil
      then show ?thesis using last_n_snoc [of ?n known v] k(3) n(1) by simp
    next
      case (Cons a as)
      then show ?thesis
        using last_n_snoc_more [of "?n - length preds" known v] k by (simp add: Suc_diff_Suc)
    qed
    finally show ?thesis .
  qed
  have pw1: "(?w1 + (pos_ahead p - 1)) mod data_size p = (pos_w p + pos_ahead p) mod data_size p"
  proof (cases "pos_w p + 1 \<ge> data_size p")
    case True
    then have "pos_w p + pos_ahead p = (pos_ahead p - 1) + data_size p"
      using n(4) by simp
    with True show ?thesis by (simp only: if_True) simp
  qed (simp add: algebra_simps)
  have sum: "sum_list ?vals = data_sum p - data_val p ! ?w + v"
    using sum_list_set [OF wl(1)] r(2) by simp
  show ?thesis
  proof (cases preds)
    case Nil
    then have upd: "mpp_data_update_v2 p v = Inr (p\<lparr>data_val := ?vals, data_sum := data_sum p - data_val p ! ?w + v,
        pos_w := ?w1, pos_r := data_size p\<rparr>)"
      using n r k wl by (cases p) (simp add: mpp_data_update_v2_def)
    show ?thesis
      unfolding upd using Nil n k sum rot set_update_subset_insert [of "data_val p" ?w v] by (simp add: window_rep_def Let_def)
  next
    case (Cons a as)
    then have upd: "mpp_data_update_v2 p v = Inr (p\<lparr>data_val := ?vals, data_sum := data_sum p + (v - data_val p ! ?w),
        pos_w := ?w1, pos_ahead := pos_ahead p - 1\<rparr>)"
      using n k wl fits by (cases p) (simp add: mpp_data_update_v2_def)
    have "pos_ahead p - 1 = int (length (tl preds))" "length (tl preds) \<le> ?n"
      using Cons k by simp_all
    then show ?thesis
      unfolding upd using Cons n r k(3) sum rot pw pw1 set_update_subset_insert [of "data_val p" ?w v]
      by (simp add: window_rep_def Let_def)
  qed
qed

lemma preset_rep:
  assumes rep: "window_rep p (known, preds, True)" and room: "int (length preds) < data_size p"
  shows "\<exists>p'. mpp_data_preset_v2 p v = Inr p' \<and> data_size p' = data_size p \<and>
           set (data_val p') \<subseteq> insert v (set (data_val p)) \<and> window_rep p' (known, preds @ [v], True)"
proof -
  let ?n = "nat (data_size p)" and ?w = "nat (pos_w p)" and ?k = "length preds"
  define i where "i = nat (pos_pw p)"
  let ?vals = "(data_val p)[i := v]"
  have n: "0 < data_size p" "length (data_val p) = ?n" "0 \<le> pos_w p" "pos_w p < data_size p"
    and r: "pos_r p = data_size p" "data_sum p = sum_list (data_val p)"
    and k: "pos_ahead p = int ?k" "?k \<le> ?n" "?n \<le> length known"
    and v: "drop ?w (data_val p) @ take ?w (data_val p) = preds @ last_n (?n - ?k) known"
    and pw: "pos_pw p = (pos_w p + pos_ahead p) mod data_size p"
    using rep by (simp_all add: window_rep_def Let_def)
  have b: "0 \<le> pos_pw p" "pos_pw p < int (length (data_val p))" "i < length (data_val p)"
    using n pw by (simp_all add: i_def)
  have i: "i = (?w + ?k) mod length (data_val p)"
    using n k(1) pw by (simp add: i_def nat_mod_distrib nat_add_distrib)
  have "drop ?w ?vals @ take ?w ?vals = (preds @ last_n (?n - ?k) known)[?k := v]"
    unfolding i v [symmetric] by (rule rotate_set_at) (use n room in simp_all)
  also have "\<dots> = (preds @ [v]) @ last_n (?n - length (preds @ [v])) known"
  proof -
    have "Suc (?n - Suc ?k) = ?n - ?k" "?n - Suc ?k < length known"
      using room k(3) n(1) by simp_all
    then have "tl (last_n (?n - ?k) known) = last_n (?n - Suc ?k) known" "last_n (?n - ?k) known \<noteq> []"
      using last_n_tl [of "?n - Suc ?k" known] length_last_n [of "?n - ?k" known] room k(3) by auto
    then show ?thesis
      by (cases "last_n (?n - ?k) known") (simp_all add: list_update_append)
  qed
  finally have rot: "drop ?w ?vals @ take ?w ?vals = (preds @ [v]) @ last_n (?n - length (preds @ [v])) known" .
  have pw1: "(if pos_pw p + 1 \<ge> data_size p then 0 else pos_pw p + 1) = (pos_w p + (pos_ahead p + 1)) mod data_size p"
    using n pw by (simp add: add.assoc [symmetric] mod_add_left_eq [symmetric, of "pos_w p + pos_ahead p"])
      (smt (verit) mod_add_left_eq mod_pos_pos_trivial pos_mod_bound pos_mod_sign mod_self)
  have sum: "sum_list ?vals = data_sum p - data_val p ! i + v"
    using sum_list_set [OF b(3)] r(2) by simp
  have upd: "mpp_data_preset_v2 p v = Inr (p\<lparr>data_val := ?vals, data_sum := data_sum p - data_val p ! i + v,
      pos_pw := (if pos_pw p + 1 \<ge> data_size p then 0 else pos_pw p + 1), pos_r := data_size p,
      pos_ahead := pos_ahead p + 1\<rparr>)"
    using n r b by (cases p) (simp add: mpp_data_preset_v2_def i_def)
  show ?thesis
    unfolding upd pw1 using n k room sum rot set_update_subset_insert [of "data_val p" i v]
    by (simp add: window_rep_def Let_def)
qed

lemma steps_rep:
  assumes "window_rep p s" and "spec_steps (nat (data_size p)) s cs = Some s'"
    and "close_values V" and "set (data_val p) \<subseteq> V" and "op_value ` set cs \<subseteq> V"
  shows "\<exists>p'. data_steps p cs = Inr p' \<and> data_size p' = data_size p \<and> window_rep p' s'"
  using assms
proof (induction cs arbitrary: p s)
  case Nil
  then show ?case by simp
next
  case (Cons c cs)
  obtain known preds paced where s: "s = (known, preds, paced)"
    by (cases s)
  from Cons.prems(2) obtain s1 where s1: "spec_step (nat (data_size p)) s c = Some s1"
    "spec_steps (nat (data_size p)) s1 cs = Some s'"
    by (cases "spec_step (nat (data_size p)) s c") auto
  have fits: "\<forall>y\<in>set (data_val p). fits_s32 (op_value c - y)"
    using Cons.prems(3-5) by (auto simp: close_values_def)
  have "\<exists>p1. data_step p c = Inr p1 \<and> data_size p1 = data_size p \<and>
      set (data_val p1) \<subseteq> insert (op_value c) (set (data_val p)) \<and> window_rep p1 s1"
  proof (cases c)
    case (Preset v)
    with s1(1) s have "paced" "int (length preds) < data_size p" "s1 = (known, preds @ [v], True)"
      by (auto split: if_splits)
    with preset_rep [of p known preds v] Cons.prems(1) Preset s show ?thesis by simp
  next
    case (Update v)
    with update_rep [of p known preds paced v] Cons.prems(1) s1(1) s fits show ?thesis by auto
  qed
  then obtain p1 where p1: "data_step p c = Inr p1" "data_size p1 = data_size p" "window_rep p1 s1"
    "set (data_val p1) \<subseteq> insert (op_value c) (set (data_val p))"
    by blast
  have "set (data_val p1) \<subseteq> V" "op_value ` set cs \<subseteq> V"
    using p1(4) Cons.prems(4,5) by auto
  with Cons.IH [OF p1(3) _ Cons.prems(3)] s1(2) p1(1,2) show ?case by auto
qed

lemma pre_val_rep:
  assumes rep: "window_rep p (known, preds, paced)" and i: "int i < data_size p"
  shows "mpp_data_get_pre_val_v2 p (int i) =
    Inr ((preds @ last_n (nat (data_size p) - length preds) known) ! (nat (data_size p) - 1 - i))"
proof -
  obtain n w where nw: "data_size p = int n" "pos_w p = int w"
    using rep by (metis (mono_tags, lifting) window_rep_def case_prod_conv less_imp_le nonneg_int_cases)
  then have n: "length (data_val p) = n" "w < n"
    and v: "preds @ last_n (n - length preds) known = drop w (data_val p) @ take w (data_val p)"
    using rep by (simp_all add: window_rep_def Let_def)
  have "i < n" using i nw by simp
  then show ?thesis
    unfolding nw nat_int v using n nw
    by (auto simp: mpp_data_get_pre_val_v2_def Let_def nth_append array_get_def nat_diff_distrib
        of_nat_diff [symmetric] intro!: arg_cong [of _ _ "nth (data_val p)"])
qed

section \<open>Properties\<close>

text \<open>
  C26: a statistics window refines the sequence of the values written to it, as long as the values are
  \<open>RK_S32\<close> numbers that differ by less than 2^31. When the first value times the number of values fits
  into \<open>RK_S32\<close>, then after any calls in which a
  prediction is confirmed before the window is full of predictions, and none follows an unpredicted value,
  it holds the predictions and behind them the last known values, as many as fit; its running sum is their
  sum; \<open>mpp_data_get_pre_val_v2\<close> returns the newest values, and with a negative index the oldest ones.
  When the product does not fit, creating the window overflows.
\<close>

theorem rate_window_slides:
  assumes "0 < sz" and "length garbage = nat sz"
    and "spec_steps (nat sz) (replicate (nat sz) v, [], True) cs = Some (known, preds, paced)"
    and "close_values (insert v (op_value ` set cs))"
  shows "if fits_s32 (v * sz)
    then \<exists>p0 p. mpp_data_init_v2 True True garbage sz v = Inr (MPP_OK, Some p0) \<and> data_steps p0 cs = Inr p \<and>
      (let w = preds @ last_n (nat sz - length preds) known in
         length w = nat sz \<and> data_sum p = sum_list w \<and>
         (\<forall>i < nat sz. mpp_data_get_pre_val_v2 p (int i) = Inr (rev w ! i) \<and>
                      mpp_data_get_pre_val_v2 p (- int i - 1) = Inr (w ! i)))
    else mpp_data_init_v2 True True garbage sz v = Inl Int_Overflow"
proof (cases "fits_s32 (v * sz)")
  case False
  then show ?thesis
    using assms(1) by (simp add: mpp_data_init_v2_def mpp_data_reset_v2_def)
next
  case True
  obtain p0 where p0: "mpp_data_init_v2 True True garbage sz v = Inr (MPP_OK, Some p0)" "data_size p0 = sz"
    "window_rep p0 (replicate (nat sz) v, [], True)" "set (data_val p0) = {v}"
    using window_rep_init [OF assms(1,2) True] by blast
  then obtain p where p: "data_steps p0 cs = Inr p" "data_size p = sz" "window_rep p (known, preds, paced)"
    using steps_rep [OF p0(3) _ assms(4), of cs "(known, preds, paced)"] assms(3) by auto
  define w where "w = preds @ last_n (nat sz - length preds) known"
  have rot: "drop (nat (pos_w p)) (data_val p) @ take (nat (pos_w p)) (data_val p) = w"
    and b: "length preds \<le> nat sz" "nat sz \<le> length known" "data_sum p = sum_list (data_val p)"
    using p(2,3) by (simp_all add: window_rep_def Let_def w_def)
  have len: "length w = nat sz"
    using b by (simp add: w_def length_last_n)
  have "sum_list w = sum_list (take (nat (pos_w p)) (data_val p) @ drop (nat (pos_w p)) (data_val p))"
    unfolding rot [symmetric] sum_list_append by (rule add.commute)
  then have "data_sum p = sum_list w"
    using b(3) by simp
  moreover have new: "mpp_data_get_pre_val_v2 p (int i) = Inr (w ! (nat sz - 1 - i))" if "i < nat sz" for i
    using pre_val_rep [OF p(3), of i] that p(2) by (simp add: w_def)
  moreover have "mpp_data_get_pre_val_v2 p (- int i - 1) = Inr (w ! i)" if "i < nat sz" for i
  proof -
    have "mpp_data_get_pre_val_v2 p (- int i - 1) = mpp_data_get_pre_val_v2 p (int (nat sz - 1 - i))"
      using that p(2) by (simp add: mpp_data_get_pre_val_v2_def Let_def of_nat_diff algebra_simps)
    then show ?thesis
      using new [of "nat sz - 1 - i"] that by simp
  qed
  ultimately show ?thesis
    using True p0(1) p(1) len by (auto simp: w_def [symmetric] rev_nth Let_def)
qed

theorem rate_window_slides_witness:
  "\<exists>p0 p. mpp_data_init_v2 True True [7, 7, 7] 3 0 = Inr (MPP_OK, Some p0) \<and>
     data_steps p0 [Preset 10, Update 11, Preset 20, Preset 30, Update 21] = Inr p \<and>
     data_sum p = 62 \<and> mpp_data_get_pre_val_v2 p 0 = Inr 21 \<and> mpp_data_get_pre_val_v2 p (- 1) = Inr 30 \<and>
     mpp_data_init_v2 True True [7, 7, 7] 3 1000000000 = Inl Int_Overflow"
proof -
  have "spec_steps (nat 3) (replicate (nat 3) 0, [], True) [Preset 10, Update 11, Preset 20, Preset 30, Update 21]
     = Some ([0, 0, 0, 11, 21], [30], True)"
    by (simp add: numeral_3_eq_3)
  from rate_window_slides [OF _ _ this, of "[7, 7, 7]"] obtain p0 p where
    p: "mpp_data_init_v2 True True [7, 7, 7] 3 0 = Inr (MPP_OK, Some p0)"
      "data_steps p0 [Preset 10, Update 11, Preset 20, Preset 30, Update 21] = Inr p" "data_sum p = 62"
    and v: "\<And>i. i < 3 \<Longrightarrow> mpp_data_get_pre_val_v2 p (int i) = Inr (rev [30, 11, 21] ! i) \<and>
                    mpp_data_get_pre_val_v2 p (- int i - 1) = Inr ([30, 11, 21] ! i)"
    by (auto simp: last_n_def Let_def close_values_def fits_s32_def)
  moreover have "mpp_data_init_v2 True True [7, 7, 7] 3 1000000000 = Inl Int_Overflow"
    using rate_window_slides [of 3 "[7, 7, 7]" 1000000000 "[]"]
    by (simp add: fits_s32_def close_values_def)
  ultimately show ?thesis
    using v [of 0] by auto
qed

end
