(* ===== verification/Mpp_Mem_Pool.thy ===== *)
theory Mpp_Mem_Pool
  imports Mpp_Prelude
begin

text \<open>
  The memory pools of \<open>osal/mpp_mem_pool.c\<close>, from which buffers, groups, frames and packets are taken: a
  block that is put back is kept and handed out again, cleared, by the next request.

  Pools and nodes are objects at addresses that are natural numbers; a block is named by the address of
  the node in front of it. \<open>None\<close> is an address that is not allocated, and an access to it is the fault
  \<open>Freed_Access\<close>. \<open>malloc\<close> gives an address that is not in use. The two lists of a pool and the list of
  the service are lists of addresses; \<open>list_del_init\<close> takes a node out of whatever list it is in. The
  locks are held from the beginning to the end of an operation and left out; \<open>alloc\<close> arguments tell
  whether an allocation succeeds.
\<close>

section \<open>State\<close>

record MppMemPoolNode =
  node_check :: "nat option"
  node_size :: nat
  node_bytes :: "u8 list"

record MppMemPoolImpl =
  pool_check :: "nat option"
  pool_size :: nat
  pool_used :: "nat list"
  pool_unused :: "nat list"
  used_count :: int
  unused_count :: int
  finalized :: bool

record pool_state =
  ps_nodes :: "nat \<Rightarrow> MppMemPoolNode option"
  ps_pools :: "nat \<Rightarrow> MppMemPoolImpl option"
  ps_next :: nat
  ps_srv :: "nat list option"

definition pool_state_0 :: pool_state where
  "pool_state_0 = \<lparr>ps_nodes = Map.empty, ps_pools = Map.empty, ps_next = 0, ps_srv = None\<rparr>"

definition get_pool :: "pool_state \<Rightarrow> nat \<Rightarrow> MppMemPoolImpl run" where
  "get_pool s a = (case ps_pools s a of None \<Rightarrow> Inl Freed_Access | Some p \<Rightarrow> Inr p)"

definition get_node :: "pool_state \<Rightarrow> nat \<Rightarrow> MppMemPoolNode run" where
  "get_node s n = (case ps_nodes s n of None \<Rightarrow> Inl Freed_Access | Some x \<Rightarrow> Inr x)"

definition set_pool :: "nat \<Rightarrow> MppMemPoolImpl \<Rightarrow> pool_state \<Rightarrow> pool_state" where
  "set_pool a p s = s\<lparr>ps_pools := (ps_pools s)(a \<mapsto> p)\<rparr>"

definition unlink_from :: "nat \<Rightarrow> MppMemPoolImpl \<Rightarrow> MppMemPoolImpl" where
  "unlink_from n p = p\<lparr>pool_used := removeAll n (pool_used p), pool_unused := removeAll n (pool_unused p)\<rparr>"

definition unlink_node :: "nat \<Rightarrow> pool_state \<Rightarrow> pool_state" where
  "unlink_node n s = s\<lparr>ps_pools := (\<lambda>a. map_option (unlink_from n) (ps_pools s a))\<rparr>"

section \<open>Operations\<close>

definition mem_pool_srv_init :: "bool \<Rightarrow> pool_state \<Rightarrow> pool_state" where
  "mem_pool_srv_init alloc s =
     (case ps_srv s of Some _ \<Rightarrow> s | None \<Rightarrow> if alloc then s\<lparr>ps_srv := Some []\<rparr> else s)"

definition get_srv_mem_pool :: "bool \<Rightarrow> pool_state \<Rightarrow> bool \<times> pool_state" where
  "get_srv_mem_pool alloc s = (let s1 = mem_pool_srv_init alloc s in (ps_srv s1 \<noteq> None, s1))"

fun free_nodes :: "nat list \<Rightarrow> pool_state \<Rightarrow> pool_state run" where
  "free_nodes [] s = Inr s"
| "free_nodes (n # ns) s =
     run_bind (get_node s n) (\<lambda>_. free_nodes ns (s\<lparr>ps_nodes := (ps_nodes s)(n := None)\<rparr>))"

definition put_pool :: "bool \<Rightarrow> nat \<Rightarrow> pool_state \<Rightarrow> pool_state run" where
  "put_pool srv a s =
     run_bind (get_pool s a) (\<lambda>p.
       if pool_check p \<noteq> Some a then Inr s
       else if finalized p then Inr s
       else
         run_bind (free_nodes (pool_unused p) s) (\<lambda>s1.
         run_bind (free_nodes (pool_used p) s1) (\<lambda>s2.
           Inr (s2\<lparr>ps_srv := (if srv then map_option (removeAll a) (ps_srv s2) else ps_srv s2),
                  ps_pools := (ps_pools s2)(a := None)\<rparr>))))"

fun put_pools :: "nat list \<Rightarrow> pool_state \<Rightarrow> pool_state run" where
  "put_pools [] s = Inr s"
| "put_pools (a # as) s = run_bind (put_pool True a s) (put_pools as)"

definition mem_pool_srv_deinit :: "pool_state \<Rightarrow> pool_state run" where
  "mem_pool_srv_deinit s =
     (case ps_srv s of
        None \<Rightarrow> Inr s
      | Some as \<Rightarrow> run_bind (put_pools as s) (\<lambda>s1. Inr (s1\<lparr>ps_srv := None\<rparr>)))"

definition mpp_mem_pool_init :: "bool \<Rightarrow> bool \<Rightarrow> nat \<Rightarrow> pool_state \<Rightarrow> nat option \<times> pool_state" where
  "mpp_mem_pool_init srv_alloc alloc sz s =
     (let (srv, s1) = get_srv_mem_pool srv_alloc s; a = ps_next s1 in
      if \<not> srv then (None, s1)
      else if \<not> alloc then (None, s1)
      else (Some a, s1\<lparr>ps_next := a + 1,
              ps_pools := (ps_pools s1)(a \<mapsto>
                \<lparr>pool_check = Some a, pool_size = sz, pool_used = [], pool_unused = [],
                 used_count = 0, unused_count = 0, finalized = False\<rparr>),
              ps_srv := map_option (\<lambda>as. as @ [a]) (ps_srv s1)\<rparr>))"

definition mpp_mem_pool_deinit :: "bool \<Rightarrow> nat \<Rightarrow> pool_state \<Rightarrow> pool_state run" where
  "mpp_mem_pool_deinit srv_alloc a s = (let (srv, s1) = get_srv_mem_pool srv_alloc s in put_pool srv a s1)"

text \<open>\<open>memset\<close> clears \<open>node->size\<close> bytes of the block.\<close>

definition clear_block :: "nat \<Rightarrow> pool_state \<Rightarrow> pool_state run" where
  "clear_block n s =
     run_bind (get_node s n) (\<lambda>x.
       Inr (s\<lparr>ps_nodes := (ps_nodes s)(n \<mapsto> x\<lparr>node_bytes := replicate (node_size x) 0\<rparr>)\<rparr>))"

definition reuse_node :: "nat \<Rightarrow> nat \<Rightarrow> pool_state \<Rightarrow> pool_state run" where
  "reuse_node a n s =
     (let s1 = unlink_node n s in
      run_bind (get_pool s1 a) (\<lambda>p.
      run_bind (get_node s1 n) (\<lambda>x.
        let s2 = set_pool a (p\<lparr>pool_used := pool_used p @ [n], used_count := used_count p + 1,
                              unused_count := unused_count p - 1\<rparr>) s1
        in Inr (s2\<lparr>ps_nodes := (ps_nodes s2)(n \<mapsto> x\<lparr>node_check := Some n\<rparr>)\<rparr>))))"

definition new_node :: "nat \<Rightarrow> MppMemPoolImpl \<Rightarrow> pool_state \<Rightarrow> pool_state" where
  "new_node a p s =
     (let n = ps_next s in
      set_pool a (p\<lparr>pool_used := pool_used p @ [n], used_count := used_count p + 1\<rparr>)
        (s\<lparr>ps_next := n + 1,
           ps_nodes := (ps_nodes s)(n \<mapsto> \<lparr>node_check = Some n, node_size = pool_size p, node_bytes = []\<rparr>)\<rparr>))"

definition mpp_mem_pool_get :: "bool \<Rightarrow> nat \<Rightarrow> pool_state \<Rightarrow> (nat option \<times> pool_state) run" where
  "mpp_mem_pool_get alloc a s =
     run_bind (get_pool s a) (\<lambda>p.
       case pool_unused p of
         n # _ \<Rightarrow> run_bind (reuse_node a n s) (\<lambda>s1. run_bind (clear_block n s1) (\<lambda>s2. Inr (Some n, s2)))
       | [] \<Rightarrow>
           if \<not> alloc then Inr (None, s)
           else run_bind (clear_block (ps_next s) (new_node a p s)) (\<lambda>s2. Inr (Some (ps_next s), s2)))"

definition mpp_mem_pool_put :: "nat \<Rightarrow> nat \<Rightarrow> pool_state \<Rightarrow> pool_state run" where
  "mpp_mem_pool_put a n s =
     run_bind (get_pool s a) (\<lambda>p.
       if pool_check p \<noteq> Some a then Inr s
       else
         run_bind (get_node s n) (\<lambda>x.
           if node_check x \<noteq> Some n then Inr s
           else
             (let s1 = unlink_node n s in
              run_bind (get_pool s1 a) (\<lambda>p1.
                let s2 = set_pool a (p1\<lparr>pool_unused := n # pool_unused p1, used_count := used_count p1 - 1,
                                      unused_count := unused_count p1 + 1\<rparr>) s1
                in Inr (s2\<lparr>ps_nodes := (ps_nodes s2)(n \<mapsto> x\<lparr>node_check := None\<rparr>)\<rparr>)))))"

text \<open>What a user does with a block: it writes the bytes behind the node.\<close>

definition write_block :: "nat \<Rightarrow> u8 list \<Rightarrow> pool_state \<Rightarrow> pool_state run" where
  "write_block n bs s =
     run_bind (get_node s n) (\<lambda>x. Inr (s\<lparr>ps_nodes := (ps_nodes s)(n \<mapsto> x\<lparr>node_bytes := bs\<rparr>)\<rparr>))"

section \<open>The invariant\<close>

text \<open>Every node is in at most one list; the nodes that are handed out are marked; the counts agree.\<close>

definition pool_nodes :: "MppMemPoolImpl \<Rightarrow> nat set" where
  "pool_nodes p = set (pool_used p) \<union> set (pool_unused p)"

definition one_pool_ok :: "(nat \<Rightarrow> MppMemPoolNode option) \<Rightarrow> nat \<Rightarrow> MppMemPoolImpl \<Rightarrow> bool" where
  "one_pool_ok nodes a p \<longleftrightarrow>
     pool_check p = Some a \<and> \<not> finalized p \<and> distinct (pool_used p @ pool_unused p) \<and>
     used_count p = int (length (pool_used p)) \<and> unused_count p = int (length (pool_unused p)) \<and>
     (\<forall>n \<in> set (pool_used p). \<exists>x. nodes n = Some x \<and> node_check x = Some n \<and> node_size x = pool_size p) \<and>
     (\<forall>n \<in> set (pool_unused p). \<exists>x. nodes n = Some x \<and> node_check x = None \<and> node_size x = pool_size p)"

definition srv_pools :: "pool_state \<Rightarrow> nat list" where
  "srv_pools s = (case ps_srv s of None \<Rightarrow> [] | Some as \<Rightarrow> as)"

definition pool_ok :: "pool_state \<Rightarrow> bool" where
  "pool_ok s \<longleftrightarrow>
     (\<forall>a p. ps_pools s a = Some p \<longrightarrow> a < ps_next s \<and> one_pool_ok (ps_nodes s) a p) \<and>
     (\<forall>a b p q. ps_pools s a = Some p \<longrightarrow> ps_pools s b = Some q \<longrightarrow> a \<noteq> b \<longrightarrow> pool_nodes p \<inter> pool_nodes q = {}) \<and>
     (\<forall>n. ps_nodes s n \<noteq> None \<longrightarrow> n < ps_next s) \<and>
     distinct (srv_pools s) \<and> set (srv_pools s) = dom (ps_pools s)"

lemma pool_okD:
  assumes "pool_ok s" and "ps_pools s a = Some p"
  shows "a < ps_next s" and "one_pool_ok (ps_nodes s) a p"
    and "\<And>b q. ps_pools s b = Some q \<Longrightarrow> a \<noteq> b \<Longrightarrow> pool_nodes p \<inter> pool_nodes q = {}"
    and "\<And>n. n \<in> pool_nodes p \<Longrightarrow> n < ps_next s"
proof -
  show "a < ps_next s" and one: "one_pool_ok (ps_nodes s) a p"
    and "\<And>b q. ps_pools s b = Some q \<Longrightarrow> a \<noteq> b \<Longrightarrow> pool_nodes p \<inter> pool_nodes q = {}"
    using assms by (simp_all add: pool_ok_def)
  fix n assume "n \<in> pool_nodes p"
  with one have "ps_nodes s n \<noteq> None"
    by (auto simp: one_pool_ok_def pool_nodes_def)
  then show "n < ps_next s"
    using assms(1) by (simp add: pool_ok_def)
qed

lemma one_pool_ok_cong:
  "one_pool_ok nodes a p \<Longrightarrow> (\<And>n. n \<in> pool_nodes p \<Longrightarrow> nodes' n = nodes n) \<Longrightarrow> one_pool_ok nodes' a p"
  by (simp add: one_pool_ok_def pool_nodes_def)

lemma pool_ok_set:
  assumes ok: "pool_ok s" and p: "ps_pools s a = Some p"
    and s': "ps_pools s' = (ps_pools s)(a \<mapsto> p')" "ps_srv s' = ps_srv s" "ps_next s \<le> ps_next s'"
    and nodes: "\<And>n. n \<notin> pool_nodes p \<Longrightarrow> n < ps_next s \<Longrightarrow> ps_nodes s' n = ps_nodes s n"
      "\<And>n. ps_nodes s' n \<noteq> None \<Longrightarrow> n < ps_next s'"
    and mem: "\<And>n. n \<in> pool_nodes p' \<Longrightarrow> n \<in> pool_nodes p \<or> ps_next s \<le> n"
    and p': "one_pool_ok (ps_nodes s') a p'"
  shows "pool_ok s'"
proof -
  have other: "a \<noteq> b \<Longrightarrow> ps_pools s b = Some q \<Longrightarrow> pool_nodes p' \<inter> pool_nodes q = {}" for b q
    using pool_okD(3) [OF ok p, of b q] pool_okD(4) [OF ok, of b q] mem by (fastforce dest: leD)
  have "one_pool_ok (ps_nodes s') b q" if "ps_pools s b = Some q" "a \<noteq> b" for b q
    using pool_okD(3) [OF ok p that]
    by (intro one_pool_ok_cong [OF pool_okD(2) [OF ok that(1)]] nodes(1)) (auto intro: pool_okD(4) [OF ok that(1)])
  moreover have "pool_nodes q \<inter> pool_nodes q' = {}"
    if "ps_pools s' b = Some q" "ps_pools s' c = Some q'" "b \<noteq> c" for b c q q'
  proof (cases "b = a \<or> c = a")
    case True
    with that s'(1) other [of b] other [of c] show ?thesis by auto
  next
    case False
    with that s'(1) pool_okD(3) [OF ok, of b q c q'] show ?thesis by simp
  qed
  moreover have "dom (ps_pools s') = dom (ps_pools s)" "srv_pools s' = srv_pools s"
    using s' p by (auto simp: srv_pools_def)
  moreover have "b < ps_next s'" if "ps_pools s b = Some q" for b q
    using pool_okD(1) [OF ok that] s'(3) by simp
  ultimately show ?thesis
    using ok s'(1) nodes(2) p' p by (simp add: pool_ok_def)
qed

lemma unlink_from_other: "n \<notin> pool_nodes p \<Longrightarrow> unlink_from n p = p"
  by (cases p) (simp add: unlink_from_def pool_nodes_def)

lemma unlink_node_eq:
  assumes "pool_ok s" and "ps_pools s a = Some p" and "n \<in> pool_nodes p"
  shows "unlink_node n s = s\<lparr>ps_pools := (ps_pools s)(a \<mapsto> unlink_from n p)\<rparr>"
proof -
  have "map_option (unlink_from n) (ps_pools s b) = ps_pools s b" if "b \<noteq> a" for b
    using pool_okD(3) [OF assms(1,2), of b] that assms(3)
    by (cases "ps_pools s b") (auto intro!: unlink_from_other)
  then have "(\<lambda>b. map_option (unlink_from n) (ps_pools s b)) = (ps_pools s)(a \<mapsto> unlink_from n p)"
    using assms(2) by (auto simp: fun_eq_iff)
  then show ?thesis by (simp add: unlink_node_def)
qed

section \<open>The operations keep it\<close>

lemma pool_get_reuse:
  assumes ok: "pool_ok s" and p: "ps_pools s a = Some p" and u: "pool_unused p = n # ns"
  shows "\<exists>s'. mpp_mem_pool_get alloc a s = Inr (Some n, s') \<and> pool_ok s' \<and>
    ps_nodes s' = (ps_nodes s)(n \<mapsto> \<lparr>node_check = Some n, node_size = pool_size p,
                                  node_bytes = replicate (pool_size p) 0\<rparr>) \<and>
    ps_pools s' = (ps_pools s)(a \<mapsto> p\<lparr>pool_unused := ns, pool_used := pool_used p @ [n],
      used_count := used_count p + 1, unused_count := unused_count p - 1\<rparr>)"
proof -
  have one: "one_pool_ok (ps_nodes s) a p"
    using pool_okD(2) [OF ok p] .
  then have d: "distinct (pool_used p @ pool_unused p)" "n \<notin> set ns" "n \<notin> set (pool_used p)"
    and n: "n \<in> pool_nodes p"
    using u by (auto simp: one_pool_ok_def pool_nodes_def)
  obtain x where x: "ps_nodes s n = Some x" "node_check x = None" "node_size x = pool_size p"
    using one u by (auto simp: one_pool_ok_def)
  let ?p = "p\<lparr>pool_unused := ns, pool_used := pool_used p @ [n],
      used_count := used_count p + 1, unused_count := unused_count p - 1\<rparr>"
  let ?x = "\<lparr>node_check = Some n, node_size = pool_size p, node_bytes = replicate (pool_size p) 0\<rparr>"
  let ?s = "s\<lparr>ps_pools := (ps_pools s)(a \<mapsto> ?p), ps_nodes := (ps_nodes s)(n \<mapsto> ?x)\<rparr>"
  have f: "unlink_from n p = p\<lparr>pool_used := pool_used p, pool_unused := ns\<rparr>"
    using d u by (simp add: unlink_from_def removeAll_id)
  have upd: "mpp_mem_pool_get alloc a s = Inr (Some n, ?s)"
    using p u x
    by (cases x) (simp add: mpp_mem_pool_get_def get_pool_def get_node_def reuse_node_def clear_block_def set_pool_def
        unlink_node_eq [OF ok p n, unfolded f] Let_def)
  have "pool_ok ?s"
  proof (rule pool_ok_set [OF ok p, where p' = ?p])
    show "one_pool_ok (ps_nodes ?s) a ?p"
      using one u d by (auto simp: one_pool_ok_def)
    show "ps_nodes ?s m = ps_nodes s m" if "m \<notin> pool_nodes p" for m
      using that n by auto
    show "m < ps_next ?s" if "ps_nodes ?s m \<noteq> None" for m
      using that ok x by (auto simp: pool_ok_def split: if_splits)
    show "m \<in> pool_nodes p \<or> ps_next s \<le> m" if "m \<in> pool_nodes ?p" for m
      using that u by (auto simp: pool_nodes_def)
  qed simp_all
  with upd show ?thesis by auto
qed

lemma pool_get_new:
  assumes ok: "pool_ok s" and p: "ps_pools s a = Some p" and u: "pool_unused p = []"
  defines "n \<equiv> ps_next s"
  shows "\<exists>s'. mpp_mem_pool_get True a s = Inr (Some n, s') \<and> pool_ok s' \<and>
    ps_nodes s' = (ps_nodes s)(n \<mapsto> \<lparr>node_check = Some n, node_size = pool_size p,
                                  node_bytes = replicate (pool_size p) 0\<rparr>) \<and>
    ps_pools s' = (ps_pools s)(a \<mapsto> p\<lparr>pool_used := pool_used p @ [n], used_count := used_count p + 1\<rparr>)"
proof -
  have one: "one_pool_ok (ps_nodes s) a p"
    using pool_okD(2) [OF ok p] .
  have fresh: "n \<notin> pool_nodes p"
    using pool_okD(4) [OF ok p, of n] by (auto simp: n_def)
  let ?p = "p\<lparr>pool_used := pool_used p @ [n], used_count := used_count p + 1\<rparr>"
  let ?x = "\<lparr>node_check = Some n, node_size = pool_size p, node_bytes = replicate (pool_size p) 0\<rparr>"
  let ?s = "s\<lparr>ps_next := n + 1, ps_nodes := (ps_nodes s)(n \<mapsto> ?x), ps_pools := (ps_pools s)(a \<mapsto> ?p)\<rparr>"
  have upd: "mpp_mem_pool_get True a s = Inr (Some n, ?s)"
    using p u by (cases s)
      (simp add: mpp_mem_pool_get_def get_pool_def get_node_def new_node_def clear_block_def set_pool_def n_def)
  have "pool_ok ?s"
  proof (rule pool_ok_set [OF ok p, where p' = ?p])
    show "one_pool_ok (ps_nodes ?s) a ?p"
      using one fresh by (auto simp: one_pool_ok_def pool_nodes_def)
    show "ps_nodes ?s m = ps_nodes s m" if "m < ps_next s" for m
      using that by (simp add: n_def)
    show "m < ps_next ?s" if "ps_nodes ?s m \<noteq> None" for m
      using that ok by (auto simp: pool_ok_def n_def less_Suc_eq split: if_splits)
    show "m \<in> pool_nodes p \<or> ps_next s \<le> m" if "m \<in> pool_nodes ?p" for m
      using that by (auto simp: pool_nodes_def n_def)
  qed (simp_all add: n_def)
  with upd show ?thesis by auto
qed

lemma pool_get_fails: "ps_pools s a = Some p \<Longrightarrow> pool_unused p = [] \<Longrightarrow> mpp_mem_pool_get False a s = Inr (None, s)"
  by (simp add: mpp_mem_pool_get_def get_pool_def)

lemma pool_put_ok:
  assumes ok: "pool_ok s" and p: "ps_pools s a = Some p" and n: "n \<in> set (pool_used p)"
  shows "\<exists>s' x. mpp_mem_pool_put a n s = Inr s' \<and> pool_ok s' \<and> ps_nodes s n = Some x \<and>
    ps_nodes s' = (ps_nodes s)(n \<mapsto> x\<lparr>node_check := None\<rparr>) \<and>
    ps_pools s' = (ps_pools s)(a \<mapsto> p\<lparr>pool_used := removeAll n (pool_used p), pool_unused := n # pool_unused p,
      used_count := used_count p - 1, unused_count := unused_count p + 1\<rparr>)"
proof -
  have one: "one_pool_ok (ps_nodes s) a p"
    using pool_okD(2) [OF ok p] .
  then have d: "distinct (pool_used p)" "n \<notin> set (pool_unused p)" and c: "pool_check p = Some a"
    and m: "n \<in> pool_nodes p"
    using n by (auto simp: one_pool_ok_def pool_nodes_def)
  obtain x where x: "ps_nodes s n = Some x" "node_check x = Some n" "node_size x = pool_size p"
    using one n by (auto simp: one_pool_ok_def)
  let ?p = "p\<lparr>pool_used := removeAll n (pool_used p), pool_unused := n # pool_unused p,
      used_count := used_count p - 1, unused_count := unused_count p + 1\<rparr>"
  let ?s = "s\<lparr>ps_pools := (ps_pools s)(a \<mapsto> ?p), ps_nodes := (ps_nodes s)(n \<mapsto> x\<lparr>node_check := None\<rparr>)\<rparr>"
  have f: "unlink_from n p = p\<lparr>pool_used := removeAll n (pool_used p), pool_unused := pool_unused p\<rparr>"
    using d by (simp add: unlink_from_def removeAll_id)
  have upd: "mpp_mem_pool_put a n s = Inr ?s"
    using p x c by (simp add: mpp_mem_pool_put_def get_pool_def get_node_def set_pool_def
        unlink_node_eq [OF ok p m, unfolded f] Let_def)
  have "Suc (length (removeAll n (pool_used p))) = length (pool_used p)"
    using d(1) n by (metis One_nat_def Suc_pred distinct_remove1_removeAll length_pos_if_in_set length_remove1)
  moreover have "used_count p = int (length (pool_used p))"
    using one by (simp add: one_pool_ok_def)
  ultimately have "int (length (removeAll n (pool_used p))) = used_count p - 1"
    by simp
  then have "one_pool_ok (ps_nodes ?s) a ?p"
    using one d x by (auto simp: one_pool_ok_def distinct_removeAll)
  then have "pool_ok ?s"
  proof (rule pool_ok_set [OF ok p, where p' = ?p, rotated -1])
    show "ps_nodes ?s i = ps_nodes s i" if "i \<notin> pool_nodes p" for i
      using that m by auto
    show "i < ps_next ?s" if "ps_nodes ?s i \<noteq> None" for i
      using that ok x by (auto simp: pool_ok_def split: if_splits)
    show "i \<in> pool_nodes p \<or> ps_next s \<le> i" if "i \<in> pool_nodes ?p" for i
      using that n by (auto simp: pool_nodes_def)
  qed simp_all
  with upd x show ?thesis by auto
qed

lemma pool_free_nodes_ok:
  "distinct ns \<Longrightarrow> \<forall>n \<in> set ns. ps_nodes s n \<noteq> None \<Longrightarrow>
     free_nodes ns s = Inr (s\<lparr>ps_nodes := (\<lambda>n. if n \<in> set ns then None else ps_nodes s n)\<rparr>)"
proof (induction ns arbitrary: s)
  case (Cons a ns)
  have "(\<lambda>n. if n \<in> set ns then None else ((ps_nodes s)(a := None)) n)
      = (\<lambda>n. if n \<in> set (a # ns) then None else ps_nodes s n)"
    by auto
  moreover have "\<forall>n \<in> set ns. ((ps_nodes s)(a := None)) n \<noteq> None" "ps_nodes s a \<noteq> None"
    using Cons.prems by auto
  ultimately show ?case
    using Cons.IH [of "s\<lparr>ps_nodes := (ps_nodes s)(a := None)\<rparr>"] Cons.prems(1) by (auto simp: get_node_def cong: if_cong)
qed simp

lemma put_pool_ok:
  assumes ok: "pool_ok s" and p: "ps_pools s a = Some p"
  shows "\<exists>s'. put_pool True a s = Inr s' \<and> pool_ok s' \<and> ps_pools s' = (ps_pools s)(a := None) \<and>
    ps_nodes s' = (\<lambda>n. if n \<in> pool_nodes p then None else ps_nodes s n) \<and> ps_next s' = ps_next s \<and>
    ps_srv s' = map_option (removeAll a) (ps_srv s)"
proof -
  have one: "one_pool_ok (ps_nodes s) a p"
    using pool_okD(2) [OF ok p] .
  let ?n1 = "\<lambda>n. if n \<in> set (pool_unused p) then None else ps_nodes s n"
  let ?nodes = "\<lambda>n. if n \<in> pool_nodes p then None else ps_nodes s n"
  let ?s = "s\<lparr>ps_nodes := ?nodes, ps_srv := map_option (removeAll a) (ps_srv s), ps_pools := (ps_pools s)(a := None)\<rparr>"
  have f1: "free_nodes (pool_unused p) s = Inr (s\<lparr>ps_nodes := ?n1\<rparr>)"
    using one by (intro pool_free_nodes_ok) (auto simp: one_pool_ok_def)
  have "free_nodes (pool_used p) (s\<lparr>ps_nodes := ?n1\<rparr>)
      = Inr (s\<lparr>ps_nodes := ?n1\<rparr>\<lparr>ps_nodes := (\<lambda>n. if n \<in> set (pool_used p) then None else ?n1 n)\<rparr>)"
    using one by (subst pool_free_nodes_ok) (auto simp: one_pool_ok_def disjoint_iff cong: if_cong)
  moreover have "(\<lambda>n. if n \<in> set (pool_used p) then None else ?n1 n) = ?nodes"
    by (auto simp: pool_nodes_def)
  ultimately have f2: "free_nodes (pool_used p) (s\<lparr>ps_nodes := ?n1\<rparr>) = Inr (s\<lparr>ps_nodes := ?nodes\<rparr>)"
    by simp
  have upd: "put_pool True a s = Inr ?s"
    using p one f1 f2 by (simp add: put_pool_def get_pool_def one_pool_ok_def)
  have "one_pool_ok ?nodes b q" if "ps_pools s b = Some q" "a \<noteq> b" for b q
    using pool_okD(3) [OF ok p that] by (intro one_pool_ok_cong [OF pool_okD(2) [OF ok that(1)]]) auto
  moreover have "srv_pools ?s = removeAll a (srv_pools s)"
    by (simp add: srv_pools_def split: option.split)
  ultimately have "pool_ok ?s"
    using ok by (auto simp: pool_ok_def distinct_removeAll split: if_splits)
  with upd show ?thesis by auto
qed

lemma put_pools_ok:
  assumes "pool_ok s" and "distinct as" and "set as = dom (ps_pools s)"
  shows "\<exists>s'. put_pools as s = Inr s' \<and> pool_ok s' \<and> ps_pools s' = Map.empty"
  using assms
proof (induction as arbitrary: s)
  case Nil
  then show ?case by (auto simp: dom_def fun_eq_iff)
next
  case (Cons a as)
  then obtain p where "ps_pools s a = Some p" by auto
  with put_pool_ok [OF Cons.prems(1) this] obtain s1 where
    "put_pool True a s = Inr s1" "pool_ok s1" "ps_pools s1 = (ps_pools s)(a := None)" by auto
  moreover from this(3) Cons.prems(2,3) have "set as = dom (ps_pools s1)"
    by auto
  ultimately obtain s' where "put_pools as s1 = Inr s'" "pool_ok s'" "ps_pools s' = Map.empty"
    using Cons.IH [of s1] Cons.prems(2) by (auto simp del: fun_upd_apply)
  then show ?case
    using \<open>put_pool True a s = Inr s1\<close> by simp
qed

lemma pool_srv_deinit_ok:
  assumes "pool_ok s"
  shows "\<exists>s'. mem_pool_srv_deinit s = Inr s' \<and> pool_ok s'"
proof (cases "ps_srv s")
  case None
  with assms show ?thesis by (simp add: mem_pool_srv_deinit_def)
next
  case (Some as)
  then obtain s1 where "put_pools as s = Inr s1" "pool_ok s1" "ps_pools s1 = Map.empty"
    using put_pools_ok [OF assms, of as] assms by (auto simp: pool_ok_def srv_pools_def)
  with Some show ?thesis
    by (auto simp: mem_pool_srv_deinit_def pool_ok_def srv_pools_def)
qed

lemma pool_get_srv_ok:
  "pool_ok s \<Longrightarrow> get_srv_mem_pool b s = (srv, s1) \<Longrightarrow>
     pool_ok s1 \<and> ps_pools s1 = ps_pools s \<and> ps_nodes s1 = ps_nodes s \<and> ps_next s1 = ps_next s \<and> srv = (ps_srv s1 \<noteq> None)"
proof (cases "ps_srv s")
  case None
  assume ok: "pool_ok s" and g: "get_srv_mem_pool b s = (srv, s1)"
  from ok have "set (srv_pools s) = dom (ps_pools s)"
    by (simp add: pool_ok_def)
  with None have "ps_pools s = Map.empty"
    by (simp add: srv_pools_def flip: dom_eq_empty_conv)
  with ok g None show ?thesis
    by (auto simp: get_srv_mem_pool_def mem_pool_srv_init_def pool_ok_def srv_pools_def Let_def split: if_splits)
qed (auto simp: get_srv_mem_pool_def mem_pool_srv_init_def)

lemma pool_init_ok:
  assumes "pool_ok s" and "mpp_mem_pool_init b al sz s = (r, s')"
  shows "pool_ok s'"
proof -
  obtain srv s1 where g: "get_srv_mem_pool b s = (srv, s1)"
    by (cases "get_srv_mem_pool b s")
  have ok: "pool_ok s1" and srv: "srv = (ps_srv s1 \<noteq> None)"
    using pool_get_srv_ok [OF assms(1) g] by auto
  have new: "ps_pools s1 (ps_next s1) = None"
    using pool_okD(1) [OF ok] by (cases "ps_pools s1 (ps_next s1)") auto
  then have "ps_next s1 \<notin> set (srv_pools s1)"
    using ok by (auto simp: pool_ok_def)
  note fresh = this
  let ?a = "ps_next s1"
  let ?p = "\<lparr>pool_check = Some ?a, pool_size = sz, pool_used = [], pool_unused = [],
                 used_count = 0, unused_count = 0, finalized = False\<rparr>"
  have empty: "pool_nodes ?p = {}" and one: "one_pool_ok (ps_nodes s1) ?a ?p"
    by (simp_all add: pool_nodes_def one_pool_ok_def)
  show ?thesis
  proof (cases "srv \<and> al")
    case True
    then obtain as where as: "ps_srv s1 = Some as"
      using srv by auto
    then have "mpp_mem_pool_init b al sz s =
        (Some ?a, s1\<lparr>ps_next := ?a + 1, ps_pools := (ps_pools s1)(?a \<mapsto> ?p), ps_srv := Some (as @ [?a])\<rparr>)"
      using True by (simp add: mpp_mem_pool_init_def g Let_def)
    then have s': "s' = s1\<lparr>ps_next := ?a + 1, ps_pools := (ps_pools s1)(?a \<mapsto> ?p), ps_srv := Some (as @ [?a])\<rparr>"
      using assms(2) by simp
    show ?thesis
      unfolding s' using ok fresh as empty one new
      by (auto simp: pool_ok_def srv_pools_def less_Suc_eq split: if_splits)
  next
    case False
    with assms(2) ok show ?thesis
      by (auto simp: mpp_mem_pool_init_def g Let_def split: if_splits)
  qed
qed

lemma pool_write_ok:
  assumes ok: "pool_ok s" and p: "ps_pools s a = Some p" and n: "n \<in> set (pool_used p)"
  shows "\<exists>s'. write_block n bs s = Inr s' \<and> pool_ok s'"
proof -
  have one: "one_pool_ok (ps_nodes s) a p"
    using pool_okD(2) [OF ok p] .
  then obtain x where x: "ps_nodes s n = Some x" "node_check x = Some n" "node_size x = pool_size p"
    using n by (auto simp: one_pool_ok_def)
  have m: "n \<in> pool_nodes p" "n \<notin> set (pool_unused p)"
    using one n by (auto simp: one_pool_ok_def pool_nodes_def)
  let ?s = "s\<lparr>ps_nodes := (ps_nodes s)(n \<mapsto> x\<lparr>node_bytes := bs\<rparr>)\<rparr>"
  have "one_pool_ok (ps_nodes ?s) a p"
    using one m(2) x by (auto simp: one_pool_ok_def)
  then have "pool_ok ?s"
    using ok x m by (intro pool_ok_set [OF ok p, where p' = p]) (auto simp: p pool_ok_def fun_upd_idem_iff split: if_splits)
  with x(1) show ?thesis
    by (simp add: write_block_def get_node_def)
qed

section \<open>Runs and the property\<close>

text \<open>
  The states of a program that returns a block to the pool it came from, once, and uses a pool only
  until it ends it.
\<close>

inductive pool_reach :: "pool_state \<Rightarrow> bool" where
  start: "pool_reach pool_state_0"
| init: "pool_reach s \<Longrightarrow> mpp_mem_pool_init b al sz s = (r, s') \<Longrightarrow> pool_reach s'"
| deinit: "pool_reach s \<Longrightarrow> a \<in> dom (ps_pools s) \<Longrightarrow> mpp_mem_pool_deinit b a s = Inr s' \<Longrightarrow> pool_reach s'"
| get: "pool_reach s \<Longrightarrow> a \<in> dom (ps_pools s) \<Longrightarrow> mpp_mem_pool_get al a s = Inr (r, s') \<Longrightarrow> pool_reach s'"
| put: "pool_reach s \<Longrightarrow> ps_pools s a = Some p \<Longrightarrow> n \<in> set (pool_used p) \<Longrightarrow>
     mpp_mem_pool_put a n s = Inr s' \<Longrightarrow> pool_reach s'"
| fill: "pool_reach s \<Longrightarrow> ps_pools s a = Some p \<Longrightarrow> n \<in> set (pool_used p) \<Longrightarrow>
     write_block n bs s = Inr s' \<Longrightarrow> pool_reach s'"
| end_service: "pool_reach s \<Longrightarrow> mem_pool_srv_deinit s = Inr s' \<Longrightarrow> pool_reach s'"

lemma pool_0_ok: "pool_ok pool_state_0"
  by (simp add: pool_ok_def pool_state_0_def srv_pools_def)

lemma pool_get_ok:
  assumes "pool_ok s" and "ps_pools s a = Some p"
  shows "\<exists>r s'. mpp_mem_pool_get al a s = Inr (r, s') \<and> pool_ok s'"
  using pool_get_reuse [OF assms] pool_get_new [OF assms] pool_get_fails [OF assms(2)] assms(1)
  by (cases "pool_unused p"; cases al) (auto, blast+)

lemma pool_deinit_ok:
  assumes "pool_ok s" and "ps_pools s a = Some p"
  shows "\<exists>s'. mpp_mem_pool_deinit b a s = Inr s' \<and> pool_ok s'"
proof -
  obtain srv s1 where g: "get_srv_mem_pool b s = (srv, s1)"
    by (cases "get_srv_mem_pool b s")
  note s1 = pool_get_srv_ok [OF assms(1) g]
  then have "ps_srv s1 \<noteq> None"
    using assms(2) by (auto simp: pool_ok_def srv_pools_def dom_def split: option.splits)
  with s1 put_pool_ok [of s1 a p] assms(2) show ?thesis
    by (auto simp: mpp_mem_pool_deinit_def g)
qed

lemma pool_reach_ok: "pool_reach s \<Longrightarrow> pool_ok s"
proof (induction rule: pool_reach.induct)
  case (get s a al r s')
  then show ?case using pool_get_ok [of s a _ al] by fastforce
next
  case (deinit s a b s')
  then show ?case using pool_deinit_ok [of s a _ b] by fastforce
next
  case (put s a p n s')
  then show ?case using pool_put_ok [of s a p n] by fastforce
next
  case (fill s a p n bs s')
  then show ?case using pool_write_ok [of s a p n bs] by fastforce
next
  case (end_service s s')
  then show ?case using pool_srv_deinit_ok [of s] by fastforce
qed (auto intro: pool_0_ok pool_init_ok)

text \<open>
  C25: in every reachable state a request delivers a block that nobody holds, of the size of the pool and
  with all bytes zero, or fails without an effect when there is neither an unused block nor memory; every
  other block keeps its contents. A block that was returned is the first to be handed out again, and
  returning it twice has no effect.
\<close>

theorem pool_get_is_fresh:
  assumes "pool_reach s" and "ps_pools s a = Some p"
  shows "\<exists>r s'. mpp_mem_pool_get alloc a s = Inr (r, s') \<and> pool_reach s' \<and>
    (case r of
       None \<Rightarrow> \<not> alloc \<and> pool_unused p = [] \<and> s' = s
     | Some n \<Rightarrow>
         (\<forall>b q. ps_pools s b = Some q \<longrightarrow> n \<notin> set (pool_used q)) \<and>
         (pool_unused p \<noteq> [] \<longrightarrow> n = hd (pool_unused p)) \<and>
         (\<exists>p'. ps_pools s' a = Some p' \<and> pool_used p' = pool_used p @ [n]) \<and>
         ps_nodes s' = (ps_nodes s)(n \<mapsto> \<lparr>node_check = Some n, node_size = pool_size p,
                                       node_bytes = replicate (pool_size p) 0\<rparr>) \<and>
         (\<exists>s1 q. mpp_mem_pool_put a n s' = Inr s1 \<and> mpp_mem_pool_put a n s1 = Inr s1 \<and>
                 ps_pools s1 a = Some q \<and> pool_unused q = n # (if pool_unused p = [] then [] else tl (pool_unused p))))"
proof -
  note ok = pool_reach_ok [OF assms(1)]
  have reach: "pool_reach s'" if "mpp_mem_pool_get alloc a s = Inr (r, s')" for r s'
    using pool_reach.get [OF assms(1) _ that] assms(2) by auto
  have twice: "\<exists>s1 q. mpp_mem_pool_put a n s' = Inr s1 \<and> mpp_mem_pool_put a n s1 = Inr s1 \<and>
      ps_pools s1 a = Some q \<and> pool_unused q = n # pool_unused p'"
    if h: "pool_ok s'" "ps_pools s' a = Some p'" "n \<in> set (pool_used p')" for s' p' n
  proof -
    obtain s1 x where "mpp_mem_pool_put a n s' = Inr s1" "pool_ok s1" "ps_nodes s1 n = Some (x\<lparr>node_check := None\<rparr>)"
      "ps_pools s1 a = Some (p'\<lparr>pool_used := removeAll n (pool_used p'), pool_unused := n # pool_unused p',
      used_count := used_count p' - 1, unused_count := unused_count p' + 1\<rparr>)"
      using pool_put_ok [OF h] by auto
    then show ?thesis
      by (auto simp: mpp_mem_pool_put_def [of a n s1] get_pool_def get_node_def)
  qed
  show ?thesis
  proof (cases "pool_unused p")
    case (Cons n ns)
    obtain s' where s': "mpp_mem_pool_get alloc a s = Inr (Some n, s')" "pool_ok s'"
      "ps_nodes s' = (ps_nodes s)(n \<mapsto> \<lparr>node_check = Some n, node_size = pool_size p,
                                  node_bytes = replicate (pool_size p) 0\<rparr>)"
      "ps_pools s' a = Some (p\<lparr>pool_unused := ns, pool_used := pool_used p @ [n],
      used_count := used_count p + 1, unused_count := unused_count p - 1\<rparr>)"
      using pool_get_reuse [OF ok assms(2) Cons, of alloc] by auto
    have "n \<notin> set (pool_used q)" if "ps_pools s b = Some q" for b q
      using pool_okD(2,3) [OF ok assms(2)] that Cons assms(2)
      by (cases "a = b") (auto simp: one_pool_ok_def pool_nodes_def)
    with s' Cons reach [OF s'(1)] twice [OF s'(2,4), of n] show ?thesis by auto
  next
    case Nil
    show ?thesis
    proof (cases alloc)
      case True
      let ?n = "ps_next s"
      obtain s' where s': "mpp_mem_pool_get alloc a s = Inr (Some ?n, s')" "pool_ok s'"
        "ps_nodes s' = (ps_nodes s)(?n \<mapsto> \<lparr>node_check = Some ?n, node_size = pool_size p,
                                  node_bytes = replicate (pool_size p) 0\<rparr>)"
        "ps_pools s' a = Some (p\<lparr>pool_used := pool_used p @ [?n], used_count := used_count p + 1\<rparr>)"
        using pool_get_new [OF ok assms(2) Nil] True by auto
      have "?n \<notin> set (pool_used q)" if "ps_pools s b = Some q" for b q
        using pool_okD(4) [OF ok that, of ?n] by (auto simp: pool_nodes_def)
      with s' Nil reach [OF s'(1)] twice [OF s'(2,4), of ?n] show ?thesis by auto
    next
      case False
      with pool_get_fails [OF assms(2) Nil] assms(1) Nil show ?thesis by auto
    qed
  qed
qed

theorem pool_get_is_fresh_witness:
  "\<exists>s s'. mpp_mem_pool_get True 0 s = Inr (Some 1, s') \<and> pool_reach s' \<and>
     ps_nodes s' 1 = Some \<lparr>node_check = Some 1, node_size = 3, node_bytes = [0, 0, 0]\<rparr>"
proof -
  let ?p = "\<lparr>pool_check = Some 0, pool_size = 3, pool_used = [], pool_unused = [1],
                 used_count = 0, unused_count = 1, finalized = False\<rparr>"
  define s0 where "s0 = snd (mpp_mem_pool_init True True 3 pool_state_0)"
  define s1 where "s1 = snd (projr (mpp_mem_pool_get True 0 s0))"
  define s2 where "s2 = projr (write_block 1 [7, 8, 9] s1)"
  define s3 where "s3 = projr (mpp_mem_pool_put 0 1 s2)"
  note defs = mpp_mem_pool_init_def pool_state_0_def get_srv_mem_pool_def mem_pool_srv_init_def Let_def
    mpp_mem_pool_get_def get_pool_def get_node_def new_node_def clear_block_def set_pool_def write_block_def
    mpp_mem_pool_put_def unlink_node_def unlink_from_def
  have r0: "pool_reach s0"
    unfolding s0_def by (rule pool_reach.init [OF pool_reach.start, of _ _ _ "fst (mpp_mem_pool_init True True 3 pool_state_0)"]) simp
  have r1: "pool_reach s1"
    by (rule pool_reach.get [OF r0, of 0 True "Some 1"]) (auto simp: s1_def s0_def defs)
  obtain q1 where q1: "ps_pools s1 0 = Some q1" "1 \<in> set (pool_used q1)"
    by (auto simp: s1_def s0_def defs)
  have r2: "pool_reach s2"
    by (rule pool_reach.fill [OF r1 q1, of "[7, 8, 9]"]) (auto simp: s2_def s1_def s0_def defs)
  obtain q2 where q2: "ps_pools s2 0 = Some q2" "1 \<in> set (pool_used q2)"
    by (auto simp: s2_def s1_def s0_def defs)
  have r3: "pool_reach s3"
    by (rule pool_reach.put [OF r2 q2]) (auto simp: s3_def s2_def s1_def s0_def defs)
  have "ps_pools s3 0 = Some ?p"
    by (auto simp: s3_def s2_def s1_def s0_def defs)
  from pool_get_is_fresh [OF r3 this, of True] show ?thesis
    by (fastforce split: option.splits simp: numeral_3_eq_3)
qed

end
