(* ===== verification/Mpp_H264e_Slice.thy ===== *)
theory Mpp_H264e_Slice
  imports Mpp_Bitread Mpp_Bitwrite
begin

text \<open>
  The slice headers of the H.264 encoder, \<open>mpp/codec/enc/h264/h264e_slice.c\<close>. The hardware writes a slice
  with its own header; the encoder reads that header, writes the one it wants and moves the slice data
  behind it. It also writes whole slices of skipped macroblocks and the prefix units of scalable streams.

  \<open>slice->reorder\<close> and \<open>slice->marking\<close> point to objects the encoder keeps; the slice record holds their
  contents. The results of single reads, which are only logged, are dropped. A local variable that C
  leaves uninitialised starts with an arbitrary value, which is an argument. The two loops of the reader
  end when they read a certain value, which a truncated header never delivers; their fuel is an argument.
\<close>

section \<open>Data\<close>

abbreviation (input) H264_P_SLICE :: u32 where "H264_P_SLICE \<equiv> 0"
abbreviation (input) H264_I_SLICE :: u32 where "H264_I_SLICE \<equiv> 2"
abbreviation (input) H264E_MAX_REFS_CNT :: int where "H264E_MAX_REFS_CNT \<equiv> 16"
abbreviation (input) MAX_H264E_MMCO_CNT :: int where "MAX_H264E_MMCO_CNT \<equiv> 8"

record H264eRplmo =
  modification_of_pic_nums_idc :: int
  abs_diff_pic_num_minus1 :: int
  long_term_pic_idx :: int
  abs_diff_view_idx_minus1 :: int

record H264eReorderInfo =
  ri_rd_cnt :: int
  ri_wr_cnt :: int
  ri_size :: int
  ri_ops :: "H264eRplmo list"

record H264eMmco =
  mmco :: int
  difference_of_pic_nums_minus1 :: int
  long_term_pic_num :: int
  long_term_frame_idx :: int
  max_long_term_frame_idx_plus1 :: int

record H264eMarkingInfo =
  mi_idr_flag :: int
  mi_no_output_of_prior_pics :: int
  mi_long_term_reference_flag :: int
  mi_adaptive_ref_pic_buffering :: int
  mi_rd_cnt :: int
  mi_wr_cnt :: int
  mi_size :: int
  mi_ops :: "H264eMmco list"

record H264eSlice =
  hs_mb_w :: int
  hs_mb_h :: int
  hs_max_num_ref_frames :: u32
  hs_entropy_coding_mode :: u32
  hs_log2_max_frame_num :: int
  hs_log2_max_poc_lsb :: int
  hs_pic_order_cnt_type :: int
  hs_qp_init :: int
  hs_nal_reference_idc :: int
  hs_nalu_type :: int
  hs_first_mb_in_slice :: u32
  hs_slice_type :: u32
  hs_pic_parameter_set_id :: u32
  hs_frame_num :: int
  hs_num_ref_idx_override :: int
  hs_qp_delta :: int
  hs_cabac_init_idc :: u32
  hs_disable_deblocking_filter_idc :: u32
  hs_slice_alpha_c0_offset_div2 :: int
  hs_slice_beta_offset_div2 :: int
  hs_ref_pic_list_modification_flag :: int
  hs_reorder :: H264eReorderInfo
  hs_marking :: H264eMarkingInfo
  hs_idr_flag :: int
  hs_idr_pic_id :: u32
  hs_next_idr_pic_id :: u32
  hs_pic_order_cnt_lsb :: u32
  hs_num_ref_idx_active :: int
  hs_no_output_of_prior_pics :: int
  hs_long_term_reference_flag :: int
  hs_adaptive_ref_pic_buffering :: int
  hs_is_multi_slice :: int

text \<open>\<open>memset\<close> to zero, then the pointers and the number of active references.\<close>

definition h264e_slice_init :: "H264eReorderInfo \<Rightarrow> H264eMarkingInfo \<Rightarrow> H264eSlice" where
  "h264e_slice_init reorder marking =
     \<lparr>hs_mb_w = 0, hs_mb_h = 0, hs_max_num_ref_frames = 0, hs_entropy_coding_mode = 0,
      hs_log2_max_frame_num = 0, hs_log2_max_poc_lsb = 0, hs_pic_order_cnt_type = 0, hs_qp_init = 0,
      hs_nal_reference_idc = 0, hs_nalu_type = 0, hs_first_mb_in_slice = 0, hs_slice_type = 0,
      hs_pic_parameter_set_id = 0, hs_frame_num = 0, hs_num_ref_idx_override = 0, hs_qp_delta = 0,
      hs_cabac_init_idc = 0, hs_disable_deblocking_filter_idc = 0, hs_slice_alpha_c0_offset_div2 = 0,
      hs_slice_beta_offset_div2 = 0, hs_ref_pic_list_modification_flag = 0, hs_reorder = reorder,
      hs_marking = marking, hs_idr_flag = 0, hs_idr_pic_id = 0, hs_next_idr_pic_id = 0,
      hs_pic_order_cnt_lsb = 0, hs_num_ref_idx_active = 1, hs_no_output_of_prior_pics = 0,
      hs_long_term_reference_flag = 0, hs_adaptive_ref_pic_buffering = 0, hs_is_multi_slice = 0\<rparr>"

text \<open>The fields of the configuration, the parameter sets and the frame that \<open>h264e_slice_update\<close> copies.\<close>

record slice_source =
  ss_entropy_coding_mode :: int
  ss_cabac_init_idc :: int
  ss_deblock_disable :: int
  ss_deblock_offset_alpha :: int
  ss_deblock_offset_beta :: int
  ss_pic_width_in_mbs :: int
  ss_pic_height_in_mbs :: int
  ss_num_ref_frames :: int
  ss_log2_max_frame_num_minus4 :: int
  ss_log2_max_poc_lsb_minus4 :: int
  ss_pic_order_cnt_type :: int
  ss_pic_init_qp :: int
  ss_is_idr :: int
  ss_is_non_ref :: int
  ss_is_lt_ref :: int
  ss_frame_num :: int
  ss_poc :: int

definition h264e_slice_update :: "H264eSlice \<Rightarrow> slice_source \<Rightarrow> mpp_ret \<times> H264eSlice" where
  "h264e_slice_update sl src =
     (let log2_poc = ss_log2_max_poc_lsb_minus4 src + 4;
          idr = ss_is_idr src \<noteq> 0
      in (MPP_OK, sl
        \<lparr>hs_mb_w := ss_pic_width_in_mbs src, hs_mb_h := ss_pic_height_in_mbs src,
         hs_max_num_ref_frames := word_of_int (ss_num_ref_frames src),
         hs_entropy_coding_mode := word_of_int (ss_entropy_coding_mode src),
         hs_log2_max_frame_num := ss_log2_max_frame_num_minus4 src + 4,
         hs_log2_max_poc_lsb := log2_poc,
         hs_pic_order_cnt_type := ss_pic_order_cnt_type src,
         hs_qp_init := ss_pic_init_qp src,
         hs_nal_reference_idc := (if ss_is_non_ref src \<noteq> 0 then 0 else if idr then 3 else 2),
         hs_nalu_type := (if idr then 5 else 1),
         hs_first_mb_in_slice := 0,
         hs_slice_type := (if idr then H264_I_SLICE else H264_P_SLICE),
         hs_pic_parameter_set_id := 0,
         hs_frame_num := ss_frame_num src,
         hs_num_ref_idx_override := 0,
         hs_qp_delta := 0,
         hs_cabac_init_idc :=
           (if ss_entropy_coding_mode src \<noteq> 0 then word_of_int (ss_cabac_init_idc src) else - 1),
         hs_disable_deblocking_filter_idc := word_of_int (ss_deblock_disable src),
         hs_slice_alpha_c0_offset_div2 := ss_deblock_offset_alpha src,
         hs_slice_beta_offset_div2 := ss_deblock_offset_beta src,
         hs_idr_flag := ss_is_idr src,
         hs_idr_pic_id := (if idr then hs_next_idr_pic_id sl else hs_idr_pic_id sl),
         hs_next_idr_pic_id :=
           (if idr then (if hs_next_idr_pic_id sl + 1 \<ge> 16 then 0 else hs_next_idr_pic_id sl + 1)
            else hs_next_idr_pic_id sl),
         hs_pic_order_cnt_lsb := word_of_int (ss_poc src) AND (push_bit (nat log2_poc) 1 - 1),
         hs_num_ref_idx_active := 1,
         hs_no_output_of_prior_pics := 0,
         hs_long_term_reference_flag := (if idr then ss_is_lt_ref src else 0)\<rparr>))"

section \<open>Lists of operations\<close>

definition h264e_reorder_init :: "H264eReorderInfo \<Rightarrow> H264eReorderInfo" where
  "h264e_reorder_init i = i\<lparr>ri_size := H264E_MAX_REFS_CNT, ri_rd_cnt := 0, ri_wr_cnt := 0\<rparr>"

definition h264e_reorder_wr_rewind :: "H264eReorderInfo \<Rightarrow> H264eReorderInfo" where
  "h264e_reorder_wr_rewind i = i\<lparr>ri_wr_cnt := 0\<rparr>"

definition h264e_reorder_rd_rewind :: "H264eReorderInfo \<Rightarrow> H264eReorderInfo" where
  "h264e_reorder_rd_rewind i = i\<lparr>ri_rd_cnt := 0\<rparr>"

definition h264e_reorder_wr_op :: "H264eReorderInfo \<Rightarrow> H264eRplmo \<Rightarrow> (mpp_ret \<times> H264eReorderInfo) run" where
  "h264e_reorder_wr_op i op =
     (if ri_wr_cnt i \<ge> ri_size i then Inr (MPP_NOK, i)
      else run_bind (array_set (ri_ops i) (ri_wr_cnt i) op) (\<lambda>ops.
             Inr (MPP_OK, i\<lparr>ri_ops := ops, ri_wr_cnt := ri_wr_cnt i + 1\<rparr>)))"

text \<open>A failing read leaves \<open>*op\<close> unchanged: no operation is returned.\<close>

definition h264e_reorder_rd_op :: "H264eReorderInfo \<Rightarrow> (H264eRplmo option \<times> H264eReorderInfo) run" where
  "h264e_reorder_rd_op i =
     (if ri_rd_cnt i \<ge> ri_wr_cnt i then Inr (None, i)
      else run_bind (array_get (ri_ops i) (ri_rd_cnt i)) (\<lambda>op.
             Inr (Some op, i\<lparr>ri_rd_cnt := ri_rd_cnt i + 1\<rparr>)))"

definition h264e_marking_init :: "H264eMarkingInfo \<Rightarrow> H264eMarkingInfo" where
  "h264e_marking_init m =
     m\<lparr>mi_idr_flag := 0, mi_no_output_of_prior_pics := 0, mi_long_term_reference_flag := 0,
       mi_adaptive_ref_pic_buffering := 0, mi_size := MAX_H264E_MMCO_CNT, mi_wr_cnt := 0, mi_rd_cnt := 0\<rparr>"

definition h264e_marking_is_empty :: "H264eMarkingInfo \<Rightarrow> bool" where
  "h264e_marking_is_empty m \<longleftrightarrow> mi_rd_cnt m \<ge> mi_wr_cnt m"

definition h264e_marking_wr_rewind :: "H264eMarkingInfo \<Rightarrow> H264eMarkingInfo" where
  "h264e_marking_wr_rewind m = m\<lparr>mi_wr_cnt := 0\<rparr>"

definition h264e_marking_rd_rewind :: "H264eMarkingInfo \<Rightarrow> H264eMarkingInfo" where
  "h264e_marking_rd_rewind m = m\<lparr>mi_rd_cnt := 0\<rparr>"

definition h264e_marking_wr_op :: "H264eMarkingInfo \<Rightarrow> H264eMmco \<Rightarrow> (mpp_ret \<times> H264eMarkingInfo) run" where
  "h264e_marking_wr_op m op =
     (if mi_wr_cnt m \<ge> mi_size m then Inr (MPP_NOK, m)
      else run_bind (array_set (mi_ops m) (mi_wr_cnt m) op) (\<lambda>ops.
             Inr (MPP_OK, m\<lparr>mi_ops := ops, mi_wr_cnt := mi_wr_cnt m + 1\<rparr>)))"

definition h264e_marking_rd_op :: "H264eMarkingInfo \<Rightarrow> (H264eMmco option \<times> H264eMarkingInfo) run" where
  "h264e_marking_rd_op m =
     (if h264e_marking_is_empty m then Inr (None, m)
      else run_bind (array_get (mi_ops m) (mi_rd_cnt m)) (\<lambda>op.
             Inr (Some op, m\<lparr>mi_rd_cnt := mi_rd_cnt m + 1\<rparr>)))"

section \<open>Writing\<close>

text \<open>A sequence of statements on a state, each of which may leave the defined behaviour.\<close>

fun run_seq :: "('s \<Rightarrow> 's run) list \<Rightarrow> 's \<Rightarrow> 's run" where
  "run_seq [] s = Inr s"
| "run_seq (k # ks) s = run_bind (k s) (run_seq ks)"

abbreviation (input) put_u :: "int \<Rightarrow> int \<Rightarrow> MppWriteCtx \<Rightarrow> MppWriteCtx run" where
  "put_u v n \<equiv> \<lambda>s. mpp_writer_put_bits s v n"

abbreviation (input) put_raw :: "int \<Rightarrow> int \<Rightarrow> MppWriteCtx \<Rightarrow> MppWriteCtx run" where
  "put_raw v n \<equiv> \<lambda>s. mpp_writer_put_raw_bits s v n"

abbreviation (input) put_ue :: "u32 \<Rightarrow> MppWriteCtx \<Rightarrow> MppWriteCtx run" where
  "put_ue v \<equiv> \<lambda>s. mpp_writer_put_ue s v"

abbreviation (input) put_se :: "int \<Rightarrow> MppWriteCtx \<Rightarrow> MppWriteCtx run" where
  "put_se v \<equiv> \<lambda>s. mpp_writer_put_se s v"

definition write_mmco_args :: "H264eMmco \<Rightarrow> MppWriteCtx \<Rightarrow> MppWriteCtx run" where
  "write_mmco_args op =
     (if mmco op = 1 then run_seq [put_ue (word_of_int (difference_of_pic_nums_minus1 op))]
      else if mmco op = 2 then run_seq [put_ue (word_of_int (long_term_pic_num op))]
      else if mmco op = 3 then
        run_seq [put_ue (word_of_int (difference_of_pic_nums_minus1 op)), put_ue (word_of_int (long_term_frame_idx op))]
      else if mmco op = 4 then run_seq [put_ue (word_of_int (max_long_term_frame_idx_plus1 op))]
      else if mmco op = 6 then run_seq [put_ue (word_of_int (long_term_frame_idx op))]
      else run_seq [])"

text \<open>The loop reads operations until the read count reaches the write count; \<open>n\<close> is their difference.\<close>

fun write_mmcos :: "nat \<Rightarrow> MppWriteCtx \<times> H264eMarkingInfo \<Rightarrow> (MppWriteCtx \<times> H264eMarkingInfo) run" where
  "write_mmcos 0 (s, m) = Inr (s, m)"
| "write_mmcos (Suc n) (s, m) =
     run_bind (h264e_marking_rd_op m) (\<lambda>(op, m1).
       case op of
         None \<Rightarrow> Inr (s, m1)
       | Some op \<Rightarrow>
           run_bind (run_seq [put_ue (word_of_int (mmco op)), write_mmco_args op] s) (\<lambda>s1.
             write_mmcos n (s1, m1)))"

definition write_marking :: "MppWriteCtx \<Rightarrow> H264eMarkingInfo \<Rightarrow> (MppWriteCtx \<times> H264eMarkingInfo) run" where
  "write_marking s m =
     (if mi_idr_flag m \<noteq> 0 then
        run_bind (run_seq [put_u (mi_no_output_of_prior_pics m) 1, put_u (mi_long_term_reference_flag m) 1] s)
          (\<lambda>s1. Inr (s1, m))
      else
        (let m1 = h264e_marking_rd_rewind m in
         if \<not> h264e_marking_is_empty m1 then
           run_bind (mpp_writer_put_bits s 1 1) (\<lambda>s1.
           run_bind (write_mmcos (nat (mi_wr_cnt m1 - mi_rd_cnt m1) + 1) (s1, m1)) (\<lambda>(s2, m2).
           run_bind (mpp_writer_put_ue s2 0) (\<lambda>s3. Inr (s3, m2))))
         else run_bind (mpp_writer_put_bits s 0 1) (\<lambda>s1. Inr (s1, m1))))"

definition write_rplmo :: "H264eRplmo \<Rightarrow> MppWriteCtx \<Rightarrow> MppWriteCtx run" where
  "write_rplmo op =
     run_seq
       [put_ue (word_of_int (modification_of_pic_nums_idc op)),
        (if modification_of_pic_nums_idc op = 0 \<or> modification_of_pic_nums_idc op = 1
         then put_ue (word_of_int (abs_diff_pic_num_minus1 op))
         else if modification_of_pic_nums_idc op = 2 then put_ue (word_of_int (long_term_pic_idx op))
         else (\<lambda>s. Inr s)),
        put_ue 3]"

definition write_ref_lists :: "H264eSlice \<Rightarrow> MppWriteCtx \<Rightarrow> (H264eSlice \<times> MppWriteCtx) run" where
  "write_ref_lists sl s =
     (let sl1 = sl\<lparr>hs_ref_pic_list_modification_flag := 0, hs_reorder := h264e_reorder_rd_rewind (hs_reorder sl)\<rparr> in
      if hs_slice_type sl1 = H264_P_SLICE then
        run_bind (mpp_writer_put_bits s (hs_num_ref_idx_override sl1) 1) (\<lambda>s1.
        run_bind (h264e_reorder_rd_op (hs_reorder sl1)) (\<lambda>(op, r).
          let flag = (if op = None then 0 else 1);
              sl2 = sl1\<lparr>hs_reorder := r, hs_ref_pic_list_modification_flag := flag\<rparr>
          in run_bind (mpp_writer_put_bits s1 flag 1) (\<lambda>s2.
               case op of
                 None \<Rightarrow> Inr (sl2, s2)
               | Some op \<Rightarrow> run_bind (write_rplmo op s2) (\<lambda>s3. Inr (sl2, s3)))))
      else Inr (sl1, s))"

text \<open>\<open>pic_order_cnt_lsb\<close> is converted to \<open>RK_S32\<close> before it is compared.\<close>

definition masked_poc_lsb :: "H264eSlice \<Rightarrow> int" where
  "masked_poc_lsb sl =
     (let v = sint (hs_pic_order_cnt_lsb sl); m = push_bit (nat (hs_log2_max_poc_lsb sl)) 1
      in if v \<ge> m then v AND (m - 1) else v)"

definition write_nal_header :: "H264eSlice \<Rightarrow> MppWriteCtx \<Rightarrow> MppWriteCtx run" where
  "write_nal_header sl =
     run_seq [put_raw 0 24, put_raw 1 8, put_raw 0 1, put_raw (hs_nal_reference_idc sl) 2, put_raw (hs_nalu_type sl) 5]"

definition write_slice_ids :: "H264eSlice \<Rightarrow> MppWriteCtx \<Rightarrow> MppWriteCtx run" where
  "write_slice_ids sl =
     run_seq
       [put_ue (hs_first_mb_in_slice sl), put_ue (hs_slice_type sl), put_ue (hs_pic_parameter_set_id sl),
        put_u (hs_frame_num sl) (hs_log2_max_frame_num sl),
        (if hs_nalu_type sl = 5 then put_ue (hs_idr_pic_id sl) else (\<lambda>s. Inr s)),
        (if hs_pic_order_cnt_type sl = 0 then put_u (masked_poc_lsb sl) (hs_log2_max_poc_lsb sl)
         else (\<lambda>s. Inr s))]"

definition write_slice_tail :: "H264eSlice \<Rightarrow> MppWriteCtx \<Rightarrow> MppWriteCtx run" where
  "write_slice_tail sl =
     run_seq
       [(if hs_entropy_coding_mode sl \<noteq> 0 \<and> hs_slice_type sl \<noteq> H264_I_SLICE then put_ue (hs_cabac_init_idc sl)
         else (\<lambda>s. Inr s)),
        put_se (hs_qp_delta sl), put_ue (hs_disable_deblocking_filter_idc sl),
        put_se (hs_slice_alpha_c0_offset_div2 sl), put_se (hs_slice_beta_offset_div2 sl),
        (if hs_entropy_coding_mode sl \<noteq> 0 then mpp_writer_align_one else (\<lambda>s. Inr s)),
        mpp_writer_flush]"

definition h264e_slice_write_header :: "H264eSlice \<Rightarrow> MppWriteCtx \<Rightarrow> (H264eSlice \<times> MppWriteCtx) run" where
  "h264e_slice_write_header sl s =
     run_bind (write_nal_header sl s) (\<lambda>s1.
     run_bind (write_slice_ids sl s1) (\<lambda>s2.
       let sl1 = sl\<lparr>hs_marking := (hs_marking sl)\<lparr>mi_idr_flag := (if hs_nalu_type sl = 5 then 1 else 0)\<rparr>\<rparr> in
     run_bind (write_ref_lists sl1 s2) (\<lambda>(sl2, s3).
     run_bind
       (if hs_nal_reference_idc sl2 \<noteq> 0 then
          run_bind (write_marking s3
              ((hs_marking sl2)\<lparr>mi_long_term_reference_flag := hs_long_term_reference_flag sl2\<rparr>))
            (\<lambda>(s4, m). Inr (sl2\<lparr>hs_marking := m\<rparr>, s4))
        else Inr (sl2, s3)) (\<lambda>(sl3, s4).
     run_bind (write_slice_tail sl3 s4) (\<lambda>s5. Inr (sl3, s5))))))"

text \<open>The result is the number of bits, the slice and the memory.\<close>

definition bit_count :: "MppWriteCtx \<Rightarrow> int" where
  "bit_count s = sint (buffered_bits s + byte_cnt s * 8)"

definition h264e_slice_write :: "H264eSlice \<Rightarrow> u8 list \<Rightarrow> u32 \<Rightarrow> (int \<times> H264eSlice \<times> u8 list) run" where
  "h264e_slice_write sl mem sz =
     run_bind (h264e_slice_write_header sl (snd (mpp_writer_init mem (sint sz)))) (\<lambda>(sl1, s).
       Inr (bit_count s, sl1, wr_mem s))"

section \<open>Reading\<close>

text \<open>What the uninitialised locals of the reader hold.\<close>

record slice_read_locals =
  lo_ops :: H264eRplmo
  lo_mmco :: u32
  lo_opt :: H264eMmco
  lo_val :: u32

type_synonym slice_rd = "H264eSlice \<times> BitReadCtx"

abbreviation (input) rd_u :: "int \<Rightarrow> (u32 \<Rightarrow> H264eSlice \<Rightarrow> H264eSlice) \<Rightarrow> slice_rd \<Rightarrow> slice_rd run" where
  "rd_u n upd \<equiv> \<lambda>(sl, bt). run_bind (mpp_read_bits bt n) (\<lambda>(ret, v, bt1). Inr (upd v sl, bt1))"

abbreviation (input) rd_ue ::
  "(H264eSlice \<Rightarrow> u32) \<Rightarrow> (u32 \<Rightarrow> H264eSlice \<Rightarrow> H264eSlice) \<Rightarrow> slice_rd \<Rightarrow> slice_rd run" where
  "rd_ue get upd \<equiv> \<lambda>(sl, bt). run_bind (mpp_read_ue bt (get sl)) (\<lambda>(ret, v, bt1). Inr (upd v sl, bt1))"

abbreviation (input) rd_se ::
  "(H264eSlice \<Rightarrow> int) \<Rightarrow> (int \<Rightarrow> H264eSlice \<Rightarrow> H264eSlice) \<Rightarrow> slice_rd \<Rightarrow> slice_rd run" where
  "rd_se get upd \<equiv> \<lambda>(sl, bt). run_bind (mpp_read_se bt (get sl)) (\<lambda>(ret, v, bt1). Inr (upd v sl, bt1))"

definition rplmo_zero :: H264eRplmo where
  "rplmo_zero = \<lparr>modification_of_pic_nums_idc = 0, abs_diff_pic_num_minus1 = 0, long_term_pic_idx = 0,
                 abs_diff_view_idx_minus1 = 0\<rparr>"

definition mmco_zero :: H264eMmco where
  "mmco_zero = \<lparr>mmco = 0, difference_of_pic_nums_minus1 = 0, long_term_pic_num = 0, long_term_frame_idx = 0,
                max_long_term_frame_idx_plus1 = 0\<rparr>"

definition read_rplmo_args :: "u32 \<Rightarrow> H264eRplmo \<Rightarrow> BitReadCtx \<Rightarrow> (H264eRplmo \<times> BitReadCtx) run" where
  "read_rplmo_args idc ops bt =
     (if idc = 0 \<or> idc = 1 then
        run_bind (mpp_read_ue bt 0) (\<lambda>(ret, v, bt1). Inr (ops\<lparr>abs_diff_pic_num_minus1 := sint v\<rparr>, bt1))
      else if idc = 2 then
        run_bind (mpp_read_ue bt 0) (\<lambda>(ret, v, bt1). Inr (ops\<lparr>long_term_pic_idx := sint v\<rparr>, bt1))
      else Inr (ops, bt))"

fun read_rplmos ::
  "nat \<Rightarrow> u32 \<Rightarrow> H264eRplmo \<Rightarrow> H264eReorderInfo \<Rightarrow> BitReadCtx \<Rightarrow> (H264eReorderInfo \<times> BitReadCtx) run" where
  "read_rplmos 0 idc ops r bt = Inl Out_Of_Fuel"
| "read_rplmos (Suc n) idc ops r bt =
     run_bind (mpp_read_ue bt idc) (\<lambda>(ret, idc1, bt1).
     run_bind (read_rplmo_args idc1 (ops\<lparr>modification_of_pic_nums_idc := sint idc1\<rparr>) bt1) (\<lambda>(ops1, bt2).
     run_bind (h264e_reorder_wr_op r ops1) (\<lambda>(ret, r1).
       if idc1 \<noteq> 3 then read_rplmos n idc1 rplmo_zero r1 bt2 else Inr (r1, bt2))))"

definition read_ref_lists :: "nat \<Rightarrow> slice_read_locals \<Rightarrow> slice_rd \<Rightarrow> slice_rd run" where
  "read_ref_lists fuel lo = (\<lambda>(sl, bt).
     if hs_slice_type sl = H264_P_SLICE then
       run_bind (run_seq
           [rd_u 1 (\<lambda>v. hs_num_ref_idx_override_update (\<lambda>_. sint v)),
            rd_u 1 (\<lambda>v. hs_ref_pic_list_modification_flag_update (\<lambda>_. sint v))] (sl, bt)) (\<lambda>(sl1, bt1).
         if hs_ref_pic_list_modification_flag sl1 \<noteq> 0 then
           run_bind (read_rplmos fuel 0 (lo_ops lo) (h264e_reorder_wr_rewind (hs_reorder sl1)) bt1) (\<lambda>(r, bt2).
             Inr (sl1\<lparr>hs_reorder := r\<rparr>, bt2))
         else Inr (sl1, bt1))
     else Inr (sl, bt))"

text \<open>One argument of an operation, read into a variable that is not initialised.\<close>

definition read_mmco_arg ::
  "bool \<Rightarrow> u32 \<Rightarrow> (int \<Rightarrow> H264eMmco \<Rightarrow> H264eMmco) \<Rightarrow> H264eMmco \<times> BitReadCtx \<Rightarrow> (H264eMmco \<times> BitReadCtx) run" where
  "read_mmco_arg present val0 upd = (\<lambda>(opt, bt).
     if present then run_bind (mpp_read_ue bt val0) (\<lambda>(ret, v, bt1). Inr (upd (sint v) opt, bt1))
     else Inr (opt, bt))"

definition read_mmco_args :: "u32 \<Rightarrow> u32 \<Rightarrow> H264eMmco \<times> BitReadCtx \<Rightarrow> (H264eMmco \<times> BitReadCtx) run" where
  "read_mmco_args c val0 =
     run_seq
       [read_mmco_arg (c = 1 \<or> c = 3) val0 (\<lambda>v. difference_of_pic_nums_minus1_update (\<lambda>_. v)),
        read_mmco_arg (c = 2) val0 (\<lambda>v. long_term_pic_num_update (\<lambda>_. v)),
        read_mmco_arg (c = 3 \<or> c = 6) val0 (\<lambda>v. long_term_frame_idx_update (\<lambda>_. v)),
        read_mmco_arg (c = 4) val0 (\<lambda>v. max_long_term_frame_idx_plus1_update (\<lambda>_. v))]"

fun read_mmcos ::
  "nat \<Rightarrow> u32 \<Rightarrow> u32 \<Rightarrow> H264eMmco \<Rightarrow> H264eMarkingInfo \<Rightarrow> BitReadCtx \<Rightarrow> (H264eMarkingInfo \<times> BitReadCtx) run" where
  "read_mmcos 0 val0 c opt m bt = Inl Out_Of_Fuel"
| "read_mmcos (Suc n) val0 c opt m bt =
     run_bind (mpp_read_ue bt c) (\<lambda>(ret, c1, bt1).
       if c1 = 0 then Inr (m, bt1)
       else
         run_bind (read_mmco_args c1 val0 (opt\<lparr>mmco := sint c1\<rparr>, bt1)) (\<lambda>(opt1, bt2).
         run_bind (h264e_marking_wr_op m opt1) (\<lambda>(ret, m1).
           read_mmcos n val0 c1 mmco_zero m1 bt2)))"

definition read_marking :: "nat \<Rightarrow> slice_read_locals \<Rightarrow> slice_rd \<Rightarrow> slice_rd run" where
  "read_marking fuel lo = (\<lambda>(sl, bt).
     if hs_nal_reference_idc sl \<noteq> 0 then
       if hs_idr_flag sl \<noteq> 0 then
         run_seq
           [rd_u 1 (\<lambda>v sl. sl\<lparr>hs_no_output_of_prior_pics := sint v,
                            hs_marking := (hs_marking sl)\<lparr>mi_no_output_of_prior_pics := sint v\<rparr>\<rparr>),
            rd_u 1 (\<lambda>v sl. sl\<lparr>hs_long_term_reference_flag := sint v,
                            hs_marking := (hs_marking sl)\<lparr>mi_long_term_reference_flag := sint v\<rparr>\<rparr>)] (sl, bt)
       else
         run_bind (rd_u 1 (\<lambda>v sl. sl\<lparr>hs_adaptive_ref_pic_buffering := sint v,
                            hs_marking := (hs_marking sl)\<lparr>mi_adaptive_ref_pic_buffering := sint v\<rparr>\<rparr>) (sl, bt))
           (\<lambda>(sl1, bt1).
             if hs_adaptive_ref_pic_buffering sl1 \<noteq> 0 then
               run_bind (read_mmcos fuel (lo_val lo) (lo_mmco lo) (lo_opt lo)
                          (h264e_marking_wr_rewind (hs_marking sl1)) bt1) (\<lambda>(m, bt2).
                 Inr (sl1\<lparr>hs_marking := m\<rparr>, bt2))
             else Inr (sl1, bt1))
     else Inr (sl, bt))"

definition read_nal_header :: "slice_rd \<Rightarrow> slice_rd run" where
  "read_nal_header = (\<lambda>(sl, bt).
     run_bind (mpp_read_longbits bt 32 0) (\<lambda>(ret, v, bt1).
       run_seq
         [rd_u 1 (\<lambda>v sl. sl),
          rd_u 2 (\<lambda>v. hs_nal_reference_idc_update (\<lambda>_. sint v)),
          rd_u 5 (\<lambda>v. hs_nalu_type_update (\<lambda>_. sint v))] (sl, bt1)))"

definition read_slice_ids :: "slice_rd \<Rightarrow> slice_rd run" where
  "read_slice_ids =
     run_seq
       [rd_ue hs_first_mb_in_slice (\<lambda>v. hs_first_mb_in_slice_update (\<lambda>_. v)),
        rd_ue hs_slice_type (\<lambda>v. hs_slice_type_update (\<lambda>_. v)),
        rd_ue hs_pic_parameter_set_id (\<lambda>v. hs_pic_parameter_set_id_update (\<lambda>_. v)),
        (\<lambda>(sl, bt). rd_u (hs_log2_max_frame_num sl) (\<lambda>v. hs_frame_num_update (\<lambda>_. sint v)) (sl, bt)),
        (\<lambda>(sl, bt). Inr (sl\<lparr>hs_idr_flag := of_bool (hs_nalu_type sl = 5)\<rparr>, bt)),
        (\<lambda>(sl, bt). if hs_idr_flag sl \<noteq> 0 then rd_ue hs_idr_pic_id (\<lambda>v. hs_idr_pic_id_update (\<lambda>_. v)) (sl, bt)
                   else Inr (sl, bt)),
        (\<lambda>(sl, bt). if hs_pic_order_cnt_type sl = 0
                   then rd_u (hs_log2_max_poc_lsb sl) (\<lambda>v. hs_pic_order_cnt_lsb_update (\<lambda>_. v)) (sl, bt)
                   else Inr (sl, bt))]"

definition read_slice_tail :: "slice_rd \<Rightarrow> slice_rd run" where
  "read_slice_tail =
     run_seq
       [(\<lambda>(sl, bt). if hs_entropy_coding_mode sl \<noteq> 0 \<and> hs_slice_type sl \<noteq> H264_I_SLICE
                   then rd_ue hs_cabac_init_idc (\<lambda>v. hs_cabac_init_idc_update (\<lambda>_. v)) (sl, bt)
                   else Inr (sl, bt)),
        rd_se hs_qp_delta (\<lambda>v. hs_qp_delta_update (\<lambda>_. v)),
        rd_ue hs_disable_deblocking_filter_idc (\<lambda>v. hs_disable_deblocking_filter_idc_update (\<lambda>_. v)),
        rd_se hs_slice_alpha_c0_offset_div2 (\<lambda>v. hs_slice_alpha_c0_offset_div2_update (\<lambda>_. v)),
        rd_se hs_slice_beta_offset_div2 (\<lambda>v. hs_slice_beta_offset_div2_update (\<lambda>_. v))]"

definition read_slice_align :: "slice_rd \<Rightarrow> slice_rd run" where
  "read_slice_align = (\<lambda>(sl, bt).
     if hs_entropy_coding_mode sl \<noteq> 0 \<and> num_remaining_bits bt \<noteq> 0
     then rd_u (num_remaining_bits bt) (\<lambda>v sl. sl) (sl, bt)
     else Inr (sl, bt))"

definition h264e_slice_read ::
  "nat \<Rightarrow> slice_read_locals \<Rightarrow> H264eSlice \<Rightarrow> u8 list \<Rightarrow> int \<Rightarrow> (int \<times> H264eSlice) run" where
  "h264e_slice_read fuel lo sl mem sz =
     run_bind (run_seq
         [read_nal_header, read_slice_ids, read_ref_lists fuel lo, read_marking fuel lo, read_slice_tail,
          read_slice_align]
         (sl, mpp_set_bitread_pseudo_code_type (mpp_set_bitread_ctx mem sz) PSEUDO_CODE_H264_H265))
       (\<lambda>(sl1, bt). Inr (used_bits bt, sl1))"

section \<open>Slices of skipped macroblocks\<close>

text \<open>The arithmetic coder with the one context it needs; \<open>cb_s\<close> is the writer it feeds.\<close>

record H264eCabac =
  cb_state :: int
  cb_low :: int
  cb_range :: int
  cb_queue :: int
  cb_bytes_outstanding :: int
  cb_s :: MppWriteCtx

definition skip_init_state :: "int list list" where
  "skip_init_state = [[23, 33], [22, 25], [29, 16]]"

definition cabac_renorm_shift :: "int list" where
  "cabac_renorm_shift =
     [6, 5, 4, 4, 3, 3, 3, 3, 2, 2, 2, 2, 2, 2, 2, 2, 1, 1, 1, 1, 1, 1, 1, 1, 1, 1, 1, 1, 1, 1, 1, 1,
      0, 0, 0, 0, 0, 0, 0, 0, 0, 0, 0, 0, 0, 0, 0, 0, 0, 0, 0, 0, 0, 0, 0, 0, 0, 0, 0, 0, 0, 0, 0, 0]"

definition h264e_cabac_range_lps :: "int list list" where
  "h264e_cabac_range_lps =
     [[2, 2, 2, 2], [6, 7, 8, 9], [6, 7, 9, 10], [6, 8, 9, 11],
      [7, 8, 10, 11], [7, 9, 10, 12], [7, 9, 11, 12], [8, 9, 11, 13],
      [8, 10, 12, 14], [9, 11, 12, 14], [9, 11, 13, 15], [10, 12, 14, 16],
      [10, 12, 15, 17], [11, 13, 15, 18], [11, 14, 16, 19], [12, 14, 17, 20],
      [12, 15, 18, 21], [13, 16, 19, 22], [14, 17, 20, 23], [14, 18, 21, 24],
      [15, 19, 22, 25], [16, 20, 23, 27], [17, 21, 25, 28], [18, 22, 26, 30],
      [19, 23, 27, 31], [20, 24, 29, 33], [21, 26, 30, 35], [22, 27, 32, 37],
      [23, 28, 33, 39], [24, 30, 35, 41], [26, 31, 37, 43], [27, 33, 39, 45],
      [29, 35, 41, 48], [30, 37, 43, 50], [32, 39, 46, 53], [33, 41, 48, 56],
      [35, 43, 51, 59], [37, 45, 54, 62], [39, 48, 56, 65], [41, 50, 59, 69],
      [43, 53, 63, 72], [46, 56, 66, 76], [48, 59, 69, 80], [51, 62, 73, 85],
      [53, 65, 77, 89], [56, 69, 81, 94], [59, 72, 86, 99], [62, 76, 90, 104],
      [66, 80, 95, 110], [69, 85, 100, 116], [73, 89, 105, 122], [77, 94, 111, 128],
      [81, 99, 117, 135], [85, 104, 123, 142], [90, 110, 130, 150], [95, 116, 137, 158],
      [100, 122, 144, 166], [105, 128, 152, 175], [111, 135, 160, 185], [116, 142, 169, 195],
      [123, 150, 178, 205], [128, 158, 187, 216], [128, 167, 197, 227], [128, 176, 208, 240]]"

definition h264e_cabac_transition :: "int list list" where
  "h264e_cabac_transition =
     [[0, 0], [1, 1], [2, 50], [51, 3], [2, 50], [51, 3], [4, 52], [53, 5],
      [6, 52], [53, 7], [8, 52], [53, 9], [10, 54], [55, 11], [12, 54], [55, 13],
      [14, 54], [55, 15], [16, 56], [57, 17], [18, 56], [57, 19], [20, 56], [57, 21],
      [22, 58], [59, 23], [24, 58], [59, 25], [26, 60], [61, 27], [28, 60], [61, 29],
      [30, 60], [61, 31], [32, 62], [63, 33], [34, 62], [63, 35], [36, 64], [65, 37],
      [38, 66], [67, 39], [40, 66], [67, 41], [42, 66], [67, 43], [44, 68], [69, 45],
      [46, 68], [69, 47], [48, 70], [71, 49], [50, 72], [73, 51], [52, 72], [73, 53],
      [54, 74], [75, 55], [56, 74], [75, 57], [58, 76], [77, 59], [60, 78], [79, 61],
      [62, 78], [79, 63], [64, 80], [81, 65], [66, 82], [83, 67], [68, 82], [83, 69],
      [70, 84], [85, 71], [72, 84], [85, 73], [74, 88], [89, 75], [76, 88], [89, 77],
      [78, 90], [91, 79], [80, 90], [91, 81], [82, 94], [95, 83], [84, 94], [95, 85],
      [86, 96], [97, 87], [88, 96], [97, 89], [90, 100], [101, 91], [92, 100], [101, 93],
      [94, 102], [103, 95], [96, 104], [105, 97], [98, 104], [105, 99], [100, 108], [109, 101],
      [102, 108], [109, 103], [104, 110], [111, 105], [106, 112], [113, 107], [108, 114], [115, 109],
      [110, 116], [117, 111], [112, 118], [119, 113], [114, 118], [119, 115], [116, 122], [123, 117],
      [118, 122], [123, 119], [120, 124], [125, 121], [122, 126], [127, 123], [124, 127], [126, 125]]"

definition table2 :: "int list list \<Rightarrow> int \<Rightarrow> int \<Rightarrow> int run" where
  "table2 t i j = run_bind (array_get t i) (\<lambda>row. array_get row j)"

definition init_context :: "int \<Rightarrow> int \<Rightarrow> MppWriteCtx \<Rightarrow> H264eCabac run" where
  "init_context qp model s =
     run_bind (table2 skip_init_state model 0) (\<lambda>i0.
     run_bind (table2 skip_init_state model 1) (\<lambda>i1.
       let st = max 1 (min 126 (drop_bit 4 (i0 * qp) + i1))
       in Inr \<lparr>cb_state = push_bit 1 (min st (127 - st)) OR drop_bit 6 st, cb_low = 0, cb_range = 0x01FE,
               cb_queue = - 9, cb_bytes_outstanding = 0, cb_s = s\<rparr>))"

fun put_outstanding :: "nat \<Rightarrow> int \<Rightarrow> MppWriteCtx \<Rightarrow> MppWriteCtx run" where
  "put_outstanding 0 v s = Inr s"
| "put_outstanding (Suc n) v s = run_bind (mpp_writer_put_bits s v 8) (put_outstanding n v)"

definition h264e_cabac_putbyte :: "H264eCabac \<Rightarrow> H264eCabac run" where
  "h264e_cabac_putbyte c =
     (if cb_queue c \<ge> 0 then
        (let out = drop_bit (nat (cb_queue c + 10)) (cb_low c);
             low = cb_low c AND (push_bit (nat (cb_queue c)) 0x400 - 1);
             queue = cb_queue c - 8
         in if out AND 0xff = 0xff then
              Inr (c\<lparr>cb_low := low, cb_queue := queue, cb_bytes_outstanding := cb_bytes_outstanding c + 1\<rparr>)
            else
              (let carry = drop_bit 8 out in
               run_bind (if queue > 0 then mpp_writer_put_bits (cb_s c) carry (queue AND 0x7) else Inr (cb_s c)) (\<lambda>s1.
               run_bind (put_outstanding (nat (cb_bytes_outstanding c)) (carry - 1) s1) (\<lambda>s2.
               run_bind (mpp_writer_put_bits s2 out (min 8 (8 - queue))) (\<lambda>s3.
                 Inr (c\<lparr>cb_low := low, cb_queue := queue, cb_bytes_outstanding := 0, cb_s := s3\<rparr>))))))
      else Inr c)"

definition h264e_cabac_renorm :: "H264eCabac \<Rightarrow> H264eCabac run" where
  "h264e_cabac_renorm c =
     run_bind (array_get cabac_renorm_shift (drop_bit 3 (cb_range c))) (\<lambda>sh.
       h264e_cabac_putbyte (c\<lparr>cb_low := push_bit (nat sh) (cb_low c), cb_range := push_bit (nat sh) (cb_range c),
                              cb_queue := cb_queue c + sh\<rparr>))"

definition h264e_cabac_write_skip_flag :: "H264eCabac \<Rightarrow> H264eCabac run" where
  "h264e_cabac_write_skip_flag c =
     run_bind (table2 h264e_cabac_range_lps (drop_bit 1 (cb_state c)) (drop_bit 6 (cb_range c) - 4)) (\<lambda>range_lps.
     run_bind (table2 h264e_cabac_transition (cb_state c) 1) (\<lambda>next.
       let range = cb_range c - range_lps;
           lps = cb_state c AND 1 \<noteq> 1
       in h264e_cabac_renorm
            (c\<lparr>cb_low := (if lps then cb_low c + range else cb_low c),
               cb_range := (if lps then range_lps else range), cb_state := next\<rparr>)))"

definition h264e_cabac_terminal :: "H264eCabac \<Rightarrow> H264eCabac run" where
  "h264e_cabac_terminal c = h264e_cabac_renorm (c\<lparr>cb_range := cb_range c - 2\<rparr>)"

definition h264e_cabac_flush :: "H264eCabac \<Rightarrow> H264eCabac run" where
  "h264e_cabac_flush c =
     run_bind (run_seq [h264e_cabac_putbyte, h264e_cabac_putbyte]
         (c\<lparr>cb_low := push_bit 9 ((cb_low c + (cb_range c - 2)) OR 1), cb_queue := cb_queue c + 9\<rparr>)) (\<lambda>c1.
       if cb_queue c1 > 0 then Inl Bad_Shift
       else
         run_bind (h264e_cabac_putbyte
             (c1\<lparr>cb_low := push_bit (nat (- cb_queue c1)) (cb_low c1) OR push_bit 10 1, cb_queue := 0\<rparr>)) (\<lambda>c2.
           run_bind (put_outstanding (nat (cb_bytes_outstanding c2)) 0xff (cb_s c2)) (\<lambda>s.
             Inr (c2\<lparr>cb_s := s, cb_bytes_outstanding := min 0 (cb_bytes_outstanding c2)\<rparr>))))"

text \<open>\<open>n\<close> macroblocks from the second one on: an end flag 0 and a skip flag each.\<close>

fun write_skips :: "nat \<Rightarrow> H264eCabac \<Rightarrow> H264eCabac run" where
  "write_skips 0 c = Inr c"
| "write_skips (Suc n) c =
     run_bind (run_seq [h264e_cabac_terminal, h264e_cabac_write_skip_flag] c) (write_skips n)"

definition write_skip_data :: "H264eSlice \<Rightarrow> MppWriteCtx \<Rightarrow> MppWriteCtx run" where
  "write_skip_data sl s =
     run_bind (init_context (hs_qp_init sl) (sint (hs_cabac_init_idc sl)) s) (\<lambda>c.
       let n = nat (hs_mb_w sl * hs_mb_h sl) in
       run_bind (if n = 0 then Inr c else run_bind (h264e_cabac_write_skip_flag c) (write_skips (n - 1))) (\<lambda>c1.
         run_bind (h264e_cabac_flush c1) (\<lambda>c2. Inr (cb_s c2))))"

definition h264e_slice_write_pskip :: "H264eSlice \<Rightarrow> u8 list \<Rightarrow> u32 \<Rightarrow> (int \<times> H264eSlice \<times> u8 list) run" where
  "h264e_slice_write_pskip sl mem sz =
     run_bind (h264e_slice_write_header sl (snd (mpp_writer_init mem (sint sz)))) (\<lambda>(sl1, s).
     run_bind
       (if hs_entropy_coding_mode sl1 \<noteq> 0 then write_skip_data sl1 s
        else run_seq [put_ue (word_of_int (hs_mb_w sl1 * hs_mb_h sl1)), mpp_writer_trailing] s) (\<lambda>s1.
     run_bind (mpp_writer_flush s1) (\<lambda>s2.
       Inr (bit_count s2, sl1, wr_mem s2))))"

section \<open>Moving slice data\<close>

record slice_move =
  mv_psrc :: int
  mv_pdst :: int
  mv_dst :: "u8 list"
  mv_last_tmp :: u16
  mv_src_zero_cnt :: nat
  mv_dst_zero_cnt :: nat
  mv_diff_len :: int

text \<open>
  The source part of one iteration, at the position \<open>i\<close> of \<open>n\<close>: the next two source bytes without the
  emulation prevention byte between them, and the new position.
\<close>

definition move_load :: "u8 list \<Rightarrow> nat \<Rightarrow> nat \<Rightarrow> slice_move \<Rightarrow> (u16 \<times> nat \<times> slice_move) run" where
  "move_load src n i v =
     run_bind (array_get src (mv_psrc v)) (\<lambda>tmp0.
     run_bind (if i < n - 1 then array_get src (mv_psrc v + 1) else Inr 0) (\<lambda>tmp1.
       let zeros = (if tmp0 = 0 then mv_src_zero_cnt v + 1 else 0) in
       if zeros \<ge> 2 \<and> tmp1 = 3 then
         run_bind (array_get src (mv_psrc v + 2)) (\<lambda>tmp1.
           Inr (push_bit 8 (ucast tmp0) OR ucast tmp1, i + 1,
                v\<lparr>mv_psrc := mv_psrc v + 1, mv_src_zero_cnt := 0, mv_diff_len := mv_diff_len v - 1\<rparr>))
       else Inr (push_bit 8 (ucast tmp0) OR ucast tmp1, i, v\<lparr>mv_src_zero_cnt := zeros\<rparr>)))"

text \<open>The destination part: two bytes are stored, and behind two zero bytes a byte up to 3 is escaped.\<close>

definition move_store :: "nat \<Rightarrow> u16 \<Rightarrow> slice_move \<Rightarrow> slice_move run" where
  "move_store dst_bit_r tmp16b v =
     (let dst_mask = push_bit (8 - dst_bit_r) 0xFFFF :: u16;
          tmp16c = (if dst_bit_r \<noteq> 0
            then drop_bit dst_bit_r tmp16b OR (push_bit 8 (mv_last_tmp v) AND dst_mask) else tmp16b);
          hi = ucast (drop_bit 8 tmp16c) :: u8; lo = ucast tmp16c :: u8; p = mv_pdst v
      in run_bind (array_set (mv_dst v) p hi) (\<lambda>d1.
         run_bind (array_set d1 (p + 1) lo) (\<lambda>d2.
         run_bind
           (if mv_dst_zero_cnt v = 2 \<and> hi \<le> 3 then
              run_bind (array_set d2 (p + 2) lo) (\<lambda>d3.
              run_bind (array_set d3 (p + 1) hi) (\<lambda>d4.
              run_bind (array_set d4 p 3) (\<lambda>d5.
                Inr (v\<lparr>mv_dst := d5, mv_pdst := p + 1, mv_diff_len := mv_diff_len v + 1, mv_dst_zero_cnt := 0\<rparr>))))
            else Inr (v\<lparr>mv_dst := d2\<rparr>)) (\<lambda>v1.
           Inr (v1\<lparr>mv_dst_zero_cnt := (if hi = 0 then mv_dst_zero_cnt v1 + 1 else 0),
                   mv_last_tmp := tmp16c, mv_pdst := mv_pdst v1 + 1\<rparr>)))))"

function move_loop :: "u8 list \<Rightarrow> nat \<Rightarrow> nat \<Rightarrow> nat \<Rightarrow> nat \<Rightarrow> slice_move \<Rightarrow> slice_move run" where
  "move_loop src src_bit_r dst_bit_r n i v =
     (if i < n then
        (case move_load src n i v of
           Inl f \<Rightarrow> Inl f
         | Inr (tmp16a, i1, v1) \<Rightarrow>
             (case move_store dst_bit_r (push_bit src_bit_r tmp16a) v1 of
                Inl f \<Rightarrow> Inl f
              | Inr v2 \<Rightarrow> move_loop src src_bit_r dst_bit_r n (i1 + 1) (v2\<lparr>mv_psrc := mv_psrc v2 + 1\<rparr>)))
      else Inr v)"
  by pat_completeness auto
termination
  by (relation "measure (\<lambda>(src, sr, dr, n, i, v). n - i)")
    (auto simp: move_load_def run_bind_Inr_iff Let_def split: if_splits)

declare move_loop.simps [simp del]

definition copy_bytes :: "u8 list \<Rightarrow> int \<Rightarrow> u8 list \<Rightarrow> int \<Rightarrow> int \<Rightarrow> u8 list run" where
  "copy_bytes dst d src s n =
     (if n < 0 \<or> d < 0 \<or> s < 0 \<or> d + n > int (length dst) \<or> s + n > int (length src) then Inl Out_Of_Bounds
      else Inr (take (nat d) dst @ take (nat n) (drop (nat s) src) @ drop (nat (d + n)) dst))"

text \<open>
  The bits of \<open>src\<close> from \<open>src_bit\<close> on are moved to the bit \<open>dst_bit\<close> of \<open>dst\<close>; the result is the change
  of the number of emulation prevention bytes. Bit positions are not negative.
\<close>

definition h264e_slice_move :: "u8 list \<Rightarrow> u8 list \<Rightarrow> int \<Rightarrow> int \<Rightarrow> int \<Rightarrow> (int \<times> u8 list) run" where
  "h264e_slice_move dst src dst_bit src_bit src_size =
     (let dst_byte = cdiv dst_bit 8; src_byte = cdiv src_bit 8;
          dst_bit_r = nat (dst_bit AND 7); src_bit_r = nat (src_bit AND 7);
          src_len = src_size - src_byte
      in if src_bit_r = 0 \<and> dst_bit_r = 0 then
           run_bind (copy_bytes dst dst_byte src src_byte src_len) (\<lambda>d. Inr (0, d))
         else
           run_bind (array_get dst dst_byte) (\<lambda>b.
           run_bind (move_loop src src_bit_r dst_bit_r
               (unat (word_of_int (src_len + of_bool (src_bit_r > 0)) :: u32)) 0
               \<lparr>mv_psrc = src_byte, mv_pdst = dst_byte, mv_dst = dst, mv_last_tmp = ucast b,
                mv_src_zero_cnt = 0, mv_dst_zero_cnt = 0, mv_diff_len = 0\<rparr>) (\<lambda>v.
             Inr (mv_diff_len v, mv_dst v))))"

section \<open>Prefix units\<close>

record H264ePrefixNal =
  pn_nal_ref_idc :: int
  pn_idr_flag :: int
  pn_priority_id :: int
  pn_no_inter_layer_pred_flag :: int
  pn_dependency_id :: int
  pn_quality_id :: int
  pn_temporal_id :: int
  pn_use_ref_base_pic_flag :: int
  pn_discardable_flag :: int
  pn_output_flag :: int

definition h264e_slice_write_prefix_nal_unit_svc :: "H264ePrefixNal \<Rightarrow> u8 list \<Rightarrow> int \<Rightarrow> (int \<times> u8 list) run" where
  "h264e_slice_write_prefix_nal_unit_svc prefix mem sz =
     run_bind (run_seq
         [put_raw 0 24, put_raw 1 8, put_raw 0 1, put_raw (pn_nal_ref_idc prefix) 2, put_raw 14 5, put_raw 1 1,
          put_raw (pn_idr_flag prefix) 1, put_raw (pn_priority_id prefix) 6,
          put_raw (pn_no_inter_layer_pred_flag prefix) 1, put_raw (pn_dependency_id prefix) 3,
          put_raw (pn_quality_id prefix) 4, put_raw (pn_temporal_id prefix) 3,
          put_raw (pn_use_ref_base_pic_flag prefix) 1, put_raw (pn_discardable_flag prefix) 1,
          put_raw (pn_output_flag prefix) 1, put_raw 3 2,
          (if pn_nal_ref_idc prefix \<noteq> 0 then run_seq [put_raw 0 1, put_raw 0 1, mpp_writer_trailing]
           else (\<lambda>s. Inr s)),
          mpp_writer_flush] (snd (mpp_writer_init mem sz)))
       (\<lambda>s. Inr (bit_count s, wr_mem s))"

end
