(* ===== verification/Mpp_Bit_Position.thy ===== *)
theory Mpp_Bit_Position
  imports Mpp_Bitstream
begin

text \<open>
  Where the reader of a complete unit stands. While it reads, the bits it has used and the bits left in
  the current byte add up to the bytes it has loaded, emulation prevention bytes included; and it stops
  at the end of a unit that does not end in an emulation prevention byte.
\<close>

section \<open>Complete units\<close>

text \<open>No emulation prevention byte is the last byte, \<open>a\<close> and \<open>b\<close> being the two bytes before.\<close>

fun closed_bytes :: "u8 \<Rightarrow> u8 \<Rightarrow> u8 list \<Rightarrow> bool" where
  "closed_bytes a b [] \<longleftrightarrow> True"
| "closed_bytes a b [x] \<longleftrightarrow> \<not> (x = 3 \<and> a = 0 \<and> b = 0)"
| "closed_bytes a b (x # y # ys) \<longleftrightarrow>
     (if x = 3 \<and> a = 0 \<and> b = 0 then closed_bytes 0xff y ys else closed_bytes b x (y # ys))"

lemma closed_step:
  "closed_bytes a b (x # xs) \<longleftrightarrow>
     (if x = 3 \<and> a = 0 \<and> b = 0 then (case xs of [] \<Rightarrow> False | y # ys \<Rightarrow> closed_bytes 0xff y ys)
      else closed_bytes b x xs)"
  by (cases xs) auto

lemma closed_unescape_Nil: "closed_bytes a b xs \<Longrightarrow> unescape a b xs = [] \<Longrightarrow> xs = []"
  by (cases xs) (auto simp: closed_step unescape_step split: if_splits list.splits)

definition unit_wf :: "nat \<Rightarrow> BitReadCtx \<Rightarrow> bool" where
  "unit_wf sz c \<longleftrightarrow>
     mem_wf c \<and> br_data c + unat (bytes_left c) = sz \<and> closed_bytes (prev_hi c) (prev_lo c) (rest_bytes c)"

text \<open>One step of the loader: it moves over one byte, or over an emulation prevention byte and one more.\<close>

lemma h264_load:
  assumes c: "mem_wf c" "prevention_type c = PSEUDO_CODE_H264_H265" and upd: "update_curbyte c = Inr (MPP_OK, c')"
  shows "(\<exists>x xs. rest_bytes c = x # xs \<and> \<not> (x = 3 \<and> prev_hi c = 0 \<and> prev_lo c = 0) \<and>
            rest_bytes c' = xs \<and> prev_hi c' = prev_lo c \<and> prev_lo c' = x \<and>
            br_data c' = br_data c + 1 \<and> used_bits c' = used_bits c)
       \<or> (\<exists>x y ys. rest_bytes c = x # y # ys \<and> x = 3 \<and> prev_hi c = 0 \<and> prev_lo c = 0 \<and>
            rest_bytes c' = ys \<and> prev_hi c' = 0xff \<and> prev_lo c' = y \<and>
            br_data c' = br_data c + 2 \<and> used_bits c' = used_bits c + 8)"
    and "mem_wf c'" and "num_remaining_bits c' = 8" and "prevention_type c' = prevention_type c"
    and "br_data c' + unat (bytes_left c') = br_data c + unat (bytes_left c)"
proof -
  let ?c1 = "c\<lparr>br_data := br_data c + 1, bytes_left := bytes_left c - 1,
      emulation_prevention_bytes := emulation_prevention_bytes c + 1,
      used_bits := used_bits c + 8, prev_two_bytes := 0xffff\<rparr>"
  have bl: "\<not> bytes_left c < 1"
    using upd c(2) by (auto simp: update_curbyte_defs)
  then have dec: "unat (bytes_left c - 1) = unat (bytes_left c) - 1" "0 < unat (bytes_left c)"
    by unat_arith+
  obtain x xs where rb: "rest_bytes c = x # xs"
    using rest_bytes_step(2) [OF c(1) bl] by metis
  have get: "array_get (br_mem c) (int (br_data c)) = Inr x"
    using rest_bytes_step(1) [OF c(1) bl] rb by simp
  have c1: "mem_wf ?c1" "rest_bytes ?c1 = xs"
    using rest_bytes_step(3) [OF c(1) bl, of ?c1] rb by simp_all
  have hi1: "prev_hi ?c1 = 0xff" "prev_lo ?c1 = 0xff"
    by (simp_all add: prev_hi_def prev_lo_def)
  have ld: "br_data (load_byte d z) = br_data d + 1" "used_bits (load_byte d z) = used_bits d" for d z
    by (simp_all add: load_byte_def)
  show "(\<exists>x xs. rest_bytes c = x # xs \<and> \<not> (x = 3 \<and> prev_hi c = 0 \<and> prev_lo c = 0) \<and>
            rest_bytes c' = xs \<and> prev_hi c' = prev_lo c \<and> prev_lo c' = x \<and>
            br_data c' = br_data c + 1 \<and> used_bits c' = used_bits c)
       \<or> (\<exists>x y ys. rest_bytes c = x # y # ys \<and> x = 3 \<and> prev_hi c = 0 \<and> prev_lo c = 0 \<and>
            rest_bytes c' = ys \<and> prev_hi c' = 0xff \<and> prev_lo c' = y \<and>
            br_data c' = br_data c + 2 \<and> used_bits c' = used_bits c + 8)"
    (is ?A)
    and "mem_wf c'" and "num_remaining_bits c' = 8" and "prevention_type c' = prevention_type c"
    and "br_data c' + unat (bytes_left c') = br_data c + unat (bytes_left c)"
  proof -
    have "?A \<and> mem_wf c' \<and> num_remaining_bits c' = 8 \<and> prevention_type c' = prevention_type c \<and>
        br_data c' + unat (bytes_left c') = br_data c + unat (bytes_left c)"
    proof (cases "x = 3 \<and> prev_hi c = 0 \<and> prev_lo c = 0")
      case True
      have bl1: "\<not> bytes_left ?c1 < 1"
        using True upd c(2) get bl prev_two_zero_iff [of c] by (auto simp: update_curbyte_defs split: if_splits)
      then obtain y ys where xs: "xs = y # ys"
        using rest_bytes_step(2) [OF c1(1) bl1] c1(2) by metis
      have get1: "array_get (br_mem ?c1) (int (br_data ?c1)) = Inr y"
        using rest_bytes_step(1) [OF c1(1) bl1] c1(2) xs by simp
      have c': "c' = load_byte ?c1 y"
        using True c bl bl1 get get1 prev_two_zero_iff [of c] upd by (simp add: update_curbyte_defs)
      have "unat (bytes_left c - 1 - 1) + 2 = unat (bytes_left c)"
        using bl bl1 by (simp, unat_arith)
      then show ?thesis
        unfolding c' using True load_byte_step [OF c1(1) bl1, of y] c1(2) xs rb hi1
        by (simp add: cur_load_byte ld)
    next
      case False
      have c': "c' = load_byte c x"
        using False c bl get prev_two_zero_iff [of c] upd by (auto simp: update_curbyte_defs)
      show ?thesis
        unfolding c' using False load_byte_step [OF c(1) bl, of x] rb dec
        by (auto simp: cur_load_byte ld)
    qed
    then show ?A "mem_wf c'" "num_remaining_bits c' = 8" "prevention_type c' = prevention_type c"
      "br_data c' + unat (bytes_left c') = br_data c + unat (bytes_left c)" by blast+
  qed
qed

interpretation unit_feed: byte_feed PSEUDO_CODE_H264_H265 h264_feed "unit_wf sz" for sz
proof
  fix c assume c: "unit_wf sz c" "prevention_type c = PSEUDO_CODE_H264_H265"
  have wf: "mem_wf c"
    using c(1) by (simp add: unit_wf_def)
  show "\<exists>c'. update_curbyte c = Inr (MPP_OK, c') \<and> unit_wf sz c' \<and> prevention_type c' = PSEUDO_CODE_H264_H265 \<and>
           cur_wf c' \<and> cur_clean c' \<and> num_remaining_bits c' > 0 \<and> h264_feed c = cur_bits c' @ h264_feed c'"
    if ne: "h264_feed c \<noteq> []"
  proof -
    obtain c' where c': "update_curbyte c = Inr (MPP_OK, c')" "prevention_type c' = PSEUDO_CODE_H264_H265"
      "cur_wf c'" "cur_clean c'" "num_remaining_bits c' > 0" "h264_feed c = cur_bits c' @ h264_feed c'"
      using nal_feed.feed_some [OF wf c(2) ne] by auto
    have "unit_wf sz c'"
      using h264_load [OF wf c(2) c'(1)] c(1) by (auto simp: unit_wf_def closed_step)
    with c' show ?thesis by auto
  qed
  show "\<exists>c'. update_curbyte c = Inr (MPP_ERR_READ_BIT, c')" if "h264_feed c = []"
    by (rule nal_feed.feed_none [OF wf c(2) that])
qed (simp_all add: unit_wf_def h264_feed_def rest_bytes_def mem_wf_def prev_hi_def prev_lo_def)

section \<open>The position\<close>

definition bit_pos :: "BitReadCtx \<Rightarrow> int" where
  "bit_pos c = used_bits c + num_remaining_bits c - 8 * int (br_data c)"

definition h264_wf :: "BitReadCtx \<Rightarrow> bool" where
  "h264_wf c \<longleftrightarrow> mem_wf c \<and> prevention_type c = PSEUDO_CODE_H264_H265"

lemma read_loop_pos:
  "read_bits_loop c bl out = Inr (MPP_OK, out', bl', c') \<Longrightarrow> h264_wf c \<Longrightarrow>
     h264_wf c' \<and> bit_pos c' - bl' = bit_pos c - bl"
proof (induction c bl out rule: read_bits_loop.induct)
  case (1 c bl out)
  show ?case
  proof (cases "num_remaining_bits c < bl")
    case True
    with "1.prems"(1) obtain c1 where upd: "update_curbyte c = Inr (MPP_OK, c1)"
      and rec: "read_bits_loop c1 (bl - num_remaining_bits c)
        (out OR ucast (push_bit (nat (bl - num_remaining_bits c)) (curr_byte c))) = Inr (MPP_OK, out', bl', c')"
      by (auto simp: read_bits_loop.simps [of c bl out] Let_def split: sum.splits if_splits)
    note ld = h264_load [OF _ _ upd]
    have "h264_wf c1" "bit_pos c1 = bit_pos c - num_remaining_bits c"
      using ld "1.prems"(2) by (auto simp: h264_wf_def bit_pos_def)
    with "1.IH" [OF True refl refl upd refl _ rec] show ?thesis by simp
  next
    case False
    with "1.prems" show ?thesis
      by (auto simp: read_bits_loop.simps [of c bl out])
  qed
qed

lemma read_bits_pos:
  "mpp_read_bits c n = Inr (MPP_OK, v, c') \<Longrightarrow> h264_wf c \<Longrightarrow> h264_wf c' \<and> bit_pos c' = bit_pos c"
proof -
  assume "mpp_read_bits c n = Inr (MPP_OK, v, c')" and wf: "h264_wf c"
  then obtain out bl c1 where loop: "read_bits_loop c n 0 = Inr (MPP_OK, out, bl, c1)"
    and c': "c' = c1\<lparr>num_remaining_bits := num_remaining_bits c1 - bl, used_bits := used_bits c1 + n\<rparr>"
    by (auto simp: mpp_read_bits_def run_bind_Inr_iff split: if_splits)
  show ?thesis
    using read_loop_pos [OF loop wf] by (simp add: c' h264_wf_def mem_wf_def bit_pos_def)
qed

lemma read_longbits_pos:
  "mpp_read_longbits c n v0 = Inr (MPP_OK, v, c') \<Longrightarrow> h264_wf c \<Longrightarrow> h264_wf c' \<and> bit_pos c' = bit_pos c"
  by (auto simp: mpp_read_longbits_def run_bind_Inr_iff split: if_splits dest!: read_bits_pos)

lemma ue_prefix_pos:
  "ue_prefix_loop c n = Inr (MPP_OK, k, c') \<Longrightarrow> h264_wf c \<Longrightarrow> h264_wf c' \<and> bit_pos c' = bit_pos c"
proof (induction c n rule: ue_prefix_loop.induct)
  case (1 c n)
  then show ?case
    by (auto simp: ue_prefix_loop.simps [of c n] split: sum.splits if_splits dest!: read_bits_pos)
qed

lemma read_ue_pos:
  "mpp_read_ue c v0 = Inr (MPP_OK, v, c') \<Longrightarrow> h264_wf c \<Longrightarrow> h264_wf c' \<and> bit_pos c' = bit_pos c"
  by (auto simp: mpp_read_ue_def run_bind_Inr_iff Let_def split: if_splits dest!: read_bits_pos ue_prefix_pos)

lemma read_se_pos:
  "mpp_read_se c v0 = Inr (MPP_OK, v, c') \<Longrightarrow> h264_wf c \<Longrightarrow> h264_wf c' \<and> bit_pos c' = bit_pos c"
  by (auto simp: mpp_read_se_def run_bind_Inr_iff split: if_splits dest!: read_ue_pos)

text \<open>The state of a reader of a unit of \<open>sz\<close> bytes, and its position when only the last bits are left.\<close>

definition at_unit :: "nat \<Rightarrow> BitReadCtx \<Rightarrow> bool" where
  "at_unit sz c \<longleftrightarrow> unit_feed.ready sz c \<and> bit_pos c = 0"

lemma at_unit_h264: "at_unit sz c \<Longrightarrow> h264_wf c"
  by (simp add: at_unit_def unit_feed.ready_def unit_wf_def h264_wf_def)

lemma used_bits_at_end:
  assumes at: "at_unit sz c" and rest: "length (unit_feed.stream c) < 8"
  shows "used_bits c = 8 * int sz - int (length (unit_feed.stream c))"
    and "num_remaining_bits c = int (length (unit_feed.stream c))"
proof -
  have rd: "unit_wf sz c" "cur_wf c" and pos: "bit_pos c = 0"
    using at by (simp_all add: at_unit_def unit_feed.ready_def)
  have st: "unit_feed.stream c = cur_bits c @ h264_feed c"
    by (simp add: unit_feed.stream_def)
  have "length (h264_feed c) < 8"
    using rest st by simp
  then have "unescape (prev_hi c) (prev_lo c) (rest_bytes c) = []"
    by (cases "unescape (prev_hi c) (prev_lo c) (rest_bytes c)") (auto simp: h264_feed_def)
  then have nil: "rest_bytes c = []" "h264_feed c = []"
    using closed_unescape_Nil rd(1) by (auto simp: unit_wf_def h264_feed_def)
  then have "unat (bytes_left c) = 0"
    using rd(1) by (auto simp: rest_bytes_def unit_wf_def mem_wf_def)
  then have "br_data c = sz"
    using rd(1) by (simp add: unit_wf_def)
  moreover have "length (unit_feed.stream c) = nat (num_remaining_bits c)"
    using st nil(2) by (simp add: unit_feed.length_cur_bits)
  ultimately show "used_bits c = 8 * int sz - int (length (unit_feed.stream c))"
    "num_remaining_bits c = int (length (unit_feed.stream c))"
    using pos rd(2) by (simp_all add: bit_pos_def cur_wf_def)
qed

end
