(* ===== verification/Mpp_Slice_Syntax.thy ===== *)
theory Mpp_Slice_Syntax
  imports Mpp_H264e_Slice Mpp_Bit_Position
begin

text \<open>
  The slice header as a sequence of syntax elements: the list of elements of a slice, and that
  \<open>h264e_slice_write_header\<close> writes exactly these behind the start code.
\<close>

section \<open>The elements of a slice header\<close>

definition first_rplmo :: "H264eReorderInfo \<Rightarrow> H264eRplmo option" where
  "first_rplmo r = (if ri_wr_cnt r \<le> 0 then None else Some (ri_ops r ! 0))"

definition mmco_ops :: "H264eMarkingInfo \<Rightarrow> H264eMmco list" where
  "mmco_ops m = take (nat (mi_wr_cnt m)) (mi_ops m)"

fun rplmo_elems :: "H264eRplmo option \<Rightarrow> element list" where
  "rplmo_elems None = [(Fixed 1, 0)]"
| "rplmo_elems (Some op) =
     [(Fixed 1, 1), (Ue, modification_of_pic_nums_idc op),
      (Ue, if modification_of_pic_nums_idc op = 2 then long_term_pic_idx op else abs_diff_pic_num_minus1 op),
      (Ue, 3)]"

definition mmco_args :: "H264eMmco \<Rightarrow> int list" where
  "mmco_args op =
     (if mmco op = 1 then [difference_of_pic_nums_minus1 op]
      else if mmco op = 2 then [long_term_pic_num op]
      else if mmco op = 3 then [difference_of_pic_nums_minus1 op, long_term_frame_idx op]
      else if mmco op = 4 then [max_long_term_frame_idx_plus1 op]
      else if mmco op = 6 then [long_term_frame_idx op]
      else [])"

definition mmco_elems :: "H264eMmco \<Rightarrow> element list" where
  "mmco_elems op = map (Pair Ue) (mmco op # mmco_args op)"

definition id_elems :: "H264eSlice \<Rightarrow> element list" where
  "id_elems sl =
     [(Ue, uint (hs_first_mb_in_slice sl)), (Ue, uint (hs_slice_type sl)), (Ue, uint (hs_pic_parameter_set_id sl)),
      (Fixed (nat (hs_log2_max_frame_num sl)), hs_frame_num sl)] @
     (if hs_nalu_type sl = 5 then [(Ue, uint (hs_idr_pic_id sl))] else []) @
     (if hs_pic_order_cnt_type sl = 0 then [(Fixed (nat (hs_log2_max_poc_lsb sl)), masked_poc_lsb sl)] else [])"

definition ref_elems :: "H264eSlice \<Rightarrow> element list" where
  "ref_elems sl =
     (if hs_slice_type sl = H264_P_SLICE
      then (Fixed 1, hs_num_ref_idx_override sl) # rplmo_elems (first_rplmo (hs_reorder sl)) else [])"

definition marking_elems :: "H264eSlice \<Rightarrow> element list" where
  "marking_elems sl =
     (if hs_nal_reference_idc sl = 0 then []
      else if hs_nalu_type sl = 5 then
        [(Fixed 1, mi_no_output_of_prior_pics (hs_marking sl)), (Fixed 1, hs_long_term_reference_flag sl)]
      else if mmco_ops (hs_marking sl) = [] then [(Fixed 1, 0)]
      else (Fixed 1, 1) # concat (map mmco_elems (mmco_ops (hs_marking sl))) @ [(Ue, 0)])"

definition tail_elems :: "H264eSlice \<Rightarrow> element list" where
  "tail_elems sl =
     (if hs_entropy_coding_mode sl \<noteq> 0 \<and> hs_slice_type sl \<noteq> H264_I_SLICE
      then [(Ue, uint (hs_cabac_init_idc sl))] else []) @
     [(Se, hs_qp_delta sl), (Ue, uint (hs_disable_deblocking_filter_idc sl)),
      (Se, hs_slice_alpha_c0_offset_div2 sl), (Se, hs_slice_beta_offset_div2 sl)]"

definition slice_elems :: "H264eSlice \<Rightarrow> element list" where
  "slice_elems sl = id_elems sl @ ref_elems sl @ marking_elems sl @ tail_elems sl"

text \<open>The byte behind the start code.\<close>

definition nal_byte :: "H264eSlice \<Rightarrow> u8" where
  "nal_byte sl = word_of_int (hs_nal_reference_idc sl * 32 + hs_nalu_type sl)"

section \<open>What the writer writes\<close>

lemma put_elements_append: "put_elements c (xs @ ys) = run_bind (put_elements c xs) (\<lambda>c1. put_elements c1 ys)"
  by (induction xs arbitrary: c) (simp_all add: run_bind_assoc)

lemma run_seq_fun [simp]: "run_seq [] = Inr" "run_seq (k # ks) = (\<lambda>s. run_bind (k s) (run_seq ks))"
  by (rule ext, simp)+

lemma run_bind_Inr_id [simp]: "run_bind m Inr = m"
  by (cases m) simp_all

text \<open>
  The slices the encoder writes: the fields that go into the header are in their ranges, and the counts
  of the operation lists are within the lists.
\<close>

definition reorder_wf :: "H264eReorderInfo \<Rightarrow> bool" where
  "reorder_wf r \<longleftrightarrow> ri_wr_cnt r \<le> int (length (ri_ops r)) \<and>
     (case first_rplmo r of None \<Rightarrow> True | Some op \<Rightarrow> modification_of_pic_nums_idc op \<in> {0, 1, 2})"

definition marking_wf :: "H264eMarkingInfo \<Rightarrow> bool" where
  "marking_wf m \<longleftrightarrow>
     mi_wr_cnt m \<le> int (length (mi_ops m)) \<and> list_all (\<lambda>op. mmco op \<noteq> 0) (mmco_ops m)"

definition slice_wf :: "H264eSlice \<Rightarrow> bool" where
  "slice_wf sl \<longleftrightarrow>
     0 \<le> hs_nal_reference_idc sl \<and> hs_nal_reference_idc sl < 4 \<and> 0 < hs_nalu_type sl \<and> hs_nalu_type sl < 32 \<and>
     0 \<le> hs_log2_max_frame_num sl \<and> (hs_pic_order_cnt_type sl = 0 \<longrightarrow> 0 \<le> hs_log2_max_poc_lsb sl) \<and>
     reorder_wf (hs_reorder sl) \<and> marking_wf (hs_marking sl) \<and>
     list_all element_ok (slice_elems sl)"

lemma write_ids_eq:
  assumes "0 \<le> hs_log2_max_frame_num sl" and "hs_pic_order_cnt_type sl = 0 \<longrightarrow> 0 \<le> hs_log2_max_poc_lsb sl"
  shows "write_slice_ids sl s = put_elements s (id_elems sl)"
  using assms by (auto simp: write_slice_ids_def id_elems_def)

lemma write_tail_eq:
  "write_slice_tail sl s = run_bind (put_elements s (tail_elems sl)) (\<lambda>s1.
     run_bind (if hs_entropy_coding_mode sl \<noteq> 0 then mpp_writer_align_one s1 else Inr s1) mpp_writer_flush)"
  by (auto simp: write_slice_tail_def tail_elems_def run_bind_assoc)

lemma write_refs_eq:
  assumes "reorder_wf (hs_reorder sl)"
  defines "flag \<equiv> if hs_slice_type sl = H264_P_SLICE \<and> first_rplmo (hs_reorder sl) \<noteq> None then 1 else 0"
    and "rd \<equiv> if hs_slice_type sl = H264_P_SLICE \<and> first_rplmo (hs_reorder sl) \<noteq> None then 1 else 0"
  shows "write_ref_lists sl s = run_bind (put_elements s (ref_elems sl)) (\<lambda>s1.
    Inr (sl\<lparr>hs_reorder := (hs_reorder sl)\<lparr>ri_rd_cnt := rd\<rparr>, hs_ref_pic_list_modification_flag := flag\<rparr>, s1))"
proof (cases "hs_slice_type sl = H264_P_SLICE \<and> first_rplmo (hs_reorder sl) \<noteq> None")
  case True
  then have p: "hs_slice_type sl = 0" and w: "0 < ri_wr_cnt (hs_reorder sl)"
    by (auto simp: first_rplmo_def split: if_splits)
  let ?op = "ri_ops (hs_reorder sl) ! 0"
  have idc: "modification_of_pic_nums_idc ?op \<in> {0, 1, 2}" and len: "0 < length (ri_ops (hs_reorder sl))"
    using assms(1) w by (auto simp: reorder_wf_def first_rplmo_def)
  have "h264e_reorder_rd_op (h264e_reorder_rd_rewind (hs_reorder sl)) = Inr (Some ?op, (hs_reorder sl)\<lparr>ri_rd_cnt := 1\<rparr>)"
    using w len by (simp add: h264e_reorder_rd_op_def h264e_reorder_rd_rewind_def)
  then show ?thesis
    using p w idc unfolding flag_def rd_def
    by (auto simp: write_ref_lists_def ref_elems_def first_rplmo_def write_rplmo_def run_bind_assoc Let_def)
next
  case False
  then consider "hs_slice_type sl \<noteq> 0" | "hs_slice_type sl = 0" "ri_wr_cnt (hs_reorder sl) \<le> 0"
    by (auto simp: first_rplmo_def split: if_splits)
  then show ?thesis
  proof cases
    case 1
    then show ?thesis
      by (simp add: write_ref_lists_def ref_elems_def flag_def rd_def h264e_reorder_rd_rewind_def)
  next
    case 2
    then have "h264e_reorder_rd_op (h264e_reorder_rd_rewind (hs_reorder sl)) = Inr (None, h264e_reorder_rd_rewind (hs_reorder sl))"
      by (simp add: h264e_reorder_rd_op_def h264e_reorder_rd_rewind_def)
    with 2 show ?thesis
      unfolding flag_def rd_def
      by (simp add: write_ref_lists_def ref_elems_def first_rplmo_def run_bind_assoc Let_def h264e_reorder_rd_rewind_def)
  qed
qed

lemma write_mmco_args_eq: "write_mmco_args op s = put_elements s (map (Pair Ue) (mmco_args op))"
  by (simp add: write_mmco_args_def mmco_args_def)

text \<open>The loop writes the operations from the read count on and leaves the read count at their end.\<close>

lemma write_mmcos_eq:
  assumes "marking_wf m" and "0 \<le> mi_rd_cnt m" and "nat (mi_wr_cnt m - mi_rd_cnt m) < n"
  shows "write_mmcos n (s, m) =
    run_bind (put_elements s (concat (map mmco_elems (drop (nat (mi_rd_cnt m)) (mmco_ops m)))))
      (\<lambda>s1. Inr (s1, m\<lparr>mi_rd_cnt := max (mi_rd_cnt m) (mi_wr_cnt m)\<rparr>))"
  using assms
proof (induction n arbitrary: s m)
  case (Suc n)
  let ?k = "nat (mi_rd_cnt m)"
  show ?case
  proof (cases "mi_rd_cnt m < mi_wr_cnt m")
    case True
    let ?m1 = "m\<lparr>mi_rd_cnt := mi_rd_cnt m + 1\<rparr>"
    have len: "mi_wr_cnt m \<le> int (length (mi_ops m))"
      using Suc.prems(1) by (simp add: marking_wf_def)
    have k: "?k < nat (mi_wr_cnt m)" "nat (mi_rd_cnt m + 1) = Suc ?k"
      using True Suc.prems(2) by simp_all
    then have op: "drop ?k (mmco_ops m) = mi_ops m ! ?k # drop (Suc ?k) (mmco_ops m)"
      using len by (simp add: mmco_ops_def Cons_nth_drop_Suc [symmetric])
    have rd: "h264e_marking_rd_op m = Inr (Some (mi_ops m ! ?k), ?m1)"
      using True len Suc.prems(2) by (simp add: h264e_marking_rd_op_def h264e_marking_is_empty_def)
    have "write_mmcos n (t, ?m1) =
      run_bind (put_elements t (concat (map mmco_elems (drop (Suc ?k) (mmco_ops m)))))
        (\<lambda>s1. Inr (s1, m\<lparr>mi_rd_cnt := max (mi_rd_cnt m) (mi_wr_cnt m)\<rparr>))" for t
      using Suc.IH [of ?m1 t] Suc.prems True k by (simp add: marking_wf_def mmco_ops_def)
    then show ?thesis
      by (simp add: rd op mmco_elems_def [of "mi_ops m ! ?k"] put_elements_append write_mmco_args_eq run_bind_assoc)
  next
    case False
    then have "drop ?k (mmco_ops m) = []"
      by (simp add: mmco_ops_def)
    with False show ?thesis
      by (simp add: h264e_marking_rd_op_def h264e_marking_is_empty_def)
  qed
qed simp

text \<open>The slice after its header has been written: the flag, and the positions in the two lists.\<close>

definition written_marking :: "H264eSlice \<Rightarrow> H264eMarkingInfo" where
  "written_marking sl =
     (let m = (hs_marking sl)\<lparr>mi_idr_flag := (if hs_nalu_type sl = 5 then 1 else 0)\<rparr>;
          m1 = m\<lparr>mi_long_term_reference_flag := hs_long_term_reference_flag sl\<rparr>
      in if hs_nal_reference_idc sl = 0 then m
         else if hs_nalu_type sl = 5 then m1 else m1\<lparr>mi_rd_cnt := max 0 (mi_wr_cnt m1)\<rparr>)"

definition written_slice :: "H264eSlice \<Rightarrow> H264eSlice" where
  "written_slice sl =
     (let n = (if hs_slice_type sl = H264_P_SLICE \<and> first_rplmo (hs_reorder sl) \<noteq> None then 1 else 0)
      in sl\<lparr>hs_reorder := (hs_reorder sl)\<lparr>ri_rd_cnt := n\<rparr>, hs_ref_pic_list_modification_flag := n,
            hs_marking := written_marking sl\<rparr>)"

lemma write_marking_eq:
  assumes "marking_wf m" and "mi_idr_flag m = (if hs_nalu_type sl = 5 then 1 else 0)"
    and "hs_nal_reference_idc sl \<noteq> 0" and "hs_long_term_reference_flag sl = mi_long_term_reference_flag m"
    and "mi_no_output_of_prior_pics (hs_marking sl) = mi_no_output_of_prior_pics m"
    and "mmco_ops (hs_marking sl) = mmco_ops m"
  shows "write_marking s m = run_bind (put_elements s (marking_elems sl)) (\<lambda>s1.
    Inr (s1, if hs_nalu_type sl = 5 then m else m\<lparr>mi_rd_cnt := max 0 (mi_wr_cnt m)\<rparr>))"
proof -
  let ?m1 = "h264e_marking_rd_rewind m"
  have loop: "write_mmcos (nat (mi_wr_cnt m) + 1) (t, ?m1) =
      run_bind (put_elements t (concat (map mmco_elems (mmco_ops m))))
        (\<lambda>s1. Inr (s1, m\<lparr>mi_rd_cnt := max 0 (mi_wr_cnt m)\<rparr>))" for t
    using write_mmcos_eq [of ?m1 "nat (mi_wr_cnt m) + 1" t] assms(1)
    by (simp add: h264e_marking_rd_rewind_def marking_wf_def mmco_ops_def)
  have empty: "h264e_marking_is_empty ?m1 \<longleftrightarrow> mmco_ops m = []"
    using assms(1) by (auto simp: h264e_marking_is_empty_def h264e_marking_rd_rewind_def mmco_ops_def marking_wf_def)
  show ?thesis
  proof (cases "hs_nalu_type sl = 5 \<or> mmco_ops m = []")
    case True
    have "mi_wr_cnt m \<le> 0" if "mmco_ops m = []"
      using that assms(1) by (auto simp: mmco_ops_def marking_wf_def)
    with True assms(2-) empty show ?thesis
      by (auto simp: write_marking_def marking_elems_def h264e_marking_rd_rewind_def run_bind_assoc max_def)
  next
    case False
    then have "nat (mi_wr_cnt ?m1 - mi_rd_cnt ?m1) + 1 = nat (mi_wr_cnt m) + 1"
      by (simp add: h264e_marking_rd_rewind_def)
    with False assms(2-) empty loop show ?thesis
      by (simp add: write_marking_def marking_elems_def put_elements_append run_bind_assoc)
  qed
qed

text \<open>The header is the raw start code and unit byte, the elements, and in CABAC mode ones up to a byte.\<close>

theorem write_header_eq:
  assumes "slice_wf sl"
  shows "h264e_slice_write_header sl s =
    run_bind (write_nal_header sl s) (\<lambda>s1.
    run_bind (put_elements s1 (slice_elems sl)) (\<lambda>s2.
    run_bind (if hs_entropy_coding_mode sl \<noteq> 0 then mpp_writer_align_one s2 else Inr s2) (\<lambda>s3.
    run_bind (mpp_writer_flush s3) (\<lambda>s4. Inr (written_slice sl, s4)))))"
proof -
  let ?sl1 = "sl\<lparr>hs_marking := (hs_marking sl)\<lparr>mi_idr_flag := (if hs_nalu_type sl = 5 then 1 else 0)\<rparr>\<rparr>"
  let ?sl2 = "?sl1\<lparr>hs_reorder := hs_reorder (written_slice sl),
      hs_ref_pic_list_modification_flag := hs_ref_pic_list_modification_flag (written_slice sl)\<rparr>"
  let ?m = "(hs_marking ?sl2)\<lparr>mi_long_term_reference_flag := hs_long_term_reference_flag ?sl2\<rparr>"
  have wf: "reorder_wf (hs_reorder sl)" "marking_wf (hs_marking sl)"
    and ids: "0 \<le> hs_log2_max_frame_num sl" "hs_pic_order_cnt_type sl = 0 \<longrightarrow> 0 \<le> hs_log2_max_poc_lsb sl"
    using assms by (simp_all add: slice_wf_def)
  have refs: "write_ref_lists ?sl1 t = run_bind (put_elements t (ref_elems sl)) (\<lambda>s1. Inr (?sl2, s1))" for t
    using write_refs_eq [of ?sl1 t] wf(1) by (simp add: ref_elems_def written_slice_def Let_def)
  have mark: "run_bind (if hs_nal_reference_idc ?sl2 \<noteq> 0
        then run_bind (write_marking t ?m) (\<lambda>(s4, m). Inr (?sl2\<lparr>hs_marking := m\<rparr>, s4)) else Inr (?sl2, t)) k
      = run_bind (put_elements t (marking_elems sl)) (\<lambda>s4. k (written_slice sl, s4))" for t and k :: "_ \<Rightarrow> 'x run"
  proof (cases "hs_nal_reference_idc sl = 0")
    case True
    then show ?thesis
      by (cases sl) (simp add: marking_elems_def written_slice_def written_marking_def Let_def)
  next
    case False
    then have "write_marking t ?m = run_bind (put_elements t (marking_elems sl)) (\<lambda>s1.
        Inr (s1, if hs_nalu_type sl = 5 then ?m else ?m\<lparr>mi_rd_cnt := max 0 (mi_wr_cnt ?m)\<rparr>))"
      using wf(2) by (intro write_marking_eq) (simp_all add: marking_wf_def mmco_ops_def)
    then show ?thesis
      using False by (simp add: run_bind_assoc written_slice_def written_marking_def Let_def)
  qed
  have tail: "write_slice_tail (written_slice sl) t = run_bind (put_elements t (tail_elems sl)) (\<lambda>s1.
     run_bind (if hs_entropy_coding_mode sl \<noteq> 0 then mpp_writer_align_one s1 else Inr s1) mpp_writer_flush)" for t
    unfolding write_tail_eq by (simp add: written_slice_def Let_def tail_elems_def)
  show ?thesis
    unfolding h264e_slice_write_header_def Let_def write_ids_eq [OF ids] refs slice_elems_def put_elements_append
      run_bind_assoc run_bind.simps prod.case mark tail ..
qed

end
