(* ===== verification/Mpp_Slice_Write.thy ===== *)
theory Mpp_Slice_Write
  imports Mpp_Slice_Syntax
begin

text \<open>
  The bytes of a written slice header: the start code and the unit byte, the elements with their emulation
  prevention bytes, and a last byte that is not complete or is filled with ones.
\<close>

section \<open>The unit header\<close>

definition nal_fields :: "H264eSlice \<Rightarrow> (nat \<times> nat) list" where
  "nal_fields sl = [(24, 0), (8, 1), (1, 0), (2, nat (hs_nal_reference_idc sl)), (5, nat (hs_nalu_type sl))]"

definition start_code :: "H264eSlice \<Rightarrow> u8 list" where
  "start_code sl = [0, 0, 0, 1, nal_byte sl]"

lemma put_raw_loop_frame: "put_raw_loop c bits = Inr c' \<Longrightarrow> zero_bytes c' = zero_bytes c \<and> wr_size c' = wr_size c"
proof (induction c bits rule: put_raw_loop.induct)
  case (1 c bits)
  show ?case
  proof (cases "7 < bits")
    case True
    with "1.prems" obtain c1 where c1: "store_byte c (wr_stream c) (ucast (drop_bit 24 (byte_buffer c))) = Inr c1"
      and rec: "put_raw_loop (c1\<lparr>byte_buffer := push_bit 8 (byte_buffer c1), wr_stream := wr_stream c1 + 1,
          byte_cnt := byte_cnt c1 + 1\<rparr>) (bits - 8) = Inr c'"
      by (auto simp: put_raw_loop.simps [of c bits] run_bind_Inr_iff)
    have "zero_bytes c1 = zero_bytes c \<and> wr_size c1 = wr_size c"
      using c1 by (auto simp: store_byte_def run_bind_Inr_iff)
    with "1.IH" [OF True rec] show ?thesis by simp
  next
    case False
    with "1.prems" show ?thesis
      by (auto simp: put_raw_loop.simps [of c bits])
  qed
qed

lemma put_raw_bits_frame: "mpp_writer_put_raw_bits c v n = Inr c' \<Longrightarrow> zero_bytes c' = zero_bytes c \<and> wr_size c' = wr_size c"
  by (auto simp: mpp_writer_put_raw_bits_def mpp_writer_status_def Let_def split: if_splits dest: put_raw_loop_frame)

lemma put_fields_frame: "put_fields mpp_writer_put_raw_bits c fs = Inr c' \<Longrightarrow> zero_bytes c' = zero_bytes c \<and> wr_size c' = wr_size c"
  by (induction mpp_writer_put_raw_bits c fs rule: put_fields.induct)
    (auto simp: run_bind_Inr_iff dest!: put_raw_bits_frame)

text \<open>Bits that are written raw behind the payload.\<close>

lemma raw_rep_of_rep:
  assumes "wr_rep_at p c bs"
  shows "raw_rep c (byte_bits (p @ escape 0 (bit_bytes bs)) @ bit_tail bs)"
  using assms length_bit_tail [of bs]
  by (simp only: raw_rep_def wr_rep_at_def bit_bytes_byte_bits bit_tail_byte_bits)
    (auto simp: raw_out_def wr_out_at_def)

lemma rep_of_raw:
  assumes "raw_rep c (byte_bits p)" and "zero_bytes c = 0"
  shows "wr_rep_at p c []"
  using assms bit_bytes_byte_bits [of p "[]"] bit_tail_byte_bits [of p "[]"]
  by (simp add: raw_rep_def wr_rep_at_def raw_out_def wr_out_at_def)

lemma nal_byte_bits:
  assumes "i < 4" and "t < 32"
  shows "to_bits 1 (0 :: u32) @ to_bits 2 (of_nat i :: u32) @ to_bits 5 (of_nat t :: u32)
       = to_bits 8 (of_nat (i * 32 + t) :: u8)"
proof -
  have "\<forall>i \<in> set [0..<4]. \<forall>t \<in> set [0..<32]. to_bits 1 (0 :: u32) @ to_bits 2 (of_nat i :: u32) @ to_bits 5 (of_nat t :: u32)
       = to_bits 8 (of_nat (i * 32 + t) :: u8)"
    by code_simp
  with assms show ?thesis by simp
qed

lemma slice_wf_nal: "slice_wf sl \<Longrightarrow> nat (hs_nal_reference_idc sl) < 4 \<and> nat (hs_nalu_type sl) < 32"
  by (simp add: slice_wf_def nat_less_iff)

lemma nal_fields_bits:
  assumes "slice_wf sl"
  shows "field_bits (nal_fields sl) = byte_bits (start_code sl)"
proof -
  have "nal_byte sl = of_nat (nat (hs_nal_reference_idc sl) * 32 + nat (hs_nalu_type sl))"
    using assms by (simp add: nal_byte_def slice_wf_def)
  moreover have "nat (hs_nal_reference_idc sl) < 4" "nat (hs_nalu_type sl) < 32"
    using slice_wf_nal [OF assms] by simp_all
  moreover have "to_bits 24 (0 :: u32) @ to_bits 8 (1 :: u32) = to_bits 8 (0 :: u8) @ to_bits 8 (0 :: u8) @ to_bits 8 (0 :: u8) @ to_bits 8 (1 :: u8)"
    by code_simp
  ultimately show ?thesis
    using nal_byte_bits by (simp add: field_bits_def nal_fields_def start_code_def)
qed

lemma write_nal_header_ok:
  assumes sl: "slice_wf sl" and c: "raw_rep c []" "zero_bytes c = 0" and room: "5 \<le> unat (wr_size c)"
  shows "\<exists>c'. write_nal_header sl c = Inr c' \<and> wr_rep_at (start_code sl) c' [] \<and> wr_size c' = wr_size c"
proof -
  have fb: "bit_bytes (byte_bits (start_code sl)) = start_code sl"
    using bit_bytes_byte_bits [of "start_code sl" "[]"] by simp
  have "fields_ok (nal_fields sl)"
    using slice_wf_nal [OF sl] by (simp add: fields_ok_def nal_fields_def)
  moreover have "raw_fits c ([] @ field_bits (nal_fields sl))"
    using room by (simp add: raw_fits_def nal_fields_bits [OF sl] fb) (simp add: start_code_def)
  ultimately obtain c' where c': "put_fields mpp_writer_put_raw_bits c (nal_fields sl) = Inr c'"
      "raw_rep c' (byte_bits (start_code sl))"
    using raw_sink.put_fields_ok [OF c(1)] nal_fields_bits [OF sl] by fastforce
  have "write_nal_header sl c = put_fields mpp_writer_put_raw_bits c (nal_fields sl)"
    using sl by (simp add: nal_fields_def write_nal_header_def slice_wf_def)
  moreover have "wr_rep_at (start_code sl) c' []"
    using rep_of_raw [OF c'(2)] put_fields_frame [OF c'(1)] c(2) by simp
  ultimately show ?thesis
    using c'(1) put_fields_frame [OF c'(1)] by auto
qed

section \<open>The end of the header\<close>

definition tail_bytes :: "bool \<Rightarrow> bool list \<Rightarrow> u8 list" where
  "tail_bytes fill bs =
     (if bit_tail bs = [] then [] else [of_bits (bit_tail bs @ replicate (8 - length (bit_tail bs)) fill)])"

definition unit_bytes :: "u8 list \<Rightarrow> bool \<Rightarrow> bool list \<Rightarrow> u8 list" where
  "unit_bytes p fill bs = p @ escape 0 (bit_bytes bs) @ tail_bytes fill bs"

definition unit_bits :: "u8 list \<Rightarrow> bool \<Rightarrow> bool list \<Rightarrow> nat" where
  "unit_bits p fill bs =
     8 * length (unit_bytes p fill bs) - (if fill \<or> bit_tail bs = [] then 0 else 8 - length (bit_tail bs))"

lemma bit_count_small:
  assumes "unat (byte_cnt c) = n" and "buffered_bits c = of_nat b" and "b < 8" and "n < 2 ^ 27"
  shows "bit_count c = int (8 * n + b)"
proof -
  have "buffered_bits c + byte_cnt c * 8 = of_nat (8 * n + b)"
    using assms(1,2) by (simp add: algebra_simps flip: assms(1))
  moreover have "8 * n + b < 2 ^ 31"
    using assms(3,4) by simp
  ultimately show ?thesis
    using sint_of_nat_small unfolding bit_count_def by metis
qed

lemma sint_fill: "0 < n \<Longrightarrow> n < 8 \<Longrightarrow> sint (8 - of_nat n :: u32) = int (8 - n)"
proof -
  assume n: "0 < n" "n < 8"
  then have "(8 - of_nat n :: u32) = of_nat (8 - n)"
    by (simp add: of_nat_diff)
  then show ?thesis
    by (simp only:) (rule sint_of_nat_small, simp)
qed

lemma align_one_ok:
  assumes rep: "wr_rep_at p c bs" and t: "bit_tail bs \<noteq> []"
    and room: "length (unit_bytes p True bs) \<le> unat (wr_size c)"
  shows "\<exists>c'. mpp_writer_align_one c = Inr c' \<and> raw_rep c' (byte_bits (unit_bytes p True bs))"
proof -
  define n where "n = length (bit_tail bs)"
  have n: "0 < n" "n < 8"
    using t length_bit_tail [of bs] by (simp_all add: n_def)
  let ?raw = "byte_bits (p @ escape 0 (bit_bytes bs)) @ bit_tail bs"
  let ?v = "push_bit (8 - n) 1 - 1 :: int"
  have v: "0 \<le> ?v" "?v < 2 ^ (8 - n)" "to_bits (8 - n) (word_of_int ?v :: u32) = replicate (8 - n) True"
  proof -
    have "\<forall>n \<in> set [1..<8]. (0::int) \<le> push_bit (8 - n) 1 - 1 \<and> push_bit (8 - n) 1 - 1 < (2::int) ^ (8 - n) \<and>
        to_bits (8 - n) (word_of_int (push_bit (8 - n) 1 - 1) :: u32) = replicate (8 - n) True"
      by code_simp
    with n show "0 \<le> ?v" "?v < 2 ^ (8 - n)" "to_bits (8 - n) (word_of_int ?v :: u32) = replicate (8 - n) True"
      by simp_all
  qed
  let ?last = "bit_tail bs @ replicate (8 - n) True"
  have l8: "length ?last = 8"
    using n by (simp add: n_def)
  have "to_bits 8 (of_bits ?last :: u8) = ?last"
    using to_bits_of_bits [of ?last, where 'a = 8] l8 by simp
  then have all: "?raw @ replicate (8 - n) True = byte_bits (unit_bytes p True bs)"
    using t by (simp add: unit_bytes_def tail_bytes_def n_def)
  have "raw_fits c (byte_bits (unit_bytes p True bs))"
    using room bit_bytes_byte_bits [of "unit_bytes p True bs" "[]"] by (simp add: raw_fits_def)
  moreover have "8 - n \<le> 24"
    using n by simp
  ultimately obtain c' where "mpp_writer_put_raw_bits c ?v (int (8 - n)) = Inr c'"
      "raw_rep c' (byte_bits (unit_bytes p True bs))"
    using raw_sink.put_ok [OF raw_rep_of_rep [OF rep], of "8 - n" ?v] v all by auto
  moreover have "buffered_bits c = of_nat n" "buffered_bits c \<noteq> 0"
    using rep n of_nat_small_neq_0 [of n] by (simp_all add: wr_rep_at_def n_def)
  ultimately show ?thesis
    using sint_fill [OF n] by (simp add: mpp_writer_align_one_def)
qed

lemma flush_aligned:
  assumes "raw_rep c (byte_bits B)"
  shows "mpp_writer_flush c = Inr c"
  using assms bit_tail_byte_bits [of B "[]"]
  by (simp add: mpp_writer_flush_def mpp_writer_status_def raw_rep_def raw_out_def word_less_nat_alt)

lemma partial_byte:
  assumes "length t \<le> 8"
  shows "ucast (drop_bit 24 (push_bit (32 - length t) (of_bits t) :: u32)) = (of_bits (t @ replicate (8 - length t) False) :: u8)"
  by (rule bit_word_eqI)
    (use assms in \<open>auto simp: bit_ucast_iff bit_drop_bit_eq bit_push_bit_iff bit_of_bits nth_append\<close>)

lemma flush_partial:
  assumes rep: "wr_rep_at p c bs" and room: "length (unit_bytes p False bs) \<le> unat (wr_size c)"
  shows "\<exists>c'. mpp_writer_flush c = Inr c' \<and> take (length (unit_bytes p False bs)) (wr_mem c') = unit_bytes p False bs \<and>
    length (wr_mem c') = length (wr_mem c) \<and> byte_cnt c' = byte_cnt c \<and> buffered_bits c' = buffered_bits c"
proof -
  let ?t = "bit_tail bs"
  have ok: "mpp_writer_status c = (MPP_OK, c)"
    using rep by (simp add: mpp_writer_status_def wr_rep_at_def wr_out_at_def word_less_nat_alt)
  have pre: "take (wr_stream c) (wr_mem c) = p @ escape 0 (bit_bytes bs)"
    "wr_stream c = length p + length (escape 0 (bit_bytes bs))" "unat (wr_size c) \<le> length (wr_mem c)"
    using rep unfolding wr_rep_at_def wr_out_at_def by blast+
  show ?thesis
  proof (cases "?t = []")
    case True
    then show ?thesis
      using rep ok pre by (simp add: mpp_writer_flush_def unit_bytes_def tail_bytes_def wr_rep_at_def)
  next
    case False
    have lt: "wr_stream c < length (wr_mem c)" and len: "length (unit_bytes p False bs) = Suc (wr_stream c)"
      using False room pre by (simp_all add: unit_bytes_def tail_bytes_def)
    have nz: "buffered_bits c \<noteq> 0"
      using rep False of_nat_small_neq_0 [of "length ?t"] length_bit_tail [of bs] by (simp add: wr_rep_at_def)
    have byte: "ucast (drop_bit 24 (byte_buffer c)) = (of_bits (?t @ replicate (8 - length ?t) False) :: u8)"
      using rep partial_byte [of ?t] length_bit_tail [of bs] by (simp add: wr_rep_at_def)
    show ?thesis
      using False ok nz lt take_update_one [OF lt] pre
      by (simp add: mpp_writer_flush_def byte len) (simp add: unit_bytes_def tail_bytes_def)
  qed
qed

text \<open>Both ends of the writer leave the bytes of the unit and return its number of bits.\<close>

lemma finish_ok:
  assumes rep: "wr_rep_at p c bs" and room: "length (unit_bytes p fill bs) \<le> unat (wr_size c)"
    and small: "length (unit_bytes p fill bs) < 2 ^ 27"
  shows "\<exists>c' c''. (if fill then mpp_writer_align_one c else Inr c) = Inr c' \<and> mpp_writer_flush c' = Inr c'' \<and>
    take (length (unit_bytes p fill bs)) (wr_mem c'') = unit_bytes p fill bs \<and>
    length (unit_bytes p fill bs) \<le> length (wr_mem c'') \<and> bit_count c'' = int (unit_bits p fill bs)"
proof -
  have mem: "unat (wr_size c) \<le> length (wr_mem c)" and n: "unat (byte_cnt c) = length p + length (escape 0 (bit_bytes bs))"
    using rep by (simp_all add: wr_rep_at_def wr_out_at_def)
  show ?thesis
  proof (cases "fill \<and> bit_tail bs \<noteq> []")
    case True
    obtain c' where c': "mpp_writer_align_one c = Inr c'" "raw_rep c' (byte_bits (unit_bytes p True bs))"
      using align_one_ok [OF rep] True room by auto
    have bc: "unat (byte_cnt c') = length (unit_bytes p True bs)" "buffered_bits c' = of_nat 0"
      using c'(2) bit_bytes_byte_bits [of "unit_bytes p True bs" "[]"] bit_tail_byte_bits [of "unit_bytes p True bs" "[]"]
      by (simp_all add: raw_rep_def raw_out_def)
    have "bit_count c' = int (unit_bits p True bs)"
      using bit_count_small [OF bc] True small by (simp add: unit_bits_def)
    then show ?thesis
      using c' True flush_aligned [OF c'(2)] bit_bytes_byte_bits [of "unit_bytes p True bs" "[]"]
      by (auto simp: raw_rep_def raw_out_def)
  next
    case False
    have eq: "unit_bytes p fill bs = unit_bytes p False bs" "unit_bits p fill bs = unit_bits p False bs"
      using False by (auto simp: unit_bytes_def tail_bytes_def unit_bits_def)
    have al: "(if fill then mpp_writer_align_one c else Inr c) = Inr c"
      using False rep by (auto simp: mpp_writer_align_one_def wr_rep_at_def)
    obtain c'' where c'': "mpp_writer_flush c = Inr c''"
        "take (length (unit_bytes p False bs)) (wr_mem c'') = unit_bytes p False bs"
        "length (wr_mem c'') = length (wr_mem c)" "byte_cnt c'' = byte_cnt c" "buffered_bits c'' = buffered_bits c"
      using flush_partial [OF rep] room eq by auto
    have "length p + length (escape 0 (bit_bytes bs)) < 2 ^ 27"
      using small by (simp add: unit_bytes_def)
    then have "bit_count c'' = int (8 * (length p + length (escape 0 (bit_bytes bs))) + length (bit_tail bs))"
      using bit_count_small [of c'' _ "length (bit_tail bs)"] c'' n rep length_bit_tail [of bs]
      by (simp add: wr_rep_at_def)
    also have "\<dots> = int (unit_bits p False bs)"
      using length_bit_tail [of bs] by (auto simp: unit_bits_def unit_bytes_def tail_bytes_def)
    finally show ?thesis
      using c'' al room mem eq by auto
  qed
qed

section \<open>The written slice header\<close>

definition slice_fill :: "H264eSlice \<Rightarrow> bool" where
  "slice_fill sl \<longleftrightarrow> hs_entropy_coding_mode sl \<noteq> 0"

definition slice_unit :: "H264eSlice \<Rightarrow> u8 list" where
  "slice_unit sl = unit_bytes (start_code sl) (slice_fill sl) (header_bits (slice_elems sl))"

definition slice_bits :: "H264eSlice \<Rightarrow> nat" where
  "slice_bits sl = unit_bits (start_code sl) (slice_fill sl) (header_bits (slice_elems sl))"

lemma put_escaped_byte_size: "put_escaped_byte c b = Inr c' \<Longrightarrow> wr_size c' = wr_size c"
  by (auto simp: put_escaped_byte_def store_byte_def run_bind_Inr_iff split: if_splits)

lemma put_bits_loop_size: "put_bits_loop c buf bits = Inr c' \<Longrightarrow> wr_size c' = wr_size c"
proof (induction c buf bits rule: put_bits_loop.induct)
  case (1 c buf bits)
  show ?case
  proof (cases "7 < bits \<and> fst (mpp_writer_status c) = MPP_OK")
    case True
    then have st: "mpp_writer_status c = (MPP_OK, c)"
      by (auto simp: mpp_writer_status_def split: if_splits)
    with True "1.prems" obtain c1 where c1: "put_escaped_byte c (ucast (drop_bit 24 buf)) = Inr c1"
      and rec: "put_bits_loop c1 (push_bit 8 buf) (bits - 8) = Inr c'"
      by (auto simp: put_bits_loop.simps [of c buf bits] run_bind_Inr_iff)
    have "wr_size c' = wr_size c1"
      using "1.IH" [OF _ st [symmetric] _ _ rec] True by simp
    with put_escaped_byte_size [OF c1] show ?thesis by simp
  next
    case False
    with "1.prems" show ?thesis
      by (auto simp: put_bits_loop.simps [of c buf bits] mpp_writer_status_def split: if_splits)
  qed
qed

lemma put_bits_size: "mpp_writer_put_bits c v n = Inr c' \<Longrightarrow> wr_size c' = wr_size c"
  by (auto simp: mpp_writer_put_bits_def Let_def dest: put_bits_loop_size)

lemma put_element_size: "put_element c e = Inr c' \<Longrightarrow> wr_size c' = wr_size c"
proof -
  have ue: "mpp_writer_put_ue c v = Inr c' \<Longrightarrow> wr_size c' = wr_size c" for v
    by (auto simp: mpp_writer_put_ue_def Let_def run_bind_Inr_iff split: if_splits dest!: put_bits_size)
  show "put_element c e = Inr c' \<Longrightarrow> wr_size c' = wr_size c"
    by (cases e rule: element_ok.cases) (auto simp: mpp_writer_put_se_def dest: put_bits_size ue)
qed

lemma put_elements_size: "put_elements c es = Inr c' \<Longrightarrow> wr_size c' = wr_size c"
  by (induction c es rule: put_elements.induct) (auto simp: run_bind_Inr_iff dest: put_element_size)

lemma h264e_slice_write_ok:
  assumes sl: "slice_wf sl" and sz: "unat sz \<le> length mem" "unat sz < 2 ^ 27"
    and room: "length (slice_unit sl) \<le> unat sz"
  shows "\<exists>mem'. h264e_slice_write sl mem sz = Inr (int (slice_bits sl), written_slice sl, mem') \<and>
    take (length (slice_unit sl)) mem' = slice_unit sl \<and> length (slice_unit sl) \<le> length mem'"
proof -
  let ?c = "snd (mpp_writer_init mem (sint sz))" and ?h = "header_bits (slice_elems sl)"
  have c: "raw_rep ?c []" "zero_bytes ?c = 0" "wr_size ?c = sz"
    using sz(1) by (simp_all add: mpp_writer_init_def mpp_writer_status_def raw_rep_def raw_out_def)
  have len: "5 + length (escape 0 (bit_bytes ?h)) \<le> unat sz"
    using room by (simp add: slice_unit_def unit_bytes_def start_code_def)
  obtain c1 where c1: "write_nal_header sl ?c = Inr c1" "wr_rep_at (start_code sl) c1 []" "wr_size c1 = sz"
    using write_nal_header_ok [OF sl c(1,2)] len c(3) by auto
  have "wr_fits_at (start_code sl) c1 ([] @ ?h)"
    using len c1(3) by (simp add: wr_fits_at_def start_code_def)
  then obtain c2 where c2: "put_elements c1 (slice_elems sl) = Inr c2" "wr_rep_at (start_code sl) c2 ?h"
    using put_elements_ok [OF c1(2), of "slice_elems sl"] sl by (auto simp: slice_wf_def)
  have "wr_size c2 = sz"
    using put_elements_size [OF c2(1)] c1(3) by simp
  then obtain c3 c4 where c4: "(if slice_fill sl then mpp_writer_align_one c2 else Inr c2) = Inr c3"
      "mpp_writer_flush c3 = Inr c4" "take (length (slice_unit sl)) (wr_mem c4) = slice_unit sl"
      "length (slice_unit sl) \<le> length (wr_mem c4)" "bit_count c4 = int (slice_bits sl)"
    using finish_ok [OF c2(2), of "slice_fill sl"] room sz(2) by (auto simp: slice_unit_def slice_bits_def)
  have "h264e_slice_write_header sl ?c = Inr (written_slice sl, c4)"
    unfolding write_header_eq [OF sl] using c1(1) c2(1) c4(1,2) by (simp add: slice_fill_def)
  with c4 show ?thesis
    by (auto simp: h264e_slice_write_def)
qed

text \<open>A bound of the size by the number of bits.\<close>

lemma length_slice_unit:
  "2 * length (slice_unit sl) \<le> 12 + 3 * (length (header_bits (slice_elems sl)) div 8)"
  using length_escape [of 0 "bit_bytes (header_bits (slice_elems sl))"]
  by (simp add: slice_unit_def unit_bytes_def start_code_def tail_bytes_def length_bit_bytes)

end
