(* ===== verification/Mpp_Slice_Read.thy ===== *)
theory Mpp_Slice_Read
  imports Mpp_Slice_Write
begin

text \<open>
  The reader of slice headers on a written header: each statement of \<open>h264e_slice_read\<close> takes its element
  off the stream, and together they recover what the header carries.
\<close>

section \<open>Statements that read\<close>

text \<open>From the state \<open>x\<close> the statement \<open>k\<close> reads exactly the bits \<open>B\<close> and ends in the state \<open>y\<close>.\<close>

definition steps :: "nat \<Rightarrow> ('s \<times> BitReadCtx \<Rightarrow> ('s \<times> BitReadCtx) run) \<Rightarrow> 's \<Rightarrow> bool list \<Rightarrow> 's \<Rightarrow> bool" where
  "steps sz k x B y \<longleftrightarrow>
     (\<forall>bt rest. at_unit sz bt \<longrightarrow> unit_feed.stream bt = B @ rest \<longrightarrow>
        (\<exists>bt'. k (x, bt) = Inr (y, bt') \<and> at_unit sz bt' \<and> unit_feed.stream bt' = rest))"

lemma stepsD:
  "steps sz k x B y \<Longrightarrow> at_unit sz bt \<Longrightarrow> unit_feed.stream bt = B @ rest \<Longrightarrow>
     \<exists>bt'. k (x, bt) = Inr (y, bt') \<and> at_unit sz bt' \<and> unit_feed.stream bt' = rest"
  by (auto simp: steps_def)

lemma steps_seq:
  assumes "steps sz k x B y" and "steps sz (run_seq ks) y C z"
  shows "steps sz (run_seq (k # ks)) x (B @ C) z"
proof -
  have "\<exists>bt'. run_seq (k # ks) (x, bt) = Inr (z, bt') \<and> at_unit sz bt' \<and> unit_feed.stream bt' = rest"
    if bt: "at_unit sz bt" "unit_feed.stream bt = (B @ C) @ rest" for bt rest
  proof -
    obtain b1 where b1: "k (x, bt) = Inr (y, b1)" "at_unit sz b1" "unit_feed.stream b1 = C @ rest"
      using stepsD [OF assms(1) bt(1)] bt(2) by auto
    show ?thesis
      using stepsD [OF assms(2) b1(2,3)] b1(1) by auto
  qed
  then show ?thesis by (simp add: steps_def)
qed

lemma steps_Nil [simp]: "steps sz Inr x [] y \<longleftrightarrow> x = y \<or> (\<forall>bt. \<not> at_unit sz bt)"
  by (auto simp: steps_def)

lemma steps_skip: "(\<And>bt. k (x, bt) = Inr (y, bt)) \<Longrightarrow> steps sz k x [] y"
  by (simp add: steps_def)

lemma steps_end: "steps sz (run_seq []) x [] x"
  by (simp add: steps_skip)

lemma at_unit_read:
  assumes "at_unit sz bt" and "n \<le> 31" and "unit_feed.stream bt = to_bits n (w :: u32) @ rest"
  shows "\<exists>bt'. mpp_read_bits bt (int n) = Inr (MPP_OK, take_bit n w, bt') \<and> at_unit sz bt' \<and> unit_feed.stream bt' = rest"
proof -
  obtain bt' where bt': "mpp_read_bits bt (int n) = Inr (MPP_OK, of_bits (take n (unit_feed.stream bt)), bt')"
      "unit_feed.ready sz bt'" "unit_feed.stream bt' = drop n (unit_feed.stream bt)"
    using unit_feed.read_bits_ok [of sz bt "int n"] assms by (auto simp: at_unit_def)
  moreover have "bit_pos bt' = bit_pos bt"
    using read_bits_pos [OF bt'(1) at_unit_h264 [OF assms(1)]] by simp
  ultimately show ?thesis
    using assms(1,3) by (auto simp: at_unit_def of_bits_to_bits)
qed

lemma at_unit_read_ue:
  assumes "at_unit sz bt" and "0 \<le> v" and "v < 2 ^ 24 - 1" and "unit_feed.stream bt = ue_code (nat v) @ rest"
  shows "\<exists>bt'. mpp_read_ue bt v0 = Inr (MPP_OK, word_of_int v, bt') \<and> at_unit sz bt' \<and> unit_feed.stream bt' = rest"
proof -
  have "nat v < 2 ^ 30"
    using assms(2,3) by (simp add: nat_less_iff)
  then obtain bt' where bt': "mpp_read_ue bt v0 = Inr (MPP_OK, of_nat (nat v), bt')"
      "unit_feed.ready sz bt'" "unit_feed.stream bt' = rest"
    using unit_feed.read_ue_code [of sz bt "nat v" rest v0] assms by (auto simp: at_unit_def)
  moreover have "bit_pos bt' = bit_pos bt"
    using read_ue_pos [OF bt'(1) at_unit_h264 [OF assms(1)]] by simp
  ultimately show ?thesis
    using assms(1,2) by (auto simp: at_unit_def)
qed

lemma at_unit_read_se:
  assumes "at_unit sz bt" and "\<bar>v\<bar> < 2 ^ 23 - 1" and "unit_feed.stream bt = ue_code (se_index v) @ rest"
  shows "\<exists>bt'. mpp_read_se bt v0 = Inr (MPP_OK, v, bt') \<and> at_unit sz bt' \<and> unit_feed.stream bt' = rest"
proof -
  obtain bt' where bt': "mpp_read_se bt v0 = Inr (MPP_OK, v, bt')"
      "unit_feed.ready sz bt'" "unit_feed.stream bt' = rest"
    using unit_feed.read_se_code [of sz bt v rest v0] assms by (auto simp: at_unit_def)
  moreover have "bit_pos bt' = bit_pos bt"
    using read_se_pos [OF bt'(1) at_unit_h264 [OF assms(1)]] by simp
  ultimately show ?thesis
    using assms(1) by (auto simp: at_unit_def)
qed

lemma steps_u:
  assumes "element_ok (Fixed n, v)" and "i = int n"
  shows "steps sz (rd_u i upd) x (element_bits (Fixed n, v)) (upd (word_of_int v) x)"
proof -
  have "take_bit n (word_of_int v :: u32) = word_of_int v"
    using assms(1) by (simp add: of_int_take_bit [symmetric] take_bit_int_eq_self)
  then show ?thesis
    using assms at_unit_read [of sz _ n "word_of_int v"] by (fastforce simp: steps_def)
qed

lemma steps_ue:
  assumes "element_ok (Ue, v)"
  shows "steps sz (rd_ue get upd) x (element_bits (Ue, v)) (upd (word_of_int v) x)"
  using assms at_unit_read_ue [of sz _ v _ "get x"] by (fastforce simp: steps_def)

lemma steps_se:
  assumes "element_ok (Se, v)"
  shows "steps sz (rd_se get upd) x (element_bits (Se, v)) (upd v x)"
  using assms at_unit_read_se [of sz _ v _ "get x"] by (fastforce simp: steps_def)

text \<open>A value that went through a field of at most 24 bits keeps its number.\<close>

lemma element_value:
  "element_ok (Fixed n, v) \<Longrightarrow> sint (word_of_int v :: u32) = v"
  "element_ok (Ue, v) \<Longrightarrow> sint (word_of_int v :: u32) = v"
proof -
  have *: "sint (word_of_int v :: u32) = v" if "0 \<le> v" "v < 2 ^ 24" for v
    using that sint_of_nat_small [of "nat v"] by (simp add: nat_less_iff)
  show "element_ok (Ue, v) \<Longrightarrow> sint (word_of_int v :: u32) = v"
    using * [of v] by simp
  assume ok: "element_ok (Fixed n, v)"
  then have "(2::int) ^ n \<le> 2 ^ 24"
    by (intro power_increasing) simp_all
  with ok * [of v] show "sint (word_of_int v :: u32) = v"
    by simp
qed

lemma ue_value_iff:
  "element_ok (Ue, v) \<Longrightarrow> element_ok (Ue, w) \<Longrightarrow> (word_of_int v :: u32) = word_of_int w \<longleftrightarrow> v = w"
  by (metis element_value(2))

lemma steps_eq: "steps sz k x B y \<Longrightarrow> B = B' \<Longrightarrow> y = y' \<Longrightarrow> steps sz k x B' y'"
  by simp

lemma steps_cond:
  assumes "\<And>bt. k (x, bt) = (if c then k' (x, bt) else Inr (x, bt))" and "c \<Longrightarrow> steps sz k' x B y"
  shows "steps sz k x (if c then B else []) (if c then y else x)"
  using assms by (cases c) (simp_all add: steps_def)

section \<open>The parts of the header\<close>

definition seen_nal :: "H264eSlice \<Rightarrow> H264eSlice \<Rightarrow> H264eSlice" where
  "seen_nal sl x = x\<lparr>hs_nal_reference_idc := hs_nal_reference_idc sl, hs_nalu_type := hs_nalu_type sl\<rparr>"

definition seen_ids :: "H264eSlice \<Rightarrow> H264eSlice \<Rightarrow> H264eSlice" where
  "seen_ids sl x =
     x\<lparr>hs_first_mb_in_slice := hs_first_mb_in_slice sl, hs_slice_type := hs_slice_type sl,
       hs_pic_parameter_set_id := hs_pic_parameter_set_id sl, hs_frame_num := hs_frame_num sl,
       hs_idr_flag := of_bool (hs_nalu_type sl = 5),
       hs_idr_pic_id := (if hs_nalu_type sl = 5 then hs_idr_pic_id sl else hs_idr_pic_id x),
       hs_pic_order_cnt_lsb :=
         (if hs_pic_order_cnt_type sl = 0 then word_of_int (masked_poc_lsb sl) else hs_pic_order_cnt_lsb x)\<rparr>"

definition seen_tail :: "H264eSlice \<Rightarrow> H264eSlice \<Rightarrow> H264eSlice" where
  "seen_tail sl x =
     x\<lparr>hs_cabac_init_idc := (if hs_entropy_coding_mode sl \<noteq> 0 \<and> hs_slice_type sl \<noteq> H264_I_SLICE
          then hs_cabac_init_idc sl else hs_cabac_init_idc x),
       hs_qp_delta := hs_qp_delta sl, hs_disable_deblocking_filter_idc := hs_disable_deblocking_filter_idc sl,
       hs_slice_alpha_c0_offset_div2 := hs_slice_alpha_c0_offset_div2 sl,
       hs_slice_beta_offset_div2 := hs_slice_beta_offset_div2 sl\<rparr>"

lemma element_word [simp]: "word_of_int (uint (w :: u32)) = w"
  by simp

lemma read_ids_steps:
  assumes ok: "list_all element_ok (id_elems sl)"
    and cfg: "hs_log2_max_frame_num x = hs_log2_max_frame_num sl" "hs_log2_max_poc_lsb x = hs_log2_max_poc_lsb sl"
      "hs_pic_order_cnt_type x = hs_pic_order_cnt_type sl" "hs_nalu_type x = hs_nalu_type sl"
      "0 \<le> hs_log2_max_frame_num sl" "hs_pic_order_cnt_type sl = 0 \<longrightarrow> 0 \<le> hs_log2_max_poc_lsb sl"
  shows "steps sz read_slice_ids x (header_bits (id_elems sl)) (seen_ids sl x)"
proof -
  let ?fn = "(Fixed (nat (hs_log2_max_frame_num sl)), hs_frame_num sl)"
  let ?poc = "(Fixed (nat (hs_log2_max_poc_lsb sl)), masked_poc_lsb sl)"
  have e: "element_ok (Ue, uint (hs_first_mb_in_slice sl))" "element_ok (Ue, uint (hs_slice_type sl))"
    "element_ok (Ue, uint (hs_pic_parameter_set_id sl))" "element_ok ?fn"
    "hs_nalu_type sl = 5 \<Longrightarrow> element_ok (Ue, uint (hs_idr_pic_id sl))"
    "hs_pic_order_cnt_type sl = 0 \<Longrightarrow> element_ok ?poc"
    using ok by (simp_all add: id_elems_def split: if_splits)
  show ?thesis
    unfolding read_slice_ids_def
    apply (rule steps_eq)
      apply (rule steps_seq [OF steps_ue [OF e(1)]])
      apply (rule steps_seq [OF steps_ue [OF e(2)]])
      apply (rule steps_seq [OF steps_ue [OF e(3)]])
      apply (rule steps_seq)
       apply (rule steps_cond [where c = True and k' = "rd_u (hs_log2_max_frame_num sl) (\<lambda>v. hs_frame_num_update (\<lambda>_. sint v))"])
        apply (simp add: cfg)
       apply (rule steps_u [OF e(4)])
       apply (simp add: cfg)
      apply (rule steps_seq)
       apply (rule steps_skip, simp)
      apply (rule steps_seq)
       apply (rule steps_cond [where c = "hs_nalu_type sl = 5" and k' = "rd_ue hs_idr_pic_id (\<lambda>v. hs_idr_pic_id_update (\<lambda>_. v))"])
        apply (simp add: cfg)
       apply (rule steps_ue [OF e(5)], assumption)
      apply (rule steps_seq)
       apply (rule steps_cond [where c = "hs_pic_order_cnt_type sl = 0" and
            k' = "rd_u (hs_log2_max_poc_lsb sl) (\<lambda>v. hs_pic_order_cnt_lsb_update (\<lambda>_. v))"])
        apply (simp add: cfg)
       apply (rule steps_u [OF e(6)], assumption)
       apply (simp add: cfg)
      apply (rule steps_end)
     apply (simp add: header_bits_def id_elems_def)
    apply (simp add: seen_ids_def element_value(1) [OF e(4)] cfg)
    done
qed

lemma read_tail_steps:
  assumes ok: "list_all element_ok (tail_elems sl)"
    and cfg: "hs_entropy_coding_mode x = hs_entropy_coding_mode sl" "hs_slice_type x = hs_slice_type sl"
  defines "cabac \<equiv> hs_entropy_coding_mode sl \<noteq> 0 \<and> hs_slice_type sl \<noteq> H264_I_SLICE"
  shows "steps sz read_slice_tail x (header_bits (tail_elems sl)) (seen_tail sl x)"
proof -
  have e: "cabac \<Longrightarrow> element_ok (Ue, uint (hs_cabac_init_idc sl))" "element_ok (Se, hs_qp_delta sl)"
    "element_ok (Ue, uint (hs_disable_deblocking_filter_idc sl))"
    "element_ok (Se, hs_slice_alpha_c0_offset_div2 sl)" "element_ok (Se, hs_slice_beta_offset_div2 sl)"
    using ok by (simp_all add: tail_elems_def cabac_def split: if_splits)
  show ?thesis
    unfolding read_slice_tail_def
    apply (rule steps_eq)
      apply (rule steps_seq)
       apply (rule steps_cond [where c = cabac and k' = "rd_ue hs_cabac_init_idc (\<lambda>v. hs_cabac_init_idc_update (\<lambda>_. v))"])
        apply (simp add: cfg cabac_def)
       apply (rule steps_ue [OF e(1)], assumption)
      apply (rule steps_seq [OF steps_se [OF e(2)]])
      apply (rule steps_seq [OF steps_ue [OF e(3)]])
      apply (rule steps_seq [OF steps_se [OF e(4)]])
      apply (rule steps_seq [OF steps_se [OF e(5)]])
      apply (rule steps_end)
     apply (simp add: header_bits_def tail_elems_def cabac_def)
    apply (simp add: seen_tail_def cabac_def)
    done
qed

text \<open>The reordering operation, and the terminator, which the reader stores as an operation too.\<close>

definition seen_op :: "H264eRplmo \<Rightarrow> H264eRplmo \<Rightarrow> H264eRplmo" where
  "seen_op ops op =
     (if modification_of_pic_nums_idc op = 2
      then ops\<lparr>modification_of_pic_nums_idc := 2, long_term_pic_idx := long_term_pic_idx op\<rparr>
      else ops\<lparr>modification_of_pic_nums_idc := modification_of_pic_nums_idc op,
              abs_diff_pic_num_minus1 := abs_diff_pic_num_minus1 op\<rparr>)"

definition seen_reorder :: "H264eRplmo \<Rightarrow> H264eRplmo \<Rightarrow> H264eReorderInfo \<Rightarrow> H264eReorderInfo" where
  "seen_reorder ops op r =
     r\<lparr>ri_ops := (ri_ops r)[0 := seen_op ops op, 1 := rplmo_zero\<lparr>modification_of_pic_nums_idc := 3\<rparr>],
       ri_wr_cnt := 2\<rparr>"

lemma read_rplmos_ok:
  assumes bt: "at_unit sz bt" "unit_feed.stream bt = header_bits (tl (rplmo_elems (Some op))) @ rest"
    and ok: "list_all element_ok (rplmo_elems (Some op))" "modification_of_pic_nums_idc op \<in> {0, 1, 2}"
    and r: "ri_wr_cnt r = 0" "2 \<le> ri_size r" "ri_size r \<le> int (length (ri_ops r))"
  shows "\<exists>bt'. read_rplmos (Suc (Suc n)) 0 ops r bt = Inr (seen_reorder ops op r, bt') \<and>
    at_unit sz bt' \<and> unit_feed.stream bt' = rest"
proof -
  let ?idc = "modification_of_pic_nums_idc op"
  define arg where "arg = (if ?idc = 2 then long_term_pic_idx op else abs_diff_pic_num_minus1 op)"
  have st: "unit_feed.stream bt = ue_code (nat ?idc) @ ue_code (nat arg) @ ue_code (nat 3) @ rest"
    using bt(2) by (simp add: header_bits_def arg_def)
  have idc: "0 \<le> ?idc" "?idc < 2 ^ 24 - 1" and arg: "0 \<le> arg" "arg < 2 ^ 24 - 1"
    using ok by (auto simp: arg_def)
  obtain b1 where b1: "mpp_read_ue bt 0 = Inr (MPP_OK, word_of_int ?idc, b1)"
      "at_unit sz b1" "unit_feed.stream b1 = ue_code (nat arg) @ ue_code (nat 3) @ rest"
    using at_unit_read_ue [OF bt(1) idc st] by blast
  obtain b2 where b2: "mpp_read_ue b1 0 = Inr (MPP_OK, word_of_int arg, b2)"
      "at_unit sz b2" "unit_feed.stream b2 = ue_code (nat 3) @ rest"
    using at_unit_read_ue [OF b1(2) arg b1(3)] by blast
  obtain b3 where b3: "mpp_read_ue b2 (word_of_int ?idc) = Inr (MPP_OK, word_of_int 3, b3)"
      "at_unit sz b3" "unit_feed.stream b3 = rest"
    using at_unit_read_ue [OF b2(2) _ _ b2(3)] by fastforce
  have v: "sint (word_of_int arg :: u32) = arg"
    using element_value(2) [of arg] arg by simp
  have size: "0 < length (ri_ops r)" "1 < length (ri_ops r)"
    using r(2,3) by linarith+
  have args: "read_rplmo_args (word_of_int ?idc) (ops\<lparr>modification_of_pic_nums_idc := sint (word_of_int ?idc :: u32)\<rparr>) b1
      = Inr (seen_op ops op, b2)"
    using ok(2) b2(1) v by (auto simp: read_rplmo_args_def seen_op_def arg_def)
  have wr: "h264e_reorder_wr_op r x = Inr (MPP_OK, r\<lparr>ri_ops := (ri_ops r)[0 := x], ri_wr_cnt := 1\<rparr>)"
    "h264e_reorder_wr_op (r\<lparr>ri_ops := (ri_ops r)[0 := x], ri_wr_cnt := 1\<rparr>) y =
       Inr (MPP_OK, r\<lparr>ri_ops := (ri_ops r)[0 := x, 1 := y], ri_wr_cnt := 2\<rparr>)" for x y
    using r size by (simp_all add: h264e_reorder_wr_op_def)
  have ne: "(word_of_int ?idc :: u32) \<noteq> 3"
    using ok(2) by auto
  show ?thesis
    using b1(1) b3 args wr ne by (simp add: read_rplmo_args_def seen_reorder_def)
qed

text \<open>The marking operations.\<close>

definition seen_mmco :: "H264eMmco \<Rightarrow> H264eMmco \<Rightarrow> H264eMmco" where
  "seen_mmco opt op =
     opt\<lparr>mmco := mmco op,
         difference_of_pic_nums_minus1 :=
           (if mmco op = 1 \<or> mmco op = 3 then difference_of_pic_nums_minus1 op else difference_of_pic_nums_minus1 opt),
         long_term_pic_num := (if mmco op = 2 then long_term_pic_num op else long_term_pic_num opt),
         long_term_frame_idx := (if mmco op = 3 \<or> mmco op = 6 then long_term_frame_idx op else long_term_frame_idx opt),
         max_long_term_frame_idx_plus1 :=
           (if mmco op = 4 then max_long_term_frame_idx_plus1 op else max_long_term_frame_idx_plus1 opt)\<rparr>"

fun seen_mmcos :: "H264eMmco \<Rightarrow> H264eMmco list \<Rightarrow> H264eMmco list" where
  "seen_mmcos opt [] = []"
| "seen_mmcos opt (op # ops) = seen_mmco opt op # seen_mmcos mmco_zero ops"

lemma seen_mmco_elems [simp]: "mmco_elems (seen_mmco opt op) = mmco_elems op"
  by (auto simp: mmco_elems_def mmco_args_def seen_mmco_def)

lemma seen_mmcos_elems [simp]: "map mmco_elems (seen_mmcos opt ops) = map mmco_elems ops"
  by (induction opt ops rule: seen_mmcos.induct) auto

lemma seen_mmcos_Nil [simp]: "seen_mmcos opt ops = [] \<longleftrightarrow> ops = []"
  by (cases ops) auto

lemma steps_mmco_arg:
  assumes "c \<Longrightarrow> element_ok (Ue, v)"
  shows "steps sz (read_mmco_arg c v0 upd) opt (if c then element_bits (Ue, v) else []) (if c then upd v opt else opt)"
proof (cases c)
  case True
  with assms have "\<exists>bt'. read_mmco_arg c v0 upd (opt, bt) = Inr (upd v opt, bt') \<and> at_unit sz bt' \<and> unit_feed.stream bt' = rest"
    if "at_unit sz bt" "unit_feed.stream bt = ue_code (nat v) @ rest" for bt rest
    using that at_unit_read_ue [of sz bt v rest v0] element_value(2) [of v] by (auto simp: read_mmco_arg_def)
  with True show ?thesis by (simp add: steps_def)
next
  case False
  then show ?thesis by (simp add: steps_def read_mmco_arg_def)
qed

lemma mmco_args_steps:
  assumes "list_all element_ok (mmco_elems op)"
  defines "c \<equiv> word_of_int (mmco op) :: u32"
  shows "steps sz (read_mmco_args c val0)
     (opt\<lparr>mmco := mmco op\<rparr>) (header_bits (map (Pair Ue) (mmco_args op))) (seen_mmco opt op)"
proof -
  have ok: "element_ok (Ue, mmco op)"
    using assms(1) by (simp add: mmco_elems_def)
  have c5: "c = 1 \<longleftrightarrow> mmco op = 1" "c = 2 \<longleftrightarrow> mmco op = 2" "c = 3 \<longleftrightarrow> mmco op = 3"
    "c = 4 \<longleftrightarrow> mmco op = 4" "c = 6 \<longleftrightarrow> mmco op = 6"
    using ue_value_iff [OF ok, of 1] ue_value_iff [OF ok, of 2] ue_value_iff [OF ok, of 3]
      ue_value_iff [OF ok, of 4] ue_value_iff [OF ok, of 6]
    by (simp_all add: c_def)
  have e: "c = 1 \<or> c = 3 \<Longrightarrow> element_ok (Ue, difference_of_pic_nums_minus1 op)"
    "c = 2 \<Longrightarrow> element_ok (Ue, long_term_pic_num op)" "c = 3 \<or> c = 6 \<Longrightarrow> element_ok (Ue, long_term_frame_idx op)"
    "c = 4 \<Longrightarrow> element_ok (Ue, max_long_term_frame_idx_plus1 op)"
    using assms(1) unfolding c5 by (auto simp: mmco_elems_def mmco_args_def)
  show ?thesis
    unfolding read_mmco_args_def
    apply (rule steps_eq)
      apply (rule steps_seq [OF steps_mmco_arg [OF e(1)]], assumption)
      apply (rule steps_seq [OF steps_mmco_arg [OF e(2)]], assumption)
      apply (rule steps_seq [OF steps_mmco_arg [OF e(3)]], assumption)
      apply (rule steps_seq [OF steps_mmco_arg [OF e(4)]], assumption)
      apply (rule steps_end)
    unfolding c5
     apply (simp add: header_bits_def mmco_args_def)
    apply (simp add: seen_mmco_def)
    done
qed

lemma mmco_wr_op:
  assumes "0 \<le> mi_wr_cnt m" and "mi_wr_cnt m < mi_size m" and "mi_size m \<le> int (length (mi_ops m))"
  shows "\<exists>m'. h264e_marking_wr_op m x = Inr (MPP_OK, m') \<and> mmco_ops m' = mmco_ops m @ [x] \<and>
    mi_wr_cnt m' = mi_wr_cnt m + 1 \<and> mi_size m' = mi_size m \<and> length (mi_ops m') = length (mi_ops m) \<and>
    mi_no_output_of_prior_pics m' = mi_no_output_of_prior_pics m"
proof -
  let ?k = "nat (mi_wr_cnt m)"
  have k: "?k < length (mi_ops m)" "nat (mi_wr_cnt m + 1) = Suc ?k"
    using assms by linarith+
  with assms take_update_one [OF k(1), of x] show ?thesis
    by (simp add: h264e_marking_wr_op_def mmco_ops_def)
qed

lemma read_mmcos_ok:
  assumes "at_unit sz bt" and "unit_feed.stream bt = header_bits (concat (map mmco_elems ops) @ [(Ue, 0)]) @ rest"
    and "list_all (list_all element_ok \<circ> mmco_elems) ops" and "list_all (\<lambda>op. mmco op \<noteq> 0) ops"
    and "0 \<le> mi_wr_cnt m" and "mi_wr_cnt m + int (length ops) \<le> mi_size m" and "mi_size m \<le> int (length (mi_ops m))"
    and "length ops < n"
  shows "\<exists>m' bt'. read_mmcos n val0 c opt m bt = Inr (m', bt') \<and> at_unit sz bt' \<and> unit_feed.stream bt' = rest \<and>
    mmco_ops m' = mmco_ops m @ seen_mmcos opt ops \<and> mi_no_output_of_prior_pics m' = mi_no_output_of_prior_pics m"
  using assms
proof (induction ops arbitrary: n c opt m bt)
  case Nil
  then obtain k where n: "n = Suc k" by (cases n) auto
  have "unit_feed.stream bt = ue_code (nat 0) @ rest"
    using Nil.prems(2) by (simp add: header_bits_def)
  from at_unit_read_ue [OF Nil.prems(1) _ _ this, of c] show ?case
    by (auto simp: n)
next
  case (Cons op ops)
  then obtain k where n: "n = Suc k" by (cases n) auto
  have e: "list_all element_ok (mmco_elems op)" "mmco op \<noteq> 0"
    using Cons.prems(3,4) by simp_all
  then have ue: "0 \<le> mmco op" "mmco op < 2 ^ 24 - 1" "element_ok (Ue, mmco op)"
    by (simp_all add: mmco_elems_def)
  have st: "unit_feed.stream bt = ue_code (nat (mmco op)) @ header_bits (map (Pair Ue) (mmco_args op)) @
      header_bits (concat (map mmco_elems ops) @ [(Ue, 0)]) @ rest"
    using Cons.prems(2) by (simp add: header_bits_def mmco_elems_def [of op])
  obtain b1 where b1: "mpp_read_ue bt c = Inr (MPP_OK, word_of_int (mmco op), b1)" "at_unit sz b1"
      "unit_feed.stream b1 = header_bits (map (Pair Ue) (mmco_args op)) @
      header_bits (concat (map mmco_elems ops) @ [(Ue, 0)]) @ rest"
    using at_unit_read_ue [OF Cons.prems(1) ue(1,2) st] by blast
  obtain b2 where b2: "read_mmco_args (word_of_int (mmco op)) val0 (opt\<lparr>mmco := mmco op\<rparr>, b1) = Inr (seen_mmco opt op, b2)"
      "at_unit sz b2" "unit_feed.stream b2 = header_bits (concat (map mmco_elems ops) @ [(Ue, 0)]) @ rest"
    using stepsD [OF mmco_args_steps [OF e(1)] b1(2,3), of val0 opt] by blast
  have room: "mi_wr_cnt m < mi_size m"
    using Cons.prems(6) by simp
  obtain m1 where m1: "h264e_marking_wr_op m (seen_mmco opt op) = Inr (MPP_OK, m1)"
      "mmco_ops m1 = mmco_ops m @ [seen_mmco opt op]" "mi_wr_cnt m1 = mi_wr_cnt m + 1" "mi_size m1 = mi_size m"
      "length (mi_ops m1) = length (mi_ops m)" "mi_no_output_of_prior_pics m1 = mi_no_output_of_prior_pics m"
    using mmco_wr_op [OF Cons.prems(5) room Cons.prems(7)] by blast
  have nz: "(word_of_int (mmco op) :: u32) \<noteq> 0"
  proof
    assume "(word_of_int (mmco op) :: u32) = 0"
    then have "sint (word_of_int (mmco op) :: u32) = 0"
      by (simp only:) simp
    with element_value(2) [OF ue(3)] e(2) show False by simp
  qed
  obtain m' bt' where "read_mmcos k val0 (word_of_int (mmco op)) mmco_zero m1 b2 = Inr (m', bt')" "at_unit sz bt'"
      "unit_feed.stream bt' = rest" "mmco_ops m' = mmco_ops m1 @ seen_mmcos mmco_zero ops"
      "mi_no_output_of_prior_pics m' = mi_no_output_of_prior_pics m1"
    using Cons.IH [OF b2(2,3), of m1 k "word_of_int (mmco op)" mmco_zero] Cons.prems m1 n by auto
  moreover have "sint (word_of_int (mmco op) :: u32) = mmco op"
    using element_value(2) [OF ue(3)] .
  ultimately show ?case
    using b1(1) b2(1) m1 nz unfolding n by simp
qed

text \<open>A reader as the encoder prepares it: the configuration of the stream, and empty lists with room.\<close>

definition marking_room :: "H264eSlice \<Rightarrow> H264eMarkingInfo \<Rightarrow> bool" where
  "marking_room sl m \<longleftrightarrow>
     mi_wr_cnt m = 0 \<and> int (length (mmco_ops (hs_marking sl))) \<le> mi_size m \<and> mi_size m \<le> int (length (mi_ops m))"

definition reader_for :: "H264eSlice \<Rightarrow> H264eSlice \<Rightarrow> bool" where
  "reader_for sl x \<longleftrightarrow>
     hs_log2_max_frame_num x = hs_log2_max_frame_num sl \<and> hs_log2_max_poc_lsb x = hs_log2_max_poc_lsb sl \<and>
     hs_pic_order_cnt_type x = hs_pic_order_cnt_type sl \<and> hs_entropy_coding_mode x = hs_entropy_coding_mode sl \<and>
     ri_wr_cnt (hs_reorder x) = 0 \<and> 2 \<le> ri_size (hs_reorder x) \<and>
     ri_size (hs_reorder x) \<le> int (length (ri_ops (hs_reorder x))) \<and> marking_room sl (hs_marking x)"

text \<open>The fields a statement of the reader leaves as they are.\<close>

definition seen_refs :: "H264eRplmo \<Rightarrow> H264eSlice \<Rightarrow> H264eSlice \<Rightarrow> H264eSlice" where
  "seen_refs ops sl x =
     (if hs_slice_type sl \<noteq> H264_P_SLICE then x
      else case first_rplmo (hs_reorder sl) of
        None \<Rightarrow> x\<lparr>hs_num_ref_idx_override := hs_num_ref_idx_override sl, hs_ref_pic_list_modification_flag := 0\<rparr>
      | Some op \<Rightarrow> x\<lparr>hs_num_ref_idx_override := hs_num_ref_idx_override sl, hs_ref_pic_list_modification_flag := 1,
          hs_reorder := seen_reorder ops op (h264e_reorder_wr_rewind (hs_reorder x))\<rparr>)"

lemma flag_steps:
  assumes e: "element_ok (Fixed 1, v)" "element_ok (Fixed 1, f)"
  shows "steps sz (run_seq [rd_u 1 (\<lambda>v. hs_num_ref_idx_override_update (\<lambda>_. sint v)),
      rd_u 1 (\<lambda>v. hs_ref_pic_list_modification_flag_update (\<lambda>_. sint v))]) x (header_bits [(Fixed 1, v), (Fixed 1, f)])
     (x\<lparr>hs_num_ref_idx_override := v, hs_ref_pic_list_modification_flag := f\<rparr>)"
  apply (rule steps_eq)
    apply (rule steps_seq [OF steps_u [OF e(1)]], simp)
    apply (rule steps_seq [OF steps_u [OF e(2)]], simp)
    apply (rule steps_end)
   apply (simp add: header_bits_def)
  apply (simp add: element_value(1) [OF e(1)] element_value(1) [OF e(2)])
  done

lemma read_refs_steps:
  assumes wf: "list_all element_ok (ref_elems sl)" "reorder_wf (hs_reorder sl)"
    and x: "reader_for sl x" "hs_slice_type x = hs_slice_type sl"
  shows "steps sz (read_ref_lists (Suc (Suc n)) lo) x (header_bits (ref_elems sl)) (seen_refs (lo_ops lo) sl x)"
proof (cases "hs_slice_type sl = H264_P_SLICE")
  case False
  then show ?thesis
    using x by (simp add: steps_def read_ref_lists_def ref_elems_def seen_refs_def header_bits_def)
next
  case P: True
  define f :: int where "f = (if first_rplmo (hs_reorder sl) = None then 0 else 1)"
  let ?x1 = "x\<lparr>hs_num_ref_idx_override := hs_num_ref_idx_override sl, hs_ref_pic_list_modification_flag := f\<rparr>"
  let ?rd = "[rd_u 1 (\<lambda>v. hs_num_ref_idx_override_update (\<lambda>_. sint v)),
      rd_u 1 (\<lambda>v. hs_ref_pic_list_modification_flag_update (\<lambda>_. sint v))]"
  have e: "element_ok (Fixed 1, hs_num_ref_idx_override sl)" "element_ok (Fixed 1, f)"
    using wf(1) P by (simp_all add: ref_elems_def f_def)
  note two = flag_steps [OF e]
  have bits: "header_bits (ref_elems sl) = header_bits [(Fixed 1, hs_num_ref_idx_override sl), (Fixed 1, f)] @
      header_bits (tl (rplmo_elems (first_rplmo (hs_reorder sl))))"
    using P by (cases "first_rplmo (hs_reorder sl)") (simp_all add: ref_elems_def header_bits_def f_def)
  show ?thesis
    unfolding steps_def bits
  proof (intro allI impI)
    fix bt rest
    assume bt: "at_unit sz bt" "unit_feed.stream bt = (header_bits [(Fixed 1, hs_num_ref_idx_override sl), (Fixed 1, f)] @
      header_bits (tl (rplmo_elems (first_rplmo (hs_reorder sl))))) @ rest"
    obtain b1 where b1: "run_seq ?rd (x, bt) = Inr (?x1, b1)" "at_unit sz b1"
        "unit_feed.stream b1 = header_bits (tl (rplmo_elems (first_rplmo (hs_reorder sl)))) @ rest"
      using stepsD [OF two bt(1)] bt(2) by auto
    have run: "read_ref_lists (Suc (Suc n)) lo (x, bt) =
       (if f \<noteq> 0 then run_bind (read_rplmos (Suc (Suc n)) 0 (lo_ops lo) (h264e_reorder_wr_rewind (hs_reorder x)) b1)
          (\<lambda>(r, bt2). Inr (?x1\<lparr>hs_reorder := r\<rparr>, bt2)) else Inr (?x1, b1))"
      using P x(2) b1(1) by (simp add: read_ref_lists_def del: run_seq_fun run_seq.simps)
    show "\<exists>bt'. read_ref_lists (Suc (Suc n)) lo (x, bt) = Inr (seen_refs (lo_ops lo) sl x, bt') \<and>
       at_unit sz bt' \<and> unit_feed.stream bt' = rest"
    proof (cases "first_rplmo (hs_reorder sl)")
      case None
      then show ?thesis
        using run b1(2,3) P by (simp add: f_def seen_refs_def header_bits_def)
    next
      case (Some op)
      have "list_all element_ok (rplmo_elems (Some op))" "modification_of_pic_nums_idc op \<in> {0, 1, 2}"
        using wf P Some by (auto simp: ref_elems_def reorder_wf_def)
      then show ?thesis
        using read_rplmos_ok [OF b1(2), of op rest "h264e_reorder_wr_rewind (hs_reorder x)" n "lo_ops lo"]
          b1(3) x(1) run Some P
        by (auto simp: f_def seen_refs_def reader_for_def h264e_reorder_wr_rewind_def simp del: read_rplmos.simps)
    qed
  qed
qed

text \<open>The marking fields are read into the slice and into the marking object; the other fields stay.\<close>

definition with_marking :: "H264eSlice \<Rightarrow> int \<Rightarrow> int \<Rightarrow> int \<Rightarrow> H264eMarkingInfo \<Rightarrow> H264eSlice" where
  "with_marking x out lt ada m =
     x\<lparr>hs_no_output_of_prior_pics := out, hs_long_term_reference_flag := lt, hs_adaptive_ref_pic_buffering := ada,
       hs_marking := m\<rparr>"

lemma read_marking_ok:
  assumes bt: "at_unit sz bt" "unit_feed.stream bt = header_bits (marking_elems sl) @ rest"
    and wf: "list_all element_ok (marking_elems sl)" "marking_wf (hs_marking sl)"
    and x: "marking_room sl (hs_marking x)" "hs_nal_reference_idc x = hs_nal_reference_idc sl" "hs_nalu_type x = hs_nalu_type sl"
      "hs_idr_flag x = of_bool (hs_nalu_type sl = 5)"
    and n: "length (mmco_ops (hs_marking sl)) < n"
  shows "\<exists>out lt ada m bt'. read_marking n lo (x, bt) = Inr (with_marking x out lt ada m, bt') \<and>
    at_unit sz bt' \<and> unit_feed.stream bt' = rest \<and> marking_elems (with_marking x out lt ada m) = marking_elems sl"
proof -
  let ?m = "hs_marking sl" and ?xm = "hs_marking x"
  consider "hs_nal_reference_idc sl = 0" | "hs_nal_reference_idc sl \<noteq> 0" "hs_nalu_type sl = 5"
    | "hs_nal_reference_idc sl \<noteq> 0" "hs_nalu_type sl \<noteq> 5" by blast
  then show ?thesis
  proof cases
    case 1
    have "with_marking x (hs_no_output_of_prior_pics x) (hs_long_term_reference_flag x)
        (hs_adaptive_ref_pic_buffering x) ?xm = x"
      by (simp add: with_marking_def)
    with 1 bt x show ?thesis
      by (intro exI [of _ "hs_no_output_of_prior_pics x"] exI [of _ "hs_long_term_reference_flag x"]
          exI [of _ "hs_adaptive_ref_pic_buffering x"] exI [of _ ?xm] exI [of _ bt])
        (simp add: read_marking_def marking_elems_def header_bits_def)
  next
    case 2
    have e: "element_ok (Fixed 1, mi_no_output_of_prior_pics ?m)" "element_ok (Fixed 1, hs_long_term_reference_flag sl)"
      using wf(1) 2 by (simp_all add: marking_elems_def)
    let ?y = "with_marking x (mi_no_output_of_prior_pics ?m) (hs_long_term_reference_flag sl)
        (hs_adaptive_ref_pic_buffering x) (?xm\<lparr>mi_no_output_of_prior_pics := mi_no_output_of_prior_pics ?m,
          mi_long_term_reference_flag := hs_long_term_reference_flag sl\<rparr>)"
    have st: "steps sz (read_marking n lo) x (header_bits (marking_elems sl)) ?y"
      apply (rule steps_eq)
        apply (rule steps_cond [where c = True and k' = "run_seq
           [rd_u 1 (\<lambda>v sl. sl\<lparr>hs_no_output_of_prior_pics := sint v,
                            hs_marking := (hs_marking sl)\<lparr>mi_no_output_of_prior_pics := sint v\<rparr>\<rparr>),
            rd_u 1 (\<lambda>v sl. sl\<lparr>hs_long_term_reference_flag := sint v,
                            hs_marking := (hs_marking sl)\<lparr>mi_long_term_reference_flag := sint v\<rparr>\<rparr>)]"])
         apply (simp add: read_marking_def x 2)
        apply (rule steps_seq [OF steps_u [OF e(1)]], simp)
        apply (rule steps_seq [OF steps_u [OF e(2)]], simp)
        apply (rule steps_end)
       apply (simp add: header_bits_def marking_elems_def 2)
      apply (cases x)
      apply (simp add: element_value(1) [OF e(1)] element_value(1) [OF e(2)] with_marking_def)
      done
    obtain bt' where "read_marking n lo (x, bt) = Inr (?y, bt')" "at_unit sz bt'" "unit_feed.stream bt' = rest"
      using stepsD [OF st bt] by blast
    moreover have "marking_elems ?y = marking_elems sl"
      using x 2 by (simp add: marking_elems_def with_marking_def)
    ultimately show ?thesis by blast
  next
    case 3
    define f :: int where "f = (if mmco_ops ?m = [] then 0 else 1)"
    let ?upd = "\<lambda>v sl. sl\<lparr>hs_adaptive_ref_pic_buffering := sint (v :: u32),
        hs_marking := (hs_marking sl)\<lparr>mi_adaptive_ref_pic_buffering := sint v\<rparr>\<rparr>"
    let ?x1 = "with_marking x (hs_no_output_of_prior_pics x) (hs_long_term_reference_flag x) f
        (?xm\<lparr>mi_adaptive_ref_pic_buffering := f\<rparr>)"
    have e: "element_ok (Fixed 1, f)"
      by (simp add: f_def)
    have st: "steps sz (rd_u 1 ?upd) x (element_bits (Fixed 1, f)) ?x1"
      by (rule steps_eq [OF steps_u [OF e]], simp, simp, cases x)
        (simp add: element_value(1) [OF e, unfolded f_def] with_marking_def f_def)
    have bits: "header_bits (marking_elems sl) = element_bits (Fixed 1, f) @
        (if mmco_ops ?m = [] then [] else header_bits (concat (map mmco_elems (mmco_ops ?m)) @ [(Ue, 0)]))"
      using 3 by (simp add: marking_elems_def header_bits_def f_def)
    obtain b1 where b1: "rd_u 1 ?upd (x, bt) = Inr (?x1, b1)" "at_unit sz b1" "unit_feed.stream b1 =
        (if mmco_ops ?m = [] then [] else header_bits (concat (map mmco_elems (mmco_ops ?m)) @ [(Ue, 0)])) @ rest"
      using stepsD [OF st bt(1) bt(2) [unfolded bits append_assoc]] by blast
    have run: "read_marking n lo (x, bt) =
       (if f \<noteq> 0 then run_bind (read_mmcos n (lo_val lo) (lo_mmco lo) (lo_opt lo)
          (h264e_marking_wr_rewind (hs_marking ?x1)) b1) (\<lambda>(m, bt2). Inr (?x1\<lparr>hs_marking := m\<rparr>, bt2)) else Inr (?x1, b1))"
      using 3 x b1(1) by (simp add: read_marking_def with_marking_def)
    show ?thesis
    proof (cases "mmco_ops ?m = []")
      case True
      have "marking_elems ?x1 = marking_elems sl"
        using 3 True x by (simp add: marking_elems_def with_marking_def marking_room_def mmco_ops_def)
      moreover have "read_marking n lo (x, bt) = Inr (?x1, b1)" "unit_feed.stream b1 = rest"
        using run b1 True by (simp_all add: f_def)
      ultimately show ?thesis
        using b1(2) by blast
    next
      case False
      let ?em = "h264e_marking_wr_rewind (hs_marking ?x1)"
      have ops: "list_all (list_all element_ok \<circ> mmco_elems) (mmco_ops ?m)" "list_all (\<lambda>op. mmco op \<noteq> 0) (mmco_ops ?m)"
        using wf 3 False by (auto simp: marking_elems_def marking_wf_def list_all_iff)
      have m0: "mi_wr_cnt ?em = 0" "mmco_ops ?em = []" "mi_size ?em = mi_size ?xm" "mi_ops ?em = mi_ops ?xm"
        by (simp_all add: h264e_marking_wr_rewind_def mmco_ops_def with_marking_def)
      have "unit_feed.stream b1 = header_bits (concat (map mmco_elems (mmco_ops ?m)) @ [(Ue, 0)]) @ rest"
        using b1(3) False by simp
      then obtain m' bt' where m': "read_mmcos n (lo_val lo) (lo_mmco lo) (lo_opt lo) ?em b1 = Inr (m', bt')"
          "at_unit sz bt'" "unit_feed.stream bt' = rest" "mmco_ops m' = seen_mmcos (lo_opt lo) (mmco_ops ?m)"
        using read_mmcos_ok [OF b1(2) _ ops, of rest ?em n "lo_val lo" "lo_mmco lo" "lo_opt lo"] x(1) m0 n
        by (auto simp: marking_room_def)
      have "?x1\<lparr>hs_marking := m'\<rparr> = with_marking x (hs_no_output_of_prior_pics x) (hs_long_term_reference_flag x) f m'"
        by (simp add: with_marking_def)
      moreover have "marking_elems (with_marking x (hs_no_output_of_prior_pics x) (hs_long_term_reference_flag x) f m')
          = marking_elems sl"
        using 3 x False m'(4) by (simp add: marking_elems_def with_marking_def)
      ultimately show ?thesis
        using run m' False by (auto simp: f_def)
    qed
  qed
qed

section \<open>The written unit as a stream\<close>

lemma closed_escape:
  assumes L: "L = [] \<or> (\<exists>x. L = [x] \<and> x \<noteq> 3)" and ctx: "escape_ctx z a b"
  shows "unescape a b (escape z P @ L) = P @ L \<and> closed_bytes a b (escape z P @ L)"
  using ctx
proof (induction z P arbitrary: a b rule: escape.induct)
  case (1 z)
  show ?case
    using L by (auto simp: unescape_step closed_step)
next
  case (2 z x xs)
  show ?case
  proof (cases "z = 2 \<and> x < 4")
    case True
    with 2 escape_ctx_next(2) [where a = "0xff" and x = x] show ?thesis
      by (auto simp: escape_ctx_def [of 2] unescape_step closed_step)
  next
    case False
    moreover from False "2.prems" have "\<not> (x = 3 \<and> a = 0 \<and> b = 0)"
      by (auto simp: escape_ctx_def)
    ultimately show ?thesis
      using 2 escape_ctx_next(1) [OF "2.prems" False] by (auto simp: unescape_step closed_step)
  qed
qed

definition pad_bits :: "bool \<Rightarrow> bool list \<Rightarrow> bool list" where
  "pad_bits fill bs = (if bit_tail bs = [] then [] else replicate (8 - length (bit_tail bs)) fill)"

lemma byte_bits_tail: "byte_bits (bit_bytes bs @ tail_bytes fill bs) = bs @ pad_bits fill bs"
proof (cases "bit_tail bs = []")
  case True
  then show ?thesis
    using byte_bits_bit_bytes [of bs] by (simp add: tail_bytes_def pad_bits_def)
next
  case False
  let ?l = "bit_tail bs @ replicate (8 - length (bit_tail bs)) fill"
  have "length ?l = 8"
    using length_bit_tail [of bs] by simp
  then have "to_bits 8 (of_bits ?l :: u8) = ?l"
    using to_bits_of_bits [of ?l, where 'a = 8] by simp
  then show ?thesis
    using False byte_bits_bit_bytes [of bs] by (simp add: tail_bytes_def pad_bits_def flip: append_assoc)
qed

lemma unit_start:
  fixes sl :: H264eSlice and fill :: bool and bs :: "bool list"
  defines "u \<equiv> unit_bytes (start_code sl) fill bs"
  assumes mem: "take (length u) mem = u" "length u \<le> length mem"
    and small: "length u < 2 ^ 31" and nal: "nal_byte sl \<noteq> 0" and last: "tail_bytes fill bs \<noteq> [3]"
  shows "at_unit (length u) (h264_reader mem (int (length u)))"
    and "unit_feed.stream (h264_reader mem (int (length u))) = byte_bits (start_code sl) @ bs @ pad_bits fill bs"
proof -
  define r where "r = h264_reader mem (int (length u))"
  let ?L = "tail_bytes fill bs"
  have L: "?L = [] \<or> (\<exists>x. ?L = [x] \<and> x \<noteq> 3)"
    using last by (auto simp: tail_bytes_def)
  have r: "br_data r = 0" "bytes_left r = of_nat (length u)" "br_mem r = mem" "num_remaining_bits r = 0" "used_bits r = 0"
    "curr_byte r = 0" "prev_two_bytes r = 0xffff" "prevention_type r = PSEUDO_CODE_H264_H265"
    by (simp_all add: r_def h264_reader_def mpp_set_bitread_pseudo_code_type_def mpp_set_bitread_ctx_def)
  have n: "unat (of_nat (length u) :: u32) = length u"
    using small by (simp add: unsigned_of_nat take_bit_nat_eq_self)
  have ctx: "prev_hi r = 0xff" "prev_lo r = 0xff" and rest: "rest_bytes r = u"
    using mem n by (simp_all add: prev_hi_def prev_lo_def rest_bytes_def r)
  have "escape_ctx 0 1 (nal_byte sl)"
    using nal by (simp add: escape_ctx_def)
  then have esc: "unescape 0xff 0xff u = start_code sl @ bit_bytes bs @ ?L" "closed_bytes 0xff 0xff u"
    using closed_escape [OF L] nal by (simp_all add: u_def unit_bytes_def start_code_def unescape_step closed_step)
  have "unit_wf (length u) r"
    using esc(2) mem(2) n by (simp add: unit_wf_def mem_wf_def r ctx rest)
  then have "at_unit (length u) r"
    by (simp add: at_unit_def unit_feed.ready_def cur_wf_def bit_pos_def r)
  moreover have "h264_feed r = byte_bits (start_code sl @ bit_bytes bs @ ?L)"
    by (simp only: h264_feed_def ctx rest esc)
  then have "h264_feed r = byte_bits (start_code sl) @ bs @ pad_bits fill bs"
    by (simp only: byte_bits_append [of "start_code sl"] byte_bits_tail)
  then have "unit_feed.stream r = byte_bits (start_code sl) @ bs @ pad_bits fill bs"
    by (simp add: unit_feed.stream_def cur_bits_def r)
  ultimately show "at_unit (length u) (h264_reader mem (int (length u)))"
    "unit_feed.stream (h264_reader mem (int (length u))) = byte_bits (start_code sl) @ bs @ pad_bits fill bs"
    by (simp_all only: r_def)
qed

text \<open>
  The last byte is never a 3: without CABAC its lowest bit is 0, and with CABAC the two deblocking offsets
  put a 1 among the bits before the alignment.
\<close>

lemma offset_codes:
  assumes "a \<le> 12" and "b \<le> 12"
  shows "True \<in> set (take 6 (rev (ue_code a @ ue_code b)))"
    and "True \<in> set (drop 1 (take 7 (rev (ue_code a @ ue_code b))))"
proof -
  have "\<forall>a \<in> set [0..<13]. \<forall>b \<in> set [0..<13]. True \<in> set (take 6 (rev (ue_code a @ ue_code b))) \<and>
      True \<in> set (drop 1 (take 7 (rev (ue_code a @ ue_code b))))"
    by code_simp
  with assms show "True \<in> set (take 6 (rev (ue_code a @ ue_code b)))"
    "True \<in> set (drop 1 (take 7 (rev (ue_code a @ ue_code b))))"
    by (simp_all add: less_Suc_eq_le)
qed

lemma tail_not_three:
  assumes off: "\<bar>hs_slice_alpha_c0_offset_div2 sl\<bar> \<le> 6" "\<bar>hs_slice_beta_offset_div2 sl\<bar> \<le> 6"
  shows "tail_bytes fill (header_bits (slice_elems sl)) \<noteq> [3]"
proof
  let ?h = "header_bits (slice_elems sl)"
  let ?t = "bit_tail ?h"
  let ?l = "?t @ replicate (8 - length ?t) fill"
  assume "tail_bytes fill ?h = [3]"
  then have ne: "?t \<noteq> []" and three: "of_bits ?l = (3 :: u8)"
    by (auto simp: tail_bytes_def split: if_splits)
  have l8: "length ?l = 8"
    using length_bit_tail [of ?h] by simp
  have l: "?l = [False, False, False, False, False, False, True, True]"
  proof -
    have "?l = to_bits 8 (of_bits ?l :: u8)"
      using to_bits_of_bits [of ?l, where 'a = 8] l8 by simp
    also have "\<dots> = to_bits 8 (3 :: u8)"
      by (simp only: three)
    also have "\<dots> = [False, False, False, False, False, False, True, True]"
      by code_simp
    finally show ?thesis .
  qed
  define c where "c = ue_code (se_index (hs_slice_alpha_c0_offset_div2 sl)) @ ue_code (se_index (hs_slice_beta_offset_div2 sl))"
  have "\<exists>X. ?h = X @ c"
    by (auto simp: header_bits_def slice_elems_def tail_elems_def c_def)
  moreover obtain Y where "?h = Y @ ?t"
    by (metis byte_bits_bit_bytes)
  ultimately obtain X Y where hXY: "?h = X @ c" "?h = Y @ ?t" by blast
  have "se_index (hs_slice_alpha_c0_offset_div2 sl) \<le> 12" "se_index (hs_slice_beta_offset_div2 sl) \<le> 12"
    using off by (auto simp: se_index_def nat_le_iff)
  note codes = offset_codes [OF this, folded c_def]
  have sub: "set (take k (rev c)) \<subseteq> set (take k (rev ?h))" "set (drop 1 (take k (rev c))) \<subseteq> set (drop 1 (take k (rev ?h)))" for k
    unfolding hXY(1) by auto
  have pre: "take k (rev ?h) = rev ?t" if "k = length ?t" for k
    unfolding that by (subst hXY(2)) simp
  have len: "0 < length ?t" "length ?t < 8"
    using ne length_bit_tail [of ?h] by simp_all
  have lt: "?t = take (length ?t) [False, False, False, False, False, False, True, True]"
    unfolding l [symmetric] by simp
  have rep: "replicate (8 - length ?t) fill = drop (length ?t) [False, False, False, False, False, False, True, True]"
    unfolding l [symmetric] by simp
  consider "length ?t \<le> 5" | "length ?t = 6" | "length ?t = 7"
    using len by linarith
  then show False
  proof cases
    case 1
    have "\<forall>k \<in> set [0..<6]. \<forall>f. replicate (8 - k) f \<noteq> drop k [False, False, False, False, False, False, True, True]"
      by code_simp
    with 1 rep show False by auto
  next
    case 2
    then have "rev ?t = replicate 6 False"
      by (subst lt) (simp add: numeral_eq_Suc)
    with pre [of 6] 2 sub(1) [of 6] codes(1) show False by auto
  next
    case 3
    then have "drop 1 (rev ?t) = replicate 6 False"
      by (subst lt) (simp add: numeral_eq_Suc)
    with pre [of 7] 3 sub(2) [of 7] codes(2) show False by auto
  qed
qed

end
