(* ===== verification/Mpp_Slice_Props.thy ===== *)
theory Mpp_Slice_Props
  imports Mpp_Slice_Read
begin

text \<open>
  What holds of the slice headers: the reader recovers what the writer wrote, bit count included, and
  what is lost of the list of reordering operations.
\<close>

section \<open>The whole reader on a written header\<close>

lemma read_nal_steps:
  assumes "slice_wf sl"
  shows "steps sz read_nal_header x (byte_bits (start_code sl)) (seen_nal sl x)"
  unfolding steps_def
proof (intro allI impI)
  fix bt rest
  assume bt: "at_unit sz bt" "unit_feed.stream bt = byte_bits (start_code sl) @ rest"
  have e: "element_ok (Fixed 1, 0)" "element_ok (Fixed 2, hs_nal_reference_idc sl)" "element_ok (Fixed 5, hs_nalu_type sl)"
    using assms by (simp_all add: slice_wf_def)
  let ?b = "to_bits 24 (0 :: u32) @ to_bits 8 (1 :: u32)"
  have bits: "byte_bits (start_code sl) = ?b @ header_bits [(Fixed 1, 0), (Fixed 2, hs_nal_reference_idc sl), (Fixed 5, hs_nalu_type sl)]"
    using assms unfolding nal_fields_bits [OF assms, symmetric]
    by (simp add: field_bits_def nal_fields_def header_bits_def slice_wf_def)
  obtain v b1 where b1: "mpp_read_longbits bt 32 0 = Inr (MPP_OK, v, b1)" "unit_feed.ready sz b1"
      "unit_feed.stream b1 = header_bits [(Fixed 1, 0), (Fixed 2, hs_nal_reference_idc sl), (Fixed 5, hs_nalu_type sl)] @ rest"
    using unit_feed.read_longbits_32_ok [of sz bt 0] bt by (auto simp: at_unit_def bits)
  have at1: "at_unit sz b1"
    using b1 bt(1) read_longbits_pos [OF b1(1) at_unit_h264 [OF bt(1)]] by (simp add: at_unit_def)
  have st: "steps sz (run_seq [rd_u 1 (\<lambda>v sl. sl), rd_u 2 (\<lambda>v. hs_nal_reference_idc_update (\<lambda>_. sint v)),
      rd_u 5 (\<lambda>v. hs_nalu_type_update (\<lambda>_. sint v))]) x
      (header_bits [(Fixed 1, 0), (Fixed 2, hs_nal_reference_idc sl), (Fixed 5, hs_nalu_type sl)]) (seen_nal sl x)"
    apply (rule steps_eq)
      apply (rule steps_seq [OF steps_u [OF e(1)]], simp)
      apply (rule steps_seq [OF steps_u [OF e(2)]], simp)
      apply (rule steps_seq [OF steps_u [OF e(3)]], simp)
      apply (rule steps_end)
     apply (simp add: header_bits_def)
    apply (simp add: seen_nal_def element_value(1) [OF e(2)] element_value(1) [OF e(3)])
    done
  show "\<exists>bt'. read_nal_header (x, bt) = Inr (seen_nal sl x, bt') \<and> at_unit sz bt' \<and> unit_feed.stream bt' = rest"
    using stepsD [OF st at1 b1(3)] b1(1) by (simp add: read_nal_header_def del: run_seq_fun run_seq.simps)
qed

lemma read_align_ok:
  assumes bt: "at_unit sz bt" "length (unit_feed.stream bt) < 8"
  shows "\<exists>bt'. read_slice_align (x, bt) = Inr (x, bt') \<and>
    used_bits bt' = 8 * int sz - (if hs_entropy_coding_mode x \<noteq> 0 then 0 else int (length (unit_feed.stream bt)))"
proof (cases "hs_entropy_coding_mode x \<noteq> 0 \<and> unit_feed.stream bt \<noteq> []")
  case True
  note pos = used_bits_at_end [OF bt]
  obtain v bt' where bt': "mpp_read_bits bt (num_remaining_bits bt) = Inr (MPP_OK, v, bt')" "unit_feed.ready sz bt'"
      "unit_feed.stream bt' = []"
    using unit_feed.read_bits_ok [of sz bt "num_remaining_bits bt"] bt pos(2) by (auto simp: at_unit_def)
  moreover have "at_unit sz bt'"
    using bt' bt(1) read_bits_pos [OF bt'(1) at_unit_h264 [OF bt(1)]] by (simp add: at_unit_def)
  ultimately show ?thesis
    using used_bits_at_end [of sz bt'] True pos(2) by (simp add: read_slice_align_def)
next
  case False
  then show ?thesis
    using used_bits_at_end [OF bt] by (auto simp: read_slice_align_def)
qed

lemma nal_byte_nonzero: "slice_wf sl \<Longrightarrow> nal_byte sl \<noteq> 0"
proof
  assume wf: "slice_wf sl" and z: "nal_byte sl = 0"
  let ?v = "hs_nal_reference_idc sl * 32 + hs_nalu_type sl"
  have "uint (word_of_int ?v :: u8) = ?v"
    using wf by (subst uint_word_of_int_eq) (simp add: slice_wf_def take_bit_int_eq_self)
  with z wf show False
    by (simp add: nal_byte_def slice_wf_def)
qed

lemma seen_op_elems: "rplmo_elems (map_option (seen_op ops) o1) = rplmo_elems o1"
  by (cases o1) (auto simp: seen_op_def)

lemma written_elems:
  fixes y :: H264eSlice
  assumes "hs_log2_max_frame_num x = hs_log2_max_frame_num sl" "hs_log2_max_poc_lsb x = hs_log2_max_poc_lsb sl"
    "hs_pic_order_cnt_type x = hs_pic_order_cnt_type sl" "hs_entropy_coding_mode x = hs_entropy_coding_mode sl"
    and ok: "list_all element_ok (id_elems sl)" and fresh: "ri_wr_cnt (hs_reorder x) = 0" "2 \<le> length (ri_ops (hs_reorder x))"
    and mark: "marking_elems (with_marking (seen_refs ops sl (seen_ids sl (seen_nal sl x))) out lt ada m) = marking_elems sl"
  defines "y \<equiv> seen_tail sl (with_marking (seen_refs ops sl (seen_ids sl (seen_nal sl x))) out lt ada m)"
  shows "slice_elems y = slice_elems sl" and "nal_byte y = nal_byte sl"
proof -
  let ?z = "seen_refs ops sl (seen_ids sl (seen_nal sl x))"
  have z: "hs_log2_max_frame_num ?z = hs_log2_max_frame_num sl" "hs_log2_max_poc_lsb ?z = hs_log2_max_poc_lsb sl"
    "hs_pic_order_cnt_type ?z = hs_pic_order_cnt_type sl" "hs_entropy_coding_mode ?z = hs_entropy_coding_mode sl"
    "hs_nalu_type ?z = hs_nalu_type sl" "hs_nal_reference_idc ?z = hs_nal_reference_idc sl"
    "hs_slice_type ?z = hs_slice_type sl" "hs_first_mb_in_slice ?z = hs_first_mb_in_slice sl"
    "hs_pic_parameter_set_id ?z = hs_pic_parameter_set_id sl" "hs_frame_num ?z = hs_frame_num sl"
    "hs_nalu_type sl = 5 \<Longrightarrow> hs_idr_pic_id ?z = hs_idr_pic_id sl"
    "hs_pic_order_cnt_type sl = 0 \<Longrightarrow> hs_pic_order_cnt_lsb ?z = word_of_int (masked_poc_lsb sl)"
    using assms(1-4) by (simp_all add: seen_refs_def seen_ids_def seen_nal_def split: option.split)
  have poc: "masked_poc_lsb ?z = masked_poc_lsb sl" if "hs_pic_order_cnt_type sl = 0"
  proof -
    have e: "element_ok (Fixed (nat (hs_log2_max_poc_lsb sl)), masked_poc_lsb sl)"
      using ok that by (simp add: id_elems_def split: if_splits)
    then show ?thesis
      using element_value(1) [OF e] by (simp add: masked_poc_lsb_def [of ?z] z that push_bit_eq_mult)
  qed
  have ids: "id_elems y = id_elems sl"
    using z poc by (simp add: id_elems_def y_def seen_tail_def with_marking_def masked_poc_lsb_def cong: if_cong)
  have refs: "ref_elems y = ref_elems sl"
  proof (cases "hs_slice_type sl = H264_P_SLICE")
    case True
    have "first_rplmo (hs_reorder ?z) = map_option (seen_op ops) (first_rplmo (hs_reorder sl))"
    proof (cases "first_rplmo (hs_reorder sl)")
      case None
      then show ?thesis
        using True fresh by (simp add: seen_refs_def seen_ids_def seen_nal_def first_rplmo_def [of "hs_reorder x"])
    next
      case (Some op)
      have "0 < length (ri_ops (hs_reorder x))"
        using fresh(2) by linarith
      with Some True show ?thesis
        by (simp add: seen_refs_def seen_ids_def seen_nal_def seen_reorder_def h264e_reorder_wr_rewind_def)
          (simp add: first_rplmo_def)
    qed
    moreover have "hs_num_ref_idx_override ?z = hs_num_ref_idx_override sl"
      using True by (simp add: seen_refs_def split: option.split)
    ultimately show ?thesis
      using z by (simp add: ref_elems_def y_def seen_tail_def with_marking_def seen_op_elems)
  next
    case False
    then show ?thesis
      using z by (simp add: ref_elems_def y_def seen_tail_def with_marking_def)
  qed
  have "marking_elems y = marking_elems (with_marking ?z out lt ada m)"
    by (simp add: marking_elems_def y_def seen_tail_def)
  moreover have "tail_elems y = tail_elems sl"
    using z by (simp add: tail_elems_def y_def seen_tail_def with_marking_def)
  ultimately show "slice_elems y = slice_elems sl"
    using ids refs mark by (simp add: slice_elems_def)
  show "nal_byte y = nal_byte sl"
    using z by (simp add: nal_byte_def y_def seen_tail_def with_marking_def)
qed

section \<open>The round trip\<close>

lemma slice_bits_bytes: "(slice_bits sl + 7) div 8 = length (slice_unit sl)"
proof (cases "slice_fill sl \<or> bit_tail (header_bits (slice_elems sl)) = []")
  case True
  then show ?thesis
    by (simp add: slice_bits_def unit_bits_def slice_unit_def)
next
  case False
  let ?t = "length (bit_tail (header_bits (slice_elems sl)))" and ?n = "length (slice_unit sl)"
  have "0 < ?t" "?t < 8"
    using False length_bit_tail by simp_all
  moreover have "0 < ?n"
    by (simp add: slice_unit_def unit_bytes_def start_code_def)
  moreover have "slice_bits sl = 8 * ?n - (8 - ?t)"
    using False by (simp add: slice_bits_def unit_bits_def slice_unit_def)
  ultimately have "slice_bits sl + 7 = ?n * 8 + (?t - 1)" "?t - 1 < 8"
    by arith+
  then show ?thesis
    by (simp add: div_nat_eqI)
qed

text \<open>The fields of the encoder are in their ranges; the deblocking offsets have the range of the standard.\<close>

definition slice_ok :: "H264eSlice \<Rightarrow> bool" where
  "slice_ok sl \<longleftrightarrow> slice_wf sl \<and>
     \<bar>hs_slice_alpha_c0_offset_div2 sl\<bar> \<le> 6 \<and> \<bar>hs_slice_beta_offset_div2 sl\<bar> \<le> 6"

text \<open>
  What the reader holds of the list of reordering operations: of a P slice the first operation, read over
  what the local \<open>ops\<close> held, and behind it the terminator, which the reader stores like an operation. The
  writer writes no other operation of the list.
\<close>

definition reorder_ops :: "H264eReorderInfo \<Rightarrow> H264eRplmo list" where
  "reorder_ops r = take (nat (ri_wr_cnt r)) (ri_ops r)"

definition kept_reorder :: "H264eRplmo \<Rightarrow> H264eSlice \<Rightarrow> H264eRplmo list" where
  "kept_reorder ops sl =
     (if hs_slice_type sl \<noteq> H264_P_SLICE then []
      else case reorder_ops (hs_reorder sl) of
        [] \<Rightarrow> []
      | op # rest \<Rightarrow> [seen_op ops op, rplmo_zero\<lparr>modification_of_pic_nums_idc := 3\<rparr>])"

lemma kept_reorder_seen:
  assumes "reader_for sl x" and "reorder_wf (hs_reorder sl)"
  shows "reorder_ops (hs_reorder (seen_refs ops sl x)) = kept_reorder ops sl"
proof -
  have room: "ri_wr_cnt (hs_reorder x) = 0" "2 \<le> length (ri_ops (hs_reorder x))"
    using assms(1) by (auto simp: reader_for_def)
  have none: "reorder_ops (hs_reorder sl) = []" if "first_rplmo (hs_reorder sl) = None"
    using that by (simp add: first_rplmo_def reorder_ops_def split: if_splits)
  have some: "\<exists>rest. reorder_ops (hs_reorder sl) = op # rest" if "first_rplmo (hs_reorder sl) = Some op" for op
  proof -
    have c: "0 < nat (ri_wr_cnt (hs_reorder sl))" "op = ri_ops (hs_reorder sl) ! 0"
      using that by (auto simp: first_rplmo_def split: if_splits)
    moreover have "ri_ops (hs_reorder sl) \<noteq> []"
      using assms(2) c(1) by (auto simp: reorder_wf_def)
    ultimately show ?thesis
      by (cases "ri_ops (hs_reorder sl)"; cases "nat (ri_wr_cnt (hs_reorder sl))") (simp_all add: reorder_ops_def)
  qed
  obtain a b cs where abc: "ri_ops (hs_reorder x) = a # b # cs"
    using room(2) by (metis Suc_le_length_iff numeral_2_eq_2)
  show ?thesis
  proof (cases "hs_slice_type sl = H264_P_SLICE")
    case False
    then show ?thesis
      using room by (simp add: seen_refs_def kept_reorder_def reorder_ops_def)
  next
    case True
    show ?thesis
    proof (cases "first_rplmo (hs_reorder sl)")
      case None
      then show ?thesis
        using True none room by (simp add: seen_refs_def kept_reorder_def reorder_ops_def [of "hs_reorder x"])
    next
      case (Some op)
      then obtain rest where "reorder_ops (hs_reorder sl) = op # rest"
        using some by blast
      then have "kept_reorder ops sl = [seen_op ops op, rplmo_zero\<lparr>modification_of_pic_nums_idc := 3\<rparr>]"
        using True by (simp add: kept_reorder_def)
      moreover have "reorder_ops (hs_reorder (seen_refs ops sl x)) = [seen_op ops op, rplmo_zero\<lparr>modification_of_pic_nums_idc := 3\<rparr>]"
        using True Some abc by (simp add: seen_refs_def seen_reorder_def h264e_reorder_wr_rewind_def reorder_ops_def)
      ultimately show ?thesis by simp
    qed
  qed
qed

text \<open>
  Both slices write the same header: the same unit byte and the same syntax elements, among them all
  marking operations, and the first reordering operation.
\<close>

definition same_header :: "H264eSlice \<Rightarrow> H264eSlice \<Rightarrow> bool" where
  "same_header sl sl' \<longleftrightarrow> nal_byte sl' = nal_byte sl \<and> slice_elems sl' = slice_elems sl"

lemma read_written:
  assumes sl: "slice_ok sl" and x: "reader_for sl x" and small: "length (slice_unit sl) < 2 ^ 27"
    and mem: "take (length (slice_unit sl)) mem = slice_unit sl" "length (slice_unit sl) \<le> length mem"
    and fuel: "2 \<le> n" "length (mmco_ops (hs_marking sl)) < n"
  shows "\<exists>y. h264e_slice_read n lo x mem (int (length (slice_unit sl))) = Inr (int (slice_bits sl), y) \<and> same_header sl y \<and>
    reorder_ops (hs_reorder y) = kept_reorder (lo_ops lo) sl"
proof -
  let ?n = "length (slice_unit sl)" and ?h = "header_bits (slice_elems sl)"
  let ?r = "h264_reader mem (int ?n)"
  let ?pad = "pad_bits (slice_fill sl) ?h"
  have wf: "slice_wf sl" "list_all element_ok (id_elems sl)" "list_all element_ok (ref_elems sl)"
    "list_all element_ok (marking_elems sl)" "list_all element_ok (tail_elems sl)" "reorder_wf (hs_reorder sl)"
    "marking_wf (hs_marking sl)"
    using sl by (simp_all add: slice_ok_def slice_wf_def slice_elems_def)
  have fill: "slice_fill sl \<longleftrightarrow> hs_entropy_coding_mode sl \<noteq> 0"
    by (simp add: slice_fill_def)
  have nal: "nal_byte sl \<noteq> 0"
    using wf(1) nal_byte_nonzero by blast
  have "tail_bytes (slice_fill sl) ?h \<noteq> [3]"
    using tail_not_three sl by (simp add: slice_ok_def)
  with unit_start [OF mem [unfolded slice_unit_def] _ nal, folded slice_unit_def] small have start: "at_unit ?n ?r"
    "unit_feed.stream ?r = byte_bits (start_code sl) @ ?h @ ?pad"
    by simp_all
  have bits: "?h = header_bits (id_elems sl) @ header_bits (ref_elems sl) @ header_bits (marking_elems sl) @ header_bits (tail_elems sl)"
    by (simp add: slice_elems_def header_bits_def)
  obtain k where k: "n = Suc (Suc k)"
    using fuel(1) by (metis add_2_eq_Suc le_Suc_ex)
  define x1 x2 x3 where "x1 = seen_nal sl x" and "x2 = seen_ids sl x1" and "x3 = seen_refs (lo_ops lo) sl x2"
  have x1: "hs_log2_max_frame_num x1 = hs_log2_max_frame_num sl" "hs_log2_max_poc_lsb x1 = hs_log2_max_poc_lsb sl"
    "hs_pic_order_cnt_type x1 = hs_pic_order_cnt_type sl" "hs_nalu_type x1 = hs_nalu_type sl"
    "0 \<le> hs_log2_max_frame_num sl" "hs_pic_order_cnt_type sl = 0 \<longrightarrow> 0 \<le> hs_log2_max_poc_lsb sl"
    using x wf(1) by (simp_all add: x1_def seen_nal_def reader_for_def slice_wf_def)
  have x2: "reader_for sl x2" "hs_slice_type x2 = hs_slice_type sl"
    using x by (simp_all add: x1_def x2_def seen_nal_def seen_ids_def reader_for_def)
  have x3: "marking_room sl (hs_marking x3)" "hs_nal_reference_idc x3 = hs_nal_reference_idc sl"
    "hs_nalu_type x3 = hs_nalu_type sl" "hs_idr_flag x3 = of_bool (hs_nalu_type sl = 5)"
    "hs_entropy_coding_mode x3 = hs_entropy_coding_mode sl" "hs_slice_type x3 = hs_slice_type sl"
    using x by (simp_all add: x1_def x2_def x3_def seen_nal_def seen_ids_def seen_refs_def reader_for_def split: option.split)
  note st [unfolded bits append_assoc] = start(2)
  obtain b1 where b1: "read_nal_header (x, ?r) = Inr (x1, b1)" "at_unit ?n b1" "unit_feed.stream b1 = ?h @ ?pad"
    using stepsD [OF read_nal_steps [OF wf(1)] start] unfolding x1_def by blast
  obtain b2 where b2: "read_slice_ids (x1, b1) = Inr (x2, b2)" "at_unit ?n b2"
      "unit_feed.stream b2 = header_bits (ref_elems sl) @ header_bits (marking_elems sl) @ header_bits (tail_elems sl) @ ?pad"
    using stepsD [OF read_ids_steps [OF wf(2) x1] b1(2) b1(3) [unfolded bits append_assoc]] unfolding x2_def bits by blast
  obtain b3 where b3: "read_ref_lists n lo (x2, b2) = Inr (x3, b3)" "at_unit ?n b3"
      "unit_feed.stream b3 = header_bits (marking_elems sl) @ header_bits (tail_elems sl) @ ?pad"
    using stepsD [OF read_refs_steps [OF wf(3,6) x2] b2(2,3)] unfolding k x3_def by blast
  obtain out lt ada m b4 where b4: "read_marking n lo (x3, b3) = Inr (with_marking x3 out lt ada m, b4)" "at_unit ?n b4"
      "unit_feed.stream b4 = header_bits (tail_elems sl) @ ?pad"
    and mark: "marking_elems (with_marking x3 out lt ada m) = marking_elems sl"
    using read_marking_ok [OF b3(2,3) wf(4,7) x3(1-4) fuel(2)] by blast
  let ?x4 = "with_marking x3 out lt ada m"
  have x4: "hs_entropy_coding_mode ?x4 = hs_entropy_coding_mode sl" "hs_slice_type ?x4 = hs_slice_type sl"
    using x3 by (simp_all add: with_marking_def)
  obtain b5 where b5: "read_slice_tail (?x4, b4) = Inr (seen_tail sl ?x4, b5)" "at_unit ?n b5" "unit_feed.stream b5 = ?pad"
    using stepsD [OF read_tail_steps [OF wf(5) x4] b4(2,3)] by blast
  have pad: "length ?pad < 8" "length ?pad = (if bit_tail ?h = [] then 0 else 8 - length (bit_tail ?h))"
    by (simp_all add: pad_bits_def)
  obtain b6 where b6: "read_slice_align (seen_tail sl ?x4, b5) = Inr (seen_tail sl ?x4, b6)"
      "used_bits b6 = 8 * int ?n - (if hs_entropy_coding_mode sl \<noteq> 0 then 0 else int (length ?pad))"
    using read_align_ok [OF b5(2), of "seen_tail sl ?x4"] b5(3) pad(1) x4 by (auto simp: seen_tail_def)
  have "used_bits b6 = int (slice_bits sl)"
    using b6(2) pad(2) by (auto simp: slice_bits_def unit_bits_def slice_unit_def fill of_nat_diff unit_bytes_def tail_bytes_def)
  moreover have "h264e_slice_read n lo x mem (int ?n) = Inr (used_bits b6, seen_tail sl ?x4)"
    using b1(1) b2(1) b3(1) b4(1) b5(1) b6(1) by (simp add: h264e_slice_read_def h264_reader_def)
  moreover have "same_header sl (seen_tail sl ?x4)"
    using written_elems [of x sl "lo_ops lo" out lt ada m] x wf(2) mark
    by (simp add: same_header_def x3_def x2_def x1_def reader_for_def)
  moreover have "reorder_ops (hs_reorder (seen_tail sl ?x4)) = kept_reorder (lo_ops lo) sl"
    using kept_reorder_seen [OF x2(1) wf(6), of "lo_ops lo"] by (simp add: seen_tail_def with_marking_def x3_def)
  ultimately show ?thesis by auto
qed

text \<open>
  C2: for every slice whose fields are in their ranges, in CAVLC and in CABAC mode: \<open>h264e_slice_write\<close>
  writes the header into a buffer of
  three halves of its bits without a fault, and \<open>h264e_slice_read\<close> of the written bytes, by a reader with
  the configuration of the stream and empty lists, ends, returns the same number of bits and holds the same
  unit byte and the same syntax elements, with every marking operation of the list. The list of reordering
  operations is not recovered: of a P slice with such operations the reader holds the first one and the
  terminator stored as a second operation, whatever else the list of the writer contains.
\<close>

theorem slice_header_roundtrip:
  assumes "slice_ok sl" and "reader_for sl x"
    and "unat sz \<le> length mem" and "unat sz < 2 ^ 27"
    and "12 + 3 * (length (header_bits (slice_elems sl)) div 8) \<le> 2 * unat sz"
    and "2 \<le> n" and "length (mmco_ops (hs_marking sl)) < n"
  shows "\<exists>bits sl1 mem1 y. h264e_slice_write sl mem sz = Inr (bits, sl1, mem1) \<and>
    h264e_slice_read n lo x mem1 ((bits + 7) div 8) = Inr (bits, y) \<and> same_header sl y \<and>
    reorder_ops (hs_reorder y) = kept_reorder (lo_ops lo) sl"
proof -
  have wf: "slice_wf sl"
    using assms(1) by (simp add: slice_ok_def)
  have room: "length (slice_unit sl) \<le> unat sz"
    using length_slice_unit [of sl] assms(5) by linarith
  obtain mem1 where w: "h264e_slice_write sl mem sz = Inr (int (slice_bits sl), written_slice sl, mem1)"
      "take (length (slice_unit sl)) mem1 = slice_unit sl" "length (slice_unit sl) \<le> length mem1"
    using h264e_slice_write_ok [OF wf assms(3,4) room] by blast
  have small: "length (slice_unit sl) < 2 ^ 27"
    using room assms(4) by linarith
  have bytes: "(int (slice_bits sl) + 7) div 8 = int (length (slice_unit sl))"
    using slice_bits_bytes [of sl] by simp
  obtain y where "h264e_slice_read n lo x mem1 (int (length (slice_unit sl))) = Inr (int (slice_bits sl), y)"
      "same_header sl y" "reorder_ops (hs_reorder y) = kept_reorder (lo_ops lo) sl"
    using read_written [OF assms(1,2) small w(2,3) assms(6,7)] by blast
  with w(1) bytes show ?thesis by auto
qed

definition demo_reorder :: H264eReorderInfo where
  "demo_reorder = h264e_reorder_init \<lparr>ri_rd_cnt = 0, ri_wr_cnt = 0, ri_size = 0, ri_ops = replicate 16 rplmo_zero\<rparr>"

definition demo_marking :: H264eMarkingInfo where
  "demo_marking = h264e_marking_init
     \<lparr>mi_idr_flag = 0, mi_no_output_of_prior_pics = 0, mi_long_term_reference_flag = 0,
      mi_adaptive_ref_pic_buffering = 0, mi_rd_cnt = 0, mi_wr_cnt = 0, mi_size = 0, mi_ops = replicate 8 mmco_zero\<rparr>"

definition demo_reader :: H264eSlice where
  "demo_reader = (h264e_slice_init demo_reorder demo_marking)
     \<lparr>hs_log2_max_frame_num := 4, hs_log2_max_poc_lsb := 6, hs_entropy_coding_mode := 1\<rparr>"

text \<open>A P slice with two reordering operations, the second of which is lost, and two marking operations.\<close>

definition demo_slice :: H264eSlice where
  "demo_slice = demo_reader
     \<lparr>hs_nal_reference_idc := 2, hs_nalu_type := 1, hs_frame_num := 7, hs_pic_order_cnt_lsb := 14, hs_qp_delta := - 5,
      hs_slice_beta_offset_div2 := 2,
      hs_reorder := demo_reorder\<lparr>ri_wr_cnt := 2,
        ri_ops := [rplmo_zero\<lparr>modification_of_pic_nums_idc := 2, long_term_pic_idx := 1\<rparr>,
                   rplmo_zero\<lparr>abs_diff_pic_num_minus1 := 3\<rparr>]\<rparr>,
      hs_marking := demo_marking\<lparr>mi_wr_cnt := 2,
        mi_ops := [mmco_zero\<lparr>mmco := 3, difference_of_pic_nums_minus1 := 4, long_term_frame_idx := 1\<rparr>,
                   mmco_zero\<lparr>mmco := 4, max_long_term_frame_idx_plus1 := 2\<rparr>]\<rparr>\<rparr>"

definition demo_locals :: slice_read_locals where
  "demo_locals = \<lparr>lo_ops = rplmo_zero, lo_mmco = 0, lo_opt = mmco_zero, lo_val = 0\<rparr>"

theorem slice_header_roundtrip_witness:
  "\<exists>bits sl1 mem1 y. h264e_slice_write demo_slice (replicate 64 0) 64 = Inr (bits, sl1, mem1) \<and>
    h264e_slice_read 3 demo_locals demo_reader mem1 ((bits + 7) div 8) = Inr (bits, y) \<and> same_header demo_slice y \<and>
    reorder_ops (hs_reorder y) = kept_reorder (lo_ops demo_locals) demo_slice"
proof (rule slice_header_roundtrip)
  show "slice_ok demo_slice" by code_simp
  show "reader_for demo_slice demo_reader" by code_simp
  show "12 + 3 * (length (header_bits (slice_elems demo_slice)) div 8) \<le> 2 * unat (64 :: u32)" by code_simp
  show "length (mmco_ops (hs_marking demo_slice)) < 3" by code_simp
qed simp_all

end
