(* ===== verification/Mpp_Slice_Faults.thy ===== *)
theory Mpp_Slice_Faults
  imports Mpp_Slice_Props
begin

text \<open>
  Where the slice header code does not do what it means to: a header that ends inside a list of operations,
  a carry of the arithmetic coder into a byte already written, and the last byte of moved slice data.
\<close>

section \<open>A header that ends too early\<close>

text \<open>No bit is left.\<close>

definition starved :: "BitReadCtx \<Rightarrow> bool" where
  "starved bt \<longleftrightarrow> num_remaining_bits bt = 0 \<and> bytes_left bt = 0 \<and> prevention_type bt = PSEUDO_CODE_H264_H265"

lemma starved_read_ue:
  assumes "starved bt"
  shows "mpp_read_ue bt v = Inr (MPP_ERR_READ_BIT, v, bt)"
proof -
  have "update_curbyte bt = Inr (MPP_ERR_READ_BIT, bt)"
    using assms by (simp add: update_curbyte_defs starved_def)
  then have "mpp_read_bits bt 1 = Inr (MPP_ERR_READ_BIT, ucast (push_bit 1 (curr_byte bt)), bt)"
    using assms by (simp add: mpp_read_bits_def read_bits_loop.simps starved_def)
  then show ?thesis
    by (simp add: mpp_read_ue_def ue_prefix_loop.simps [of bt])
qed

lemma read_rplmos_starved:
  assumes "starved bt" and "idc \<noteq> 3" and "0 \<le> ri_wr_cnt r" and "ri_size r \<le> int (length (ri_ops r))"
  shows "read_rplmos n idc ops r bt = Inl Out_Of_Fuel"
  using assms
proof (induction n arbitrary: ops r)
  case (Suc n)
  have args: "\<exists>ops1. read_rplmo_args idc ops2 bt = Inr (ops1, bt)" for ops2
    by (auto simp: read_rplmo_args_def starved_read_ue [OF Suc.prems(1)])
  have "\<exists>ret r1. h264e_reorder_wr_op r x = Inr (ret, r1) \<and> 0 \<le> ri_wr_cnt r1 \<and> ri_size r1 \<le> int (length (ri_ops r1))" for x
    using Suc.prems(3,4) by (auto simp: h264e_reorder_wr_op_def)
  then show ?case
    using Suc args by (fastforce simp: starved_read_ue run_bind_Inl_iff split: if_splits)
qed simp

lemma read_mmcos_starved:
  assumes "starved bt" and "c \<noteq> 0" and "0 \<le> mi_wr_cnt m" and "mi_size m \<le> int (length (mi_ops m))"
  shows "read_mmcos n val0 c opt m bt = Inl Out_Of_Fuel"
  using assms
proof (induction n arbitrary: opt m)
  case (Suc n)
  have arg: "\<exists>o2. read_mmco_arg p val0 upd (o1, bt) = Inr (o2, bt)" for p upd o1
    by (auto simp: read_mmco_arg_def starved_read_ue [OF Suc.prems(1)])
  obtain o1 where args: "read_mmco_args c val0 (opt\<lparr>mmco := sint c\<rparr>, bt) = Inr (o1, bt)"
    using arg by (simp add: read_mmco_args_def run_bind_Inr_iff) metis
  have "\<exists>ret m1. h264e_marking_wr_op m o1 = Inr (ret, m1) \<and> 0 \<le> mi_wr_cnt m1 \<and> mi_size m1 \<le> int (length (mi_ops m1))"
    using Suc.prems(3,4) by (auto simp: h264e_marking_wr_op_def)
  then obtain ret m1 where "h264e_marking_wr_op m o1 = Inr (ret, m1)" "0 \<le> mi_wr_cnt m1" "mi_size m1 \<le> int (length (mi_ops m1))"
    by blast
  with Suc.IH [of m1 mmco_zero] Suc.prems args show ?case
    by (simp add: starved_read_ue)
qed simp

lemma starved_at_end:
  assumes "at_unit sz bt" and "unit_feed.stream bt = []"
  shows "starved bt"
proof -
  have "unit_feed.ready sz bt"
    using assms(1) by (simp add: at_unit_def)
  moreover have "num_remaining_bits bt = 0"
    using used_bits_at_end(2) [OF assms(1)] assms(2) by simp
  moreover have "unescape (prev_hi bt) (prev_lo bt) (rest_bytes bt) = []"
    using assms(2) by (cases "unescape (prev_hi bt) (prev_lo bt) (rest_bytes bt)")
      (simp_all add: unit_feed.stream_def h264_feed_def to_bits_def)
  ultimately have "num_remaining_bits bt = 0" "prevention_type bt = PSEUDO_CODE_H264_H265" "rest_bytes bt = []" "mem_wf bt"
    using closed_unescape_Nil [of "prev_hi bt" "prev_lo bt" "rest_bytes bt"]
    by (simp_all add: unit_feed.ready_def unit_wf_def)
  moreover from this(3,4) have "unat (bytes_left bt) = 0"
    by (auto simp: rest_bytes_def mem_wf_def)
  ultimately show ?thesis
    by (simp add: starved_def unat_eq_0)
qed

lemma ue_prefix_zeros:
  "at_unit sz bt \<Longrightarrow> unit_feed.stream bt = replicate k False \<Longrightarrow>
     \<exists>n' bt'. ue_prefix_loop bt n = Inr (MPP_ERR_READ_BIT, n', bt') \<and> starved bt'"
proof (induction k arbitrary: bt n)
  case 0
  then have st: "starved bt"
    by (simp add: starved_at_end)
  then have "mpp_read_bits bt 1 = Inr (MPP_ERR_READ_BIT, ucast (push_bit 1 (curr_byte bt)), bt)"
    by (simp add: mpp_read_bits_def read_bits_loop.simps starved_def update_curbyte_defs)
  with st show ?case
    by (simp add: ue_prefix_loop.simps [of bt])
next
  case (Suc k)
  have "unit_feed.stream bt = to_bits 1 (0 :: u32) @ replicate k False"
    using Suc.prems(2) by (simp add: to_bits_zero)
  from at_unit_read [OF Suc.prems(1) _ this] obtain bt' where
    "mpp_read_bits bt 1 = Inr (MPP_OK, 0, bt')" "at_unit sz bt'" "unit_feed.stream bt' = replicate k False"
    by auto
  with Suc.IH [of bt' "n + 1"] show ?case
    by (simp add: ue_prefix_loop.simps [of bt])
qed

text \<open>The header ends behind the flag that announces reordering operations; only alignment zeros follow.\<close>

definition cut_unit :: "H264eSlice \<Rightarrow> u8 list" where
  "cut_unit sl = unit_bytes (start_code sl) False
     (header_bits (id_elems sl @ [(Fixed 1, hs_num_ref_idx_override sl), (Fixed 1, 1)]))"

lemma tail_even: "tail_bytes False bs \<noteq> [3]"
proof
  let ?l = "bit_tail bs @ replicate (8 - length (bit_tail bs)) False"
  assume "tail_bytes False bs = [3]"
  then have "of_bits ?l = (3 :: u8)"
    by (auto simp: tail_bytes_def split: if_splits)
  moreover have "\<not> bit (of_bits ?l :: u8) 0"
    using length_bit_tail [of bs] by (simp add: bit_of_bits nth_append)
  moreover have "bit (3 :: u8) 0"
    by code_simp
  ultimately show False by simp
qed

text \<open>
  C37: for every P slice, the header that is cut behind the flag for reordering operations keeps
  \<open>h264e_slice_read\<close> in its loop for ever: whatever the bound of the iterations is, it is used up. The
  failed reads leave the operation code as it is, and only the code 3 ends the loop.
\<close>

theorem cut_header_never_ends:
  assumes "slice_wf sl" and "hs_slice_type sl = H264_P_SLICE" and "reader_for sl x"
    and "take (length (cut_unit sl)) mem = cut_unit sl" and "length (cut_unit sl) \<le> length mem"
    and "length (cut_unit sl) < 2 ^ 31"
  shows "h264e_slice_read n lo x mem (int (length (cut_unit sl))) = Inl Out_Of_Fuel"
proof -
  let ?two = "[(Fixed 1, hs_num_ref_idx_override sl), (Fixed 1, 1)] :: element list"
  let ?bs = "header_bits (id_elems sl @ ?two)"
  let ?r = "h264_reader mem (int (length (cut_unit sl)))" and ?n = "length (cut_unit sl)"
  have wf: "list_all element_ok (id_elems sl)" "element_ok (Fixed 1, hs_num_ref_idx_override sl)"
    "element_ok (Fixed 1, 1)"
    using assms(1,2) by (simp_all add: slice_wf_def slice_elems_def ref_elems_def)
  define k where "k = length (pad_bits False ?bs)"
  have k: "pad_bits False ?bs = replicate k False"
    by (simp add: k_def pad_bits_def)
  have start: "at_unit ?n ?r" "unit_feed.stream ?r = byte_bits (start_code sl) @ ?bs @ replicate k False"
    using unit_start [of sl False ?bs mem, folded cut_unit_def] assms(4-6) nal_byte_nonzero [OF assms(1)] tail_even [of ?bs] k
    by simp_all
  have bits: "?bs = header_bits (id_elems sl) @ header_bits ?two"
    by (simp add: header_bits_def)
  define x1 x2 x3 where "x1 = seen_nal sl x" and "x2 = seen_ids sl x1"
    and "x3 = x2\<lparr>hs_num_ref_idx_override := hs_num_ref_idx_override sl, hs_ref_pic_list_modification_flag := 1\<rparr>"
  have x1: "hs_log2_max_frame_num x1 = hs_log2_max_frame_num sl" "hs_log2_max_poc_lsb x1 = hs_log2_max_poc_lsb sl"
    "hs_pic_order_cnt_type x1 = hs_pic_order_cnt_type sl" "hs_nalu_type x1 = hs_nalu_type sl"
    "0 \<le> hs_log2_max_frame_num sl" "hs_pic_order_cnt_type sl = 0 \<longrightarrow> 0 \<le> hs_log2_max_poc_lsb sl"
    using assms(1,3) by (simp_all add: x1_def seen_nal_def reader_for_def slice_wf_def)
  obtain b1 where b1: "read_nal_header (x, ?r) = Inr (x1, b1)" "at_unit ?n b1"
      "unit_feed.stream b1 = header_bits (id_elems sl) @ header_bits ?two @ replicate k False"
    using stepsD [OF read_nal_steps [OF assms(1)] start] unfolding x1_def bits append_assoc by blast
  obtain b2 where b2: "read_slice_ids (x1, b1) = Inr (x2, b2)" "at_unit ?n b2"
      "unit_feed.stream b2 = header_bits ?two @ replicate k False"
    using stepsD [OF read_ids_steps [OF wf(1) x1] b1(2,3)] unfolding x2_def by blast
  obtain b3 where b3: "run_seq [rd_u 1 (\<lambda>v. hs_num_ref_idx_override_update (\<lambda>_. sint v)),
        rd_u 1 (\<lambda>v. hs_ref_pic_list_modification_flag_update (\<lambda>_. sint v))] (x2, b2) = Inr (x3, b3)"
      "at_unit ?n b3" "unit_feed.stream b3 = replicate k False"
    using stepsD [OF flag_steps [OF wf(2,3)] b2(2,3)] unfolding x3_def by blast
  obtain n' b4 where b4: "ue_prefix_loop b3 (- 1) = Inr (MPP_ERR_READ_BIT, n', b4)" "starved b4"
    using ue_prefix_zeros [OF b3(2,3)] by blast
  then have first: "mpp_read_ue b3 0 = Inr (MPP_ERR_READ_BIT, 0, b4)"
    by (simp add: mpp_read_ue_def)
  let ?r0 = "h264e_reorder_wr_rewind (hs_reorder x3)"
  have room: "0 \<le> ri_wr_cnt ?r0" "ri_size ?r0 \<le> int (length (ri_ops ?r0))"
    using assms(3) by (simp_all add: h264e_reorder_wr_rewind_def x3_def x2_def x1_def seen_ids_def seen_nal_def reader_for_def)
  have "read_rplmos n 0 ops r b3 = read_rplmos n 0 ops r b4" for ops r
    by (cases n) (simp_all add: first starved_read_ue [OF b4(2)])
  then have loop: "read_rplmos n 0 (lo_ops lo) ?r0 b3 = Inl Out_Of_Fuel"
    using read_rplmos_starved [OF b4(2) _ room, of 0 n "lo_ops lo"] by simp
  have "hs_slice_type x2 = H264_P_SLICE" "hs_ref_pic_list_modification_flag x3 \<noteq> 0"
    using assms(2) by (simp_all add: x2_def x3_def seen_ids_def)
  then have "read_ref_lists n lo (x2, b2) = Inl Out_Of_Fuel"
    using b3(1) loop by (simp add: read_ref_lists_def del: run_seq_fun run_seq.simps)
  then show ?thesis
    using b1(1) b2(1) by (simp add: h264e_slice_read_def h264_reader_def)
qed

theorem cut_header_never_ends_witness:
  "\<forall>n. h264e_slice_read n demo_locals demo_reader (cut_unit demo_slice) 7 = Inl Out_Of_Fuel"
proof -
  have "length (cut_unit demo_slice) = 7" by code_simp
  moreover have "slice_wf demo_slice" "reader_for demo_slice demo_reader" "hs_slice_type demo_slice = H264_P_SLICE"
    by code_simp+
  ultimately show ?thesis
    using cut_header_never_ends [of demo_slice demo_reader "cut_unit demo_slice" _ demo_locals] by simp
qed

section \<open>The arithmetic coder\<close>

text \<open>The decoding process of the standard for one context, over the bits of the slice data.\<close>

record cabac_dec =
  cd_state :: int
  cd_range :: int
  cd_offset :: int
  cd_bits :: "bool list"

fun read_bit :: "cabac_dec \<Rightarrow> cabac_dec" where
  "read_bit d =
     d\<lparr>cd_range := 2 * cd_range d, cd_offset := 2 * cd_offset d + of_bool (cd_bits d \<noteq> [] \<and> hd (cd_bits d)),
       cd_bits := tl (cd_bits d)\<rparr>"

fun dec_renorm :: "nat \<Rightarrow> cabac_dec \<Rightarrow> cabac_dec" where
  "dec_renorm 0 d = d"
| "dec_renorm (Suc n) d = (if cd_range d < 256 then dec_renorm n (read_bit d) else d)"

definition table_at :: "int list list \<Rightarrow> int \<Rightarrow> int \<Rightarrow> int" where
  "table_at t i j = t ! nat i ! nat j"

definition dec_decision :: "cabac_dec \<Rightarrow> bool \<times> cabac_dec" where
  "dec_decision d =
     (let lps = table_at h264e_cabac_range_lps (cd_state d div 2) (cd_range d div 64 - 4);
          range = cd_range d - lps; mps = cd_state d mod 2 = 1;
          hit = cd_offset d < range; bin = (if hit then mps else \<not> mps)
      in (bin, dec_renorm 8
            (d\<lparr>cd_range := (if hit then range else lps), cd_offset := (if hit then cd_offset d else cd_offset d - range),
               cd_state := table_at h264e_cabac_transition (cd_state d) (of_bool bin)\<rparr>)))"

definition dec_terminate :: "cabac_dec \<Rightarrow> bool \<times> cabac_dec" where
  "dec_terminate d =
     (let range = cd_range d - 2
      in if cd_offset d \<ge> range then (True, d) else (False, dec_renorm 8 (d\<lparr>cd_range := range\<rparr>)))"

text \<open>The skip flags up to the end of the slice, at most \<open>n\<close>.\<close>

fun dec_skips :: "nat \<Rightarrow> cabac_dec \<Rightarrow> bool list" where
  "dec_skips 0 d = []"
| "dec_skips (Suc n) d =
     (let (skip, d1) = dec_decision d; (last, d2) = dec_terminate d1
      in skip # (if last then [] else dec_skips n d2))"

definition dec_init :: "int \<Rightarrow> bool list \<Rightarrow> cabac_dec" where
  "dec_init st bs = \<lparr>cd_state = st, cd_range = 510, cd_offset = uint (of_bits (take 9 bs) :: u16), cd_bits = drop 9 bs\<rparr>"

text \<open>The slice data that the encoder writes for \<open>n\<close> macroblocks, and the flags a decoder finds in it.\<close>

definition skip_bytes :: "int \<Rightarrow> nat \<Rightarrow> u8 list run" where
  "skip_bytes qp n =
     run_bind (write_skip_data ((h264e_slice_init demo_reorder demo_marking)\<lparr>hs_qp_init := qp, hs_mb_w := int n, hs_mb_h := 1\<rparr>)
        (snd (mpp_writer_init (replicate 16 0) 16)))
       (\<lambda>s. Inr (take (unat (byte_cnt s)) (wr_mem s)))"

definition decoded_skips :: "int \<Rightarrow> nat \<Rightarrow> bool list run" where
  "decoded_skips qp n =
     run_bind (init_context qp 0 (snd (mpp_writer_init [] 0))) (\<lambda>c.
     run_bind (skip_bytes qp n) (\<lambda>B. Inr (dec_skips (n + 2) (dec_init (cb_state c) (byte_bits B)))))"

text \<open>
  C39: a carry into a byte that has been written is lost. When the pending byte leaves the coder and no
  \<open>0xff\<close> byte is held back, the state with the carry and the state without it write the same byte and
  continue alike, although the two intervals are different.
\<close>

theorem putbyte_loses_carry:
  assumes "0 \<le> cb_queue c" and "cb_queue c \<le> 8" and "cb_bytes_outstanding c = 0" and "buffered_bits (cb_s c) = 0"
    and "0 \<le> cb_low c" and "cb_low c < 255 * 2 ^ nat (cb_queue c + 10)"
  shows "h264e_cabac_putbyte (c\<lparr>cb_low := cb_low c + 2 ^ nat (cb_queue c + 18)\<rparr>) = h264e_cabac_putbyte c"
proof -
  define q where "q = nat (cb_queue c)"
  have q: "nat (cb_queue c + 10) = q + 10" "nat (cb_queue c + 18) = q + 18" "nat (cb_queue c) = q"
    using assms(1) by (simp_all add: q_def nat_add_distrib)
  define k :: int where "k = 2 ^ (q + 10)"
  have k: "0 < k" "(2::int) ^ (q + 18) = 256 * k" "push_bit q 0x400 - 1 = (mask (q + 10) :: int)"
    by (simp_all add: k_def power_add mask_eq_exp_minus_1 push_bit_eq_mult mult.commute)
  define b where "b = cb_low c div k"
  have b: "0 \<le> b" "b < 255"
  proof -
    show "0 \<le> b"
      using assms(5) k(1) by (simp add: b_def pos_imp_zdiv_nonneg_iff)
    have "k * b \<le> cb_low c"
      using pos_mod_sign [OF k(1), of "cb_low c"] mult_div_mod_eq [of k "cb_low c"] unfolding b_def by linarith
    moreover have "cb_low c < k * 255"
      using assms(6) by (simp add: q(1) k_def mult.commute)
    ultimately have "k * b < k * 255"
      by linarith
    then show "b < 255"
      using k(1) by (simp only: mult_less_cancel_left_pos)
  qed
  have out: "drop_bit (q + 10) (cb_low c) = b" "drop_bit (q + 10) (cb_low c + 256 * k) = b + 256"
    using k(1) by (simp_all add: drop_bit_eq_div b_def k_def [symmetric])
  have low: "(cb_low c + 256 * k) AND mask (q + 10) = cb_low c AND mask (q + 10)"
    by (simp add: take_bit_eq_mask [symmetric] take_bit_eq_mod k_def [symmetric])
  have byte: "(b + 256) AND 255 = b" "b AND 255 = b"
  proof -
    have "x AND 255 = x mod 256" for x :: int
      using take_bit_eq_mask [of 8 x] by (simp add: take_bit_eq_mod mask_eq_exp_minus_1)
    then show "(b + 256) AND 255 = b" "b AND 255 = b"
      using b by simp_all
  qed
  have top: "push_bit 24 (word_of_int (b + 256) :: u32) = push_bit 24 (word_of_int b)"
  proof -
    have "push_bit 24 (256 :: u32) = 0"
      by code_simp
    then show ?thesis
      by (simp add: push_bit_add)
  qed
  have shift: "nat (32 - (8 + uint (buffered_bits (cb_s c)))) = 24"
    by (simp add: assms(4))
  have put: "mpp_writer_put_bits (cb_s c) (b + 256) 8 = mpp_writer_put_bits (cb_s c) b 8"
    unfolding mpp_writer_put_bits_def Let_def shift top ..
  have carry: "drop_bit 8 b = 0" "drop_bit 8 (b + 256) = 1"
    using b by (simp_all add: drop_bit_eq_div)
  have "\<not> cb_queue c - 8 > 0" "min 8 (8 - (cb_queue c - 8)) = 8"
    using assms(2) by simp_all
  then show ?thesis
    using assms(1,3) b by (simp add: h264e_cabac_putbyte_def q k(2,3) out low byte put Let_def)
qed

definition carry_state :: "int \<Rightarrow> H264eCabac" where
  "carry_state low = \<lparr>cb_state = 0, cb_low = low, cb_range = 300, cb_queue = 1, cb_bytes_outstanding = 0,
     cb_s = snd (mpp_writer_init (replicate 4 0) 4)\<rparr>"

theorem putbyte_loses_carry_witness:
  "h264e_cabac_putbyte ((carry_state 150000)\<lparr>cb_low := 150000 + 2 ^ 19\<rparr>) = h264e_cabac_putbyte (carry_state 150000)"
  using putbyte_loses_carry [of "carry_state 150000"]
  by (simp add: carry_state_def mpp_writer_init_def mpp_writer_status_def)

text \<open>
  A picture of five skipped macroblocks at the initial QP 13 is coded so that the decoding process of
  the standard finds five skip flags and the end of the slice; of six macroblocks it finds a wrong flag and
  no end where it should be.
\<close>

theorem skip_slice_of_six:
  "decoded_skips 13 5 = Inr [True, True, True, True, True] \<and>
   decoded_skips 13 6 = Inr [True, True, True, True, False, True, True, True]"
  by code_simp

section \<open>Moved slice data\<close>

text \<open>
  \<open>h264e_slice_move\<close> does not look at the last byte it stores: source data without a forbidden
  sequence is moved by seven bits into data that ends in \<open>00 00 02\<close>.
\<close>

theorem slice_move_last_byte:
  "h264e_slice_move (0xfe # replicate 9 0) [0xff, 0x81, 0, 0, 3, 1] 7 8 6 = Inr (- 1, [0xff, 2, 0, 0, 2, 0, 0, 0, 0, 0]) \<and>
   emulation_free [0x81, 0, 0, 3, 1] \<and> \<not> emulation_free [0xff, 2, 0, 0, 2]"
  by code_simp

end
