(* ===== verification/Mpp_Slice_Move.thy ===== *)
theory Mpp_Slice_Move
  imports Mpp_Slice_Syntax
begin

text \<open>
  What \<open>h264e_slice_move\<close> does: the payload bits of the source, without emulation prevention bytes, are put
  behind the first bits of the destination, and the bytes are escaped again, all but the last one.
\<close>

section \<open>The payload of the source\<close>

text \<open>Behind the byte \<open>x\<close>, with \<open>z\<close> zero bytes before it: the new zero count and the bytes still to come.\<close>

definition src_step :: "nat \<Rightarrow> u8 \<Rightarrow> u8 list \<Rightarrow> nat \<times> u8 list" where
  "src_step z x xs =
     (let z1 = (if x = 0 then z + 1 else 0)
      in if z1 \<ge> 2 \<and> xs \<noteq> [] \<and> hd xs = 3 then (0, tl xs) else (z1, xs))"

lemma src_step_length: "length (snd (src_step z x xs)) \<le> length xs"
  by (simp add: src_step_def Let_def)

function payload :: "nat \<Rightarrow> u8 list \<Rightarrow> u8 list" where
  "payload z [] = []"
| "payload z (x # xs) = x # payload (fst (src_step z x xs)) (snd (src_step z x xs))"
  by pat_completeness auto
termination
  by (relation "measure (\<lambda>(z, xs). length xs)") (use src_step_length in \<open>simp_all add: less_Suc_eq_le split_beta\<close>)

definition hd0 :: "u8 list \<Rightarrow> u8" where
  "hd0 xs = (case xs of [] \<Rightarrow> 0 | x # _ \<Rightarrow> x)"

lemma hd0_payload [simp]: "hd0 (payload z xs) = hd0 xs"
  by (cases xs) (simp_all add: hd0_def)

text \<open>It is the payload of the escaped bytes, as the reader of the stream sees it.\<close>

lemma payload_unescape:
  "(2 \<le> z \<longleftrightarrow> a = 0 \<and> b = 0) \<Longrightarrow> (1 \<le> z \<longleftrightarrow> b = 0) \<Longrightarrow> \<not> (2 \<le> z \<and> xs \<noteq> [] \<and> hd xs = 3) \<Longrightarrow>
     closed_bytes a b xs \<Longrightarrow> payload z xs = unescape a b xs"
proof (induction z xs arbitrary: a b rule: payload.induct)
  case (2 z x xs)
  let ?z = "if x = 0 then z + 1 else 0"
  have x: "\<not> (x = 3 \<and> a = 0 \<and> b = 0)"
    using "2.prems" by auto
  show ?case
  proof (cases "?z \<ge> 2 \<and> xs \<noteq> [] \<and> hd xs = 3")
    case True
    then obtain ys where xs: "xs = 3 # ys" by (cases xs) auto
    have st: "src_step z x xs = (0, ys)"
      using True xs by (simp add: src_step_def)
    have bx: "b = 0" "x = 0"
      using True "2.prems"(2) by (auto split: if_splits)
    have cl: "closed_bytes b x (3 # ys)"
      using "2.prems"(4) x xs by (simp add: closed_step)
    then obtain y zs where ys: "ys = y # zs"
      using bx by (cases ys) (auto simp: closed_step)
    have "closed_bytes 0xff 0xff ys"
      using cl bx ys by (cases zs) (auto simp: closed_step)
    moreover have "payload 0 ys = unescape 0xff 0xff ys"
      using "2.IH" [of "0xff" "0xff"] st calculation by simp
    ultimately show ?thesis
      using x bx xs ys st by (simp add: unescape_step)
  next
    case False
    have st: "src_step z x xs = (?z, xs)"
      by (simp only: src_step_def Let_def if_not_P [OF False])
    have "(2 \<le> ?z \<longleftrightarrow> b = 0 \<and> x = 0)" "(1 \<le> ?z \<longleftrightarrow> x = 0)"
      using "2.prems"(2) by auto
    moreover have "closed_bytes b x xs"
      using "2.prems"(4) x by (simp add: closed_step)
    ultimately have "payload ?z xs = unescape b x xs"
      using "2.IH" [of b x] st False by simp
    then show ?thesis
      using x st by (auto simp: unescape_step)
  qed
qed simp

section \<open>One step\<close>

text \<open>
  The source does not end with an emulation prevention byte, which the loop would read past: \<open>src_ok\<close> holds
  with \<open>z\<close> zero bytes before \<open>xs\<close>.
\<close>

definition src_ok :: "nat \<Rightarrow> u8 list \<Rightarrow> bool" where
  "src_ok z xs \<longleftrightarrow> (\<exists>a b. (2 \<le> z \<longleftrightarrow> a = 0 \<and> b = 0) \<and> (1 \<le> z \<longleftrightarrow> b = 0) \<and>
     \<not> (2 \<le> z \<and> xs \<noteq> [] \<and> hd xs = 3) \<and> closed_bytes a b xs)"

lemma src_ok_step:
  assumes "src_ok z (x # xs)"
  shows "src_ok (fst (src_step z x xs)) (snd (src_step z x xs))"
    and "\<not> (snd (src_step z x xs) = [] \<and> xs \<noteq> [])"
proof -
  let ?z = "if x = 0 then z + 1 else 0"
  obtain a b where ab: "2 \<le> z \<longleftrightarrow> a = 0 \<and> b = 0" "1 \<le> z \<longleftrightarrow> b = 0" and x3: "\<not> (2 \<le> z \<and> x = 3)"
    and cl0: "closed_bytes a b (x # xs)"
    using assms unfolding src_ok_def list.sel by blast
  from ab x3 have x: "\<not> (x = 3 \<and> a = 0 \<and> b = 0)" by blast
  with cl0 have cl: "closed_bytes b x xs" by (simp add: closed_step)
  have "src_ok (fst (src_step z x xs)) (snd (src_step z x xs)) \<and> \<not> (snd (src_step z x xs) = [] \<and> xs \<noteq> [])"
  proof (cases "?z \<ge> 2 \<and> xs \<noteq> [] \<and> hd xs = 3")
    case True
    then obtain ys where xs: "xs = 3 # ys" by (cases xs) auto
    have bx: "b = 0" "x = 0"
      using True ab(2) by (auto split: if_splits)
    with cl xs obtain y zs where ys: "ys = y # zs"
      by (cases ys) (auto simp: closed_step)
    have "closed_bytes 0xff 0xff ys"
      using cl bx xs ys by (cases zs) (auto simp: closed_step)
    then have "src_ok 0 ys"
      unfolding src_ok_def by (intro exI [of _ "0xff"]) simp
    then show ?thesis
      using True xs ys by (simp add: src_step_def)
  next
    case False
    have st: "src_step z x xs = (?z, xs)"
      by (simp only: src_step_def Let_def if_not_P [OF False])
    have "(2 \<le> ?z \<longleftrightarrow> b = 0 \<and> x = 0)" "(1 \<le> ?z \<longleftrightarrow> x = 0)"
      using ab by auto
    then have "src_ok ?z xs"
      unfolding src_ok_def using cl False by blast
    then show ?thesis
      by (simp only: st fst_conv snd_conv) blast
  qed
  then show "src_ok (fst (src_step z x xs)) (snd (src_step z x xs))"
    "\<not> (snd (src_step z x xs) = [] \<and> xs \<noteq> [])"
    by blast+
qed

lemma src_ok_start: "closed_bytes 0xff 0xff xs \<Longrightarrow> src_ok 0 xs"
  unfolding src_ok_def by (intro exI [of _ "0xff"]) simp

lemma move_load_step:
  assumes p: "mv_psrc v = int (sb + i)" and n: "sb + n \<le> length src" and i: "i < n"
    and r: "drop i (take n (drop sb src)) = x # xs"
    and closed: "\<not> (snd (src_step (mv_src_zero_cnt v) x xs) = [] \<and> xs \<noteq> [])"
  defines "s \<equiv> src_step (mv_src_zero_cnt v) x xs"
  shows "move_load src n i v = Inr (push_bit 8 (ucast x) OR ucast (hd0 (snd s)), n - length (snd s) - 1,
    v\<lparr>mv_psrc := int (sb + (n - length (snd s) - 1)), mv_src_zero_cnt := fst s,
      mv_diff_len := mv_diff_len v - int (length xs - length (snd s))\<rparr>)"
    and "drop (n - length (snd s)) (take n (drop sb src)) = snd s" and "length (snd s) < n - i"
proof -
  have len: "length xs = n - i - 1"
    using arg_cong [OF r, of length] n by simp
  have nth: "(x # xs) ! j = src ! (sb + i + j)" if "j \<le> length xs" for j
    using that len n i by (simp add: r [symmetric] add.assoc)
  have x: "array_get src (int (sb + i)) = Inr x"
    using nth [of 0] n i by (simp add: nat_int_add)
  have xs: "array_get src (int (sb + i) + 1) = Inr (hd xs)" "i < n - 1" if "xs \<noteq> []"
    using nth [of 1] that len n i by (cases xs; simp add: array_get_def nat_add_distrib nat_int_add)+
  have nil: "\<not> i < n - 1" if "xs = []"
    using that len by simp
  define z1 where "z1 = (if x = 0 then mv_src_zero_cnt v + 1 else 0)"
  have "move_load src n i v = Inr (push_bit 8 (ucast x) OR ucast (hd0 (snd s)), n - length (snd s) - 1,
      v\<lparr>mv_psrc := int (sb + (n - length (snd s) - 1)), mv_src_zero_cnt := fst s,
        mv_diff_len := mv_diff_len v - int (length xs - length (snd s))\<rparr>) \<and>
      drop (n - length (snd s)) (take n (drop sb src)) = snd s \<and> length (snd s) < n - i"
  proof (cases "z1 \<ge> 2 \<and> xs \<noteq> [] \<and> hd xs = 3")
    case True
    then obtain ys where ys: "xs = 3 # ys" by (cases xs) auto
    have s: "s = (0, ys)"
      using True ys by (simp add: s_def src_step_def z1_def [symmetric])
    have ne: "ys \<noteq> []"
      using closed s ys by (auto simp: s_def)
    have y: "array_get src (int (sb + i) + 2) = Inr (hd ys)"
      using nth [of 2] ne ys len n i by (cases ys) (simp_all add: array_get_def nat_add_distrib nat_int_add)
    have i1: "n - length ys - 1 = i + 1" "n - length ys = Suc (Suc i)" "length ys < n - i" "length xs - length ys = 1"
      using len ys i by simp_all
    have dr: "drop (Suc (Suc i)) (take n (drop sb src)) = ys"
      using arg_cong [OF r, of "drop 2"] ys by simp
    have h: "hd0 ys = hd ys"
      using ne by (cases ys) (simp_all add: hd0_def)
    have "move_load src n i v = Inr (push_bit 8 (ucast x) OR ucast (hd ys), i + 1,
        v\<lparr>mv_psrc := mv_psrc v + 1, mv_src_zero_cnt := 0, mv_diff_len := mv_diff_len v - 1\<rparr>)"
      using True x xs y p ys by (simp add: move_load_def z1_def [symmetric] Let_def)
    then show ?thesis
      using p i1 dr by (simp add: s h)
  next
    case False
    then have s: "s = (z1, xs)"
      by (simp add: s_def src_step_def z1_def [symmetric])
    have i1: "n - length xs - 1 = i"
      using len i by simp
    have "drop (Suc i) (take n (drop sb src)) = xs"
      using arg_cong [OF r, of "drop 1"] by simp
    moreover have "n - length xs = Suc i"
      using len i by simp
    ultimately show ?thesis
      using False x xs nil p s i1 len i
      by (cases xs) (auto simp: move_load_def Let_def z1_def [symmetric] hd0_def)
  qed
  then show "move_load src n i v = Inr (push_bit 8 (ucast x) OR ucast (hd0 (snd s)), n - length (snd s) - 1,
    v\<lparr>mv_psrc := int (sb + (n - length (snd s) - 1)), mv_src_zero_cnt := fst s,
      mv_diff_len := mv_diff_len v - int (length xs - length (snd s))\<rparr>)"
    "drop (n - length (snd s)) (take n (drop sb src)) = snd s" "length (snd s) < n - i"
    by blast+
qed

section \<open>The bits of the destination\<close>

text \<open>
  Bit \<open>i\<close> behind the first byte of the destination: \<open>dr\<close> bits of the byte \<open>b\<close> that is there, then the payload
  \<open>U\<close> without its first \<open>sr\<close> bits, then zeros.
\<close>

definition moved_bit :: "nat \<Rightarrow> nat \<Rightarrow> u8 \<Rightarrow> u8 list \<Rightarrow> nat \<Rightarrow> bool" where
  "moved_bit sr dr b U i \<longleftrightarrow>
     (if i < dr then bit b (7 - i)
      else i - dr + sr < 8 * length U \<and> bit (U ! ((i - dr + sr) div 8)) (7 - (i - dr + sr) mod 8))"

definition moved_byte :: "nat \<Rightarrow> nat \<Rightarrow> u8 \<Rightarrow> u8 list \<Rightarrow> nat \<Rightarrow> u8" where
  "moved_byte sr dr b U k = of_bits (map (moved_bit sr dr b U) [8 * k..<8 * k + 8])"

lemma bit_moved_byte: "j < 8 \<Longrightarrow> bit (moved_byte sr dr b U k) (7 - j) \<longleftrightarrow> moved_bit sr dr b U (8 * k + j)"
  by (auto simp: moved_byte_def bit_of_bits)

lemma moved_byte_eqI:
  assumes "\<And>j. j < 8 \<Longrightarrow> bit w (7 - j) \<longleftrightarrow> moved_bit sr dr b U (8 * k + j)"
  shows "w = moved_byte sr dr b U k"
proof (rule bit_word_eqI)
  fix m assume "m < LENGTH(8)"
  then have "bit w (7 - (7 - m)) = bit (moved_byte sr dr b U k) (7 - (7 - m))"
    by (simp only: bit_moved_byte assms)
  with \<open>m < LENGTH(8)\<close> show "bit w m = bit (moved_byte sr dr b U k) m"
    by simp
qed

definition store_word :: "nat \<Rightarrow> u16 \<Rightarrow> u16 \<Rightarrow> u16" where
  "store_word dr w prev =
     (if dr \<noteq> 0 then drop_bit dr w OR (push_bit 8 prev AND push_bit (8 - dr) 0xFFFF) else w)"

text \<open>The bits of the window over the payload byte \<open>x\<close> and the next one.\<close>

definition window_bit :: "nat \<Rightarrow> nat \<Rightarrow> u8 \<Rightarrow> u8 \<Rightarrow> nat \<Rightarrow> bool" where
  "window_bit sr dr x y j \<longleftrightarrow>
     dr \<le> j \<and> j - dr + sr < 16 \<and> (if j - dr + sr < 8 then bit x (7 - (j - dr + sr)) else bit y (15 - (j - dr + sr)))"

lemma bit_store_word:
  assumes "sr < 8" and "dr < 8" and "j < 16"
  shows "bit (store_word dr (push_bit sr (push_bit 8 (ucast x) OR ucast y)) prev) (15 - j) \<longleftrightarrow>
     window_bit sr dr x y j \<or> dr \<noteq> 0 \<and> j < 8 \<and> bit prev (7 - j)"
proof -
  let ?p = "j - dr + sr"
  have m: "bit (0xFFFF :: int) n \<longleftrightarrow> n < 16" for n
  proof -
    have "(0xFFFF :: int) = mask 16"
      by (simp add: mask_eq_exp_minus_1)
    then show ?thesis
      by (simp only: bit_mask_iff) simp
  qed
  define t :: u16 where "t = push_bit 8 (ucast x) OR ucast y"
  have v: "bit t n \<longleftrightarrow> (if n < 8 then bit y n else n < 16 \<and> bit x (n - 8))" for n
    using bit_imp_le_length [of x "n - 8"] bit_imp_le_length [of y n]
    by (auto simp: t_def bit_or_iff bit_push_bit_iff bit_ucast_iff)
  have w: "bit (drop_bit dr (push_bit sr t)) (15 - j) \<longleftrightarrow> window_bit sr dr x y j"
  proof (cases "dr \<le> j \<and> ?p < 16")
    case True
    then have q: "dr + (15 - j) < 16" "sr \<le> dr + (15 - j)" "dr + (15 - j) - sr = 15 - ?p"
      using assms by linarith+
    have "15 - ?p < 8 \<longleftrightarrow> \<not> ?p < 8" "\<not> ?p < 8 \<or> 15 - ?p - 8 = 7 - ?p"
      using True by linarith+
    with q True show ?thesis
      by (auto simp: bit_drop_bit_eq bit_push_bit_iff v window_bit_def)
  next
    case False
    then have "\<not> dr + (15 - j) < 16 \<or> \<not> sr \<le> dr + (15 - j)"
      using assms by linarith
    with False show ?thesis
      by (auto simp: bit_drop_bit_eq bit_push_bit_iff window_bit_def)
  qed
  show ?thesis
  proof (cases "dr = 0")
    case True
    with w show ?thesis by (simp add: store_word_def t_def [symmetric])
  next
    case False
    have "bit (push_bit 8 prev AND push_bit (8 - dr) 0xFFFF :: u16) (15 - j) \<longleftrightarrow> j < 8 \<and> bit prev (7 - j)"
    proof (cases "j < 8")
      case True
      then have "8 \<le> 15 - j" "15 - j - 8 = 7 - j" "15 - j < 16" "8 - dr \<le> 15 - j" "15 - (j + (8 - dr)) < 16"
        by linarith+
      with True show ?thesis
        by (simp add: bit_and_iff bit_push_bit_iff m)
    next
      case False
      then have "\<not> 8 \<le> 15 - j"
        by linarith
      with False show ?thesis
        by (simp add: bit_and_iff bit_push_bit_iff)
    qed
    with w False show ?thesis
      by (simp add: store_word_def bit_or_iff t_def [symmetric])
  qed
qed

text \<open>The bits known of the byte stored ahead: they belong to the output, and the first \<open>dr\<close> are complete.\<close>

definition ahead_ok :: "nat \<Rightarrow> nat \<Rightarrow> u8 \<Rightarrow> u8 list \<Rightarrow> nat \<Rightarrow> u16 \<Rightarrow> bool" where
  "ahead_ok sr dr b U k w \<longleftrightarrow>
     (\<forall>j < 8. (bit w (7 - j) \<longrightarrow> moved_bit sr dr b U (8 * k + j)) \<and>
              (j < dr \<longrightarrow> (bit w (7 - j) \<longleftrightarrow> moved_bit sr dr b U (8 * k + j))))"

lemma window_moved:
  assumes k: "k < length U" and j: "j < 16" "dr \<le> j"
  shows "window_bit sr dr (U ! k) (hd0 (drop (Suc k) U)) j \<longleftrightarrow> j - dr + sr < 16 \<and> moved_bit sr dr b U (8 * k + j)"
proof -
  let ?p = "j - dr + sr"
  have p: "8 * k + j - dr + sr = 8 * k + ?p"
    using j(2) by simp
  have hd: "hd0 (drop (Suc k) U) = (if Suc k < length U then U ! Suc k else 0)"
    by (simp add: hd0_def Cons_nth_drop_Suc [symmetric] split: list.split)
  consider "?p < 8" | "8 \<le> ?p" "?p < 16" | "16 \<le> ?p" by linarith
  then show ?thesis
  proof cases
    case 1
    then have "(8 * k + ?p) div 8 = k" "(8 * k + ?p) mod 8 = ?p" "8 * k + ?p < 8 * length U"
      using k by simp_all
    with 1 j p show ?thesis
      by (simp add: window_bit_def moved_bit_def)
  next
    case 2
    then obtain q where q: "?p = q + 8" "q < 8"
      using le_Suc_ex by (metis add.commute add_less_cancel_right numeral_Bit0)
    then have "(8 * k + ?p) div 8 = Suc k" "(8 * k + ?p) mod 8 = q"
      by simp_all
    moreover have "8 * k + ?p < 8 * length U \<longleftrightarrow> Suc k < length U"
      using q by linarith
    ultimately show ?thesis
      using 2 q j p hd by (simp add: window_bit_def moved_bit_def)
  next
    case 3
    then show ?thesis by (simp add: window_bit_def)
  qed
qed

text \<open>One step turns the byte stored ahead into a complete byte and stores the next one ahead.\<close>

lemma store_word_step:
  assumes r: "sr < 8" "dr < 8" and k: "k < length U" and ahead: "ahead_ok sr dr b U k prev"
  defines "c \<equiv> store_word dr (push_bit sr (push_bit 8 (ucast (U ! k)) OR ucast (hd0 (drop (Suc k) U)))) prev"
  shows "ucast (drop_bit 8 c) = moved_byte sr dr b U k" and "ahead_ok sr dr b U (Suc k) c"
    and "Suc k = length U \<Longrightarrow> ucast c = moved_byte sr dr b U (Suc k)"
proof -
  have bit_c: "bit c (15 - j) \<longleftrightarrow> window_bit sr dr (U ! k) (hd0 (drop (Suc k) U)) j \<or> dr \<noteq> 0 \<and> j < 8 \<and> bit prev (7 - j)"
    if "j < 16" for j
    unfolding c_def by (rule bit_store_word [OF r that])
  show "ucast (drop_bit 8 c) = moved_byte sr dr b U k"
  proof (rule moved_byte_eqI)
    fix j :: nat assume j: "j < 8"
    have "bit (ucast (drop_bit 8 c) :: u8) (7 - j) \<longleftrightarrow> bit c (15 - j)"
    proof -
      have "8 + (7 - j) = 15 - j" "7 - j < 8"
        using j by simp_all
      then show ?thesis
        by (simp add: bit_ucast_iff bit_drop_bit_eq)
    qed
    also have "\<dots> \<longleftrightarrow> moved_bit sr dr b U (8 * k + j)"
    proof (cases "dr \<le> j")
      case True
      have "j < 16" "j - dr + sr < 16"
        using j r by linarith+
      then have "window_bit sr dr (U ! k) (hd0 (drop (Suc k) U)) j \<longleftrightarrow> moved_bit sr dr b U (8 * k + j)"
        using window_moved [OF k _ True, of sr b] by blast
      moreover have "bit prev (7 - j) \<longrightarrow> moved_bit sr dr b U (8 * k + j)"
        using ahead j unfolding ahead_ok_def by blast
      ultimately show ?thesis
        using bit_c [OF \<open>j < 16\<close>] by blast
    next
      case False
      have "j < 16" "dr \<noteq> 0" "j < dr"
        using j False by linarith+
      moreover have "\<not> window_bit sr dr (U ! k) (hd0 (drop (Suc k) U)) j"
        using False by (simp add: window_bit_def)
      moreover have "bit prev (7 - j) \<longleftrightarrow> moved_bit sr dr b U (8 * k + j)"
        using ahead j \<open>j < dr\<close> unfolding ahead_ok_def by blast
      ultimately show ?thesis
        using bit_c [of j] j by blast
    qed
    finally show "bit (ucast (drop_bit 8 c) :: u8) (7 - j) \<longleftrightarrow> moved_bit sr dr b U (8 * k + j)" .
  qed
  have lo: "bit c (7 - j) \<longleftrightarrow> dr \<le> j + 8 \<and> j + 8 - dr + sr < 16 \<and> moved_bit sr dr b U (8 * Suc k + j)" if j: "j < 8" for j
  proof -
    have "15 - (j + 8) = 7 - j" "8 * k + (j + 8) = 8 * Suc k + j"
      by simp_all
    moreover have "j + 8 < 16" "dr \<le> j + 8" "\<not> j + 8 < 8"
      using j r by simp_all
    ultimately show ?thesis
      using bit_c [of "j + 8"] window_moved [OF k, of "j + 8" dr sr b] by (simp add: ac_simps)
  qed
  show "ahead_ok sr dr b U (Suc k) c"
    unfolding ahead_ok_def using lo r by auto
  show "ucast c = moved_byte sr dr b U (Suc k)" if last: "Suc k = length U"
  proof (rule moved_byte_eqI)
    fix j :: nat assume j: "j < 8"
    have "moved_bit sr dr b U (8 * Suc k + j) \<Longrightarrow> j + 8 - dr + sr < 16"
      using last r j by (auto simp: moved_bit_def split: if_splits)
    with lo [OF j] j r show "bit (ucast c :: u8) (7 - j) \<longleftrightarrow> moved_bit sr dr b U (8 * Suc k + j)"
      by (auto simp: bit_ucast_iff)
  qed
qed

section \<open>The loop\<close>

text \<open>
  The destination behind the bytes \<open>B\<close>: they are stored in their escaped form from \<open>db\<close> on, the byte \<open>lo\<close> is
  stored ahead, and the rest of the memory is as it was.
\<close>

definition moved_rep :: "u8 list \<Rightarrow> nat \<Rightarrow> u8 list \<Rightarrow> u8 \<Rightarrow> slice_move \<Rightarrow> bool" where
  "moved_rep dst db B lo v \<longleftrightarrow>
     mv_pdst v = int (db + length (escape 0 B)) \<and>
     mv_dst v = take db dst @ escape 0 B @ lo # drop (db + Suc (length (escape 0 B))) dst \<and>
     mv_dst_zero_cnt v = zero_run 0 B"

lemma array_set_ahead:
  "array_set (P @ x # xs) (int (length P)) a = Inr (P @ a # xs)"
  "array_set (P @ x # y # xs) (int (length P) + 1) a = Inr (P @ x # a # xs)"
  "array_set (P @ x # y # z # xs) (int (length P) + 2) a = Inr (P @ x # y # a # xs)"
  by (simp_all add: array_set_def list_update_append nat_add_distrib)

lemma move_store_at:
  assumes "mv_pdst v = int (length P)" and "mv_dst v = P @ x # y # z # R"
    and c: "c = store_word dr w (mv_last_tmp v)" and hi: "hi = ucast (drop_bit 8 c)"
    and e: "mv_dst_zero_cnt v = 2 \<and> hi \<le> 3"
  shows "move_store dr w v = Inr (v\<lparr>mv_dst := P @ 3 # hi # ucast c # R, mv_pdst := int (length P) + 2,
    mv_diff_len := mv_diff_len v + 1, mv_dst_zero_cnt := of_bool (hi = 0), mv_last_tmp := c\<rparr>)"
  using e unfolding move_store_def Let_def c [unfolded store_word_def, symmetric] hi [symmetric]
  by (cases v) (use assms(1,2) in \<open>simp add: array_set_ahead\<close>)

lemma move_store_plain_at:
  assumes "mv_pdst v = int (length P)" and "mv_dst v = P @ x # y # R"
    and c: "c = store_word dr w (mv_last_tmp v)" and hi: "hi = ucast (drop_bit 8 c)"
    and e: "\<not> (mv_dst_zero_cnt v = 2 \<and> hi \<le> 3)"
  shows "move_store dr w v = Inr (v\<lparr>mv_dst := P @ hi # ucast c # R, mv_pdst := int (length P) + 1,
    mv_dst_zero_cnt := (if hi = 0 then mv_dst_zero_cnt v + 1 else 0), mv_last_tmp := c\<rparr>)"
  using e unfolding move_store_def Let_def c [unfolded store_word_def, symmetric] hi [symmetric]
  by (cases v) (use assms(1,2) in \<open>auto simp: array_set_ahead\<close>)

lemma move_store_step:
  assumes rep: "moved_rep dst db B lo v" and room: "db + length (escape 0 (B @ [hi])) < length dst"
    and c: "c = store_word dr w (mv_last_tmp v)" and hi: "hi = ucast (drop_bit 8 c)"
  shows "\<exists>v1. move_store dr w v = Inr v1 \<and> moved_rep dst db (B @ [hi]) (ucast c) v1 \<and>
     mv_last_tmp v1 = c \<and> mv_psrc v1 = mv_psrc v \<and> mv_src_zero_cnt v1 = mv_src_zero_cnt v \<and>
     mv_diff_len v1 = mv_diff_len v + int (length (escape 0 (B @ [hi]))) - int (length (escape 0 B)) - 1"
proof -
  let ?P = "take db dst @ escape 0 B"
  have len: "length ?P = db + length (escape 0 B)"
    using room by (simp add: escape_snoc split: if_splits)
  have p: "mv_pdst v = int (length ?P)" and d: "mv_dst v = ?P @ lo # drop (Suc (length ?P)) dst"
    and zc: "mv_dst_zero_cnt v = zero_run 0 B"
    using rep len by (simp_all add: moved_rep_def)
  have le: "hi \<le> 3 \<longleftrightarrow> hi < 4"
    by (simp add: word_less_nat_alt word_le_nat_alt) linarith
  show ?thesis
  proof (cases "zero_run 0 B = 2 \<and> hi < 4")
    case True
    then have e: "escape 0 (B @ [hi]) = escape 0 B @ [3, hi]"
      by (simp add: escape_snoc)
    have "Suc (Suc (length ?P)) < length dst"
      using room len by (simp add: e)
    then obtain y z where "drop (Suc (length ?P)) dst = y # z # drop (Suc (Suc (Suc (length ?P)))) dst"
      by (metis Cons_nth_drop_Suc Suc_lessD)
    then have "mv_dst v = ?P @ lo # y # z # drop (Suc (Suc (Suc (length ?P)))) dst"
      using d by simp
    from move_store_at [OF p this c hi] True zc le show ?thesis
      using len by (simp add: moved_rep_def e zero_run_append)
  next
    case False
    then have e: "escape 0 (B @ [hi]) = escape 0 B @ [hi]"
      by (auto simp: escape_snoc)
    have "Suc (length ?P) < length dst"
      using room len by (simp add: e)
    then obtain y where "drop (Suc (length ?P)) dst = y # drop (Suc (Suc (length ?P))) dst"
      by (metis Cons_nth_drop_Suc)
    then have "mv_dst v = ?P @ lo # y # drop (Suc (Suc (length ?P))) dst"
      using d by simp
    from move_store_plain_at [OF p this c hi] False zc le show ?thesis
      using len by (auto simp: moved_rep_def e zero_run_append)
  qed
qed

lemma escape_prefix_length: "length (escape 0 B) \<le> length (escape 0 (B @ C))"
  by (simp add: escape_append)

abbreviation moved_bytes :: "nat \<Rightarrow> nat \<Rightarrow> u8 \<Rightarrow> u8 list \<Rightarrow> nat \<Rightarrow> u8 list" where
  "moved_bytes sr dr b U k \<equiv> map (moved_byte sr dr b U) [0..<k]"

lemma moved_bytes_prefix: "k \<le> m \<Longrightarrow> \<exists>C. moved_bytes sr dr b U m = moved_bytes sr dr b U k @ C"
  by (metis le_Suc_ex map_append upt_add_eq_append zero_le)

lemma moved_bytes_length:
  assumes "k \<le> m"
  shows "length (escape 0 (moved_bytes sr dr b U k)) \<le> length (escape 0 (moved_bytes sr dr b U m))"
proof -
  obtain C where "moved_bytes sr dr b U m = moved_bytes sr dr b U k @ C"
    using moved_bytes_prefix [OF assms] by blast
  then show ?thesis
    by (simp only: escape_prefix_length)
qed

text \<open>What holds when \<open>i\<close> bytes of the source are read and \<open>k\<close> bytes of the payload are moved.\<close>

definition moved_to ::
  "u8 list \<Rightarrow> u8 list \<Rightarrow> nat \<Rightarrow> nat \<Rightarrow> nat \<Rightarrow> nat \<Rightarrow> nat \<Rightarrow> u8 \<Rightarrow> u8 list \<Rightarrow> nat \<Rightarrow> nat \<Rightarrow> u8 \<Rightarrow> slice_move \<Rightarrow> bool" where
  "moved_to dst src db sb sr dr n b U i k lo v \<longleftrightarrow>
     i \<le> n \<and> k \<le> length U \<and> mv_psrc v = int (sb + i) \<and>
     payload (mv_src_zero_cnt v) (drop i (take n (drop sb src))) = drop k U \<and>
     src_ok (mv_src_zero_cnt v) (drop i (take n (drop sb src))) \<and>
     moved_rep dst db (moved_bytes sr dr b U k) lo v \<and> ahead_ok sr dr b U k (mv_last_tmp v) \<and>
     (k = length U \<longrightarrow> lo = moved_byte sr dr b U k) \<and>
     mv_diff_len v = int (length (escape 0 (moved_bytes sr dr b U k))) - int i"

lemma move_step:
  assumes n: "sb + n \<le> length src" and r: "sr < 8" "dr < 8" and i: "i < n"
    and room: "db + length (escape 0 (moved_bytes sr dr b U (length U))) < length dst"
    and inv: "moved_to dst src db sb sr dr n b U i k lo v"
  shows "\<exists>a i1 v1 v2 lo1. move_load src n i v = Inr (a, i1, v1) \<and> move_store dr (push_bit sr a) v1 = Inr v2 \<and> i \<le> i1 \<and>
     moved_to dst src db sb sr dr n b U (i1 + 1) (Suc k) lo1 (v2\<lparr>mv_psrc := mv_psrc v2 + 1\<rparr>)"
proof -
  define T where "T = take n (drop sb src)"
  have "length T = n"
    using n by (simp add: T_def)
  then obtain x xs where xs: "drop i T = x # xs"
    using i by (cases "drop i T") auto
  define st where "st = src_step (mv_src_zero_cnt v) x xs"
  have pay: "drop k U = x # payload (fst st) (snd st)" and ok: "src_ok (mv_src_zero_cnt v) (x # xs)"
    and p: "mv_psrc v = int (sb + i)" and rep: "moved_rep dst db (moved_bytes sr dr b U k) lo v"
    and ahead: "ahead_ok sr dr b U k (mv_last_tmp v)"
    and diff: "mv_diff_len v = int (length (escape 0 (moved_bytes sr dr b U k))) - int i"
    using inv xs by (simp_all add: moved_to_def T_def [symmetric] st_def)
  have k: "k < length U" and Uk: "U ! k = x" and rest: "drop (Suc k) U = payload (fst st) (snd st)"
    using pay by (cases "k < length U"; simp add: Cons_nth_drop_Suc [symmetric])+
  have ok1: "src_ok (fst st) (snd st)" and closed: "\<not> (snd st = [] \<and> xs \<noteq> [])"
    using src_ok_step [OF ok] by (simp_all add: st_def)
  let ?a = "push_bit 8 (ucast x) OR ucast (hd0 (snd st)) :: u16"
  let ?i1 = "n - length (snd st) - 1"
  let ?v1 = "v\<lparr>mv_psrc := int (sb + ?i1), mv_src_zero_cnt := fst st,
      mv_diff_len := mv_diff_len v - int (length xs - length (snd st))\<rparr>"
  have load: "move_load src n i v = Inr (?a, ?i1, ?v1)" "drop (n - length (snd st)) T = snd st" "length (snd st) < n - i"
    using move_load_step [OF p n i xs [unfolded T_def] closed [unfolded st_def]] by (simp_all add: st_def T_def)
  have len: "length xs = n - i - 1"
    using arg_cong [OF xs, of length] \<open>length T = n\<close> by simp
  have h: "hd0 (drop (Suc k) U) = hd0 (snd st)"
    by (simp add: rest)
  define c where "c = store_word dr (push_bit sr ?a) (mv_last_tmp v)"
  have c: "ucast (drop_bit 8 c) = moved_byte sr dr b U k" "ahead_ok sr dr b U (Suc k) c"
    "Suc k = length U \<Longrightarrow> ucast c = moved_byte sr dr b U (Suc k)"
    using store_word_step [OF r k ahead, unfolded Uk h, folded c_def] by blast+
  have B: "moved_bytes sr dr b U (Suc k) = moved_bytes sr dr b U k @ [moved_byte sr dr b U k]"
    by simp
  have room1: "db + length (escape 0 (moved_bytes sr dr b U k @ [moved_byte sr dr b U k])) < length dst"
    using moved_bytes_length [of "Suc k" "length U" sr dr b U] k room unfolding B [symmetric]
    by linarith
  have c1: "c = store_word dr (push_bit sr ?a) (mv_last_tmp ?v1)"
    by (simp add: c_def)
  have rep1: "moved_rep dst db (moved_bytes sr dr b U k) lo ?v1"
    using rep by (simp add: moved_rep_def)
  obtain v2 where v2: "move_store dr (push_bit sr ?a) ?v1 = Inr v2"
    "moved_rep dst db (moved_bytes sr dr b U (Suc k)) (ucast c) v2" "mv_last_tmp v2 = c"
    "mv_psrc v2 = mv_psrc ?v1" "mv_src_zero_cnt v2 = mv_src_zero_cnt ?v1"
    "mv_diff_len v2 = mv_diff_len ?v1 + int (length (escape 0 (moved_bytes sr dr b U (Suc k)))) -
        int (length (escape 0 (moved_bytes sr dr b U k))) - 1"
    using move_store_step [OF rep1 room1 c1 c(1) [symmetric], folded B] by blast
  have i1: "?i1 + 1 = n - length (snd st)" "i \<le> ?i1"
    using load(3) by simp_all
  have "mv_diff_len v2 = int (length (escape 0 (moved_bytes sr dr b U (Suc k)))) - int (?i1 + 1)"
    using v2(6) diff len load(3) unfolding i1(1) by (simp del: upt_Suc)
  then have "moved_to dst src db sb sr dr n b U (?i1 + 1) (Suc k) (ucast c) (v2\<lparr>mv_psrc := mv_psrc v2 + 1\<rparr>)"
    unfolding moved_to_def T_def [symmetric] i1(1)
    using v2 k c load ok1 rest i1 by (auto simp: moved_rep_def simp del: upt_Suc)
  with load(1) v2(1) i1(2) show ?thesis by blast
qed

lemma move_loop_ok:
  assumes n: "sb + n \<le> length src" and r: "sr < 8" "dr < 8"
    and room: "db + length (escape 0 (moved_bytes sr dr b U (length U))) < length dst"
    and inv: "moved_to dst src db sb sr dr n b U i k lo v"
  shows "\<exists>v1. move_loop src sr dr n i v = Inr v1 \<and>
     moved_to dst src db sb sr dr n b U n (length U) (moved_byte sr dr b U (length U)) v1"
  using inv
proof (induction "n - i" arbitrary: i k lo v rule: less_induct)
  case less
  show ?case
  proof (cases "i < n")
    case True
    from move_step [OF n r True room less.prems] obtain a i1 v1 v2 lo1 where
      step: "move_load src n i v = Inr (a, i1, v1)" "move_store dr (push_bit sr a) v1 = Inr v2" "i \<le> i1"
      and inv1: "moved_to dst src db sb sr dr n b U (i1 + 1) (Suc k) lo1 (v2\<lparr>mv_psrc := mv_psrc v2 + 1\<rparr>)"
      by blast
    have "n - (i1 + 1) < n - i"
      using True step(3) by simp
    from less.hyps [OF this inv1] show ?thesis
      using True step by (simp add: move_loop.simps [of src sr dr n i v])
  next
    case False
    then have i: "i = n"
      using less.prems by (simp add: moved_to_def)
    then have "payload (mv_src_zero_cnt v) [] = drop k U"
      using less.prems by (simp add: moved_to_def)
    then have k: "k = length U"
      using less.prems by (simp add: moved_to_def)
    then have "lo = moved_byte sr dr b U k"
      using less.prems by (simp add: moved_to_def)
    moreover have "move_loop src sr dr n n v = Inr v"
      by (simp add: move_loop.simps [of src sr dr n n v])
    ultimately show ?thesis
      using less.prems unfolding i k by blast
  qed
qed

text \<open>
  The result of a move by bits: the payload \<open>U\<close> of the source, shifted to its place and escaped; one more byte
  is stored without a look at what is before it.
\<close>

lemma slice_move_bits:
  fixes db sb sr dr sz :: nat
  assumes "sr < 8" "dr < 8" "\<not> (sr = 0 \<and> dr = 0)" and n: "n = sz - sb + of_bool (sr > 0)" "sb \<le> sz" "sz < 2 ^ 31"
    and src: "sb + n \<le> length src" and closed: "closed_bytes 0xff 0xff (take n (drop sb src))"
    and U: "U = unescape 0xff 0xff (take n (drop sb src))"
    and b: "db < length dst" "dst ! db AND mask (8 - dr) = 0"
    and room: "db + length (escape 0 (moved_bytes sr dr (dst ! db) U (length U))) < length dst"
  shows "h264e_slice_move dst src (int (8 * db + dr)) (int (8 * sb + sr)) (int sz) =
     Inr (int (length (escape 0 (moved_bytes sr dr (dst ! db) U (length U)))) - int n,
       take db dst @ escape 0 (moved_bytes sr dr (dst ! db) U (length U)) @
       moved_byte sr dr (dst ! db) U (length U) # drop (db + Suc (length (escape 0 (moved_bytes sr dr (dst ! db) U (length U))))) dst)"
proof -
  let ?b = "dst ! db"
  have low: "\<not> bit ?b j" if "j < 8 - dr" for j
  proof -
    have "bit (?b AND mask (8 - dr)) j = bit (0 :: u8) j"
      by (simp only: b(2))
    then show ?thesis
      using that bit_imp_le_length [of ?b j] by (auto simp: bit_and_iff bit_mask_iff)
  qed
  have ahead: "ahead_ok sr dr ?b U 0 (ucast ?b)"
    using low assms(2) by (auto simp: ahead_ok_def moved_bit_def bit_ucast_iff)
  let ?v = "\<lparr>mv_psrc = int sb, mv_pdst = int db, mv_dst = dst, mv_last_tmp = ucast ?b,
      mv_src_zero_cnt = 0, mv_dst_zero_cnt = 0, mv_diff_len = 0\<rparr>"
  have pay: "U = payload 0 (take n (drop sb src))"
    unfolding U by (rule payload_unescape [symmetric]) (simp_all add: closed)
  have "?b = moved_byte sr dr ?b U 0" if "U = []"
    by (rule moved_byte_eqI) (use low assms(2) that in \<open>auto simp: moved_bit_def\<close>)
  then have "moved_to dst src db sb sr dr n ?b U 0 0 ?b ?v"
    using ahead closed b(1) src_ok_start [OF closed] by (auto simp: moved_to_def moved_rep_def pay id_take_nth_drop)
  from move_loop_ok [OF src assms(1,2) room this] obtain v1 where
    loop: "move_loop src sr dr n 0 ?v = Inr v1"
    and fin: "moved_to dst src db sb sr dr n ?b U n (length U) (moved_byte sr dr ?b U (length U)) v1"
    by blast
  have div: "cdiv (int (8 * m + q)) 8 = int m" "int (8 * m + q) AND 7 = int q" if "q < 8" for m q :: nat
  proof -
    show "cdiv (int (8 * m + q)) 8 = int m"
      using that by (simp add: cdiv_def sgn_if)
    have "int (8 * m + q) AND 7 = take_bit 3 (int (8 * m + q))"
      by (simp add: take_bit_eq_mask mask_eq_exp_minus_1)
    then show "int (8 * m + q) AND 7 = int q"
      using that by (simp add: take_bit_eq_mod)
  qed
  have cnt: "unat (word_of_int (int sz - int sb + of_bool (sr > 0)) :: u32) = n"
  proof -
    have "int sz - int sb + of_bool (sr > 0) = int n"
      using n by simp
    moreover have "n < 2 ^ 32"
      using n by (cases "sr > 0") simp_all
    ultimately show ?thesis
      by (simp only:) (simp add: unat_of_nat take_bit_nat_eq_self)
  qed
  show ?thesis
    unfolding h264e_slice_move_def Let_def div [OF assms(1)] div [OF assms(2)] nat_int cnt
    using fin assms(3) b(1) by (auto simp: loop moved_to_def moved_rep_def)
qed

section \<open>The result as bits\<close>

text \<open>The bits behind the first byte of the destination, zeros to the end of the byte stored last.\<close>

definition moved_bits :: "nat \<Rightarrow> nat \<Rightarrow> u8 \<Rightarrow> u8 list \<Rightarrow> bool list" where
  "moved_bits sr dr b U = take dr (to_bits 8 b) @ drop sr (byte_bits U) @ replicate (8 + sr - dr) False"

lemma nth_byte_bits:
  "p < 8 * length U \<Longrightarrow> byte_bits U ! p \<longleftrightarrow> bit (U ! (p div 8)) (7 - p mod 8)"
proof (induction U arbitrary: p)
  case (Cons u U)
  show ?case
  proof (cases "p < 8")
    case False
    then obtain q where q: "p = q + 8"
      using le_Suc_ex by (metis add.commute linorder_not_less)
    then have "p div 8 = Suc (q div 8)"
      by simp
    with q show ?thesis
      using Cons by (simp add: nth_append)
  qed (simp add: nth_append)
qed simp

lemma nth_moved_bits:
  assumes "sr < 8" "dr < 8" "U \<noteq> []" "i < 8 * Suc (length U)"
  shows "moved_bits sr dr b U ! i \<longleftrightarrow> moved_bit sr dr b U i"
proof -
  have N: "8 \<le> 8 * length U"
    using assms(3) by (cases U) simp_all
  consider "i < dr" | "dr \<le> i" "i - dr + sr < 8 * length U" | "dr \<le> i" "8 * length U \<le> i - dr + sr"
    by linarith
  then show ?thesis
  proof cases
    case 1
    with assms(2) show ?thesis
      by (simp add: moved_bits_def moved_bit_def nth_append)
  next
    case 2
    then have "i - dr < 8 * length U - sr"
      by linarith
    with 2 N assms show ?thesis
      by (simp add: moved_bits_def moved_bit_def nth_append nth_byte_bits add.commute)
  next
    case 3
    then have "i - dr - (8 * length U - sr) < 8 + sr - dr" "\<not> i - dr < 8 * length U - sr"
      using N assms by auto
    with 3 N assms show ?thesis
      by (simp add: moved_bits_def moved_bit_def nth_append)
  qed
qed

lemma bit_bytes_map:
  "bit_bytes (map f [8 * a..<8 * a + 8 * m]) = map (\<lambda>k. of_bits (map f [8 * k..<8 * k + 8])) [a..<a + m]"
proof (induction m arbitrary: a)
  case (Suc m)
  have "[8 * a..<8 * a + 8 * Suc m] = [8 * a..<8 * a + 8] @ [8 * Suc a..<8 * Suc a + 8 * m]"
  proof -
    have "8 * a + 8 * Suc m = 8 * a + 8 + 8 * m" "8 * Suc a = 8 * a + 8"
      by simp_all
    then show ?thesis
      by (simp only:) (rule upt_add_eq_append [OF le_add1])
  qed
  moreover have "[a..<a + Suc m] = a # [Suc a..<Suc a + m]"
    by (simp add: upt_conv_Cons)
  ultimately show ?case
    by (simp only: map_append bit_bytes_step length_map length_upt diff_add_inverse Suc.IH list.map)
qed simp

lemma moved_bytes_bits:
  assumes "sr < 8" "dr < 8" "U \<noteq> []"
  shows "bit_bytes (moved_bits sr dr b U) = moved_bytes sr dr b U (length U) @ [moved_byte sr dr b U (length U)]"
proof -
  have "8 \<le> 8 * length U"
    using assms(3) by (cases U) simp_all
  then have len: "length (moved_bits sr dr b U) = 8 * Suc (length U)"
    using assms by (simp add: moved_bits_def)
  have "moved_bits sr dr b U = map (moved_bit sr dr b U) [0..<8 * Suc (length U)]"
    by (rule nth_equalityI) (simp_all only: len length_map length_upt, simp add: nth_moved_bits assms)
  then show ?thesis
    using bit_bytes_map [of "moved_bit sr dr b U" 0 "Suc (length U)"] by (simp add: moved_byte_def)
qed

text \<open>
  C7: \<open>h264e_slice_move\<close> by bits. The payload of the source, without its emulation prevention bytes and its first
  \<open>sr\<close> bits, is put behind the first \<open>dr\<close> bits of the destination's byte, and the bytes that come out are stored in
  their escaped form, all but the last, which is stored as it is; the memory around them is kept, and the result is
  the number of bytes put in less the number taken out.
\<close>

theorem slice_move_correct:
  fixes db sb sr dr sz :: nat
  assumes "sr < 8" "dr < 8" "\<not> (sr = 0 \<and> dr = 0)" and "n = sz - sb + of_bool (sr > 0)" "sb < sz" "sz < 2 ^ 31"
    and "sb + n \<le> length src" and "closed_bytes 0xff 0xff (take n (drop sb src))"
    and "db < length dst" "dst ! db AND mask (8 - dr) = 0"
    and "S = bit_bytes (moved_bits sr dr (dst ! db) (unescape 0xff 0xff (take n (drop sb src))))"
    and "E = escape 0 (butlast S)" and "db + length E < length dst"
  shows "h264e_slice_move dst src (int (8 * db + dr)) (int (8 * sb + sr)) (int sz) =
     Inr (int (length E) - int n, take db dst @ E @ last S # drop (db + Suc (length E)) dst)"
proof -
  let ?U = "unescape 0xff 0xff (take n (drop sb src))"
  have "take n (drop sb src) \<noteq> []"
    using assms by auto
  then have "?U \<noteq> []"
    using closed_unescape_Nil [OF assms(8)] by blast
  then have S: "S = moved_bytes sr dr (dst ! db) ?U (length ?U) @ [moved_byte sr dr (dst ! db) ?U (length ?U)]"
    using moved_bytes_bits assms(1,2,11) by blast
  have E: "escape 0 (moved_bytes sr dr (dst ! db) ?U (length ?U)) = E"
    by (simp only: assms(12) S butlast_snoc)
  have "sb \<le> sz"
    using assms(5) by simp
  from slice_move_bits [OF assms(1-4) this assms(6-8) refl assms(9,10)] assms(13) show ?thesis
    unfolding E by (simp only: S last_snoc)
qed

theorem slice_move_correct_witness:
  "h264e_slice_move [7, 0xe0, 0, 0, 0, 0, 0, 0, 0, 0, 0, 9] [1, 0x0f, 0x80, 0, 0, 3, 1, 0x80, 0] 11 15 8 =
     Inr (0, [7, 0xf8, 0, 0, 3, 0, 0x18, 0, 0, 0, 0, 9])"
proof -
  have S: "[0xf8, 0, 0, 0, 0x18, 0, 0, 0] =
      bit_bytes (moved_bits 7 3 ([7, 0xe0, 0, 0, 0, 0, 0, 0, 0, 0, 0, 9] ! 1)
        (unescape 0xff 0xff (take 8 (drop 1 [1, 0x0f, 0x80, 0, 0, 3, 1, 0x80, 0]))))"
    by code_simp
  have E: "[0xf8, 0, 0, 3, 0, 0x18, 0, 0] = escape 0 (butlast [0xf8, 0, 0, 0, 0x18, 0, 0, 0])"
    by code_simp
  from slice_move_correct [of 7 3 8 8 1, OF _ _ _ _ _ _ _ _ _ _ S E] show ?thesis
    by (simp add: mask_eq_exp_minus_1)
qed

text \<open>
  What \<open>h264e_slice_move\<close> does not see at the two ends of the data. It does not test the last byte it stores: source
  data without a forbidden sequence is moved by seven bits into data that ends in \<open>00 00 02\<close>. It starts with no zero
  bytes counted: zeros of the new header and of the moved data make a start code inside the unit, and an emulation
  prevention byte that the zeros of the old header ask for is moved as data.
\<close>

theorem slice_move_edges:
  "h264e_slice_move (0xfe # replicate 9 0) [0xff, 0x81, 0, 0, 3, 1] 7 8 6 = Inr (- 1, [0xff, 2, 0, 0, 2, 0, 0, 0, 0, 0]) \<and>
   emulation_free [0x81, 0, 0, 3, 1] \<and>
   \<not> emulation_free [0xff, 2, 0, 0, 2] \<and>
   h264e_slice_move (replicate 8 0) [0x08, 0x88, 0x80] 19 0 3 = Inr (0, [0, 0, 1, 0x11, 0x10, 0, 0, 0]) \<and>
   \<not> emulation_free [0, 0, 1, 0x11, 0x10] \<and>
   h264e_slice_move (0xa0 # replicate 7 0) [0xff, 0, 0, 3, 1, 0x80, 0] 3 17 6 = Inr (0, [0xa0, 0, 0xc0, 0x60, 0, 0, 0, 0]) \<and>
   unescape 0xff 0xff [0xff, 0, 0, 3, 1, 0x80] = [0xff, 0, 0, 1, 0x80]"
  by code_simp

end
