(* ===== verification/Mpp_Trie.thy ===== *)
theory Mpp_Trie
  imports Mpp_Prelude
begin

text \<open>
  The string trie of \<open>mpp_trie.c\<close>, by which configuration entries are found from their names. Names are paved
  into nodes of 16 links, one nibble at a time; when the last name is in, chains of nodes are shrunk to nodes
  with a tag, the nodes are moved together, and nodes and infos are copied to one buffer, the root.

  A name is the list of its bytes without the terminating zero. An info lies in its buffer under its byte
  offset, and a pointer to an info is that offset; reading where no info was stored is \<open>Out_Of_Bounds\<close>.
  \<open>alloc\<close> tells whether the allocations of a call succeed. Debug output is left out, and with it the checks
  that \<open>mpp_trie_debug\<close> enables.
\<close>

section \<open>Nodes\<close>

text \<open>A value stored in an \<open>rk_s16\<close>.\<close>

definition s16 :: "int \<Rightarrow> int" where
  "s16 x = (x + 32768) mod 65536 - 32768"

record trie_node =
  tn_next :: "int list"
  tn_id :: int
  tn_idx :: int
  tn_prev :: int
  tn_tag_val :: u64
  tn_key :: u16
  tn_tag_len :: int
  tn_next_cnt :: u16

abbreviation MPP_TRIE_KEY_MAX :: nat where "MPP_TRIE_KEY_MAX \<equiv> 16"
abbreviation INVALID_NODE_ID :: int where "INVALID_NODE_ID \<equiv> -1"
abbreviation MPP_TRIE_INFO_MAX :: int where "MPP_TRIE_INFO_MAX \<equiv> 4096"
abbreviation MPP_TRIE_NAME_MAX :: int where "MPP_TRIE_NAME_MAX \<equiv> 4096"
abbreviation MPP_TRIE_TAG_LEN_MAX :: int where "MPP_TRIE_TAG_LEN_MAX \<equiv> 16"
abbreviation sizeof_node :: int where "sizeof_node \<equiv> 56"
abbreviation sizeof_info :: int where "sizeof_info \<equiv> 4"

definition node_0 :: trie_node where
  "node_0 = \<lparr>tn_next = replicate MPP_TRIE_KEY_MAX 0, tn_id = 0, tn_idx = 0, tn_prev = 0, tn_tag_val = 0,
     tn_key = 0, tn_tag_len = 0, tn_next_cnt = 0\<rparr>"

section \<open>Infos\<close>

text \<open>The three lengths are bit fields of 12, 12 and 8 bits.\<close>

record trie_info =
  ti_index :: nat
  ti_ctx_len :: nat
  ti_str_len :: nat
  ti_name :: "u8 list"
  ti_ctx :: "u8 list"

type_synonym info_mem = "(int \<times> trie_info) list"

definition info_at :: "info_mem \<Rightarrow> int \<Rightarrow> trie_info run" where
  "info_at mem off = (case map_of mem off of None \<Rightarrow> Inl Out_Of_Bounds | Some i \<Rightarrow> Inr i)"

text \<open>The C string at the head of the name's bytes, and the little-endian bytes of a 32-bit value.\<close>

definition info_name :: "trie_info \<Rightarrow> u8 list" where
  "info_name info = takeWhile (\<lambda>c. c \<noteq> 0) (ti_name info)"

definition u32_bytes :: "u32 \<Rightarrow> u8 list" where
  "u32_bytes x = [ucast x, ucast (drop_bit 8 x), ucast (drop_bit 16 x), ucast (drop_bit 24 x)]"

fun bytes_u32 :: "u8 list \<Rightarrow> u32 run" where
  "bytes_u32 (a # b # c # d # xs) =
     Inr (ucast a OR push_bit 8 (ucast b) OR push_bit 16 (ucast c) OR push_bit 24 (ucast d))"
| "bytes_u32 _ = Inl Out_Of_Bounds"

definition info_size :: "trie_info \<Rightarrow> int" where
  "info_size info = sizeof_info + int (ti_str_len info) + int (ti_ctx_len info)"

text \<open>\<open>nodes\<close> points to the nodes, and in a finished trie to the infos behind them.\<close>

record MppTrieImpl =
  tr_name :: "u8 list option"
  tr_name_len :: int
  tr_buf_size :: int
  tr_node_count :: int
  tr_node_used :: int
  tr_nodes :: "trie_node list"
  tr_infos :: info_mem
  tr_info_buf :: "info_mem option"
  tr_info_count :: int
  tr_info_buf_size :: int
  tr_info_buf_pos :: int
  tr_info_name_max :: int

section \<open>Paving\<close>

definition node_update :: "trie_node list \<Rightarrow> int \<Rightarrow> (trie_node \<Rightarrow> trie_node) \<Rightarrow> trie_node list run" where
  "node_update ns i f = run_bind (array_get ns i) (\<lambda>n. array_set ns i (f n))"

definition trie_get_node :: "bool \<Rightarrow> MppTrieImpl \<Rightarrow> int \<Rightarrow> u16 \<Rightarrow> (int \<times> MppTrieImpl) run" where
  "trie_get_node alloc trie prev key =
     (if tr_node_used trie \<ge> tr_node_count trie \<and> \<not> alloc then Inr (- 1, trie)
      else
        let t1 = (if tr_node_used trie \<ge> tr_node_count trie
              then trie\<lparr>tr_nodes := tr_nodes trie @ replicate (nat (tr_node_count trie)) node_0,
                        tr_node_count := tr_node_count trie * 2\<rparr>
              else trie);
            idx = tr_node_used t1
        in run_bind (node_update (tr_nodes t1) idx (\<lambda>n. n\<lparr>tn_idx := s16 idx,
             tn_prev := (if prev > 0 then s16 prev else 0), tn_key := key, tn_id := INVALID_NODE_ID\<rparr>)) (\<lambda>ns.
           run_bind (if prev \<ge> 0 then node_update ns prev (\<lambda>n. n\<lparr>tn_next_cnt := tn_next_cnt n + 1\<rparr>) else Inr ns) (\<lambda>ns1.
             Inr (idx, t1\<lparr>tr_nodes := ns1, tr_node_used := idx + 1\<rparr>))))"

definition trie_prepare_buf :: "bool \<Rightarrow> MppTrieImpl \<Rightarrow> int \<Rightarrow> mpp_ret \<times> MppTrieImpl" where
  "trie_prepare_buf alloc p sz =
     (if tr_info_count p \<ge> MPP_TRIE_INFO_MAX then (MPP_NOK, p)
      else if tr_info_buf_pos p + sz > tr_info_buf_size p then
        if alloc then (MPP_OK, p\<lparr>tr_info_buf_size := tr_info_buf_size p * 2\<rparr>) else (MPP_NOK, p)
      else (MPP_OK, p))"

text \<open>One nibble: the link is followed, or a node is added behind it. A negative result is an error.\<close>

definition pave_nibble :: "bool \<Rightarrow> MppTrieImpl \<Rightarrow> int \<Rightarrow> u8 \<Rightarrow> (int \<times> MppTrieImpl) run" where
  "pave_nibble alloc p idx key =
     run_bind (array_get (tr_nodes p) idx) (\<lambda>node.
     run_bind (array_get (tn_next node) (uint key)) (\<lambda>next.
       if next \<noteq> 0 then Inr (next, p)
       else run_bind (trie_get_node alloc p idx (ucast key)) (\<lambda>(next, p1).
         if next < 0 then Inr (next, p1)
         else run_bind (node_update (tr_nodes p1) idx (\<lambda>n. n\<lparr>tn_next := (tn_next n)[unat key := s16 next]\<rparr>)) (\<lambda>ns.
           Inr (next, p1\<lparr>tr_nodes := ns\<rparr>)))))"

fun pave_loop :: "bool \<Rightarrow> MppTrieImpl \<Rightarrow> int \<Rightarrow> u8 list \<Rightarrow> (int \<times> MppTrieImpl) run" where
  "pave_loop alloc p idx [] = Inr (idx, p)"
| "pave_loop alloc p idx (key # s) =
     run_bind (pave_nibble alloc p idx (drop_bit 4 key AND 0xf)) (\<lambda>(next, p1).
       if next < 0 then Inr (next, p1)
       else run_bind (pave_nibble alloc p1 next (key AND 0xf)) (\<lambda>(next, p2).
         if next < 0 then Inr (next, p2) else pave_loop alloc p2 next s))"

definition trie_pave_node :: "bool \<Rightarrow> MppTrieImpl \<Rightarrow> u8 list \<Rightarrow> int \<Rightarrow> (int \<times> MppTrieImpl) run" where
  "trie_pave_node alloc p name str_len = pave_loop alloc p 0 (take (nat str_len) name)"

section \<open>Creating a trie\<close>

definition trie_impl_0 :: MppTrieImpl where
  "trie_impl_0 = \<lparr>tr_name = None, tr_name_len = 0, tr_buf_size = 0, tr_node_count = 0, tr_node_used = 0,
     tr_nodes = [], tr_infos = [], tr_info_buf = None, tr_info_count = 0, tr_info_buf_size = 0,
     tr_info_buf_pos = 0, tr_info_name_max = 0\<rparr>"

definition strnlen :: "u8 list \<Rightarrow> int \<Rightarrow> int" where
  "strnlen name n = min (int (length name)) n"

definition mpp_trie_init :: "bool \<Rightarrow> u8 list option \<Rightarrow> (mpp_ret \<times> MppTrieImpl option) run" where
  "mpp_trie_init alloc name =
     (case name of None \<Rightarrow> Inr (MPP_NOK, None)
      | Some s \<Rightarrow>
          if \<not> alloc then Inr (MPP_NOK, None)
          else
            let name_len = strnlen s MPP_TRIE_NAME_MAX + 1;
                p = trie_impl_0\<lparr>tr_name := Some (take (nat name_len) (s @ [0])), tr_name_len := name_len,
                  tr_node_count := 900, tr_nodes := replicate 900 node_0,
                  tr_info_buf_size := 4096, tr_info_buf := Some []\<rparr>
            in run_bind (trie_get_node alloc p (- 1) 0) (\<lambda>(_, p1). Inr (MPP_OK, Some p1)))"

section \<open>Looking up a name\<close>

record trie_walk =
  wk_tag :: u64
  wk_len :: u32
  wk_match :: int

definition mpp_trie_walk :: "trie_node list \<Rightarrow> trie_walk \<Rightarrow> int \<Rightarrow> u8 \<Rightarrow> bool \<Rightarrow> (int \<times> trie_walk) run" where
  "mpp_trie_walk root p idx keyx fin =
     run_bind (array_get root idx) (\<lambda>node.
       if tn_tag_len node = 0 \<or> wk_match p = tn_idx node then
         run_bind (array_get (tn_next node) (uint keyx)) (\<lambda>next.
           Inr (next, p\<lparr>wk_tag := 0, wk_len := 0, wk_match := - 1\<rparr>))
       else
         let val_new = push_bit 4 (wk_tag p) OR ucast keyx; len_new = sint (wk_len p + 1)
         in if tn_tag_len node > len_new \<and> \<not> fin then
              Inr (tn_idx node, p\<lparr>wk_tag := val_new, wk_len := word_of_int len_new, wk_match := - 1\<rparr>)
            else if tn_tag_val node \<noteq> val_new then
              Inr (INVALID_NODE_ID, p\<lparr>wk_tag := 0, wk_len := 0, wk_match := - 1\<rparr>)
            else Inr (tn_idx node, p\<lparr>wk_tag := 0, wk_len := 0, wk_match := tn_idx node\<rparr>))"

text \<open>An empty name makes the loop read behind the terminating zero.\<close>

fun get_node_loop :: "trie_node list \<Rightarrow> trie_walk \<Rightarrow> int \<Rightarrow> u8 list \<Rightarrow> int run" where
  "get_node_loop root walk idx [] = Inl Out_Of_Bounds"
| "get_node_loop root walk idx (key # s) =
     run_bind (mpp_trie_walk root walk idx (drop_bit 4 key AND 0xf) False) (\<lambda>(idx1, walk1).
       if idx1 < 0 then Inr idx1
       else run_bind (mpp_trie_walk root walk1 idx1 (key AND 0xf) (s = [])) (\<lambda>(idx2, walk2).
         if idx2 < 0 \<or> s = [] then Inr idx2 else get_node_loop root walk2 idx2 s))"

definition mpp_trie_get_node :: "trie_node list \<Rightarrow> u8 list \<Rightarrow> int option run" where
  "mpp_trie_get_node root name =
     run_bind (get_node_loop root \<lparr>wk_tag = 0, wk_len = 0, wk_match = 0\<rparr> 0 name) (\<lambda>idx.
       Inr (if idx \<ge> 0 then Some idx else None))"

section \<open>Adding an info\<close>

text \<open>What \<open>memcpy\<close> and the padding loop leave of \<open>xs\<close> in \<open>n\<close> bytes.\<close>

definition pad_zero :: "u8 list \<Rightarrow> int \<Rightarrow> u8 list" where
  "pad_zero xs n = xs @ replicate (nat n - length xs) 0"

definition trie_set_id :: "MppTrieImpl \<Rightarrow> int \<Rightarrow> int \<Rightarrow> MppTrieImpl run" where
  "trie_set_id p idx i =
     run_bind (node_update (tr_nodes p) idx (\<lambda>n. n\<lparr>tn_id := i\<rparr>)) (\<lambda>ns. Inr (p\<lparr>tr_nodes := ns\<rparr>))"

text \<open>\<open>ctx\<close> gives the bytes behind the context pointer, which are read last: they may belong to the trie itself.\<close>

definition trie_add_named :: "bool \<Rightarrow> MppTrieImpl \<Rightarrow> u8 list \<Rightarrow> (MppTrieImpl \<Rightarrow> u8 list) \<Rightarrow> (mpp_ret \<times> MppTrieImpl) run" where
  "trie_add_named alloc p name ctx =
     (let str_real = strnlen name MPP_TRIE_NAME_MAX + 1;
          str_len = (str_real + 3) AND NOT 3;
          ctx_real = of_nat (length (ctx p)) :: u32;
          ctx_len = MPP_ALIGN ctx_real 4;
          info_sz = sint (word_of_int (sizeof_info + str_len) + ctx_len)
      in if str_len \<ge> MPP_TRIE_NAME_MAX then Inr (MPP_NOK, p)
      else
        let (ret, p1) = trie_prepare_buf alloc p info_sz
        in if ret \<noteq> MPP_OK then Inr (MPP_NOK, p1)
        else run_bind (trie_pave_node alloc p1 name str_real) (\<lambda>(idx, p2).
          if idx < 0 then Inr (MPP_NOK, p2)
          else run_bind (array_get (tr_nodes p2) idx) (\<lambda>node.
            if tn_id node \<noteq> - 1 then Inr (MPP_NOK, p2)
            else run_bind (trie_set_id p2 idx (tr_info_buf_pos p2)) (\<lambda>p3.
              let p4 = (if tr_info_name_max p3 < str_real - 1 then p3\<lparr>tr_info_name_max := str_real - 1\<rparr> else p3);
                  info = \<lparr>ti_index = nat (tr_info_count p4 mod 4096), ti_ctx_len = unat ctx_len mod 4096,
                    ti_str_len = nat (str_len mod 256), ti_name = pad_zero (name @ [0]) str_len,
                    ti_ctx = pad_zero (ctx p4) (uint ctx_len)\<rparr>
              in case tr_info_buf p4 of None \<Rightarrow> Inl Null_Deref
                 | Some buf \<Rightarrow>
                     if tr_info_buf_pos p4 + info_sz > tr_info_buf_size p4 then Inl Out_Of_Bounds
                     else Inr (MPP_OK, p4\<lparr>tr_info_buf := Some (buf @ [(tr_info_buf_pos p4, info)]),
                       tr_info_buf_pos := tr_info_buf_pos p4 + info_sz, tr_info_count := tr_info_count p4 + 1\<rparr>)))))"

section \<open>Shrinking\<close>

fun relink_prev :: "trie_node list \<Rightarrow> int list \<Rightarrow> int \<Rightarrow> trie_node list run" where
  "relink_prev ns [] prev_idx = Inr ns"
| "relink_prev ns (next # ks) prev_idx =
     run_bind (if next = 0 then Inr ns else node_update ns next (\<lambda>n. n\<lparr>tn_prev := s16 prev_idx\<rparr>)) (\<lambda>ns1.
       relink_prev ns1 ks prev_idx)"

text \<open>Node \<open>i\<close> is merged into the node before it, or stays; the second result tells which.\<close>

definition shrink_node :: "trie_node list \<Rightarrow> int \<Rightarrow> (trie_node list \<times> bool) run" where
  "shrink_node root i =
     run_bind (array_get root i) (\<lambda>node.
     run_bind (array_get root (tn_prev node)) (\<lambda>prev.
       if tn_next_cnt prev > 1 then Inr (root, False)
       else if tn_tag_len node \<ge> MPP_TRIE_TAG_LEN_MAX then Inr (root, False)
       else if tn_id prev \<ge> 0 then Inr (root, False)
       else if tn_tag_len node < 0 then Inl Bad_Shift
       else
         let prev1 = prev\<lparr>tn_id := tn_id node, tn_tag_len := tn_tag_len node + 1,
               tn_tag_val := push_bit (nat (tn_tag_len node) * 4) (ucast (tn_key node)) OR tn_tag_val node,
               tn_next_cnt := tn_next_cnt node, tn_next := tn_next node\<rparr>
         in run_bind (array_set root (tn_prev node) prev1) (\<lambda>ns1.
            run_bind (relink_prev ns1 (tn_next prev1) (tn_prev node)) (\<lambda>ns2.
            run_bind (array_set ns2 i (node_0\<lparr>tn_id := INVALID_NODE_ID\<rparr>)) (\<lambda>ns3.
              Inr (ns3, True))))))"

fun shrink_loop :: "trie_node list \<Rightarrow> int \<Rightarrow> nat \<Rightarrow> (trie_node list \<times> int) run" where
  "shrink_loop root valid 0 = Inr (root, valid)"
| "shrink_loop root valid (Suc i) =
     (if i = 0 then Inr (root, valid)
      else run_bind (shrink_node root (int i)) (\<lambda>(ns, merged).
        shrink_loop ns (if merged then valid - 1 else valid) i))"

section \<open>Moving the nodes together\<close>

text \<open>The first link to \<open>old\<close> is set to \<open>new\<close>.\<close>

fun replace_link :: "int \<Rightarrow> int \<Rightarrow> int list \<Rightarrow> int list" where
  "replace_link old new [] = []"
| "replace_link old new (k # ks) = (if k = old then new # ks else k # replace_link old new ks)"

definition move_node :: "trie_node list \<Rightarrow> int \<Rightarrow> int \<Rightarrow> trie_node list run" where
  "move_node root j i =
     run_bind (array_get root j) (\<lambda>tmp.
     run_bind (node_update root (tn_prev tmp) (\<lambda>n. n\<lparr>tn_next := replace_link (tn_idx tmp) (s16 i) (tn_next n)\<rparr>)) (\<lambda>ns1.
     run_bind (array_get ns1 j) (\<lambda>tmp.
     run_bind (array_set ns1 i (tmp\<lparr>tn_idx := s16 i\<rparr>)) (\<lambda>ns2.
     run_bind (array_set ns2 j node_0) (\<lambda>ns3.
     run_bind (array_get ns3 i) (\<lambda>node.
       relink_prev ns3 (tn_next node) i))))))"

text \<open>The first node in use from \<open>j\<close> on, of \<open>n\<close> nodes, is moved to \<open>i\<close>.\<close>

function fill_node :: "trie_node list \<Rightarrow> nat \<Rightarrow> nat \<Rightarrow> nat \<Rightarrow> trie_node list run" where
  "fill_node root i j n =
     (if j < n then
        run_bind (array_get root (int j)) (\<lambda>tmp.
          if tn_idx tmp = 0 then fill_node root i (Suc j) n else move_node root (int j) (int i))
      else Inr root)"
  by pat_completeness auto
termination
  by (relation "measure (\<lambda>(root, i, j, n). n - j)") auto

declare fill_node.simps [simp del]

function move_loop_nodes :: "trie_node list \<Rightarrow> nat \<Rightarrow> nat \<Rightarrow> nat \<Rightarrow> trie_node list run" where
  "move_loop_nodes root i valid n =
     (if i < valid then
        run_bind (array_get root (int i)) (\<lambda>node.
        run_bind (if tn_idx node \<noteq> 0 then Inr root else fill_node root i i n) (\<lambda>ns.
          move_loop_nodes ns (Suc i) valid n))
      else Inr root)"
  by pat_completeness auto
termination
  by (relation "measure (\<lambda>(root, i, valid, n). valid - i)") auto

declare move_loop_nodes.simps [simp del]

section \<open>The last info\<close>

text \<open>
  The infos from the position \<open>len\<close> on are copied to the root behind the nodes, from \<open>pos\<close> on, and their nodes
  get the new positions.
\<close>

fun copy_infos :: "trie_node list \<Rightarrow> info_mem \<Rightarrow> nat \<Rightarrow> info_mem \<Rightarrow> int \<Rightarrow> int \<Rightarrow> (trie_node list \<times> info_mem) run" where
  "copy_infos ns buf 0 out len pos = Inr (ns, out)"
| "copy_infos ns buf (Suc n) out len pos =
     run_bind (info_at buf len) (\<lambda>src.
     run_bind (mpp_trie_get_node ns (info_name src)) (\<lambda>node.
       case node of None \<Rightarrow> Inl Null_Deref
       | Some k \<Rightarrow>
           run_bind (node_update ns k (\<lambda>n. n\<lparr>tn_id := pos\<rparr>)) (\<lambda>ns1.
             copy_infos ns1 buf n (out @ [(pos, src)]) (len + info_size src) (pos + info_size src))))"

definition mpp_trie_get_info_from_root :: "trie_node list \<Rightarrow> u8 list \<Rightarrow> int option run" where
  "mpp_trie_get_info_from_root root name =
     run_bind (mpp_trie_get_node root name) (\<lambda>node.
       case node of None \<Rightarrow> Inr None
       | Some k \<Rightarrow> run_bind (array_get root k) (\<lambda>n. Inr (if tn_id n < 0 then None else Some (tn_id n))))"

definition name_name :: "u8 list" where "name_name = [0x5f, 0x5f, 0x6e, 0x61, 0x6d, 0x65, 0x5f, 0x5f]"
definition name_info :: "u8 list" where "name_info = [0x5f, 0x5f, 0x69, 0x6e, 0x66, 0x6f, 0x5f, 0x5f]"
definition name_node :: "u8 list" where "name_node = [0x5f, 0x5f, 0x6e, 0x6f, 0x64, 0x65, 0x5f, 0x5f]"

text \<open>The first four context bytes of an info are overwritten.\<close>

definition set_info_u32 :: "info_mem \<Rightarrow> int \<Rightarrow> u32 \<Rightarrow> info_mem run" where
  "set_info_u32 mem off v =
     run_bind (info_at mem off) (\<lambda>info.
       Inr (map (\<lambda>(o', i). (o', if o' = off then i\<lparr>ti_ctx := u32_bytes v @ drop 4 (ti_ctx i)\<rparr> else i)) mem))"

definition trie_finish :: "bool \<Rightarrow> MppTrieImpl \<Rightarrow> (mpp_ret \<times> MppTrieImpl) run" where
  "trie_finish alloc p =
     run_bind (shrink_loop (tr_nodes p) (tr_node_used p) (nat (tr_node_used p))) (\<lambda>(ns1, valid).
     run_bind (move_loop_nodes ns1 1 (nat valid) (nat (tr_node_used p))) (\<lambda>ns2.
       let nodes_size = sizeof_node * valid;
           p1 = p\<lparr>tr_nodes := ns2, tr_node_used := valid,
             tr_buf_size := (nodes_size + tr_info_buf_pos p + 7) AND NOT 7\<rparr>
       in if \<not> alloc then Inr (MPP_NOK, p1)
       else case tr_info_buf p of None \<Rightarrow> Inl Null_Deref
       | Some buf \<Rightarrow>
           run_bind (copy_infos (take (nat valid) ns2) buf (nat (tr_info_count p)) [] 0 nodes_size) (\<lambda>(ns3, infos).
           run_bind (mpp_trie_get_info_from_root ns3 name_node) (\<lambda>off.
           run_bind (case off of None \<Rightarrow> Inr infos | Some o' \<Rightarrow> set_info_u32 infos o' (word_of_int valid)) (\<lambda>infos1.
             Inr (MPP_OK, p1\<lparr>tr_nodes := ns3, tr_infos := infos1, tr_info_buf := None\<rparr>))))))"

text \<open>\<open>allocs\<close> are the outcomes for the three infos of the trie itself and for the root.\<close>

definition mpp_trie_last_info :: "bool \<times> bool \<times> bool \<times> bool \<Rightarrow> MppTrieImpl \<Rightarrow> (mpp_ret \<times> MppTrieImpl) run" where
  "mpp_trie_last_info allocs p =
     (case allocs of (a1, a2, a3, a4) \<Rightarrow>
        let pos = tr_info_count p + 3;
            own = (case tr_name p of None \<Rightarrow> [] | Some s \<Rightarrow> s)
        in run_bind (trie_add_named a1 p name_name (\<lambda>_. own)) (\<lambda>(_, p1).
           run_bind (trie_add_named a2 p1 name_info (\<lambda>_. u32_bytes (word_of_int pos))) (\<lambda>(_, p2).
           run_bind (trie_add_named a3 p2 name_node (\<lambda>t. u32_bytes (word_of_int (tr_node_used t)))) (\<lambda>(_, p3).
             trie_finish a4 p3))))"

definition mpp_trie_add_info :: "bool \<times> bool \<times> bool \<times> bool \<Rightarrow> MppTrieImpl \<Rightarrow> u8 list option \<Rightarrow> u8 list \<Rightarrow> (mpp_ret \<times> MppTrieImpl) run" where
  "mpp_trie_add_info allocs p name ctx =
     (case name of None \<Rightarrow> mpp_trie_last_info allocs p
      | Some s \<Rightarrow> trie_add_named (fst allocs) p s (\<lambda>_. ctx))"

section \<open>Reading a finished trie\<close>

definition mpp_trie_get_info :: "MppTrieImpl \<Rightarrow> u8 list \<Rightarrow> int option run" where
  "mpp_trie_get_info p name = mpp_trie_get_info_from_root (tr_nodes p) name"

definition mpp_trie_get_info_first :: "MppTrieImpl \<Rightarrow> int" where
  "mpp_trie_get_info_first p = tr_node_used p * sizeof_node"

definition mpp_trie_get_info_next :: "MppTrieImpl \<Rightarrow> int option \<Rightarrow> int option run" where
  "mpp_trie_get_info_next p info =
     (case info of None \<Rightarrow> Inr None
      | Some off \<Rightarrow> run_bind (info_at (tr_infos p) off) (\<lambda>i.
          Inr (if int (ti_index i) \<ge> tr_info_count p - 1 then None else Some (off + info_size i))))"

text \<open>The accessors; a null trie is \<open>None\<close>.\<close>

definition mpp_trie_get_node_count :: "MppTrieImpl option \<Rightarrow> int" where
  "mpp_trie_get_node_count p = (case p of None \<Rightarrow> 0 | Some t \<Rightarrow> tr_node_used t)"

definition mpp_trie_get_info_count :: "MppTrieImpl option \<Rightarrow> int" where
  "mpp_trie_get_info_count p = (case p of None \<Rightarrow> 0 | Some t \<Rightarrow> tr_info_count t)"

definition mpp_trie_get_buf_size :: "MppTrieImpl option \<Rightarrow> int" where
  "mpp_trie_get_buf_size p = (case p of None \<Rightarrow> 0 | Some t \<Rightarrow> tr_buf_size t)"

definition mpp_trie_get_name_max :: "MppTrieImpl option \<Rightarrow> int" where
  "mpp_trie_get_name_max p = (case p of None \<Rightarrow> 0 | Some t \<Rightarrow> tr_info_name_max t)"

definition mpp_trie_get_node_root :: "MppTrieImpl option \<Rightarrow> (trie_node list \<times> info_mem) option" where
  "mpp_trie_get_node_root p = (case p of None \<Rightarrow> None | Some t \<Rightarrow> Some (tr_nodes t, tr_infos t))"

text \<open>The second result tells whether the nodes are released, which they are not in an imported trie.\<close>

definition mpp_trie_deinit :: "MppTrieImpl option \<Rightarrow> mpp_ret \<times> bool" where
  "mpp_trie_deinit p = (case p of None \<Rightarrow> (MPP_NOK, False) | Some t \<Rightarrow> (MPP_OK, tr_node_count t \<noteq> 0))"

section \<open>Importing a root\<close>

definition root_u32 :: "info_mem \<Rightarrow> int \<Rightarrow> int run" where
  "root_u32 mem off = run_bind (info_at mem off) (\<lambda>i. run_bind (bytes_u32 (ti_ctx i)) (\<lambda>v. Inr (sint v)))"

text \<open>The infos are walked through, and each must be found from its name and have its place.\<close>

fun import_check :: "MppTrieImpl \<Rightarrow> nat \<Rightarrow> nat \<Rightarrow> int option \<Rightarrow> mpp_ret run" where
  "import_check p 0 i info = Inr MPP_OK"
| "import_check p (Suc n) i info =
     (case info of None \<Rightarrow> Inr MPP_NOK
      | Some off \<Rightarrow>
          run_bind (info_at (tr_infos p) off) (\<lambda>inf.
          run_bind (mpp_trie_get_info p (info_name inf)) (\<lambda>ret.
          run_bind (mpp_trie_get_info_next p (Some off)) (\<lambda>next.
            case ret of None \<Rightarrow> Inr MPP_NOK
            | Some off1 \<Rightarrow>
                run_bind (info_at (tr_infos p) off1) (\<lambda>inf1.
                  if off = off1 \<and> ti_index inf1 = i then import_check p n (Suc i) next else Inr MPP_NOK)))))"

definition mpp_trie_init_by_root :: "bool \<Rightarrow> trie_node list \<Rightarrow> info_mem \<Rightarrow> (mpp_ret \<times> MppTrieImpl option) run" where
  "mpp_trie_init_by_root alloc root infos =
     (if \<not> alloc then Inr (MPP_NOK, None)
      else
        run_bind (mpp_trie_get_info_from_root root name_name) (\<lambda>i1.
        run_bind (case i1 of None \<Rightarrow> Inr None | Some off \<Rightarrow> run_bind (info_at infos off) (\<lambda>i. Inr (Some (ti_ctx i)))) (\<lambda>nm.
        run_bind (mpp_trie_get_info_from_root root name_node) (\<lambda>i2.
        run_bind (case i2 of None \<Rightarrow> Inr 0 | Some off \<Rightarrow> root_u32 infos off) (\<lambda>used.
        run_bind (mpp_trie_get_info_from_root root name_info) (\<lambda>i3.
        run_bind (case i3 of None \<Rightarrow> Inr 0 | Some off \<Rightarrow> root_u32 infos off) (\<lambda>count.
          let p = trie_impl_0\<lparr>tr_name := nm, tr_node_used := used, tr_info_count := count,
                tr_nodes := root, tr_infos := infos\<rparr>
          in run_bind (import_check p (nat count) 0 (Some (mpp_trie_get_info_first p))) (\<lambda>ret.
            Inr (ret, if ret = MPP_OK then Some p else None)))))))))"

end
