(* ===== verification/Mpp_Trie_Find.thy ===== *)
theory Mpp_Trie_Find
  imports Mpp_Trie
begin

text \<open>
  The specification of a lookup, \<open>tfind\<close>, which compares whole tags, the invariant of the nodes, and that
  \<open>mpp_trie_get_node\<close> finds whatever \<open>tfind\<close> finds.
\<close>

section \<open>Specification of a lookup\<close>

definition nibbles :: "u8 list \<Rightarrow> u8 list" where
  "nibbles name = concat (map (\<lambda>c. [drop_bit 4 c AND 0xf, c AND 0xf]) name)"

lemma nibbles_Nil [simp]: "nibbles [] = []"
  and nibbles_Cons [simp]: "nibbles (c # s) = (drop_bit 4 c AND 0xf) # (c AND 0xf) # nibbles s"
  by (simp_all add: nibbles_def)

lemma and_15: "(x :: u8) AND 0xf = take_bit 4 x"
  by (simp add: take_bit_eq_mask mask_eq_exp_minus_1)

lemma nibble_lt: "unat ((x :: u8) AND 0xf) < 16"
proof -
  have "unat (take_bit 4 x) < 2 ^ 4"
    by (simp only: unsigned_take_bit_eq take_bit_nat_less_exp)
  then show ?thesis by (simp add: and_15)
qed

lemma nibbles_lt: "x \<in> set (nibbles name) \<Longrightarrow> unat x < 16"
  by (induction name) (auto simp: nibble_lt)

lemma byte_of_nibbles: "push_bit 4 (drop_bit 4 c AND 0xf) OR (c AND 0xf) = (c :: u8)"
  by (rule bit_word_eqI) (auto simp: and_15 bit_or_iff bit_push_bit_iff bit_take_bit_iff bit_drop_bit_eq)

lemma nibbles_inj: "nibbles s = nibbles t \<longleftrightarrow> s = t"
proof (induction s arbitrary: t)
  case (Cons c s)
  show ?case
  proof (cases t)
    case (Cons d t')
    have "c = d" if "drop_bit 4 c AND 0xf = drop_bit 4 d AND 0xf" "c AND 0xf = d AND 0xf"
      using that byte_of_nibbles [of c] byte_of_nibbles [of d] by simp
    then show ?thesis
      using Cons Cons.IH by auto
  qed simp
qed (case_tac t; simp)

lemma nibbles_eq_Nil [simp]: "nibbles s = [] \<longleftrightarrow> s = []"
  using nibbles_inj [of s "[]"] by simp

text \<open>The tag of a list of nibbles.\<close>

definition tag_word :: "u8 list \<Rightarrow> u64" where
  "tag_word xs = foldl (\<lambda>t x. push_bit 4 t OR ucast x) 0 xs"

lemma tag_word_Nil [simp]: "tag_word [] = 0"
  and tag_word_snoc: "tag_word (xs @ [x]) = push_bit 4 (tag_word xs) OR ucast x"
  by (simp_all add: tag_word_def)

abbreviation link :: "trie_node list \<Rightarrow> nat \<Rightarrow> u8 \<Rightarrow> int" where
  "link ns i x \<equiv> tn_next (ns ! i) ! unat x"

abbreviation tag_len :: "trie_node list \<Rightarrow> nat \<Rightarrow> nat" where
  "tag_len ns i \<equiv> nat (tn_tag_len (ns ! i))"

function tfind :: "trie_node list \<Rightarrow> nat \<Rightarrow> u8 list \<Rightarrow> nat option" where
  "tfind ns i xs =
     (if length xs < tag_len ns i \<or> tag_len ns i \<noteq> 0 \<and> tag_word (take (tag_len ns i) xs) \<noteq> tn_tag_val (ns ! i) then None
      else case drop (tag_len ns i) xs of [] \<Rightarrow> Some i
        | x # ys \<Rightarrow> if link ns i x = 0 then None else tfind ns (nat (link ns i x)) ys)"
  by pat_completeness auto
termination
proof (relation "measure (\<lambda>(ns, i, xs). length xs)")
  fix ns :: "trie_node list" and i :: nat and xs ys :: "u8 list" and x :: u8
  assume "drop (tag_len ns i) xs = x # ys"
  from arg_cong [OF this, of length]
  show "((ns, nat (link ns i x), ys), (ns, i, xs)) \<in> measure (\<lambda>(ns, i, xs). length xs)"
    by simp
qed simp

declare tfind.simps [simp del]

lemma tfind_Some_iff:
  "tfind ns i xs = Some k \<longleftrightarrow>
     tag_len ns i \<le> length xs \<and> (tag_len ns i \<noteq> 0 \<longrightarrow> tag_word (take (tag_len ns i) xs) = tn_tag_val (ns ! i)) \<and>
     (case drop (tag_len ns i) xs of [] \<Rightarrow> k = i
      | x # ys \<Rightarrow> link ns i x \<noteq> 0 \<and> tfind ns (nat (link ns i x)) ys = Some k)"
  by (subst tfind.simps) (auto split: list.splits)

section \<open>The invariant of the nodes\<close>

definition alive :: "trie_node list \<Rightarrow> nat \<Rightarrow> bool" where
  "alive ns j \<longleftrightarrow> j < length ns \<and> (j = 0 \<or> tn_idx (ns ! j) \<noteq> 0)"

definition children :: "trie_node list \<Rightarrow> nat \<Rightarrow> nat set" where
  "children ns j = {c. c < MPP_TRIE_KEY_MAX \<and> tn_next (ns ! j) ! c \<noteq> 0}"

text \<open>A node is what its links and its neighbours say: \<open>k\<close> hangs below \<open>j\<close> under the key \<open>c\<close>.\<close>

definition hangs :: "trie_node list \<Rightarrow> nat \<Rightarrow> nat \<Rightarrow> nat \<Rightarrow> bool" where
  "hangs ns j c k \<longleftrightarrow> tn_prev (ns ! k) = int j \<and> tn_key (ns ! k) = of_nat c \<and>
     c < MPP_TRIE_KEY_MAX \<and> tn_next (ns ! j) ! c = int k"

definition node_wf :: "trie_node list \<Rightarrow> nat \<Rightarrow> bool" where
  "node_wf ns j \<longleftrightarrow>
     length (tn_next (ns ! j)) = MPP_TRIE_KEY_MAX \<and> tn_idx (ns ! j) = int j \<and>
     0 \<le> tn_tag_len (ns ! j) \<and> tn_tag_len (ns ! j) \<le> MPP_TRIE_TAG_LEN_MAX \<and>
     (tn_tag_len (ns ! j) = 0 \<longrightarrow> tn_tag_val (ns ! j) = 0) \<and> j < 32768 \<and>
     (\<forall>c \<in> children ns j. \<exists>k. alive ns k \<and> k \<noteq> 0 \<and> hangs ns j c k) \<and>
     (j \<noteq> 0 \<longrightarrow> (\<exists>p c. alive ns p \<and> p < j \<and> hangs ns p c j)) \<and>
     tn_next_cnt (ns ! j) = of_nat (card (children ns j))"

definition trie_wf :: "trie_node list \<Rightarrow> bool" where
  "trie_wf ns \<longleftrightarrow> ns \<noteq> [] \<and> tn_tag_len (ns ! 0) = 0 \<and> (\<forall>j. alive ns j \<longrightarrow> node_wf ns j)"

lemma trie_wf_alive: "trie_wf ns \<Longrightarrow> alive ns j \<Longrightarrow> node_wf ns j"
  by (simp add: trie_wf_def)

lemma alive_less: "alive ns j \<Longrightarrow> j < length ns"
  by (simp add: alive_def)

lemma link_alive:
  assumes "trie_wf ns" "alive ns j" "unat x < 16" "link ns j x \<noteq> 0"
  shows "\<exists>k. link ns j x = int k \<and> alive ns k \<and> k \<noteq> 0 \<and> hangs ns j (unat x) k"
proof -
  have "unat x \<in> children ns j"
    using assms(3,4) by (simp add: children_def)
  then obtain k where "alive ns k" "k \<noteq> 0" "hangs ns j (unat x) k"
    using trie_wf_alive [OF assms(1,2)] unfolding node_wf_def by blast
  then show ?thesis
    by (auto simp: hangs_def)
qed

lemma hangs_unique:
  assumes "hangs ns j c k" "hangs ns j' c' k"
  shows "j = j'" and "c = c'"
proof -
  show "j = j'"
    using assms by (simp add: hangs_def)
  have "unat (of_nat c :: u16) = unat (of_nat c' :: u16)"
    using assms by (simp add: hangs_def)
  moreover have "c < 16" "c' < 16"
    using assms by (simp_all add: hangs_def)
  ultimately show "c = c'"
    by (simp add: unat_of_nat take_bit_nat_eq_self)
qed

lemma children_hang:
  assumes "trie_wf ns" "alive ns j" "c \<in> children ns j"
  obtains k where "alive ns k" "j < k" "hangs ns j c k" "tn_next (ns ! j) ! c = int k"
proof -
  obtain k where k: "alive ns k" "k \<noteq> 0" "hangs ns j c k"
    using trie_wf_alive [OF assms(1,2)] assms(3) unfolding node_wf_def by blast
  then obtain p c' where "p < k" "hangs ns p c' k"
    using trie_wf_alive [OF assms(1) k(1)] unfolding node_wf_def by blast
  then have "j < k"
    using hangs_unique [OF k(3)] by blast
  then show ?thesis
    using that k by (simp add: hangs_def)
qed

lemma parent_hangs:
  assumes "trie_wf ns" "alive ns j" "j \<noteq> 0"
  obtains p c where "alive ns p" "p < j" "hangs ns p c j" "c \<in> children ns p"
proof -
  obtain p c where p: "alive ns p" "p < j" "hangs ns p c j"
    using trie_wf_alive [OF assms(1,2)] assms(3) unfolding node_wf_def by blast
  moreover have "c \<in> children ns p"
    using p(3) assms(3) by (simp add: hangs_def children_def)
  ultimately show ?thesis
    using that by blast
qed

lemma children_bound: "children ns j \<subseteq> {..<16}"
  by (auto simp: children_def)

lemma finite_children [simp]: "finite (children ns j)"
  using children_bound finite_subset by blast

lemma card_children_le: "card (children ns j) \<le> 16"
  using card_mono [OF _ children_bound [of ns j]] by simp

lemma next_cnt_gt:
  assumes "trie_wf ns" "alive ns j"
  shows "tn_next_cnt (ns ! j) > 1 \<longleftrightarrow> card (children ns j) > 1"
proof -
  have "unat (tn_next_cnt (ns ! j)) = card (children ns j)"
    using trie_wf_alive [OF assms] card_children_le [of ns j]
    by (simp add: node_wf_def unat_of_nat take_bit_nat_eq_self)
  then show ?thesis
    by (simp add: word_less_nat_alt)
qed

text \<open>A lookup is carried over to other nodes along a map that keeps tags and links.\<close>

lemma tfind_map:
  assumes wf: "trie_wf ns"
    and tags: "\<And>m. alive ns m \<Longrightarrow> tn_tag_len (ns' ! f m) = tn_tag_len (ns ! m) \<and> tn_tag_val (ns' ! f m) = tn_tag_val (ns ! m)"
    and links: "\<And>m c k. alive ns m \<Longrightarrow> alive ns k \<Longrightarrow> k \<noteq> 0 \<Longrightarrow> hangs ns m c k \<Longrightarrow>
      tn_next (ns' ! f m) ! c = int (f k) \<and> f k \<noteq> 0"
  shows "alive ns m \<Longrightarrow> \<forall>x \<in> set xs. unat x < 16 \<Longrightarrow> tfind ns m xs = Some k \<Longrightarrow> tfind ns' (f m) xs = Some (f k)"
proof (induction "length xs" arbitrary: m xs rule: less_induct)
  case less
  note found = iffD1 [OF tfind_Some_iff less.prems(3)]
  have t: "tag_len ns' (f m) = tag_len ns m" "tn_tag_val (ns' ! f m) = tn_tag_val (ns ! m)"
    using tags [OF less.prems(1)] by simp_all
  show ?case
  proof (cases "drop (tag_len ns m) xs")
    case Nil
    then show ?thesis
      using found t by (subst tfind_Some_iff) auto
  next
    case (Cons x ys)
    have x: "unat x < 16" and ys: "\<forall>y \<in> set ys. unat y < 16"
      using less.prems(2) set_drop_subset [of "tag_len ns m" xs] unfolding Cons by auto
    have l: "link ns m x \<noteq> 0" "tfind ns (nat (link ns m x)) ys = Some k"
      using found unfolding Cons by simp_all
    from link_alive [OF wf less.prems(1) x l(1)] obtain j
      where j: "link ns m x = int j" "alive ns j" "j \<noteq> 0" "hangs ns m (unat x) j" by blast
    have "length ys < length xs"
      using arg_cong [OF Cons, of length] by simp
    then have "tfind ns' (f j) ys = Some (f k)"
      using less.hyps [of ys j] j(1,2) l(2) ys by simp
    moreover have "link ns' (f m) x = int (f j)" "f j \<noteq> 0"
      using links [OF less.prems(1) j(2,3,4)] by simp_all
    ultimately show ?thesis
      using found Cons t by (subst tfind_Some_iff) simp
  qed
qed

lemmas tfind_map_root = tfind_map [where m = 0]

text \<open>Tags, seen from their first nibble.\<close>

lemma tag_word_Cons: "tag_word (x # xs) = push_bit (length xs * 4) (ucast x) OR tag_word xs"
proof (induction xs rule: rev_induct)
  case Nil
  then show ?case by (simp add: tag_word_def)
next
  case (snoc y xs)
  have "tag_word (x # xs @ [y]) = push_bit 4 (tag_word (x # xs)) OR ucast y"
    using tag_word_snoc [of "x # xs" y] by simp
  then show ?case
    by (simp add: snoc tag_word_snoc push_bit_or or.assoc ac_simps)
qed

section \<open>The walk\<close>

text \<open>The walk stands at the node \<open>i\<close> and has read the nibbles \<open>q\<close> of its tag.\<close>

definition walk_at :: "trie_node list \<Rightarrow> nat \<Rightarrow> u8 list \<Rightarrow> trie_walk \<Rightarrow> bool" where
  "walk_at ns i q w \<longleftrightarrow> alive ns i \<and> length q \<le> tag_len ns i \<and>
     (if length q = tag_len ns i then tag_len ns i = 0 \<or> wk_match w = int i
      else wk_match w \<noteq> int i \<and> wk_tag w = tag_word q \<and> wk_len w = of_nat (length q))"

lemma walk_step:
  assumes wf: "trie_wf ns" and at: "walk_at ns i q w" and x: "unat x < 16"
    and find: "tfind ns i (q @ x # xs) = Some k" and fin: "fin \<Longrightarrow> xs = []"
  shows "\<exists>i1 q1 w1. mpp_trie_walk ns w (int i) x fin = Inr (int i1, w1) \<and> walk_at ns i1 q1 w1 \<and>
     tfind ns i1 (q1 @ xs) = Some k"
proof -
  let ?L = "tag_len ns i"
  have i: "alive ns i" "i < length ns"
    using at by (simp_all add: walk_at_def alive_less)
  have nd: "length (tn_next (ns ! i)) = 16" "tn_idx (ns ! i) = int i" "0 \<le> tn_tag_len (ns ! i)" "?L \<le> 16"
    using trie_wf_alive [OF wf i(1)] unfolding node_wf_def by auto
  show ?thesis
  proof (cases "length q = ?L")
    case True
    have "link ns i x \<noteq> 0" and nx: "tfind ns (nat (link ns i x)) xs = Some k"
      using find True unfolding tfind_Some_iff [of ns i] by simp_all
    then obtain j where j: "link ns i x = int j" "alive ns j" "j \<noteq> 0"
      using link_alive [OF wf i(1) x] by blast
    have "int (unat x) < 16"
      using x by linarith
    then have ux: "uint x < 16"
      by simp
    have m: "tn_tag_len (ns ! i) = 0 \<or> wk_match w = tn_idx (ns ! i)"
      using at True nd by (auto simp: walk_at_def)
    have "mpp_trie_walk ns w (int i) x fin = Inr (int j, w\<lparr>wk_tag := 0, wk_len := 0, wk_match := - 1\<rparr>)"
      using i m nd(1) ux j(1) by (simp add: mpp_trie_walk_def)
    moreover have "walk_at ns j [] (w\<lparr>wk_tag := 0, wk_len := 0, wk_match := - 1\<rparr>)"
      using j(2) by (simp add: walk_at_def)
    ultimately show ?thesis
      using nx j(1) by (metis append_Nil nat_int)
  next
    case False
    then have q: "length q < ?L" and w: "wk_match w \<noteq> int i" "wk_tag w = tag_word q" "wk_len w = of_nat (length q)"
      using at by (simp_all add: walk_at_def)
    have len: "sint (wk_len w + 1) = int (length (q @ [x]))"
    proof -
      have "wk_len w + 1 = of_nat (Suc (length q))"
        by (simp add: w)
      moreover have "Suc (length q) \<le> 16" "(16 :: nat) < 2 ^ 31"
        using q nd(4) by (linarith, simp)
      ultimately show ?thesis
        using sint_of_nat_small [of "Suc (length q)"] by (simp only: length_append_singleton)
    qed
    have L: "?L \<le> length (q @ x # xs)" "tag_word (take ?L (q @ x # xs)) = tn_tag_val (ns ! i)"
      using find gr_implies_not0 [OF q] unfolding tfind_Some_iff [of ns i] by blast+
    have val: "push_bit 4 (wk_tag w) OR ucast x = tag_word (q @ [x])"
      by (simp add: tag_word_snoc w)
    show ?thesis
    proof (cases "?L > length (q @ [x])")
      case True
      then have "\<not> fin"
        using L(1) fin by auto
      moreover have "tn_tag_len (ns ! i) > int (length (q @ [x]))" "tn_tag_len (ns ! i) \<noteq> 0"
        using True by linarith+
      ultimately have "mpp_trie_walk ns w (int i) x fin = Inr (int i,
          w\<lparr>wk_tag := tag_word (q @ [x]), wk_len := of_nat (length (q @ [x])), wk_match := - 1\<rparr>)"
        using i w(1) nd by (simp add: mpp_trie_walk_def len val Let_def)
      moreover have "walk_at ns i (q @ [x]) (w\<lparr>wk_tag := tag_word (q @ [x]), wk_len := of_nat (length (q @ [x])), wk_match := - 1\<rparr>)"
        using i(1) True by (simp add: walk_at_def)
      ultimately show ?thesis
        using find by (metis append.assoc append_Cons append_Nil)
    next
      case False
      then have Lq: "?L = length (q @ [x])"
        using q by simp
      then have tag: "tag_word (q @ [x]) = tn_tag_val (ns ! i)"
        using L(2) by simp
      have "\<not> tn_tag_len (ns ! i) > int (length (q @ [x]))" "tn_tag_len (ns ! i) \<noteq> 0"
        using Lq by simp_all
      then have "mpp_trie_walk ns w (int i) x fin = Inr (int i, w\<lparr>wk_tag := 0, wk_len := 0, wk_match := int i\<rparr>)"
        using i w(1) nd by (simp add: mpp_trie_walk_def len val Let_def tag)
      moreover have "walk_at ns i (q @ [x]) (w\<lparr>wk_tag := 0, wk_len := 0, wk_match := int i\<rparr>)"
        using i(1) Lq by (simp add: walk_at_def)
      ultimately show ?thesis
        using find by (metis append.assoc append_Cons append_Nil)
    qed
  qed
qed

lemma walk_done: "walk_at ns i q w \<Longrightarrow> tfind ns i q = Some k \<Longrightarrow> k = i"
  unfolding tfind_Some_iff [of ns i] walk_at_def by auto

lemma get_node_loop_finds:
  assumes wf: "trie_wf ns" and "s \<noteq> []" and "walk_at ns i q w" and "tfind ns i (q @ nibbles s) = Some k"
  shows "get_node_loop ns w (int i) s = Inr (int k) \<and> alive ns k"
  using assms(2-)
proof (induction s arbitrary: i q w)
  case (Cons c s)
  have lt: "unat (drop_bit 4 c AND 0xf) < 16" "unat (c AND 0xf) < 16"
    by (rule nibble_lt)+
  obtain i1 q1 w1 where s1: "mpp_trie_walk ns w (int i) (drop_bit 4 c AND 0xf) False = Inr (int i1, w1)"
    "walk_at ns i1 q1 w1" "tfind ns i1 (q1 @ (c AND 0xf) # nibbles s) = Some k"
    using walk_step [OF wf Cons.prems(2) lt(1), of "(c AND 0xf) # nibbles s" k False] Cons.prems(3) by auto
  obtain i2 q2 w2 where s2: "mpp_trie_walk ns w1 (int i1) (c AND 0xf) (s = []) = Inr (int i2, w2)"
    "walk_at ns i2 q2 w2" "tfind ns i2 (q2 @ nibbles s) = Some k"
    using walk_step [OF wf s1(2) lt(2) s1(3), of "s = []"] by auto
  show ?case
  proof (cases "s = []")
    case True
    then have "k = i2"
      using s2 walk_done [of ns i2 q2 w2 k] by simp
    then show ?thesis
      using s1 s2 True by (simp add: walk_at_def)
  next
    case False
    then show ?thesis
      using s1 s2 Cons.IH [OF _ s2(2,3)] by simp
  qed
qed simp

theorem mpp_trie_get_node_finds:
  assumes "trie_wf ns" and "s \<noteq> []" and "tfind ns 0 (nibbles s) = Some k"
  shows "mpp_trie_get_node ns s = Inr (Some (int k))" and "alive ns k"
proof -
  have "walk_at ns 0 [] \<lparr>wk_tag = 0, wk_len = 0, wk_match = 0\<rparr>"
    using assms(1) by (simp add: walk_at_def alive_def trie_wf_def)
  from get_node_loop_finds [OF assms(1,2) this] assms(3)
  show "mpp_trie_get_node ns s = Inr (Some (int k))" and "alive ns k"
    by (simp_all add: mpp_trie_get_node_def)
qed

end
