(* ===== verification/Mpp_Trie_Shrink.thy ===== *)
theory Mpp_Trie_Shrink
  imports Mpp_Trie_Find
begin

text \<open>
  Shrinking: merging a node into the only link before it keeps the invariant and every lookup of a name, and so
  does the loop over all nodes.
\<close>

section \<open>Updates of nodes\<close>

lemma s16_small: "0 \<le> x \<Longrightarrow> x < 32768 \<Longrightarrow> s16 x = x"
  by (simp add: s16_def)

lemma node_update_in [simp]:
  "i < length ns \<Longrightarrow> node_update ns (int i) f = Inr (ns[i := f (ns ! i)])"
  by (simp add: node_update_def)

text \<open>The nodes that the links \<open>ks\<close> name get the previous node \<open>p\<close>.\<close>

definition with_prev :: "int list \<Rightarrow> int \<Rightarrow> trie_node list \<Rightarrow> trie_node list" where
  "with_prev ks p ns = map (\<lambda>j. if j \<noteq> 0 \<and> int j \<in> set ks then (ns ! j)\<lparr>tn_prev := p\<rparr> else ns ! j) [0..<length ns]"

lemma length_with_prev [simp]: "length (with_prev ks p ns) = length ns"
  by (simp add: with_prev_def)

lemma nth_with_prev:
  "j < length ns \<Longrightarrow> with_prev ks p ns ! j = (if j \<noteq> 0 \<and> int j \<in> set ks then (ns ! j)\<lparr>tn_prev := p\<rparr> else ns ! j)"
  unfolding with_prev_def by (subst nth_map) (simp_all only: length_upt nth_upt add_0 diff_zero)

lemma relink_prev_ok:
  assumes "\<forall>k \<in> set ks. k = 0 \<or> (\<exists>m. k = int m \<and> m < length ns)" and "s16 p = p"
  shows "relink_prev ns ks p = Inr (with_prev ks p ns)"
  using assms(1)
proof (induction ks arbitrary: ns)
  case Nil
  show ?case
    by (simp add: with_prev_def map_nth)
next
  case (Cons k ks)
  show ?case
  proof (cases "k = 0")
    case True
    with Cons show ?thesis
      by (auto simp: with_prev_def)
  next
    case False
    then obtain m where m: "k = int m" "m < length ns" "m \<noteq> 0"
      using Cons.prems by auto
    let ?ns = "ns[m := (ns ! m)\<lparr>tn_prev := p\<rparr>]"
    have "relink_prev ?ns ks p = Inr (with_prev ks p ?ns)"
      using Cons by simp
    moreover have "with_prev ks p ?ns = with_prev (k # ks) p ns"
      by (rule nth_equalityI) (use m in \<open>auto simp: nth_with_prev nth_list_update\<close>)
    ultimately show ?thesis
      using m assms(2) by simp
  qed
qed

section \<open>Merging\<close>

definition merged_node :: "trie_node \<Rightarrow> trie_node \<Rightarrow> trie_node" where
  "merged_node prev node =
     prev\<lparr>tn_id := tn_id node, tn_tag_len := tn_tag_len node + 1,
       tn_tag_val := push_bit (nat (tn_tag_len node) * 4) (ucast (tn_key node)) OR tn_tag_val node,
       tn_next_cnt := tn_next_cnt node, tn_next := tn_next node\<rparr>"

definition dead_node :: trie_node where
  "dead_node = node_0\<lparr>tn_id := INVALID_NODE_ID\<rparr>"

definition merge_nodes :: "trie_node list \<Rightarrow> nat \<Rightarrow> nat \<Rightarrow> trie_node list" where
  "merge_nodes ns p i =
     (with_prev (tn_next (ns ! i)) (int p) (ns[p := merged_node (ns ! p) (ns ! i)]))[i := dead_node]"

lemma length_merge_nodes [simp]: "length (merge_nodes ns p i) = length ns"
  by (simp add: merge_nodes_def)

text \<open>What is known when a node is merged.\<close>

definition merge_ok :: "trie_node list \<Rightarrow> nat \<Rightarrow> nat \<Rightarrow> nat \<Rightarrow> bool" where
  "merge_ok ns p c i \<longleftrightarrow> trie_wf ns \<and> alive ns i \<and> alive ns p \<and> p \<noteq> 0 \<and> p < i \<and> hangs ns p c i \<and> children ns p = {c} \<and>
     tn_tag_len (ns ! p) = 0 \<and> tn_tag_len (ns ! i) < MPP_TRIE_TAG_LEN_MAX \<and> tn_id (ns ! p) < 0"

lemma child_link:
  assumes wf: "trie_wf ns" and j: "alive ns j" and k: "alive ns k" "k \<noteq> 0"
  shows "int k \<in> set (tn_next (ns ! j)) \<longleftrightarrow> tn_prev (ns ! k) = int j"
proof
  have len: "length (tn_next (ns ! j)) = 16"
    using trie_wf_alive [OF wf j] by (simp add: node_wf_def)
  assume "int k \<in> set (tn_next (ns ! j))"
  then obtain c where c: "c < 16" "tn_next (ns ! j) ! c = int k"
    by (metis in_set_conv_nth len)
  then have "c \<in> children ns j"
    using k(2) by (simp add: children_def)
  then show "tn_prev (ns ! k) = int j"
    using children_hang [OF wf j] c(2) by (metis hangs_def of_nat_eq_iff)
next
  have len: "length (tn_next (ns ! j)) = 16"
    using trie_wf_alive [OF wf j] by (simp add: node_wf_def)
  assume p: "tn_prev (ns ! k) = int j"
  obtain q c where "hangs ns q c k"
    using parent_hangs [OF wf k] by blast
  then have "hangs ns j c k"
    using p by (simp add: hangs_def)
  then show "int k \<in> set (tn_next (ns ! j))"
    using len by (metis hangs_def nth_mem)
qed

lemma nth_merge_nodes:
  assumes m: "merge_ok ns p c i" and j: "alive ns j"
  shows "merge_nodes ns p i ! j =
    (if j = i then dead_node else if j = p then merged_node (ns ! p) (ns ! i)
     else if j \<noteq> 0 \<and> tn_prev (ns ! j) = int i then (ns ! j)\<lparr>tn_prev := int p\<rparr> else ns ! j)"
proof -
  have wf: "trie_wf ns" and i: "alive ns i" and p: "alive ns p" "p \<noteq> 0" "p < i"
    using m by (simp_all add: merge_ok_def)
  have "tn_prev (ns ! p) \<noteq> int i"
  proof
    assume a: "tn_prev (ns ! p) = int i"
    obtain q d where "q < p" "hangs ns q d p"
      using parent_hangs [OF wf p(1,2)] by blast
    with a p(3) show False
      by (simp add: hangs_def)
  qed
  then have "int p \<notin> set (tn_next (ns ! i))"
    using child_link [OF wf i p(1,2)] by simp
  then show ?thesis
    using alive_less [OF j] alive_less [OF i] child_link [OF wf i j]
    by (auto simp: merge_nodes_def nth_with_prev nth_list_update)
qed

lemma alive_merge_nodes:
  assumes m: "merge_ok ns p c i"
  shows "alive (merge_nodes ns p i) j \<longleftrightarrow> alive ns j \<and> j \<noteq> i"
proof -
  have i: "i < length ns" "i \<noteq> 0" "alive ns p" "p < i"
    using m alive_less by (auto simp: merge_ok_def)
  have idx: "tn_idx (merge_nodes ns p i ! j) = (if j = i then 0 else tn_idx (ns ! j))" if "j < length ns"
    using that i alive_less [OF i(3)]
    by (auto simp: merge_nodes_def nth_with_prev nth_list_update merged_node_def dead_node_def node_0_def)
  then show ?thesis
    using i by (cases "j < length ns") (auto simp: alive_def)
qed

text \<open>Nodes other than the two keep everything but, below the merged node, the previous node.\<close>

lemma merge_nodes_other:
  assumes m: "merge_ok ns p c i" and j: "alive ns j" "j \<noteq> i"
  shows "tn_idx (merge_nodes ns p i ! j) = tn_idx (ns ! j)"
    and "tn_key (merge_nodes ns p i ! j) = tn_key (ns ! j)"
    and "tn_prev (merge_nodes ns p i ! j) = (if tn_prev (ns ! j) = int i \<and> j \<noteq> 0 then int p else tn_prev (ns ! j))"
    and "j \<noteq> p \<Longrightarrow> tn_next (merge_nodes ns p i ! j) = tn_next (ns ! j) \<and>
      tn_tag_len (merge_nodes ns p i ! j) = tn_tag_len (ns ! j) \<and> tn_tag_val (merge_nodes ns p i ! j) = tn_tag_val (ns ! j) \<and>
      tn_id (merge_nodes ns p i ! j) = tn_id (ns ! j) \<and> tn_next_cnt (merge_nodes ns p i ! j) = tn_next_cnt (ns ! j)"
proof -
  have "tn_prev (ns ! p) \<noteq> int i"
  proof
    assume "tn_prev (ns ! p) = int i"
    moreover have "trie_wf ns" "alive ns p" "p \<noteq> 0" "p < i"
      using m by (simp_all add: merge_ok_def)
    ultimately show False
      using parent_hangs [of ns p] by (metis hangs_def not_less_iff_gr_or_eq of_nat_eq_iff)
  qed
  then show "tn_idx (merge_nodes ns p i ! j) = tn_idx (ns ! j)"
    and "tn_key (merge_nodes ns p i ! j) = tn_key (ns ! j)"
    and "tn_prev (merge_nodes ns p i ! j) = (if tn_prev (ns ! j) = int i \<and> j \<noteq> 0 then int p else tn_prev (ns ! j))"
    and "j \<noteq> p \<Longrightarrow> tn_next (merge_nodes ns p i ! j) = tn_next (ns ! j) \<and>
      tn_tag_len (merge_nodes ns p i ! j) = tn_tag_len (ns ! j) \<and> tn_tag_val (merge_nodes ns p i ! j) = tn_tag_val (ns ! j) \<and>
      tn_id (merge_nodes ns p i ! j) = tn_id (ns ! j) \<and> tn_next_cnt (merge_nodes ns p i ! j) = tn_next_cnt (ns ! j)"
    using nth_merge_nodes [OF m j(1)] j(2) by (auto simp: merged_node_def)
qed

lemma merge_nodes_prev:
  assumes m: "merge_ok ns p c i"
  shows "merge_nodes ns p i ! p = merged_node (ns ! p) (ns ! i)"
proof -
  have "alive ns p" "p \<noteq> i"
    using m by (auto simp: merge_ok_def)
  then show ?thesis
    using nth_merge_nodes [OF m] by simp
qed

text \<open>The links after a merge: those of the merged node now start at the node before it.\<close>

lemma merge_hangs:
  assumes m: "merge_ok ns p c i" and j: "alive ns j" and k: "alive ns k" "k \<noteq> 0" and h: "hangs ns j d k" and ki: "k \<noteq> i"
  shows "hangs (merge_nodes ns p i) (if j = i then p else j) d k"
proof -
  have jp: "j \<noteq> p"
  proof
    assume "j = p"
    then have "d \<in> children ns p"
      using h k(2) by (simp add: children_def hangs_def)
    then have "hangs ns p d i"
      using m by (simp add: merge_ok_def)
    then show False
      using h ki \<open>j = p\<close> by (simp add: hangs_def)
  qed
  have nx: "tn_next (merge_nodes ns p i ! (if j = i then p else j)) = tn_next (ns ! j)"
    using merge_nodes_prev [OF m] merge_nodes_other(4) [OF m j] jp by (auto simp: merged_node_def)
  have "tn_prev (merge_nodes ns p i ! k) = int (if j = i then p else j)"
    using merge_nodes_other(3) [OF m k(1) ki] h k(2) by (auto simp: hangs_def)
  then show ?thesis
    using h nx merge_nodes_other(2) [OF m k(1) ki] by (simp add: hangs_def)
qed

lemma merge_children:
  assumes m: "merge_ok ns p c i" and j: "alive ns j" "j \<noteq> i"
  shows "children (merge_nodes ns p i) j = children ns (if j = p then i else j)"
  using merge_nodes_prev [OF m] merge_nodes_other(4) [OF m j] by (auto simp: children_def merged_node_def)

lemma merge_wf:
  assumes m: "merge_ok ns p c i"
  shows "trie_wf (merge_nodes ns p i)"
proof -
  let ?ns = "merge_nodes ns p i"
  have wf: "trie_wf ns" and i: "alive ns i" and p: "alive ns p" "p \<noteq> 0" "p < i" and h: "hangs ns p c i"
    and ch: "children ns p = {c}"
    using m by (simp_all add: merge_ok_def)
  have al: "alive ?ns j \<longleftrightarrow> alive ns j \<and> j \<noteq> i" for j
    by (rule alive_merge_nodes [OF m])
  have "node_wf ?ns j" if j: "alive ns j" "j \<noteq> i" for j
  proof -
    let ?j = "if j = p then i else j"
    have oj: "alive ns ?j"
      using i j by simp
    have wj: "node_wf ns j" "node_wf ns i" "node_wf ns ?j"
      using trie_wf_alive [OF wf] j i by simp_all
    have "\<exists>k. alive ?ns k \<and> k \<noteq> 0 \<and> hangs ?ns j d k" if d: "d \<in> children ?ns j" for d
    proof -
      have d1: "d \<in> children ns ?j"
        using d merge_children [OF m j] by simp
      obtain k where k: "alive ns k" "?j < k" "hangs ns ?j d k"
        using children_hang [OF wf oj d1] by blast
      have "k \<noteq> i"
        using hangs_unique(1) [OF _ h] k j by (auto split: if_splits)
      then have "hangs ?ns (if ?j = i then p else ?j) d k"
        using merge_hangs [OF m oj k(1) _ k(3)] k(2) by simp
      moreover have "(if ?j = i then p else ?j) = j"
        using j by simp
      ultimately show ?thesis
        using k al \<open>k \<noteq> i\<close> by (intro exI [of _ k]) auto
    qed
    moreover have "\<exists>q d. alive ?ns q \<and> q < j \<and> hangs ?ns q d j" if j0: "j \<noteq> 0"
    proof -
      obtain q d where q: "alive ns q" "q < j" "hangs ns q d j"
        using parent_hangs [OF wf j(1) j0] by blast
      have "hangs ?ns (if q = i then p else q) d j"
        by (rule merge_hangs [OF m q(1) j(1) j0 q(3) j(2)])
      moreover have "alive ?ns (if q = i then p else q)" "(if q = i then p else q) < j"
        using al p q by auto
      ultimately show ?thesis by blast
    qed
    moreover have "length (tn_next (?ns ! j)) = 16" "tn_idx (?ns ! j) = int j" "j < 32768"
      "0 \<le> tn_tag_len (?ns ! j)" "tn_tag_len (?ns ! j) \<le> 16" "tn_tag_len (?ns ! j) = 0 \<longrightarrow> tn_tag_val (?ns ! j) = 0"
      using wj merge_nodes_prev [OF m] merge_nodes_other(1,4) [OF m j] m
      by (cases "j = p"; simp add: node_wf_def merged_node_def merge_ok_def)+
    moreover have "tn_next_cnt (?ns ! j) = of_nat (card (children ?ns j))"
      using wj merge_nodes_prev [OF m] merge_nodes_other(4) [OF m j] merge_children [OF m j]
      by (cases "j = p"; simp add: node_wf_def merged_node_def)
    ultimately show ?thesis
      unfolding node_wf_def by blast
  qed
  moreover have "alive ns 0" "0 \<noteq> i" "0 \<noteq> p" "tn_tag_len (ns ! 0) = 0"
    using wf p by (auto simp: trie_wf_def alive_def)
  moreover have "?ns \<noteq> []"
    using alive_less [OF i] length_merge_nodes [of ns p i] by (metis list.size(3) not_less0)
  ultimately show ?thesis
    using al merge_nodes_other(4) [OF m, of 0] by (simp add: trie_wf_def)
qed

text \<open>Lookups after a merge.\<close>

lemma merge_tfind:
  assumes m: "merge_ok ns p c i"
  shows "alive ns j \<Longrightarrow> j \<noteq> i \<Longrightarrow> \<forall>x \<in> set xs. unat x < 16 \<Longrightarrow> tfind ns j xs = Some k \<Longrightarrow> k \<noteq> p \<Longrightarrow>
    tfind (merge_nodes ns p i) j xs = Some (if k = i then p else k)"
proof (induction "length xs" arbitrary: j xs rule: less_induct)
  case less
  let ?ns = "merge_nodes ns p i"
  note found = iffD1 [OF tfind_Some_iff less.prems(4)]
  have wf: "trie_wf ns" and i: "alive ns i" "i \<noteq> 0" and p: "alive ns p" "p < i" and h: "hangs ns p c i"
    and ch: "children ns p = {c}" and len: "tn_tag_len (ns ! p) = 0" "tn_tag_len (ns ! i) < 16" "0 \<le> tn_tag_len (ns ! i)"
    using m trie_wf_alive [of ns i] by (auto simp: merge_ok_def node_wf_def)
  have follow: "\<exists>q. link ns n x = int q \<and> alive ns q \<and> q \<noteq> 0 \<and> hangs ns n (unat x) q \<and> tfind ns q ys = Some k \<and>
      (\<forall>y \<in> set ys. unat y < 16)"
    if "alive ns n" "link ns n x \<noteq> 0" "tfind ns (nat (link ns n x)) ys = Some k" "set (x # ys) \<subseteq> set xs" for n x ys
  proof -
    have "unat x < 16" "\<forall>y \<in> set ys. unat y < 16"
      using that(4) less.prems(3) by auto
    then show ?thesis
      using link_alive [OF wf that(1) _ that(2)] that(3) by auto
  qed
  show ?case
  proof (cases "j = p")
    case False
    have same: "tag_len ?ns j = tag_len ns j" "tn_tag_val (?ns ! j) = tn_tag_val (ns ! j)" "tn_next (?ns ! j) = tn_next (ns ! j)"
      using merge_nodes_other(4) [OF m less.prems(1,2) False] by simp_all
    show ?thesis
    proof (cases "drop (tag_len ns j) xs")
      case Nil
      then show ?thesis
        using found same less.prems(2) by (subst tfind_Some_iff) auto
    next
      case (Cons x ys)
      obtain q where q: "link ns j x = int q" "alive ns q" "q \<noteq> 0" "hangs ns j (unat x) q" "tfind ns q ys = Some k"
          "\<forall>y \<in> set ys. unat y < 16"
        using follow [OF less.prems(1), of x ys] found set_drop_subset [of "tag_len ns j" xs] unfolding Cons by auto
      have "q \<noteq> i"
        using hangs_unique(1) [OF q(4)] h False by blast
      moreover have "length ys < length xs"
        using arg_cong [OF Cons, of length] by simp
      ultimately have "tfind ?ns q ys = Some (if k = i then p else k)"
        using less.hyps q less.prems(5) by blast
      then show ?thesis
        using found same Cons q(1,3) by (subst tfind_Some_iff) simp
    qed
  next
    case True
    then have l0: "tag_len ns j = 0"
      using len by simp
    then obtain x ys where xs: "xs = x # ys"
      using found less.prems(5) True by (cases xs) auto
    then obtain q where q: "link ns p x = int q" "q \<noteq> 0" "hangs ns p (unat x) q" "tfind ns q ys = Some k"
        "\<forall>y \<in> set ys. unat y < 16"
      using follow [OF p(1), of x ys] found l0 True by auto
    have "unat x \<in> children ns p"
      using q by (simp add: children_def hangs_def)
    then have cx: "unat x = c"
      using ch by simp
    then have qi: "q = i"
      using q(1) h by (simp add: hangs_def)
    note found_i = iffD1 [OF tfind_Some_iff q(4) [unfolded qi]]
    have new: "?ns ! p = merged_node (ns ! p) (ns ! i)"
      by (rule merge_nodes_prev [OF m])
    let ?L = "tag_len ns i"
    have L: "tag_len ?ns p = Suc ?L" "tn_next (?ns ! p) = tn_next (ns ! i)"
      using len by (simp_all add: new merged_node_def nat_add_distrib)
    have key: "ucast (tn_key (ns ! i)) = (ucast x :: u64)"
    proof -
      have "tn_key (ns ! i) = of_nat (unat x)"
        using h cx by (simp add: hangs_def)
      then have "ucast (tn_key (ns ! i)) = (ucast (ucast x :: u16) :: u64)"
        by simp
      also have "\<dots> = ucast x"
        by (rule bit_word_eqI) (auto simp: bit_ucast_iff dest: bit_imp_le_length)
      finally show ?thesis .
    qed
    have tag0: "?L = 0 \<Longrightarrow> tn_tag_val (ns ! i) = 0"
      using trie_wf_alive [OF wf i(1)] len by (simp add: node_wf_def)
    have tag: "tag_word (x # take ?L ys) = tn_tag_val (?ns ! p)"
    proof -
      have "length (take ?L ys) = ?L" "tag_word (take ?L ys) = tn_tag_val (ns ! i)"
        using found_i tag0 by (cases "?L = 0"; simp)+
      then show ?thesis
        by (simp only: tag_word_Cons) (simp add: new merged_node_def key)
    qed
    show ?thesis
    proof (cases "drop ?L ys")
      case Nil
      then show ?thesis
        using found_i L tag xs True by (subst tfind_Some_iff) auto
    next
      case (Cons y zs)
      obtain r where r: "link ns i y = int r" "alive ns r" "r \<noteq> 0" "hangs ns i (unat y) r" "tfind ns r zs = Some k"
          "\<forall>y \<in> set zs. unat y < 16"
        using follow [OF i(1), of y zs] found_i set_drop_subset [of ?L ys] xs unfolding Cons by auto
      have "r \<noteq> i"
        using hangs_unique(1) [OF r(4)] h p(2) by blast
      moreover have "length zs < length xs"
        using arg_cong [OF Cons, of length] xs by simp
      ultimately have "tfind ?ns r zs = Some (if k = i then p else k)"
        using less.hyps r less.prems(5) by blast
      then show ?thesis
        using found_i L tag xs True Cons r(1,3) by (subst tfind_Some_iff) simp
    qed
  qed
qed

section \<open>The loop\<close>

lemma wf_links:
  assumes "trie_wf ns" "alive ns j"
  shows "\<forall>k \<in> set (tn_next (ns ! j)). k = 0 \<or> (\<exists>m. k = int m \<and> m < length ns)"
proof
  fix k assume k: "k \<in> set (tn_next (ns ! j))"
  have "length (tn_next (ns ! j)) = 16"
    using trie_wf_alive [OF assms] by (simp add: node_wf_def)
  with k obtain c where c: "c < 16" "tn_next (ns ! j) ! c = k"
    by (metis in_set_conv_nth)
  show "k = 0 \<or> (\<exists>m. k = int m \<and> m < length ns)"
  proof (cases "k = 0")
    case False
    then have "c \<in> children ns j"
      using c by (simp add: children_def)
    then show ?thesis
      using children_hang [OF assms] c(2) alive_less by metis
  qed simp
qed

lemma alive_s16: "trie_wf ns \<Longrightarrow> alive ns j \<Longrightarrow> s16 (int j) = int j"
  using trie_wf_alive [of ns j] by (simp add: node_wf_def s16_small)

lemma shrink_node_ok:
  assumes wf: "trie_wf ns" and i: "alive ns i" "i \<noteq> 0" and two: "card (children ns 0) > 1"
    and tag: "\<And>p. tn_prev (ns ! i) = int p \<Longrightarrow> tn_tag_len (ns ! p) = 0"
  shows "shrink_node ns (int i) = Inr (ns, False) \<or>
    (\<exists>p c. merge_ok ns p c i \<and> shrink_node ns (int i) = Inr (merge_nodes ns p i, True))"
proof -
  obtain p c where p: "alive ns p" "p < i" "hangs ns p c i" "c \<in> children ns p"
    using parent_hangs [OF wf i] by blast
  have prev: "tn_prev (ns ! i) = int p"
    using p(3) by (simp add: hangs_def)
  have in_p: "p < length ns" "i < length ns"
    using alive_less p(1) i(1) by blast+
  have tl: "0 \<le> tn_tag_len (ns ! i)"
    using trie_wf_alive [OF wf i(1)] by (simp add: node_wf_def)
  let ?stay = "tn_next_cnt (ns ! p) > 1 \<or> tn_tag_len (ns ! i) \<ge> 16 \<or> tn_id (ns ! p) \<ge> 0"
  show ?thesis
  proof (cases ?stay)
    case True
    then have "shrink_node ns (int i) = Inr (ns, False)"
      using in_p by (auto simp: shrink_node_def prev)
    then show ?thesis by blast
  next
    case False
    then have "\<not> card (children ns p) > 1"
      using next_cnt_gt [OF wf p(1)] by simp
    then have one: "children ns p = {c}"
      using p(4) card_le_Suc0_iff_eq [OF finite_children [of ns p]] by auto
    have p0: "p \<noteq> 0"
      using \<open>\<not> card (children ns p) > 1\<close> two by metis
    then have m: "merge_ok ns p c i"
      using wf i p p0 one False tag [OF prev] by (simp add: merge_ok_def)
    have "relink_prev (ns[p := merged_node (ns ! p) (ns ! i)]) (tn_next (ns ! i)) (int p) =
        Inr (with_prev (tn_next (ns ! i)) (int p) (ns[p := merged_node (ns ! p) (ns ! i)]))"
      by (rule relink_prev_ok) (use wf_links [OF wf i(1)] alive_s16 [OF wf p(1)] in simp_all)
    then have "shrink_node ns (int i) = Inr (merge_nodes ns p i, True)"
      using in_p False tl
      by (simp add: shrink_node_def prev merge_nodes_def merged_node_def dead_node_def)
    then show ?thesis
      using m by blast
  qed
qed

text \<open>The name with the nibbles \<open>xs\<close> leads to a node with the position \<open>d\<close>.\<close>

definition leads_to :: "trie_node list \<Rightarrow> u8 list \<Rightarrow> int \<Rightarrow> bool" where
  "leads_to ns xs d \<longleftrightarrow> (\<exists>k. tfind ns 0 xs = Some k \<and> alive ns k \<and> tn_id (ns ! k) = d)"

lemma merge_leads_to:
  assumes m: "merge_ok ns p c i" and x: "\<forall>x \<in> set xs. unat x < 16" and d: "0 \<le> d" "leads_to ns xs d"
  shows "leads_to (merge_nodes ns p i) xs d"
proof -
  have wf: "trie_wf ns" and i: "i \<noteq> 0" and p: "alive ns p" "tn_id (ns ! p) < 0" "p < i"
    using m by (auto simp: merge_ok_def)
  obtain k where k: "tfind ns 0 xs = Some k" "alive ns k" "tn_id (ns ! k) = d"
    using d(2) by (auto simp: leads_to_def)
  then have kp: "k \<noteq> p"
    using d(1) p(2) by auto
  have "alive ns 0"
    using wf by (simp add: trie_wf_def alive_def)
  from merge_tfind [OF m this _ x k(1) kp] i
  have "tfind (merge_nodes ns p i) 0 xs = Some (if k = i then p else k)"
    by simp
  moreover have "alive (merge_nodes ns p i) (if k = i then p else k)"
    using alive_merge_nodes [OF m] k(2) p by auto
  moreover have "tn_id (merge_nodes ns p i ! (if k = i then p else k)) = d"
    using merge_nodes_prev [OF m] merge_nodes_other(4) [OF m k(2)] k(3) kp by (auto simp: merged_node_def)
  ultimately show ?thesis
    unfolding leads_to_def by blast
qed

lemma alive_root0: "trie_wf ns \<Longrightarrow> alive ns 0"
  by (simp add: trie_wf_def alive_def)

definition shrink_inv :: "nat \<Rightarrow> trie_node list \<Rightarrow> int \<Rightarrow> nat \<Rightarrow> bool" where
  "shrink_inv N ns valid n \<longleftrightarrow> trie_wf ns \<and> card (children ns 0) > 1 \<and>
     (\<forall>j < n. alive ns j) \<and> (\<forall>j p. 0 < j \<longrightarrow> j < n \<longrightarrow> tn_prev (ns ! j) = int p \<longrightarrow> tn_tag_len (ns ! p) = 0) \<and>
     (\<forall>j. alive ns j \<longrightarrow> j < N) \<and> int (card {j. alive ns j}) = valid"

lemma finite_alive [simp]: "finite {j. alive ns j}"
  by (rule finite_subset [of _ "{..<length ns}"]) (auto simp: alive_less)

lemma shrink_inv_merge:
  assumes inv: "shrink_inv N ns valid (Suc i)" and i: "i \<noteq> 0" and m: "merge_ok ns p c i"
  shows "shrink_inv N (merge_nodes ns p i) (valid - 1) i"
proof -
  let ?ns = "merge_nodes ns p i"
  have al: "alive ?ns j \<longleftrightarrow> alive ns j \<and> j \<noteq> i" for j
    by (rule alive_merge_nodes [OF m])
  have wf: "trie_wf ns" and p: "p \<noteq> 0" "p < i" "alive ns 0" "alive ns i" "hangs ns p c i" "children ns p = {c}"
    using m by (auto simp: merge_ok_def trie_wf_def alive_def)
  have "{j. alive ?ns j} = {j. alive ns j} - {i}"
    using al by auto
  then have "card {j. alive ?ns j} = card {j. alive ns j} - 1"
    using p(4) by simp
  moreover have "card {j. alive ns j} > 0"
    using p(4) by (auto simp: card_gt_0_iff)
  ultimately have card: "int (card {j. alive ?ns j}) = valid - 1"
    using inv by (simp add: shrink_inv_def)
  have tags: "tn_tag_len (?ns ! q) = 0" if j: "0 < j" "j < i" and q: "tn_prev (?ns ! j) = int q" for j q
  proof -
    have aj: "alive ns j" "j \<noteq> i" "j \<noteq> 0"
      using j inv by (simp_all add: shrink_inv_def)
    obtain r e where r: "alive ns r" "r < j" "hangs ns r e j" "e \<in> children ns r"
      using parent_hangs [OF wf aj(1,3)] by blast
    have "r \<noteq> i" "r \<noteq> p"
      using r j p by (auto simp: hangs_def)
    moreover have "q = r"
      using q r(3) \<open>r \<noteq> i\<close> merge_nodes_other(3) [OF m aj(1,2)] by (simp add: hangs_def)
    moreover have "tn_tag_len (ns ! r) = 0"
      using inv j r(3) by (simp add: shrink_inv_def hangs_def)
    ultimately show ?thesis
      using merge_nodes_other(4) [OF m r(1)] by simp
  qed
  have "children ?ns 0 = children ns 0"
    using merge_children [OF m p(3)] i p(1) by simp
  with inv card tags show ?thesis
    using merge_wf [OF m] by (auto simp: shrink_inv_def al)
qed

lemma shrink_loop_ok:
  assumes "shrink_inv N ns valid n"
  shows "\<exists>ns1 valid1. shrink_loop ns valid n = Inr (ns1, valid1) \<and> length ns1 = length ns \<and> trie_wf ns1 \<and>
    (\<forall>j. alive ns1 j \<longrightarrow> j < N) \<and> int (card {j. alive ns1 j}) = valid1 \<and> children ns1 0 = children ns 0 \<and>
    (\<forall>xs d. (\<forall>x \<in> set xs. unat x < 16) \<longrightarrow> 0 \<le> d \<longrightarrow> leads_to ns xs d \<longrightarrow> leads_to ns1 xs d)"
  using assms
proof (induction n arbitrary: ns valid)
  case 0
  then show ?case by (simp add: shrink_inv_def)
next
  case (Suc i)
  show ?case
  proof (cases "i = 0")
    case True
    then show ?thesis
      using Suc.prems by (simp add: shrink_inv_def)
  next
    case False
    have inv: "trie_wf ns" "alive ns i" "card (children ns 0) > 1"
      "\<And>p. tn_prev (ns ! i) = int p \<Longrightarrow> tn_tag_len (ns ! p) = 0"
      using Suc.prems False by (simp_all add: shrink_inv_def)
    have "shrink_node ns (int i) = Inr (ns, False) \<or>
        (\<exists>p c. merge_ok ns p c i \<and> shrink_node ns (int i) = Inr (merge_nodes ns p i, True))"
      by (rule shrink_node_ok [OF inv(1,2) False inv(3)]) (rule inv(4))
    then show ?thesis
    proof (elim disjE exE conjE)
      assume stay: "shrink_node ns (int i) = Inr (ns, False)"
      have "shrink_inv N ns valid i"
        using Suc.prems by (simp add: shrink_inv_def)
      from Suc.IH [OF this] show ?thesis
        using stay False by simp
    next
      fix p c assume m: "merge_ok ns p c i" and step: "shrink_node ns (int i) = Inr (merge_nodes ns p i, True)"
      from Suc.IH [OF shrink_inv_merge [OF Suc.prems False m]] obtain ns1 valid1 where
        ok: "shrink_loop (merge_nodes ns p i) (valid - 1) i = Inr (ns1, valid1)" "length ns1 = length ns" "trie_wf ns1"
          "\<forall>j. alive ns1 j \<longrightarrow> j < N" "int (card {j. alive ns1 j}) = valid1"
          "children ns1 0 = children (merge_nodes ns p i) 0"
          "\<forall>xs d. (\<forall>x \<in> set xs. unat x < 16) \<longrightarrow> 0 \<le> d \<longrightarrow> leads_to (merge_nodes ns p i) xs d \<longrightarrow> leads_to ns1 xs d"
        by auto
      have "children (merge_nodes ns p i) 0 = children ns 0"
        using merge_children [OF m alive_root0 [OF inv(1)]] False m by (simp add: merge_ok_def)
      with ok show ?thesis
        using step False merge_leads_to [OF m] by auto
    qed
  qed
qed

end
