(* ===== verification/Mpp_Trie_Pave.thy ===== *)
theory Mpp_Trie_Pave
  imports Mpp_Trie_Shrink
begin

text \<open>
  Paving: in a trie that is still being filled no node has a tag, every node in use is reached by one path, and
  adding a name keeps all earlier names and gives the new one a node of its own.
\<close>

section \<open>Tries without tags\<close>

definition plain :: "trie_node list \<Rightarrow> bool" where
  "plain ns \<longleftrightarrow> (\<forall>m. alive ns m \<longrightarrow> tn_tag_len (ns ! m) = 0)"

lemma alive_root: "trie_wf ns \<Longrightarrow> alive ns 0"
  by (simp add: trie_wf_def alive_def)

lemma tfind_plain:
  assumes "plain ns" "alive ns m"
  shows "tfind ns m [] = Some m"
    and "tfind ns m (x # xs) = (if link ns m x = 0 then None else tfind ns (nat (link ns m x)) xs)"
  using assms by (subst tfind.simps, simp add: plain_def)+

lemma tfind_plain_append:
  assumes "trie_wf ns" "plain ns"
  shows "alive ns m \<Longrightarrow> \<forall>x \<in> set xs. unat x < 16 \<Longrightarrow>
    tfind ns m (xs @ ys) = (case tfind ns m xs of None \<Rightarrow> None | Some q \<Rightarrow> tfind ns q ys)"
proof (induction xs arbitrary: m)
  case Nil
  then show ?case
    using tfind_plain(1) [OF assms(2)] by simp
next
  case (Cons x xs)
  show ?case
  proof (cases "link ns m x = 0")
    case True
    then show ?thesis
      using tfind_plain(2) [OF assms(2) Cons.prems(1)] by simp
  next
    case False
    then obtain k where "link ns m x = int k" "alive ns k"
      using link_alive [OF assms(1) Cons.prems(1)] Cons.prems(2) by auto
    then show ?thesis
      using Cons False tfind_plain(2) [OF assms(2) Cons.prems(1)] by simp
  qed
qed

lemma tfind_plain_alive:
  assumes "trie_wf ns" "plain ns"
  shows "alive ns m \<Longrightarrow> \<forall>x \<in> set xs. unat x < 16 \<Longrightarrow> tfind ns m xs = Some k \<Longrightarrow> alive ns k"
proof (induction xs arbitrary: m)
  case Nil
  then show ?case
    using tfind_plain(1) [OF assms(2)] by auto
next
  case (Cons x xs)
  have l: "link ns m x \<noteq> 0"
    using Cons.prems tfind_plain(2) [OF assms(2) Cons.prems(1)] by (auto split: if_splits)
  then obtain q where "link ns m x = int q" "alive ns q"
    using link_alive [OF assms(1) Cons.prems(1)] Cons.prems(2) by auto
  then show ?case
    using Cons l tfind_plain(2) [OF assms(2) Cons.prems(1)] by auto
qed

lemma tfind_plain_inj:
  assumes wf: "trie_wf ns" and pl: "plain ns"
  shows "\<forall>x \<in> set xs. unat x < 16 \<Longrightarrow> \<forall>y \<in> set ys. unat y < 16 \<Longrightarrow>
    tfind ns 0 xs = Some k \<Longrightarrow> tfind ns 0 ys = Some k \<Longrightarrow> xs = ys"
proof -
  have last: "\<exists>q. tfind ns 0 zs = Some q \<and> alive ns q \<and> hangs ns q (unat z) j \<and> j \<noteq> 0"
    if zs: "\<forall>x \<in> set (zs @ [z]). unat x < 16" and f: "tfind ns 0 (zs @ [z]) = Some j" for zs z j
  proof -
    obtain q where q: "tfind ns 0 zs = Some q" "tfind ns q [z] = Some j"
      using f tfind_plain_append [OF wf pl alive_root [OF wf], of zs "[z]"] zs by (auto split: option.splits)
    have aq: "alive ns q"
      using tfind_plain_alive [OF wf pl alive_root [OF wf] _ q(1)] zs by simp
    have "link ns q z \<noteq> 0"
      using q(2) tfind_plain(2) [OF pl aq] by (auto split: if_splits)
    moreover have "unat z < 16"
      using zs by simp
    ultimately obtain r where r: "link ns q z = int r" "alive ns r" "r \<noteq> 0" "hangs ns q (unat z) r"
      using link_alive [OF wf aq] by blast
    then have "j = r"
      using q(2) tfind_plain [OF pl] aq by (auto split: if_splits)
    with q aq r show ?thesis by blast
  qed
  show "\<forall>x \<in> set xs. unat x < 16 \<Longrightarrow> \<forall>y \<in> set ys. unat y < 16 \<Longrightarrow>
    tfind ns 0 xs = Some k \<Longrightarrow> tfind ns 0 ys = Some k \<Longrightarrow> xs = ys"
  proof (induction xs arbitrary: ys k rule: rev_induct)
    case Nil
    then have "k = 0"
      using tfind_plain(1) [OF pl alive_root [OF wf]] by simp
    show ?case
    proof (cases ys rule: rev_cases)
      case (snoc zs z)
      then show ?thesis
        using last [of zs z k] Nil.prems \<open>k = 0\<close> by auto
    qed simp
  next
    case (snoc x xs)
    obtain q where q: "tfind ns 0 xs = Some q" "hangs ns q (unat x) k" "k \<noteq> 0"
      using last [OF snoc.prems(1,3)] by blast
    show ?case
    proof (cases ys rule: rev_cases)
      case Nil
      then show ?thesis
        using snoc.prems q tfind_plain(1) [OF pl alive_root [OF wf]] by simp
    next
      case ys: (snoc zs z)
      obtain r where r: "tfind ns 0 zs = Some r" "hangs ns r (unat z) k"
        using last [of zs z k] snoc.prems ys by blast
      have "q = r" "x = z"
        using hangs_unique [OF q(2) r(2)] by (simp_all add: word_unat_eq_iff)
      then show ?thesis
        using snoc.IH [of zs q] snoc.prems q r ys by simp
    qed
  qed
qed

section \<open>A new node\<close>

lemma grown_alive: "ns \<noteq> [] \<Longrightarrow> alive (ns @ replicate c node_0) m \<longleftrightarrow> alive ns m"
  by (cases "m = 0") (auto simp: alive_def nth_append node_0_def)

text \<open>Nodes that differ in their positions only.\<close>

definition same_but_id :: "trie_node \<Rightarrow> trie_node \<Rightarrow> bool" where
  "same_but_id a b \<longleftrightarrow> a\<lparr>tn_id := 0\<rparr> = b\<lparr>tn_id := 0\<rparr>"

lemma same_but_id_simps:
  assumes "same_but_id a b"
  shows "tn_next a = tn_next b" "tn_idx a = tn_idx b" "tn_prev a = tn_prev b" "tn_tag_val a = tn_tag_val b"
    "tn_key a = tn_key b" "tn_tag_len a = tn_tag_len b" "tn_next_cnt a = tn_next_cnt b"
  using assms by (cases a; cases b; simp add: same_but_id_def)+

lemma same_but_id_refl [simp]: "same_but_id a a"
  and same_but_id_set [simp]: "same_but_id (a\<lparr>tn_id := d\<rparr>) a"
  by (simp_all add: same_but_id_def)

lemma same_nodes_wf:
  assumes wf: "trie_wf ns" and al: "\<And>m. alive ns' m \<longleftrightarrow> alive ns m"
    and nth: "\<And>m. alive ns m \<Longrightarrow> same_but_id (ns' ! m) (ns ! m)"
  shows "trie_wf ns'"
proof -
  note same = same_but_id_simps [OF nth]
  have h: "hangs ns' j c k \<longleftrightarrow> hangs ns j c k" if "alive ns j" "alive ns k" for j c k
    using same [OF that(1)] same [OF that(2)] by (simp add: hangs_def)
  have "node_wf ns' m" if m: "alive ns m" for m
  proof -
    have ch: "children ns' m = children ns m"
      using same [OF m] by (simp add: children_def)
    have "\<forall>c \<in> children ns m. \<exists>k. alive ns' k \<and> k \<noteq> 0 \<and> hangs ns' m c k"
    proof
      fix c assume "c \<in> children ns m"
      then obtain k where "alive ns k" "m < k" "hangs ns m c k"
        using children_hang [OF wf m] by blast
      then show "\<exists>k. alive ns' k \<and> k \<noteq> 0 \<and> hangs ns' m c k"
        using h [OF m] al by (intro exI [of _ k]) auto
    qed
    moreover have "m \<noteq> 0 \<longrightarrow> (\<exists>p c. alive ns' p \<and> p < m \<and> hangs ns' p c m)"
      using parent_hangs [OF wf m] h [OF _ m] al by metis
    ultimately show ?thesis
      using trie_wf_alive [OF wf m] by (simp add: node_wf_def same [OF m] ch)
  qed
  moreover have "tn_tag_len (ns' ! 0) = 0"
    using wf same(6) [OF alive_root [OF wf]] by (simp add: trie_wf_def)
  moreover have "ns' \<noteq> []"
    using alive_root [OF wf] al [of 0] by (auto simp: alive_def)
  ultimately show ?thesis
    using al by (simp add: trie_wf_def)
qed

lemma same_nodes_tfind:
  assumes wf: "trie_wf ns" and nth: "\<And>m. alive ns m \<Longrightarrow> same_but_id (ns' ! m) (ns ! m)"
    and "alive ns m" "\<forall>x \<in> set xs. unat x < 16" "tfind ns m xs = Some k"
  shows "tfind ns' m xs = Some k"
proof (rule tfind_map [where f = "\<lambda>m. m", OF wf _ _ assms(3-5)])
  show "tn_tag_len (ns' ! m) = tn_tag_len (ns ! m) \<and> tn_tag_val (ns' ! m) = tn_tag_val (ns ! m)" if "alive ns m" for m
    using same_but_id_simps [OF nth [OF that]] by simp
  show "tn_next (ns' ! m) ! c = int k \<and> k \<noteq> 0" if "alive ns m" "alive ns k" "k \<noteq> 0" "hangs ns m c k" for m c k
    using same_but_id_simps(1) [OF nth [OF that(1)]] that by (simp add: hangs_def)
qed

text \<open>Setting a position keeps all but that position.\<close>

lemma set_id_alive: "alive (ns[k := (ns ! k)\<lparr>tn_id := d\<rparr>]) m \<longleftrightarrow> alive ns m"
  by (cases "m = k") (auto simp: alive_def)

lemma set_id_nth: "same_but_id (ns[k := (ns ! k)\<lparr>tn_id := d\<rparr>] ! m) (ns ! m)"
  by (cases "m = k"; cases "k < length ns") (simp_all add: not_less list_update_beyond)

lemma set_id_wf: "trie_wf ns \<Longrightarrow> trie_wf (ns[k := (ns ! k)\<lparr>tn_id := d\<rparr>])"
  by (rule same_nodes_wf [OF _ set_id_alive set_id_nth])

lemma set_id_tfind:
  "trie_wf ns \<Longrightarrow> alive ns m \<Longrightarrow> \<forall>x \<in> set xs. unat x < 16 \<Longrightarrow> tfind ns m xs = Some j \<Longrightarrow>
     tfind (ns[k := (ns ! k)\<lparr>tn_id := d\<rparr>]) m xs = Some j"
  by (rule same_nodes_tfind [OF _ set_id_nth])

lemma set_id_children: "children (ns[k := (ns ! k)\<lparr>tn_id := d\<rparr>]) m = children ns m"
  using same_but_id_simps(1) [OF set_id_nth] by (simp add: children_def)

definition fresh_node :: "nat \<Rightarrow> nat \<Rightarrow> u8 \<Rightarrow> trie_node" where
  "fresh_node n idx x = node_0\<lparr>tn_idx := int n, tn_prev := int idx, tn_key := ucast x, tn_id := INVALID_NODE_ID\<rparr>"

definition added_nodes :: "trie_node list \<Rightarrow> nat \<Rightarrow> nat \<Rightarrow> u8 \<Rightarrow> trie_node list" where
  "added_nodes ns n idx x = ns[n := fresh_node n idx x,
     idx := (ns ! idx)\<lparr>tn_next_cnt := tn_next_cnt (ns ! idx) + 1, tn_next := (tn_next (ns ! idx))[unat x := int n]\<rparr>]"

lemma length_added_nodes [simp]: "length (added_nodes ns n idx x) = length ns"
  by (simp add: added_nodes_def)

definition add_ok :: "trie_node list \<Rightarrow> nat \<Rightarrow> nat \<Rightarrow> u8 \<Rightarrow> bool" where
  "add_ok ns n idx x \<longleftrightarrow> trie_wf ns \<and> alive ns idx \<and> idx < n \<and> n < length ns \<and> n < 32768 \<and> \<not> alive ns n \<and>
     unat x < 16 \<and> link ns idx x = 0"

lemma nth_added:
  assumes a: "add_ok ns n idx x"
  shows "added_nodes ns n idx x ! n = fresh_node n idx x"
    and "added_nodes ns n idx x ! idx = (ns ! idx)\<lparr>tn_next_cnt := tn_next_cnt (ns ! idx) + 1, tn_next := (tn_next (ns ! idx))[unat x := int n]\<rparr>"
    and "k \<noteq> n \<Longrightarrow> k \<noteq> idx \<Longrightarrow> added_nodes ns n idx x ! k = ns ! k"
  using a by (auto simp: added_nodes_def add_ok_def nth_list_update)

lemma added_alive:
  assumes a: "add_ok ns n idx x"
  shows "alive (added_nodes ns n idx x) k \<longleftrightarrow> alive ns k \<or> k = n"
  using a nth_added [OF a] by (cases "k = n"; cases "k = idx") (auto simp: add_ok_def alive_def fresh_node_def)

lemma added_hangs:
  assumes a: "add_ok ns n idx x" and al: "alive ns j" "alive ns k" "k \<noteq> 0" and h: "hangs ns j c k"
  shows "hangs (added_nodes ns n idx x) j c k"
proof -
  have n: "j \<noteq> n" "k \<noteq> n" and len: "length (tn_next (ns ! idx)) = 16"
    using a al trie_wf_alive by (auto simp: add_ok_def node_wf_def)
  have "tn_prev (added_nodes ns n idx x ! k) = tn_prev (ns ! k)" "tn_key (added_nodes ns n idx x ! k) = tn_key (ns ! k)"
    using nth_added [OF a] n by (cases "k = idx"; simp)+
  moreover have "tn_next (added_nodes ns n idx x ! j) ! c = int k"
  proof (cases "j = idx")
    case True
    then have "c \<noteq> unat x"
      using h al(3) a by (auto simp: hangs_def add_ok_def)
    then show ?thesis
      using nth_added(2) [OF a] True h by (simp add: hangs_def)
  next
    case False
    then show ?thesis
      using nth_added(3) [OF a n(1)] h by (simp add: hangs_def)
  qed
  ultimately show ?thesis
    using h by (simp add: hangs_def)
qed

lemma added_new_hangs:
  assumes a: "add_ok ns n idx x"
  shows "hangs (added_nodes ns n idx x) idx (unat x) n"
proof -
  have "alive ns idx" "trie_wf ns"
    using a by (simp_all add: add_ok_def)
  then have "length (tn_next (ns ! idx)) = 16"
    using trie_wf_alive by (auto simp: node_wf_def)
  then show ?thesis
    using nth_added [OF a] a by (simp add: hangs_def fresh_node_def add_ok_def)
qed

lemma added_children:
  assumes a: "add_ok ns n idx x"
  shows "children (added_nodes ns n idx x) k =
    (if k = n then {} else if k = idx then insert (unat x) (children ns idx) else children ns k)"
proof -
  have "alive ns idx" "trie_wf ns"
    using a by (simp_all add: add_ok_def)
  then have "length (tn_next (ns ! idx)) = 16"
    using trie_wf_alive by (auto simp: node_wf_def)
  then show ?thesis
    using nth_added [OF a] a
    by (auto simp: children_def fresh_node_def node_0_def add_ok_def nth_list_update split: if_splits)
qed

lemma added_wf:
  assumes a: "add_ok ns n idx x"
  shows "trie_wf (added_nodes ns n idx x)"
proof -
  let ?ns = "added_nodes ns n idx x"
  have wf: "trie_wf ns" and idx: "alive ns idx" "idx < n" "n < 32768" "\<not> alive ns n" and x: "unat x < 16"
    using a by (simp_all add: add_ok_def)
  have al: "alive ?ns k \<longleftrightarrow> alive ns k \<or> k = n" for k
    by (rule added_alive [OF a])
  have "node_wf ?ns n"
    using nth_added(1) [OF a] added_children [OF a, of n] idx added_new_hangs [OF a] al
    by (auto simp: node_wf_def fresh_node_def node_0_def)
  moreover have "node_wf ?ns k" if k: "alive ns k" for k
  proof -
    have wk: "node_wf ns k" and kn: "k \<noteq> n"
      using trie_wf_alive [OF wf k] k idx(4) by auto
    have "\<exists>l. alive ?ns l \<and> l \<noteq> 0 \<and> hangs ?ns k c l" if c: "c \<in> children ?ns k" for c
    proof (cases "k = idx \<and> c = unat x")
      case True
      then show ?thesis
        using added_new_hangs [OF a] al idx(2) by (intro exI [of _ n]) auto
    next
      case False
      then have "c \<in> children ns k"
        using c added_children [OF a, of k] kn by (auto split: if_splits)
      then obtain l where "alive ns l" "k < l" "hangs ns k c l"
        using children_hang [OF wf k] by blast
      then show ?thesis
        using added_hangs [OF a k] al by (intro exI [of _ l]) auto
    qed
    moreover have "k \<noteq> 0 \<longrightarrow> (\<exists>p c. alive ?ns p \<and> p < k \<and> hangs ?ns p c k)"
      using parent_hangs [OF wf k] added_hangs [OF a _ k] al by metis
    moreover have "length (tn_next (?ns ! k)) = 16" "tn_idx (?ns ! k) = int k" "k < 32768" "0 \<le> tn_tag_len (?ns ! k)"
      "tn_tag_len (?ns ! k) \<le> 16" "tn_tag_len (?ns ! k) = 0 \<longrightarrow> tn_tag_val (?ns ! k) = 0"
      using wk nth_added(2) [OF a] nth_added(3) [OF a, of k] kn by (cases "k = idx"; simp add: node_wf_def)+
    moreover have "tn_next_cnt (?ns ! k) = of_nat (card (children ?ns k))"
    proof (cases "k = idx")
      case True
      have "unat x \<notin> children ns idx"
        using a by (simp add: children_def add_ok_def)
      then show ?thesis
        using True wk nth_added(2) [OF a] added_children [OF a, of k] kn by (simp add: node_wf_def add.commute)
    next
      case False
      then show ?thesis
        using wk nth_added(3) [OF a kn False] added_children [OF a, of k] kn by (simp add: node_wf_def)
    qed
    ultimately show ?thesis
      unfolding node_wf_def by blast
  qed
  moreover have "tn_tag_len (?ns ! 0) = 0"
    using wf nth_added(2) [OF a] nth_added(3) [OF a, of 0] idx(2) by (cases "idx = 0") (auto simp: trie_wf_def)
  moreover have "?ns \<noteq> []"
    using a length_added_nodes [of ns n idx x] by (metis add_ok_def list.size(3) not_less0)
  ultimately show ?thesis
    using al by (auto simp: trie_wf_def)
qed

lemma added_tfind:
  assumes a: "add_ok ns n idx x" and "alive ns m" "\<forall>x \<in> set xs. unat x < 16" "tfind ns m xs = Some k"
  shows "tfind (added_nodes ns n idx x) m xs = Some k"
proof -
  have wf: "trie_wf ns"
    using a by (simp add: add_ok_def)
  show ?thesis
  proof (rule tfind_map [where f = "\<lambda>m. m", OF wf _ _ assms(2-4)])
    fix m assume m: "alive ns m"
    then have "m \<noteq> n"
      using a by (auto simp: add_ok_def)
    then show "tn_tag_len (added_nodes ns n idx x ! m) = tn_tag_len (ns ! m) \<and>
        tn_tag_val (added_nodes ns n idx x ! m) = tn_tag_val (ns ! m)"
      using nth_added(2) [OF a] nth_added(3) [OF a, of m] by (cases "m = idx") auto
    show "tn_next (added_nodes ns n idx x ! m) ! c = int k \<and> k \<noteq> 0" if "alive ns k" "k \<noteq> 0" "hangs ns m c k" for c k
      using added_hangs [OF a m that] that(2) by (simp add: hangs_def)
  qed
qed

section \<open>Paving a name\<close>

text \<open>The nodes of a trie with \<open>n\<close> nodes in use.\<close>

definition paved :: "MppTrieImpl \<Rightarrow> nat \<Rightarrow> bool" where
  "paved p n \<longleftrightarrow> trie_wf (tr_nodes p) \<and> plain (tr_nodes p) \<and> tr_node_used p = int n \<and>
     tr_node_count p = int (length (tr_nodes p)) \<and> 0 < n \<and> n \<le> length (tr_nodes p) \<and>
     (\<forall>m. alive (tr_nodes p) m \<longleftrightarrow> m < n) \<and> (\<forall>m < length (tr_nodes p). n \<le> m \<longrightarrow> tr_nodes p ! m = node_0)"

text \<open>Paths, positions and everything but the nodes stay, and new nodes have no position.\<close>

definition extends :: "MppTrieImpl \<Rightarrow> nat \<Rightarrow> MppTrieImpl \<Rightarrow> nat \<Rightarrow> bool" where
  "extends p n p' n' \<longleftrightarrow> n \<le> n' \<and>
     (\<forall>m xs k. alive (tr_nodes p) m \<longrightarrow> (\<forall>x \<in> set xs. unat x < 16) \<longrightarrow> tfind (tr_nodes p) m xs = Some k \<longrightarrow>
        tfind (tr_nodes p') m xs = Some k) \<and>
     (\<forall>m < n. tn_id (tr_nodes p' ! m) = tn_id (tr_nodes p ! m)) \<and>
     (\<forall>m < n'. n \<le> m \<longrightarrow> tn_id (tr_nodes p' ! m) = - 1) \<and>
     p' = p\<lparr>tr_nodes := tr_nodes p', tr_node_count := tr_node_count p', tr_node_used := tr_node_used p'\<rparr>"

lemma extends_refl: "extends p n p n"
  by (simp add: extends_def)

lemma extends_trans:
  assumes "paved p n" "paved p' n'" "extends p n p' n'" "extends p' n' p'' n''"
  shows "extends p n p'' n''"
proof -
  have "p'' = p\<lparr>tr_nodes := tr_nodes p'', tr_node_count := tr_node_count p'', tr_node_used := tr_node_used p''\<rparr>"
    using assms(3,4) by (cases p; cases p'; cases p'') (simp add: extends_def)
  moreover have "tn_id (tr_nodes p'' ! m) = - 1" if "m < n''" "n \<le> m" for m
    using that assms(3,4) by (cases "m < n'") (auto simp: extends_def)
  moreover have "alive (tr_nodes p') m" if "alive (tr_nodes p) m" for m
    using that assms(1-3) by (auto simp: paved_def extends_def)
  ultimately show ?thesis
    using assms(3,4) unfolding extends_def by (auto dest: order.strict_trans2)
qed

lemma paved_grow:
  assumes p: "paved p n"
  shows "paved (p\<lparr>tr_nodes := tr_nodes p @ replicate c node_0, tr_node_count := tr_node_count p + int c\<rparr>) n"
    and "extends p n (p\<lparr>tr_nodes := tr_nodes p @ replicate c node_0, tr_node_count := tr_node_count p + int c\<rparr>) n"
proof -
  let ?ns = "tr_nodes p @ replicate c node_0"
  have wf: "trie_wf (tr_nodes p)" "tr_nodes p \<noteq> []"
    using p by (auto simp: paved_def trie_wf_def)
  have al: "alive ?ns m \<longleftrightarrow> alive (tr_nodes p) m" for m
    using grown_alive [OF wf(2)] .
  have nth: "?ns ! m = tr_nodes p ! m" if "alive (tr_nodes p) m" for m
    using alive_less [OF that] by (simp add: nth_append)
  have "trie_wf ?ns"
    by (rule same_nodes_wf [OF wf(1) al]) (simp add: nth)
  moreover have "?ns ! m = node_0" if "m < length ?ns" "n \<le> m" for m
    using that p by (auto simp: nth_append paved_def)
  ultimately show "paved (p\<lparr>tr_nodes := ?ns, tr_node_count := tr_node_count p + int c\<rparr>) n"
    using p al nth by (auto simp: paved_def plain_def)
  have "tfind ?ns m xs = Some k" if "alive (tr_nodes p) m" "\<forall>x \<in> set xs. unat x < 16" "tfind (tr_nodes p) m xs = Some k" for m xs k
    by (rule tfind_map [where f = "\<lambda>m. m", OF wf(1) _ _ that]) (use nth in \<open>auto simp: hangs_def\<close>)
  then show "extends p n (p\<lparr>tr_nodes := ?ns, tr_node_count := tr_node_count p + int c\<rparr>) n"
    using p nth by (auto simp: extends_def paved_def)
qed

lemma pave_nibble_add:
  assumes p: "paved p n" and room: "n < length (tr_nodes p)" "n < 32768" and idx: "idx < n" and x: "unat x < 16"
    and free: "link (tr_nodes p) idx x = 0"
  defines "p' \<equiv> p\<lparr>tr_nodes := added_nodes (tr_nodes p) n idx x, tr_node_used := int (Suc n)\<rparr>"
  shows "paved p' (Suc n)" and "extends p n p' (Suc n)"
proof -
  let ?ns = "added_nodes (tr_nodes p) n idx x"
  have a: "add_ok (tr_nodes p) n idx x"
    using assms by (auto simp: add_ok_def paved_def)
  have ids: "tn_id (?ns ! m) = (if m = n then - 1 else tn_id (tr_nodes p ! m))" for m
    using nth_added(1,2) [OF a] nth_added(3) [OF a, of m] idx by (cases "m = n"; cases "m = idx") (auto simp: fresh_node_def)
  have "plain ?ns"
    unfolding plain_def
  proof (intro allI impI)
    fix m assume "alive ?ns m"
    then show "tn_tag_len (?ns ! m) = 0"
      using added_alive [OF a, of m] p nth_added(1,2) [OF a] nth_added(3) [OF a, of m] idx
      by (cases "m = n"; cases "m = idx") (auto simp: fresh_node_def node_0_def paved_def plain_def)
  qed
  moreover have "?ns ! m = node_0" if "m < length (tr_nodes p)" "Suc n \<le> m" for m
    using that nth_added(3) [OF a, of m] idx p by (auto simp: paved_def)
  ultimately show "paved p' (Suc n)"
    using p added_wf [OF a] added_alive [OF a] room by (auto simp: paved_def p'_def less_Suc_eq)
  show "extends p n p' (Suc n)"
    using added_tfind [OF a] ids by (auto simp: extends_def p'_def)
qed

lemma trie_get_node_ok:
  assumes p: "paved p n" and n: "n < 32768" and idx: "idx < n" and x: "unat x < 16" and free: "link (tr_nodes p) idx x = 0"
  shows "\<exists>p1. run_bind (trie_get_node True p (int idx) (ucast x)) (\<lambda>(nx, p1).
         if nx < 0 then Inr (nx, p1)
         else run_bind (node_update (tr_nodes p1) (int idx) (\<lambda>n. n\<lparr>tn_next := (tn_next n)[unat x := s16 nx]\<rparr>)) (\<lambda>ns.
           Inr (nx, p1\<lparr>tr_nodes := ns\<rparr>))) = Inr (int n, p1) \<and>
       paved p1 (Suc n) \<and> extends p n p1 (Suc n) \<and> link (tr_nodes p1) idx x = int n \<and>
       children (tr_nodes p1) 0 \<subseteq> children (tr_nodes p) 0 \<union> (if idx = 0 then {unat x} else {})"
proof -
  let ?full = "tr_node_used p \<ge> tr_node_count p"
  define c where "c = (if ?full then length (tr_nodes p) else 0)"
  let ?g = "p\<lparr>tr_nodes := tr_nodes p @ replicate c node_0, tr_node_count := tr_node_count p + int c\<rparr>"
  have cnt: "tr_node_used p = int n" "tr_node_count p = int (length (tr_nodes p))" "n \<le> length (tr_nodes p)" "0 < n"
    using p by (simp_all add: paved_def)
  have g: "(if ?full then p\<lparr>tr_nodes := tr_nodes p @ replicate (nat (tr_node_count p)) node_0,
      tr_node_count := tr_node_count p * 2\<rparr> else p) = ?g"
    using cnt by (simp add: c_def)
  have pg: "paved ?g n" "extends p n ?g n"
    by (rule paved_grow [OF p])+
  have room: "n < length (tr_nodes ?g)"
    using cnt by (auto simp: c_def)
  have in_p: "idx < length (tr_nodes p)"
    using idx cnt by simp
  then have free_g: "link (tr_nodes ?g) idx x = 0"
    using free by (simp add: nth_append)
  let ?p1 = "?g\<lparr>tr_nodes := added_nodes (tr_nodes ?g) n idx x, tr_node_used := int (Suc n)\<rparr>"
  have p1: "paved ?p1 (Suc n)" "extends ?g n ?p1 (Suc n)"
    by (rule pave_nibble_add [OF pg(1) room n idx x free_g])+
  have fresh: "tr_nodes ?g ! n = node_0"
    using pg(1) room by (simp add: paved_def)
  have a: "add_ok (tr_nodes ?g) n idx x"
    using pg(1) room n idx x free_g by (auto simp: add_ok_def paved_def)
  have s: "s16 (int n) = int n" "s16 (int idx) = int idx"
    using n idx by (simp_all add: s16_small)
  have "run_bind (trie_get_node True p (int idx) (ucast x)) (\<lambda>(nx, p1).
         if nx < 0 then Inr (nx, p1)
         else run_bind (node_update (tr_nodes p1) (int idx) (\<lambda>n. n\<lparr>tn_next := (tn_next n)[unat x := s16 nx]\<rparr>)) (\<lambda>ns.
           Inr (nx, p1\<lparr>tr_nodes := ns\<rparr>))) = Inr (int n, ?p1)"
  proof -
    have "trie_get_node True p (int idx) (ucast x) = Inr (int n, ?g\<lparr>tr_nodes := (tr_nodes ?g)[n := fresh_node n idx x,
        idx := (tr_nodes ?g ! idx)\<lparr>tn_next_cnt := tn_next_cnt (tr_nodes ?g ! idx) + 1\<rparr>], tr_node_used := int (Suc n)\<rparr>)"
      using room idx in_p s fresh cnt(1) unfolding trie_get_node_def g Let_def
      by (auto simp: fresh_node_def)
    then show ?thesis
      using room idx in_p s by (simp add: added_nodes_def)
  qed
  moreover have "link (tr_nodes ?p1) idx x = int n"
    using added_new_hangs [OF a] by (simp add: hangs_def)
  moreover have "children (tr_nodes ?p1) 0 \<subseteq> children (tr_nodes p) 0 \<union> (if idx = 0 then {unat x} else {})"
  proof -
    have "0 < length (tr_nodes p)"
      using cnt by linarith
    then have "children (tr_nodes ?g) 0 = children (tr_nodes p) 0"
      by (simp add: children_def nth_append)
    then show ?thesis
      using added_children [OF a, of 0] cnt(4) by auto
  qed
  ultimately show ?thesis
    using p1 extends_trans [OF p pg(1) pg(2) p1(2)] by blast
qed

lemma pave_nibble_ok:
  assumes p: "paved p n" and n: "n < 32768" and idx: "idx < n" and x: "unat x < 16"
  shows "\<exists>k p1 n1. pave_nibble True p (int idx) x = Inr (int k, p1) \<and> paved p1 n1 \<and> extends p n p1 n1 \<and> n1 \<le> Suc n \<and>
     k < n1 \<and> k \<noteq> 0 \<and> link (tr_nodes p1) idx x = int k \<and>
     children (tr_nodes p1) 0 \<subseteq> children (tr_nodes p) 0 \<union> (if idx = 0 then {unat x} else {})"
proof -
  have wf: "trie_wf (tr_nodes p)" and al: "alive (tr_nodes p) idx" and cnt: "n \<le> length (tr_nodes p)"
    and am: "\<And>m. alive (tr_nodes p) m \<longleftrightarrow> m < n" and n0: "0 < n"
    using p idx by (auto simp: paved_def)
  have len: "length (tn_next (tr_nodes p ! idx)) = 16"
    using trie_wf_alive [OF wf al] by (simp add: node_wf_def)
  have "int (unat x) < 16"
    using x by linarith
  then have ux: "uint x < 16"
    by simp
  have get: "pave_nibble True p (int idx) x = (if link (tr_nodes p) idx x \<noteq> 0 then Inr (link (tr_nodes p) idx x, p)
      else run_bind (trie_get_node True p (int idx) (ucast x)) (\<lambda>(nx, p1).
         if nx < 0 then Inr (nx, p1)
         else run_bind (node_update (tr_nodes p1) (int idx) (\<lambda>n. n\<lparr>tn_next := (tn_next n)[unat x := s16 nx]\<rparr>)) (\<lambda>ns.
           Inr (nx, p1\<lparr>tr_nodes := ns\<rparr>))))"
    using idx cnt len ux by (simp add: pave_nibble_def)
  show ?thesis
  proof (cases "link (tr_nodes p) idx x = 0")
    case True
    obtain p1 where p1: "pave_nibble True p (int idx) x = Inr (int n, p1)" "paved p1 (Suc n)" "extends p n p1 (Suc n)"
        "link (tr_nodes p1) idx x = int n"
        "children (tr_nodes p1) 0 \<subseteq> children (tr_nodes p) 0 \<union> (if idx = 0 then {unat x} else {})"
      using trie_get_node_ok [OF p n idx x True] get True by auto
    show ?thesis
      by (intro exI [of _ n] exI [of _ p1] exI [of _ "Suc n"]) (use p1 n0 in simp)
  next
    case False
    then obtain k where k: "link (tr_nodes p) idx x = int k" "alive (tr_nodes p) k" "k \<noteq> 0"
      using link_alive [OF wf al x] by blast
    show ?thesis
      by (intro exI [of _ k] exI [of _ p] exI [of _ n]) (use get k p am extends_refl in auto)
  qed
qed

lemma pave_loop_ok:
  assumes "paved p n" and "n + 2 * length s \<le> 32768" and "tfind (tr_nodes p) 0 pre = Some idx" and "\<forall>x \<in> set pre. unat x < 16"
  shows "\<exists>k p1 n1. pave_loop True p (int idx) s = Inr (int k, p1) \<and> paved p1 n1 \<and> extends p n p1 n1 \<and> n1 \<le> n + 2 * length s \<and>
     k < n1 \<and> tfind (tr_nodes p1) 0 (pre @ nibbles s) = Some k \<and>
     children (tr_nodes p1) 0 \<subseteq> children (tr_nodes p) 0 \<union> (if idx = 0 \<and> s \<noteq> [] then {unat (hd (nibbles s))} else {})"
  using assms
proof (induction s arbitrary: p n pre idx)
  case Nil
  then have "alive (tr_nodes p) idx"
    using tfind_plain_alive [OF _ _ alive_root, of "tr_nodes p" pre idx] by (simp add: paved_def)
  then show ?case
    using Nil extends_refl by (auto simp: paved_def)
next
  case (Cons c s)
  have wf: "trie_wf (tr_nodes p)" "plain (tr_nodes p)"
    using Cons.prems(1) by (simp_all add: paved_def)
  have idx: "idx < n"
    using tfind_plain_alive [OF wf alive_root [OF wf(1)] Cons.prems(4,3)] Cons.prems(1) by (simp add: paved_def)
  let ?x = "drop_bit 4 c AND 0xf" and ?y = "c AND 0xf"
  have path: "tfind (tr_nodes q) 0 (zs @ [z]) = Some k"
    if "paved q m" "tfind (tr_nodes q) 0 zs = Some j" "\<forall>x \<in> set zs. unat x < 16" "link (tr_nodes q) j z = int k" "k \<noteq> 0" "k < m"
    for q m zs z j k
  proof -
    have w: "trie_wf (tr_nodes q)" "plain (tr_nodes q)"
      using that(1) by (simp_all add: paved_def)
    have aj: "alive (tr_nodes q) j" and ak: "alive (tr_nodes q) k"
      using tfind_plain_alive [OF w alive_root [OF w(1)] that(3,2)] that(1,6) by (simp_all add: paved_def)
    show ?thesis
      using tfind_plain_append [OF w alive_root [OF w(1)] that(3), of "[z]"] that(2,4,5)
        tfind_plain(2) [OF w(2) aj] tfind_plain(1) [OF w(2) ak] by simp
  qed
  have mono: "tfind (tr_nodes q') 0 zs = Some j"
    if "extends q m q' m'" "paved q m" "\<forall>x \<in> set zs. unat x < 16" "tfind (tr_nodes q) 0 zs = Some j" for q m q' m' zs j
    using that alive_root [of "tr_nodes q"] by (auto simp: extends_def paved_def)
  obtain k1 p1 n1 where s1: "pave_nibble True p (int idx) ?x = Inr (int k1, p1)" "paved p1 n1" "extends p n p1 n1" "n1 \<le> Suc n"
      "k1 < n1" "k1 \<noteq> 0" "link (tr_nodes p1) idx ?x = int k1"
      "children (tr_nodes p1) 0 \<subseteq> children (tr_nodes p) 0 \<union> (if idx = 0 then {unat ?x} else {})"
    using pave_nibble_ok [OF Cons.prems(1) _ idx nibble_lt, of "drop_bit 4 c"] Cons.prems(2) by auto
  have f1: "tfind (tr_nodes p1) 0 (pre @ [?x]) = Some k1"
    by (rule path [OF s1(2) mono [OF s1(3) Cons.prems(1,4,3)] Cons.prems(4) s1(7,6,5)])
  have pre1: "\<forall>x \<in> set (pre @ [?x]). unat x < 16"
    using Cons.prems(4) nibble_lt by auto
  obtain k2 p2 n2 where s2: "pave_nibble True p1 (int k1) ?y = Inr (int k2, p2)" "paved p2 n2" "extends p1 n1 p2 n2" "n2 \<le> Suc n1"
      "k2 < n2" "k2 \<noteq> 0" "link (tr_nodes p2) k1 ?y = int k2" "children (tr_nodes p2) 0 \<subseteq> children (tr_nodes p1) 0"
    using pave_nibble_ok [OF s1(2) _ s1(5) nibble_lt, of c] Cons.prems(2) s1(4,6) by auto
  have f2: "tfind (tr_nodes p2) 0 ((pre @ [?x]) @ [?y]) = Some k2"
    by (rule path [OF s2(2) mono [OF s2(3) s1(2) pre1 f1] pre1 s2(7,6,5)])
  have pre2: "\<forall>x \<in> set ((pre @ [?x]) @ [?y]). unat x < 16"
    using pre1 nibble_lt by auto
  have "n2 + 2 * length s \<le> 32768"
    using Cons.prems(2) s1(4) s2(4) by simp
  from Cons.IH [OF s2(2) this f2 pre2] obtain k p3 n3 where
    s3: "pave_loop True p2 (int k2) s = Inr (int k, p3)" "paved p3 n3" "extends p2 n2 p3 n3" "n3 \<le> n2 + 2 * length s" "k < n3"
      "tfind (tr_nodes p3) 0 (((pre @ [?x]) @ [?y]) @ nibbles s) = Some k"
      "children (tr_nodes p3) 0 \<subseteq> children (tr_nodes p2) 0 \<union> (if k2 = 0 \<and> s \<noteq> [] then {unat (hd (nibbles s))} else {})"
    by blast
  have "pave_loop True p (int idx) (c # s) = Inr (int k, p3)"
    using s1(1) s2(1) s3(1) by simp
  moreover have "extends p n p3 n3"
    by (rule extends_trans [OF Cons.prems(1) s1(2) s1(3) extends_trans [OF s1(2) s2(2) s2(3) s3(3)]])
  moreover have "children (tr_nodes p3) 0 \<subseteq> children (tr_nodes p) 0 \<union> (if idx = 0 then {unat ?x} else {})"
    using s1(8) s2(6,8) s3(7) by auto
  moreover have "n3 \<le> n + 2 * length (c # s)"
    using s3(4) s1(4) s2(4) by simp
  moreover have "tfind (tr_nodes p3) 0 (pre @ nibbles (c # s)) = Some k"
    using s3(6) by simp
  moreover have first: "(if idx = 0 \<and> c # s \<noteq> [] then {unat (hd (nibbles (c # s)))} else {}) = (if idx = 0 then {unat ?x} else {})"
    by simp
  ultimately show ?case
    unfolding first using s3(2,5) by blast
qed

end
