(* ===== verification/Mpp_Trie_Add.thy ===== *)
theory Mpp_Trie_Add
  imports Mpp_Trie_Pave
begin

text \<open>
  Adding entries: what the trie holds while it is filled, and that an entry with a new name is added and keeps the others.
\<close>

section \<open>Entries\<close>

type_synonym entry = "u8 list \<times> u8 list"

text \<open>A name that fits the 8 bits of \<open>str_len\<close>, and a context that does not need more than one doubling of the buffer.\<close>

definition name_entry_ok :: "entry \<Rightarrow> bool" where
  "name_entry_ok e \<longleftrightarrow> fst e \<noteq> [] \<and> length (fst e) \<le> 251 \<and> 0 \<notin> set (fst e) \<and> length (snd e) \<le> 3840"

definition al4 :: "nat \<Rightarrow> nat" where
  "al4 n = (n + 3) div 4 * 4"

definition entry_size :: "entry \<Rightarrow> nat" where
  "entry_size e = 4 + al4 (length (fst e) + 1) + al4 (length (snd e))"

definition entry_off :: "entry list \<Rightarrow> nat \<Rightarrow> nat" where
  "entry_off es i = sum_list (map entry_size (take i es))"

definition entry_info :: "nat \<Rightarrow> entry \<Rightarrow> trie_info" where
  "entry_info i e = \<lparr>ti_index = i, ti_ctx_len = al4 (length (snd e)), ti_str_len = al4 (length (fst e) + 1),
     ti_name = pad_zero (fst e @ [0]) (int (al4 (length (fst e) + 1))), ti_ctx = pad_zero (snd e) (int (al4 (length (snd e))))\<rparr>"

definition entry_infos :: "int \<Rightarrow> entry list \<Rightarrow> nat \<Rightarrow> info_mem" where
  "entry_infos base es n = map (\<lambda>i. (base + int (entry_off es i), entry_info i (es ! i))) [0..<n]"

lemma al4_bounds: "n \<le> al4 n" "al4 n \<le> n + 3" "al4 n mod 4 = 0"
  by (simp_all add: al4_def)

lemma entry_size_pos: "0 < entry_size e"
  by (simp add: entry_size_def)

lemma entry_size_le:
  assumes "name_entry_ok e"
  shows "entry_size e \<le> 4096" "al4 (length (fst e) + 1) \<le> 252" "al4 (length (snd e)) \<le> 3840"
proof -
  have "al4 (length (fst e) + 1) \<le> al4 252" "al4 (length (snd e)) \<le> al4 3840"
    using assms by (auto simp: name_entry_ok_def al4_def intro!: mult_le_mono1 div_le_mono)
  then show "al4 (length (fst e) + 1) \<le> 252" "al4 (length (snd e)) \<le> 3840" "entry_size e \<le> 4096"
    by (simp_all add: al4_def entry_size_def)
qed

lemma entry_off_0 [simp]: "entry_off es 0 = 0"
  by (simp add: entry_off_def)

lemma entry_off_Suc: "i < length es \<Longrightarrow> entry_off es (Suc i) = entry_off es i + entry_size (es ! i)"
  by (simp add: entry_off_def take_Suc_conv_app_nth)

lemma entry_off_mono: "i < j \<Longrightarrow> j \<le> length es \<Longrightarrow> entry_off es i < entry_off es j"
proof (induction j)
  case (Suc j)
  then show ?case
    using entry_off_Suc [of j es] entry_size_pos [of "es ! j"] by (cases "i = j") auto
qed simp

lemma entry_off_inj: "i \<le> length es \<Longrightarrow> j \<le> length es \<Longrightarrow> entry_off es i = entry_off es j \<longleftrightarrow> i = j"
  using entry_off_mono [of i j es] entry_off_mono [of j i es] by (cases i j rule: linorder_cases) auto

lemma entry_off_snoc: "i \<le> length es \<Longrightarrow> entry_off (es @ [e]) i = entry_off es i"
  by (simp add: entry_off_def)

lemma entry_infos_snoc:
  "entry_infos base (es @ [e]) (Suc (length es)) =
     entry_infos base es (length es) @ [(base + int (entry_off es (length es)), entry_info (length es) e)]"
  by (auto simp: entry_infos_def entry_off_snoc nth_append)

lemma info_at_entry:
  assumes "i < n" "n \<le> length es"
  shows "info_at (entry_infos base es n) (base + int (entry_off es i)) = Inr (entry_info i (es ! i))"
proof -
  have "map_of (entry_infos base es n) (base + int (entry_off es i)) = Some (entry_info i (es ! i))"
  proof (rule map_of_is_SomeI)
    have "inj_on (\<lambda>i. base + int (entry_off es i)) {0..<n}"
      using assms(2) entry_off_inj by (auto simp: inj_on_def)
    then show "distinct (map fst (entry_infos base es n))"
      by (simp add: entry_infos_def comp_def distinct_map)
    show "(base + int (entry_off es i), entry_info i (es ! i)) \<in> set (entry_infos base es n)"
      using assms(1) by (auto simp: entry_infos_def)
  qed
  then show ?thesis
    by (simp add: info_at_def)
qed

lemma info_name_entry: "name_entry_ok e \<Longrightarrow> info_name (entry_info i e) = fst e"
  unfolding info_name_def entry_info_def pad_zero_def name_entry_ok_def
  by (auto simp: takeWhile_append split: if_splits)

lemma info_size_entry: "info_size (entry_info i e) = int (entry_size e)"
  by (simp add: info_size_def entry_info_def entry_size_def)

section \<open>Adding an entry\<close>

definition filled :: "MppTrieImpl \<Rightarrow> entry list \<Rightarrow> nat \<Rightarrow> bool" where
  "filled p es n \<longleftrightarrow> paved p n \<and> tr_info_buf p = Some (entry_infos 0 es (length es)) \<and> tr_info_count p = int (length es) \<and>
     tr_info_buf_pos p = int (entry_off es (length es)) \<and> 4096 \<le> tr_info_buf_size p \<and>
     tr_info_buf_pos p \<le> tr_info_buf_size p \<and> distinct (map fst es) \<and> list_all name_entry_ok es \<and>
     (\<forall>i < length es. leads_to (tr_nodes p) (nibbles (fst (es ! i))) (int (entry_off es i))) \<and>
     (\<forall>m < n. tn_id (tr_nodes p ! m) \<noteq> - 1 \<longrightarrow> (\<exists>i < length es. tfind (tr_nodes p) 0 (nibbles (fst (es ! i))) = Some m)) \<and>
     (\<forall>c \<in> children (tr_nodes p) 0. \<exists>e \<in> set es. c = unat (hd (nibbles (fst e))))"

lemma int_align_4: "(int n + 3) AND NOT 3 = int (al4 n)"
proof -
  have "x AND NOT (mask 2) = push_bit 2 (drop_bit 2 x)" for x :: int
  proof (rule bit_eqI)
    fix n
    show "bit (x AND NOT (mask 2)) n \<longleftrightarrow> bit (push_bit 2 (drop_bit 2 x)) n"
    proof (cases "n < 2")
      case False
      then obtain k where "n = 2 + k"
        using le_Suc_ex not_less by blast
      then show ?thesis
        by (simp add: bit_and_iff bit_not_iff bit_mask_iff bit_push_bit_iff bit_drop_bit_eq)
    qed (simp add: bit_and_iff bit_not_iff bit_mask_iff bit_push_bit_iff)
  qed
  from this [of "int n + 3"] show ?thesis
    by (simp add: al4_def push_bit_eq_mult drop_bit_eq_div mask_eq_exp_minus_1 zdiv_int)
qed

lemma word_align_4:
  assumes "n \<le> 4096"
  shows "unat (MPP_ALIGN (of_nat n :: u32) 4) = al4 n"
proof -
  have "unat (of_nat n :: u32) = n"
    using assms by (simp add: unat_of_nat take_bit_nat_eq_self)
  then show ?thesis
    using align_eq [of 2 "of_nat n"] assms by (simp add: al4_def)
qed

lemma trie_add_named_ok:
  assumes f: "filled p es n" and e: "\<And>q. name_entry_ok (nm, ctx q)" "\<And>q. length (ctx q) = L" and new: "nm \<notin> set (map fst es)"
    and count: "length es < 4096" and room: "n + 2 * length nm \<le> 32768"
  shows "\<exists>p1 n1 q. trie_add_named True p nm ctx = Inr (MPP_OK, p1) \<and> filled p1 (es @ [(nm, ctx q)]) n1 \<and>
     n1 \<le> n + 2 * length nm \<and> tr_name p1 = tr_name p"
proof -
  have pv: "paved p n" and buf: "tr_info_buf p = Some (entry_infos 0 es (length es))"
    and cnt: "tr_info_count p = int (length es)" and pos: "tr_info_buf_pos p = int (entry_off es (length es))"
    and bsz: "4096 \<le> tr_info_buf_size p" "tr_info_buf_pos p \<le> tr_info_buf_size p"
    using f by (simp_all add: filled_def)
  let ?str = "al4 (length nm + 1)" and ?ctx = "al4 L"
  have nm: "nm \<noteq> []" "length nm \<le> 251" "0 \<notin> set nm" "L \<le> 3840"
    using e(1) [of p] e(2) [of p] by (simp_all add: name_entry_ok_def)
  have sz: "entry_size (nm, ctx q) = 4 + ?str + ?ctx" for q
    by (simp add: entry_size_def e(2))
  have small: "?str \<le> 252" "?ctx \<le> 3840" "4 + ?str + ?ctx \<le> 4096"
    using entry_size_le [OF e(1) [of p]] e(2) [of p] sz [of p] by simp_all
  have real: "strnlen nm 4096 + 1 = int (length nm + 1)"
    using nm(2) by (simp add: strnlen_def)
  have str: "(int (length nm + 1) + 3) AND NOT 3 = int ?str"
    by (rule int_align_4)
  have uctx: "unat (MPP_ALIGN (of_nat L :: u32) 4) = ?ctx"
    using word_align_4 nm(4) by simp
  have isz: "sint (word_of_int (4 + int ?str) + MPP_ALIGN (of_nat L :: u32) 4) = int (4 + ?str + ?ctx)"
  proof -
    have "MPP_ALIGN (of_nat L :: u32) 4 = of_nat ?ctx"
      using arg_cong [OF uctx, of "of_nat :: nat \<Rightarrow> u32"] by simp
    then have "word_of_int (4 + int ?str) + MPP_ALIGN (of_nat L :: u32) 4 = of_nat (4 + ?str + ?ctx)"
      by simp
    moreover have "4 + ?str + ?ctx < 2 ^ 31"
      using small(3) by simp
    ultimately show ?thesis
      using sint_of_nat_small by metis
  qed
  define p1 where "p1 = (if tr_info_buf_pos p + int (4 + ?str + ?ctx) > tr_info_buf_size p
      then p\<lparr>tr_info_buf_size := tr_info_buf_size p * 2\<rparr> else p)"
  have p1: "tr_nodes p1 = tr_nodes p" "tr_info_buf p1 = tr_info_buf p" "tr_info_count p1 = tr_info_count p"
    "tr_info_buf_pos p1 = tr_info_buf_pos p" "tr_name p1 = tr_name p" "paved p1 n" "4096 \<le> tr_info_buf_size p1"
    "tr_info_buf_pos p1 + int (4 + ?str + ?ctx) \<le> tr_info_buf_size p1"
    using pv bsz small(3) by (auto simp: p1_def paved_def)
  have prep: "trie_prepare_buf True p (int (4 + ?str + ?ctx)) = (MPP_OK, p1)"
    using cnt count by (auto simp: trie_prepare_buf_def p1_def)
  have wf: "trie_wf (tr_nodes p)" "plain (tr_nodes p)"
    using pv by (simp_all add: paved_def)
  have root: "tfind (tr_nodes p1) 0 [] = Some 0"
    using tfind_plain(1) [OF wf(2) alive_root [OF wf(1)]] p1(1) by simp
  obtain k p2 n1 where pave: "pave_loop True p1 0 nm = Inr (int k, p2)" and p2: "paved p2 n1" "extends p1 n p2 n1"
      "n1 \<le> n + 2 * length nm" "k < n1" "tfind (tr_nodes p2) 0 (nibbles nm) = Some k"
      "children (tr_nodes p2) 0 \<subseteq> children (tr_nodes p1) 0 \<union> {unat (hd (nibbles nm))}"
    using pave_loop_ok [OF p1(6) room root] nm(1) by auto
  have p2_eq: "tr_info_buf p2 = tr_info_buf p" "tr_info_count p2 = tr_info_count p" "tr_info_buf_pos p2 = tr_info_buf_pos p"
    "tr_name p2 = tr_name p" "tr_info_buf_size p2 = tr_info_buf_size p1"
  proof -
    have "p2 = p1\<lparr>tr_nodes := tr_nodes p2, tr_node_count := tr_node_count p2, tr_node_used := tr_node_used p2\<rparr>"
      using p2(2) by (simp add: extends_def)
    from arg_cong [OF this, of tr_info_buf] arg_cong [OF this, of tr_info_count] arg_cong [OF this, of tr_info_buf_pos]
      arg_cong [OF this, of tr_name] arg_cong [OF this, of tr_info_buf_size] p1
    show "tr_info_buf p2 = tr_info_buf p" "tr_info_count p2 = tr_info_count p" "tr_info_buf_pos p2 = tr_info_buf_pos p"
      "tr_name p2 = tr_name p" "tr_info_buf_size p2 = tr_info_buf_size p1"
      by simp_all
  qed
  have wf2: "trie_wf (tr_nodes p2)" "plain (tr_nodes p2)"
    using p2(1) by (simp_all add: paved_def)
  have nib: "\<forall>x \<in> set (nibbles s). unat x < 16" for s
    using nibbles_lt by blast
  have mono: "tfind (tr_nodes p2) 0 xs = Some j" if "tfind (tr_nodes p) 0 xs = Some j" "\<forall>x \<in> set xs. unat x < 16" for xs j
    using p2(2) that alive_root [OF wf(1)] p1(1) by (auto simp: extends_def)
  have ids: "tn_id (tr_nodes p2 ! m) = (if m < n then tn_id (tr_nodes p ! m) else - 1)" if "m < n1" for m
    using p2(2) that p1(1) by (auto simp: extends_def)
  have free: "tn_id (tr_nodes p2 ! k) = - 1"
  proof (rule ccontr)
    assume id: "tn_id (tr_nodes p2 ! k) \<noteq> - 1"
    then have "k < n" "tn_id (tr_nodes p ! k) \<noteq> - 1"
      using ids [OF p2(4)] by (auto split: if_splits)
    then obtain i where i: "i < length es" "tfind (tr_nodes p) 0 (nibbles (fst (es ! i))) = Some k"
      using f by (auto simp: filled_def)
    then have "nibbles nm = nibbles (fst (es ! i))"
      using tfind_plain_inj [OF wf2 nib nib p2(5)] mono nib by blast
    then show False
      using new i(1) by (auto simp: nibbles_inj)
  qed
  have in_k: "k < length (tr_nodes p2)"
    using p2(1,4) by (auto simp: paved_def)
  let ?ns = "(tr_nodes p2)[k := (tr_nodes p2 ! k)\<lparr>tn_id := tr_info_buf_pos p2\<rparr>]"
  let ?p3 = "p2\<lparr>tr_nodes := ?ns\<rparr>"
  let ?p4 = "if tr_info_name_max ?p3 < int (length nm) then ?p3\<lparr>tr_info_name_max := int (length nm)\<rparr> else ?p3"
  let ?e = "(nm, ctx ?p4)"
  let ?es = "es @ [?e]"
  let ?p5 = "?p4\<lparr>tr_info_buf := Some (entry_infos 0 ?es (length ?es)), tr_info_buf_pos := tr_info_buf_pos ?p4 + int (4 + ?str + ?ctx),
      tr_info_count := tr_info_count ?p4 + 1\<rparr>"
  have info: "entry_info (length es) ?e = \<lparr>ti_index = nat (int (length es) mod 4096), ti_ctx_len = ?ctx mod 4096,
      ti_str_len = nat (int ?str mod 256), ti_name = pad_zero (nm @ [0]) (int ?str), ti_ctx = pad_zero (ctx ?p4) (int ?ctx)\<rparr>"
    using count small by (simp add: entry_info_def e(2))
  have uc: "uint (MPP_ALIGN (of_nat L :: u32) 4) = int ?ctx"
    using arg_cong [OF uctx, of int] by simp
  have pos4: "tr_info_buf_pos ?p4 = int (entry_off es (length es))" "tr_info_buf ?p4 = Some (entry_infos 0 es (length es))"
    "tr_info_count ?p4 = int (length es)" "tr_info_buf_size ?p4 = tr_info_buf_size p1"
    using p2_eq pos buf cnt by simp_all
  have fit: "\<not> tr_info_buf_size p1 < int (entry_off es (length es)) + int (4 + ?str + ?ctx)"
    using p1(4,8) pos by simp
  have add: "trie_add_named True p nm ctx = Inr (MPP_OK, ?p5)"
    unfolding trie_add_named_def Let_def e(2) real str isz prep
    using small(1) fit pave free in_k info pos4 p2_eq(3) pos
    by (cases "tr_info_name_max p2 < int (length nm)")
      (simp_all add: trie_pave_node_def trie_set_id_def uctx uc entry_infos_snoc)
  have wf3: "trie_wf ?ns" and al3: "alive ?ns m \<longleftrightarrow> alive (tr_nodes p2) m" for m
    using set_id_wf [OF wf2(1)] set_id_alive by blast+
  have tf3: "tfind ?ns 0 xs = Some j" if "tfind (tr_nodes p2) 0 xs = Some j" "\<forall>x \<in> set xs. unat x < 16" for xs j
    using set_id_tfind [OF wf2(1) alive_root [OF wf2(1)]] that by blast
  have id3: "tn_id (?ns ! m) = (if m = k then int (entry_off es (length es)) else tn_id (tr_nodes p2 ! m))" for m
    using in_k p2_eq(3) pos by simp
  have "plain ?ns"
    unfolding plain_def using wf2(2) al3 same_but_id_simps(6) [OF set_id_nth] unfolding plain_def by metis
  then have "paved ?p5 n1"
    using p2(1,4) wf3 al3 unfolding paved_def by (auto simp: nth_list_update)
  moreover have "leads_to ?ns (nibbles (fst (?es ! i))) (int (entry_off ?es i))" if i: "i < length ?es" for i
  proof (cases "i = length es")
    case True
    then show ?thesis
      using tf3 [OF p2(5) nib] id3 [of k] p2(1,4) al3 [of k]
      by (auto simp: leads_to_def entry_off_snoc paved_def)
  next
    case False
    with i have i: "i < length es" by simp
    then obtain m where m: "tfind (tr_nodes p) 0 (nibbles (fst (es ! i))) = Some m" "alive (tr_nodes p) m"
        "tn_id (tr_nodes p ! m) = int (entry_off es i)"
      using f by (auto simp: filled_def leads_to_def)
    have mn: "m < n" "m < n1"
      using m(2) pv p2(2) by (auto simp: paved_def extends_def)
    then have "tn_id (tr_nodes p2 ! m) = int (entry_off es i)"
      using ids [of m] m(3) by simp
    moreover from this free have "m \<noteq> k"
      by auto
    ultimately show ?thesis
      using tf3 [OF mono [OF m(1) nib] nib] id3 [of m] al3 [of m] p2(1) mn i
      by (auto simp: leads_to_def entry_off_snoc nth_append paved_def)
  qed
  moreover have "\<exists>i < length ?es. tfind ?ns 0 (nibbles (fst (?es ! i))) = Some m" if m: "m < n1" "tn_id (?ns ! m) \<noteq> - 1" for m
  proof (cases "m = k")
    case True
    then show ?thesis
      using tf3 [OF p2(5) nib] by (intro exI [of _ "length es"]) simp
  next
    case False
    then have "m < n" "tn_id (tr_nodes p ! m) \<noteq> - 1"
      using m ids [of m] id3 [of m] by (auto split: if_splits)
    then obtain i where i: "i < length es" "tfind (tr_nodes p) 0 (nibbles (fst (es ! i))) = Some m"
      using f by (auto simp: filled_def)
    then show ?thesis
      using tf3 [OF mono [OF i(2) nib] nib] by (intro exI [of _ i]) (simp add: nth_append)
  qed
  moreover have "\<forall>c \<in> children ?ns 0. \<exists>e \<in> set ?es. c = unat (hd (nibbles (fst e)))"
    unfolding set_id_children using p2(6) p1(1) f by (auto simp: filled_def)
  moreover have fields: "tr_nodes ?p5 = ?ns" "tr_info_buf ?p5 = Some (entry_infos 0 ?es (length ?es))"
      "tr_info_count ?p5 = int (length ?es)" "tr_info_buf_pos ?p5 = int (entry_off ?es (length ?es))"
      "tr_info_buf_size ?p5 = tr_info_buf_size p1"
    using p2_eq cnt pos sz [of ?p4] by (simp_all add: entry_off_def)
  moreover have "4096 \<le> tr_info_buf_size p1" "int (entry_off ?es (length ?es)) \<le> tr_info_buf_size p1"
    using p1(7) fit sz [of ?p4] by (simp_all add: entry_off_def)
  moreover have "distinct (map fst ?es)" "list_all name_entry_ok ?es"
    using f new e(1) [of ?p4] by (simp_all add: filled_def)
  ultimately have "filled ?p5 ?es n1"
    unfolding filled_def fields by blast
  with add show ?thesis
    using p2(3) p2_eq(4) by (intro exI [of _ ?p5] exI [of _ n1] exI [of _ ?p4]) auto
qed

end
