(* ===== verification/Mpp_Trie_Move.thy ===== *)
theory Mpp_Trie_Move
  imports Mpp_Trie_Shrink
begin

text \<open>
  Moving the nodes together: a node that is moved into a free place keeps the invariant and every lookup, and after
  the loop the nodes in use are the first ones.
\<close>

section \<open>Moving one node\<close>

definition move_ok :: "trie_node list \<Rightarrow> nat \<Rightarrow> nat \<Rightarrow> nat \<Rightarrow> nat \<Rightarrow> bool" where
  "move_ok ns p c j i \<longleftrightarrow> trie_wf ns \<and> alive ns j \<and> 0 < i \<and> i < j \<and> \<not> alive ns i \<and> (\<forall>m. alive ns m \<longrightarrow> m < i \<or> j \<le> m) \<and>
     alive ns p \<and> p < i \<and> hangs ns p c j \<and> c \<in> children ns p"

definition moved_nodes :: "trie_node list \<Rightarrow> nat \<Rightarrow> nat \<Rightarrow> nat \<Rightarrow> nat \<Rightarrow> trie_node list" where
  "moved_nodes ns p c j i =
     with_prev (tn_next (ns ! j)) (int i)
       (ns[p := (ns ! p)\<lparr>tn_next := (tn_next (ns ! p))[c := int i]\<rparr>, i := (ns ! j)\<lparr>tn_idx := int i\<rparr>, j := node_0])"

lemma length_moved_nodes [simp]: "length (moved_nodes ns p c j i) = length ns"
  by (simp add: moved_nodes_def)

abbreviation moved_to_idx :: "nat \<Rightarrow> nat \<Rightarrow> nat \<Rightarrow> nat" where
  "moved_to_idx j i m \<equiv> (if m = j then i else m)"

lemma not_linked:
  assumes "trie_wf ns" "alive ns j" "\<not> alive ns i" "i \<noteq> 0"
  shows "int i \<notin> set (tn_next (ns ! j))"
proof
  have len: "length (tn_next (ns ! j)) = 16"
    using trie_wf_alive [OF assms(1,2)] by (simp add: node_wf_def)
  assume "int i \<in> set (tn_next (ns ! j))"
  then obtain c where c: "c < 16" "tn_next (ns ! j) ! c = int i"
    by (metis in_set_conv_nth len)
  then have "c \<in> children ns j"
    using assms(4) by (simp add: children_def)
  from children_hang [OF assms(1,2) this] c(2) assms(3) show False
    by (metis of_nat_eq_iff)
qed

lemma nth_moved_nodes:
  assumes m: "move_ok ns p c j i" and k: "alive ns k"
  shows "moved_nodes ns p c j i ! moved_to_idx j i k =
    (if k = j then (ns ! j)\<lparr>tn_idx := int i\<rparr>
     else if k = p then (ns ! p)\<lparr>tn_next := (tn_next (ns ! p))[c := int i]\<rparr>
     else if k \<noteq> 0 \<and> tn_prev (ns ! k) = int j then (ns ! k)\<lparr>tn_prev := int i\<rparr> else ns ! k)"
proof -
  have wf: "trie_wf ns" and j: "alive ns j" "0 < i" "i < j" "\<not> alive ns i" and p: "alive ns p" "p < i"
    using m by (simp_all add: move_ok_def)
  have "int i \<notin> set (tn_next (ns ! j))"
    using not_linked [OF wf j(1,4)] j(2) by simp
  moreover have "p \<noteq> 0 \<Longrightarrow> int p \<notin> set (tn_next (ns ! j))"
  proof -
    assume p0: "p \<noteq> 0"
    obtain q d where "q < p" "hangs ns q d p"
      using parent_hangs [OF wf p(1) p0] by blast
    then have "tn_prev (ns ! p) \<noteq> int j"
      using j(3) p(2) by (simp add: hangs_def)
    then show ?thesis
      using child_link [OF wf j(1) p(1) p0] by simp
  qed
  moreover have "k \<noteq> 0 \<Longrightarrow> int k \<in> set (tn_next (ns ! j)) \<longleftrightarrow> tn_prev (ns ! k) = int j"
    using child_link [OF wf j(1) k] by simp
  moreover have "k \<noteq> i"
    using k j(4) by auto
  ultimately show ?thesis
    using alive_less [OF k] alive_less [OF j(1)] p(2) j(2,3)
    by (auto simp: moved_nodes_def nth_with_prev nth_list_update)
qed

lemma alive_moved_nodes:
  assumes m: "move_ok ns p c j i"
  shows "alive (moved_nodes ns p c j i) k \<longleftrightarrow> alive ns k \<and> k \<noteq> j \<or> k = i"
proof -
  have j: "j < length ns" "0 < i" "i < j" "p < i"
    using m alive_less by (auto simp: move_ok_def)
  have "tn_idx (moved_nodes ns p c j i ! k) = (if k = j then 0 else if k = i then int i else tn_idx (ns ! k))" if "k < length ns"
    using that j by (auto simp: moved_nodes_def nth_with_prev nth_list_update node_0_def)
  then show ?thesis
    using j by (cases "k < length ns") (auto simp: alive_def)
qed

lemma moved_other:
  assumes m: "move_ok ns p c j i" and k: "alive ns k"
  defines "n \<equiv> moved_nodes ns p c j i ! moved_to_idx j i k"
  shows "tn_idx n = (if k = j then int i else tn_idx (ns ! k))" and "tn_key n = tn_key (ns ! k)"
    and "tn_tag_len n = tn_tag_len (ns ! k)" and "tn_tag_val n = tn_tag_val (ns ! k)"
    and "tn_id n = tn_id (ns ! k)" and "tn_next_cnt n = tn_next_cnt (ns ! k)"
    and "tn_next n = (if k = p then (tn_next (ns ! p))[c := int i] else tn_next (ns ! k))"
    and "k \<noteq> 0 \<Longrightarrow> tn_prev n = (if tn_prev (ns ! k) = int j then int i else tn_prev (ns ! k))"
proof -
  have wf: "trie_wf ns" and j: "alive ns j" "j \<noteq> 0" "p < j"
    using m by (auto simp: move_ok_def)
  have "tn_prev (ns ! k) \<noteq> int j" if k0: "k \<noteq> 0" and kk: "k = j \<or> k = p"
  proof -
    obtain q d where "q < k" "hangs ns q d k"
      using parent_hangs [OF wf k k0] by blast
    then show ?thesis
      using kk j by (auto simp: hangs_def)
  qed
  then show "tn_idx n = (if k = j then int i else tn_idx (ns ! k))" "tn_key n = tn_key (ns ! k)"
    "tn_tag_len n = tn_tag_len (ns ! k)" "tn_tag_val n = tn_tag_val (ns ! k)"
    "tn_id n = tn_id (ns ! k)" "tn_next_cnt n = tn_next_cnt (ns ! k)"
    "tn_next n = (if k = p then (tn_next (ns ! p))[c := int i] else tn_next (ns ! k))"
    "k \<noteq> 0 \<Longrightarrow> tn_prev n = (if tn_prev (ns ! k) = int j then int i else tn_prev (ns ! k))"
    unfolding n_def using nth_moved_nodes [OF m k] j by auto
qed

lemma moved_hangs:
  assumes m: "move_ok ns p c j i" and a: "alive ns a" and k: "alive ns k" "k \<noteq> 0" and h: "hangs ns a d k"
  shows "hangs (moved_nodes ns p c j i) (moved_to_idx j i a) d (moved_to_idx j i k)"
proof -
  have wf: "trie_wf ns" and p: "alive ns p" "hangs ns p c j"
    using m by (auto simp: move_ok_def)
  have len: "length (tn_next (ns ! p)) = 16"
    using trie_wf_alive [OF wf p(1)] by (simp add: node_wf_def)
  have "tn_next (moved_nodes ns p c j i ! moved_to_idx j i a) ! d = int (moved_to_idx j i k)"
  proof (cases "a = p")
    case True
    have "d = c \<longleftrightarrow> k = j"
      using h p(2) hangs_unique(2) [of ns a d k p c] True by (auto simp: hangs_def)
    then show ?thesis
      using moved_other(7) [OF m a] True h len by (auto simp: hangs_def nth_list_update)
  next
    case False
    then have "k \<noteq> j"
      using hangs_unique(1) [OF h] p(2) by blast
    then show ?thesis
      using moved_other(7) [OF m a] False h by (auto simp: hangs_def)
  qed
  moreover have "tn_prev (moved_nodes ns p c j i ! moved_to_idx j i k) = int (moved_to_idx j i a)"
    using moved_other(8) [OF m k(1) k(2)] h by (auto simp: hangs_def)
  ultimately show ?thesis
    using moved_other(2) [OF m k(1)] h by (simp add: hangs_def)
qed

lemma moved_children:
  assumes m: "move_ok ns p c j i" and k: "alive ns k"
  shows "children (moved_nodes ns p c j i) (moved_to_idx j i k) = children ns k"
proof -
  have "0 < i" "c \<in> children ns p"
    using m by (auto simp: move_ok_def)
  moreover have "length (tn_next (ns ! p)) = 16"
    using m trie_wf_alive by (auto simp: move_ok_def node_wf_def)
  ultimately show ?thesis
    using moved_other(7) [OF m k] by (auto simp: children_def nth_list_update split: if_splits)
qed

lemma moved_wf:
  assumes m: "move_ok ns p c j i"
  shows "trie_wf (moved_nodes ns p c j i)"
proof -
  let ?ns = "moved_nodes ns p c j i"
  have wf: "trie_wf ns" and j: "alive ns j" "0 < i" "i < j" and low: "\<And>m. alive ns m \<Longrightarrow> m < i \<or> j \<le> m"
    using m by (auto simp: move_ok_def)
  have al: "alive ?ns k \<longleftrightarrow> alive ns k \<and> k \<noteq> j \<or> k = i" for k
    by (rule alive_moved_nodes [OF m])
  have node: "node_wf ?ns (moved_to_idx j i k)" if k: "alive ns k" for k
  proof -
    have wk: "node_wf ns k"
      by (rule trie_wf_alive [OF wf k])
    have "\<exists>l. alive ?ns l \<and> l \<noteq> 0 \<and> hangs ?ns (moved_to_idx j i k) d l" if d: "d \<in> children ?ns (moved_to_idx j i k)" for d
    proof -
      have "d \<in> children ns k"
        using d moved_children [OF m k] by simp
      then obtain l where l: "alive ns l" "k < l" "hangs ns k d l"
        using children_hang [OF wf k] by blast
      then have "hangs ?ns (moved_to_idx j i k) d (moved_to_idx j i l)"
        using moved_hangs [OF m k] by simp
      then show ?thesis
        using l j(2) al by (intro exI [of _ "moved_to_idx j i l"]) auto
    qed
    moreover have "\<exists>q d. alive ?ns q \<and> q < moved_to_idx j i k \<and> hangs ?ns q d (moved_to_idx j i k)" if k0: "moved_to_idx j i k \<noteq> 0"
    proof -
      have "k \<noteq> 0"
        using k0 j by (cases "k = j") simp_all
      then obtain q d where q: "alive ns q" "q < k" "hangs ns q d k"
        using parent_hangs [OF wf k] by blast
      then have "hangs ?ns (moved_to_idx j i q) d (moved_to_idx j i k)"
        using moved_hangs [OF m q(1) k \<open>k \<noteq> 0\<close>] by simp
      moreover have "moved_to_idx j i q < moved_to_idx j i k"
        using q low [OF q(1)] j by auto
      moreover have "alive ?ns (moved_to_idx j i q)"
        using al q(1) by auto
      ultimately show ?thesis by blast
    qed
    moreover have "length (tn_next (?ns ! moved_to_idx j i k)) = 16"
      using wk moved_other(7) [OF m k] by (auto simp: node_wf_def)
    moreover have "tn_idx (?ns ! moved_to_idx j i k) = int (moved_to_idx j i k)" "moved_to_idx j i k < 32768"
      using wk moved_other(1) [OF m k] j by (auto simp: node_wf_def)
    moreover have "0 \<le> tn_tag_len (?ns ! moved_to_idx j i k)" "tn_tag_len (?ns ! moved_to_idx j i k) \<le> 16"
      "tn_tag_len (?ns ! moved_to_idx j i k) = 0 \<longrightarrow> tn_tag_val (?ns ! moved_to_idx j i k) = 0"
      using wk unfolding moved_other(3,4) [OF m k] by (simp_all add: node_wf_def)
    moreover have "tn_next_cnt (?ns ! moved_to_idx j i k) = of_nat (card (children ?ns (moved_to_idx j i k)))"
      using wk unfolding moved_other(6) [OF m k] moved_children [OF m k] by (simp add: node_wf_def)
    ultimately show ?thesis
      unfolding node_wf_def by blast
  qed
  have "node_wf ?ns k" if "alive ?ns k" for k
    using that node [of k] node [OF j(1)] al by (cases "k = i") auto
  moreover have "alive ns 0" "tn_tag_len (ns ! 0) = 0"
    using wf by (auto simp: trie_wf_def alive_def)
  moreover have "?ns \<noteq> []"
    using alive_less [OF j(1)] length_moved_nodes [of ns p c j i] by (metis list.size(3) not_less0)
  ultimately show ?thesis
    using moved_other(3) [OF m, of 0] j by (simp add: trie_wf_def)
qed

lemma moved_leads_to:
  assumes m: "move_ok ns p c j i" and x: "\<forall>x \<in> set xs. unat x < 16" and l: "leads_to ns xs d"
  shows "leads_to (moved_nodes ns p c j i) xs d"
proof -
  let ?ns = "moved_nodes ns p c j i"
  have wf: "trie_wf ns" and j: "0 < i" "j \<noteq> 0"
    using m by (auto simp: move_ok_def)
  obtain k where k: "tfind ns 0 xs = Some k" "alive ns k" "tn_id (ns ! k) = d"
    using l by (auto simp: leads_to_def)
  have "alive ns 0"
    using wf by (simp add: trie_wf_def alive_def)
  have "tfind ?ns (moved_to_idx j i 0) xs = Some (moved_to_idx j i k)"
  proof (rule tfind_map [where f = "moved_to_idx j i", OF wf _ _ \<open>alive ns 0\<close> x k(1)])
    show "tn_tag_len (?ns ! moved_to_idx j i m) = tn_tag_len (ns ! m) \<and> tn_tag_val (?ns ! moved_to_idx j i m) = tn_tag_val (ns ! m)"
      if "alive ns m" for m
      using moved_other(3,4) [OF assms(1) that] by blast
    show "tn_next (?ns ! moved_to_idx j i m) ! c = int (moved_to_idx j i k) \<and> moved_to_idx j i k \<noteq> 0"
      if "alive ns m" "alive ns k" "k \<noteq> 0" "hangs ns m c k" for m c k
      using moved_hangs [OF assms(1) that] that(3) j(1) by (auto simp: hangs_def)
  qed
  then show ?thesis
    using j k moved_other(5) [OF m k(2)] alive_moved_nodes [OF m] unfolding leads_to_def
    by (intro exI [of _ "moved_to_idx j i k"]) auto
qed

section \<open>The code\<close>

lemma replace_link_unique:
  assumes "c < length ks" "ks ! c = old" "\<And>d. d < length ks \<Longrightarrow> ks ! d = old \<Longrightarrow> d = c"
  shows "replace_link old new ks = ks[c := new]"
  using assms
proof (induction ks arbitrary: c)
  case (Cons k ks)
  show ?case
  proof (cases c)
    case 0
    with Cons.prems show ?thesis by simp
  next
    case (Suc c')
    have "k \<noteq> old"
      using Cons.prems(3) [of 0] Suc by auto
    moreover have "replace_link old new ks = ks[c' := new]"
    proof (rule Cons.IH)
      show "c' < length ks" "ks ! c' = old"
        using Cons.prems(1,2) Suc by simp_all
      show "d = c'" if "d < length ks" "ks ! d = old" for d
        using Cons.prems(3) [of "Suc d"] that Suc by simp
    qed
    ultimately show ?thesis
      using Suc by simp
  qed
qed simp

lemma move_node_ok:
  assumes m: "move_ok ns p c j i"
  shows "move_node ns (int j) (int i) = Inr (moved_nodes ns p c j i)"
proof -
  have wf: "trie_wf ns" and j: "alive ns j" "0 < i" "i < j" and p: "alive ns p" "p < i" "hangs ns p c j" "c \<in> children ns p"
    using m by (auto simp: move_ok_def)
  have len: "length (tn_next (ns ! p)) = 16"
    using trie_wf_alive [OF wf p(1)] by (simp add: node_wf_def)
  have jj: "tn_prev (ns ! j) = int p" "tn_idx (ns ! j) = int j" "s16 (int i) = int i"
    using p(3) trie_wf_alive [OF wf j(1)] j(3) by (simp_all add: hangs_def node_wf_def s16_small)
  have "replace_link (int j) (int i) (tn_next (ns ! p)) = (tn_next (ns ! p))[c := int i]"
  proof (rule replace_link_unique)
    show "c < length (tn_next (ns ! p))" "tn_next (ns ! p) ! c = int j"
      using p(3) len by (simp_all add: hangs_def)
    fix d assume d: "d < length (tn_next (ns ! p))" "tn_next (ns ! p) ! d = int j"
    then have "d \<in> children ns p"
      using len j by (simp add: children_def)
    from children_hang [OF wf p(1) this] obtain k where k: "hangs ns p d k" "tn_next (ns ! p) ! d = int k"
      by blast
    then have "k = j"
      using d(2) by simp
    then show "d = c"
      using hangs_unique(2) [OF k(1)] p(3) by blast
  qed
  moreover have "relink_prev (ns[p := (ns ! p)\<lparr>tn_next := (tn_next (ns ! p))[c := int i]\<rparr>,
        i := (ns ! j)\<lparr>tn_idx := int i\<rparr>, j := node_0]) (tn_next (ns ! j)) (int i) = Inr (moved_nodes ns p c j i)"
    unfolding moved_nodes_def by (rule relink_prev_ok) (use wf_links [OF wf j(1)] jj in simp_all)
  ultimately show ?thesis
    using alive_less [OF j(1)] p(2) j(2,3) by (simp add: move_node_def jj nth_list_update)
qed

lemma move_okI:
  assumes "trie_wf ns" "alive ns j" "0 < i" "i < j" "\<not> alive ns i" "\<forall>m. alive ns m \<longrightarrow> m < i \<or> j \<le> m"
  shows "\<exists>p c. move_ok ns p c j i"
proof -
  have "j \<noteq> 0"
    using assms(4) by simp
  then obtain p c where p: "alive ns p" "p < j" "hangs ns p c j" "c \<in> children ns p"
    using parent_hangs [OF assms(1,2)] by blast
  then have "p < i"
    using assms(6) by (metis linorder_not_less)
  then show ?thesis
    using assms p unfolding move_ok_def by blast
qed

section \<open>The loop\<close>

lemma fill_node_ok:
  assumes wf: "trie_wf ns" and i: "0 < i" "\<not> alive ns i" "i \<le> j" and n: "n \<le> length ns"
    and low: "\<forall>m. alive ns m \<longrightarrow> m < i \<or> j \<le> m" and ex: "\<exists>m. alive ns m \<and> i \<le> m" and hi: "\<forall>m. alive ns m \<longrightarrow> m < n"
  shows "\<exists>k p c. move_ok ns p c k i \<and> fill_node ns i j n = Inr (moved_nodes ns p c k i)"
  using i(3) low
proof (induction "n - j" arbitrary: j rule: less_induct)
  case less
  obtain m where m: "alive ns m" "i \<le> m" "m < n"
    using ex hi by blast
  then have "j < n"
    using less.prems(2) by fastforce
  show ?case
  proof (cases "alive ns j")
    case True
    then have "i < j"
      using i(2) less.prems(1) by (metis order_le_less)
    obtain p c where mo: "move_ok ns p c j i"
      using move_okI [OF wf True i(1) \<open>i < j\<close> i(2) less.prems(2)] by blast
    have "tn_idx (ns ! j) \<noteq> 0"
      using True \<open>i < j\<close> by (simp add: alive_def)
    then have "fill_node ns i j n = Inr (moved_nodes ns p c j i)"
      using \<open>j < n\<close> n move_node_ok [OF mo] by (simp add: fill_node.simps [of ns i j n])
    then show ?thesis
      using mo by blast
  next
    case False
    then have "tn_idx (ns ! j) = 0"
      using \<open>j < n\<close> n by (simp add: alive_def)
    moreover have "n - Suc j < n - j" "i \<le> Suc j"
      using \<open>j < n\<close> less.prems(1) by simp_all
    moreover have "\<forall>m. alive ns m \<longrightarrow> m < i \<or> Suc j \<le> m"
      using less.prems(2) False by (metis Suc_leI order_le_less)
    ultimately show ?thesis
      using less.hyps [of "Suc j"] \<open>j < n\<close> n by (simp add: fill_node.simps [of ns i j n])
  qed
qed

lemma move_nodes_loop_ok:
  assumes "trie_wf ns" "0 < i" "\<forall>m < i. alive ns m" "card {m. alive ns m} = v" "\<forall>m. alive ns m \<longrightarrow> m < n" "n \<le> length ns" "i \<le> v"
  shows "\<exists>ns1. move_loop_nodes ns i v n = Inr ns1 \<and> trie_wf ns1 \<and> length ns1 = length ns \<and> (\<forall>m. alive ns1 m \<longleftrightarrow> m < v) \<and>
    children ns1 0 = children ns 0 \<and> (\<forall>xs d. (\<forall>x \<in> set xs. unat x < 16) \<longrightarrow> leads_to ns xs d \<longrightarrow> leads_to ns1 xs d)"
  using assms
proof (induction "v - i" arbitrary: i ns rule: less_induct)
  case less
  show ?case
  proof (cases "i < v")
    case False
    then have "i = v"
      using less.prems(7) by simp
    have "{..<v} = {m. alive ns m}"
      by (rule card_subset_eq) (use less.prems(3,4) \<open>i = v\<close> in auto)
    then have "\<forall>m. alive ns m \<longleftrightarrow> m < v"
      by auto
    moreover have "move_loop_nodes ns i v n = Inr ns"
      using False by (simp add: move_loop_nodes.simps [of ns i v n])
    ultimately show ?thesis
      using less.prems(1) by blast
  next
    case True
    have "\<exists>m. alive ns m \<and> i \<le> m"
    proof (rule ccontr)
      assume "\<not> ?thesis"
      then have "{m. alive ns m} \<subseteq> {..<i}"
        by (auto simp: not_le)
      from card_mono [OF _ this] show False
        using less.prems(4) True by simp
    qed
    then obtain m where m: "alive ns m" "i \<le> m" by blast
    then have iN: "i < length ns"
      using alive_less [OF m(1)] by simp
    have "\<exists>ns1. (if tn_idx (ns ! i) \<noteq> 0 then Inr ns else fill_node ns i i n) = Inr ns1 \<and>
        trie_wf ns1 \<and> (\<forall>m < Suc i. alive ns1 m) \<and> card {m. alive ns1 m} = v \<and> (\<forall>m. alive ns1 m \<longrightarrow> m < n) \<and>
        length ns1 = length ns \<and> children ns1 0 = children ns 0 \<and> (\<forall>xs d. (\<forall>x \<in> set xs. unat x < 16) \<longrightarrow> leads_to ns xs d \<longrightarrow> leads_to ns1 xs d)"
    proof (cases "tn_idx (ns ! i) = 0")
      case False
      then have "alive ns i"
        using iN by (simp add: alive_def)
      then show ?thesis
        using False less.prems by (auto simp: less_Suc_eq)
    next
      case True
      then have dead: "\<not> alive ns i"
        using less.prems(2) by (simp add: alive_def)
      have low: "\<forall>m. alive ns m \<longrightarrow> m < i \<or> i \<le> m"
        by auto
      obtain k p c where mo: "move_ok ns p c k i" and fill: "fill_node ns i i n = Inr (moved_nodes ns p c k i)"
        using fill_node_ok [OF less.prems(1,2) dead order_refl less.prems(6) low _ less.prems(5)] m by blast
      have al: "alive (moved_nodes ns p c k i) q \<longleftrightarrow> alive ns q \<and> q \<noteq> k \<or> q = i" for q
        by (rule alive_moved_nodes [OF mo])
      have k: "alive ns k" "i < k" "i < n"
        using mo less.prems(5) by (auto simp: move_ok_def dest: less_trans)
      have "{q. alive (moved_nodes ns p c k i) q} = insert i ({q. alive ns q} - {k})"
        using al by auto
      then have card: "card {q. alive (moved_nodes ns p c k i) q} = v"
        using k(1) dead less.prems(4) card_gt_0_iff [of "{q. alive ns q}"] by (auto simp: card_insert_if)
      have "\<forall>m < Suc i. alive (moved_nodes ns p c k i) m" "\<forall>m. alive (moved_nodes ns p c k i) m \<longrightarrow> m < n"
        using al k less.prems(3,5) by (auto simp: less_Suc_eq)
      moreover have "(if tn_idx (ns ! i) \<noteq> 0 then Inr ns else fill_node ns i i n) = Inr (moved_nodes ns p c k i)"
        using True fill by simp
      moreover have "\<forall>xs d. (\<forall>x \<in> set xs. unat x < 16) \<longrightarrow> leads_to ns xs d \<longrightarrow> leads_to (moved_nodes ns p c k i) xs d"
        using moved_leads_to [OF mo] by blast
      moreover have "children (moved_nodes ns p c k i) 0 = children ns 0"
        using moved_children [OF mo alive_root0 [OF less.prems(1)]] k(2) by simp
      ultimately show ?thesis
        using moved_wf [OF mo] card length_moved_nodes by blast
    qed
    then obtain ns1 where ns1: "(if tn_idx (ns ! i) \<noteq> 0 then Inr ns else fill_node ns i i n) = Inr ns1"
        "trie_wf ns1" "\<forall>m < Suc i. alive ns1 m" "card {m. alive ns1 m} = v" "\<forall>m. alive ns1 m \<longrightarrow> m < n"
        "length ns1 = length ns" "children ns1 0 = children ns 0" "\<forall>xs d. (\<forall>x \<in> set xs. unat x < 16) \<longrightarrow> leads_to ns xs d \<longrightarrow> leads_to ns1 xs d"
      by blast
    have "v - Suc i < v - i" "n \<le> length ns1" "Suc i \<le> v"
      using True less.prems(6) ns1(6) by simp_all
    from less.hyps [OF this(1) ns1(2) _ ns1(3-5) this(2,3)] show ?thesis
      using True iN ns1 by (auto simp: move_loop_nodes.simps [of ns i v n])
  qed
qed

end
