(* ===== verification/Mpp_Trie_Props.thy ===== *)
theory Mpp_Trie_Props
  imports Mpp_Trie_Add Mpp_Trie_Move
begin

text \<open>
  A finished trie: every entry that was added is found from its name, the infos come in the order they were added,
  and the root can be imported. And what is found besides: names that were never added.
\<close>

section \<open>Building a trie\<close>

text \<open>What a client does: it adds its entries, and a name that is null at the end; all allocations succeed.\<close>

abbreviation all_alloc :: "bool \<times> bool \<times> bool \<times> bool" where
  "all_alloc \<equiv> (True, True, True, True)"

fun trie_fill :: "MppTrieImpl \<Rightarrow> entry list \<Rightarrow> (mpp_ret \<times> MppTrieImpl) run" where
  "trie_fill p [] = mpp_trie_add_info all_alloc p None []"
| "trie_fill p ((nm, ctx) # es) =
     run_bind (mpp_trie_add_info all_alloc p (Some nm) ctx) (\<lambda>(ret, p1).
       if ret \<noteq> MPP_OK then Inr (ret, p1) else trie_fill p1 es)"

definition trie_build :: "u8 list \<Rightarrow> entry list \<Rightarrow> (mpp_ret \<times> MppTrieImpl) run" where
  "trie_build name es =
     run_bind (mpp_trie_init True (Some name)) (\<lambda>(ret, p).
       case p of None \<Rightarrow> Inl Null_Deref | Some p1 \<Rightarrow> trie_fill p1 es)"

text \<open>
  The entries: at most 4093, with names of 1 to 251 bytes without a zero byte and contexts of at most 3840 bytes; the
  names are different, none of them is one of the names \<open>__name__\<close>, \<open>__info__\<close> and \<open>__node__\<close> the trie adds itself, they
  need no more nodes than \<open>id\<close> can number, and one of them has a first nibble that is not 5, the one of the trie's own
  names. The name of the trie has less than 3840 bytes. These conditions are not checked by the code.
\<close>

definition own_names :: "u8 list list" where
  "own_names = [name_name, name_info, name_node]"

definition entries_ok :: "u8 list \<Rightarrow> entry list \<Rightarrow> bool" where
  "entries_ok name es \<longleftrightarrow> list_all name_entry_ok es \<and> distinct (map fst es @ own_names) \<and> length es \<le> 4093 \<and>
     2 * sum_list (map (length \<circ> fst) es) + 49 \<le> 32768 \<and> length name < 3840 \<and>
     list_ex (\<lambda>e. drop_bit 4 (hd (fst e)) AND 0xf \<noteq> 5) es"

lemma init_filled:
  "\<exists>p. mpp_trie_init True (Some name) = Inr (MPP_OK, Some p) \<and> filled p [] 1 \<and>
     (\<exists>n. tr_name p = Some n \<and> length n = Suc (min (length name) 4096))"
proof -
  let ?q = "trie_impl_0\<lparr>tr_name := Some (take (nat (strnlen name MPP_TRIE_NAME_MAX + 1)) (name @ [0])),
     tr_name_len := strnlen name MPP_TRIE_NAME_MAX + 1, tr_node_count := 900, tr_nodes := replicate 900 node_0,
     tr_info_buf_size := 4096, tr_info_buf := Some []\<rparr>"
  let ?r = "node_0\<lparr>tn_id := - 1\<rparr>"
  let ?ns = "(replicate 900 node_0)[0 := ?r]"
  let ?p = "?q\<lparr>tr_nodes := ?ns, tr_node_used := 1\<rparr>"
  have get: "trie_get_node True ?q (- 1) 0 = Inr (0, ?p)"
    by (simp add: trie_get_node_def trie_impl_0_def Let_def node_update_def s16_def node_0_def)
  have al: "alive ?ns m \<longleftrightarrow> m < 1" for m
    by (cases "m = 0") (auto simp: alive_def nth_list_update node_0_def)
  have ch: "children ?ns 0 = {}"
    by (simp add: children_def node_0_def)
  have "node_wf ?ns 0"
    by (simp add: node_wf_def ch) (simp add: node_0_def)
  then have "trie_wf ?ns"
    using al by (simp add: trie_wf_def) (simp add: node_0_def)
  moreover have "plain ?ns"
    using al by (simp add: plain_def) (simp add: node_0_def)
  ultimately have "paved ?p 1"
    using al by (auto simp: paved_def trie_impl_0_def nth_list_update)
  then have "filled ?p [] 1"
    using ch by (simp add: filled_def trie_impl_0_def entry_infos_def)
  moreover have "mpp_trie_init True (Some name) = Inr (MPP_OK, Some ?p)"
    using get by (simp add: mpp_trie_init_def Let_def)
  moreover have "\<exists>n. tr_name ?p = Some n \<and> length n = Suc (min (length name) 4096)"
    by (simp add: strnlen_def trie_impl_0_def min_def) linarith
  ultimately show ?thesis by blast
qed

section \<open>Finishing\<close>

text \<open>The infos are copied and their nodes get the new positions.\<close>

definition copying :: "trie_node list \<Rightarrow> entry list \<Rightarrow> (nat \<Rightarrow> nat) \<Rightarrow> int \<Rightarrow> nat \<Rightarrow> bool" where
  "copying ns es K base n \<longleftrightarrow> trie_wf ns \<and> inj_on K {..<length es} \<and>
     (\<forall>i < length es. tfind ns 0 (nibbles (fst (es ! i))) = Some (K i) \<and> alive ns (K i) \<and>
        tn_id (ns ! K i) = (if i < n then base else 0) + int (entry_off es i))"

lemma copy_infos_ok:
  assumes ok: "list_all name_entry_ok es"
  shows "n + m = length es \<Longrightarrow> copying ns es K base n \<Longrightarrow>
    \<exists>ns1. copy_infos ns (entry_infos 0 es (length es)) m (entry_infos base es n) (int (entry_off es n)) (base + int (entry_off es n)) =
        Inr (ns1, entry_infos base es (length es)) \<and> copying ns1 es K base (length es) \<and> children ns1 0 = children ns 0"
proof (induction m arbitrary: n ns)
  case 0
  then show ?case by simp
next
  case (Suc m)
  let ?e = "es ! n"
  have n: "n < length es"
    using Suc.prems(1) by simp
  have e: "name_entry_ok ?e"
    using ok n by (simp add: list_all_length)
  have wf: "trie_wf ns" and k: "tfind ns 0 (nibbles (fst ?e)) = Some (K n)" "alive ns (K n)"
    and inj: "inj_on K {..<length es}"
    using Suc.prems(2) n by (simp_all add: copying_def)
  have get: "mpp_trie_get_node ns (fst ?e) = Inr (Some (int (K n)))"
    using mpp_trie_get_node_finds [OF wf _ k(1)] e by (simp add: name_entry_ok_def)
  let ?ns = "ns[K n := (ns ! K n)\<lparr>tn_id := base + int (entry_off es n)\<rparr>]"
  have "copying ?ns es K base (Suc n)"
    unfolding copying_def
  proof (intro conjI allI impI)
    show "trie_wf ?ns"
      by (rule set_id_wf [OF wf])
    show "inj_on K {..<length es}"
      by (rule inj)
    fix i assume i: "i < length es"
    have c: "tfind ns 0 (nibbles (fst (es ! i))) = Some (K i)" "alive ns (K i)"
        "tn_id (ns ! K i) = (if i < n then base else 0) + int (entry_off es i)"
      using Suc.prems(2) i by (simp_all add: copying_def)
    have "\<forall>x \<in> set (nibbles (fst (es ! i))). unat x < 16"
      using nibbles_lt by blast
    then show "tfind ?ns 0 (nibbles (fst (es ! i))) = Some (K i)"
      using set_id_tfind [OF wf alive_root [OF wf]] c(1) by blast
    show "alive ?ns (K i)"
      using c(2) by (simp add: set_id_alive)
    have "K i = K n \<longleftrightarrow> i = n"
      using inj i n by (auto simp: inj_on_def)
    then show "tn_id (?ns ! K i) = (if i < Suc n then base else 0) + int (entry_off es i)"
      using c(3) alive_less [OF k(2)] by (auto simp: nth_list_update less_Suc_eq)
  qed
  from Suc.IH [OF _ this] Suc.prems(1) obtain ns1 where
    ns1: "copy_infos ?ns (entry_infos 0 es (length es)) m (entry_infos base es (Suc n)) (int (entry_off es (Suc n)))
        (base + int (entry_off es (Suc n))) = Inr (ns1, entry_infos base es (length es))"
      "copying ns1 es K base (length es)" "children ns1 0 = children ns 0"
    by (auto simp: set_id_children)
  have at: "info_at (entry_infos 0 es (length es)) (int (entry_off es n)) = Inr (entry_info n ?e)"
    using info_at_entry [OF n order_refl, of 0] by simp
  have out: "entry_infos base es (Suc n) = entry_infos base es n @ [(base + int (entry_off es n), entry_info n ?e)]"
    by (simp add: entry_infos_def)
  have "copy_infos ns (entry_infos 0 es (length es)) (Suc m) (entry_infos base es n) (int (entry_off es n)) (base + int (entry_off es n)) =
      Inr (ns1, entry_infos base es (length es))"
    using ns1(1) get alive_less [OF k(2)] out
    by (simp add: at info_name_entry [OF e] info_size_entry entry_off_Suc [OF n] add.assoc)
  with ns1(2,3) show ?case by blast
qed

text \<open>The finished trie with the entries \<open>es\<close>, the trie's own included.\<close>

definition finished :: "MppTrieImpl \<Rightarrow> entry list \<Rightarrow> bool" where
  "finished p es \<longleftrightarrow> 0 \<le> tr_node_used p \<and> (\<exists>K. copying (tr_nodes p) es K (sizeof_node * tr_node_used p) (length es)) \<and>
     tr_infos p = entry_infos (sizeof_node * tr_node_used p) es (length es) \<and> tr_info_count p = int (length es) \<and>
     list_all name_entry_ok es \<and> length es \<le> 4096 \<and> tr_node_used p \<le> 32768 \<and>
     (\<forall>c \<in> children (tr_nodes p) 0. \<exists>e \<in> set es. c = unat (hd (nibbles (fst e))))"

lemma copying_names:
  assumes "map fst es = map fst es'" "\<And>i. entry_off es i = entry_off es' i"
  shows "copying ns es K base n \<longleftrightarrow> copying ns es' K base n"
proof -
  have "length es = length es'"
    using assms(1) by (metis length_map)
  moreover have "fst (es ! i) = fst (es' ! i)" if "i < length es" for i
    using assms(1) that by (metis calculation nth_map)
  ultimately show ?thesis
    using assms(2) by (auto simp: copying_def)
qed

lemma root_children:
  assumes wf: "trie_wf ns" "plain ns" and l: "leads_to ns (x # xs) d"
  shows "unat x < 16 \<Longrightarrow> unat x \<in> children ns 0"
  using l tfind_plain(2) [OF wf(2) alive_root [OF wf(1)]] by (auto simp: leads_to_def children_def split: if_splits)

lemma filled_start_shrink:
  assumes f: "filled p es n" and two: "card (children (tr_nodes p) 0) > 1"
  shows "shrink_inv n (tr_nodes p) (int n) n"
proof -
  let ?ns = "tr_nodes p"
  have wf: "trie_wf ?ns" "plain ?ns" and al: "\<And>m. alive ?ns m \<longleftrightarrow> m < n"
    using f by (simp_all add: filled_def paved_def)
  have "tn_tag_len (?ns ! q) = 0" if j: "0 < j" "j < n" and pr: "tn_prev (?ns ! j) = int q" for j q
  proof -
    obtain r c where "alive ?ns r" "hangs ?ns r c j"
      using parent_hangs [OF wf(1)] al j by (metis less_numeral_extra(3))
    then show ?thesis
      using pr wf(2) by (auto simp: hangs_def plain_def)
  qed
  moreover have "{j. alive ?ns j} = {..<n}"
    using al by auto
  ultimately show ?thesis
    using wf al two by (auto simp: shrink_inv_def)
qed

text \<open>Shrinking and moving keep every name; the nodes in use come first.\<close>

lemma shrink_and_move_ok:
  assumes f: "filled p es n" and two: "card (children (tr_nodes p) 0) > 1"
  shows "\<exists>ns1 ns2 v. shrink_loop (tr_nodes p) (int n) n = Inr (ns1, int v) \<and> move_loop_nodes ns1 1 v n = Inr ns2 \<and>
     trie_wf (take v ns2) \<and> children (take v ns2) 0 = children (tr_nodes p) 0 \<and> v \<le> 32768 \<and> (\<forall>i < length es. leads_to (take v ns2) (nibbles (fst (es ! i))) (int (entry_off es i)))"
proof -
  have nib: "\<forall>x \<in> set (nibbles s). unat x < 16" for s
    using nibbles_lt by blast
  have len: "n \<le> length (tr_nodes p)" and lead: "\<And>i. i < length es \<Longrightarrow> leads_to (tr_nodes p) (nibbles (fst (es ! i))) (int (entry_off es i))"
    using f by (simp_all add: filled_def paved_def)
  obtain ns1 v1 where s: "shrink_loop (tr_nodes p) (int n) n = Inr (ns1, v1)" "length ns1 = length (tr_nodes p)" "trie_wf ns1"
      "\<forall>j. alive ns1 j \<longrightarrow> j < n" "int (card {j. alive ns1 j}) = v1" "children ns1 0 = children (tr_nodes p) 0"
      "\<forall>xs d. (\<forall>x \<in> set xs. unat x < 16) \<longrightarrow> 0 \<le> d \<longrightarrow> leads_to (tr_nodes p) xs d \<longrightarrow> leads_to ns1 xs d"
    using shrink_loop_ok [OF filled_start_shrink [OF f two]] by blast
  define v where "v = card {j. alive ns1 j}"
  have low: "\<forall>m < 1. alive ns1 m"
    using alive_root [OF s(3)] by simp
  have "0 < v"
    using alive_root [OF s(3)] by (auto simp: v_def card_gt_0_iff)
  then obtain ns2 where m: "move_loop_nodes ns1 1 v n = Inr ns2" "trie_wf ns2" "\<forall>m. alive ns2 m \<longleftrightarrow> m < v" "children ns2 0 = children ns1 0"
      "\<forall>xs d. (\<forall>x \<in> set xs. unat x < 16) \<longrightarrow> leads_to ns1 xs d \<longrightarrow> leads_to ns2 xs d"
    using move_nodes_loop_ok [OF s(3) zero_less_one low v_def [symmetric] s(4)] len s(2) by auto
  have al: "alive (take v ns2) j \<longleftrightarrow> alive ns2 j" for j
    using m(3) [rule_format, of j] by (auto simp: alive_def)
  have nth: "take v ns2 ! j = ns2 ! j" if "alive ns2 j" for j
    using m(3) that by simp
  have wf: "trie_wf (take v ns2)"
    by (rule same_nodes_wf [OF m(2) al]) (simp add: nth)
  have chl: "children (take v ns2) 0 = children (tr_nodes p) 0"
    using m(4) s(6) \<open>0 < v\<close> by (simp add: children_def)
  have v32: "v \<le> 32768"
  proof -
    have "alive ns2 (v - 1)"
      using m(3) \<open>0 < v\<close> by simp
    then have "v - 1 < 32768"
      using trie_wf_alive [OF m(2)] by (simp add: node_wf_def)
    then show ?thesis by simp
  qed
  have "leads_to (take v ns2) (nibbles (fst (es ! i))) (int (entry_off es i))" if i: "i < length es" for i
  proof -
    have "leads_to ns2 (nibbles (fst (es ! i))) (int (entry_off es i))"
      using lead [OF i] s(7) m(5) nib by (metis of_nat_0_le_iff)
    then obtain k where k: "tfind ns2 0 (nibbles (fst (es ! i))) = Some k" "alive ns2 k" "tn_id (ns2 ! k) = int (entry_off es i)"
      by (auto simp: leads_to_def)
    have "tfind (take v ns2) 0 (nibbles (fst (es ! i))) = Some k"
      by (rule same_nodes_tfind [OF m(2) _ alive_root [OF m(2)] nib k(1)]) (simp add: nth)
    then show ?thesis
      using k al nth by (auto simp: leads_to_def)
  qed
  then show ?thesis
    using s(1,5) m(1) wf chl v32 unfolding v_def by blast
qed

lemma leads_to_copying:
  assumes "trie_wf ns" and "\<forall>i < length es. leads_to ns (nibbles (fst (es ! i))) (int (entry_off es i))"
  shows "\<exists>K. copying ns es K base 0"
proof -
  define K where "K i = the (tfind ns 0 (nibbles (fst (es ! i))))" for i
  have K: "tfind ns 0 (nibbles (fst (es ! i))) = Some (K i)" "alive ns (K i)" "tn_id (ns ! K i) = int (entry_off es i)"
    if "i < length es" for i
    using assms(2) that by (auto simp: leads_to_def K_def)
  have "inj_on K {..<length es}"
  proof (rule inj_onI)
    fix i j assume "i \<in> {..<length es}" "j \<in> {..<length es}" "K i = K j"
    then have "entry_off es i = entry_off es j"
      using K(3) [of i] K(3) [of j] by simp
    then show "i = j"
      using \<open>i \<in> _\<close> \<open>j \<in> _\<close> entry_off_inj by simp
  qed
  then show ?thesis
    using assms(1) K unfolding copying_def by auto
qed

lemma length_u32_bytes: "length (u32_bytes x) = 4"
  by (simp add: u32_bytes_def)

lemma set_info_last:
  assumes e: "es = ds @ [(name_node, v)]" and v: "length v = 4"
  shows "set_info_u32 (entry_infos base es (length es)) (base + int (entry_off es (length ds))) x =
    Inr (entry_infos base (ds @ [(name_node, u32_bytes x)]) (length es))"
proof -
  let ?es = "ds @ [(name_node, u32_bytes x)]"
  have b: "length (u32_bytes x) = 4" "al4 4 = 4"
    by (simp_all add: length_u32_bytes al4_def)
  have off: "entry_off ?es i = entry_off es i" if "i \<le> length ds" for i
    using that e by (simp add: entry_off_def)
  have "info_at (entry_infos base es (length es)) (base + int (entry_off es (length ds))) = Inr (entry_info (length ds) (name_node, v))"
    using info_at_entry [of "length ds" "length es" es base] e by simp
  moreover have "map (\<lambda>(o', i). (o', if o' = base + int (entry_off es (length ds)) then i\<lparr>ti_ctx := u32_bytes x @ drop 4 (ti_ctx i)\<rparr> else i))
      (entry_infos base es (length es)) = entry_infos base ?es (length es)"
  proof (rule nth_equalityI)
    fix i assume "i < length (map (\<lambda>(o', i). (o', if o' = base + int (entry_off es (length ds))
        then i\<lparr>ti_ctx := u32_bytes x @ drop 4 (ti_ctx i)\<rparr> else i)) (entry_infos base es (length es)))"
    then have i: "i < length es" "i \<le> length ds" "length ds \<le> length es"
      using e by (simp_all add: entry_infos_def)
    have "entry_off es i = entry_off es (length ds) \<longleftrightarrow> i = length ds"
      using i entry_off_inj by simp
    then show "map (\<lambda>(o', i). (o', if o' = base + int (entry_off es (length ds)) then i\<lparr>ti_ctx := u32_bytes x @ drop 4 (ti_ctx i)\<rparr> else i))
        (entry_infos base es (length es)) ! i = entry_infos base ?es (length es) ! i"
      using i off [OF i(2)] v b by (auto simp: entry_infos_def e nth_append entry_info_def pad_zero_def)
  qed (simp add: entry_infos_def)
  ultimately show ?thesis
    by (simp add: set_info_u32_def)
qed

lemma get_info_copied:
  assumes c: "copying ns es K base (length es)" and i: "i < length es" and e: "list_all name_entry_ok es" and base: "0 \<le> base"
  shows "mpp_trie_get_info_from_root ns (fst (es ! i)) = Inr (Some (base + int (entry_off es i)))"
proof -
  have k: "trie_wf ns" "tfind ns 0 (nibbles (fst (es ! i))) = Some (K i)" "alive ns (K i)" "tn_id (ns ! K i) = base + int (entry_off es i)"
    using c i by (simp_all add: copying_def)
  have "fst (es ! i) \<noteq> []"
    using e i by (simp add: list_all_length name_entry_ok_def)
  from mpp_trie_get_node_finds(1) [OF k(1) this k(2)] show ?thesis
    using k alive_less [OF k(3)] base by (simp add: mpp_trie_get_info_from_root_def)
qed

lemma trie_finish_ok:
  assumes f: "filled p es n" and two: "card (children (tr_nodes p) 0) > 1" and e: "es = ds @ [(name_node, v)]" and v: "length v = 4"
    and len: "length es \<le> 4096"
  shows "\<exists>p1. trie_finish True p = Inr (MPP_OK, p1) \<and> finished p1 (ds @ [(name_node, u32_bytes (word_of_int (tr_node_used p1)))]) \<and>
     tr_name p1 = tr_name p"
proof -
  have n: "tr_node_used p = int n" and buf: "tr_info_buf p = Some (entry_infos 0 es (length es))" and cnt: "tr_info_count p = int (length es)"
    and ok: "list_all name_entry_ok es"
    using f by (simp_all add: filled_def paved_def)
  obtain ns1 ns2 w where s: "shrink_loop (tr_nodes p) (int n) n = Inr (ns1, int w)" "move_loop_nodes ns1 1 w n = Inr ns2"
      "trie_wf (take w ns2)" "children (take w ns2) 0 = children (tr_nodes p) 0" "w \<le> 32768" "\<forall>i < length es. leads_to (take w ns2) (nibbles (fst (es ! i))) (int (entry_off es i))"
    using shrink_and_move_ok [OF f two] by blast
  let ?base = "sizeof_node * int w"
  obtain K where "copying (take w ns2) es K ?base 0"
    using leads_to_copying [OF s(3,6)] by blast
  from copy_infos_ok [OF ok _ this, of "length es"] obtain ns3 where
    c: "copy_infos (take w ns2) (entry_infos 0 es (length es)) (length es) [] 0 ?base = Inr (ns3, entry_infos ?base es (length es))"
      "copying ns3 es K ?base (length es)" "children ns3 0 = children (tr_nodes p) 0"
    using s(4) by (auto simp: entry_infos_def [of _ _ 0])
  let ?es = "ds @ [(name_node, u32_bytes (word_of_int (int w)))]"
  have "length ds < length es" "fst (es ! length ds) = name_node"
    by (simp_all add: e)
  then have off: "mpp_trie_get_info_from_root ns3 name_node = Inr (Some (?base + int (entry_off es (length ds))))"
    using get_info_copied [OF c(2) _ ok, of "length ds"] by simp
  let ?p = "p\<lparr>tr_nodes := ns3, tr_node_used := int w, tr_buf_size := (?base + tr_info_buf_pos p + 7) AND NOT 7,
      tr_infos := entry_infos ?base ?es (length es), tr_info_buf := None\<rparr>"
  have "trie_finish True p = Inr (MPP_OK, ?p)"
    using s(1,2) c(1) off set_info_last [OF e v, of ?base "word_of_int (int w)"]
    by (simp add: trie_finish_def n buf cnt Let_def)
  moreover have "finished ?p ?es"
  proof -
    have "entry_off es i = entry_off ?es i" for i
      using e v by (cases "i \<le> length ds") (simp_all add: entry_off_def entry_size_def length_u32_bytes)
    then have "copying ns3 ?es K ?base (length es)"
      using c(2) copying_names [of es ?es] e by simp
    moreover have "list_all name_entry_ok ?es"
      using ok e by (simp add: name_entry_ok_def u32_bytes_def)
    moreover have "\<forall>c \<in> children ns3 0. \<exists>e \<in> set ?es. c = unat (hd (nibbles (fst e)))"
      using f c(3) unfolding filled_def e by auto
    ultimately show ?thesis
      using cnt len e s(5) by (auto simp: finished_def)
  qed
  ultimately show ?thesis by force
qed

section \<open>The whole build\<close>

lemma trie_fill_ok:
  assumes "filled p ds n" and "list_all name_entry_ok es" and "distinct (map fst (ds @ es))" and "length (ds @ es) \<le> 4096"
    and "n + 2 * sum_list (map (length \<circ> fst) es) \<le> 32768"
  shows "\<exists>p1 n1. trie_fill p es = mpp_trie_last_info all_alloc p1 \<and> filled p1 (ds @ es) n1 \<and>
     n1 \<le> n + 2 * sum_list (map (length \<circ> fst) es) \<and> tr_name p1 = tr_name p"
  using assms
proof (induction es arbitrary: p ds n)
  case Nil
  then show ?case
    by (auto simp: mpp_trie_add_info_def)
next
  case (Cons e es)
  obtain nm ctx where e: "e = (nm, ctx)" by (cases e)
  have new: "nm \<notin> set (map fst ds)" and room: "n + 2 * length nm \<le> 32768" and ok: "name_entry_ok (nm, ctx)" and cnt: "length ds < 4096"
    using Cons.prems e by auto
  obtain p1 n1 where s: "trie_add_named True p nm (\<lambda>_. ctx) = Inr (MPP_OK, p1)" "filled p1 (ds @ [(nm, ctx)]) n1"
      "n1 \<le> n + 2 * length nm" "tr_name p1 = tr_name p"
    using trie_add_named_ok [OF Cons.prems(1) _ _ new cnt room, of "\<lambda>_. ctx" "length ctx"] ok by auto
  have "\<exists>p2 n2. trie_fill p1 es = mpp_trie_last_info all_alloc p2 \<and> filled p2 ((ds @ [(nm, ctx)]) @ es) n2 \<and>
      n2 \<le> n1 + 2 * sum_list (map (length \<circ> fst) es) \<and> tr_name p2 = tr_name p1"
    by (rule Cons.IH [OF s(2)]) (use Cons.prems s(3) e in auto)
  then obtain p2 n2 where p2: "trie_fill p1 es = mpp_trie_last_info all_alloc p2" "filled p2 ((ds @ [(nm, ctx)]) @ es) n2"
      "n2 \<le> n1 + 2 * sum_list (map (length \<circ> fst) es)" "tr_name p2 = tr_name p1"
    by blast
  show ?case
    by (intro exI [of _ p2] exI [of _ n2]) (use p2 s e in \<open>simp add: mpp_trie_add_info_def comp_def\<close>)
qed

lemma name_lengths: "length name_name = 8" "length name_info = 8" "length name_node = 8"
  by (simp_all add: name_name_def name_info_def name_node_def)

lemma names_ok: "nm \<in> set own_names \<Longrightarrow> length ctx \<le> 3840 \<Longrightarrow> name_entry_ok (nm, ctx)"
  by (auto simp: own_names_def name_entry_ok_def name_name_def name_info_def name_node_def)

lemma two_children:
  assumes f: "filled p es n" and i: "i < length es" "j < length es"
    and hd: "fst (es ! i) \<noteq> []" "fst (es ! j) \<noteq> []"
    and ne: "drop_bit 4 (hd (fst (es ! i))) AND 0xf \<noteq> drop_bit 4 (hd (fst (es ! j))) AND 0xf"
  shows "card (children (tr_nodes p) 0) > 1"
proof -
  let ?x = "\<lambda>i. drop_bit 4 (hd (fst (es ! i))) AND 0xf :: u8"
  have "unat (?x m) \<in> children (tr_nodes p) 0" if "m < length es" "fst (es ! m) \<noteq> []" for m
  proof -
    have "leads_to (tr_nodes p) (nibbles (fst (es ! m))) (int (entry_off es m))" "trie_wf (tr_nodes p)" "plain (tr_nodes p)"
      using f that(1) by (simp_all add: filled_def paved_def)
    then show ?thesis
      using that(2) root_children nibble_lt by (cases "fst (es ! m)") auto
  qed
  then have "{unat (?x i), unat (?x j)} \<subseteq> children (tr_nodes p) 0"
    using i hd by blast
  moreover have "unat (?x i) \<noteq> unat (?x j)"
    using ne by (simp only: word_unat_eq_iff) simp
  ultimately show ?thesis
    using card_mono [OF finite_children, of "{unat (?x i), unat (?x j)}" "tr_nodes p" 0] by simp
qed

lemma trie_last_ok:
  assumes f: "filled p es n" and names: "set (map fst es) \<inter> set own_names = {}" and room: "n + 48 \<le> 32768"
    and len: "length es \<le> 4093" and nm: "tr_name p = Some own" "length own \<le> 3840"
    and ex: "list_ex (\<lambda>e. drop_bit 4 (hd (fst e)) AND 0xf \<noteq> 5) es"
  shows "\<exists>p1. mpp_trie_last_info all_alloc p = Inr (MPP_OK, p1) \<and>
     finished p1 (es @ [(name_name, own), (name_info, u32_bytes (word_of_int (int (length es) + 3))),
       (name_node, u32_bytes (word_of_int (tr_node_used p1)))])"
proof -
  let ?info = "u32_bytes (word_of_int (int (length es) + 3))"
  have new: "nm \<notin> set (map fst es)" if "nm \<in> set own_names" for nm
    using names that by auto
  have own: "name_name \<in> set own_names" "name_info \<in> set own_names" "name_node \<in> set own_names"
    "distinct [name_name, name_info, name_node]"
    by (simp_all add: own_names_def name_name_def name_info_def name_node_def)
  obtain p1 n1 where s1: "trie_add_named True p name_name (\<lambda>_. own) = Inr (MPP_OK, p1)"
      "filled p1 (es @ [(name_name, own)]) n1" "n1 \<le> n + 16"
    using trie_add_named_ok [OF f, of name_name "\<lambda>_. own" "length own"] new [OF own(1)] names_ok [OF own(1)] nm len room
    by (auto simp: name_lengths)
  obtain p2 n2 where s2: "trie_add_named True p1 name_info (\<lambda>_. ?info) = Inr (MPP_OK, p2)"
      "filled p2 ((es @ [(name_name, own)]) @ [(name_info, ?info)]) n2" "n2 \<le> n1 + 16"
    using trie_add_named_ok [OF s1(2), of name_info "\<lambda>_. ?info" 4] new [OF own(2)] names_ok [OF own(2)] own(4) s1(3) len room
    by (auto simp: name_lengths length_u32_bytes)
  let ?v = "\<lambda>t :: MppTrieImpl. u32_bytes (word_of_int (tr_node_used t))"
  let ?ds = "(es @ [(name_name, own)]) @ [(name_info, ?info)]"
  obtain p3 n3 q where s3: "trie_add_named True p2 name_node ?v = Inr (MPP_OK, p3)"
      "filled p3 (?ds @ [(name_node, ?v q)]) n3"
  proof -
    have "name_entry_ok (name_node, ?v q)" "length (?v q) = 4" for q
      using names_ok [OF own(3)] by (simp_all add: length_u32_bytes)
    moreover have "name_node \<notin> set (map fst ?ds)"
      using new [OF own(3)] own(4) by auto
    moreover have "length ?ds < 4096" "n2 + 2 * length name_node \<le> 32768"
      using len s1(3) s2(3) room by (simp_all add: name_lengths)
    ultimately show ?thesis
      using trie_add_named_ok [OF s2(2), of name_node ?v 4] that by blast
  qed
  let ?es = "?ds @ [(name_node, ?v q)]"
  obtain i where i: "i < length es" "drop_bit 4 (hd (fst (es ! i))) AND 0xf \<noteq> 5"
    using ex by (auto simp: list_ex_length)
  have "fst (es ! i) \<noteq> []"
    using f i(1) by (simp add: filled_def list_all_length name_entry_ok_def)
  moreover have "drop_bit 4 (hd (fst (?es ! length es))) AND 0xf = 5" "fst (?es ! length es) \<noteq> []"
    by (simp_all add: nth_append name_name_def)
  ultimately have two: "card (children (tr_nodes p3) 0) > 1"
    using two_children [OF s3(2), of i "length es"] i by (simp add: nth_append)
  obtain p4 where s4: "trie_finish True p3 = Inr (MPP_OK, p4)"
      "finished p4 (?ds @ [(name_node, u32_bytes (word_of_int (tr_node_used p4)))])"
    using trie_finish_ok [OF s3(2) two refl length_u32_bytes] len by auto
  have "tr_info_count p = int (length es)"
    using f by (simp add: filled_def)
  then have "mpp_trie_last_info all_alloc p = Inr (MPP_OK, p4)"
    using s1(1) s2(1) s3(1) s4(1) nm(1) by (simp add: mpp_trie_last_info_def)
  then show ?thesis
    using s4(2) by auto
qed

lemma trie_build_ok:
  assumes ok: "entries_ok name es"
  shows "\<exists>p own. trie_build name es = Inr (MPP_OK, p) \<and>
     finished p (es @ [(name_name, own), (name_info, u32_bytes (word_of_int (int (length es) + 3))),
       (name_node, u32_bytes (word_of_int (tr_node_used p)))])"
proof -
  obtain p0 own where p0: "mpp_trie_init True (Some name) = Inr (MPP_OK, Some p0)" "filled p0 [] 1" "tr_name p0 = Some own"
      "length own = Suc (min (length name) 4096)"
    using init_filled [of name] by blast
  have es: "list_all name_entry_ok es" "distinct (map fst es)" "length es \<le> 4093" "length name < 3840"
    "2 * sum_list (map (length \<circ> fst) es) + 49 \<le> 32768" "set (map fst es) \<inter> set own_names = {}"
    "list_ex (\<lambda>e. drop_bit 4 (hd (fst e)) AND 0xf \<noteq> 5) es"
    using ok by (simp_all add: entries_ok_def)
  obtain p1 n1 where p1: "trie_fill p0 es = mpp_trie_last_info all_alloc p1" "filled p1 es n1"
      "n1 \<le> 1 + 2 * sum_list (map (length \<circ> fst) es)" "tr_name p1 = tr_name p0"
    using trie_fill_ok [OF p0(2), of es] es by auto
  show ?thesis
    using trie_last_ok [OF p1(2) es(6) _ es(3) _ _ es(7), of own] p0 p1 es(4,5) by (auto simp: trie_build_def)
qed

section \<open>Reading\<close>

lemma finished_get_info:
  assumes f: "finished p es" and i: "i < length es"
  shows "mpp_trie_get_info p (fst (es ! i)) = Inr (Some (mpp_trie_get_info_first p + int (entry_off es i)))"
    and "info_at (tr_infos p) (mpp_trie_get_info_first p + int (entry_off es i)) = Inr (entry_info i (es ! i))"
    and "mpp_trie_get_info_next p (Some (mpp_trie_get_info_first p + int (entry_off es i))) =
      Inr (if Suc i = length es then None else Some (mpp_trie_get_info_first p + int (entry_off es (Suc i))))"
proof -
  let ?base = "sizeof_node * tr_node_used p"
  have base: "mpp_trie_get_info_first p = ?base"
    by (simp add: mpp_trie_get_info_first_def)
  obtain K where K: "copying (tr_nodes p) es K ?base (length es)" and ok: "list_all name_entry_ok es" and b0: "0 \<le> ?base"
    and inf: "tr_infos p = entry_infos ?base es (length es)" and cnt: "tr_info_count p = int (length es)"
    using f unfolding finished_def by auto
  show "mpp_trie_get_info p (fst (es ! i)) = Inr (Some (mpp_trie_get_info_first p + int (entry_off es i)))"
    using get_info_copied [OF K i ok b0] base by (simp add: mpp_trie_get_info_def)
  show at: "info_at (tr_infos p) (mpp_trie_get_info_first p + int (entry_off es i)) = Inr (entry_info i (es ! i))"
    unfolding base inf by (rule info_at_entry [OF i order_refl])
  have "ti_index (entry_info i (es ! i)) = i"
    by (simp add: entry_info_def)
  then show "mpp_trie_get_info_next p (Some (mpp_trie_get_info_first p + int (entry_off es i))) =
      Inr (if Suc i = length es then None else Some (mpp_trie_get_info_first p + int (entry_off es (Suc i))))"
    using i at cnt by (auto simp: mpp_trie_get_info_next_def info_size_entry entry_off_Suc)
qed

lemma import_check_ok:
  assumes f: "finished p es"
  shows "i + n = length es \<Longrightarrow>
    import_check p n i (if i < length es then Some (mpp_trie_get_info_first p + int (entry_off es i)) else None) = Inr MPP_OK"
proof (induction n arbitrary: i)
  case (Suc n)
  then have i: "i < length es"
    by simp
  have "name_entry_ok (es ! i)"
    using f i by (simp add: finished_def list_all_length)
  moreover have "ti_index (entry_info i (es ! i)) = i"
    by (simp add: entry_info_def)
  moreover have "(if Suc i = length es then None else Some (mpp_trie_get_info_first p + int (entry_off es (Suc i)))) =
      (if Suc i < length es then Some (mpp_trie_get_info_first p + int (entry_off es (Suc i))) else None)"
    using i by auto
  ultimately show ?case
    using i Suc finished_get_info [OF f i] by (simp add: info_name_entry)
qed simp

lemma bytes_u32_bytes: "bytes_u32 (u32_bytes x) = Inr x"
proof -
  let ?w = "ucast (ucast x :: u8) OR push_bit 8 (ucast (ucast (drop_bit 8 x) :: u8)) OR
      push_bit 16 (ucast (ucast (drop_bit 16 x) :: u8)) OR push_bit 24 (ucast (ucast (drop_bit 24 x) :: u8)) :: u32"
  have "?w = x"
  proof (rule bit_word_eqI)
    fix n assume n: "n < LENGTH(32)"
    consider "n < 8" | "8 \<le> n" "n < 16" | "16 \<le> n" "n < 24" | "24 \<le> n"
      by linarith
    then show "bit ?w n \<longleftrightarrow> bit x n"
      using n by cases (auto simp: bit_or_iff bit_push_bit_iff bit_ucast_iff bit_drop_bit_eq dest!: le_Suc_ex)
  qed
  then show ?thesis
    by (simp add: u32_bytes_def)
qed

lemma walk_falls_back:
  assumes wf: "trie_wf ns" and x: "unat x < 16" "link ns 0 x = 0"
  shows "mpp_trie_walk ns w 0 x fin = Inr (0, w\<lparr>wk_tag := 0, wk_len := 0, wk_match := - 1\<rparr>)"
proof -
  have r: "alive ns 0" "tn_tag_len (ns ! 0) = 0"
    using wf by (simp_all add: trie_wf_def alive_def)
  have len: "length (tn_next (ns ! 0)) = 16"
    using trie_wf_alive [OF wf r(1)] by (simp add: node_wf_def)
  have "int (unat x) < 16"
    using x(1) by linarith
  then have "uint x < 16"
    by simp
  then show ?thesis
    using r alive_less [OF r(1)] len x(2) by (simp add: mpp_trie_walk_def)
qed

lemma get_node_behind_unknown:
  assumes wf: "trie_wf ns" and c: "link ns 0 (drop_bit 4 c AND 0xf) = 0" "link ns 0 (c AND 0xf) = 0"
    and s: "s \<noteq> []" "tfind ns 0 (nibbles s) = Some k"
  shows "mpp_trie_get_node ns (c # s) = Inr (Some (int k))"
proof -
  let ?w = "\<lparr>wk_tag = 0, wk_len = 0, wk_match = - 1\<rparr>"
  have "walk_at ns 0 [] ?w"
    using wf by (simp add: walk_at_def alive_def trie_wf_def)
  from get_node_loop_finds [OF wf s(1) this] s(2) have "get_node_loop ns ?w 0 s = Inr (int k)"
    by simp
  then show ?thesis
    using walk_falls_back [OF wf nibble_lt c(1)] walk_falls_back [OF wf nibble_lt c(2)] s(1)
    by (simp add: mpp_trie_get_node_def)
qed

section \<open>Properties\<close>

text \<open>
  C8: every entry is found. After entries within the bounds of \<open>entries_ok\<close> (at most 4093 entries with different names
  of 1 to 251 bytes, none of them one of the trie's own names, contexts of at most 3840 bytes, at most 32768 nodes, not all
  names with first nibble 5) are added and the trie is finished, each name leads to the info that was
  stored for it, with its position in the order of adding and its context.
\<close>

theorem trie_finds_entries:
  assumes "entries_ok name es"
  shows "\<exists>p. trie_build name es = Inr (MPP_OK, p) \<and> tr_info_count p = int (length es) + 3 \<and>
    (\<forall>i < length es. \<exists>off info. mpp_trie_get_info p (fst (es ! i)) = Inr (Some off) \<and> info_at (tr_infos p) off = Inr info \<and>
       info_name info = fst (es ! i) \<and> ti_index info = i \<and> take (length (snd (es ! i))) (ti_ctx info) = snd (es ! i))"
proof -
  obtain p own where p: "trie_build name es = Inr (MPP_OK, p)"
      "finished p (es @ [(name_name, own), (name_info, u32_bytes (word_of_int (int (length es) + 3))),
        (name_node, u32_bytes (word_of_int (tr_node_used p)))])" (is "finished p ?es")
    using trie_build_ok [OF assms] by blast
  have "\<exists>off info. mpp_trie_get_info p (fst (es ! i)) = Inr (Some off) \<and> info_at (tr_infos p) off = Inr info \<and>
       info_name info = fst (es ! i) \<and> ti_index info = i \<and> take (length (snd (es ! i))) (ti_ctx info) = snd (es ! i)"
    if i: "i < length es" for i
  proof -
    have ith: "i < length ?es" "?es ! i = es ! i" and ok: "name_entry_ok (es ! i)"
      using i p(2) assms by (simp_all add: nth_append entries_ok_def list_all_length)
    have "ti_index (entry_info i (es ! i)) = i" "take (length (snd (es ! i))) (ti_ctx (entry_info i (es ! i))) = snd (es ! i)"
      by (simp_all add: entry_info_def pad_zero_def)
    then show ?thesis
      using finished_get_info(1,2) [OF p(2) ith(1)] info_name_entry [OF ok] unfolding ith(2) by blast
  qed
  moreover have "tr_info_count p = int (length es) + 3"
    using p(2) by (simp add: finished_def)
  ultimately show ?thesis
    using p(1) by blast
qed

abbreviation demo_entries :: "entry list" where
  "demo_entries \<equiv> [([0x61, 0x62], [7]), ([0x61, 0x62, 0x63], []), ([0x72], [1, 2, 3, 4, 5])]"

theorem trie_finds_entries_witness:
  "\<exists>p. trie_build [0x74] demo_entries = Inr (MPP_OK, p) \<and> tr_info_count p = int (length demo_entries) + 3 \<and>
    (\<forall>i < length demo_entries. \<exists>off info. mpp_trie_get_info p (fst (demo_entries ! i)) = Inr (Some off) \<and>
       info_at (tr_infos p) off = Inr info \<and> info_name info = fst (demo_entries ! i) \<and> ti_index info = i \<and>
       take (length (snd (demo_entries ! i))) (ti_ctx info) = snd (demo_entries ! i))"
proof -
  have "entries_ok [0x74] demo_entries"
    by code_simp
  from trie_finds_entries [OF this] show ?thesis .
qed

text \<open>
  C22: the root of a trie filled within the bounds of \<open>entries_ok\<close> (at most 4093 entries with different names of 1 to 251
  bytes, none of them \<open>__name__\<close>, \<open>__info__\<close> or \<open>__node__\<close>, contexts of at most 3840 bytes, at most 32768 nodes, not all names
  with first nibble 5, a trie name of less than 3840 bytes) can be imported. \<open>mpp_trie_init_by_root\<close> accepts it: it walks
  through all infos, finds each from its name in its place, and takes the number of nodes and infos over.
\<close>

theorem trie_root_imports:
  assumes "entries_ok name es"
  shows "\<exists>p p1. trie_build name es = Inr (MPP_OK, p) \<and>
    mpp_trie_init_by_root True (tr_nodes p) (tr_infos p) = Inr (MPP_OK, Some p1) \<and>
    tr_nodes p1 = tr_nodes p \<and> tr_infos p1 = tr_infos p \<and> tr_node_used p1 = tr_node_used p \<and> tr_info_count p1 = tr_info_count p"
proof -
  obtain p own where p: "trie_build name es = Inr (MPP_OK, p)"
      "finished p (es @ [(name_name, own), (name_info, u32_bytes (word_of_int (int (length es) + 3))),
        (name_node, u32_bytes (word_of_int (tr_node_used p)))])" (is "finished p ?es")
    using trie_build_ok [OF assms] by blast
  have len: "int (length es) + 3 \<le> 4096" and used: "0 \<le> tr_node_used p" "tr_node_used p \<le> 32768"
    and cnt: "tr_info_count p = int (length es) + 3"
    using p(2) by (simp_all add: finished_def)
  let ?n = "length es"
  have nth: "?es ! ?n = (name_name, own)" "?es ! (?n + 1) = (name_info, u32_bytes (word_of_int (int ?n + 3)))"
    "?es ! (?n + 2) = (name_node, u32_bytes (word_of_int (tr_node_used p)))"
    by (simp_all add: nth_append)
  have "?n < length ?es" "?n + 1 < length ?es" "?n + 2 < length ?es"
    by simp_all
  note get = finished_get_info [OF p(2) this(1)] finished_get_info [OF p(2) this(2)] finished_get_info [OF p(2) this(3)]
  have u32: "bytes_u32 (ti_ctx (entry_info i (nm, u32_bytes x))) = Inr x" for i nm x
    using bytes_u32_bytes [of x] by (simp add: entry_info_def pad_zero_def length_u32_bytes al4_def)
  have s32: "sint (word_of_int k :: u32) = k" if "0 \<le> k" "k < 2 ^ 31" for k
    using sint_of_nat_small [of "nat k"] that by simp
  have s_count: "sint (word_of_nat ?n + 3 :: u32) = int ?n + 3"
    using s32 [of "int ?n + 3"] len by simp
  let ?p1 = "trie_impl_0\<lparr>tr_name := Some (ti_ctx (entry_info ?n (name_name, own))), tr_node_used := tr_node_used p,
      tr_info_count := int ?n + 3, tr_nodes := tr_nodes p, tr_infos := tr_infos p\<rparr>"
  have "finished ?p1 ?es"
    using p(2) cnt by (simp add: finished_def)
  from import_check_ok [OF this, of 0 "length ?es"]
  have "import_check ?p1 (Suc (Suc (Suc ?n))) 0 (Some (mpp_trie_get_info_first ?p1)) = Inr MPP_OK"
    by (simp del: import_check.simps)
  moreover have "nat (int ?n + 3) = Suc (Suc (Suc ?n))"
    by simp
  ultimately have "mpp_trie_init_by_root True (tr_nodes p) (tr_infos p) = Inr (MPP_OK, Some ?p1)"
    using get len used nth u32 s32 s_count
    by (simp add: mpp_trie_init_by_root_def mpp_trie_get_info_def root_u32_def Let_def del: import_check.simps)
  with p(1) cnt show ?thesis
    by (intro exI [of _ p] exI [of _ ?p1]) simp
qed

text \<open>
  C40: a character without a link is ignored. No entry has a first nibble that is one of the two nibbles of \<open>c\<close>: the
  lookup falls back to the root on both, and what follows \<open>c\<close> is found as if it were the whole name.
\<close>

theorem trie_ignores_unknown_prefix:
  assumes "entries_ok name es" and "\<forall>e \<in> set es. drop_bit 4 (hd (fst e)) AND 0xf \<notin> {drop_bit 4 c AND 0xf, c AND 0xf}"
    and "5 \<notin> {drop_bit 4 c AND 0xf, c AND 0xf}"
  shows "\<exists>p. trie_build name es = Inr (MPP_OK, p) \<and>
    (\<forall>i < length es. \<exists>off. mpp_trie_get_info p (c # fst (es ! i)) = Inr (Some off) \<and> mpp_trie_get_info p (fst (es ! i)) = Inr (Some off))"
proof -
  obtain p own where p: "trie_build name es = Inr (MPP_OK, p)"
      "finished p (es @ [(name_name, own), (name_info, u32_bytes (word_of_int (int (length es) + 3))),
        (name_node, u32_bytes (word_of_int (tr_node_used p)))])" (is "finished p ?es")
    using trie_build_ok [OF assms(1)] by blast
  let ?ns = "tr_nodes p" and ?hi = "drop_bit 4 c AND 0xf" and ?lo = "c AND 0xf"
  obtain K where K: "copying ?ns ?es K (sizeof_node * tr_node_used p) (length ?es)"
    using p(2) by (auto simp: finished_def)
  then have wf: "trie_wf ?ns"
    by (simp add: copying_def)
  have free: "link ?ns 0 x = 0" if x: "x \<in> {?hi, ?lo}" for x
  proof (rule ccontr)
    assume "link ?ns 0 x \<noteq> 0"
    moreover have lt: "unat x < 16"
      using x nibble_lt by blast
    ultimately have "unat x \<in> children ?ns 0"
      by (simp add: children_def)
    then obtain e where e: "e \<in> set ?es" "unat x = unat (hd (nibbles (fst e)))"
      using p(2) unfolding finished_def by blast
    then have "name_entry_ok e" "x = hd (nibbles (fst e))"
      using p(2) by (auto simp: finished_def list_all_iff word_unat_eq_iff)
    then have hd: "x = drop_bit 4 (hd (fst e)) AND 0xf"
      by (cases "fst e") (simp_all add: name_entry_ok_def)
    show False
    proof (cases "e \<in> set es")
      case True
      then show ?thesis
      proof -
        have "x \<notin> {?hi, ?lo}"
          unfolding hd by (rule bspec [OF assms(2) True])
        with x show ?thesis by contradiction
      qed
    next
      case False
      then have "fst e \<in> set own_names"
        using e(1) by (auto simp: own_names_def)
      then have "x = 5"
        using hd by (auto simp: own_names_def name_name_def name_info_def name_node_def)
      then show ?thesis
        using assms(3) x by blast
    qed
  qed
  have "\<exists>off. mpp_trie_get_info p (c # fst (es ! i)) = Inr (Some off) \<and> mpp_trie_get_info p (fst (es ! i)) = Inr (Some off)"
    if i: "i < length es" for i
  proof -
    have ith: "i < length ?es" "?es ! i = es ! i" and ne: "fst (es ! i) \<noteq> []"
      using i assms(1) by (simp_all add: nth_append entries_ok_def list_all_length name_entry_ok_def)
    have k: "tfind ?ns 0 (nibbles (fst (es ! i))) = Some (K i)"
      using K ith unfolding copying_def by metis
    have "mpp_trie_get_node ?ns (c # fst (es ! i)) = mpp_trie_get_node ?ns (fst (es ! i))"
      using get_node_behind_unknown [OF wf free free ne k] mpp_trie_get_node_finds(1) [OF wf ne k] by simp
    then show ?thesis
      using finished_get_info(1) [OF p(2) ith(1)] unfolding ith(2)
      by (simp add: mpp_trie_get_info_def mpp_trie_get_info_from_root_def)
  qed
  with p(1) show ?thesis by blast
qed

theorem trie_ignores_unknown_prefix_witness:
  "\<exists>p. trie_build [0x74] demo_entries = Inr (MPP_OK, p) \<and>
    (\<forall>i < length demo_entries. \<exists>off. mpp_trie_get_info p (0x41 # fst (demo_entries ! i)) = Inr (Some off) \<and>
       mpp_trie_get_info p (fst (demo_entries ! i)) = Inr (Some off))"
proof (rule trie_ignores_unknown_prefix)
  show "entries_ok [0x74] demo_entries"
    by code_simp
  show "\<forall>e \<in> set demo_entries. drop_bit 4 (hd (fst e)) AND 0xf \<notin> {drop_bit 4 (0x41 :: u8) AND 0xf, 0x41 AND 0xf}"
    "5 \<notin> {drop_bit 4 (0x41 :: u8) AND 0xf, 0x41 AND 0xf}"
    by code_simp+
qed

theorem trie_root_imports_witness:
  "\<exists>p p1. trie_build [0x74] demo_entries = Inr (MPP_OK, p) \<and>
    mpp_trie_init_by_root True (tr_nodes p) (tr_infos p) = Inr (MPP_OK, Some p1) \<and>
    tr_nodes p1 = tr_nodes p \<and> tr_infos p1 = tr_infos p \<and> tr_node_used p1 = tr_node_used p \<and> tr_info_count p1 = tr_info_count p"
proof (rule trie_root_imports)
  show "entries_ok [0x74] demo_entries"
    by code_simp
qed

end
