(* ===== verification/Mpp_Packet.thy ===== *)
theory Mpp_Packet
  imports Mpp_Frame
begin

text \<open>
  Packets, \<open>mpp/base/mpp_packet.c\<close>. A packet is an identifier; its structure is in the state as long as it
  is allocated, so the name check of \<open>check_is_mpp_packet_f\<close> succeeds on it and touches freed memory
  afterwards. Stream data are bytes at 64-bit addresses. The list of segments is an array inside the
  packet, or a separate block that grows; its elements are linked by pointers, so the model keeps for
  every pointer the array it points into. Output pointers are not null.
\<close>

section \<open>State\<close>

abbreviation (input) MPP_PACKET_FLAG_EOS :: u32 where "MPP_PACKET_FLAG_EOS \<equiv> 1"
abbreviation (input) MPP_PACKET_FLAG_EXTRA_DATA :: u32 where "MPP_PACKET_FLAG_EXTRA_DATA \<equiv> 2"
abbreviation (input) MPP_PACKET_FLAG_INTERNAL :: u32 where "MPP_PACKET_FLAG_INTERNAL \<equiv> 4"
abbreviation (input) MPP_PACKET_FLAG_PARTITION :: u32 where "MPP_PACKET_FLAG_PARTITION \<equiv> 0x20"
abbreviation (input) MPP_PACKET_FLAG_EOI :: u32 where "MPP_PACKET_FLAG_EOI \<equiv> 0x40"
abbreviation MPP_PKT_SEG_CNT_DEFAULT :: u32 where "MPP_PKT_SEG_CNT_DEFAULT \<equiv> 8"

text \<open>A pointer into \<open>segments_def\<close> of a packet, or into an allocated block.\<close>

datatype seg_ptr = Seg_Def nat nat | Seg_Ext nat nat

record MppPktSeg =
  sg_index :: int
  sg_type :: int
  sg_offset :: u32
  sg_len :: u32
  sg_next :: "seg_ptr option"

record MppPacketImpl =
  pk_data :: u64
  pk_pos :: u64
  pk_size :: u64
  pk_length :: u64
  pk_pts :: int
  pk_dts :: int
  pk_status :: u32
  pk_flag :: u32
  pk_buffer :: "nat option"
  pk_meta :: "nat option"
  pk_task :: "nat option"
  pk_segment_nb :: u32
  pk_segment_buf_cnt :: u32
  pk_segments_def :: "MppPktSeg list"
  pk_segments_ext :: "nat option"
  pk_segments :: "seg_ptr option"
  pk_release :: "(nat \<times> nat \<times> nat) option"

text \<open>
  \<open>ps_released\<close> lists the release callbacks that were called; \<open>ps_fresh\<close> and \<open>ps_junk\<close> are the contents of
  memory that has not been written.
\<close>

record pkt_state =
  ps_pkts :: "nat \<Rightarrow> MppPacketImpl option"
  ps_new_pkt :: nat
  ps_exts :: "nat \<Rightarrow> MppPktSeg list option"
  ps_new_ext :: nat
  ps_mem :: "u64 \<Rightarrow> u8 option"
  ps_blocks :: "u64 \<Rightarrow> nat option"
  ps_refs :: refs
  ps_released :: "(nat \<times> nat \<times> nat) list"
  ps_fresh :: "u64 \<Rightarrow> u8"
  ps_junk :: MppPktSeg

definition seg_zero :: MppPktSeg where
  "seg_zero = \<lparr>sg_index = 0, sg_type = 0, sg_offset = 0, sg_len = 0, sg_next = None\<rparr>"

definition packet_zero :: MppPacketImpl where
  "packet_zero =
     \<lparr>pk_data = 0, pk_pos = 0, pk_size = 0, pk_length = 0, pk_pts = 0, pk_dts = 0, pk_status = 0, pk_flag = 0,
      pk_buffer = None, pk_meta = None, pk_task = None, pk_segment_nb = 0, pk_segment_buf_cnt = 0,
      pk_segments_def = replicate 8 seg_zero, pk_segments_ext = None, pk_segments = None, pk_release = None\<rparr>"

definition get_pkt :: "pkt_state \<Rightarrow> nat \<Rightarrow> MppPacketImpl run" where
  "get_pkt st i = (case ps_pkts st i of None \<Rightarrow> Inl Freed_Access | Some p \<Rightarrow> Inr p)"

definition set_pkt :: "nat \<Rightarrow> MppPacketImpl \<Rightarrow> pkt_state \<Rightarrow> pkt_state" where
  "set_pkt i p st = st\<lparr>ps_pkts := (ps_pkts st)(i \<mapsto> p)\<rparr>"

definition upd_pkt :: "pkt_state \<Rightarrow> nat \<Rightarrow> (MppPacketImpl \<Rightarrow> MppPacketImpl) \<Rightarrow> pkt_state run" where
  "upd_pkt st i f = run_bind (get_pkt st i) (\<lambda>p. Inr (set_pkt i (f p) st))"

section \<open>Memory\<close>

fun mem_read :: "(u64 \<Rightarrow> u8 option) \<Rightarrow> u64 \<Rightarrow> nat \<Rightarrow> u8 list run" where
  "mem_read m a 0 = Inr []"
| "mem_read m a (Suc n) =
     (case m a of None \<Rightarrow> Inl Out_Of_Bounds
      | Some b \<Rightarrow> run_bind (mem_read m (a + 1) n) (\<lambda>bs. Inr (b # bs)))"

fun mem_write :: "(u64 \<Rightarrow> u8 option) \<Rightarrow> u64 \<Rightarrow> u8 list \<Rightarrow> (u64 \<Rightarrow> u8 option) run" where
  "mem_write m a [] = Inr m"
| "mem_write m a (b # bs) =
     (if m a = None then Inl Out_Of_Bounds else mem_write (m(a \<mapsto> b)) (a + 1) bs)"

definition mem_copy :: "pkt_state \<Rightarrow> u64 \<Rightarrow> u64 \<Rightarrow> u64 \<Rightarrow> pkt_state run" where
  "mem_copy st dst src n =
     run_bind (mem_read (ps_mem st) src (unat n)) (\<lambda>bs.
     run_bind (mem_write (ps_mem st) dst bs) (\<lambda>m. Inr (st\<lparr>ps_mem := m\<rparr>)))"

text \<open>\<open>malloc\<close> answers with the address \<open>a\<close>; \<open>free\<close> of a null pointer does nothing.\<close>

definition mem_malloc :: "pkt_state \<Rightarrow> u64 \<Rightarrow> u64 \<Rightarrow> pkt_state" where
  "mem_malloc st a n =
     st\<lparr>ps_mem := (\<lambda>x. if x - a < n then Some (ps_fresh st x) else ps_mem st x),
        ps_blocks := (ps_blocks st)(a \<mapsto> unat n)\<rparr>"

definition mem_free :: "pkt_state \<Rightarrow> u64 \<Rightarrow> pkt_state run" where
  "mem_free st a =
     (if a = 0 then Inr st
      else case ps_blocks st a of None \<Rightarrow> Inl Freed_Access
      | Some n \<Rightarrow> Inr (st\<lparr>ps_mem := (\<lambda>x. if unat (x - a) < n then None else ps_mem st x),
                          ps_blocks := (ps_blocks st)(a := None)\<rparr>))"

section \<open>Arrays of segments\<close>

fun seg_ptr_add :: "seg_ptr \<Rightarrow> nat \<Rightarrow> seg_ptr" where
  "seg_ptr_add (Seg_Def i k) n = Seg_Def i (k + n)"
| "seg_ptr_add (Seg_Ext b k) n = Seg_Ext b (k + n)"

definition seg_get :: "pkt_state \<Rightarrow> seg_ptr \<Rightarrow> MppPktSeg run" where
  "seg_get st q =
     (case q of
        Seg_Def i k \<Rightarrow> run_bind (get_pkt st i) (\<lambda>p. array_get (pk_segments_def p) (int k))
      | Seg_Ext b k \<Rightarrow> (case ps_exts st b of None \<Rightarrow> Inl Freed_Access | Some xs \<Rightarrow> array_get xs (int k)))"

definition seg_put :: "pkt_state \<Rightarrow> seg_ptr \<Rightarrow> MppPktSeg \<Rightarrow> pkt_state run" where
  "seg_put st q s =
     (case q of
        Seg_Def i k \<Rightarrow>
          run_bind (get_pkt st i) (\<lambda>p.
          run_bind (array_set (pk_segments_def p) (int k) s) (\<lambda>xs. Inr (set_pkt i (p\<lparr>pk_segments_def := xs\<rparr>) st)))
      | Seg_Ext b k \<Rightarrow>
          (case ps_exts st b of None \<Rightarrow> Inl Freed_Access
           | Some xs \<Rightarrow> run_bind (array_set xs (int k) s) (\<lambda>ys. Inr (st\<lparr>ps_exts := (ps_exts st)(b \<mapsto> ys)\<rparr>))))"

definition seg_set_next :: "pkt_state \<Rightarrow> seg_ptr \<Rightarrow> seg_ptr option \<Rightarrow> pkt_state run" where
  "seg_set_next st q n = run_bind (seg_get st q) (\<lambda>s. seg_put st q (s\<lparr>sg_next := n\<rparr>))"

text \<open>\<open>memcpy\<close> of \<open>n\<close> elements, and the loop that links \<open>n\<close> elements to their successors.\<close>

fun seg_copy :: "pkt_state \<Rightarrow> seg_ptr \<Rightarrow> seg_ptr \<Rightarrow> nat \<Rightarrow> pkt_state run" where
  "seg_copy st dst src 0 = Inr st"
| "seg_copy st dst src (Suc n) =
     run_bind (seg_copy st dst src n) (\<lambda>st1.
     run_bind (seg_get st1 (seg_ptr_add src n)) (\<lambda>s. seg_put st1 (seg_ptr_add dst n) s))"

fun seg_relink :: "pkt_state \<Rightarrow> seg_ptr \<Rightarrow> nat \<Rightarrow> pkt_state run" where
  "seg_relink st base 0 = Inr st"
| "seg_relink st base (Suc n) =
     run_bind (seg_relink st base n) (\<lambda>st1.
       seg_set_next st1 (seg_ptr_add base n) (Some (seg_ptr_add base (Suc n))))"

definition seg_calloc :: "pkt_state \<Rightarrow> u32 \<Rightarrow> nat \<times> pkt_state" where
  "seg_calloc st n =
     (ps_new_ext st, st\<lparr>ps_exts := (ps_exts st)(ps_new_ext st \<mapsto> replicate (unat n) seg_zero),
                        ps_new_ext := Suc (ps_new_ext st)\<rparr>)"

text \<open>The block moves: the old pointer is invalid after \<open>realloc\<close>.\<close>

definition seg_realloc :: "pkt_state \<Rightarrow> nat \<Rightarrow> u32 \<Rightarrow> (nat \<times> pkt_state) run" where
  "seg_realloc st b n =
     (case ps_exts st b of None \<Rightarrow> Inl Freed_Access
      | Some xs \<Rightarrow> Inr (ps_new_ext st,
          st\<lparr>ps_exts := (ps_exts st)(b := None,
               ps_new_ext st \<mapsto> take (unat n) xs @ replicate (unat n - length xs) (ps_junk st)),
             ps_new_ext := Suc (ps_new_ext st)\<rparr>))"

definition seg_free :: "pkt_state \<Rightarrow> nat option \<Rightarrow> pkt_state run" where
  "seg_free st e =
     (case e of None \<Rightarrow> Inr st
      | Some b \<Rightarrow> if ps_exts st b = None then Inl Freed_Access
                  else Inr (st\<lparr>ps_exts := (ps_exts st)(b := None)\<rparr>))"

section \<open>Segment lists\<close>

definition mpp_packet_reset_segment :: "pkt_state \<Rightarrow> nat \<Rightarrow> pkt_state run" where
  "mpp_packet_reset_segment st i =
     run_bind (get_pkt st i) (\<lambda>p.
     run_bind (seg_free (set_pkt i (p\<lparr>pk_segment_nb := 0, pk_segment_buf_cnt := MPP_PKT_SEG_CNT_DEFAULT,
         pk_segments_def := replicate 8 seg_zero, pk_segments := None\<rparr>) st) (pk_segments_ext p)) (\<lambda>st1.
       upd_pkt st1 i (\<lambda>p. p\<lparr>pk_segments_ext := None\<rparr>)))"

text \<open>The array moves back into the packet when it has room for the segments that are kept.\<close>

definition segs_to_def :: "pkt_state \<Rightarrow> nat \<Rightarrow> seg_ptr \<Rightarrow> u32 \<Rightarrow> (seg_ptr \<times> pkt_state) run" where
  "segs_to_def st i segs n =
     run_bind (get_pkt st i) (\<lambda>p.
     run_bind
       (case pk_segments_ext p of None \<Rightarrow> Inr (segs, st)
        | Some b \<Rightarrow>
            run_bind (seg_copy st (Seg_Def i 0) segs (unat n)) (\<lambda>st1.
            run_bind (upd_pkt st1 i (\<lambda>p. p\<lparr>pk_segments := Some (Seg_Def i 0), pk_segments_ext := None\<rparr>)) (\<lambda>st2.
            run_bind (seg_free st2 (Some b)) (\<lambda>st3. Inr (Seg_Def i 0, st3))))) (\<lambda>(segs1, st1).
     run_bind (upd_pkt st1 i (\<lambda>p. p\<lparr>pk_segment_buf_cnt := MPP_PKT_SEG_CNT_DEFAULT\<rparr>)) (\<lambda>st2.
       Inr (segs1, st2))))"

definition mpp_packet_set_segment_nb :: "pkt_state \<Rightarrow> nat \<Rightarrow> u32 \<Rightarrow> pkt_state run" where
  "mpp_packet_set_segment_nb st i n =
     run_bind (get_pkt st i) (\<lambda>p.
       case pk_segments p of None \<Rightarrow> Inr st
       | Some segs \<Rightarrow>
           if n \<ge> pk_segment_nb p then Inr st
           else if n = 0 then mpp_packet_reset_segment st i
           else
             run_bind (if n \<le> MPP_PKT_SEG_CNT_DEFAULT then segs_to_def st i segs n else Inr (segs, st)) (\<lambda>(segs1, st1).
             run_bind (seg_relink st1 segs1 (nat (sint n - 1))) (\<lambda>st2.
             run_bind (seg_set_next st2 (seg_ptr_add segs1 (unat (n - 1))) None) (\<lambda>st3.
               upd_pkt st3 i (\<lambda>p. p\<lparr>pk_segment_nb := n\<rparr>)))))"

text \<open>The array is doubled when it is full. No array is returned when the allocation fails.\<close>

definition grow_segments :: "bool \<Rightarrow> pkt_state \<Rightarrow> nat \<Rightarrow> (seg_ptr \<times> pkt_state) option run" where
  "grow_segments alloc st i =
     run_bind (get_pkt st i) (\<lambda>p.
       let n = pk_segment_nb p; cnt = pk_segment_buf_cnt p * 2
       in if \<not> alloc then Inr None
       else
         run_bind
           (case pk_segments_ext p of
              None \<Rightarrow>
                (let (b, st1) = seg_calloc st cnt
                 in run_bind (seg_copy st1 (Seg_Ext b 0) (Seg_Def i 0) 8) (\<lambda>st2. Inr (b, st2)))
            | Some e \<Rightarrow> seg_realloc st e cnt) (\<lambda>(b, st1).
         run_bind (seg_relink st1 (Seg_Ext b 0) (unat (n - 1))) (\<lambda>st2.
         run_bind (upd_pkt st2 i (\<lambda>p. p\<lparr>pk_segments_ext := Some b, pk_segments := Some (Seg_Ext b 0),
             pk_segment_buf_cnt := cnt\<rparr>)) (\<lambda>st3. Inr (Some (Seg_Ext b 0, st3))))))"

text \<open>The new element is stored behind the others and linked to its predecessor.\<close>

definition store_segment :: "pkt_state \<Rightarrow> nat \<Rightarrow> seg_ptr \<Rightarrow> int \<Rightarrow> int \<Rightarrow> int \<Rightarrow> pkt_state run" where
  "store_segment st i base type offset len =
     run_bind (get_pkt st i) (\<lambda>p.
       let n = pk_segment_nb p in
       run_bind (seg_put st (seg_ptr_add base (unat n))
          \<lparr>sg_index = sint n, sg_type = type, sg_offset = word_of_int offset, sg_len = word_of_int len,
           sg_next = None\<rparr>) (\<lambda>st1.
       run_bind (if n \<noteq> 0 then seg_set_next st1 (seg_ptr_add base (unat n - 1)) (Some (seg_ptr_add base (unat n)))
                 else Inr st1) (\<lambda>st2.
         upd_pkt st2 i (\<lambda>p. p\<lparr>pk_segment_nb := pk_segment_nb p + 1\<rparr>))))"

definition mpp_packet_add_segment_info ::
  "bool \<Rightarrow> pkt_state \<Rightarrow> nat \<Rightarrow> int \<Rightarrow> int \<Rightarrow> int \<Rightarrow> (mpp_ret \<times> pkt_state) run" where
  "mpp_packet_add_segment_info alloc st i type offset len =
     run_bind (get_pkt st i) (\<lambda>p.
     run_bind
       (if pk_segment_nb p \<ge> pk_segment_buf_cnt p then grow_segments alloc st i
        else case pk_segments p of
            None \<Rightarrow> run_bind (upd_pkt st i (\<lambda>p. p\<lparr>pk_segments := Some (Seg_Def i 0)\<rparr>)) (\<lambda>st1. Inr (Some (Seg_Def i 0, st1)))
          | Some s \<Rightarrow> Inr (Some (s, st))) (\<lambda>r.
       case r of None \<Rightarrow> Inr (MPP_NOK, st)
       | Some (base, st1) \<Rightarrow>
           run_bind (store_segment st1 i base type offset len) (\<lambda>st2. Inr (MPP_OK, st2))))"

definition mpp_packet_copy_segment_info :: "bool \<Rightarrow> pkt_state \<Rightarrow> nat \<Rightarrow> nat \<Rightarrow> pkt_state run" where
  "mpp_packet_copy_segment_info alloc st dst src =
     run_bind (mpp_packet_reset_segment st dst) (\<lambda>st.
     run_bind (get_pkt st src) (\<lambda>s.
       let n = pk_segment_nb s in
       if n = 0 then Inr st
       else
         run_bind (upd_pkt st dst (\<lambda>p. p\<lparr>pk_segment_nb := n, pk_segment_buf_cnt := pk_segment_buf_cnt s\<rparr>)) (\<lambda>st1.
         run_bind
           (if n \<le> MPP_PKT_SEG_CNT_DEFAULT then Inr (Seg_Def dst 0, st1)
            else if \<not> alloc then Inl Null_Deref
            else
              (let (b, st2) = seg_calloc st1 (pk_segment_buf_cnt s)
               in run_bind (upd_pkt st2 dst (\<lambda>p. p\<lparr>pk_segments_ext := Some b\<rparr>)) (\<lambda>st3. Inr (Seg_Ext b 0, st3)))) (\<lambda>(q, st2).
         run_bind (case pk_segments s of None \<Rightarrow> Inl Null_Deref | Some q' \<Rightarrow> seg_copy st2 q q' (unat n)) (\<lambda>st3.
         run_bind (seg_relink st3 q (unat (n - 1))) (\<lambda>st4.
           upd_pkt st4 dst (\<lambda>p. p\<lparr>pk_segments := Some q\<rparr>)))))))"

definition mpp_packet_get_segment_info :: "pkt_state \<Rightarrow> nat \<Rightarrow> seg_ptr option run" where
  "mpp_packet_get_segment_info st i =
     run_bind (get_pkt st i) (\<lambda>p. Inr (if pk_segment_nb p = 0 then None else pk_segments p))"

section \<open>Creating and releasing packets\<close>

definition mpp_packet_new :: "bool \<Rightarrow> pkt_state \<Rightarrow> mpp_ret \<times> nat option \<times> pkt_state" where
  "mpp_packet_new alloc st =
     (if \<not> alloc then (MPP_ERR_NULL_PTR, None, st)
      else (MPP_OK, Some (ps_new_pkt st),
            set_pkt (ps_new_pkt st) (packet_zero\<lparr>pk_segment_buf_cnt := MPP_PKT_SEG_CNT_DEFAULT\<rparr>)
              (st\<lparr>ps_new_pkt := Suc (ps_new_pkt st)\<rparr>)))"

definition mpp_packet_init :: "bool \<Rightarrow> pkt_state \<Rightarrow> u64 \<Rightarrow> u64 \<Rightarrow> (mpp_ret \<times> nat option \<times> pkt_state) run" where
  "mpp_packet_init alloc st data sz =
     (case mpp_packet_new alloc st of
        (ret, None, st1) \<Rightarrow> Inr (ret, None, st1)
      | (ret, Some i, st1) \<Rightarrow>
          run_bind (upd_pkt st1 i (\<lambda>p. p\<lparr>pk_data := data, pk_pos := data, pk_size := sz, pk_length := sz\<rparr>)) (\<lambda>st2.
            Inr (MPP_OK, Some i, st2)))"

text \<open>\<open>buf\<close> is the buffer with its address and size.\<close>

definition mpp_packet_init_with_buffer ::
  "bool \<Rightarrow> pkt_state \<Rightarrow> (nat \<times> u64 \<times> u64) option \<Rightarrow> (mpp_ret \<times> nat option \<times> pkt_state) run" where
  "mpp_packet_init_with_buffer alloc st buf =
     (case buf of None \<Rightarrow> Inr (MPP_ERR_NULL_PTR, None, st)
      | Some (b, ptr, sz) \<Rightarrow>
          (case mpp_packet_new alloc st of
             (ret, None, st1) \<Rightarrow> Inr (ret, None, st1)
           | (ret, Some i, st1) \<Rightarrow>
               run_bind (upd_pkt st1 i (\<lambda>p. p\<lparr>pk_data := ptr, pk_pos := ptr, pk_size := sz, pk_length := sz,
                   pk_buffer := Some b\<rparr>)) (\<lambda>st2.
                 Inr (MPP_OK, Some i, st2\<lparr>ps_refs := snd (frame_buffer_inc_ref (Some b) (ps_refs st2))\<rparr>))))"

definition mpp_packet_deinit :: "pkt_state \<Rightarrow> nat \<Rightarrow> (mpp_ret \<times> pkt_state) run" where
  "mpp_packet_deinit st i =
     run_bind (get_pkt st i) (\<lambda>p.
       let st1 = (if pk_buffer p \<noteq> None then st\<lparr>ps_refs := snd (frame_buffer_put (pk_buffer p) (ps_refs st))\<rparr> else st)
       in run_bind (if pk_flag p AND MPP_PACKET_FLAG_INTERNAL \<noteq> 0 then mem_free st1 (pk_data p) else Inr st1) (\<lambda>st2.
       let st3 = (if pk_meta p \<noteq> None then st2\<lparr>ps_refs := mpp_meta_put (pk_meta p) (ps_refs st2)\<rparr> else st2)
       in run_bind (seg_free st3 (pk_segments_ext p)) (\<lambda>st4.
       let st5 = (case pk_release p of None \<Rightarrow> st4 | Some r \<Rightarrow> st4\<lparr>ps_released := ps_released st4 @ [r]\<rparr>)
       in Inr (MPP_OK, st5\<lparr>ps_pkts := (ps_pkts st5)(i := None)\<rparr>))))"

text \<open>The data of the source are copied into memory of their own, with 256 zero bytes behind them.\<close>

definition copy_own_data :: "u64 \<Rightarrow> pkt_state \<Rightarrow> nat \<Rightarrow> MppPacketImpl \<Rightarrow> pkt_state run" where
  "copy_own_data pos st i src =
     (let n = pk_length src in
      run_bind (upd_pkt (mem_malloc st pos (n + 256)) i (\<lambda>p. p\<lparr>pk_data := pos, pk_pos := pos, pk_size := n,
          pk_length := n, pk_flag := pk_flag p OR MPP_PACKET_FLAG_INTERNAL\<rparr>)) (\<lambda>st1.
        if n = 0 then Inr st1
        else
          run_bind (mem_copy st1 pos (pk_pos src) n) (\<lambda>st2.
          run_bind (mem_write (ps_mem st2) (pos + n) (replicate 256 0)) (\<lambda>m. Inr (st2\<lparr>ps_mem := m\<rparr>)))))"

definition mpp_packet_copy_init ::
  "bool \<Rightarrow> u64 option \<Rightarrow> pkt_state \<Rightarrow> nat \<Rightarrow> (mpp_ret \<times> nat option \<times> pkt_state) run" where
  "mpp_packet_copy_init alloc ans st src =
     run_bind (get_pkt st src) (\<lambda>s.
       case mpp_packet_new alloc st of
         (ret, None, st1) \<Rightarrow> Inr (ret, None, st1)
       | (ret, Some i, st1) \<Rightarrow>
           let st2 = set_pkt i s st1;
               st3 = (if pk_meta s \<noteq> None then st2\<lparr>ps_refs := mpp_meta_inc_ref (pk_meta s) (ps_refs st2)\<rparr> else st2)
           in if pk_buffer s \<noteq> None then
                Inr (MPP_OK, Some i, st3\<lparr>ps_refs := snd (frame_buffer_inc_ref (pk_buffer s) (ps_refs st3))\<rparr>)
              else
                (case ans of
                   None \<Rightarrow> run_bind (mpp_packet_deinit st3 i) (\<lambda>(ret, st4). Inr (MPP_ERR_MALLOC, None, st4))
                 | Some pos \<Rightarrow> run_bind (copy_own_data pos st3 i s) (\<lambda>st4. Inr (MPP_OK, Some i, st4))))"

definition mpp_packet_reset :: "pkt_state \<Rightarrow> nat \<Rightarrow> (mpp_ret \<times> pkt_state) run" where
  "mpp_packet_reset st i =
     run_bind (get_pkt st i) (\<lambda>p.
     run_bind (mpp_packet_reset_segment
         (set_pkt i (packet_zero\<lparr>pk_data := pk_data p, pk_pos := pk_data p, pk_size := pk_size p\<rparr>) st) i) (\<lambda>st1.
       Inr (MPP_OK, st1)))"

section \<open>Fields\<close>

definition mpp_packet_set_pos :: "pkt_state \<Rightarrow> nat \<Rightarrow> u64 \<Rightarrow> pkt_state run" where
  "mpp_packet_set_pos st i pos =
     upd_pkt st i (\<lambda>p.
       let offset = pos - pk_data p; diff = pos - pk_pos p
       in p\<lparr>pk_length := (if diff \<le> pk_length p then pk_length p - diff else pk_size p - offset), pk_pos := pos\<rparr>)"

definition mpp_packet_get_pos :: "pkt_state \<Rightarrow> nat \<Rightarrow> u64 run" where
  "mpp_packet_get_pos st i = run_bind (get_pkt st i) (\<lambda>p. Inr (pk_pos p))"

definition mpp_packet_set_eos :: "pkt_state \<Rightarrow> nat \<Rightarrow> pkt_state run" where
  "mpp_packet_set_eos st i = upd_pkt st i (\<lambda>p. p\<lparr>pk_flag := pk_flag p OR MPP_PACKET_FLAG_EOS\<rparr>)"

definition mpp_packet_clr_eos :: "pkt_state \<Rightarrow> nat \<Rightarrow> pkt_state run" where
  "mpp_packet_clr_eos st i = upd_pkt st i (\<lambda>p. p\<lparr>pk_flag := pk_flag p AND NOT MPP_PACKET_FLAG_EOS\<rparr>)"

definition mpp_packet_get_eos :: "pkt_state \<Rightarrow> nat \<Rightarrow> u32 run" where
  "mpp_packet_get_eos st i =
     run_bind (get_pkt st i) (\<lambda>p. Inr (if pk_flag p AND MPP_PACKET_FLAG_EOS \<noteq> 0 then 1 else 0))"

definition mpp_packet_set_extra_data :: "pkt_state \<Rightarrow> nat \<Rightarrow> pkt_state run" where
  "mpp_packet_set_extra_data st i = upd_pkt st i (\<lambda>p. p\<lparr>pk_flag := pk_flag p OR MPP_PACKET_FLAG_EXTRA_DATA\<rparr>)"

definition mpp_packet_set_buffer :: "pkt_state \<Rightarrow> nat \<Rightarrow> nat option \<Rightarrow> pkt_state run" where
  "mpp_packet_set_buffer st i b =
     run_bind (get_pkt st i) (\<lambda>p.
       if pk_buffer p \<noteq> b then
         (let r1 = (if b \<noteq> None then snd (frame_buffer_inc_ref b (ps_refs st)) else ps_refs st);
              r2 = (if pk_buffer p \<noteq> None then snd (frame_buffer_put (pk_buffer p) r1) else r1)
          in Inr (set_pkt i (p\<lparr>pk_buffer := b\<rparr>) (st\<lparr>ps_refs := r2\<rparr>)))
       else Inr st)"

definition mpp_packet_get_buffer :: "pkt_state \<Rightarrow> nat \<Rightarrow> nat option run" where
  "mpp_packet_get_buffer st i = run_bind (get_pkt st i) (\<lambda>p. Inr (pk_buffer p))"

definition mpp_packet_has_meta :: "pkt_state \<Rightarrow> nat \<Rightarrow> bool run" where
  "mpp_packet_has_meta st i = run_bind (get_pkt st i) (\<lambda>p. Inr (pk_meta p \<noteq> None))"

text \<open>\<open>m\<close> is what \<open>mpp_meta_get\<close> delivers, with one reference.\<close>

definition mpp_packet_get_meta :: "nat option \<Rightarrow> pkt_state \<Rightarrow> nat \<Rightarrow> (nat option \<times> pkt_state) run" where
  "mpp_packet_get_meta m st i =
     run_bind (get_pkt st i) (\<lambda>p.
       if pk_meta p = None then
         Inr (m, set_pkt i (p\<lparr>pk_meta := m\<rparr>)
           (case m of None \<Rightarrow> st
            | Some k \<Rightarrow> st\<lparr>ps_refs := (ps_refs st)\<lparr>meta_ref := (meta_ref (ps_refs st))(k := 1)\<rparr>\<rparr>))
       else Inr (pk_meta p, st))"

definition mpp_packet_set_status :: "pkt_state \<Rightarrow> nat \<Rightarrow> u32 \<Rightarrow> pkt_state run" where
  "mpp_packet_set_status st i v = upd_pkt st i (\<lambda>p. p\<lparr>pk_status := v\<rparr>)"

definition mpp_packet_get_status :: "pkt_state \<Rightarrow> nat \<Rightarrow> u32 run" where
  "mpp_packet_get_status st i = run_bind (get_pkt st i) (\<lambda>p. Inr (pk_status p))"

text \<open>The bits of the status from the lowest: eos, extra data, internal, discard, partition, soi, eoi.\<close>

definition mpp_packet_is_partition :: "pkt_state \<Rightarrow> nat \<Rightarrow> bool run" where
  "mpp_packet_is_partition st i =
     run_bind (get_pkt st i) (\<lambda>p. Inr (bit (pk_status p) 4 \<or> pk_flag p AND MPP_PACKET_FLAG_PARTITION \<noteq> 0))"

definition mpp_packet_is_soi :: "pkt_state \<Rightarrow> nat \<Rightarrow> bool run" where
  "mpp_packet_is_soi st i = run_bind (get_pkt st i) (\<lambda>p. Inr (bit (pk_status p) 5))"

definition mpp_packet_is_eoi :: "pkt_state \<Rightarrow> nat \<Rightarrow> bool run" where
  "mpp_packet_is_eoi st i =
     run_bind (get_pkt st i) (\<lambda>p. Inr (bit (pk_status p) 6 \<or> pk_flag p AND MPP_PACKET_FLAG_EOI \<noteq> 0))"

definition mpp_packet_set_release :: "pkt_state \<Rightarrow> nat \<Rightarrow> (nat \<times> nat \<times> nat) option \<Rightarrow> pkt_state run" where
  "mpp_packet_set_release st i r = upd_pkt st i (\<lambda>p. p\<lparr>pk_release := r\<rparr>)"

text \<open>The accessors that the macros generate, for the fields data, size, length, pts, dts, flag, task and segment_nb.\<close>

definition mpp_packet_get_field :: "(MppPacketImpl \<Rightarrow> 'a) \<Rightarrow> pkt_state \<Rightarrow> nat \<Rightarrow> 'a run" where
  "mpp_packet_get_field field st i = run_bind (get_pkt st i) (\<lambda>p. Inr (field p))"

definition mpp_packet_set_field :: "(('a \<Rightarrow> 'a) \<Rightarrow> MppPacketImpl \<Rightarrow> MppPacketImpl) \<Rightarrow> pkt_state \<Rightarrow> nat \<Rightarrow> 'a \<Rightarrow> pkt_state run" where
  "mpp_packet_set_field field_update st i v = upd_pkt st i (field_update (\<lambda>_. v))"

section \<open>Data\<close>

definition mpp_packet_read :: "pkt_state \<Rightarrow> nat \<Rightarrow> u64 \<Rightarrow> u64 \<Rightarrow> (mpp_ret \<times> u8 list) run" where
  "mpp_packet_read st i offset n =
     run_bind (get_pkt st i) (\<lambda>p.
       if n = 0 then Inr (MPP_OK, [])
       else run_bind (mem_read (ps_mem st) (pk_data p + offset) (unat n)) (\<lambda>bs. Inr (MPP_OK, bs)))"

definition mpp_packet_write :: "pkt_state \<Rightarrow> nat \<Rightarrow> u64 \<Rightarrow> u8 list \<Rightarrow> (mpp_ret \<times> pkt_state) run" where
  "mpp_packet_write st i offset data =
     run_bind (get_pkt st i) (\<lambda>p.
       if data = [] then Inr (MPP_OK, st)
       else run_bind (mem_write (ps_mem st) (pk_data p + offset) data) (\<lambda>m. Inr (MPP_OK, st\<lparr>ps_mem := m\<rparr>)))"

definition mpp_packet_copy :: "bool \<Rightarrow> pkt_state \<Rightarrow> nat \<Rightarrow> nat \<Rightarrow> (mpp_ret \<times> pkt_state) run" where
  "mpp_packet_copy alloc st dst src =
     run_bind (get_pkt st dst) (\<lambda>d.
     run_bind (get_pkt st src) (\<lambda>s.
     run_bind (mem_copy st (pk_pos d) (pk_pos s) (pk_length s)) (\<lambda>st1.
     run_bind (upd_pkt st1 dst (\<lambda>p. p\<lparr>pk_length := pk_length s\<rparr>)) (\<lambda>st2.
     run_bind (if pk_segment_nb s \<noteq> 0 then mpp_packet_copy_segment_info alloc st2 dst src else Inr st2) (\<lambda>st3.
       Inr (MPP_OK, st3))))))"

text \<open>
  The segments of the source from \<open>segs\<close> on are added behind those of the destination, and the results of
  the calls are not looked at. The loop compares with the count of the source as it is, which grows when
  a packet is appended to itself; so it has fuel.
\<close>

fun append_segments :: "nat \<Rightarrow> (u32 \<Rightarrow> bool) \<Rightarrow> pkt_state \<Rightarrow> nat \<Rightarrow> nat \<Rightarrow> seg_ptr \<Rightarrow> u32 \<Rightarrow> u32 \<Rightarrow> pkt_state run" where
  "append_segments 0 allocs st dst src segs offset k = Inl Out_Of_Fuel"
| "append_segments (Suc fuel) allocs st dst src segs offset k =
     run_bind (get_pkt st src) (\<lambda>s.
       if k < pk_segment_nb s then
         run_bind (seg_get st segs) (\<lambda>g.
         run_bind (mpp_packet_add_segment_info (allocs k) st dst (sg_type g) (sint offset) (sint (sg_len g))) (\<lambda>(ret, st1).
           append_segments fuel allocs st1 dst src (seg_ptr_add segs 1) (offset + sg_len g) (k + 1)))
       else Inr st)"

definition mpp_packet_append :: "nat \<Rightarrow> (u32 \<Rightarrow> bool) \<Rightarrow> pkt_state \<Rightarrow> nat \<Rightarrow> nat \<Rightarrow> (mpp_ret \<times> pkt_state) run" where
  "mpp_packet_append fuel allocs st dst src =
     run_bind (get_pkt st dst) (\<lambda>d.
     run_bind (get_pkt st src) (\<lambda>s.
     run_bind (mem_copy st (pk_pos d + pk_length d) (pk_pos s) (pk_length s)) (\<lambda>st1.
     run_bind
       (if pk_segment_nb s \<noteq> 0 then
          (case pk_segments s of None \<Rightarrow> Inl Null_Deref
           | Some q \<Rightarrow> append_segments fuel allocs st1 dst src q (ucast (pk_length d)) 0)
        else Inr st1) (\<lambda>st2.
     run_bind (get_pkt st2 src) (\<lambda>s.
     run_bind (upd_pkt st2 dst (\<lambda>p. p\<lparr>pk_length := pk_length p + pk_length s\<rparr>)) (\<lambda>st3.
       Inr (MPP_OK, st3)))))))"

end
