(* ===== verification/Mpp_Packet_Segs.thy ===== *)
theory Mpp_Packet_Segs
  imports Mpp_Packet
begin

text \<open>
  The segment lists of packets refine lists of segments: as long as packets are not duplicated by
  \<open>mpp_packet_copy_init\<close>, every packet has an array of its own, in the packet or in a block, whose elements
  are linked in order.
\<close>

lemma set_pkt_simps [simp]:
  "ps_pkts (set_pkt i p st) = (ps_pkts st)(i \<mapsto> p)" "ps_exts (set_pkt i p st) = ps_exts st"
  "ps_new_pkt (set_pkt i p st) = ps_new_pkt st" "ps_new_ext (set_pkt i p st) = ps_new_ext st"
  "ps_mem (set_pkt i p st) = ps_mem st" "get_pkt (set_pkt i p st) i = Inr p"
  by (simp_all add: set_pkt_def get_pkt_def)

section \<open>Arrays\<close>

text \<open>The array that starts at a pointer.\<close>

definition seg_array :: "pkt_state \<Rightarrow> seg_ptr \<Rightarrow> MppPktSeg list option" where
  "seg_array st q =
     (case q of Seg_Def i k \<Rightarrow> map_option pk_segments_def (ps_pkts st i) | Seg_Ext b k \<Rightarrow> ps_exts st b)"

definition set_seg_array :: "seg_ptr \<Rightarrow> MppPktSeg list \<Rightarrow> pkt_state \<Rightarrow> pkt_state" where
  "set_seg_array q xs st =
     (case q of
        Seg_Def i k \<Rightarrow> st\<lparr>ps_pkts := (ps_pkts st)(i := map_option (\<lambda>p. p\<lparr>pk_segments_def := xs\<rparr>) (ps_pkts st i))\<rparr>
      | Seg_Ext b k \<Rightarrow> st\<lparr>ps_exts := (ps_exts st)(b \<mapsto> xs)\<rparr>)"

fun seg_base :: "seg_ptr \<Rightarrow> bool" where
  "seg_base (Seg_Def i k) \<longleftrightarrow> k = 0"
| "seg_base (Seg_Ext b k) \<longleftrightarrow> k = 0"

lemma seg_get_at:
  assumes "seg_base q" and "seg_array st q = Some xs" and "k < length xs"
  shows "seg_get st (seg_ptr_add q k) = Inr (xs ! k)"
  using assms by (cases q) (auto simp: seg_get_def seg_array_def get_pkt_def)

lemma seg_put_at:
  assumes "seg_base q" and "seg_array st q = Some xs" and "k < length xs"
  shows "seg_put st (seg_ptr_add q k) s = Inr (set_seg_array q (xs[k := s]) st)"
  using assms by (cases q) (auto simp: seg_put_def seg_array_def get_pkt_def set_seg_array_def set_pkt_def)

lemma seg_array_set [simp]: "seg_array st q = Some xs \<Longrightarrow> seg_array (set_seg_array q ys st) q = Some ys"
  by (cases q) (auto simp: seg_array_def set_seg_array_def)

lemma set_seg_array_twice [simp]: "set_seg_array q ys (set_seg_array q xs st) = set_seg_array q ys st"
  by (cases q) (simp_all add: set_seg_array_def option.map_comp o_def)

lemma set_seg_array_same: "seg_array st q = Some xs \<Longrightarrow> set_seg_array q xs st = st"
  by (cases q) (auto simp: seg_array_def set_seg_array_def fun_upd_idem)

text \<open>Different arrays.\<close>

fun seg_owner :: "seg_ptr \<Rightarrow> bool \<times> nat" where
  "seg_owner (Seg_Def i k) = (False, i)"
| "seg_owner (Seg_Ext b k) = (True, b)"

lemma seg_array_other: "seg_owner q \<noteq> seg_owner q' \<Longrightarrow> seg_array (set_seg_array q ys st) q' = seg_array st q'"
  by (cases q; cases q') (auto simp: seg_array_def set_seg_array_def)

lemma seg_copy_eq:
  assumes "seg_base q" "seg_base q'" "seg_owner q \<noteq> seg_owner q'"
    and "seg_array st q = Some xs" "seg_array st q' = Some ys" "n \<le> length xs" "n \<le> length ys"
  shows "seg_copy st q q' n = Inr (set_seg_array q (take n ys @ drop n xs) st)"
  using assms(6,7)
proof (induction n)
  case 0
  then show ?case using assms(4) by (simp add: set_seg_array_same)
next
  case (Suc n)
  let ?st = "set_seg_array q (take n ys @ drop n xs) st"
  have "seg_array ?st q' = Some ys"
    using seg_array_other [OF assms(3)] assms(5) by simp
  then have "seg_get ?st (seg_ptr_add q' n) = Inr (ys ! n)"
    using seg_get_at [OF assms(2)] Suc.prems by simp
  moreover have "seg_put ?st (seg_ptr_add q n) (ys ! n) = Inr (set_seg_array q ((take n ys @ drop n xs)[n := ys ! n]) ?st)"
    by (rule seg_put_at [OF assms(1)]) (use assms(4) Suc.prems in simp_all)
  moreover have "(take n ys @ drop n xs)[n := ys ! n] = take (Suc n) ys @ drop (Suc n) xs"
    using Suc.prems by (intro nth_equalityI) (auto simp: nth_list_update nth_append)
  ultimately show ?case
    using Suc by simp
qed

definition link_first :: "seg_ptr \<Rightarrow> nat \<Rightarrow> MppPktSeg list \<Rightarrow> MppPktSeg list" where
  "link_first q n xs = map (\<lambda>k. if k < n then (xs ! k)\<lparr>sg_next := Some (seg_ptr_add q (Suc k))\<rparr> else xs ! k) [0..<length xs]"

lemma length_link_first [simp]: "length (link_first q n xs) = length xs"
  by (simp add: link_first_def)

lemma nth_link_first [simp]: "k < length xs \<Longrightarrow>
    link_first q n xs ! k = (if k < n then (xs ! k)\<lparr>sg_next := Some (seg_ptr_add q (Suc k))\<rparr> else xs ! k)"
  by (simp add: link_first_def)

lemma seg_set_next_at:
  assumes "seg_base q" and "seg_array st q = Some xs" and "k < length xs"
  shows "seg_set_next st (seg_ptr_add q k) n = Inr (set_seg_array q (xs[k := (xs ! k)\<lparr>sg_next := n\<rparr>]) st)"
  using assms by (simp add: seg_set_next_def seg_get_at seg_put_at)

lemma seg_relink_eq:
  assumes "seg_base q" "seg_array st q = Some xs" "n \<le> length xs"
  shows "seg_relink st q n = Inr (set_seg_array q (link_first q n xs) st)"
  using assms(3)
proof (induction n)
  case 0
  have "link_first q 0 xs = xs" by (rule nth_equalityI) simp_all
  then show ?case using assms(2) by (simp add: set_seg_array_same)
next
  case (Suc n)
  let ?ys = "link_first q n xs"
  have "?ys[n := (?ys ! n)\<lparr>sg_next := Some (seg_ptr_add q (Suc n))\<rparr>] = link_first q (Suc n) xs"
    using Suc.prems by (intro nth_equalityI) (auto simp: nth_list_update)
  with Suc assms show ?case
    by (simp add: seg_set_next_at [where xs = ?ys])
qed

section \<open>Representation\<close>

type_synonym seg_info = "int \<times> u32 \<times> u32"

definition seg_elem :: "seg_ptr \<Rightarrow> seg_info list \<Rightarrow> nat \<Rightarrow> MppPktSeg" where
  "seg_elem q xs k = (case xs ! k of (type, off, len) \<Rightarrow>
     \<lparr>sg_index = int k, sg_type = type, sg_offset = off, sg_len = len,
      sg_next = (if Suc k < length xs then Some (seg_ptr_add q (Suc k)) else None)\<rparr>)"

definition seg_rep :: "seg_ptr \<Rightarrow> MppPktSeg list \<Rightarrow> seg_info list \<Rightarrow> bool" where
  "seg_rep q ys xs \<longleftrightarrow> length xs \<le> length ys \<and> (\<forall>k<length xs. ys ! k = seg_elem q xs k)"

text \<open>An array of its own is only kept for at least \<open>lo\<close> segments.\<close>

definition pkt_segs_from :: "nat \<Rightarrow> pkt_state \<Rightarrow> nat \<Rightarrow> MppPacketImpl \<Rightarrow> seg_info list \<Rightarrow> bool" where
  "pkt_segs_from lo st i p xs \<longleftrightarrow>
     unat (pk_segment_nb p) = length xs \<and> length xs < 2 ^ 31 \<and> length (pk_segments_def p) = 8 \<and>
     (case pk_segments_ext p of
        None \<Rightarrow> pk_segment_buf_cnt p = 8 \<and> seg_rep (Seg_Def i 0) (pk_segments_def p) xs \<and>
          (if xs = [] then pk_segments p \<in> {None, Some (Seg_Def i 0)} else pk_segments p = Some (Seg_Def i 0))
      | Some b \<Rightarrow> lo \<le> length xs \<and> pk_segments p = Some (Seg_Ext b 0) \<and>
          (\<exists>ys. ps_exts st b = Some ys \<and> length ys = unat (pk_segment_buf_cnt p) \<and> seg_rep (Seg_Ext b 0) ys xs))"

abbreviation pkt_segs :: "pkt_state \<Rightarrow> nat \<Rightarrow> MppPacketImpl \<Rightarrow> seg_info list \<Rightarrow> bool" where
  "pkt_segs \<equiv> pkt_segs_from 9"

definition pkts_ok :: "pkt_state \<Rightarrow> (nat \<Rightarrow> seg_info list option) \<Rightarrow> bool" where
  "pkts_ok st A \<longleftrightarrow>
     (\<forall>i. A i = None \<longleftrightarrow> ps_pkts st i = None) \<and>
     (\<forall>i p xs. ps_pkts st i = Some p \<longrightarrow> A i = Some xs \<longrightarrow> pkt_segs st i p xs) \<and>
     (\<forall>i j p p' b. ps_pkts st i = Some p \<longrightarrow> ps_pkts st j = Some p' \<longrightarrow>
        pk_segments_ext p = Some b \<longrightarrow> pk_segments_ext p' = Some b \<longrightarrow> i = j) \<and>
     (\<forall>i. ps_pkts st i \<noteq> None \<longrightarrow> i < ps_new_pkt st) \<and> (\<forall>b. ps_exts st b \<noteq> None \<longrightarrow> b < ps_new_ext st)"

lemma pkts_okE:
  assumes "pkts_ok st A" "A i = Some xs"
  obtains p where "ps_pkts st i = Some p" "pkt_segs st i p xs"
  using assms unfolding pkts_ok_def by (metis option.exhaust option.distinct(1))

lemma pkts_okD:
  assumes "pkts_ok st A"
  shows "A i = None \<longleftrightarrow> ps_pkts st i = None"
    and "ps_pkts st i = Some p \<Longrightarrow> A i = Some xs \<Longrightarrow> pkt_segs st i p xs"
    and "ps_pkts st i = Some p \<Longrightarrow> ps_pkts st j = Some p' \<Longrightarrow> pk_segments_ext p = Some b \<Longrightarrow> pk_segments_ext p' = Some b \<Longrightarrow> i = j"
    and "ps_pkts st i \<noteq> None \<Longrightarrow> i < ps_new_pkt st"
    and "ps_exts st b \<noteq> None \<Longrightarrow> b < ps_new_ext st"
  using assms unfolding pkts_ok_def by blast+

lemma pkt_segs_frame: "ps_exts st' = ps_exts st \<Longrightarrow> pkt_segs_from lo st' i p xs = pkt_segs_from lo st i p xs"
  by (simp only: pkt_segs_from_def)

lemma pkt_segs_ext:
  "pkt_segs_from lo st i p xs \<Longrightarrow> pk_segments_ext p = Some b \<Longrightarrow> ps_exts st b \<noteq> None"
  by (auto simp: pkt_segs_from_def)

text \<open>What an operation on packet \<open>i\<close> may change: this packet, its block, and blocks that it allocates.\<close>

definition pkt_ext :: "pkt_state \<Rightarrow> nat \<Rightarrow> nat option" where
  "pkt_ext st i = Option.bind (ps_pkts st i) pk_segments_ext"

definition pkt_step :: "nat \<Rightarrow> pkt_state \<Rightarrow> pkt_state \<Rightarrow> bool" where
  "pkt_step i st st' \<longleftrightarrow>
     (\<exists>p. ps_pkts st' = (ps_pkts st)(i \<mapsto> p)) \<and> ps_new_pkt st \<le> ps_new_pkt st' \<and> ps_new_ext st \<le> ps_new_ext st' \<and>
     (\<forall>b. ps_exts st' b \<noteq> None \<longrightarrow> ps_exts st b \<noteq> None \<or> ps_new_ext st \<le> b \<and> b < ps_new_ext st') \<and>
     (\<forall>b<ps_new_ext st. pkt_ext st i \<noteq> Some b \<longrightarrow> ps_exts st' b = ps_exts st b) \<and>
     (\<forall>b. pkt_ext st' i = Some b \<longrightarrow> ps_new_ext st \<le> b \<or> pkt_ext st i = Some b)"

lemma pkt_step_trans:
  assumes "pkt_step i st st1" and "pkt_step i st1 st2"
  shows "pkt_step i st st2"
proof -
  obtain p1 p2 where p: "ps_pkts st1 = (ps_pkts st)(i \<mapsto> p1)" "ps_pkts st2 = (ps_pkts st1)(i \<mapsto> p2)"
    using assms by (auto simp: pkt_step_def)
  have le: "ps_new_pkt st \<le> ps_new_pkt st1" "ps_new_ext st \<le> ps_new_ext st1" "ps_new_pkt st1 \<le> ps_new_pkt st2"
    "ps_new_ext st1 \<le> ps_new_ext st2"
    using assms by (simp_all add: pkt_step_def)
  have same: "ps_exts st2 b = ps_exts st b" if "b < ps_new_ext st" "pkt_ext st i \<noteq> Some b" for b
  proof -
    have "pkt_ext st1 i \<noteq> Some b" "ps_exts st1 b = ps_exts st b"
      using assms(1) that by (auto simp: pkt_step_def)
    then show ?thesis
      using assms(2) that le(2) by (simp add: pkt_step_def)
  qed
  have "ps_exts st b \<noteq> None \<or> ps_new_ext st \<le> b \<and> b < ps_new_ext st2" if "ps_exts st2 b \<noteq> None" for b
    using assms that le unfolding pkt_step_def by (meson le_trans order_less_le_trans)
  moreover have "ps_new_ext st \<le> b \<or> pkt_ext st i = Some b" if "pkt_ext st2 i = Some b" for b
    using assms that le unfolding pkt_step_def by (meson le_trans)
  ultimately show ?thesis
    using p le same by (auto simp: pkt_step_def)
qed

text \<open>An operation on packet \<open>i\<close> keeps the invariant when the packet represents its new list.\<close>

lemma pkts_ok_step:
  assumes ok: "pkts_ok st A" and step: "pkt_step i st st'" and new: "i < ps_new_pkt st'"
    and p': "ps_pkts st' i = Some p'" "pkt_segs st' i p' xs"
  shows "pkts_ok st' (A(i \<mapsto> xs))"
proof -
  note D = pkts_okD [OF ok]
  have pk: "ps_pkts st' = (ps_pkts st)(i \<mapsto> p')"
    using step p'(1) by (auto simp: pkt_step_def)
  have ext: "pkt_ext st j = Some b \<longleftrightarrow> (\<exists>p. ps_pkts st j = Some p \<and> pk_segments_ext p = Some b)" for j b
    by (simp add: pkt_ext_def bind_eq_Some_conv)
  have other: "pkt_segs st' j p ys" if j: "j \<noteq> i" "ps_pkts st j = Some p" "A j = Some ys" for j p ys
  proof -
    have s: "pkt_segs st j p ys"
      using D(2) j by blast
    have "ps_exts st' b = ps_exts st b" if b: "pk_segments_ext p = Some b" for b
    proof -
      have "b < ps_new_ext st"
        using D(5) pkt_segs_ext [OF s b] by blast
      moreover have "pkt_ext st i \<noteq> Some b"
        using D(3) [OF j(2) _ b] j(1) by (auto simp: ext)
      ultimately show ?thesis
        using step by (simp add: pkt_step_def)
    qed
    with s show ?thesis
      by (auto simp: pkt_segs_from_def split: option.splits)
  qed
  have share: "j = i" if j: "ps_pkts st j = Some p" "pk_segments_ext p = Some b" "pk_segments_ext p' = Some b" for j p b
  proof -
    obtain ys where "A j = Some ys"
      using D(1) [of j] j(1) by fastforce
    then have "b < ps_new_ext st"
      using D(5) pkt_segs_ext [OF D(2) [OF j(1)] j(2)] by blast
    moreover have "pkt_ext st' i = Some b"
      using p'(1) j(3) by (simp add: pkt_ext_def)
    ultimately have "pkt_ext st i = Some b"
      using step by (meson leD pkt_step_def)
    then show ?thesis
      using D(3) [OF j(1)] j(2) by (auto simp: ext)
  qed
  show ?thesis
    unfolding pkts_ok_def
  proof (intro conjI allI impI)
    show "j = k" if "ps_pkts st' j = Some q" "ps_pkts st' k = Some q'" "pk_segments_ext q = Some b" "pk_segments_ext q' = Some b"
      for j k q q' b
      using that share D(3) by (auto simp: pk split: if_splits)
    show "j < ps_new_pkt st'" if "ps_pkts st' j \<noteq> None" for j
      using that D(4) [of j] new step by (cases "j = i") (auto simp: pk pkt_step_def)
    show "b < ps_new_ext st'" if "ps_exts st' b \<noteq> None" for b
      using that D(5) [of b] step by (auto simp: pkt_step_def)
  qed (use p' D(1) other in \<open>auto simp: pk split: if_splits\<close>)
qed

section \<open>The operations\<close>

lemma seg_rep_cong: "seg_rep q ys xs \<Longrightarrow> length xs \<le> length zs \<Longrightarrow> (\<And>k. k < length xs \<Longrightarrow> zs ! k = ys ! k) \<Longrightarrow> seg_rep q zs xs"
  by (simp add: seg_rep_def)

lemma seg_rep_relink:
  assumes "seg_rep q0 ys xs" and "length xs \<le> length zs" and "\<And>k. k < length xs \<Longrightarrow> zs ! k = ys ! k"
  shows "seg_rep q (link_first q (length xs - 1) zs) xs"
proof -
  have "link_first q (length xs - 1) zs ! k = seg_elem q xs k" if "k < length xs" for k
    using that assms by (auto simp: seg_rep_def seg_elem_def split: prod.split)
  with assms(2) show ?thesis by (simp add: seg_rep_def)
qed

lemma seg_rep_snoc:
  assumes rep: "seg_rep q ys xs" and room: "length xs < length ys"
    and zs: "zs = ys[length xs := seg_elem q (xs @ [x]) (length xs)]"
  shows "seg_rep q (if xs = [] then zs
     else zs[length xs - 1 := (zs ! (length xs - 1))\<lparr>sg_next := Some (seg_ptr_add q (length xs))\<rparr>]) (xs @ [x])"
    (is "seg_rep q ?zs _")
proof -
  have "?zs ! k = seg_elem q (xs @ [x]) k" if "k < Suc (length xs)" for k
    using that rep room by (auto simp: zs seg_rep_def seg_elem_def nth_list_update nth_append split: prod.split)
  with room show ?thesis by (simp add: seg_rep_def zs)
qed

lemma add_at_ok:
  assumes "seg_base q" "seg_array st q = Some ys" "seg_rep q ys xs" "length xs < length ys"
  obtains zs where "length zs = length ys" "seg_rep q zs (xs @ [x])"
    "run_bind (seg_put st (seg_ptr_add q (length xs)) (seg_elem q (xs @ [x]) (length xs))) (\<lambda>st1.
      if xs \<noteq> [] then seg_set_next st1 (seg_ptr_add q (length xs - 1)) (Some (seg_ptr_add q (length xs))) else Inr st1)
      = Inr (set_seg_array q zs st)"
proof -
  let ?zs = "ys[length xs := seg_elem q (xs @ [x]) (length xs)]"
  let ?ws = "if xs = [] then ?zs else ?zs[length xs - 1 := (?zs ! (length xs - 1))\<lparr>sg_next := Some (seg_ptr_add q (length xs))\<rparr>]"
  have "seg_set_next (set_seg_array q ?zs st) (seg_ptr_add q (length xs - 1)) (Some (seg_ptr_add q (length xs)))
      = Inr (set_seg_array q ?ws st)" if "xs \<noteq> []"
    using assms that by (subst seg_set_next_at [where xs = ?zs]) (simp_all add: less_imp_diff_less)
  then show ?thesis
    using that [of ?ws] seg_put_at [OF assms(1,2,4)] seg_rep_snoc [OF assms(3,4) refl, of x] by simp
qed

text \<open>What an operation on the segments leaves alone.\<close>

definition pkt_data :: "pkt_state \<Rightarrow> nat \<Rightarrow> (u64 \<times> u64 \<times> u64 \<times> u64 \<times> u32 \<times> nat option) option" where
  "pkt_data st i = map_option (\<lambda>p. (pk_data p, pk_pos p, pk_size p, pk_length p, pk_flag p, pk_buffer p)) (ps_pkts st i)"

definition same_data :: "pkt_state \<Rightarrow> pkt_state \<Rightarrow> bool" where
  "same_data st st' \<longleftrightarrow> ps_mem st' = ps_mem st \<and> pkt_data st' = pkt_data st"

lemma same_data_refl [simp]: "same_data st st"
  by (simp add: same_data_def)

lemma same_data_trans: "same_data st st1 \<Longrightarrow> same_data st1 st2 \<Longrightarrow> same_data st st2"
  by (simp add: same_data_def)

lemma pkt_segs_array:
  assumes "pkt_segs_from lo st i p xs" "ps_pkts st i = Some p" "pk_segments p = Some q"
  obtains ys where "seg_base q" "seg_array st q = Some ys" "seg_rep q ys xs" "length ys = unat (pk_segment_buf_cnt p)"
    "q = (case pk_segments_ext p of None \<Rightarrow> Seg_Def i 0 | Some b \<Rightarrow> Seg_Ext b 0)"
proof (cases "pk_segments_ext p")
  case None
  then show ?thesis
    using assms that [of "pk_segments_def p"] by (auto simp: pkt_segs_from_def seg_array_def split: if_splits)
next
  case (Some b)
  then obtain ys where "ps_exts st b = Some ys" "length ys = unat (pk_segment_buf_cnt p)" "seg_rep (Seg_Ext b 0) ys xs"
      "q = Seg_Ext b 0"
    using assms by (auto simp: pkt_segs_from_def)
  with Some show ?thesis
    using that [of ys] by (simp add: seg_array_def)
qed

lemma unat_Suc_small: "unat (n :: u32) < 2 ^ 31 \<Longrightarrow> unat (n + 1) = Suc (unat n)"
  by (subst unat_add_lem [THEN iffD1]) simp_all

lemma sint_unat_small: "unat (n :: u32) < 2 ^ 31 \<Longrightarrow> sint n = int (unat n)"
  using sint_of_nat_small [of "unat n"] by simp

lemma store_segment_ok:
  assumes s: "pkt_segs_from 8 st i p xs" and p: "ps_pkts st i = Some p" "pk_segments p = Some q"
    and room: "pk_segment_nb p < pk_segment_buf_cnt p" and small: "length xs < 2 ^ 30"
  shows "\<exists>st' p'. store_segment st i q type off len = Inr st' \<and> pkt_step i st st' \<and> same_data st st' \<and>
    ps_pkts st' i = Some p' \<and> pkt_segs st' i p' (xs @ [(type, word_of_int off, word_of_int len)])"
proof -
  let ?x = "(type, word_of_int off, word_of_int len) :: seg_info"
  obtain ys where ys: "seg_base q" "seg_array st q = Some ys" "seg_rep q ys xs" "length ys = unat (pk_segment_buf_cnt p)"
    "q = (case pk_segments_ext p of None \<Rightarrow> Seg_Def i 0 | Some b \<Rightarrow> Seg_Ext b 0)"
    by (rule pkt_segs_array [OF s p])
  have n: "unat (pk_segment_nb p) = length xs" "pk_segment_nb p \<noteq> 0 \<longleftrightarrow> xs \<noteq> []"
    using s by (auto simp: pkt_segs_from_def simp flip: unat_eq_zero)
  have idx: "sint (pk_segment_nb p) = int (length xs)"
    using sint_unat_small [of "pk_segment_nb p"] n small by simp
  have nb1: "unat (pk_segment_nb p + 1) = Suc (length xs)"
    using unat_Suc_small [of "pk_segment_nb p"] n small by simp
  have lt: "length xs < length ys"
    using room n(1) ys(4) by (simp add: word_less_nat_alt)
  obtain zs where zs: "length zs = length ys" "seg_rep q zs (xs @ [?x])"
    "run_bind (seg_put st (seg_ptr_add q (length xs)) (seg_elem q (xs @ [?x]) (length xs))) (\<lambda>st1.
      if xs \<noteq> [] then seg_set_next st1 (seg_ptr_add q (length xs - 1)) (Some (seg_ptr_add q (length xs))) else Inr st1)
      = Inr (set_seg_array q zs st)"
    by (rule add_at_ok [OF ys(1-3) lt])
  let ?p = "case pk_segments_ext p of None \<Rightarrow> p\<lparr>pk_segments_def := zs, pk_segment_nb := pk_segment_nb p + 1\<rparr>
    | Some b \<Rightarrow> p\<lparr>pk_segment_nb := pk_segment_nb p + 1\<rparr>"
  let ?st = "set_pkt i ?p (set_seg_array q zs st)"
  have "store_segment st i q type off len = run_bind (Inr (set_seg_array q zs st)) (\<lambda>st2.
      upd_pkt st2 i (\<lambda>p. p\<lparr>pk_segment_nb := pk_segment_nb p + 1\<rparr>))"
    unfolding zs(3) [symmetric] run_bind_assoc
    using p(1) n idx by (simp add: store_segment_def get_pkt_def Let_def seg_elem_def cong: if_cong)
  also have "\<dots> = Inr ?st"
    using p(1) ys(5) by (auto simp: upd_pkt_def get_pkt_def set_seg_array_def set_pkt_def split: option.splits)
  finally have run: "store_segment st i q type off len = Inr ?st" .
  have st: "ps_pkts ?st = (ps_pkts st)(i \<mapsto> ?p)" "ps_new_pkt ?st = ps_new_pkt st" "ps_new_ext ?st = ps_new_ext st"
    "ps_exts ?st = (case pk_segments_ext p of None \<Rightarrow> ps_exts st | Some b \<Rightarrow> (ps_exts st)(b \<mapsto> zs))"
    using ys(5) by (auto simp: set_pkt_def set_seg_array_def split: option.splits)
  have "pkt_segs ?st i ?p (xs @ [?x])"
    using s zs(1,2) ys(4,5) nb1 small st(4) lt p(2) by (auto simp: pkt_segs_from_def split: option.splits if_splits)
  moreover have "pkt_step i st ?st"
    unfolding pkt_step_def pkt_ext_def st using p(1) pkt_segs_ext [OF s] by (auto split: option.splits)
  moreover have "same_data st ?st"
    using p(1) ys(5) by (auto simp: same_data_def pkt_data_def st(1) set_pkt_def set_seg_array_def split: option.splits)
  ultimately show ?thesis
    using run st(1) by auto
qed

lemma unat_pred: "0 < unat (n :: u32) \<Longrightarrow> unat (n - 1) = unat n - 1"
  by (subst unat_sub) (simp_all add: word_le_nat_alt)

lemma unat_twice: "unat (n :: u32) < 2 ^ 31 \<Longrightarrow> unat (n * 2) = unat n * 2"
  by (subst unat_mult_lem [THEN iffD1]) simp_all

text \<open>Both ways to get a bigger block leave the segments in it, followed by room for as many again.\<close>

lemma bigger_block_ok:
  assumes s: "pkt_segs st i p xs" and p: "ps_pkts st i = Some p"
    and full: "pk_segment_buf_cnt p \<le> pk_segment_nb p" and small: "length xs < 2 ^ 30"
  obtains zs q ys where
    "(case pk_segments_ext p of
        None \<Rightarrow>
          (let (b, st1) = seg_calloc st (pk_segment_buf_cnt p * 2)
           in run_bind (seg_copy st1 (Seg_Ext b 0) (Seg_Def i 0) 8) (\<lambda>st2. Inr (b, st2)))
      | Some e \<Rightarrow> seg_realloc st e (pk_segment_buf_cnt p * 2))
     = Inr (ps_new_ext st, st\<lparr>ps_exts := (case pk_segments_ext p of None \<Rightarrow> ps_exts st | Some e \<Rightarrow> (ps_exts st)(e := None))
         (ps_new_ext st \<mapsto> zs), ps_new_ext := Suc (ps_new_ext st)\<rparr>)"
    "length zs = 2 * length xs" "seg_rep q ys xs" "\<And>k. k < length xs \<Longrightarrow> zs ! k = ys ! k"
    "unat (pk_segment_buf_cnt p) = length xs" "8 \<le> length xs"
proof (cases "pk_segments_ext p")
  case None
  have len: "length xs = 8" "pk_segment_buf_cnt p = 8" "length (pk_segments_def p) = 8" "seg_rep (Seg_Def i 0) (pk_segments_def p) xs"
    using s None full by (auto simp: pkt_segs_from_def word_le_nat_alt seg_rep_def)
  let ?st = "st\<lparr>ps_exts := (ps_exts st)(ps_new_ext st \<mapsto> replicate 16 seg_zero), ps_new_ext := Suc (ps_new_ext st)\<rparr>"
  have "seg_copy ?st (Seg_Ext (ps_new_ext st) 0) (Seg_Def i 0) 8
      = Inr (set_seg_array (Seg_Ext (ps_new_ext st) 0) (take 8 (pk_segments_def p) @ drop 8 (replicate 16 seg_zero)) ?st)"
    by (rule seg_copy_eq) (use p len in \<open>simp_all add: seg_array_def\<close>)
  then show ?thesis
    using that [of "take 8 (pk_segments_def p) @ drop 8 (replicate 16 seg_zero)"] len None
    by (simp add: seg_calloc_def set_seg_array_def nth_append)
next
  case (Some e)
  obtain ys where ys: "ps_exts st e = Some ys" "length ys = unat (pk_segment_buf_cnt p)" "seg_rep (Seg_Ext e 0) ys xs" "9 \<le> length xs"
    using s Some by (auto simp: pkt_segs_from_def)
  have len: "unat (pk_segment_buf_cnt p) = length xs"
    using s full ys(2,3) by (auto simp: pkt_segs_from_def word_le_nat_alt seg_rep_def)
  have "unat (pk_segment_buf_cnt p * 2) = length xs * 2"
    using unat_twice [of "pk_segment_buf_cnt p"] len small by simp
  then show ?thesis
    using that [of "ys @ replicate (length xs) (ps_junk st)"] ys len Some by (simp add: seg_realloc_def nth_append)
qed

lemma grow_segments_ok:
  assumes s: "pkt_segs st i p xs" and p: "ps_pkts st i = Some p"
    and full: "pk_segment_buf_cnt p \<le> pk_segment_nb p" and small: "length xs < 2 ^ 30"
    and new: "\<forall>b. ps_exts st b \<noteq> None \<longrightarrow> b < ps_new_ext st"
  shows "\<exists>q st' p'. grow_segments True st i = Inr (Some (q, st')) \<and> pkt_step i st st' \<and> same_data st st' \<and>
    ps_pkts st' i = Some p' \<and> pk_segments p' = Some q \<and> pk_segment_nb p' < pk_segment_buf_cnt p' \<and> pkt_segs_from 8 st' i p' xs"
proof -
  let ?b = "ps_new_ext st" and ?cnt = "pk_segment_buf_cnt p * 2"
  let ?q = "Seg_Ext ?b 0"
  let ?exts = "case pk_segments_ext p of None \<Rightarrow> ps_exts st | Some e \<Rightarrow> (ps_exts st)(e := None)"
  obtain zs q ys where b: "(case pk_segments_ext p of
        None \<Rightarrow>
          (let (b, st1) = seg_calloc st ?cnt
           in run_bind (seg_copy st1 (Seg_Ext b 0) (Seg_Def i 0) 8) (\<lambda>st2. Inr (b, st2)))
      | Some e \<Rightarrow> seg_realloc st e ?cnt)
     = Inr (?b, st\<lparr>ps_exts := ?exts(?b \<mapsto> zs), ps_new_ext := Suc ?b\<rparr>)"
    and zs: "length zs = 2 * length xs" "seg_rep q ys xs" "\<And>k. k < length xs \<Longrightarrow> zs ! k = ys ! k"
    and cnt: "unat (pk_segment_buf_cnt p) = length xs" "8 \<le> length xs"
    using bigger_block_ok [OF s p full small] by blast
  have nb: "unat (pk_segment_nb p) = length xs" "unat (pk_segment_nb p - 1) = length xs - 1" "unat ?cnt = 2 * length xs"
    using s cnt small unat_pred [of "pk_segment_nb p"] unat_twice [of "pk_segment_buf_cnt p"] by (simp_all add: pkt_segs_from_def flip: length_greater_0_conv)
  let ?zs = "link_first ?q (length xs - 1) zs"
  let ?p = "p\<lparr>pk_segments_ext := Some ?b, pk_segments := Some ?q, pk_segment_buf_cnt := ?cnt\<rparr>"
  let ?st = "set_pkt i ?p (st\<lparr>ps_exts := ?exts(?b \<mapsto> ?zs), ps_new_ext := Suc ?b\<rparr>)"
  have "seg_relink (st\<lparr>ps_exts := ?exts(?b \<mapsto> zs), ps_new_ext := Suc ?b\<rparr>) ?q (length xs - 1)
      = Inr (set_seg_array ?q ?zs (st\<lparr>ps_exts := ?exts(?b \<mapsto> zs), ps_new_ext := Suc ?b\<rparr>))"
    by (rule seg_relink_eq) (use zs(1) in \<open>simp_all add: seg_array_def\<close>)
  then have run: "grow_segments True st i = Inr (Some (?q, ?st))"
    using p b nb(2) by (simp add: grow_segments_def get_pkt_def Let_def upd_pkt_def set_seg_array_def set_pkt_def)
  have rep: "seg_rep ?q ?zs xs"
    by (rule seg_rep_relink [OF zs(2) _ zs(3)]) (simp_all add: zs(1))
  have old: "e < ?b" if "pk_segments_ext p = Some e" for e
    using new pkt_segs_ext [OF s that] by blast
  have "pkt_segs_from 8 ?st i ?p xs"
    using s rep zs(1) nb cnt(2) by (auto simp: pkt_segs_from_def)
  moreover have "pkt_step i st ?st"
    using p new old by (auto simp: pkt_step_def pkt_ext_def split: option.splits if_splits)
  moreover have "same_data st ?st"
    using p by (auto simp: same_data_def pkt_data_def)
  moreover have "pk_segment_nb ?p < pk_segment_buf_cnt ?p"
    using nb cnt by (auto simp: word_less_nat_alt)
  ultimately show ?thesis
    using run by (intro exI [of _ ?q] exI [of _ ?st] exI [of _ ?p]) simp
qed

lemma pkt_step_refl: "ps_pkts st i = Some p \<Longrightarrow> pkt_step i st st"
  by (auto simp: pkt_step_def intro!: exI [of _ p] fun_upd_idem [symmetric])

lemma add_segment_ok:
  assumes ok: "pkts_ok st A" and A: "A i = Some xs" and small: "length xs < 2 ^ 30"
  shows "\<exists>ret st'. mpp_packet_add_segment_info alloc st i type off len = Inr (ret, st') \<and> same_data st st' \<and>
    (ret = MPP_OK \<and> pkt_step i st st' \<and> pkts_ok st' (A(i \<mapsto> xs @ [(type, word_of_int off, word_of_int len)])) \<or>
     ret = MPP_NOK \<and> st' = st \<and> \<not> alloc)"
proof -
  obtain p where p: "ps_pkts st i = Some p" and s: "pkt_segs st i p xs"
    by (rule pkts_okE [OF ok A])
  note D = pkts_okD(4,5) [OF ok]
  let ?full = "pk_segment_nb p \<ge> pk_segment_buf_cnt p"
  let ?array = "if ?full then grow_segments alloc st i
     else case pk_segments p of
         None \<Rightarrow> run_bind (upd_pkt st i (\<lambda>p. p\<lparr>pk_segments := Some (Seg_Def i 0)\<rparr>)) (\<lambda>st1. Inr (Some (Seg_Def i 0, st1)))
       | Some s \<Rightarrow> Inr (Some (s, st))"
  have s8: "pkt_segs_from 8 st i p xs"
    using s by (auto simp: pkt_segs_from_def split: option.splits)
  show ?thesis
  proof (cases "?full \<and> \<not> alloc")
    case True
    then have "mpp_packet_add_segment_info alloc st i type off len = Inr (MPP_NOK, st)"
      using p by (simp add: mpp_packet_add_segment_info_def grow_segments_def get_pkt_def Let_def)
    with True show ?thesis by simp
  next
    case False
    have "\<exists>q st1 p1. ?array = Inr (Some (q, st1)) \<and> pkt_step i st st1 \<and> same_data st st1 \<and> ps_pkts st1 i = Some p1 \<and>
        pk_segments p1 = Some q \<and> pk_segment_nb p1 < pk_segment_buf_cnt p1 \<and> pkt_segs_from 8 st1 i p1 xs"
    proof (cases ?full)
      case True
      then show ?thesis
        using grow_segments_ok [OF s p True small] False D(2) by auto
    next
      case room: False
      show ?thesis
      proof (cases "pk_segments p")
        case None
        let ?p = "p\<lparr>pk_segments := Some (Seg_Def i 0)\<rparr>"
        have "pkt_segs_from 8 (set_pkt i ?p st) i ?p xs"
          using s8 None by (auto simp: pkt_segs_from_def split: option.splits if_splits)
        moreover have "pkt_step i st (set_pkt i ?p st)"
          using p by (auto simp: pkt_step_def pkt_ext_def)
        moreover have "same_data st (set_pkt i ?p st)"
          using p by (auto simp: same_data_def pkt_data_def)
        ultimately show ?thesis
          using room None p by (auto simp: upd_pkt_def get_pkt_def not_le)
      next
        case (Some q)
        then show ?thesis
          using room p s8 pkt_step_refl [OF p] by auto
      qed
    qed
    then obtain q st1 p1 where 1: "?array = Inr (Some (q, st1))" "pkt_step i st st1" "same_data st st1" "ps_pkts st1 i = Some p1"
        "pk_segments p1 = Some q" "pk_segment_nb p1 < pk_segment_buf_cnt p1" "pkt_segs_from 8 st1 i p1 xs"
      by blast
    obtain st2 p2 where 2: "store_segment st1 i q type off len = Inr st2" "pkt_step i st1 st2" "same_data st1 st2"
        "ps_pkts st2 i = Some p2" "pkt_segs st2 i p2 (xs @ [(type, word_of_int off, word_of_int len)])"
      using store_segment_ok [OF 1(7,4,5,6) small] by blast
    have "i < ps_new_pkt st2"
      using D(1) [of i] p 1(2) 2(2) by (simp add: pkt_step_def)
    then have "pkts_ok st2 (A(i \<mapsto> xs @ [(type, word_of_int off, word_of_int len)]))"
      using pkts_ok_step [OF ok pkt_step_trans [OF 1(2) 2(2)] _ 2(4,5)] by simp
    moreover have "mpp_packet_add_segment_info alloc st i type off len = Inr (MPP_OK, st2)"
      using p 1(1) 2(1) by (simp add: mpp_packet_add_segment_info_def get_pkt_def del: not_le)
    ultimately show ?thesis
      using same_data_trans [OF 1(3) 2(3)] pkt_step_trans [OF 1(2) 2(2)] by blast
  qed
qed

lemma reset_segment_ok:
  assumes p: "ps_pkts st i = Some p" and own: "\<And>b. pk_segments_ext p = Some b \<Longrightarrow> ps_exts st b \<noteq> None"
  shows "\<exists>st' p'. mpp_packet_reset_segment st i = Inr st' \<and> pkt_step i st st' \<and> same_data st st' \<and>
    ps_pkts st' i = Some p' \<and> pkt_segs st' i p' [] \<and>
    p' = p\<lparr>pk_segment_nb := 0, pk_segment_buf_cnt := MPP_PKT_SEG_CNT_DEFAULT,
      pk_segments_def := replicate 8 seg_zero, pk_segments := None, pk_segments_ext := None\<rparr>"
proof -
  let ?p = "p\<lparr>pk_segment_nb := 0, pk_segment_buf_cnt := MPP_PKT_SEG_CNT_DEFAULT,
      pk_segments_def := replicate 8 seg_zero, pk_segments := None, pk_segments_ext := None\<rparr>"
  let ?exts = "case pk_segments_ext p of None \<Rightarrow> ps_exts st | Some b \<Rightarrow> (ps_exts st)(b := None)"
  let ?st = "set_pkt i ?p (st\<lparr>ps_exts := ?exts\<rparr>)"
  have "mpp_packet_reset_segment st i = Inr ?st"
    using p own by (auto simp: mpp_packet_reset_segment_def get_pkt_def seg_free_def upd_pkt_def set_pkt_def split: option.splits)
  moreover have "pkt_step i st ?st"
    using p by (auto simp: pkt_step_def pkt_ext_def split: option.splits if_splits)
  moreover have "same_data st ?st"
    using p by (auto simp: same_data_def pkt_data_def)
  moreover have "pkt_segs ?st i ?p []"
    by (simp add: pkt_segs_from_def seg_rep_def)
  ultimately show ?thesis
    by (intro exI [of _ ?st] exI [of _ ?p]) simp
qed

text \<open>A packet with its array \<open>zs\<close>, whose new contents and count make it represent a list.\<close>

definition holds_array :: "pkt_state \<Rightarrow> nat \<Rightarrow> MppPacketImpl \<Rightarrow> seg_ptr \<Rightarrow> MppPktSeg list \<Rightarrow> bool" where
  "holds_array st i p q zs \<longleftrightarrow>
     ps_pkts st i = Some p \<and> length (pk_segments_def p) = 8 \<and>
     (case pk_segments_ext p of
        None \<Rightarrow> q = Seg_Def i 0 \<and> pk_segment_buf_cnt p = 8 \<and> zs = pk_segments_def p
      | Some b \<Rightarrow> q = Seg_Ext b 0 \<and> ps_exts st b = Some zs \<and> length zs = unat (pk_segment_buf_cnt p))"

text \<open>Updates of a packet that agree on it.\<close>

lemma upd_pkt_cong: "(\<And>p. ps_pkts st i = Some p \<Longrightarrow> f p = g p) \<Longrightarrow> upd_pkt st i f = upd_pkt st i g"
  by (cases "ps_pkts st i") (simp_all add: upd_pkt_def get_pkt_def)

lemma set_segments_same: "pk_segments p = s \<Longrightarrow> p\<lparr>pk_segment_nb := n, pk_segments := s\<rparr> = p\<lparr>pk_segment_nb := n\<rparr>"
  by (cases p) simp

lemma set_nb_same: "pk_segment_nb p = n \<Longrightarrow> p\<lparr>pk_segment_nb := n, pk_segments := s\<rparr> = p\<lparr>pk_segments := s\<rparr>"
  by (cases p) simp

lemma holds_array_pkt:
  assumes "holds_array st i p q zs" and "ps_pkts (set_seg_array q ws st) i = Some p'"
  shows "pk_segments p' = pk_segments p \<and> pk_segment_nb p' = pk_segment_nb p"
  using assms by (auto simp: holds_array_def set_seg_array_def split: option.splits)

lemma holds_array_base: "holds_array st i p q zs \<Longrightarrow> seg_base q \<and> seg_array st q = Some zs"
  by (auto simp: holds_array_def seg_array_def split: option.splits)

lemma holds_array_step:
  assumes h: "holds_array st i p q zs" and rep: "seg_rep q ws xs" "length ws = length zs"
    and n: "unat n = length xs" "xs \<noteq> []" "length xs < 2 ^ 31" "pk_segments_ext p \<noteq> None \<longrightarrow> 9 \<le> length xs"
  shows "\<exists>st' p'. upd_pkt (set_seg_array q ws st) i (\<lambda>p. p\<lparr>pk_segment_nb := n, pk_segments := Some q\<rparr>) = Inr st' \<and>
    pkt_step i st st' \<and> same_data st st' \<and> ps_pkts st' i = Some p' \<and> pkt_segs st' i p' xs"
proof -
  have p: "ps_pkts st i = Some p"
    using h by (simp add: holds_array_def)
  let ?p = "case pk_segments_ext p of None \<Rightarrow> p\<lparr>pk_segments_def := ws, pk_segment_nb := n, pk_segments := Some q\<rparr>
    | Some b \<Rightarrow> p\<lparr>pk_segment_nb := n, pk_segments := Some q\<rparr>"
  let ?st = "set_pkt i ?p (set_seg_array q ws st)"
  have run: "upd_pkt (set_seg_array q ws st) i (\<lambda>p. p\<lparr>pk_segment_nb := n, pk_segments := Some q\<rparr>) = Inr ?st"
    using h by (auto simp: holds_array_def upd_pkt_def get_pkt_def set_seg_array_def set_pkt_def split: option.splits)
  have st: "ps_pkts ?st = (ps_pkts st)(i \<mapsto> ?p)" "ps_new_pkt ?st = ps_new_pkt st" "ps_new_ext ?st = ps_new_ext st"
    "ps_exts ?st = (case pk_segments_ext p of None \<Rightarrow> ps_exts st | Some b \<Rightarrow> (ps_exts st)(b \<mapsto> ws))"
    "ps_mem ?st = ps_mem st"
    using h by (auto simp: holds_array_def set_pkt_def set_seg_array_def split: option.splits)
  have "pkt_segs ?st i ?p xs"
    using h rep n unfolding pkt_segs_from_def st by (auto simp: holds_array_def split: option.splits)
  moreover have "pkt_step i st ?st"
    unfolding pkt_step_def pkt_ext_def st using h by (auto simp: holds_array_def split: option.splits)
  moreover have "same_data st ?st"
    unfolding same_data_def pkt_data_def st using p by (auto split: option.splits)
  ultimately show ?thesis
    using run st(1) by auto
qed

lemma seg_rep_take:
  assumes "seg_rep q0 ys xs" and "0 < m" "m \<le> length xs" "m \<le> length zs" and "\<And>k. k < m \<Longrightarrow> zs ! k = ys ! k"
  shows "seg_rep q ((link_first q (m - 1) zs)[m - 1 := (link_first q (m - 1) zs ! (m - 1))\<lparr>sg_next := None\<rparr>]) (take m xs)"
proof -
  have "(link_first q (m - 1) zs)[m - 1 := (link_first q (m - 1) zs ! (m - 1))\<lparr>sg_next := None\<rparr>] ! k = seg_elem q (take m xs) k"
    if "k < m" for k
    using that assms by (auto simp: seg_rep_def seg_elem_def nth_list_update split: prod.split)
  with assms show ?thesis by (simp add: seg_rep_def)
qed

lemma segs_to_def_ok:
  assumes s: "pkt_segs st i p xs" and p: "ps_pkts st i = Some p" "pk_segments p = Some segs"
    and n: "unat n < length xs"
  shows "\<exists>q st1 p1 zs ys. (if n \<le> MPP_PKT_SEG_CNT_DEFAULT then segs_to_def st i segs n else Inr (segs, st)) = Inr (q, st1) \<and>
    pkt_step i st st1 \<and> same_data st st1 \<and> holds_array st1 i p1 q zs \<and> pk_segments p1 = Some q \<and>
    (pk_segments_ext p1 \<noteq> None \<longrightarrow> 9 \<le> unat n) \<and> seg_rep segs ys xs \<and> unat n \<le> length zs \<and> (\<forall>k<unat n. zs ! k = ys ! k)"
proof -
  obtain ys where ys: "seg_base segs" "seg_array st segs = Some ys" "seg_rep segs ys xs" "length ys = unat (pk_segment_buf_cnt p)"
    "segs = (case pk_segments_ext p of None \<Rightarrow> Seg_Def i 0 | Some b \<Rightarrow> Seg_Ext b 0)"
    by (rule pkt_segs_array [OF s p])
  have len: "unat n < length ys" "length (pk_segments_def p) = 8"
    using n ys(3) s by (auto simp: seg_rep_def pkt_segs_from_def)
  have n8: "n \<le> MPP_PKT_SEG_CNT_DEFAULT \<longleftrightarrow> unat n \<le> 8"
    by (simp add: word_le_nat_alt)
  show ?thesis
  proof (cases "pk_segments_ext p")
    case None
    have l8: "length xs \<le> 8" "length ys = 8" "pk_segment_buf_cnt p = 8"
      using s None ys len by (auto simp: pkt_segs_from_def seg_array_def seg_rep_def p)
    then have "(if n \<le> MPP_PKT_SEG_CNT_DEFAULT then segs_to_def st i segs n else Inr (segs, st)) = Inr (segs, st)"
      using n8 n None p by (simp add: segs_to_def_def get_pkt_def upd_pkt_def set_pkt_def fun_upd_idem)
    moreover have "holds_array st i p segs ys"
      using None p ys(2,5) len l8 by (simp add: holds_array_def seg_array_def)
    ultimately show ?thesis
      using pkt_step_refl [OF p(1)] p(2) ys(3) len(1) None
      by (intro exI [of _ segs] exI [of _ st] exI [of _ p] exI [of _ ys]) auto
  next
    case (Some b)
    have b: "segs = Seg_Ext b 0" "ps_exts st b = Some ys"
      using Some ys(2,5) by (simp_all add: seg_array_def)
    show ?thesis
    proof (cases "unat n \<le> 8")
      case True
      let ?zs = "take (unat n) ys @ drop (unat n) (pk_segments_def p)"
      let ?p = "p\<lparr>pk_segments_def := ?zs, pk_segments := Some (Seg_Def i 0), pk_segments_ext := None,
        pk_segment_buf_cnt := MPP_PKT_SEG_CNT_DEFAULT\<rparr>"
      let ?st = "set_pkt i ?p (st\<lparr>ps_exts := (ps_exts st)(b := None)\<rparr>)"
      have "seg_copy st (Seg_Def i 0) segs (unat n) = Inr (set_seg_array (Seg_Def i 0) ?zs st)"
        by (rule seg_copy_eq) (use p True len b in \<open>simp_all add: seg_array_def\<close>)
      then have "segs_to_def st i segs n = Inr (Seg_Def i 0, ?st)"
        using p Some b by (simp add: segs_to_def_def get_pkt_def upd_pkt_def set_pkt_def set_seg_array_def seg_free_def)
      moreover have "holds_array ?st i ?p (Seg_Def i 0) ?zs"
        using True len by (simp add: holds_array_def)
      moreover have "pkt_step i st ?st"
        using p Some by (auto simp: pkt_step_def pkt_ext_def)
      moreover have "same_data st ?st"
        using p by (auto simp: same_data_def pkt_data_def)
      moreover have "\<forall>k<unat n. ?zs ! k = ys ! k"
        using len by (simp add: nth_append)
      ultimately show ?thesis
        using True n8 len ys(3)
        by (intro exI [of _ "Seg_Def i 0"] exI [of _ ?st] exI [of _ ?p] exI [of _ ?zs] exI [of _ ys]) simp
    next
      case False
      then have "(if n \<le> MPP_PKT_SEG_CNT_DEFAULT then segs_to_def st i segs n else Inr (segs, st)) = Inr (segs, st)"
        using n8 by simp
      moreover have "holds_array st i p segs ys"
        using Some p b ys(4) len by (simp add: holds_array_def)
      ultimately show ?thesis
        using pkt_step_refl [OF p(1)] p(2) ys(3) len(1) False
        by (intro exI [of _ segs] exI [of _ st] exI [of _ p] exI [of _ ys]) auto
    qed
  qed
qed

lemma set_segment_nb_ok:
  assumes ok: "pkts_ok st A" and A: "A i = Some xs"
  shows "\<exists>st'. mpp_packet_set_segment_nb st i n = Inr st' \<and> pkts_ok st' (A(i \<mapsto> take (unat n) xs)) \<and> same_data st st'"
proof -
  obtain p where p: "ps_pkts st i = Some p" and s: "pkt_segs st i p xs"
    by (rule pkts_okE [OF ok A])
  have len: "unat (pk_segment_nb p) = length xs" "length xs < 2 ^ 31"
    using s by (auto simp: pkt_segs_from_def)
  have new: "i < ps_new_pkt st'" if "pkt_step i st st'" for st'
    using pkts_okD(4) [OF ok, of i] p that by (simp add: pkt_step_def)
  consider "pk_segments p = None \<or> length xs \<le> unat n" | q where "pk_segments p = Some q" "unat n < length xs" "n = 0"
    | q where "pk_segments p = Some q" "unat n < length xs" "n \<noteq> 0"
    by (meson not_None_eq not_le)
  then show ?thesis
  proof cases
    case 1
    then have "take (unat n) xs = xs"
      using s by (auto simp: pkt_segs_from_def split: option.splits if_splits)
    moreover have "mpp_packet_set_segment_nb st i n = Inr st"
      using 1 p len by (auto simp: mpp_packet_set_segment_nb_def get_pkt_def word_le_nat_alt split: option.splits)
    ultimately show ?thesis
      using ok A by (simp add: fun_upd_idem)
  next
    case 2
    obtain st' p' where r: "mpp_packet_reset_segment st i = Inr st'" "pkt_step i st st'" "same_data st st'"
        "ps_pkts st' i = Some p'" "pkt_segs st' i p' []"
      using reset_segment_ok [OF p] pkt_segs_ext [OF s] by blast
    have "mpp_packet_set_segment_nb st i n = Inr st'"
      using 2 p len r(1) by (simp add: mpp_packet_set_segment_nb_def get_pkt_def word_le_nat_alt)
    with pkts_ok_step [OF ok r(2) new [OF r(2)] r(4,5)] r(3) 2 show ?thesis
      by simp
  next
    case (3 segs)
    have "nat (sint n - 1) = unat n - 1"
      using 3 len sint_unat_small [of n] by linarith
    then have n: "0 < unat n" "unat (n - 1) = unat n - 1" "nat (sint n - 1) = unat n - 1"
      using 3 unat_pred [of n] by (simp_all add: unat_gt_0)
    obtain q st1 p1 zs ys where 1: "(if n \<le> MPP_PKT_SEG_CNT_DEFAULT then segs_to_def st i segs n else Inr (segs, st)) = Inr (q, st1)"
        "pkt_step i st st1" "same_data st st1" "holds_array st1 i p1 q zs" "pk_segments p1 = Some q"
        "pk_segments_ext p1 \<noteq> None \<longrightarrow> 9 \<le> unat n" "seg_rep segs ys xs" "unat n \<le> length zs" "\<And>k. k < unat n \<Longrightarrow> zs ! k = ys ! k"
      using segs_to_def_ok [OF s p 3(1,2)] by blast
    note base = holds_array_base [OF 1(4)]
    let ?ls = "link_first q (unat n - 1) zs"
    let ?ws = "?ls[unat n - 1 := (?ls ! (unat n - 1))\<lparr>sg_next := None\<rparr>]"
    have rep: "seg_rep q ?ws (take (unat n) xs)" "unat n = length (take (unat n) xs)" "take (unat n) xs \<noteq> []"
      "length (take (unat n) xs) < 2 ^ 31" "pk_segments_ext p1 \<noteq> None \<longrightarrow> 9 \<le> length (take (unat n) xs)"
      using seg_rep_take [OF 1(7) n(1) _ 1(8,9)] 3 1(6) n(1) len(2) by auto
    have "seg_relink st1 q (unat n - 1) = Inr (set_seg_array q ?ls st1)"
      by (rule seg_relink_eq) (use base 1(8) in simp_all)
    moreover have "seg_set_next (set_seg_array q ?ls st1) (seg_ptr_add q (unat n - 1)) None = Inr (set_seg_array q ?ws st1)"
      using base 1(8) n(1) by (subst seg_set_next_at [where xs = ?ls]) simp_all
    moreover obtain st' p' where 2: "upd_pkt (set_seg_array q ?ws st1) i (\<lambda>p. p\<lparr>pk_segment_nb := n, pk_segments := Some q\<rparr>) = Inr st'"
        "pkt_step i st1 st'" "same_data st1 st'" "ps_pkts st' i = Some p'" "pkt_segs st' i p' (take (unat n) xs)"
      using holds_array_step [OF 1(4) rep(1) _ rep(2-5)] by auto
    moreover have "upd_pkt (set_seg_array q ?ws st1) i (\<lambda>p. p\<lparr>pk_segment_nb := n\<rparr>)
        = upd_pkt (set_seg_array q ?ws st1) i (\<lambda>p. p\<lparr>pk_segment_nb := n, pk_segments := Some q\<rparr>)"
      by (rule upd_pkt_cong) (use 1(5) holds_array_pkt [OF 1(4)] in \<open>simp add: set_segments_same\<close>)
    ultimately have "mpp_packet_set_segment_nb st i n = Inr st'"
      using 3 p len 1(1) n by (simp add: mpp_packet_set_segment_nb_def get_pkt_def word_le_nat_alt)
    moreover have "pkts_ok st' (A(i \<mapsto> take (unat n) xs))"
      by (rule pkts_ok_step [OF ok pkt_step_trans [OF 1(2) 2(2)] new [OF pkt_step_trans [OF 1(2) 2(2)]] 2(4,5)])
    ultimately show ?thesis
      using same_data_trans [OF 1(3) 2(3)] by blast
  qed
qed

text \<open>Copying the segments of another packet: first the array that receives them.\<close>

definition copy_target :: "bool \<Rightarrow> pkt_state \<Rightarrow> nat \<Rightarrow> MppPacketImpl \<Rightarrow> (seg_ptr \<times> pkt_state) run" where
  "copy_target alloc st dst s =
     (if pk_segment_nb s \<le> MPP_PKT_SEG_CNT_DEFAULT then Inr (Seg_Def dst 0, st)
      else if \<not> alloc then Inl Null_Deref
      else
        (let (b, st2) = seg_calloc st (pk_segment_buf_cnt s)
         in run_bind (upd_pkt st2 dst (\<lambda>p. p\<lparr>pk_segments_ext := Some b\<rparr>)) (\<lambda>st3. Inr (Seg_Ext b 0, st3))))"

lemma copy_target_ok:
  assumes s: "pkt_segs st src sp ys" "ps_pkts st src = Some sp" "pk_segments sp = Some q'" "dst \<noteq> src"
    and p: "ps_pkts st dst = Some p" "pk_segments_def p = replicate 8 seg_zero" "pk_segments_ext p = None"
    and cnt: "pk_segment_nb p = pk_segment_nb sp" "pk_segment_buf_cnt p = pk_segment_buf_cnt sp"
    and new: "\<forall>b. ps_exts st b \<noteq> None \<longrightarrow> b < ps_new_ext st" and alloc: "alloc \<or> length ys \<le> 8"
  shows "\<exists>q st2 p2 zs. copy_target alloc st dst sp = Inr (q, st2) \<and> pkt_step dst st st2 \<and> same_data st st2 \<and>
     holds_array st2 dst p2 q zs \<and> (pk_segments_ext p2 \<noteq> None \<longrightarrow> 9 \<le> length ys) \<and> length ys \<le> length zs \<and>
     pk_segment_nb p2 = pk_segment_nb sp \<and> seg_array st2 q' = seg_array st q' \<and> seg_owner q \<noteq> seg_owner q'"
proof -
  have len: "unat (pk_segment_nb sp) = length ys" "pk_segment_nb sp \<le> MPP_PKT_SEG_CNT_DEFAULT \<longleftrightarrow> length ys \<le> 8"
    using s(1) by (auto simp: pkt_segs_from_def word_le_nat_alt)
  show ?thesis
  proof (cases "length ys \<le> 8")
    case True
    then have "pk_segments_ext sp = None" "q' = Seg_Def src 0" "pk_segment_buf_cnt sp = 8"
      using s(1,3) by (auto simp: pkt_segs_from_def split: option.splits if_splits)
    then show ?thesis
      using True len p cnt s(4) pkt_step_refl [OF p(1)]
      by (intro exI [of _ "Seg_Def dst 0"] exI [of _ st] exI [of _ p] exI [of _ "replicate 8 seg_zero"])
        (simp add: copy_target_def holds_array_def)
  next
    case False
    then obtain b zs where b: "pk_segments_ext sp = Some b" "q' = Seg_Ext b 0" "ps_exts st b = Some zs"
        "length zs = unat (pk_segment_buf_cnt sp)" "seg_rep q' zs ys"
      using s(1,3) by (auto simp: pkt_segs_from_def seg_rep_def split: option.splits)
    let ?b = "ps_new_ext st" and ?zs = "replicate (unat (pk_segment_buf_cnt sp)) seg_zero"
    let ?p = "p\<lparr>pk_segments_ext := Some ?b\<rparr>"
    let ?st = "set_pkt dst ?p (st\<lparr>ps_exts := (ps_exts st)(?b \<mapsto> ?zs), ps_new_ext := Suc ?b\<rparr>)"
    have "b < ?b"
      using new b(3) by blast
    moreover have "copy_target alloc st dst sp = Inr (Seg_Ext ?b 0, ?st)"
      using False len alloc p(1) by (simp add: copy_target_def seg_calloc_def upd_pkt_def get_pkt_def set_pkt_def)
    moreover have "pkt_step dst st ?st"
      using p(1,3) by (auto simp: pkt_step_def pkt_ext_def split: if_splits)
    moreover have "same_data st ?st"
      using p(1) by (auto simp: same_data_def pkt_data_def)
    moreover have "holds_array ?st dst ?p (Seg_Ext ?b 0) ?zs"
      using p(2) cnt(2) by (simp add: holds_array_def)
    moreover have "length ys \<le> length ?zs"
      using b(4,5) by (simp add: seg_rep_def)
    ultimately show ?thesis
      using False b cnt(1)
      by (intro exI [of _ "Seg_Ext ?b 0"] exI [of _ ?st] exI [of _ ?p] exI [of _ ?zs]) (simp add: seg_array_def)
  qed
qed

lemma copy_segment_info_ok:
  assumes ok: "pkts_ok st A" and A: "A dst = Some xs" "A src = Some ys" and alloc: "alloc \<or> length ys \<le> 8"
  shows "\<exists>st'. mpp_packet_copy_segment_info alloc st dst src = Inr st' \<and>
    pkts_ok st' (A(dst \<mapsto> if dst = src then [] else ys)) \<and> same_data st st'"
proof -
  obtain p where p: "ps_pkts st dst = Some p" and s: "pkt_segs st dst p xs"
    by (rule pkts_okE [OF ok A(1)])
  obtain st1 p1 where r: "mpp_packet_reset_segment st dst = Inr st1" "pkt_step dst st st1" "same_data st st1"
      "ps_pkts st1 dst = Some p1" "pkt_segs st1 dst p1 []"
      "p1 = p\<lparr>pk_segment_nb := 0, pk_segment_buf_cnt := MPP_PKT_SEG_CNT_DEFAULT,
        pk_segments_def := replicate 8 seg_zero, pk_segments := None, pk_segments_ext := None\<rparr>"
    using reset_segment_ok [OF p] pkt_segs_ext [OF s] by blast
  have new: "dst < ps_new_pkt st'" if "pkt_step dst st st'" for st'
    using pkts_okD(4) [OF ok, of dst] p that by (simp add: pkt_step_def)
  have ok1: "pkts_ok st1 (A(dst \<mapsto> []))"
    by (rule pkts_ok_step [OF ok r(2) new [OF r(2)] r(4,5)])
  show ?thesis
  proof (cases "dst = src \<or> ys = []")
    case True
    obtain sp where sp: "ps_pkts st1 src = Some sp" "pk_segment_nb sp = 0"
    proof (cases "dst = src")
      case True
      with r(4,6) that show ?thesis by simp
    next
      case False
      with \<open>dst = src \<or> ys = []\<close> A(2) have "(A(dst \<mapsto> [])) src = Some []" by simp
      from pkts_okE [OF ok1 this] that show ?thesis
        by (auto simp: pkt_segs_from_def simp flip: unat_eq_zero)
    qed
    have "mpp_packet_copy_segment_info alloc st dst src = Inr st1"
      using r(1) sp by (simp add: mpp_packet_copy_segment_info_def get_pkt_def)
    with ok1 r(3) True show ?thesis by auto
  next
    case False
    then have "(A(dst \<mapsto> [])) src = Some ys"
      using A(2) by simp
    then obtain sp where sp: "ps_pkts st1 src = Some sp" "pkt_segs st1 src sp ys"
      by (rule pkts_okE [OF ok1])
    obtain q' where q': "pk_segments sp = Some q'"
      using sp(2) False by (auto simp: pkt_segs_from_def split: option.splits)
    obtain zs' where src: "seg_base q'" "seg_array st1 q' = Some zs'" "seg_rep q' zs' ys"
      "q' = (case pk_segments_ext sp of None \<Rightarrow> Seg_Def src 0 | Some b \<Rightarrow> Seg_Ext b 0)"
      by (rule pkt_segs_array [OF sp(2,1) q'])
    have len: "unat (pk_segment_nb sp) = length ys" "length ys < 2 ^ 31" "0 < length ys"
      using sp(2) False by (auto simp: pkt_segs_from_def)
    then have n: "pk_segment_nb sp \<noteq> 0" "unat (pk_segment_nb sp - 1) = length ys - 1"
      using unat_pred [of "pk_segment_nb sp"] by (auto simp flip: unat_eq_zero)
    let ?p = "p1\<lparr>pk_segment_nb := pk_segment_nb sp, pk_segment_buf_cnt := pk_segment_buf_cnt sp\<rparr>"
    let ?st = "set_pkt dst ?p st1"
    have 1: "upd_pkt st1 dst (\<lambda>p. p\<lparr>pk_segment_nb := pk_segment_nb sp, pk_segment_buf_cnt := pk_segment_buf_cnt sp\<rparr>) = Inr ?st"
      "pkt_step dst st1 ?st" "same_data st1 ?st"
      using r(4) by (auto simp: upd_pkt_def get_pkt_def pkt_step_def pkt_ext_def same_data_def pkt_data_def)
    have arr: "seg_array ?st q' = Some zs'"
      using src(2,4) False by (cases "pk_segments_ext sp") (simp_all add: seg_array_def)
    have pre: "pkt_segs ?st src sp ys" "ps_pkts ?st src = Some sp" "dst \<noteq> src" "ps_pkts ?st dst = Some ?p"
      "pk_segments_def ?p = replicate 8 seg_zero" "pk_segments_ext ?p = None"
      "\<forall>b. ps_exts ?st b \<noteq> None \<longrightarrow> b < ps_new_ext ?st"
      using sp False r(6) pkts_okD(5) [OF ok1] pkt_segs_frame [of ?st st1] by simp_all
    obtain q st2 p2 zs where 2: "copy_target alloc ?st dst sp = Inr (q, st2)" "pkt_step dst ?st st2" "same_data ?st st2"
        "holds_array st2 dst p2 q zs" "pk_segments_ext p2 \<noteq> None \<longrightarrow> 9 \<le> length ys" "length ys \<le> length zs"
        "pk_segment_nb p2 = pk_segment_nb sp" "seg_array st2 q' = Some zs'" "seg_owner q \<noteq> seg_owner q'"
      using copy_target_ok [OF pre(1,2) q' pre(3-6) _ _ pre(7) alloc, unfolded arr] by auto
    note base = holds_array_base [OF 2(4)]
    let ?zs = "take (length ys) zs' @ drop (length ys) zs"
    let ?ws = "link_first q (length ys - 1) ?zs"
    have l': "length ys \<le> length zs'" "length ?zs = length zs"
      using src(3) 2(6) by (simp_all add: seg_rep_def)
    have "seg_copy st2 q q' (length ys) = Inr (set_seg_array q ?zs st2)"
      by (rule seg_copy_eq) (use base src(1) 2(6,8,9) l'(1) in simp_all)
    moreover have "seg_relink (set_seg_array q ?zs st2) q (length ys - 1) = Inr (set_seg_array q ?ws st2)"
      using base l' 2(6) by (subst seg_relink_eq [where xs = ?zs]) simp_all
    moreover have "seg_rep q ?ws ys"
      by (rule seg_rep_relink [OF src(3)]) (use l' 2(6) in \<open>simp_all add: nth_append\<close>)
    then obtain st' p' where 3: "upd_pkt (set_seg_array q ?ws st2) dst (\<lambda>p. p\<lparr>pk_segment_nb := pk_segment_nb sp, pk_segments := Some q\<rparr>) = Inr st'"
        "pkt_step dst st2 st'" "same_data st2 st'" "ps_pkts st' dst = Some p'" "pkt_segs st' dst p' ys"
      using holds_array_step [OF 2(4), of ?ws ys "pk_segment_nb sp"] 2(5) len False l'(2) by auto
    moreover have "upd_pkt (set_seg_array q ?ws st2) dst (\<lambda>p. p\<lparr>pk_segments := Some q\<rparr>)
        = upd_pkt (set_seg_array q ?ws st2) dst (\<lambda>p. p\<lparr>pk_segment_nb := pk_segment_nb sp, pk_segments := Some q\<rparr>)"
      by (rule upd_pkt_cong) (use 2(7) holds_array_pkt [OF 2(4)] in \<open>simp add: set_nb_same\<close>)
    ultimately have "mpp_packet_copy_segment_info alloc st dst src = Inr st'"
      using r(1) sp(1) q' 1(1) 2(1) len n
      by (simp add: mpp_packet_copy_segment_info_def get_pkt_def copy_target_def)
    moreover have step: "pkt_step dst st st'"
      by (rule pkt_step_trans [OF r(2) pkt_step_trans [OF 1(2) pkt_step_trans [OF 2(2) 3(2)]]])
    moreover have "pkts_ok st' (A(dst \<mapsto> ys))"
      by (rule pkts_ok_step [OF ok step new [OF step] 3(4,5)])
    moreover have "same_data st st'"
      by (rule same_data_trans [OF r(3) same_data_trans [OF 1(3) same_data_trans [OF 2(3) 3(3)]]])
    ultimately show ?thesis
      using False by auto
  qed
qed

end
