(* ===== verification/Mpp_Packet_Props.thy ===== *)
theory Mpp_Packet_Props
  imports Mpp_Packet_Segs
begin

text \<open>
  The packets of a program that does not duplicate them: the segments of every packet, read through the
  pointers, are the ones that were put in. What appending does to data and segments, and what goes wrong
  with the copies of \<open>mpp_packet_copy_init\<close>.
\<close>

section \<open>The remaining operations\<close>

definition keeps_segments :: "(MppPacketImpl \<Rightarrow> MppPacketImpl) \<Rightarrow> bool" where
  "keeps_segments f \<longleftrightarrow> (\<forall>p. pk_segment_nb (f p) = pk_segment_nb p \<and> pk_segment_buf_cnt (f p) = pk_segment_buf_cnt p \<and>
     pk_segments_def (f p) = pk_segments_def p \<and> pk_segments_ext (f p) = pk_segments_ext p \<and>
     pk_segments (f p) = pk_segments p)"

lemma upd_other_ok:
  assumes ok: "pkts_ok st A" and f: "keeps_segments f" and run: "upd_pkt st i f = Inr st'"
  shows "pkts_ok st' A"
proof -
  obtain p where p: "ps_pkts st i = Some p" and st': "st' = set_pkt i (f p) st"
    using run by (auto simp: upd_pkt_def get_pkt_def run_bind_Inr_iff split: option.splits)
  obtain xs where A: "A i = Some xs"
    using pkts_okD(1) [OF ok, of i] p by fastforce
  have "pkts_ok st' (A(i \<mapsto> xs))"
  proof (rule pkts_ok_step [OF ok])
    show "pkt_step i st st'"
      using f p by (auto simp: st' pkt_step_def pkt_ext_def keeps_segments_def)
    show "i < ps_new_pkt st'"
      using pkts_okD(4) [OF ok, of i] p by (simp add: st')
    show "pkt_segs st' i (f p) xs"
      using pkts_okD(2) [OF ok p A] f by (simp only: st' pkt_segs_from_def keeps_segments_def set_pkt_simps)
  qed (simp add: st')
  with A show ?thesis by (simp add: fun_upd_idem)
qed

lemma pkts_ok_cong:
  assumes "pkts_ok st A" and "ps_pkts st' = ps_pkts st" "ps_exts st' = ps_exts st" "ps_new_pkt st' = ps_new_pkt st"
    "ps_new_ext st' = ps_new_ext st"
  shows "pkts_ok st' A"
  using assms pkt_segs_frame [OF assms(3)] by (simp add: pkts_ok_def)

lemma new_packet_ok:
  assumes ok: "pkts_ok st A"
  shows "\<exists>st'. mpp_packet_new True st = (MPP_OK, Some (ps_new_pkt st), st') \<and>
    pkts_ok st' (A(ps_new_pkt st \<mapsto> [])) \<and> ps_mem st' = ps_mem st"
proof -
  let ?i = "ps_new_pkt st"
  have none: "ps_pkts st ?i = None"
    using pkts_okD(4) [OF ok, of ?i] by (cases "ps_pkts st ?i") auto
  let ?p = "packet_zero\<lparr>pk_segment_buf_cnt := MPP_PKT_SEG_CNT_DEFAULT\<rparr>"
  let ?st = "set_pkt ?i ?p (st\<lparr>ps_new_pkt := Suc ?i\<rparr>)"
  have "pkts_ok ?st (A(?i \<mapsto> []))"
    by (rule pkts_ok_step [OF ok])
      (auto simp: pkt_step_def pkt_ext_def none pkt_segs_from_def seg_rep_def packet_zero_def)
  then show ?thesis by (simp add: mpp_packet_new_def)
qed

lemma packet_init_ok:
  assumes ok: "pkts_ok st A" and run: "mpp_packet_init True st data sz = Inr (ret, Some i, st')"
  shows "i = ps_new_pkt st \<and> pkts_ok st' (A(i \<mapsto> []))"
proof -
  obtain st1 where "mpp_packet_new True st = (MPP_OK, Some (ps_new_pkt st), st1)" "pkts_ok st1 (A(ps_new_pkt st \<mapsto> []))"
    using new_packet_ok [OF ok] by blast
  moreover from this run have "i = ps_new_pkt st"
      "upd_pkt st1 i (\<lambda>p. p\<lparr>pk_data := data, pk_pos := data, pk_size := sz, pk_length := sz\<rparr>) = Inr st'"
    by (auto simp: mpp_packet_init_def run_bind_Inr_iff)
  moreover have "keeps_segments (\<lambda>p. p\<lparr>pk_data := data, pk_pos := data, pk_size := sz, pk_length := sz\<rparr>)"
    by (simp add: keeps_segments_def)
  ultimately show ?thesis
    using upd_other_ok by blast
qed

lemma packet_init_buffer_ok:
  assumes ok: "pkts_ok st A" and run: "mpp_packet_init_with_buffer True st (Some buf) = Inr (ret, Some i, st')"
  shows "pkts_ok st' (A(i \<mapsto> []))"
proof -
  obtain b ptr sz where buf: "buf = (b, ptr, sz)"
    by (cases buf)
  obtain st1 where st1: "mpp_packet_new True st = (MPP_OK, Some (ps_new_pkt st), st1)" "pkts_ok st1 (A(ps_new_pkt st \<mapsto> []))"
    using new_packet_ok [OF ok] by blast
  let ?f = "\<lambda>p. p\<lparr>pk_data := ptr, pk_pos := ptr, pk_size := sz, pk_length := sz, pk_buffer := Some b\<rparr>"
  obtain st2 where st2: "upd_pkt st1 i ?f = Inr st2" "i = ps_new_pkt st"
      "st' = st2\<lparr>ps_refs := snd (frame_buffer_inc_ref (Some b) (ps_refs st2))\<rparr>"
    using run st1(1) by (auto simp: mpp_packet_init_with_buffer_def buf run_bind_Inr_iff)
  have "pkts_ok st2 (A(i \<mapsto> []))"
    by (rule upd_other_ok [OF _ _ st2(1)]) (use st1(2) st2(2) in \<open>simp_all add: keeps_segments_def\<close>)
  then show ?thesis
    by (rule pkts_ok_cong) (simp_all add: st2(3))
qed

lemma set_buffer_ok:
  assumes ok: "pkts_ok st A" and run: "mpp_packet_set_buffer st i b = Inr st'"
  shows "pkts_ok st' A"
proof -
  obtain p where p: "ps_pkts st i = Some p"
    using run by (auto simp: mpp_packet_set_buffer_def get_pkt_def run_bind_Inr_iff split: option.splits)
  have "upd_pkt st i (\<lambda>p. p\<lparr>pk_buffer := b\<rparr>) = Inr (set_pkt i (p\<lparr>pk_buffer := b\<rparr>) st)"
    using p by (simp add: upd_pkt_def get_pkt_def)
  then have "pkts_ok (set_pkt i (p\<lparr>pk_buffer := b\<rparr>) st) A"
    by (rule upd_other_ok [OF ok, rotated]) (simp add: keeps_segments_def)
  then have "pkts_ok (set_pkt i (p\<lparr>pk_buffer := b\<rparr>) (st\<lparr>ps_refs := r\<rparr>)) A" for r
    by (rule pkts_ok_cong) simp_all
  with ok p run show ?thesis
    by (auto simp: mpp_packet_set_buffer_def get_pkt_def Let_def split: if_splits)
qed

lemma get_meta_ok:
  assumes ok: "pkts_ok st A" and run: "mpp_packet_get_meta m st i = Inr (meta, st')"
  shows "pkts_ok st' A"
proof -
  obtain p where p: "ps_pkts st i = Some p"
    using run by (auto simp: mpp_packet_get_meta_def get_pkt_def run_bind_Inr_iff split: option.splits)
  have "upd_pkt st i (\<lambda>p. p\<lparr>pk_meta := m\<rparr>) = Inr (set_pkt i (p\<lparr>pk_meta := m\<rparr>) st)"
    using p by (simp add: upd_pkt_def get_pkt_def)
  then have "pkts_ok (set_pkt i (p\<lparr>pk_meta := m\<rparr>) st) A"
    by (rule upd_other_ok [OF ok, rotated]) (simp add: keeps_segments_def)
  then have "pkts_ok (set_pkt i (p\<lparr>pk_meta := m\<rparr>) (st\<lparr>ps_refs := r\<rparr>)) A"
    "pkts_ok (set_pkt i (p\<lparr>pk_meta := m\<rparr>) st) A" for r
    by (rule pkts_ok_cong; simp)+
  with ok p run show ?thesis
    by (auto simp: mpp_packet_get_meta_def get_pkt_def split: if_splits option.splits)
qed

lemma packet_reset_ok:
  assumes ok: "pkts_ok st A" and run: "mpp_packet_reset st i = Inr (ret, st')"
  shows "pkts_ok st' (A(i \<mapsto> []))"
proof -
  obtain p where p: "ps_pkts st i = Some p"
    using run by (auto simp: mpp_packet_reset_def get_pkt_def run_bind_Inr_iff split: option.splits)
  let ?p = "packet_zero\<lparr>pk_data := pk_data p, pk_pos := pk_data p, pk_size := pk_size p\<rparr>"
  let ?st = "set_pkt i ?p st"
  obtain p' where r: "pkt_step i ?st st'" "ps_pkts st' i = Some p'" "pkt_segs st' i p' []"
    using reset_segment_ok [of ?st i ?p] run p
    by (auto simp: mpp_packet_reset_def get_pkt_def run_bind_Inr_iff packet_zero_def)
  have "pkt_step i st ?st"
    using p by (auto simp: pkt_step_def pkt_ext_def packet_zero_def)
  then have step: "pkt_step i st st'"
    using pkt_step_trans r(1) by blast
  moreover have "i < ps_new_pkt st'"
    using step pkts_okD(4) [OF ok, of i] p by (simp add: pkt_step_def)
  ultimately show ?thesis
    using pkts_ok_step [OF ok] r(2,3) by blast
qed

lemma packet_reset_segment_ok:
  assumes ok: "pkts_ok st A" and run: "mpp_packet_reset_segment st i = Inr st'"
  shows "pkts_ok st' (A(i \<mapsto> []))"
proof -
  obtain p where p: "ps_pkts st i = Some p"
    using run by (auto simp: mpp_packet_reset_segment_def get_pkt_def run_bind_Inr_iff split: option.splits)
  obtain xs where "A i = Some xs"
    using pkts_okD(1) [OF ok, of i] p by fastforce
  then have "ps_exts st b \<noteq> None" if "pk_segments_ext p = Some b" for b
    using pkt_segs_ext [OF pkts_okD(2) [OF ok p] that] by blast
  then obtain p' where r: "pkt_step i st st'" "ps_pkts st' i = Some p'" "pkt_segs st' i p' []"
    using reset_segment_ok [OF p] run by auto
  moreover have "i < ps_new_pkt st'"
    using r(1) pkts_okD(4) [OF ok, of i] p by (simp add: pkt_step_def)
  ultimately show ?thesis
    using pkts_ok_step [OF ok] by blast
qed

lemma mem_free_frame:
  assumes "mem_free st a = Inr st'"
  shows "ps_pkts st' = ps_pkts st \<and> ps_exts st' = ps_exts st \<and> ps_new_pkt st' = ps_new_pkt st \<and> ps_new_ext st' = ps_new_ext st"
  using assms by (auto simp: mem_free_def split: if_splits option.splits)

lemma deinit_frame:
  assumes run: "mpp_packet_deinit st i = Inr (ret, st')"
  obtains p where "ps_pkts st i = Some p" "ps_pkts st' = (ps_pkts st)(i := None)" "ps_new_pkt st' = ps_new_pkt st"
    "ps_new_ext st' = ps_new_ext st"
    "ps_exts st' = (case pk_segments_ext p of None \<Rightarrow> ps_exts st | Some b \<Rightarrow> (ps_exts st)(b := None))"
proof -
  obtain p where p: "ps_pkts st i = Some p"
    using run by (auto simp: mpp_packet_deinit_def get_pkt_def split: option.splits)
  let ?same = "\<lambda>s. ps_pkts s = ps_pkts st \<and> ps_exts s = ps_exts st \<and> ps_new_pkt s = ps_new_pkt st \<and> ps_new_ext s = ps_new_ext st"
  let ?st1 = "if pk_buffer p \<noteq> None then st\<lparr>ps_refs := snd (frame_buffer_put (pk_buffer p) (ps_refs st))\<rparr> else st"
  obtain st2 st4 where
    2: "(if pk_flag p AND MPP_PACKET_FLAG_INTERNAL \<noteq> 0 then mem_free ?st1 (pk_data p) else Inr ?st1) = Inr st2" and
    4: "seg_free (if pk_meta p \<noteq> None then st2\<lparr>ps_refs := mpp_meta_put (pk_meta p) (ps_refs st2)\<rparr> else st2) (pk_segments_ext p) = Inr st4" and
    5: "st' = (let st5 = (case pk_release p of None \<Rightarrow> st4 | Some r \<Rightarrow> st4\<lparr>ps_released := ps_released st4 @ [r]\<rparr>)
      in st5\<lparr>ps_pkts := (ps_pkts st5)(i := None)\<rparr>)"
    using run p unfolding mpp_packet_deinit_def get_pkt_def Let_def by (auto simp: run_bind_Inr_iff)
  have "?same ?st1"
    by simp
  with 2 have "?same st2"
    using mem_free_frame [of ?st1 "pk_data p" st2] by (metis sum.inject(2))
  then have "ps_pkts st4 = ps_pkts st \<and> ps_new_pkt st4 = ps_new_pkt st \<and> ps_new_ext st4 = ps_new_ext st \<and>
      ps_exts st4 = (case pk_segments_ext p of None \<Rightarrow> ps_exts st | Some b \<Rightarrow> (ps_exts st)(b := None))"
    using 4 by (auto simp: seg_free_def split: option.splits if_splits)
  then show ?thesis
    using that [OF p] 5 by (simp add: Let_def split: option.split)
qed

lemma deinit_ok:
  assumes ok: "pkts_ok st A" and run: "mpp_packet_deinit st i = Inr (ret, st')"
  shows "pkts_ok st' (A(i := None))"
proof -
  obtain p where p: "ps_pkts st i = Some p" and st': "ps_pkts st' = (ps_pkts st)(i := None)"
    "ps_new_pkt st' = ps_new_pkt st" "ps_new_ext st' = ps_new_ext st"
    "ps_exts st' = (case pk_segments_ext p of None \<Rightarrow> ps_exts st | Some b \<Rightarrow> (ps_exts st)(b := None))"
    by (rule deinit_frame [OF run])
  have other: "pkt_segs st' j q xs" if "ps_pkts st j = Some q" "A j = Some xs" "j \<noteq> i" for j q xs
  proof -
    note s = pkts_okD(2) [OF ok that(1,2)]
    have "ps_exts st' b = ps_exts st b" if "pk_segments_ext q = Some b" for b
      using pkts_okD(3) [OF ok \<open>ps_pkts st j = Some q\<close> p that] \<open>j \<noteq> i\<close> by (auto simp: st' split: option.splits)
    with s show ?thesis
      by (auto simp: pkt_segs_from_def split: option.splits)
  qed
  show ?thesis
    unfolding pkts_ok_def
    using pkts_okD [OF ok] other by (auto simp: st' split: if_splits option.splits)
qed

section \<open>Appending\<close>

lemma mem_read_iff: "mem_read m a n = Inr bs \<longleftrightarrow> length bs = n \<and> (\<forall>k<n. m (a + of_nat k) = Some (bs ! k))"
proof (induction n arbitrary: a bs)
  case (Suc n)
  show ?case
  proof (cases bs)
    case (Cons b bs')
    have "(\<forall>k<Suc n. m (a + of_nat k) = Some (bs ! k)) \<longleftrightarrow> m a = Some b \<and> (\<forall>k<n. m (a + 1 + of_nat k) = Some (bs' ! k))"
      unfolding Cons by (subst All_less_Suc2) (simp add: ac_simps)
    then show ?thesis
      using Suc.IH [of "a + 1" bs'] Cons by (auto simp: run_bind_Inr_iff split: option.split)
  qed (auto simp: run_bind_Inr_iff split: option.split)
qed auto

lemma mem_write_ok:
  assumes "length bs \<le> 2 ^ 64" and "\<forall>k<length bs. m (a + of_nat k) \<noteq> None"
  shows "mem_write m a bs = Inr (\<lambda>x. if unat (x - a) < length bs then Some (bs ! unat (x - a)) else m x)"
  using assms
proof (induction bs arbitrary: m a)
  case (Cons b bs)
  have step: "unat (x - (a + 1)) = unat (x - a) - 1" if "x \<noteq> a" for x :: u64
    by (subst diff_diff_eq [symmetric], subst unat_sub) (use that in \<open>simp_all add: word_le_nat_alt unat_gt_0 Suc_le_eq\<close>)
  have "mem_write m a (b # bs) = mem_write (m(a \<mapsto> b)) (a + 1) bs"
    using Cons.prems(2) by fastforce
  also have "\<dots> = Inr (\<lambda>x. if unat (x - (a + 1)) < length bs then Some (bs ! unat (x - (a + 1))) else (m(a \<mapsto> b)) x)"
  proof (rule Cons.IH)
    show "\<forall>k<length bs. (m(a \<mapsto> b)) (a + 1 + of_nat k) \<noteq> None"
    proof (intro allI impI)
      fix k assume "k < length bs"
      then have "m (a + of_nat (Suc k)) \<noteq> None"
        using Cons.prems(2) by (metis Suc_less_eq length_Cons)
      then show "(m(a \<mapsto> b)) (a + 1 + of_nat k) \<noteq> None"
        by (simp add: ac_simps)
    qed
  qed (use Cons.prems in simp)
  also have "\<dots> = Inr (\<lambda>x. if unat (x - a) < length (b # bs) then Some ((b # bs) ! unat (x - a)) else m x)"
  proof (intro arg_cong [of _ _ Inr] ext)
    fix x
    show "(if unat (x - (a + 1)) < length bs then Some (bs ! unat (x - (a + 1))) else (m(a \<mapsto> b)) x)
        = (if unat (x - a) < length (b # bs) then Some ((b # bs) ! unat (x - a)) else m x)"
    proof (cases "x = a")
      case True
      have "unat (a - (a + 1)) = 2 ^ 64 - 1"
        by (simp add: unsigned_minus_1_eq_mask mask_eq_exp_minus_1)
      with True Cons.prems(1) show ?thesis by simp
    next
      case False
      then have "0 < unat (x - a)"
        by (simp add: unat_gt_0)
      with False step show ?thesis
        by (auto simp: nth_Cons')
    qed
  qed
  finally show ?case .
qed simp

lemma mem_copy_ok:
  assumes "mem_read (ps_mem st) src (unat n) = Inr cs" and "mem_read (ps_mem st) dst (unat n) = Inr ds"
  shows "mem_copy st dst src n = Inr (st\<lparr>ps_mem := \<lambda>x. if unat (x - dst) < unat n then Some (cs ! unat (x - dst)) else ps_mem st x\<rparr>)"
proof -
  have len: "length cs = unat n" "unat n \<le> 2 ^ 64"
    using assms(1) less_imp_le [OF unsigned_less [of n]] by (simp_all add: mem_read_iff)
  have "\<forall>k<length cs. ps_mem st (dst + of_nat k) \<noteq> None"
    using assms(2) len(1) by (simp add: mem_read_iff)
  then show ?thesis
    using mem_write_ok [of cs "ps_mem st" dst] assms(1) len by (simp add: mem_copy_def)
qed

text \<open>The bytes in front of the written ones stay, and the written ones follow them.\<close>

lemma mem_read_appended:
  assumes "mem_read m a (unat n) = Inr bs" and "length cs = unat k" and "unat n + unat k < 2 ^ 64"
  shows "mem_read (\<lambda>x. if unat (x - (a + n)) < unat k then Some (cs ! unat (x - (a + n))) else m x) a (unat (n + k)) = Inr (bs @ cs)"
proof -
  have len: "length bs = unat n" "unat (n + k) = unat n + unat k"
    using assms by (simp_all add: mem_read_iff unat_add_lem [THEN iffD1])
  have low: "unat (of_nat j - n) \<ge> unat k" if "j < unat n" for j
  proof -
    have j: "unat (of_nat j :: u64) = j"
      using that assms(3) by (simp add: unat_of_nat take_bit_nat_eq_self)
    then have "unat (of_nat j - n) = 2 ^ 64 + j - unat n"
      using that unat_sub_if' [of "of_nat j" n] by (simp add: word_le_nat_alt)
    then show ?thesis
      using assms(3) by linarith
  qed
  have high: "unat (of_nat j - n) = j - unat n" if "unat n \<le> j" "j < unat n + unat k" for j
  proof -
    have j: "unat (of_nat j :: u64) = j"
      using that assms(3) by (simp add: unat_of_nat take_bit_nat_eq_self)
    then show ?thesis
      using that by (subst unat_sub) (simp_all add: word_le_nat_alt)
  qed
  have "(if unat (a + of_nat j - (a + n)) < unat k then Some (cs ! unat (a + of_nat j - (a + n))) else m (a + of_nat j)) = Some ((bs @ cs) ! j)"
    if "j < unat n + unat k" for j
  proof (cases "j < unat n")
    case True
    then show ?thesis
      using low [OF True] assms(1) len(1) by (simp add: mem_read_iff nth_append)
  next
    case False
    then show ?thesis
      using high [of j] that assms(2) len(1) less_diff_conv2 [of "unat n" j "unat k"] by (simp add: nth_append add.commute)
  qed
  then show ?thesis
    using assms(2) len by (simp add: mem_read_iff)
qed

fun shift_segs :: "u32 \<Rightarrow> seg_info list \<Rightarrow> seg_info list" where
  "shift_segs off [] = []"
| "shift_segs off ((type, _, len) # xs) = (type, off, len) # shift_segs (off + len) xs"

lemma seg_ptr_add_add: "seg_ptr_add (seg_ptr_add q m) n = seg_ptr_add q (m + n)"
  by (cases q) simp_all

lemma append_segments_ok:
  assumes "pkts_ok st A" and "A dst = Some xs" and "A src = Some ys" and "dst \<noteq> src"
    and "ps_pkts st src = Some sp" "pk_segments sp = Some q" "j \<le> length ys"
    and "length xs + (length ys - j) < 2 ^ 30" and "length ys - j < fuel"
  shows "\<exists>st'. append_segments fuel (\<lambda>_. True) st dst src (seg_ptr_add q j) off (of_nat j) = Inr st' \<and>
    pkts_ok st' (A(dst \<mapsto> xs @ shift_segs off (drop j ys))) \<and> same_data st st' \<and> ps_pkts st' src = Some sp"
  using assms
proof (induction fuel arbitrary: st xs A j off)
  case (Suc fuel)
  note s = pkts_okD(2) [OF Suc.prems(1,5,3)]
  obtain zs where zs: "seg_base q" "seg_array st q = Some zs" "seg_rep q zs ys"
    using pkt_segs_array [OF s Suc.prems(5,6)] by metis
  have nb: "unat (pk_segment_nb sp) = length ys" "length ys < 2 ^ 31"
    using s by (auto simp: pkt_segs_from_def)
  have uj: "unat (of_nat j :: u32) = j"
    using Suc.prems(7) nb(2) by (simp add: unat_of_nat take_bit_nat_eq_self)
  have cmp: "of_nat j < pk_segment_nb sp \<longleftrightarrow> j < length ys"
    by (simp add: word_less_nat_alt uj nb(1))
  show ?case
  proof (cases "j < length ys")
    case False
    then show ?thesis
      using Suc.prems cmp by (simp add: get_pkt_def fun_upd_idem)
  next
    case True
    obtain t o' l where y: "ys ! j = (t, o', l)"
      by (cases "ys ! j")
    have get: "seg_get st (seg_ptr_add q j) = Inr (seg_elem q ys j)"
      using seg_get_at [OF zs(1,2)] zs(3) True by (simp add: seg_rep_def)
    have el: "sg_type (seg_elem q ys j) = t" "sg_len (seg_elem q ys j) = l"
      by (simp_all add: seg_elem_def y)
    obtain st1 where st1: "mpp_packet_add_segment_info True st dst t (sint off) (sint l) = Inr (MPP_OK, st1)"
        "same_data st st1" "pkt_step dst st st1" "pkts_ok st1 (A(dst \<mapsto> xs @ [(t, off, l)]))"
      using add_segment_ok [OF Suc.prems(1,2), of True t "sint off" "sint l"] Suc.prems(8) by auto
    have sp: "ps_pkts st1 src = Some sp"
      using st1(3) Suc.prems(4,5) by (auto simp: pkt_step_def)
    have A1: "(A(dst \<mapsto> xs @ [(t, off, l)])) dst = Some (xs @ [(t, off, l)])" "(A(dst \<mapsto> xs @ [(t, off, l)])) src = Some ys"
      using Suc.prems(3,4) by simp_all
    have bound: "Suc j \<le> length ys" "length (xs @ [(t, off, l)]) + (length ys - Suc j) < 2 ^ 30" "length ys - Suc j < fuel"
      using Suc.prems(8,9) True by simp_all
    obtain st2 where st2: "append_segments fuel (\<lambda>_. True) st1 dst src (seg_ptr_add q (Suc j)) (off + l) (of_nat (Suc j)) = Inr st2"
        "pkts_ok st2 ((A(dst \<mapsto> xs @ [(t, off, l)]))(dst \<mapsto> (xs @ [(t, off, l)]) @ shift_segs (off + l) (drop (Suc j) ys)))"
        "same_data st1 st2" "ps_pkts st2 src = Some sp"
      using Suc.IH [OF st1(4) A1 Suc.prems(4) sp Suc.prems(6) bound, of "off + l"] by blast
    have "drop j ys = (t, o', l) # drop (Suc j) ys"
      using True y by (metis Cons_nth_drop_Suc)
    then have "pkts_ok st2 (A(dst \<mapsto> xs @ shift_segs off (drop j ys)))"
      using st2(2) by simp
    moreover have "append_segments (Suc fuel) (\<lambda>_. True) st dst src (seg_ptr_add q j) off (of_nat j) = Inr st2"
      using Suc.prems(5) cmp True get el st1(1) st2(1) by (simp add: get_pkt_def seg_ptr_add_add ac_simps)
    ultimately show ?thesis
      using st2(4) same_data_trans [OF st1(2) st2(3)] by blast
  qed
qed simp

section \<open>Programs\<close>

text \<open>
  The calls of a program and the lists of segments they make: every function that changes a packet except
  \<open>mpp_packet_copy_init\<close>, whose packet shares the segments of its source (\<open>copy_init_shares_segments\<close>), and
  \<open>mpp_packet_copy\<close> and \<open>mpp_packet_append\<close> of a packet to itself. The functions that only set
  a field (position, flags, status, release callback and the setters of the macro) are the step \<open>field\<close>.
  Allocations of segments may fail in \<open>mpp_packet_add_segment_info\<close>, not in the calls that ignore the
  failure; lists are shorter than \<open>2 ^ 30\<close>.
\<close>

inductive seg_reach :: "pkt_state \<Rightarrow> (nat \<Rightarrow> seg_info list option) \<Rightarrow> bool" where
  start: "ps_pkts st = Map.empty \<Longrightarrow> ps_exts st = Map.empty \<Longrightarrow> seg_reach st Map.empty"
| init: "seg_reach st A \<Longrightarrow> mpp_packet_init True st data sz = Inr (ret, Some i, st') \<Longrightarrow> seg_reach st' (A(i \<mapsto> []))"
| add: "seg_reach st A \<Longrightarrow> A i = Some xs \<Longrightarrow> length xs < 2 ^ 30 \<Longrightarrow>
    mpp_packet_add_segment_info alloc st i type off len = Inr (ret, st') \<Longrightarrow>
    seg_reach st' (if ret = MPP_OK then A(i \<mapsto> xs @ [(type, word_of_int off, word_of_int len)]) else A)"
| truncate: "seg_reach st A \<Longrightarrow> A i = Some xs \<Longrightarrow> mpp_packet_set_segment_nb st i n = Inr st' \<Longrightarrow>
    seg_reach st' (A(i \<mapsto> take (unat n) xs))"
| copy_info: "seg_reach st A \<Longrightarrow> A dst = Some xs \<Longrightarrow> A src = Some ys \<Longrightarrow>
    mpp_packet_copy_segment_info True st dst src = Inr st' \<Longrightarrow> seg_reach st' (A(dst \<mapsto> if dst = src then [] else ys))"
| copy: "seg_reach st A \<Longrightarrow> A dst = Some xs \<Longrightarrow> A src = Some ys \<Longrightarrow> dst \<noteq> src \<Longrightarrow>
    mpp_packet_copy True st dst src = Inr (ret, st') \<Longrightarrow> seg_reach st' (A(dst \<mapsto> if ys = [] then xs else ys))"
| append: "seg_reach st A \<Longrightarrow> A dst = Some xs \<Longrightarrow> A src = Some ys \<Longrightarrow> dst \<noteq> src \<Longrightarrow>
    length xs + length ys < 2 ^ 30 \<Longrightarrow> ps_pkts st dst = Some d \<Longrightarrow>
    mpp_packet_append fuel (\<lambda>_. True) st dst src = Inr (ret, st') \<Longrightarrow>
    length ys < fuel \<Longrightarrow> seg_reach st' (A(dst \<mapsto> xs @ shift_segs (ucast (pk_length d)) ys))"
| reset_segs: "seg_reach st A \<Longrightarrow> mpp_packet_reset_segment st i = Inr st' \<Longrightarrow> seg_reach st' (A(i \<mapsto> []))"
| clear: "seg_reach st A \<Longrightarrow> mpp_packet_reset st i = Inr (ret, st') \<Longrightarrow> seg_reach st' (A(i \<mapsto> []))"
| init_buffer: "seg_reach st A \<Longrightarrow> mpp_packet_init_with_buffer True st (Some buf) = Inr (ret, Some i, st') \<Longrightarrow>
    seg_reach st' (A(i \<mapsto> []))"
| field: "seg_reach st A \<Longrightarrow> keeps_segments f \<Longrightarrow> upd_pkt st i f = Inr st' \<Longrightarrow> seg_reach st' A"
| set_buffer: "seg_reach st A \<Longrightarrow> mpp_packet_set_buffer st i b = Inr st' \<Longrightarrow> seg_reach st' A"
| get_meta: "seg_reach st A \<Longrightarrow> mpp_packet_get_meta m st i = Inr (meta, st') \<Longrightarrow> seg_reach st' A"
| store: "seg_reach st A \<Longrightarrow> mpp_packet_write st i offset bs = Inr (ret, st') \<Longrightarrow> seg_reach st' A"
| free: "seg_reach st A \<Longrightarrow> mpp_packet_deinit st i = Inr (ret, st') \<Longrightarrow> seg_reach st' (A(i := None))"

lemma mem_copy_frame:
  assumes "mem_copy st a b n = Inr st'"
  shows "ps_pkts st' = ps_pkts st" "ps_exts st' = ps_exts st" "ps_new_pkt st' = ps_new_pkt st" "ps_new_ext st' = ps_new_ext st"
  using assms by (auto simp: mem_copy_def run_bind_Inr_iff)

lemma packet_append_ok:
  assumes ok: "pkts_ok st A" and A: "A dst = Some xs" "A src = Some ys" "dst \<noteq> src"
    and small: "length xs + length ys < 2 ^ 30" "length ys < fuel"
    and d: "ps_pkts st dst = Some d" and s: "ps_pkts st src = Some s"
    and st1: "mem_copy st (pk_pos d + pk_length d) (pk_pos s) (pk_length s) = Inr st1"
  shows "\<exists>st' p. mpp_packet_append fuel (\<lambda>_. True) st dst src = Inr (MPP_OK, st') \<and>
    pkts_ok st' (A(dst \<mapsto> xs @ shift_segs (ucast (pk_length d)) ys)) \<and> ps_mem st' = ps_mem st1 \<and>
    ps_pkts st' dst = Some p \<and> pk_pos p = pk_pos d \<and> pk_length p = pk_length d + pk_length s"
proof -
  have ok1: "pkts_ok st1 A"
    by (rule pkts_ok_cong [OF ok mem_copy_frame [OF st1]])
  have s1: "ps_pkts st1 src = Some s" "ps_pkts st1 dst = Some d"
    using s d mem_copy_frame(1) [OF st1] by simp_all
  note segs = pkts_okD(2) [OF ok1 s1(1) A(2)]
  have nb: "pk_segment_nb s = 0 \<longleftrightarrow> ys = []"
    using segs by (auto simp: pkt_segs_from_def simp flip: unat_eq_zero)
  let ?B = "A(dst \<mapsto> xs @ shift_segs (ucast (pk_length d)) ys)"
  obtain st2 where st2: "(if pk_segment_nb s \<noteq> 0 then
          (case pk_segments s of None \<Rightarrow> Inl Null_Deref
           | Some q \<Rightarrow> append_segments fuel (\<lambda>_. True) st1 dst src q (ucast (pk_length d)) 0)
        else Inr st1) = Inr st2" "pkts_ok st2 ?B" "same_data st1 st2" "ps_pkts st2 src = Some s"
  proof (cases "ys = []")
    case True
    then show ?thesis
      using that [of st1] nb ok1 A(1) s1 by (simp add: fun_upd_idem)
  next
    case False
    then obtain q where q: "pk_segments s = Some q" "seg_ptr_add q 0 = q"
      using segs by (auto simp: pkt_segs_from_def split: option.splits)
    show ?thesis
      using append_segments_ok [OF ok1 A s1(1) q(1), of 0 fuel "ucast (pk_length d)"] small q nb False that by auto
  qed
  obtain d2 where d2: "ps_pkts st2 dst = Some d2" "pk_pos d2 = pk_pos d" "pk_length d2 = pk_length d"
  proof -
    have "pkt_data st2 dst = Some (pk_data d, pk_pos d, pk_size d, pk_length d, pk_flag d, pk_buffer d)"
      using st2(3) s1(2) unfolding same_data_def by (simp add: pkt_data_def)
    with that show ?thesis by (auto simp: pkt_data_def)
  qed
  let ?p = "d2\<lparr>pk_length := pk_length d2 + pk_length s\<rparr>"
  have upd: "upd_pkt st2 dst (\<lambda>p. p\<lparr>pk_length := pk_length p + pk_length s\<rparr>) = Inr (set_pkt dst ?p st2)"
    using d2 by (simp add: upd_pkt_def get_pkt_def)
  then have "mpp_packet_append fuel (\<lambda>_. True) st dst src = Inr (MPP_OK, set_pkt dst ?p st2)"
    using d s st1 st2(1,4) by (simp add: mpp_packet_append_def get_pkt_def)
  moreover have "pkts_ok (set_pkt dst ?p st2) ?B"
    by (rule upd_other_ok [OF st2(2) _ upd]) (simp add: keeps_segments_def)
  ultimately show ?thesis
    using d2 st2(3) by (intro exI conjI) (assumption | simp add: same_data_def)+
qed

lemma packet_copy_ok:
  assumes ok: "pkts_ok st A" and A: "A dst = Some xs" "A src = Some ys" "dst \<noteq> src"
    and run: "mpp_packet_copy True st dst src = Inr (ret, st')"
  shows "pkts_ok st' (A(dst \<mapsto> if ys = [] then xs else ys))"
proof -
  obtain d s st1 st2 where r: "ps_pkts st dst = Some d" "ps_pkts st src = Some s"
      "mem_copy st (pk_pos d) (pk_pos s) (pk_length s) = Inr st1"
      "upd_pkt st1 dst (\<lambda>p. p\<lparr>pk_length := pk_length s\<rparr>) = Inr st2"
      "(if pk_segment_nb s \<noteq> 0 then mpp_packet_copy_segment_info True st2 dst src else Inr st2) = Inr st'"
    using run by (auto simp: mpp_packet_copy_def run_bind_Inr_iff get_pkt_def split: option.splits)
  have "pkts_ok st1 A"
    by (rule pkts_ok_cong [OF ok mem_copy_frame [OF r(3)]])
  then have ok2: "pkts_ok st2 A"
    by (rule upd_other_ok [OF _ _ r(4)]) (simp add: keeps_segments_def)
  have nb: "pk_segment_nb s = 0 \<longleftrightarrow> ys = []"
    using pkts_okD(2) [OF ok r(2) A(2)] by (auto simp: pkt_segs_from_def simp flip: unat_eq_zero)
  show ?thesis
  proof (cases "ys = []")
    case True
    with r(5) nb ok2 A(1) show ?thesis by (simp add: fun_upd_idem)
  next
    case False
    with r(5) nb copy_segment_info_ok [OF ok2 A(1,2), of True] A(3) show ?thesis by auto
  qed
qed

lemma seg_reach_ok: "seg_reach st A \<Longrightarrow> pkts_ok st A"
proof (induction rule: seg_reach.induct)
  case (add st A i xs alloc type off len ret st')
  then show ?case
    using add_segment_ok [OF add.IH add.hyps(2,3), of alloc type off len] by auto
next
  case (truncate st A i xs n st')
  then show ?case
    using set_segment_nb_ok [OF truncate.IH truncate.hyps(2), of n] by (metis sum.inject(2))
next
  case (copy_info st A dst xs src ys st')
  then show ?case
    using copy_segment_info_ok [OF copy_info.IH copy_info.hyps(2,3), of True] by (metis sum.inject(2))
next
  case (append st A dst xs src ys d fuel ret st')
  obtain s where s: "ps_pkts st src = Some s"
    using pkts_okE [OF append.IH append.hyps(3)] by blast
  obtain st1 where st1: "mem_copy st (pk_pos d + pk_length d) (pk_pos s) (pk_length s) = Inr st1"
    using append.hyps(6,7) s by (auto simp: mpp_packet_append_def get_pkt_def run_bind_Inr_iff)
  show ?case
    using packet_append_ok [OF append.IH append.hyps(2-5,8,6) s st1] append.hyps(7) by (metis sum.inject(2) prod.inject)
next
  case (store st A i offset bs ret st')
  then show ?case
    by (auto simp: mpp_packet_write_def run_bind_Inr_iff split: if_splits intro: pkts_ok_cong)
next
  case (init_buffer st A buf ret i st')
  then show ?case
    using packet_init_buffer_ok by blast
next
  case (field st A f i st')
  then show ?case
    using upd_other_ok by blast
next
  case (set_buffer st A i b st')
  then show ?case
    using set_buffer_ok by blast
next
  case (get_meta st A m i meta st')
  then show ?case
    using get_meta_ok by blast
next
  case (start st)
  then show ?case
    by (simp add: pkts_ok_def)
next
  case (init st A data sz ret i st')
  then show ?case
    using packet_init_ok by blast
qed (blast dest: packet_reset_ok deinit_ok packet_copy_ok packet_reset_segment_ok)+

text \<open>The setters of the interface are steps \<open>field\<close>.\<close>

lemma field_steps:
  "mpp_packet_set_pos st i a = Inr st' \<Longrightarrow> \<exists>f. keeps_segments f \<and> upd_pkt st i f = Inr st'"
  "mpp_packet_set_eos st i = Inr st' \<Longrightarrow> \<exists>f. keeps_segments f \<and> upd_pkt st i f = Inr st'"
  "mpp_packet_clr_eos st i = Inr st' \<Longrightarrow> \<exists>f. keeps_segments f \<and> upd_pkt st i f = Inr st'"
  "mpp_packet_set_extra_data st i = Inr st' \<Longrightarrow> \<exists>f. keeps_segments f \<and> upd_pkt st i f = Inr st'"
  "mpp_packet_set_status st i v = Inr st' \<Longrightarrow> \<exists>f. keeps_segments f \<and> upd_pkt st i f = Inr st'"
  "mpp_packet_set_release st i r = Inr st' \<Longrightarrow> \<exists>f. keeps_segments f \<and> upd_pkt st i f = Inr st'"
  "mpp_packet_set_field pk_length_update st i n = Inr st' \<Longrightarrow> \<exists>f. keeps_segments f \<and> upd_pkt st i f = Inr st'"
  unfolding mpp_packet_set_pos_def mpp_packet_set_eos_def mpp_packet_clr_eos_def mpp_packet_set_extra_data_def
    mpp_packet_set_status_def mpp_packet_set_release_def mpp_packet_set_field_def
  by (intro exI conjI, simp_all add: keeps_segments_def Let_def)+

section \<open>Properties\<close>

text \<open>The list that a caller reads: from \<open>mpp_packet_get_segment_info\<close> along \<open>next\<close>, at most \<open>n\<close> elements.\<close>

fun seg_walk :: "pkt_state \<Rightarrow> nat \<Rightarrow> seg_ptr option \<Rightarrow> MppPktSeg list run" where
  "seg_walk st n None = Inr []"
| "seg_walk st 0 (Some q) = Inl Out_Of_Fuel"
| "seg_walk st (Suc n) (Some q) =
     run_bind (seg_get st q) (\<lambda>s. run_bind (seg_walk st n (sg_next s)) (\<lambda>ss. Inr (s # ss)))"

definition seg_list :: "pkt_state \<Rightarrow> nat \<Rightarrow> nat \<Rightarrow> MppPktSeg list run" where
  "seg_list st n i = run_bind (mpp_packet_get_segment_info st i) (seg_walk st n)"

definition seg_info :: "MppPktSeg \<Rightarrow> seg_info" where
  "seg_info s = (sg_type s, sg_offset s, sg_len s)"

lemma seg_walk_ok:
  assumes "seg_base q" "seg_array st q = Some zs" "seg_rep q zs xs" and "j \<le> length xs"
  shows "seg_walk st (length xs - j) (if j < length xs then Some (seg_ptr_add q j) else None)
    = Inr (map (seg_elem q xs) [j..<length xs])"
  using assms(4)
proof (induction "length xs - j" arbitrary: j)
  case (Suc n)
  then have j: "j < length xs" "length xs - j = Suc (length xs - Suc j)" by simp_all
  have "seg_get st (seg_ptr_add q j) = Inr (seg_elem q xs j)"
    using seg_get_at [OF assms(1,2)] assms(3) j(1) by (simp add: seg_rep_def)
  moreover have "sg_next (seg_elem q xs j) = (if Suc j < length xs then Some (seg_ptr_add q (Suc j)) else None)"
    by (simp add: seg_elem_def split: prod.split)
  ultimately show ?case
    using Suc.hyps(1) [of "Suc j"] Suc.hyps(2) j by (simp add: upt_conv_Cons [of j])
qed simp

lemma seg_list_ok:
  assumes ok: "pkts_ok st A" and A: "A i = Some xs"
  shows "\<exists>segs. seg_list st (length xs) i = Inr segs \<and> map seg_info segs = xs \<and> map sg_index segs = map int [0..<length xs]"
proof -
  obtain p where p: "ps_pkts st i = Some p" and s: "pkt_segs st i p xs"
    by (rule pkts_okE [OF ok A])
  show ?thesis
  proof (cases "xs = []")
    case True
    then have "pk_segment_nb p = 0"
      using s by (simp add: pkt_segs_from_def flip: unat_eq_zero)
    with True p show ?thesis
      by (simp add: seg_list_def mpp_packet_get_segment_info_def get_pkt_def)
  next
    case False
    then have nb: "pk_segment_nb p \<noteq> 0"
      using s by (auto simp: pkt_segs_from_def)
    with False obtain q where q: "pk_segments p = Some q" "pk_segment_nb p \<noteq> 0" "seg_ptr_add q 0 = q"
      using s by (auto simp: pkt_segs_from_def split: option.splits)
    obtain zs where zs: "seg_base q" "seg_array st q = Some zs" "seg_rep q zs xs"
      using pkt_segs_array [OF s p q(1)] by metis
    have "seg_list st (length xs) i = Inr (map (seg_elem q xs) [0..<length xs])"
      using seg_walk_ok [OF zs, of 0] p q False by (simp add: seg_list_def mpp_packet_get_segment_info_def get_pkt_def)
    moreover have "map seg_info (map (seg_elem q xs) [0..<length xs]) = xs"
      by (rule nth_equalityI) (auto simp: seg_info_def seg_elem_def split: prod.split)
    moreover have "sg_index (seg_elem q xs k) = int k" for k
      by (simp add: seg_elem_def split: prod.split)
    ultimately show ?thesis by simp
  qed
qed

text \<open>A state without packets, whose memory holds the low byte of every address.\<close>

definition demo_empty :: pkt_state where
  "demo_empty = \<lparr>ps_pkts = Map.empty, ps_new_pkt = 0, ps_exts = Map.empty, ps_new_ext = 0, ps_mem = \<lambda>x. Some (ucast x),
    ps_blocks = Map.empty, ps_refs = \<lparr>buf_ref = \<lambda>_. 0, meta_ref = \<lambda>_. 0\<rparr>, ps_released = [], ps_fresh = \<lambda>_. 0,
    ps_junk = seg_zero\<rparr>"

text \<open>Two packets, then segments in the first and the second one.\<close>

definition demo_packets :: pkt_state where
  "demo_packets = (case mpp_packet_init True demo_empty 0x10 2 of Inr (_, _, st) \<Rightarrow>
     (case mpp_packet_init True st 0x20 1 of Inr (_, _, st) \<Rightarrow> st))"

lemma demo_packets_reach: "seg_reach demo_packets [0 \<mapsto> [], 1 \<mapsto> []]"
proof -
  obtain st where st: "mpp_packet_init True demo_empty 0x10 2 = Inr (MPP_OK, Some 0, st)"
      "mpp_packet_init True st 0x20 1 = Inr (MPP_OK, Some 1, demo_packets)"
    by (simp add: demo_packets_def demo_empty_def mpp_packet_init_def mpp_packet_new_def upd_pkt_def set_pkt_def get_pkt_def)
  have "seg_reach st (Map.empty(0 \<mapsto> []))"
    by (rule seg_reach.init [OF seg_reach.start st(1)]) (simp_all add: demo_empty_def)
  from seg_reach.init [OF this st(2)] show ?thesis .
qed

lemma demo_packets_data: "ps_mem demo_packets = (\<lambda>x. Some (ucast x))" "pkt_data demo_packets 0 = Some (0x10, 0x10, 2, 2, 0, None)"
  "pkt_data demo_packets 1 = Some (0x20, 0x20, 1, 1, 0, None)"
  by (simp_all add: demo_packets_def demo_empty_def mpp_packet_init_def mpp_packet_new_def upd_pkt_def set_pkt_def get_pkt_def
      pkt_data_def packet_zero_def)

lemma reach_adds:
  assumes "seg_reach st A" and "A i = Some []" and "length xs \<le> 20"
  shows "\<exists>st'. seg_reach st' (A(i \<mapsto> map (\<lambda>k. (k, 0, 1)) xs)) \<and> same_data st st'"
  using assms(3)
proof (induction xs rule: rev_induct)
  case Nil
  have "seg_reach st (A(i \<mapsto> map (\<lambda>k. (k, 0, 1)) []))"
    using assms(1,2) by (simp add: fun_upd_idem)
  then show ?case using same_data_refl by blast
next
  case (snoc x xs)
  let ?xs = "map (\<lambda>k. (k, 0, 1)) xs"
  have "length xs \<le> 20"
    using snoc.prems by simp
  then obtain st1 where st1: "seg_reach st1 (A(i \<mapsto> ?xs))" "same_data st st1"
    using snoc.IH by blast
  obtain st' where st': "mpp_packet_add_segment_info True st1 i x 0 1 = Inr (MPP_OK, st')" "same_data st1 st'"
    using add_segment_ok [OF seg_reach_ok [OF st1(1)], of i ?xs True x 0 1] snoc.prems by auto
  have "seg_reach st' (A(i \<mapsto> map (\<lambda>k. (k, 0, 1)) (xs @ [x])))"
    using seg_reach.add [OF st1(1) _ _ st'(1)] snoc.prems by simp
  then show ?case
    using same_data_trans [OF st1(2) st'(2)] by blast
qed

lemma demo_filled: "length xs \<le> 20 \<Longrightarrow> length ys \<le> 20 \<Longrightarrow>
  \<exists>st. seg_reach st [0 \<mapsto> map (\<lambda>k. (k, 0, 1)) xs, 1 \<mapsto> map (\<lambda>k. (k, 0, 1)) ys] \<and> same_data demo_packets st"
  using reach_adds [OF demo_packets_reach, of 0 xs] reach_adds [of _ "[0 \<mapsto> map (\<lambda>k. (k, 0, 1)) xs, 1 \<mapsto> []]" 1 ys]
  by (simp add: fun_upd_twist) (meson same_data_trans)

text \<open>
  C12: in every state that a program reaches by the calls of \<open>seg_reach\<close> (all that change packets, except
  \<open>mpp_packet_copy_init\<close> and a packet copied or appended to itself), with allocations of added segments that
  may fail, the segments of every packet, read along their \<open>next\<close> pointers, are the ones that were added, in
  order and numbered from 0; and adding a segment with or without memory for it, truncating the list and
  copying it with enough memory stay within the defined behaviour.
\<close>

theorem packet_segments_refine:
  assumes "seg_reach st A" and "A i = Some xs" and "length xs < 2 ^ 30" and "A j = Some ys"
  shows "(\<exists>segs. seg_list st (length xs) i = Inr segs \<and> map seg_info segs = xs \<and>
      map sg_index segs = map int [0..<length xs]) \<and>
    (\<exists>st'. mpp_packet_add_segment_info True st i type off len = Inr (MPP_OK, st')) \<and>
    (\<exists>ret st'. mpp_packet_add_segment_info False st i type off len = Inr (ret, st') \<and> (ret \<noteq> MPP_OK \<longrightarrow> st' = st)) \<and>
    (\<exists>st'. mpp_packet_set_segment_nb st i n = Inr st') \<and>
    (\<exists>st'. mpp_packet_copy_segment_info True st i j = Inr st')"
proof -
  note ok = seg_reach_ok [OF assms(1)]
  show ?thesis
    using seg_list_ok [OF ok assms(2)] add_segment_ok [OF ok assms(2,3), of True type off len]
      add_segment_ok [OF ok assms(2,3), of False type off len]
      set_segment_nb_ok [OF ok assms(2), of n] copy_segment_info_ok [OF ok assms(2,4), of True]
    by blast
qed

theorem packet_segments_refine_witness:
  "\<exists>st segs st'. seg_list st 10 0 = Inr segs \<and> map seg_info segs = map (\<lambda>k. (k, 0, 1)) [1..10] \<and>
    mpp_packet_add_segment_info True st 0 5 6 7 = Inr (MPP_OK, st')"
proof -
  let ?xs = "map (\<lambda>k. (k, 0, 1)) [1..10] :: seg_info list"
  obtain st where st: "seg_reach st [0 \<mapsto> ?xs, 1 \<mapsto> map (\<lambda>k. (k, 0, 1)) []]"
    using demo_filled [of "[1..10]" "[]"] by auto
  have xs: "[0 \<mapsto> ?xs, 1 \<mapsto> map (\<lambda>k. (k, 0, 1)) []] (0 :: nat) = Some ?xs" "length ?xs < 2 ^ 30"
      "[0 \<mapsto> ?xs, 1 \<mapsto> map (\<lambda>k. (k, 0, 1)) []] (1 :: nat) = Some (map (\<lambda>k. (k, 0, 1)) [])"
    by simp_all
  have "length ?xs = 10"
    by simp
  with packet_segments_refine [OF st xs, of 5 6 7] show ?thesis
    by metis
qed

text \<open>
  Appending a packet to another one, when the memory of both is mapped, the source lies outside the bytes
  behind the destination and the lengths do not wrap: the bytes of the source follow those of the
  destination, and so do its segments, with offsets that go on from the length of the destination.
\<close>

theorem packet_append_concat:
  assumes "seg_reach st A" and "A dst = Some xs" and "A src = Some ys" and "dst \<noteq> src"
    and "length xs + length ys < 2 ^ 30" and "length ys < fuel"
    and "ps_pkts st dst = Some d" and "ps_pkts st src = Some s"
    and "mem_read (ps_mem st) (pk_pos d) (unat (pk_length d)) = Inr bs"
    and "mem_read (ps_mem st) (pk_pos s) (unat (pk_length s)) = Inr cs"
    and "mem_read (ps_mem st) (pk_pos d + pk_length d) (unat (pk_length s)) = Inr room"
    and "unat (pk_length d) + unat (pk_length s) < 2 ^ 64"
  shows "\<exists>st' p segs. mpp_packet_append fuel (\<lambda>_. True) st dst src = Inr (MPP_OK, st') \<and>
    ps_pkts st' dst = Some p \<and> mem_read (ps_mem st') (pk_pos p) (unat (pk_length p)) = Inr (bs @ cs) \<and>
    seg_list st' (length xs + length ys) dst = Inr segs \<and>
    map seg_info segs = xs @ shift_segs (ucast (pk_length d)) ys"
proof -
  let ?m = "\<lambda>x. if unat (x - (pk_pos d + pk_length d)) < unat (pk_length s)
    then Some (cs ! unat (x - (pk_pos d + pk_length d))) else ps_mem st x"
  obtain st' p where st': "mpp_packet_append fuel (\<lambda>_. True) st dst src = Inr (MPP_OK, st')"
      "pkts_ok st' (A(dst \<mapsto> xs @ shift_segs (ucast (pk_length d)) ys))" "ps_mem st' = ?m"
      "ps_pkts st' dst = Some p" "pk_pos p = pk_pos d" "pk_length p = pk_length d + pk_length s"
    using packet_append_ok [OF seg_reach_ok [OF assms(1)] assms(2-8) mem_copy_ok [OF assms(10,11)]] by auto
  have "length cs = unat (pk_length s)"
    using assms(10) by (simp add: mem_read_iff)
  then have "mem_read ?m (pk_pos d) (unat (pk_length d + pk_length s)) = Inr (bs @ cs)"
    using mem_read_appended [OF assms(9) _ assms(12)] by simp
  moreover have "length (shift_segs off ys) = length ys" for off
    by (induction off ys rule: shift_segs.induct) simp_all
  ultimately show ?thesis
    using st' seg_list_ok [OF st'(2), of dst "xs @ shift_segs (ucast (pk_length d)) ys"] by (simp, blast)
qed

theorem packet_append_concat_witness:
  "\<exists>st st' p segs. mpp_packet_append 2 (\<lambda>_. True) st 0 1 = Inr (MPP_OK, st') \<and>
    ps_pkts st' 0 = Some p \<and> mem_read (ps_mem st') (pk_pos p) (unat (pk_length p)) = Inr ([0x10, 0x11] @ [0x20]) \<and>
    seg_list st' 2 0 = Inr segs \<and> map seg_info segs = [(3, 0, 1), (4, 2, 1)]"
proof -
  obtain st where st: "seg_reach st [0 \<mapsto> [(3, 0, 1)], 1 \<mapsto> [(4, 0, 1)]]" "same_data demo_packets st"
    using demo_filled [of "[3]" "[4]"] by auto
  have mem: "ps_mem st = (\<lambda>x. Some (ucast x))"
    using st(2) demo_packets_data by (simp add: same_data_def)
  have "pkt_data st 0 = Some (0x10, 0x10, 2, 2, 0, None)" "pkt_data st 1 = Some (0x20, 0x20, 1, 1, 0, None)"
    using st(2) demo_packets_data(2,3) by (simp_all add: same_data_def)
  then obtain d s where d: "ps_pkts st 0 = Some d" "pk_pos d = 0x10" "pk_length d = 2"
      and s: "ps_pkts st 1 = Some s" "pk_pos s = 0x20" "pk_length s = 1"
    by (auto simp: pkt_data_def)
  have "unat (pk_length d) = Suc (Suc 0)" "unat (pk_length s) = Suc 0"
    by (simp_all add: d s)
  then have "mem_read (ps_mem st) (pk_pos d) (unat (pk_length d)) = Inr [0x10, 0x11]"
    "mem_read (ps_mem st) (pk_pos s) (unat (pk_length s)) = Inr [0x20]"
    "mem_read (ps_mem st) (pk_pos d + pk_length d) (unat (pk_length s)) = Inr [0x12]"
    by (simp_all add: mem d(2) s(2), simp add: d(3))
  from packet_append_concat [OF st(1) _ _ _ _ _ d(1) s(1) this, of "[(3, 0, 1)]" "[(4, 0, 1)]" 2]
  have "\<exists>st' p segs. mpp_packet_append 2 (\<lambda>_. True) st 0 1 = Inr (MPP_OK, st') \<and>
    ps_pkts st' 0 = Some p \<and> mem_read (ps_mem st') (pk_pos p) (unat (pk_length p)) = Inr ([0x10, 0x11] @ [0x20]) \<and>
    seg_list st' 2 0 = Inr segs \<and> map seg_info segs = [(3, 0, 1), (4, 2, 1)]"
    using d s by (simp flip: numeral_2_eq_2)
  then show ?thesis
    by (rule exI [of _ st])
qed

text \<open>The segments of a copy are those of the source itself.\<close>

lemma copy_init_pkt:
  assumes p: "ps_pkts st i = Some p" and run: "mpp_packet_copy_init True (Some pos) st i = Inr (ret, Some j, st1)"
  obtains q where "j = ps_new_pkt st" "ps_pkts st1 = (ps_pkts st)(j \<mapsto> q)" "ps_exts st1 = ps_exts st"
    "pk_segments q = pk_segments p" "pk_segments_ext q = pk_segments_ext p" "pk_segment_nb q = pk_segment_nb p"
    "pk_buffer p = None \<longrightarrow> pk_data q = pos \<and> ps_blocks st1 pos \<noteq> None" "pk_buffer p \<noteq> None \<longrightarrow> pk_flag q = pk_flag p"
proof (cases "pk_buffer p")
  case None
  define n where "n = pk_length p"
  let ?q = "p\<lparr>pk_data := pos, pk_pos := pos, pk_size := n, pk_length := n, pk_flag := pk_flag p OR MPP_PACKET_FLAG_INTERNAL\<rparr>"
  have "j = ps_new_pkt st \<and> ps_pkts st1 = (ps_pkts st)(j \<mapsto> ?q) \<and> ps_exts st1 = ps_exts st \<and> ps_blocks st1 pos \<noteq> None"
    using run p None unfolding mpp_packet_copy_init_def mpp_packet_new_def copy_own_data_def Let_def n_def
    by (auto simp: get_pkt_def upd_pkt_def set_pkt_def mem_malloc_def mem_copy_def run_bind_Inr_iff split: if_splits)
  with that [of ?q] None show ?thesis by simp
next
  case (Some b)
  then have "j = ps_new_pkt st \<and> ps_pkts st1 = (ps_pkts st)(j \<mapsto> p) \<and> ps_exts st1 = ps_exts st"
    using run p unfolding mpp_packet_copy_init_def mpp_packet_new_def Let_def
    by (auto simp: get_pkt_def set_pkt_def split: if_splits)
  with that [of p] Some show ?thesis by simp
qed

lemma deinit_plain:
  assumes "ps_pkts st i = Some p" and "pk_flag p AND MPP_PACKET_FLAG_INTERNAL = 0"
    and "\<And>b. pk_segments_ext p = Some b \<Longrightarrow> ps_exts st b \<noteq> None"
  shows "\<exists>st'. mpp_packet_deinit st i = Inr (MPP_OK, st')"
  using assms by (auto simp: mpp_packet_deinit_def get_pkt_def Let_def seg_free_def split: option.splits)

lemma deinit_freed_block:
  assumes "ps_pkts st i = Some p" and "pk_segments_ext p = Some b" and "ps_exts st b = None"
  shows "mpp_packet_deinit st i = Inl Freed_Access"
proof -
  let ?st1 = "if pk_buffer p \<noteq> None then st\<lparr>ps_refs := snd (frame_buffer_put (pk_buffer p) (ps_refs st))\<rparr> else st"
  let ?r = "if pk_flag p AND MPP_PACKET_FLAG_INTERNAL \<noteq> 0 then mem_free ?st1 (pk_data p) else Inr ?st1"
  show ?thesis
  proof (cases ?r)
    case (Inl f)
    then have "f = Freed_Access"
      by (auto simp: mem_free_def split: if_splits option.splits)
    with Inl assms(1) show ?thesis
      unfolding mpp_packet_deinit_def get_pkt_def Let_def by simp
  next
    case (Inr st2)
    then have "ps_exts st2 = ps_exts ?st1"
      using mem_free_frame [of ?st1 "pk_data p" st2] by (metis sum.inject(2))
    then have "ps_exts st2 b = None"
      using assms(3) by simp
    then have "seg_free (if pk_meta p \<noteq> None then st2\<lparr>ps_refs := mpp_meta_put (pk_meta p) (ps_refs st2)\<rparr> else st2)
        (pk_segments_ext p) = Inl Freed_Access"
      using assms(2) by (simp add: seg_free_def)
    with Inr assms(1) show ?thesis
      unfolding mpp_packet_deinit_def get_pkt_def Let_def by simp
  qed
qed

text \<open>
  A packet that \<open>mpp_packet_copy_init\<close> makes of a packet with segments refers to the segments of the source:
  when the source has been released, the first segment of the copy lies in freed memory, and with more
  than 8 segments the release of the copy releases their memory a second time.
\<close>

theorem copy_init_shares_segments:
  assumes "seg_reach st A" and "A i = Some xs" and "xs \<noteq> []"
    and "ps_pkts st i = Some p" and "pk_flag p AND MPP_PACKET_FLAG_INTERNAL = 0"
    and "mpp_packet_copy_init True (Some pos) st i = Inr (ret, Some j, st1)"
  shows "\<exists>st2. mpp_packet_deinit st1 i = Inr (MPP_OK, st2) \<and> seg_list st2 1 j = Inl Freed_Access \<and>
    (8 < length xs \<longrightarrow> mpp_packet_deinit st2 j = Inl Freed_Access)"
proof -
  have seg: "pkt_segs st i p xs"
    by (rule pkts_okD(2) [OF seg_reach_ok [OF assms(1)] assms(4,2)])
  have j: "i \<noteq> ps_new_pkt st"
    using pkts_okD(4) [OF seg_reach_ok [OF assms(1)], of i] assms(4) by auto
  obtain q where q: "j = ps_new_pkt st" "ps_pkts st1 = (ps_pkts st)(j \<mapsto> q)" "ps_exts st1 = ps_exts st"
    "pk_segments q = pk_segments p" "pk_segments_ext q = pk_segments_ext p" "pk_segment_nb q = pk_segment_nb p"
    by (rule copy_init_pkt [OF assms(4,6)])
  have p1: "ps_pkts st1 i = Some p"
    using q(1,2) j assms(4) by simp
  obtain st2 where st2: "mpp_packet_deinit st1 i = Inr (MPP_OK, st2)"
    using deinit_plain [OF p1 assms(5)] pkt_segs_ext [OF seg] q(3) by auto
  have f: "ps_pkts st2 = (ps_pkts st1)(i := None)"
    "ps_exts st2 = (case pk_segments_ext p of None \<Rightarrow> ps_exts st | Some b \<Rightarrow> (ps_exts st)(b := None))"
    using deinit_frame [OF st2] p1 q(3) by (metis option.inject)+
  have q2: "ps_pkts st2 j = Some q" "ps_pkts st2 i = None"
    using f(1) q(1,2) j by simp_all
  have "pk_segment_nb p \<noteq> 0"
    using seg assms(3) by (auto simp: pkt_segs_from_def)
  then have "seg_list st2 1 j = Inl Freed_Access"
    using seg assms(3) q q2 f(2)
    by (auto simp: seg_list_def mpp_packet_get_segment_info_def get_pkt_def seg_get_def pkt_segs_from_def split: option.splits)
  moreover have "mpp_packet_deinit st2 j = Inl Freed_Access" if len: "8 < length xs"
  proof -
    obtain b where "pk_segments_ext p = Some b"
      using seg len by (auto simp: pkt_segs_from_def seg_rep_def split: option.splits)
    then show ?thesis
      using deinit_freed_block [OF q2(1)] q(5) f(2) by simp
  qed
  ultimately show ?thesis
    using st2 by blast
qed

text \<open>Where all memory is mapped, reading and writing succeed.\<close>

definition mapped :: "(u64 \<Rightarrow> u8 option) \<Rightarrow> bool" where
  "mapped m \<longleftrightarrow> (\<forall>x. m x \<noteq> None)"

lemma mapped_read: "mapped m \<Longrightarrow> \<exists>bs. mem_read m a n = Inr bs \<and> length bs = n"
proof (induction n arbitrary: a)
  case (Suc n)
  obtain b where "m a = Some b"
    using Suc.prems by (auto simp: mapped_def)
  moreover obtain bs where "mem_read m (a + 1) n = Inr bs" "length bs = n"
    using Suc.IH Suc.prems by blast
  ultimately show ?case by simp
qed simp

lemma mapped_write: "mapped m \<Longrightarrow> \<exists>m'. mem_write m a bs = Inr m' \<and> mapped m'"
proof (induction bs arbitrary: m a)
  case (Cons b bs)
  have "mapped (m(a \<mapsto> b))"
    using Cons.prems by (simp add: mapped_def)
  with Cons.IH Cons.prems show ?case
    by (auto simp: mapped_def)
qed simp

lemma mapped_copy: "mapped (ps_mem st) \<Longrightarrow> \<exists>m. mem_copy st dst src n = Inr (st\<lparr>ps_mem := m\<rparr>) \<and> mapped m"
proof -
  assume m: "mapped (ps_mem st)"
  obtain bs where "mem_read (ps_mem st) src (unat n) = Inr bs"
    using mapped_read [OF m] by blast
  moreover obtain m' where "mem_write (ps_mem st) dst bs = Inr m'" "mapped m'"
    using mapped_write [OF m] by blast
  ultimately show ?thesis by (intro exI [of _ m']) (simp add: mem_copy_def)
qed

lemma copy_init_mapped:
  assumes "ps_pkts st i = Some p" and "mapped (ps_mem st)" and "pk_buffer p = None"
  shows "\<exists>st1. mpp_packet_copy_init True (Some pos) st i = Inr (MPP_OK, Some (ps_new_pkt st), st1)"
proof -
  let ?k = "ps_new_pkt st"
  have own: "\<exists>st1. copy_own_data pos s ?k p = Inr st1" if "mapped (ps_mem s)" "ps_pkts s ?k = Some p" for s
  proof -
    let ?q = "p\<lparr>pk_data := pos, pk_pos := pos, pk_size := pk_length p, pk_length := pk_length p,
        pk_flag := pk_flag p OR MPP_PACKET_FLAG_INTERNAL\<rparr>"
    let ?s = "set_pkt ?k ?q (mem_malloc s pos (pk_length p + 256))"
    have m: "mapped (ps_mem ?s)"
      using that(1) by (simp add: mapped_def mem_malloc_def set_pkt_def)
    obtain m1 where "mem_copy ?s pos (pk_pos p) (pk_length p) = Inr (?s\<lparr>ps_mem := m1\<rparr>)" "mapped m1"
      using mapped_copy [OF m] by blast
    moreover obtain m2 where "mem_write m1 (pos + pk_length p) (replicate 256 0) = Inr m2"
      using mapped_write calculation(2) by blast
    moreover have "upd_pkt (mem_malloc s pos (pk_length p + 256)) ?k (\<lambda>p'. p'\<lparr>pk_data := pos, pk_pos := pos,
        pk_size := pk_length p, pk_length := pk_length p, pk_flag := pk_flag p' OR MPP_PACKET_FLAG_INTERNAL\<rparr>) = Inr ?s"
      using that(2) by (simp add: upd_pkt_def get_pkt_def mem_malloc_def)
    ultimately show ?thesis
      by (simp add: copy_own_data_def Let_def)
  qed
  let ?s2 = "set_pkt ?k p (set_pkt ?k (packet_zero\<lparr>pk_segment_buf_cnt := MPP_PKT_SEG_CNT_DEFAULT\<rparr>)
      (st\<lparr>ps_new_pkt := Suc ?k\<rparr>))"
  let ?s3 = "if pk_meta p \<noteq> None then ?s2\<lparr>ps_refs := mpp_meta_inc_ref (pk_meta p) (ps_refs ?s2)\<rparr> else ?s2"
  have "mapped (ps_mem ?s3)" "ps_pkts ?s3 ?k = Some p"
    using assms(2) by (simp_all add: set_pkt_def)
  then obtain st1 where "copy_own_data pos ?s3 ?k p = Inr st1"
    using own by blast
  then show ?thesis
    using assms(1,3) by (simp add: mpp_packet_copy_init_def get_pkt_def mpp_packet_new_def Let_def)
qed

theorem copy_init_shares_segments_witness:
  "\<exists>st st1 st2 j. mpp_packet_copy_init True (Some 0x100) st 0 = Inr (MPP_OK, Some j, st1) \<and>
    mpp_packet_deinit st1 0 = Inr (MPP_OK, st2) \<and> seg_list st2 1 j = Inl Freed_Access \<and>
    mpp_packet_deinit st2 j = Inl Freed_Access"
proof -
  let ?xs = "map (\<lambda>k. (k, 0, 1)) [1..10] :: seg_info list"
  obtain st where st: "seg_reach st [0 \<mapsto> ?xs, 1 \<mapsto> map (\<lambda>k. (k, 0, 1)) []]" "same_data demo_packets st"
    using demo_filled [of "[1..10]" "[]"] by auto
  have mem: "mapped (ps_mem st)"
    using st(2) demo_packets_data by (simp add: same_data_def mapped_def)
  have "pkt_data st 0 = Some (0x10, 0x10, 2, 2, 0, None)"
    using st(2) demo_packets_data(2) by (simp add: same_data_def)
  then obtain p where p: "ps_pkts st 0 = Some p" "pk_flag p = 0" "pk_buffer p = None"
    by (auto simp: pkt_data_def)
  obtain st1 where st1: "mpp_packet_copy_init True (Some 0x100) st 0 = Inr (MPP_OK, Some (ps_new_pkt st), st1)"
    using copy_init_mapped [OF p(1) mem p(3)] by blast
  have "[0 \<mapsto> ?xs, 1 \<mapsto> map (\<lambda>k. (k, 0, 1)) []] (0 :: nat) = Some ?xs" "?xs \<noteq> []" "8 < length ?xs"
    "pk_flag p AND MPP_PACKET_FLAG_INTERNAL = 0"
    by (simp_all add: p(2))
  with copy_init_shares_segments [OF st(1) _ _ p(1) _ st1] st1 show ?thesis
    by blast
qed

end
